(* ===== verification/Rt_Prelude.thy ===== *)
theory Rt_Prelude
  imports Main "HOL-Library.Word"
begin

unbundle bit_operations_syntax

text \<open>
  Shared vocabulary of the development: the fixed-width types of
  \<^verbatim>\<open>rtdef.h\<close>, the error codes of \<^verbatim>\<open>klibc/kerrno.h\<close>, the alignment macros, the
  flat byte-addressed memory in which the C objects live, and the generic lemmas
  on lists, words and wrapped arithmetic the component theories use.

  Conventions.  A value of an unsigned 32-bit C type is a \<^typ>\<open>nat\<close> whose
  arithmetic is written with \<open>u32_add\<close>, \<open>u32_sub\<close> and \<open>u32\<close> where the C
  expression can wrap, and a \<^typ>\<open>32 word\<close> where the code works on its bits.
  A C \<^verbatim>\<open>int\<close> is an \<^typ>\<open>int\<close>, and \<open>int32\<close> stands where an operation can leave the 32 bits.  An \<^verbatim>\<open>rt_err_t\<close> is an \<^typ>\<open>int\<close>.  \<^verbatim>\<open>RT_ASSERT\<close> expands to nothing in the
  configuration of \<^verbatim>\<open>rtos/port/rtconfig.h\<close> (no \<^verbatim>\<open>RT_DEBUGING_ASSERT\<close>), so no model
  relies on an assertion.
\<close>

named_theorems wrap_simps \<open>arithmetic that does not wrap\<close>
named_theorems stat_simps \<open>bit fields of a thread's status byte\<close>

type_synonym u8 = "8 word"
type_synonym u16 = "16 word"
type_synonym u32w = "32 word"
type_synonym rt_err_t = int
type_synonym addr = nat
type_synonym memory = "addr \<Rightarrow> u8"

section \<open>Error codes\<close>

definition RT_EOK :: rt_err_t where "RT_EOK = 0"
definition RT_ERROR :: rt_err_t where "RT_ERROR = 1"
definition RT_ETIMEOUT :: rt_err_t where "RT_ETIMEOUT = 2"
definition RT_EFULL :: rt_err_t where "RT_EFULL = 3"
definition RT_ENOSYS :: rt_err_t where "RT_ENOSYS = 6"
definition RT_EBUSY :: rt_err_t where "RT_EBUSY = 7"
definition RT_EIO :: rt_err_t where "RT_EIO = 8"
definition RT_EINTR :: rt_err_t where "RT_EINTR = 9"
definition RT_EINVAL :: rt_err_t where "RT_EINVAL = 10"
definition RT_EPERM :: rt_err_t where "RT_EPERM = 13"

lemmas rt_err_defs = RT_EOK_def RT_ERROR_def RT_ETIMEOUT_def RT_EFULL_def RT_EINTR_def RT_EINVAL_def

section \<open>Wrapped unsigned arithmetic\<close>

definition u32 :: "nat \<Rightarrow> nat" where
  "u32 n = n mod 2 ^ 32"

definition u32_add :: "nat \<Rightarrow> nat \<Rightarrow> nat" where
  "u32_add a b = (a + b) mod 2 ^ 32"

definition u32_sub :: "nat \<Rightarrow> nat \<Rightarrow> nat" where
  "u32_sub a b = (a + 2 ^ 32 - b mod 2 ^ 32) mod 2 ^ 32"

definition u31 :: "nat \<Rightarrow> nat" where
  "u31 n = n mod 2 ^ 31"

lemma u32_id [wrap_simps]: "n < 2 ^ 32 \<Longrightarrow> u32 n = n"
  by (simp add: u32_def)

lemma u31_id [wrap_simps]: "n < 2 ^ 31 \<Longrightarrow> u31 n = n"
  by (simp add: u31_def)

lemma u32_add_id [wrap_simps]: "a + b < 2 ^ 32 \<Longrightarrow> u32_add a b = a + b"
  by (simp add: u32_add_def)

lemma u32_sub_id [wrap_simps]: "b \<le> a \<Longrightarrow> a < 2 ^ 32 \<Longrightarrow> u32_sub a b = a - b"
  by (simp add: u32_sub_def mod_if)

lemma u32_sub_wrap: "a < b \<Longrightarrow> b < 2 ^ 32 \<Longrightarrow> u32_sub a b = 2 ^ 32 - (b - a)"
  by (simp add: u32_sub_def)

lemma u32_sub_bound: "u32_sub a b < 2 ^ 32"
  by (simp add: u32_sub_def)

section \<open>Wrapped signed arithmetic\<close>

text \<open>A C \<^verbatim>\<open>int\<close> is an \<^typ>\<open>int\<close>; \<open>int32\<close> is put where an operation on it can leave the 32 bits.\<close>

definition int32 :: "int \<Rightarrow> int" where
  "int32 x = (x + 2 ^ 31) mod 2 ^ 32 - 2 ^ 31"

lemma int32_id [wrap_simps]: "- (2 ^ 31) \<le> x \<Longrightarrow> x < 2 ^ 31 \<Longrightarrow> int32 x = x"
  by (simp add: int32_def)

lemma int32_range: "- (2 ^ 31) \<le> int32 x" "int32 x < 2 ^ 31"
  using pos_mod_bound [of "2 ^ 32" "x + 2 ^ 31"] pos_mod_sign [of "2 ^ 32" "x + 2 ^ 31"] by (simp_all add: int32_def)

lemma int32_mod: "int32 x mod 2 ^ 32 = x mod 2 ^ 32"
  unfolding int32_def by (metis add_diff_cancel_right' mod_diff_left_eq)

lemma int32_eqI: "x mod 2 ^ 32 = y mod 2 ^ 32 \<Longrightarrow> int32 x = int32 y"
  unfolding int32_def by (metis mod_add_left_eq)

section \<open>Alignment macros\<close>

definition RT_ALIGN_SIZE :: nat where "RT_ALIGN_SIZE = 8"

definition RT_ALIGN :: "nat \<Rightarrow> nat \<Rightarrow> nat" where
  "RT_ALIGN sz align =
     unat ((of_nat sz + of_nat align - 1 :: u32w) AND NOT (of_nat align - 1))"

definition RT_ALIGN_DOWN :: "nat \<Rightarrow> nat \<Rightarrow> nat" where
  "RT_ALIGN_DOWN sz align = unat ((of_nat sz :: u32w) AND NOT (of_nat align - 1))"

lemma and_not_mask_3: "w AND NOT 7 = push_bit 3 (drop_bit 3 (w :: u32w))"
proof -
  have "(7 :: u32w) = mask 3" by (simp add: mask_eq_exp_minus_1)
  moreover have "w AND NOT (mask 3) = push_bit 3 (drop_bit 3 w)"
    by (rule bit_eqI) (auto simp: bit_simps)
  ultimately show ?thesis by simp
qed

lemma unat_and_not_7: "unat (w AND NOT 7 :: u32w) = unat w div 8 * 8"
proof -
  have "unat (drop_bit 3 w) = unat w div 8"
    by (simp only: unat_drop_bit_eq) (simp add: drop_bit_eq_div)
  moreover have "unat w div 8 * 8 < 2 ^ 32"
    using unsigned_less [of w, where ?'a = nat] by simp
  ultimately have "unat (push_bit 3 (drop_bit 3 w)) = unat w div 8 * 8"
    by (simp add: push_bit_eq_mult unat_word_ariths)
  then show ?thesis
    by (simp only: and_not_mask_3)
qed

lemma unat_and_minus_8: "unat (w AND - 8 :: u32w) = unat w div 8 * 8"
  using unat_and_not_7 [of w] by simp

lemma RT_ALIGN_8: "RT_ALIGN n 8 = (n + 7) mod 2 ^ 32 div 8 * 8"
proof -
  have "of_nat n + of_nat 8 - 1 = (of_nat (n + 7) :: u32w)" by simp
  then show ?thesis
    by (simp add: RT_ALIGN_def unat_and_minus_8 unat_of_nat del: of_nat_add)
qed

lemma RT_ALIGN_DOWN_8: "RT_ALIGN_DOWN n 8 = n mod 2 ^ 32 div 8 * 8"
  by (simp add: RT_ALIGN_DOWN_def unat_and_minus_8 unat_of_nat)

lemma RT_ALIGN_8_ge: "n \<le> 2 ^ 32 - 8 \<Longrightarrow> n \<le> RT_ALIGN n 8"
  by (simp add: RT_ALIGN_8)

lemma RT_ALIGN_8_dvd: "8 dvd RT_ALIGN n 8"
  by (simp add: RT_ALIGN_8)

section \<open>Lists\<close>

lemma filter_neq_id [simp]: "t \<notin> set xs \<Longrightarrow> filter (\<lambda>x. x \<noteq> t) xs = xs"
  by (induction xs) auto

lemma filter_neq_distinct_Cons:
  "distinct (t # xs) \<Longrightarrow> filter (\<lambda>x. x \<noteq> t) (t # xs) = xs"
  by simp

end
