(* ===== verification/Kstring.thy ===== *)
theory Kstring
  imports Rt_Prelude
begin

text \<open>
  The memory and string routines of \<^verbatim>\<open>rtos/rt-thread/src/klibc/kstring.c\<close>, in the
  variant the configuration selects (neither \<^verbatim>\<open>RT_KLIBC_USING_LIBC_*\<close> nor
  \<^verbatim>\<open>RT_KLIBC_USING_TINY_*\<close>).  They work on the flat \<^typ>\<open>memory\<close>; a \<^verbatim>\<open>long\<close> is the
  list of its four bytes in memory order, \<^verbatim>\<open>char\<close> is unsigned as in the ARM ABI.
  A loop that only a NUL byte stops is a \<^theory_text>\<open>partial_function (option)\<close>, where
  \<^term>\<open>None\<close> means that no terminator is ever met.  The optimised block routines are
  shown equal to one-line reference functions.
\<close>

section \<open>Block routines\<close>

definition load_long :: "memory \<Rightarrow> addr \<Rightarrow> u8 list" where
  "load_long m a = [m a, m (a + 1), m (a + 2), m (a + 3)]"

definition store_long :: "memory \<Rightarrow> addr \<Rightarrow> u8 list \<Rightarrow> memory" where
  "store_long m a v = m(a := v ! 0, a + 1 := v ! 1, a + 2 := v ! 2, a + 3 := v ! 3)"

abbreviation (input) LBLOCKSIZE :: nat where "LBLOCKSIZE \<equiv> 4"
abbreviation (input) BIGBLOCKSIZE :: nat where "BIGBLOCKSIZE \<equiv> 16"

fun memset_big_loop :: "memory \<Rightarrow> addr \<Rightarrow> u8 list \<Rightarrow> nat \<Rightarrow> memory \<times> addr \<times> nat" where
  "memset_big_loop m aligned_addr buffer cnt =
     (if cnt \<ge> LBLOCKSIZE * 4 then
        memset_big_loop
          (store_long (store_long (store_long (store_long m aligned_addr buffer)
             (aligned_addr + 4) buffer) (aligned_addr + 8) buffer) (aligned_addr + 12) buffer)
          (aligned_addr + 16) buffer (cnt - 4 * LBLOCKSIZE)
      else (m, aligned_addr, cnt))"

fun memset_long_loop :: "memory \<Rightarrow> addr \<Rightarrow> u8 list \<Rightarrow> nat \<Rightarrow> memory \<times> addr \<times> nat" where
  "memset_long_loop m aligned_addr buffer cnt =
     (if cnt \<ge> LBLOCKSIZE then
        memset_long_loop (store_long m aligned_addr buffer) (aligned_addr + 4) buffer
          (cnt - LBLOCKSIZE)
      else (m, aligned_addr, cnt))"

fun memset_byte_loop :: "memory \<Rightarrow> addr \<Rightarrow> u8 \<Rightarrow> nat \<Rightarrow> memory" where
  "memset_byte_loop m p d 0 = m"
| "memset_byte_loop m p d (Suc n) = memset_byte_loop (m(p := d)) (p + 1) d n"

definition rt_memset :: "memory \<Rightarrow> addr \<Rightarrow> int \<Rightarrow> nat \<Rightarrow> addr \<times> memory" where
  "rt_memset mem s c cnt =
     (let d = (word_of_int c :: u8);
          (m1, p, n) =
            (if \<not> cnt < LBLOCKSIZE \<and> s AND (LBLOCKSIZE - 1) = 0 then
               (let buffer = [d, d, d, d];
                    (m2, a2, n2) = memset_big_loop mem s buffer cnt
                in memset_long_loop m2 a2 buffer n2)
             else (mem, s, cnt))
      in (s, memset_byte_loop m1 p d n))"

fun memcpy_big_loop :: "memory \<Rightarrow> addr \<Rightarrow> addr \<Rightarrow> nat \<Rightarrow> memory \<times> addr \<times> addr \<times> nat" where
  "memcpy_big_loop m d s len =
     (if len \<ge> BIGBLOCKSIZE then
        (let m1 = store_long m d (load_long m s);
             m2 = store_long m1 (d + 4) (load_long m1 (s + 4));
             m3 = store_long m2 (d + 8) (load_long m2 (s + 8));
             m4 = store_long m3 (d + 12) (load_long m3 (s + 12))
         in memcpy_big_loop m4 (d + 16) (s + 16) (len - BIGBLOCKSIZE))
      else (m, d, s, len))"

fun memcpy_long_loop :: "memory \<Rightarrow> addr \<Rightarrow> addr \<Rightarrow> nat \<Rightarrow> memory \<times> addr \<times> addr \<times> nat" where
  "memcpy_long_loop m d s len =
     (if len \<ge> LBLOCKSIZE then
        memcpy_long_loop (store_long m d (load_long m s)) (d + 4) (s + 4) (len - LBLOCKSIZE)
      else (m, d, s, len))"

fun copy_forward :: "memory \<Rightarrow> addr \<Rightarrow> addr \<Rightarrow> nat \<Rightarrow> memory" where
  "copy_forward m d s 0 = m"
| "copy_forward m d s (Suc n) = copy_forward (m(d := m s)) (d + 1) (s + 1) n"

definition rt_memcpy :: "memory \<Rightarrow> addr \<Rightarrow> addr \<Rightarrow> nat \<Rightarrow> addr \<times> memory" where
  "rt_memcpy mem dst src cnt =
     (let (m1, d, s, len) =
            (if \<not> cnt < BIGBLOCKSIZE \<and> (src AND 3) OR (dst AND 3) = 0 then
               (let (m2, d2, s2, n2) = memcpy_big_loop mem dst src cnt
                in memcpy_long_loop m2 d2 s2 n2)
             else (mem, dst, src, cnt))
      in (dst, copy_forward m1 d s len))"

fun copy_backward :: "memory \<Rightarrow> addr \<Rightarrow> addr \<Rightarrow> nat \<Rightarrow> memory" where
  "copy_backward m d s 0 = m"
| "copy_backward m d s (Suc n) = copy_backward (m(d + n := m (s + n))) d s n"

definition rt_memmove :: "memory \<Rightarrow> addr \<Rightarrow> addr \<Rightarrow> nat \<Rightarrow> addr \<times> memory" where
  "rt_memmove m dest src n =
     (if src < dest \<and> dest < src + n then (dest, copy_backward m dest src n)
      else (dest, copy_forward m dest src n))"

fun rt_memcmp :: "memory \<Rightarrow> addr \<Rightarrow> addr \<Rightarrow> nat \<Rightarrow> int" where
  "rt_memcmp m cs ct 0 = 0"
| "rt_memcmp m cs ct (Suc n) =
     (let res = uint (m cs) - uint (m ct)
      in if res \<noteq> 0 then res else rt_memcmp m (cs + 1) (ct + 1) n)"

section \<open>String routines\<close>

partial_function (option) strlen_loop :: "memory \<Rightarrow> addr \<Rightarrow> addr \<Rightarrow> nat option" where
  "strlen_loop m s sc = (if m sc \<noteq> 0 then strlen_loop m s (sc + 1) else Some (sc - s))"

definition rt_strlen :: "memory \<Rightarrow> addr \<Rightarrow> nat option" where
  "rt_strlen m s = strlen_loop m s s"

function strnlen_loop :: "memory \<Rightarrow> addr \<Rightarrow> nat \<Rightarrow> nat \<Rightarrow> nat" where
  "strnlen_loop m s maxlen i =
     (if m (s + i) \<noteq> 0 \<and> i < maxlen then strnlen_loop m s maxlen (i + 1) else i)"
  by pat_completeness auto
termination
  by (relation "measure (\<lambda>(m, s, maxlen, i). maxlen - i)") auto

text \<open>The loop variable \<^verbatim>\<open>sc\<close> of the source is \<open>s + i\<close>.\<close>

definition rt_strnlen :: "memory \<Rightarrow> addr \<Rightarrow> nat \<Rightarrow> nat" where
  "rt_strnlen m s maxlen = strnlen_loop m s maxlen 0"

fun strstr_loop :: "memory \<Rightarrow> addr \<Rightarrow> addr \<Rightarrow> nat \<Rightarrow> nat \<Rightarrow> addr option" where
  "strstr_loop m s1 s2 l2 l1 =
     (if l1 \<ge> l2 \<and> l1 > 0 then
        (if rt_memcmp m s1 s2 l2 = 0 then Some s1 else strstr_loop m (s1 + 1) s2 l2 (l1 - 1))
      else None)"

text \<open>
  The result \<^term>\<open>Some (Some p)\<close> is the pointer \<^term>\<open>p\<close>, \<^term>\<open>Some None\<close> is
  \<^verbatim>\<open>RT_NULL\<close>; the outer \<^term>\<open>None\<close> is the divergence of \<^verbatim>\<open>rt_strlen\<close> on an unterminated
  string.  In the loop \<open>l2\<close> is not zero, so the guard \<open>l1 > 0\<close> follows from
  \<open>l1 \<ge> l2\<close>.
\<close>

definition rt_strstr :: "memory \<Rightarrow> addr \<Rightarrow> addr \<Rightarrow> addr option option" where
  "rt_strstr m s1 s2 =
     (case rt_strlen m s2 of
        None \<Rightarrow> None
      | Some l2 \<Rightarrow>
          if l2 = 0 then Some (Some s1)
          else (case rt_strlen m s1 of
                  None \<Rightarrow> None
                | Some l1 \<Rightarrow> Some (strstr_loop m s1 s2 l2 l1)))"

definition to_lower_ascii :: "int \<Rightarrow> int" where
  "to_lower_ascii c = (if c \<ge> 65 \<and> c \<le> 90 then c + 32 else c)"

partial_function (option) rt_strcasecmp :: "memory \<Rightarrow> addr \<Rightarrow> addr \<Rightarrow> int option" where
  "rt_strcasecmp m a b =
     (let ca = to_lower_ascii (uint (m a)); cb = to_lower_ascii (uint (m b))
      in if ca = cb \<and> ca \<noteq> 0 then rt_strcasecmp m (a + 1) (b + 1) else Some (ca - cb))"

fun strncpy_pad_loop :: "memory \<Rightarrow> addr \<Rightarrow> nat \<Rightarrow> memory" where
  "strncpy_pad_loop m d 0 = m"
| "strncpy_pad_loop m d (Suc n) = strncpy_pad_loop (m(d := 0)) (d + 1) n"

fun strncpy_loop :: "memory \<Rightarrow> addr \<Rightarrow> addr \<Rightarrow> nat \<Rightarrow> memory" where
  "strncpy_loop m d s 0 = m"
| "strncpy_loop m d s (Suc n) =
     (let m' = m(d := m s)
      in if m s = 0 then strncpy_pad_loop m' (d + 1) n
         else strncpy_loop m' (d + 1) (s + 1) n)"

definition rt_strncpy :: "memory \<Rightarrow> addr \<Rightarrow> addr \<Rightarrow> nat \<Rightarrow> addr \<times> memory" where
  "rt_strncpy m dst src n = (dst, if n \<noteq> 0 then strncpy_loop m dst src n else m)"

partial_function (option) strcpy_loop :: "memory \<Rightarrow> addr \<Rightarrow> addr \<Rightarrow> memory option" where
  "strcpy_loop m dst src =
     (if m src \<noteq> 0 then strcpy_loop (m(dst := m src)) (dst + 1) (src + 1)
      else Some (m(dst := 0)))"

definition rt_strcpy :: "memory \<Rightarrow> addr \<Rightarrow> addr \<Rightarrow> (addr \<times> memory) option" where
  "rt_strcpy m dst src = map_option (\<lambda>m'. (dst, m')) (strcpy_loop m dst src)"

text \<open>\<^verbatim>\<open>signed char res\<close>: the difference is truncated to eight bits and read back signed.\<close>

definition signed_char :: "int \<Rightarrow> int" where
  "signed_char i = sint (word_of_int i :: u8)"

fun strncmp_loop :: "memory \<Rightarrow> addr \<Rightarrow> addr \<Rightarrow> nat \<Rightarrow> int \<Rightarrow> int" where
  "strncmp_loop m cs ct 0 res = res"
| "strncmp_loop m cs ct (Suc n) res =
     (let res' = signed_char (uint (m cs) - uint (m ct))
      in if res' \<noteq> 0 \<or> m cs = 0 then res' else strncmp_loop m (cs + 1) (ct + 1) n res')"

definition rt_strncmp :: "memory \<Rightarrow> addr \<Rightarrow> addr \<Rightarrow> nat \<Rightarrow> int" where
  "rt_strncmp m cs ct n = strncmp_loop m cs ct n 0"

partial_function (option) rt_strcmp :: "memory \<Rightarrow> addr \<Rightarrow> addr \<Rightarrow> int option" where
  "rt_strcmp m cs ct =
     (if m cs \<noteq> 0 \<and> m cs = m ct then rt_strcmp m (cs + 1) (ct + 1)
      else Some (uint (m cs) - uint (m ct)))"

declare memset_big_loop.simps [simp del] memset_long_loop.simps [simp del]
  memcpy_big_loop.simps [simp del] memcpy_long_loop.simps [simp del]
  strnlen_loop.simps [simp del] strstr_loop.simps [simp del]

section \<open>Copying: the optimised loops equal a reference copy\<close>

definition block_copy :: "memory \<Rightarrow> addr \<Rightarrow> addr \<Rightarrow> nat \<Rightarrow> memory" where
  "block_copy m d s n = (\<lambda>a. if d \<le> a \<and> a < d + n then m (s + (a - d)) else m a)"

text \<open>The contents of a block of memory.\<close>

definition bytes_at :: "memory \<Rightarrow> addr \<Rightarrow> nat \<Rightarrow> u8 list" where
  "bytes_at m p n = map (\<lambda>i. m (p + i)) [0..<n]"

lemma length_bytes_at [simp]: "length (bytes_at m p n) = n"
  by (simp add: bytes_at_def)

lemma bytes_at_frame: "(\<And>a. p \<le> a \<Longrightarrow> a < p + n \<Longrightarrow> m' a = m a) \<Longrightarrow> bytes_at m' p n = bytes_at m p n"
  by (simp add: bytes_at_def)

lemma bytes_at_block_copy: "bytes_at (block_copy m d s n) d n = bytes_at m s n"
  by (simp add: bytes_at_def block_copy_def)

lemma bytes_at_block_copy_apart: "p + k \<le> d \<or> d + n \<le> p \<Longrightarrow> bytes_at (block_copy m d s n) p k = bytes_at m p k"
  by (rule bytes_at_frame) (auto simp: block_copy_def)

lemma take_bytes_at: "k \<le> n \<Longrightarrow> take k (bytes_at m p n) = bytes_at m p k"
  by (simp add: bytes_at_def take_map)

lemma copy_forward_add:
  "copy_forward m d s (a + b) = copy_forward (copy_forward m d s a) (d + a) (s + a) b"
  by (induction a arbitrary: m d s) auto

lemma copy_forward_eq:
  assumes "d \<le> s \<or> s + n \<le> d"
  shows "copy_forward m d s n = block_copy m d s n"
  using assms
proof (induction n arbitrary: m d s)
  case 0
  show ?case by (auto simp: block_copy_def fun_eq_iff)
next
  case (Suc n)
  have "copy_forward m d s (Suc n) = block_copy (m(d := m s)) (d + 1) (s + 1) n"
    unfolding copy_forward.simps by (rule Suc.IH) (use Suc.prems in auto)
  also have "\<dots> = block_copy m d s (Suc n)"
  proof
    fix a
    show "block_copy (m(d := m s)) (d + 1) (s + 1) n a = block_copy m d s (Suc n) a"
    proof (cases "d + 1 \<le> a")
      case True
      then obtain k where "a = d + 1 + k" using le_Suc_ex by blast
      with Suc.prems show ?thesis by (auto simp: block_copy_def)
    next
      case False
      then show ?thesis by (auto simp: block_copy_def le_Suc_eq)
    qed
  qed
  finally show ?case .
qed

lemma store_load_long:
  assumes "d \<le> s \<or> s + 4 \<le> d"
  shows "store_long m d (load_long m s) = copy_forward m d s 4"
proof -
  have "copy_forward m d s 4 = block_copy m d s 4"
    using assms by (rule copy_forward_eq)
  moreover have "store_long m d (load_long m s) = block_copy m d s 4"
  proof
    fix a
    consider "a < d" | "a = d" | "a = d + 1" | "a = d + 2" | "a = d + 3" | "a \<ge> d + 4"
      by linarith
    then show "store_long m d (load_long m s) a = block_copy m d s 4 a"
      by cases (simp_all add: store_long_def load_long_def block_copy_def)
  qed
  ultimately show ?thesis by simp
qed

lemma memcpy_long_loop_copies:
  assumes "d \<le> s \<or> s + len \<le> d" and "memcpy_long_loop m d s len = (m', d', s', len')"
  shows "copy_forward m' d' s' len' = copy_forward m d s len"
  using assms
proof (induction m d s len rule: memcpy_long_loop.induct)
  case (1 m d s len)
  show ?case
  proof (cases "len \<ge> LBLOCKSIZE")
    case True
    have "copy_forward m' d' s' len' =
        copy_forward (store_long m d (load_long m s)) (d + 4) (s + 4) (len - 4)"
      using "1.IH" "1.prems" True by (auto simp: memcpy_long_loop.simps [of m d s len])
    moreover have "store_long m d (load_long m s) = copy_forward m d s 4"
      using "1.prems"(1) True by (intro store_load_long) auto
    ultimately show ?thesis
      using copy_forward_add [of m d s 4 "len - 4"] True by simp
  next
    case False
    then show ?thesis using "1.prems" by (simp add: memcpy_long_loop.simps [of m d s len])
  qed
qed

lemma copy_16_steps:
  assumes "d \<le> s \<or> s + 16 \<le> d"
  shows "(let m1 = store_long m d (load_long m s);
              m2 = store_long m1 (d + 4) (load_long m1 (s + 4));
              m3 = store_long m2 (d + 8) (load_long m2 (s + 8))
          in store_long m3 (d + 12) (load_long m3 (s + 12))) = copy_forward m d s 16"
proof -
  have split: "copy_forward m d s 16 =
      copy_forward (copy_forward (copy_forward (copy_forward m d s 4) (d + 4) (s + 4) 4)
        (d + 8) (s + 8) 4) (d + 12) (s + 12) 4"
    using copy_forward_add [of m d s 4 12] copy_forward_add [of _ "d + 4" "s + 4" 4 8]
      copy_forward_add [of _ "d + 8" "s + 8" 4 4] by (simp add: add.assoc)
  have step: "store_long x (d + k) (load_long x (s + k)) = copy_forward x (d + k) (s + k) 4"
    if "k \<le> 12" for x k
    using assms that by (intro store_load_long) auto
  show ?thesis
    unfolding Let_def split using step [of 0] step [of 4] step [of 8] step [of 12] by simp
qed

lemma memcpy_big_loop_copies:
  assumes "d \<le> s \<or> s + len \<le> d" and "memcpy_big_loop m d s len = (m', d', s', len')"
  shows "copy_forward m' d' s' len' = copy_forward m d s len \<and> (d' \<le> s' \<or> s' + len' \<le> d')"
  using assms
proof (induction m d s len rule: memcpy_big_loop.induct)
  case (1 m d s len)
  show ?case
  proof (cases "len \<ge> BIGBLOCKSIZE")
    case True
    have step: "memcpy_big_loop m d s len =
        memcpy_big_loop (copy_forward m d s 16) (d + 16) (s + 16) (len - 16)"
      using copy_16_steps [of d s m] "1.prems"(1) True
      by (subst memcpy_big_loop.simps) (auto simp: Let_def)
    have IH: "copy_forward m' d' s' len' =
        copy_forward (copy_forward m d s 16) (d + 16) (s + 16) (len - 16)
        \<and> (d' \<le> s' \<or> s' + len' \<le> d')"
      using "1.IH" [OF True refl refl refl refl] "1.prems" True step
        copy_16_steps [of d s m] by (auto simp: Let_def)
    then show ?thesis
      using copy_forward_add [of m d s 16 "len - 16"] True by simp
  next
    case False
    then show ?thesis using "1.prems" by (simp add: memcpy_big_loop.simps [of m d s len])
  qed
qed

lemma rt_memcpy_eq:
  assumes "dst \<le> src \<or> src + cnt \<le> dst"
  shows "rt_memcpy m dst src cnt = (dst, block_copy m dst src cnt)"
proof -
  obtain m2 d2 s2 n2 where big: "memcpy_big_loop m dst src cnt = (m2, d2, s2, n2)"
    by (metis prod_cases4)
  obtain m3 d3 s3 n3 where long: "memcpy_long_loop m2 d2 s2 n2 = (m3, d3, s3, n3)"
    by (metis prod_cases4)
  from memcpy_big_loop_copies [OF assms big]
  have "copy_forward m2 d2 s2 n2 = copy_forward m dst src cnt" and "d2 \<le> s2 \<or> s2 + n2 \<le> d2"
    by auto
  moreover from this(2) long have "copy_forward m3 d3 s3 n3 = copy_forward m2 d2 s2 n2"
    by (rule memcpy_long_loop_copies)
  ultimately show ?thesis
    using big long by (simp add: rt_memcpy_def copy_forward_eq [OF assms])
qed

lemma copy_backward_eq:
  assumes "s < d"
  shows "copy_backward m d s n = block_copy m d s n"
proof (induction n arbitrary: m)
  case 0
  show ?case by (auto simp: block_copy_def fun_eq_iff)
next
  case (Suc n)
  have "copy_backward m d s (Suc n) = block_copy (m(d + n := m (s + n))) d s n"
    by (simp only: copy_backward.simps Suc.IH)
  also have "\<dots> = block_copy m d s (Suc n)"
    using assms by (auto simp: block_copy_def fun_eq_iff)
  finally show ?case .
qed

lemma rt_memmove_eq: "rt_memmove m dest src n = (dest, block_copy m dest src n)"
proof (cases "src < dest \<and> dest < src + n")
  case True
  then show ?thesis by (simp add: rt_memmove_def copy_backward_eq)
next
  case False
  then have "dest \<le> src \<or> src + n \<le> dest" by linarith
  with False show ?thesis by (auto simp: rt_memmove_def copy_forward_eq)
qed

section \<open>Filling and comparing blocks\<close>

definition block_fill :: "memory \<Rightarrow> addr \<Rightarrow> u8 \<Rightarrow> nat \<Rightarrow> memory" where
  "block_fill m p d n = (\<lambda>a. if p \<le> a \<and> a < p + n then d else m a)"

lemma memset_byte_loop_eq: "memset_byte_loop m p d n = block_fill m p d n"
  by (induction n arbitrary: m p) (auto simp: block_fill_def fun_eq_iff)

lemma block_fill_add: "block_fill (block_fill m p d a) (p + a) d b = block_fill m p d (a + b)"
  by (auto simp: block_fill_def fun_eq_iff)

lemma store_long_fill: "store_long m p [d, d, d, d] = block_fill m p d 4"
proof
  fix a
  consider "a < p" | "a = p" | "a = p + 1" | "a = p + 2" | "a = p + 3" | "a \<ge> p + 4"
    by linarith
  then show "store_long m p [d, d, d, d] a = block_fill m p d 4 a"
    by cases (simp_all add: store_long_def block_fill_def)
qed

lemma memset_long_loop_fills:
  "memset_long_loop m p [d, d, d, d] n = (m', p', n') \<Longrightarrow>
   block_fill m' p' d n' = block_fill m p d n"
proof (induction m p "[d, d, d, d]" n rule: memset_long_loop.induct)
  case (1 m p n)
  show ?case
  proof (cases "n \<ge> 4")
    case True
    with 1 have "block_fill m' p' d n' = block_fill (block_fill m p d 4) (p + 4) d (n - 4)"
      by (simp add: memset_long_loop.simps [of m p _ n] store_long_fill)
    with True show ?thesis by (simp add: block_fill_add)
  next
    case False
    with 1 show ?thesis by (simp add: memset_long_loop.simps [of m p _ n])
  qed
qed

lemma store_4_fill:
  "store_long (store_long (store_long (store_long m p [d, d, d, d]) (p + 4) [d, d, d, d])
     (p + 8) [d, d, d, d]) (p + 12) [d, d, d, d] = block_fill m p d 16"
  using block_fill_add [of m p d 4 4] block_fill_add [of m p d 8 4] block_fill_add [of m p d 12 4]
  by (simp add: store_long_fill)

lemma memset_big_loop_fills:
  "memset_big_loop m p [d, d, d, d] n = (m', p', n') \<Longrightarrow>
   block_fill m' p' d n' = block_fill m p d n"
proof (induction m p "[d, d, d, d]" n rule: memset_big_loop.induct)
  case (1 m p n)
  show ?case
  proof (cases "n \<ge> 16")
    case True
    with 1 have "block_fill m' p' d n' = block_fill (block_fill m p d 16) (p + 16) d (n - 16)"
      by (simp add: memset_big_loop.simps [of m p _ n] store_4_fill)
    with True show ?thesis by (simp add: block_fill_add)
  next
    case False
    with 1 show ?thesis by (simp add: memset_big_loop.simps [of m p _ n])
  qed
qed

lemma rt_memset_eq: "rt_memset m s c n = (s, block_fill m s (word_of_int c) n)"
proof -
  let ?d = "word_of_int c :: u8"
  obtain m2 a2 n2 where big: "memset_big_loop m s [?d, ?d, ?d, ?d] n = (m2, a2, n2)"
    by (metis prod_cases3)
  obtain m3 a3 n3 where long: "memset_long_loop m2 a2 [?d, ?d, ?d, ?d] n2 = (m3, a3, n3)"
    by (metis prod_cases3)
  show ?thesis
    using memset_big_loop_fills [OF big] memset_long_loop_fills [OF long] big long
    by (simp add: rt_memset_def Let_def memset_byte_loop_eq)
qed

lemma rt_memcmp_zero_iff: "rt_memcmp m cs ct n = 0 \<longleftrightarrow> (\<forall>i<n. m (cs + i) = m (ct + i))"
proof (induction n arbitrary: cs ct)
  case 0
  show ?case by simp
next
  case (Suc n)
  show ?case
    using Suc.IH [of "cs + 1" "ct + 1"]
    by (auto simp: Let_def less_Suc_eq_0_disj word_uint_eq_iff)
qed

section \<open>NUL-terminated strings\<close>

definition cstr_at :: "memory \<Rightarrow> addr \<Rightarrow> u8 list \<Rightarrow> bool" where
  "cstr_at m s xs \<longleftrightarrow>
     (\<forall>i<length xs. m (s + i) = xs ! i \<and> xs ! i \<noteq> 0) \<and> m (s + length xs) = 0"

lemma cstr_at_Nil [simp]: "cstr_at m s [] \<longleftrightarrow> m s = 0"
  by (simp add: cstr_at_def)

lemma cstr_at_Cons [simp]: "cstr_at m s (x # xs) \<longleftrightarrow> m s = x \<and> x \<noteq> 0 \<and> cstr_at m (s + 1) xs"
  by (auto simp: cstr_at_def less_Suc_eq_0_disj)

lemma strlen_loop_cstr: "cstr_at m sc xs \<Longrightarrow> s \<le> sc \<Longrightarrow> strlen_loop m s sc = Some (sc - s + length xs)"
  by (induction xs arbitrary: sc) (auto simp: strlen_loop.simps)

lemma rt_strlen_cstr: "cstr_at m s xs \<Longrightarrow> rt_strlen m s = Some (length xs)"
  by (simp add: rt_strlen_def strlen_loop_cstr)

lemma strnlen_loop_cstr:
  "cstr_at m (s + i) xs \<Longrightarrow> i \<le> maxlen \<Longrightarrow> strnlen_loop m s maxlen i = min maxlen (i + length xs)"
proof (induction xs arbitrary: i)
  case Nil
  then show ?case by (simp add: strnlen_loop.simps [of m s maxlen i])
next
  case (Cons x xs)
  then show ?case
    by (cases "i < maxlen")
      (simp_all add: strnlen_loop.simps [of m s maxlen i] strnlen_loop.simps [of m s maxlen maxlen])
qed

lemma rt_strnlen_cstr: "cstr_at m s xs \<Longrightarrow> rt_strnlen m s maxlen = min maxlen (length xs)"
  using strnlen_loop_cstr [of m s 0 xs maxlen] by (simp add: rt_strnlen_def)

fun str_diff :: "int list \<Rightarrow> int list \<Rightarrow> int" where
  "str_diff [] [] = 0"
| "str_diff [] (y # ys) = - y"
| "str_diff (x # xs) [] = x"
| "str_diff (x # xs) (y # ys) = (if x = y then str_diff xs ys else x - y)"

lemma rt_strcmp_cstr:
  "cstr_at m cs xs \<Longrightarrow> cstr_at m ct ys \<Longrightarrow>
   rt_strcmp m cs ct = Some (str_diff (map uint xs) (map uint ys))"
proof (induction "map uint xs" "map uint ys" arbitrary: xs ys cs ct rule: str_diff.induct)
  case (4 x xs' y ys')
  then show ?case
    by (auto simp: Cons_eq_map_conv rt_strcmp.simps [of m cs ct] word_uint_eq_iff)
qed (auto simp: rt_strcmp.simps [of m] Cons_eq_map_conv)

lemma str_diff_zero_iff:
  "\<forall>x\<in>set xs. x > 0 \<Longrightarrow> \<forall>y\<in>set ys. y > 0 \<Longrightarrow> str_diff xs ys = 0 \<longleftrightarrow> xs = ys"
  by (induction xs ys rule: str_diff.induct) auto

definition lower_word :: "u8 \<Rightarrow> int" where
  "lower_word w = to_lower_ascii (uint w)"

lemma lower_word_zero: "lower_word w = 0 \<longleftrightarrow> w = 0"
  by (auto simp: lower_word_def to_lower_ascii_def uint_0_iff)

lemma lower_word_0 [simp]: "lower_word 0 = 0"
  by (simp add: lower_word_zero)

lemma rt_strcasecmp_unfold:
  "rt_strcasecmp m a b =
     (if lower_word (m a) = lower_word (m b) \<and> m a \<noteq> 0 then rt_strcasecmp m (a + 1) (b + 1)
      else Some (lower_word (m a) - lower_word (m b)))"
  by (subst rt_strcasecmp.simps) (simp add: Let_def lower_word_zero flip: lower_word_def)

lemma rt_strcasecmp_cstr:
  "cstr_at m a xs \<Longrightarrow> cstr_at m b ys \<Longrightarrow>
   rt_strcasecmp m a b = Some (str_diff (map lower_word xs) (map lower_word ys))"
proof (induction xs arbitrary: ys a b)
  case Nil
  then show ?case
    by (cases ys) (auto simp: rt_strcasecmp_unfold [of m a b] lower_word_zero)
next
  case (Cons x xs)
  then show ?case
    by (cases ys) (auto simp: rt_strcasecmp_unfold [of m a b] lower_word_zero)
qed

lemma signed_char_0: "signed_char 0 = 0"
  by (simp add: signed_char_def)

lemma signed_char_zero_iff:
  assumes "- 256 < i" and "i < 256"
  shows "signed_char i = 0 \<longleftrightarrow> i = 0"
proof -
  have "signed_char i = 0 \<longleftrightarrow> (word_of_int i :: u8) = 0"
    by (simp add: signed_char_def signed_eq_0_iff)
  also have "\<dots> \<longleftrightarrow> i mod 256 = 0"
    by (simp add: word_uint_eq_iff uint_word_of_int)
  also have "\<dots> \<longleftrightarrow> i = 0"
    using assms by presburger
  finally show ?thesis .
qed

lemma uint_u8_bounds: "0 \<le> uint (w :: u8)" "uint (w :: u8) < 256"
  using unsigned_less [of w, where ?'a = int] by simp_all

lemma signed_char_diff_zero_iff: "signed_char (uint (a :: u8) - uint (b :: u8)) = 0 \<longleftrightarrow> a = b"
proof -
  have "- 256 < uint a - uint b" "uint a - uint b < 256"
    using uint_u8_bounds [of a] uint_u8_bounds [of b] by linarith+
  then show ?thesis by (simp add: signed_char_zero_iff word_uint_eq_iff)
qed

lemma strncmp_loop_cstr:
  "cstr_at m cs xs \<Longrightarrow> cstr_at m ct ys \<Longrightarrow>
   strncmp_loop m cs ct n (signed_char 0) =
     signed_char (str_diff (map uint (take n xs)) (map uint (take n ys)))"
proof (induction n arbitrary: cs ct xs ys)
  case 0
  show ?case by simp
next
  case (Suc n)
  show ?case
  proof (cases xs)
    case Nil
    then show ?thesis using Suc.prems by (cases ys) (simp_all add: Let_def)
  next
    case (Cons x xs')
    note xs = this
    show ?thesis
    proof (cases ys)
      case Nil
      then show ?thesis using Suc.prems xs signed_char_diff_zero_iff [of x 0]
        by (simp add: Let_def)
    next
      case (Cons y ys')
      then show ?thesis
        using Suc.prems xs Suc.IH [of "cs + 1" xs' "ct + 1" ys'] signed_char_diff_zero_iff [of x y]
        by (auto simp: Let_def signed_char_0 word_uint_eq_iff)
    qed
  qed
qed

lemma rt_strncmp_cstr:
  "cstr_at m cs xs \<Longrightarrow> cstr_at m ct ys \<Longrightarrow>
   rt_strncmp m cs ct n = signed_char (str_diff (map uint (take n xs)) (map uint (take n ys)))"
  using strncmp_loop_cstr by (simp add: rt_strncmp_def signed_char_0)

lemma str_diff_bound:
  "\<forall>x\<in>set xs. 0 \<le> x \<and> x < b \<Longrightarrow> \<forall>y\<in>set ys. 0 \<le> y \<and> y < b \<Longrightarrow> 0 < b \<Longrightarrow>
   - b < str_diff xs ys \<and> str_diff xs ys < b"
  by (induction xs ys rule: str_diff.induct) (auto simp: algebra_simps)

lemma cstr_at_nonzero: "cstr_at m s xs \<Longrightarrow> 0 \<notin> set xs"
  by (auto simp: cstr_at_def in_set_conv_nth)

lemma cstr_at_pos:
  assumes "cstr_at m s xs"
  shows "\<forall>x\<in>set (map uint (take n xs)). 0 < x \<and> x < 256"
proof -
  have "0 < uint w" if "w \<noteq> 0" for w :: u8
    using that uint_u8_bounds(1) [of w] uint_0_iff [of w] by linarith
  with cstr_at_nonzero [OF assms] show ?thesis
    by (auto simp: uint_u8_bounds(2)) (metis in_set_takeD)
qed

lemma rt_strncmp_zero_iff:
  assumes "cstr_at m cs xs" and "cstr_at m ct ys"
  shows "rt_strncmp m cs ct n = 0 \<longleftrightarrow> take n xs = take n ys"
proof -
  let ?x = "map uint (take n xs)" and ?y = "map uint (take n ys)"
  have pos: "\<forall>x\<in>set ?x. 0 < x \<and> x < 256" "\<forall>y\<in>set ?y. 0 < y \<and> y < 256"
    using cstr_at_pos [OF assms(1)] cstr_at_pos [OF assms(2)] by blast+
  have "- 256 < str_diff ?x ?y \<and> str_diff ?x ?y < 256"
    by (rule str_diff_bound) (use pos in \<open>auto simp: less_imp_le\<close>)
  then have "rt_strncmp m cs ct n = 0 \<longleftrightarrow> str_diff ?x ?y = 0"
    by (simp add: rt_strncmp_cstr [OF assms] signed_char_zero_iff)
  also have "\<dots> \<longleftrightarrow> ?x = ?y"
    using pos by (intro str_diff_zero_iff) auto
  also have "\<dots> \<longleftrightarrow> take n xs = take n ys"
    by (simp add: inj_on_def word_uint_eq_iff)
  finally show ?thesis .
qed

section \<open>String copies\<close>

lemma strncpy_pad_loop_eq: "strncpy_pad_loop m d n = block_fill m d 0 n"
  by (induction n arbitrary: m d) (auto simp: block_fill_def fun_eq_iff)

lemma cstr_at_upd:
  "cstr_at m s xs \<Longrightarrow> a < s \<or> s + length xs < a \<Longrightarrow> cstr_at (m(a := v)) s xs"
  by (auto simp: cstr_at_def)

text \<open>What a bounded string copy leaves in memory: the string, cut or padded with NUL bytes to
  exactly \<open>n\<close> bytes.\<close>

definition padded_copy :: "memory \<Rightarrow> addr \<Rightarrow> u8 list \<Rightarrow> nat \<Rightarrow> memory" where
  "padded_copy m d xs n =
     (\<lambda>a. if d \<le> a \<and> a < d + n then (if a - d < length xs then xs ! (a - d) else 0) else m a)"

lemma padded_copy_Suc:
  "padded_copy (m(d := x)) (Suc d) xs n = padded_copy m d (x # xs) (Suc n)"
proof
  fix a
  show "padded_copy (m(d := x)) (Suc d) xs n a = padded_copy m d (x # xs) (Suc n) a"
  proof (cases "d + 1 \<le> a")
    case True
    then obtain k where "a = d + 1 + k" using le_Suc_ex by blast
    then show ?thesis by (simp add: padded_copy_def)
  next
    case False
    then show ?thesis by (auto simp: padded_copy_def le_Suc_eq)
  qed
qed

lemma strncpy_loop_eq:
  assumes "cstr_at m s xs" and "d + n \<le> s \<or> s + length xs < d"
  shows "strncpy_loop m d s n = padded_copy m d xs n"
  using assms
proof (induction n arbitrary: m d s xs)
  case 0
  show ?case by (auto simp: padded_copy_def fun_eq_iff)
next
  case (Suc n)
  show ?case
  proof (cases xs)
    case Nil
    with Suc.prems show ?thesis
      by (auto simp: Let_def strncpy_pad_loop_eq block_fill_def padded_copy_def fun_eq_iff)
  next
    case (Cons x xs')
    with Suc.prems have "cstr_at (m(d := x)) (s + 1) xs'"
      by (intro cstr_at_upd) auto
    then have "strncpy_loop (m(d := x)) (d + 1) (s + 1) n = padded_copy (m(d := x)) (d + 1) xs' n"
      by (rule Suc.IH) (use Suc.prems Cons in auto)
    with Suc.prems Cons show ?thesis
      by (simp add: Let_def padded_copy_Suc)
  qed
qed

lemma strcpy_loop_eq:
  assumes "cstr_at m s xs" and "d + length xs < s \<or> s + length xs < d"
  shows "strcpy_loop m d s = Some (padded_copy m d xs (length xs + 1))"
  using assms
proof (induction xs arbitrary: m d s)
  case Nil
  then show ?case
    by (auto simp: strcpy_loop.simps [of m d s] padded_copy_def fun_eq_iff)
next
  case (Cons x xs)
  then have "cstr_at (m(d := x)) (s + 1) xs"
    by (intro cstr_at_upd) auto
  then have "strcpy_loop (m(d := x)) (d + 1) (s + 1) =
      Some (padded_copy (m(d := x)) (d + 1) xs (length xs + 1))"
    by (rule Cons.IH) (use Cons.prems in auto)
  with Cons.prems show ?case
    by (simp add: strcpy_loop.simps [of m d s] padded_copy_Suc)
qed

section \<open>Substring search\<close>

definition occurs_at :: "u8 list \<Rightarrow> u8 list \<Rightarrow> nat \<Rightarrow> bool" where
  "occurs_at xs ys i \<longleftrightarrow> i + length ys \<le> length xs \<and> take (length ys) (drop i xs) = ys"

lemma memcmp_prefix:
  assumes "cstr_at m s1 xs" and "cstr_at m s2 ys" and "i + length ys \<le> length xs"
  shows "rt_memcmp m (s1 + i) s2 (length ys) = 0 \<longleftrightarrow> occurs_at xs ys i"
proof -
  have "rt_memcmp m (s1 + i) s2 (length ys) = 0 \<longleftrightarrow> (\<forall>j<length ys. xs ! (i + j) = ys ! j)"
    using assms by (auto simp: rt_memcmp_zero_iff cstr_at_def add.assoc)
  also have "\<dots> \<longleftrightarrow> occurs_at xs ys i"
    using assms(3) by (auto simp: occurs_at_def list_eq_iff_nth_eq)
  finally show ?thesis .
qed

lemma strstr_loop_cstr:
  assumes "cstr_at m s1 xs" and "cstr_at m s2 ys" and "ys \<noteq> []"
  shows "i + l1 = length xs \<Longrightarrow> \<forall>j<i. \<not> occurs_at xs ys j \<Longrightarrow>
    (case strstr_loop m (s1 + i) s2 (length ys) l1 of
       None \<Rightarrow> \<forall>j. \<not> occurs_at xs ys j
     | Some p \<Rightarrow> \<exists>k. p = s1 + k \<and> occurs_at xs ys k \<and> (\<forall>j<k. \<not> occurs_at xs ys j))"
proof (induction l1 arbitrary: i)
  case 0
  have "occurs_at xs ys j \<Longrightarrow> j < i" for j
    using 0 assms(3) by (cases ys) (auto simp: occurs_at_def)
  with 0 assms(3) show ?case by (auto simp: strstr_loop.simps [of m _ s2 _ 0])
next
  case (Suc l1)
  show ?case
  proof (cases "length ys \<le> Suc l1")
    case False
    then have "occurs_at xs ys j \<Longrightarrow> j < i" for j
      using Suc.prems by (auto simp: occurs_at_def)
    with False Suc.prems show ?thesis by (auto simp: strstr_loop.simps [of m _ s2 _ "Suc l1"])
  next
    case True
    then have cmp: "rt_memcmp m (s1 + i) s2 (length ys) = 0 \<longleftrightarrow> occurs_at xs ys i"
      using memcmp_prefix [OF assms(1,2)] Suc.prems(1) by simp
    show ?thesis
    proof (cases "occurs_at xs ys i")
      case True
      with \<open>length ys \<le> Suc l1\<close> cmp Suc.prems show ?thesis
        by (auto simp: strstr_loop.simps [of m _ s2 _ "Suc l1"])
    next
      case False
      with Suc.prems have "\<forall>j<i + 1. \<not> occurs_at xs ys j" by (auto simp: less_Suc_eq)
      with Suc.IH [of "i + 1"] Suc.prems False cmp \<open>length ys \<le> Suc l1\<close> show ?thesis
        by (auto simp: strstr_loop.simps [of m _ s2 _ "Suc l1"])
    qed
  qed
qed

section \<open>Properties\<close>

text \<open>\<^verbatim>\<open>rt_memcpy\<close>, with its word-wise and four-word unrolled loops, leaves exactly the bytes of
  the source block in the destination block and every other byte unchanged, for every alignment
  and length, whenever the destination does not start inside the source block.\<close>

theorem rt_memcpy_correct:
  assumes "dst \<le> src \<or> src + cnt \<le> dst"
  shows "rt_memcpy m dst src cnt = (dst, block_copy m dst src cnt)"
  using assms by (rule rt_memcpy_eq)

theorem rt_memcpy_correct_witness:
  "rt_memcpy (\<lambda>a. of_nat a) 64 0 23 = (64, block_copy (\<lambda>a. of_nat a) 64 0 23)"
  using rt_memcpy_correct [of 64 0 23 "\<lambda>a. of_nat a"] by simp

text \<open>\<^verbatim>\<open>rt_memmove\<close> copies the block for every relative position of source and destination,
  overlapping in either direction or not.\<close>

theorem rt_memmove_correct:
  "rt_memmove m dest src n = (dest, block_copy m dest src n)"
  by (rule rt_memmove_eq)

text \<open>On terminated strings \<^verbatim>\<open>rt_strstr\<close> always returns; it returns the position of the first
  occurrence of a non-empty needle, and \<^verbatim>\<open>RT_NULL\<close> only when the needle does not occur.\<close>

theorem rt_strstr_first:
  assumes "cstr_at m s1 xs" and "cstr_at m s2 ys" and "ys \<noteq> []"
  shows "\<exists>r. rt_strstr m s1 s2 = Some r \<and>
    (case r of
       None \<Rightarrow> \<forall>j. \<not> occurs_at xs ys j
     | Some p \<Rightarrow> \<exists>k. p = s1 + k \<and> occurs_at xs ys k \<and> (\<forall>j<k. \<not> occurs_at xs ys j))"
proof -
  have "rt_strstr m s1 s2 = Some (strstr_loop m s1 s2 (length ys) (length xs))"
    using assms by (simp add: rt_strstr_def rt_strlen_cstr)
  then show ?thesis
    using strstr_loop_cstr [OF assms, of 0 "length xs"] by simp
qed

definition hello_mem :: memory where
  "hello_mem = (\<lambda>_. 0)(0 := 104, 1 := 101, 2 := 108, 3 := 108, 4 := 111, 8 := 108, 9 := 111)"

theorem rt_strstr_first_witness:
  "\<exists>r. rt_strstr hello_mem 0 8 = Some r \<and>
    (case r of
       None \<Rightarrow> \<forall>j. \<not> occurs_at [104, 101, 108, 108, 111] [108, 111] j
     | Some p \<Rightarrow> \<exists>k. p = 0 + k \<and> occurs_at [104, 101, 108, 108, 111] [108, 111] k \<and>
         (\<forall>j<k. \<not> occurs_at [104, 101, 108, 108, 111] [108, 111] j))"
  by (rule rt_strstr_first) (simp_all add: hello_mem_def)

text \<open>The sign of \<^verbatim>\<open>rt_strncmp\<close> is not the order of the strings: the difference of two bytes
  is truncated to a \<^verbatim>\<open>signed char\<close>, so a string that starts with byte 200 compares as smaller
  than one that starts with byte 10, although \<^verbatim>\<open>rt_strcmp\<close> orders the same two strings
  correctly.\<close>

theorem rt_strncmp_sign_not_order:
  "\<exists>m. m 0 > m 2 \<and> rt_strncmp m 0 2 1 < 0 \<and> rt_strcmp m 0 2 = Some (uint (m 0) - uint (m 2))"
  by (rule exI [of _ "\<lambda>a. if a = 0 then 200 else if a = 2 then 10 else 0"])
    (simp add: rt_strncmp_def rt_strcmp.simps Let_def signed_char_def)

end
