(* ===== verification/Bounded_Fifo.thy ===== *)
theory Bounded_Fifo
  imports Rt_Prelude
begin

text \<open>
  The contract shared by the bounded queues of the system: the byte ring buffer of the
  device drivers, the mailbox and the message queue of the IPC layer.  A provider gives
  its state an invariant, an abstraction to the sequence of stored items and a capacity;
  a non-blocking \<open>put\<close> appends or reports a full queue, a non-blocking \<open>get\<close> takes the oldest
  item or reports an empty one.  The consequences that a client of such a queue relies on
  (order of delivery over whole runs) are proved once, here.
\<close>

text \<open>A run of \<open>put\<close>s and a run of \<open>n\<close> \<open>get\<close>s; a run fails as soon as one step does.\<close>

fun put_all :: "('a \<Rightarrow> 's \<Rightarrow> 's option) \<Rightarrow> 'a list \<Rightarrow> 's \<Rightarrow> 's option" where
  "put_all put [] s = Some s"
| "put_all put (x # xs) s = (case put x s of None \<Rightarrow> None | Some s' \<Rightarrow> put_all put xs s')"

fun get_n :: "('s \<Rightarrow> ('a \<times> 's) option) \<Rightarrow> nat \<Rightarrow> 's \<Rightarrow> ('a list \<times> 's) option" where
  "get_n get 0 s = Some ([], s)"
| "get_n get (Suc n) s =
     (case get s of
        None \<Rightarrow> None
      | Some (x, s') \<Rightarrow> (case get_n get n s' of None \<Rightarrow> None | Some (xs, s'') \<Rightarrow> Some (x # xs, s'')))"

locale bounded_fifo =
  fixes inv :: "'s \<Rightarrow> bool"
    and contents :: "'s \<Rightarrow> 'a list"
    and capacity :: "'s \<Rightarrow> nat"
    and put :: "'a \<Rightarrow> 's \<Rightarrow> 's option"
    and get :: "'s \<Rightarrow> ('a \<times> 's) option"
  assumes bounded: "inv s \<Longrightarrow> length (contents s) \<le> capacity s"
    and put_room: "inv s \<Longrightarrow> length (contents s) < capacity s \<Longrightarrow>
      \<exists>s'. put x s = Some s' \<and> inv s' \<and> contents s' = contents s @ [x] \<and> capacity s' = capacity s"
    and put_full: "inv s \<Longrightarrow> length (contents s) = capacity s \<Longrightarrow> put x s = None"
    and get_some: "inv s \<Longrightarrow> contents s = x # xs \<Longrightarrow>
      \<exists>s'. get s = Some (x, s') \<and> inv s' \<and> contents s' = xs \<and> capacity s' = capacity s"
    and get_none: "inv s \<Longrightarrow> contents s = [] \<Longrightarrow> get s = None"
begin

lemma put_iff: "inv s \<Longrightarrow> put x s \<noteq> None \<longleftrightarrow> length (contents s) < capacity s"
  using bounded [of s] put_room [of s x] put_full [of s x] by force

lemma put_all_fits:
  "inv s \<Longrightarrow> length (contents s) + length xs \<le> capacity s \<Longrightarrow>
   \<exists>s'. put_all put xs s = Some s' \<and> inv s' \<and> contents s' = contents s @ xs \<and> capacity s' = capacity s"
proof (induction xs arbitrary: s)
  case Nil
  then show ?case by simp
next
  case (Cons x xs)
  then obtain s' where s': "put x s = Some s'" "inv s'" "contents s' = contents s @ [x]"
      "capacity s' = capacity s"
    using put_room [of s x] by auto
  with Cons.prems Cons.IH [of s'] show ?case by auto
qed

lemma get_n_prefix:
  "inv s \<Longrightarrow> n \<le> length (contents s) \<Longrightarrow>
   \<exists>s'. get_n get n s = Some (take n (contents s), s') \<and> inv s' \<and> contents s' = drop n (contents s) \<and>
     capacity s' = capacity s"
proof (induction n arbitrary: s)
  case 0
  then show ?case by simp
next
  case (Suc n)
  then obtain x xs where c: "contents s = x # xs" by (cases "contents s") auto
  with Suc.prems obtain s' where s': "get s = Some (x, s')" "inv s'" "contents s' = xs"
      "capacity s' = capacity s"
    using get_some by blast
  with Suc.prems c Suc.IH [of s'] show ?case by auto
qed

text \<open>Everything that was put comes out again, in the order it was put, after what was there
  before.\<close>

lemma put_get_order:
  assumes "inv s" and "length (contents s) + length xs \<le> capacity s"
  shows "\<exists>s' s''. put_all put xs s = Some s' \<and>
    get_n get (length (contents s) + length xs) s' = Some (contents s @ xs, s'') \<and> inv s'' \<and>
    contents s'' = []"
proof -
  obtain s' where s': "put_all put xs s = Some s'" "inv s'" "contents s' = contents s @ xs"
    using put_all_fits [OF assms] by blast
  with get_n_prefix [of s' "length (contents s) + length xs"] show ?thesis by auto
qed

end

end
