(* ===== verification/Ringbuffer.thy ===== *)
theory Ringbuffer
  imports Kstring Bounded_Fifo
begin

text \<open>
  The byte ring buffer of the device drivers,
  \<^verbatim>\<open>components/drivers/ipc/ringbuffer.c\<close> and \<^verbatim>\<open>include/ipc/ringbuffer.h\<close>.  The
  structure's fields are kept with their widths (\<^verbatim>\<open>u31\<close> truncates a store into a 31-bit
  index field); the bytes live in the flat memory at \<open>buffer_ptr\<close>.  Every operation
  takes and returns the structure and the memory.  The abstraction \<open>rb_contents\<close> is the
  sequence of unread bytes; each operation is shown to act on it as a bounded queue does.
\<close>

section \<open>The structure and its operations\<close>

record rt_ringbuffer =
  buffer_ptr :: addr
  read_mirror :: bool
  read_index :: nat
  write_mirror :: bool
  write_index :: nat
  buffer_size :: nat

datatype rt_ringbuffer_state = RT_RINGBUFFER_EMPTY | RT_RINGBUFFER_FULL | RT_RINGBUFFER_HALFFULL

definition rt_ringbuffer_status :: "rt_ringbuffer \<Rightarrow> rt_ringbuffer_state" where
  "rt_ringbuffer_status rb =
     (if read_index rb = write_index rb then
        (if read_mirror rb = write_mirror rb then RT_RINGBUFFER_EMPTY else RT_RINGBUFFER_FULL)
      else RT_RINGBUFFER_HALFFULL)"

definition rt_ringbuffer_init :: "rt_ringbuffer \<Rightarrow> addr \<Rightarrow> nat \<Rightarrow> rt_ringbuffer" where
  "rt_ringbuffer_init rb pool sz =
     rb\<lparr>read_mirror := False, read_index := 0, write_mirror := False, write_index := 0,
        buffer_ptr := pool, buffer_size := RT_ALIGN_DOWN sz RT_ALIGN_SIZE\<rparr>"

definition rt_ringbuffer_data_len :: "rt_ringbuffer \<Rightarrow> nat" where
  "rt_ringbuffer_data_len rb =
     (case rt_ringbuffer_status rb of
        RT_RINGBUFFER_EMPTY \<Rightarrow> 0
      | RT_RINGBUFFER_FULL \<Rightarrow> buffer_size rb
      | RT_RINGBUFFER_HALFFULL \<Rightarrow>
          (let wi = write_index rb; ri = read_index rb
           in if wi > ri then u32_sub wi ri else u32_sub (buffer_size rb) (u32_sub ri wi)))"

definition rt_ringbuffer_space_len :: "rt_ringbuffer \<Rightarrow> nat" where
  "rt_ringbuffer_space_len rb = u32_sub (buffer_size rb) (rt_ringbuffer_data_len rb)"

definition rt_ringbuffer_get_size :: "rt_ringbuffer \<Rightarrow> nat" where
  "rt_ringbuffer_get_size rb = buffer_size rb"

definition rt_ringbuffer_put ::
    "memory \<Rightarrow> rt_ringbuffer \<Rightarrow> addr \<Rightarrow> nat \<Rightarrow> nat \<times> rt_ringbuffer \<times> memory" where
  "rt_ringbuffer_put m rb ptr len0 =
     (let sz = rt_ringbuffer_space_len rb
      in if sz = 0 then (0, rb, m)
         else
           (let len = (if sz < len0 then sz else len0);
                room = u32_sub (buffer_size rb) (write_index rb)
            in if room > len then
                 (len,
                  rb\<lparr>write_index := u31 (write_index rb + len)\<rparr>,
                  snd (rt_memcpy m (buffer_ptr rb + write_index rb) ptr len))
               else
                 (let m1 = snd (rt_memcpy m (buffer_ptr rb + write_index rb) ptr room);
                      m2 = snd (rt_memcpy m1 (buffer_ptr rb) (ptr + room) (u32_sub len room))
                  in (len,
                      rb\<lparr>write_mirror := \<not> write_mirror rb, write_index := u31 (u32_sub len room)\<rparr>,
                      m2))))"

definition rt_ringbuffer_put_force ::
    "memory \<Rightarrow> rt_ringbuffer \<Rightarrow> addr \<Rightarrow> nat \<Rightarrow> nat \<times> rt_ringbuffer \<times> memory" where
  "rt_ringbuffer_put_force m rb ptr0 len0 =
     (let space_length = rt_ringbuffer_space_len rb;
          (ptr, len) = (if len0 > buffer_size rb
                        then (ptr0 + u32_sub len0 (buffer_size rb), buffer_size rb)
                        else (ptr0, len0));
          room = u32_sub (buffer_size rb) (write_index rb)
      in if room > len then
           (let m1 = snd (rt_memcpy m (buffer_ptr rb + write_index rb) ptr len);
                rb1 = rb\<lparr>write_index := u31 (write_index rb + len)\<rparr>;
                rb2 = (if len > space_length then rb1\<lparr>read_index := write_index rb1\<rparr> else rb1)
            in (len, rb2, m1))
         else
           (let m1 = snd (rt_memcpy m (buffer_ptr rb + write_index rb) ptr room);
                m2 = snd (rt_memcpy m1 (buffer_ptr rb) (ptr + room) (u32_sub len room));
                rb1 = rb\<lparr>write_mirror := \<not> write_mirror rb, write_index := u31 (u32_sub len room)\<rparr>;
                rb2 = (if len > space_length then
                         (let rb' = (if write_index rb1 \<le> read_index rb1
                                     then rb1\<lparr>read_mirror := \<not> read_mirror rb1\<rparr> else rb1)
                          in rb'\<lparr>read_index := write_index rb'\<rparr>)
                       else rb1)
            in (len, rb2, m2)))"

definition rt_ringbuffer_get ::
    "memory \<Rightarrow> rt_ringbuffer \<Rightarrow> addr \<Rightarrow> nat \<Rightarrow> nat \<times> rt_ringbuffer \<times> memory" where
  "rt_ringbuffer_get m rb ptr len0 =
     (let sz = rt_ringbuffer_data_len rb
      in if sz = 0 then (0, rb, m)
         else
           (let len = (if sz < len0 then sz else len0);
                room = u32_sub (buffer_size rb) (read_index rb)
            in if room > len then
                 (len,
                  rb\<lparr>read_index := u31 (read_index rb + len)\<rparr>,
                  snd (rt_memcpy m ptr (buffer_ptr rb + read_index rb) len))
               else
                 (let m1 = snd (rt_memcpy m ptr (buffer_ptr rb + read_index rb) room);
                      m2 = snd (rt_memcpy m1 (ptr + room) (buffer_ptr rb) (u32_sub len room))
                  in (len,
                      rb\<lparr>read_mirror := \<not> read_mirror rb, read_index := u31 (u32_sub len room)\<rparr>,
                      m2))))"

text \<open>The out parameter \<^verbatim>\<open>*ptr\<close> is returned as an option, \<^term>\<open>None\<close> for \<^verbatim>\<open>RT_NULL\<close>.\<close>

definition rt_ringbuffer_peek :: "rt_ringbuffer \<Rightarrow> nat \<times> addr option \<times> rt_ringbuffer" where
  "rt_ringbuffer_peek rb =
     (let sz = rt_ringbuffer_data_len rb
      in if sz = 0 then (0, None, rb)
         else
           (let p = buffer_ptr rb + read_index rb;
                room = u32_sub (buffer_size rb) (read_index rb)
            in if room > sz then (sz, Some p, rb\<lparr>read_index := u31 (read_index rb + sz)\<rparr>)
               else (room, Some p, rb\<lparr>read_mirror := \<not> read_mirror rb, read_index := 0\<rparr>)))"

definition rt_ringbuffer_putchar ::
    "memory \<Rightarrow> rt_ringbuffer \<Rightarrow> u8 \<Rightarrow> nat \<times> rt_ringbuffer \<times> memory" where
  "rt_ringbuffer_putchar m rb ch =
     (if rt_ringbuffer_space_len rb = 0 then (0, rb, m)
      else
        (let m1 = m(buffer_ptr rb + write_index rb := ch)
         in if int (write_index rb) = int (buffer_size rb) - 1
            then (1, rb\<lparr>write_mirror := \<not> write_mirror rb, write_index := 0\<rparr>, m1)
            else (1, rb\<lparr>write_index := u31 (write_index rb + 1)\<rparr>, m1)))"

definition rt_ringbuffer_putchar_force ::
    "memory \<Rightarrow> rt_ringbuffer \<Rightarrow> u8 \<Rightarrow> nat \<times> rt_ringbuffer \<times> memory" where
  "rt_ringbuffer_putchar_force m rb ch =
     (let old_state = rt_ringbuffer_status rb;
          m1 = m(buffer_ptr rb + write_index rb := ch)
      in if int (write_index rb) = int (buffer_size rb) - 1 then
           (let rb1 = rb\<lparr>write_mirror := \<not> write_mirror rb, write_index := 0\<rparr>
            in (1,
                if old_state = RT_RINGBUFFER_FULL
                then rb1\<lparr>read_mirror := \<not> read_mirror rb1, read_index := write_index rb1\<rparr> else rb1,
                m1))
         else
           (let rb1 = rb\<lparr>write_index := u31 (write_index rb + 1)\<rparr>
            in (1,
                if old_state = RT_RINGBUFFER_FULL then rb1\<lparr>read_index := write_index rb1\<rparr> else rb1,
                m1)))"

text \<open>The out parameter \<^verbatim>\<open>*ch\<close> is returned as an option: it is written only on success.\<close>

definition rt_ringbuffer_getchar :: "memory \<Rightarrow> rt_ringbuffer \<Rightarrow> nat \<times> u8 option \<times> rt_ringbuffer" where
  "rt_ringbuffer_getchar m rb =
     (if rt_ringbuffer_data_len rb = 0 then (0, None, rb)
      else
        (let ch = m (buffer_ptr rb + read_index rb)
         in if int (read_index rb) = int (buffer_size rb) - 1
            then (1, Some ch, rb\<lparr>read_mirror := \<not> read_mirror rb, read_index := 0\<rparr>)
            else (1, Some ch, rb\<lparr>read_index := u31 (read_index rb + 1)\<rparr>)))"

definition rt_ringbuffer_reset :: "rt_ringbuffer \<Rightarrow> rt_ringbuffer" where
  "rt_ringbuffer_reset rb =
     rb\<lparr>read_mirror := False, read_index := 0, write_mirror := False, write_index := 0\<rparr>"

section \<open>Invariant and abstraction\<close>

definition rb_inv :: "rt_ringbuffer \<Rightarrow> bool" where
  "rb_inv rb \<longleftrightarrow>
     0 < buffer_size rb \<and> buffer_size rb < 2 ^ 31 \<and>
     read_index rb < buffer_size rb \<and> write_index rb < buffer_size rb \<and>
     (if read_mirror rb = write_mirror rb then read_index rb \<le> write_index rb
      else write_index rb \<le> read_index rb)"

definition rb_len :: "rt_ringbuffer \<Rightarrow> nat" where
  "rb_len rb =
     (if read_mirror rb = write_mirror rb then write_index rb - read_index rb
      else buffer_size rb - read_index rb + write_index rb)"

definition rb_pos :: "rt_ringbuffer \<Rightarrow> nat \<Rightarrow> addr" where
  "rb_pos rb i = buffer_ptr rb + (read_index rb + i) mod buffer_size rb"

definition rb_contents :: "memory \<Rightarrow> rt_ringbuffer \<Rightarrow> u8 list" where
  "rb_contents m rb = map (\<lambda>i. m (rb_pos rb i)) [0..<rb_len rb]"

definition outside_pool :: "rt_ringbuffer \<Rightarrow> addr \<Rightarrow> nat \<Rightarrow> bool" where
  "outside_pool rb p n \<longleftrightarrow> p + n \<le> buffer_ptr rb \<or> buffer_ptr rb + buffer_size rb \<le> p"

lemma rb_len_le: "rb_inv rb \<Longrightarrow> rb_len rb \<le> buffer_size rb"
  by (auto simp: rb_inv_def rb_len_def)

lemma length_rb_contents [simp]: "length (rb_contents m rb) = rb_len rb"
  by (simp add: rb_contents_def)

lemma rt_ringbuffer_data_len_eq [simp]: "rb_inv rb \<Longrightarrow> rt_ringbuffer_data_len rb = rb_len rb"
  by (auto simp: rb_inv_def rb_len_def rt_ringbuffer_data_len_def rt_ringbuffer_status_def
      Let_def u32_sub_id split: if_splits)

lemma rt_ringbuffer_space_len_eq [simp]:
  "rb_inv rb \<Longrightarrow> rt_ringbuffer_space_len rb = buffer_size rb - rb_len rb"
  by (frule rb_len_le) (auto simp: rt_ringbuffer_space_len_def rb_inv_def u32_sub_id)

section \<open>Copying into and out of the ring\<close>

lemma ring_offset:
  assumes "0 < bs" and "L \<le> bs"
  shows "((r + i) mod bs + bs - (r + L) mod bs) mod bs = (i + bs - L) mod (bs :: nat)"
proof -
  have self: "(x + n - y) mod n = (x - y) mod n" for x y n :: int
    using mod_add_self2 [of "x - y" n] by (simp add: algebra_simps)
  have lt: "(r + L) mod bs \<le> (r + i) mod bs + bs"
    using assms(1) by (meson less_imp_le mod_less_divisor trans_le_add2)
  have "int (((r + i) mod bs + bs - (r + L) mod bs) mod bs) =
      (int ((r + i) mod bs) + int bs - int ((r + L) mod bs)) mod int bs"
    using lt by (simp add: zmod_int)
  also have "\<dots> = (int (r + i) mod int bs - int (r + L) mod int bs) mod int bs"
    using self [of "int ((r + i) mod bs)" "int bs" "int ((r + L) mod bs)"] by (simp add: zmod_int)
  also have "\<dots> = (int i - int L) mod int bs"
    by (simp add: mod_diff_eq)
  also have "\<dots> = (int i + int bs - int L) mod int bs"
    by (rule self [symmetric])
  also have "\<dots> = int ((i + bs - L) mod bs)"
    using assms(2) by (simp add: zmod_int)
  finally show ?thesis by simp
qed

text \<open>The effect of storing \<open>n\<close> source bytes from ring slot \<open>w\<close> on, wrapping at the end.\<close>

definition ring_store :: "memory \<Rightarrow> addr \<Rightarrow> nat \<Rightarrow> nat \<Rightarrow> addr \<Rightarrow> nat \<Rightarrow> memory" where
  "ring_store m base bs w src n =
     (\<lambda>a. if base \<le> a \<and> a < base + bs \<and> (a - base + bs - w) mod bs < n
          then m (src + (a - base + bs - w) mod bs) else m a)"

lemma slot_offset: "w < bs \<Longrightarrow> k < bs \<Longrightarrow> (k + bs - w) mod bs = (if w \<le> k then k - w else k + bs - w)"
  for w k bs :: nat
  by (auto simp: mod_if)

lemma ring_store_slot:
  "k < bs \<Longrightarrow> (k + bs - w) mod bs = j \<Longrightarrow>
   ring_store m base bs w src n (base + k) = (if j < n then m (src + j) else m (base + k))"
  by (auto simp: ring_store_def)

lemma ring_store_straight:
  assumes "w + n < bs"
  shows "block_copy m (base + w) src n = ring_store m base bs w src n"
proof
  fix a
  show "block_copy m (base + w) src n a = ring_store m base bs w src n a"
  proof (cases "base \<le> a \<and> a < base + bs")
    case True
    then obtain k where "a = base + k" "k < bs" by (metis le_iff_add nat_add_left_cancel_less)
    with assms show ?thesis by (auto simp: block_copy_def ring_store_def slot_offset)
  next
    case False
    with assms show ?thesis by (auto simp: block_copy_def ring_store_def)
  qed
qed

lemma ring_store_wrap:
  assumes "0 < v" and "u \<le> w" and "src + (v + u) \<le> base \<or> base + (w + v) \<le> src"
  shows "block_copy (block_copy m (base + w) src v) base (src + v) u =
    ring_store m base (w + v) w src (v + u)"
proof
  fix a
  show "block_copy (block_copy m (base + w) src v) base (src + v) u a =
    ring_store m base (w + v) w src (v + u) a"
  proof (cases "base \<le> a \<and> a < base + (w + v)")
    case True
    then obtain k where k: "a = base + k" "k < w + v" by (metis le_iff_add nat_add_left_cancel_less)
    show ?thesis
    proof (cases "w \<le> k")
      case True
      then obtain i where i: "k = w + i" "i < v" using k by (metis le_iff_add nat_add_left_cancel_less)
      then have "(k + (w + v) - w) mod (w + v) = i" by simp
      from ring_store_slot [OF k(2) this] k i assms(2) show ?thesis by (simp add: block_copy_def)
    next
      case False
      then have "(k + (w + v) - w) mod (w + v) = v + k" by simp
      from ring_store_slot [OF k(2) this] False k assms show ?thesis
        by (auto simp: block_copy_def ac_simps)
    qed
  next
    case False
    with assms show ?thesis by (auto simp: block_copy_def ring_store_def)
  qed
qed

lemma ring_store_copies:
  assumes "w < bs" and "n \<le> bs" and "bs < 2 ^ 31" and "src + n \<le> base \<or> base + bs \<le> src"
  shows "(if u32_sub bs w > n then snd (rt_memcpy m (base + w) src n)
          else snd (rt_memcpy (snd (rt_memcpy m (base + w) src (u32_sub bs w))) base
                 (src + u32_sub bs w) (u32_sub n (u32_sub bs w)))) = ring_store m base bs w src n"
proof -
  obtain v where v: "bs = w + v" "0 < v" using assms(1) less_imp_add_positive by blast
  then have room: "u32_sub bs w = v" using assms(3) by (simp add: u32_sub_id)
  show ?thesis
  proof (cases "v > n")
    case True
    then have "snd (rt_memcpy m (base + w) src n) = block_copy m (base + w) src n"
      using assms(4) v by (subst rt_memcpy_eq) auto
    with True assms room v show ?thesis by (simp add: ring_store_straight)
  next
    case False
    then obtain u where u: "n = v + u" using le_Suc_ex not_less by blast
    have "snd (rt_memcpy m (base + w) src v) = block_copy m (base + w) src v"
      and "snd (rt_memcpy m' base (src + v) u) = block_copy m' base (src + v) u" for m'
      using assms(4) v u by (subst rt_memcpy_eq; auto)+
    moreover have "u32_sub n v = u" using u v assms(2,3) by (simp add: u32_sub_id)
    ultimately show ?thesis
      using False room u v assms by (simp add: ring_store_wrap)
  qed
qed

lemma rb_write_slot: "rb_inv rb \<Longrightarrow> write_index rb = (read_index rb + rb_len rb) mod buffer_size rb"
  by (auto simp: rb_inv_def rb_len_def mod_if)

lemma ring_store_at_pos:
  assumes "rb_inv rb" and "i < buffer_size rb" and "rb_len rb + n \<le> buffer_size rb"
  shows "ring_store m (buffer_ptr rb) (buffer_size rb) (write_index rb) src n (rb_pos rb i) =
    (if rb_len rb \<le> i \<and> i < rb_len rb + n then m (src + (i - rb_len rb)) else m (rb_pos rb i))"
proof -
  let ?bs = "buffer_size rb" and ?L = "rb_len rb"
  have bs: "0 < ?bs" and L: "?L \<le> ?bs" using assms rb_len_le by (auto simp: rb_inv_def)
  have "((read_index rb + i) mod ?bs + ?bs - write_index rb) mod ?bs = (i + ?bs - ?L) mod ?bs"
    using ring_offset [OF bs L] rb_write_slot [OF assms(1)] by simp
  also have "\<dots> = (if ?L \<le> i then i - ?L else i + ?bs - ?L)"
    using assms(2) L by (auto simp: mod_if)
  finally show ?thesis
    using bs assms(2,3) by (auto simp: ring_store_def rb_pos_def)
qed

text \<open>Bytes appended at the write slot.\<close>

lemma rb_contents_append:
  assumes "rb_inv rb" and "rb_len rb + n \<le> buffer_size rb"
    and "rb_len rb' = rb_len rb + n" and "read_index rb' = read_index rb"
    and "buffer_ptr rb' = buffer_ptr rb" and "buffer_size rb' = buffer_size rb"
  shows "rb_contents (ring_store m (buffer_ptr rb) (buffer_size rb) (write_index rb) src n) rb' =
    rb_contents m rb @ bytes_at m src n"
proof (rule nth_equalityI)
  fix i
  assume "i < length (rb_contents (ring_store m (buffer_ptr rb) (buffer_size rb) (write_index rb) src n) rb')"
  then have i: "i < rb_len rb + n" using assms(3) by simp
  moreover have "rb_pos rb' i = rb_pos rb i" using assms(4-6) by (simp add: rb_pos_def)
  ultimately show "rb_contents (ring_store m (buffer_ptr rb) (buffer_size rb) (write_index rb) src n) rb' ! i =
      (rb_contents m rb @ bytes_at m src n) ! i"
    using assms by (auto simp: rb_contents_def bytes_at_def nth_append ring_store_at_pos)
qed (simp add: assms(3) bytes_at_def)

text \<open>Bytes dropped at the read slot.\<close>

lemma rb_contents_drop:
  assumes "rb_inv rb" and "n \<le> rb_len rb" and "rb_len rb' = rb_len rb - n"
    and "read_index rb' = (read_index rb + n) mod buffer_size rb"
    and "buffer_ptr rb' = buffer_ptr rb" and "buffer_size rb' = buffer_size rb"
  shows "rb_contents m rb' = drop n (rb_contents m rb)"
proof (rule nth_equalityI)
  fix i
  assume "i < length (rb_contents m rb')"
  moreover have "rb_pos rb' i = rb_pos rb (n + i)"
    using assms(4-6) by (simp add: rb_pos_def mod_simps add.assoc)
  ultimately show "rb_contents m rb' ! i = drop n (rb_contents m rb) ! i"
    using assms(2,3) by (simp add: rb_contents_def less_diff_conv add.commute)
qed (simp add: assms(3))

text \<open>A buffer of eight slots at address 1000 whose two unread bytes sit in slots 5 and 6.\<close>

definition demo_rb :: rt_ringbuffer where
  "demo_rb = \<lparr>buffer_ptr = 1000, read_mirror = False, read_index = 5, write_mirror = False,
     write_index = 7, buffer_size = 8\<rparr>"

definition demo_mem :: memory where
  "demo_mem = (\<lambda>a. if a < 1000 then of_nat a else 100 + of_nat (a - 1000))"

lemma demo_rb_simps [simp]:
  "rb_inv demo_rb" "rb_len demo_rb = 2" "buffer_size demo_rb = 8" "read_index demo_rb = 5"
  "rb_contents demo_mem demo_rb = [105, 106]" "outside_pool demo_rb 10 n \<longleftrightarrow> n \<le> 990"
  by (auto simp: demo_rb_def rb_inv_def rb_len_def rb_contents_def rb_pos_def demo_mem_def
      outside_pool_def upt_rec)

lemma demo_mem_low: "a < 1000 \<Longrightarrow> demo_mem a = of_nat a"
  by (simp add: demo_mem_def)

section \<open>Writing operations\<close>

text \<open>The geometry (pool address and size) is fixed by \<^verbatim>\<open>rt_ringbuffer_init\<close>.\<close>

definition same_pool :: "rt_ringbuffer \<Rightarrow> rt_ringbuffer \<Rightarrow> bool" where
  "same_pool rb rb' \<longleftrightarrow> buffer_ptr rb' = buffer_ptr rb \<and> buffer_size rb' = buffer_size rb"

definition pool_frame :: "rt_ringbuffer \<Rightarrow> memory \<Rightarrow> memory \<Rightarrow> bool" where
  "pool_frame rb m m' \<longleftrightarrow>
     (\<forall>a. a < buffer_ptr rb \<or> buffer_ptr rb + buffer_size rb \<le> a \<longrightarrow> m' a = m a)"

lemma ring_store_frame:
  "pool_frame rb m (ring_store m (buffer_ptr rb) (buffer_size rb) w src n)"
  by (auto simp: pool_frame_def ring_store_def)

definition rb_wrote :: "rt_ringbuffer \<Rightarrow> nat \<Rightarrow> rt_ringbuffer" where
  "rb_wrote rb n =
     (if write_index rb + n < buffer_size rb then rb\<lparr>write_index := write_index rb + n\<rparr>
      else rb\<lparr>write_mirror := \<not> write_mirror rb, write_index := write_index rb + n - buffer_size rb\<rparr>)"

lemma rb_wrote_inv:
  assumes "rb_inv rb" and "rb_len rb + n \<le> buffer_size rb"
  shows "rb_inv (rb_wrote rb n)" and "rb_len (rb_wrote rb n) = rb_len rb + n"
    and "read_index (rb_wrote rb n) = read_index rb" and "same_pool rb (rb_wrote rb n)"
  using assms by (auto simp: rb_inv_def rb_len_def rb_wrote_def same_pool_def split: if_splits)

lemma rt_ringbuffer_put_eq:
  assumes "rb_inv rb" and "n = min len (buffer_size rb - rb_len rb)"
    and "outside_pool rb ptr n"
  shows "rt_ringbuffer_put m rb ptr len =
    (n, rb_wrote rb n, ring_store m (buffer_ptr rb) (buffer_size rb) (write_index rb) ptr n)"
proof (cases "buffer_size rb = rb_len rb")
  case True
  then have "n = 0" using assms(2) by simp
  moreover have "ring_store m (buffer_ptr rb) (buffer_size rb) (write_index rb) ptr 0 = m"
    by (auto simp: ring_store_def)
  moreover have "rb_wrote rb 0 = rb" using assms(1) by (simp add: rb_wrote_def rb_inv_def)
  ultimately show ?thesis using True assms(1) by (simp add: rt_ringbuffer_put_def)
next
  case False
  let ?sz = "buffer_size rb - rb_len rb"
  have len: "(if ?sz < len then ?sz else len) = n" and bs: "n \<le> buffer_size rb" "?sz \<noteq> 0"
    using assms(2) False rb_len_le [OF assms(1)] by auto
  have w: "write_index rb < buffer_size rb" "buffer_size rb < 2 ^ 31"
    using assms(1) by (auto simp: rb_inv_def)
  then have room: "u32_sub (buffer_size rb) (write_index rb) = buffer_size rb - write_index rb"
    by (simp add: u32_sub_id)
  note copies = ring_store_copies [OF w(1) bs(1) w(2), of ptr "buffer_ptr rb" m]
  show ?thesis
  proof (cases "buffer_size rb - write_index rb > n")
    case True
    with copies len bs w room assms(1,3) show ?thesis
      by (simp add: rt_ringbuffer_put_def Let_def rb_wrote_def u31_id outside_pool_def)
  next
    case False
    then have "u32_sub n (buffer_size rb - write_index rb) = write_index rb + n - buffer_size rb"
      using w bs by (simp add: u32_sub_id)
    with False copies len bs w room assms(1,3) show ?thesis
      by (simp add: rt_ringbuffer_put_def Let_def rb_wrote_def u31_id outside_pool_def)
  qed
qed

text \<open>\<^verbatim>\<open>rt_ringbuffer_put\<close> stores as many of the caller's bytes as there is room for, in order, after the
  unread ones, returns how many it stored, keeps the structure well formed and writes nothing
  outside the pool.\<close>

theorem rt_ringbuffer_put_appends:
  assumes "rb_inv rb" and "outside_pool rb ptr (min len (buffer_size rb - rb_len rb))"
  shows "\<exists>rb' m'. rt_ringbuffer_put m rb ptr len = (min len (buffer_size rb - rb_len rb), rb', m') \<and>
    rb_inv rb' \<and> same_pool rb rb' \<and> pool_frame rb m m' \<and>
    rb_contents m' rb' = rb_contents m rb @ bytes_at m ptr (min len (buffer_size rb - rb_len rb))"
proof -
  let ?n = "min len (buffer_size rb - rb_len rb)"
  have n: "rb_len rb + ?n \<le> buffer_size rb" using rb_len_le [OF assms(1)] by simp
  note w = rb_wrote_inv [OF assms(1) n]
  from w(4) show ?thesis
    using rt_ringbuffer_put_eq [OF assms(1) refl assms(2), of m] w ring_store_frame
      rb_contents_append [OF assms(1) n w(2,3)]
    by (auto simp: same_pool_def)
qed

theorem rt_ringbuffer_put_appends_witness:
  "\<exists>rb' m'. rt_ringbuffer_put demo_mem demo_rb 10 4 = (4, rb', m') \<and>
     rb_contents m' rb' = [105, 106, 10, 11, 12, 13]"
  using rt_ringbuffer_put_appends [of demo_rb 10 4 demo_mem]
  by (auto simp: bytes_at_def demo_mem_low upt_rec)

lemma ring_store_from_write:
  assumes "w < bs" and "j < bs"
  shows "ring_store m base bs w src n (base + (w + j) mod bs) =
    (if j < n then m (src + j) else m (base + (w + j) mod bs))"
proof (rule ring_store_slot)
  have "((w + j) mod bs + bs - (w + 0) mod bs) mod bs = (j + bs - 0) mod bs"
    using assms by (intro ring_offset) auto
  with assms show "((w + j) mod bs + bs - w) mod bs = j" by simp
qed (use assms in simp)

text \<open>A forced write that overruns the reader leaves a full buffer whose read index is the write
  index.\<close>

lemma rb_contents_overrun:
  assumes "rb_inv rb" and "n \<le> buffer_size rb" and "buffer_size rb < rb_len rb + n"
    and "same_pool rb rb'" and "rb_len rb' = buffer_size rb"
    and "read_index rb' = (write_index rb + n) mod buffer_size rb"
  shows "rb_contents (ring_store m (buffer_ptr rb) (buffer_size rb) (write_index rb) src n) rb' =
    drop (rb_len rb + n - buffer_size rb) (rb_contents m rb @ bytes_at m src n)"
proof (rule nth_equalityI)
  let ?bs = "buffer_size rb" and ?w = "write_index rb"
  let ?m' = "ring_store m (buffer_ptr rb) ?bs ?w src n"
  fix i
  assume "i < length (rb_contents ?m' rb')"
  then have i: "i < ?bs" using assms(5) by simp
  have w: "?w < ?bs" using assms(1) by (simp add: rb_inv_def)
  have pos: "rb_pos rb' i = buffer_ptr rb + (?w + (n + i)) mod ?bs"
    using assms(4,6) by (simp add: rb_pos_def same_pool_def mod_simps add.assoc)
  have lhs: "rb_contents ?m' rb' ! i = ?m' (rb_pos rb' i)"
    using i assms(5) by (simp add: rb_contents_def)
  show "rb_contents ?m' rb' ! i =
      drop (rb_len rb + n - ?bs) (rb_contents m rb @ bytes_at m src n) ! i"
  proof (cases "n + i < ?bs")
    case True
    have "(?w + (n + i)) mod ?bs = (read_index rb + (rb_len rb + n - ?bs + i)) mod ?bs"
    proof -
      have "(?w + (n + i)) mod ?bs = (read_index rb + rb_len rb + (n + i)) mod ?bs"
        by (subst rb_write_slot [OF assms(1)]) (simp add: mod_simps)
      also have "read_index rb + rb_len rb + (n + i) =
          read_index rb + (rb_len rb + n - ?bs + i) + ?bs"
        using assms(3) by simp
      finally show ?thesis by simp
    qed
    then have "?m' (rb_pos rb' i) = m (rb_pos rb (rb_len rb + n - ?bs + i))"
      using ring_store_from_write [OF w True] pos by (simp add: rb_pos_def)
    moreover have k: "rb_len rb + n - ?bs + i < rb_len rb" using True assms(3) by simp
    then have "rb_contents m rb ! (rb_len rb + n - ?bs + i) = m (rb_pos rb (rb_len rb + n - ?bs + i))"
      by (simp add: rb_contents_def)
    ultimately show ?thesis using lhs k by (simp add: nth_append del: drop_append)
  next
    case False
    then have j: "n + i - ?bs < ?bs" "(?w + (n + i)) mod ?bs = (?w + (n + i - ?bs)) mod ?bs"
        "n + i - ?bs < n"
      using i assms(2) by (auto simp: le_mod_geq)
    then have "?m' (rb_pos rb' i) = m (src + (n + i - ?bs))"
      using ring_store_from_write [OF w j(1)] pos by simp
    moreover have k: "rb_len rb + n - ?bs + i - rb_len rb = n + i - ?bs"
        "\<not> rb_len rb + n - ?bs + i < rb_len rb"
      using False assms(3) by auto
    have "bytes_at m src n ! (n + i - ?bs) = m (src + (n + i - ?bs))"
      using j(3) by (simp add: bytes_at_def)
    ultimately show ?thesis using lhs k assms(2) by (simp add: nth_append del: drop_append)
  qed
qed (use assms in \<open>simp add: bytes_at_def\<close>)

definition rb_forced :: "rt_ringbuffer \<Rightarrow> nat \<Rightarrow> rt_ringbuffer" where
  "rb_forced rb n =
     (if rb_len rb + n \<le> buffer_size rb then rb_wrote rb n
      else (let rb1 = rb_wrote rb n
            in rb1\<lparr>read_mirror := \<not> write_mirror rb1, read_index := write_index rb1\<rparr>))"

lemma rb_forced_overrun:
  assumes "rb_inv rb" and "n \<le> buffer_size rb" and "buffer_size rb < rb_len rb + n"
  shows "rb_inv (rb_forced rb n)" and "rb_len (rb_forced rb n) = buffer_size rb"
    and "read_index (rb_forced rb n) = (write_index rb + n) mod buffer_size rb"
    and "same_pool rb (rb_forced rb n)"
  using assms
  by (auto simp: rb_inv_def rb_len_def rb_forced_def rb_wrote_def same_pool_def Let_def mod_if)

lemma rt_ringbuffer_put_force_fits:
  assumes "rb_inv rb" and "n \<le> buffer_size rb" and "outside_pool rb ptr n"
  shows "rt_ringbuffer_put_force m rb ptr n =
    (n, rb_forced rb n, ring_store m (buffer_ptr rb) (buffer_size rb) (write_index rb) ptr n)"
proof -
  have w: "write_index rb < buffer_size rb" "buffer_size rb < 2 ^ 31"
    using assms(1) by (auto simp: rb_inv_def)
  then have room: "u32_sub (buffer_size rb) (write_index rb) = buffer_size rb - write_index rb"
    by (simp add: u32_sub_id)
  note copies = ring_store_copies [OF w(1) assms(2) w(2), of ptr "buffer_ptr rb" m]
  have space: "n > buffer_size rb - rb_len rb \<longleftrightarrow> buffer_size rb < rb_len rb + n"
    using rb_len_le [OF assms(1)] by auto
  show ?thesis
  proof (cases "buffer_size rb - write_index rb > n")
    case True
    have "buffer_size rb < rb_len rb + n \<Longrightarrow> read_mirror rb \<noteq> write_mirror rb"
      using True by (auto simp: rb_len_def split: if_splits)
    with True copies w room assms space show ?thesis
      by (auto simp: rt_ringbuffer_put_force_def Let_def rb_forced_def rb_wrote_def u31_id outside_pool_def)
  next
    case False
    then have sub: "u32_sub n (buffer_size rb - write_index rb) = write_index rb + n - buffer_size rb"
        "u31 (write_index rb + n - buffer_size rb) = write_index rb + n - buffer_size rb"
      using w assms(2) by (simp_all add: u32_sub_id u31_id)
    have "buffer_size rb < rb_len rb + n \<Longrightarrow>
        write_index rb + n - buffer_size rb \<le> read_index rb \<longleftrightarrow> read_mirror rb \<noteq> write_mirror rb"
      using False assms(1,2) by (auto simp: rb_len_def rb_inv_def split: if_splits)
    with False copies sub w room assms space show ?thesis
      by (auto simp: rt_ringbuffer_put_force_def Let_def rb_forced_def rb_wrote_def outside_pool_def)
  qed
qed

lemma rt_ringbuffer_put_force_clip:
  assumes "rb_inv rb" and "buffer_size rb < len" and "len < 2 ^ 32"
  shows "rt_ringbuffer_put_force m rb ptr len =
    rt_ringbuffer_put_force m rb (ptr + (len - buffer_size rb)) (buffer_size rb)"
  using assms by (simp add: rt_ringbuffer_put_force_def u32_sub_id)

lemma bytes_at_drop: "drop k (bytes_at m p n) = bytes_at m (p + k) (n - k)"
  by (rule nth_equalityI) (auto simp: bytes_at_def add.assoc)

text \<open>\<^verbatim>\<open>rt_ringbuffer_put_force\<close> keeps exactly the newest \<open>buffer_size\<close> bytes of the unread bytes
  followed by the caller's bytes, whatever mixture of wrapping and overrun this takes.\<close>

theorem rt_ringbuffer_put_force_keeps_newest:
  assumes "rb_inv rb" and "len < 2 ^ 32" and "outside_pool rb ptr len"
  shows "\<exists>rb' m'. rt_ringbuffer_put_force m rb ptr len = (min len (buffer_size rb), rb', m') \<and>
    rb_inv rb' \<and> same_pool rb rb' \<and> pool_frame rb m m' \<and>
    rb_contents m' rb' =
      drop (rb_len rb + len - buffer_size rb) (rb_contents m rb @ bytes_at m ptr len)"
proof -
  have fits: "\<exists>rb' m'. rt_ringbuffer_put_force m rb p n = (n, rb', m') \<and>
      rb_inv rb' \<and> same_pool rb rb' \<and> pool_frame rb m m' \<and>
      rb_contents m' rb' = drop (rb_len rb + n - buffer_size rb) (rb_contents m rb @ bytes_at m p n)"
    if n: "n \<le> buffer_size rb" and p: "outside_pool rb p n" for p n
  proof (cases "rb_len rb + n \<le> buffer_size rb")
    case True
    note w = rb_wrote_inv [OF assms(1) True]
    from True w(4) show ?thesis
      using rt_ringbuffer_put_force_fits [OF assms(1) n p, of m] w ring_store_frame
        rb_contents_append [OF assms(1) True w(2,3)]
      by (auto simp: same_pool_def rb_forced_def)
  next
    case False
    then have over: "buffer_size rb < rb_len rb + n" by simp
    note f = rb_forced_overrun [OF assms(1) n over]
    from f(4) show ?thesis
      using rt_ringbuffer_put_force_fits [OF assms(1) n p, of m] f ring_store_frame
        rb_contents_overrun [OF assms(1) n over f(4,2,3)]
      by auto
  qed
  show ?thesis
  proof (cases "len \<le> buffer_size rb")
    case True
    with fits [OF True assms(3)] show ?thesis by (simp add: min_absorb1)
  next
    case False
    let ?d = "len - buffer_size rb"
    have "outside_pool rb (ptr + ?d) (buffer_size rb)"
      using assms(3) False by (auto simp: outside_pool_def)
    from fits [OF order.refl this] False rt_ringbuffer_put_force_clip [OF assms(1) _ assms(2), of m ptr]
    show ?thesis
      by (simp add: bytes_at_drop min_absorb2 rb_len_le [OF assms(1)])
  qed
qed

theorem rt_ringbuffer_put_force_keeps_newest_witness:
  "\<exists>rb' m'. rt_ringbuffer_put_force demo_mem demo_rb 10 7 = (7, rb', m') \<and>
     rb_contents m' rb' = [106, 10, 11, 12, 13, 14, 15, 16]"
  using rt_ringbuffer_put_force_keeps_newest [of demo_rb 7 10 demo_mem]
  by (auto simp: bytes_at_def demo_mem_low upt_rec)

lemma rb_pos_inj: "0 < buffer_size rb \<Longrightarrow> i < buffer_size rb \<Longrightarrow> j < buffer_size rb \<Longrightarrow>
  rb_pos rb i = rb_pos rb j \<Longrightarrow> i = j"
  using ring_offset [of "buffer_size rb" 0 "read_index rb" i]
    ring_offset [of "buffer_size rb" 0 "read_index rb" j]
  by (simp add: rb_pos_def)

lemma rb_write_pos: "rb_inv rb \<Longrightarrow> buffer_ptr rb + write_index rb = rb_pos rb (rb_len rb)"
  by (simp add: rb_pos_def rb_write_slot)

lemma rb_contents_put1:
  assumes "rb_inv rb" and "rb_len rb < buffer_size rb"
  shows "rb_contents (m(buffer_ptr rb + write_index rb := ch)) (rb_wrote rb 1) = rb_contents m rb @ [ch]"
proof -
  have n: "rb_len rb + 1 \<le> buffer_size rb" using assms(2) by simp
  note w = rb_wrote_inv [OF assms(1) n]
  have pos: "rb_pos (rb_wrote rb 1) i = rb_pos rb i" for i
    using w(3,4) by (simp add: rb_pos_def same_pool_def)
  have "rb_pos rb i \<noteq> rb_pos rb (rb_len rb)" if "i < rb_len rb" for i
    using that assms rb_pos_inj [of rb i "rb_len rb"] by (auto simp: rb_inv_def)
  then have "map (\<lambda>i. (m(rb_pos rb (rb_len rb) := ch)) (rb_pos rb i)) [0..<rb_len rb] = rb_contents m rb"
    by (simp add: rb_contents_def)
  with w(2) pos rb_write_pos [OF assms(1)] show ?thesis
    by (simp add: rb_contents_def)
qed

lemma rt_ringbuffer_putchar_eq:
  assumes "rb_inv rb"
  shows "rt_ringbuffer_putchar m rb ch =
    (if rb_len rb = buffer_size rb then (0, rb, m)
     else (1, rb_wrote rb 1, m(buffer_ptr rb + write_index rb := ch)))"
  using assms rb_len_le [OF assms]
  by (auto simp: rt_ringbuffer_putchar_def rb_wrote_def rb_inv_def u31_id Let_def)

lemma rt_ringbuffer_putchar_force_eq:
  assumes "rb_inv rb"
  shows "rt_ringbuffer_putchar_force m rb ch =
    (1, rb_forced rb 1, m(buffer_ptr rb + write_index rb := ch))"
  using assms
  by (auto simp: rt_ringbuffer_putchar_force_def rt_ringbuffer_status_def rb_forced_def rb_wrote_def
      rb_inv_def rb_len_def u31_id Let_def split: if_splits)

section \<open>Reading operations\<close>

definition rb_read :: "rt_ringbuffer \<Rightarrow> nat \<Rightarrow> rt_ringbuffer" where
  "rb_read rb n =
     (if read_index rb + n < buffer_size rb then rb\<lparr>read_index := read_index rb + n\<rparr>
      else rb\<lparr>read_mirror := \<not> read_mirror rb, read_index := read_index rb + n - buffer_size rb\<rparr>)"

lemma rb_read_inv:
  assumes "rb_inv rb" and "n \<le> rb_len rb"
  shows "rb_inv (rb_read rb n)" and "rb_len (rb_read rb n) = rb_len rb - n"
    and "read_index (rb_read rb n) = (read_index rb + n) mod buffer_size rb"
    and "same_pool rb (rb_read rb n)"
proof -
  have "read_index rb < buffer_size rb" "n \<le> buffer_size rb"
    using assms rb_len_le [OF assms(1)] by (auto simp: rb_inv_def)
  then show "read_index (rb_read rb n) = (read_index rb + n) mod buffer_size rb"
    by (auto simp: rb_read_def le_mod_geq)
qed (use assms in \<open>auto simp: rb_inv_def rb_len_def rb_read_def same_pool_def split: if_splits\<close>)

lemma rb_contents_read:
  assumes "rb_inv rb" and "n \<le> rb_len rb"
  shows "rb_contents m (rb_read rb n) = drop n (rb_contents m rb)"
  using rb_contents_drop [OF assms rb_read_inv(2,3) [OF assms]] rb_read_inv(4) [OF assms]
  by (simp add: same_pool_def)

lemma rt_ringbuffer_getchar_eq:
  assumes "rb_inv rb"
  shows "rt_ringbuffer_getchar m rb =
    (case rb_contents m rb of
       [] \<Rightarrow> (0, None, rb)
     | ch # _ \<Rightarrow> (1, Some ch, rb_read rb 1))"
proof (cases "rb_contents m rb")
  case Nil
  then have "rb_len rb = 0" by (simp add: rb_contents_def)
  with Nil assms show ?thesis by (simp add: rt_ringbuffer_getchar_def)
next
  case (Cons ch xs)
  then have len: "0 < rb_len rb" by (cases "rb_len rb") (simp_all add: rb_contents_def)
  then have "ch = m (buffer_ptr rb + read_index rb)"
    using Cons assms by (auto simp: rb_contents_def upt_rec rb_pos_def rb_inv_def)
  with Cons len assms show ?thesis
    by (auto simp: rt_ringbuffer_getchar_def rb_read_def rb_inv_def u31_id Let_def)
qed

text \<open>The bytes a read copies out, wherever the unread data wraps.\<close>

definition ring_fetch :: "memory \<Rightarrow> rt_ringbuffer \<Rightarrow> addr \<Rightarrow> nat \<Rightarrow> memory" where
  "ring_fetch m rb ptr n = (\<lambda>a. if ptr \<le> a \<and> a < ptr + n then m (rb_pos rb (a - ptr)) else m a)"

lemma ring_fetch_straight:
  assumes "rb_inv rb" and "n < buffer_size rb - read_index rb"
  shows "block_copy m ptr (buffer_ptr rb + read_index rb) n = ring_fetch m rb ptr n"
proof
  fix a
  have "(read_index rb + (a - ptr)) mod buffer_size rb = read_index rb + (a - ptr)"
    if "a < ptr + n" using that assms by simp
  then show "block_copy m ptr (buffer_ptr rb + read_index rb) n a = ring_fetch m rb ptr n a"
    by (auto simp: block_copy_def ring_fetch_def rb_pos_def add.assoc)
qed

lemma ring_fetch_wrap:
  assumes "rb_inv rb" and "v = buffer_size rb - read_index rb" and "v \<le> n" and "n \<le> buffer_size rb"
    and "outside_pool rb ptr n"
  shows "block_copy (block_copy m ptr (buffer_ptr rb + read_index rb) v) (ptr + v) (buffer_ptr rb) (n - v) =
    ring_fetch m rb ptr n"
proof
  fix a
  let ?lhs = "block_copy (block_copy m ptr (buffer_ptr rb + read_index rb) v) (ptr + v) (buffer_ptr rb) (n - v) a"
  have v: "read_index rb + v = buffer_size rb" "0 < v" using assms(1,2) by (auto simp: rb_inv_def)
  consider "a < ptr \<or> ptr + n \<le> a" | i where "a = ptr + i" "i < v"
    | i where "a = ptr + v + i" "i < n - v"
  proof -
    have "(a < ptr \<or> ptr + n \<le> a) \<or> (\<exists>i. a = ptr + i \<and> i < v) \<or> (\<exists>i. a = ptr + v + i \<and> i < n - v)"
      using assms(3) by presburger
    then show ?thesis using that by blast
  qed
  then show "?lhs = ring_fetch m rb ptr n a"
  proof cases
    case 1
    then show ?thesis using assms(3) by (auto simp: block_copy_def ring_fetch_def)
  next
    case 2
    then have "(read_index rb + i) mod buffer_size rb = read_index rb + i" using v by simp
    with 2 assms(3) show ?thesis by (simp add: block_copy_def ring_fetch_def rb_pos_def add.assoc)
  next
    case 3
    have i: "i < buffer_size rb" using 3 assms(4) by simp
    have "read_index rb + (v + i) = buffer_size rb + i" using v by simp
    then have "(read_index rb + (v + i)) mod buffer_size rb = i"
      using i by (metis mod_add_self1 mod_less)
    moreover have "\<not> (ptr \<le> buffer_ptr rb + i \<and> buffer_ptr rb + i < ptr + v)"
      using 3 i assms(3,5) by (auto simp: outside_pool_def)
    ultimately show ?thesis
      using 3 assms(3) by (auto simp: block_copy_def ring_fetch_def rb_pos_def add.assoc)
  qed
qed

lemma rt_ringbuffer_get_eq:
  assumes "rb_inv rb" and "n = min len (rb_len rb)" and "outside_pool rb ptr n"
  shows "rt_ringbuffer_get m rb ptr len = (n, rb_read rb n, ring_fetch m rb ptr n)"
proof (cases "rb_len rb = 0")
  case True
  then have "n = 0" using assms(2) by simp
  moreover have "ring_fetch m rb ptr 0 = m" by (auto simp: ring_fetch_def fun_eq_iff)
  moreover have "rb_read rb 0 = rb" using assms(1) by (simp add: rb_read_def rb_inv_def)
  ultimately show ?thesis using True assms(1) by (simp add: rt_ringbuffer_get_def)
next
  case False
  let ?v = "buffer_size rb - read_index rb"
  have len: "(if rb_len rb < len then rb_len rb else len) = n" and n: "n \<le> buffer_size rb"
    using assms(2) False rb_len_le [OF assms(1)] by auto
  have w: "read_index rb < buffer_size rb" "buffer_size rb < 2 ^ 31"
    using assms(1) by (auto simp: rb_inv_def)
  then have room: "u32_sub (buffer_size rb) (read_index rb) = ?v" by (simp add: u32_sub_id)
  have copy: "snd (rt_memcpy m' d s k) = block_copy m' d s k" if "d \<le> s \<or> s + k \<le> d" for m' d s k
    using rt_memcpy_eq [OF that] by simp
  show ?thesis
  proof (cases "?v > n")
    case True
    have "snd (rt_memcpy m ptr (buffer_ptr rb + read_index rb) n) =
        block_copy m ptr (buffer_ptr rb + read_index rb) n"
      using assms(3) True by (intro copy) (auto simp: outside_pool_def)
    with True len room w False assms(1) show ?thesis
      by (simp add: rt_ringbuffer_get_def Let_def rb_read_def u31_id ring_fetch_straight)
  next
    case v: False
    have "snd (rt_memcpy m ptr (buffer_ptr rb + read_index rb) ?v) =
        block_copy m ptr (buffer_ptr rb + read_index rb) ?v"
      using assms(3) v w by (intro copy) (auto simp: outside_pool_def)
    moreover have "snd (rt_memcpy m' (ptr + ?v) (buffer_ptr rb) (n - ?v)) =
        block_copy m' (ptr + ?v) (buffer_ptr rb) (n - ?v)" for m'
      using assms(3) v n by (intro copy) (auto simp: outside_pool_def)
    moreover have "u32_sub n ?v = n - ?v" using v n w by (simp add: u32_sub_id)
    moreover have "read_index rb + n - buffer_size rb = n - ?v" using v w by simp
    ultimately show ?thesis
      using v len room w n False assms(1,3) ring_fetch_wrap [OF assms(1) refl _ n assms(3), of m]
      by (simp add: rt_ringbuffer_get_def Let_def rb_read_def u31_id)
  qed
qed

lemma rb_pos_in_pool: "rb_inv rb \<Longrightarrow> buffer_ptr rb \<le> rb_pos rb i \<and> rb_pos rb i < buffer_ptr rb + buffer_size rb"
  by (simp add: rb_pos_def rb_inv_def)

lemma ring_fetch_bytes:
  assumes "n \<le> rb_len rb"
  shows "bytes_at (ring_fetch m rb ptr n) ptr n = take n (rb_contents m rb)"
  using assms by (intro nth_equalityI) (auto simp: bytes_at_def ring_fetch_def rb_contents_def)

lemma ring_fetch_contents:
  assumes "rb_inv rb" and "rb_inv rb'" and "same_pool rb rb'" and "outside_pool rb ptr n"
  shows "rb_contents (ring_fetch m rb ptr n) rb' = rb_contents m rb'"
proof -
  have "ring_fetch m rb ptr n (rb_pos rb' i) = m (rb_pos rb' i)" for i
    using rb_pos_in_pool [OF assms(2), of i] assms(3,4)
    by (auto simp: ring_fetch_def outside_pool_def same_pool_def)
  then show ?thesis by (simp add: rb_contents_def)
qed

text \<open>\<^verbatim>\<open>rt_ringbuffer_get\<close> hands the oldest unread bytes to the caller, in order, drops exactly those
  from the buffer and touches no other byte of memory.\<close>

theorem rt_ringbuffer_get_takes_oldest:
  assumes "rb_inv rb" and "outside_pool rb ptr (min len (rb_len rb))"
  shows "\<exists>rb' m'. rt_ringbuffer_get m rb ptr len = (min len (rb_len rb), rb', m') \<and>
    rb_inv rb' \<and> same_pool rb rb' \<and>
    bytes_at m' ptr (min len (rb_len rb)) = take len (rb_contents m rb) \<and>
    rb_contents m' rb' = drop len (rb_contents m rb) \<and>
    (\<forall>a. a < ptr \<or> ptr + min len (rb_len rb) \<le> a \<longrightarrow> m' a = m a)"
proof -
  let ?n = "min len (rb_len rb)"
  have n: "?n \<le> rb_len rb" by simp
  note r = rb_read_inv [OF assms(1) n]
  have "take ?n (rb_contents m rb) = take len (rb_contents m rb)"
    "drop ?n (rb_contents m rb) = drop len (rb_contents m rb)"
    by (auto simp: min_def)
  then have "bytes_at (ring_fetch m rb ptr ?n) ptr ?n = take len (rb_contents m rb)"
    "rb_contents (ring_fetch m rb ptr ?n) (rb_read rb ?n) = drop len (rb_contents m rb)"
    using ring_fetch_bytes [OF n] ring_fetch_contents [OF assms(1) r(1,4) assms(2)]
      rb_contents_read [OF assms(1) n] by simp_all
  then show ?thesis
    using rt_ringbuffer_get_eq [OF assms(1) refl assms(2), of m] r by (auto simp: ring_fetch_def)
qed

theorem rt_ringbuffer_get_takes_oldest_witness:
  "\<exists>rb' m'. rt_ringbuffer_get demo_mem demo_rb 10 1 = (1, rb', m') \<and> m' 10 = 105 \<and> m' 9 = 9 \<and>
     rb_contents m' rb' = [106]"
  using rt_ringbuffer_get_takes_oldest [of demo_rb 10 1 demo_mem]
  by (auto simp: bytes_at_def demo_mem_low)

text \<open>\<^verbatim>\<open>rt_ringbuffer_peek\<close> returns a pointer to the oldest unread bytes that lie contiguously in the
  pool and their number; it also consumes them.\<close>

theorem rt_ringbuffer_peek_consumes:
  assumes "rb_inv rb" and "rb_contents m rb \<noteq> []"
  shows "\<exists>n p rb'. rt_ringbuffer_peek rb = (n, Some p, rb') \<and> 0 < n \<and>
    n = min (rb_len rb) (buffer_size rb - read_index rb) \<and>
    bytes_at m p n = take n (rb_contents m rb) \<and> rb_inv rb' \<and>
    rb_contents m rb' = drop n (rb_contents m rb)"
proof -
  let ?n = "min (rb_len rb) (buffer_size rb - read_index rb)"
  have len: "0 < rb_len rb" using assms(2) by (cases "rb_len rb") (auto simp: rb_contents_def)
  have r: "read_index rb < buffer_size rb" "buffer_size rb < 2 ^ 31"
    using assms(1) by (auto simp: rb_inv_def)
  then have room: "u32_sub (buffer_size rb) (read_index rb) = buffer_size rb - read_index rb"
    by (simp add: u32_sub_id)
  have "rt_ringbuffer_peek rb = (?n, Some (buffer_ptr rb + read_index rb), rb_read rb ?n)"
  proof (cases "buffer_size rb - read_index rb > rb_len rb")
    case True
    with len room assms(1) r show ?thesis
      by (simp add: rt_ringbuffer_peek_def Let_def rb_read_def u31_id min_absorb1)
  next
    case False
    then have "?n = buffer_size rb - read_index rb" by simp
    with False len room assms(1) r show ?thesis
      by (simp add: rt_ringbuffer_peek_def Let_def rb_read_def)
  qed
  moreover have "bytes_at m (buffer_ptr rb + read_index rb) ?n = take ?n (rb_contents m rb)"
    by (rule nth_equalityI) (auto simp: bytes_at_def rb_contents_def rb_pos_def add.assoc)
  moreover have n: "?n \<le> rb_len rb" by simp
  ultimately show ?thesis
    using rb_read_inv(1) [OF assms(1) n] rb_contents_read [OF assms(1) n] len r by auto
qed

theorem rt_ringbuffer_peek_consumes_witness:
  "\<exists>p rb'. rt_ringbuffer_peek demo_rb = (2, Some p, rb') \<and> rb_contents demo_mem rb' = []"
  using rt_ringbuffer_peek_consumes [of demo_rb demo_mem] by auto

section \<open>Initialisation, and the ring buffer as a bounded queue\<close>

text \<open>The size is rounded down to the alignment, so a pool of at least eight (and fewer than
  2^31) bytes gives an empty, well-formed buffer, while a smaller pool gives a buffer of size zero,
  which is not well formed.\<close>

theorem rt_ringbuffer_init_wellformed:
  assumes "sz < 2 ^ 31"
  shows "(rb_inv (rt_ringbuffer_init rb pool sz) \<longleftrightarrow> 8 \<le> sz) \<and>
    rb_contents m (rt_ringbuffer_init rb pool sz) = [] \<and>
    buffer_size (rt_ringbuffer_init rb pool sz) = sz div 8 * 8"
proof -
  have "RT_ALIGN_DOWN sz RT_ALIGN_SIZE = sz div 8 * 8"
    using assms by (simp add: RT_ALIGN_SIZE_def RT_ALIGN_DOWN_8)
  moreover have "sz div 8 * 8 < 2 ^ 31" using assms by (meson div_times_less_eq_dividend le_less_trans)
  moreover have "0 < sz div 8 \<longleftrightarrow> 8 \<le> sz" by auto
  ultimately show ?thesis
    by (auto simp: rt_ringbuffer_init_def rb_inv_def rb_contents_def rb_len_def)
qed

theorem rt_ringbuffer_init_wellformed_witness:
  "rb_inv (rt_ringbuffer_init demo_rb 1000 21) \<and>
   buffer_size (rt_ringbuffer_init demo_rb 1000 21) = 16 \<and>
   \<not> rb_inv (rt_ringbuffer_init demo_rb 1000 7)"
  using rt_ringbuffer_init_wellformed [of 21 demo_rb 1000] rt_ringbuffer_init_wellformed [of 7 demo_rb 1000]
  by simp

lemma rt_ringbuffer_reset_empty:
  "rb_inv rb \<Longrightarrow> rb_inv (rt_ringbuffer_reset rb) \<and> rb_contents m (rt_ringbuffer_reset rb) = []"
  by (simp add: rt_ringbuffer_reset_def rb_inv_def rb_contents_def rb_len_def)

text \<open>The byte-wise interface as a queue over the buffer and the memory it lives in.\<close>

definition rb_put1 :: "u8 \<Rightarrow> memory \<times> rt_ringbuffer \<Rightarrow> (memory \<times> rt_ringbuffer) option" where
  "rb_put1 ch s =
     (case rt_ringbuffer_putchar (fst s) (snd s) ch of
        (n, rb', m') \<Rightarrow> if n = 0 then None else Some (m', rb'))"

definition rb_get1 :: "memory \<times> rt_ringbuffer \<Rightarrow> (u8 \<times> memory \<times> rt_ringbuffer) option" where
  "rb_get1 s =
     (case rt_ringbuffer_getchar (fst s) (snd s) of
        (n, Some ch, rb') \<Rightarrow> Some (ch, fst s, rb')
      | (n, None, rb') \<Rightarrow> None)"

interpretation rbq: bounded_fifo "\<lambda>s. rb_inv (snd s)" "\<lambda>s. rb_contents (fst s) (snd s)"
  "\<lambda>s. buffer_size (snd s)" rb_put1 rb_get1
proof unfold_locales
  fix s :: "memory \<times> rt_ringbuffer" and x xs
  obtain m rb where s: "s = (m, rb)" by (cases s)
  assume inv: "rb_inv (snd s)"
  show "length (rb_contents (fst s) (snd s)) \<le> buffer_size (snd s)"
    using rb_len_le inv by simp
  show "\<exists>s'. rb_put1 x s = Some s' \<and> rb_inv (snd s') \<and>
      rb_contents (fst s') (snd s') = rb_contents (fst s) (snd s) @ [x] \<and>
      buffer_size (snd s') = buffer_size (snd s)"
    if "length (rb_contents (fst s) (snd s)) < buffer_size (snd s)"
    using that inv s rb_wrote_inv [of rb 1] rb_contents_put1 [of rb m x]
    by (simp add: rb_put1_def rt_ringbuffer_putchar_eq same_pool_def)
  show "rb_put1 x s = None"
    if "length (rb_contents (fst s) (snd s)) = buffer_size (snd s)"
    using that inv s by (simp add: rb_put1_def rt_ringbuffer_putchar_eq)
  show "\<exists>s'. rb_get1 s = Some (x, s') \<and> rb_inv (snd s') \<and>
      rb_contents (fst s') (snd s') = xs \<and> buffer_size (snd s') = buffer_size (snd s)"
    if c: "rb_contents (fst s) (snd s) = x # xs"
  proof -
    have "1 \<le> rb_len rb" using arg_cong [OF c, of length] s by simp
    with c inv s rb_read_inv [of rb 1] rb_contents_read [of rb 1 m] show ?thesis
      by (simp add: rb_get1_def rt_ringbuffer_getchar_eq same_pool_def)
  qed
  show "rb_get1 s = None" if "rb_contents (fst s) (snd s) = []"
    using that inv s by (simp add: rb_get1_def rt_ringbuffer_getchar_eq)
qed

text \<open>C31: bytes sent one at a time with \<^verbatim>\<open>rt_ringbuffer_putchar\<close> are received by
  \<^verbatim>\<open>rt_ringbuffer_getchar\<close> exactly once, in the order sent, after those already waiting, as long as they
  fit; the buffer is empty at the end.\<close>

theorem rt_ringbuffer_char_stream:
  assumes "rb_inv rb" and "rb_len rb + length xs \<le> buffer_size rb"
  shows "\<exists>s' s''. put_all rb_put1 xs (m, rb) = Some s' \<and>
    get_n rb_get1 (rb_len rb + length xs) s' = Some (rb_contents m rb @ xs, s'') \<and>
    rb_inv (snd s'') \<and> rb_contents (fst s'') (snd s'') = []"
  using rbq.put_get_order [of "(m, rb)" xs] assms by simp

theorem rt_ringbuffer_char_stream_witness:
  "\<exists>s' s''. put_all rb_put1 [1, 2, 3] (demo_mem, demo_rb) = Some s' \<and>
     get_n rb_get1 5 s' = Some ([105, 106, 1, 2, 3], s'')"
  using rt_ringbuffer_char_stream [of demo_rb "[1, 2, 3]" demo_mem] by auto

text \<open>On a pool of fewer than eight bytes \<^verbatim>\<open>rt_ringbuffer_init\<close> sets a size of zero, and
  \<^verbatim>\<open>rt_ringbuffer_putchar_force\<close>, which does not check the size, then stores at every successive address:
  after \<open>n\<close> forced bytes the write index is \<open>n\<close>, beyond the pool the caller gave.\<close>

theorem rt_ringbuffer_small_pool_overrun:
  assumes "sz < 8" and "n < 2 ^ 31"
  shows "write_index (((\<lambda>rb. fst (snd (rt_ringbuffer_putchar_force m rb ch))) ^^ n)
    (rt_ringbuffer_init rb0 pool sz)) = n"
proof -
  let ?f = "\<lambda>rb. fst (snd (rt_ringbuffer_putchar_force m rb ch))"
  have "RT_ALIGN_DOWN sz RT_ALIGN_SIZE = 0"
    using assms(1) by (simp add: RT_ALIGN_SIZE_def RT_ALIGN_DOWN_8)
  then have init: "buffer_size (rt_ringbuffer_init rb0 pool sz) = 0"
      "write_index (rt_ringbuffer_init rb0 pool sz) = 0"
    by (simp_all add: rt_ringbuffer_init_def)
  have "write_index ((?f ^^ n) (rt_ringbuffer_init rb0 pool sz)) = n \<and>
      buffer_size ((?f ^^ n) (rt_ringbuffer_init rb0 pool sz)) = 0"
    using assms(2) init
    by (induction n) (auto simp: rt_ringbuffer_putchar_force_def Let_def u31_id)
  then show ?thesis by simp
qed

theorem rt_ringbuffer_small_pool_overrun_witness:
  "write_index (((\<lambda>rb. fst (snd (rt_ringbuffer_putchar_force demo_mem rb 65))) ^^ 100)
     (rt_ringbuffer_init demo_rb 1000 4)) = 100"
  by (rule rt_ringbuffer_small_pool_overrun) simp_all

end
