(* ===== verification/Rt_List.thy ===== *)
theory Rt_List
  imports Rt_Prelude
begin

text \<open>
  The intrusive lists of \<^verbatim>\<open>include/rtservice.h\<close>.  A node is an address; the links of all
  nodes are two maps, the \<^verbatim>\<open>next\<close> and \<^verbatim>\<open>prev\<close> members.  \<open>ring h l xs\<close> says that the
  doubly linked list with head \<open>l\<close> holds exactly the nodes \<open>xs\<close>, in order, with
  consistent back links; \<open>slist h l xs\<close> is its counterpart for the singly linked list.
  Each operation is a sequence of stores as in the C code (the stores read the links as
  the earlier stores left them), and is shown to act on \<open>xs\<close> as the list operation that
  the rest of the development uses for it: insertion at either end, removal of a node,
  emptiness and length.  The traversals are \<open>partial_function\<close>s: they return for every
  well-formed list.
\<close>

section \<open>Doubly linked list\<close>

record links =
  nxt :: "addr \<Rightarrow> addr"
  prv :: "addr \<Rightarrow> addr"

definition set_nxt :: "addr \<Rightarrow> addr \<Rightarrow> links \<Rightarrow> links" where
  "set_nxt a v h = h\<lparr>nxt := (nxt h)(a := v)\<rparr>"

definition set_prv :: "addr \<Rightarrow> addr \<Rightarrow> links \<Rightarrow> links" where
  "set_prv a v h = h\<lparr>prv := (prv h)(a := v)\<rparr>"

lemma set_links_simps [simp]:
  "nxt (set_nxt a v h) = (nxt h)(a := v)" "prv (set_nxt a v h) = prv h"
  "nxt (set_prv a v h) = nxt h" "prv (set_prv a v h) = (prv h)(a := v)"
  by (simp_all add: set_nxt_def set_prv_def)

definition rt_list_init :: "links \<Rightarrow> addr \<Rightarrow> links" where
  "rt_list_init h l = set_nxt l l (set_prv l l h)"

definition rt_list_insert_after :: "links \<Rightarrow> addr \<Rightarrow> addr \<Rightarrow> links" where
  "rt_list_insert_after h l n =
     (let h1 = set_prv (nxt h l) n h;
          h2 = set_nxt n (nxt h1 l) h1;
          h3 = set_nxt l n h2
      in set_prv n l h3)"

definition rt_list_insert_before :: "links \<Rightarrow> addr \<Rightarrow> addr \<Rightarrow> links" where
  "rt_list_insert_before h l n =
     (let h1 = set_nxt (prv h l) n h;
          h2 = set_prv n (prv h1 l) h1;
          h3 = set_prv l n h2
      in set_nxt n l h3)"

definition rt_list_remove :: "links \<Rightarrow> addr \<Rightarrow> links" where
  "rt_list_remove h n =
     (let h1 = set_prv (nxt h n) (prv h n) h;
          h2 = set_nxt (prv h1 n) (nxt h1 n) h1
      in set_nxt n n (set_prv n n h2))"

definition rt_list_isempty :: "links \<Rightarrow> addr \<Rightarrow> bool" where
  "rt_list_isempty h l \<longleftrightarrow> nxt h l = l"

partial_function (option) list_len_loop :: "links \<Rightarrow> addr \<Rightarrow> addr \<Rightarrow> nat \<Rightarrow> nat option" where
  "list_len_loop h l p len =
     (if nxt h p \<noteq> l then list_len_loop h l (nxt h p) (u32_add len 1) else Some len)"

definition rt_list_len :: "links \<Rightarrow> addr \<Rightarrow> nat option" where
  "rt_list_len h l = list_len_loop h l l 0"

section \<open>Doubly linked segments\<close>

fun dseg :: "links \<Rightarrow> addr \<Rightarrow> addr list \<Rightarrow> addr \<Rightarrow> bool" where
  "dseg h a [] b \<longleftrightarrow> nxt h a = b \<and> prv h b = a"
| "dseg h a (x # xs) b \<longleftrightarrow> nxt h a = x \<and> prv h x = a \<and> dseg h x xs b"

definition ring :: "links \<Rightarrow> addr \<Rightarrow> addr list \<Rightarrow> bool" where
  "ring h l xs \<longleftrightarrow> distinct (l # xs) \<and> dseg h l xs l"

lemma dseg_append: "dseg h a (xs @ y # ys) b \<longleftrightarrow> dseg h a xs y \<and> dseg h y ys b"
  by (induction xs arbitrary: a) auto

lemma dseg_cong:
  "(\<And>y. y \<in> set (a # xs) \<Longrightarrow> nxt h' y = nxt h y) \<Longrightarrow> (\<And>y. y \<in> set (xs @ [b]) \<Longrightarrow> prv h' y = prv h y) \<Longrightarrow>
   dseg h' a xs b = dseg h a xs b"
  by (induction xs arbitrary: a) auto

lemma dseg_first: "dseg h a xs b \<Longrightarrow> nxt h a = hd (xs @ [b])"
  by (cases xs) auto

lemma dseg_last: "dseg h a xs b \<Longrightarrow> prv h b = last (a # xs)"
  by (induction xs arbitrary: a) auto

text \<open>A link state in which \<open>n\<close> has been put between the neighbours \<open>p\<close> and \<open>q\<close>, and one in which
  \<open>p\<close> and \<open>q\<close> have been joined.\<close>

definition linked_between :: "links \<Rightarrow> links \<Rightarrow> addr \<Rightarrow> addr \<Rightarrow> addr \<Rightarrow> bool" where
  "linked_between h h' p n q \<longleftrightarrow>
     nxt h' = (nxt h)(p := n, n := q) \<and> prv h' = (prv h)(q := n, n := p)"

definition joined :: "links \<Rightarrow> links \<Rightarrow> addr \<Rightarrow> addr \<Rightarrow> addr \<Rightarrow> bool" where
  "joined h h' p n q \<longleftrightarrow>
     nxt h' = (nxt h)(p := q, n := n) \<and> prv h' = (prv h)(q := p, n := n)"

lemma dseg_insert:
  assumes "dseg h a (xs @ ys) b" and "distinct (a # xs @ ys)" and "distinct (xs @ ys @ [b])"
    and "n \<notin> set (a # xs @ ys @ [b])"
    and "linked_between h h' (last (a # xs)) n (hd (ys @ [b]))"
  shows "dseg h' a (xs @ n # ys) b"
  using assms
proof (induction xs arbitrary: a)
  case Nil
  show ?case
  proof (cases ys)
    case Nil
    with Nil.prems show ?thesis by (auto simp: linked_between_def)
  next
    case (Cons q zs)
    have "dseg h' q zs b = dseg h q zs b"
      by (rule dseg_cong) (use Nil.prems Cons in \<open>auto simp: linked_between_def\<close>)
    with Nil.prems Cons show ?thesis by (auto simp: linked_between_def)
  qed
next
  case (Cons x xs)
  have "dseg h' x (xs @ n # ys) b"
    by (rule Cons.IH) (use Cons.prems in auto)
  moreover have "nxt h' a = x" "prv h' x = a"
    using Cons.prems by (cases ys; auto simp: linked_between_def split: if_splits)+
  ultimately show ?case by simp
qed

lemma dseg_remove:
  assumes "dseg h a (xs @ n # ys) b" and "distinct (a # xs @ n # ys)" and "distinct (xs @ n # ys @ [b])"
    and "joined h h' (last (a # xs)) n (hd (ys @ [b]))"
  shows "dseg h' a (xs @ ys) b"
  using assms
proof (induction xs arbitrary: a)
  case Nil
  show ?case
  proof (cases ys)
    case Nil
    with Nil.prems show ?thesis by (auto simp: joined_def)
  next
    case (Cons q zs)
    have "dseg h' q zs b = dseg h q zs b"
      by (rule dseg_cong) (use Nil.prems Cons in \<open>auto simp: joined_def\<close>)
    with Nil.prems Cons show ?thesis by (auto simp: joined_def)
  qed
next
  case (Cons x xs)
  have "dseg h' x (xs @ ys) b"
    by (rule Cons.IH) (use Cons.prems in auto)
  moreover have "nxt h' a = x" "prv h' x = a"
    using Cons.prems by (cases ys; auto simp: joined_def split: if_splits)+
  ultimately show ?case by simp
qed

lemma ring_prev: "ring h l (xs @ y # ys) \<Longrightarrow> prv h y = last (l # xs) \<and> nxt h y = hd (ys @ [l])"
  by (auto simp: ring_def dseg_append dest: dseg_first dseg_last)

lemma ring_insert:
  assumes "ring h l (xs @ ys)" and "n \<notin> set (l # xs @ ys)"
    and "linked_between h h' (last (l # xs)) n (hd (ys @ [l]))"
  shows "ring h' l (xs @ n # ys)"
  unfolding ring_def
proof
  show "dseg h' l (xs @ n # ys) l"
    by (rule dseg_insert [where h = h]) (use assms in \<open>auto simp: ring_def\<close>)
qed (use assms in \<open>auto simp: ring_def\<close>)

lemma ring_nth_links:
  assumes "ring h l (xs @ ys)"
  shows "nxt h (last (l # xs)) = hd (ys @ [l])" and "prv h (hd (ys @ [l])) = last (l # xs)"
proof -
  have "nxt h (last (l # xs)) = hd (ys @ [l]) \<and> prv h (hd (ys @ [l])) = last (l # xs)"
  proof (cases xs rule: rev_cases)
    case Nil
    with assms show ?thesis by (cases ys) (auto simp: ring_def)
  next
    case (snoc zs p)
    with assms have "ring h l (zs @ p # ys)" by simp
    then have "dseg h p ys l" by (simp add: ring_def dseg_append)
    with snoc show ?thesis by (cases ys) auto
  qed
  then show "nxt h (last (l # xs)) = hd (ys @ [l])" "prv h (hd (ys @ [l])) = last (l # xs)" by auto
qed

text \<open>The two insertions store the same links: after \<open>p\<close> is before the node that follows \<open>p\<close>.\<close>

lemma rt_list_insert_after_links:
  "n \<noteq> p \<Longrightarrow> linked_between h (rt_list_insert_after h p n) p n (nxt h p)"
  by (auto simp: linked_between_def rt_list_insert_after_def Let_def fun_eq_iff)

lemma rt_list_insert_before_links:
  "n \<noteq> q \<Longrightarrow> linked_between h (rt_list_insert_before h q n) (prv h q) n q"
  by (auto simp: linked_between_def rt_list_insert_before_def Let_def fun_eq_iff)

lemma rt_list_init_ring: "ring (rt_list_init h l) l []"
  by (simp add: rt_list_init_def ring_def)

lemma ring_insert_neighbours:
  assumes "n \<notin> set (l # xs @ ys)"
  shows "n \<noteq> last (l # xs)" and "n \<noteq> hd (ys @ [l])"
  using assms last_in_set [of "l # xs"] hd_in_set [of "ys @ [l]"] by auto

lemma rt_list_insert_after_ring:
  assumes "ring h l (xs @ ys)" and "n \<notin> set (l # xs @ ys)"
  shows "ring (rt_list_insert_after h (last (l # xs)) n) l (xs @ n # ys)"
  using ring_insert [OF assms] rt_list_insert_after_links ring_nth_links(1) [OF assms(1)]
    ring_insert_neighbours(1) [OF assms(2)] by metis

lemma rt_list_insert_before_ring:
  assumes "ring h l (xs @ ys)" and "n \<notin> set (l # xs @ ys)"
  shows "ring (rt_list_insert_before h (hd (ys @ [l])) n) l (xs @ n # ys)"
  using ring_insert [OF assms] rt_list_insert_before_links ring_nth_links(2) [OF assms(1)]
    ring_insert_neighbours(2) [OF assms(2)] by metis

lemma rt_list_insert_before_head:
  "ring h l xs \<Longrightarrow> n \<notin> set (l # xs) \<Longrightarrow> ring (rt_list_insert_before h l n) l (xs @ [n])"
  using rt_list_insert_before_ring [of h l xs "[]" n] by simp

lemma rt_list_insert_after_head:
  "ring h l xs \<Longrightarrow> n \<notin> set (l # xs) \<Longrightarrow> ring (rt_list_insert_after h l n) l (n # xs)"
  using rt_list_insert_after_ring [of h l "[]" xs n] by simp

text \<open>\<^verbatim>\<open>rt_list_insert_after\<close> and \<^verbatim>\<open>rt_list_insert_before\<close> put the new node directly after, respectively before,
  any position of the list, the head included, and keep all other nodes in order.\<close>

theorem rt_list_insert_correct:
  assumes "ring h l (xs @ ys)" and "n \<notin> set (l # xs @ ys)"
  shows "ring (rt_list_insert_after h (last (l # xs)) n) l (xs @ n # ys) \<and>
    ring (rt_list_insert_before h (hd (ys @ [l])) n) l (xs @ n # ys)"
  using rt_list_insert_after_ring [OF assms] rt_list_insert_before_ring [OF assms] by simp

text \<open>A list at address 1 holding the nodes 2 and 3.\<close>

definition demo_links :: links where
  "demo_links =
     rt_list_insert_before (rt_list_insert_before
       (rt_list_init \<lparr>nxt = (\<lambda>a. a), prv = (\<lambda>a. a)\<rparr> 1) 1 2) 1 3"

lemma demo_links_ring: "ring demo_links 1 [2, 3]"
  by (simp add: demo_links_def rt_list_insert_before_def rt_list_init_def Let_def ring_def)

theorem rt_list_insert_correct_witness:
  "ring (rt_list_insert_after demo_links 2 7) 1 [2, 7, 3] \<and>
   ring (rt_list_insert_before demo_links 3 7) 1 [2, 7, 3]"
  using rt_list_insert_correct [of demo_links 1 "[2]" "[3]" 7] demo_links_ring by simp

lemma ring_remove:
  assumes "ring h l (xs @ n # ys)"
  shows "ring (rt_list_remove h n) l (xs @ ys)"
proof -
  let ?p = "last (l # xs)" and ?q = "hd (ys @ [l])"
  have pq: "prv h n = ?p" "nxt h n = ?q" using ring_prev [OF assms] by auto
  have "n \<noteq> l" "n \<notin> set xs" "n \<notin> set ys" using assms by (auto simp: ring_def)
  then have "?p \<noteq> n" "?q \<noteq> n" using last_in_set [of xs] by (auto, cases ys) auto
  then have j: "joined h (rt_list_remove h n) ?p n ?q"
    unfolding joined_def rt_list_remove_def Let_def using pq by (auto simp: fun_eq_iff)
  have "dseg (rt_list_remove h n) l (xs @ ys) l"
    by (rule dseg_remove [OF _ _ _ j]) (use assms in \<open>auto simp: ring_def\<close>)
  with assms show ?thesis by (auto simp: ring_def)
qed

text \<open>\<^verbatim>\<open>rt_list_remove\<close> takes exactly the given node out of its list, leaves the rest in order and
  the node itself a list of its own, so that removing it once more changes nothing.\<close>

theorem rt_list_remove_correct:
  assumes "ring h l xs" and "n \<in> set xs"
  shows "ring (rt_list_remove h n) l (filter (\<lambda>x. x \<noteq> n) xs) \<and> ring (rt_list_remove h n) n [] \<and>
    rt_list_remove (rt_list_remove h n) n = rt_list_remove h n"
proof -
  obtain as bs where xs: "xs = as @ n # bs" using assms(2) by (auto simp: in_set_conv_decomp)
  have "filter (\<lambda>x. x \<noteq> n) xs = as @ bs" using assms(1) xs by (auto simp: ring_def)
  then have "ring (rt_list_remove h n) l (filter (\<lambda>x. x \<noteq> n) xs)"
    using ring_remove assms(1) xs by simp
  moreover have own: "nxt (rt_list_remove h n) n = n" "prv (rt_list_remove h n) n = n"
    by (simp_all add: rt_list_remove_def Let_def)
  moreover from own have "rt_list_remove (rt_list_remove h n) n = rt_list_remove h n"
    by (simp add: rt_list_remove_def [of "rt_list_remove h n"] Let_def set_nxt_def set_prv_def fun_upd_idem)
  ultimately show ?thesis by (simp add: ring_def)
qed

theorem rt_list_remove_correct_witness:
  "ring (rt_list_remove demo_links 2) 1 [3] \<and> ring (rt_list_remove demo_links 2) 2 []"
  using rt_list_remove_correct [OF demo_links_ring, of 2] by simp

lemma rt_list_isempty_iff: "ring h l xs \<Longrightarrow> rt_list_isempty h l \<longleftrightarrow> xs = []"
  by (cases xs) (auto simp: ring_def rt_list_isempty_def)

lemma list_len_loop_seg:
  "dseg h p xs l \<Longrightarrow> l \<notin> set xs \<Longrightarrow> k + length xs < 2 ^ 32 \<Longrightarrow>
   list_len_loop h l p k = Some (k + length xs)"
proof (induction xs arbitrary: p k)
  case Nil
  then show ?case by (subst list_len_loop.simps) simp
next
  case (Cons x xs)
  then have "list_len_loop h l x (u32_add k 1) = Some (k + 1 + length xs)"
    by (simp add: u32_add_id)
  with Cons.prems show ?case by (subst list_len_loop.simps) auto
qed

lemma rt_list_len_correct: "ring h l xs \<Longrightarrow> length xs < 2 ^ 32 \<Longrightarrow> rt_list_len h l = Some (length xs)"
  using list_len_loop_seg [of h l xs l 0] by (auto simp: ring_def rt_list_len_def)

text \<open>Two lists with disjoint nodes do not disturb each other.\<close>

lemma ring_frame:
  assumes "ring h l xs" and "\<And>a. a \<in> set (l # xs) \<Longrightarrow> nxt h' a = nxt h a \<and> prv h' a = prv h a"
  shows "ring h' l xs"
proof -
  have "dseg h' l xs l = dseg h l xs l" by (rule dseg_cong) (use assms(2) in auto)
  with assms(1) show ?thesis by (simp add: ring_def)
qed

section \<open>Families of lists\<close>

text \<open>
  The kernel keeps many lists at once: a node sits in at most one of them and is moved
  between them.  The contract below describes the operations on such a family \<open>Q\<close>,
  a map from list heads to their nodes.  The pointer lists meet it, and so does the
  kernel state of the theory \<open>Kernel_State\<close>, whose queues are plain lists: what the
  kernel theories prove about queues is therefore about the linked structure.
\<close>

locale list_family =
  fixes rep :: "'s \<Rightarrow> ('h \<Rightarrow> 'n list option) \<Rightarrow> bool"
    and fresh :: "('h \<Rightarrow> 'n list option) \<Rightarrow> 'n \<Rightarrow> bool"
    and append_node :: "'s \<Rightarrow> 'h \<Rightarrow> 'n \<Rightarrow> 's"
    and remove_node :: "'s \<Rightarrow> 'n \<Rightarrow> 's"
    and is_empty :: "'s \<Rightarrow> 'h \<Rightarrow> bool"
  assumes append_rep: "rep s Q \<Longrightarrow> Q l = Some xs \<Longrightarrow> fresh Q n \<Longrightarrow>
      rep (append_node s l n) (Q(l \<mapsto> xs @ [n]))"
    and remove_rep: "rep s Q \<Longrightarrow> Q l = Some xs \<Longrightarrow> n \<in> set xs \<Longrightarrow>
      rep (remove_node s n) (Q(l \<mapsto> filter (\<lambda>x. x \<noteq> n) xs))"
    and remove_fresh: "rep s Q \<Longrightarrow> Q l = Some xs \<Longrightarrow> n \<in> set xs \<Longrightarrow>
      fresh (Q(l \<mapsto> filter (\<lambda>x. x \<noteq> n) xs)) n"
    and empty_iff: "rep s Q \<Longrightarrow> Q l = Some xs \<Longrightarrow> is_empty s l \<longleftrightarrow> xs = []"
    and rep_distinct: "rep s Q \<Longrightarrow> Q l = Some xs \<Longrightarrow> distinct xs"
begin

lemma move_node:
  assumes "rep s Q" and "Q l = Some xs" and "n \<in> set xs" and "Q l' = Some ys" and "l \<noteq> l'"
  shows "rep (append_node (remove_node s n) l' n)
    (Q(l \<mapsto> filter (\<lambda>x. x \<noteq> n) xs, l' \<mapsto> ys @ [n]))"
  using append_rep [OF remove_rep [OF assms(1-3)] _ remove_fresh [OF assms(1-3)], of l' ys] assms(4,5)
  by simp

lemma rotate_head:
  assumes "rep s Q" and "Q l = Some (n # xs)"
  shows "rep (append_node (remove_node s n) l n) (Q(l \<mapsto> xs @ [n]))"
proof -
  have "n \<in> set (n # xs)" "filter (\<lambda>x. x \<noteq> n) (n # xs) = xs"
    using rep_distinct [OF assms] by auto
  with append_rep [OF remove_rep [OF assms] _ remove_fresh [OF assms], of n l xs] show ?thesis
    by simp
qed

lemma empty_after_remove:
  assumes "rep s Q" and "Q l = Some xs" and "n \<in> set xs"
  shows "is_empty (remove_node s n) l \<longleftrightarrow> xs = [n]"
proof -
  obtain as bs where "xs = as @ n # bs" using assms(3) by (meson split_list)
  then have "filter (\<lambda>x. x \<noteq> n) xs = [] \<longleftrightarrow> xs = [n]"
    using rep_distinct [OF assms(1,2)] by (cases as) auto
  with empty_iff [OF remove_rep [OF assms], of l] show ?thesis by simp
qed

end

definition rings :: "links \<Rightarrow> (addr \<Rightarrow> addr list option) \<Rightarrow> bool" where
  "rings h Q \<longleftrightarrow>
     (\<forall>l xs. Q l = Some xs \<longrightarrow> ring h l xs) \<and>
     (\<forall>l l' xs ys. Q l = Some xs \<longrightarrow> Q l' = Some ys \<longrightarrow> l \<noteq> l' \<longrightarrow> set (l # xs) \<inter> set (l' # ys) = {})"

definition unlinked :: "(addr \<Rightarrow> addr list option) \<Rightarrow> addr \<Rightarrow> bool" where
  "unlinked Q n \<longleftrightarrow> (\<forall>l xs. Q l = Some xs \<longrightarrow> n \<notin> set (l # xs))"

lemma rings_update:
  assumes "rings h Q" and "Q l = Some xs" and "ring h' l ys"
    and "\<And>a. a \<notin> set (l # xs) \<Longrightarrow> a \<noteq> n \<Longrightarrow> nxt h' a = nxt h a \<and> prv h' a = prv h a"
    and "set ys \<subseteq> insert n (set xs)" and "unlinked Q n \<or> n \<in> set xs"
  shows "rings h' (Q(l \<mapsto> ys))"
proof -
  have far1: "set (l' # zs) \<inter> set (l # xs) = {}" if "Q l' = Some zs" "l' \<noteq> l" for l' zs
    using assms(1,2) that by (simp add: rings_def)
  have far2: "n \<notin> set (l' # zs)" if q: "Q l' = Some zs" "l' \<noteq> l" for l' zs
    using assms(6) far1 [OF q] q(1) by (auto simp: unlinked_def)
  note far = far1 far2
  have other: "ring h' l' zs" if q: "Q l' = Some zs" "l' \<noteq> l" for l' zs
  proof (rule ring_frame)
    show "ring h l' zs" using assms(1) q by (simp add: rings_def)
    show "nxt h' a = nxt h a \<and> prv h' a = prv h a" if "a \<in> set (l' # zs)" for a
      using assms(4) [of a] far [OF q] that by blast
  qed
  have sub: "set (l' # zs) \<inter> set (l # ys) = {}" if q: "Q l' = Some zs" "l' \<noteq> l" for l' zs
    using far [OF q] assms(5) by auto
  show ?thesis
    unfolding rings_def
  proof (intro conjI allI impI)
    show "ring h' k zs" if "(Q(l \<mapsto> ys)) k = Some zs" for k zs
      using that assms(3) other by (cases "k = l") auto
    show "set (k # zs) \<inter> set (k' # zs') = {}"
      if "(Q(l \<mapsto> ys)) k = Some zs" "(Q(l \<mapsto> ys)) k' = Some zs'" "k \<noteq> k'" for k k' zs zs'
    proof -
      consider "k = l" | "k' = l" | "k \<noteq> l" "k' \<noteq> l" by blast
      then show ?thesis
      proof cases
        case 1
        with that sub [of k' zs'] show ?thesis by (simp add: Int_commute)
      next
        case 2
        with that sub [of k zs] show ?thesis by simp
      next
        case 3
        with that assms(1) show ?thesis by (simp add: rings_def)
      qed
    qed
  qed
qed

lemma rt_list_remove_frame:
  assumes "ring h l (xs @ n # ys)" and "a \<notin> set (l # xs @ n # ys)"
  shows "nxt (rt_list_remove h n) a = nxt h a \<and> prv (rt_list_remove h n) a = prv h a"
proof -
  have "prv h n = last (l # xs)" "nxt h n = hd (ys @ [l])" using ring_prev [OF assms(1)] by auto
  moreover have "last (l # xs) \<in> set (l # xs)" by (rule last_in_set) simp
  moreover have "hd (ys @ [l]) \<in> set (ys @ [l])" by (rule hd_in_set) simp
  ultimately have "prv h n \<in> set (l # xs)" "nxt h n \<in> set (ys @ [l])" by simp_all
  then have "a \<noteq> prv h n" "a \<noteq> nxt h n" "a \<noteq> n" using assms(2) by auto
  then show ?thesis by (simp add: rt_list_remove_def Let_def)
qed

lemma rt_list_insert_before_frame:
  assumes "ring h l xs" and "a \<notin> set (l # xs)" and "a \<noteq> n"
  shows "nxt (rt_list_insert_before h l n) a = nxt h a \<and> prv (rt_list_insert_before h l n) a = prv h a"
proof -
  have "prv h l = last (l # xs)" using ring_nth_links(2) [of h l xs "[]"] assms(1) by simp
  then have "prv h l \<in> set (l # xs)" using last_in_set [of "l # xs"] by simp
  then have "a \<noteq> prv h l" using assms(2) by auto
  with assms(2,3) show ?thesis by (simp add: rt_list_insert_before_def Let_def)
qed

interpretation ptr: list_family rings unlinked rt_list_insert_before rt_list_remove rt_list_isempty
proof unfold_locales
  fix h :: links and Q l xs n
  assume r: "rings h Q" and q: "Q l = Some xs"
  then have ring: "ring h l xs" by (simp add: rings_def)
  show "distinct xs" using ring by (simp add: ring_def)
  show "rt_list_isempty h l \<longleftrightarrow> xs = []" using rt_list_isempty_iff [OF ring] .
  show "rings (rt_list_insert_before h l n) (Q(l \<mapsto> xs @ [n]))" if "unlinked Q n"
  proof (rule rings_update [OF r q])
    show "ring (rt_list_insert_before h l n) l (xs @ [n])"
      by (rule rt_list_insert_before_head [OF ring]) (use that q in \<open>simp add: unlinked_def\<close>)
  qed (use rt_list_insert_before_frame [OF ring] that in auto)
  assume n: "n \<in> set xs"
  then obtain as bs where xs: "xs = as @ n # bs" by (meson split_list)
  then have f: "filter (\<lambda>x. x \<noteq> n) xs = as @ bs" using ring by (auto simp: ring_def)
  show "rings (rt_list_remove h n) (Q(l \<mapsto> filter (\<lambda>x. x \<noteq> n) xs))"
  proof (rule rings_update [OF r q])
    show "ring (rt_list_remove h n) l (filter (\<lambda>x. x \<noteq> n) xs)"
      using ring_remove ring xs f by simp
  qed (use rt_list_remove_frame [of h l as n bs] ring xs n in auto)
  show "unlinked (Q(l \<mapsto> filter (\<lambda>x. x \<noteq> n) xs)) n"
    unfolding unlinked_def
  proof (intro allI impI)
    fix k zs
    assume k: "(Q(l \<mapsto> filter (\<lambda>x. x \<noteq> n) xs)) k = Some zs"
    show "n \<notin> set (k # zs)"
    proof (cases "k = l")
      case True
      with k ring n show ?thesis by (auto simp: ring_def)
    next
      case False
      with k have "Q k = Some zs" by simp
      with r q False have "set (k # zs) \<inter> set (l # xs) = {}" by (simp add: rings_def)
      with n show ?thesis by auto
    qed
  qed
qed

text \<open>In a family of disjoint lists, \<^verbatim>\<open>rt_list_remove\<close> followed by \<^verbatim>\<open>rt_list_insert_before\<close> on another
  head moves the node to the tail of that list and leaves every list of the family intact: the
  step by which a thread changes queue.\<close>

theorem rt_list_move_node:
  assumes "rings h Q" and "Q l = Some xs" and "n \<in> set xs" and "Q l' = Some ys" and "l \<noteq> l'"
  shows "rings (rt_list_insert_before (rt_list_remove h n) l' n)
    (Q(l \<mapsto> filter (\<lambda>x. x \<noteq> n) xs, l' \<mapsto> ys @ [n]))"
  by (rule ptr.move_node [OF assms])

theorem rt_list_move_node_witness:
  "rings (rt_list_insert_before (rt_list_remove (rt_list_init demo_links 9) 2) 9 2) [1 \<mapsto> [3], 9 \<mapsto> [2]]"
proof -
  have "rings (rt_list_init demo_links 9) [1 \<mapsto> [2, 3], 9 \<mapsto> []]"
    by (auto simp: rings_def ring_def demo_links_def rt_list_init_def rt_list_insert_before_def Let_def
        split: if_splits)
  from rt_list_move_node [OF this, of 1 "[2, 3]" 2 9 "[]"] show ?thesis
    by (simp add: fun_upd_twist)
qed

section \<open>Singly linked list\<close>

text \<open>\<^verbatim>\<open>RT_NULL\<close> is the address 0.\<close>

definition rt_slist_init :: "(addr \<Rightarrow> addr) \<Rightarrow> addr \<Rightarrow> addr \<Rightarrow> addr" where
  "rt_slist_init h l = h(l := 0)"

partial_function (option) rt_slist_tail :: "(addr \<Rightarrow> addr) \<Rightarrow> addr \<Rightarrow> addr option" where
  "rt_slist_tail h l = (if h l \<noteq> 0 then rt_slist_tail h (h l) else Some l)"

definition rt_slist_append :: "(addr \<Rightarrow> addr) \<Rightarrow> addr \<Rightarrow> addr \<Rightarrow> (addr \<Rightarrow> addr) option" where
  "rt_slist_append h l n = map_option (\<lambda>node. h(node := n, n := 0)) (rt_slist_tail h l)"

definition rt_slist_insert :: "(addr \<Rightarrow> addr) \<Rightarrow> addr \<Rightarrow> addr \<Rightarrow> addr \<Rightarrow> addr" where
  "rt_slist_insert h l n = (let h1 = h(n := h l) in h1(l := n))"

partial_function (option) slist_len_loop :: "(addr \<Rightarrow> addr) \<Rightarrow> addr \<Rightarrow> nat \<Rightarrow> nat option" where
  "slist_len_loop h p len = (if p \<noteq> 0 then slist_len_loop h (h p) (u32_add len 1) else Some len)"

definition rt_slist_len :: "(addr \<Rightarrow> addr) \<Rightarrow> addr \<Rightarrow> nat option" where
  "rt_slist_len h l = slist_len_loop h (h l) 0"

definition rt_slist_pop :: "(addr \<Rightarrow> addr) \<Rightarrow> addr \<Rightarrow> addr \<times> (addr \<Rightarrow> addr)" where
  "rt_slist_pop h l = (let node = h l in (node, if node \<noteq> 0 then h(l := h node) else h))"

partial_function (option) slist_find_loop :: "(addr \<Rightarrow> addr) \<Rightarrow> addr \<Rightarrow> addr \<Rightarrow> addr option" where
  "slist_find_loop h n node =
     (if h node \<noteq> 0 \<and> h node \<noteq> n then slist_find_loop h n (h node) else Some node)"

definition rt_slist_remove :: "(addr \<Rightarrow> addr) \<Rightarrow> addr \<Rightarrow> addr \<Rightarrow> (addr \<Rightarrow> addr) option" where
  "rt_slist_remove h l n =
     map_option (\<lambda>node. if h node \<noteq> 0 then h(node := h (h node)) else h) (slist_find_loop h n l)"

definition rt_slist_first :: "(addr \<Rightarrow> addr) \<Rightarrow> addr \<Rightarrow> addr" where
  "rt_slist_first h l = h l"

definition rt_slist_next :: "(addr \<Rightarrow> addr) \<Rightarrow> addr \<Rightarrow> addr" where
  "rt_slist_next h n = h n"

definition rt_slist_isempty :: "(addr \<Rightarrow> addr) \<Rightarrow> addr \<Rightarrow> bool" where
  "rt_slist_isempty h l \<longleftrightarrow> h l = 0"

fun schain :: "(addr \<Rightarrow> addr) \<Rightarrow> addr \<Rightarrow> addr list \<Rightarrow> bool" where
  "schain h a [] \<longleftrightarrow> h a = 0"
| "schain h a (x # xs) \<longleftrightarrow> h a = x \<and> x \<noteq> 0 \<and> schain h x xs"

definition slist :: "(addr \<Rightarrow> addr) \<Rightarrow> addr \<Rightarrow> addr list \<Rightarrow> bool" where
  "slist h l xs \<longleftrightarrow> distinct (l # xs) \<and> schain h l xs"

lemma schain_upd: "a \<notin> set (l # xs) \<Longrightarrow> schain (h(a := v)) l xs = schain h l xs"
  by (induction xs arbitrary: l) auto

lemma schain_nonzero: "schain h l xs \<Longrightarrow> x \<in> set xs \<Longrightarrow> x \<noteq> 0"
  by (induction xs arbitrary: l) auto

lemma slist_tail_seg: "schain h l xs \<Longrightarrow> rt_slist_tail h l = Some (last (l # xs))"
proof (induction xs arbitrary: l)
  case Nil
  then show ?case by (subst rt_slist_tail.simps) simp
next
  case (Cons x xs)
  then show ?case by (subst rt_slist_tail.simps) auto
qed

lemma schain_append:
  assumes "schain h l xs" and "distinct (l # xs)" and "n \<notin> set (l # xs)" and "n \<noteq> 0"
  shows "schain (h(last (l # xs) := n, n := 0)) l (xs @ [n])"
  using assms
proof (induction xs arbitrary: l)
  case (Cons x xs)
  have "last (x # xs) \<noteq> l" using Cons.prems(2) last_in_set [of "x # xs"] by auto
  with Cons show ?case by auto
qed auto

lemma slist_len_seg:
  "schain h l xs \<Longrightarrow> k + length xs < 2 ^ 32 \<Longrightarrow> slist_len_loop h (h l) k = Some (k + length xs)"
proof (induction xs arbitrary: l k)
  case Nil
  then show ?case by (subst slist_len_loop.simps) simp
next
  case (Cons x xs)
  from Cons.IH [of x "u32_add k 1"] Cons.prems show ?case
    by (subst slist_len_loop.simps) (simp add: u32_add_id)
qed

lemma slist_find_seg:
  "schain h l xs \<Longrightarrow> slist_find_loop h n l = Some (last (l # takeWhile (\<lambda>x. x \<noteq> n) xs))"
proof (induction xs arbitrary: l)
  case Nil
  then show ?case by (subst slist_find_loop.simps) simp
next
  case (Cons x xs)
  then show ?case by (subst slist_find_loop.simps) auto
qed

lemma schain_remove:
  assumes "schain h l (as @ n # bs)" and "distinct (l # as @ n # bs)"
  shows "schain (h(last (l # as) := h n)) l (as @ bs) \<and> h (last (l # as)) = n"
  using assms
proof (induction as arbitrary: l)
  case Nil
  then have "schain (h(l := h n)) n bs" by (simp add: schain_upd)
  with Nil show ?case by (cases bs) (simp_all add: schain_upd del: fun_upd_apply, simp_all)
next
  case (Cons x as)
  have "last (x # as) \<noteq> l" using Cons.prems(2) last_in_set [of "x # as"] by auto
  with Cons show ?case by auto
qed

text \<open>On every well-formed singly linked list the loops of \<^verbatim>\<open>rt_slist_append\<close>, \<^verbatim>\<open>rt_slist_remove\<close> and
  \<^verbatim>\<open>rt_slist_len\<close> return, and the operations append the node, remove exactly the given node (or nothing),
  and count the nodes.\<close>

theorem rt_slist_operations:
  assumes "slist h l xs" and "n \<noteq> 0" and "n \<noteq> l" and "length xs < 2 ^ 32"
  shows "(n \<notin> set xs \<longrightarrow> (\<exists>h'. rt_slist_append h l n = Some h' \<and> slist h' l (xs @ [n]))) \<and>
    (\<exists>h'. rt_slist_remove h l n = Some h' \<and> slist h' l (filter (\<lambda>x. x \<noteq> n) xs)) \<and>
    rt_slist_len h l = Some (length xs)"
proof (intro conjI impI)
  have c: "schain h l xs" and d: "distinct (l # xs)" using assms(1) by (auto simp: slist_def)
  show "rt_slist_len h l = Some (length xs)"
    using slist_len_seg [OF c, of 0] assms(4) by (simp add: rt_slist_len_def)
  show "\<exists>h'. rt_slist_append h l n = Some h' \<and> slist h' l (xs @ [n])" if "n \<notin> set xs"
    using schain_append [OF c d _ assms(2)] that assms(3) d
    by (auto simp: rt_slist_append_def slist_tail_seg [OF c] slist_def)
  show "\<exists>h'. rt_slist_remove h l n = Some h' \<and> slist h' l (filter (\<lambda>x. x \<noteq> n) xs)"
  proof (cases "n \<in> set xs")
    case True
    then obtain as bs where xs: "xs = as @ n # bs" "n \<notin> set as" by (meson split_list_first)
    have "takeWhile (\<lambda>x. x \<noteq> n) (as @ n # bs) = as @ takeWhile (\<lambda>x. x \<noteq> n) (n # bs)"
      by (rule takeWhile_append2) (use xs(2) in blast)
    with xs d have f: "filter (\<lambda>x. x \<noteq> n) xs = as @ bs" "takeWhile (\<lambda>x. x \<noteq> n) xs = as"
      by auto
    from schain_remove [of h l as n bs] c d xs f assms(2) show ?thesis
      by (auto simp: rt_slist_remove_def slist_find_seg [OF c] slist_def)
  next
    case False
    then have tw: "takeWhile (\<lambda>x. x \<noteq> n) xs = xs" by auto
    have last: "h (last (l # xs)) = 0" using c by (induction xs arbitrary: l) auto
    have "rt_slist_remove h l n = Some h"
      unfolding rt_slist_remove_def slist_find_seg [OF c] tw by (simp only: option.map last) simp
    with False assms(1) show ?thesis by simp
  qed
qed

theorem rt_slist_operations_witness:
  "slist (\<lambda>a. if a = 1 then 5 else if a = 5 then 8 else 0) 1 [5, 8] \<and>
   (\<exists>h'. rt_slist_remove (\<lambda>a. if a = 1 then 5 else if a = 5 then 8 else 0) 1 5 = Some h' \<and> slist h' 1 [8])"
proof -
  let ?h = "\<lambda>a::nat. if a = 1 then 5 else if a = 5 then 8 else 0 :: nat"
  have s: "slist ?h 1 [5, 8]" by (simp add: slist_def)
  from rt_slist_operations [OF s, of 5] s show ?thesis by simp
qed

lemma rt_slist_insert_slist:
  "slist h l xs \<Longrightarrow> n \<notin> set (l # xs) \<Longrightarrow> n \<noteq> 0 \<Longrightarrow> slist (rt_slist_insert h l n) l (n # xs)"
  by (cases xs) (auto simp: slist_def rt_slist_insert_def schain_upd)

lemma rt_slist_pop_slist:
  "slist h l xs \<Longrightarrow>
   (case xs of [] \<Rightarrow> rt_slist_pop h l = (0, h)
    | x # ys \<Rightarrow> fst (rt_slist_pop h l) = x \<and> slist (snd (rt_slist_pop h l)) l ys)"
  by (cases xs; cases "tl xs") (auto simp: slist_def rt_slist_pop_def Let_def schain_upd)

end
