(* ===== verification/Kernel_State.thy ===== *)
theory Kernel_State
  imports Rt_List
begin

unbundle bit_operations_syntax

text \<open>
  The kernel's data: the thread control block (\<^verbatim>\<open>struct rt_thread\<close> with its scheduler context of
  \<^verbatim>\<open>rtsched.h\<close>), the timers, the inter-thread communication objects and the globals of
  \<^verbatim>\<open>scheduler_up.c\<close>, \<^verbatim>\<open>timer.c\<close>, \<^verbatim>\<open>clock.c\<close> and \<^verbatim>\<open>irq.c\<close>, gathered in one record.

  A thread's list node (\<^verbatim>\<open>thread_list_node\<close>) sits in at most one list: a row of the ready table, the
  wait list of an object, or the list of defunct threads.  The model names these lists
  (\<open>queue_id\<close>) and keeps their nodes in order; \<^verbatim>\<open>rt_list_remove\<close> takes the node out of whatever list
  it is in.  That these operations are those of the linked lists is the interpretation \<open>kq\<close>
  below, of the contract that the pointer lists meet in \<open>Rt_List\<close>.

  \<open>timer_check_list\<close> is the list on the stack of a running \<^verbatim>\<open>_timer_check\<close>, which holds the timer being
  fired; it is part of the state because the timeout function can take the timer out of it.

  Fields that only feed parts outside the model (stack, entry point, name, hooks) are left out.
\<close>

section \<open>Status byte of a thread\<close>

definition RT_THREAD_INIT :: u8 where "RT_THREAD_INIT = 0"
definition RT_THREAD_CLOSE :: u8 where "RT_THREAD_CLOSE = 1"
definition RT_THREAD_READY :: u8 where "RT_THREAD_READY = 2"
definition RT_THREAD_RUNNING :: u8 where "RT_THREAD_RUNNING = 3"
definition RT_THREAD_SUSPEND_MASK :: u8 where "RT_THREAD_SUSPEND_MASK = 4"
definition RT_THREAD_SUSPEND_INTERRUPTIBLE :: u8 where "RT_THREAD_SUSPEND_INTERRUPTIBLE = 4"
definition RT_THREAD_SUSPEND_KILLABLE :: u8 where "RT_THREAD_SUSPEND_KILLABLE = 6"
definition RT_THREAD_SUSPEND_UNINTERRUPTIBLE :: u8 where "RT_THREAD_SUSPEND_UNINTERRUPTIBLE = 7"
definition RT_THREAD_STAT_MASK :: u8 where "RT_THREAD_STAT_MASK = 7"
definition RT_THREAD_STAT_YIELD :: u8 where "RT_THREAD_STAT_YIELD = 8"

lemmas stat_defs = RT_THREAD_INIT_def RT_THREAD_CLOSE_def RT_THREAD_READY_def RT_THREAD_RUNNING_def
  RT_THREAD_SUSPEND_MASK_def RT_THREAD_SUSPEND_INTERRUPTIBLE_def RT_THREAD_SUSPEND_KILLABLE_def
  RT_THREAD_SUSPEND_UNINTERRUPTIBLE_def RT_THREAD_STAT_MASK_def RT_THREAD_STAT_YIELD_def

text \<open>\<open>set_stat c x\<close> is \<^verbatim>\<open>c | (x & ~RT_THREAD_STAT_MASK)\<close>, \<open>stat_of\<close> and \<open>is_susp\<close> read the state bits.\<close>

definition set_stat :: "u8 \<Rightarrow> u8 \<Rightarrow> u8" where
  "set_stat c x = c OR (x AND NOT RT_THREAD_STAT_MASK)"

definition stat_of :: "u8 \<Rightarrow> u8" where
  "stat_of x = x AND RT_THREAD_STAT_MASK"

definition is_susp :: "u8 \<Rightarrow> bool" where
  "is_susp x \<longleftrightarrow> x AND RT_THREAD_SUSPEND_MASK = RT_THREAD_SUSPEND_MASK"

definition has_yield :: "u8 \<Rightarrow> bool" where
  "has_yield x \<longleftrightarrow> x AND RT_THREAD_STAT_YIELD \<noteq> 0"

lemma u8_eqI: "(\<And>n. n < 8 \<Longrightarrow> bit x n = bit y n) \<Longrightarrow> x = (y :: u8)"
  by (rule bit_word_eqI) simp

lemmas u8_bits = bit_simps less_Suc_eq numeral_eq_Suc

lemma stat_of_set_stat:
  "stat_of (set_stat c x) = stat_of c"
  unfolding stat_of_def set_stat_def stat_defs
  by (rule u8_eqI) (auto simp: u8_bits)

lemma stat_of_const [stat_simps]:
  "stat_of RT_THREAD_INIT = RT_THREAD_INIT" "stat_of RT_THREAD_CLOSE = RT_THREAD_CLOSE"
  "stat_of RT_THREAD_READY = RT_THREAD_READY" "stat_of RT_THREAD_RUNNING = RT_THREAD_RUNNING"
  "stat_of RT_THREAD_SUSPEND_INTERRUPTIBLE = RT_THREAD_SUSPEND_INTERRUPTIBLE"
  "stat_of RT_THREAD_SUSPEND_KILLABLE = RT_THREAD_SUSPEND_KILLABLE"
  "stat_of RT_THREAD_SUSPEND_UNINTERRUPTIBLE = RT_THREAD_SUSPEND_UNINTERRUPTIBLE"
  by (simp_all add: stat_of_def stat_defs)

lemma stat_distinct [stat_simps]:
  "RT_THREAD_INIT \<noteq> RT_THREAD_READY" "RT_THREAD_INIT \<noteq> RT_THREAD_RUNNING"
  "RT_THREAD_CLOSE \<noteq> RT_THREAD_READY" "RT_THREAD_CLOSE \<noteq> RT_THREAD_RUNNING"
  "RT_THREAD_READY \<noteq> RT_THREAD_INIT" "RT_THREAD_RUNNING \<noteq> RT_THREAD_INIT"
  "RT_THREAD_READY \<noteq> RT_THREAD_CLOSE" "RT_THREAD_RUNNING \<noteq> RT_THREAD_CLOSE"
  "RT_THREAD_READY \<noteq> RT_THREAD_RUNNING" "RT_THREAD_RUNNING \<noteq> RT_THREAD_READY"
  "RT_THREAD_INIT \<noteq> RT_THREAD_CLOSE" "RT_THREAD_CLOSE \<noteq> RT_THREAD_INIT"
  "RT_THREAD_SUSPEND_INTERRUPTIBLE \<noteq> RT_THREAD_READY"
  "RT_THREAD_SUSPEND_INTERRUPTIBLE \<noteq> RT_THREAD_RUNNING"
  by (simp_all add: stat_defs)

lemma is_susp_stat_of: "is_susp x \<longleftrightarrow> is_susp (stat_of x)"
proof -
  have "x AND 4 = (x AND 7) AND (4 :: u8)" by (simp add: and.assoc)
  then show ?thesis by (simp add: is_susp_def stat_of_def stat_defs)
qed

lemma is_susp_const [stat_simps]:
  "\<not> is_susp RT_THREAD_INIT" "\<not> is_susp RT_THREAD_CLOSE" "\<not> is_susp RT_THREAD_READY"
  "\<not> is_susp RT_THREAD_RUNNING" "is_susp RT_THREAD_SUSPEND_INTERRUPTIBLE"
  "is_susp RT_THREAD_SUSPEND_KILLABLE" "is_susp RT_THREAD_SUSPEND_UNINTERRUPTIBLE"
  by (simp_all add: is_susp_def stat_defs)

lemma is_susp_set_stat [stat_simps]: "is_susp (set_stat c x) \<longleftrightarrow> is_susp c"
  using is_susp_stat_of [of "set_stat c x"] is_susp_stat_of [of c] by (simp add: stat_of_set_stat)

lemma is_susp_not_active:
  "stat_of x = RT_THREAD_READY \<Longrightarrow> \<not> is_susp x" "stat_of x = RT_THREAD_RUNNING \<Longrightarrow> \<not> is_susp x"
  by (simp_all add: is_susp_stat_of [of x] stat_simps)

lemma stat_cases:
  obtains "is_susp x" | "stat_of x = RT_THREAD_INIT" | "stat_of x = RT_THREAD_CLOSE"
    | "stat_of x = RT_THREAD_READY" | "stat_of x = RT_THREAD_RUNNING"
proof -
  have bits: "\<exists>n<8. bit (x AND 7) n \<noteq> bit v n" if "x AND 7 \<noteq> v" for v :: u8
    using that u8_eqI by blast
  have "is_susp x \<or> stat_of x = RT_THREAD_INIT \<or> stat_of x = RT_THREAD_CLOSE
      \<or> stat_of x = RT_THREAD_READY \<or> stat_of x = RT_THREAD_RUNNING"
  proof (cases "bit x 2")
    case True
    then have "x AND 4 = 4" by (intro u8_eqI) (auto simp: u8_bits)
    then show ?thesis by (simp add: is_susp_def stat_defs)
  next
    case False
    then have "x AND 7 = (if bit x 0 then 1 else 0) OR (if bit x 1 then 2 else 0)"
      by (intro u8_eqI) (auto simp: u8_bits)
    then show ?thesis by (auto simp: stat_of_def stat_defs)
  qed
  then show thesis using that by blast
qed

lemma stat_of_set_stat_const [stat_simps]:
  "stat_of (set_stat RT_THREAD_READY x) = RT_THREAD_READY"
  "stat_of (set_stat RT_THREAD_RUNNING x) = RT_THREAD_RUNNING"
  by (simp_all add: stat_of_set_stat stat_simps)

lemma has_yield_set_stat [stat_simps]:
  "has_yield (set_stat RT_THREAD_READY x) = has_yield x"
  "has_yield (set_stat RT_THREAD_RUNNING x) = has_yield x"
proof -
  have "(2 OR (x AND NOT 7)) AND 8 = x AND (8 :: u8)" "(3 OR (x AND NOT 7)) AND 8 = x AND (8 :: u8)"
    by (rule u8_eqI; auto simp: u8_bits)+
  then show "has_yield (set_stat RT_THREAD_READY x) = has_yield x"
    "has_yield (set_stat RT_THREAD_RUNNING x) = has_yield x"
    unfolding has_yield_def set_stat_def stat_defs by simp_all
qed

definition set_yield :: "u8 \<Rightarrow> u8" where
  "set_yield x = x OR RT_THREAD_STAT_YIELD"

definition clear_yield :: "u8 \<Rightarrow> u8" where
  "clear_yield x = x AND NOT RT_THREAD_STAT_YIELD"

lemma yield_bits [stat_simps]:
  "stat_of (set_yield x) = stat_of x" "stat_of (clear_yield x) = stat_of x"
  "has_yield (set_yield x)" "\<not> has_yield (clear_yield x)"
proof -
  have "(x OR 8) AND 7 = x AND (7 :: u8)" "(x AND NOT 8) AND 7 = x AND (7 :: u8)"
    "(x OR 8) AND 8 = (8 :: u8)" "(x AND NOT 8) AND 8 = (0 :: u8)"
    by (rule u8_eqI; auto simp: u8_bits)+
  then show "stat_of (set_yield x) = stat_of x" "stat_of (clear_yield x) = stat_of x"
    "has_yield (set_yield x)" "\<not> has_yield (clear_yield x)"
    unfolding stat_of_def has_yield_def set_yield_def clear_yield_def stat_defs by simp_all
qed

lemma is_susp_yield [stat_simps]: "is_susp (set_yield x) = is_susp x" "is_susp (clear_yield x) = is_susp x"
  using is_susp_stat_of [of "set_yield x"] is_susp_stat_of [of "clear_yield x"] is_susp_stat_of [of x]
  by (simp_all add: yield_bits)

section \<open>Control blocks\<close>

type_synonym tid = nat
type_synonym rt_tick_t = "32 word"

record rt_thread =
  th_stat :: u8
  sched_flag_ttmr_set :: bool
  th_init_tick :: nat
  th_remaining_tick :: nat
  th_current_priority :: nat
  th_init_priority :: nat
  th_number_mask :: u32w
  th_error :: rt_err_t
  th_event_set :: u32w
  th_event_info :: u8
  th_pending_object :: "nat option"
  th_taken_object_list :: "nat list"

text \<open>The timer built into a thread, or a timer of its own.\<close>

datatype timer_id = Thread_Timer tid | Obj_Timer nat

record rt_timer =
  tm_flag :: u8
  tm_init_tick :: rt_tick_t
  tm_timeout_tick :: rt_tick_t
  tm_timeout_func :: addr
  tm_parameter :: addr

datatype queue_id =
    Ready_Q nat
  | Sem_Q nat
  | Mutex_Q nat
  | Event_Q nat
  | Mb_Q nat
  | Mb_Send_Q nat
  | Mq_Q nat
  | Mq_Send_Q nat
  | Mp_Q nat
  | Completion_Q nat
  | Defunct_Q

record rt_semaphore =
  sem_flag :: u8
  sem_value :: nat
  sem_max_value :: nat

record rt_mutex =
  mtx_flag :: u8
  mtx_ceiling_priority :: nat
  mtx_priority :: nat
  mtx_hold :: nat
  mtx_owner :: "tid option"

record rt_event =
  ev_flag :: u8
  ev_set :: u32w

record rt_mailbox =
  mb_flag :: u8
  mb_msg_pool :: "nat \<Rightarrow> nat"
  mb_size :: nat
  mb_entry :: nat
  mb_in_offset :: nat
  mb_out_offset :: nat

record rt_messagequeue =
  mq_flag :: u8
  mq_msg_pool :: addr
  mq_msg_size :: nat
  mq_max_msgs :: nat
  mq_entry :: nat
  mq_queue_head :: addr
  mq_queue_tail :: addr
  mq_queue_free :: addr
  mq_msg_next :: "addr \<Rightarrow> addr"
  mq_msg_length :: "addr \<Rightarrow> nat"

record kernel =
  threads :: "tid \<Rightarrow> rt_thread"
  queues :: "queue_id \<Rightarrow> tid list"
  ready_priority_group :: u32w
  current_thread :: "tid option"
  current_priority :: nat
  scheduler_lock_nest :: int
  interrupt_nest :: nat
  tick :: rt_tick_t
  timers :: "timer_id \<Rightarrow> rt_timer"
  timer_list :: "timer_id list"
  timer_check_list :: "timer_id list"
  sems :: "nat \<Rightarrow> rt_semaphore"
  mutexes :: "nat \<Rightarrow> rt_mutex"
  events :: "nat \<Rightarrow> rt_event"
  mailboxes :: "nat \<Rightarrow> rt_mailbox"
  mqueues :: "nat \<Rightarrow> rt_messagequeue"
  kmem :: memory

definition upd_thread :: "tid \<Rightarrow> (rt_thread \<Rightarrow> rt_thread) \<Rightarrow> kernel \<Rightarrow> kernel" where
  "upd_thread t f s = s\<lparr>threads := (threads s)(t := f (threads s t))\<rparr>"

definition set_th_stat :: "tid \<Rightarrow> u8 \<Rightarrow> kernel \<Rightarrow> kernel" where
  "set_th_stat t x = upd_thread t (\<lambda>th. th\<lparr>th_stat := x\<rparr>)"

definition set_th_error :: "tid \<Rightarrow> rt_err_t \<Rightarrow> kernel \<Rightarrow> kernel" where
  "set_th_error t e = upd_thread t (\<lambda>th. th\<lparr>th_error := e\<rparr>)"

lemma upd_thread_simps [simp]:
  "threads (upd_thread t f s) = (threads s)(t := f (threads s t))"
  "queues (upd_thread t f s) = queues s"
  "ready_priority_group (upd_thread t f s) = ready_priority_group s"
  "current_thread (upd_thread t f s) = current_thread s"
  "current_priority (upd_thread t f s) = current_priority s"
  "scheduler_lock_nest (upd_thread t f s) = scheduler_lock_nest s"
  "interrupt_nest (upd_thread t f s) = interrupt_nest s"
  "tick (upd_thread t f s) = tick s"
  "timers (upd_thread t f s) = timers s"
  "timer_list (upd_thread t f s) = timer_list s"
  "timer_check_list (upd_thread t f s) = timer_check_list s"
  "sems (upd_thread t f s) = sems s"
  "mutexes (upd_thread t f s) = mutexes s"
  "events (upd_thread t f s) = events s"
  "mailboxes (upd_thread t f s) = mailboxes s"
  "mqueues (upd_thread t f s) = mqueues s"
  "kmem (upd_thread t f s) = kmem s"
  by (simp_all add: upd_thread_def)

section \<open>List operations on the queues\<close>

definition enq_tail :: "queue_id \<Rightarrow> tid \<Rightarrow> kernel \<Rightarrow> kernel" where
  "enq_tail q t s = s\<lparr>queues := (queues s)(q := queues s q @ [t])\<rparr>"

definition enq_head :: "queue_id \<Rightarrow> tid \<Rightarrow> kernel \<Rightarrow> kernel" where
  "enq_head q t s = s\<lparr>queues := (queues s)(q := t # queues s q)\<rparr>"

definition deq_node :: "tid \<Rightarrow> kernel \<Rightarrow> kernel" where
  "deq_node t s = s\<lparr>queues := (\<lambda>q. filter (\<lambda>x. x \<noteq> t) (queues s q))\<rparr>"

definition in_queue :: "kernel \<Rightarrow> tid \<Rightarrow> queue_id \<Rightarrow> bool" where
  "in_queue s t q \<longleftrightarrow> t \<in> set (queues s q)"

definition queue_family :: "kernel \<Rightarrow> (queue_id \<Rightarrow> tid list option) \<Rightarrow> bool" where
  "queue_family s Q \<longleftrightarrow>
     (\<forall>q. Q q = Some (queues s q) \<and> distinct (queues s q)) \<and>
     (\<forall>q q'. q \<noteq> q' \<longrightarrow> set (queues s q) \<inter> set (queues s q') = {})"

definition not_queued :: "(queue_id \<Rightarrow> tid list option) \<Rightarrow> tid \<Rightarrow> bool" where
  "not_queued Q t \<longleftrightarrow> (\<forall>q xs. Q q = Some xs \<longrightarrow> t \<notin> set xs)"

text \<open>The kernel's queues meet the contract of a family of linked lists.\<close>

interpretation kq: list_family queue_family not_queued "\<lambda>s q t. enq_tail q t s" "\<lambda>s t. deq_node t s"
  "\<lambda>s q. queues s q = []"
proof unfold_locales
  fix s Q q xs t
  assume r: "queue_family s Q" and q: "Q q = Some xs"
  then have xs: "xs = queues s q" by (auto simp: queue_family_def)
  show "distinct xs" using r xs by (simp add: queue_family_def)
  show "queues s q = [] \<longleftrightarrow> xs = []" by (simp add: xs)
  show "queue_family (enq_tail q t s) (Q(q \<mapsto> xs @ [t]))" if "not_queued Q t"
    using r that xs unfolding queue_family_def not_queued_def enq_tail_def by (auto split: if_splits)
  assume t: "t \<in> set xs"
  then have other: "t \<notin> set (queues s q')" if "q' \<noteq> q" for q'
    using r that xs by (auto simp: queue_family_def)
  show "queue_family (deq_node t s) (Q(q \<mapsto> filter (\<lambda>x. x \<noteq> t) xs))"
    using r xs other unfolding queue_family_def deq_node_def by (auto simp: disjoint_iff)
  show "not_queued (Q(q \<mapsto> filter (\<lambda>x. x \<noteq> t) xs)) t"
    using r xs other unfolding queue_family_def not_queued_def by (auto split: if_splits)
qed

lemma enq_deq_simps [simp]:
  "queues (enq_tail q t s) = (queues s)(q := queues s q @ [t])"
  "queues (enq_head q t s) = (queues s)(q := t # queues s q)"
  "queues (deq_node t s) q = filter (\<lambda>x. x \<noteq> t) (queues s q)"
  "threads (enq_tail q t s) = threads s" "threads (enq_head q t s) = threads s"
  "threads (deq_node t s) = threads s"
  "current_thread (enq_tail q t s) = current_thread s" "current_thread (enq_head q t s) = current_thread s"
  "current_thread (deq_node t s) = current_thread s"
  "ready_priority_group (enq_tail q t s) = ready_priority_group s"
  "ready_priority_group (enq_head q t s) = ready_priority_group s"
  "ready_priority_group (deq_node t s) = ready_priority_group s"
  "scheduler_lock_nest (enq_tail q t s) = scheduler_lock_nest s"
  "scheduler_lock_nest (enq_head q t s) = scheduler_lock_nest s"
  "scheduler_lock_nest (deq_node t s) = scheduler_lock_nest s"
  "timers (enq_tail q t s) = timers s" "timers (enq_head q t s) = timers s" "timers (deq_node t s) = timers s"
  "timer_list (enq_tail q t s) = timer_list s" "timer_list (enq_head q t s) = timer_list s"
  "timer_list (deq_node t s) = timer_list s"
  "tick (enq_tail q t s) = tick s" "tick (enq_head q t s) = tick s" "tick (deq_node t s) = tick s"
  by (simp_all add: enq_tail_def enq_head_def deq_node_def)

lemma set_th_simps [simp]:
  "threads (set_th_stat t x s) = (threads s)(t := (threads s t)\<lparr>th_stat := x\<rparr>)"
  "threads (set_th_error t e s) = (threads s)(t := (threads s t)\<lparr>th_error := e\<rparr>)"
  "queues (set_th_stat t x s) = queues s" "queues (set_th_error t e s) = queues s"
  "current_thread (set_th_stat t x s) = current_thread s"
  "current_thread (set_th_error t e s) = current_thread s"
  "ready_priority_group (set_th_stat t x s) = ready_priority_group s"
  "ready_priority_group (set_th_error t e s) = ready_priority_group s"
  "scheduler_lock_nest (set_th_stat t x s) = scheduler_lock_nest s"
  "scheduler_lock_nest (set_th_error t e s) = scheduler_lock_nest s"
  "timers (set_th_stat t x s) = timers s" "timers (set_th_error t e s) = timers s"
  "timer_list (set_th_stat t x s) = timer_list s" "timer_list (set_th_error t e s) = timer_list s"
  "tick (set_th_stat t x s) = tick s" "tick (set_th_error t e s) = tick s"
  by (simp_all add: set_th_stat_def set_th_error_def)

text \<open>\<^verbatim>\<open>rt_int16_t\<close> arithmetic of the scheduler lock.\<close>

definition i16 :: "int \<Rightarrow> int" where
  "i16 n = (n + 2 ^ 15) mod 2 ^ 16 - 2 ^ 15"

lemma i16_id [wrap_simps]: "- (2 ^ 15) \<le> n \<Longrightarrow> n < 2 ^ 15 \<Longrightarrow> i16 n = n"
  by (simp add: i16_def)

end
