(* ===== verification/Ffs.thy ===== *)
theory Ffs
  imports Rt_Prelude
begin

unbundle bit_operations_syntax

text \<open>
  \<^verbatim>\<open>__rt_ffs\<close> of \<^verbatim>\<open>kservice.c\<close>, the find-first-set routine by which the scheduler reads its ready
  bitmap: a 256-entry table consulted for the lowest non-zero byte.  It is shown to return one more
  than the index of the lowest set bit.
\<close>

definition lowest_bit_bitmap :: "nat list" where
  "lowest_bit_bitmap =
    [0, 0, 1, 0, 2, 0, 1, 0, 3, 0, 1, 0, 2, 0, 1, 0,
     4, 0, 1, 0, 2, 0, 1, 0, 3, 0, 1, 0, 2, 0, 1, 0,
     5, 0, 1, 0, 2, 0, 1, 0, 3, 0, 1, 0, 2, 0, 1, 0,
     4, 0, 1, 0, 2, 0, 1, 0, 3, 0, 1, 0, 2, 0, 1, 0,
     6, 0, 1, 0, 2, 0, 1, 0, 3, 0, 1, 0, 2, 0, 1, 0,
     4, 0, 1, 0, 2, 0, 1, 0, 3, 0, 1, 0, 2, 0, 1, 0,
     5, 0, 1, 0, 2, 0, 1, 0, 3, 0, 1, 0, 2, 0, 1, 0,
     4, 0, 1, 0, 2, 0, 1, 0, 3, 0, 1, 0, 2, 0, 1, 0,
     7, 0, 1, 0, 2, 0, 1, 0, 3, 0, 1, 0, 2, 0, 1, 0,
     4, 0, 1, 0, 2, 0, 1, 0, 3, 0, 1, 0, 2, 0, 1, 0,
     5, 0, 1, 0, 2, 0, 1, 0, 3, 0, 1, 0, 2, 0, 1, 0,
     4, 0, 1, 0, 2, 0, 1, 0, 3, 0, 1, 0, 2, 0, 1, 0,
     6, 0, 1, 0, 2, 0, 1, 0, 3, 0, 1, 0, 2, 0, 1, 0,
     4, 0, 1, 0, 2, 0, 1, 0, 3, 0, 1, 0, 2, 0, 1, 0,
     5, 0, 1, 0, 2, 0, 1, 0, 3, 0, 1, 0, 2, 0, 1, 0,
     4, 0, 1, 0, 2, 0, 1, 0, 3, 0, 1, 0, 2, 0, 1, 0]"

definition rt_ffs :: "u32w \<Rightarrow> nat" where
  "rt_ffs v =
     (if v = 0 then 0
      else if v AND 0xff \<noteq> 0 then lowest_bit_bitmap ! unat (v AND 0xff) + 1
      else if v AND 0xff00 \<noteq> 0 then lowest_bit_bitmap ! unat (drop_bit 8 (v AND 0xff00)) + 9
      else if v AND 0xff0000 \<noteq> 0 then lowest_bit_bitmap ! unat (drop_bit 16 (v AND 0xff0000)) + 17
      else lowest_bit_bitmap ! unat (drop_bit 24 (v AND 0xff000000)) + 25)"

section \<open>The table\<close>

fun table_ok :: "int \<Rightarrow> nat list \<Rightarrow> bool" where
  "table_ok v [] = True"
| "table_ok v (k # ks) = ((v = 0 \<or> v mod 2 ^ k = 0 \<and> v mod 2 ^ (k + 1) \<noteq> 0) \<and> table_ok (v + 1) ks)"

lemma table_ok_nth:
  "table_ok v ks \<Longrightarrow> i < length ks \<Longrightarrow> v + int i \<noteq> 0 \<Longrightarrow>
   (v + int i) mod 2 ^ (ks ! i) = 0 \<and> (v + int i) mod 2 ^ (ks ! i + 1) \<noteq> 0"
proof (induction ks arbitrary: v i)
  case (Cons k ks)
  then show ?case
  proof (cases i)
    case (Suc j)
    with Cons.IH [of "v + 1" j] Cons.prems show ?thesis by (simp add: algebra_simps)
  qed auto
qed simp

lemma table_ok_bitmap: "table_ok 0 lowest_bit_bitmap"
  by (simp add: lowest_bit_bitmap_def)

lemma length_bitmap: "length lowest_bit_bitmap = 256"
  by (simp add: lowest_bit_bitmap_def)

definition lowest_bit :: "u32w \<Rightarrow> nat \<Rightarrow> bool" where
  "lowest_bit v k \<longleftrightarrow> bit v k \<and> (\<forall>j<k. \<not> bit v j)"

lemma lowest_bit_unique: "lowest_bit v k \<Longrightarrow> lowest_bit v l \<Longrightarrow> k = l"
  by (metis linorder_neqE_nat lowest_bit_def)

lemma bitmap_lowest:
  assumes "b \<noteq> 0" and "unat b < 256"
  shows "lowest_bit b (lowest_bit_bitmap ! unat b)"
proof -
  let ?n = "unat b" and ?k = "lowest_bit_bitmap ! unat b"
  have "int ?n \<noteq> 0" using assms(1) by (simp add: unsigned_eq_0_iff)
  then have "int ?n mod 2 ^ ?k = 0 \<and> int ?n mod 2 ^ (?k + 1) \<noteq> 0"
    using table_ok_nth [OF table_ok_bitmap, of ?n, unfolded length_bitmap add_0_left, OF assms(2)]
    by (simp only: simp_thms)
  then have d: "2 ^ ?k dvd ?n" "\<not> 2 ^ (?k + 1) dvd ?n"
    by (metis int_dvd_int_iff of_nat_numeral of_nat_power dvd_eq_mod_eq_0)+
  then obtain q where q: "?n = 2 ^ ?k * q" "odd q"
    by (metis dvd_def mult_dvd_mono power_add power_one_right dvd_refl)
  have bit: "bit b j = odd (?n div 2 ^ j)" for j
    by (simp add: bit_iff_odd [of ?n j, symmetric] bit_unsigned_iff)
  have "?n div 2 ^ ?k = q" using q(1)
    by (metis nonzero_mult_div_cancel_left power_not_zero zero_neq_numeral)
  then have "bit b ?k" using q(2) by (simp add: bit)
  moreover have "\<not> bit b j" if "j < ?k" for j
  proof -
    have "(2 :: nat) ^ ?k = 2 ^ j * 2 ^ (?k - j)"
      using that by (simp only: power_add [symmetric]) simp
    then have "?n = 2 ^ j * (2 ^ (?k - j) * q)" using q(1) by (metis mult.assoc)
    then have "?n div 2 ^ j = 2 ^ (?k - j) * q" by (metis nonzero_mult_div_cancel_left power_not_zero zero_neq_numeral)
    with that show ?thesis by (simp add: bit)
  qed
  ultimately show ?thesis by (simp add: lowest_bit_def)
qed

section \<open>The routine\<close>

lemma lowest_bit_shift:
  assumes "lowest_bit b k" and "\<And>j. bit b j \<longleftrightarrow> j < 8 \<and> bit v (j + s)" and "\<And>j. j < s \<Longrightarrow> \<not> bit v j"
  shows "lowest_bit v (k + s)"
proof -
  have k: "k < 8" "bit v (k + s)" using assms(1,2) by (auto simp: lowest_bit_def)
  have "\<not> bit v j" if "j < k + s" for j
  proof (cases "j < s")
    case True
    then show ?thesis by (rule assms(3))
  next
    case False
    then have "j = (j - s) + s" "j - s < k" using that by auto
    then show ?thesis using assms(1) assms(2) [of "j - s"] k unfolding lowest_bit_def by fastforce
  qed
  with k show ?thesis by (simp add: lowest_bit_def)
qed

lemma byte_mask_bits:
  "bit (0xff :: u32w) j \<longleftrightarrow> j < 8" "bit (0xff00 :: u32w) j \<longleftrightarrow> 8 \<le> j \<and> j < 16"
  "bit (0xff0000 :: u32w) j \<longleftrightarrow> 16 \<le> j \<and> j < 24" "bit (0xff000000 :: u32w) j \<longleftrightarrow> 24 \<le> j \<and> j < 32"
proof -
  have masks: "(0xff :: u32w) = mask 8" "(0xff00 :: u32w) = push_bit 8 (mask 8)"
    "(0xff0000 :: u32w) = push_bit 16 (mask 8)" "(0xff000000 :: u32w) = push_bit 24 (mask 8)"
    by (simp_all add: mask_eq_exp_minus_1 push_bit_eq_mult)
  show "bit (0xff :: u32w) j \<longleftrightarrow> j < 8" "bit (0xff00 :: u32w) j \<longleftrightarrow> 8 \<le> j \<and> j < 16"
    "bit (0xff0000 :: u32w) j \<longleftrightarrow> 16 \<le> j \<and> j < 24" "bit (0xff000000 :: u32w) j \<longleftrightarrow> 24 \<le> j \<and> j < 32"
    unfolding masks by (auto simp: bit_simps)
qed

lemma byte_bits:
  "bit (v AND 0xff) j \<longleftrightarrow> j < 8 \<and> bit v (j + 0)"
  "bit (drop_bit 8 (v AND 0xff00)) j \<longleftrightarrow> j < 8 \<and> bit v (j + 8)"
  "bit (drop_bit 16 (v AND 0xff0000)) j \<longleftrightarrow> j < 8 \<and> bit v (j + 16)"
  "bit (drop_bit 24 (v AND 0xff000000)) j \<longleftrightarrow> j < 8 \<and> bit v (j + 24)" for v :: u32w
  unfolding bit_drop_bit_eq comp_def bit_and_iff byte_mask_bits by (auto simp: add.commute)

lemma byte_small:
  assumes "\<And>j. bit b j \<Longrightarrow> j < 8"
  shows "unat (b :: u32w) < 256"
proof -
  have "b = take_bit 8 b"
    by (rule bit_word_eqI) (use assms in \<open>auto simp: bit_take_bit_iff\<close>)
  then have "unat b = take_bit 8 (unat b)" by (metis unsigned_take_bit_eq)
  moreover have "take_bit 8 (unat b) < 2 ^ 8" by (rule take_bit_nat_less_exp)
  ultimately show ?thesis by simp
qed

lemma word_bit_ex: "w \<noteq> 0 \<Longrightarrow> \<exists>j. bit w j" for w :: u32w
proof (rule ccontr)
  assume "w \<noteq> 0" "\<nexists>j. bit w j"
  moreover have "w = 0" if "\<nexists>j. bit w j" by (rule bit_word_eqI) (use that in auto)
  ultimately show False by blast
qed

lemma byte_zero_bits: "v AND 0xff = 0 \<Longrightarrow> j < 8 \<Longrightarrow> \<not> bit v j" for v :: u32w
  by (metis add.right_neutral bit_0_eq bot_apply bot_bool_def byte_bits(1))

lemma byte_zero_bits_8: "v AND 0xff00 = 0 \<Longrightarrow> 8 \<le> j \<Longrightarrow> j < 16 \<Longrightarrow> \<not> bit v j" for v :: u32w
  by (metis bit_0_eq bit_and_iff bot_apply bot_bool_def byte_mask_bits(2))

lemma byte_zero_bits_16: "v AND 0xff0000 = 0 \<Longrightarrow> 16 \<le> j \<Longrightarrow> j < 24 \<Longrightarrow> \<not> bit v j" for v :: u32w
  by (metis bit_0_eq bit_and_iff bot_apply bot_bool_def byte_mask_bits(3))

lemma byte_zero_bits_24: "v AND 0xff000000 = 0 \<Longrightarrow> 24 \<le> j \<Longrightarrow> j < 32 \<Longrightarrow> \<not> bit v j" for v :: u32w
  by (metis bit_0_eq bit_and_iff bot_apply bot_bool_def byte_mask_bits(4))

lemma rt_ffs_lowest:
  assumes "v \<noteq> 0"
  shows "\<exists>k. rt_ffs v = Suc k \<and> lowest_bit v k"
proof -
  have byte: "lowest_bit v (lowest_bit_bitmap ! unat b + s)"
    if "b \<noteq> 0" "\<And>j. bit b j \<longleftrightarrow> j < 8 \<and> bit v (j + s)" "\<And>j. j < s \<Longrightarrow> \<not> bit v j"
    for b :: u32w and s
    using bitmap_lowest [OF that(1) byte_small] that by (intro lowest_bit_shift) auto
  have drop_zero: "drop_bit n (v AND m) \<noteq> 0" if nz: "v AND m \<noteq> 0" "\<And>j. bit m j \<Longrightarrow> n \<le> j" for n and m :: u32w
  proof
    assume z: "drop_bit n (v AND m) = 0"
    obtain j where j: "bit (v AND m) j" using word_bit_ex [OF nz(1)] by blast
    then have "n \<le> j" using nz(2) by (simp add: bit_and_iff)
    then have "bit (drop_bit n (v AND m)) (j - n)" using j unfolding bit_drop_bit_eq by simp
    with z show False by simp
  qed
  show ?thesis
  proof (cases "v AND 0xff = 0")
    case False
    have "lowest_bit v (lowest_bit_bitmap ! unat (v AND 0xff) + 0)"
      by (rule byte) (use False byte_bits(1) in auto)
    with assms False show ?thesis by (simp add: rt_ffs_def add.commute)
  next
    case b0: True
    show ?thesis
    proof (cases "v AND 0xff00 = 0")
      case False
      have "lowest_bit v (lowest_bit_bitmap ! unat (drop_bit 8 (v AND 0xff00)) + 8)"
        by (rule byte [OF drop_zero [OF False] byte_bits(2)])
          (use byte_mask_bits(2) byte_zero_bits [OF b0] in auto)
      with assms b0 False show ?thesis by (simp add: rt_ffs_def add.commute)
    next
      case b1: True
      have low: "\<not> bit v j" if "j < 16" for j
        using that byte_zero_bits [OF b0, of j] byte_zero_bits_8 [OF b1, of j] by linarith
      show ?thesis
      proof (cases "v AND 0xff0000 = 0")
        case False
        have "lowest_bit v (lowest_bit_bitmap ! unat (drop_bit 16 (v AND 0xff0000)) + 16)"
          by (rule byte [OF drop_zero [OF False] byte_bits(3)]) (use byte_mask_bits(3) low in auto)
        with assms b0 b1 False show ?thesis by (simp add: rt_ffs_def add.commute)
      next
        case b2: True
        have low: "\<not> bit v j" if "j < 24" for j
          using that low [of j] byte_zero_bits_16 [OF b2, of j] by linarith
        have "v AND 0xff000000 \<noteq> 0"
        proof
          assume b3: "v AND 0xff000000 = 0"
          have "\<not> bit v j" for j
            using low [of j] byte_zero_bits_24 [OF b3, of j] bit_imp_le_length [of v j] by fastforce
          then have "v = 0" by (intro bit_eqI) simp
          with assms show False ..
        qed
        then have "lowest_bit v (lowest_bit_bitmap ! unat (drop_bit 24 (v AND 0xff000000)) + 24)"
          by (intro byte [OF drop_zero byte_bits(4)]) (use byte_mask_bits(4) low in auto)
        with assms b0 b1 b2 show ?thesis by (simp add: rt_ffs_def add.commute)
      qed
    qed
  qed
qed

text \<open>C32: \<^verbatim>\<open>__rt_ffs\<close> returns 0 for 0 and otherwise one more than the index of the lowest set bit, for all
  2^32 arguments.\<close>

theorem rt_ffs_correct:
  "rt_ffs v = (if v = 0 then 0 else Suc (LEAST k. bit v k))"
proof (cases "v = 0")
  case False
  then obtain k where "rt_ffs v = Suc k" and k: "lowest_bit v k" using rt_ffs_lowest by blast
  moreover have "(LEAST k. bit v k) = k"
    by (rule Least_equality) (use k in \<open>auto simp: lowest_bit_def not_less [symmetric]\<close>)
  ultimately show ?thesis using False by simp
qed (simp add: rt_ffs_def)

end
