(* ===== verification/Scheduler.thy ===== *)
theory Scheduler
  imports Kernel_State Ffs
begin

unbundle bit_operations_syntax

text \<open>
  The single-core scheduler, \<^verbatim>\<open>src/scheduler_up.c\<close>, for \<^verbatim>\<open>RT_THREAD_PRIORITY_MAX == 32\<close>: the ready table
  with its bitmap, the choice of the next thread, the scheduler lock.  Disabling interrupts
  around a function body makes it atomic, so each function is one state transformer;
  \<^verbatim>\<open>rt_hw_context_switch\<close> (and its interrupt variant) only hands the processor over, the
  scheduler's own record of the switch is the assignment of the current thread.

  \<open>kinv\<close> is the invariant of the ready table and of the thread states; it is shown to be kept by
  every operation, here and in the theories that build on this one.
\<close>

section \<open>Operations\<close>

definition scheduler_get_highest_priority_thread :: "kernel \<Rightarrow> tid \<times> nat" where
  "scheduler_get_highest_priority_thread s =
     (let highest_ready_priority = rt_ffs (ready_priority_group s) - 1
      in (hd (queues s (Ready_Q highest_ready_priority)), highest_ready_priority))"

definition rt_sched_insert_thread :: "tid \<Rightarrow> kernel \<Rightarrow> kernel" where
  "rt_sched_insert_thread t s =
     (if current_thread s = Some t then
        set_th_stat t (set_stat RT_THREAD_RUNNING (th_stat (threads s t))) s
      else
        (let s1 = set_th_stat t (set_stat RT_THREAD_READY (th_stat (threads s t))) s;
             q = Ready_Q (th_current_priority (threads s1 t));
             s2 = (if has_yield (th_stat (threads s1 t)) then enq_tail q t s1 else enq_head q t s1)
         in s2\<lparr>ready_priority_group := ready_priority_group s2 OR th_number_mask (threads s2 t)\<rparr>))"

definition rt_sched_remove_thread :: "tid \<Rightarrow> kernel \<Rightarrow> kernel" where
  "rt_sched_remove_thread t s =
     (let s1 = deq_node t s
      in if queues s1 (Ready_Q (th_current_priority (threads s1 t))) = []
         then s1\<lparr>ready_priority_group := ready_priority_group s1 AND NOT (th_number_mask (threads s1 t))\<rparr>
         else s1)"

text \<open>
  \<^verbatim>\<open>rt_schedule\<close>.  Every caller in the kernel makes sure that there is a current thread (the C code
  would dereference a null pointer), so the model leaves the state alone without one.
\<close>

definition rt_schedule :: "kernel \<Rightarrow> kernel" where
  "rt_schedule s =
     (case current_thread s of
        None \<Rightarrow> s
      | Some cur \<Rightarrow>
          if scheduler_lock_nest s = 0 \<and> ready_priority_group s \<noteq> 0 then
            (let (to0, highest) = scheduler_get_highest_priority_thread s;
                 th = threads s cur;
                 running = (stat_of (th_stat th) = RT_THREAD_RUNNING);
                 keep = (running \<and>
                   (th_current_priority th < highest \<or>
                    th_current_priority th = highest \<and> \<not> has_yield (th_stat th)));
                 to = (if keep then cur else to0);
                 need_insert_from_thread = (running \<and> \<not> keep)
             in if to \<noteq> cur then
                  (let s1 = s\<lparr>current_priority := highest, current_thread := Some to\<rparr>;
                       s2 = (if need_insert_from_thread then rt_sched_insert_thread cur s1 else s1);
                       s3 = (if has_yield (th_stat (threads s2 cur))
                             then set_th_stat cur (clear_yield (th_stat (threads s2 cur))) s2 else s2);
                       s4 = rt_sched_remove_thread to s3
                   in set_th_stat to (set_stat RT_THREAD_RUNNING (th_stat (threads s4 to))) s4)
                else
                  (let s1 = rt_sched_remove_thread cur s
                   in set_th_stat cur (set_stat RT_THREAD_RUNNING (th_stat (threads s1 cur))) s1))
          else s)"

definition rt_sched_unlock_n_resched :: "kernel \<Rightarrow> kernel" where
  "rt_sched_unlock_n_resched s = (if current_thread s \<noteq> None then rt_schedule s else s)"

definition rt_system_scheduler_init :: "kernel \<Rightarrow> kernel" where
  "rt_system_scheduler_init s =
     s\<lparr>scheduler_lock_nest := 0,
       queues := (\<lambda>q. case q of Ready_Q p \<Rightarrow> (if p < 32 then [] else queues s q) | _ \<Rightarrow> queues s q),
       ready_priority_group := 0\<rparr>"

definition rt_system_scheduler_start :: "kernel \<Rightarrow> kernel" where
  "rt_system_scheduler_start s =
     (let to = fst (scheduler_get_highest_priority_thread s);
          s1 = rt_sched_remove_thread to (s\<lparr>current_thread := Some to\<rparr>)
      in set_th_stat to RT_THREAD_RUNNING s1)"

definition rt_sched_thread_startup :: "tid \<Rightarrow> kernel \<Rightarrow> kernel" where
  "rt_sched_thread_startup t =
     upd_thread t (\<lambda>th. th\<lparr>th_number_mask := push_bit (th_current_priority th) 1,
       th_stat := RT_THREAD_SUSPEND_INTERRUPTIBLE\<rparr>)"

text \<open>A thread being initialised is in no list, so \<^verbatim>\<open>rt_list_init\<close> of its node changes no queue.\<close>

definition rt_sched_thread_init_priv :: "tid \<Rightarrow> nat \<Rightarrow> nat \<Rightarrow> kernel \<Rightarrow> kernel" where
  "rt_sched_thread_init_priv t tk priority =
     upd_thread t (\<lambda>th. th\<lparr>th_init_priority := priority, th_current_priority := priority,
       th_number_mask := 0, th_init_tick := tk, th_remaining_tick := tk\<rparr>)"

definition rt_enter_critical :: "kernel \<Rightarrow> kernel" where
  "rt_enter_critical s = s\<lparr>scheduler_lock_nest := i16 (scheduler_lock_nest s + 1)\<rparr>"

definition rt_exit_critical :: "kernel \<Rightarrow> kernel" where
  "rt_exit_critical s =
     (let s1 = s\<lparr>scheduler_lock_nest := i16 (scheduler_lock_nest s - 1)\<rparr>
      in if scheduler_lock_nest s1 \<le> 0 then
           (let s2 = s1\<lparr>scheduler_lock_nest := 0\<rparr>
            in if current_thread s2 \<noteq> None then rt_schedule s2 else s2)
         else s1)"

definition rt_critical_level :: "kernel \<Rightarrow> nat" where
  "rt_critical_level s = nat (scheduler_lock_nest s mod 2 ^ 16)"

definition rt_sched_thread_bind_cpu :: "tid \<Rightarrow> nat \<Rightarrow> rt_err_t" where
  "rt_sched_thread_bind_cpu t cpu = - RT_EINVAL"

text \<open>The spin locks of \<^verbatim>\<open>cpu_up.c\<close>: on one core they are the scheduler lock.\<close>

definition rt_spin_lock :: "kernel \<Rightarrow> kernel" where
  "rt_spin_lock = rt_enter_critical"

definition rt_spin_unlock :: "kernel \<Rightarrow> kernel" where
  "rt_spin_unlock = rt_exit_critical"

definition rt_spin_lock_irqsave :: "kernel \<Rightarrow> kernel" where
  "rt_spin_lock_irqsave = rt_enter_critical"

definition rt_spin_unlock_irqrestore :: "kernel \<Rightarrow> kernel" where
  "rt_spin_unlock_irqrestore = rt_exit_critical"

section \<open>The invariant\<close>

abbreviation st :: "kernel \<Rightarrow> tid \<Rightarrow> u8" where
  "st s t \<equiv> stat_of (th_stat (threads s t))"

abbreviation susp :: "kernel \<Rightarrow> tid \<Rightarrow> bool" where
  "susp s t \<equiv> is_susp (th_stat (threads s t))"

abbreviation prio :: "kernel \<Rightarrow> tid \<Rightarrow> nat" where
  "prio s t \<equiv> th_current_priority (threads s t)"

definition queues_ok :: "kernel \<Rightarrow> bool" where
  "queues_ok s \<longleftrightarrow>
     (\<forall>q. distinct (queues s q)) \<and>
     (\<forall>q q' t. t \<in> set (queues s q) \<longrightarrow> t \<in> set (queues s q') \<longrightarrow> q = q')"

definition bitmap_ok :: "kernel \<Rightarrow> bool" where
  "bitmap_ok s \<longleftrightarrow> (\<forall>p. bit (ready_priority_group s) p \<longleftrightarrow> queues s (Ready_Q p) \<noteq> [])"

definition mask_ok :: "kernel \<Rightarrow> tid \<Rightarrow> bool" where
  "mask_ok s t \<longleftrightarrow> prio s t < 32 \<and> th_number_mask (threads s t) = 2 ^ prio s t"

definition is_ready_q :: "queue_id \<Rightarrow> bool" where
  "is_ready_q q \<longleftrightarrow> (\<exists>p. q = Ready_Q p)"

definition unqueued :: "kernel \<Rightarrow> tid \<Rightarrow> bool" where
  "unqueued s t \<longleftrightarrow> (\<forall>q. t \<notin> set (queues s q))"

text \<open>A thread is in the row of the ready table of its priority exactly when its state is READY; a
  thread in a wait list is suspended and one in the defunct list closed; only the current thread is
  RUNNING, and it is not READY; a started thread has a valid priority and the matching mask.\<close>

definition th_ok :: "kernel \<Rightarrow> tid \<Rightarrow> bool" where
  "th_ok s t \<longleftrightarrow>
     (\<forall>p. t \<in> set (queues s (Ready_Q p)) \<longleftrightarrow> st s t = RT_THREAD_READY \<and> prio s t = p) \<and>
     (\<forall>q. t \<in> set (queues s q) \<longrightarrow> is_ready_q q \<or> (if q = Defunct_Q then st s t = RT_THREAD_CLOSE else susp s t)) \<and>
     (st s t = RT_THREAD_RUNNING \<longrightarrow> current_thread s = Some t) \<and>
     (st s t = RT_THREAD_READY \<longrightarrow> current_thread s \<noteq> Some t) \<and>
     (susp s t \<or> st s t = RT_THREAD_READY \<or> st s t = RT_THREAD_RUNNING \<longrightarrow> mask_ok s t)"

definition kinv_except :: "tid set \<Rightarrow> kernel \<Rightarrow> bool" where
  "kinv_except E s \<longleftrightarrow> queues_ok s \<and> bitmap_ok s \<and> (\<forall>t. t \<notin> E \<longrightarrow> th_ok s t)"

definition kinv :: "kernel \<Rightarrow> bool" where
  "kinv s \<longleftrightarrow> kinv_except {} s"

section \<open>The bitmap\<close>

lemma bit_two_power: "p < 32 \<Longrightarrow> bit (2 ^ p :: u32w) j \<longleftrightarrow> j = p"
  by (auto simp: bit_simps)

lemma bit_or_mask: "p < 32 \<Longrightarrow> bit (g OR 2 ^ p :: u32w) j \<longleftrightarrow> bit g j \<or> j = p"
  by (simp add: bit_or_iff bit_two_power)

lemma bit_and_not_mask: "p < 32 \<Longrightarrow> bit (g AND NOT (2 ^ p) :: u32w) j \<longleftrightarrow> bit g j \<and> j \<noteq> p"
  using bit_imp_le_length [of g j] by (auto simp: bit_and_iff bit_not_iff bit_two_power)

lemma word_zero_iff_bits: "(g :: u32w) = 0 \<longleftrightarrow> (\<forall>j. \<not> bit g j)"
  using word_bit_ex [of g] by auto

text \<open>The highest priority the scheduler finds is the least index with a non-empty row.\<close>

lemma highest_priority:
  assumes "bitmap_ok s" and "ready_priority_group s \<noteq> 0"
    and "scheduler_get_highest_priority_thread s = (t, p)"
  shows "queues s (Ready_Q p) \<noteq> []" and "t = hd (queues s (Ready_Q p))"
    and "\<And>p'. p' < p \<Longrightarrow> queues s (Ready_Q p') = []"
proof -
  obtain k where k: "rt_ffs (ready_priority_group s) = Suc k" "lowest_bit (ready_priority_group s) k"
    using rt_ffs_lowest [OF assms(2)] by blast
  with assms(3) have "p = k" "t = hd (queues s (Ready_Q k))"
    by (auto simp: scheduler_get_highest_priority_thread_def)
  with k assms(1) show "queues s (Ready_Q p) \<noteq> []" "t = hd (queues s (Ready_Q p))"
    "\<And>p'. p' < p \<Longrightarrow> queues s (Ready_Q p') = []"
    by (auto simp: lowest_bit_def bitmap_ok_def)
qed

section \<open>Preservation of the invariant\<close>

lemma kinvD: "kinv s \<Longrightarrow> th_ok s t" "kinv s \<Longrightarrow> queues_ok s" "kinv s \<Longrightarrow> bitmap_ok s"
  by (simp_all add: kinv_def kinv_except_def)

lemma kinv_except_mono: "kinv_except E s \<Longrightarrow> E \<subseteq> F \<Longrightarrow> kinv_except F s"
  by (auto simp: kinv_except_def)

lemma th_ok_cong:
  assumes "threads s' t = threads s t" and "\<And>q. t \<in> set (queues s' q) \<longleftrightarrow> t \<in> set (queues s q)"
    and "current_thread s' = current_thread s"
  shows "th_ok s' t = th_ok s t"
  by (simp add: th_ok_def mask_ok_def assms)

lemma queue_of_th_ok:
  assumes "th_ok s t" and "t \<in> set (queues s q)"
  shows "q = Ready_Q (prio s t) \<or> \<not> is_ready_q q"
  using assms by (auto simp: th_ok_def is_ready_q_def)

lemma deq_node_queues_ok: "queues_ok s \<Longrightarrow> queues_ok (deq_node t s)"
  by (auto simp: queues_ok_def)

lemma rt_sched_remove_thread_simps [simp]:
  "threads (rt_sched_remove_thread t s) = threads s"
  "current_thread (rt_sched_remove_thread t s) = current_thread s"
  "queues (rt_sched_remove_thread t s) q = filter (\<lambda>x. x \<noteq> t) (queues s q)"
  "scheduler_lock_nest (rt_sched_remove_thread t s) = scheduler_lock_nest s"
  "timers (rt_sched_remove_thread t s) = timers s"
  "timer_list (rt_sched_remove_thread t s) = timer_list s"
  "tick (rt_sched_remove_thread t s) = tick s"
  by (simp_all add: rt_sched_remove_thread_def Let_def)

lemma rt_sched_remove_thread_bitmap:
  assumes "bitmap_ok s" and "mask_ok s t" and "\<And>q. t \<in> set (queues s q) \<Longrightarrow> q = Ready_Q (prio s t) \<or> \<not> is_ready_q q"
  shows "bitmap_ok (rt_sched_remove_thread t s)"
proof -
  have other: "t \<notin> set (queues s (Ready_Q p))" if "p \<noteq> prio s t" for p
    using assms(3) [of "Ready_Q p"] that by (auto simp: is_ready_q_def)
  have m: "prio s t < 32" "th_number_mask (threads s t) = 2 ^ prio s t"
    using assms(2) by (auto simp: mask_ok_def)
  have g: "ready_priority_group (rt_sched_remove_thread t s) =
      (if filter (\<lambda>x. x \<noteq> t) (queues s (Ready_Q (prio s t))) = []
       then ready_priority_group s AND NOT (2 ^ prio s t) else ready_priority_group s)"
    by (simp add: rt_sched_remove_thread_def Let_def m)
  have b: "bit (ready_priority_group s) p \<longleftrightarrow> queues s (Ready_Q p) \<noteq> []" for p
    using assms(1) by (simp add: bitmap_ok_def)
  show ?thesis
    unfolding bitmap_ok_def
  proof
    fix p
    show "bit (ready_priority_group (rt_sched_remove_thread t s)) p \<longleftrightarrow>
        queues (rt_sched_remove_thread t s) (Ready_Q p) \<noteq> []"
    proof (cases "p = prio s t")
      case True
      then show ?thesis using b [of p] m(1)
        by (auto simp: g bit_and_not_mask)
    next
      case False
      then show ?thesis using b [of p] m(1) other [of p]
        by (simp add: g bit_and_not_mask)
    qed
  qed
qed

lemma rt_sched_remove_thread_kinv:
  assumes "kinv_except E s" and "mask_ok s t"
    and "\<And>q. t \<in> set (queues s q) \<Longrightarrow> q = Ready_Q (prio s t) \<or> \<not> is_ready_q q"
  shows "kinv_except (insert t E) (rt_sched_remove_thread t s)" and "unqueued (rt_sched_remove_thread t s) t"
proof -
  have "th_ok (rt_sched_remove_thread t s) t' = th_ok s t'" if "t' \<noteq> t" for t'
    by (rule th_ok_cong) (use that in auto)
  moreover have "queues_ok (rt_sched_remove_thread t s)"
    using assms(1) by (auto simp: queues_ok_def kinv_except_def)
  ultimately show "kinv_except (insert t E) (rt_sched_remove_thread t s)"
    using assms rt_sched_remove_thread_bitmap [of s t] by (simp add: kinv_except_def)
qed (simp add: unqueued_def)

lemma deq_node_kinv:
  assumes "kinv_except E s" and "\<And>q. t \<in> set (queues s q) \<Longrightarrow> \<not> is_ready_q q"
  shows "kinv_except (insert t E) (deq_node t s)" and "unqueued (deq_node t s) t"
proof -
  have "th_ok (deq_node t s) t' = th_ok s t'" if "t' \<noteq> t" for t'
    by (rule th_ok_cong) (use that in auto)
  moreover have "bitmap_ok (deq_node t s)"
  proof -
    have "t \<notin> set (queues s (Ready_Q p))" for p using assms(2) by (auto simp: is_ready_q_def)
    then show ?thesis using assms(1) by (simp add: bitmap_ok_def kinv_except_def)
  qed
  ultimately show "kinv_except (insert t E) (deq_node t s)"
    using assms(1) deq_node_queues_ok by (simp add: kinv_except_def)
qed (simp add: unqueued_def)

text \<open>While a thread is excepted, its control block may change.\<close>

lemma upd_thread_kinv_except:
  assumes "kinv_except E s" and "t \<in> E"
  shows "kinv_except E (upd_thread t f s)"
proof -
  have "th_ok (upd_thread t f s) t'" if "t' \<notin> E" for t'
  proof -
    have "th_ok (upd_thread t f s) t' = th_ok s t'" by (rule th_ok_cong) (use assms(2) that in auto)
    then show ?thesis using assms(1) that by (simp add: kinv_except_def)
  qed
  with assms(1) show ?thesis by (auto simp: kinv_except_def queues_ok_def bitmap_ok_def)
qed

lemma set_th_stat_kinv_except:
  "kinv_except E s \<Longrightarrow> t \<in> E \<Longrightarrow> kinv_except E (set_th_stat t x s)"
  by (simp add: set_th_stat_def upd_thread_kinv_except)

lemma kinv_except_add:
  "kinv_except (insert t E) s \<Longrightarrow> th_ok s t \<Longrightarrow> kinv_except E s"
  by (auto simp: kinv_except_def)

lemma th_ok_unqueued:
  assumes "unqueued s t" and "st s t \<noteq> RT_THREAD_READY"
    and "st s t = RT_THREAD_RUNNING \<Longrightarrow> current_thread s = Some t"
    and "susp s t \<or> st s t = RT_THREAD_RUNNING \<Longrightarrow> mask_ok s t"
  shows "th_ok s t"
  using assms by (auto simp: th_ok_def unqueued_def)

text \<open>Putting a thread that is in no list into the row of the ready table of its priority.\<close>

definition ready_at :: "bool \<Rightarrow> tid \<Rightarrow> kernel \<Rightarrow> kernel" where
  "ready_at tail t s =
     (let s2 = (if tail then enq_tail (Ready_Q (prio s t)) t s else enq_head (Ready_Q (prio s t)) t s)
      in s2\<lparr>ready_priority_group := ready_priority_group s2 OR th_number_mask (threads s2 t)\<rparr>)"

lemma ready_at_simps [simp]:
  "threads (ready_at tail t s) = threads s" "current_thread (ready_at tail t s) = current_thread s"
  "set (queues (ready_at tail t s) q) =
     (if q = Ready_Q (prio s t) then insert t (set (queues s q)) else set (queues s q))"
  "ready_priority_group (ready_at tail t s) = ready_priority_group s OR th_number_mask (threads s t)"
  "scheduler_lock_nest (ready_at tail t s) = scheduler_lock_nest s"
  "timers (ready_at tail t s) = timers s" "timer_list (ready_at tail t s) = timer_list s"
  "tick (ready_at tail t s) = tick s"
  by (auto simp: ready_at_def Let_def)

lemma ready_at_kinv:
  assumes "kinv_except E s" and "unqueued s t" and "mask_ok s t" and "st s t = RT_THREAD_READY"
    and "current_thread s \<noteq> Some t"
  shows "kinv_except (E - {t}) (ready_at tail t s)"
proof -
  let ?s' = "ready_at tail t s"
  have m: "prio s t < 32" "th_number_mask (threads s t) = 2 ^ prio s t"
    using assms(3) by (auto simp: mask_ok_def)
  have "queues ?s' q = [] \<longleftrightarrow> queues s q = [] \<and> q \<noteq> Ready_Q (prio s t)" for q
    by (auto simp: ready_at_def Let_def)
  then have bm: "bitmap_ok ?s'"
    using assms(1) m by (auto simp: bitmap_ok_def kinv_except_def bit_or_mask)
  have d: "distinct (queues ?s' q)" for q
    using assms(1,2) by (auto simp: ready_at_def Let_def queues_ok_def kinv_except_def unqueued_def)
  have qok: "queues_ok ?s'"
    unfolding queues_ok_def
  proof (intro conjI allI impI)
    fix q q' x
    assume "x \<in> set (queues ?s' q)" "x \<in> set (queues ?s' q')"
    with assms(1,2) show "q = q'"
      by (cases "x = t") (auto simp: queues_ok_def kinv_except_def unqueued_def split: if_splits)
  qed (rule d)
  have other: "th_ok ?s' t' = th_ok s t'" if "t' \<noteq> t" for t'
    by (rule th_ok_cong) (use that in auto)
  have "th_ok ?s' t"
    using assms(2-5) is_susp_not_active(1) [OF assms(4)]
    by (auto simp: th_ok_def unqueued_def mask_ok_def is_ready_q_def stat_simps)
  then have "th_ok ?s' t'" if "t' \<notin> E - {t}" for t'
    using that other assms(1) by (cases "t' = t") (auto simp: kinv_except_def)
  then show ?thesis using bm qok by (simp add: kinv_except_def)
qed

lemma rt_sched_insert_thread_eq:
  "rt_sched_insert_thread t s =
     (if current_thread s = Some t then set_th_stat t (set_stat RT_THREAD_RUNNING (th_stat (threads s t))) s
      else ready_at (has_yield (th_stat (threads s t))) t
        (set_th_stat t (set_stat RT_THREAD_READY (th_stat (threads s t))) s))"
  by (simp add: rt_sched_insert_thread_def ready_at_def Let_def stat_simps)

lemma rt_sched_insert_thread_kinv:
  assumes "kinv_except E s" and "unqueued s t" and "mask_ok s t"
  shows "kinv_except (E - {t}) (rt_sched_insert_thread t s)"
proof (cases "current_thread s = Some t")
  case True
  let ?s' = "set_th_stat t (set_stat RT_THREAD_RUNNING (th_stat (threads s t))) s"
  have "kinv_except (insert t E) ?s'"
    using assms(1) by (intro set_th_stat_kinv_except kinv_except_mono [OF assms(1)]) auto
  then have "kinv_except (insert t (E - {t})) ?s'" by simp
  moreover have "th_ok ?s' t"
    using True assms(2,3) by (intro th_ok_unqueued) (auto simp: unqueued_def stat_simps mask_ok_def)
  ultimately have "kinv_except (E - {t}) ?s'" by (rule kinv_except_add)
  then show ?thesis using True by (simp add: rt_sched_insert_thread_eq)
next
  case False
  let ?s' = "set_th_stat t (set_stat RT_THREAD_READY (th_stat (threads s t))) s"
  have "kinv_except (insert t E) ?s'"
    by (intro set_th_stat_kinv_except kinv_except_mono [OF assms(1)]) auto
  from ready_at_kinv [OF this, of t "has_yield (th_stat (threads s t))"] show ?thesis
    using False assms(2,3) by (simp add: rt_sched_insert_thread_eq unqueued_def mask_ok_def stat_simps)
qed

text \<open>Updates that do not touch state, priority and mask.\<close>

lemma upd_thread_neutral:
  assumes "stat_of (th_stat (f (threads s t))) = st s t"
    and "th_current_priority (f (threads s t)) = prio s t"
    and "th_number_mask (f (threads s t)) = th_number_mask (threads s t)"
  shows "th_ok (upd_thread t f s) t' = th_ok s t'" and
    "kinv_except E (upd_thread t f s) = kinv_except E s"
proof -
  have susp: "susp (upd_thread t f s) t' = susp s t'" for t'
    using assms(1) is_susp_stat_of [of "th_stat (f (threads s t))"] is_susp_stat_of [of "th_stat (threads s t)"]
    by simp
  have "st (upd_thread t f s) t' = st s t'" "prio (upd_thread t f s) t' = prio s t'"
    "th_number_mask (threads (upd_thread t f s) t') = th_number_mask (threads s t')" for t'
    using assms by simp_all
  with susp have eq: "th_ok (upd_thread t f s) t' = th_ok s t'" for t'
    unfolding th_ok_def mask_ok_def by (simp del: upd_thread_simps(1))
  then show "th_ok (upd_thread t f s) t' = th_ok s t'" .
  show "kinv_except E (upd_thread t f s) = kinv_except E s"
    by (simp add: kinv_except_def eq queues_ok_def bitmap_ok_def)
qed

lemma kinv_upd_thread_neutral:
  assumes "kinv s" and "stat_of (th_stat (f (threads s t))) = st s t"
    and "th_current_priority (f (threads s t)) = prio s t"
    and "th_number_mask (f (threads s t)) = th_number_mask (threads s t)"
  shows "kinv (upd_thread t f s)"
  using assms(1) upd_thread_neutral(2) [of f s t, OF assms(2-4)] by (simp add: kinv_def)

lemma kinv_set_th_error [simp]: "kinv (set_th_error t e s) = kinv s"
  unfolding kinv_def set_th_error_def by (rule upd_thread_neutral) auto

text \<open>The scheduler's globals other than the ready table and the current thread.\<close>

lemma th_ok_globals [simp]:
  "th_ok (s\<lparr>current_priority := p\<rparr>) t = th_ok s t"
  "th_ok (s\<lparr>scheduler_lock_nest := n\<rparr>) t = th_ok s t"
  by (simp_all add: th_ok_def mask_ok_def)

lemma kinv_globals [simp]:
  "kinv (s\<lparr>scheduler_lock_nest := n\<rparr>) = kinv s"
  by (simp add: kinv_def kinv_except_def queues_ok_def bitmap_ok_def)

lemma running_unqueued:
  assumes "th_ok s t" and "st s t = RT_THREAD_RUNNING"
  shows "unqueued s t" and "mask_ok s t"
proof -
  have "\<not> susp s t" using is_susp_not_active(2) [OF assms(2)] .
  with assms show "unqueued s t"
    unfolding th_ok_def unqueued_def by (auto simp: stat_simps is_ready_q_def split: if_splits)
  show "mask_ok s t" using assms by (simp add: th_ok_def)
qed

lemma ready_in_queue:
  assumes "kinv s" and "t \<in> set (queues s (Ready_Q p))"
  shows "st s t = RT_THREAD_READY" "prio s t = p" "mask_ok s t" "current_thread s \<noteq> Some t"
  using kinvD(1) [OF assms(1), of t] assms(2) unfolding th_ok_def by blast+

lemma th_ok_not_ready_q: "kinv s \<Longrightarrow> t \<in> set (queues s q) \<Longrightarrow> q = Ready_Q (prio s t) \<or> \<not> is_ready_q q"
  using kinvD(1) queue_of_th_ok by blast

definition sched_switch :: "tid \<Rightarrow> tid \<Rightarrow> nat \<Rightarrow> bool \<Rightarrow> kernel \<Rightarrow> kernel" where
  "sched_switch cur to highest ins s =
     (let s1 = s\<lparr>current_priority := highest, current_thread := Some to\<rparr>;
          s2 = (if ins then rt_sched_insert_thread cur s1 else s1);
          s3 = (if has_yield (th_stat (threads s2 cur))
                then set_th_stat cur (clear_yield (th_stat (threads s2 cur))) s2 else s2);
          s4 = rt_sched_remove_thread to s3
      in set_th_stat to (set_stat RT_THREAD_RUNNING (th_stat (threads s4 to))) s4)"

definition sched_keeps :: "kernel \<Rightarrow> tid \<Rightarrow> nat \<Rightarrow> bool" where
  "sched_keeps s cur highest \<longleftrightarrow>
     st s cur = RT_THREAD_RUNNING \<and>
     (prio s cur < highest \<or> prio s cur = highest \<and> \<not> has_yield (th_stat (threads s cur)))"

lemma rt_schedule_cases:
  assumes "kinv s" and "current_thread s = Some cur" and "scheduler_lock_nest s = 0"
    and "ready_priority_group s \<noteq> 0" and "scheduler_get_highest_priority_thread s = (to, p)"
  shows "to \<in> set (queues s (Ready_Q p))" and "to \<noteq> cur"
    and "rt_schedule s =
      (if sched_keeps s cur p
       then set_th_stat cur (set_stat RT_THREAD_RUNNING (th_stat (threads s cur))) (rt_sched_remove_thread cur s)
       else sched_switch cur to p (st s cur = RT_THREAD_RUNNING) s)"
proof -
  note hp = highest_priority [OF kinvD(3) [OF assms(1)] assms(4,5)]
  show in_q: "to \<in> set (queues s (Ready_Q p))" using hp(1,2) by simp
  then show ne: "to \<noteq> cur" using ready_in_queue [OF assms(1)] assms(2) by blast
  show "rt_schedule s =
      (if sched_keeps s cur p
       then set_th_stat cur (set_stat RT_THREAD_RUNNING (th_stat (threads s cur))) (rt_sched_remove_thread cur s)
       else sched_switch cur to p (st s cur = RT_THREAD_RUNNING) s)"
  proof (cases "sched_keeps s cur p")
    case True
    then have "(st s cur = RT_THREAD_RUNNING \<and>
        (prio s cur < p \<or> prio s cur = p \<and> \<not> has_yield (th_stat (threads s cur)))) = True"
      by (simp add: sched_keeps_def)
    with True assms(2-5) show ?thesis by (simp add: rt_schedule_def Let_def)
  next
    case False
    then have "(st s cur = RT_THREAD_RUNNING \<and>
        (prio s cur < p \<or> prio s cur = p \<and> \<not> has_yield (th_stat (threads s cur)))) = False"
      by (simp add: sched_keeps_def)
    with False assms(2-5) ne show ?thesis
      unfolding rt_schedule_def sched_switch_def by (simp only: option.case Let_def prod.case if_False) simp
  qed
qed

lemma sched_switch_kinv:
  assumes "kinv s" and "current_thread s = Some cur" and "to \<in> set (queues s (Ready_Q p))"
    and ne: "to \<noteq> cur"
  shows "kinv (sched_switch cur to p (st s cur = RT_THREAD_RUNNING) s)"
proof -
  define s1 where "s1 = s\<lparr>current_priority := p, current_thread := Some to\<rparr>"
  define s2 where "s2 = (if st s cur = RT_THREAD_RUNNING then rt_sched_insert_thread cur s1 else s1)"
  define s3 where "s3 = (if has_yield (th_stat (threads s2 cur))
      then set_th_stat cur (clear_yield (th_stat (threads s2 cur))) s2 else s2)"
  define s4 where "s4 = rt_sched_remove_thread to s3"
  define s5 where "s5 = set_th_stat to (set_stat RT_THREAD_RUNNING (th_stat (threads s4 to))) s4"
  note to = ready_in_queue [OF assms(1,3)]
  have ok: "th_ok s t" for t using kinvD(1) [OF assms(1)] .
  have "th_ok s1 t" if "t \<notin> {cur, to}" for t
    using ok [of t] that assms(2) by (auto simp: th_ok_def s1_def mask_ok_def)
  then have k1: "kinv_except {cur, to} s1"
    using assms(1) by (simp add: kinv_def kinv_except_def s1_def queues_ok_def bitmap_ok_def)
  have k2: "kinv_except {to} s2"
  proof (cases "st s cur = RT_THREAD_RUNNING")
    case True
    then have "unqueued s1 cur" "mask_ok s1 cur"
      using running_unqueued [OF ok True] by (simp_all add: s1_def unqueued_def mask_ok_def)
    from rt_sched_insert_thread_kinv [OF k1 this] True ne show ?thesis
      by (simp add: s2_def insert_Diff_if)
  next
    case False
    then have "th_ok s1 cur" using ok [of cur] assms(2) by (auto simp: th_ok_def s1_def mask_ok_def)
    with k1 False show ?thesis using kinv_except_add by (simp add: s2_def)
  qed
  have "threads s2 to = threads s to"
    using ne by (simp add: s2_def s1_def rt_sched_insert_thread_eq)
  moreover have k3: "kinv_except {to} s3"
  proof -
    have "kinv_except {to} (set_th_stat cur (clear_yield (th_stat (threads s2 cur))) s2) = kinv_except {to} s2"
      unfolding set_th_stat_def by (rule upd_thread_neutral) (simp_all add: stat_simps)
    with k2 show ?thesis by (simp add: s3_def)
  qed
  ultimately have th3: "threads s3 to = threads s to" using ne by (simp add: s3_def)
  have "set (queues s3 q) = set (queues s q) \<union>
      (if st s cur = RT_THREAD_RUNNING \<and> q = Ready_Q (prio s cur) then {cur} else {})" for q
    using ne by (auto simp: s3_def s2_def s1_def rt_sched_insert_thread_eq)
  then have "q = Ready_Q (prio s3 to) \<or> \<not> is_ready_q q" if "to \<in> set (queues s3 q)" for q
    using that ne th3 th_ok_not_ready_q [OF assms(1), of to q] by (auto split: if_splits)
  moreover have "mask_ok s3 to" using to(3) th3 by (simp add: mask_ok_def)
  ultimately have k4: "kinv_except {to} s4" "unqueued s4 to"
    using rt_sched_remove_thread_kinv [OF k3, of to] by (simp_all add: s4_def)
  have cur5: "current_thread s4 = Some to"
    using ne by (simp add: s4_def s3_def s2_def s1_def rt_sched_insert_thread_eq)
  have "th_ok s5 to"
    using k4(2) \<open>mask_ok s3 to\<close> cur5
    by (intro th_ok_unqueued) (auto simp: s5_def s4_def unqueued_def stat_simps mask_ok_def)
  moreover have "kinv_except {to} s5" unfolding s5_def using k4 by (intro set_th_stat_kinv_except) auto
  ultimately have "kinv s5" unfolding kinv_def using kinv_except_add [of to "{}" s5] by simp
  moreover have "sched_switch cur to p (st s cur = RT_THREAD_RUNNING) s = s5"
    unfolding sched_switch_def
    by (simp only: Let_def s1_def [symmetric] s2_def [symmetric] s3_def [symmetric] s4_def [symmetric]
        s5_def [symmetric])
  ultimately show ?thesis by simp
qed

lemma sched_keep_kinv:
  assumes "kinv s" and "current_thread s = Some cur" and "st s cur = RT_THREAD_RUNNING"
  shows "kinv (set_th_stat cur (set_stat RT_THREAD_RUNNING (th_stat (threads s cur))) (rt_sched_remove_thread cur s))"
    (is "kinv (set_th_stat _ _ ?s1)")
proof -
  note run = running_unqueued [OF kinvD(1) [OF assms(1)] assms(3)]
  have "kinv_except {cur} ?s1" "unqueued ?s1 cur"
    using rt_sched_remove_thread_kinv [of "{}" s cur] assms(1) run
    by (simp_all add: kinv_def unqueued_def)
  then show ?thesis
    unfolding kinv_def using assms(2) run
    by (intro kinv_except_add [OF set_th_stat_kinv_except th_ok_unqueued])
      (auto simp: unqueued_def stat_simps mask_ok_def)
qed

lemma rt_schedule_kinv: "kinv s \<Longrightarrow> kinv (rt_schedule s)"
proof -
  assume k: "kinv s"
  show ?thesis
  proof (cases "\<exists>cur. current_thread s = Some cur \<and> scheduler_lock_nest s = 0 \<and> ready_priority_group s \<noteq> 0")
    case False
    then have "rt_schedule s = s" by (auto simp: rt_schedule_def split: option.splits)
    with k show ?thesis by simp
  next
    case True
    then obtain cur where c: "current_thread s = Some cur" "scheduler_lock_nest s = 0"
        "ready_priority_group s \<noteq> 0" by blast
    obtain to p where hp: "scheduler_get_highest_priority_thread s = (to, p)" by fastforce
    note sc = rt_schedule_cases [OF k c hp]
    show ?thesis
      unfolding sc(3)
      using sched_switch_kinv [OF k c(1) sc(1,2)] sched_keep_kinv [OF k c(1)]
      by (simp add: sched_keeps_def)
  qed
qed

lemma sched_switch_effect:
  assumes "to \<noteq> cur"
  shows "current_thread (sched_switch cur to p ins s) = Some to"
    and "st (sched_switch cur to p ins s) to = RT_THREAD_RUNNING"
    and "prio (sched_switch cur to p ins s) t = prio s t"
    and "queues (sched_switch cur to p ins s) q =
      filter (\<lambda>x. x \<noteq> to)
        (if ins \<and> q = Ready_Q (prio s cur)
         then (if has_yield (th_stat (threads s cur)) then queues s q @ [cur] else cur # queues s q)
         else queues s q)"
    and "\<not> has_yield (th_stat (threads (sched_switch cur to p ins s) cur))"
  using assms
  by (auto simp: sched_switch_def Let_def rt_sched_insert_thread_def stat_simps)

text \<open>C19: after \<^verbatim>\<open>rt_schedule\<close> (called with the scheduler unlocked) the running thread is the current
  one, and no ready thread has a higher priority (a smaller number).\<close>

theorem rt_schedule_highest_priority:
  assumes "kinv s" and "current_thread s = Some cur" and "scheduler_lock_nest s = 0"
    and "st s cur = RT_THREAD_RUNNING \<or> (\<exists>t. st s t = RT_THREAD_READY)"
  shows "\<exists>t. current_thread (rt_schedule s) = Some t \<and> st (rt_schedule s) t = RT_THREAD_RUNNING \<and>
    (\<forall>t'. st (rt_schedule s) t' = RT_THREAD_READY \<longrightarrow> prio (rt_schedule s) t \<le> prio (rt_schedule s) t')"
proof (cases "ready_priority_group s = 0")
  case True
  then have "queues s (Ready_Q p) = []" for p
    using kinvD(3) [OF assms(1)] by (simp add: bitmap_ok_def)
  then have none: "st s t \<noteq> RT_THREAD_READY" for t
    using kinvD(1) [OF assms(1), of t] by (auto simp: th_ok_def)
  with True assms show ?thesis by (simp add: rt_schedule_def)
next
  case False
  obtain to p where hp: "scheduler_get_highest_priority_thread s = (to, p)" by fastforce
  note sc = rt_schedule_cases [OF assms(1-3) False hp]
  note top = highest_priority [OF kinvD(3) [OF assms(1)] False hp]
  have least: "p \<le> p'" if "t' \<in> set (queues s (Ready_Q p'))" for p' t'
    using top(3) [of p'] that by (cases "p' < p") auto
  have ready: "t' \<in> set (queues (rt_schedule s) (Ready_Q (prio (rt_schedule s) t')))"
    if "st (rt_schedule s) t' = RT_THREAD_READY" for t'
    using kinvD(1) [OF rt_schedule_kinv [OF assms(1)], of t'] that by (simp add: th_ok_def)
  show ?thesis
  proof (cases "sched_keeps s cur p")
    case True
    then have "prio s cur \<le> p" by (auto simp: sched_keeps_def)
    moreover have "p \<le> prio (rt_schedule s) t'" if "st (rt_schedule s) t' = RT_THREAD_READY" for t'
      using ready [OF that] True least [of t' "prio s t'"] unfolding sc(3) by (auto split: if_splits)
    ultimately show ?thesis
      using True assms(2) unfolding sc(3) by (fastforce simp: stat_simps)
  next
    case keeps: False
    note eff = sched_switch_effect [OF sc(2), of p "st s cur = RT_THREAD_RUNNING" s]
    have "prio s to = p" using ready_in_queue(2) [OF assms(1) sc(1)] .
    moreover have "p \<le> prio (rt_schedule s) t'" if "st (rt_schedule s) t' = RT_THREAD_READY" for t'
    proof -
      have "t' \<in> set (queues s (Ready_Q (prio s t'))) \<or> st s cur = RT_THREAD_RUNNING \<and> prio s t' = prio s cur"
        using ready [OF that] keeps unfolding sc(3) by (auto simp: eff split: if_splits)
      moreover have "p \<le> prio s cur" if "st s cur = RT_THREAD_RUNNING"
        using keeps that by (auto simp: sched_keeps_def)
      ultimately have "p \<le> prio s t'" using least [of t' "prio s t'"] by auto
      then show ?thesis using keeps unfolding sc(3) by (simp add: eff)
    qed
    ultimately show ?thesis using keeps unfolding sc(3) by (simp add: eff)
  qed
qed

text \<open>A state with three threads of priority 10 (thread 1 running, at the end of its time slice) and the
  idle thread 0.\<close>

definition blank_thread :: rt_thread where
  "blank_thread = \<lparr>th_stat = RT_THREAD_INIT, sched_flag_ttmr_set = False, th_init_tick = 5,
     th_remaining_tick = 5, th_current_priority = 0, th_init_priority = 0, th_number_mask = 0,
     th_error = 0, th_event_set = 0, th_event_info = 0, th_pending_object = None,
     th_taken_object_list = []\<rparr>"

definition demo_thread :: "u8 \<Rightarrow> nat \<Rightarrow> rt_thread" where
  "demo_thread x p = blank_thread\<lparr>th_stat := x, th_current_priority := p, th_init_priority := p,
     th_number_mask := push_bit p 1\<rparr>"

definition demo_kernel :: kernel where
  "demo_kernel = \<lparr>
     threads = (\<lambda>_. blank_thread)(0 := demo_thread RT_THREAD_READY 31,
       1 := demo_thread (set_yield RT_THREAD_RUNNING) 10, 2 := demo_thread RT_THREAD_READY 10,
       3 := demo_thread RT_THREAD_READY 10),
     queues = (\<lambda>_. [])(Ready_Q 31 := [0], Ready_Q 10 := [2, 3]),
     ready_priority_group = 2 ^ 10 OR 2 ^ 31, current_thread = Some 1, current_priority = 10,
     scheduler_lock_nest = 0, interrupt_nest = 0, tick = 0,
     timers = (\<lambda>_. \<lparr>tm_flag = 0, tm_init_tick = 0, tm_timeout_tick = 0, tm_timeout_func = 0,
       tm_parameter = 0\<rparr>), timer_list = [], timer_check_list = [],
     sems = (\<lambda>_. \<lparr>sem_flag = 0, sem_value = 0, sem_max_value = 65535\<rparr>),
     mutexes = (\<lambda>_. \<lparr>mtx_flag = 1, mtx_ceiling_priority = 255, mtx_priority = 255, mtx_hold = 0,
       mtx_owner = None\<rparr>),
     events = (\<lambda>_. \<lparr>ev_flag = 0, ev_set = 0\<rparr>),
     mailboxes = (\<lambda>_. \<lparr>mb_flag = 0, mb_msg_pool = (\<lambda>_. 0), mb_size = 2, mb_entry = 0,
       mb_in_offset = 0, mb_out_offset = 0\<rparr>),
     mqueues = (\<lambda>_. \<lparr>mq_flag = 0, mq_msg_pool = 0, mq_msg_size = 0, mq_max_msgs = 0, mq_entry = 0,
       mq_queue_head = 0, mq_queue_tail = 0, mq_queue_free = 0, mq_msg_next = (\<lambda>_. 0),
       mq_msg_length = (\<lambda>_. 0)\<rparr>),
     kmem = (\<lambda>_. 0)\<rparr>"

lemma demo_kernel_simps [simp]:
  "threads demo_kernel t =
     (if t = 0 then demo_thread RT_THREAD_READY 31
      else if t = 1 then demo_thread (set_yield RT_THREAD_RUNNING) 10
      else if t = 2 \<or> t = 3 then demo_thread RT_THREAD_READY 10 else blank_thread)"
  "queues demo_kernel q = (if q = Ready_Q 31 then [0] else if q = Ready_Q 10 then [2, 3] else [])"
  "current_thread demo_kernel = Some 1" "scheduler_lock_nest demo_kernel = 0"
  "ready_priority_group demo_kernel = 2 ^ 10 OR 2 ^ 31" "timer_list demo_kernel = []"
  "tick demo_kernel = 0"
  by (simp_all add: demo_kernel_def)

lemma demo_thread_simps [simp]:
  "th_stat (demo_thread x p) = x" "th_current_priority (demo_thread x p) = p"
  "th_number_mask (demo_thread x p) = 2 ^ p" "th_stat blank_thread = RT_THREAD_INIT"
  "th_init_priority (demo_thread x p) = p"
  "sched_flag_ttmr_set (demo_thread x p) = False" "sched_flag_ttmr_set blank_thread = False"
  by (simp_all add: demo_thread_def blank_thread_def)

lemma demo_kernel_kinv: "kinv demo_kernel"
  unfolding kinv_def kinv_except_def
proof (intro conjI allI impI)
  show "queues_ok demo_kernel" by (auto simp: queues_ok_def split: if_splits)
  have "bit (2 ^ 10 OR 2 ^ 31 :: u32w) p \<longleftrightarrow> p = 10 \<or> p = 31" for p
    by (simp only: bit_or_iff bit_two_power)
  then show "bitmap_ok demo_kernel" by (simp add: bitmap_ok_def del: of_nat_power)
  show "th_ok demo_kernel t" for t
  proof -
    consider "t = 0" | "t = 1" | "t = 2" | "t = 3" | "3 < t" by linarith
    then show ?thesis
      by cases (auto simp: th_ok_def mask_ok_def is_ready_q_def stat_simps split: if_splits)
  qed
qed

theorem rt_schedule_highest_priority_witness:
  "kinv demo_kernel \<and>
   (\<exists>t. current_thread (rt_schedule demo_kernel) = Some t \<and>
      st (rt_schedule demo_kernel) t = RT_THREAD_RUNNING \<and>
      (\<forall>t'. st (rt_schedule demo_kernel) t' = RT_THREAD_READY \<longrightarrow>
         prio (rt_schedule demo_kernel) t \<le> prio (rt_schedule demo_kernel) t'))"
proof
  show "kinv demo_kernel" by (rule demo_kernel_kinv)
  show "\<exists>t. current_thread (rt_schedule demo_kernel) = Some t \<and>
      st (rt_schedule demo_kernel) t = RT_THREAD_RUNNING \<and>
      (\<forall>t'. st (rt_schedule demo_kernel) t' = RT_THREAD_READY \<longrightarrow>
         prio (rt_schedule demo_kernel) t \<le> prio (rt_schedule demo_kernel) t')"
    by (rule rt_schedule_highest_priority [OF demo_kernel_kinv, of 1]) (simp_all add: stat_simps)
qed

lemma highest_is:
  assumes "kinv s" and "queues s (Ready_Q p) = t # ts" and "\<And>p'. p' < p \<Longrightarrow> queues s (Ready_Q p') = []"
  shows "ready_priority_group s \<noteq> 0" and "scheduler_get_highest_priority_thread s = (t, p)"
proof -
  have bit: "bit (ready_priority_group s) p" using kinvD(3) [OF assms(1)] assms(2) by (simp add: bitmap_ok_def)
  then show nz: "ready_priority_group s \<noteq> 0" by auto
  obtain t' k where hp: "scheduler_get_highest_priority_thread s = (t', k)" by fastforce
  note top = highest_priority [OF kinvD(3) [OF assms(1)] nz hp]
  have "k = p"
    using top(1) top(3) [of p] assms(2) assms(3) [of k] by (metis linorder_neqE_nat list.distinct(1))
  with hp top(2) assms(2) show "scheduler_get_highest_priority_thread s = (t, p)" by simp
qed

text \<open>Round robin.  When the running thread has used up its time slice (the YIELD bit is set) and other
  threads of its priority are ready, \<^verbatim>\<open>rt_schedule\<close> switches to the first of them and queues the old thread
  behind all others of that priority, with the YIELD bit cleared.\<close>

theorem rt_schedule_round_robin:
  assumes "kinv s" and "current_thread s = Some cur" and "scheduler_lock_nest s = 0"
    and "st s cur = RT_THREAD_RUNNING" and "has_yield (th_stat (threads s cur))"
    and "queues s (Ready_Q (prio s cur)) = t # ts"
    and "\<And>p. p < prio s cur \<Longrightarrow> queues s (Ready_Q p) = []"
  shows "current_thread (rt_schedule s) = Some t \<and>
    queues (rt_schedule s) (Ready_Q (prio s cur)) = ts @ [cur] \<and>
    \<not> has_yield (th_stat (threads (rt_schedule s) cur)) \<and> kinv (rt_schedule s)"
proof -
  note hi = highest_is [OF assms(1,6,7)]
  note sc = rt_schedule_cases [OF assms(1-3) hi]
  have "\<not> sched_keeps s cur (prio s cur)" using assms(5) by (simp add: sched_keeps_def)
  then have eq: "rt_schedule s = sched_switch cur t (prio s cur) True s" using sc(3) assms(4) by simp
  have "t \<notin> set ts" using kinvD(2) [OF assms(1)] assms(6) by (metis distinct.simps(2) queues_ok_def)
  with sched_switch_effect [OF sc(2), of "prio s cur" True s] assms(5,6) sc(2)
  show ?thesis using rt_schedule_kinv [OF assms(1)] by (simp add: eq)
qed

theorem rt_schedule_round_robin_witness:
  "current_thread (rt_schedule demo_kernel) = Some 2 \<and>
   queues (rt_schedule demo_kernel) (Ready_Q 10) = [3, 1]"
  using rt_schedule_round_robin [OF demo_kernel_kinv, of 1 2 "[3]"] by (simp add: stat_simps)

text \<open>Preemption.  When threads of a higher priority are ready, \<^verbatim>\<open>rt_schedule\<close> switches to the first of
  the highest, and a running thread that still has time left goes back to the front of its row, so
  that it is the next of its priority to run.\<close>

theorem rt_schedule_preempt:
  assumes "kinv s" and "current_thread s = Some cur" and "scheduler_lock_nest s = 0"
    and "st s cur = RT_THREAD_RUNNING" and "\<not> has_yield (th_stat (threads s cur))"
    and "p < prio s cur" and "queues s (Ready_Q p) = t # ts"
    and "\<And>p'. p' < p \<Longrightarrow> queues s (Ready_Q p') = []"
  shows "current_thread (rt_schedule s) = Some t \<and> queues (rt_schedule s) (Ready_Q p) = ts \<and>
    queues (rt_schedule s) (Ready_Q (prio s cur)) = cur # queues s (Ready_Q (prio s cur))"
proof -
  note hi = highest_is [OF assms(1,7,8)]
  note sc = rt_schedule_cases [OF assms(1-3) hi]
  have "\<not> sched_keeps s cur p" using assms(6) by (simp add: sched_keeps_def)
  then have eq: "rt_schedule s = sched_switch cur t p True s" using sc(3) assms(4) by simp
  have q: "t \<notin> set ts" "t \<notin> set (queues s (Ready_Q (prio s cur)))"
    using kinvD(2) [OF assms(1)] assms(6,7) unfolding queues_ok_def
    by (metis distinct.simps(2), metis less_irrefl list.set_intros(1) queue_id.inject(1))
  with sched_switch_effect [OF sc(2), of p True s] assms(5-7) sc(2) show ?thesis by (simp add: eq)
qed

lemma no_yield: "\<not> has_yield RT_THREAD_RUNNING"
  by (simp add: has_yield_def stat_defs)

theorem rt_schedule_preempt_witness:
  "current_thread (rt_schedule (upd_thread 1 (\<lambda>_. demo_thread RT_THREAD_RUNNING 20) demo_kernel)) = Some 2"
proof -
  let ?s = "upd_thread 1 (\<lambda>_. demo_thread RT_THREAD_RUNNING 20) demo_kernel"
  have "kinv_except {1} ?s"
    using demo_kernel_kinv by (intro upd_thread_kinv_except) (auto simp: kinv_def intro: kinv_except_mono)
  moreover have "th_ok ?s 1"
    by (rule th_ok_unqueued) (auto simp: unqueued_def stat_simps mask_ok_def split: if_splits)
  ultimately have "kinv ?s" unfolding kinv_def using kinv_except_add [of 1 "{}" ?s] by simp
  from rt_schedule_preempt [OF this, of 1 10 2 "[3]"] show ?thesis by (simp add: stat_simps no_yield)
qed

section \<open>The scheduler lock\<close>

lemma rt_enter_critical_kinv [simp]: "kinv (rt_enter_critical s) = kinv s"
  by (simp add: rt_enter_critical_def)

lemma rt_exit_critical_kinv: "kinv s \<Longrightarrow> kinv (rt_exit_critical s)"
  by (simp add: rt_exit_critical_def Let_def rt_schedule_kinv)

lemma rt_sched_unlock_n_resched_kinv: "kinv s \<Longrightarrow> kinv (rt_sched_unlock_n_resched s)"
  by (simp add: rt_sched_unlock_n_resched_def rt_schedule_kinv)

text \<open>A nested critical section changes nothing when it is left: only the outermost one reschedules.\<close>

definition nest_ok :: "kernel \<Rightarrow> bool" where
  "nest_ok s \<longleftrightarrow> 0 \<le> scheduler_lock_nest s \<and> scheduler_lock_nest s < 2 ^ 15 - 8"

lemma rt_critical_nested:
  assumes "0 < scheduler_lock_nest s" and "scheduler_lock_nest s < 2 ^ 15 - 1"
  shows "rt_exit_critical (rt_enter_critical s) = s"
  using assms by (simp add: rt_exit_critical_def rt_enter_critical_def i16_id)

lemma rt_critical_outermost:
  assumes "scheduler_lock_nest s = 0"
  shows "rt_exit_critical (rt_enter_critical s) = (if current_thread s = None then s else rt_schedule s)"
proof -
  have eq: "s\<lparr>scheduler_lock_nest := 0\<rparr> = s" by (cases s) (use assms in simp)
  have "rt_schedule (s\<lparr>scheduler_lock_nest := 0\<rparr>) = rt_schedule s" by (rule arg_cong [OF eq])
  then show ?thesis by (auto simp: rt_exit_critical_def rt_enter_critical_def assms i16_id eq)
qed

lemma rt_schedule_locked: "scheduler_lock_nest s \<noteq> 0 \<Longrightarrow> rt_schedule s = s"
  by (simp add: rt_schedule_def split: option.splits)

section \<open>What scheduling leaves alone\<close>

lemma rt_sched_insert_thread_frame [simp]:
  "timers (rt_sched_insert_thread t s) = timers s"
  "timer_list (rt_sched_insert_thread t s) = timer_list s"
  "tick (rt_sched_insert_thread t s) = tick s"
  "scheduler_lock_nest (rt_sched_insert_thread t s) = scheduler_lock_nest s"
  "current_thread (rt_sched_insert_thread t s) = current_thread s"
  by (simp_all add: rt_sched_insert_thread_eq)

lemma rt_sched_insert_thread_threads:
  "threads (rt_sched_insert_thread t s) = (threads s)(t := (threads s t)\<lparr>th_stat :=
     set_stat (if current_thread s = Some t then RT_THREAD_RUNNING else RT_THREAD_READY) (th_stat (threads s t))\<rparr>)"
  by (simp add: rt_sched_insert_thread_eq)

lemma rt_sched_insert_thread_queues:
  "\<not> is_ready_q q \<Longrightarrow> queues (rt_sched_insert_thread t s) q = queues s q"
  by (auto simp: rt_sched_insert_thread_eq ready_at_def Let_def is_ready_q_def)

lemma rt_sched_objects_frame [simp]:
  "sems (rt_sched_insert_thread t s) = sems s" "mutexes (rt_sched_insert_thread t s) = mutexes s"
  "events (rt_sched_insert_thread t s) = events s" "mailboxes (rt_sched_insert_thread t s) = mailboxes s"
  "mqueues (rt_sched_insert_thread t s) = mqueues s" "kmem (rt_sched_insert_thread t s) = kmem s"
  "timer_check_list (rt_sched_insert_thread t s) = timer_check_list s"
  "sems (rt_sched_remove_thread t s) = sems s" "mutexes (rt_sched_remove_thread t s) = mutexes s"
  "events (rt_sched_remove_thread t s) = events s" "mailboxes (rt_sched_remove_thread t s) = mailboxes s"
  "mqueues (rt_sched_remove_thread t s) = mqueues s" "kmem (rt_sched_remove_thread t s) = kmem s"
  "timer_check_list (rt_sched_remove_thread t s) = timer_check_list s"
  by (simp_all add: rt_sched_insert_thread_def rt_sched_remove_thread_def Let_def set_th_stat_def
      enq_tail_def enq_head_def deq_node_def)

lemma set_th_objects_frame [simp]:
  "sems (set_th_stat t x s) = sems s" "mutexes (set_th_stat t x s) = mutexes s"
  "events (set_th_stat t x s) = events s" "mailboxes (set_th_stat t x s) = mailboxes s"
  "mqueues (set_th_stat t x s) = mqueues s" "kmem (set_th_stat t x s) = kmem s"
  "timer_check_list (set_th_stat t x s) = timer_check_list s"
  "sems (set_th_error t e s) = sems s" "mutexes (set_th_error t e s) = mutexes s"
  "events (set_th_error t e s) = events s" "mailboxes (set_th_error t e s) = mailboxes s"
  "mqueues (set_th_error t e s) = mqueues s" "kmem (set_th_error t e s) = kmem s"
  "timer_check_list (set_th_error t e s) = timer_check_list s"
  by (simp_all add: set_th_stat_def set_th_error_def)

text \<open>All of a thread's control block but its state byte; the globals a switch does not touch.\<close>

definition sched_same :: "kernel \<Rightarrow> kernel \<Rightarrow> bool" where
  "sched_same s s' \<longleftrightarrow>
     (\<forall>t. (threads s' t)\<lparr>th_stat := 0\<rparr> = (threads s t)\<lparr>th_stat := 0\<rparr>) \<and>
     timers s' = timers s \<and> timer_list s' = timer_list s \<and> timer_check_list s' = timer_check_list s \<and>
     tick s' = tick s \<and> scheduler_lock_nest s' = scheduler_lock_nest s \<and> sems s' = sems s \<and>
     mutexes s' = mutexes s \<and> events s' = events s \<and> mailboxes s' = mailboxes s \<and>
     mqueues s' = mqueues s \<and> kmem s' = kmem s"

lemma sched_same_refl [simp]: "sched_same s s"
  by (simp add: sched_same_def)

lemma sched_same_trans: "sched_same s s' \<Longrightarrow> sched_same s' s'' \<Longrightarrow> sched_same s s''"
  by (simp add: sched_same_def)

lemma sched_same_fields:
  assumes "sched_same s s'"
  shows "prio s' t = prio s t" "th_number_mask (threads s' t) = th_number_mask (threads s t)"
    "th_error (threads s' t) = th_error (threads s t)"
    "sched_flag_ttmr_set (threads s' t) = sched_flag_ttmr_set (threads s t)"
    "th_init_priority (threads s' t) = th_init_priority (threads s t)"
    "th_pending_object (threads s' t) = th_pending_object (threads s t)"
    "th_taken_object_list (threads s' t) = th_taken_object_list (threads s t)"
    "th_event_set (threads s' t) = th_event_set (threads s t)"
    "th_event_info (threads s' t) = th_event_info (threads s t)"
proof -
  have "(threads s' t)\<lparr>th_stat := 0\<rparr> = (threads s t)\<lparr>th_stat := 0\<rparr>"
    using assms by (simp add: sched_same_def)
  then show "prio s' t = prio s t" "th_number_mask (threads s' t) = th_number_mask (threads s t)"
    "th_error (threads s' t) = th_error (threads s t)"
    "sched_flag_ttmr_set (threads s' t) = sched_flag_ttmr_set (threads s t)"
    "th_init_priority (threads s' t) = th_init_priority (threads s t)"
    "th_pending_object (threads s' t) = th_pending_object (threads s t)"
    "th_taken_object_list (threads s' t) = th_taken_object_list (threads s t)"
    "th_event_set (threads s' t) = th_event_set (threads s t)"
    "th_event_info (threads s' t) = th_event_info (threads s t)"
    by (cases "threads s' t", cases "threads s t", simp)+
qed

lemma sched_switch_same: "sched_same s (sched_switch cur to p ins s)"
proof -
  have threads: "threads (sched_switch cur to p ins s) t = (threads s t)\<lparr>th_stat := th_stat (threads (sched_switch cur to p ins s) t)\<rparr>" for t
    by (simp add: sched_switch_def Let_def rt_sched_insert_thread_threads)
  have "(threads (sched_switch cur to p ins s) t)\<lparr>th_stat := 0\<rparr> = (threads s t)\<lparr>th_stat := 0\<rparr>" for t
    by (subst threads) simp
  then show ?thesis
    unfolding sched_same_def by (auto simp: sched_switch_def Let_def)
qed

lemma rt_schedule_same:
  assumes "kinv s"
  shows "sched_same s (rt_schedule s)" and "susp (rt_schedule s) t = susp s t"
    and "\<not> is_ready_q q \<Longrightarrow> queues (rt_schedule s) q = queues s q"
proof -
  have "sched_same s (rt_schedule s) \<and> (susp (rt_schedule s) t = susp s t) \<and>
      (\<not> is_ready_q q \<longrightarrow> queues (rt_schedule s) q = queues s q)"
  proof (cases "\<exists>cur. current_thread s = Some cur \<and> scheduler_lock_nest s = 0 \<and> ready_priority_group s \<noteq> 0")
    case False
    then have "rt_schedule s = s" by (auto simp: rt_schedule_def split: option.splits)
    then show ?thesis by simp
  next
    case True
    then obtain cur where c: "current_thread s = Some cur" "scheduler_lock_nest s = 0"
        "ready_priority_group s \<noteq> 0" by blast
    obtain to p where hp: "scheduler_get_highest_priority_thread s = (to, p)" by fastforce
    note sc = rt_schedule_cases [OF assms c hp]
    note to = ready_in_queue [OF assms sc(1)]
    show ?thesis
    proof (cases "sched_keeps s cur p")
      case True
      then have run: "st s cur = RT_THREAD_RUNNING" by (simp add: sched_keeps_def)
      then have "cur \<notin> set (queues s q)" "\<not> susp s cur"
        using running_unqueued(1) [OF kinvD(1) [OF assms] run] is_susp_not_active(2) [OF run]
        by (auto simp: unqueued_def)
      with True show ?thesis
        unfolding sc(3) by (auto simp: sched_same_def stat_simps)
    next
      case False
      let ?ins = "st s cur = RT_THREAD_RUNNING"
      have q: "queues (sched_switch cur to p ?ins s) q = queues s q" if "\<not> is_ready_q q"
      proof -
        have "to \<notin> set (queues s q)"
          using th_ok_not_ready_q [OF assms, of to q] that kinvD(2) [OF assms] sc(1)
          unfolding queues_ok_def is_ready_q_def by blast
        with that show ?thesis
          unfolding sched_switch_effect(4) [OF sc(2)] by (auto simp: is_ready_q_def)
      qed
      have "susp (sched_switch cur to p ?ins s) t = susp s t"
        using to(1) is_susp_not_active [of "th_stat (threads s to)"]
          is_susp_not_active [of "th_stat (threads s cur)"]
        by (auto simp: sched_switch_def Let_def rt_sched_insert_thread_threads stat_simps)
      with q False show ?thesis unfolding sc(3) using sched_switch_same by simp
    qed
  qed
  then show "sched_same s (rt_schedule s)" "susp (rt_schedule s) t = susp s t"
    "\<not> is_ready_q q \<Longrightarrow> queues (rt_schedule s) q = queues s q" by auto
qed

end
