(* ===== verification/Timer.thy ===== *)
theory Timer
  imports Scheduler
begin

unbundle bit_operations_syntax

text \<open>
  The software timers, \<^verbatim>\<open>src/timer.c\<close>, with \<^verbatim>\<open>RT_TIMER_SKIP_LIST_LEVEL == 1\<close> and without soft timers
  (the configuration): one list of active timers ordered by expiry.  Ticks are 32-bit words and
  expiry is compared by wrapped differences.  \<^verbatim>\<open>_timer_check\<close>, which calls the timeout functions, is
  in the theory \<open>Clock\<close>.
\<close>

section \<open>Operations\<close>

definition RT_TIMER_FLAG_ACTIVATED :: u8 where "RT_TIMER_FLAG_ACTIVATED = 1"
definition RT_TIMER_FLAG_PERIODIC :: u8 where "RT_TIMER_FLAG_PERIODIC = 2"
definition RT_TIMER_FLAG_THREAD_TIMER :: u8 where "RT_TIMER_FLAG_THREAD_TIMER = 8"

lemmas timer_flag_defs = RT_TIMER_FLAG_ACTIVATED_def RT_TIMER_FLAG_PERIODIC_def
  RT_TIMER_FLAG_THREAD_TIMER_def

definition RT_TICK_MAX :: rt_tick_t where "RT_TICK_MAX = 0xFFFFFFFF"

definition half_tick :: rt_tick_t where "half_tick = RT_TICK_MAX div 2"

definition upd_timer :: "timer_id \<Rightarrow> (rt_timer \<Rightarrow> rt_timer) \<Rightarrow> kernel \<Rightarrow> kernel" where
  "upd_timer x f s = s\<lparr>timers := (timers s)(x := f (timers s x))\<rparr>"

definition timer_active :: "kernel \<Rightarrow> timer_id \<Rightarrow> bool" where
  "timer_active s x \<longleftrightarrow> tm_flag (timers s x) AND RT_TIMER_FLAG_ACTIVATED \<noteq> 0"

definition timer_periodic :: "kernel \<Rightarrow> timer_id \<Rightarrow> bool" where
  "timer_periodic s x \<longleftrightarrow> tm_flag (timers s x) AND RT_TIMER_FLAG_PERIODIC \<noteq> 0"

definition timer_deactivate :: "timer_id \<Rightarrow> kernel \<Rightarrow> kernel" where
  "timer_deactivate x = upd_timer x (\<lambda>tm. tm\<lparr>tm_flag := tm_flag tm AND NOT RT_TIMER_FLAG_ACTIVATED\<rparr>)"

definition timer_activate :: "timer_id \<Rightarrow> kernel \<Rightarrow> kernel" where
  "timer_activate x = upd_timer x (\<lambda>tm. tm\<lparr>tm_flag := tm_flag tm OR RT_TIMER_FLAG_ACTIVATED\<rparr>)"

definition timer_init :: "timer_id \<Rightarrow> addr \<Rightarrow> addr \<Rightarrow> rt_tick_t \<Rightarrow> u8 \<Rightarrow> kernel \<Rightarrow> kernel" where
  "timer_init x timeout param time flag =
     upd_timer x (\<lambda>tm. tm\<lparr>tm_flag := flag AND NOT RT_TIMER_FLAG_ACTIVATED,
       tm_timeout_func := timeout, tm_parameter := param, tm_timeout_tick := 0, tm_init_tick := time\<rparr>)"

definition timer_list_next_timeout :: "kernel \<Rightarrow> rt_tick_t option" where
  "timer_list_next_timeout s =
     (case timer_list s of [] \<Rightarrow> None | x # _ \<Rightarrow> Some (tm_timeout_tick (timers s x)))"

definition timer_remove :: "timer_id \<Rightarrow> kernel \<Rightarrow> kernel" where
  "timer_remove x s =
     s\<lparr>timer_list := filter (\<lambda>y. y \<noteq> x) (timer_list s),
       timer_check_list := filter (\<lambda>y. y \<noteq> x) (timer_check_list s)\<rparr>"

text \<open>The search for the insertion point: it passes timers that expire at the same tick, and stops
  before the first one that expires later.\<close>

fun timer_insert_walk :: "(timer_id \<Rightarrow> rt_tick_t) \<Rightarrow> timer_id \<Rightarrow> timer_id list \<Rightarrow> timer_id list" where
  "timer_insert_walk tmo x [] = [x]"
| "timer_insert_walk tmo x (y # ys) =
     (if tmo y - tmo x = 0 then y # timer_insert_walk tmo x ys
      else if tmo y - tmo x < half_tick then x # y # ys
      else y # timer_insert_walk tmo x ys)"

definition timer_start :: "timer_id \<Rightarrow> kernel \<Rightarrow> kernel" where
  "timer_start x s =
     (let s1 = timer_deactivate x (timer_remove x s);
          s2 = upd_timer x (\<lambda>tm. tm\<lparr>tm_timeout_tick := tick s1 + tm_init_tick tm\<rparr>) s1;
          s3 = s2\<lparr>timer_list := timer_insert_walk (\<lambda>y. tm_timeout_tick (timers s2 y)) x (timer_list s2)\<rparr>
      in timer_activate x s3)"

text \<open>\<^verbatim>\<open>rt_object_detach\<close> and \<^verbatim>\<open>rt_object_delete\<close> take the timer out of the object registry, which is outside
  the kernel state.\<close>

definition rt_timer_detach :: "timer_id \<Rightarrow> kernel \<Rightarrow> rt_err_t \<times> kernel" where
  "rt_timer_detach x s =
     (RT_EOK, rt_spin_unlock_irqrestore (timer_deactivate x (timer_remove x (rt_spin_lock_irqsave s))))"

definition rt_timer_delete :: "timer_id \<Rightarrow> kernel \<Rightarrow> rt_err_t \<times> kernel" where
  "rt_timer_delete x s =
     (RT_EOK, rt_spin_unlock_irqrestore (timer_deactivate x (timer_remove x (rt_spin_lock_irqsave s))))"

text \<open>A timer with the thread-timer flag is the one built into a thread
  (\<^verbatim>\<open>rt_container_of(timer, struct rt_thread, thread_timer)\<close>).\<close>

definition rt_timer_start :: "timer_id \<Rightarrow> kernel \<Rightarrow> rt_err_t \<times> kernel" where
  "rt_timer_start x s =
     (let s1 = (if tm_flag (timers s x) AND RT_TIMER_FLAG_THREAD_TIMER \<noteq> 0
                then (case x of
                        Thread_Timer t \<Rightarrow> upd_thread t (\<lambda>th. th\<lparr>sched_flag_ttmr_set := True\<rparr>) s
                      | Obj_Timer _ \<Rightarrow> s)
                else s)
      in (RT_EOK, rt_spin_unlock_irqrestore (timer_start x (rt_spin_lock_irqsave s1))))"

definition rt_timer_stop :: "timer_id \<Rightarrow> kernel \<Rightarrow> rt_err_t \<times> kernel" where
  "rt_timer_stop x s =
     (let s1 = rt_spin_lock_irqsave s
      in if \<not> timer_active s1 x then (- RT_ERROR, rt_spin_unlock_irqrestore s1)
         else (RT_EOK, rt_spin_unlock_irqrestore (timer_deactivate x (timer_remove x s1))))"

datatype timer_cmd =
    RT_TIMER_CTRL_SET_TIME rt_tick_t
  | RT_TIMER_CTRL_GET_TIME
  | RT_TIMER_CTRL_SET_ONESHOT
  | RT_TIMER_CTRL_SET_PERIODIC
  | RT_TIMER_CTRL_GET_STATE
  | RT_TIMER_CTRL_GET_REMAIN_TIME
  | RT_TIMER_CTRL_GET_FUNC
  | RT_TIMER_CTRL_SET_FUNC addr
  | RT_TIMER_CTRL_GET_PARM
  | RT_TIMER_CTRL_SET_PARM addr

text \<open>The command's body, and the value written through \<^verbatim>\<open>arg\<close> for the commands that read.\<close>

definition timer_control_body :: "timer_id \<Rightarrow> timer_cmd \<Rightarrow> kernel \<Rightarrow> nat option \<times> kernel" where
  "timer_control_body x cmd s =
     (case cmd of
        RT_TIMER_CTRL_GET_TIME \<Rightarrow> (Some (unat (tm_init_tick (timers s x))), s)
      | RT_TIMER_CTRL_SET_TIME time \<Rightarrow>
          (let s1 = (if timer_active s x then timer_deactivate x (timer_remove x s) else s)
           in (None, upd_timer x (\<lambda>tm. tm\<lparr>tm_init_tick := time\<rparr>) s1))
      | RT_TIMER_CTRL_SET_ONESHOT \<Rightarrow>
          (None, upd_timer x (\<lambda>tm. tm\<lparr>tm_flag := tm_flag tm AND NOT RT_TIMER_FLAG_PERIODIC\<rparr>) s)
      | RT_TIMER_CTRL_SET_PERIODIC \<Rightarrow>
          (None, upd_timer x (\<lambda>tm. tm\<lparr>tm_flag := tm_flag tm OR RT_TIMER_FLAG_PERIODIC\<rparr>) s)
      | RT_TIMER_CTRL_GET_STATE \<Rightarrow> (Some (if timer_active s x then 1 else 0), s)
      | RT_TIMER_CTRL_GET_REMAIN_TIME \<Rightarrow> (Some (unat (tm_timeout_tick (timers s x))), s)
      | RT_TIMER_CTRL_GET_FUNC \<Rightarrow> (Some (tm_timeout_func (timers s x)), s)
      | RT_TIMER_CTRL_SET_FUNC f \<Rightarrow> (None, upd_timer x (\<lambda>tm. tm\<lparr>tm_timeout_func := f\<rparr>) s)
      | RT_TIMER_CTRL_GET_PARM \<Rightarrow> (Some (tm_parameter (timers s x)), s)
      | RT_TIMER_CTRL_SET_PARM a \<Rightarrow> (None, upd_timer x (\<lambda>tm. tm\<lparr>tm_parameter := a\<rparr>) s))"

definition rt_timer_control :: "timer_id \<Rightarrow> timer_cmd \<Rightarrow> kernel \<Rightarrow> nat option \<times> kernel" where
  "rt_timer_control x cmd s =
     (let (r, s1) = timer_control_body x cmd (rt_spin_lock_irqsave s)
      in (r, rt_spin_unlock_irqrestore s1))"

definition rt_timer_next_timeout_tick :: "kernel \<Rightarrow> rt_tick_t \<times> kernel" where
  "rt_timer_next_timeout_tick s =
     (let s1 = rt_spin_lock_irqsave s;
          htimer_next_timeout = (case timer_list_next_timeout s1 of None \<Rightarrow> RT_TICK_MAX | Some n \<Rightarrow> n);
          stimer_next_timeout = RT_TICK_MAX
      in (if htimer_next_timeout < stimer_next_timeout then htimer_next_timeout else stimer_next_timeout,
          rt_spin_unlock_irqrestore s1))"

definition rt_system_timer_init :: "kernel \<Rightarrow> kernel" where
  "rt_system_timer_init s = s\<lparr>timer_list := []\<rparr>"

section \<open>Frames\<close>

lemma timer_ops_frame [simp]:
  "threads (upd_timer x f s) = threads s" "queues (upd_timer x f s) = queues s"
  "current_thread (upd_timer x f s) = current_thread s"
  "ready_priority_group (upd_timer x f s) = ready_priority_group s"
  "scheduler_lock_nest (upd_timer x f s) = scheduler_lock_nest s"
  "timer_list (upd_timer x f s) = timer_list s" "tick (upd_timer x f s) = tick s"
  "timer_check_list (upd_timer x f s) = timer_check_list s"
  "timers (upd_timer x f s) = (timers s)(x := f (timers s x))"
  "threads (timer_remove x s) = threads s" "queues (timer_remove x s) = queues s"
  "current_thread (timer_remove x s) = current_thread s"
  "ready_priority_group (timer_remove x s) = ready_priority_group s"
  "scheduler_lock_nest (timer_remove x s) = scheduler_lock_nest s"
  "tick (timer_remove x s) = tick s" "timers (timer_remove x s) = timers s"
  "timer_list (timer_remove x s) = filter (\<lambda>y. y \<noteq> x) (timer_list s)"
  "timer_check_list (timer_remove x s) = filter (\<lambda>y. y \<noteq> x) (timer_check_list s)"
  by (simp_all add: upd_timer_def timer_remove_def)

text \<open>Timer operations leave the ready table and the threads' states alone.\<close>

lemma kinv_cong:
  assumes "threads s' = threads s" and "queues s' = queues s" and "current_thread s' = current_thread s"
    and "ready_priority_group s' = ready_priority_group s"
  shows "kinv s' = kinv s"
  using assms by (simp add: kinv_def kinv_except_def queues_ok_def bitmap_ok_def th_ok_def mask_ok_def)

lemma kinv_timer_globals [simp]:
  "kinv (s\<lparr>timer_check_list := l\<rparr>) = kinv s" "kinv (s\<lparr>timer_list := l\<rparr>) = kinv s"
  "kinv (s\<lparr>tick := v\<rparr>) = kinv s"
  by (rule kinv_cong; simp)+

lemma timer_start_frame [simp]:
  "threads (timer_start x s) = threads s" "queues (timer_start x s) = queues s"
  "current_thread (timer_start x s) = current_thread s"
  "ready_priority_group (timer_start x s) = ready_priority_group s"
  "scheduler_lock_nest (timer_start x s) = scheduler_lock_nest s" "tick (timer_start x s) = tick s"
  by (simp_all add: timer_start_def Let_def timer_activate_def timer_deactivate_def)

lemma timer_deactivate_frame [simp]:
  "threads (timer_deactivate x s) = threads s" "queues (timer_deactivate x s) = queues s"
  "current_thread (timer_deactivate x s) = current_thread s"
  "ready_priority_group (timer_deactivate x s) = ready_priority_group s"
  "scheduler_lock_nest (timer_deactivate x s) = scheduler_lock_nest s"
  "timer_list (timer_deactivate x s) = timer_list s" "tick (timer_deactivate x s) = tick s"
  "timer_check_list (timer_deactivate x s) = timer_check_list s"
  by (simp_all add: timer_deactivate_def)

lemma timer_body_kinv [simp]:
  "kinv (timer_start x s) = kinv s" "kinv (timer_deactivate x s) = kinv s"
  "kinv (timer_remove x s) = kinv s" "kinv (upd_timer x f s) = kinv s"
  by (rule kinv_cong; simp)+

lemma timer_control_body_kinv: "kinv (snd (timer_control_body x cmd s)) = kinv s"
  by (cases cmd) (simp_all add: timer_control_body_def Let_def)

lemmas spin_defs = rt_spin_lock_def rt_spin_unlock_def rt_spin_lock_irqsave_def
  rt_spin_unlock_irqrestore_def

lemma rt_timer_ops_kinv:
  assumes "kinv s"
  shows "kinv (snd (rt_timer_start x s))" and "kinv (snd (rt_timer_stop x s))"
    and "kinv (snd (rt_timer_detach x s))" and "kinv (snd (rt_timer_control x cmd s))"
proof -
  show "kinv (snd (rt_timer_stop x s))" "kinv (snd (rt_timer_detach x s))"
    using assms by (auto simp: rt_timer_stop_def rt_timer_detach_def spin_defs Let_def intro: rt_exit_critical_kinv)
  show "kinv (snd (rt_timer_control x cmd s))"
    using assms timer_control_body_kinv [of x cmd "rt_enter_critical s"]
    by (auto simp: rt_timer_control_def spin_defs Let_def split: prod.splits intro: rt_exit_critical_kinv)
  have "kinv (upd_thread t (\<lambda>th. th\<lparr>sched_flag_ttmr_set := True\<rparr>) s)" for t
    using assms by (rule kinv_upd_thread_neutral) simp_all
  then show "kinv (snd (rt_timer_start x s))"
    using assms by (auto simp: rt_timer_start_def spin_defs Let_def split: timer_id.splits
        intro!: rt_exit_critical_kinv)
qed

section \<open>The list stays ordered across the wrap of the tick counter\<close>

text \<open>Expiry relative to a reference tick \<open>b\<close>.\<close>

definition dist :: "rt_tick_t \<Rightarrow> rt_tick_t \<Rightarrow> nat" where
  "dist b v = unat (v - b)"

lemma half_tick_val: "unat half_tick = 2 ^ 31 - 1" "half_tick = 0x7FFFFFFF"
  by (simp_all add: half_tick_def RT_TICK_MAX_def)

lemma dist_inject: "dist b v = dist b w \<longleftrightarrow> v = w"
  unfolding dist_def word_unat_eq_iff [symmetric] by simp

lemma unat_uminus_word: "x \<noteq> 0 \<Longrightarrow> unat (- x) = 2 ^ 32 - unat x" for x :: "32 word"
proof -
  assume "x \<noteq> 0"
  then have "uint x \<noteq> 0" by (simp add: unsigned_eq_0_iff)
  moreover have "0 \<le> uint x" "uint x < 2 ^ 32" using uint_lt2p [of x] by simp_all
  moreover have "uint (- x) = (- uint x) mod 2 ^ 32" by (simp add: uint_word_ariths)
  ultimately have e: "uint (- x) = 2 ^ 32 - uint x" by (simp add: zmod_zminus1_eq_if)
  obtain n where n: "uint x = int n" "unat x = n" by (simp add: uint_nat)
  have "unat (- x) = nat (2 ^ 32 - int n)" using e n(1) by (simp only: unat_eq_nat_uint)
  then show "unat (- x) = 2 ^ 32 - unat x" unfolding n(2) by simp
qed

lemma dist_later:
  assumes "dist b v < 2 ^ 31 - 1" and "dist b w < 2 ^ 31 - 1"
  shows "v - w \<noteq> 0 \<and> v - w < half_tick \<longleftrightarrow> dist b w < dist b v"
proof -
  have diff: "v - w = (v - b) - (w - b)" by simp
  show ?thesis
  proof (cases "dist b w \<le> dist b v")
    case True
    then have "unat (v - w) = dist b v - dist b w"
      unfolding diff dist_def by (intro unat_sub) (simp add: word_le_nat_alt)
    then have "unat (v - w) < 2 ^ 31 - 1" "unat (v - w) = 0 \<longleftrightarrow> dist b v = dist b w"
      using True assms by auto
    then show ?thesis
      using True dist_inject [of b v w] by (auto simp: word_less_nat_alt half_tick_val)
  next
    case False
    have "unat (w - v) = dist b w - dist b v"
    proof -
      have "w - v = (w - b) - (v - b)" by simp
      then show ?thesis unfolding dist_def using False
        by (simp only: dist_def) (intro unat_sub, simp add: word_le_nat_alt dist_def)
    qed
    then have small: "unat (w - v) < 2 ^ 31 - 1" "w - v \<noteq> 0" using False assms by auto
    have "v - w = - (w - v)" by simp
    then have "unat (v - w) = 2 ^ 32 - unat (w - v)" using small(2) by (simp only: unat_uminus_word not_False_eq_True)
    with small False show ?thesis by (auto simp: word_less_nat_alt half_tick_val)
  qed
qed

lemma timer_insert_walk_eq:
  assumes "dist b (tmo x) < 2 ^ 31 - 1" and "\<And>y. y \<in> set ys \<Longrightarrow> dist b (tmo y) < 2 ^ 31 - 1"
  shows "timer_insert_walk tmo x ys =
    takeWhile (\<lambda>y. dist b (tmo y) \<le> dist b (tmo x)) ys @ x #
    dropWhile (\<lambda>y. dist b (tmo y) \<le> dist b (tmo x)) ys"
  using assms(2)
proof (induction ys)
  case (Cons y ys)
  have "dist b (tmo y) \<le> dist b (tmo x) \<longleftrightarrow> \<not> (tmo y - tmo x \<noteq> 0 \<and> tmo y - tmo x < half_tick)"
    using dist_later [of b "tmo y" "tmo x"] assms(1) Cons.prems by auto
  with Cons show ?case by auto
qed simp

lemma takeWhile_insert_sorted:
  fixes f :: "'a \<Rightarrow> nat"
  assumes "sorted (map f ys)"
  shows "sorted (map f (takeWhile (\<lambda>y. f y \<le> f x) ys @ x # dropWhile (\<lambda>y. f y \<le> f x) ys))"
  using assms
proof (induction ys)
  case (Cons y ys)
  then show ?case
    by (cases "f y \<le> f x") (auto dest: set_takeWhileD set_dropWhileD)
qed simp

lemma timer_start_list:
  "timer_list (timer_start x s) =
     timer_insert_walk (\<lambda>y. if y = x then tick s + tm_init_tick (timers s x) else tm_timeout_tick (timers s y)) x
       (filter (\<lambda>y. y \<noteq> x) (timer_list s))"
  "tm_timeout_tick (timers (timer_start x s) y) =
     (if y = x then tick s + tm_init_tick (timers s x) else tm_timeout_tick (timers s y))"
  by (simp_all add: timer_start_def Let_def timer_activate_def timer_deactivate_def fun_upd_def if_distrib
      cong: if_cong)

lemma set_timer_insert_walk [simp]: "set (timer_insert_walk tmo x ys) = insert x (set ys)"
  by (induction ys) auto

lemma distinct_timer_insert_walk:
  "distinct ys \<Longrightarrow> x \<notin> set ys \<Longrightarrow> distinct (timer_insert_walk tmo x ys)"
  by (induction ys) auto

text \<open>C25: as long as all active timers and the new one expire within half of the tick range of each other,
  \<^verbatim>\<open>_timer_start\<close> keeps the list ordered by expiry, also where the expiry wraps around, and puts the
  timer behind those that expire at the same tick.\<close>

theorem timer_start_sorted:
  assumes "dist b (tick s + tm_init_tick (timers s x)) < 2 ^ 31 - 1"
    and "\<And>y. y \<in> set (timer_list s) \<Longrightarrow> y \<noteq> x \<Longrightarrow> dist b (tm_timeout_tick (timers s y)) < 2 ^ 31 - 1"
    and "sorted (map (\<lambda>y. dist b (tm_timeout_tick (timers s y))) (filter (\<lambda>y. y \<noteq> x) (timer_list s)))"
  shows "let d = (\<lambda>y. dist b (tm_timeout_tick (timers (timer_start x s) y)));
             old = filter (\<lambda>y. y \<noteq> x) (timer_list s)
         in sorted (map d (timer_list (timer_start x s))) \<and>
            timer_list (timer_start x s) =
              takeWhile (\<lambda>y. d y \<le> d x) old @ x # dropWhile (\<lambda>y. d y \<le> d x) old"
proof -
  let ?tmo = "\<lambda>y. if y = x then tick s + tm_init_tick (timers s x) else tm_timeout_tick (timers s y)"
  let ?old = "filter (\<lambda>y. y \<noteq> x) (timer_list s)"
  have eq: "timer_list (timer_start x s) =
      takeWhile (\<lambda>y. dist b (?tmo y) \<le> dist b (?tmo x)) ?old @ x #
      dropWhile (\<lambda>y. dist b (?tmo y) \<le> dist b (?tmo x)) ?old"
    unfolding timer_start_list(1) by (rule timer_insert_walk_eq) (use assms in auto)
  have "map (\<lambda>y. dist b (?tmo y)) ?old = map (\<lambda>y. dist b (tm_timeout_tick (timers s y))) ?old"
    by simp
  then have "sorted (map (\<lambda>y. dist b (?tmo y)) (timer_list (timer_start x s)))"
    unfolding eq using assms(3) by (intro takeWhile_insert_sorted) (simp del: map_eq_conv)
  then show ?thesis using eq by (simp add: Let_def timer_start_list(2))
qed

text \<open>Thread 1's timer is due at tick \<open>0xFFFFFFFE\<close>; ten ticks later, past the wrap, thread 2's is added.\<close>

definition wrap_kernel :: kernel where
  "wrap_kernel = demo_kernel\<lparr>tick := 0xFFFFFFF0, timer_list := [Thread_Timer 1],
     timers := (\<lambda>_. \<lparr>tm_flag = 8, tm_init_tick = 20, tm_timeout_tick = 0xFFFFFFFE, tm_timeout_func = 0,
       tm_parameter = 0\<rparr>)\<rparr>"

theorem timer_start_sorted_witness:
  "timer_list (timer_start (Thread_Timer 2) wrap_kernel) = [Thread_Timer 1, Thread_Timer 2] \<and>
   tm_timeout_tick (timers (timer_start (Thread_Timer 2) wrap_kernel) (Thread_Timer 2)) = 4"
  using timer_start_sorted [of "0xFFFFFFF0" wrap_kernel "Thread_Timer 2"]
  by (simp add: wrap_kernel_def dist_def timer_start_list Let_def)

section \<open>Activation\<close>

lemma timer_active_simps [simp]:
  "timer_active (timer_deactivate x s) y \<longleftrightarrow> y \<noteq> x \<and> timer_active s y"
  "timer_active (timer_activate x s) y \<longleftrightarrow> y = x \<or> timer_active s y"
  "timer_active (timer_remove x s) y = timer_active s y"
proof -
  have off: "(f AND NOT 1) AND 1 = (0 :: u8)" and on: "(f OR 1) AND 1 = (1 :: u8)" for f
    by (rule u8_eqI; auto simp: u8_bits)+
  show "timer_active (timer_deactivate x s) y \<longleftrightarrow> y \<noteq> x \<and> timer_active s y"
    unfolding timer_active_def timer_deactivate_def timer_flag_defs using off by simp
  show "timer_active (timer_activate x s) y \<longleftrightarrow> y = x \<or> timer_active s y"
    unfolding timer_active_def timer_activate_def timer_flag_defs using on by simp
qed (simp add: timer_active_def)

definition timers_ok :: "kernel \<Rightarrow> bool" where
  "timers_ok s \<longleftrightarrow> distinct (timer_list s) \<and>
     (\<forall>x. x \<notin> set (timer_check_list s) \<longrightarrow> (x \<in> set (timer_list s) \<longleftrightarrow> timer_active s x)) \<and>
     set (timer_list s) \<inter> set (timer_check_list s) = {}"

lemma timer_start_active [simp]:
  "timer_active (timer_start x s) y \<longleftrightarrow> y = x \<or> timer_active s y"
  "set (timer_list (timer_start x s)) = insert x (set (timer_list s))"
  "timer_check_list (timer_start x s) = filter (\<lambda>y. y \<noteq> x) (timer_check_list s)"
proof -
  let ?s1 = "timer_deactivate x (timer_remove x s)"
  have "timer_active (timer_start x s) y = timer_active (timer_activate x ?s1) y"
    by (auto simp: timer_start_def Let_def timer_active_def timer_activate_def)
  then show "timer_active (timer_start x s) y \<longleftrightarrow> y = x \<or> timer_active s y" by auto
  show "set (timer_list (timer_start x s)) = insert x (set (timer_list s))"
    by (auto simp: timer_start_list)
  show "timer_check_list (timer_start x s) = filter (\<lambda>y. y \<noteq> x) (timer_check_list s)"
    by (simp add: timer_start_def Let_def timer_activate_def timer_deactivate_def)
qed

lemma timers_ok_start: "timers_ok s \<Longrightarrow> timers_ok (timer_start x s)"
  unfolding timers_ok_def by (auto simp: timer_start_list(1) intro: distinct_timer_insert_walk)

lemma timers_ok_remove: "timers_ok s \<Longrightarrow> timers_ok (timer_deactivate x (timer_remove x s))"
  unfolding timers_ok_def by auto

section \<open>Timer calls inside a critical section\<close>

text \<open>Most callers hold a lock already: then leaving the inner one does not reschedule.\<close>

definition locked :: "kernel \<Rightarrow> bool" where
  "locked s \<longleftrightarrow> 0 < scheduler_lock_nest s \<and> scheduler_lock_nest s < 2 ^ 15 - 2"

lemma locked_frame [simp]:
  "locked (upd_thread t g s) = locked s" "locked (set_th_stat t w s) = locked s"
  "locked (set_th_error t e s) = locked s" "locked (deq_node t s) = locked s"
  "locked (enq_tail q t s) = locked s" "locked (enq_head q t s) = locked s"
  "locked (upd_timer x f s) = locked s" "locked (timer_remove x s) = locked s"
  "locked (timer_deactivate x s) = locked s" "locked (timer_start x s) = locked s"
  "locked (rt_sched_insert_thread t s) = locked s" "locked (rt_sched_remove_thread t s) = locked s"
  by (simp_all add: locked_def)

definition relock :: "int \<Rightarrow> kernel \<Rightarrow> kernel" where
  "relock n s = s\<lparr>scheduler_lock_nest := n\<rparr>"

lemma relock_simps [simp]:
  "relock m (relock n s) = relock m s" "scheduler_lock_nest (relock n s) = n"
  "relock (scheduler_lock_nest s) s = s"
  "timers (relock n s) = timers s" "timer_list (relock n s) = timer_list s" "tick (relock n s) = tick s"
  "timer_check_list (relock n s) = timer_check_list s" "threads (relock n s) = threads s"
  "queues (relock n s) = queues s" "current_thread (relock n s) = current_thread s"
  by (simp_all add: relock_def)

lemma relock_commute:
  "upd_timer x f (relock n s) = relock n (upd_timer x f s)"
  "timer_remove x (relock n s) = relock n (timer_remove x s)"
  "timer_deactivate x (relock n s) = relock n (timer_deactivate x s)"
  "timer_activate x (relock n s) = relock n (timer_activate x s)"
  "timer_active (relock n s) x = timer_active s x"
  by (simp_all add: upd_timer_def timer_remove_def timer_deactivate_def timer_activate_def relock_def
      timer_active_def)

lemma relock_timer_start: "timer_start x (relock n s) = relock n (timer_start x s)"
  by (simp add: timer_start_def Let_def relock_def timer_activate_def upd_timer_def timer_deactivate_def
      timer_remove_def cong: if_cong)

lemma relock_timer_control: "timer_control_body x cmd (relock n s) =
    (fst (timer_control_body x cmd s), relock n (snd (timer_control_body x cmd s)))"
  by (cases cmd) (simp_all add: timer_control_body_def Let_def relock_commute)

lemma enter_critical_locked: "locked s \<Longrightarrow> rt_enter_critical s = relock (scheduler_lock_nest s + 1) s"
  by (simp add: rt_enter_critical_def relock_def locked_def i16_id)

lemma exit_critical_locked: "locked s \<Longrightarrow> scheduler_lock_nest s' = scheduler_lock_nest s \<Longrightarrow>
    rt_exit_critical (relock (scheduler_lock_nest s + 1) s') = s'"
  by (cases s') (simp add: rt_exit_critical_def relock_def locked_def i16_id)

lemma rt_timer_stop_locked:
  "locked s \<Longrightarrow> rt_timer_stop x s =
     (if timer_active s x then (RT_EOK, timer_deactivate x (timer_remove x s)) else (- RT_ERROR, s))"
  by (simp add: rt_timer_stop_def spin_defs enter_critical_locked relock_commute exit_critical_locked)

lemma rt_timer_start_locked:
  "locked s \<Longrightarrow> tm_flag (timers s (Thread_Timer t)) AND RT_TIMER_FLAG_THREAD_TIMER \<noteq> 0 \<Longrightarrow>
   rt_timer_start (Thread_Timer t) s =
     (RT_EOK, timer_start (Thread_Timer t) (upd_thread t (\<lambda>th. th\<lparr>sched_flag_ttmr_set := True\<rparr>) s))"
  using exit_critical_locked [of "upd_thread t (\<lambda>th. th\<lparr>sched_flag_ttmr_set := True\<rparr>) s"]
  by (simp add: rt_timer_start_def spin_defs enter_critical_locked relock_timer_start)

lemma timer_control_body_nest [simp]:
  "scheduler_lock_nest (snd (timer_control_body x cmd s)) = scheduler_lock_nest s"
  by (cases cmd) (simp_all add: timer_control_body_def Let_def)

lemma rt_timer_control_locked:
  "locked s \<Longrightarrow> rt_timer_control x cmd s = timer_control_body x cmd s"
  by (simp add: rt_timer_control_def spin_defs enter_critical_locked relock_timer_control
      exit_critical_locked split: prod.splits)

lemma rt_timer_detach_locked:
  "locked s \<Longrightarrow> rt_timer_detach x s = (RT_EOK, timer_deactivate x (timer_remove x s))"
  by (simp add: rt_timer_detach_def spin_defs enter_critical_locked relock_commute exit_critical_locked)

lemma rt_schedule_when_locked: "locked s \<Longrightarrow> rt_schedule s = s"
  by (simp add: locked_def rt_schedule_locked)

end
