(* ===== verification/Thread.thy ===== *)
theory Thread
  imports Timer
begin

unbundle bit_operations_syntax

text \<open>
  The scheduler interface of \<^verbatim>\<open>src/scheduler_comm.c\<close> and the threads of \<^verbatim>\<open>src/thread.c\<close>: readying,
  suspending onto a wait list, priority changes, time slices, start-up, closing, sleeping and
  the timeout of a wait.  The parts of \<^verbatim>\<open>thread.c\<close> that release the mutexes of a dying thread are in
  the theory \<open>Mutex\<close>.

  A call that blocks is split where the processor is given away: \<open>..._enter\<close> is everything up to
  and including the call of the scheduler that switches away, \<open>..._resume\<close> what the thread does when
  it runs again.  \<open>Blocked\<close> is the outcome of an enter part that has suspended its caller.
\<close>

datatype 'a outcome = Done 'a | Blocked

section \<open>scheduler_comm.c\<close>

definition rt_sched_thread_init_ctx :: "tid \<Rightarrow> nat \<Rightarrow> nat \<Rightarrow> kernel \<Rightarrow> kernel" where
  "rt_sched_thread_init_ctx t tk priority s =
     rt_sched_thread_init_priv t tk priority (set_th_stat t RT_THREAD_INIT s)"

definition rt_sched_thread_timer_start :: "tid \<Rightarrow> kernel \<Rightarrow> kernel" where
  "rt_sched_thread_timer_start t = upd_thread t (\<lambda>th. th\<lparr>sched_flag_ttmr_set := True\<rparr>)"

definition rt_sched_thread_timer_stop :: "tid \<Rightarrow> kernel \<Rightarrow> rt_err_t \<times> kernel" where
  "rt_sched_thread_timer_stop t s =
     (if sched_flag_ttmr_set (threads s t) then
        (let (error, s1) = rt_timer_stop (Thread_Timer t) s
         in (error, upd_thread t (\<lambda>th. th\<lparr>sched_flag_ttmr_set := False\<rparr>) s1))
      else (RT_EOK, s))"

definition rt_sched_thread_get_stat :: "tid \<Rightarrow> kernel \<Rightarrow> u8" where
  "rt_sched_thread_get_stat t s = stat_of (th_stat (threads s t))"

definition rt_sched_thread_get_curr_prio :: "tid \<Rightarrow> kernel \<Rightarrow> nat" where
  "rt_sched_thread_get_curr_prio t s = th_current_priority (threads s t)"

definition rt_sched_thread_get_init_prio :: "tid \<Rightarrow> kernel \<Rightarrow> nat" where
  "rt_sched_thread_get_init_prio t s = th_init_priority (threads s t)"

definition rt_sched_thread_is_suspended :: "tid \<Rightarrow> kernel \<Rightarrow> bool" where
  "rt_sched_thread_is_suspended t s = is_susp (th_stat (threads s t))"

definition rt_sched_thread_close :: "tid \<Rightarrow> kernel \<Rightarrow> kernel" where
  "rt_sched_thread_close t = set_th_stat t RT_THREAD_CLOSE"

definition rt_sched_thread_yield :: "tid \<Rightarrow> kernel \<Rightarrow> kernel" where
  "rt_sched_thread_yield t =
     upd_thread t (\<lambda>th. th\<lparr>th_remaining_tick := th_init_tick th, th_stat := set_yield (th_stat th)\<rparr>)"

definition rt_sched_thread_ready :: "tid \<Rightarrow> kernel \<Rightarrow> rt_err_t \<times> kernel" where
  "rt_sched_thread_ready t s =
     (if \<not> rt_sched_thread_is_suspended t s then (- RT_EINVAL, s)
      else
        (let (error, s1) = (if sched_flag_ttmr_set (threads s t) then rt_sched_thread_timer_stop t s
                            else (RT_EOK, s))
         in if error = RT_EOK then (error, rt_sched_insert_thread t (deq_node t s1)) else (error, s1)))"

text \<open>Called from the tick interrupt, when there is a current thread.\<close>

definition rt_sched_tick_increase :: "nat \<Rightarrow> kernel \<Rightarrow> kernel" where
  "rt_sched_tick_increase n s =
     (case current_thread s of
        None \<Rightarrow> s
      | Some t \<Rightarrow>
          (let rem = th_remaining_tick (threads s t);
               s1 = upd_thread t (\<lambda>th. th\<lparr>th_remaining_tick := (if rem > n then rem - n else 0)\<rparr>) s
           in if th_remaining_tick (threads s1 t) \<noteq> 0 then s1
              else rt_sched_unlock_n_resched (rt_sched_thread_yield t s1)))"

definition set_priority :: "nat \<Rightarrow> bool \<Rightarrow> rt_thread \<Rightarrow> rt_thread" where
  "set_priority priority update_init_prio th =
     (let th1 = (if update_init_prio then th\<lparr>th_init_priority := priority\<rparr> else th)
      in th1\<lparr>th_current_priority := priority, th_number_mask := push_bit priority 1\<rparr>)"

definition rt_sched_update_priority :: "tid \<Rightarrow> nat \<Rightarrow> bool \<Rightarrow> kernel \<Rightarrow> rt_err_t \<times> kernel" where
  "rt_sched_update_priority t priority update_init_prio s =
     (RT_EOK,
      if stat_of (th_stat (threads s t)) = RT_THREAD_READY then
        rt_sched_insert_thread t
          (set_th_stat t RT_THREAD_INIT
             (upd_thread t (set_priority priority update_init_prio) (rt_sched_remove_thread t s)))
      else upd_thread t (set_priority priority update_init_prio) s)"

definition rt_sched_thread_change_priority :: "tid \<Rightarrow> nat \<Rightarrow> kernel \<Rightarrow> rt_err_t \<times> kernel" where
  "rt_sched_thread_change_priority t priority = rt_sched_update_priority t priority False"

definition rt_sched_thread_reset_priority :: "tid \<Rightarrow> nat \<Rightarrow> kernel \<Rightarrow> rt_err_t \<times> kernel" where
  "rt_sched_thread_reset_priority t priority = rt_sched_update_priority t priority True"

section \<open>Wait lists\<close>

definition RT_IPC_FLAG_FIFO :: u8 where "RT_IPC_FLAG_FIFO = 0"
definition RT_IPC_FLAG_PRIO :: u8 where "RT_IPC_FLAG_PRIO = 1"

fun prio_insert :: "(tid \<Rightarrow> nat) \<Rightarrow> tid \<Rightarrow> tid list \<Rightarrow> tid list" where
  "prio_insert p t [] = [t]"
| "prio_insert p t (n # ns) = (if p t < p n then t # n # ns else n # prio_insert p t ns)"

definition rt_susp_list_enqueue :: "queue_id \<Rightarrow> tid \<Rightarrow> u8 \<Rightarrow> kernel \<Rightarrow> rt_err_t \<times> kernel" where
  "rt_susp_list_enqueue q t ipc_flags s =
     (RT_EOK,
      if ipc_flags = RT_IPC_FLAG_FIFO then enq_tail q t s
      else if ipc_flags = RT_IPC_FLAG_PRIO then
        s\<lparr>queues := (queues s)(q := prio_insert (\<lambda>n. rt_sched_thread_get_curr_prio n s) t (queues s q))\<rparr>
      else s)"

section \<open>thread.c\<close>

definition thread_timeout :: "tid \<Rightarrow> kernel \<Rightarrow> kernel" where
  "thread_timeout t s =
     rt_sched_unlock_n_resched
       (rt_sched_insert_thread t (deq_node t (set_th_error t (- RT_ETIMEOUT) s)))"

text \<open>The fields of the model that \<^verbatim>\<open>_thread_init\<close> sets; entry point, stack and clean-up are not in it.\<close>

definition thread_init :: "tid \<Rightarrow> nat \<Rightarrow> nat \<Rightarrow> kernel \<Rightarrow> rt_err_t \<times> kernel" where
  "thread_init t priority tk s =
     (let s1 = rt_sched_thread_init_ctx t tk priority s;
          s2 = upd_thread t (\<lambda>th. th\<lparr>th_taken_object_list := [], th_pending_object := None,
                 th_event_set := 0, th_event_info := 0, th_error := RT_EOK\<rparr>) s1
      in (RT_EOK, timer_init (Thread_Timer t) 0 t 0 RT_TIMER_FLAG_THREAD_TIMER s2))"

definition rt_thread_resume :: "tid \<Rightarrow> kernel \<Rightarrow> rt_err_t \<times> kernel" where
  "rt_thread_resume t s =
     (let (error, s1) = rt_sched_thread_ready t s
      in if error = RT_EOK then (RT_EOK, rt_sched_unlock_n_resched s1) else (error, s1))"

definition rt_thread_startup :: "tid \<Rightarrow> kernel \<Rightarrow> rt_err_t \<times> kernel" where
  "rt_thread_startup t s = (RT_EOK, snd (rt_thread_resume t (rt_sched_thread_startup t s)))"

definition rt_thread_close :: "tid \<Rightarrow> kernel \<Rightarrow> rt_err_t \<times> kernel" where
  "rt_thread_close t s =
     (let thread_status = rt_sched_thread_get_stat t s
      in if thread_status \<noteq> RT_THREAD_CLOSE then
           (let s1 = (if thread_status \<noteq> RT_THREAD_INIT then rt_sched_remove_thread t s else s);
                s2 = snd (rt_timer_detach (Thread_Timer t) s1)
            in (RT_EOK, rt_sched_thread_close t s2))
         else (RT_EOK, s))"

definition rt_thread_yield :: "kernel \<Rightarrow> rt_err_t \<times> kernel" where
  "rt_thread_yield s =
     (RT_EOK,
      case current_thread s of
        None \<Rightarrow> s
      | Some t \<Rightarrow> rt_sched_unlock_n_resched (rt_sched_thread_yield t s))"

datatype suspend_flag = RT_INTERRUPTIBLE | RT_KILLABLE | RT_UNINTERRUPTIBLE

fun suspend_stat :: "suspend_flag \<Rightarrow> u8" where
  "suspend_stat RT_INTERRUPTIBLE = RT_THREAD_SUSPEND_INTERRUPTIBLE"
| "suspend_stat RT_KILLABLE = RT_THREAD_SUSPEND_KILLABLE"
| "suspend_stat RT_UNINTERRUPTIBLE = RT_THREAD_SUSPEND_UNINTERRUPTIBLE"

definition thread_set_suspend_state :: "tid \<Rightarrow> suspend_flag \<Rightarrow> kernel \<Rightarrow> kernel" where
  "thread_set_suspend_state t suspend_flag s =
     set_th_stat t (set_stat (suspend_stat suspend_flag) (th_stat (threads s t))) s"

definition rt_thread_suspend_to_list ::
    "tid \<Rightarrow> queue_id option \<Rightarrow> u8 \<Rightarrow> suspend_flag \<Rightarrow> kernel \<Rightarrow> rt_err_t \<times> kernel" where
  "rt_thread_suspend_to_list t susp_list ipc_flags suspend_flag s =
     (let stat = rt_sched_thread_get_stat t s
      in if stat \<noteq> RT_THREAD_READY \<and> stat \<noteq> RT_THREAD_RUNNING then (- RT_ERROR, s)
         else
           (let s1 = thread_set_suspend_state t suspend_flag (rt_sched_remove_thread t s);
                s2 = (case susp_list of
                        None \<Rightarrow> s1
                      | Some q \<Rightarrow> snd (rt_susp_list_enqueue q t ipc_flags s1))
            in (RT_EOK, snd (rt_sched_thread_timer_stop t s2))))"

definition rt_thread_suspend_with_flag :: "tid \<Rightarrow> suspend_flag \<Rightarrow> kernel \<Rightarrow> rt_err_t \<times> kernel" where
  "rt_thread_suspend_with_flag t suspend_flag = rt_thread_suspend_to_list t None 0 suspend_flag"

definition rt_thread_suspend :: "tid \<Rightarrow> kernel \<Rightarrow> rt_err_t \<times> kernel" where
  "rt_thread_suspend t = rt_thread_suspend_with_flag t RT_UNINTERRUPTIBLE"

text \<open>Arming the timer of a waiting thread, as every blocking call does it.\<close>

definition arm_thread_timer :: "tid \<Rightarrow> rt_tick_t \<Rightarrow> kernel \<Rightarrow> kernel" where
  "arm_thread_timer t time s =
     snd (rt_timer_start (Thread_Timer t)
       (snd (rt_timer_control (Thread_Timer t) (RT_TIMER_CTRL_SET_TIME time) s)))"

definition thread_sleep_enter :: "rt_tick_t \<Rightarrow> tid \<Rightarrow> kernel \<Rightarrow> rt_err_t outcome \<times> kernel" where
  "thread_sleep_enter tk t s =
     (if tk = 0 then (Done (- RT_EINVAL), s)
      else
        (let s1 = rt_enter_critical (set_th_error t RT_EOK s);
             (err, s2) = rt_thread_suspend_with_flag t RT_INTERRUPTIBLE s1
         in if err = RT_EOK then
              (let s3 = set_th_error t (- RT_EINTR) (arm_thread_timer t tk s2)
               in (Blocked, rt_exit_critical (rt_schedule s3)))
            else (Done err, rt_exit_critical s2)))"

definition thread_sleep_resume :: "tid \<Rightarrow> kernel \<Rightarrow> rt_err_t \<times> kernel" where
  "thread_sleep_resume t s =
     (RT_EOK, if th_error (threads s t) = - RT_ETIMEOUT then set_th_error t RT_EOK s else s)"

definition rt_thread_delay_enter :: "rt_tick_t \<Rightarrow> tid \<Rightarrow> kernel \<Rightarrow> rt_err_t outcome \<times> kernel" where
  "rt_thread_delay_enter = thread_sleep_enter"

text \<open>The in-out parameter \<^verbatim>\<open>*tick\<close> is returned.\<close>

definition rt_thread_delay_until_enter ::
    "rt_tick_t \<Rightarrow> rt_tick_t \<Rightarrow> tid \<Rightarrow> kernel \<Rightarrow> rt_tick_t \<times> rt_err_t outcome \<times> kernel" where
  "rt_thread_delay_until_enter tk inc_tick t s =
     (let s1 = rt_enter_critical (set_th_error t RT_EOK s);
          cur_tick = tick s1
      in if cur_tick - tk < inc_tick then
           (let tk1 = tk + inc_tick;
                left_tick = tk1 - cur_tick;
                s2 = snd (rt_thread_suspend_with_flag t RT_UNINTERRUPTIBLE s1);
                s3 = arm_thread_timer t left_tick s2
            in (tk1, Blocked, rt_exit_critical s3))
         else
           (let s2 = rt_exit_critical s1
            in (cur_tick, Done (th_error (threads s2 t)), s2)))"

definition rt_thread_delay_until_resume :: "tid \<Rightarrow> kernel \<Rightarrow> rt_err_t \<times> kernel" where
  "rt_thread_delay_until_resume t s =
     (let s1 = rt_schedule s;
          s2 = (if th_error (threads s1 t) = - RT_ETIMEOUT then set_th_error t RT_EOK s1 else s1)
      in (th_error (threads s2 t), s2))"

definition rt_tick_from_millisecond :: "int \<Rightarrow> rt_tick_t" where
  "rt_tick_from_millisecond ms = (if ms < 0 then word_of_int (- 1) else word_of_int ms)"

definition rt_thread_mdelay_enter :: "int \<Rightarrow> tid \<Rightarrow> kernel \<Rightarrow> rt_err_t outcome \<times> kernel" where
  "rt_thread_mdelay_enter ms = thread_sleep_enter (rt_tick_from_millisecond ms)"

section \<open>The invariant\<close>

lemma rt_exit_critical_same:
  assumes "kinv s"
  shows "\<exists>n. sched_same (relock n s) (rt_exit_critical s)"
    and "susp (rt_exit_critical s) t = susp s t"
    and "\<not> is_ready_q q \<Longrightarrow> queues (rt_exit_critical s) q = queues s q"
proof -
  have k: "kinv (relock n s)" for n using assms by (simp add: relock_def)
  consider n where "rt_exit_critical s = relock n s" | n where "rt_exit_critical s = rt_schedule (relock n s)"
    unfolding rt_exit_critical_def Let_def relock_def [symmetric]
    by (metis relock_simps(1))
  then have "\<exists>n. rt_exit_critical s = relock n s \<or> rt_exit_critical s = rt_schedule (relock n s)"
    by cases auto
  then obtain n where n: "rt_exit_critical s = relock n s \<or> rt_exit_critical s = rt_schedule (relock n s)"
    by blast
  show "\<exists>n. sched_same (relock n s) (rt_exit_critical s)"
    using n rt_schedule_same(1) [OF k] by (metis sched_same_refl)
  show "susp (rt_exit_critical s) t = susp s t"
    using n rt_schedule_same(2) [OF k [of n], of t] by auto
  show "queues (rt_exit_critical s) q = queues s q" if "\<not> is_ready_q q"
    using n rt_schedule_same(3) [OF k [of n] that] by auto
qed

lemma rt_timer_stop_same:
  assumes "kinv s"
  shows "susp (snd (rt_timer_stop x s)) t = susp s t"
    and "\<not> is_ready_q q \<Longrightarrow> queues (snd (rt_timer_stop x s)) q = queues s q"
proof -
  let ?s1 = "rt_enter_critical s"
  have e: "threads ?s1 = threads s" "queues ?s1 = queues s" by (simp_all add: rt_enter_critical_def)
  have k: "kinv ?s1" "kinv (timer_deactivate x (timer_remove x ?s1))" using assms by simp_all
  show "susp (snd (rt_timer_stop x s)) t = susp s t"
    using rt_exit_critical_same(2) [OF k(1), of t] rt_exit_critical_same(2) [OF k(2), of t] e
    by (simp add: rt_timer_stop_def spin_defs Let_def)
  show "queues (snd (rt_timer_stop x s)) q = queues s q" if "\<not> is_ready_q q"
    using rt_exit_critical_same(3) [OF k(1) that] rt_exit_critical_same(3) [OF k(2) that] e
    by (simp add: rt_timer_stop_def spin_defs Let_def)
qed

lemma rt_sched_thread_timer_stop_kinv:
  assumes "kinv s"
  shows "kinv (snd (rt_sched_thread_timer_stop t s))"
    and "susp (snd (rt_sched_thread_timer_stop t s)) t' = susp s t'"
proof -
  have "kinv (upd_thread t (\<lambda>th. th\<lparr>sched_flag_ttmr_set := False\<rparr>) (snd (rt_timer_stop (Thread_Timer t) s)))"
    by (rule kinv_upd_thread_neutral) (simp_all add: rt_timer_ops_kinv(2) [OF assms])
  then show "kinv (snd (rt_sched_thread_timer_stop t s))"
    using assms by (auto simp: rt_sched_thread_timer_stop_def Let_def split: prod.splits)
  show "susp (snd (rt_sched_thread_timer_stop t s)) t' = susp s t'"
    using rt_timer_stop_same(1) [OF assms, of "Thread_Timer t" t']
    by (auto simp: rt_sched_thread_timer_stop_def Let_def split: prod.splits)
qed

lemma susp_queues:
  assumes "kinv s" and "susp s t"
  shows "mask_ok s t" and "t \<in> set (queues s q) \<Longrightarrow> \<not> is_ready_q q"
proof -
  have ok: "th_ok s t" using kinvD(1) [OF assms(1)] .
  then show "mask_ok s t" using assms(2) by (simp add: th_ok_def)
  show "\<not> is_ready_q q" if "t \<in> set (queues s q)"
    using ok that assms(2) is_susp_not_active(1) [of "th_stat (threads s t)"]
    by (auto simp: th_ok_def is_ready_q_def)
qed

text \<open>Taking a suspended thread out of its wait list and making it ready.\<close>

definition wake :: "tid \<Rightarrow> kernel \<Rightarrow> kernel" where
  "wake t s = rt_sched_insert_thread t (deq_node t s)"

lemma wake_kinv:
  assumes "kinv s" and "susp s t"
  shows "kinv (wake t s)"
proof -
  have "kinv_except (insert t {}) (deq_node t s)" "unqueued (deq_node t s) t"
    using deq_node_kinv [of "{}" s t] susp_queues(2) [OF assms] assms(1) by (auto simp: kinv_def)
  moreover have "mask_ok (deq_node t s) t" using susp_queues(1) [OF assms] by (simp add: mask_ok_def)
  ultimately show ?thesis
    using rt_sched_insert_thread_kinv [of "{t}" "deq_node t s" t] by (simp add: kinv_def wake_def)
qed

lemma rt_sched_thread_ready_kinv:
  assumes "kinv s"
  shows "kinv (snd (rt_sched_thread_ready t s))"
proof (cases "susp s t")
  case True
  note ts = rt_sched_thread_timer_stop_kinv [OF assms, of t]
  have w: "kinv (wake t (snd (rt_sched_thread_timer_stop t s)))"
    by (rule wake_kinv [OF ts(1)]) (use True ts(2) in simp)
  show ?thesis
    using True assms w ts(1) wake_kinv [OF assms True]
    by (auto simp: rt_sched_thread_ready_def rt_sched_thread_is_suspended_def Let_def wake_def split: prod.splits)
qed (simp add: rt_sched_thread_ready_def rt_sched_thread_is_suspended_def assms)

lemma thread_timeout_kinv:
  assumes "kinv s" and "susp s t"
  shows "kinv (thread_timeout t s)"
proof -
  have "kinv (wake t (set_th_error t (- RT_ETIMEOUT) s))"
    by (rule wake_kinv) (use assms in simp_all)
  then show ?thesis by (simp add: thread_timeout_def wake_def rt_sched_unlock_n_resched_kinv)
qed

lemma enqueue_kinv:
  assumes "kinv_except {t} s" and "unqueued s t" and "susp s t" and "mask_ok s t"
    and "\<not> is_ready_q q" and "q \<noteq> Defunct_Q"
    and "set xs = insert t (set (queues s q))" and "distinct xs"
  shows "kinv (s\<lparr>queues := (queues s)(q := xs)\<rparr>)"
proof -
  let ?s' = "s\<lparr>queues := (queues s)(q := xs)\<rparr>"
  have k: "queues_ok s" "bitmap_ok s" and ok: "\<And>t'. t' \<noteq> t \<Longrightarrow> th_ok s t'"
    using assms(1) by (auto simp: kinv_except_def)
  have bm: "bitmap_ok ?s'" using k(2) assms(5) by (auto simp: bitmap_ok_def is_ready_q_def)
  have qok: "queues_ok ?s'"
    unfolding queues_ok_def
  proof (intro conjI allI impI)
    show "distinct (queues ?s' q')" for q' using k(1) assms(8) by (simp add: queues_ok_def)
    fix q1 q2 x
    assume "x \<in> set (queues ?s' q1)" "x \<in> set (queues ?s' q2)"
    then show "q1 = q2"
      using k(1) assms(2,7) by (cases "x = t") (auto simp: queues_ok_def unqueued_def split: if_splits)
  qed
  have "th_ok ?s' t'" for t'
  proof (cases "t' = t")
    case True
    have "stat_of (th_stat (threads s t)) \<noteq> RT_THREAD_READY" "stat_of (th_stat (threads s t)) \<noteq> RT_THREAD_RUNNING"
      using assms(3) is_susp_not_active by blast+
    with True assms(2-7) show ?thesis
      by (auto simp: th_ok_def unqueued_def mask_ok_def is_ready_q_def)
  next
    case False
    then have "th_ok ?s' t' = th_ok s t'" by (intro th_ok_cong) (auto simp: assms(7))
    with ok [OF False] show ?thesis by simp
  qed
  with qok bm show ?thesis by (simp add: kinv_def kinv_except_def)
qed

lemma set_prio_insert [simp]: "set (prio_insert p t xs) = insert t (set xs)"
  by (induction xs) auto

lemma distinct_prio_insert: "distinct xs \<Longrightarrow> t \<notin> set xs \<Longrightarrow> distinct (prio_insert p t xs)"
  by (induction xs) auto

lemma suspend_stat_susp [simp]: "is_susp (suspend_stat f)"
  by (cases f) (simp_all add: stat_simps)

definition is_wait_q :: "queue_id \<Rightarrow> bool" where
  "is_wait_q q \<longleftrightarrow> \<not> is_ready_q q \<and> q \<noteq> Defunct_Q"

lemma is_wait_q_simps [simp]:
  "is_wait_q (Sem_Q i)" "is_wait_q (Mutex_Q i)" "is_wait_q (Event_Q i)" "is_wait_q (Mb_Q i)"
  "is_wait_q (Mb_Send_Q i)" "is_wait_q (Mq_Q i)" "is_wait_q (Mq_Send_Q i)" "is_wait_q (Mp_Q i)"
  "is_wait_q (Completion_Q i)"
  by (simp_all add: is_wait_q_def is_ready_q_def)

lemma susp_enqueue_kinv:
  assumes "kinv_except {t} s" and "unqueued s t" and "susp s t" and "mask_ok s t" and "is_wait_q q"
  shows "kinv (snd (rt_susp_list_enqueue q t fl s))"
proof -
  have "kinv s"
  proof -
    have "stat_of (th_stat (threads s t)) \<noteq> RT_THREAD_READY" "stat_of (th_stat (threads s t)) \<noteq> RT_THREAD_RUNNING"
      using assms(3) is_susp_not_active by blast+
    then have "th_ok s t" using assms(2,4) by (intro th_ok_unqueued) auto
    then show ?thesis using kinv_except_add [of t "{}" s] assms(1) by (simp add: kinv_def)
  qed
  moreover have "distinct (queues s q)" "t \<notin> set (queues s q)"
    using assms(1,2) by (auto simp: kinv_except_def queues_ok_def unqueued_def)
  ultimately show ?thesis
    using enqueue_kinv [OF assms(1-4)] assms(5)
    by (auto simp: rt_susp_list_enqueue_def enq_tail_def is_wait_q_def distinct_prio_insert)
qed

lemma rt_thread_suspend_to_list_kinv:
  assumes "kinv s" and "\<And>q. ql = Some q \<Longrightarrow> is_wait_q q"
  shows "kinv (snd (rt_thread_suspend_to_list t ql fl sf s))"
proof (cases "st s t = RT_THREAD_READY \<or> st s t = RT_THREAD_RUNNING")
  case True
  let ?s1 = "thread_set_suspend_state t sf (rt_sched_remove_thread t s)"
  have ok: "th_ok s t" using kinvD(1) [OF assms(1)] .
  have m: "mask_ok s t" using ok True by (auto simp: th_ok_def)
  have r: "kinv_except {t} (rt_sched_remove_thread t s)" "unqueued (rt_sched_remove_thread t s) t"
    using rt_sched_remove_thread_kinv [of "{}" s t] assms(1) m queue_of_th_ok [OF ok] by (auto simp: kinv_def)
  have s1: "kinv_except {t} ?s1" "unqueued ?s1 t" "susp ?s1 t" "mask_ok ?s1 t"
    using set_th_stat_kinv_except [OF r(1)] r(2) m
    by (simp_all add: thread_set_suspend_state_def unqueued_def stat_simps mask_ok_def)
  have "kinv ?s1"
  proof -
    have "th_ok ?s1 t"
      using s1 is_susp_not_active [of "th_stat (threads ?s1 t)"] by (intro th_ok_unqueued) auto
    then show ?thesis using kinv_except_add [of t "{}" ?s1] s1(1) by (simp add: kinv_def)
  qed
  then have "kinv (case ql of None \<Rightarrow> ?s1 | Some q \<Rightarrow> snd (rt_susp_list_enqueue q t fl ?s1))"
    using susp_enqueue_kinv [OF s1] assms(2) by (auto split: option.splits)
  with True show ?thesis
    by (auto simp: rt_thread_suspend_to_list_def rt_sched_thread_get_stat_def Let_def
        intro: rt_sched_thread_timer_stop_kinv(1))
next
  case False
  then show ?thesis using assms(1)
    by (simp add: rt_thread_suspend_to_list_def rt_sched_thread_get_stat_def)
qed

lemma set_priority_simps [simp]:
  "th_current_priority (set_priority p u th) = p" "th_number_mask (set_priority p u th) = 2 ^ p"
  "th_stat (set_priority p u th) = th_stat th" "th_error (set_priority p u th) = th_error th"
  "th_init_priority (set_priority p u th) = (if u then p else th_init_priority th)"
  "sched_flag_ttmr_set (set_priority p u th) = sched_flag_ttmr_set th"
  "th_pending_object (set_priority p u th) = th_pending_object th"
  "th_taken_object_list (set_priority p u th) = th_taken_object_list th"
  by (simp_all add: set_priority_def Let_def)

lemma rt_sched_update_priority_kinv:
  assumes "kinv s" and "p < 32"
  shows "kinv (snd (rt_sched_update_priority t p u s))"
proof (cases "st s t = RT_THREAD_READY")
  case True
  have ok: "th_ok s t" using kinvD(1) [OF assms(1)] .
  then have "mask_ok s t" using True by (simp add: th_ok_def)
  with rt_sched_remove_thread_kinv [of "{}" s t] assms(1) queue_of_th_ok [OF ok]
  have r: "kinv_except {t} (rt_sched_remove_thread t s)" "unqueued (rt_sched_remove_thread t s) t"
    by (auto simp: kinv_def)
  let ?s1 = "set_th_stat t RT_THREAD_INIT (upd_thread t (set_priority p u) (rt_sched_remove_thread t s))"
  have "kinv_except {t} ?s1"
    by (intro set_th_stat_kinv_except upd_thread_kinv_except) (use r(1) in auto)
  moreover have "unqueued ?s1 t" using r(2) by (simp add: unqueued_def)
  moreover have "mask_ok ?s1 t" using assms(2) by (simp add: mask_ok_def)
  ultimately have "kinv_except ({t} - {t}) (rt_sched_insert_thread t ?s1)"
    by (rule rt_sched_insert_thread_kinv)
  with True show ?thesis by (simp add: rt_sched_update_priority_def kinv_def)
next
  case False
  let ?s1 = "upd_thread t (set_priority p u) s"
  have "kinv_except {t} ?s1"
    using assms(1) by (intro upd_thread_kinv_except) (auto simp: kinv_def intro: kinv_except_mono)
  moreover have "th_ok ?s1 t"
    using kinvD(1) [OF assms(1), of t] False assms(2) by (auto simp: th_ok_def mask_ok_def)
  ultimately have "kinv ?s1" using kinv_except_add [of t "{}" ?s1] by (simp add: kinv_def)
  with False show ?thesis by (simp add: rt_sched_update_priority_def)
qed

lemma rt_thread_resume_kinv: "kinv s \<Longrightarrow> kinv (snd (rt_thread_resume t s))"
  using rt_sched_thread_ready_kinv [of s t]
  by (auto simp: rt_thread_resume_def Let_def rt_sched_unlock_n_resched_kinv split: prod.splits)

lemma init_unqueued:
  assumes "kinv s" and "st s t = RT_THREAD_INIT"
  shows "unqueued s t"
proof -
  have "th_ok s t" "\<not> susp s t"
    using kinvD(1) [OF assms(1)] assms(2) is_susp_stat_of [of "th_stat (threads s t)"]
    by (simp_all add: stat_simps)
  then show ?thesis
    using assms(2) by (auto simp: th_ok_def unqueued_def is_ready_q_def stat_simps split: if_splits)
qed

lemma rt_thread_startup_kinv:
  assumes "kinv s" and "st s t = RT_THREAD_INIT" and "prio s t < 32"
  shows "kinv (snd (rt_thread_startup t s))"
proof -
  let ?s1 = "rt_sched_thread_startup t s"
  have "kinv_except {t} ?s1"
    unfolding rt_sched_thread_startup_def using assms(1)
    by (intro upd_thread_kinv_except) (auto simp: kinv_def intro: kinv_except_mono)
  moreover have "th_ok ?s1 t"
    using init_unqueued [OF assms(1,2)] assms(3)
    by (intro th_ok_unqueued)
      (auto simp: rt_sched_thread_startup_def unqueued_def mask_ok_def stat_simps)
  ultimately have "kinv ?s1" using kinv_except_add [of t "{}" ?s1] by (simp add: kinv_def)
  then show ?thesis using rt_thread_resume_kinv by (simp add: rt_thread_startup_def)
qed

lemma thread_init_kinv:
  assumes "kinv s" and "unqueued s t" and "current_thread s \<noteq> Some t"
  shows "kinv (snd (thread_init t p tk s))"
proof -
  let ?s1 = "rt_sched_thread_init_ctx t tk p s"
  let ?s2 = "upd_thread t (\<lambda>th. th\<lparr>th_taken_object_list := [], th_pending_object := None,
                 th_event_set := 0, th_event_info := 0, th_error := RT_EOK\<rparr>) ?s1"
  have "kinv_except {t} ?s2"
    unfolding rt_sched_thread_init_ctx_def rt_sched_thread_init_priv_def
    by (intro upd_thread_kinv_except set_th_stat_kinv_except)
      (use assms(1) in \<open>auto simp: kinv_def intro: kinv_except_mono\<close>)
  moreover have "th_ok ?s2 t"
    using assms(2)
    by (intro th_ok_unqueued)
      (auto simp: rt_sched_thread_init_ctx_def rt_sched_thread_init_priv_def unqueued_def stat_simps)
  ultimately have "kinv ?s2" using kinv_except_add [of t "{}" ?s2] by (simp add: kinv_def)
  then show ?thesis by (simp add: thread_init_def Let_def timer_init_def)
qed

lemma rt_sched_thread_yield_kinv: "kinv s \<Longrightarrow> kinv (rt_sched_thread_yield t s)"
  unfolding rt_sched_thread_yield_def by (rule kinv_upd_thread_neutral) (simp_all add: stat_simps)

lemma rt_thread_yield_kinv: "kinv s \<Longrightarrow> kinv (snd (rt_thread_yield s))"
  by (simp add: rt_thread_yield_def rt_sched_unlock_n_resched_kinv rt_sched_thread_yield_kinv
      split: option.splits)

lemma rt_sched_tick_increase_kinv: "kinv s \<Longrightarrow> kinv (rt_sched_tick_increase n s)"
proof -
  assume k: "kinv s"
  then have "kinv (upd_thread t (\<lambda>th. th\<lparr>th_remaining_tick := m\<rparr>) s)" for t m
    by (rule kinv_upd_thread_neutral) simp_all
  with k show ?thesis
    by (simp add: rt_sched_tick_increase_def Let_def rt_sched_unlock_n_resched_kinv
        rt_sched_thread_yield_kinv split: option.splits)
qed

lemma rt_thread_close_kinv:
  assumes "kinv s" and "locked s"
  shows "kinv (snd (rt_thread_close t s))"
proof (cases "st s t = RT_THREAD_CLOSE")
  case False
  let ?s1 = "if st s t \<noteq> RT_THREAD_INIT then rt_sched_remove_thread t s else s"
  have ok: "th_ok s t" using kinvD(1) [OF assms(1)] .
  have s1: "kinv_except {t} ?s1" "unqueued ?s1 t"
  proof -
    have "mask_ok s t" if "st s t \<noteq> RT_THREAD_INIT"
      using False that ok by (cases rule: stat_cases [of "th_stat (threads s t)"]) (auto simp: th_ok_def)
    then show "kinv_except {t} ?s1" "unqueued ?s1 t"
      using rt_sched_remove_thread_kinv [of "{}" s t] queue_of_th_ok [OF ok] assms(1)
        init_unqueued [OF assms(1)] by (auto simp: kinv_def intro: kinv_except_mono)
  qed
  let ?s2 = "timer_deactivate (Thread_Timer t) (timer_remove (Thread_Timer t) ?s1)"
  have cong: "kinv_except E s' = kinv_except E s''"
    if "threads s' = threads s''" "queues s' = queues s''" "current_thread s' = current_thread s''"
      "ready_priority_group s' = ready_priority_group s''" for E s' s''
    using that by (simp add: kinv_except_def queues_ok_def bitmap_ok_def th_ok_def mask_ok_def)
  have "kinv_except {t} ?s2" using s1(1) cong [of ?s2 ?s1] by simp
  then have "kinv_except {t} (rt_sched_thread_close t ?s2)"
    unfolding rt_sched_thread_close_def by (rule set_th_stat_kinv_except) simp
  moreover have "th_ok (rt_sched_thread_close t ?s2) t"
    using s1(2) by (intro th_ok_unqueued) (auto simp: rt_sched_thread_close_def unqueued_def stat_simps)
  ultimately have "kinv (rt_sched_thread_close t ?s2)"
    using kinv_except_add [of t "{}" "rt_sched_thread_close t ?s2"] by (simp add: kinv_def)
  moreover have "locked ?s1" using assms(2) by simp
  ultimately show ?thesis
    using False by (simp add: rt_thread_close_def rt_sched_thread_get_stat_def Let_def rt_timer_detach_locked)
qed (simp add: rt_thread_close_def rt_sched_thread_get_stat_def assms)

lemma arm_thread_timer_kinv: "kinv s \<Longrightarrow> kinv (arm_thread_timer t time s)"
  by (simp add: arm_thread_timer_def rt_timer_ops_kinv)

lemma thread_sleep_enter_kinv: "kinv s \<Longrightarrow> kinv (snd (thread_sleep_enter tk t s))"
proof -
  assume k: "kinv s"
  have "kinv (snd (rt_thread_suspend_with_flag t RT_INTERRUPTIBLE (rt_enter_critical (set_th_error t RT_EOK s))))"
    unfolding rt_thread_suspend_with_flag_def by (rule rt_thread_suspend_to_list_kinv) (use k in auto)
  with k show ?thesis
    by (auto simp: thread_sleep_enter_def Let_def split: prod.splits
        intro!: rt_exit_critical_kinv rt_schedule_kinv arm_thread_timer_kinv)
qed

lemma thread_sleep_resume_kinv: "kinv s \<Longrightarrow> kinv (snd (thread_sleep_resume t s))"
  by (simp add: thread_sleep_resume_def)

lemma rt_thread_delay_until_kinv:
  assumes "kinv s"
  shows "kinv (snd (snd (rt_thread_delay_until_enter tk inc t s)))"
    and "kinv (snd (rt_thread_delay_until_resume t s))"
proof -
  have "kinv (snd (rt_thread_suspend_with_flag t RT_UNINTERRUPTIBLE (rt_enter_critical (set_th_error t RT_EOK s))))"
    unfolding rt_thread_suspend_with_flag_def by (rule rt_thread_suspend_to_list_kinv) (use assms in auto)
  then show "kinv (snd (snd (rt_thread_delay_until_enter tk inc t s)))"
    using assms by (auto simp: rt_thread_delay_until_enter_def Let_def
        intro!: rt_exit_critical_kinv arm_thread_timer_kinv)
  show "kinv (snd (rt_thread_delay_until_resume t s))"
    using rt_schedule_kinv [OF assms] by (simp add: rt_thread_delay_until_resume_def Let_def)
qed

section \<open>Functional behaviour\<close>

lemma prio_insert_eq:
  "prio_insert p t xs = takeWhile (\<lambda>n. p n \<le> p t) xs @ t # dropWhile (\<lambda>n. p n \<le> p t) xs"
  by (induction xs) (auto simp: not_less)

text \<open>A wait list in priority order stays in priority order when a thread is put into it with
  \<^verbatim>\<open>RT_IPC_FLAG_PRIO\<close>, and the thread comes after all waiting threads of its own priority; with
  \<^verbatim>\<open>RT_IPC_FLAG_FIFO\<close> it comes last.\<close>

theorem rt_susp_list_enqueue_order:
  "let s' = snd (rt_susp_list_enqueue q t RT_IPC_FLAG_PRIO s) in
     (sorted (map (prio s) (queues s q)) \<longrightarrow> sorted (map (prio s') (queues s' q))) \<and>
     queues s' q = takeWhile (\<lambda>n. prio s n \<le> prio s t) (queues s q) @ t #
       dropWhile (\<lambda>n. prio s n \<le> prio s t) (queues s q) \<and>
     queues (snd (rt_susp_list_enqueue q t RT_IPC_FLAG_FIFO s)) q = queues s q @ [t]"
  using takeWhile_insert_sorted [of "prio s" "queues s q" t]
  by (simp add: rt_susp_list_enqueue_def RT_IPC_FLAG_FIFO_def RT_IPC_FLAG_PRIO_def
      rt_sched_thread_get_curr_prio_def prio_insert_eq)

theorem rt_susp_list_enqueue_order_witness:
  "queues (snd (rt_susp_list_enqueue (Sem_Q 0) 3 RT_IPC_FLAG_PRIO
     (demo_kernel\<lparr>queues := (\<lambda>_. [])(Sem_Q 0 := [2, 0])\<rparr>))) (Sem_Q 0) = [2, 3, 0]"
  using rt_susp_list_enqueue_order [of "Sem_Q 0" 3 "demo_kernel\<lparr>queues := (\<lambda>_. [])(Sem_Q 0 := [2, 0])\<rparr>"]
  by (simp add: Let_def)

lemma timer_active_cong: "timers s' = timers s \<Longrightarrow> timer_active s' x = timer_active s x"
  by (simp add: timer_active_def)

lemma rt_timer_stop_result:
  assumes "kinv s"
  shows "fst (rt_timer_stop x s) = (if timer_active s x then RT_EOK else - RT_ERROR)"
    and "\<not> timer_active (snd (rt_timer_stop x s)) x"
    and "timer_list (snd (rt_timer_stop x s)) =
      (if timer_active s x then filter (\<lambda>y. y \<noteq> x) (timer_list s) else timer_list s)"
proof -
  let ?s1 = "rt_enter_critical s"
  have e: "timer_active ?s1 x = timer_active s x" "timer_list ?s1 = timer_list s"
    by (simp_all add: rt_enter_critical_def timer_active_def)
  have k: "kinv ?s1" "kinv (timer_deactivate x (timer_remove x ?s1))" using assms by simp_all
  have x: "timers (rt_exit_critical s') = timers s'" "timer_list (rt_exit_critical s') = timer_list s'"
    if "kinv s'" for s'
    using rt_exit_critical_same(1) [OF that] by (auto simp: sched_same_def)
  show "fst (rt_timer_stop x s) = (if timer_active s x then RT_EOK else - RT_ERROR)"
    using e by (simp add: rt_timer_stop_def spin_defs Let_def)
  show "\<not> timer_active (snd (rt_timer_stop x s)) x"
    using e timer_active_cong [OF x(1) [OF k(1)], of x] timer_active_cong [OF x(1) [OF k(2)], of x]
    by (auto simp: rt_timer_stop_def spin_defs Let_def)
  show "timer_list (snd (rt_timer_stop x s)) =
      (if timer_active s x then filter (\<lambda>y. y \<noteq> x) (timer_list s) else timer_list s)"
    using e x(2) [OF k(1)] x(2) [OF k(2)] by (simp add: rt_timer_stop_def spin_defs Let_def)
qed

text \<open>\<^verbatim>\<open>rt_sched_thread_ready\<close> makes every suspended thread whose pending timeout is armed (or that has
  none) ready: it leaves its wait list, its timer is stopped, and it is in the ready table at its
  priority (or running, if it had not yet given up the processor).  Any other thread is left alone
  with \<^verbatim>\<open>-RT_EINVAL\<close>.\<close>

theorem rt_sched_thread_ready_correct:
  assumes "kinv s" and "sched_flag_ttmr_set (threads s t) \<longrightarrow> timer_active s (Thread_Timer t)"
  shows "let (err, s') = rt_sched_thread_ready t s in
     kinv s' \<and>
     (if susp s t then
        err = RT_EOK \<and> \<not> susp s' t \<and> (\<forall>q. \<not> is_ready_q q \<longrightarrow> t \<notin> set (queues s' q)) \<and>
        (sched_flag_ttmr_set (threads s t) \<longrightarrow>
           \<not> timer_active s' (Thread_Timer t) \<and> \<not> sched_flag_ttmr_set (threads s' t)) \<and>
        (st s' t = RT_THREAD_READY \<and> t \<in> set (queues s' (Ready_Q (prio s' t))) \<or>
         st s' t = RT_THREAD_RUNNING \<and> current_thread s' = Some t)
      else err = - RT_EINVAL \<and> s' = s)"
proof (cases "susp s t")
  case False
  then show ?thesis
    using assms(1) by (simp add: rt_sched_thread_ready_def rt_sched_thread_is_suspended_def)
next
  case True
  define s1 where "s1 = (if sched_flag_ttmr_set (threads s t) then snd (rt_sched_thread_timer_stop t s) else s)"
  have k1: "kinv s1" "susp s1 t"
    using rt_sched_thread_timer_stop_kinv [OF assms(1), of t] assms(1) True by (auto simp: s1_def)
  have t1: "sched_flag_ttmr_set (threads s t) \<Longrightarrow> \<not> timer_active s1 (Thread_Timer t) \<and> \<not> sched_flag_ttmr_set (threads s1 t)"
    using rt_timer_stop_result(2) [OF assms(1), of "Thread_Timer t"]
    by (auto simp: s1_def rt_sched_thread_timer_stop_def Let_def timer_active_def split: prod.splits)
  have eq: "rt_sched_thread_ready t s = (RT_EOK, wake t s1)"
    using True assms(2) rt_timer_stop_result(1) [OF assms(1), of "Thread_Timer t"]
    by (auto simp: rt_sched_thread_ready_def rt_sched_thread_is_suspended_def Let_def wake_def s1_def
        rt_sched_thread_timer_stop_def split: prod.splits)
  have kw: "kinv (wake t s1)" by (rule wake_kinv [OF k1])
  have st': "st (wake t s1) t = (if current_thread s1 = Some t then RT_THREAD_RUNNING else RT_THREAD_READY)"
    by (simp add: wake_def rt_sched_insert_thread_threads stat_simps)
  then have ns: "\<not> susp (wake t s1) t"
    using is_susp_not_active [of "th_stat (threads (wake t s1) t)"] by (auto split: if_splits)
  have q: "t \<notin> set (queues (wake t s1) q)" if "\<not> is_ready_q q" for q
    using that by (simp add: wake_def rt_sched_insert_thread_queues)
  have r: "st (wake t s1) t = RT_THREAD_READY \<and> t \<in> set (queues (wake t s1) (Ready_Q (prio (wake t s1) t))) \<or>
      st (wake t s1) t = RT_THREAD_RUNNING \<and> current_thread (wake t s1) = Some t"
    using kinvD(1) [OF kw, of t] st' by (auto simp: th_ok_def stat_simps)
  have tw: "timer_active (wake t s1) (Thread_Timer t) = timer_active s1 (Thread_Timer t)"
    "sched_flag_ttmr_set (threads (wake t s1) t) = sched_flag_ttmr_set (threads s1 t)"
    by (simp_all add: wake_def timer_active_def rt_sched_insert_thread_threads)
  show ?thesis using True kw ns q r tw t1 by (simp add: eq)
qed

definition demo_waiting :: kernel where
  "demo_waiting = demo_kernel\<lparr>
     threads := (threads demo_kernel)(4 := (demo_thread RT_THREAD_SUSPEND_INTERRUPTIBLE 8)\<lparr>sched_flag_ttmr_set := True\<rparr>),
     queues := (queues demo_kernel)(Sem_Q 0 := [4]),
     timers := (timers demo_kernel)(Thread_Timer 4 := \<lparr>tm_flag = 9, tm_init_tick = 5, tm_timeout_tick = 5,
       tm_timeout_func = 0, tm_parameter = 4\<rparr>),
     timer_list := [Thread_Timer 4]\<rparr>"

lemma demo_waiting_kinv: "kinv demo_waiting"
proof -
  let ?s1 = "upd_thread 4 (\<lambda>_. (demo_thread RT_THREAD_SUSPEND_INTERRUPTIBLE 8)\<lparr>sched_flag_ttmr_set := True\<rparr>) demo_kernel"
  have k: "kinv_except {4} ?s1"
    using demo_kernel_kinv by (intro upd_thread_kinv_except) (auto simp: kinv_def intro: kinv_except_mono)
  have "kinv (?s1\<lparr>queues := (queues ?s1)(Sem_Q 0 := [4])\<rparr>)"
    by (rule enqueue_kinv [OF k]) (auto simp: unqueued_def stat_simps mask_ok_def is_ready_q_def split: if_splits)
  then show ?thesis
    by (rule iffD1 [OF kinv_cong, rotated -1]) (simp_all add: demo_waiting_def upd_thread_def)
qed

theorem rt_sched_thread_ready_correct_witness:
  "fst (rt_sched_thread_ready 4 demo_waiting) = RT_EOK \<and>
   \<not> timer_active (snd (rt_sched_thread_ready 4 demo_waiting)) (Thread_Timer 4)"
proof -
  have "susp demo_waiting 4" "sched_flag_ttmr_set (threads demo_waiting 4)" "timer_active demo_waiting (Thread_Timer 4)"
    by (simp_all add: demo_waiting_def stat_simps timer_active_def timer_flag_defs)
  with rt_sched_thread_ready_correct [OF demo_waiting_kinv, of 4] show ?thesis
    by (simp add: Let_def split: prod.splits)
qed

end
