(* ===== verification/Clock.thy ===== *)
theory Clock
  imports Thread
begin

unbundle bit_operations_syntax

text \<open>
  The tick: \<^verbatim>\<open>src/clock.c\<close>, the interrupt nesting of \<^verbatim>\<open>src/irq.c\<close> and \<^verbatim>\<open>_timer_check\<close> of \<^verbatim>\<open>src/timer.c\<close>.
  The timeout functions of the application's timers are code outside the kernel: they are the
  parameter \<open>cb\<close>, a state transformer for each timer, and the theorems say what they assume of them:
  that the check returns is proved for functions that may stop and start timers and wake threads
  (\<open>polite\<close>); which timers a check fires, and what becomes of the threads, for functions that do
  not operate on timers or threads (\<open>quiet\<close>, \<open>inert\<close>).  The timeout of a waiting thread
  is the kernel's own \<^verbatim>\<open>_thread_timeout\<close>.  The loop is a partial function: that it returns is proved.
\<close>

section \<open>Operations\<close>

definition rt_interrupt_enter :: "kernel \<Rightarrow> kernel" where
  "rt_interrupt_enter s = s\<lparr>interrupt_nest := u32_add (interrupt_nest s) 1\<rparr>"

definition rt_interrupt_leave :: "kernel \<Rightarrow> kernel" where
  "rt_interrupt_leave s = s\<lparr>interrupt_nest := u32_sub (interrupt_nest s) 1\<rparr>"

definition rt_interrupt_get_nest :: "kernel \<Rightarrow> nat" where
  "rt_interrupt_get_nest s = interrupt_nest s mod 256"

definition rt_tick_get :: "kernel \<Rightarrow> rt_tick_t" where
  "rt_tick_get s = tick s"

definition rt_tick_set :: "rt_tick_t \<Rightarrow> kernel \<Rightarrow> kernel" where
  "rt_tick_set v s = s\<lparr>tick := v\<rparr>"

definition timeout_func :: "(nat \<Rightarrow> kernel \<Rightarrow> kernel) \<Rightarrow> timer_id \<Rightarrow> kernel \<Rightarrow> kernel" where
  "timeout_func cb x = (case x of Thread_Timer t \<Rightarrow> thread_timeout t | Obj_Timer n \<Rightarrow> cb n)"

definition timer_expired :: "kernel \<Rightarrow> timer_id \<Rightarrow> bool" where
  "timer_expired s x \<longleftrightarrow> rt_tick_get s - tm_timeout_tick (timers s x) < half_tick"

text \<open>One turn of the loop for the expired timer \<open>x\<close> at the head of the list.\<close>

definition timer_fire :: "(nat \<Rightarrow> kernel \<Rightarrow> kernel) \<Rightarrow> timer_id \<Rightarrow> kernel \<Rightarrow> kernel" where
  "timer_fire cb x s =
     (let s1 = timer_remove x s;
          s2 = (if \<not> timer_periodic s1 x then timer_deactivate x s1 else s1);
          s3 = rt_spin_unlock_irqrestore (s2\<lparr>timer_check_list := x # timer_check_list s2\<rparr>);
          s4 = rt_spin_lock_irqsave (timeout_func cb x s3)
      in if timer_check_list s4 = [] then s4
         else
           (let s5 = timer_remove x s4
            in if timer_periodic s5 x \<and> timer_active s5 x then timer_start x (timer_deactivate x s5) else s5))"

partial_function (option) timer_check_loop :: "(nat \<Rightarrow> kernel \<Rightarrow> kernel) \<Rightarrow> kernel \<Rightarrow> kernel option" where
  "timer_check_loop cb s =
     (case timer_list s of
        [] \<Rightarrow> Some s
      | x # _ \<Rightarrow> if timer_expired s x then timer_check_loop cb (timer_fire cb x s) else Some s)"

definition rt_timer_check :: "(nat \<Rightarrow> kernel \<Rightarrow> kernel) \<Rightarrow> kernel \<Rightarrow> kernel option" where
  "rt_timer_check cb s =
     map_option rt_spin_unlock_irqrestore
       (timer_check_loop cb ((rt_spin_lock_irqsave s)\<lparr>timer_check_list := []\<rparr>))"

definition rt_tick_increase :: "(nat \<Rightarrow> kernel \<Rightarrow> kernel) \<Rightarrow> kernel \<Rightarrow> kernel option" where
  "rt_tick_increase cb s = rt_timer_check cb (rt_sched_tick_increase 1 (s\<lparr>tick := tick s + 1\<rparr>))"

definition rt_tick_increase_tick :: "(nat \<Rightarrow> kernel \<Rightarrow> kernel) \<Rightarrow> rt_tick_t \<Rightarrow> kernel \<Rightarrow> kernel option" where
  "rt_tick_increase_tick cb n s =
     rt_timer_check cb (rt_sched_tick_increase (unat n) (s\<lparr>tick := tick s + n\<rparr>))"

definition rt_tick_get_millisecond :: "kernel \<Rightarrow> rt_tick_t" where
  "rt_tick_get_millisecond s = rt_tick_get s * (1000 div 1000)"

section \<open>Timeout functions that leave the timers alone\<close>

definition timers_same :: "kernel \<Rightarrow> kernel \<Rightarrow> bool" where
  "timers_same s s' \<longleftrightarrow> timers s' = timers s \<and> timer_list s' = timer_list s \<and>
     timer_check_list s' = timer_check_list s \<and> tick s' = tick s"

lemma timers_same_trans: "timers_same s s' \<Longrightarrow> timers_same s' s'' \<Longrightarrow> timers_same s s''"
  by (simp add: timers_same_def)

lemma sched_same_timers: "sched_same (relock n s) s' \<Longrightarrow> timers_same s s'"
  by (simp add: sched_same_def timers_same_def)

definition quiet :: "(nat \<Rightarrow> kernel \<Rightarrow> kernel) \<Rightarrow> bool" where
  "quiet cb \<longleftrightarrow> (\<forall>n s. kinv s \<longrightarrow> kinv (cb n s) \<and> timers_same s (cb n s) \<and> (\<forall>t. susp s t \<longrightarrow> susp (cb n s) t))"

lemma quiet_id: "quiet (\<lambda>_ s. s)"
  by (simp add: quiet_def timers_same_def)

lemma thread_timeout_timers: 
  assumes "kinv s" and "susp s t"
  shows "timers_same s (thread_timeout t s)"
    and "t' \<noteq> t \<Longrightarrow> susp s t' \<Longrightarrow> susp (thread_timeout t s) t'"
    and "\<not> susp (thread_timeout t s) t" and "th_error (threads (thread_timeout t s) t) = - RT_ETIMEOUT"
    and "t' \<noteq> t \<Longrightarrow> th_error (threads (thread_timeout t s) t') = th_error (threads s t')"
proof -
  let ?s1 = "wake t (set_th_error t (- RT_ETIMEOUT) s)"
  have k: "kinv ?s1" by (rule wake_kinv) (use assms in simp_all)
  have eq: "thread_timeout t s = (if current_thread ?s1 = None then ?s1 else rt_schedule ?s1)"
    by (simp add: thread_timeout_def wake_def rt_sched_unlock_n_resched_def)
  note same = rt_schedule_same [OF k]
  have s1: "timers_same s ?s1" "\<And>t'. t' \<noteq> t \<Longrightarrow> threads ?s1 t' = threads s t'"
    "th_error (threads ?s1 t) = - RT_ETIMEOUT"
    "st ?s1 t = (if current_thread s = Some t then RT_THREAD_RUNNING else RT_THREAD_READY)"
    by (auto simp: timers_same_def wake_def rt_sched_insert_thread_threads stat_simps deq_node_def)
  have "timers_same ?s1 (rt_schedule ?s1)"
    using same(1) by (simp add: sched_same_def timers_same_def)
  then show "timers_same s (thread_timeout t s)" using s1(1) timers_same_trans by (auto simp: eq)
  show "t' \<noteq> t \<Longrightarrow> susp s t' \<Longrightarrow> susp (thread_timeout t s) t'"
    using same(2) [of t'] s1(2) [of t'] by (simp add: eq)
  show "\<not> susp (thread_timeout t s) t"
    using same(2) [of t] s1(4) is_susp_not_active [of "th_stat (threads ?s1 t)"] by (auto simp: eq split: if_splits)
  show "th_error (threads (thread_timeout t s) t) = - RT_ETIMEOUT"
    using s1(3) sched_same_fields(3) [OF same(1)] by (simp add: eq)
  show "t' \<noteq> t \<Longrightarrow> th_error (threads (thread_timeout t s) t') = th_error (threads s t')"
    using s1(2) [of t'] sched_same_fields(3) [OF same(1)] by (simp add: eq)
qed

section \<open>One turn of the loop\<close>

lemma timer_periodic_cong: "timers s' = timers s \<Longrightarrow> timer_periodic s' x = timer_periodic s x"
  by (simp add: timer_periodic_def)

lemma timer_periodic_simps [simp]:
  "timer_periodic (timer_remove x s) y = timer_periodic s y"
  "timer_periodic (timer_deactivate x s) y = timer_periodic s y"
  "timer_periodic (timer_start x s) y = timer_periodic s y"
proof -
  have keep: "(f AND NOT 1) AND 2 = f AND (2 :: u8)" "(f OR 1) AND 2 = f AND (2 :: u8)" for f
    by (rule u8_eqI; auto simp: u8_bits)+
  then have keep': "(f AND NOT 1 OR 1) AND 2 = f AND (2 :: u8)" for f by simp
  show "timer_periodic (timer_deactivate x s) y = timer_periodic s y"
    unfolding timer_periodic_def timer_deactivate_def timer_flag_defs using keep(1) by simp
  show "timer_periodic (timer_start x s) y = timer_periodic s y"
    unfolding timer_periodic_def timer_start_def timer_activate_def timer_deactivate_def timer_flag_defs Let_def
    using keep' by simp
qed (simp add: timer_periodic_def)

lemma timer_start_init_tick [simp]: "tm_init_tick (timers (timer_start x s) y) = tm_init_tick (timers s y)"
  by (simp add: timer_start_def timer_activate_def timer_deactivate_def Let_def)

lemma timer_deactivate_ticks [simp]:
  "tm_timeout_tick (timers (timer_deactivate x s) y) = tm_timeout_tick (timers s y)"
  "tm_init_tick (timers (timer_deactivate x s) y) = tm_init_tick (timers s y)"
  by (simp_all add: timer_deactivate_def)

text \<open>The states in which the loop runs.\<close>

definition fire_ok :: "kernel \<Rightarrow> bool" where
  "fire_ok s \<longleftrightarrow> kinv s \<and> distinct (timer_list s) \<and> timer_check_list s = [] \<and>
     (\<forall>t. Thread_Timer t \<in> set (timer_list s) \<longrightarrow> susp s t \<and> \<not> timer_periodic s (Thread_Timer t))"

definition check_ok :: "kernel \<Rightarrow> bool" where
  "check_ok s \<longleftrightarrow> fire_ok s \<and>
     (\<forall>x \<in> set (timer_list s). timer_periodic s x \<longrightarrow> 0 < tm_init_tick (timers s x) \<and> tm_init_tick (timers s x) < half_tick)"

text \<open>Everything up to the point where the timeout function has returned.\<close>

lemma timer_fire_call:
  assumes "fire_ok s" and "quiet cb" and "timer_list s = x # xs"
    and s2_def: "s2 = (if \<not> timer_periodic s x then timer_deactivate x (timer_remove x s) else timer_remove x s)"
    and s4_def: "s4 = rt_spin_lock_irqsave (timeout_func cb x
      (rt_spin_unlock_irqrestore (s2\<lparr>timer_check_list := x # timer_check_list s2\<rparr>)))"
  shows "kinv s4" and "timers s4 = timers s2" and "timer_list s4 = xs" and "timer_check_list s4 = [x]"
    and "tick s4 = tick s"
    and "\<And>t. susp s t \<Longrightarrow> x \<noteq> Thread_Timer t \<Longrightarrow> susp s4 t"
    and "\<And>t. x = Thread_Timer t \<Longrightarrow> \<not> susp s4 t \<and> th_error (threads s4 t) = - RT_ETIMEOUT"
    and "\<And>t t'. x = Thread_Timer t' \<Longrightarrow> t \<noteq> t' \<Longrightarrow> th_error (threads s4 t) = th_error (threads s t)"
proof -
  define s2' where "s2' = s2\<lparr>timer_check_list := x # timer_check_list s2\<rparr>"
  define s3 where "s3 = rt_exit_critical s2'"
  have k: "kinv s" and xs: "x \<notin> set xs" "timer_check_list s = []"
    and ths: "\<And>t. x = Thread_Timer t \<Longrightarrow> susp s t"
    using assms(1,3) by (auto simp: fire_ok_def)
  have k2: "kinv s2'" using k by (simp add: s2'_def s2_def)
  have th2: "threads s2' = threads s" by (simp add: s2'_def s2_def)
  have k3: "kinv s3" using rt_exit_critical_kinv [OF k2] by (simp add: s3_def)
  note same3 = rt_exit_critical_same [OF k2]
  have tm3: "timers_same s2' s3" using same3(1) sched_same_timers by (auto simp: s3_def)
  have su3: "susp s3 t = susp s t" for t using same3(2) th2 by (simp add: s3_def)
  have er3: "th_error (threads s3 t) = th_error (threads s t)" for t
    using same3(1) th2 sched_same_fields(3) by (metis relock_simps(8) s3_def)
  define s4' where "s4' = timeout_func cb x s3"
  have s4: "s4 = rt_enter_critical s4'" by (simp add: s4_def s4'_def s3_def s2'_def spin_defs)
  have call: "kinv s4' \<and> timers_same s3 s4' \<and>
      (\<forall>t. susp s3 t \<longrightarrow> x \<noteq> Thread_Timer t \<longrightarrow> susp s4' t) \<and>
      (\<forall>t. x = Thread_Timer t \<longrightarrow> \<not> susp s4' t \<and> th_error (threads s4' t) = - RT_ETIMEOUT) \<and>
      (\<forall>t t'. x = Thread_Timer t' \<longrightarrow> t \<noteq> t' \<longrightarrow> th_error (threads s4' t) = th_error (threads s3 t))"
  proof (cases x)
    case (Thread_Timer u)
    then have "susp s3 u" using ths su3 by blast
    then show ?thesis
      using thread_timeout_kinv [OF k3] thread_timeout_timers [OF k3] Thread_Timer
      by (simp add: s4'_def timeout_func_def)
  next
    case (Obj_Timer n)
    then show ?thesis using assms(2) k3 by (simp add: s4'_def timeout_func_def quiet_def)
  qed
  then have k4: "kinv s4'" and tm4: "timers_same s3 s4'"
    and su4: "\<And>t. susp s3 t \<Longrightarrow> x \<noteq> Thread_Timer t \<Longrightarrow> susp s4' t"
    and fire: "\<And>t. x = Thread_Timer t \<Longrightarrow> \<not> susp s4' t \<and> th_error (threads s4' t) = - RT_ETIMEOUT"
    and er4: "\<And>t t'. x = Thread_Timer t' \<Longrightarrow> t \<noteq> t' \<Longrightarrow> th_error (threads s4' t) = th_error (threads s3 t)"
    by blast+
  have tm: "timers_same s2' s4'" using tm3 tm4 timers_same_trans by blast
  have fr: "threads s4 = threads s4'" "timers s4 = timers s4'" "timer_list s4 = timer_list s4'"
    "timer_check_list s4 = timer_check_list s4'" "tick s4 = tick s4'"
    by (simp_all add: s4 rt_enter_critical_def)
  show "kinv s4" using k4 by (simp add: s4)
  show "timers s4 = timers s2" using tm by (simp add: fr timers_same_def s2'_def)
  show "timer_list s4 = xs" using tm xs(1) assms(3) by (auto simp: fr timers_same_def s2'_def s2_def)
  show "timer_check_list s4 = [x]" using tm xs(2) by (auto simp: fr timers_same_def s2'_def s2_def)
  show "tick s4 = tick s" using tm by (auto simp: fr timers_same_def s2'_def s2_def)
  show "\<And>t. susp s t \<Longrightarrow> x \<noteq> Thread_Timer t \<Longrightarrow> susp s4 t" using su3 su4 by (simp add: fr)
  show "\<And>t. x = Thread_Timer t \<Longrightarrow> \<not> susp s4 t \<and> th_error (threads s4 t) = - RT_ETIMEOUT"
    using fire by (simp add: fr)
  show "\<And>t t'. x = Thread_Timer t' \<Longrightarrow> t \<noteq> t' \<Longrightarrow> th_error (threads s4 t) = th_error (threads s t)"
    using er3 er4 by (simp add: fr)
qed

lemma timer_fire_result:
  assumes "fire_ok s" and "quiet cb" and "timer_list s = x # xs" and "timer_active s x"
  defines "s' \<equiv> timer_fire cb x s"
  shows "kinv s'" and "tick s' = tick s" and "timer_check_list s' = []"
    and "timer_list s' =
      (if timer_periodic s x
       then timer_insert_walk (\<lambda>y. if y = x then tick s + tm_init_tick (timers s x)
                                   else tm_timeout_tick (timers s y)) x xs
       else xs)"
    and "tm_timeout_tick (timers s' y) =
      (if y = x \<and> timer_periodic s x then tick s + tm_init_tick (timers s x) else tm_timeout_tick (timers s y))"
    and "tm_init_tick (timers s' y) = tm_init_tick (timers s y)"
    and "timer_periodic s' y = timer_periodic s y"
    and "timer_active s' y \<longleftrightarrow> (if y = x then timer_periodic s x else timer_active s y)"
    and "\<And>t. susp s t \<Longrightarrow> x \<noteq> Thread_Timer t \<Longrightarrow> susp s' t"
    and "\<And>t. x = Thread_Timer t \<Longrightarrow> \<not> susp s' t \<and> th_error (threads s' t) = - RT_ETIMEOUT"
    and "\<And>t t'. x = Thread_Timer t' \<Longrightarrow> t \<noteq> t' \<Longrightarrow> th_error (threads s' t) = th_error (threads s t)"
proof -
  define s2 where "s2 = (if \<not> timer_periodic s x then timer_deactivate x (timer_remove x s) else timer_remove x s)"
  define s4 where "s4 = rt_spin_lock_irqsave (timeout_func cb x
      (rt_spin_unlock_irqrestore (s2\<lparr>timer_check_list := x # timer_check_list s2\<rparr>)))"
  note c = timer_fire_call [OF assms(1-3) s2_def s4_def]
  have x: "x \<notin> set xs" using assms(1,3) by (simp add: fire_ok_def)
  have p4: "timer_periodic s4 y = timer_periodic s y" for y
    using timer_periodic_cong [OF c(2)] by (simp add: s2_def)
  have a4: "timer_active s4 y \<longleftrightarrow> (if y = x then timer_periodic s x else timer_active s y)" for y
    using timer_active_cong [OF c(2)] assms(4) by (auto simp: s2_def)
  have t4: "tm_timeout_tick (timers s4 y) = tm_timeout_tick (timers s y)"
    "tm_init_tick (timers s4 y) = tm_init_tick (timers s y)" for y
    by (simp_all add: c(2) s2_def)
  have eq: "s' = (if timer_periodic s x then timer_start x (timer_deactivate x (timer_remove x s4))
      else timer_remove x s4)"
    using c(4) p4 a4 by (simp add: s'_def timer_fire_def Let_def s2_def [symmetric] s4_def [symmetric])
  show "kinv s'" "tick s' = tick s" "timer_check_list s' = []" using c by (auto simp: eq)
  show "timer_list s' = (if timer_periodic s x
       then timer_insert_walk (\<lambda>y. if y = x then tick s + tm_init_tick (timers s x)
                                   else tm_timeout_tick (timers s y)) x xs
       else xs)"
    using x c(3,5) t4 by (simp add: eq timer_start_list cong: if_cong)
  show "tm_timeout_tick (timers s' y) =
      (if y = x \<and> timer_periodic s x then tick s + tm_init_tick (timers s x) else tm_timeout_tick (timers s y))"
    using c(5) t4 by (simp add: eq timer_start_list)
  show "tm_init_tick (timers s' y) = tm_init_tick (timers s y)" using t4 by (simp add: eq)
  show "timer_periodic s' y = timer_periodic s y" using p4 by (simp add: eq)
  show "timer_active s' y \<longleftrightarrow> (if y = x then timer_periodic s x else timer_active s y)"
    using a4 by (auto simp: eq)
  show "\<And>t. susp s t \<Longrightarrow> x \<noteq> Thread_Timer t \<Longrightarrow> susp s' t" using c(6) by (simp add: eq)
  show "\<And>t. x = Thread_Timer t \<Longrightarrow> \<not> susp s' t \<and> th_error (threads s' t) = - RT_ETIMEOUT"
    using c(7) by (simp add: eq)
  show "\<And>t t'. x = Thread_Timer t' \<Longrightarrow> t \<noteq> t' \<Longrightarrow> th_error (threads s' t) = th_error (threads s t)"
    using c(8) by (simp add: eq)
qed

section \<open>The loop\<close>

definition expired_count :: "kernel \<Rightarrow> nat" where
  "expired_count s = card {y \<in> set (timer_list s). timer_expired s y}"

lemma not_expired_restarted: "0 < d \<Longrightarrow> d < half_tick \<Longrightarrow> \<not> (v - (v + d) < half_tick)" for v d :: rt_tick_t
proof -
  assume d: "0 < d" "d < half_tick"
  then have "d \<noteq> 0" by auto
  then have "unat (- d) = 2 ^ 32 - unat d" by (rule unat_uminus_word)
  then show ?thesis using d by (simp add: word_less_nat_alt half_tick_val)
qed

lemma check_fire: "check_ok s \<Longrightarrow> fire_ok s"
  by (simp add: check_ok_def)

lemma timer_fire_check_ok:
  assumes "check_ok s" and "quiet cb" and "timer_list s = x # xs" and "timer_active s x"
    and "\<forall>y \<in> set (timer_list s). timer_active s y"
  shows "check_ok (timer_fire cb x s)"
    and "\<forall>y \<in> set (timer_list (timer_fire cb x s)). timer_active (timer_fire cb x s) y"
    and "timer_expired s x \<Longrightarrow> expired_count (timer_fire cb x s) < expired_count s"
proof -
  note r = timer_fire_result [OF check_fire [OF assms(1)] assms(2-4)]
  let ?s' = "timer_fire cb x s"
  have c: "kinv s" "distinct (x # xs)"
    "\<And>t. Thread_Timer t \<in> set (x # xs) \<Longrightarrow> susp s t \<and> \<not> timer_periodic s (Thread_Timer t)"
    "\<And>y. y \<in> set (x # xs) \<Longrightarrow> timer_periodic s y \<Longrightarrow> 0 < tm_init_tick (timers s y) \<and> tm_init_tick (timers s y) < half_tick"
    using assms(1,3) by (auto simp: check_ok_def fire_ok_def)
  have set': "set (timer_list ?s') = (if timer_periodic s x then insert x (set xs) else set xs)"
    by (simp add: r(4))
  have d': "distinct (timer_list ?s')" using c(2) by (simp add: r(4) distinct_timer_insert_walk)
  have th: "susp ?s' t \<and> \<not> timer_periodic s (Thread_Timer t)" if "Thread_Timer t \<in> set (timer_list ?s')" for t
  proof -
    have m: "Thread_Timer t \<in> set (x # xs)" using that set' by (auto split: if_splits)
    moreover have "x \<noteq> Thread_Timer t" using that set' c(2) c(3) [OF m] by (auto split: if_splits)
    ultimately show ?thesis using c(3) r(9) by blast
  qed
  show "check_ok ?s'"
    unfolding check_ok_def fire_ok_def using r(1,3) d' th c(4) set' r(6,7) by (auto split: if_splits)
  show "\<forall>y \<in> set (timer_list ?s'). timer_active ?s' y"
    using set' r(8) assms(3,5) c(2) by (auto split: if_splits)
  show "expired_count ?s' < expired_count s" if ex: "timer_expired s x"
  proof -
    have exp: "timer_expired ?s' y = (if y = x \<and> timer_periodic s x then False else timer_expired s y)"
      if "y \<in> set (x # xs)" for y
      using not_expired_restarted c(4) [of x] that r(2,5)
      by (auto simp: timer_expired_def rt_tick_get_def)
    have "{y \<in> set (timer_list ?s'). timer_expired ?s' y} = {y \<in> set xs. timer_expired s y}"
      using set' exp c(2) by (auto split: if_splits)
    moreover have "{y \<in> set (timer_list s). timer_expired s y} = insert x {y \<in> set xs. timer_expired s y}"
      using assms(3) ex by auto
    ultimately show ?thesis using c(2) by (simp add: expired_count_def)
  qed
qed

lemma timer_check_loop_returns:
  assumes "check_ok s" and "quiet cb" and "\<forall>y \<in> set (timer_list s). timer_active s y"
  shows "\<exists>s'. timer_check_loop cb s = Some s' \<and> check_ok s' \<and>
    (\<forall>x xs. timer_list s' = x # xs \<longrightarrow> \<not> timer_expired s' x)"
  using assms(1,3)
proof (induction "expired_count s" arbitrary: s rule: less_induct)
  case less
  show ?case
  proof (cases "timer_list s")
    case Nil
    with less.prems show ?thesis by (simp add: timer_check_loop.simps)
  next
    case (Cons x xs)
    show ?thesis
    proof (cases "timer_expired s x")
      case True
      have "timer_active s x" using less.prems(2) Cons by simp
      note f = timer_fire_check_ok [OF less.prems(1) assms(2) Cons this less.prems(2)]
      from less.hyps [OF f(3) [OF True] f(1) f(2)] True Cons show ?thesis
        by (subst timer_check_loop.simps) simp
    next
      case False
      with Cons less.prems show ?thesis by (simp add: timer_check_loop.simps)
    qed
  qed
qed

text \<open>The list on the stack is empty outside the loop.\<close>

lemma rt_timer_check_eq:
  assumes "check_ok s"
  shows "rt_timer_check cb s = map_option rt_exit_critical (timer_check_loop cb (rt_enter_critical s))"
proof -
  have "(rt_enter_critical s)\<lparr>timer_check_list := []\<rparr> = rt_enter_critical s"
    using assms by (simp add: check_ok_def fire_ok_def rt_enter_critical_def)
  then show ?thesis by (simp add: rt_timer_check_def spin_defs)
qed

lemma enter_critical_check [simp]:
  "check_ok (rt_enter_critical s) = check_ok s" "fire_ok (rt_enter_critical s) = fire_ok s"
  "timer_list (rt_enter_critical s) = timer_list s" "timers (rt_enter_critical s) = timers s"
  "threads (rt_enter_critical s) = threads s" "tick (rt_enter_critical s) = tick s"
  "timer_active (rt_enter_critical s) = timer_active s"
  "timer_expired (rt_enter_critical s) = timer_expired s"
  by (auto simp: check_ok_def fire_ok_def rt_enter_critical_def fun_eq_iff timer_expired_def rt_tick_get_def
      timer_active_def timer_periodic_def kinv_def kinv_except_def queues_ok_def bitmap_ok_def th_ok_def
      mask_ok_def unqueued_def)

lemma exit_critical_timers:
  assumes "kinv s"
  shows "timer_list (rt_exit_critical s) = timer_list s" "timer_expired (rt_exit_critical s) = timer_expired s"
    "th_error (threads (rt_exit_critical s) t) = th_error (threads s t)"
    "susp (rt_exit_critical s) t = susp s t"
proof -
  obtain n where same: "sched_same (relock n s) (rt_exit_critical s)" using rt_exit_critical_same(1) [OF assms] by blast
  show "timer_list (rt_exit_critical s) = timer_list s" "timer_expired (rt_exit_critical s) = timer_expired s"
    using sched_same_timers [OF same]
    by (auto simp: timers_same_def timer_expired_def rt_tick_get_def fun_eq_iff)
  show "th_error (threads (rt_exit_critical s) t) = th_error (threads s t)"
    using sched_same_fields(3) [OF same] by simp
  show "susp (rt_exit_critical s) t = susp s t" using rt_exit_critical_same(2) [OF assms] by simp
qed

section \<open>Which timers are due\<close>

definition runnable :: "kernel \<Rightarrow> tid \<Rightarrow> bool" where
  "runnable s t \<longleftrightarrow> t \<in> set (queues s (Ready_Q (prio s t))) \<or>
     st s t = RT_THREAD_RUNNING \<and> current_thread s = Some t"

lemma runnable_stat:
  "kinv s \<Longrightarrow> runnable s t \<longleftrightarrow> st s t = RT_THREAD_READY \<or> st s t = RT_THREAD_RUNNING"
  using kinvD(1) [of s t] by (auto simp: runnable_def th_ok_def)

lemma runnable_cong:
  "queues s' = queues s \<Longrightarrow> threads s' = threads s \<Longrightarrow> current_thread s' = current_thread s \<Longrightarrow>
   runnable s' t = runnable s t"
  by (simp add: runnable_def)

lemma rt_schedule_runnable:
  assumes "kinv s"
  shows "runnable (rt_schedule s) t = runnable s t"
proof (cases "\<exists>cur. current_thread s = Some cur \<and> scheduler_lock_nest s = 0 \<and> ready_priority_group s \<noteq> 0")
  case False
  then have "rt_schedule s = s" by (auto simp: rt_schedule_def split: option.splits)
  then show ?thesis by simp
next
  case True
  then obtain cur where c: "current_thread s = Some cur" "scheduler_lock_nest s = 0"
      "ready_priority_group s \<noteq> 0" by blast
  obtain to p where hp: "scheduler_get_highest_priority_thread s = (to, p)" by fastforce
  note sc = rt_schedule_cases [OF assms c hp]
  note to = ready_in_queue [OF assms sc(1)]
  note k' = rt_schedule_kinv [OF assms]
  show ?thesis
  proof (cases "sched_keeps s cur p")
    case True
    then show ?thesis
      unfolding runnable_stat [OF assms] runnable_stat [OF k'] unfolding sc(3)
      by (auto simp: sched_keeps_def stat_simps)
  next
    case False
    then show ?thesis
      unfolding runnable_stat [OF assms] runnable_stat [OF k'] unfolding sc(3) using to(1)
      by (auto simp: sched_switch_def Let_def rt_sched_insert_thread_threads stat_simps)
  qed
qed

lemma rt_exit_critical_runnable:
  assumes "kinv s"
  shows "runnable (rt_exit_critical s) t = runnable s t"
proof -
  have k: "kinv (relock n s)" for n using assms by (simp add: relock_def)
  have r: "runnable (relock n s) t = runnable s t" for n by (rule runnable_cong) simp_all
  obtain n where "rt_exit_critical s = relock n s \<or> rt_exit_critical s = rt_schedule (relock n s)"
    unfolding rt_exit_critical_def Let_def relock_def [symmetric] by (metis relock_simps(1))
  then show ?thesis using rt_schedule_runnable [OF k] r by auto
qed

lemma thread_timeout_runnable:
  assumes "kinv s" and "susp s t"
  shows "runnable (thread_timeout t s) t" and "runnable s t' \<Longrightarrow> runnable (thread_timeout t s) t'"
proof -
  let ?s1 = "wake t (set_th_error t (- RT_ETIMEOUT) s)"
  have k: "kinv ?s1" by (rule wake_kinv) (use assms in simp_all)
  have eq: "thread_timeout t s = (if current_thread ?s1 = None then ?s1 else rt_schedule ?s1)"
    by (simp add: thread_timeout_def wake_def rt_sched_unlock_n_resched_def)
  have s1: "\<And>t'. t' \<noteq> t \<Longrightarrow> threads ?s1 t' = threads s t'"
    "st ?s1 t = (if current_thread s = Some t then RT_THREAD_RUNNING else RT_THREAD_READY)"
    by (auto simp: wake_def rt_sched_insert_thread_threads stat_simps deq_node_def)
  have r: "runnable (thread_timeout t s) u = runnable ?s1 u" for u
    using rt_schedule_runnable [OF k] by (simp add: eq)
  show "runnable (thread_timeout t s) t" unfolding r runnable_stat [OF k] using s1(2) by simp
  show "runnable s t' \<Longrightarrow> runnable (thread_timeout t s) t'"
    unfolding r runnable_stat [OF k] runnable_stat [OF assms(1)] using s1(1) [of t'] s1(2)
    by (cases "t' = t") auto
qed

text \<open>Timeout functions that, besides, touch no thread's error and suspend nobody.\<close>

definition inert :: "(nat \<Rightarrow> kernel \<Rightarrow> kernel) \<Rightarrow> bool" where
  "inert cb \<longleftrightarrow> quiet cb \<and> (\<forall>n s t. kinv s \<longrightarrow>
     th_error (threads (cb n s) t) = th_error (threads s t) \<and> (runnable s t \<longrightarrow> runnable (cb n s) t))"

lemma inert_quiet: "inert cb \<Longrightarrow> quiet cb"
  by (simp add: inert_def)

lemma timer_fire_threads:
  assumes "fire_ok s" and "inert cb" and "timer_list s = x # xs"
  defines "s' \<equiv> timer_fire cb x s"
  shows "x = Thread_Timer t \<Longrightarrow> runnable s' t" and "runnable s t \<Longrightarrow> runnable s' t"
    and "x \<noteq> Thread_Timer t \<Longrightarrow> th_error (threads s' t) = th_error (threads s t)"
proof -
  define s2 where "s2 = (if \<not> timer_periodic s x then timer_deactivate x (timer_remove x s) else timer_remove x s)"
  define s2' where "s2' = s2\<lparr>timer_check_list := x # timer_check_list s2\<rparr>"
  define s3 where "s3 = rt_exit_critical s2'"
  define s4 where "s4 = timeout_func cb x s3"
  have k: "kinv s" and ths: "\<And>t. x = Thread_Timer t \<Longrightarrow> susp s t"
    using assms(1,3) by (auto simp: fire_ok_def)
  have k2: "kinv s2'" using k by (simp add: s2'_def s2_def)
  have k3: "kinv s3" using rt_exit_critical_kinv [OF k2] by (simp add: s3_def)
  have th2: "threads s2' = threads s" "runnable s2' t = runnable s t"
    by (simp_all add: s2'_def s2_def runnable_def)
  have su3: "susp s3 t = susp s t" for t
    using exit_critical_timers(4) [OF k2] th2 by (simp add: s3_def)
  have er3: "th_error (threads s3 t) = th_error (threads s t)"
    using exit_critical_timers(3) [OF k2] th2 by (simp add: s3_def)
  have r3: "runnable s3 t = runnable s t" using rt_exit_critical_runnable [OF k2] th2 by (simp add: s3_def)
  have "(x = Thread_Timer t \<longrightarrow> runnable s4 t) \<and> (runnable s3 t \<longrightarrow> runnable s4 t) \<and>
      (x \<noteq> Thread_Timer t \<longrightarrow> th_error (threads s4 t) = th_error (threads s3 t))"
  proof (cases x)
    case (Thread_Timer u)
    then have "susp s3 u" using ths su3 by blast
    then show ?thesis
      using thread_timeout_runnable [OF k3] thread_timeout_timers(5) [OF k3] Thread_Timer
      by (auto simp: s4_def timeout_func_def)
  next
    case (Obj_Timer n)
    then show ?thesis using assms(2) k3 by (simp add: s4_def timeout_func_def inert_def)
  qed
  moreover have "threads s' = threads s4" "runnable s' t = runnable s4 t"
    by (auto simp: s'_def timer_fire_def Let_def s4_def s3_def s2'_def s2_def spin_defs rt_enter_critical_def
        runnable_def)
  ultimately show "x = Thread_Timer t \<Longrightarrow> runnable s' t" "runnable s t \<Longrightarrow> runnable s' t"
    "x \<noteq> Thread_Timer t \<Longrightarrow> th_error (threads s' t) = th_error (threads s t)"
    using r3 er3 by auto
qed

text \<open>The timer list in the order of the due times, counted from a base tick \<open>b\<close> from which everything
  on the list lies less than half the tick range away, where a periodic timer goes next included.\<close>

definition due_order :: "rt_tick_t \<Rightarrow> kernel \<Rightarrow> bool" where
  "due_order b s \<longleftrightarrow> dist b (tick s) < 2 ^ 31 - 1 \<and>
     sorted (map (\<lambda>y. dist b (tm_timeout_tick (timers s y))) (timer_list s)) \<and>
     (\<forall>y \<in> set (timer_list s). dist b (tm_timeout_tick (timers s y)) < 2 ^ 31 - 1 \<and>
        (timer_periodic s y \<longrightarrow> dist b (tick s + tm_init_tick (timers s y)) < 2 ^ 31 - 1))"

lemma expired_dist:
  assumes "due_order b s" and "y \<in> set (timer_list s)"
  shows "timer_expired s y \<longleftrightarrow> dist b (tm_timeout_tick (timers s y)) \<le> dist b (tick s)"
proof -
  have "tick s - w < half_tick \<longleftrightarrow> dist b w \<le> dist b (tick s)" if "dist b w < 2 ^ 31 - 1" for w
    using dist_later [OF _ that, of "tick s"] assms(1) dist_inject [of b w "tick s"]
    by (cases "tick s = w") (auto simp: due_order_def half_tick_val)
  then show ?thesis using assms by (simp add: timer_expired_def rt_tick_get_def due_order_def)
qed

lemma head_expired:
  assumes "due_order b s" and "filter (timer_expired s) (timer_list s) = x # ys"
  shows "\<exists>xs. timer_list s = x # xs \<and> ys = filter (timer_expired s) xs \<and> timer_expired s x"
proof (cases "timer_list s")
  case (Cons y xs)
  have "timer_expired s y"
  proof (rule ccontr)
    assume n: "\<not> timer_expired s y"
    have "x \<in> set xs" "timer_expired s x"
      using assms(2) Cons n by (auto simp: filter_eq_Cons_iff)
    then show False
      using assms(1) Cons n expired_dist [OF assms(1), of x] expired_dist [OF assms(1), of y]
      by (fastforce simp: due_order_def)
  qed
  then show ?thesis using assms(2) Cons by simp
qed (use assms(2) in simp)

lemma walk_filter: "\<not> P x \<Longrightarrow> filter P (timer_insert_walk tmo x ys) = filter P ys"
  by (induction ys) auto


lemma due_order_fire:
  assumes "check_ok s" and "quiet cb" and "\<forall>y \<in> set (timer_list s). timer_active s y"
    and "due_order b s" and "timer_list s = x # xs"
  shows "due_order b (timer_fire cb x s)"
    and "timer_expired s x \<Longrightarrow> filter (timer_expired (timer_fire cb x s)) (timer_list (timer_fire cb x s)) =
      filter (timer_expired s) xs"
proof -
  let ?s' = "timer_fire cb x s"
  let ?tmo = "\<lambda>y. if y = x then tick s + tm_init_tick (timers s x) else tm_timeout_tick (timers s y)"
  have act: "timer_active s x" using assms(3,5) by simp
  note r = timer_fire_result [OF check_fire [OF assms(1)] assms(2,5) act]
  have x: "x \<notin> set xs" using assms(1,5) by (simp add: check_ok_def fire_ok_def)
  have d: "dist b (tick s) < 2 ^ 31 - 1" "\<And>y. y \<in> set (x # xs) \<Longrightarrow> dist b (tm_timeout_tick (timers s y)) < 2 ^ 31 - 1"
    "\<And>y. y \<in> set (x # xs) \<Longrightarrow> timer_periodic s y \<Longrightarrow> dist b (tick s + tm_init_tick (timers s y)) < 2 ^ 31 - 1"
    "sorted (map (\<lambda>y. dist b (tm_timeout_tick (timers s y))) xs)"
    using assms(4,5) by (auto simp: due_order_def)
  have eqx: "tm_timeout_tick (timers ?s' y) = tm_timeout_tick (timers s y)" if "y \<noteq> x" for y
    using that r(5) by simp
  have mx: "map (\<lambda>y. dist b (?tmo y)) xs = map (\<lambda>y. dist b (tm_timeout_tick (timers s y))) xs"
    using x by auto
  show "due_order b ?s'"
  proof (cases "timer_periodic s x")
    case True
    have l: "timer_list ?s' = takeWhile (\<lambda>y. dist b (?tmo y) \<le> dist b (?tmo x)) xs @ x #
        dropWhile (\<lambda>y. dist b (?tmo y) \<le> dist b (?tmo x)) xs"
      unfolding r(4) using True x d(2,3) by (subst timer_insert_walk_eq [of b, symmetric]) auto
    have "sorted (map (\<lambda>y. dist b (?tmo y)) (timer_list ?s'))"
      unfolding l by (intro takeWhile_insert_sorted) (unfold mx, rule d(4))
    moreover have "(\<lambda>y. dist b (tm_timeout_tick (timers ?s' y))) = (\<lambda>y. dist b (?tmo y))"
      using True r(5) by auto
    ultimately have "sorted (map (\<lambda>y. dist b (tm_timeout_tick (timers ?s' y))) (timer_list ?s'))" by simp
    moreover have "set (timer_list ?s') = insert x (set xs)" using True by (simp add: r(4))
    ultimately show ?thesis using True d r(2,5,6,7) by (auto simp: due_order_def)
  next
    case False
    then have "map (\<lambda>y. dist b (tm_timeout_tick (timers ?s' y))) (timer_list ?s') =
        map (\<lambda>y. dist b (tm_timeout_tick (timers s y))) xs" using r(4,5) by simp
    then show ?thesis using False d r(2,4-7) by (auto simp: due_order_def)
  qed
  show "filter (timer_expired ?s') (timer_list ?s') = filter (timer_expired s) xs" if "timer_expired s x"
  proof -
    have "timer_expired ?s' y = timer_expired s y" if "y \<in> set xs" for y
    proof -
      have "y \<noteq> x" using that x by blast
      then show ?thesis using eqx r(2) by (simp add: timer_expired_def rt_tick_get_def)
    qed
    then have f: "filter (timer_expired ?s') xs = filter (timer_expired s) xs" by (simp cong: filter_cong)
    show ?thesis
    proof (cases "timer_periodic s x")
      case True
      have "0 < tm_init_tick (timers s x) \<and> tm_init_tick (timers s x) < half_tick"
        using assms(1,5) True by (simp add: check_ok_def)
      then have "\<not> timer_expired ?s' x"
        using True r(2,5) not_expired_restarted by (simp add: timer_expired_def rt_tick_get_def)
      then show ?thesis using True f by (simp add: r(4) walk_filter)
    qed (use f in \<open>simp add: r(4)\<close>)
  qed
qed

text \<open>What a check at the current tick changes: \<open>E\<close> are the timers that were due.\<close>

definition expiry_done :: "timer_id set \<Rightarrow> kernel \<Rightarrow> kernel \<Rightarrow> bool" where
  "expiry_done E s s' \<longleftrightarrow>
     set (timer_list s') = {y \<in> set (timer_list s). y \<in> E \<longrightarrow> timer_periodic s y} \<and>
     (\<forall>y. tm_timeout_tick (timers s' y) =
        (if y \<in> E \<and> timer_periodic s y then tick s + tm_init_tick (timers s y) else tm_timeout_tick (timers s y))) \<and>
     (\<forall>t. Thread_Timer t \<in> E \<longrightarrow> th_error (threads s' t) = - RT_ETIMEOUT \<and> runnable s' t) \<and>
     (\<forall>t. Thread_Timer t \<notin> E \<longrightarrow> th_error (threads s' t) = th_error (threads s t) \<and> (susp s t \<longrightarrow> susp s' t))"

lemma expiry_done_step:
  assumes "check_ok s" and "inert cb" and "\<forall>y \<in> set (timer_list s). timer_active s y"
    and "timer_list s = x # xs" and "x \<notin> E" and "E \<subseteq> set xs"
    and "expiry_done E (timer_fire cb x s) s'" and "\<And>t. runnable (timer_fire cb x s) t \<Longrightarrow> runnable s' t"
  shows "expiry_done (insert x E) s s'" and "\<And>t. runnable s t \<Longrightarrow> runnable s' t"
proof -
  have act: "timer_active s x" using assms(3,4) by simp
  note r = timer_fire_result [OF check_fire [OF assms(1)] inert_quiet [OF assms(2)] assms(4) act]
  note th = timer_fire_threads [OF check_fire [OF assms(1)] assms(2,4)]
  have x: "x \<notin> set xs" using assms(1,4) by (simp add: check_ok_def fire_ok_def)
  have set': "set (timer_list (timer_fire cb x s)) = (if timer_periodic s x then insert x (set xs) else set xs)"
    by (simp add: r(4))
  show "\<And>t. runnable s t \<Longrightarrow> runnable s' t" using th(2) assms(8) by blast
  note e = assms(7) [unfolded expiry_done_def]
  have "set (timer_list s') = {y \<in> set (timer_list s). y \<in> insert x E \<longrightarrow> timer_periodic s y}"
    using e x assms(4,5) set' r(7) by auto
  moreover have "tm_timeout_tick (timers s' y) = (if y \<in> insert x E \<and> timer_periodic s y
      then tick s + tm_init_tick (timers s y) else tm_timeout_tick (timers s y))" for y
    using e r(2,5,6,7) assms(5) by auto
  moreover have "th_error (threads s' t) = - RT_ETIMEOUT \<and> runnable s' t" if "Thread_Timer t \<in> insert x E" for t
    using e that r(10) [of t] th(1) [of t] assms(5,8) by (cases "Thread_Timer t = x") auto
  moreover have "th_error (threads s' t) = th_error (threads s t) \<and> (susp s t \<longrightarrow> susp s' t)"
    if "Thread_Timer t \<notin> insert x E" for t
    using e that r(9) [of t] th(3) [of t] by auto
  ultimately show "expiry_done (insert x E) s s'" by (simp add: expiry_done_def)
qed

lemma timer_check_loop_due:
  assumes "check_ok s" and "inert cb" and "\<forall>y \<in> set (timer_list s). timer_active s y" and "due_order b s"
  defines "s' \<equiv> fold (timer_fire cb) (filter (timer_expired s) (timer_list s)) s"
  shows "timer_check_loop cb s = Some s' \<and> kinv s' \<and>
    expiry_done (set (filter (timer_expired s) (timer_list s))) s s' \<and> (\<forall>t. runnable s t \<longrightarrow> runnable s' t)"
  using assms(1,3,4) unfolding s'_def
proof (induction "filter (timer_expired s) (timer_list s)" arbitrary: s)
  case Nil
  then have "\<not> timer_expired s y" if "y \<in> set (timer_list s)" for y
    using that by (metis filter_empty_conv)
  then have "timer_check_loop cb s = Some s"
    by (subst timer_check_loop.simps) (auto split: list.split)
  then show ?case
    unfolding Nil(1) [symmetric] using Nil.prems(1)
    by (simp add: check_ok_def fire_ok_def expiry_done_def)
next
  case (Cons x ys)
  from head_expired [OF Cons.prems(3) Cons.hyps(2) [symmetric]] obtain xs
    where xs: "timer_list s = x # xs" "ys = filter (timer_expired s) xs" "timer_expired s x" by blast
  let ?s' = "timer_fire cb x s"
  note q = inert_quiet [OF assms(2)]
  have act: "timer_active s x" using Cons.prems(2) xs(1) by simp
  note f = timer_fire_check_ok [OF Cons.prems(1) q xs(1) act Cons.prems(2)]
  note o = due_order_fire [OF Cons.prems(1) q Cons.prems(2,3) xs(1)]
  have ys: "ys = filter (timer_expired ?s') (timer_list ?s')" using o(2) [OF xs(3)] xs(2) by simp
  note ih = Cons.hyps(1) [OF ys f(1,2) o(1)]
  have x: "x \<notin> set ys" "set ys \<subseteq> set xs" using Cons.prems(1) xs(1,2) by (auto simp: check_ok_def fire_ok_def)
  have e: "expiry_done (set ys) ?s' (fold (timer_fire cb) ys ?s')" "\<And>t. runnable ?s' t \<Longrightarrow> runnable (fold (timer_fire cb) ys ?s') t"
    using ih ys by auto
  note step = expiry_done_step [OF Cons.prems(1) assms(2) Cons.prems(2) xs(1) x e]
  have loop: "timer_check_loop cb s = timer_check_loop cb ?s'"
    using xs by (subst timer_check_loop.simps) simp
  show ?case
    unfolding Cons.hyps(2) [symmetric] using ih ys step loop by simp
qed

section \<open>Timeout functions that operate on timers\<close>

definition period_ok :: "kernel \<Rightarrow> timer_id \<Rightarrow> bool" where
  "period_ok s x \<longleftrightarrow> 0 < tm_init_tick (timers s x) \<and> tm_init_tick (timers s x) < half_tick"

definition timers_armed :: "kernel \<Rightarrow> bool" where
  "timers_armed s \<longleftrightarrow> kinv s \<and> distinct (timer_list s) \<and> distinct (timer_check_list s) \<and>
     set (timer_list s) \<inter> set (timer_check_list s) = {} \<and>
     (\<forall>t. Thread_Timer t \<in> set (timer_list s) \<longrightarrow>
        susp s t \<and> sched_flag_ttmr_set (threads s t) \<and> \<not> timer_periodic s (Thread_Timer t)) \<and>
     (\<forall>x \<in> set (timer_list s). timer_active s x) \<and>
     (\<forall>x \<in> set (timer_list s) \<union> set (timer_check_list s). timer_periodic s x \<longrightarrow> period_ok s x)"

definition due_timers :: "kernel \<Rightarrow> timer_id set" where
  "due_timers s = {y \<in> set (timer_list s). timer_expired s y}"

definition polite_step :: "kernel \<Rightarrow> kernel \<Rightarrow> bool" where
  "polite_step s s' \<longleftrightarrow> timers_armed s' \<and> tick s' = tick s \<and>
     set (timer_check_list s') \<subseteq> set (timer_check_list s) \<and> due_timers s' \<subseteq> due_timers s"

definition polite :: "(nat \<Rightarrow> kernel \<Rightarrow> kernel) \<Rightarrow> bool" where
  "polite cb \<longleftrightarrow> (\<forall>n s. timers_armed s \<longrightarrow> polite_step s (cb n s))"

lemma polite_step_trans: "polite_step s s' \<Longrightarrow> polite_step s' s'' \<Longrightarrow> polite_step s s''"
  by (auto simp: polite_step_def)

lemma polite_step_armed: "polite_step s s' \<Longrightarrow> timers_armed s'"
  by (simp add: polite_step_def)

lemma polite_comp: "polite f \<Longrightarrow> polite g \<Longrightarrow> polite (\<lambda>n s. g n (f n s))"
  unfolding polite_def by (metis polite_step_trans polite_step_armed)

lemma timers_armed_cong:
  assumes "timers_same s s'" and "kinv s'" and "timers_armed s"
    and "\<And>t. Thread_Timer t \<in> set (timer_list s) \<Longrightarrow> susp s t \<Longrightarrow> sched_flag_ttmr_set (threads s t) \<Longrightarrow>
      susp s' t \<and> sched_flag_ttmr_set (threads s' t)"
  shows "polite_step s s'"
proof -
  have e: "timers s' = timers s" "timer_list s' = timer_list s" "timer_check_list s' = timer_check_list s"
    "tick s' = tick s" using assms(1) by (simp_all add: timers_same_def)
  have "due_timers s' = due_timers s" by (simp add: due_timers_def timer_expired_def rt_tick_get_def e)
  moreover have "timers_armed s'"
    using assms(2-4) by (auto simp: timers_armed_def e timer_active_def timer_periodic_def period_ok_def)
  ultimately show ?thesis by (simp add: polite_step_def e)
qed

lemma polite_enter: "timers_armed s \<Longrightarrow> polite_step s (rt_enter_critical s)"
  by (rule timers_armed_cong) (auto simp: timers_same_def rt_enter_critical_def timers_armed_def)

lemma polite_exit:
  assumes "timers_armed s"
  shows "polite_step s (rt_exit_critical s)"
proof -
  have k: "kinv s" using assms by (simp add: timers_armed_def)
  obtain n where same: "sched_same (relock n s) (rt_exit_critical s)" using rt_exit_critical_same(1) [OF k] by blast
  show ?thesis
    using sched_same_timers [OF same] rt_exit_critical_kinv [OF k] exit_critical_timers(4) [OF k]
      sched_same_fields(4) [OF same] assms
    by (intro timers_armed_cong) simp_all
qed

lemma polite_remove:
  assumes "timers_armed s"
  shows "polite_step s (timer_remove x s)" and "polite_step s (timer_deactivate x (timer_remove x s))"
proof -
  have d: "due_timers (timer_remove x s) \<subseteq> due_timers s" "due_timers (timer_deactivate x (timer_remove x s)) \<subseteq> due_timers s"
    by (auto simp: due_timers_def timer_expired_def rt_tick_get_def)
  have "timers_armed (timer_remove x s)" using assms by (auto simp: timers_armed_def period_ok_def)
  then show "polite_step s (timer_remove x s)" using d(1) by (auto simp: polite_step_def)
  have "timers_armed (timer_deactivate x (timer_remove x s))" using assms by (auto simp: timers_armed_def period_ok_def)
  then show "polite_step s (timer_deactivate x (timer_remove x s))" using d(2) by (auto simp: polite_step_def)
qed

lemma polite_start:
  assumes "timers_armed s" and "x = Obj_Timer n" and "period_ok s x"
  shows "polite_step s (timer_start x s)"
proof -
  let ?s' = "timer_start x s"
  have nx: "\<not> timer_expired ?s' x"
    using assms(3) not_expired_restarted
    by (simp add: timer_expired_def rt_tick_get_def timer_start_list(2) period_ok_def)
  have "timer_expired ?s' y = timer_expired s y" if "y \<noteq> x" for y
    using that by (simp add: timer_expired_def rt_tick_get_def timer_start_list(2))
  then have "due_timers ?s' \<subseteq> due_timers s" using nx by (auto simp: due_timers_def) metis
  moreover have "timers_armed ?s'"
    using assms by (auto simp: timers_armed_def period_ok_def timer_start_list(1) intro!: distinct_timer_insert_walk)
  ultimately show ?thesis by (auto simp: polite_step_def)
qed

lemma polite_thread_timeout:
  assumes "timers_armed s" and "susp s t" and "Thread_Timer t \<notin> set (timer_list s)"
  shows "polite_step s (thread_timeout t s)" and "timers (thread_timeout t s) = timers s"
proof -
  let ?s1 = "wake t (set_th_error t (- RT_ETIMEOUT) s)"
  have k: "kinv s" using assms by (simp add: timers_armed_def)
  have k1: "kinv ?s1" by (rule wake_kinv) (use assms k in simp_all)
  have eq: "thread_timeout t s = (if current_thread ?s1 = None then ?s1 else rt_schedule ?s1)"
    by (simp add: thread_timeout_def wake_def rt_sched_unlock_n_resched_def)
  note same = rt_schedule_same(1) [OF k1]
  have "sched_flag_ttmr_set (threads ?s1 u) = sched_flag_ttmr_set (threads s u)" for u
    by (simp add: wake_def rt_sched_insert_thread_threads deq_node_def)
  then have "sched_flag_ttmr_set (threads (thread_timeout t s) u) = sched_flag_ttmr_set (threads s u)" for u
    using sched_same_fields(4) [OF same] by (simp add: eq)
  then show "polite_step s (thread_timeout t s)"
    using assms thread_timeout_timers(1,2) [OF k assms(2)] thread_timeout_kinv [OF k assms(2)]
    by (intro timers_armed_cong) (auto, metis)
  show "timers (thread_timeout t s) = timers s"
    using thread_timeout_timers(1) [OF k assms(2)] by (simp add: timers_same_def)
qed

text \<open>Stopping a timer, starting one again and waking a thread are such operations.\<close>

lemma polite_rt_timer_stop: "polite (\<lambda>_ s. snd (rt_timer_stop x s))"
  unfolding polite_def
proof (intro allI impI)
  fix s assume a: "timers_armed s"
  note e = polite_enter [OF a]
  note r = polite_step_trans [OF e polite_remove(2) [OF polite_step_armed [OF e]]]
  show "polite_step s (snd (rt_timer_stop x s))"
    using polite_step_trans [OF e polite_exit [OF polite_step_armed [OF e]]]
      polite_step_trans [OF r polite_exit [OF polite_step_armed [OF r]]]
    by (simp add: rt_timer_stop_def Let_def spin_defs)
qed

lemma polite_rt_timer_start:
  "polite (\<lambda>_ s. if period_ok s (Obj_Timer m) then snd (rt_timer_start (Obj_Timer m) s) else s)"
  unfolding polite_def
proof (intro allI impI)
  fix s assume a: "timers_armed s"
  note e = polite_enter [OF a]
  have "polite_step s (snd (rt_timer_start (Obj_Timer m) s))" if "period_ok s (Obj_Timer m)"
  proof -
    have "period_ok (rt_enter_critical s) (Obj_Timer m)" using that by (simp add: period_ok_def)
    note st = polite_step_trans [OF e polite_start [OF polite_step_armed [OF e] refl this]]
    show ?thesis
      using polite_step_trans [OF st polite_exit [OF polite_step_armed [OF st]]]
      by (simp add: rt_timer_start_def Let_def spin_defs)
  qed
  then show "polite_step s (if period_ok s (Obj_Timer m) then snd (rt_timer_start (Obj_Timer m) s) else s)"
    using a by (simp add: polite_step_def)
qed


lemma polite_resched:
  assumes "timers_armed s"
  shows "polite_step s (rt_sched_unlock_n_resched s)"
proof -
  have k: "kinv s" using assms by (simp add: timers_armed_def)
  note same = rt_schedule_same [OF k]
  have "polite_step s (rt_schedule s)"
    using same(1,2) rt_schedule_kinv [OF k] sched_same_fields(4) [OF same(1)] assms
    by (intro timers_armed_cong) (simp_all add: timers_same_def sched_same_def)
  then show ?thesis using assms by (simp add: rt_sched_unlock_n_resched_def polite_step_def)
qed

lemma rt_timer_stop_off:
  assumes "timers_armed s"
  shows "x \<notin> set (timer_list (snd (rt_timer_stop x s)))" and "susp (snd (rt_timer_stop x s)) t = susp s t"
proof -
  have k: "kinv s" and a: "x \<in> set (timer_list s) \<Longrightarrow> timer_active s x" using assms by (simp_all add: timers_armed_def)
  have k': "kinv (rt_enter_critical s)" "kinv (timer_deactivate x (timer_remove x (rt_enter_critical s)))"
    using k polite_step_armed [OF polite_enter [OF assms]] by (simp_all add: timers_armed_def)
  show "x \<notin> set (timer_list (snd (rt_timer_stop x s)))"
    using a exit_critical_timers(1) [OF k'(1)] exit_critical_timers(1) [OF k'(2)]
    by (auto simp: rt_timer_stop_def Let_def spin_defs)
  show "susp (snd (rt_timer_stop x s)) t = susp s t"
    using exit_critical_timers(4) [OF k'(1)] exit_critical_timers(4) [OF k'(2)]
    by (simp add: rt_timer_stop_def Let_def spin_defs)
qed

lemma polite_wake:
  assumes "timers_armed s" and "susp s t" and "Thread_Timer t \<notin> set (timer_list s)"
  shows "polite_step s (wake t s)"
proof -
  have k: "kinv s" using assms by (simp add: timers_armed_def)
  have "threads (wake t s) u = threads s u" if "u \<noteq> t" for u
    using that by (auto simp: wake_def rt_sched_insert_thread_threads deq_node_def)
  moreover have "u \<noteq> t" if "Thread_Timer u \<in> set (timer_list s)" for u using that assms(3) by blast
  ultimately have "Thread_Timer u \<in> set (timer_list s) \<Longrightarrow> threads (wake t s) u = threads s u" for u by blast
  then show ?thesis
    using assms wake_kinv [OF k assms(2)] by (intro timers_armed_cong) (auto simp: timers_same_def wake_def deq_node_def)
qed

lemma polite_rt_thread_resume: "polite (\<lambda>_ s. snd (rt_thread_resume t s))"
  unfolding polite_def
proof (intro allI impI)
  fix s assume a: "timers_armed s"
  let ?s1 = "snd (rt_timer_stop (Thread_Timer t) s)"
  let ?s2 = "upd_thread t (\<lambda>th. th\<lparr>sched_flag_ttmr_set := False\<rparr>) ?s1"
  have p1: "polite_step s ?s1" using polite_rt_timer_stop a by (simp add: polite_def)
  note a1 = polite_step_armed [OF p1]
  note off = rt_timer_stop_off [OF a, of "Thread_Timer t"]
  have k1: "kinv ?s1" using a1 by (simp add: timers_armed_def)
  have "polite_step ?s1 ?s2"
    using a1 off kinv_upd_thread_neutral [OF k1, of "\<lambda>th. th\<lparr>sched_flag_ttmr_set := False\<rparr>" t]
    by (intro timers_armed_cong) (auto simp: timers_same_def)
  with p1 have p2: "polite_step s ?s2" by (rule polite_step_trans)
  have w2: "polite_step s (wake t ?s2)" if "susp s t"
    using polite_step_trans [OF p2 polite_wake [OF polite_step_armed [OF p2]]] off that by simp
  have w: "polite_step s (wake t s)" if "susp s t" "\<not> sched_flag_ttmr_set (threads s t)"
    using polite_wake [OF a that(1)] that(2) a by (auto simp: timers_armed_def)
  have "polite_step s (snd (rt_sched_thread_ready t s))"
    using a p2 w w2
    by (auto simp: rt_sched_thread_ready_def rt_sched_thread_is_suspended_def rt_sched_thread_timer_stop_def
        wake_def Let_def polite_step_def split: prod.splits)
  note r = this polite_step_trans [OF this polite_resched [OF polite_step_armed [OF this]]]
  then show "polite_step s (snd (rt_thread_resume t s))"
    by (auto simp: rt_thread_resume_def Let_def split: prod.splits)
qed

lemma armed_on_check_list:
  assumes "timers_armed s" and "timer_check_list s = []" and "timer_list s = x # xs"
  defines "s2 \<equiv> (if \<not> timer_periodic s x then timer_deactivate x (timer_remove x s) else timer_remove x s)"
  defines "s2' \<equiv> s2\<lparr>timer_check_list := x # timer_check_list s2\<rparr>"
  shows "timers_armed s2'" and "timer_list s2' = xs" and "timer_check_list s2' = [x]" and "tick s2' = tick s"
    and "due_timers s2' \<subseteq> due_timers s - {x}" and "threads s2' = threads s" and "timer_periodic s2' y = timer_periodic s y"
proof -
  have x: "x \<notin> set xs" using assms(1,3) by (simp add: timers_armed_def)
  have k: "kinv s2'" using assms(1) by (simp add: s2'_def s2_def timers_armed_def)
  show l: "timer_list s2' = xs" "timer_check_list s2' = [x]" "tick s2' = tick s" "threads s2' = threads s"
    using x assms(2,3) by (auto simp: s2'_def s2_def)
  have tm: "timers s2' = timers s2" by (simp add: s2'_def)
  have per: "timer_periodic s2' y = timer_periodic s y" for y
    using timer_periodic_cong [OF tm] by (simp add: s2_def)
  then show "timer_periodic s2' y = timer_periodic s y" .
  have act: "timer_active s2' y = timer_active s y" if "y \<noteq> x" for y
    using timer_active_cong [OF tm] that by (simp add: s2_def)
  have ok: "period_ok s2' y = period_ok s y" for y by (simp add: period_ok_def tm s2_def)
  have "timer_expired s2' y = timer_expired s y" for y
    by (simp add: timer_expired_def rt_tick_get_def tm l(3)) (simp add: s2_def)
  then show "due_timers s2' \<subseteq> due_timers s - {x}" using x assms(3) by (auto simp: due_timers_def l)
  have "timer_active s2' y" if "y \<in> set xs" for y
    using that act [of y] x assms(1,3) by (cases "y = x") (auto simp: timers_armed_def)
  then show "timers_armed s2'" using k x assms(1,3) by (auto simp: timers_armed_def l per ok)
qed

text \<open>The call of the timeout function, between releasing and taking the lock again.\<close>

lemma timeout_call_polite:
  assumes a: "timers_armed s" and p: "polite cb" and x: "x \<notin> set (timer_list s)"
    and ths: "\<And>t. x = Thread_Timer t \<Longrightarrow> susp s t \<and> \<not> timer_periodic s x"
  defines "s' \<equiv> rt_enter_critical (timeout_func cb x (rt_exit_critical s))"
  shows "polite_step s s'" and "x = Thread_Timer t \<Longrightarrow> \<not> timer_periodic s' x"
proof -
  let ?s1 = "rt_exit_critical s" and ?s2 = "timeout_func cb x (rt_exit_critical s)"
  note p1 = polite_exit [OF a]
  have k: "kinv s" using a by (simp add: timers_armed_def)
  have t1: "timer_list ?s1 = timer_list s" "susp ?s1 t = susp s t" "timers ?s1 = timers s" for t
    using exit_critical_timers(1,4) [OF k] rt_exit_critical_same(1) [OF k] by (auto simp: sched_same_def)
  have tt: "polite_step s ?s2 \<and> timers ?s2 = timers s" if "x = Thread_Timer t" for t
    using polite_thread_timeout [OF polite_step_armed [OF p1], of t] ths t1 x that
      polite_step_trans [OF p1, of ?s2] by (simp add: timeout_func_def)
  have p2: "polite_step s ?s2"
  proof (cases x)
    case (Obj_Timer n)
    then have "polite_step ?s1 ?s2"
      using p polite_step_armed [OF p1] by (simp add: timeout_func_def polite_def)
    then show ?thesis by (rule polite_step_trans [OF p1])
  qed (use tt in blast)
  show "polite_step s s'"
    unfolding s'_def by (rule polite_step_trans [OF p2 polite_enter [OF polite_step_armed [OF p2]]])
  show "\<not> timer_periodic s' x" if "x = Thread_Timer t"
    using tt [OF that] ths [OF that] timer_periodic_cong [of ?s2 s x] by (simp add: s'_def timer_periodic_def)
qed

lemma timer_fire_polite:
  assumes a: "timers_armed s" and c: "timer_check_list s = []" and p: "polite cb" and l: "timer_list s = x # xs"
    and e: "timer_expired s x"
  defines "s' \<equiv> timer_fire cb x s"
  shows "timers_armed s'" and "timer_check_list s' = []" and "tick s' = tick s" and "due_timers s' \<subset> due_timers s"
proof -
  define s2 where "s2 = (if \<not> timer_periodic s x then timer_deactivate x (timer_remove x s) else timer_remove x s)"
  define s2' where "s2' = s2\<lparr>timer_check_list := x # timer_check_list s2\<rparr>"
  define s4 where "s4 = rt_enter_critical (timeout_func cb x (rt_exit_critical s2'))"
  define s5 where "s5 = timer_remove x s4"
  have x: "x \<notin> set xs" and ths: "\<And>t. x = Thread_Timer t \<Longrightarrow> susp s t \<and> \<not> timer_periodic s x"
    using a l by (auto simp: timers_armed_def)
  note f2 = armed_on_check_list [OF a c l, folded s2_def, folded s2'_def]
  have "x \<notin> set (timer_list s2')" "\<And>t. x = Thread_Timer t \<Longrightarrow> susp s2' t \<and> \<not> timer_periodic s2' x"
    using x ths f2(2,6,7) by auto
  note p5 = timeout_call_polite [OF f2(1) p this, folded s4_def]
  note a4 = polite_step_armed [OF p5(1)]
  have p6: "polite_step s4 (timer_start x (timer_deactivate x s5))"
    if "timer_periodic s5 x" "x \<in> set (timer_check_list s4)"
  proof -
    have "timer_periodic s4 x" using that(1) by (simp add: s5_def)
    then obtain n where n: "x = Obj_Timer n" using p5(2) by (cases x) blast+
    note d = polite_remove(2) [OF a4, of x, folded s5_def]
    have "period_ok s4 x" using that a4 by (auto simp: timers_armed_def s5_def)
    then have "period_ok (timer_deactivate x s5) x" by (simp add: period_ok_def s5_def)
    from polite_step_trans [OF d polite_start [OF polite_step_armed [OF d] n this]] show ?thesis .
  qed
  have c4: "set (timer_check_list s4) \<subseteq> {x}" using p5(1) f2(3) by (simp add: polite_step_def)
  then have cx: "timer_check_list s4 \<noteq> [] \<Longrightarrow> x \<in> set (timer_check_list s4)"
    by (cases "timer_check_list s4") auto
  have eq: "s' = (if timer_check_list s4 = [] then s4
      else if timer_periodic s5 x \<and> timer_active s5 x then timer_start x (timer_deactivate x s5) else s5)"
    by (simp add: s'_def timer_fire_def Let_def spin_defs s2_def [symmetric] s2'_def [symmetric]
        s4_def [symmetric] s5_def [symmetric])
  have "polite_step s4 s'"
    using p6 cx polite_remove(1) [OF a4, of x] a4 by (auto simp: eq s5_def polite_step_def)
  with p5(1) have p': "polite_step s2' s'" by (rule polite_step_trans)
  then show "timers_armed s'" "tick s' = tick s" using f2(4) by (simp_all add: polite_step_def)
  have "x \<in> due_timers s" using l e by (simp add: due_timers_def)
  then show "due_timers s' \<subset> due_timers s" using p' f2(5) by (auto simp: polite_step_def)
  have "filter (\<lambda>y. y \<noteq> x) (timer_check_list s4) = []" using c4 by (auto simp: filter_empty_conv)
  then show "timer_check_list s' = []" by (simp add: eq s5_def)
qed

lemma timer_check_loop_polite:
  assumes "timers_armed s" and "timer_check_list s = []" and "polite cb"
  shows "\<exists>s'. timer_check_loop cb s = Some s' \<and> timers_armed s' \<and> timer_check_list s' = [] \<and> tick s' = tick s \<and>
    due_timers s' \<subseteq> due_timers s \<and> (\<forall>x xs. timer_list s' = x # xs \<longrightarrow> \<not> timer_expired s' x)"
  using assms(1,2)
proof (induction "card (due_timers s)" arbitrary: s rule: less_induct)
  case less
  show ?case
  proof (cases "\<exists>x xs. timer_list s = x # xs \<and> timer_expired s x")
    case True
    then obtain x xs where x: "timer_list s = x # xs" "timer_expired s x" by blast
    note f = timer_fire_polite [OF less.prems assms(3) x]
    have "finite (due_timers s)" by (simp add: due_timers_def)
    then have "card (due_timers (timer_fire cb x s)) < card (due_timers s)" using f(4) by (rule psubset_card_mono)
    from less.hyps [OF this f(1,2)] f(3,4) x show ?thesis
      by (subst timer_check_loop.simps) (auto; blast)
  next
    case False
    then have "timer_check_loop cb s = Some s"
      by (subst timer_check_loop.simps) (auto split: list.split)
    with False less.prems show ?thesis by auto
  qed
qed

section \<open>The tick interrupt\<close>

text \<open>The waiting thread of \<open>demo_waiting\<close>, whose timeout is tick 5, and a periodic application timer
  that is due at tick 6.\<close>

definition demo_timers :: kernel where
  "demo_timers = demo_waiting\<lparr>tick := 6,
     timers := (timers demo_waiting)(Obj_Timer 0 := \<lparr>tm_flag = 3, tm_init_tick = 4, tm_timeout_tick = 6,
       tm_timeout_func = 0, tm_parameter = 0\<rparr>),
     timer_list := [Thread_Timer 4, Obj_Timer 0]\<rparr>"

lemma demo_timers_check_ok: "check_ok demo_timers"
  and demo_timers_active: "\<forall>y \<in> set (timer_list demo_timers). timer_active demo_timers y"
proof -
  have "kinv demo_timers"
    by (rule iffD1 [OF kinv_cong demo_waiting_kinv]) (simp_all add: demo_timers_def)
  moreover have "timer_check_list demo_timers = []"
    by (simp add: demo_timers_def demo_waiting_def demo_kernel_def)
  ultimately show "check_ok demo_timers"
    unfolding check_ok_def fire_ok_def
    by (auto simp: demo_timers_def demo_waiting_def stat_simps timer_periodic_def timer_flag_defs half_tick_val)
  show "\<forall>y \<in> set (timer_list demo_timers). timer_active demo_timers y"
    by (simp add: demo_timers_def demo_waiting_def timer_active_def timer_flag_defs)
qed

text \<open>C24: on a timer list in the order of the due times, the timer check fires exactly the timers that
  are due at the current tick, each once and in that order.  Of the timers, the one-shot ones that were due
  are off the list afterwards, the periodic ones are on it again, due a period from now, and the others are
  as they were.  A thread whose wait was due has the error \<^verbatim>\<open>-RT_ETIMEOUT\<close> and is in the ready queue of
  its priority (or is the running thread); every other thread keeps its error, and waits on if it waited.
  The timeout functions of application timers on the list are assumed not to operate on timers or threads
  (\<open>inert\<close>).\<close>

theorem rt_timer_check_times_out:
  assumes "check_ok s" and "inert cb" and "\<forall>y \<in> set (timer_list s). timer_active s y" and "due_order b s"
  shows "\<exists>s'. rt_timer_check cb s = Some s' \<and> kinv s' \<and>
    s' = rt_exit_critical (fold (timer_fire cb) (filter (timer_expired s) (timer_list s)) (rt_enter_critical s)) \<and>
    set (timer_list s') = {y \<in> set (timer_list s). timer_expired s y \<longrightarrow> timer_periodic s y} \<and>
    (\<forall>y \<in> set (timer_list s'). tm_timeout_tick (timers s' y) =
       (if timer_expired s y then tick s + tm_init_tick (timers s y) else tm_timeout_tick (timers s y))) \<and>
    (\<forall>t. Thread_Timer t \<in> set (timer_list s) \<and> timer_expired s (Thread_Timer t) \<longrightarrow>
       th_error (threads s' t) = - RT_ETIMEOUT \<and> runnable s' t) \<and>
    (\<forall>t. \<not> (Thread_Timer t \<in> set (timer_list s) \<and> timer_expired s (Thread_Timer t)) \<longrightarrow>
       th_error (threads s' t) = th_error (threads s t) \<and> (susp s t \<longrightarrow> susp s' t))"
proof -
  let ?e = "rt_enter_critical s"
  let ?due = "filter (timer_expired s) (timer_list s)"
  have d: "due_order b ?e" using assms(4) by (simp add: due_order_def timer_periodic_def)
  from timer_check_loop_due [of ?e cb b] assms d obtain s'
    where s': "timer_check_loop cb ?e = Some s'" "s' = fold (timer_fire cb) ?due ?e" "kinv s'"
      "expiry_done (set ?due) ?e s'" by auto
  have p: "timer_periodic ?e = timer_periodic s" "susp ?e = susp s" by (auto simp: timer_periodic_def fun_eq_iff)
  have fr: "timers (rt_exit_critical s') = timers s'"
    using rt_exit_critical_same(1) [OF s'(3)] by (auto simp: sched_same_def)
  note e = s'(4) [unfolded expiry_done_def]
  show ?thesis
    using s'(1,2) e p rt_exit_critical_kinv [OF s'(3)] exit_critical_timers [OF s'(3)]
      rt_exit_critical_runnable [OF s'(3)] fr
    by (auto simp: rt_timer_check_eq [OF assms(1)])
qed

text \<open>At tick 6 the wait of thread 4 (until tick 5) and the periodic timer 0 (period 4, due now) have
  expired, the one-shot timer 7 (tick 9) has not.\<close>

definition demo_due :: kernel where
  "demo_due = demo_timers\<lparr>
     timers := (timers demo_timers)(Obj_Timer 7 := \<lparr>tm_flag = 1, tm_init_tick = 9, tm_timeout_tick = 9,
       tm_timeout_func = 0, tm_parameter = 0\<rparr>),
     timer_list := [Thread_Timer 4, Obj_Timer 0, Obj_Timer 7]\<rparr>"

lemmas demo_due_defs = demo_due_def demo_timers_def demo_waiting_def

lemma demo_due_facts:
  "timer_list demo_due = [Thread_Timer 4, Obj_Timer 0, Obj_Timer 7]" "tick demo_due = 6"
  "timer_expired demo_due (Thread_Timer 4)" "timer_expired demo_due (Obj_Timer 0)"
  "\<not> timer_expired demo_due (Obj_Timer 7)" "timer_periodic demo_due (Obj_Timer 0)"
  "\<not> timer_periodic demo_due (Thread_Timer 4)" "\<not> timer_periodic demo_due (Obj_Timer 7)"
  "tm_init_tick (timers demo_due (Obj_Timer 0)) = 4"
  "\<forall>y \<in> set (timer_list demo_due). timer_active demo_due y"
  by (simp_all add: demo_due_defs timer_expired_def rt_tick_get_def half_tick_val timer_periodic_def
      timer_active_def timer_flag_defs)

theorem rt_timer_check_times_out_witness:
  "\<exists>s'. rt_timer_check (\<lambda>_ s. s) demo_due = Some s' \<and> set (timer_list s') = {Obj_Timer 0, Obj_Timer 7} \<and>
     tm_timeout_tick (timers s' (Obj_Timer 0)) = 10 \<and> th_error (threads s' 4) = - RT_ETIMEOUT \<and> runnable s' 4"
proof -
  have "kinv demo_due"
    by (rule iffD1 [OF kinv_cong demo_waiting_kinv]) (simp_all add: demo_due_def demo_timers_def)
  moreover have "timer_check_list demo_due = []" by (simp add: demo_due_defs demo_kernel_def)
  ultimately have c: "check_ok demo_due"
    unfolding check_ok_def fire_ok_def
    by (auto simp: demo_due_facts half_tick_val) (simp add: demo_due_defs stat_simps)
  have i: "inert (\<lambda>_ s. s)" by (simp add: inert_def quiet_id)
  have d: "due_order 0 demo_due"
    unfolding due_order_def by (simp add: demo_due_facts dist_def) (simp add: demo_due_defs)
  from rt_timer_check_times_out [OF c i demo_due_facts(10) d] obtain s'
    where s': "rt_timer_check (\<lambda>_ s. s) demo_due = Some s'"
      "set (timer_list s') = {y \<in> set (timer_list demo_due). timer_expired demo_due y \<longrightarrow> timer_periodic demo_due y}"
      "\<forall>y \<in> set (timer_list s'). tm_timeout_tick (timers s' y) = (if timer_expired demo_due y
         then tick demo_due + tm_init_tick (timers demo_due y) else tm_timeout_tick (timers demo_due y))"
      "th_error (threads s' 4) = - RT_ETIMEOUT \<and> runnable s' 4"
    by (auto simp: demo_due_facts)
  have "set (timer_list s') = {Obj_Timer 0, Obj_Timer 7}" unfolding s'(2) by (auto simp: demo_due_facts)
  with s' show ?thesis by (simp add: demo_due_facts)
qed

text \<open>C30: the timer check of the tick interrupt returns, and what it leaves is again a state in which it
  returns: the kernel invariant holds, the list of timers is well formed, the tick has not moved, every timer
  that is still due was due before, and none is due at the head of the list.  The hypotheses: a thread's
  timer is on the list only while the thread waits, every periodic timer on it has a period that is neither
  zero nor half the tick range or more (\<open>timers_armed\<close>), and the timeout functions of application timers
  keep these conditions, do not move the tick and put no timer on the list that is due at once
  (\<open>polite\<close>).  Such functions may stop timers, start them again, their own included, and wake
  threads: \<open>polite_rt_timer_stop\<close>, \<open>polite_rt_timer_start\<close>,
  \<open>polite_rt_thread_resume\<close> and \<open>polite_comp\<close> show it for the kernel's own operations.
  Without the condition on periods the check may run forever
  (\<open>rt_timer_check_zero_period_hangs\<close>).\<close>

theorem rt_timer_check_returns:
  assumes "timers_armed s" and "timer_check_list s = []" and "polite cb"
  shows "\<exists>s'. rt_timer_check cb s = Some s' \<and> timers_armed s' \<and> timer_check_list s' = [] \<and> tick s' = tick s \<and>
    due_timers s' \<subseteq> due_timers s \<and> (\<forall>x xs. timer_list s' = x # xs \<longrightarrow> \<not> timer_expired s' x)"
proof -
  let ?e = "rt_enter_critical s"
  note e = polite_enter [OF assms(1)]
  have c: "timer_check_list ?e = []" using assms(2) by (simp add: rt_enter_critical_def)
  have eq: "?e\<lparr>timer_check_list := []\<rparr> = ?e" using c by simp
  from timer_check_loop_polite [OF polite_step_armed [OF e] c assms(3)] obtain s'
    where s': "timer_check_loop cb ?e = Some s'" "timers_armed s'" "timer_check_list s' = []" "tick s' = tick ?e"
      "due_timers s' \<subseteq> due_timers ?e" "\<forall>x xs. timer_list s' = x # xs \<longrightarrow> \<not> timer_expired s' x" by blast
  have k: "kinv s'" using s'(2) by (simp add: timers_armed_def)
  have "polite_step s' (rt_exit_critical s')" by (rule polite_exit [OF s'(2)])
  moreover have "rt_timer_check cb s = Some (rt_exit_critical s')"
    using s'(1) by (simp add: rt_timer_check_def spin_defs eq)
  ultimately show ?thesis
    using s' e exit_critical_timers(1,2) [OF k] by (auto simp: polite_step_def)
qed

text \<open>A timeout function that stops the one-shot timer 7 and wakes thread 4.\<close>

definition demo_callback :: "nat \<Rightarrow> kernel \<Rightarrow> kernel" where
  "demo_callback n s = snd (rt_thread_resume 4 (snd (rt_timer_stop (Obj_Timer 7) s)))"

theorem rt_timer_check_returns_witness:
  "\<exists>s'. rt_timer_check demo_callback demo_due = Some s' \<and> timers_armed s' \<and>
     (\<forall>x xs. timer_list s' = x # xs \<longrightarrow> \<not> timer_expired s' x)"
proof -
  have p: "polite demo_callback"
    using polite_comp [OF polite_rt_timer_stop polite_rt_thread_resume] unfolding demo_callback_def [abs_def] .
  have k: "kinv demo_due"
    by (rule iffD1 [OF kinv_cong demo_waiting_kinv]) (simp_all add: demo_due_def demo_timers_def)
  have c: "timer_check_list demo_due = []" by (simp add: demo_due_defs demo_kernel_def)
  have "susp demo_due 4" "sched_flag_ttmr_set (threads demo_due 4)" by (simp_all add: demo_due_defs stat_simps)
  then have "timers_armed demo_due"
    using k c demo_due_facts(10) by (auto simp: timers_armed_def demo_due_facts period_ok_def half_tick_val)
  from rt_timer_check_returns [OF this c p] show ?thesis by blast
qed

section \<open>A period of zero\<close>

lemma timer_check_loop_stuck:
  assumes I: "\<And>s. I s \<Longrightarrow> \<exists>x xs. timer_list s = x # xs \<and> timer_expired s x \<and> I (timer_fire cb x s)"
    and some: "timer_check_loop cb s = Some y"
  shows "\<not> I s"
proof -
  have "cb = cb \<longrightarrow> \<not> I s"
  proof (rule timer_check_loop.raw_induct [where P = "\<lambda>c s y. c = cb \<longrightarrow> \<not> I s", OF _ some])
    fix f c s y
    assume ih: "\<And>c s y. f c s = Some y \<Longrightarrow> c = cb \<longrightarrow> \<not> I s"
      and f: "(case timer_list s of [] \<Rightarrow> Some s
        | x # _ \<Rightarrow> if timer_expired s x then f c (timer_fire c x s) else Some s) = Some y"
    show "c = cb \<longrightarrow> \<not> I s"
    proof (intro impI notI)
      assume "c = cb" "I s"
      with I obtain x xs where "timer_list s = x # xs" "timer_expired s x" "I (timer_fire cb x s)" by blast
      with ih f \<open>c = cb\<close> show False by auto
    qed
  qed
  then show ?thesis by simp
qed

definition zero_period :: "timer_id \<Rightarrow> kernel \<Rightarrow> bool" where
  "zero_period x s \<longleftrightarrow> fire_ok s \<and> timer_list s = [x] \<and> timer_periodic s x \<and> timer_active s x \<and>
     tm_init_tick (timers s x) = 0 \<and> timer_expired s x"

lemma zero_period_fire: "quiet cb \<Longrightarrow> zero_period x s \<Longrightarrow> zero_period x (timer_fire cb x s)"
proof -
  assume q: "quiet cb" and z: "zero_period x s"
  then have f: "fire_ok s" and l: "timer_list s = [x]" and p: "timer_periodic s x" "timer_active s x"
    and i: "tm_init_tick (timers s x) = 0" by (simp_all add: zero_period_def)
  note r = timer_fire_result [OF f q l p(2)]
  have l': "timer_list (timer_fire cb x s) = [x]" using r(4) p by simp
  have "x \<noteq> Thread_Timer t" for t using f l p(1) by (auto simp: fire_ok_def)
  then have "fire_ok (timer_fire cb x s)" using r(1,3) l' by (auto simp: fire_ok_def)
  then show ?thesis
    using l' r(2,5-8) p i by (simp add: zero_period_def timer_expired_def rt_tick_get_def half_tick_val)
qed

text \<open>A periodic timer whose period is zero, which \<^verbatim>\<open>rt_timer_init\<close> and \<^verbatim>\<open>rt_timer_control\<close> accept, keeps
  the timer check of the tick interrupt running forever once it is due.\<close>

theorem rt_timer_check_zero_period_hangs:
  assumes "zero_period x s" and "quiet cb"
  shows "rt_timer_check cb s = None"
proof -
  have "timer_check_loop cb (rt_enter_critical s) = None"
  proof (cases "timer_check_loop cb (rt_enter_critical s)")
    case (Some y)
    have "\<not> zero_period x (rt_enter_critical s)"
      by (rule timer_check_loop_stuck [where I = "zero_period x", OF _ Some])
        (use zero_period_fire [OF assms(2)] in \<open>auto simp: zero_period_def\<close>)
    moreover have "zero_period x (rt_enter_critical s)"
      using assms(1) by (simp add: zero_period_def timer_periodic_def)
    ultimately show ?thesis by blast
  qed simp
  moreover have "(rt_enter_critical s)\<lparr>timer_check_list := []\<rparr> = rt_enter_critical s"
    using assms(1) by (simp add: zero_period_def fire_ok_def rt_enter_critical_def)
  ultimately show ?thesis by (simp add: rt_timer_check_def spin_defs)
qed

theorem rt_timer_check_zero_period_hangs_witness:
  "rt_timer_check (\<lambda>_ s. s) (timer_start (Obj_Timer 0) (timer_init (Obj_Timer 0) 0 0 0 RT_TIMER_FLAG_PERIODIC
     demo_kernel)) = None"
proof (rule rt_timer_check_zero_period_hangs [OF _ quiet_id])
  let ?s = "timer_start (Obj_Timer 0) (timer_init (Obj_Timer 0) 0 0 0 RT_TIMER_FLAG_PERIODIC demo_kernel)"
  have "kinv ?s" using demo_kernel_kinv by (simp add: timer_init_def)
  moreover have "timer_check_list ?s = []" "timer_list ?s = [Obj_Timer 0]"
    by (simp_all add: timer_start_list timer_init_def) (simp add: demo_kernel_def)
  ultimately show "zero_period (Obj_Timer 0) ?s"
    by (simp add: zero_period_def fire_ok_def timer_expired_def rt_tick_get_def half_tick_val timer_start_list)
      (simp add: timer_periodic_def timer_init_def timer_flag_defs)
qed

end
