(* ===== verification/Ipc_Base.thy ===== *)
theory Ipc_Base
  imports Clock
begin

unbundle bit_operations_syntax

text \<open>
  What the inter-thread communication objects of \<^verbatim>\<open>src/ipc.c\<close> share: waking the threads of a wait
  list (\<^verbatim>\<open>rt_susp_list_dequeue\<close>, \<^verbatim>\<open>rt_susp_list_resume_all\<close>) and the way a call suspends its caller.

  The lemmas extend the kernel invariant by what a wake-up relies on: a suspended thread whose
  timer flag is set has an active timer (\<open>ttmr_ok\<close>).  \<open>resched\<close> collects what a rescheduling leaves
  alone, so that the objects' theories never look into the scheduler.
\<close>

section \<open>Operations\<close>

definition rt_susp_list_dequeue :: "queue_id \<Rightarrow> rt_err_t \<Rightarrow> kernel \<Rightarrow> tid option \<times> kernel" where
  "rt_susp_list_dequeue q thread_error s =
     (case queues s q of
        [] \<Rightarrow> (None, s)
      | thread # _ \<Rightarrow>
          (let (error, s1) = rt_sched_thread_ready thread s
           in if error \<noteq> RT_EOK then (None, s1)
              else (Some thread, if thread_error \<ge> 0 then set_th_error thread thread_error s1 else s1)))"

text \<open>The loop wakes one thread a turn until there is none to wake; each turn takes one thread off the
  list, so one more turn than the list is long reaches the end (\<open>resume_all_ends\<close>).\<close>

fun susp_list_resume_loop :: "nat \<Rightarrow> queue_id \<Rightarrow> rt_err_t \<Rightarrow> kernel \<Rightarrow> kernel" where
  "susp_list_resume_loop 0 q e s = s"
| "susp_list_resume_loop (Suc n) q e s =
     (case rt_susp_list_dequeue q e s of
        (None, s1) \<Rightarrow> s1
      | (Some _, s1) \<Rightarrow> susp_list_resume_loop n q e s1)"

definition rt_susp_list_resume_all :: "queue_id \<Rightarrow> rt_err_t \<Rightarrow> kernel \<Rightarrow> rt_err_t \<times> kernel" where
  "rt_susp_list_resume_all q e s = (RT_EOK, susp_list_resume_loop (Suc (length (queues s q))) q e s)"

text \<open>The suspension of the calling thread, as the blocking calls write it out: onto the wait list,
  then the timeout is armed when there is one.\<close>

definition ipc_suspend :: "queue_id \<Rightarrow> u8 \<Rightarrow> suspend_flag \<Rightarrow> int \<Rightarrow> tid \<Rightarrow> kernel \<Rightarrow> rt_err_t \<times> kernel" where
  "ipc_suspend q flag suspend_flag timeout t s =
     (let (ret, s1) = rt_thread_suspend_to_list t (Some q) flag suspend_flag s
      in if ret \<noteq> RT_EOK then (ret, s1)
         else (RT_EOK, if timeout > 0 then arm_thread_timer t (word_of_int timeout) s1 else s1))"

section \<open>Rescheduling\<close>

definition resched :: "kernel \<Rightarrow> kernel \<Rightarrow> bool" where
  "resched s s' \<longleftrightarrow> kinv s' \<and> (\<exists>n. sched_same (relock n s) s') \<and> (\<forall>t. susp s' t = susp s t) \<and>
     (\<forall>q. \<not> is_ready_q q \<longrightarrow> queues s' q = queues s q)"

lemma sched_same_relock: "sched_same (relock n s) s' \<Longrightarrow> sched_same (relock m s) (relock m s')"
  by (simp add: sched_same_def relock_def)

lemma resched_refl: "kinv s \<Longrightarrow> resched s s"
  unfolding resched_def using sched_same_refl by (metis relock_simps(3))

lemma resched_trans: "resched s s' \<Longrightarrow> resched s' s'' \<Longrightarrow> resched s s''"
proof -
  assume a: "resched s s'" and b: "resched s' s''"
  from a obtain n where n: "sched_same (relock n s) s'" by (auto simp: resched_def)
  from b obtain m where m: "sched_same (relock m s') s''" by (auto simp: resched_def)
  have "sched_same (relock m s) s''" using sched_same_relock [OF n, of m] m sched_same_trans by blast
  with a b show ?thesis by (auto simp: resched_def)
qed

lemma rt_exit_critical_resched: "kinv s \<Longrightarrow> resched s (rt_exit_critical s)"
  using rt_exit_critical_same [of s] rt_exit_critical_kinv [of s] by (simp add: resched_def)

lemma rt_schedule_resched: "kinv s \<Longrightarrow> resched s (rt_schedule s)"
  using rt_schedule_same [of s] rt_schedule_kinv [of s] unfolding resched_def by (metis relock_simps(3))

lemma resched_fields:
  assumes "resched s s'"
  shows "kinv s'" "susp s' t = susp s t" "\<not> is_ready_q q \<Longrightarrow> queues s' q = queues s q"
    "prio s' t = prio s t" "th_error (threads s' t) = th_error (threads s t)"
    "sched_flag_ttmr_set (threads s' t) = sched_flag_ttmr_set (threads s t)"
    "th_init_priority (threads s' t) = th_init_priority (threads s t)"
    "th_pending_object (threads s' t) = th_pending_object (threads s t)"
    "th_taken_object_list (threads s' t) = th_taken_object_list (threads s t)"
    "th_event_set (threads s' t) = th_event_set (threads s t)"
    "th_event_info (threads s' t) = th_event_info (threads s t)"
    "sems s' = sems s" "mutexes s' = mutexes s" "events s' = events s" "mailboxes s' = mailboxes s"
    "mqueues s' = mqueues s" "kmem s' = kmem s" "timers s' = timers s" "timer_list s' = timer_list s"
    "tick s' = tick s" "timer_active s' x = timer_active s x"
proof -
  from assms obtain n where n: "sched_same (relock n s) s'" and k: "kinv s'" "susp s' t = susp s t"
    "\<not> is_ready_q q \<Longrightarrow> queues s' q = queues s q" by (auto simp: resched_def)
  then show "kinv s'" "susp s' t = susp s t" "\<not> is_ready_q q \<Longrightarrow> queues s' q = queues s q" by auto
  show "prio s' t = prio s t" "th_error (threads s' t) = th_error (threads s t)"
    "sched_flag_ttmr_set (threads s' t) = sched_flag_ttmr_set (threads s t)"
    "th_init_priority (threads s' t) = th_init_priority (threads s t)"
    "th_pending_object (threads s' t) = th_pending_object (threads s t)"
    "th_taken_object_list (threads s' t) = th_taken_object_list (threads s t)"
    "th_event_set (threads s' t) = th_event_set (threads s t)"
    "th_event_info (threads s' t) = th_event_info (threads s t)"
    using sched_same_fields [OF n] by simp_all
  show "sems s' = sems s" "mutexes s' = mutexes s" "events s' = events s" "mailboxes s' = mailboxes s"
    "mqueues s' = mqueues s" "kmem s' = kmem s" "timers s' = timers s" "timer_list s' = timer_list s"
    "tick s' = tick s" "timer_active s' x = timer_active s x"
    using n by (simp_all add: sched_same_def timer_active_def relock_def)
qed

section \<open>The invariant of waiting threads\<close>

definition ttmr_ok :: "kernel \<Rightarrow> bool" where
  "ttmr_ok s \<longleftrightarrow> (\<forall>t. susp s t \<longrightarrow> sched_flag_ttmr_set (threads s t) \<longrightarrow> timer_active s (Thread_Timer t))"

definition kok :: "kernel \<Rightarrow> bool" where
  "kok s \<longleftrightarrow> kinv s \<and> ttmr_ok s"

lemma kokD: "kok s \<Longrightarrow> kinv s" "kok s \<Longrightarrow> ttmr_ok s"
  by (simp_all add: kok_def)

lemma kok_cong:
  "queues s' = queues s \<Longrightarrow> threads s' = threads s \<Longrightarrow> ready_priority_group s' = ready_priority_group s \<Longrightarrow>
   current_thread s' = current_thread s \<Longrightarrow> timers s' = timers s \<Longrightarrow> kok s' = kok s"
  using kinv_cong [of s' s] by (simp add: kok_def ttmr_ok_def timer_active_def)

lemma kok_globals [simp]:
  "kok (rt_enter_critical s) = kok s" "kok (s\<lparr>sems := a\<rparr>) = kok s" "kok (s\<lparr>mutexes := b\<rparr>) = kok s"
  "kok (s\<lparr>events := c\<rparr>) = kok s" "kok (s\<lparr>mailboxes := d\<rparr>) = kok s" "kok (s\<lparr>mqueues := e\<rparr>) = kok s"
  "kok (s\<lparr>kmem := f\<rparr>) = kok s" "kok (s\<lparr>tick := g\<rparr>) = kok s" "kok (s\<lparr>interrupt_nest := h\<rparr>) = kok s"
  by (rule kok_cong; simp add: rt_enter_critical_def)+

lemma resched_kok: "resched s s' \<Longrightarrow> kok s \<Longrightarrow> kok s'"
  using resched_fields [of s s'] by (simp add: kok_def ttmr_ok_def)

lemma kok_schedule [intro]: "kok s \<Longrightarrow> kok (rt_schedule s)"
  and kok_exit_critical [intro]: "kok s \<Longrightarrow> kok (rt_exit_critical s)"
  using resched_kok rt_schedule_resched rt_exit_critical_resched kokD(1) by blast+

lemma kok_set_th_error [simp]: "kok (set_th_error t e s) = kok s"
  by (auto simp: kok_def ttmr_ok_def timer_active_def)

text \<open>A state in which the caller holds a lock and one that it can lock.\<close>

lemma nest_ok_locked: "nest_ok s \<Longrightarrow> locked (rt_enter_critical s)"
  by (simp add: nest_ok_def locked_def rt_enter_critical_def i16_id)

lemma locked_globals [simp]:
  "locked (s\<lparr>sems := a\<rparr>) = locked s" "locked (s\<lparr>mutexes := b\<rparr>) = locked s" "locked (s\<lparr>events := c\<rparr>) = locked s"
  "locked (s\<lparr>mailboxes := d\<rparr>) = locked s" "locked (s\<lparr>mqueues := e\<rparr>) = locked s" "locked (s\<lparr>kmem := f\<rparr>) = locked s"
  by (simp_all add: locked_def)

lemma enter_critical_frame [simp]:
  "queues (rt_enter_critical s) = queues s" "sems (rt_enter_critical s) = sems s"
  "mutexes (rt_enter_critical s) = mutexes s" "events (rt_enter_critical s) = events s"
  "mailboxes (rt_enter_critical s) = mailboxes s" "mqueues (rt_enter_critical s) = mqueues s"
  "kmem (rt_enter_critical s) = kmem s" "current_thread (rt_enter_critical s) = current_thread s"
  by (simp_all add: rt_enter_critical_def)

lemma enq_deq_objects [simp]:
  "sems (deq_node t s) = sems s" "mutexes (deq_node t s) = mutexes s" "events (deq_node t s) = events s"
  "mailboxes (deq_node t s) = mailboxes s" "mqueues (deq_node t s) = mqueues s" "kmem (deq_node t s) = kmem s"
  "sems (enq_tail q t s) = sems s" "mutexes (enq_tail q t s) = mutexes s" "events (enq_tail q t s) = events s"
  "mailboxes (enq_tail q t s) = mailboxes s" "mqueues (enq_tail q t s) = mqueues s" "kmem (enq_tail q t s) = kmem s"
  "sems (enq_head q t s) = sems s" "mutexes (enq_head q t s) = mutexes s" "events (enq_head q t s) = events s"
  "mailboxes (enq_head q t s) = mailboxes s" "mqueues (enq_head q t s) = mqueues s" "kmem (enq_head q t s) = kmem s"
  by (simp_all add: deq_node_def enq_tail_def enq_head_def)

section \<open>Waking a thread\<close>

text \<open>Stopping the timeout of a thread that is about to be woken.\<close>

definition disarm :: "tid \<Rightarrow> kernel \<Rightarrow> kernel" where
  "disarm t s =
     (if sched_flag_ttmr_set (threads s t)
      then upd_thread t (\<lambda>th. th\<lparr>sched_flag_ttmr_set := False\<rparr>)
        (timer_deactivate (Thread_Timer t) (timer_remove (Thread_Timer t) s))
      else s)"

lemma disarm_frame [simp]:
  "queues (disarm t s) = queues s" "current_thread (disarm t s) = current_thread s"
  "locked (disarm t s) = locked s" "scheduler_lock_nest (disarm t s) = scheduler_lock_nest s"
  "th_stat (threads (disarm t s) t') = th_stat (threads s t')" "prio (disarm t s) t' = prio s t'"
  "th_error (threads (disarm t s) t') = th_error (threads s t')"
  "th_init_priority (threads (disarm t s) t') = th_init_priority (threads s t')"
  "th_pending_object (threads (disarm t s) t') = th_pending_object (threads s t')"
  "th_taken_object_list (threads (disarm t s) t') = th_taken_object_list (threads s t')"
  "th_event_set (threads (disarm t s) t') = th_event_set (threads s t')"
  "th_event_info (threads (disarm t s) t') = th_event_info (threads s t')"
  "sems (disarm t s) = sems s" "mutexes (disarm t s) = mutexes s" "events (disarm t s) = events s"
  "mailboxes (disarm t s) = mailboxes s" "mqueues (disarm t s) = mqueues s" "kmem (disarm t s) = kmem s"
  "tick (disarm t s) = tick s"
  by (simp_all add: disarm_def timer_deactivate_def upd_timer_def timer_remove_def locked_def)

lemma disarm_kinv: "kinv s \<Longrightarrow> kinv (disarm t s)"
  unfolding disarm_def by (auto intro!: kinv_upd_thread_neutral)

lemma wake_frame [simp]:
  "current_thread (wake t s) = current_thread s" "locked (wake t s) = locked s"
  "scheduler_lock_nest (wake t s) = scheduler_lock_nest s" "timers (wake t s) = timers s"
  "sems (wake t s) = sems s" "mutexes (wake t s) = mutexes s" "events (wake t s) = events s"
  "mailboxes (wake t s) = mailboxes s" "mqueues (wake t s) = mqueues s" "kmem (wake t s) = kmem s"
  "tick (wake t s) = tick s" "prio (wake t s) t' = prio s t'"
  "th_error (threads (wake t s) t') = th_error (threads s t')"
  "sched_flag_ttmr_set (threads (wake t s) t') = sched_flag_ttmr_set (threads s t')"
  "th_init_priority (threads (wake t s) t') = th_init_priority (threads s t')"
  "th_pending_object (threads (wake t s) t') = th_pending_object (threads s t')"
  "th_taken_object_list (threads (wake t s) t') = th_taken_object_list (threads s t')"
  "th_event_set (threads (wake t s) t') = th_event_set (threads s t')"
  "th_event_info (threads (wake t s) t') = th_event_info (threads s t')"
  by (simp_all add: wake_def rt_sched_insert_thread_threads deq_node_def locked_def)

lemma wake_queues: "\<not> is_ready_q q \<Longrightarrow> queues (wake t s) q = filter (\<lambda>x. x \<noteq> t) (queues s q)"
  by (simp add: wake_def rt_sched_insert_thread_queues)

lemma wake_susp: "susp (wake t s) t' \<longleftrightarrow> t' \<noteq> t \<and> susp s t'"
  by (auto simp: wake_def rt_sched_insert_thread_threads stat_simps)

lemma timer_active_disarm:
  "t' \<noteq> t \<Longrightarrow> timer_active (disarm t s) (Thread_Timer t') = timer_active s (Thread_Timer t')"
  by (simp add: disarm_def timer_active_def timer_deactivate_def)

lemma wake_disarm_kok: "kok s \<Longrightarrow> susp s t \<Longrightarrow> kok (wake t (disarm t s))"
proof -
  assume k: "kok s" and t: "susp s t"
  have "kinv (wake t (disarm t s))"
    by (rule wake_kinv) (use k t in \<open>auto simp: kok_def intro: disarm_kinv\<close>)
  moreover have "timer_active (wake t (disarm t s)) (Thread_Timer t')"
    if "susp (wake t (disarm t s)) t'" "sched_flag_ttmr_set (threads (wake t (disarm t s)) t')" for t'
  proof -
    from that(1) have t': "t' \<noteq> t" "susp s t'" by (auto simp: wake_susp)
    then have "sched_flag_ttmr_set (threads s t')" using that(2) by (auto simp: disarm_def split: if_splits)
    with t' k have "timer_active s (Thread_Timer t')" by (simp add: kok_def ttmr_ok_def)
    then show ?thesis using timer_active_disarm [OF t'(1)] by (simp add: timer_active_def)
  qed
  ultimately show ?thesis by (simp add: kok_def ttmr_ok_def)
qed

text \<open>The behaviour of \<^verbatim>\<open>rt_sched_thread_ready\<close> for a caller that holds a lock.\<close>

lemma rt_sched_thread_ready_locked:
  assumes "locked s" and "kok s" and "susp s t"
  shows "rt_sched_thread_ready t s = (RT_EOK, wake t (disarm t s))"
proof -
  have "sched_flag_ttmr_set (threads s t) \<Longrightarrow> timer_active s (Thread_Timer t)"
    using assms(2,3) by (simp add: kok_def ttmr_ok_def)
  with assms show ?thesis
    by (auto simp: rt_sched_thread_ready_def rt_sched_thread_is_suspended_def rt_sched_thread_timer_stop_def
        rt_timer_stop_locked Let_def disarm_def wake_def)
qed

lemma wait_q_susp: "kinv s \<Longrightarrow> is_wait_q q \<Longrightarrow> t \<in> set (queues s q) \<Longrightarrow> susp s t"
  using kinvD(1) [of s t] by (auto simp: th_ok_def is_wait_q_def)

lemma rt_susp_list_dequeue_locked:
  fixes e :: rt_err_t
  assumes "locked s" and "kok s" and "is_wait_q q" and "queues s q = t # ts"
  defines "s' \<equiv> snd (rt_susp_list_dequeue q e s)"
  shows "rt_susp_list_dequeue q e s =
      (Some t, if e \<ge> 0 then set_th_error t e (wake t (disarm t s)) else wake t (disarm t s))"
    and "kok s'" and "locked s'" and "scheduler_lock_nest s' = scheduler_lock_nest s"
    and "queues s' q = ts"
    and "\<And>q'. q' \<noteq> q \<Longrightarrow> \<not> is_ready_q q' \<Longrightarrow> queues s' q' = queues s q'"
    and "\<And>t'. susp s' t' \<longleftrightarrow> t' \<noteq> t \<and> susp s t'"
    and "\<And>t'. th_error (threads s' t') = (if t' = t \<and> e \<ge> 0 then e else th_error (threads s t'))"
proof -
  have su: "susp s t" using wait_q_susp [OF kokD(1) [OF assms(2)] assms(3)] assms(4) by auto
  show eq: "rt_susp_list_dequeue q e s =
      (Some t, if e \<ge> 0 then set_th_error t e (wake t (disarm t s)) else wake t (disarm t s))"
    using rt_sched_thread_ready_locked [OF assms(1,2) su] assms(4) by (simp add: rt_susp_list_dequeue_def)
  show "kok s'" using wake_disarm_kok [OF assms(2) su] by (simp add: s'_def eq)
  show "locked s'" using assms(1) by (simp add: s'_def eq)
  show "scheduler_lock_nest s' = scheduler_lock_nest s" by (simp add: s'_def eq)
  have qok: "queues_ok s" using kokD(1) [OF assms(2)] kinvD(2) by blast
  have nr: "\<not> is_ready_q q" using assms(3) by (simp add: is_wait_q_def)
  have "distinct (t # ts)" using qok assms(4) by (metis queues_ok_def)
  then show "queues s' q = ts" using assms(4) nr by (simp add: s'_def eq wake_queues)
  show "queues s' q' = queues s q'" if "q' \<noteq> q" "\<not> is_ready_q q'" for q'
  proof -
    have "t \<notin> set (queues s q')" using qok assms(4) that(1) by (metis queues_ok_def list.set_intros(1))
    with that show ?thesis by (simp add: s'_def eq wake_queues)
  qed
  show "susp s' t' \<longleftrightarrow> t' \<noteq> t \<and> susp s t'" for t' by (auto simp: s'_def eq wake_susp)
  show "th_error (threads s' t') = (if t' = t \<and> e \<ge> 0 then e else th_error (threads s t'))" for t'
    by (simp add: s'_def eq)
qed

section \<open>Waking all threads of a list\<close>

lemma resume_loop_locked:
  fixes e :: rt_err_t
  assumes "locked s" and "kok s" and "is_wait_q q" and "length (queues s q) < n"
  defines "s' \<equiv> susp_list_resume_loop n q e s"
  shows "kok s' \<and> locked s' \<and> scheduler_lock_nest s' = scheduler_lock_nest s \<and> queues s' q = [] \<and>
    (\<forall>q'. q' \<noteq> q \<longrightarrow> \<not> is_ready_q q' \<longrightarrow> queues s' q' = queues s q') \<and>
    (\<forall>t. susp s' t \<longleftrightarrow> t \<notin> set (queues s q) \<and> susp s t) \<and>
    (\<forall>t. th_error (threads s' t) = (if t \<in> set (queues s q) \<and> e \<ge> 0 then e else th_error (threads s t))) \<and>
    sems s' = sems s \<and> mutexes s' = mutexes s \<and> events s' = events s \<and> mailboxes s' = mailboxes s \<and>
    mqueues s' = mqueues s \<and> kmem s' = kmem s"
  unfolding s'_def using assms(1,2,4)
proof (induction n arbitrary: s)
  case (Suc n)
  show ?case
  proof (cases "queues s q")
    case Nil
    then show ?thesis using Suc.prems by (simp add: rt_susp_list_dequeue_def)
  next
    case (Cons t ts)
    define s1 where "s1 = snd (rt_susp_list_dequeue q e s)"
    note d = rt_susp_list_dequeue_locked [OF Suc.prems(1,2) assms(3) Cons, where e = e, folded s1_def]
    have s1: "sems s1 = sems s" "mutexes s1 = mutexes s" "events s1 = events s" "mailboxes s1 = mailboxes s"
      "mqueues s1 = mqueues s" "kmem s1 = kmem s"
      by (simp_all add: s1_def d(1))
    have eq: "susp_list_resume_loop (Suc n) q e s = susp_list_resume_loop n q e s1"
      using d(1) by (simp add: s1_def)
    have "length (queues s1 q) < n" using d(5) Suc.prems(3) Cons by simp
    from Suc.IH [OF d(3,2) this] show ?thesis
      unfolding eq using s1 d(4-8) Cons by (auto split: if_splits)
  qed
qed simp

text \<open>The loop has ended by itself: there is no thread left to wake.\<close>

lemma rt_susp_list_resume_all_locked:
  fixes e :: rt_err_t
  assumes "locked s" and "kok s" and "is_wait_q q"
  defines "s' \<equiv> snd (rt_susp_list_resume_all q e s)"
  shows "kok s'" "locked s'" "scheduler_lock_nest s' = scheduler_lock_nest s" "queues s' q = []"
    "\<And>q'. q' \<noteq> q \<Longrightarrow> \<not> is_ready_q q' \<Longrightarrow> queues s' q' = queues s q'"
    "\<And>t. susp s' t \<longleftrightarrow> t \<notin> set (queues s q) \<and> susp s t"
    "\<And>t. th_error (threads s' t) = (if t \<in> set (queues s q) \<and> e \<ge> 0 then e else th_error (threads s t))"
    "sems s' = sems s" "mutexes s' = mutexes s" "events s' = events s" "mailboxes s' = mailboxes s"
    "mqueues s' = mqueues s" "kmem s' = kmem s"
  unfolding s'_def rt_susp_list_resume_all_def snd_conv
  by (use resume_loop_locked [OF assms(1-3) lessI, where e = e] in blast)+

section \<open>Suspending the caller\<close>

definition ttmr_except :: "tid \<Rightarrow> kernel \<Rightarrow> bool" where
  "ttmr_except u s \<longleftrightarrow>
     (\<forall>t. t \<noteq> u \<longrightarrow> susp s t \<longrightarrow> sched_flag_ttmr_set (threads s t) \<longrightarrow> timer_active s (Thread_Timer t))"

text \<open>What stopping the timeout of \<open>u\<close> keeps, whether or not it reschedules.\<close>

definition keeps :: "kernel \<Rightarrow> kernel \<Rightarrow> bool" where
  "keeps s s' \<longleftrightarrow> (\<forall>t. susp s' t = susp s t \<and> prio s' t = prio s t \<and> th_error (threads s' t) = th_error (threads s t) \<and>
       th_init_priority (threads s' t) = th_init_priority (threads s t) \<and>
       th_pending_object (threads s' t) = th_pending_object (threads s t) \<and>
       th_taken_object_list (threads s' t) = th_taken_object_list (threads s t) \<and>
       th_event_set (threads s' t) = th_event_set (threads s t) \<and>
       th_event_info (threads s' t) = th_event_info (threads s t)) \<and>
     (\<forall>q. \<not> is_ready_q q \<longrightarrow> queues s' q = queues s q) \<and>
     sems s' = sems s \<and> mutexes s' = mutexes s \<and> events s' = events s \<and> mailboxes s' = mailboxes s \<and>
     mqueues s' = mqueues s \<and> kmem s' = kmem s \<and> tick s' = tick s"

lemma keeps_refl [simp]: "keeps s s"
  by (simp add: keeps_def)

lemma keeps_trans: "keeps s s' \<Longrightarrow> keeps s' s'' \<Longrightarrow> keeps s s''"
  by (simp add: keeps_def)

lemma resched_keeps: "resched s s' \<Longrightarrow> keeps s s'"
  by (simp add: keeps_def resched_fields)

lemma timer_ops_keeps [simp]:
  "keeps s (timer_deactivate x (timer_remove x s))" "keeps s (rt_enter_critical s)"
  "keeps s (upd_thread t (\<lambda>th. th\<lparr>sched_flag_ttmr_set := f\<rparr>) s)" "keeps s (timer_start x s)"
  "keeps s (upd_timer x g s)"
  by (simp_all add: keeps_def timer_deactivate_def timer_start_def timer_activate_def upd_timer_def Let_def
      timer_remove_def)

lemma rt_timer_stop_keeps:
  assumes "kinv s"
  shows "keeps s (snd (rt_timer_stop x s))" and "kinv (snd (rt_timer_stop x s))"
    and "sched_flag_ttmr_set (threads (snd (rt_timer_stop x s)) t) = sched_flag_ttmr_set (threads s t)"
    and "x' \<noteq> x \<Longrightarrow> timer_active (snd (rt_timer_stop x s)) x' = timer_active s x'"
proof -
  define s1 where "s1 = (if timer_active (rt_enter_critical s) x
    then timer_deactivate x (timer_remove x (rt_enter_critical s)) else rt_enter_critical s)"
  have eq: "snd (rt_timer_stop x s) = rt_exit_critical s1"
    by (simp add: rt_timer_stop_def spin_defs Let_def s1_def)
  have k: "kinv s1" using assms by (simp add: s1_def)
  have s1: "keeps s s1"
    unfolding s1_def using keeps_trans [OF timer_ops_keeps(2) timer_ops_keeps(1)] by auto
  note r = rt_exit_critical_resched [OF k]
  show "keeps s (snd (rt_timer_stop x s))" unfolding eq using keeps_trans [OF s1 resched_keeps [OF r]] .
  show "kinv (snd (rt_timer_stop x s))" unfolding eq by (rule rt_exit_critical_kinv [OF k])
  show "sched_flag_ttmr_set (threads (snd (rt_timer_stop x s)) t) = sched_flag_ttmr_set (threads s t)"
    unfolding eq resched_fields(6) [OF r] by (simp add: s1_def)
  show "timer_active (snd (rt_timer_stop x s)) x' = timer_active s x'" if "x' \<noteq> x"
    unfolding eq resched_fields(21) [OF r] using that
    by (simp add: s1_def timer_active_def timer_deactivate_def)
qed

lemma rt_sched_thread_timer_stop_result:
  fixes t :: tid
  assumes "kinv s"
  defines "s' \<equiv> snd (rt_sched_thread_timer_stop t s)"
  shows "keeps s s'" and "kinv s'" and "\<not> sched_flag_ttmr_set (threads s' t)"
    and "ttmr_except t s \<Longrightarrow> ttmr_ok s'"
proof -
  let ?u = "upd_thread t (\<lambda>th. th\<lparr>sched_flag_ttmr_set := False\<rparr>)"
  let ?s1 = "snd (rt_timer_stop (Thread_Timer t) s)"
  note r = rt_timer_stop_keeps [OF assms(1), where x = "Thread_Timer t"]
  have eq: "s' = (if sched_flag_ttmr_set (threads s t) then ?u ?s1 else s)"
    by (simp add: s'_def rt_sched_thread_timer_stop_def Let_def split: prod.splits)
  show k: "keeps s s'" using keeps_trans [OF r(1) timer_ops_keeps(3)] by (auto simp: eq)
  show "kinv s'" unfolding s'_def by (rule rt_sched_thread_timer_stop_kinv(1) [OF assms(1)])
  show nf: "\<not> sched_flag_ttmr_set (threads s' t)" by (simp add: eq)
  show "ttmr_ok s'" if "ttmr_except t s"
    unfolding ttmr_ok_def
  proof (intro allI impI)
    fix u assume u: "susp s' u" "sched_flag_ttmr_set (threads s' u)"
    then have "u \<noteq> t" using nf by blast
    moreover have "susp s u" using u(1) k by (simp add: keeps_def)
    moreover have "sched_flag_ttmr_set (threads s u)" using u(2) \<open>u \<noteq> t\<close> r(3) by (simp add: eq split: if_splits)
    ultimately show "timer_active s' (Thread_Timer u)"
      using that r(4) [where x' = "Thread_Timer u"]
      by (auto simp: ttmr_except_def eq timer_active_def split: if_splits)
  qed
qed

text \<open>Where a thread that waits goes in the list, by the object's flag.\<close>

definition wait_order :: "u8 \<Rightarrow> kernel \<Rightarrow> tid \<Rightarrow> tid list \<Rightarrow> tid list" where
  "wait_order flag s t ts =
     (if flag = RT_IPC_FLAG_FIFO then ts @ [t]
      else if flag = RT_IPC_FLAG_PRIO then
        takeWhile (\<lambda>n. prio s n \<le> prio s t) ts @ t # dropWhile (\<lambda>n. prio s n \<le> prio s t) ts
      else ts)"

text \<open>\<open>suspended s s' t q flag\<close>: the running thread \<open>t\<close> of \<open>s\<close> waits in \<open>q\<close> in \<open>s'\<close>, and nothing else has
  changed that the communication objects can see.\<close>

definition suspended :: "kernel \<Rightarrow> kernel \<Rightarrow> tid \<Rightarrow> queue_id \<Rightarrow> u8 \<Rightarrow> bool" where
  "suspended s s' t q flag \<longleftrightarrow>
     kok s' \<and> susp s' t \<and> (\<forall>t'. t' \<noteq> t \<longrightarrow> susp s' t' = susp s t') \<and>
     queues s' q = wait_order flag s t (queues s q) \<and>
     (\<forall>q'. q' \<noteq> q \<longrightarrow> \<not> is_ready_q q' \<longrightarrow> queues s' q' = queues s q') \<and>
     (\<forall>t'. prio s' t' = prio s t' \<and> th_error (threads s' t') = th_error (threads s t') \<and>
       th_init_priority (threads s' t') = th_init_priority (threads s t') \<and>
       th_pending_object (threads s' t') = th_pending_object (threads s t') \<and>
       th_taken_object_list (threads s' t') = th_taken_object_list (threads s t') \<and>
       th_event_set (threads s' t') = th_event_set (threads s t') \<and>
       th_event_info (threads s' t') = th_event_info (threads s t')) \<and>
     sems s' = sems s \<and> mutexes s' = mutexes s \<and> events s' = events s \<and> mailboxes s' = mailboxes s \<and>
     mqueues s' = mqueues s \<and> kmem s' = kmem s \<and> tick s' = tick s"

lemma suspended_keeps:
  "suspended s s1 t q flag \<Longrightarrow> keeps s1 s2 \<Longrightarrow> kok s2 \<Longrightarrow> \<not> is_ready_q q \<Longrightarrow> suspended s s2 t q flag"
  unfolding suspended_def keeps_def by simp

lemma enqueue_frame [simp]:
  "threads (snd (rt_susp_list_enqueue q t fl s)) = threads s"
  "sems (snd (rt_susp_list_enqueue q t fl s)) = sems s" "mutexes (snd (rt_susp_list_enqueue q t fl s)) = mutexes s"
  "events (snd (rt_susp_list_enqueue q t fl s)) = events s"
  "mailboxes (snd (rt_susp_list_enqueue q t fl s)) = mailboxes s"
  "mqueues (snd (rt_susp_list_enqueue q t fl s)) = mqueues s" "kmem (snd (rt_susp_list_enqueue q t fl s)) = kmem s"
  "tick (snd (rt_susp_list_enqueue q t fl s)) = tick s" "timers (snd (rt_susp_list_enqueue q t fl s)) = timers s"
  "queues (snd (rt_susp_list_enqueue q t fl s)) =
     (queues s)(q := wait_order fl s t (queues s q))"
  by (simp_all add: rt_susp_list_enqueue_def enq_tail_def wait_order_def prio_insert_eq
      rt_sched_thread_get_curr_prio_def)

lemma rt_thread_suspend_to_list_suspended:
  assumes "kok s" and "st s t = RT_THREAD_RUNNING" and "is_wait_q q"
  shows "fst (rt_thread_suspend_to_list t (Some q) flag sf s) = RT_EOK"
    and "suspended s (snd (rt_thread_suspend_to_list t (Some q) flag sf s)) t q flag"
proof -
  let ?s1 = "thread_set_suspend_state t sf (rt_sched_remove_thread t s)"
  let ?s2 = "snd (rt_susp_list_enqueue q t flag ?s1)"
  have k: "kinv s" and tt: "ttmr_ok s" using assms(1) by (simp_all add: kok_def)
  have q: "t \<notin> set (queues s q')" for q'
    using running_unqueued(1) [OF kinvD(1) [OF k] assms(2)] by (auto simp: unqueued_def)
  have eq: "rt_thread_suspend_to_list t (Some q) flag sf s = (RT_EOK, snd (rt_sched_thread_timer_stop t ?s2))"
    using assms(2) by (simp add: rt_thread_suspend_to_list_def rt_sched_thread_get_stat_def Let_def)
  have r: "kinv_except {t} (rt_sched_remove_thread t s)" "unqueued (rt_sched_remove_thread t s) t"
    using rt_sched_remove_thread_kinv [of "{}" s t] k kinvD(1) [OF k, of t] assms(2)
      queue_of_th_ok [OF kinvD(1) [OF k]] by (auto simp: kinv_def th_ok_def)
  have m: "mask_ok s t" using kinvD(1) [OF k, of t] assms(2) by (simp add: th_ok_def)
  have k2: "kinv ?s2"
    by (rule susp_enqueue_kinv)
      (use set_th_stat_kinv_except [OF r(1)] r(2) m assms(3) in
        \<open>simp_all add: thread_set_suspend_state_def unqueued_def stat_simps mask_ok_def\<close>)
  have t2: "ttmr_except t ?s2"
    using tt by (simp add: ttmr_ok_def ttmr_except_def thread_set_suspend_state_def timer_active_def)
  note st = rt_sched_thread_timer_stop_result [OF k2, of t]
  have k3: "kok (snd (rt_sched_thread_timer_stop t ?s2))" using st(2,4) t2 by (simp add: kok_def)
  have "(\<lambda>n. prio ?s1 n \<le> prio ?s1 t) = (\<lambda>n. prio s n \<le> prio s t)"
    by (auto simp: thread_set_suspend_state_def)
  then have "wait_order flag ?s1 t (queues ?s1 q) = wait_order flag s t (queues s q)"
    unfolding wait_order_def using q by (simp add: thread_set_suspend_state_def)
  then have "suspended s (snd (rt_sched_thread_timer_stop t ?s2)) t q flag"
    using st(1) k3 q assms(3)
    by (auto simp: suspended_def keeps_def thread_set_suspend_state_def stat_simps is_wait_q_def)
  then show "fst (rt_thread_suspend_to_list t (Some q) flag sf s) = RT_EOK"
    "suspended s (snd (rt_thread_suspend_to_list t (Some q) flag sf s)) t q flag"
    by (simp_all add: eq)
qed

lemma rt_timer_control_keeps:
  fixes x :: timer_id and time :: rt_tick_t
  assumes "kinv s"
  defines "s' \<equiv> snd (rt_timer_control x (RT_TIMER_CTRL_SET_TIME time) s)"
  shows "keeps s s'" "kinv s'" "sched_flag_ttmr_set (threads s' t) = sched_flag_ttmr_set (threads s t)"
    "x' \<noteq> x \<Longrightarrow> timer_active s' x' = timer_active s x'"
proof -
  define s1 where "s1 = snd (timer_control_body x (RT_TIMER_CTRL_SET_TIME time) (rt_enter_critical s))"
  have eq: "s' = rt_exit_critical s1"
    by (simp add: s'_def rt_timer_control_def spin_defs s1_def split: prod.splits)
  have k: "kinv s1" using assms(1) by (simp add: s1_def timer_control_body_kinv)
  have "keeps (rt_enter_critical s) s1"
    unfolding s1_def timer_control_body_def Let_def
    using keeps_trans [OF timer_ops_keeps(1) timer_ops_keeps(5)] by (auto intro: timer_ops_keeps)
  then have s1: "keeps s s1" using keeps_trans [OF timer_ops_keeps(2)] by blast
  note r = rt_exit_critical_resched [OF k]
  show "keeps s s'" unfolding eq using keeps_trans [OF s1 resched_keeps [OF r]] .
  show "kinv s'" unfolding eq by (rule rt_exit_critical_kinv [OF k])
  show "sched_flag_ttmr_set (threads s' t) = sched_flag_ttmr_set (threads s t)"
    unfolding eq resched_fields(6) [OF r] by (simp add: s1_def timer_control_body_def Let_def)
  show "timer_active s' x' = timer_active s x'" if "x' \<noteq> x"
    unfolding eq resched_fields(21) [OF r] using that
    by (simp add: s1_def timer_control_body_def Let_def timer_active_def timer_deactivate_def)
qed

lemma rt_timer_start_keeps:
  fixes t :: tid
  assumes "kinv s"
  defines "s' \<equiv> snd (rt_timer_start (Thread_Timer t) s)"
  shows "keeps s s'" "kinv s'" "timer_active s' (Thread_Timer t)"
    "u \<noteq> t \<Longrightarrow> sched_flag_ttmr_set (threads s' u) = sched_flag_ttmr_set (threads s u)"
    "x' \<noteq> Thread_Timer t \<Longrightarrow> timer_active s' x' = timer_active s x'"
proof -
  define s0 where "s0 = (if tm_flag (timers s (Thread_Timer t)) AND RT_TIMER_FLAG_THREAD_TIMER \<noteq> 0
    then upd_thread t (\<lambda>th. th\<lparr>sched_flag_ttmr_set := True\<rparr>) s else s)"
  define s1 where "s1 = timer_start (Thread_Timer t) (rt_enter_critical s0)"
  have eq: "s' = rt_exit_critical s1"
    by (simp add: s'_def rt_timer_start_def spin_defs s1_def s0_def)
  have k0: "kinv s0" unfolding s0_def using assms(1) by (auto intro!: kinv_upd_thread_neutral)
  then have k: "kinv s1" by (simp add: s1_def)
  have "keeps s s0" by (simp add: s0_def)
  then have s1: "keeps s s1"
    unfolding s1_def using keeps_trans timer_ops_keeps(2,4) by blast
  note r = rt_exit_critical_resched [OF k]
  show "keeps s s'" unfolding eq using keeps_trans [OF s1 resched_keeps [OF r]] .
  show "kinv s'" unfolding eq by (rule rt_exit_critical_kinv [OF k])
  show "timer_active s' (Thread_Timer t)"
    unfolding eq resched_fields(21) [OF r] by (simp add: s1_def)
  show "sched_flag_ttmr_set (threads s' u) = sched_flag_ttmr_set (threads s u)" if "u \<noteq> t"
    unfolding eq resched_fields(6) [OF r] using that by (simp add: s1_def s0_def)
  show "timer_active s' x' = timer_active s x'" if "x' \<noteq> Thread_Timer t"
  proof -
    have "timer_active s0 x' = timer_active s x'" by (simp add: s0_def timer_active_def)
    then show ?thesis unfolding eq resched_fields(21) [OF r] using that by (simp add: s1_def)
  qed
qed

lemma arm_thread_timer_keeps:
  assumes "kok s"
  shows "keeps s (arm_thread_timer t time s)" and "kok (arm_thread_timer t time s)"
    and "timer_active (arm_thread_timer t time s) (Thread_Timer t)"
proof -
  let ?s1 = "snd (rt_timer_control (Thread_Timer t) (RT_TIMER_CTRL_SET_TIME time) s)"
  have k: "kinv s" "ttmr_ok s" using assms by (simp_all add: kok_def)
  note c = rt_timer_control_keeps [OF k(1), where x = "Thread_Timer t" and time = time]
  note b = rt_timer_start_keeps [OF c(2), where t = t]
  have eq: "arm_thread_timer t time s = snd (rt_timer_start (Thread_Timer t) ?s1)"
    by (simp add: arm_thread_timer_def)
  show ke: "keeps s (arm_thread_timer t time s)" unfolding eq using keeps_trans [OF c(1) b(1)] .
  show ac: "timer_active (arm_thread_timer t time s) (Thread_Timer t)" unfolding eq by (rule b(3))
  have "timer_active (arm_thread_timer t time s) (Thread_Timer u)"
    if "susp (arm_thread_timer t time s) u" "sched_flag_ttmr_set (threads (arm_thread_timer t time s) u)" for u
  proof (cases "u = t")
    case False
    have "susp s u" using that(1) ke by (simp add: keeps_def)
    moreover have "sched_flag_ttmr_set (threads s u)" using that(2) b(4) [OF False] c(3) by (simp add: eq)
    ultimately show ?thesis using k(2) b(5) [where x' = "Thread_Timer u"] c(4) [where x' = "Thread_Timer u"] False
      by (simp add: eq ttmr_ok_def)
  qed (simp add: ac)
  then show "kok (arm_thread_timer t time s)" using b(2) by (simp add: kok_def ttmr_ok_def eq)
qed

lemma ipc_suspend_suspended:
  assumes "kok s" and "st s t = RT_THREAD_RUNNING" and "is_wait_q q"
  shows "fst (ipc_suspend q flag sf timeout t s) = RT_EOK"
    and "suspended s (snd (ipc_suspend q flag sf timeout t s)) t q flag"
proof -
  let ?r = "rt_thread_suspend_to_list t (Some q) flag sf s"
  note su = rt_thread_suspend_to_list_suspended [OF assms, of flag sf]
  have k: "kok (snd ?r)" using su(2) by (simp add: suspended_def)
  have nr: "\<not> is_ready_q q" using assms(3) by (simp add: is_wait_q_def)
  have eq: "ipc_suspend q flag sf timeout t s =
      (RT_EOK, if timeout > 0 then arm_thread_timer t (word_of_int timeout) (snd ?r) else snd ?r)"
    using su(1) by (cases ?r) (simp add: ipc_suspend_def)
  show "fst (ipc_suspend q flag sf timeout t s) = RT_EOK" by (simp add: eq)
  show "suspended s (snd (ipc_suspend q flag sf timeout t s)) t q flag"
    using su(2) suspended_keeps [OF su(2) arm_thread_timer_keeps(1,2) [OF k] nr] by (simp add: eq)
qed

text \<open>Leaving the critical section after the suspension.\<close>

lemma suspended_exit:
  assumes "suspended s s1 t q flag" and "is_wait_q q"
  shows "suspended s (rt_exit_critical s1) t q flag"
proof -
  have k: "kok s1" using assms(1) by (simp add: suspended_def)
  show ?thesis
    by (rule suspended_keeps [OF assms(1) resched_keeps [OF rt_exit_critical_resched [OF kokD(1) [OF k]]]])
      (use k assms(2) in \<open>auto simp: is_wait_q_def\<close>)
qed

section \<open>Timeouts\<close>

lemma thread_timeout_resched:
  assumes "kinv s" and "susp s t"
  shows "resched (wake t (set_th_error t (- RT_ETIMEOUT) s)) (thread_timeout t s)"
proof -
  let ?s1 = "wake t (set_th_error t (- RT_ETIMEOUT) s)"
  have k: "kinv ?s1" by (rule wake_kinv) (use assms in simp_all)
  have "thread_timeout t s = (if current_thread ?s1 = None then ?s1 else rt_schedule ?s1)"
    by (simp add: thread_timeout_def wake_def rt_sched_unlock_n_resched_def)
  then show ?thesis using resched_refl [OF k] rt_schedule_resched [OF k] by simp
qed

lemma thread_timeout_kok: "kok s \<Longrightarrow> susp s t \<Longrightarrow> kok (thread_timeout t s)"
proof -
  assume k: "kok s" and t: "susp s t"
  let ?s1 = "wake t (set_th_error t (- RT_ETIMEOUT) s)"
  have "kinv ?s1" by (rule wake_kinv) (use k t in \<open>simp_all add: kok_def\<close>)
  moreover have "ttmr_ok ?s1" using k by (auto simp: kok_def ttmr_ok_def wake_susp timer_active_def)
  ultimately show ?thesis
    using resched_kok [OF thread_timeout_resched [OF kokD(1) [OF k] t]] by (simp add: kok_def)
qed

section \<open>Leaving a call\<close>

lemma kok_upd_thread_neutral:
  assumes "kok s" and "th_stat (f (threads s t)) = th_stat (threads s t)"
    and "th_current_priority (f (threads s t)) = prio s t"
    and "th_number_mask (f (threads s t)) = th_number_mask (threads s t)"
    and "sched_flag_ttmr_set (f (threads s t)) = sched_flag_ttmr_set (threads s t)"
  shows "kok (upd_thread t f s)"
proof -
  have "kinv (upd_thread t f s)" by (rule kinv_upd_thread_neutral) (use assms in \<open>simp_all add: kok_def\<close>)
  then show ?thesis using assms by (auto simp: kok_def ttmr_ok_def timer_active_def)
qed

text \<open>The two ways a call leaves its critical section: with and without a call of the scheduler.\<close>

definition leave :: "bool \<Rightarrow> kernel \<Rightarrow> kernel" where
  "leave r s = (if r then rt_schedule (rt_exit_critical s) else rt_exit_critical s)"

lemma leave_resched: "kok s \<Longrightarrow> resched s (leave r s)"
  unfolding leave_def
  by (auto intro: resched_trans [OF rt_exit_critical_resched rt_schedule_resched] rt_exit_critical_resched
      rt_exit_critical_kinv kokD(1))

lemma leave_kok [intro]: "kok s \<Longrightarrow> kok (leave r s)"
  using resched_kok leave_resched by blast

lemma leave_eqs:
  "leave False s = rt_exit_critical s" "leave True s = rt_schedule (rt_exit_critical s)"
  "(if r then rt_schedule (rt_exit_critical s) else rt_exit_critical s) = leave r s"
  by (simp_all add: leave_def)

text \<open>A state in which thread 4 waits in \<open>q\<close>, with the given event set and information.\<close>

definition demo_blocked :: "queue_id \<Rightarrow> u32w \<Rightarrow> u8 \<Rightarrow> kernel" where
  "demo_blocked q bits info = demo_kernel\<lparr>
     threads := (threads demo_kernel)(4 := (demo_thread RT_THREAD_SUSPEND_INTERRUPTIBLE 8)
       \<lparr>th_event_set := bits, th_event_info := info\<rparr>),
     queues := (queues demo_kernel)(q := [4])\<rparr>"

lemma demo_blocked_kok:
  assumes "is_wait_q q"
  shows "kok (demo_blocked q bits info)" and "nest_ok (demo_blocked q bits info)"
    and "queues (demo_blocked q bits info) q = [4]" and "st (demo_blocked q bits info) 1 = RT_THREAD_RUNNING"
proof -
  let ?s1 = "upd_thread 4 (\<lambda>_. (demo_thread RT_THREAD_SUSPEND_INTERRUPTIBLE 8)
    \<lparr>th_event_set := bits, th_event_info := info\<rparr>) demo_kernel"
  have nr: "q \<noteq> Ready_Q p" for p using assms by (auto simp: is_wait_q_def is_ready_q_def)
  have k: "kinv_except {4} ?s1"
    using demo_kernel_kinv by (intro upd_thread_kinv_except) (auto simp: kinv_def intro: kinv_except_mono)
  have "kinv (?s1\<lparr>queues := (queues ?s1)(q := [4])\<rparr>)"
    by (rule enqueue_kinv [OF k])
      (use assms nr in \<open>auto simp: unqueued_def stat_simps mask_ok_def is_wait_q_def split: if_splits\<close>)
  then have "kinv (demo_blocked q bits info)"
    by (rule iffD1 [OF kinv_cong, rotated -1]) (simp_all add: demo_blocked_def upd_thread_def)
  then show "kok (demo_blocked q bits info)"
    by (auto simp: kok_def ttmr_ok_def demo_blocked_def split: if_splits)
qed (simp_all add: demo_blocked_def nest_ok_def stat_simps)

section \<open>Helpers of the blocking calls\<close>

text \<open>How the sending and receiving calls leave: the first thread of \<open>q\<close> is woken if there is one.\<close>

definition ipc_wake_leave :: "queue_id \<Rightarrow> kernel \<Rightarrow> kernel" where
  "ipc_wake_leave q s =
     (if queues s q \<noteq> []
      then rt_schedule (rt_spin_unlock_irqrestore (snd (rt_susp_list_dequeue q RT_EOK s)))
      else rt_spin_unlock_irqrestore s)"

text \<open>The time that is left to a call that has been woken: \<^verbatim>\<open>tick_delta\<close> is unsigned and \<^verbatim>\<open>timeout\<close> a signed word, so
  the difference is taken modulo \<open>2 ^ 32\<close> and read back as signed.\<close>

definition ipc_time_left :: "int \<Rightarrow> rt_tick_t \<Rightarrow> rt_tick_t \<Rightarrow> int" where
  "ipc_time_left timeout tick_delta now =
     (if timeout > 0 then
        (let timeout' = sint (word_of_int timeout - (now - tick_delta))
         in if timeout' < 0 then 0 else timeout')
      else timeout)"

lemma ipc_wake_leave_result:
  fixes q :: queue_id
  assumes "locked s" and "kok s" and "is_wait_q q"
  defines "s' \<equiv> ipc_wake_leave q s"
  shows "kok s'" and "queues s' q = tl (queues s q)"
    and "\<And>q'. q' \<noteq> q \<Longrightarrow> \<not> is_ready_q q' \<Longrightarrow> queues s' q' = queues s q'"
    and "\<And>t. susp s' t \<longleftrightarrow> susp s t \<and> \<not> (queues s q \<noteq> [] \<and> t = hd (queues s q))"
    and "\<And>t. th_error (threads s' t) =
          (if queues s q \<noteq> [] \<and> t = hd (queues s q) then RT_EOK else th_error (threads s t))"
    and "mailboxes s' = mailboxes s" "mqueues s' = mqueues s" "kmem s' = kmem s"
proof -
  have nr: "\<not> is_ready_q q" using assms(3) by (simp add: is_wait_q_def)
  define s1 where "s1 = (if queues s q \<noteq> [] then snd (rt_susp_list_dequeue q RT_EOK s) else s)"
  have eq: "s' = leave (queues s q \<noteq> []) s1"
    by (simp add: s'_def ipc_wake_leave_def leave_def s1_def spin_defs)
  have s1: "kok s1 \<and> queues s1 q = tl (queues s q) \<and>
    (\<forall>q'. q' \<noteq> q \<longrightarrow> \<not> is_ready_q q' \<longrightarrow> queues s1 q' = queues s q') \<and>
    (\<forall>t. susp s1 t \<longleftrightarrow> susp s t \<and> \<not> (queues s q \<noteq> [] \<and> t = hd (queues s q))) \<and>
    (\<forall>t. th_error (threads s1 t) = (if queues s q \<noteq> [] \<and> t = hd (queues s q) then RT_EOK else th_error (threads s t))) \<and>
    mailboxes s1 = mailboxes s \<and> mqueues s1 = mqueues s \<and> kmem s1 = kmem s"
  proof (cases "queues s q")
    case (Cons t ts)
    note d = rt_susp_list_dequeue_locked [OF assms(1-3) Cons, where e = RT_EOK]
    have "s1 = snd (rt_susp_list_dequeue q RT_EOK s)" by (simp add: s1_def Cons)
    moreover from this have "mailboxes s1 = mailboxes s" "mqueues s1 = mqueues s" "kmem s1 = kmem s"
      using d(1) by (simp_all add: RT_EOK_def)
    ultimately show ?thesis using d(2,5-8) Cons by (auto simp: RT_EOK_def)
  qed (use assms(2) in \<open>simp add: s1_def\<close>)
  then have k: "kok s1" by simp
  note f = resched_fields [OF leave_resched [OF k]]
  show "kok s'" "queues s' q = tl (queues s q)" "mailboxes s' = mailboxes s" "mqueues s' = mqueues s" "kmem s' = kmem s"
    using leave_kok [OF k] s1 f(3) [OF nr] f(15-17) by (simp_all add: eq)
  show "queues s' q' = queues s q'" if "q' \<noteq> q" "\<not> is_ready_q q'" for q' using s1 f(3) that by (simp add: eq)
  show "susp s' t \<longleftrightarrow> susp s t \<and> \<not> (queues s q \<noteq> [] \<and> t = hd (queues s q))"
    "th_error (threads s' t) = (if queues s q \<noteq> [] \<and> t = hd (queues s q) then RT_EOK else th_error (threads s t))" for t
    using s1 unfolding eq f(2,5) by auto
qed

lemma wait_order_cong: "(\<And>t. prio s' t = prio s t) \<Longrightarrow> wait_order flag s' = wait_order flag s"
  by (simp add: wait_order_def fun_eq_iff)

lemma nest_ok_schedule [simp]: "kinv s \<Longrightarrow> nest_ok (rt_schedule s) = nest_ok s"
  using rt_schedule_same(1) [of s] by (simp add: nest_ok_def sched_same_def)

text \<open>The waiting branch of a blocking call, from the lock to the release.\<close>

lemma ipc_wait_suspended:
  assumes "kok s" and "st s t = RT_THREAD_RUNNING" and "is_wait_q q"
  obtains s' where "ipc_suspend q flag sf timeout t (set_th_error t e s) = (RT_EOK, s')"
    and "suspended (set_th_error t e s) (rt_exit_critical s') t q flag"
proof -
  let ?s = "set_th_error t e s"
  have "kok ?s" "st ?s t = RT_THREAD_RUNNING" using assms by simp_all
  note su = ipc_suspend_suspended [OF this assms(3), of flag sf timeout]
  show thesis
    by (rule that [of "snd (ipc_suspend q flag sf timeout t ?s)"])
      (use su suspended_exit [OF su(2) assms(3)] in \<open>auto intro: prod_eqI\<close>)
qed

end
