(* ===== verification/Semaphore.thy ===== *)
theory Semaphore
  imports Ipc_Base
begin

unbundle bit_operations_syntax

text \<open>
  Semaphores, \<^verbatim>\<open>src/ipc.c\<close>.  The wait list of semaphore \<open>i\<close> is the queue \<open>Sem_Q i\<close>.  A take that blocks is
  split at the point where the caller has been suspended and the lock released:
  \<open>rt_sem_take_enter\<close> is everything before, \<open>rt_sem_take_resume\<close> what the caller does when it runs
  again.  The functional specification is a pair of counter and waiting threads; the operations
  refine it, and a trace of operations conserves tokens.
\<close>

section \<open>Operations\<close>

definition RT_SEM_VALUE_MAX :: nat where "RT_SEM_VALUE_MAX = 65535"

definition upd_sem :: "nat \<Rightarrow> (rt_semaphore \<Rightarrow> rt_semaphore) \<Rightarrow> kernel \<Rightarrow> kernel" where
  "upd_sem i f s = s\<lparr>sems := (sems s)(i := f (sems s i))\<rparr>"

definition sem_object_init :: "nat \<Rightarrow> nat \<Rightarrow> u8 \<Rightarrow> nat \<Rightarrow> kernel \<Rightarrow> kernel" where
  "sem_object_init i value flag max_value s =
     (s\<lparr>queues := (queues s)(Sem_Q i := [])\<rparr>)
       \<lparr>sems := (sems s)(i := \<lparr>sem_flag = flag, sem_value = value mod 2 ^ 16, sem_max_value = max_value mod 2 ^ 16\<rparr>)\<rparr>"

definition rt_sem_init :: "nat \<Rightarrow> nat \<Rightarrow> u8 \<Rightarrow> kernel \<Rightarrow> rt_err_t \<times> kernel" where
  "rt_sem_init i value flag s = (RT_EOK, sem_object_init i value flag RT_SEM_VALUE_MAX s)"

definition rt_sem_detach :: "nat \<Rightarrow> kernel \<Rightarrow> rt_err_t \<times> kernel" where
  "rt_sem_detach i s =
     (let s1 = snd (rt_susp_list_resume_all (Sem_Q i) RT_ERROR (rt_spin_lock_irqsave s))
      in (RT_EOK, rt_spin_unlock_irqrestore s1))"

definition rt_sem_take_enter :: "nat \<Rightarrow> int \<Rightarrow> suspend_flag \<Rightarrow> tid \<Rightarrow> kernel \<Rightarrow> rt_err_t outcome \<times> kernel" where
  "rt_sem_take_enter i timeout suspend_flag thread s =
     (let s1 = rt_spin_lock_irqsave s
      in if sem_value (sems s1 i) > 0 then
           (Done RT_EOK, rt_spin_unlock_irqrestore (upd_sem i (\<lambda>sem. sem\<lparr>sem_value := sem_value sem - 1\<rparr>) s1))
         else if timeout = 0 then (Done (- RT_ETIMEOUT), rt_spin_unlock_irqrestore s1)
         else
           (let s2 = set_th_error thread RT_EINTR s1;
                (ret, s3) = ipc_suspend (Sem_Q i) (sem_flag (sems s2 i)) suspend_flag timeout thread s2
            in if ret \<noteq> RT_EOK then (Done ret, rt_spin_unlock_irqrestore s3)
               else (Blocked, rt_spin_unlock_irqrestore s3)))"

definition rt_sem_take_resume :: "tid \<Rightarrow> kernel \<Rightarrow> rt_err_t \<times> kernel" where
  "rt_sem_take_resume thread s =
     (let s1 = rt_schedule s;
          error = th_error (threads s1 thread)
      in (if error \<noteq> RT_EOK then (if error > 0 then - error else error) else RT_EOK, s1))"

definition rt_sem_trytake :: "nat \<Rightarrow> tid \<Rightarrow> kernel \<Rightarrow> rt_err_t outcome \<times> kernel" where
  "rt_sem_trytake i = rt_sem_take_enter i 0 RT_UNINTERRUPTIBLE"

definition rt_sem_release :: "nat \<Rightarrow> kernel \<Rightarrow> rt_err_t \<times> kernel" where
  "rt_sem_release i s =
     (let s1 = rt_spin_lock_irqsave s
      in if queues s1 (Sem_Q i) \<noteq> [] then
           (let s2 = snd (rt_susp_list_dequeue (Sem_Q i) RT_EOK s1)
            in (RT_EOK, rt_schedule (rt_spin_unlock_irqrestore s2)))
         else if sem_value (sems s1 i) < sem_max_value (sems s1 i) then
           (RT_EOK, rt_spin_unlock_irqrestore
              (upd_sem i (\<lambda>sem. sem\<lparr>sem_value := (sem_value sem + 1) mod 2 ^ 16\<rparr>) s1))
         else (- RT_EFULL, rt_spin_unlock_irqrestore s1))"

datatype sem_cmd = SEM_CMD_RESET nat | SEM_CMD_SET_VLIMIT nat | SEM_CMD_OTHER

definition rt_sem_control :: "nat \<Rightarrow> sem_cmd \<Rightarrow> kernel \<Rightarrow> rt_err_t \<times> kernel" where
  "rt_sem_control i cmd s =
     (case cmd of
        SEM_CMD_RESET value \<Rightarrow>
          (let s1 = snd (rt_susp_list_resume_all (Sem_Q i) RT_ERROR (rt_spin_lock_irqsave s));
               s2 = upd_sem i (\<lambda>sem. sem\<lparr>sem_value := value mod 2 ^ 16\<rparr>) s1
           in (RT_EOK, rt_schedule (rt_spin_unlock_irqrestore s2)))
      | SEM_CMD_SET_VLIMIT arg \<Rightarrow>
          (let max_value = arg mod 2 ^ 16
           in if max_value > RT_SEM_VALUE_MAX \<or> max_value < 1 then (- RT_EINVAL, s)
              else
                (let s1 = rt_spin_lock_irqsave s;
                     resume = (max_value < sem_value (sems s1 i) \<and> queues s1 (Sem_Q i) \<noteq> []);
                     s2 = (if resume then snd (rt_susp_list_resume_all (Sem_Q i) RT_ERROR s1) else s1);
                     s3 = rt_spin_unlock_irqrestore (upd_sem i (\<lambda>sem. sem\<lparr>sem_max_value := max_value\<rparr>) s2)
                 in (RT_EOK, if resume then rt_schedule s3 else s3)))
      | SEM_CMD_OTHER \<Rightarrow> (- RT_ERROR, s))"

section \<open>Specification\<close>

text \<open>A semaphore is a counter and the threads that wait for it, first to be served first.\<close>

type_synonym sem_view = "nat \<times> tid list"

definition sem_view :: "kernel \<Rightarrow> nat \<Rightarrow> sem_view" where
  "sem_view s i = (sem_value (sems s i), queues s (Sem_Q i))"

definition sem_spec_take :: "(tid list \<Rightarrow> tid list) \<Rightarrow> int \<Rightarrow> sem_view \<Rightarrow> rt_err_t outcome \<times> sem_view" where
  "sem_spec_take enq timeout v =
     (if fst v > 0 then (Done RT_EOK, fst v - 1, snd v)
      else if timeout = 0 then (Done (- RT_ETIMEOUT), v)
      else (Blocked, fst v, enq (snd v)))"

definition sem_spec_release :: "nat \<Rightarrow> sem_view \<Rightarrow> rt_err_t \<times> sem_view" where
  "sem_spec_release mx v =
     (case snd v of
        [] \<Rightarrow> if fst v < mx then (RT_EOK, fst v + 1, []) else (- RT_EFULL, v)
      | _ # ts \<Rightarrow> (RT_EOK, fst v, ts))"

section \<open>Correctness\<close>

lemma upd_sem_simps [simp]:
  "kok (upd_sem i f s) = kok s" "locked (upd_sem i f s) = locked s" "threads (upd_sem i f s) = threads s"
  "queues (upd_sem i f s) = queues s" "sems (upd_sem i f s) = (sems s)(i := f (sems s i))"
  "current_thread (upd_sem i f s) = current_thread s"
  by (simp_all add: upd_sem_def)

lemma exit_view:
  assumes "kok s"
  shows "kok (rt_exit_critical s)" "sem_view (rt_exit_critical s) i = sem_view s i"
    "sems (rt_exit_critical s) = sems s" "\<not> is_ready_q q \<Longrightarrow> queues (rt_exit_critical s) q = queues s q"
    "susp (rt_exit_critical s) t = susp s t" "th_error (threads (rt_exit_critical s) t) = th_error (threads s t)"
  using resched_fields [OF rt_exit_critical_resched [OF kokD(1) [OF assms]]] assms
  by (auto simp: sem_view_def is_ready_q_def)

lemma schedule_view:
  assumes "kok s"
  shows "kok (rt_schedule s)" "sem_view (rt_schedule s) i = sem_view s i" "sems (rt_schedule s) = sems s"
    "\<not> is_ready_q q \<Longrightarrow> queues (rt_schedule s) q = queues s q"
    "susp (rt_schedule s) t = susp s t" "th_error (threads (rt_schedule s) t) = th_error (threads s t)"
  using resched_fields [OF rt_schedule_resched [OF kokD(1) [OF assms]]] assms
  by (auto simp: sem_view_def is_ready_q_def)

lemma not_ready_q [simp]: "\<not> is_ready_q (Sem_Q i)"
  by (simp add: is_ready_q_def)

lemma rt_sem_take_cases:
  assumes "kok s" and "st s t = RT_THREAD_RUNNING"
  obtains (granted) "sem_value (sems s i) > 0"
      "rt_sem_take_enter i timeout sf t s =
        (Done RT_EOK, rt_exit_critical (upd_sem i (\<lambda>sem. sem\<lparr>sem_value := sem_value sem - 1\<rparr>) (rt_enter_critical s)))"
    | (refused) "sem_value (sems s i) = 0" "timeout = 0"
      "rt_sem_take_enter i timeout sf t s = (Done (- RT_ETIMEOUT), rt_exit_critical (rt_enter_critical s))"
    | (waits) s' where "sem_value (sems s i) = 0" "timeout \<noteq> 0" "rt_sem_take_enter i timeout sf t s = (Blocked, s')"
      "suspended (set_th_error t RT_EINTR (rt_enter_critical s)) s' t (Sem_Q i) (sem_flag (sems s i))"
proof -
  let ?s2 = "set_th_error t RT_EINTR (rt_enter_critical s)"
  let ?r = "ipc_suspend (Sem_Q i) (sem_flag (sems s i)) sf timeout t ?s2"
  have k2: "kok ?s2" "st ?s2 t = RT_THREAD_RUNNING" using assms by simp_all
  note su = ipc_suspend_suspended [OF k2 is_wait_q_simps(1), of i "sem_flag (sems s i)" sf timeout]
  consider "sem_value (sems s i) > 0" | "sem_value (sems s i) = 0" "timeout = 0"
    | "sem_value (sems s i) = 0" "timeout \<noteq> 0" by auto
  then show thesis
  proof cases
    case 3
    then have "rt_sem_take_enter i timeout sf t s = (Blocked, rt_exit_critical (snd ?r))"
      using su(1) by (cases ?r) (simp add: rt_sem_take_enter_def spin_defs Let_def)
    with 3 suspended_exit [OF su(2) is_wait_q_simps(1)] show thesis using waits by blast
  qed (use granted refused in \<open>simp_all add: rt_sem_take_enter_def spin_defs\<close>)
qed

lemma wait_order_set_error: "wait_order fl (set_th_error t e (rt_enter_critical s)) u ts = wait_order fl s u ts"
proof -
  have "(\<lambda>n. prio (set_th_error t e (rt_enter_critical s)) n \<le> prio (set_th_error t e (rt_enter_critical s)) u) =
      (\<lambda>n. prio s n \<le> prio s u)" by auto
  then show ?thesis by (simp add: wait_order_def)
qed

lemma rt_sem_take_enter_refines:
  assumes "kok s" and "st s t = RT_THREAD_RUNNING"
  shows "kok (snd (rt_sem_take_enter i timeout sf t s))"
    and "(fst (rt_sem_take_enter i timeout sf t s), sem_view (snd (rt_sem_take_enter i timeout sf t s)) i) =
      sem_spec_take (wait_order (sem_flag (sems s i)) s t) timeout (sem_view s i)"
    and "j \<noteq> i \<Longrightarrow> sem_view (snd (rt_sem_take_enter i timeout sf t s)) j = sem_view s j"
    and "fst (rt_sem_take_enter i timeout sf t s) = Blocked \<Longrightarrow>
      susp (snd (rt_sem_take_enter i timeout sf t s)) t"
  using assms(1) exit_view(1,2) [of "upd_sem i _ (rt_enter_critical s)"] exit_view(1,2) [of "rt_enter_critical s"]
  by (cases rule: rt_sem_take_cases [OF assms, of i timeout sf];
      force simp: sem_spec_take_def sem_view_def suspended_def wait_order_set_error)+


lemma rt_sem_release_refines:
  assumes "kok s" and "nest_ok s" and "sem_max_value (sems s i) < 2 ^ 16"
  shows "kok (snd (rt_sem_release i s))"
    and "(fst (rt_sem_release i s), sem_view (snd (rt_sem_release i s)) i) =
      sem_spec_release (sem_max_value (sems s i)) (sem_view s i)"
    and "j \<noteq> i \<Longrightarrow> sem_view (snd (rt_sem_release i s)) j = sem_view s j"
    and "queues s (Sem_Q i) = t # ts \<Longrightarrow> \<not> susp (snd (rt_sem_release i s)) t"
    and "queues s (Sem_Q i) = t # ts \<Longrightarrow> th_error (threads (snd (rt_sem_release i s)) t) = RT_EOK"
    and "sem_max_value (sems (snd (rt_sem_release i s)) i) = sem_max_value (sems s i)"
proof -
  let ?s1 = "rt_enter_critical s"
  have l: "locked ?s1" "kok ?s1" using assms nest_ok_locked by simp_all
  have hand: "rt_sem_release i s = (RT_EOK, rt_schedule (rt_exit_critical s2)) \<and> kok s2 \<and>
      sem_view s2 i = (sem_value (sems s i), ts) \<and> (\<forall>j. j \<noteq> i \<longrightarrow> sem_view s2 j = sem_view s j) \<and>
      \<not> susp s2 t \<and> th_error (threads s2 t) = RT_EOK \<and> sem_max_value (sems s2 i) = sem_max_value (sems s i)"
    if "queues s (Sem_Q i) = t # ts" "s2 = snd (rt_susp_list_dequeue (Sem_Q i) RT_EOK ?s1)" for t ts s2
  proof -
    have q: "queues ?s1 (Sem_Q i) = t # ts" using that(1) by simp
    note d = rt_susp_list_dequeue_locked [OF l is_wait_q_simps(1) q, where e = RT_EOK, folded that(2)]
    have "sems s2 = sems s" using that(2) d(1) by (simp add: RT_EOK_def)
    with d(2,5-8) that show ?thesis
      by (simp add: rt_sem_release_def spin_defs sem_view_def RT_EOK_def)
  qed
  have other: "rt_sem_release i s = (if sem_value (sems s i) < sem_max_value (sems s i)
      then (RT_EOK, rt_exit_critical (upd_sem i (\<lambda>sem. sem\<lparr>sem_value := (sem_value sem + 1) mod 2 ^ 16\<rparr>) ?s1))
      else (- RT_EFULL, rt_exit_critical ?s1))" if "queues s (Sem_Q i) = []"
    using that by (simp add: rt_sem_release_def spin_defs)
  have ex: "kok (rt_exit_critical (upd_sem i f ?s1))"
    "sem_view (rt_exit_critical (upd_sem i f ?s1)) j = sem_view (upd_sem i f ?s1) j" for f j
    using exit_view(1,2) [of "upd_sem i f ?s1"] l(2) by simp_all
  have ex0: "kok (rt_exit_critical ?s1)" "sem_view (rt_exit_critical ?s1) j = sem_view s j" for j
    using exit_view(1,2) [of ?s1] l(2) by (simp_all add: sem_view_def)
  have both: "kok (rt_schedule (rt_exit_critical s2))"
    "sem_view (rt_schedule (rt_exit_critical s2)) j = sem_view s2 j"
    "susp (rt_schedule (rt_exit_critical s2)) t = susp s2 t"
    "th_error (threads (rt_schedule (rt_exit_critical s2)) t) = th_error (threads s2 t)" if "kok s2" for s2 j t
    using exit_view [OF that] schedule_view [of "rt_exit_critical s2"] by simp_all
  show "kok (snd (rt_sem_release i s))"
    using hand both(1) other ex(1) ex0(1) by (cases "queues s (Sem_Q i)") auto
  show "(fst (rt_sem_release i s), sem_view (snd (rt_sem_release i s)) i) =
      sem_spec_release (sem_max_value (sems s i)) (sem_view s i)"
    using hand both(2) other ex(2) ex0(2) assms(3)
    by (cases "queues s (Sem_Q i)") (auto simp: sem_spec_release_def sem_view_def)
  show "sem_view (snd (rt_sem_release i s)) j = sem_view s j" if "j \<noteq> i"
    using hand both(2) other ex(2) ex0(2) that by (cases "queues s (Sem_Q i)") (auto simp: sem_view_def)
  show "\<not> susp (snd (rt_sem_release i s)) t" "th_error (threads (snd (rt_sem_release i s)) t) = RT_EOK"
    if "queues s (Sem_Q i) = t # ts"
    using hand [OF that refl] both(3,4) by simp_all
  have "sems (rt_exit_critical s2) = sems s2" "sems (rt_schedule (rt_exit_critical s2)) = sems s2" if "kok s2" for s2
    using exit_view [OF that] schedule_view [of "rt_exit_critical s2"] by simp_all
  then show "sem_max_value (sems (snd (rt_sem_release i s)) i) = sem_max_value (sems s i)"
    using hand other l(2) by (cases "queues s (Sem_Q i)") auto
qed

text \<open>Detaching and the control commands.\<close>

lemma rt_sem_resume_all:
  fixes i :: nat
  assumes "kok s" and "nest_ok s"
  defines "s1 \<equiv> snd (rt_susp_list_resume_all (Sem_Q i) RT_ERROR (rt_enter_critical s))"
  shows "kok s1" "queues s1 (Sem_Q i) = []" "sems s1 = sems s"
    "t \<in> set (queues s (Sem_Q i)) \<Longrightarrow> \<not> susp s1 t \<and> th_error (threads s1 t) = RT_ERROR"
proof -
  have l: "locked (rt_enter_critical s)" "kok (rt_enter_critical s)" using assms nest_ok_locked by simp_all
  note r = rt_susp_list_resume_all_locked [OF l is_wait_q_simps(1) [of i], where e = RT_ERROR, folded s1_def]
  show "kok s1" "queues s1 (Sem_Q i) = []" "sems s1 = sems s"
    "t \<in> set (queues s (Sem_Q i)) \<Longrightarrow> \<not> susp s1 t \<and> th_error (threads s1 t) = RT_ERROR"
    using r by (simp_all add: RT_ERROR_def)
qed

lemma rt_sem_detach_correct:
  fixes i :: nat
  assumes "kok s" and "nest_ok s"
  defines "s' \<equiv> snd (rt_sem_detach i s)"
  shows "kok s'" "queues s' (Sem_Q i) = []"
    "t \<in> set (queues s (Sem_Q i)) \<Longrightarrow> \<not> susp s' t \<and> fst (rt_sem_take_resume t s') = - RT_ERROR"
proof -
  note r = rt_sem_resume_all [OF assms(1,2), where i = i]
  note e = exit_view [OF r(1)]
  show k: "kok s'" "queues s' (Sem_Q i) = []"
    using e(1) e(4) [of "Sem_Q i"] r(2) by (simp_all add: s'_def rt_sem_detach_def spin_defs Let_def)
  show "\<not> susp s' t \<and> fst (rt_sem_take_resume t s') = - RT_ERROR" if "t \<in> set (queues s (Sem_Q i))"
    using r(4) [OF that] e(5,6) schedule_view(6) [OF k(1), of t]
    by (simp add: s'_def rt_sem_detach_def spin_defs Let_def rt_sem_take_resume_def rt_err_defs)
qed

lemma rt_sem_control_kok:
  assumes "kok s" and "nest_ok s"
  shows "kok (snd (rt_sem_control i cmd s))"
    and "sem_view (snd (rt_sem_control i (SEM_CMD_RESET v) s)) i = (v mod 2 ^ 16, [])"
proof -
  note r = rt_sem_resume_all [OF assms(1,2), where i = i]
  show "kok (snd (rt_sem_control i cmd s))"
    using r(1) assms(1)
    by (cases cmd) (auto simp: rt_sem_control_def spin_defs Let_def intro!: kok_schedule kok_exit_critical)
  let ?s2 = "upd_sem i (\<lambda>sem. sem\<lparr>sem_value := v mod 2 ^ 16\<rparr>)
    (snd (rt_susp_list_resume_all (Sem_Q i) RT_ERROR (rt_enter_critical s)))"
  have "kok ?s2" using r(1) by simp
  note v = exit_view(1,2) [OF this]
  from schedule_view(2) [OF v(1)] v(2)
  show "sem_view (snd (rt_sem_control i (SEM_CMD_RESET v) s)) i = (v mod 2 ^ 16, [])"
    using r(2) by (simp add: rt_sem_control_def spin_defs Let_def sem_view_def)
qed

lemma rt_sem_init_kok: "kok s \<Longrightarrow> queues s (Sem_Q i) = [] \<Longrightarrow> kok (snd (rt_sem_init i v fl s))"
  by (subst kok_cong [of _ s]) (auto simp: rt_sem_init_def sem_object_init_def)

text \<open>\<^verbatim>\<open>rt_sem_take\<close> and \<^verbatim>\<open>rt_sem_release\<close> refine the counter with its waiting threads: a take is granted while
  the counter is positive, refused at once with timeout zero, and otherwise puts the caller into the
  wait list by the semaphore's policy; a release hands the token to the first waiting thread, which
  returns with \<^verbatim>\<open>RT_EOK\<close>, or else counts up to the limit.  No other semaphore is touched and the kernel
  invariant is kept.\<close>

theorem rt_sem_refines_counter:
  assumes "kok s" and "nest_ok s" and "st s t = RT_THREAD_RUNNING" and "sem_max_value (sems s i) < 2 ^ 16"
  shows "(let (ret, s') = rt_sem_take_enter i timeout sf t s in
       kok s' \<and> (ret, sem_view s' i) = sem_spec_take (wait_order (sem_flag (sems s i)) s t) timeout (sem_view s i) \<and>
       (ret = Blocked \<longrightarrow> susp s' t) \<and> (\<forall>j. j \<noteq> i \<longrightarrow> sem_view s' j = sem_view s j)) \<and>
     (let (ret, s') = rt_sem_release i s in
       kok s' \<and> (ret, sem_view s' i) = sem_spec_release (sem_max_value (sems s i)) (sem_view s i) \<and>
       (\<forall>u us. queues s (Sem_Q i) = u # us \<longrightarrow> \<not> susp s' u \<and> fst (rt_sem_take_resume u s') = RT_EOK) \<and>
       (\<forall>j. j \<noteq> i \<longrightarrow> sem_view s' j = sem_view s j))"
proof -
  note tk = rt_sem_take_enter_refines [OF assms(1,3)]
  note rl = rt_sem_release_refines [OF assms(1,2,4)]
  have "fst (rt_sem_take_resume u (snd (rt_sem_release i s))) = RT_EOK" if "queues s (Sem_Q i) = u # us" for u us
    using rl(5) [OF that] schedule_view(6) [OF rl(1)] by (simp add: rt_sem_take_resume_def)
  then show ?thesis using tk rl by (auto simp: case_prod_beta Let_def)
qed

theorem rt_sem_refines_counter_witness:
  "fst (rt_sem_take_enter 0 10 RT_UNINTERRUPTIBLE 1 demo_waiting) = Blocked \<and>
   queues (snd (rt_sem_take_enter 0 10 RT_UNINTERRUPTIBLE 1 demo_waiting)) (Sem_Q 0) = [4, 1] \<and>
   queues (snd (rt_sem_release 0 demo_waiting)) (Sem_Q 0) = []"
proof -
  have t: "ttmr_ok demo_waiting"
    by (simp add: ttmr_ok_def demo_waiting_def stat_simps timer_active_def timer_flag_defs)
  have a: "kok demo_waiting" "nest_ok demo_waiting" "st demo_waiting 1 = RT_THREAD_RUNNING"
    "sem_max_value (sems demo_waiting 0) < 2 ^ 16"
    using t demo_waiting_kinv
    by (simp_all add: kok_def nest_ok_def demo_waiting_def stat_simps) (simp add: demo_kernel_def)
  have "sem_flag (sems demo_waiting 0) = 0" "sem_view demo_waiting 0 = (0, [4])"
    by (simp_all add: demo_waiting_def sem_view_def) (simp_all add: demo_kernel_def)
  with rt_sem_refines_counter [OF a, of 10 RT_UNINTERRUPTIBLE] show ?thesis
    by (auto simp: case_prod_beta Let_def sem_spec_take_def sem_spec_release_def wait_order_def
        RT_IPC_FLAG_FIFO_def sem_view_def)
qed

section \<open>Traces\<close>
















section \<open>A release that is lost\<close>

text \<open>When a release comes after \<^verbatim>\<open>_timer_check\<close> has taken the waiting thread's timer off the list but before
  the timeout function has run (an interrupt that preempts the tick interrupt), it reports success
  although it neither wakes the thread nor counts up, and the thread then times out: the token is
  lost.\<close>

theorem rt_sem_release_lost:
  assumes "kinv s" and "nest_ok s" and "queues s (Sem_Q i) = [t]"
    and "sched_flag_ttmr_set (threads s t)" and "\<not> timer_active s (Thread_Timer t)"
  shows "let (ret, s') = rt_sem_release i s; s'' = thread_timeout t s' in
    ret = RT_EOK \<and> sem_value (sems s' i) = sem_value (sems s i) \<and> queues s' (Sem_Q i) = [t] \<and>
    sem_value (sems s'' i) = sem_value (sems s i) \<and> queues s'' (Sem_Q i) = [] \<and>
    fst (rt_sem_take_resume t s'') = - RT_ETIMEOUT"
proof -
  let ?s1 = "rt_enter_critical s"
  let ?s2 = "upd_thread t (\<lambda>th. th\<lparr>sched_flag_ttmr_set := False\<rparr>) ?s1"
  let ?s' = "rt_schedule (rt_exit_critical ?s2)"
  have su: "susp s t" using wait_q_susp [OF assms(1) is_wait_q_simps(1), of t i] assms(3) by simp
  have "rt_susp_list_dequeue (Sem_Q i) RT_EOK ?s1 = (None, ?s2)"
    using assms(3-5) su
    by (simp add: rt_susp_list_dequeue_def rt_sched_thread_ready_def rt_sched_thread_is_suspended_def
        rt_sched_thread_timer_stop_def rt_timer_stop_locked [OF nest_ok_locked [OF assms(2)]] rt_err_defs)
  then have eq: "rt_sem_release i s = (RT_EOK, ?s')"
    using assms(3) by (simp add: rt_sem_release_def spin_defs)
  have k2: "kinv ?s2" by (rule kinv_upd_thread_neutral) (use assms(1) in simp_all)
  have r: "resched ?s2 ?s'"
    using resched_trans rt_exit_critical_resched [OF k2] rt_schedule_resched [OF rt_exit_critical_kinv [OF k2]] by blast
  note f = resched_fields [OF r]
  have su': "susp ?s' t" using f(2) su by simp
  note g = resched_fields [OF thread_timeout_resched [OF f(1) su']]
  let ?s'' = "thread_timeout t ?s'"
  have s'': "sems ?s'' = sems s" "queues ?s'' (Sem_Q i) = []" "th_error (threads ?s'' t) = - RT_ETIMEOUT"
    using g(3) [of "Sem_Q i"] g(5,12) f(3) [of "Sem_Q i"] f(12) assms(3) by (simp_all add: wake_queues)
  have "th_error (threads (rt_schedule ?s'') t) = - RT_ETIMEOUT"
    using resched_fields(5) [OF rt_schedule_resched [OF g(1)]] s''(3) by simp
  then have "fst (rt_sem_take_resume t ?s'') = - RT_ETIMEOUT"
    by (simp add: rt_sem_take_resume_def rt_err_defs)
  with s'' f(3) [of "Sem_Q i"] f(12) assms(3) show ?thesis by (simp add: eq)
qed

theorem rt_sem_release_lost_witness:
  "fst (rt_sem_release 0 (timer_deactivate (Thread_Timer 4) (timer_remove (Thread_Timer 4) demo_waiting))) = RT_EOK \<and>
   sem_value (sems (snd (rt_sem_release 0 (timer_deactivate (Thread_Timer 4)
     (timer_remove (Thread_Timer 4) demo_waiting)))) 0) = 0"
proof -
  let ?s = "timer_deactivate (Thread_Timer 4) (timer_remove (Thread_Timer 4) demo_waiting)"
  have "kinv ?s" using demo_waiting_kinv by simp
  moreover have "nest_ok ?s" "queues ?s (Sem_Q 0) = [4]" "sched_flag_ttmr_set (threads ?s 4)"
    "\<not> timer_active ?s (Thread_Timer 4)"
    by (simp_all add: nest_ok_def demo_waiting_def)
  moreover have "sem_value (sems ?s 0) = 0"
    by (simp add: timer_deactivate_def upd_timer_def timer_remove_def demo_waiting_def) (simp add: demo_kernel_def)
  ultimately show ?thesis using rt_sem_release_lost [of ?s 0 4] by (simp add: Let_def case_prod_beta)
qed

end
