(* ===== verification/Mutex.thy ===== *)
theory Mutex
  imports Ipc_Base "HOL-Library.Monad_Syntax"
begin

unbundle bit_operations_syntax

text \<open>
  Mutexes with priority inheritance and priority ceiling, \<^verbatim>\<open>src/ipc.c\<close>, and the parts of \<^verbatim>\<open>src/thread.c\<close> and
  \<^verbatim>\<open>src/defunct.c\<close> that release the mutexes of a thread that ends.

  A thread's taken mutexes are the list \<open>th_taken_object_list\<close>, the mutex it waits for is
  \<open>th_pending_object\<close> (only mutexes are ever stored there).  The loop of \<^verbatim>\<open>_thread_update_priority\<close> follows
  the chain of owners that themselves wait for a mutex; it need not end when the chain is a cycle, so
  it is a partial function and the operations that use it return an option.  That it ends when
  the chain does, and what it does, is proved.  A null owner, which the C code would dereference,
  also gives None.
\<close>

section \<open>Operations\<close>

definition RT_MUTEX_HOLD_MAX :: nat where "RT_MUTEX_HOLD_MAX = 255"

definition upd_mutex :: "nat \<Rightarrow> (rt_mutex \<Rightarrow> rt_mutex) \<Rightarrow> kernel \<Rightarrow> kernel" where
  "upd_mutex m f s = s\<lparr>mutexes := (mutexes s)(m := f (mutexes s m))\<rparr>"

definition mutex_update_priority :: "nat \<Rightarrow> kernel \<Rightarrow> kernel" where
  "mutex_update_priority m s =
     upd_mutex m (\<lambda>x. x\<lparr>mtx_priority :=
       (case queues s (Mutex_Q m) of [] \<Rightarrow> 255 | thread # _ \<Rightarrow> rt_sched_thread_get_curr_prio thread s)\<rparr>) s"

definition mutex_prio :: "rt_mutex \<Rightarrow> nat" where
  "mutex_prio x = (if mtx_priority x < mtx_ceiling_priority x then mtx_priority x else mtx_ceiling_priority x)"

definition thread_get_mutex_priority :: "tid \<Rightarrow> kernel \<Rightarrow> nat" where
  "thread_get_mutex_priority t s =
     foldl (\<lambda>priority m. if priority > mutex_prio (mutexes s m) then mutex_prio (mutexes s m) else priority)
       (rt_sched_thread_get_init_prio t s) (th_taken_object_list (threads s t))"

partial_function (option) update_priority_loop :: "tid \<Rightarrow> kernel \<Rightarrow> kernel option" where
  "update_priority_loop thread s =
     (if rt_sched_thread_is_suspended thread s then
        (case th_pending_object (threads s thread) of
           None \<Rightarrow> Some s
         | Some m \<Rightarrow>
             (let s1 = snd (rt_susp_list_enqueue (Mutex_Q m) thread (mtx_flag (mutexes s m)) (deq_node thread s));
                  s2 = mutex_update_priority m s1
              in case mtx_owner (mutexes s2 m) of
                   None \<Rightarrow> None
                 | Some owner \<Rightarrow>
                     (let mutex_priority = thread_get_mutex_priority owner s2
                      in if mutex_priority \<noteq> rt_sched_thread_get_curr_prio owner s2
                         then update_priority_loop owner (snd (rt_sched_thread_change_priority owner mutex_priority s2))
                         else Some s2)))
      else Some s)"

definition thread_update_priority :: "tid \<Rightarrow> nat \<Rightarrow> kernel \<Rightarrow> kernel option" where
  "thread_update_priority thread priority s =
     update_priority_loop thread (snd (rt_sched_thread_change_priority thread priority s))"

definition check_and_update_prio :: "tid \<Rightarrow> nat \<Rightarrow> kernel \<Rightarrow> bool \<times> kernel" where
  "check_and_update_prio thread m s =
     (if mtx_ceiling_priority (mutexes s m) \<noteq> 255 \<or>
         rt_sched_thread_get_curr_prio thread s = mtx_priority (mutexes s m)
      then (True, snd (rt_sched_thread_change_priority thread (thread_get_mutex_priority thread s) s))
      else (False, s))"

text \<open>\<^verbatim>\<open>rt_list_remove(&mutex->taken_list)\<close> and the insertion at the head of a thread's list.\<close>

definition taken_remove :: "nat \<Rightarrow> kernel \<Rightarrow> kernel" where
  "taken_remove m s = s\<lparr>threads := (\<lambda>t. (threads s t)\<lparr>th_taken_object_list :=
     filter (\<lambda>n. n \<noteq> m) (th_taken_object_list (threads s t))\<rparr>)\<rparr>"

definition taken_insert :: "tid \<Rightarrow> nat \<Rightarrow> kernel \<Rightarrow> kernel" where
  "taken_insert t m = upd_thread t (\<lambda>th. th\<lparr>th_taken_object_list := m # th_taken_object_list th\<rparr>)"

definition set_pending :: "tid \<Rightarrow> nat option \<Rightarrow> kernel \<Rightarrow> kernel" where
  "set_pending t p = upd_thread t (\<lambda>th. th\<lparr>th_pending_object := p\<rparr>)"

definition mutex_before_delete_detach :: "nat \<Rightarrow> kernel \<Rightarrow> kernel" where
  "mutex_before_delete_detach m s =
     (let s1 = taken_remove m (snd (rt_susp_list_resume_all (Mutex_Q m) RT_ERROR (rt_spin_lock s)));
          (need_schedule, s2) = (case mtx_owner (mutexes s1 m) of
             None \<Rightarrow> (False, s1) | Some owner \<Rightarrow> check_and_update_prio owner m s1)
      in rt_spin_unlock (if need_schedule then rt_sched_unlock_n_resched s2 else s2))"

definition rt_mutex_init :: "nat \<Rightarrow> kernel \<Rightarrow> rt_err_t \<times> kernel" where
  "rt_mutex_init m s =
     (RT_EOK, taken_remove m (s\<lparr>queues := (queues s)(Mutex_Q m := []),
        mutexes := (mutexes s)(m := \<lparr>mtx_flag = RT_IPC_FLAG_PRIO, mtx_ceiling_priority = 255, mtx_priority = 255,
          mtx_hold = 0, mtx_owner = None\<rparr>)\<rparr>))"

definition rt_mutex_detach :: "nat \<Rightarrow> kernel \<Rightarrow> rt_err_t \<times> kernel" where
  "rt_mutex_detach m s = (RT_EOK, mutex_before_delete_detach m s)"

text \<open>Recomputing the owner's priority after a waiting thread has left.\<close>

definition owner_update :: "nat \<Rightarrow> kernel \<Rightarrow> kernel option" where
  "owner_update m s =
     (case mtx_owner (mutexes s m) of
        None \<Rightarrow> Some s
      | Some owner \<Rightarrow>
          (let priority = thread_get_mutex_priority owner s
           in if priority \<noteq> rt_sched_thread_get_curr_prio owner s then thread_update_priority owner priority s
              else Some s))"

definition owner_has_prio_of :: "nat \<Rightarrow> tid \<Rightarrow> kernel \<Rightarrow> bool" where
  "owner_has_prio_of m thread s =
     (case mtx_owner (mutexes s m) of
        None \<Rightarrow> False
      | Some owner \<Rightarrow> rt_sched_thread_get_curr_prio owner s = rt_sched_thread_get_curr_prio thread s)"

definition rt_mutex_drop_thread :: "nat \<Rightarrow> tid \<Rightarrow> kernel \<Rightarrow> kernel option" where
  "rt_mutex_drop_thread m thread s =
     (let s1 = deq_node thread (rt_spin_lock s);
          need_update = owner_has_prio_of m thread s1;
          s2 = mutex_update_priority m s1
      in map_option rt_spin_unlock (if need_update then owner_update m s2 else Some s2))"

text \<open>The returned old ceiling, and 255 with no effect for an invalid priority.\<close>

definition rt_mutex_setprioceiling :: "nat \<Rightarrow> nat \<Rightarrow> kernel \<Rightarrow> (nat \<times> kernel) option" where
  "rt_mutex_setprioceiling m priority s =
     (if priority < 32 then
        (let s1 = rt_spin_lock s;
             ret_priority = mtx_ceiling_priority (mutexes s1 m)
         in map_option (\<lambda>s2. (ret_priority, rt_spin_unlock s2))
              (owner_update m (upd_mutex m (\<lambda>x. x\<lparr>mtx_ceiling_priority := priority\<rparr>) s1)))
      else Some (255, s))"

definition rt_mutex_getprioceiling :: "nat \<Rightarrow> kernel \<Rightarrow> nat \<times> kernel" where
  "rt_mutex_getprioceiling m s =
     (let s1 = rt_spin_lock s in (mtx_ceiling_priority (mutexes s1 m), rt_spin_unlock s1))"

text \<open>The caller that has to wait lends its priority to the owner.\<close>

definition mutex_inherit :: "nat \<Rightarrow> tid \<Rightarrow> tid \<Rightarrow> kernel \<Rightarrow> kernel option" where
  "mutex_inherit m owner thread s =
     (let priority = rt_sched_thread_get_curr_prio thread s
      in if priority < mtx_priority (mutexes s m) then
           (let s1 = upd_mutex m (\<lambda>x. x\<lparr>mtx_priority := priority\<rparr>) s
            in if priority < rt_sched_thread_get_curr_prio owner s1 then thread_update_priority owner priority s1
               else Some s1)
         else Some s)"

definition rt_mutex_take_enter ::
    "nat \<Rightarrow> int \<Rightarrow> suspend_flag \<Rightarrow> tid \<Rightarrow> kernel \<Rightarrow> (rt_err_t outcome \<times> kernel) option" where
  "rt_mutex_take_enter m timeout suspend_flag thread s =
     (let s1 = set_th_error thread RT_EOK (rt_spin_lock s)
      in case mtx_owner (mutexes s1 m) of
           None \<Rightarrow>
             (let s2 = upd_mutex m (\<lambda>x. x\<lparr>mtx_owner := Some thread, mtx_priority := 255, mtx_hold := 1\<rparr>) s1;
                  ceiling = mtx_ceiling_priority (mutexes s2 m)
              in do {
                   s3 \<leftarrow> (if ceiling \<noteq> 255 \<and> ceiling < rt_sched_thread_get_curr_prio thread s2
                          then thread_update_priority thread ceiling s2 else Some s2);
                   Some (Done RT_EOK, rt_spin_unlock (taken_insert thread m s3)) })
         | Some owner \<Rightarrow>
             if owner = thread then
               (if mtx_hold (mutexes s1 m) < RT_MUTEX_HOLD_MAX
                then Some (Done RT_EOK, rt_spin_unlock (upd_mutex m (\<lambda>x. x\<lparr>mtx_hold := mtx_hold x + 1\<rparr>) s1))
                else Some (Done (- RT_EFULL), rt_spin_unlock s1))
             else if timeout = 0 then
               Some (Done (- RT_ETIMEOUT), rt_spin_unlock (set_th_error thread RT_ETIMEOUT s1))
             else
               (let (ret, s2) = rt_thread_suspend_to_list thread (Some (Mutex_Q m)) (mtx_flag (mutexes s1 m)) suspend_flag s1
                in if ret \<noteq> RT_EOK then Some (Done ret, rt_spin_unlock s2)
                   else do {
                     s3 \<leftarrow> mutex_inherit m owner thread (set_pending thread (Some m) s2);
                     let s4 = (if timeout > 0 then arm_thread_timer thread (word_of_int timeout) s3 else s3);
                     Some (Blocked, rt_spin_unlock s4) }))"

definition rt_mutex_take_resume :: "nat \<Rightarrow> tid \<Rightarrow> kernel \<Rightarrow> (rt_err_t \<times> kernel) option" where
  "rt_mutex_take_resume m thread s =
     (let s1 = rt_spin_lock (rt_schedule s)
      in if mtx_owner (mutexes s1 m) = Some thread then Some (RT_EOK, rt_spin_unlock s1)
         else
           (let error = th_error (threads s1 thread);
                ret = (if error = RT_EOK then - RT_EINTR else error);
                need_update = owner_has_prio_of m thread s1;
                s2 = mutex_update_priority m s1
            in do {
                 s3 \<leftarrow> (if need_update then owner_update m s2 else Some s2);
                 Some (if ret > 0 then - ret else ret, set_pending thread None (rt_spin_unlock s3)) }))"

definition rt_mutex_trytake :: "nat \<Rightarrow> tid \<Rightarrow> kernel \<Rightarrow> (rt_err_t outcome \<times> kernel) option" where
  "rt_mutex_trytake m = rt_mutex_take_enter m 0 RT_UNINTERRUPTIBLE"

text \<open>The search for the next owner: a waiting thread that can no longer be made ready is dropped from
  the list.  Each turn takes one thread off, so the list's length is fuel enough.\<close>

fun mutex_next_owner :: "nat \<Rightarrow> nat \<Rightarrow> kernel \<Rightarrow> tid option \<times> kernel" where
  "mutex_next_owner 0 m s = (None, s)"
| "mutex_next_owner (Suc n) m s =
     (case queues s (Mutex_Q m) of
        [] \<Rightarrow> (None, s)
      | next_thread # _ \<Rightarrow>
          (let (err, s1) = rt_sched_thread_ready next_thread (deq_node next_thread s)
           in if err = RT_EOK then (Some next_thread, s1) else mutex_next_owner n m s1))"

definition rt_mutex_release :: "nat \<Rightarrow> tid \<Rightarrow> kernel \<Rightarrow> rt_err_t \<times> kernel" where
  "rt_mutex_release m thread s =
     (let s1 = rt_spin_lock s
      in if mtx_owner (mutexes s1 m) \<noteq> Some thread then
           (- RT_ERROR, rt_spin_unlock (set_th_error thread (- RT_ERROR) s1))
         else
           (let s2 = upd_mutex m (\<lambda>x. x\<lparr>mtx_hold := (mtx_hold x + 255) mod 256\<rparr>) s1
            in if mtx_hold (mutexes s2 m) \<noteq> 0 then (RT_EOK, rt_spin_unlock s2)
               else
                 (let (need_schedule, s3) = check_and_update_prio thread m (taken_remove m s2)
                  in case mutex_next_owner (length (queues s3 (Mutex_Q m))) m s3 of
                       (Some next_thread, s4) \<Rightarrow>
                         (let s5 = upd_mutex m (\<lambda>x. x\<lparr>mtx_owner := Some next_thread, mtx_hold := 1\<rparr>) s4;
                              s6 = set_pending next_thread None (taken_insert next_thread m s5);
                              s7 = mutex_update_priority m s6
                          in (RT_EOK, rt_schedule (rt_spin_unlock s7)))
                     | (None, s4) \<Rightarrow>
                         (let s5 = upd_mutex m (\<lambda>x. x\<lparr>mtx_owner := None, mtx_priority := 255\<rparr>) s4;
                              s6 = rt_spin_unlock s5
                          in (RT_EOK, if need_schedule then rt_schedule s6 else s6)))))"

section \<open>The end of a thread\<close>

definition rt_thread_defunct_enqueue :: "tid \<Rightarrow> kernel \<Rightarrow> kernel" where
  "rt_thread_defunct_enqueue t s = rt_spin_unlock_irqrestore (enq_head Defunct_Q t (rt_spin_lock_irqsave s))"

definition rt_thread_defunct_dequeue :: "kernel \<Rightarrow> tid option \<times> kernel" where
  "rt_thread_defunct_dequeue s =
     (let s1 = rt_spin_lock_irqsave s
      in case queues s1 Defunct_Q of
           [] \<Rightarrow> (None, rt_spin_unlock_irqrestore s1)
         | thread # _ \<Rightarrow> (Some thread, rt_spin_unlock_irqrestore (deq_node thread s1)))"

text \<open>\<^verbatim>\<open>rt_mutex_release\<close> acts for the thread that runs, \<open>self\<close>, which need not be the one that ends.\<close>

definition thread_detach_from_mutex :: "tid \<Rightarrow> tid \<Rightarrow> kernel \<Rightarrow> kernel option" where
  "thread_detach_from_mutex self thread s =
     (let s1 = rt_spin_lock_irqsave s
      in do {
           s2 \<leftarrow> (case th_pending_object (threads s1 thread) of
                   None \<Rightarrow> Some s1
                 | Some m \<Rightarrow> map_option (set_pending thread None) (rt_mutex_drop_thread m thread s1));
           let s3 = foldl (\<lambda>st m. snd (rt_mutex_release m self (upd_mutex m (\<lambda>x. x\<lparr>mtx_hold := 1\<rparr>) st)))
                      s2 (th_taken_object_list (threads s2 thread));
           Some (rt_spin_unlock_irqrestore s3) })"

definition thread_exit :: "tid \<Rightarrow> kernel \<Rightarrow> kernel option" where
  "thread_exit thread s =
     do {
       s1 \<leftarrow> thread_detach_from_mutex thread thread (snd (rt_thread_close thread (rt_enter_critical s)));
       Some (rt_schedule (rt_exit_critical (rt_thread_defunct_enqueue thread s1))) }"

definition thread_detach :: "tid \<Rightarrow> tid \<Rightarrow> kernel \<Rightarrow> (rt_err_t \<times> kernel) option" where
  "thread_detach self thread s =
     (let (error, s1) = rt_thread_close thread (rt_enter_critical s)
      in do {
           s2 \<leftarrow> thread_detach_from_mutex self thread s1;
           Some (error, rt_exit_critical (rt_thread_defunct_enqueue thread s2)) })"

datatype thread_cmd =
    RT_THREAD_CTRL_STARTUP
  | RT_THREAD_CTRL_CLOSE
  | RT_THREAD_CTRL_CHANGE_PRIORITY nat
  | RT_THREAD_CTRL_BIND_CPU nat
  | RT_THREAD_CTRL_RESET_PRIORITY nat
  | RT_THREAD_CTRL_OTHER

definition rt_thread_control :: "tid \<Rightarrow> tid \<Rightarrow> thread_cmd \<Rightarrow> kernel \<Rightarrow> (rt_err_t \<times> kernel) option" where
  "rt_thread_control self thread cmd s =
     (case cmd of
        RT_THREAD_CTRL_CHANGE_PRIORITY p \<Rightarrow> Some (rt_sched_thread_change_priority thread p s)
      | RT_THREAD_CTRL_RESET_PRIORITY p \<Rightarrow> Some (rt_sched_thread_reset_priority thread p s)
      | RT_THREAD_CTRL_STARTUP \<Rightarrow> Some (rt_thread_startup thread s)
      | RT_THREAD_CTRL_CLOSE \<Rightarrow> map_option (\<lambda>(err, s1). (err, rt_schedule s1)) (thread_detach self thread s)
      | RT_THREAD_CTRL_BIND_CPU cpu \<Rightarrow> Some (rt_sched_thread_bind_cpu thread cpu, s)
      | RT_THREAD_CTRL_OTHER \<Rightarrow> Some (RT_EOK, s))"

section \<open>Priorities\<close>

lemma thread_get_mutex_priority_alt:
  "thread_get_mutex_priority t s =
     foldl min (th_init_priority (threads s t)) (map (\<lambda>m. mutex_prio (mutexes s m)) (th_taken_object_list (threads s t)))"
proof -
  have "(if p > x then x else p) = min p x" for p x :: nat by simp
  then show ?thesis
    by (simp add: thread_get_mutex_priority_def rt_sched_thread_get_init_prio_def foldl_map)
qed

lemma foldl_min_le: "v \<le> foldl min (a :: nat) xs \<longleftrightarrow> v \<le> a \<and> (\<forall>x \<in> set xs. v \<le> x)"
  by (induction xs arbitrary: a) auto

lemma foldl_min_bounds: "foldl min (a :: nat) xs \<le> a" "x \<in> set xs \<Longrightarrow> foldl min a xs \<le> x"
  using foldl_min_le [of "foldl min a xs" a xs] by auto

lemma mutex_prio_le: "mutex_prio x \<le> mtx_priority x" "mutex_prio x \<le> mtx_ceiling_priority x"
  by (auto simp: mutex_prio_def)

lemma thread_get_mutex_priority_le:
  "thread_get_mutex_priority t s \<le> th_init_priority (threads s t)"
  "m \<in> set (th_taken_object_list (threads s t)) \<Longrightarrow> thread_get_mutex_priority t s \<le> mtx_priority (mutexes s m)"
proof -
  show "thread_get_mutex_priority t s \<le> th_init_priority (threads s t)"
    unfolding thread_get_mutex_priority_alt by (rule foldl_min_bounds)
  assume "m \<in> set (th_taken_object_list (threads s t))"
  then have "thread_get_mutex_priority t s \<le> mutex_prio (mutexes s m)"
    unfolding thread_get_mutex_priority_alt by (intro foldl_min_bounds(2)) auto
  then show "thread_get_mutex_priority t s \<le> mtx_priority (mutexes s m)"
    using mutex_prio_le(1) order_trans by blast
qed

text \<open>What the propagation of priorities leaves alone.\<close>

definition pi_same :: "kernel \<Rightarrow> kernel \<Rightarrow> bool" where
  "pi_same s s' \<longleftrightarrow>
     (\<forall>t. susp s' t = susp s t \<and> th_pending_object (threads s' t) = th_pending_object (threads s t) \<and>
       th_taken_object_list (threads s' t) = th_taken_object_list (threads s t) \<and>
       th_init_priority (threads s' t) = th_init_priority (threads s t) \<and>
       th_error (threads s' t) = th_error (threads s t)) \<and>
     (\<forall>m. mtx_owner (mutexes s' m) = mtx_owner (mutexes s m) \<and> mtx_hold (mutexes s' m) = mtx_hold (mutexes s m) \<and>
       mtx_flag (mutexes s' m) = mtx_flag (mutexes s m) \<and>
       mtx_ceiling_priority (mutexes s' m) = mtx_ceiling_priority (mutexes s m)) \<and>
     (\<forall>q. \<not> is_ready_q q \<longrightarrow> set (queues s' q) = set (queues s q)) \<and>
     current_thread s' = current_thread s \<and> scheduler_lock_nest s' = scheduler_lock_nest s \<and>
     sems s' = sems s \<and> events s' = events s \<and> mailboxes s' = mailboxes s \<and> mqueues s' = mqueues s \<and>
     kmem s' = kmem s \<and> tick s' = tick s"

lemma pi_same_refl [simp]: "pi_same s s"
  by (simp add: pi_same_def)

lemma pi_same_trans: "pi_same s s' \<Longrightarrow> pi_same s' s'' \<Longrightarrow> pi_same s s''"
  unfolding pi_same_def by auto

lemma pi_same_locked: "pi_same s s' \<Longrightarrow> locked s' = locked s"
  by (simp add: pi_same_def locked_def)

lemma upd_mutex_simps [simp]:
  "kok (upd_mutex m f s) = kok s" "locked (upd_mutex m f s) = locked s" "threads (upd_mutex m f s) = threads s"
  "queues (upd_mutex m f s) = queues s" "mutexes (upd_mutex m f s) = (mutexes s)(m := f (mutexes s m))"
  "current_thread (upd_mutex m f s) = current_thread s" "scheduler_lock_nest (upd_mutex m f s) = scheduler_lock_nest s"
  "kinv (upd_mutex m f s) = kinv s"
proof -
  show "kinv (upd_mutex m f s) = kinv s" by (rule kinv_cong) (simp_all add: upd_mutex_def)
qed (simp_all add: upd_mutex_def)

lemma mutex_q_not_ready [simp]: "\<not> is_ready_q (Mutex_Q m)"
  by (simp add: is_ready_q_def)

lemma change_priority_effect:
  fixes t :: tid
  assumes "kok s" and "p < 32"
  defines "s' \<equiv> snd (rt_sched_thread_change_priority t p s)"
  shows "kok s'" and "pi_same s s'" and "prio s' u = (if u = t then p else prio s u)"
    and "mutexes s' = mutexes s" and "\<not> is_ready_q q \<Longrightarrow> queues s' q = queues s q"
proof -
  let ?u = "upd_thread t (set_priority p False)"
  let ?r = "rt_sched_insert_thread t (set_th_stat t RT_THREAD_INIT (?u (rt_sched_remove_thread t s)))"
  have s': "s' = (if st s t = RT_THREAD_READY then ?r else ?u s)"
    by (simp add: s'_def rt_sched_thread_change_priority_def rt_sched_update_priority_def)
  have k: "kinv s'" unfolding s'_def rt_sched_thread_change_priority_def
    by (rule rt_sched_update_priority_kinv [OF kokD(1) [OF assms(1)] assms(2)])
  have q: "t \<notin> set (queues s q)" if "st s t = RT_THREAD_READY" "\<not> is_ready_q q" for q
    using kinvD(1) [OF kokD(1) [OF assms(1)], of t] that is_susp_not_active(1) [of "th_stat (threads s t)"]
    by (auto simp: th_ok_def stat_simps split: if_splits)
  have fl: "sched_flag_ttmr_set (threads s' v) = sched_flag_ttmr_set (threads s v)"
    "timers s' = timers s" for v
    by (auto simp: s' rt_sched_insert_thread_threads)
  have su: "susp s' v = susp s v" for v
    using is_susp_not_active(1) [of "th_stat (threads s t)"]
    by (auto simp: s' rt_sched_insert_thread_threads stat_simps)
  show "kok s'" using k su fl kokD(2) [OF assms(1)] by (simp add: kok_def ttmr_ok_def timer_active_def)
  show "prio s' u = (if u = t then p else prio s u)" by (simp add: s' rt_sched_insert_thread_threads)
  show "mutexes s' = mutexes s" by (simp add: s')
  show qs: "queues s' q = queues s q" if "\<not> is_ready_q q" for q
    using that q [OF _ that] by (auto simp: s' rt_sched_insert_thread_queues)
  show "pi_same s s'"
    unfolding pi_same_def using su qs by (auto simp: s' rt_sched_insert_thread_threads)
qed

text \<open>A suspended thread put back into the wait list of its mutex.\<close>

definition requeue :: "tid \<Rightarrow> nat \<Rightarrow> kernel \<Rightarrow> kernel" where
  "requeue t m s = mutex_update_priority m
     (snd (rt_susp_list_enqueue (Mutex_Q m) t (mtx_flag (mutexes s m)) (deq_node t s)))"

lemma requeue_effect:
  fixes t :: tid
  assumes "kok s" and "t \<in> set (queues s (Mutex_Q m))" and "mtx_flag (mutexes s m) = RT_IPC_FLAG_PRIO"
  defines "s' \<equiv> requeue t m s"
  shows "kok s'" and "pi_same s s'" and "threads s' = threads s"
    and "queues s' (Mutex_Q m) = wait_order RT_IPC_FLAG_PRIO s t (filter (\<lambda>x. x \<noteq> t) (queues s (Mutex_Q m)))"
    and "\<And>q. q \<noteq> Mutex_Q m \<Longrightarrow> queues s' q = queues s q"
    and "mtx_priority (mutexes s' m) = prio s (hd (queues s' (Mutex_Q m)))"
    and "\<And>n. n \<noteq> m \<Longrightarrow> mutexes s' n = mutexes s n"
proof -
  have qok: "queues_ok s" and ok: "th_ok s t" using kinvD [OF kokD(1) [OF assms(1)]] by auto
  have su: "susp s t" using wait_q_susp [OF kokD(1) [OF assms(1)] is_wait_q_simps(2) assms(2)] .
  let ?s0 = "deq_node t s"
  let ?s1 = "snd (rt_susp_list_enqueue (Mutex_Q m) t (mtx_flag (mutexes s m)) ?s0)"
  have d: "kinv_except {t} ?s0" "unqueued ?s0 t"
    using deq_node_kinv [of "{}" s t] susp_queues(2) [OF kokD(1) [OF assms(1)] su] kokD(1) [OF assms(1)]
    by (auto simp: kinv_def)
  have "kinv ?s1"
    by (rule susp_enqueue_kinv [OF d]) (use su susp_queues(1) [OF kokD(1) [OF assms(1)] su] in
        \<open>simp_all add: mask_ok_def\<close>)
  then have "kok ?s1" using kokD(2) [OF assms(1)] by (simp add: kok_def ttmr_ok_def timer_active_def)
  then show "kok s'" by (simp add: s'_def requeue_def mutex_update_priority_def)
  show th: "threads s' = threads s" by (simp add: s'_def requeue_def mutex_update_priority_def)
  have wo: "wait_order fl ?s0 t ts = wait_order fl s t ts" for fl ts by (simp add: wait_order_def)
  show q: "queues s' (Mutex_Q m) = wait_order RT_IPC_FLAG_PRIO s t (filter (\<lambda>x. x \<noteq> t) (queues s (Mutex_Q m)))"
    using assms(3) by (simp add: s'_def requeue_def mutex_update_priority_def wo)
  show q': "queues s' q = queues s q" if "q \<noteq> Mutex_Q m" for q
  proof -
    have "t \<notin> set (queues s q)" using qok assms(2) that by (auto simp: queues_ok_def)
    then show ?thesis using that by (simp add: s'_def requeue_def mutex_update_priority_def)
  qed
  have ne: "queues s' (Mutex_Q m) \<noteq> []" using q
    by (simp add: wait_order_def RT_IPC_FLAG_PRIO_def RT_IPC_FLAG_FIFO_def)
  then show "mtx_priority (mutexes s' m) = prio s (hd (queues s' (Mutex_Q m)))"
    by (auto simp: s'_def requeue_def mutex_update_priority_def rt_sched_thread_get_curr_prio_def
        split: list.splits)
  show "mutexes s' n = mutexes s n" if "n \<noteq> m" for n
    using that by (simp add: s'_def requeue_def mutex_update_priority_def rt_susp_list_enqueue_def)
  have set: "set (queues s' (Mutex_Q m)) = set (queues s (Mutex_Q m))"
  proof -
    have "set (takeWhile P xs @ t # dropWhile P xs) = insert t (set xs)" for P xs
      by (metis list.simps(15) set_append Un_insert_right takeWhile_dropWhile_id)
    then show ?thesis using assms(2) unfolding q by (auto simp: wait_order_def RT_IPC_FLAG_PRIO_def RT_IPC_FLAG_FIFO_def)
  qed
  then have "set (queues s' q) = set (queues s q)" for q using q' by (cases "q = Mutex_Q m") auto
  moreover have "mtx_owner (mutexes s' n) = mtx_owner (mutexes s n) \<and> mtx_hold (mutexes s' n) = mtx_hold (mutexes s n) \<and>
       mtx_flag (mutexes s' n) = mtx_flag (mutexes s n) \<and>
       mtx_ceiling_priority (mutexes s' n) = mtx_ceiling_priority (mutexes s n)" for n
    by (simp add: s'_def requeue_def mutex_update_priority_def rt_susp_list_enqueue_def)
  ultimately show "pi_same s s'"
    unfolding pi_same_def using th
    by (simp add: s'_def requeue_def mutex_update_priority_def upd_mutex_def rt_susp_list_enqueue_def)
qed

section \<open>The invariant of priority inheritance\<close>

text \<open>\<open>pi_core\<close>: the wait lists of the mutexes are in priority order and hold exactly the threads that wait
  for the mutex, an owner has the mutex in its list, and a mutex's priority is at least as high as
  that of its waiting threads.  \<open>pi_links\<close>: an owner's priority is at least as high as that of its mutexes.
  The sets hold the threads whose priority, and the mutexes whose priority, has just changed.\<close>

definition pi_core :: "tid set \<Rightarrow> kernel \<Rightarrow> bool" where
  "pi_core E s \<longleftrightarrow>
     (\<forall>m t. mtx_owner (mutexes s m) = Some t \<longrightarrow> mtx_flag (mutexes s m) = RT_IPC_FLAG_PRIO) \<and>
     (\<forall>m t. t \<in> set (queues s (Mutex_Q m)) \<longrightarrow> th_pending_object (threads s t) = Some m) \<and>
     (\<forall>t m. susp s t \<longrightarrow> th_pending_object (threads s t) = Some m \<longrightarrow> t \<in> set (queues s (Mutex_Q m))) \<and>
     (\<forall>m t. t \<in> set (queues s (Mutex_Q m)) \<longrightarrow> (\<exists>owner. mtx_owner (mutexes s m) = Some owner)) \<and>
     (\<forall>m t. mtx_owner (mutexes s m) = Some t \<longrightarrow> m \<in> set (th_taken_object_list (threads s t))) \<and>
     (\<forall>m. sorted (map (prio s) (filter (\<lambda>t. t \<notin> E) (queues s (Mutex_Q m))))) \<and>
     (\<forall>m t. t \<in> set (queues s (Mutex_Q m)) \<longrightarrow> t \<notin> E \<longrightarrow> mtx_priority (mutexes s m) \<le> prio s t) \<and>
     (\<forall>t. th_init_priority (threads s t) < 32)"

definition pi_links :: "nat set \<Rightarrow> kernel \<Rightarrow> bool" where
  "pi_links M s \<longleftrightarrow> (\<forall>m owner. mtx_owner (mutexes s m) = Some owner \<longrightarrow> m \<notin> M \<longrightarrow>
     prio s owner \<le> mtx_priority (mutexes s m))"

definition pi_inv :: "kernel \<Rightarrow> bool" where
  "pi_inv s \<longleftrightarrow> pi_core {} s \<and> pi_links {} s"

lemma pi_coreD:
  assumes "pi_core E s"
  shows "mtx_owner (mutexes s m) = Some t \<Longrightarrow> mtx_flag (mutexes s m) = RT_IPC_FLAG_PRIO"
    "t \<in> set (queues s (Mutex_Q m)) \<Longrightarrow> th_pending_object (threads s t) = Some m"
    "susp s t \<Longrightarrow> th_pending_object (threads s t) = Some m \<Longrightarrow> t \<in> set (queues s (Mutex_Q m))"
    "t \<in> set (queues s (Mutex_Q m)) \<Longrightarrow> \<exists>owner. mtx_owner (mutexes s m) = Some owner"
    "mtx_owner (mutexes s m) = Some t \<Longrightarrow> m \<in> set (th_taken_object_list (threads s t))"
    "sorted (map (prio s) (filter (\<lambda>t. t \<notin> E) (queues s (Mutex_Q m))))"
    "t \<in> set (queues s (Mutex_Q m)) \<Longrightarrow> t \<notin> E \<Longrightarrow> mtx_priority (mutexes s m) \<le> prio s t"
    "th_init_priority (threads s t) < 32"
  using assms unfolding pi_core_def by (elim conjE, blast)+

lemma pi_coreI:
  assumes "\<And>m t. mtx_owner (mutexes s m) = Some t \<Longrightarrow> mtx_flag (mutexes s m) = RT_IPC_FLAG_PRIO"
    "\<And>m t. t \<in> set (queues s (Mutex_Q m)) \<Longrightarrow> th_pending_object (threads s t) = Some m"
    "\<And>m t. susp s t \<Longrightarrow> th_pending_object (threads s t) = Some m \<Longrightarrow> t \<in> set (queues s (Mutex_Q m))"
    "\<And>m t. t \<in> set (queues s (Mutex_Q m)) \<Longrightarrow> \<exists>owner. mtx_owner (mutexes s m) = Some owner"
    "\<And>m t. mtx_owner (mutexes s m) = Some t \<Longrightarrow> m \<in> set (th_taken_object_list (threads s t))"
    "\<And>m. sorted (map (prio s) (filter (\<lambda>t. t \<notin> E) (queues s (Mutex_Q m))))"
    "\<And>m t. t \<in> set (queues s (Mutex_Q m)) \<Longrightarrow> t \<notin> E \<Longrightarrow> mtx_priority (mutexes s m) \<le> prio s t"
    "\<And>t. th_init_priority (threads s t) < 32"
  shows "pi_core E s"
  unfolding pi_core_def by (intro conjI allI impI) (fact assms | rule assms; assumption)+

text \<open>An exception for a thread that waits for no mutex is none.\<close>

lemma pi_no_exception:
  assumes "pi_core {t} s" and "pi_links {} s" and "\<And>m. t \<notin> set (queues s (Mutex_Q m))"
  shows "pi_inv s"
proof -
  have "filter (\<lambda>u. u \<noteq> t) (queues s (Mutex_Q m)) = queues s (Mutex_Q m)" for m using assms(3) by simp
  note f = this
  note c = pi_coreD [OF assms(1)]
  have srt: "sorted (map (prio s) (filter (\<lambda>u. u \<notin> {}) (queues s (Mutex_Q m))))" for m
    using c(6) [of m] f [of m] by simp
  have mp: "mtx_priority (mutexes s m) \<le> prio s u" if "u \<in> set (queues s (Mutex_Q m))" for m u
    using c(7) [OF that] that assms(3) by blast
  have "pi_core {} s" by (rule pi_coreI; (erule c(1) c(2) c(4) c(5) mp | erule (1) c(3) | rule c(8) srt))
  with assms(2) show ?thesis by (simp add: pi_inv_def)
qed

text \<open>An owner never runs at a lower priority than a thread that waits for it.\<close>

lemma pi_inv_owner:
  assumes "pi_inv s" and "t \<in> set (queues s (Mutex_Q m))" and "mtx_owner (mutexes s m) = Some owner"
  shows "prio s owner \<le> prio s t"
proof -
  have "prio s owner \<le> mtx_priority (mutexes s m)" using assms(1,3) by (simp add: pi_inv_def pi_links_def)
  also have "\<dots> \<le> prio s t" using assms(1,2) pi_coreD(7) [of "{}" s t m] by (simp add: pi_inv_def)
  finally show ?thesis .
qed

lemma sorted_hd_le: "sorted (map f xs) \<Longrightarrow> x \<in> set xs \<Longrightarrow> f (hd xs) \<le> (f x :: nat)"
  by (cases xs) auto

lemma requeue_pi:
  assumes "kok s" and "pi_core {t} s" and "pi_links {} s" and "t \<in> set (queues s (Mutex_Q m))"
    and "mtx_owner (mutexes s m) = Some owner"
  shows "pi_core {} (requeue t m s)" and "pi_links {m} (requeue t m s)"
proof -
  note c = pi_coreD [OF assms(2)]
  note r = requeue_effect [OF assms(1,4) c(1) [OF assms(5)]]
  let ?s' = "requeue t m s"
  have qok: "queues_ok s" using kinvD(2) [OF kokD(1) [OF assms(1)]] .
  have set: "set (queues ?s' (Mutex_Q n)) = set (queues s (Mutex_Q n))"
    and ow: "mtx_owner (mutexes ?s' n) = mtx_owner (mutexes s n)"
      "mtx_flag (mutexes ?s' n) = mtx_flag (mutexes s n)" for n
    using r(2) by (auto simp: pi_same_def)
  have m: "sorted (map (prio s) (queues ?s' (Mutex_Q m)))"
    using takeWhile_insert_sorted [of "prio s" "filter (\<lambda>x. x \<noteq> t) (queues s (Mutex_Q m))" t] c(6) [of m]
    by (simp add: r(4) wait_order_def RT_IPC_FLAG_PRIO_def RT_IPC_FLAG_FIFO_def)
  have sorted: "sorted (map (prio s) (queues ?s' (Mutex_Q n)))" for n
  proof (cases "n = m")
    case False
    then have "t \<notin> set (queues s (Mutex_Q n))" using assms(4) qok by (auto simp: queues_ok_def)
    then show ?thesis using c(6) [of n] r(5) [of "Mutex_Q n"] False by simp
  qed (simp add: m)
  have mp: "mtx_priority (mutexes ?s' n) \<le> prio s u" if "u \<in> set (queues s (Mutex_Q n))" for n u
  proof (cases "n = m")
    case True
    then show ?thesis using sorted_hd_le [OF m, of u] that set r(6) by simp
  next
    case False
    then have "u \<noteq> t" using that assms(4) qok by (auto simp: queues_ok_def)
    then show ?thesis using c(7) [OF that] r(7) [OF False] by simp
  qed
  show "pi_core {} ?s'"
    by (rule pi_coreI; unfold r(3) ow set; (erule c(1) c(2) c(4) c(5) mp | erule (1) c(3) | rule c(8) | simp add: sorted))
  show "pi_links {m} ?s'" using assms(3) r(7) unfolding pi_links_def r(3) ow by auto
qed

text \<open>The owner takes over the priority that its mutexes demand.\<close>

lemma lend_pi:
  fixes owner :: tid
  assumes "kok s" and "pi_core {} s" and "pi_links {m} s" and "mtx_owner (mutexes s m) = Some owner"
    and "p < 32" and "\<And>n. mtx_owner (mutexes s n) = Some owner \<Longrightarrow> p \<le> mtx_priority (mutexes s n)"
  defines "s' \<equiv> snd (rt_sched_thread_change_priority owner p s)"
  shows "kok s'" and "pi_same s s'" and "pi_core {owner} s'" and "pi_links {} s'"
    and "prio s' u = (if u = owner then p else prio s u)"
proof -
  note c = pi_coreD [OF assms(2)]
  note e = change_priority_effect [OF assms(1,5), where t = owner, folded s'_def]
  show "kok s'" "pi_same s s'" "prio s' u = (if u = owner then p else prio s u)" using e(1-3) by auto
  have q: "queues s' (Mutex_Q n) = queues s (Mutex_Q n)" for n by (rule e(5)) simp
  have sorted: "sorted (map (prio s') (filter (\<lambda>u. u \<noteq> owner) (queues s (Mutex_Q n))))" for n
  proof -
    have "map (prio s') (filter (\<lambda>u. u \<noteq> owner) (queues s (Mutex_Q n))) =
        map (prio s) (filter (\<lambda>u. u \<noteq> owner) (queues s (Mutex_Q n)))" by (simp add: e(3))
    moreover have "sorted (map (prio s) (filter (\<lambda>u. u \<noteq> owner) (queues s (Mutex_Q n))))"
      using c(6) [of n] sorted_filter [of "prio s" "queues s (Mutex_Q n)"] by simp
    ultimately show ?thesis by (simp only:)
  qed
  have same: "susp s' u = susp s u" "th_pending_object (threads s' u) = th_pending_object (threads s u)"
    "th_taken_object_list (threads s' u) = th_taken_object_list (threads s u)"
    "th_init_priority (threads s' u) = th_init_priority (threads s u)" for u
    using e(2) by (simp_all add: pi_same_def)
  have mp: "mtx_priority (mutexes s n) \<le> prio s' u" if "u \<in> set (queues s (Mutex_Q n))" "u \<notin> {owner}" for n u
    using c(7) [OF that(1)] that(2) e(3) [of u] by simp
  show "pi_core {owner} s'"
    by (rule pi_coreI; unfold q e(4) same; (erule c(1) c(2) c(4) c(5) mp | erule (1) c(3) mp | rule c(8) | simp add: sorted))
  show "pi_links {} s'"
    unfolding pi_links_def e(3,4)
  proof (intro allI impI)
    fix n v assume v: "mtx_owner (mutexes s n) = Some v"
    show "(if v = owner then p else prio s v) \<le> mtx_priority (mutexes s n)"
      using assms(3,4,6) v by (cases "n = m") (auto simp: pi_links_def)
  qed
qed

lemma inherit_pi:
  assumes "kok s" and "pi_core {} s" and "pi_links {m} s" and "mtx_owner (mutexes s m) = Some owner"
  defines "p \<equiv> thread_get_mutex_priority owner s"
  shows "p < 32" and "mtx_owner (mutexes s n) = Some owner \<Longrightarrow> p \<le> mtx_priority (mutexes s n)"
    and "p = prio s owner \<Longrightarrow> pi_inv s"
proof -
  note c = pi_coreD [OF assms(2)]
  show "p < 32" using thread_get_mutex_priority_le(1) [of owner s] c(8) [of owner] by (simp add: p_def)
  show le: "p \<le> mtx_priority (mutexes s n)" if "mtx_owner (mutexes s n) = Some owner" for n
    using thread_get_mutex_priority_le(2) [OF c(5) [OF that]] by (simp add: p_def)
  show "pi_inv s" if "p = prio s owner"
    unfolding pi_inv_def pi_links_def
  proof (intro conjI allI impI)
    fix n v assume v: "mtx_owner (mutexes s n) = Some v"
    show "prio s v \<le> mtx_priority (mutexes s n)"
      using le that assms(3,4) v by (cases "n = m") (auto simp: pi_links_def)
  qed (rule assms(2))
qed

text \<open>The thread that a suspended thread waits for.\<close>

definition waits_for :: "kernel \<Rightarrow> tid \<Rightarrow> tid option" where
  "waits_for s t =
     (if susp s t then Option.bind (th_pending_object (threads s t)) (\<lambda>m. mtx_owner (mutexes s m)) else None)"

lemma pi_same_waits_for: "pi_same s s' \<Longrightarrow> waits_for s' t = waits_for s t"
  by (cases "th_pending_object (threads s t)") (simp_all add: pi_same_def waits_for_def)

text \<open>A rank that falls along the chain of waiting threads: there is no deadlock among them.\<close>

definition ranked :: "(tid \<Rightarrow> nat) \<Rightarrow> kernel \<Rightarrow> bool" where
  "ranked r s \<longleftrightarrow> (\<forall>t u. waits_for s t = Some u \<longrightarrow> r u < r t)"

lemma update_priority_loop_returns:
  assumes "kok s" and "pi_core {t} s" and "pi_links {} s" and "ranked r s"
  shows "\<exists>s'. update_priority_loop t s = Some s' \<and> kok s' \<and> pi_same s s' \<and> pi_inv s' \<and>
    (\<forall>u. r t \<le> r u \<longrightarrow> prio s' u = prio s u)"
  using assms
proof (induction "r t" arbitrary: s t rule: less_induct)
  case less
  note c = pi_coreD [OF less.prems(2)]
  show ?case
  proof (cases "susp s t \<and> th_pending_object (threads s t) \<noteq> None")
    case False
    then have "update_priority_loop t s = Some s"
      by (subst update_priority_loop.simps)
        (auto simp: rt_sched_thread_is_suspended_def split: option.splits)
    moreover have "t \<notin> set (queues s (Mutex_Q m))" for m
      using False c(2) wait_q_susp [OF kokD(1) [OF less.prems(1)] is_wait_q_simps(2)] by blast
    ultimately show ?thesis using pi_no_exception [OF less.prems(2,3)] less.prems(1) by auto
  next
    case True
    then obtain m where m: "susp s t" "th_pending_object (threads s t) = Some m" by auto
    have tm: "t \<in> set (queues s (Mutex_Q m))" using c(3) [OF m] .
    then obtain u where u: "mtx_owner (mutexes s m) = Some u" using c(4) by blast
    have ru: "r u < r t" using less.prems(4) m u by (simp add: ranked_def waits_for_def)
    let ?s2 = "requeue t m s"
    note e = requeue_effect [OF less.prems(1) tm c(1) [OF u]]
    note q = requeue_pi [OF less.prems(1-3) tm u]
    have u2: "mtx_owner (mutexes ?s2 m) = Some u" using e(2) u by (simp add: pi_same_def)
    let ?p = "thread_get_mutex_priority u ?s2"
    let ?s3 = "snd (rt_sched_thread_change_priority u ?p ?s2)"
    note p = inherit_pi [OF e(1) q u2]
    note i = lend_pi [OF e(1) q u2 p(1,2)]
    have eq: "update_priority_loop t s = (if ?p \<noteq> prio ?s2 u then update_priority_loop u ?s3 else Some ?s2)"
      using m u2 unfolding requeue_def
      by (subst update_priority_loop.simps)
        (simp add: rt_sched_thread_is_suspended_def rt_sched_thread_get_curr_prio_def Let_def)
    show ?thesis
    proof (cases "?p = prio ?s2 u")
      case True
      then show ?thesis using eq e(1-3) p(3) by simp
    next
      case False
      have s23: "pi_same s ?s3" using pi_same_trans [OF e(2) i(2)] .
      have "ranked r ?s3" using less.prems(4) pi_same_waits_for [OF s23] by (simp add: ranked_def)
      from less.hyps [OF ru i(1,3,4) this] obtain s'
        where s': "update_priority_loop u ?s3 = Some s'" "kok s'" "pi_same ?s3 s'" "pi_inv s'"
          "\<forall>v. r u \<le> r v \<longrightarrow> prio s' v = prio ?s3 v" by blast
      have "prio s' v = prio s v" if "r t \<le> r v" for v
        using s'(5) that ru i(5) [of v] e(3) by auto
      then show ?thesis using eq False s' pi_same_trans [OF s23 s'(3)] by auto
    qed
  qed
qed

section \<open>Waiting for a mutex\<close>

lemma pi_cong:
  assumes "\<And>t. susp s' t = susp s t" "\<And>t. prio s' t = prio s t"
    "\<And>t. th_pending_object (threads s' t) = th_pending_object (threads s t)"
    "\<And>t. th_taken_object_list (threads s' t) = th_taken_object_list (threads s t)"
    "\<And>t. th_init_priority (threads s' t) = th_init_priority (threads s t)"
    "\<And>m. queues s' (Mutex_Q m) = queues s (Mutex_Q m)" "mutexes s' = mutexes s"
  shows "pi_core E s' = pi_core E s" and "pi_links M s' = pi_links M s" and "pi_inv s' = pi_inv s"
    and "waits_for s' t = waits_for s t"
  unfolding pi_inv_def pi_core_def pi_links_def waits_for_def assms by (rule refl)+

lemma keeps_pi: "keeps s s' \<Longrightarrow> pi_inv s' = pi_inv s" "keeps s s' \<Longrightarrow> waits_for s' t = waits_for s t"
  by (rule pi_cong; simp add: keeps_def)+

lemma pi_set_th_error [simp]: "pi_inv (set_th_error t e s) = pi_inv s" "waits_for (set_th_error t e s) u = waits_for s u"
  by (rule pi_cong; simp)+

lemma pi_enter_critical [simp]: "pi_inv (rt_enter_critical s) = pi_inv s" "waits_for (rt_enter_critical s) u = waits_for s u"
  by (rule pi_cong; simp)+

lemma pi_same_upd_priority [simp]: "pi_same s (upd_mutex m (\<lambda>x. x\<lparr>mtx_priority := p\<rparr>) s)"
  by (simp add: pi_same_def upd_mutex_def)

lemma ranked_pi_same: "pi_same s s' \<Longrightarrow> ranked r s' = ranked r s"
  by (simp add: ranked_def pi_same_waits_for)

text \<open>The waiting thread's priority recorded in the mutex.\<close>

lemma record_priority_pi:
  assumes "kok s" and "pi_core {t} s" and "pi_links {} s" and "t \<in> set (queues s (Mutex_Q m))"
    and "sorted (map (prio s) (queues s (Mutex_Q m)))" and "prio s t < mtx_priority (mutexes s m)"
  defines "s' \<equiv> upd_mutex m (\<lambda>x. x\<lparr>mtx_priority := prio s t\<rparr>) s"
  shows "pi_core {} s'" and "pi_links {m} s'"
proof -
  note c = pi_coreD [OF assms(2)]
  have only: "t \<notin> set (queues s (Mutex_Q n))" if "n \<noteq> m" for n
    using that assms(4) kinvD(2) [OF kokD(1) [OF assms(1)]] by (auto simp: queues_ok_def)
  have s': "queues s' = queues s" "threads s' = threads s" "mtx_owner (mutexes s' n) = mtx_owner (mutexes s n)"
    "mtx_flag (mutexes s' n) = mtx_flag (mutexes s n)" for n by (simp_all add: s'_def)
  have sorted: "sorted (map (prio s) (queues s (Mutex_Q n)))" for n
    using assms(5) c(6) [of n] only [of n] by (cases "n = m") simp_all
  have mp: "mtx_priority (mutexes s' n) \<le> prio s u" if "u \<in> set (queues s (Mutex_Q n))" for n u
    using c(7) [OF that] that only assms(6) by (cases "n = m"; cases "u = t") (auto simp: s'_def)
  show "pi_core {} s'"
    by (rule pi_coreI; unfold s'; (erule c(1) c(2) c(4) c(5) mp | erule (1) c(3) | rule c(8) | simp add: sorted))
  show "pi_links {m} s'" using assms(3) by (auto simp: pi_links_def s'_def)
qed

lemma mutex_inherit_pi:
  assumes "kok s" and "pi_core {t} s" and "pi_links {} s" and "t \<in> set (queues s (Mutex_Q m))"
    and "sorted (map (prio s) (queues s (Mutex_Q m)))"
    and "mtx_owner (mutexes s m) = Some owner" and "ranked r s"
  shows "\<exists>s'. mutex_inherit m owner t s = Some s' \<and> kok s' \<and> pi_inv s' \<and> pi_same s s'"
proof (cases "prio s t < mtx_priority (mutexes s m)")
  case False
  note c = pi_coreD [OF assms(2)]
  have qok: "queues_ok s" using kinvD(2) [OF kokD(1) [OF assms(1)]] .
  have sorted: "sorted (map (prio s) (queues s (Mutex_Q n)))" for n
  proof (cases "n = m")
    case False
    then have "t \<notin> set (queues s (Mutex_Q n))" using assms(4) qok by (auto simp: queues_ok_def)
    then show ?thesis using c(6) [of n] by simp
  qed (use assms(5) in simp)
  have mp: "mtx_priority (mutexes s n) \<le> prio s u" if "u \<in> set (queues s (Mutex_Q n))" for n u
  proof (cases "u = t")
    case True
    then have "n = m" using that assms(4) qok by (auto simp: queues_ok_def)
    then show ?thesis using False True by simp
  qed (use c(7) [OF that] in simp)
  have "pi_core {} s"
    by (rule pi_coreI; (erule c(1) c(2) c(4) c(5) mp | erule (1) c(3) | rule c(8) | simp add: sorted))
  with assms(1,3) False show ?thesis
    by (simp add: mutex_inherit_def rt_sched_thread_get_curr_prio_def pi_inv_def)
next
  case True
  let ?p = "prio s t"
  let ?s1 = "upd_mutex m (\<lambda>x. x\<lparr>mtx_priority := ?p\<rparr>) s"
  note r = record_priority_pi [OF assms(1-5) True]
  have k1: "kok ?s1" using assms(1) by simp
  have o1: "mtx_owner (mutexes ?s1 m) = Some owner" using assms(6) by simp
  have eq: "mutex_inherit m owner t s = (if ?p < prio s owner then thread_update_priority owner ?p ?s1 else Some ?s1)"
    using True by (simp add: mutex_inherit_def rt_sched_thread_get_curr_prio_def Let_def)
  have su: "susp s t" using wait_q_susp [OF kokD(1) [OF assms(1)] is_wait_q_simps(2) assms(4)] .
  have p: "?p < 32" using susp_queues(1) [OF kokD(1) [OF assms(1)] su] by (simp add: mask_ok_def)
  show ?thesis
  proof (cases "?p < prio s owner")
    case lt: True
    have le: "?p \<le> mtx_priority (mutexes ?s1 n)" if "mtx_owner (mutexes ?s1 n) = Some owner" for n
      using assms(3) that lt by (cases "n = m") (auto simp: pi_links_def intro: order_trans [OF less_imp_le])
    note l = lend_pi [OF k1 r o1 p le]
    have same: "pi_same s (snd (rt_sched_thread_change_priority owner ?p ?s1))"
      using pi_same_trans [OF pi_same_upd_priority l(2)] .
    have "ranked r (snd (rt_sched_thread_change_priority owner ?p ?s1))"
      using assms(7) ranked_pi_same [OF same] by simp
    from update_priority_loop_returns [OF l(1,3,4) this] show ?thesis
      using eq lt pi_same_trans [OF same] by (auto simp: thread_update_priority_def)
  next
    case False
    have "pi_links {} ?s1"
      using assms(3,6) False by (auto simp: pi_links_def)
    then show ?thesis using eq False k1 r(1) by (simp add: pi_inv_def)
  qed
qed

lemma block_pi:
  assumes "suspended s s2 t (Mutex_Q m) RT_IPC_FLAG_PRIO" and "pi_inv s" and "\<And>q. t \<notin> set (queues s q)"
    and "mtx_owner (mutexes s m) = Some owner"
  defines "s3 \<equiv> set_pending t (Some m) s2"
  shows "kok s3" and "pi_core {t} s3" and "pi_links {} s3" and "t \<in> set (queues s3 (Mutex_Q m))"
    and "sorted (map (prio s3) (queues s3 (Mutex_Q m)))" and "mtx_owner (mutexes s3 m) = Some owner"
proof -
  have core: "pi_core {} s" and links: "pi_links {} s" using assms(2) by (simp_all add: pi_inv_def)
  note c = pi_coreD [OF core]
  have su: "kok s2" "susp s2 t" "\<And>u. u \<noteq> t \<Longrightarrow> susp s2 u = susp s u"
    "queues s2 (Mutex_Q m) = wait_order RT_IPC_FLAG_PRIO s t (queues s (Mutex_Q m))"
    "\<And>n. n \<noteq> m \<Longrightarrow> queues s2 (Mutex_Q n) = queues s (Mutex_Q n)" "\<And>u. prio s2 u = prio s u"
    "\<And>u. th_init_priority (threads s2 u) = th_init_priority (threads s u)"
    "\<And>u. th_pending_object (threads s2 u) = th_pending_object (threads s u)"
    "\<And>u. th_taken_object_list (threads s2 u) = th_taken_object_list (threads s u)" "mutexes s2 = mutexes s"
    using assms(1) by (simp_all add: suspended_def)
  have f: "queues s3 = queues s2" "mutexes s3 = mutexes s" "prio s3 u = prio s u"
    "susp s3 u = (u = t \<or> susp s u)" "th_init_priority (threads s3 u) = th_init_priority (threads s u)"
    "th_pending_object (threads s3 u) = (if u = t then Some m else th_pending_object (threads s u))"
    "th_taken_object_list (threads s3 u) = th_taken_object_list (threads s u)" for u
    using su(2) su(3) [of u] by (auto simp: s3_def set_pending_def su(6-10))
  show "kok s3"
  proof -
    have "kinv s3" unfolding s3_def set_pending_def by (rule kinv_upd_thread_neutral) (use su(1) in \<open>simp_all add: kok_def\<close>)
    then show ?thesis using su(1) by (auto simp: s3_def set_pending_def kok_def ttmr_ok_def timer_active_def)
  qed
  have qm: "queues s2 (Mutex_Q m) = takeWhile (\<lambda>n. prio s n \<le> prio s t) (queues s (Mutex_Q m)) @ t #
      dropWhile (\<lambda>n. prio s n \<le> prio s t) (queues s (Mutex_Q m))"
    unfolding su(4) by (simp add: wait_order_def RT_IPC_FLAG_PRIO_def RT_IPC_FLAG_FIFO_def)
  have mem: "u \<in> set (queues s2 (Mutex_Q n)) \<longleftrightarrow> (u = t \<and> n = m) \<or> u \<in> set (queues s (Mutex_Q n))" for u n
  proof (cases "n = m")
    case True
    have "set (takeWhile P xs @ t # dropWhile P xs) = insert t (set xs)" for P xs
      by (metis list.simps(15) set_append Un_insert_right takeWhile_dropWhile_id)
    then show ?thesis using True qm by auto
  qed (use su(5) in simp)
  show "t \<in> set (queues s3 (Mutex_Q m))" "mtx_owner (mutexes s3 m) = Some owner" using mem assms(4) by (simp_all add: f)
  show srt: "sorted (map (prio s3) (queues s3 (Mutex_Q m)))"
    unfolding f qm using takeWhile_insert_sorted [of "prio s" "queues s (Mutex_Q m)" t] c(6) [of m] by simp
  have "sorted (map (prio s) (queues s2 (Mutex_Q n)))" for n
    using srt c(6) [of n] su(5) [of n] unfolding f by (cases "n = m") simp_all
  then have sorted: "sorted (map (prio s) (filter (\<lambda>u. u \<notin> {t}) (queues s2 (Mutex_Q n))))" for n
    by (rule sorted_filter)
  show "pi_core {t} s3"
  proof (rule pi_coreI; unfold f)
    show "sorted (map (prio s) (filter (\<lambda>u. u \<notin> {t}) (queues s2 (Mutex_Q n))))" for n by (rule sorted)
    show "(if u = t then Some m else th_pending_object (threads s u)) = Some n" if "u \<in> set (queues s2 (Mutex_Q n))" for n u
      using that c(2) assms(3) by (auto simp: mem)
    show "u \<in> set (queues s2 (Mutex_Q n))"
      if "u = t \<or> susp s u" "(if u = t then Some m else th_pending_object (threads s u)) = Some n" for n u
      using that c(3) by (auto simp: mem split: if_splits)
    show "\<exists>v. mtx_owner (mutexes s n) = Some v" if "u \<in> set (queues s2 (Mutex_Q n))" for n u
      using that c(4) assms(4) by (auto simp: mem)
    show "mtx_priority (mutexes s n) \<le> prio s u" if "u \<in> set (queues s2 (Mutex_Q n))" "u \<notin> {t}" for n u
      using that c(7) by (auto simp: mem)
  qed (use c(1,5,8) in blast)+
  show "pi_links {} s3" using links by (simp add: pi_links_def f)
qed

lemma rt_mutex_take_blocks:
  assumes "kok s" and "pi_inv s" and "st s t = RT_THREAD_RUNNING"
    and "mtx_owner (mutexes s m) = Some owner" and "owner \<noteq> t" and "timeout \<noteq> 0"
    and "ranked r s" and "r owner < r t"
  shows "\<exists>s'. rt_mutex_take_enter m timeout sf t s = Some (Blocked, s') \<and> kok s' \<and> pi_inv s' \<and> susp s' t \<and>
    t \<in> set (queues s' (Mutex_Q m))"
proof -
  let ?s1 = "set_th_error t RT_EOK (rt_enter_critical s)"
  let ?r = "rt_thread_suspend_to_list t (Some (Mutex_Q m)) RT_IPC_FLAG_PRIO sf ?s1"
  have k1: "kok ?s1" "pi_inv ?s1" "st ?s1 t = RT_THREAD_RUNNING" "mtx_owner (mutexes ?s1 m) = Some owner"
    using assms(1-4) by simp_all
  have fl: "mtx_flag (mutexes s m) = RT_IPC_FLAG_PRIO" using assms(2,4) pi_coreD(1) by (auto simp: pi_inv_def)
  note su = rt_thread_suspend_to_list_suspended [OF k1(1,3) is_wait_q_simps(2), of m RT_IPC_FLAG_PRIO sf]
  have q: "t \<notin> set (queues ?s1 q)" for q
    using running_unqueued(1) [OF kinvD(1) [OF kokD(1) [OF assms(1)]] assms(3)] by (simp add: unqueued_def)
  note b = block_pi [OF su(2) k1(2) q k1(4)]
  let ?s3 = "set_pending t (Some m) (snd ?r)"
  have f: "susp (snd ?r) u = (u = t \<or> susp s u)" "th_pending_object (threads (snd ?r) u) = th_pending_object (threads s u)"
    "mutexes (snd ?r) = mutexes s" for u
    using su(2) by (cases "u = t"; simp add: suspended_def)+
  have "waits_for ?s3 u = (if u = t then Some owner else waits_for s u)" for u
    using f assms(4) by (simp add: waits_for_def set_pending_def)
  then have rk: "ranked r ?s3" using assms(7,8) by (simp add: ranked_def)
  from mutex_inherit_pi [OF b rk] obtain s4
    where s4: "mutex_inherit m owner t ?s3 = Some s4" "kok s4" "pi_inv s4" "pi_same ?s3 s4" by blast
  let ?s5 = "if timeout > 0 then arm_thread_timer t (word_of_int timeout) s4 else s4"
  have ret: "fst ?r = RT_EOK" by (rule su(1))
  have eq: "rt_mutex_take_enter m timeout sf t s = Some (Blocked, rt_exit_critical ?s5)"
    using assms(4-6) ret s4(1) fl
    by (cases ?r) (simp add: rt_mutex_take_enter_def spin_defs Let_def)
  have k5: "kok ?s5" "keeps s4 ?s5" using arm_thread_timer_keeps(1,2) [OF s4(2)] s4(2) by auto
  have ke: "keeps s4 (rt_exit_critical ?s5)"
    using keeps_trans [OF k5(2) resched_keeps [OF rt_exit_critical_resched [OF kokD(1) [OF k5(1)]]]] .
  have "susp s4 t" "t \<in> set (queues s4 (Mutex_Q m))"
    using s4(4) b(4) f by (simp_all add: pi_same_def set_pending_def)
  then show ?thesis
    using eq ke keeps_pi(1) [OF ke] s4(3) kok_exit_critical [OF k5(1)] by (simp add: keeps_def)
qed

text \<open>C18: priority inheritance.  When the running thread has to wait for a mutex, and the owners it thereby waits
  for are not in turn waiting for it, the take blocks it in the wait list in priority order
  and raises the priorities along the whole chain of owners: afterwards no thread that holds a mutex has
  a lower priority than any thread waiting for that mutex.\<close>

theorem rt_mutex_take_inherits:
  assumes "kok s" and "pi_inv s" and "st s t = RT_THREAD_RUNNING"
    and "mtx_owner (mutexes s m) = Some owner" and "owner \<noteq> t" and "timeout \<noteq> 0"
    and "ranked r s" and "r owner < r t"
  shows "\<exists>s'. rt_mutex_take_enter m timeout sf t s = Some (Blocked, s') \<and> kok s' \<and> pi_inv s' \<and>
    susp s' t \<and> t \<in> set (queues s' (Mutex_Q m)) \<and>
    (\<forall>n u v. u \<in> set (queues s' (Mutex_Q n)) \<longrightarrow> mtx_owner (mutexes s' n) = Some v \<longrightarrow> prio s' v \<le> prio s' u)"
  using rt_mutex_take_blocks [OF assms, of sf] pi_inv_owner by blast

section \<open>Handing a mutex over\<close>

lemma taken_remove_simps [simp]:
  "queues (taken_remove m s) = queues s" "mutexes (taken_remove m s) = mutexes s"
  "current_thread (taken_remove m s) = current_thread s" "locked (taken_remove m s) = locked s"
  "th_stat (threads (taken_remove m s) t) = th_stat (threads s t)" "prio (taken_remove m s) t = prio s t"
  "th_pending_object (threads (taken_remove m s) t) = th_pending_object (threads s t)"
  "th_init_priority (threads (taken_remove m s) t) = th_init_priority (threads s t)"
  "th_taken_object_list (threads (taken_remove m s) t) = filter (\<lambda>n. n \<noteq> m) (th_taken_object_list (threads s t))"
  "kok (taken_remove m s) = kok s"
proof -
  show "kok (taken_remove m s) = kok s"
    by (simp add: kok_def kinv_def kinv_except_def queues_ok_def bitmap_ok_def th_ok_def mask_ok_def ttmr_ok_def
        timer_active_def taken_remove_def)
qed (simp_all add: taken_remove_def locked_def)

lemma check_and_update_prio_effect:
  fixes t :: tid and m :: nat
  assumes "kok s" and "\<And>u. th_init_priority (threads s u) < 32"
  defines "s' \<equiv> snd (check_and_update_prio t m s)"
  defines "p \<equiv> if mtx_ceiling_priority (mutexes s m) \<noteq> 255 \<or> prio s t = mtx_priority (mutexes s m)
    then thread_get_mutex_priority t s else prio s t"
  shows "kok s'" "pi_same s s'" "mutexes s' = mutexes s" "\<not> is_ready_q q \<Longrightarrow> queues s' q = queues s q"
    "prio s' u = (if u = t then p else prio s u)"
proof -
  let ?g = "thread_get_mutex_priority t s"
  have g: "?g < 32" using thread_get_mutex_priority_le(1) [of t s] assms(2) [of t] by simp
  note e = change_priority_effect [OF assms(1) g, where t = t]
  show "kok s'" "pi_same s s'" "mutexes s' = mutexes s" "\<not> is_ready_q q \<Longrightarrow> queues s' q = queues s q"
    "prio s' u = (if u = t then p else prio s u)"
    using e assms(1) by (simp_all add: s'_def p_def check_and_update_prio_def rt_sched_thread_get_curr_prio_def)
qed

lemma deq_node_kok: "kok s \<Longrightarrow> susp s t \<Longrightarrow> kok (deq_node t s)"
proof -
  assume k: "kok s" and t: "susp s t"
  note q = susp_queues [OF kokD(1) [OF k] t]
  have d: "kinv_except {t} (deq_node t s)" "unqueued (deq_node t s) t"
    using deq_node_kinv [of "{}" s t] q(2) kokD(1) [OF k] by (auto simp: kinv_def)
  have "th_ok (deq_node t s) t"
    using d(2) q(1) t is_susp_not_active [of "th_stat (threads s t)"]
    by (intro th_ok_unqueued) (auto simp: mask_ok_def)
  then have "kinv (deq_node t s)" using kinv_except_add [of t "{}" "deq_node t s"] d(1) by (simp add: kinv_def)
  then show "kok (deq_node t s)" using k by (simp add: kok_def ttmr_ok_def timer_active_def)
qed

lemma mutex_next_owner_head:
  assumes "locked s" and "kok s" and "queues s (Mutex_Q m) = u # us"
  shows "mutex_next_owner (length (queues s (Mutex_Q m))) m s = (Some u, wake u (disarm u (deq_node u s)))"
    and "kok (wake u (disarm u (deq_node u s)))"
proof -
  have su: "susp s u" using wait_q_susp [OF kokD(1) [OF assms(2)] is_wait_q_simps(2) [of m], of u] assms(3) by simp
  have k: "kok (deq_node u s)" by (rule deq_node_kok [OF assms(2) su])
  show "mutex_next_owner (length (queues s (Mutex_Q m))) m s = (Some u, wake u (disarm u (deq_node u s)))"
    using assms(3) rt_sched_thread_ready_locked [of "deq_node u s" u] assms(1) k su by simp
  show "kok (wake u (disarm u (deq_node u s)))" using wake_disarm_kok [OF k] su by simp
qed

lemma foldl_min_in: "foldl min (a :: nat) xs \<in> insert a (set xs)"
  by (induction xs arbitrary: a) (auto simp: min_def split: if_splits)

text \<open>Dropping a mutex that did not determine the priority leaves the demanded priority alone.\<close>

lemma foldl_min_drop:
  assumes "foldl min (a :: nat) (map f xs) < f m"
  shows "foldl min a (map f (filter (\<lambda>n. n \<noteq> m) xs)) = foldl min a (map f xs)"
proof (rule antisym)
  have "foldl min a (map f xs) \<in> insert a (f ` {n \<in> set xs. n \<noteq> m})"
    using foldl_min_in [of a "map f xs"] assms by auto
  then show "foldl min a (map f (filter (\<lambda>n. n \<noteq> m) xs)) \<le> foldl min a (map f xs)"
    using foldl_min_bounds [where a = a and xs = "map f (filter (\<lambda>n. n \<noteq> m) xs)"] by auto
  show "foldl min a (map f xs) \<le> foldl min a (map f (filter (\<lambda>n. n \<noteq> m) xs))"
    unfolding foldl_min_le using foldl_min_bounds [where a = a and xs = "map f xs"] by auto
qed

text \<open>The state in which the mutex has been given up and the releaser's priority recomputed, and the one
  in which the mutex has been given to \<open>u\<close>.\<close>

definition drop_mutex :: "nat \<Rightarrow> tid \<Rightarrow> kernel \<Rightarrow> kernel" where
  "drop_mutex m t s =
     snd (check_and_update_prio t m (taken_remove m (upd_mutex m (\<lambda>x. x\<lparr>mtx_hold := 0\<rparr>) (rt_enter_critical s))))"

definition hand_over :: "nat \<Rightarrow> tid \<Rightarrow> kernel \<Rightarrow> kernel" where
  "hand_over m u s = mutex_update_priority m (set_pending u None (taken_insert u m
     (upd_mutex m (\<lambda>x. x\<lparr>mtx_owner := Some u, mtx_hold := 1\<rparr>) (wake u (disarm u (deq_node u s))))))"

lemma rt_mutex_release_drop:
  assumes "kok s" and "nest_ok s" and "pi_inv s" and "mtx_owner (mutexes s m) = Some t"
  defines "s3 \<equiv> drop_mutex m t s"
  shows "kok s3" "locked s3" "queues s3 (Mutex_Q n) = queues s (Mutex_Q n)"
    "mutexes s3 = (mutexes s)(m := (mutexes s m)\<lparr>mtx_hold := 0\<rparr>)"
    "susp s3 u = susp s u" "th_pending_object (threads s3 u) = th_pending_object (threads s u)"
    "th_taken_object_list (threads s3 u) = filter (\<lambda>n. n \<noteq> m) (th_taken_object_list (threads s u))"
    "th_init_priority (threads s3 u) = th_init_priority (threads s u)"
    "u \<noteq> t \<Longrightarrow> prio s3 u = prio s u"
    "n \<noteq> m \<Longrightarrow> mtx_owner (mutexes s n) = Some t \<Longrightarrow> prio s3 t \<le> mtx_priority (mutexes s n)"
    "prio s t = thread_get_mutex_priority t s \<Longrightarrow> prio s3 t = thread_get_mutex_priority t s3"
proof -
  note links = assms(3) [unfolded pi_inv_def]
  have core: "pi_core {} s" using assms(3) by (simp add: pi_inv_def)
  note c = pi_coreD [OF core]
  define s2 where "s2 = upd_mutex m (\<lambda>x. x\<lparr>mtx_hold := 0\<rparr>) (rt_enter_critical s)"
  let ?s2 = "taken_remove m s2"
  have k2: "kok ?s2" using assms(1) by (simp add: s2_def)
  have i2: "th_init_priority (threads ?s2 u) < 32" for u using c(8) by (simp add: s2_def)
  note e = check_and_update_prio_effect [OF k2 i2, where t = t and m = m, folded s2_def drop_mutex_def, unfolded s2_def, folded drop_mutex_def s3_def s2_def]
  show "kok s3" by (rule e(1))
  show "locked s3" using pi_same_locked [OF e(2)] nest_ok_locked [OF assms(2)] by (simp add: s2_def)
  show "queues s3 (Mutex_Q n) = queues s (Mutex_Q n)" using e(4) [of "Mutex_Q n"] by (simp add: s2_def)
  show mx: "mutexes s3 = (mutexes s)(m := (mutexes s m)\<lparr>mtx_hold := 0\<rparr>)" using e(3) by (simp add: s2_def)
  show "susp s3 u = susp s u" "th_pending_object (threads s3 u) = th_pending_object (threads s u)"
    and tk: "th_taken_object_list (threads s3 u) = filter (\<lambda>n. n \<noteq> m) (th_taken_object_list (threads s u))"
    and it: "th_init_priority (threads s3 u) = th_init_priority (threads s u)" for u
    using e(2) by (simp_all add: pi_same_def s2_def)
  show "prio s3 u = prio s u" if "u \<noteq> t" using e(5) [of u] that by (simp add: s2_def)
  show "prio s3 t \<le> mtx_priority (mutexes s n)" if "n \<noteq> m" "mtx_owner (mutexes s n) = Some t"
  proof -
    have "thread_get_mutex_priority t ?s2 \<le> mtx_priority (mutexes ?s2 n)"
      by (rule thread_get_mutex_priority_le(2)) (use c(5) [OF that(2)] that(1) in \<open>simp add: s2_def\<close>)
    moreover have "prio s t \<le> mtx_priority (mutexes s n)" using links that(2) by (simp add: pi_links_def)
    ultimately show ?thesis using e(5) [of t] that(1) by (simp add: s2_def)
  qed
  let ?f = "\<lambda>n. mutex_prio (mutexes s n)"
  let ?xs = "th_taken_object_list (threads s t)"
  have g2: "thread_get_mutex_priority t ?s2 = foldl min (th_init_priority (threads s t)) (map ?f (filter (\<lambda>n. n \<noteq> m) ?xs))"
    unfolding thread_get_mutex_priority_alt by (auto simp: s2_def intro!: arg_cong2 [where f = "foldl min"])
  have g3: "thread_get_mutex_priority t s3 = thread_get_mutex_priority t ?s2"
    unfolding thread_get_mutex_priority_alt using tk it mx by (simp add: s2_def)
  show "prio s3 t = thread_get_mutex_priority t s3" if pr: "prio s t = thread_get_mutex_priority t s"
  proof (cases "mtx_ceiling_priority (mutexes s m) \<noteq> 255 \<or> prio s t = mtx_priority (mutexes s m)")
    case True
    then show ?thesis using e(5) [of t] g3 by (auto simp: s2_def)
  next
    case False
    have "prio s t \<le> mtx_priority (mutexes s m)" using links assms(4) by (simp add: pi_links_def)
    moreover have "prio s t < 255" using pr thread_get_mutex_priority_le(1) [of t s] c(8) [of t] by simp
    ultimately have "prio s t < ?f m" using False by (auto simp: mutex_prio_def)
    then have "foldl min (th_init_priority (threads s t)) (map ?f ?xs) < ?f m"
      using pr by (simp add: thread_get_mutex_priority_alt)
    from foldl_min_drop [OF this] show ?thesis
      using False e(5) [of t] pr g2 g3 by (simp add: thread_get_mutex_priority_alt s2_def)
  qed
qed

lemma set_pending_simps [simp]:
  "kok s \<Longrightarrow> kok (set_pending t p s)" "queues (set_pending t p s) = queues s" "mutexes (set_pending t p s) = mutexes s"
  "kok s \<Longrightarrow> kok (taken_insert t m s)" "queues (taken_insert t m s) = queues s" "mutexes (taken_insert t m s) = mutexes s"
proof -
  have "kinv s \<Longrightarrow> kinv (set_pending t p s)" "kinv s \<Longrightarrow> kinv (taken_insert t m s)"
    unfolding set_pending_def taken_insert_def by (rule kinv_upd_thread_neutral; simp)+
  then show "kok s \<Longrightarrow> kok (set_pending t p s)" "kok s \<Longrightarrow> kok (taken_insert t m s)"
    by (auto simp: kok_def ttmr_ok_def timer_active_def set_pending_def taken_insert_def)
qed (simp_all add: set_pending_def taken_insert_def)

text \<open>The next owner is the first thread of the wait list; the others now wait for it.\<close>

lemma hand_over_fields:
  assumes "kok s" and "nest_ok s" and "pi_inv s" and "mtx_owner (mutexes s m) = Some t"
    and "\<And>q. t \<notin> set (queues s q)" and "queues s (Mutex_Q m) = u # us"
  defines "s3 \<equiv> drop_mutex m t s"
  defines "s7 \<equiv> hand_over m u s3"
  shows "kok s7" and "queues s7 (Mutex_Q n) = (if n = m then us else queues s (Mutex_Q n))"
    and "prio s7 v = prio s3 v" and "susp s7 v = (v \<noteq> u \<and> susp s v)"
    and "th_pending_object (threads s7 v) = (if v = u then None else th_pending_object (threads s v))"
    and "th_taken_object_list (threads s7 v) = (if v = u then [m] else []) @ th_taken_object_list (threads s3 v)"
    and "th_init_priority (threads s7 v) = th_init_priority (threads s v)"
    and "n \<noteq> m \<Longrightarrow> mutexes s7 n = mutexes s n" and "mtx_owner (mutexes s7 m) = Some u"
    and "mtx_hold (mutexes s7 m) = 1" and "mtx_flag (mutexes s7 m) = mtx_flag (mutexes s m)"
    and "mtx_priority (mutexes s7 m) = (case us of [] \<Rightarrow> 255 | w # _ \<Rightarrow> prio s w)"
    and "v \<in> set (queues s (Mutex_Q n)) \<Longrightarrow> prio s7 v = prio s v"
    and "n \<noteq> m \<Longrightarrow> u \<notin> set (queues s (Mutex_Q n))" and "u \<noteq> t" and "distinct (u # us)"
proof -
  note d = rt_mutex_release_drop [OF assms(1-4), folded s3_def]
  have q3: "queues s3 (Mutex_Q m) = u # us" using d(3) assms(6) by simp
  show ut: "u \<noteq> t" using assms(5) [of "Mutex_Q m"] assms(6) by auto
  have qok: "queues_ok s" using kinvD(2) [OF kokD(1) [OF assms(1)]] .
  show dis: "distinct (u # us)" using qok assms(6) by (metis queues_ok_def)
  show only: "u \<notin> set (queues s (Mutex_Q n))" if "n \<noteq> m" for n
    using that assms(6) qok unfolding queues_ok_def by (metis list.set_intros(1) queue_id.inject(3))
  define s4 where "s4 = wake u (disarm u (deq_node u s3))"
  have k4: "kok s4" unfolding s4_def using mutex_next_owner_head(2) [OF d(2,1) q3] .
  note s7 = s7_def hand_over_def mutex_update_priority_def s4_def
  show "kok s7" using k4 by (simp add: s7)
  have q4: "queues s4 (Mutex_Q n) = (if n = m then us else queues s (Mutex_Q n))" for n
    using q3 dis only [of n] d(3) [of n] assms(6) by (auto simp: s4_def wake_queues)
  then show "queues s7 (Mutex_Q n) = (if n = m then us else queues s (Mutex_Q n))" for n by (simp add: s7)
  show pr: "prio s7 v = prio s3 v" for v by (simp add: s7 set_pending_def taken_insert_def)
  show "susp s7 v = (v \<noteq> u \<and> susp s v)"
    using d(5) [of v] by (simp add: s7 set_pending_def taken_insert_def wake_susp)
  show "th_pending_object (threads s7 v) = (if v = u then None else th_pending_object (threads s v))"
    using d(6) [of v] by (simp add: s7 set_pending_def taken_insert_def)
  show "th_taken_object_list (threads s7 v) = (if v = u then [m] else []) @ th_taken_object_list (threads s3 v)"
    by (simp add: s7 set_pending_def taken_insert_def)
  show "th_init_priority (threads s7 v) = th_init_priority (threads s v)"
    using d(8) [of v] d(8) [of u] by (simp add: s7 set_pending_def taken_insert_def)
  show "mutexes s7 n = mutexes s n" if "n \<noteq> m" using that d(4) by (simp add: s7)
  show "mtx_owner (mutexes s7 m) = Some u" "mtx_hold (mutexes s7 m) = 1"
    "mtx_flag (mutexes s7 m) = mtx_flag (mutexes s m)"
    using d(4) by (simp_all add: s7)
  have "prio s3 w = prio s w" if "us = w # ws" for w ws
    using d(9) [of w] assms(5) [of "Mutex_Q m"] assms(6) that by auto
  then show "mtx_priority (mutexes s7 m) = (case us of [] \<Rightarrow> 255 | w # _ \<Rightarrow> prio s w)"
    using q4 [of m] by (auto simp: s7 rt_sched_thread_get_curr_prio_def set_pending_def taken_insert_def
        split: list.splits)
  show "prio s7 v = prio s v" if "v \<in> set (queues s (Mutex_Q n))"
    using that assms(5) d(9) [of v] pr by metis
qed

lemma hand_over_pi:
  assumes "kok s" and "nest_ok s" and "pi_inv s" and "mtx_owner (mutexes s m) = Some t"
    and "\<And>q. t \<notin> set (queues s q)" and "queues s (Mutex_Q m) = u # us"
  shows "pi_inv (hand_over m u (drop_mutex m t s))"
    and "w \<in> set us \<Longrightarrow> prio (hand_over m u (drop_mutex m t s)) u \<le> prio (hand_over m u (drop_mutex m t s)) w"
proof -
  note d = rt_mutex_release_drop [OF assms(1-4)]
  have core: "pi_core {} s" and links: "pi_links {} s" using assms(3) by (simp_all add: pi_inv_def)
  note c = pi_coreD [OF core]
  define s7 where "s7 = hand_over m u (drop_mutex m t s)"
  note f = hand_over_fields [OF assms, folded s7_def]
  have srt: "sorted (map (prio s) (u # us))" using c(6) [of m] assms(6) by simp
  have usp: "prio s u < 32"
    using susp_queues(1) [OF kokD(1) [OF assms(1)] wait_q_susp [OF kokD(1) [OF assms(1)] is_wait_q_simps(2) [of m]]] assms(6)
    by (simp add: mask_ok_def)
  show "prio (hand_over m u (drop_mutex m t s)) u \<le> prio (hand_over m u (drop_mutex m t s)) w" if "w \<in> set us"
    using srt that f(13) [of _ m] assms(6) unfolding s7_def by auto
  have "pi_core {} s7"
  proof (rule pi_coreI)
    show "mtx_flag (mutexes s7 n) = RT_IPC_FLAG_PRIO" if "mtx_owner (mutexes s7 n) = Some v" for n v
      using that c(1) f(8,11) assms(4) by (cases "n = m") auto
    show "th_pending_object (threads s7 v) = Some n" if "v \<in> set (queues s7 (Mutex_Q n))" for n v
      using that c(2) [of v n] f(2,5,14,16) assms(6) by (auto split: if_splits)
    show "v \<in> set (queues s7 (Mutex_Q n))" if "susp s7 v" "th_pending_object (threads s7 v) = Some n" for n v
      using that c(3) [of v n] f(2) [of n] f(4,5) assms(6) by (auto split: if_splits)
    show "\<exists>w. mtx_owner (mutexes s7 n) = Some w" if "v \<in> set (queues s7 (Mutex_Q n))" for n v
      using that c(4) [of v n] f(2) [of n] f(8) [of n] f(9) by (cases "n = m") auto
    show "n \<in> set (th_taken_object_list (threads s7 v))" if "mtx_owner (mutexes s7 n) = Some v" for n v
      using that c(5) [of n v] f(8) [of n] f(9,6) d(7) [of v] by (cases "n = m") auto
    have eq: "map (prio s7) (queues s7 (Mutex_Q n)) = map (prio s) (queues s7 (Mutex_Q n))" for n
      using f(13) [of _ n] f(2) [of n] assms(6) by (auto split: if_splits)
    have "sorted (map (prio s) (queues s7 (Mutex_Q n)))" for n
      using c(6) [of n] f(2) [of n] srt by simp
    then show "sorted (map (prio s7) (filter (\<lambda>v. v \<notin> {}) (queues s7 (Mutex_Q n))))" for n
      unfolding eq [symmetric] by simp
    show "mtx_priority (mutexes s7 n) \<le> prio s7 v" if "v \<in> set (queues s7 (Mutex_Q n))" for n v
    proof (cases "n = m")
      case True
      then show ?thesis using that f(2,12) f(13) [of v m] srt assms(6) by (cases us) auto
    next
      case False
      then show ?thesis using that f(2,8) c(7) [of v n] f(13) [of v n] by simp
    qed
    show "th_init_priority (threads s7 v) < 32" for v using f(7) c(8) by simp
  qed
  moreover have "prio s7 v \<le> mtx_priority (mutexes s7 n)" if v: "mtx_owner (mutexes s7 n) = Some v" for n v
  proof (cases "n = m")
    case True
    then show ?thesis using v f(9,12) f(13) [of u m] srt usp assms(6) by (cases us) auto
  next
    case False
    then show ?thesis
      using v f(8) [OF False] d(9) [of v] d(10) [OF False] links f(3) [of v] by (cases "v = t") (auto simp: pi_links_def)
  qed
  ultimately show "pi_inv (hand_over m u (drop_mutex m t s))" by (simp add: pi_inv_def pi_links_def s7_def)
qed

lemma free_pi:
  assumes "kok s" and "nest_ok s" and "pi_inv s" and "mtx_owner (mutexes s m) = Some t"
    and "queues s (Mutex_Q m) = []" and "\<And>q. t \<notin> set (queues s q)"
  defines "s5 \<equiv> upd_mutex m (\<lambda>x. x\<lparr>mtx_owner := None, mtx_priority := 255\<rparr>) (drop_mutex m t s)"
  shows "kok s5" and "pi_inv s5"
proof -
  note d = rt_mutex_release_drop [OF assms(1-4)]
  have core: "pi_core {} s" and links: "pi_links {} s" using assms(3) by (simp_all add: pi_inv_def)
  note c = pi_coreD [OF core]
  show "kok s5" using d(1) by (simp add: s5_def)
  have f: "queues s5 (Mutex_Q n) = queues s (Mutex_Q n)" "susp s5 v = susp s v"
    "th_pending_object (threads s5 v) = th_pending_object (threads s v)"
    "th_taken_object_list (threads s5 v) = filter (\<lambda>n. n \<noteq> m) (th_taken_object_list (threads s v))"
    "th_init_priority (threads s5 v) = th_init_priority (threads s v)"
    "prio s5 v = prio (drop_mutex m t s) v" for n v
    using d(3) [of n] d(5-8) [of v] by (simp_all add: s5_def)
  have mo: "mutexes s5 n = mutexes s n" "mtx_owner (mutexes s5 m) = None" if "n \<noteq> m" for n
    using that d(4) by (simp_all add: s5_def)
  have own: "n \<noteq> m" if "mtx_owner (mutexes s5 n) = Some v" for n v using that by (auto simp: s5_def)
  have ne: "n \<noteq> m" if "v \<in> set (queues s (Mutex_Q n))" for n v using that assms(5) by auto
  have pr: "prio s5 v = prio s v" if "v \<in> set (queues s (Mutex_Q n))" for n v
    using d(9) [of v] f(6) [of v] that assms(6) by metis
  have eq: "map (prio s5) (queues s (Mutex_Q n)) = map (prio s) (queues s (Mutex_Q n))" for n
    using pr by simp
  have "pi_core {} s5"
  proof (rule pi_coreI; (unfold f(1-5))?)
    show "mtx_flag (mutexes s5 n) = RT_IPC_FLAG_PRIO" if "mtx_owner (mutexes s5 n) = Some v" for n v
      using that mo(1) [OF own [OF that]] c(1) by metis
    show "\<exists>w. mtx_owner (mutexes s5 n) = Some w" if "v \<in> set (queues s (Mutex_Q n))" for n v
      using c(4) [OF that] mo(1) [OF ne [OF that]] by simp
    show "n \<in> set (filter (\<lambda>n. n \<noteq> m) (th_taken_object_list (threads s v)))"
      if "mtx_owner (mutexes s5 n) = Some v" for n v
      using that mo(1) [OF own [OF that]] c(5) own [OF that] by simp
    have "sorted (map (prio s) (queues s (Mutex_Q n)))" for n using c(6) [of n] by simp
    then show "sorted (map (prio s5) (filter (\<lambda>v. v \<notin> {}) (queues s (Mutex_Q n))))" for n
      unfolding eq [symmetric] by simp
    show "mtx_priority (mutexes s5 n) \<le> prio s5 v" if "v \<in> set (queues s (Mutex_Q n))" for n v
      using c(7) [OF that] mo(1) [OF ne [OF that]] pr [OF that] by simp
  qed (erule c(2) | erule (1) c(3) | rule c(8))+
  moreover have "prio s5 v \<le> mtx_priority (mutexes s5 n)" if v: "mtx_owner (mutexes s5 n) = Some v" for n v
  proof -
    have n: "n \<noteq> m" using own [OF v] .
    then have "mtx_owner (mutexes s n) = Some v" using v mo(1) by simp
    then show ?thesis
      using mo(1) [OF n] d(9) [of v] d(10) [OF n] links f(6) [of v] by (cases "v = t") (auto simp: pi_links_def)
  qed
  ultimately show "pi_inv s5" by (simp add: pi_inv_def pi_links_def)
qed

text \<open>What a release does, in terms of the two intermediate states.\<close>

lemma rt_mutex_release_eq:
  assumes "mtx_owner (mutexes s m) = Some t" and "mtx_hold (mutexes s m) = 1"
    and "kok s" and "nest_ok s" and "pi_inv s"
  shows "queues s (Mutex_Q m) = u # us \<Longrightarrow>
      rt_mutex_release m t s = (RT_EOK, rt_schedule (rt_exit_critical (hand_over m u (drop_mutex m t s))))"
    and "queues s (Mutex_Q m) = [] \<Longrightarrow> \<exists>b. rt_mutex_release m t s =
      (RT_EOK, let s6 = rt_exit_critical (upd_mutex m (\<lambda>x. x\<lparr>mtx_owner := None, mtx_priority := 255\<rparr>) (drop_mutex m t s))
         in if b then rt_schedule s6 else s6)"
proof -
  note d = rt_mutex_release_drop [OF assms(3,4,5,1)]
  let ?s2 = "taken_remove m (upd_mutex m (\<lambda>x. x\<lparr>mtx_hold := 0\<rparr>) (rt_enter_critical s))"
  have upd: "upd_mutex m (\<lambda>x. x\<lparr>mtx_hold := (mtx_hold x + 255) mod 256\<rparr>) (rt_enter_critical s) =
      upd_mutex m (\<lambda>x. x\<lparr>mtx_hold := 0\<rparr>) (rt_enter_critical s)"
    using assms(2) by (simp add: upd_mutex_def)
  obtain b where ch: "check_and_update_prio t m ?s2 = (b, drop_mutex m t s)"
    unfolding drop_mutex_def by (metis prod.collapse)
  note eq = rt_mutex_release_def spin_defs Let_def upd ch
  show "rt_mutex_release m t s = (RT_EOK, rt_schedule (rt_exit_critical (hand_over m u (drop_mutex m t s))))"
    if q: "queues s (Mutex_Q m) = u # us"
  proof -
    have "queues (drop_mutex m t s) (Mutex_Q m) = u # us" using d(3) q by simp
    from mutex_next_owner_head(1) [OF d(2,1) this] assms(1) show ?thesis
      by (simp add: eq hand_over_def del: mutex_next_owner.simps)
  qed
  show "\<exists>b. rt_mutex_release m t s =
      (RT_EOK, let s6 = rt_exit_critical (upd_mutex m (\<lambda>x. x\<lparr>mtx_owner := None, mtx_priority := 255\<rparr>) (drop_mutex m t s))
         in if b then rt_schedule s6 else s6)" if q: "queues s (Mutex_Q m) = []"
    using d(3) q assms(1) by (intro exI [of _ b]) (simp add: eq)
qed

lemma keeps_get_priority:
  "keeps s s' \<Longrightarrow> thread_get_mutex_priority t s' = thread_get_mutex_priority t s"
  by (simp add: keeps_def thread_get_mutex_priority_alt)

text \<open>C23: releasing a mutex that is held once hands it to the first waiting thread, which has the highest
  priority of all that wait, or leaves it free when none waits; the priority inheritance invariant is kept, and a
  releaser that ran at the priority its mutexes demand continues at exactly the priority that its
  remaining mutexes demand.\<close>

theorem rt_mutex_release_hands_over:
  assumes "kok s" and "nest_ok s" and "pi_inv s" and "mtx_owner (mutexes s m) = Some t"
    and "mtx_hold (mutexes s m) = 1" and "st s t = RT_THREAD_RUNNING"
  shows "let (ret, s') = rt_mutex_release m t s in
    ret = RT_EOK \<and> kok s' \<and> pi_inv s' \<and>
    (case queues s (Mutex_Q m) of
       [] \<Rightarrow> mtx_owner (mutexes s' m) = None
     | u # us \<Rightarrow> mtx_owner (mutexes s' m) = Some u \<and> mtx_hold (mutexes s' m) = 1 \<and> \<not> susp s' u \<and>
         queues s' (Mutex_Q m) = us \<and> (\<forall>w \<in> set us. prio s' u \<le> prio s' w)) \<and>
    (prio s t = thread_get_mutex_priority t s \<longrightarrow> prio s' t = thread_get_mutex_priority t s')"
proof -
  have nq: "t \<notin> set (queues s q)" for q
    using running_unqueued(1) [OF kinvD(1) [OF kokD(1) [OF assms(1)]] assms(6)] by (simp add: unqueued_def)
  note d = rt_mutex_release_drop [OF assms(1-4)]
  have fin: "kok s' \<and> keeps s5 s'" if "kok s5" "s' = rt_exit_critical s5 \<or> s' = rt_schedule (rt_exit_critical s5)" for s5 s'
  proof -
    have k: "kinv s5" using kokD(1) [OF that(1)] .
    have "keeps s5 (rt_exit_critical s5)" "keeps (rt_exit_critical s5) (rt_schedule (rt_exit_critical s5))"
      using resched_keeps [OF rt_exit_critical_resched [OF k]]
        resched_keeps [OF rt_schedule_resched [OF rt_exit_critical_kinv [OF k]]] by auto
    then show ?thesis using that keeps_trans by auto
  qed
  show ?thesis
  proof (cases "queues s (Mutex_Q m)")
    case Nil
    let ?s5 = "upd_mutex m (\<lambda>x. x\<lparr>mtx_owner := None, mtx_priority := 255\<rparr>) (drop_mutex m t s)"
    note p = free_pi [OF assms(1-4) Nil nq]
    obtain s' where s': "rt_mutex_release m t s = (RT_EOK, s')"
      "s' = rt_exit_critical ?s5 \<or> s' = rt_schedule (rt_exit_critical ?s5)"
      using rt_mutex_release_eq(2) [OF assms(4,5,1,2,3) Nil] by (auto simp: Let_def split: if_splits)
    note k = fin [OF p(1) s'(2)]
    have "thread_get_mutex_priority t ?s5 = thread_get_mutex_priority t (drop_mutex m t s)"
      unfolding thread_get_mutex_priority_alt using d(7) [of t]
      by (auto intro!: arg_cong2 [where f = "foldl min"])
    then have "prio s' t = thread_get_mutex_priority t s'" if "prio s t = thread_get_mutex_priority t s"
      using d(11) [OF that] k keeps_get_priority [of ?s5 s' t] by (simp add: keeps_def)
    moreover have "mtx_owner (mutexes s' m) = None" using k by (simp add: keeps_def)
    ultimately show ?thesis using s'(1) k p(2) keeps_pi(1) [of ?s5 s'] Nil by simp
  next
    case (Cons u us)
    let ?s7 = "hand_over m u (drop_mutex m t s)"
    note f = hand_over_fields [OF assms(1-4) nq Cons] and p = hand_over_pi [OF assms(1-4) nq Cons]
    have eq: "rt_mutex_release m t s = (RT_EOK, rt_schedule (rt_exit_critical ?s7))"
      by (rule rt_mutex_release_eq(1) [OF assms(4,5,1,2,3) Cons])
    define s' where "s' = rt_schedule (rt_exit_critical ?s7)"
    have k: "kok s' \<and> keeps ?s7 s'" using fin [OF f(1)] by (simp add: s'_def)
    have "thread_get_mutex_priority t ?s7 = thread_get_mutex_priority t (drop_mutex m t s)"
      unfolding thread_get_mutex_priority_alt using f(6) [of t] f(7) [of t] f(8,15) d(4) d(7) [of t] d(8) [of t]
      by (auto intro!: arg_cong2 [where f = "foldl min"])
    then have "prio s' t = thread_get_mutex_priority t s'" if "prio s t = thread_get_mutex_priority t s"
      using d(11) [OF that] k keeps_get_priority [of ?s7 s' t] f(3) [of t] by (simp add: keeps_def)
    moreover have "mtx_owner (mutexes s' m) = Some u \<and> mtx_hold (mutexes s' m) = 1 \<and> \<not> susp s' u \<and>
        queues s' (Mutex_Q m) = us \<and> (\<forall>w \<in> set us. prio s' u \<le> prio s' w)"
      using k f(9,10) f(4) [of u] f(2) [of m] p(2) by (simp add: keeps_def)
    ultimately show ?thesis using eq k p(1) keeps_pi(1) [of ?s7 s'] Cons by (simp add: s'_def)
  qed
qed

section \<open>Examples\<close>

definition free_mutex :: rt_mutex where
  "free_mutex = \<lparr>mtx_flag = RT_IPC_FLAG_PRIO, mtx_ceiling_priority = 255, mtx_priority = 255, mtx_hold = 0, mtx_owner = None\<rparr>"

text \<open>The idle-priority thread 0 holds mutex 0, thread 1 runs.\<close>

definition demo_mutex :: kernel where
  "demo_mutex = (taken_insert 0 0 demo_kernel)\<lparr>mutexes := (\<lambda>_. free_mutex)(0 := free_mutex\<lparr>mtx_hold := 1, mtx_owner := Some 0\<rparr>)\<rparr>"

lemma demo_kernel_kok: "kok demo_kernel"
  using demo_kernel_kinv by (simp add: kok_def ttmr_ok_def)

lemma blank_thread_simps [simp]:
  "th_init_priority blank_thread < 32" "th_taken_object_list blank_thread = []" "th_pending_object blank_thread = None"
  "th_taken_object_list (demo_thread x p) = []" "th_pending_object (demo_thread x p) = None"
  by (simp_all add: blank_thread_def demo_thread_def)

lemma demo_mutex_fields [simp]:
  "queues demo_mutex (Mutex_Q m) = []" "th_pending_object (threads demo_mutex t) = None"
  "mtx_owner (mutexes demo_mutex m) = (if m = 0 then Some 0 else None)"
  "mtx_flag (mutexes demo_mutex m) = RT_IPC_FLAG_PRIO" "mtx_priority (mutexes demo_mutex m) = 255"
  "prio demo_mutex t = prio demo_kernel t" "th_init_priority (threads demo_mutex t) < 32"
  "th_taken_object_list (threads demo_mutex t) = (if t = 0 then [0] else [])"
  by (simp_all add: demo_mutex_def free_mutex_def taken_insert_def)

lemma demo_mutex_ok: "kok demo_mutex" "pi_inv demo_mutex" "st demo_mutex 1 = RT_THREAD_RUNNING" "ranked (\<lambda>t. t) demo_mutex"
proof -
  show "kok demo_mutex" using demo_kernel_kok by (simp add: demo_mutex_def)
  have "pi_core {} demo_mutex" by (rule pi_coreI) (auto split: if_splits)
  moreover have "pi_links {} demo_mutex" by (auto simp: pi_links_def)
  ultimately show "pi_inv demo_mutex" by (simp add: pi_inv_def)
  show "st demo_mutex 1 = RT_THREAD_RUNNING" by (simp add: demo_mutex_def taken_insert_def stat_simps)
  show "ranked (\<lambda>t. t) demo_mutex" by (simp add: ranked_def waits_for_def)
qed

theorem rt_mutex_take_inherits_witness:
  "\<exists>s'. rt_mutex_take_enter 0 100 RT_UNINTERRUPTIBLE 1 demo_mutex = Some (Blocked, s') \<and> pi_inv s' \<and> susp s' 1 \<and>
     1 \<in> set (queues s' (Mutex_Q 0))"
proof -
  have "\<exists>s'. rt_mutex_take_enter 0 100 RT_UNINTERRUPTIBLE 1 demo_mutex = Some (Blocked, s') \<and> kok s' \<and> pi_inv s' \<and>
    susp s' 1 \<and> 1 \<in> set (queues s' (Mutex_Q 0)) \<and>
    (\<forall>n u v. u \<in> set (queues s' (Mutex_Q n)) \<longrightarrow> mtx_owner (mutexes s' n) = Some v \<longrightarrow> prio s' v \<le> prio s' u)"
    by (rule rt_mutex_take_inherits [OF demo_mutex_ok(1-3) _ _ _ demo_mutex_ok(4), of 0 0 100 RT_UNINTERRUPTIBLE]) simp_all
  then show ?thesis by blast
qed

text \<open>The running thread 1 holds mutex 0 and thread 4 waits for it.\<close>

definition demo_held :: kernel where
  "demo_held =
     (let s = upd_thread 4 (\<lambda>_. (demo_thread RT_THREAD_SUSPEND_UNINTERRUPTIBLE 12)\<lparr>th_pending_object := Some 0\<rparr>) demo_kernel
      in (taken_insert 1 0 s)\<lparr>queues := (queues s)(Mutex_Q 0 := [4]),
           mutexes := (\<lambda>_. free_mutex)(0 := free_mutex\<lparr>mtx_hold := 1, mtx_priority := 12, mtx_owner := Some 1\<rparr>)\<rparr>)"

lemma demo_held_ok: "kok demo_held" "nest_ok demo_held" "pi_inv demo_held" "st demo_held 1 = RT_THREAD_RUNNING"
proof -
  let ?s1 = "upd_thread 4 (\<lambda>_. (demo_thread RT_THREAD_SUSPEND_UNINTERRUPTIBLE 12)\<lparr>th_pending_object := Some 0\<rparr>) demo_kernel"
  have k: "kinv_except {4} ?s1"
    using demo_kernel_kinv by (intro upd_thread_kinv_except) (auto simp: kinv_def intro: kinv_except_mono)
  have k2: "kinv (?s1\<lparr>queues := (queues ?s1)(Mutex_Q 0 := [4])\<rparr>)"
    by (rule enqueue_kinv [OF k]) (auto simp: unqueued_def stat_simps mask_ok_def is_ready_q_def split: if_splits)
  have "kinv (taken_insert 1 0 (?s1\<lparr>queues := (queues ?s1)(Mutex_Q 0 := [4])\<rparr>))"
    unfolding taken_insert_def by (rule kinv_upd_thread_neutral [OF k2]) simp_all
  then have "kinv demo_held"
    by (rule iffD1 [OF kinv_cong, rotated -1]) (simp_all add: demo_held_def Let_def taken_insert_def)
  then show "kok demo_held"
    by (simp add: kok_def ttmr_ok_def demo_held_def taken_insert_def Let_def)
  show "nest_ok demo_held" "st demo_held 1 = RT_THREAD_RUNNING"
    by (simp_all add: nest_ok_def demo_held_def taken_insert_def Let_def stat_simps)
  have q: "queues demo_held (Mutex_Q m) = (if m = 0 then [4] else [])" for m by (simp add: demo_held_def Let_def)
  have th: "threads demo_held t = (if t = 4 then (demo_thread RT_THREAD_SUSPEND_UNINTERRUPTIBLE 12)\<lparr>th_pending_object := Some 0\<rparr>
      else if t = 1 then (threads demo_kernel 1)\<lparr>th_taken_object_list := [0]\<rparr> else threads demo_kernel t)" for t
    by (simp add: demo_held_def Let_def taken_insert_def)
  have m: "mutexes demo_held = (\<lambda>_. free_mutex)(0 := free_mutex\<lparr>mtx_hold := 1, mtx_priority := 12, mtx_owner := Some 1\<rparr>)"
    by (simp add: demo_held_def Let_def)
  have "pi_core {} demo_held"
    by (rule pi_coreI) (auto simp: q th m free_mutex_def stat_simps split: if_splits)
  moreover have "pi_links {} demo_held" by (auto simp: pi_links_def m th free_mutex_def split: if_splits)
  ultimately show "pi_inv demo_held" by (simp add: pi_inv_def)
qed

theorem rt_mutex_release_hands_over_witness:
  "mtx_owner (mutexes (snd (rt_mutex_release 0 1 demo_held)) 0) = Some 4 \<and> pi_inv (snd (rt_mutex_release 0 1 demo_held))"
proof -
  have h: "mtx_owner (mutexes demo_held 0) = Some 1" "mtx_hold (mutexes demo_held 0) = 1" "queues demo_held (Mutex_Q 0) = [4]"
    by (simp_all add: demo_held_def Let_def)
  from rt_mutex_release_hands_over [OF demo_held_ok(1-3) h(1,2) demo_held_ok(4)] h(3)
  show ?thesis by (simp add: case_prod_beta Let_def)
qed

section \<open>A hand-over past the ceiling\<close>

text \<open>When a mutex with a priority ceiling is handed over to a waiting thread, the ceiling is not applied to
  the new owner: it keeps its own, lower, priority, although taking the free mutex would have raised
  it.\<close>

theorem rt_mutex_handover_ignores_ceiling:
  assumes "kok s" and "nest_ok s" and "pi_inv s" and "mtx_owner (mutexes s m) = Some t"
    and "mtx_hold (mutexes s m) = 1" and "st s t = RT_THREAD_RUNNING"
    and "queues s (Mutex_Q m) = u # us" and "mtx_ceiling_priority (mutexes s m) < prio s u"
  shows "let s' = snd (rt_mutex_release m t s) in
    mtx_owner (mutexes s' m) = Some u \<and> mtx_ceiling_priority (mutexes s' m) < prio s' u"
proof -
  have nq: "t \<notin> set (queues s q)" for q
    using running_unqueued(1) [OF kinvD(1) [OF kokD(1) [OF assms(1)]] assms(6)] by (simp add: unqueued_def)
  let ?s7 = "hand_over m u (drop_mutex m t s)"
  note f = hand_over_fields [OF assms(1-4) nq assms(7)] and d = rt_mutex_release_drop [OF assms(1-4)]
  have eq: "snd (rt_mutex_release m t s) = rt_schedule (rt_exit_critical ?s7)"
    using rt_mutex_release_eq(1) [OF assms(4,5,1,2,3,7)] by simp
  have k: "kinv ?s7" using kokD(1) [OF f(1)] .
  have "keeps ?s7 (rt_schedule (rt_exit_critical ?s7))"
    using keeps_trans resched_keeps [OF rt_exit_critical_resched [OF k]]
      resched_keeps [OF rt_schedule_resched [OF rt_exit_critical_kinv [OF k]]] by blast
  moreover have "mtx_ceiling_priority (mutexes ?s7 m) = mtx_ceiling_priority (mutexes s m)"
    using d(4) by (simp add: hand_over_def mutex_update_priority_def)
  moreover have "prio ?s7 u = prio s u" using f(13) [of u m] assms(7) by simp
  ultimately show ?thesis using f(9) assms(8) by (simp add: eq keeps_def Let_def)
qed

lemma pi_inv_ceiling: "pi_inv (upd_mutex m (\<lambda>x. x\<lparr>mtx_ceiling_priority := c\<rparr>) s) = pi_inv s"
proof -
  let ?s = "upd_mutex m (\<lambda>x. x\<lparr>mtx_ceiling_priority := c\<rparr>) s"
  have m: "mtx_owner (mutexes ?s n) = mtx_owner (mutexes s n)" "mtx_flag (mutexes ?s n) = mtx_flag (mutexes s n)"
    "mtx_priority (mutexes ?s n) = mtx_priority (mutexes s n)" for n by simp_all
  show ?thesis unfolding pi_inv_def pi_core_def pi_links_def m upd_mutex_simps(3,4) by (rule refl)
qed

theorem rt_mutex_handover_ignores_ceiling_witness:
  "let s' = snd (rt_mutex_release 0 1 (upd_mutex 0 (\<lambda>x. x\<lparr>mtx_ceiling_priority := 5\<rparr>) demo_held)) in
    mtx_owner (mutexes s' 0) = Some 4 \<and> mtx_ceiling_priority (mutexes s' 0) < prio s' 4"
proof -
  let ?s = "upd_mutex 0 (\<lambda>x. x\<lparr>mtx_ceiling_priority := 5\<rparr>) demo_held"
  have p: "pi_inv ?s" using demo_held_ok(3) by (simp add: pi_inv_ceiling)
  have h: "mtx_owner (mutexes ?s 0) = Some 1" "mtx_hold (mutexes ?s 0) = 1" "queues ?s (Mutex_Q 0) = [4]"
    "mtx_ceiling_priority (mutexes ?s 0) < prio ?s 4"
    by (simp_all add: demo_held_def Let_def taken_insert_def)
  have k: "kok ?s" "nest_ok ?s" "st ?s 1 = RT_THREAD_RUNNING"
    using demo_held_ok by (simp_all add: nest_ok_def upd_mutex_def)
  show ?thesis by (rule rt_mutex_handover_ignores_ceiling [OF k(1,2) p h(1,2) k(3) h(3,4)])
qed

section \<open>The mutexes of a thread that is detached by another\<close>

lemma schedule_mutexes [simp]:
  "mutexes (rt_schedule s) = mutexes s" "mutexes (rt_exit_critical s) = mutexes s"
proof -
  show r: "mutexes (rt_schedule s) = mutexes s" for s
    by (simp add: rt_schedule_def Let_def split: option.splits prod.splits)
  show "mutexes (rt_exit_critical s) = mutexes s" by (simp add: rt_exit_critical_def Let_def r)
qed

lemma thread_close_frame:
  "mutexes (snd (rt_thread_close t s)) = mutexes s" "fst (rt_thread_close t s) = RT_EOK"
  by (simp_all add: rt_thread_close_def rt_timer_detach_def spin_defs Let_def timer_deactivate_def upd_timer_def
      timer_remove_def rt_sched_thread_close_def)

lemma defunct_enqueue_kinv:
  assumes "kinv s" and "st s t = RT_THREAD_CLOSE" and "unqueued s t"
  shows "kinv (enq_head Defunct_Q t s)"
proof -
  let ?s' = "enq_head Defunct_Q t s"
  have k: "queues_ok s" "bitmap_ok s" "\<And>t'. th_ok s t'" using kinvD [OF assms(1)] by auto
  have "queues_ok ?s'"
    using k(1) assms(3) unfolding queues_ok_def unqueued_def by (auto split: if_splits)
  moreover have "bitmap_ok ?s'" using k(2) by (simp add: bitmap_ok_def)
  moreover have "th_ok ?s' t'" for t'
    using k(3) [of t'] assms(2,3) by (auto simp: th_ok_def mask_ok_def unqueued_def is_ready_q_def stat_simps split: if_splits)
  ultimately show ?thesis by (simp add: kinv_def kinv_except_def)
qed

lemma exit_nested:
  "1 < scheduler_lock_nest s \<Longrightarrow> scheduler_lock_nest s < 2 ^ 15 \<Longrightarrow>
   rt_exit_critical s = relock (scheduler_lock_nest s - 1) s"
  by (simp add: rt_exit_critical_def i16_id relock_def)

lemma enter_relock:
  "0 \<le> scheduler_lock_nest s \<Longrightarrow> scheduler_lock_nest s < 2 ^ 15 - 1 \<Longrightarrow>
   rt_enter_critical s = relock (scheduler_lock_nest s + 1) s"
  by (simp add: rt_enter_critical_def i16_id relock_def)

lemma thread_close_locked:
  assumes "kinv s" and "locked s" and "st s t \<noteq> RT_THREAD_CLOSE"
  defines "s1 \<equiv> snd (rt_thread_close t s)"
  shows "kinv s1" "locked s1" "st s1 t = RT_THREAD_CLOSE" "unqueued s1 t" "mutexes s1 = mutexes s"
    "th_pending_object (threads s1 u) = th_pending_object (threads s u)"
    "th_taken_object_list (threads s1 u) = th_taken_object_list (threads s u)"
proof -
  let ?s0 = "if st s t \<noteq> RT_THREAD_INIT then rt_sched_remove_thread t s else s"
  have eq: "s1 = rt_sched_thread_close t (timer_deactivate (Thread_Timer t) (timer_remove (Thread_Timer t) ?s0))"
    using assms(2,3) by (simp add: s1_def rt_thread_close_def rt_sched_thread_get_stat_def Let_def rt_timer_detach_locked)
  show "kinv s1" unfolding s1_def by (rule rt_thread_close_kinv [OF assms(1,2)])
  show "locked s1" using assms(2) by (simp add: eq rt_sched_thread_close_def)
  show "st s1 t = RT_THREAD_CLOSE" by (simp add: eq rt_sched_thread_close_def stat_simps)
  show "unqueued s1 t"
    using init_unqueued [OF assms(1)] by (auto simp: eq rt_sched_thread_close_def unqueued_def)
  show "mutexes s1 = mutexes s" unfolding s1_def by (rule thread_close_frame)
  show "th_pending_object (threads s1 u) = th_pending_object (threads s u)"
    "th_taken_object_list (threads s1 u) = th_taken_object_list (threads s u)"
    by (simp_all add: eq rt_sched_thread_close_def)
qed

text \<open>C33: a thread that another thread detaches or deletes while it holds a mutex is closed and queued
  for clean-up, but the mutex is not released: \<^verbatim>\<open>rt_mutex_release\<close> refuses, because it acts for the calling
  thread, and the mutex stays owned by the dead thread.\<close>

theorem thread_detach_keeps_mutex_owned:
  assumes "kinv s" and "nest_ok s" and "self \<noteq> t" and "st s t \<noteq> RT_THREAD_CLOSE"
    and "th_pending_object (threads s t) = None" and "th_taken_object_list (threads s t) = [m]"
    and "mtx_owner (mutexes s m) = Some t"
  shows "\<exists>s'. thread_detach self t s = Some (RT_EOK, s') \<and> mtx_owner (mutexes s' m) = Some t \<and>
    t \<in> set (queues s' Defunct_Q)"
proof -
  let ?s0 = "rt_enter_critical s"
  have l0: "locked ?s0" "kinv ?s0" "st ?s0 t \<noteq> RT_THREAD_CLOSE" using nest_ok_locked [OF assms(2)] assms(1,4) by simp_all
  define s1 where "s1 = snd (rt_thread_close t ?s0)"
  note c = thread_close_locked [OF l0(2,1,3), folded s1_def]
  let ?s2 = "upd_mutex m (\<lambda>x. x\<lparr>mtx_hold := 1\<rparr>) (rt_enter_critical s1)"
  have o2: "mtx_owner (mutexes ?s2 m) \<noteq> Some self" using c(5) assms(3,7) by simp
  let ?s3 = "snd (rt_mutex_release m self ?s2)"
  have r: "?s3 = rt_exit_critical (set_th_error self (- RT_ERROR) (rt_enter_critical ?s2))"
    using o2 by (simp add: rt_mutex_release_def spin_defs)
  let ?s4 = "rt_exit_critical ?s3"
  have d: "thread_detach_from_mutex self t s1 = Some ?s4"
    using c(6,7) assms(5,6) by (simp add: thread_detach_from_mutex_def spin_defs)
  have eq: "thread_detach self t s = Some (RT_EOK, rt_exit_critical (rt_thread_defunct_enqueue t ?s4))"
  proof -
    have "rt_thread_close t ?s0 = (RT_EOK, s1)" using thread_close_frame(2) [of t ?s0] by (metis prod.collapse s1_def)
    then show ?thesis using d by (simp add: thread_detach_def)
  qed
  have n1: "scheduler_lock_nest s1 = scheduler_lock_nest s + 1"
    using assms(2) l0(1,3) by (simp add: s1_def rt_thread_close_def rt_sched_thread_get_stat_def Let_def
        rt_timer_detach_locked rt_sched_thread_close_def nest_ok_def rt_enter_critical_def i16_id)
  then have n: "0 < scheduler_lock_nest s1" "scheduler_lock_nest s1 < 2 ^ 15 - 7" using assms(2) by (auto simp: nest_ok_def)
  have s4: "?s4 = upd_mutex m (\<lambda>x. x\<lparr>mtx_hold := 1\<rparr>) (set_th_error self (- RT_ERROR) s1)"
    unfolding r using n
    by (simp add: enter_relock exit_nested upd_mutex_def set_th_error_def upd_thread_def relock_def)
  have k4: "kinv ?s4" "st ?s4 t = RT_THREAD_CLOSE" "unqueued ?s4 t" "scheduler_lock_nest ?s4 = scheduler_lock_nest s1"
    using c(1,3,4) assms(3) unfolding s4 by (simp_all add: unqueued_def)
  let ?s5 = "rt_thread_defunct_enqueue t ?s4"
  have s5: "?s5 = enq_head Defunct_Q t ?s4"
    using n k4(4) by (simp add: rt_thread_defunct_enqueue_def spin_defs enter_relock exit_nested)
      (simp add: enq_head_def relock_def)
  have k5: "kinv ?s5" unfolding s5 by (rule defunct_enqueue_kinv [OF k4(1-3)])
  have "queues (rt_exit_critical ?s5) Defunct_Q = queues ?s5 Defunct_Q"
    using resched_fields(3) [OF rt_exit_critical_resched [OF k5]] by (simp add: is_ready_q_def)
  then have "t \<in> set (queues (rt_exit_critical ?s5) Defunct_Q)" unfolding s5 by simp
  moreover have "mtx_owner (mutexes (rt_exit_critical ?s5) m) = Some t"
  proof -
    have "mutexes (rt_exit_critical ?s5) = mutexes ?s4" unfolding s5 by simp
    also have "\<dots> = (mutexes s)(m := (mutexes s m)\<lparr>mtx_hold := 1\<rparr>)" unfolding s4 using c(5) by simp
    finally show ?thesis using assms(7) by simp
  qed
  ultimately show ?thesis using eq by blast
qed

theorem thread_detach_keeps_mutex_owned_witness:
  "\<exists>s'. thread_detach 1 0 demo_mutex = Some (RT_EOK, s') \<and> mtx_owner (mutexes s' 0) = Some 0 \<and> 0 \<in> set (queues s' Defunct_Q)"
  by (rule thread_detach_keeps_mutex_owned)
    (use demo_mutex_ok(1) in \<open>simp_all add: kok_def nest_ok_def demo_mutex_def taken_insert_def stat_simps free_mutex_def\<close>)

end
