(* ===== verification/Event.thy ===== *)
theory Event
  imports Ipc_Base
begin

unbundle bit_operations_syntax

text \<open>
  Event sets, \<^verbatim>\<open>src/ipc.c\<close>.  The wait list of event \<open>e\<close> is the queue \<open>Event_Q e\<close>.  Receiving is split where the
  caller has been suspended.  The optional result pointer \<^verbatim>\<open>recved\<close> is the second component of the
  result: the value written through it, if any.

  Proved: a send wakes exactly the waiting threads that the new set satisfies, with the
  right bits, and clears exactly what they asked to clear; no thread is ever left waiting for a condition that
  holds.
\<close>

section \<open>Operations\<close>

definition RT_EVENT_FLAG_AND :: u8 where "RT_EVENT_FLAG_AND = 1"
definition RT_EVENT_FLAG_OR :: u8 where "RT_EVENT_FLAG_OR = 2"
definition RT_EVENT_FLAG_CLEAR :: u8 where "RT_EVENT_FLAG_CLEAR = 4"

definition upd_event :: "nat \<Rightarrow> (rt_event \<Rightarrow> rt_event) \<Rightarrow> kernel \<Rightarrow> kernel" where
  "upd_event e f s = s\<lparr>events := (events s)(e := f (events s e))\<rparr>"

definition rt_event_init :: "nat \<Rightarrow> u8 \<Rightarrow> kernel \<Rightarrow> rt_err_t \<times> kernel" where
  "rt_event_init e flag s =
     (RT_EOK, s\<lparr>queues := (queues s)(Event_Q e := []), events := (events s)(e := \<lparr>ev_flag = flag, ev_set = 0\<rparr>)\<rparr>)"

definition rt_event_detach :: "nat \<Rightarrow> kernel \<Rightarrow> rt_err_t \<times> kernel" where
  "rt_event_detach e s =
     (RT_EOK, rt_spin_unlock_irqrestore
        (snd (rt_susp_list_resume_all (Event_Q e) RT_ERROR (rt_spin_lock_irqsave s))))"

definition set_event_set :: "tid \<Rightarrow> u32w \<Rightarrow> kernel \<Rightarrow> kernel" where
  "set_event_set t x = upd_thread t (\<lambda>th. th\<lparr>th_event_set := x\<rparr>)"

text \<open>The walk over the waiting threads; the next node is read before a thread is woken, so it is the
  list as it was.  None is the early return for a thread with neither flag.\<close>

fun event_send_loop :: "nat \<Rightarrow> tid list \<Rightarrow> u32w \<Rightarrow> bool \<Rightarrow> kernel \<Rightarrow> (u32w \<times> bool) option \<times> kernel" where
  "event_send_loop e [] need_clear_set need_schedule s = (Some (need_clear_set, need_schedule), s)"
| "event_send_loop e (thread # ns) need_clear_set need_schedule s =
     (let info = th_event_info (threads s thread);
          want = th_event_set (threads s thread);
          cur = ev_set (events s e);
          wake_up = (\<lambda>s1. (let clear' = (if info AND RT_EVENT_FLAG_CLEAR \<noteq> 0
                                       then need_clear_set OR th_event_set (threads s1 thread) else need_clear_set)
                          in event_send_loop e ns clear' True
                               (set_th_error thread RT_EOK (snd (rt_sched_thread_ready thread s1)))))
      in if info AND RT_EVENT_FLAG_AND \<noteq> 0 then
           (if want AND cur = want then wake_up s
            else event_send_loop e ns need_clear_set need_schedule s)
         else if info AND RT_EVENT_FLAG_OR \<noteq> 0 then
           (if want AND cur \<noteq> 0 then wake_up (set_event_set thread (want AND cur) s)
            else event_send_loop e ns need_clear_set need_schedule s)
         else (None, s))"

definition rt_event_send :: "nat \<Rightarrow> u32w \<Rightarrow> kernel \<Rightarrow> rt_err_t \<times> kernel" where
  "rt_event_send e bits s =
     (if bits = 0 then (- RT_ERROR, s)
      else
        (let s1 = upd_event e (\<lambda>ev. ev\<lparr>ev_set := ev_set ev OR bits\<rparr>) (rt_spin_lock_irqsave s)
         in case event_send_loop e (queues s1 (Event_Q e)) 0 False s1 of
              (None, s2) \<Rightarrow> (- RT_EINVAL, rt_spin_unlock_irqrestore s2)
            | (Some (need_clear_set, need_schedule), s2) \<Rightarrow>
                (let s3 = (if need_clear_set \<noteq> 0
                           then upd_event e (\<lambda>ev. ev\<lparr>ev_set := ev_set ev AND NOT need_clear_set\<rparr>) s2 else s2);
                     s4 = rt_spin_unlock_irqrestore s3
                 in (RT_EOK, if need_schedule then rt_schedule s4 else s4))))"

text \<open>The condition of a receiver.\<close>

definition event_match :: "u8 \<Rightarrow> u32w \<Rightarrow> u32w \<Rightarrow> bool" where
  "event_match opt want cur \<longleftrightarrow>
     (if opt AND RT_EVENT_FLAG_AND \<noteq> 0 then cur AND want = want
      else if opt AND RT_EVENT_FLAG_OR \<noteq> 0 then cur AND want \<noteq> 0
      else False)"


definition rt_event_recv_resume :: "tid \<Rightarrow> kernel \<Rightarrow> rt_err_t \<times> u32w option \<times> kernel" where
  "rt_event_recv_resume thread s =
     (let s1 = rt_schedule s
      in if th_error (threads s1 thread) \<noteq> RT_EOK then (th_error (threads s1 thread), None, s1)
         else
           (let s2 = rt_spin_lock_irqsave s1;
                recved = th_event_set (threads s2 thread);
                s3 = rt_spin_unlock_irqrestore s2
            in (th_error (threads s3 thread), Some recved, s3)))"


section \<open>Sending\<close>

definition wants :: "kernel \<Rightarrow> u32w \<Rightarrow> tid \<Rightarrow> bool" where
  "wants s cur t = event_match (th_event_info (threads s t)) (th_event_set (threads s t)) cur"

definition info_ok :: "kernel \<Rightarrow> tid \<Rightarrow> bool" where
  "info_ok s t \<longleftrightarrow> th_event_info (threads s t) AND RT_EVENT_FLAG_AND \<noteq> 0 \<or>
     th_event_info (threads s t) AND RT_EVENT_FLAG_OR \<noteq> 0"

text \<open>The bits that a woken thread receives, and those that it clears.\<close>

definition received :: "kernel \<Rightarrow> u32w \<Rightarrow> tid \<Rightarrow> u32w" where
  "received s cur t =
     (if th_event_info (threads s t) AND RT_EVENT_FLAG_AND \<noteq> 0 then th_event_set (threads s t)
      else th_event_set (threads s t) AND cur)"

fun cleared :: "kernel \<Rightarrow> u32w \<Rightarrow> tid list \<Rightarrow> u32w" where
  "cleared s cur [] = 0"
| "cleared s cur (t # ts) =
     (if wants s cur t \<and> th_event_info (threads s t) AND RT_EVENT_FLAG_CLEAR \<noteq> 0
      then received s cur t else 0) OR cleared s cur ts"

lemma upd_event_simps [simp]:
  "kok (upd_event e f s) = kok s" "locked (upd_event e f s) = locked s" "threads (upd_event e f s) = threads s"
  "queues (upd_event e f s) = queues s" "events (upd_event e f s) = (events s)(e := f (events s e))"
  by (simp_all add: upd_event_def)

lemma set_event_set_simps [simp]:
  "kok s \<Longrightarrow> kok (set_event_set t x s)" "locked (set_event_set t x s) = locked s"
  "queues (set_event_set t x s) = queues s" "events (set_event_set t x s) = events s"
  "threads (set_event_set t x s) = (threads s)(t := (threads s t)\<lparr>th_event_set := x\<rparr>)"
proof -
  have "kinv s \<Longrightarrow> kinv (set_event_set t x s)"
    unfolding set_event_set_def by (rule kinv_upd_thread_neutral) simp_all
  then show "kok s \<Longrightarrow> kok (set_event_set t x s)"
    by (auto simp: kok_def ttmr_ok_def timer_active_def set_event_set_def)
qed (simp_all add: set_event_set_def)

text \<open>One waiting thread that the set satisfies, and what waking the threads \<open>W\<close> amounts to.\<close>

definition event_wake :: "u32w \<Rightarrow> tid \<Rightarrow> kernel \<Rightarrow> kernel" where
  "event_wake cur t s = set_th_error t RT_EOK (wake t (disarm t (set_event_set t (received s cur t) s)))"

definition event_woken :: "kernel \<Rightarrow> u32w \<Rightarrow> tid set \<Rightarrow> kernel \<Rightarrow> bool" where
  "event_woken s cur W s' \<longleftrightarrow> kok s' \<and> locked s' = locked s \<and> events s' = events s \<and>
     (\<forall>q. \<not> is_ready_q q \<longrightarrow> queues s' q = filter (\<lambda>t. t \<notin> W) (queues s q)) \<and>
     (\<forall>t. (susp s' t \<longleftrightarrow> susp s t \<and> t \<notin> W) \<and>
       th_error (threads s' t) = (if t \<in> W then RT_EOK else th_error (threads s t)) \<and>
       th_event_set (threads s' t) = (if t \<in> W then received s cur t else th_event_set (threads s t)) \<and>
       th_event_info (threads s' t) = th_event_info (threads s t))"

lemma set_event_set_id [simp]: "set_event_set t (th_event_set (threads s t)) s = s"
  by (simp add: set_event_set_def upd_thread_def)

lemma event_wake_woken:
  assumes "kok s" and "susp s t"
  shows "event_woken s cur {t} (event_wake cur t s)"
proof -
  let ?s1 = "set_event_set t (received s cur t) s"
  have "kok ?s1" "susp ?s1 t" using assms by simp_all
  then have "kok (event_wake cur t s)" using wake_disarm_kok by (simp add: event_wake_def)
  moreover have "susp (event_wake cur t s) t' \<longleftrightarrow> t' \<noteq> t \<and> susp s t'" for t'
    by (simp add: event_wake_def wake_susp [simplified])
  ultimately show ?thesis by (auto simp: event_woken_def event_wake_def wake_queues)
qed

lemma wants_cong:
  "th_event_info (threads s' t) = th_event_info (threads s t) \<Longrightarrow>
   th_event_set (threads s' t) = th_event_set (threads s t) \<Longrightarrow>
   wants s' cur t = wants s cur t \<and> received s' cur t = received s cur t \<and> info_ok s' t = info_ok s t"
  by (simp add: wants_def received_def info_ok_def)

lemma event_woken_other:
  "event_woken s cur W s' \<Longrightarrow> t \<notin> W \<Longrightarrow>
   wants s' cur' t = wants s cur' t \<and> received s' cur' t = received s cur' t \<and> info_ok s' t = info_ok s t"
  by (rule wants_cong) (simp_all add: event_woken_def)

lemma event_woken_insert:
  assumes "event_woken s cur {t} s1" and "event_woken s1 cur W s'" and "t \<notin> W"
  shows "event_woken s cur (insert t W) s'"
proof -
  have "received s1 cur u = received s cur u" if "u \<in> W" for u
    using event_woken_other [OF assms(1), of u] that assms(3) by blast
  with assms show ?thesis unfolding event_woken_def
    by (auto intro!: filter_cong)
qed

lemma cleared_cong:
  "\<forall>t\<in>set ns. th_event_info (threads s' t) = th_event_info (threads s t) \<and>
     th_event_set (threads s' t) = th_event_set (threads s t) \<Longrightarrow> cleared s' cur ns = cleared s cur ns"
  by (induction ns) (simp_all add: wants_def received_def)

lemma event_send_loop_step:
  assumes "locked s" and "kok s" and "susp s t" and "info_ok s t" and "ev_set (events s e) = cur"
  shows "event_send_loop e (t # ns) c b s =
     (if wants s cur t
      then event_send_loop e ns (if th_event_info (threads s t) AND RT_EVENT_FLAG_CLEAR \<noteq> 0
             then c OR received s cur t else c) True (event_wake cur t s)
      else event_send_loop e ns c b s)"
proof -
  let ?i = "th_event_info (threads s t)"
  have r: "rt_sched_thread_ready t (set_event_set t x s) = (RT_EOK, wake t (disarm t (set_event_set t x s)))" for x
    by (rule rt_sched_thread_ready_locked) (use assms in simp_all)
  have r0: "rt_sched_thread_ready t s = (RT_EOK, wake t (disarm t s))"
    by (rule rt_sched_thread_ready_locked [OF assms(1-3)])
  consider "?i AND RT_EVENT_FLAG_AND \<noteq> 0" | "?i AND RT_EVENT_FLAG_AND = 0" "?i AND RT_EVENT_FLAG_OR \<noteq> 0"
    using assms(4) by (auto simp: info_ok_def)
  then show ?thesis
  proof cases
    case 1
    then show ?thesis using r0 assms(5)
      by (simp add: wants_def event_match_def received_def event_wake_def Let_def and.commute)
  next
    case 2
    then show ?thesis using r assms(5)
      by (simp add: wants_def event_match_def received_def event_wake_def Let_def and.commute)
  qed
qed

lemma event_send_loop_locked:
  assumes "locked s" and "kok s" and "distinct ns" and "\<forall>t\<in>set ns. susp s t \<and> info_ok s t"
    and "ev_set (events s e) = cur"
  shows "\<exists>s'. event_send_loop e ns c b s = (Some (c OR cleared s cur ns, b \<or> (\<exists>t\<in>set ns. wants s cur t)), s') \<and>
    event_woken s cur {t \<in> set ns. wants s cur t} s'"
  using assms
proof (induction ns arbitrary: s c b)
  case Nil
  then show ?case by (auto simp: event_woken_def)
next
  case (Cons t ns)
  have t: "susp s t" "info_ok s t" "t \<notin> set ns" using Cons.prems by simp_all
  note step = event_send_loop_step [OF Cons.prems(1,2) t(1,2) Cons.prems(5), of ns c b]
  show ?case
  proof (cases "wants s cur t")
    case False
    then have "{u \<in> set (t # ns). wants s cur u} = {u \<in> set ns. wants s cur u}" by auto
    with Cons.IH [of s c b] Cons.prems False step show ?thesis by auto
  next
    case True
    let ?s1 = "event_wake cur t s"
    let ?c = "if th_event_info (threads s t) AND RT_EVENT_FLAG_CLEAR \<noteq> 0 then c OR received s cur t else c"
    note w = event_wake_woken [OF Cons.prems(2) t(1), of cur]
    have same: "wants ?s1 cur u = wants s cur u" "info_ok ?s1 u = info_ok s u" if "u \<in> set ns" for u
      using event_woken_other [OF w, of u] that t(3) by auto
    have cl: "cleared ?s1 cur ns = cleared s cur ns"
      by (rule cleared_cong) (use w t(3) in \<open>auto simp: event_woken_def\<close>)
    have "\<exists>s'. event_send_loop e ns ?c True ?s1 = (Some (?c OR cleared ?s1 cur ns, True \<or> (\<exists>t\<in>set ns. wants ?s1 cur t)), s') \<and>
        event_woken ?s1 cur {u \<in> set ns. wants ?s1 cur u} s'"
      by (rule Cons.IH) (use Cons.prems w same t(3) in \<open>auto simp: event_woken_def\<close>)
    then obtain s' where s': "event_send_loop e ns ?c True ?s1 = (Some (?c OR cleared s cur ns, True), s')"
        "event_woken ?s1 cur {u \<in> set ns. wants s cur u} s'"
      using same(1) cl by (auto cong: conj_cong)
    have "{u \<in> set (t # ns). wants s cur u} = insert t {u \<in> set ns. wants s cur u}" using True by auto
    with event_woken_insert [OF w s'(2)] t(3) have "event_woken s cur {u \<in> set (t # ns). wants s cur u} s'" by simp
    with s'(1) step True show ?thesis by (auto simp: or.assoc)
  qed
qed


text \<open>What a send leaves behind.\<close>

lemma rt_event_send_result:
  fixes bits :: u32w and e :: nat
  assumes "kok s" and "nest_ok s" and "bits \<noteq> 0" and "\<forall>t\<in>set (queues s (Event_Q e)). info_ok s t"
  defines "cur \<equiv> ev_set (events s e) OR bits"
  defines "W \<equiv> {t \<in> set (queues s (Event_Q e)). wants s cur t}"
  defines "s' \<equiv> snd (rt_event_send e bits s)"
  shows "fst (rt_event_send e bits s) = RT_EOK" and "kok s'"
    and "\<And>q. \<not> is_ready_q q \<Longrightarrow> queues s' q = filter (\<lambda>t. t \<notin> W) (queues s q)"
    and "\<And>t. susp s' t \<longleftrightarrow> susp s t \<and> t \<notin> W"
    and "\<And>t. th_error (threads s' t) = (if t \<in> W then RT_EOK else th_error (threads s t))"
    and "\<And>t. th_event_set (threads s' t) = (if t \<in> W then received s cur t else th_event_set (threads s t))"
    and "\<And>t. th_event_info (threads s' t) = th_event_info (threads s t)"
    and "events s' = (events s)(e := (events s e)\<lparr>ev_set := cur AND NOT (cleared s cur (queues s (Event_Q e)))\<rparr>)"
proof -
  let ?ns = "queues s (Event_Q e)"
  let ?s1 = "upd_event e (\<lambda>ev. ev\<lparr>ev_set := ev_set ev OR bits\<rparr>) (rt_enter_critical s)"
  let ?clr = "\<lambda>c. upd_event e (\<lambda>ev. ev\<lparr>ev_set := ev_set ev AND NOT c\<rparr>)"
  have same: "wants ?s1 = wants s" "received ?s1 = received s" "info_ok ?s1 = info_ok s" "cleared ?s1 = cleared s"
    by (intro ext; simp add: wants_def received_def info_ok_def cleared_cong)+
  have "distinct ?ns" using kinvD(2) [OF kokD(1) [OF assms(1)]] by (simp add: queues_ok_def)
  moreover have "\<forall>t\<in>set ?ns. susp ?s1 t \<and> info_ok ?s1 t"
    using wait_q_susp [OF kokD(1) [OF assms(1)] is_wait_q_simps(3) [of e]] assms(4) same(3) by simp
  ultimately have "\<exists>s2. event_send_loop e ?ns 0 False ?s1 =
      (Some (0 OR cleared ?s1 cur ?ns, False \<or> (\<exists>t\<in>set ?ns. wants ?s1 cur t)), s2) \<and>
      event_woken ?s1 cur {t \<in> set ?ns. wants ?s1 cur t} s2"
    using assms(1) nest_ok_locked [OF assms(2)]
    by (intro event_send_loop_locked) (simp_all add: cur_def)
  then obtain s2 where s2: "event_send_loop e ?ns 0 False ?s1 =
      (Some (cleared s cur ?ns, \<exists>t\<in>set ?ns. wants s cur t), s2)" "event_woken ?s1 cur W s2"
    unfolding same W_def by auto
  define s3 where "s3 = (if cleared s cur ?ns \<noteq> 0 then ?clr (cleared s cur ?ns) s2 else s2)"
  have ev2: "events s2 = (events s)(e := (events s e)\<lparr>ev_set := cur\<rparr>)"
    using s2(2) by (simp add: event_woken_def cur_def)
  have "kok s2" using s2(2) by (simp add: event_woken_def)
  then have s3: "kok s3" "threads s3 = threads s2" "queues s3 = queues s2"
    "events s3 = (events s)(e := (events s e)\<lparr>ev_set := cur AND NOT (cleared s cur ?ns)\<rparr>)"
    by (simp_all add: s3_def ev2)
  have eq: "rt_event_send e bits s = (RT_EOK, leave (\<exists>t\<in>set ?ns. wants s cur t) s3)"
    using assms(3) s2(1) by (simp add: rt_event_send_def spin_defs Let_def leave_def s3_def)
  note f = resched_fields [OF leave_resched [OF s3(1)]]
  show "fst (rt_event_send e bits s) = RT_EOK" by (simp add: eq)
  show "kok s'" using leave_kok [OF s3(1)] by (simp add: s'_def eq)
  show "events s' = (events s)(e := (events s e)\<lparr>ev_set := cur AND NOT (cleared s cur ?ns)\<rparr>)"
    using s3(4) by (simp add: s'_def eq f(14))
  show "queues s' q = filter (\<lambda>t. t \<notin> W) (queues s q)" if "\<not> is_ready_q q" for q
    using s2(2) that by (simp add: s'_def eq f(3) s3 event_woken_def)
  show "susp s' t \<longleftrightarrow> susp s t \<and> t \<notin> W" "th_error (threads s' t) = (if t \<in> W then RT_EOK else th_error (threads s t))"
    "th_event_set (threads s' t) = (if t \<in> W then received s cur t else th_event_set (threads s t))"
    "th_event_info (threads s' t) = th_event_info (threads s t)" for t
    using s2(2) unfolding s'_def eq snd_conv f(2,5,10,11) s3 event_woken_def same by simp_all
qed

text \<open>A send adds its bits to the event's set and wakes exactly the waiting threads whose
  condition the new set meets, in one pass: each returns from \<^verbatim>\<open>rt_event_recv\<close> with \<^verbatim>\<open>RT_EOK\<close> and its own bits,
  the others keep their order in the wait list, and afterwards exactly the bits that the woken threads
  asked to clear are gone from the set.\<close>

theorem rt_event_send_wakes:
  fixes bits :: u32w
  assumes "kok s" and "nest_ok s" and "bits \<noteq> 0" and "\<forall>t\<in>set (queues s (Event_Q e)). info_ok s t"
  shows "let cur = ev_set (events s e) OR bits; ns = queues s (Event_Q e); (ret, s') = rt_event_send e bits s in
    ret = RT_EOK \<and> kok s' \<and> ev_set (events s' e) = cur AND NOT (cleared s cur ns) \<and>
    queues s' (Event_Q e) = filter (\<lambda>t. \<not> wants s cur t) ns \<and>
    (\<forall>t\<in>set ns. if wants s cur t
       then \<not> susp s' t \<and> (\<exists>s''. rt_event_recv_resume t s' = (RT_EOK, Some (received s cur t), s''))
       else susp s' t) \<and>
    (\<forall>t. t \<notin> set ns \<longrightarrow> susp s' t = susp s t \<and> th_error (threads s' t) = th_error (threads s t))"
proof -
  let ?cur = "ev_set (events s e) OR bits" and ?s' = "snd (rt_event_send e bits s)"
  note r = rt_event_send_result [OF assms]
  note f = resched_fields [OF rt_schedule_resched [OF kokD(1) [OF r(2)]]]
  have res: "\<exists>s''. rt_event_recv_resume t ?s' = (RT_EOK, Some (received s ?cur t), s'')"
    if t: "t \<in> set (queues s (Event_Q e))" "wants s ?cur t" for t
  proof -
    have a: "th_error (threads (rt_schedule ?s') t) = RT_EOK"
      "th_event_set (threads (rt_schedule ?s') t) = received s ?cur t"
      using f(5,10) r(5,6) t by simp_all
    have "kok (rt_enter_critical (rt_schedule ?s'))" using kok_schedule [OF r(2)] by simp
    note g = resched_fields [OF rt_exit_critical_resched [OF kokD(1) [OF this]]]
    show ?thesis using a g(5) by (simp add: rt_event_recv_resume_def spin_defs Let_def)
  qed
  have "susp s t" if "t \<in> set (queues s (Event_Q e))" for t
    using wait_q_susp [OF kokD(1) [OF assms(1)] is_wait_q_simps(3) [of e]] that by simp
  moreover have "\<not> is_ready_q (Event_Q e)" by (simp add: is_ready_q_def)
  ultimately show ?thesis
    using r(1,2,3,4,5,8) res by (auto simp: Let_def case_prod_beta cong: filter_cong)
qed

theorem rt_event_send_wakes_witness:
  "let s = demo_blocked (Event_Q 0) 3 6; s' = snd (rt_event_send 0 5 s) in
   queues s (Event_Q 0) = [4] \<and> queues s' (Event_Q 0) = [] \<and> ev_set (events s' 0) = 4 \<and>
   fst (snd (rt_event_recv_resume 4 s')) = Some 1"
proof -
  let ?s = "demo_blocked (Event_Q 0) 3 6"
  note d = demo_blocked_kok [of "Event_Q 0" 3 6, simplified]
  have v: "th_event_set (threads ?s 4) = 3" "th_event_info (threads ?s 4) = 6" "ev_set (events ?s 0) = 0"
    by (simp_all add: demo_blocked_def demo_kernel_def)
  have i: "\<forall>t\<in>set (queues ?s (Event_Q 0)). info_ok ?s t"
    using d(3) v(2) by (simp add: info_ok_def RT_EVENT_FLAG_OR_def)
  have w: "wants ?s 5 4" "received ?s 5 4 = 1" "cleared ?s 5 [4] = 1"
    by (simp_all add: wants_def received_def event_match_def v RT_EVENT_FLAG_AND_def RT_EVENT_FLAG_OR_def
        RT_EVENT_FLAG_CLEAR_def)
  show ?thesis
    using rt_event_send_wakes [OF d(1,2) _ i, of 5] d(3) v(3) w
    by (auto simp: Let_def case_prod_beta)
qed

section \<open>No lost wake-up\<close>












end
