(* ===== verification/Mailbox.thy ===== *)
theory Mailbox
  imports Ipc_Base Bounded_Fifo
begin

unbundle bit_operations_syntax

text \<open>
  Mailboxes, \<^verbatim>\<open>src/ipc.c\<close>: a ring of machine words with threads waiting to receive (\<open>Mb_Q i\<close>) and to send
  (\<open>Mb_Send_Q i\<close>).  A blocking call is the first critical section (\<open>_enter\<close>) and, each time its caller runs
  again, one more round of the loop (\<open>_resume\<close>, whose arguments are the local variables that
  survive the wait).

  The ring alone meets the contract of a bounded FIFO queue; the calls refine that queue, and over any
  interleaving of calls what was received is what was sent, in order.
\<close>

section \<open>The ring\<close>

definition RT_MB_ENTRY_MAX :: nat where "RT_MB_ENTRY_MAX = 65535"

text \<open>Storing a word at the end; None when the entry counter is at its limit after the word is written.\<close>

definition mb_put :: "nat \<Rightarrow> rt_mailbox \<Rightarrow> bool \<times> rt_mailbox" where
  "mb_put value mb =
     (let pool = (mb_msg_pool mb)(mb_in_offset mb := value);
          in_offset = (mb_in_offset mb + 1) mod 2 ^ 16;
          in_offset' = (if in_offset \<ge> mb_size mb then 0 else in_offset);
          mb1 = mb\<lparr>mb_msg_pool := pool, mb_in_offset := in_offset'\<rparr>
      in if mb_entry mb1 < RT_MB_ENTRY_MAX then (True, mb1\<lparr>mb_entry := mb_entry mb1 + 1\<rparr>) else (False, mb1))"

definition mb_push_front :: "nat \<Rightarrow> rt_mailbox \<Rightarrow> rt_mailbox" where
  "mb_push_front value mb =
     (let out_offset = (if mb_out_offset mb > 0 then mb_out_offset mb - 1 else mb_size mb - 1)
      in mb\<lparr>mb_out_offset := out_offset, mb_msg_pool := (mb_msg_pool mb)(out_offset := value),
           mb_entry := (mb_entry mb + 1) mod 2 ^ 16\<rparr>)"

definition mb_get :: "rt_mailbox \<Rightarrow> nat \<times> rt_mailbox" where
  "mb_get mb =
     (let value = mb_msg_pool mb (mb_out_offset mb);
          out_offset = (mb_out_offset mb + 1) mod 2 ^ 16;
          out_offset' = (if out_offset \<ge> mb_size mb then 0 else out_offset);
          mb1 = mb\<lparr>mb_out_offset := out_offset'\<rparr>
      in (value, if mb_entry mb1 > 0 then mb1\<lparr>mb_entry := mb_entry mb1 - 1\<rparr> else mb1))"

section \<open>Operations\<close>

definition upd_mb :: "nat \<Rightarrow> (rt_mailbox \<Rightarrow> rt_mailbox) \<Rightarrow> kernel \<Rightarrow> kernel" where
  "upd_mb i f s = s\<lparr>mailboxes := (mailboxes s)(i := f (mailboxes s i))\<rparr>"

text \<open>The words that the pool holds before are whatever the caller's memory holds.\<close>

definition rt_mb_init :: "nat \<Rightarrow> (nat \<Rightarrow> nat) \<Rightarrow> nat \<Rightarrow> u8 \<Rightarrow> kernel \<Rightarrow> rt_err_t \<times> kernel" where
  "rt_mb_init i msgpool sz flag s =
     (RT_EOK, s\<lparr>queues := (queues s)(Mb_Q i := [], Mb_Send_Q i := []),
        mailboxes := (mailboxes s)(i := \<lparr>mb_flag = flag, mb_msg_pool = msgpool, mb_size = sz mod 2 ^ 16,
          mb_entry = 0, mb_in_offset = 0, mb_out_offset = 0\<rparr>)\<rparr>)"

definition rt_mb_detach :: "nat \<Rightarrow> kernel \<Rightarrow> rt_err_t \<times> kernel" where
  "rt_mb_detach i s =
     (let s1 = snd (rt_susp_list_resume_all (Mb_Q i) RT_ERROR (rt_spin_lock_irqsave s));
          s2 = snd (rt_susp_list_resume_all (Mb_Send_Q i) RT_ERROR s1)
      in (RT_EOK, rt_spin_unlock_irqrestore s2))"

text \<open>From the loop condition to the end of the call or to the point where the caller waits.\<close>

definition mb_send_loop :: "nat \<Rightarrow> nat \<Rightarrow> int \<Rightarrow> suspend_flag \<Rightarrow> tid \<Rightarrow> kernel \<Rightarrow> rt_err_t outcome \<times> kernel" where
  "mb_send_loop i value timeout suspend_flag thread s =
     (if mb_entry (mailboxes s i) = mb_size (mailboxes s i) then
        (let s1 = set_th_error thread (- RT_EINTR) s
         in if timeout = 0 then (Done (- RT_EFULL), rt_spin_unlock_irqrestore s1)
            else
              (let (ret, s2) = ipc_suspend (Mb_Send_Q i) (mb_flag (mailboxes s1 i)) suspend_flag timeout thread s1
               in (if ret \<noteq> RT_EOK then Done ret else Blocked, rt_spin_unlock_irqrestore s2)))
      else
        (let (ok, mb) = mb_put value (mailboxes s i);
             s1 = upd_mb i (\<lambda>_. mb) s
         in if ok then (Done RT_EOK, ipc_wake_leave (Mb_Q i) s1)
            else (Done (- RT_EFULL), rt_spin_unlock_irqrestore s1)))"

definition rt_mb_send_enter :: "nat \<Rightarrow> nat \<Rightarrow> int \<Rightarrow> suspend_flag \<Rightarrow> tid \<Rightarrow> kernel \<Rightarrow> rt_err_t outcome \<times> kernel" where
  "rt_mb_send_enter i value timeout suspend_flag thread s =
     (let s1 = rt_spin_lock_irqsave s
      in if mb_entry (mailboxes s1 i) = mb_size (mailboxes s1 i) \<and> timeout = 0
         then (Done (- RT_EFULL), rt_spin_unlock_irqrestore s1)
         else mb_send_loop i value timeout suspend_flag thread s1)"

definition rt_mb_send_resume ::
    "nat \<Rightarrow> nat \<Rightarrow> int \<Rightarrow> rt_tick_t \<Rightarrow> suspend_flag \<Rightarrow> tid \<Rightarrow> kernel \<Rightarrow> rt_err_t outcome \<times> kernel" where
  "rt_mb_send_resume i value timeout tick_delta suspend_flag thread s =
     (let s1 = rt_schedule s
      in if th_error (threads s1 thread) \<noteq> RT_EOK then (Done (th_error (threads s1 thread)), s1)
         else
           (let s2 = rt_spin_lock_irqsave s1
            in mb_send_loop i value (ipc_time_left timeout tick_delta (tick s2)) suspend_flag thread s2))"

definition rt_mb_send :: "nat \<Rightarrow> nat \<Rightarrow> tid \<Rightarrow> kernel \<Rightarrow> rt_err_t outcome \<times> kernel" where
  "rt_mb_send i value = rt_mb_send_enter i value 0 RT_UNINTERRUPTIBLE"

definition rt_mb_urgent :: "nat \<Rightarrow> nat \<Rightarrow> kernel \<Rightarrow> rt_err_t \<times> kernel" where
  "rt_mb_urgent i value s =
     (let s1 = rt_spin_lock_irqsave s
      in if mb_entry (mailboxes s1 i) = mb_size (mailboxes s1 i) then (- RT_EFULL, rt_spin_unlock_irqrestore s1)
         else (RT_EOK, ipc_wake_leave (Mb_Q i) (upd_mb i (mb_push_front value) s1)))"

text \<open>Receiving: the second component is the word stored through the result pointer.\<close>

definition mb_recv_loop ::
    "nat \<Rightarrow> int \<Rightarrow> suspend_flag \<Rightarrow> tid \<Rightarrow> kernel \<Rightarrow> rt_err_t outcome \<times> nat option \<times> kernel" where
  "mb_recv_loop i timeout suspend_flag thread s =
     (if mb_entry (mailboxes s i) = 0 then
        (let s1 = set_th_error thread (- RT_EINTR) s
         in if timeout = 0 then
              (Done (- RT_ETIMEOUT), None, set_th_error thread (- RT_ETIMEOUT) (rt_spin_unlock_irqrestore s1))
            else
              (let (ret, s2) = ipc_suspend (Mb_Q i) (mb_flag (mailboxes s1 i)) suspend_flag timeout thread s1
               in (if ret \<noteq> RT_EOK then Done ret else Blocked, None, rt_spin_unlock_irqrestore s2)))
      else
        (let (value, mb) = mb_get (mailboxes s i)
         in (Done RT_EOK, Some value, ipc_wake_leave (Mb_Send_Q i) (upd_mb i (\<lambda>_. mb) s))))"

definition rt_mb_recv_enter ::
    "nat \<Rightarrow> int \<Rightarrow> suspend_flag \<Rightarrow> tid \<Rightarrow> kernel \<Rightarrow> rt_err_t outcome \<times> nat option \<times> kernel" where
  "rt_mb_recv_enter i timeout suspend_flag thread s =
     (let s1 = rt_spin_lock_irqsave s
      in if mb_entry (mailboxes s1 i) = 0 \<and> timeout = 0
         then (Done (- RT_ETIMEOUT), None, rt_spin_unlock_irqrestore s1)
         else mb_recv_loop i timeout suspend_flag thread s1)"

definition rt_mb_recv_resume ::
    "nat \<Rightarrow> int \<Rightarrow> rt_tick_t \<Rightarrow> suspend_flag \<Rightarrow> tid \<Rightarrow> kernel \<Rightarrow> rt_err_t outcome \<times> nat option \<times> kernel" where
  "rt_mb_recv_resume i timeout tick_delta suspend_flag thread s =
     (let s1 = rt_schedule s
      in if th_error (threads s1 thread) \<noteq> RT_EOK then (Done (th_error (threads s1 thread)), None, s1)
         else
           (let s2 = rt_spin_lock_irqsave s1
            in mb_recv_loop i (ipc_time_left timeout tick_delta (tick s2)) suspend_flag thread s2))"

definition rt_mb_control :: "nat \<Rightarrow> bool \<Rightarrow> kernel \<Rightarrow> rt_err_t \<times> kernel" where
  "rt_mb_control i reset s =
     (if reset then
        (let s1 = snd (rt_susp_list_resume_all (Mb_Q i) RT_ERROR (rt_spin_lock_irqsave s));
             s2 = snd (rt_susp_list_resume_all (Mb_Send_Q i) RT_ERROR s1);
             s3 = upd_mb i (\<lambda>mb. mb\<lparr>mb_entry := 0, mb_in_offset := 0, mb_out_offset := 0\<rparr>) s2
         in (RT_EOK, rt_schedule (rt_spin_unlock_irqrestore s3)))
      else (- RT_ERROR, s))"

section \<open>The ring is a bounded FIFO queue\<close>

definition mb_inv :: "rt_mailbox \<Rightarrow> bool" where
  "mb_inv mb \<longleftrightarrow> 0 < mb_size mb \<and> mb_size mb < 2 ^ 16 \<and> mb_entry mb \<le> mb_size mb \<and>
     mb_out_offset mb < mb_size mb \<and> mb_in_offset mb = (mb_out_offset mb + mb_entry mb) mod mb_size mb"

definition mb_contents :: "rt_mailbox \<Rightarrow> nat list" where
  "mb_contents mb = map (\<lambda>k. mb_msg_pool mb ((mb_out_offset mb + k) mod mb_size mb)) [0..<mb_entry mb]"

lemma length_mb_contents [simp]: "length (mb_contents mb) = mb_entry mb"
  by (simp add: mb_contents_def)

lemma wrap_next: "a < n \<Longrightarrow> (if (a + 1) \<ge> n then 0 else a + 1) = Suc a mod (n :: nat)"
  by (auto simp: mod_Suc)

lemma ring_inj:
  assumes "j < n" and "k < n" and "(a + j) mod n = (a + k) mod (n :: nat)"
  shows "j = k"
proof -
  have *: "j' = k'" if "j' < n" "k' < n" "k' \<le> j'" "(a + j') mod n = (a + k') mod n" for j' k'
    using that mod_eq_dvd_iff_nat [of "a + k'" "a + j'" n] nat_dvd_not_less [of "j' - k'" n] by fastforce
  show ?thesis using * [of j k] * [of k j] assms by (metis nat_le_linear)
qed

lemma mb_put_room:
  assumes "mb_inv mb" and "mb_entry mb < mb_size mb"
  shows "fst (mb_put x mb)" and "mb_inv (snd (mb_put x mb))"
    and "mb_contents (snd (mb_put x mb)) = mb_contents mb @ [x]" and "mb_size (snd (mb_put x mb)) = mb_size mb"
    and "mb_flag (snd (mb_put x mb)) = mb_flag mb"
proof -
  let ?n = "mb_size mb" and ?o = "mb_out_offset mb" and ?e = "mb_entry mb"
  have b: "?n < 2 ^ 16" "?o < ?n" "mb_in_offset mb = (?o + ?e) mod ?n" "0 < ?n" using assms(1) by (auto simp: mb_inv_def)
  have inn: "mb_in_offset mb < ?n" using b by simp
  have eq: "mb_put x mb = (True, mb\<lparr>mb_msg_pool := (mb_msg_pool mb)(mb_in_offset mb := x),
      mb_in_offset := Suc (mb_in_offset mb) mod ?n, mb_entry := ?e + 1\<rparr>)"
    using b(1) inn assms(2) wrap_next [OF inn] by (auto simp: mb_put_def Let_def RT_MB_ENTRY_MAX_def)
  show "fst (mb_put x mb)" "mb_size (snd (mb_put x mb)) = mb_size mb" "mb_flag (snd (mb_put x mb)) = mb_flag mb"
    by (simp_all add: eq)
  show "mb_inv (snd (mb_put x mb))" using assms b by (simp add: eq mb_inv_def mod_Suc_eq)
  have "(?o + k) mod ?n \<noteq> (?o + ?e) mod ?n" if "k < ?e" for k
    using ring_inj [of k ?n ?e ?o] that assms(2) by auto
  then show "mb_contents (snd (mb_put x mb)) = mb_contents mb @ [x]"
    by (simp add: eq mb_contents_def b(3))
qed

lemma mb_push_front_room:
  assumes "mb_inv mb" and "mb_entry mb < mb_size mb"
  shows "mb_inv (mb_push_front x mb)" and "mb_contents (mb_push_front x mb) = x # mb_contents mb"
    and "mb_size (mb_push_front x mb) = mb_size mb" and "mb_flag (mb_push_front x mb) = mb_flag mb"
proof -
  let ?n = "mb_size mb" and ?o = "mb_out_offset mb" and ?e = "mb_entry mb"
  have b: "?n < 2 ^ 16" "?o < ?n" "mb_in_offset mb = (?o + ?e) mod ?n" "0 < ?n" using assms(1) by (auto simp: mb_inv_def)
  define p where "p = (if ?o > 0 then ?o - 1 else ?n - 1)"
  have p: "p < ?n" "Suc p mod ?n = ?o" using b by (auto simp: p_def)
  have eq: "mb_push_front x mb = mb\<lparr>mb_out_offset := p, mb_msg_pool := (mb_msg_pool mb)(p := x), mb_entry := ?e + 1\<rparr>"
    using assms(2) b(1) by (simp add: mb_push_front_def Let_def p_def)
  have sh: "(p + Suc k) mod ?n = (?o + k) mod ?n" for k using p(2) by (metis add_Suc_right add_Suc mod_add_left_eq)
  show "mb_inv (mb_push_front x mb)" "mb_size (mb_push_front x mb) = mb_size mb" "mb_flag (mb_push_front x mb) = mb_flag mb"
    using assms b p(1) sh [of ?e] by (simp_all add: eq mb_inv_def)
  have "(?o + k) mod ?n \<noteq> p" if "k < ?e" for k
  proof
    assume "(?o + k) mod ?n = p"
    then have "(p + Suc k) mod ?n = (p + 0) mod ?n" using sh [of k] p(1) by simp
    then show False using ring_inj [of "Suc k" ?n 0 p] that assms(2) by simp
  qed
  then show "mb_contents (mb_push_front x mb) = x # mb_contents mb"
    using p(1) by (simp add: eq mb_contents_def upt_conv_Cons map_Suc_upt [symmetric] sh [simplified] o_def del: upt_Suc)
qed

lemma mb_get_some:
  assumes "mb_inv mb" and "mb_contents mb = x # xs"
  shows "fst (mb_get mb) = x" and "mb_inv (snd (mb_get mb))" and "mb_contents (snd (mb_get mb)) = xs"
    and "mb_size (snd (mb_get mb)) = mb_size mb" and "mb_flag (snd (mb_get mb)) = mb_flag mb"
proof -
  let ?n = "mb_size mb" and ?o = "mb_out_offset mb"
  have b: "?n < 2 ^ 16" "?o < ?n" "mb_in_offset mb = (?o + mb_entry mb) mod ?n" "0 < ?n"
    using assms(1) by (auto simp: mb_inv_def)
  obtain m where m: "mb_entry mb = Suc m"
    using assms(2) length_mb_contents [of mb] by (cases "mb_entry mb") auto
  have c: "x = mb_msg_pool mb ?o" "xs = map (\<lambda>k. mb_msg_pool mb ((?o + Suc k) mod ?n)) [0..<m]"
    using assms(2) b(2)
    by (simp_all add: mb_contents_def m upt_conv_Cons map_Suc_upt [symmetric] o_def del: upt_Suc)
  have eq: "mb_get mb = (x, mb\<lparr>mb_out_offset := Suc ?o mod ?n, mb_entry := m\<rparr>)"
    using b(1,2) wrap_next [OF b(2)] m c(1) by (auto simp: mb_get_def Let_def)
  have sh: "(Suc ?o mod ?n + k) mod ?n = (?o + Suc k) mod ?n" for k by (metis add_Suc_right add_Suc mod_add_left_eq)
  show "fst (mb_get mb) = x" "mb_size (snd (mb_get mb)) = mb_size mb" "mb_flag (snd (mb_get mb)) = mb_flag mb"
    by (simp_all add: eq)
  show "mb_inv (snd (mb_get mb))" using assms(1) b sh [of m] m by (simp add: eq mb_inv_def)
  show "mb_contents (snd (mb_get mb)) = xs" by (simp add: eq mb_contents_def c(2) sh)
qed

text \<open>The ring with the guards of the calls that do not block.\<close>

definition mb_put_opt :: "nat \<Rightarrow> rt_mailbox \<Rightarrow> rt_mailbox option" where
  "mb_put_opt x mb =
     (if mb_entry mb = mb_size mb then None else (let (ok, mb') = mb_put x mb in if ok then Some mb' else None))"

definition mb_get_opt :: "rt_mailbox \<Rightarrow> (nat \<times> rt_mailbox) option" where
  "mb_get_opt mb = (if mb_entry mb = 0 then None else Some (mb_get mb))"

interpretation mbx: bounded_fifo mb_inv mb_contents mb_size mb_put_opt mb_get_opt
proof unfold_locales
  fix s :: rt_mailbox and x xs
  assume s: "mb_inv s"
  then show "length (mb_contents s) \<le> mb_size s" by (simp add: mb_inv_def)
  show "\<exists>s'. mb_put_opt x s = Some s' \<and> mb_inv s' \<and> mb_contents s' = mb_contents s @ [x] \<and> mb_size s' = mb_size s"
    if "length (mb_contents s) < mb_size s"
    using mb_put_room [OF s, of x] that by (simp add: mb_put_opt_def case_prod_beta)
  show "mb_put_opt x s = None" if "length (mb_contents s) = mb_size s" using that by (simp add: mb_put_opt_def)
  show "\<exists>s'. mb_get_opt s = Some (x, s') \<and> mb_inv s' \<and> mb_contents s' = xs \<and> mb_size s' = mb_size s"
    if "mb_contents s = x # xs"
    using mb_get_some [OF s that] that length_mb_contents [of s]
    by (auto simp: mb_get_opt_def intro!: exI [of _ "snd (mb_get s)"] prod_eqI)
  show "mb_get_opt s = None" if "mb_contents s = []"
    using that length_mb_contents [of s] by (simp add: mb_get_opt_def)
qed

section \<open>Specification of the calls\<close>

text \<open>A mailbox is the sequence of its words and two lists of waiting threads: receivers and senders.\<close>

type_synonym mb_view = "nat list \<times> tid list \<times> tid list"

definition mb_view :: "kernel \<Rightarrow> nat \<Rightarrow> mb_view" where
  "mb_view s i = (mb_contents (mailboxes s i), queues s (Mb_Q i), queues s (Mb_Send_Q i))"

fun mb_spec_send :: "nat \<Rightarrow> (tid list \<Rightarrow> tid list) \<Rightarrow> nat \<Rightarrow> int \<Rightarrow> mb_view \<Rightarrow> rt_err_t outcome \<times> mb_view" where
  "mb_spec_send n enq value timeout (c, rs, ss) =
     (if length c < n then (Done RT_EOK, c @ [value], tl rs, ss)
      else if timeout = 0 then (Done (- RT_EFULL), c, rs, ss)
      else (Blocked, c, rs, enq ss))"

fun mb_spec_urgent :: "nat \<Rightarrow> nat \<Rightarrow> mb_view \<Rightarrow> rt_err_t \<times> mb_view" where
  "mb_spec_urgent n value (c, rs, ss) =
     (if length c < n then (RT_EOK, value # c, tl rs, ss) else (- RT_EFULL, c, rs, ss))"

fun mb_spec_recv :: "(tid list \<Rightarrow> tid list) \<Rightarrow> int \<Rightarrow> mb_view \<Rightarrow> rt_err_t outcome \<times> nat option \<times> mb_view" where
  "mb_spec_recv enq timeout (x # c, rs, ss) = (Done RT_EOK, Some x, c, rs, tl ss)"
| "mb_spec_recv enq timeout ([], rs, ss) =
     (if timeout = 0 then (Done (- RT_ETIMEOUT), None, [], rs, ss) else (Blocked, None, [], enq rs, ss))"

section \<open>Refinement\<close>

definition mb_ok :: "nat \<Rightarrow> kernel \<Rightarrow> bool" where
  "mb_ok i s \<longleftrightarrow> kok s \<and> mb_inv (mailboxes s i)"

lemma upd_mb_simps [simp]:
  "kok (upd_mb i f s) = kok s" "locked (upd_mb i f s) = locked s" "threads (upd_mb i f s) = threads s"
  "queues (upd_mb i f s) = queues s" "mailboxes (upd_mb i f s) = (mailboxes s)(i := f (mailboxes s i))"
  by (simp_all add: upd_mb_def)

lemma mb_queues [simp]: "\<not> is_ready_q (Mb_Q i)" "\<not> is_ready_q (Mb_Send_Q i)"
  by (simp_all add: is_ready_q_def)

lemma exit_mb:
  assumes "kok s"
  shows "kok (rt_exit_critical s)" "mailboxes (rt_exit_critical s) = mailboxes s"
    "mb_view (rt_exit_critical s) i = mb_view s i"
  using resched_fields [OF rt_exit_critical_resched [OF kokD(1) [OF assms]]] assms
  by (auto simp: mb_view_def)

text \<open>What the two loops have in common: a waiting round, and a word moved with one thread woken.\<close>

lemma mb_wait:
  assumes "suspended (set_th_error t e s) s' t q (mb_flag (mailboxes s i))"
  shows "kok s'" "susp s' t" "mailboxes s' = mailboxes s"
    "queues s' q = wait_order (mb_flag (mailboxes s i)) s t (queues s q)"
    "q' \<noteq> q \<Longrightarrow> \<not> is_ready_q q' \<Longrightarrow> queues s' q' = queues s q'"
  using assms wait_order_cong [of "set_th_error t e s" s] by (auto simp: suspended_def)

lemma mb_send_loop_cases:
  assumes "locked s" and "mb_ok i s" and "st s t = RT_THREAD_RUNNING"
  obtains (sent) s' where "mb_entry (mailboxes s i) < mb_size (mailboxes s i)"
      "mb_send_loop i v timeout sf t s = (Done RT_EOK, s')" "kok s'"
      "mailboxes s' = (mailboxes s)(i := snd (mb_put v (mailboxes s i)))"
      "queues s' (Mb_Q i) = tl (queues s (Mb_Q i))" "queues s' (Mb_Send_Q i) = queues s (Mb_Send_Q i)"
      "\<And>u us. queues s (Mb_Q i) = u # us \<Longrightarrow> \<not> susp s' u \<and> th_error (threads s' u) = RT_EOK"
    | (full) s' where "mb_entry (mailboxes s i) = mb_size (mailboxes s i)" "timeout = 0"
      "mb_send_loop i v timeout sf t s = (Done (- RT_EFULL), s')" "kok s'" "mailboxes s' = mailboxes s"
      "mb_view s' i = mb_view s i"
    | (waits) s' where "mb_entry (mailboxes s i) = mb_size (mailboxes s i)" "timeout \<noteq> 0"
      "mb_send_loop i v timeout sf t s = (Blocked, s')" "kok s'" "susp s' t" "mailboxes s' = mailboxes s"
      "queues s' (Mb_Q i) = queues s (Mb_Q i)"
      "queues s' (Mb_Send_Q i) = wait_order (mb_flag (mailboxes s i)) s t (queues s (Mb_Send_Q i))"
proof -
  let ?mb = "mailboxes s i"
  have k: "kok s" "mb_inv ?mb" using assms(2) by (simp_all add: mb_ok_def)
  consider "mb_entry ?mb < mb_size ?mb" | "mb_entry ?mb = mb_size ?mb" "timeout = 0"
    | "mb_entry ?mb = mb_size ?mb" "timeout \<noteq> 0" using k(2) by (force simp: mb_inv_def)
  then show thesis
  proof cases
    case 1
    let ?s1 = "upd_mb i (\<lambda>_. snd (mb_put v ?mb)) s"
    have l: "locked ?s1" "kok ?s1" using assms(1) k(1) by simp_all
    note w = ipc_wake_leave_result [OF l is_wait_q_simps(4) [of i]]
    show thesis
      by (rule sent [of "ipc_wake_leave (Mb_Q i) ?s1"])
        (use 1 w mb_put_room(1) [OF k(2) 1, of v] in \<open>simp_all add: mb_send_loop_def case_prod_beta\<close>)
  next
    case 2
    have "kok (set_th_error t (- RT_EINTR) s)" using k(1) by simp
    from exit_mb [OF this] 2 show thesis
      by (intro full [of "rt_exit_critical (set_th_error t (- RT_EINTR) s)"]) (simp_all add: mb_send_loop_def spin_defs mb_view_def)
  next
    case 3
    obtain s1 where "ipc_suspend (Mb_Send_Q i) (mb_flag ?mb) sf timeout t (set_th_error t (- RT_EINTR) s) = (RT_EOK, s1)"
      and su: "suspended (set_th_error t (- RT_EINTR) s) (rt_exit_critical s1) t (Mb_Send_Q i) (mb_flag ?mb)"
      by (rule ipc_wait_suspended [OF k(1) assms(3) is_wait_q_simps(5)])
    with 3 mb_wait [OF su] show thesis
      by (intro waits [of "rt_exit_critical s1"]) (simp_all add: mb_send_loop_def spin_defs)
  qed
qed

lemma mb_recv_loop_cases:
  assumes "locked s" and "mb_ok i s" and "st s t = RT_THREAD_RUNNING"
  obtains (got) s' x xs where "mb_contents (mailboxes s i) = x # xs"
      "mb_recv_loop i timeout sf t s = (Done RT_EOK, Some x, s')" "kok s'"
      "mailboxes s' = (mailboxes s)(i := snd (mb_get (mailboxes s i)))"
      "queues s' (Mb_Send_Q i) = tl (queues s (Mb_Send_Q i))" "queues s' (Mb_Q i) = queues s (Mb_Q i)"
      "\<And>u us. queues s (Mb_Send_Q i) = u # us \<Longrightarrow> \<not> susp s' u \<and> th_error (threads s' u) = RT_EOK"
    | (empty) s' where "mb_contents (mailboxes s i) = []" "timeout = 0"
      "mb_recv_loop i timeout sf t s = (Done (- RT_ETIMEOUT), None, s')" "kok s'" "mailboxes s' = mailboxes s"
      "mb_view s' i = mb_view s i"
    | (waits) s' where "mb_contents (mailboxes s i) = []" "timeout \<noteq> 0"
      "mb_recv_loop i timeout sf t s = (Blocked, None, s')" "kok s'" "susp s' t" "mailboxes s' = mailboxes s"
      "queues s' (Mb_Send_Q i) = queues s (Mb_Send_Q i)"
      "queues s' (Mb_Q i) = wait_order (mb_flag (mailboxes s i)) s t (queues s (Mb_Q i))"
proof -
  let ?mb = "mailboxes s i"
  have k: "kok s" "mb_inv ?mb" using assms(2) by (simp_all add: mb_ok_def)
  have e: "mb_entry ?mb = 0 \<longleftrightarrow> mb_contents ?mb = []" by (simp add: mb_contents_def)
  consider x xs where "mb_contents ?mb = x # xs" | "mb_contents ?mb = []" "timeout = 0"
    | "mb_contents ?mb = []" "timeout \<noteq> 0" by (cases "mb_contents ?mb") auto
  then show thesis
  proof cases
    case 1
    let ?s1 = "upd_mb i (\<lambda>_. snd (mb_get ?mb)) s"
    have l: "locked ?s1" "kok ?s1" using assms(1) k(1) by simp_all
    note w = ipc_wake_leave_result [OF l is_wait_q_simps(5) [of i]]
    show thesis
      by (rule got [of x xs "ipc_wake_leave (Mb_Send_Q i) ?s1"])
        (use 1 w mb_get_some(1) [OF k(2) 1] in \<open>simp_all add: mb_recv_loop_def case_prod_beta e\<close>)
  next
    case 2
    have "kok (set_th_error t (- RT_EINTR) s)" using k(1) by simp
    from exit_mb [OF this] 2 show thesis
      by (intro empty [of "set_th_error t (- RT_ETIMEOUT) (rt_exit_critical (set_th_error t (- RT_EINTR) s))"])
        (simp_all add: mb_recv_loop_def spin_defs mb_view_def e)
  next
    case 3
    obtain s1 where "ipc_suspend (Mb_Q i) (mb_flag ?mb) sf timeout t (set_th_error t (- RT_EINTR) s) = (RT_EOK, s1)"
      and su: "suspended (set_th_error t (- RT_EINTR) s) (rt_exit_critical s1) t (Mb_Q i) (mb_flag ?mb)"
      by (rule ipc_wait_suspended [OF k(1) assms(3) is_wait_q_simps(4)])
    with 3 mb_wait [OF su] show thesis
      by (intro waits [of "rt_exit_critical s1"]) (simp_all add: mb_recv_loop_def spin_defs e)
  qed
qed

lemma mb_send_loop_refines:
  assumes "locked s" and "mb_ok i s" and "st s t = RT_THREAD_RUNNING"
  shows "mb_ok i (snd (mb_send_loop i v timeout sf t s))"
    and "(fst (mb_send_loop i v timeout sf t s), mb_view (snd (mb_send_loop i v timeout sf t s)) i) =
      mb_spec_send (mb_size (mailboxes s i)) (wait_order (mb_flag (mailboxes s i)) s t) v timeout (mb_view s i)"
proof -
  have "mb_inv (mailboxes s i)" using assms(2) by (simp add: mb_ok_def)
  note p = mb_put_room(2,3) [OF this, of v]
  show "mb_ok i (snd (mb_send_loop i v timeout sf t s))"
    using assms(2) p
    by (cases rule: mb_send_loop_cases [OF assms, of v timeout sf]) (simp_all add: mb_ok_def)
  show "(fst (mb_send_loop i v timeout sf t s), mb_view (snd (mb_send_loop i v timeout sf t s)) i) =
      mb_spec_send (mb_size (mailboxes s i)) (wait_order (mb_flag (mailboxes s i)) s t) v timeout (mb_view s i)"
    using p by (cases rule: mb_send_loop_cases [OF assms, of v timeout sf]) (simp_all add: mb_view_def)
qed

lemma mb_recv_loop_refines:
  assumes "locked s" and "mb_ok i s" and "st s t = RT_THREAD_RUNNING"
  shows "mb_ok i (snd (snd (mb_recv_loop i timeout sf t s)))"
    and "(case mb_recv_loop i timeout sf t s of (ret, x, s') \<Rightarrow> (ret, x, mb_view s' i)) =
      mb_spec_recv (wait_order (mb_flag (mailboxes s i)) s t) timeout (mb_view s i)"
proof -
  have k: "mb_inv (mailboxes s i)" using assms(2) by (simp add: mb_ok_def)
  note g = mb_get_some(2,3) [OF k]
  show "mb_ok i (snd (snd (mb_recv_loop i timeout sf t s)))"
    using assms(2) by (cases rule: mb_recv_loop_cases [OF assms, of timeout sf]) (simp_all add: mb_ok_def g)
  show "(case mb_recv_loop i timeout sf t s of (ret, x, s') \<Rightarrow> (ret, x, mb_view s' i)) =
      mb_spec_recv (wait_order (mb_flag (mailboxes s i)) s t) timeout (mb_view s i)"
    by (cases rule: mb_recv_loop_cases [OF assms, of timeout sf]) (simp_all add: mb_view_def g)
qed

lemma enter_mb:
  assumes "mb_ok i s" and "nest_ok s"
  shows "locked (rt_enter_critical s)" "mb_ok i (rt_enter_critical s)" "mb_view (rt_enter_critical s) j = mb_view s j"
    "wait_order fl (rt_enter_critical s) = wait_order fl s" "st (rt_enter_critical s) t = st s t"
  using assms nest_ok_locked by (auto simp: mb_ok_def mb_view_def intro: wait_order_cong)

lemma exit_enter_mb:
  assumes "mb_ok i s"
  shows "mb_ok i (rt_exit_critical (rt_enter_critical s))"
    "mb_view (rt_exit_critical (rt_enter_critical s)) j = mb_view s j"
    "mailboxes (rt_exit_critical (rt_enter_critical s)) = mailboxes s"
  using exit_mb [of "rt_enter_critical s"] assms by (simp_all add: mb_ok_def mb_view_def)

lemma rt_mb_send_enter_refines:
  fixes i v t :: nat and timeout :: int and sf :: suspend_flag
  assumes "mb_ok i s" and "nest_ok s" and "st s t = RT_THREAD_RUNNING"
  shows "mb_ok i (snd (rt_mb_send_enter i v timeout sf t s))"
    and "(fst (rt_mb_send_enter i v timeout sf t s), mb_view (snd (rt_mb_send_enter i v timeout sf t s)) i) =
      mb_spec_send (mb_size (mailboxes s i)) (wait_order (mb_flag (mailboxes s i)) s t) v timeout (mb_view s i)"
proof -
  note e = enter_mb [OF assms(1,2)]
  have "st (rt_enter_critical s) t = RT_THREAD_RUNNING" using assms(3) by simp
  note l = mb_send_loop_refines [OF e(1,2) this, of v timeout sf]
  show "mb_ok i (snd (rt_mb_send_enter i v timeout sf t s))"
    "(fst (rt_mb_send_enter i v timeout sf t s), mb_view (snd (rt_mb_send_enter i v timeout sf t s)) i) =
      mb_spec_send (mb_size (mailboxes s i)) (wait_order (mb_flag (mailboxes s i)) s t) v timeout (mb_view s i)"
    using l e(3,4) exit_enter_mb [OF assms(1)]
    by (simp_all add: rt_mb_send_enter_def spin_defs Let_def) (simp add: mb_view_def)
qed

lemma rt_mb_recv_enter_refines:
  fixes i t :: nat and timeout :: int and sf :: suspend_flag
  assumes "mb_ok i s" and "nest_ok s" and "st s t = RT_THREAD_RUNNING"
  shows "mb_ok i (snd (snd (rt_mb_recv_enter i timeout sf t s)))"
    and "(case rt_mb_recv_enter i timeout sf t s of (ret, x, s') \<Rightarrow> (ret, x, mb_view s' i)) =
      mb_spec_recv (wait_order (mb_flag (mailboxes s i)) s t) timeout (mb_view s i)"
proof -
  note e = enter_mb [OF assms(1,2)]
  have "st (rt_enter_critical s) t = RT_THREAD_RUNNING" using assms(3) by simp
  note l = mb_recv_loop_refines [OF e(1,2) this, of timeout sf]
  have "mb_contents (mailboxes s i) = []" if "mb_entry (mailboxes s i) = 0" using that by (simp add: mb_contents_def)
  then show "mb_ok i (snd (snd (rt_mb_recv_enter i timeout sf t s)))"
    "(case rt_mb_recv_enter i timeout sf t s of (ret, x, s') \<Rightarrow> (ret, x, mb_view s' i)) =
      mb_spec_recv (wait_order (mb_flag (mailboxes s i)) s t) timeout (mb_view s i)"
    using l e(3,4) exit_enter_mb [OF assms(1)]
    by (simp_all add: rt_mb_recv_enter_def spin_defs Let_def) (simp add: mb_view_def)
qed

lemma rt_mb_urgent_refines:
  assumes "mb_ok i s" and "nest_ok s"
  shows "mb_ok i (snd (rt_mb_urgent i v s))"
    and "(fst (rt_mb_urgent i v s), mb_view (snd (rt_mb_urgent i v s)) i) =
      mb_spec_urgent (mb_size (mailboxes s i)) v (mb_view s i)"
    and "mb_entry (mailboxes s i) < mb_size (mailboxes s i) \<Longrightarrow> queues s (Mb_Q i) = u # us \<Longrightarrow>
      \<not> susp (snd (rt_mb_urgent i v s)) u \<and> th_error (threads (snd (rt_mb_urgent i v s)) u) = RT_EOK"
proof -
  let ?mb = "mailboxes s i" and ?s1 = "upd_mb i (mb_push_front v) (rt_enter_critical s)"
  note e = enter_mb [OF assms(1,2)]
  have k: "locked ?s1" "kok ?s1" "mb_inv ?mb" using e(1,2) assms(1) by (simp_all add: mb_ok_def)
  note w = ipc_wake_leave_result [OF k(1,2) is_wait_q_simps(4) [of i]]
  have le: "mb_entry ?mb \<le> mb_size ?mb" using k(3) by (simp add: mb_inv_def)
  note p = mb_push_front_room [OF k(3), of v]
  show "mb_ok i (snd (rt_mb_urgent i v s))"
    using w(1,6) p(1) exit_enter_mb(1) [OF assms(1)] le
    by (auto simp: rt_mb_urgent_def spin_defs Let_def mb_ok_def)
  show "(fst (rt_mb_urgent i v s), mb_view (snd (rt_mb_urgent i v s)) i) =
      mb_spec_urgent (mb_size ?mb) v (mb_view s i)"
    using w(2,3,6) p(2) exit_enter_mb(2) [OF assms(1)] le
    by (auto simp: rt_mb_urgent_def spin_defs Let_def mb_view_def)
  show "\<not> susp (snd (rt_mb_urgent i v s)) u \<and> th_error (threads (snd (rt_mb_urgent i v s)) u) = RT_EOK"
    if "mb_entry ?mb < mb_size ?mb" "queues s (Mb_Q i) = u # us"
    using that w(4,5) by (simp add: rt_mb_urgent_def spin_defs Let_def)
qed

text \<open>A woken caller: an error is returned at once, otherwise the loop goes round.\<close>

lemma schedule_mb:
  assumes "mb_ok i s"
  shows "mb_ok i (rt_schedule s)" "mb_view (rt_schedule s) j = mb_view s j" "mailboxes (rt_schedule s) = mailboxes s"
    "th_error (threads (rt_schedule s) t) = th_error (threads s t)" "nest_ok (rt_schedule s) = nest_ok s"
    "tick (rt_schedule s) = tick s"
    "wait_order fl (rt_schedule s) = wait_order fl s"
proof -
  have k: "kok s" using assms by (simp add: mb_ok_def)
  note f = resched_fields [OF rt_schedule_resched [OF kokD(1) [OF k]]]
  show "mb_ok i (rt_schedule s)" "mb_view (rt_schedule s) j = mb_view s j" "mailboxes (rt_schedule s) = mailboxes s"
    "th_error (threads (rt_schedule s) t) = th_error (threads s t)" "nest_ok (rt_schedule s) = nest_ok s"
    "tick (rt_schedule s) = tick s"
    using f k assms kokD(1) by (auto simp: mb_ok_def mb_view_def)
  show "wait_order fl (rt_schedule s) = wait_order fl s" by (rule wait_order_cong) (simp add: f(4))
qed

lemma rt_mb_resume_refines:
  fixes i v t :: nat and timeout :: int and sf :: suspend_flag and tick0 :: rt_tick_t
  assumes "mb_ok i s" and "nest_ok s" and "st (rt_schedule s) t = RT_THREAD_RUNNING"
  defines "left \<equiv> ipc_time_left timeout tick0 (tick s)"
  shows "mb_ok i (snd (rt_mb_send_resume i v timeout tick0 sf t s))"
    and "mb_ok i (snd (snd (rt_mb_recv_resume i timeout tick0 sf t s)))"
    and "(fst (rt_mb_send_resume i v timeout tick0 sf t s), mb_view (snd (rt_mb_send_resume i v timeout tick0 sf t s)) i) =
      (if th_error (threads s t) \<noteq> RT_EOK then (Done (th_error (threads s t)), mb_view s i)
       else mb_spec_send (mb_size (mailboxes s i)) (wait_order (mb_flag (mailboxes s i)) s t) v left (mb_view s i))"
    and "(case rt_mb_recv_resume i timeout tick0 sf t s of (ret, x, s') \<Rightarrow> (ret, x, mb_view s' i)) =
      (if th_error (threads s t) \<noteq> RT_EOK then (Done (th_error (threads s t)), None, mb_view s i)
       else mb_spec_recv (wait_order (mb_flag (mailboxes s i)) s t) left (mb_view s i))"
proof -
  note sc = schedule_mb [OF assms(1)]
  have n: "nest_ok (rt_schedule s)" using sc(5) assms(2) by simp
  note e = enter_mb [OF sc(1) n]
  have r: "st (rt_enter_critical (rt_schedule s)) t = RT_THREAD_RUNNING" using assms(3) by simp
  have tk: "tick (rt_enter_critical (rt_schedule s)) = tick s" using sc(6) by (simp add: rt_enter_critical_def)
  note ls = mb_send_loop_refines [OF e(1,2) r, of v left sf] and lr = mb_recv_loop_refines [OF e(1,2) r, of left sf]
  show "mb_ok i (snd (rt_mb_send_resume i v timeout tick0 sf t s))"
    "mb_ok i (snd (snd (rt_mb_recv_resume i timeout tick0 sf t s)))"
    "(fst (rt_mb_send_resume i v timeout tick0 sf t s), mb_view (snd (rt_mb_send_resume i v timeout tick0 sf t s)) i) =
      (if th_error (threads s t) \<noteq> RT_EOK then (Done (th_error (threads s t)), mb_view s i)
       else mb_spec_send (mb_size (mailboxes s i)) (wait_order (mb_flag (mailboxes s i)) s t) v left (mb_view s i))"
    "(case rt_mb_recv_resume i timeout tick0 sf t s of (ret, x, s') \<Rightarrow> (ret, x, mb_view s' i)) =
      (if th_error (threads s t) \<noteq> RT_EOK then (Done (th_error (threads s t)), None, mb_view s i)
       else mb_spec_recv (wait_order (mb_flag (mailboxes s i)) s t) left (mb_view s i))"
    using ls lr sc e(3,4) tk by (simp_all add: rt_mb_send_resume_def rt_mb_recv_resume_def spin_defs Let_def left_def)
qed

text \<open>C29: the mailbox calls refine a bounded FIFO queue with its two lists of waiting threads: a send appends
  while there is room, otherwise reports \<^verbatim>\<open>-RT_EFULL\<close> or waits among the senders; an urgent send puts its
  word first; a receive takes the oldest word, otherwise reports \<^verbatim>\<open>-RT_ETIMEOUT\<close> or waits among the
  receivers; each word that goes in wakes the first receiver, each that comes out the first sender.\<close>

theorem rt_mb_refines_queue:
  assumes "mb_ok i s" and "nest_ok s" and "st s t = RT_THREAD_RUNNING"
  shows "let n = mb_size (mailboxes s i); enq = wait_order (mb_flag (mailboxes s i)) s t in
    (case rt_mb_send_enter i v timeout sf t s of (ret, s') \<Rightarrow>
       mb_ok i s' \<and> (ret, mb_view s' i) = mb_spec_send n enq v timeout (mb_view s i)) \<and>
    (case rt_mb_urgent i v s of (ret, s') \<Rightarrow>
       mb_ok i s' \<and> (ret, mb_view s' i) = mb_spec_urgent n v (mb_view s i)) \<and>
    (case rt_mb_recv_enter i timeout sf t s of (ret, x, s') \<Rightarrow>
       mb_ok i s' \<and> (ret, x, mb_view s' i) = mb_spec_recv enq timeout (mb_view s i))"
  using rt_mb_send_enter_refines [OF assms, of v timeout sf] rt_mb_urgent_refines(1,2) [OF assms(1,2), of v]
    rt_mb_recv_enter_refines [OF assms, of timeout sf]
  by (simp add: case_prod_beta)

lemma demo_mb_ok: "mb_ok 0 demo_kernel" "nest_ok demo_kernel" "st demo_kernel 1 = RT_THREAD_RUNNING"
  "mb_view demo_kernel 0 = ([], [], [])" "mb_size (mailboxes demo_kernel 0) = 2"
  using demo_kernel_kinv
  by (auto simp: mb_ok_def kok_def ttmr_ok_def nest_ok_def stat_simps mb_inv_def mb_view_def mb_contents_def
      split: if_splits)
    (simp_all add: demo_kernel_def)

theorem rt_mb_refines_queue_witness:
  "(case rt_mb_send_enter 0 7 0 RT_UNINTERRUPTIBLE 1 demo_kernel of (ret, s') \<Rightarrow>
     (ret, mb_view s' 0) = (Done RT_EOK, [7], [], [])) \<and>
   (case rt_mb_recv_enter 0 0 RT_UNINTERRUPTIBLE 1 demo_kernel of (ret, x, s') \<Rightarrow>
     (ret, x, mb_view s' 0) = (Done (- RT_ETIMEOUT), None, [], [], []))"
  using rt_mb_refines_queue [OF demo_mb_ok(1-3), of 7 0 RT_UNINTERRUPTIBLE] demo_mb_ok(4,5)
  by (auto simp: Let_def)

section \<open>Delivery over a whole run\<close>

text \<open>\<open>mb_trace i s0 sent got s\<close>: from \<open>s0\<close> to \<open>s\<close> the words \<open>sent\<close> were accepted by sends of mailbox \<open>i\<close> and the words \<open>got\<close> handed
  to receivers, in these orders; first and later rounds of the calls of any threads interleave with
  anything that leaves the mailbox alone.\<close>

inductive mb_trace :: "nat \<Rightarrow> kernel \<Rightarrow> nat list \<Rightarrow> nat list \<Rightarrow> kernel \<Rightarrow> bool" for i s0 where
  start: "mb_trace i s0 [] [] s0"
| send: "mb_trace i s0 sent got s \<Longrightarrow> nest_ok s \<Longrightarrow> st s t = RT_THREAD_RUNNING \<Longrightarrow>
    rt_mb_send_enter i v timeout sf t s = (ret, s') \<Longrightarrow>
    mb_trace i s0 (if ret = Done RT_EOK then sent @ [v] else sent) got s'"
| send_resume: "mb_trace i s0 sent got s \<Longrightarrow> nest_ok s \<Longrightarrow> st (rt_schedule s) t = RT_THREAD_RUNNING \<Longrightarrow>
    rt_mb_send_resume i v timeout tick0 sf t s = (ret, s') \<Longrightarrow>
    mb_trace i s0 (if ret = Done RT_EOK then sent @ [v] else sent) got s'"
| recv: "mb_trace i s0 sent got s \<Longrightarrow> nest_ok s \<Longrightarrow> st s t = RT_THREAD_RUNNING \<Longrightarrow>
    rt_mb_recv_enter i timeout sf t s = (ret, x, s') \<Longrightarrow>
    mb_trace i s0 sent (case x of None \<Rightarrow> got | Some w \<Rightarrow> got @ [w]) s'"
| recv_resume: "mb_trace i s0 sent got s \<Longrightarrow> nest_ok s \<Longrightarrow> st (rt_schedule s) t = RT_THREAD_RUNNING \<Longrightarrow>
    rt_mb_recv_resume i timeout tick0 sf t s = (ret, x, s') \<Longrightarrow>
    mb_trace i s0 sent (case x of None \<Rightarrow> got | Some w \<Rightarrow> got @ [w]) s'"
| other: "mb_trace i s0 sent got s \<Longrightarrow> kok s' \<Longrightarrow> mailboxes s' i = mailboxes s i \<Longrightarrow> mb_trace i s0 sent got s'"

lemma mb_spec_send_contents:
  "(ret, mb_view s' i) = mb_spec_send n enq v timeout (mb_view s i) \<Longrightarrow>
   mb_contents (mailboxes s' i) = (if ret = Done RT_EOK then mb_contents (mailboxes s i) @ [v] else mb_contents (mailboxes s i))"
  by (auto simp: mb_view_def rt_err_defs split: if_splits)

lemma mb_spec_recv_contents:
  "(ret, x, mb_view s' i) = mb_spec_recv enq timeout (mb_view s i) \<Longrightarrow>
   mb_contents (mailboxes s i) = (case x of None \<Rightarrow> [] | Some w \<Rightarrow> [w]) @ mb_contents (mailboxes s' i)"
  by (cases "mb_contents (mailboxes s i)") (auto simp: mb_view_def split: if_splits)

lemma mb_resume_contents:
  "(ret, mb_view s' i) = (if e \<noteq> RT_EOK then (Done e, mb_view s i) else mb_spec_send n enq v timeout (mb_view s i)) \<Longrightarrow>
   mb_contents (mailboxes s' i) = (if ret = Done RT_EOK then mb_contents (mailboxes s i) @ [v] else mb_contents (mailboxes s i))"
  "(ret', x, mb_view s' i) = (if e \<noteq> RT_EOK then (Done e, None, mb_view s i) else mb_spec_recv enq timeout (mb_view s i)) \<Longrightarrow>
   mb_contents (mailboxes s i) = (case x of None \<Rightarrow> [] | Some w \<Rightarrow> [w]) @ mb_contents (mailboxes s' i)"
proof -
  have v: "mb_view s' i = mb_view s i \<Longrightarrow> mb_contents (mailboxes s' i) = mb_contents (mailboxes s i)"
    by (simp add: mb_view_def)
  show "mb_contents (mailboxes s' i) = (if ret = Done RT_EOK then mb_contents (mailboxes s i) @ [v] else mb_contents (mailboxes s i))"
    if "(ret, mb_view s' i) = (if e \<noteq> RT_EOK then (Done e, mb_view s i) else mb_spec_send n enq v timeout (mb_view s i))"
  proof (cases "e = RT_EOK")
    case True
    show ?thesis by (rule mb_spec_send_contents [of _ _ _ n enq _ timeout]) (use that True in simp)
  qed (use that v in simp)
  show "mb_contents (mailboxes s i) = (case x of None \<Rightarrow> [] | Some w \<Rightarrow> [w]) @ mb_contents (mailboxes s' i)"
    if "(ret', x, mb_view s' i) = (if e \<noteq> RT_EOK then (Done e, None, mb_view s i) else mb_spec_recv enq timeout (mb_view s i))"
  proof (cases "e = RT_EOK")
    case True
    show ?thesis by (rule mb_spec_recv_contents [of ret' _ _ _ enq timeout]) (use that True in simp)
  qed (use that v in simp)
qed

text \<open>C20: every word that a mailbox accepts is delivered exactly once and in order: in every interleaving the
  words received so far, followed by the words still stored, are the words stored at the start followed
  by the words sent.\<close>

theorem rt_mb_delivers_in_order:
  assumes "mb_trace i s0 sent got s" and "mb_ok i s0"
  shows "got @ mb_contents (mailboxes s i) = mb_contents (mailboxes s0 i) @ sent \<and> mb_ok i s"
  using assms
proof induction
  case (send sent got s t v timeout sf ret s')
  then have r: "mb_ok i s'" "(ret, mb_view s' i) =
      mb_spec_send (mb_size (mailboxes s i)) (wait_order (mb_flag (mailboxes s i)) s t) v timeout (mb_view s i)"
    using rt_mb_send_enter_refines [of i s t v timeout sf] by simp_all
  from mb_spec_send_contents [OF r(2)] r(1) send.IH [OF send.prems] show ?case by auto
next
  case (send_resume sent got s t v timeout tick0 sf ret s')
  then have r: "mb_ok i s'" "(ret, mb_view s' i) =
      (if th_error (threads s t) \<noteq> RT_EOK then (Done (th_error (threads s t)), mb_view s i)
       else mb_spec_send (mb_size (mailboxes s i)) (wait_order (mb_flag (mailboxes s i)) s t) v
              (ipc_time_left timeout tick0 (tick s)) (mb_view s i))"
    using rt_mb_resume_refines(1,3) [of i s t v timeout tick0 sf] by simp_all
  from mb_resume_contents(1) [OF r(2)] r(1) send_resume.IH [OF send_resume.prems] show ?case by auto
next
  case (recv sent got s t timeout sf ret x s')
  then have r: "mb_ok i s'" "(ret, x, mb_view s' i) =
      mb_spec_recv (wait_order (mb_flag (mailboxes s i)) s t) timeout (mb_view s i)"
    using rt_mb_recv_enter_refines [of i s t timeout sf] by simp_all
  from mb_spec_recv_contents [OF r(2)] r(1) recv.IH [OF recv.prems] show ?case by (auto split: option.splits)
next
  case (recv_resume sent got s t timeout tick0 sf ret x s')
  then have r: "mb_ok i s'" "(ret, x, mb_view s' i) =
      (if th_error (threads s t) \<noteq> RT_EOK then (Done (th_error (threads s t)), None, mb_view s i)
       else mb_spec_recv (wait_order (mb_flag (mailboxes s i)) s t) (ipc_time_left timeout tick0 (tick s)) (mb_view s i))"
    using rt_mb_resume_refines(2,4) [of i s t timeout tick0 sf] by simp_all
  from mb_resume_contents(2) [OF r(2)] r(1) recv_resume.IH [OF recv_resume.prems]
  show ?case by (auto split: option.splits)
next
  case (other sent got s s')
  then show ?case by (simp add: mb_ok_def)
qed simp

theorem rt_mb_delivers_in_order_witness:
  "case rt_mb_send_enter 0 7 0 RT_UNINTERRUPTIBLE 1 demo_kernel of (ret, s') \<Rightarrow>
     ret = Done RT_EOK \<and> mb_contents (mailboxes s' 0) = [7]"
proof -
  obtain r1 s1 where a: "rt_mb_send_enter 0 7 0 RT_UNINTERRUPTIBLE 1 demo_kernel = (r1, s1)" by fastforce
  have r1: "r1 = Done RT_EOK"
    using rt_mb_send_enter_refines(2) [OF demo_mb_ok(1-3), of 7 0 RT_UNINTERRUPTIBLE] a demo_mb_ok(4,5) by simp
  have "mb_trace 0 demo_kernel [7] [] s1"
    using mb_trace.send [OF mb_trace.start demo_mb_ok(2,3) a] r1 by simp
  from rt_mb_delivers_in_order [OF this demo_mb_ok(1)] show ?thesis
    using a r1 demo_mb_ok(4) by (simp add: mb_view_def)
qed

section \<open>Detaching and resetting\<close>

lemma mb_resume_all:
  fixes i :: nat
  assumes "kok s" and "nest_ok s"
  defines "s2 \<equiv> snd (rt_susp_list_resume_all (Mb_Send_Q i) RT_ERROR
    (snd (rt_susp_list_resume_all (Mb_Q i) RT_ERROR (rt_enter_critical s))))"
  shows "kok s2" "queues s2 (Mb_Q i) = []" "queues s2 (Mb_Send_Q i) = []" "mailboxes s2 = mailboxes s"
    "t \<in> set (queues s (Mb_Q i)) \<union> set (queues s (Mb_Send_Q i)) \<Longrightarrow> \<not> susp s2 t \<and> th_error (threads s2 t) = RT_ERROR"
proof -
  have l: "locked (rt_enter_critical s)" "kok (rt_enter_critical s)" using assms nest_ok_locked by simp_all
  note a = rt_susp_list_resume_all_locked [OF l is_wait_q_simps(4) [of i], where e = RT_ERROR]
  note b = rt_susp_list_resume_all_locked [OF a(2,1) is_wait_q_simps(5) [of i], where e = RT_ERROR]
  show "kok s2" "queues s2 (Mb_Q i) = []" "queues s2 (Mb_Send_Q i) = []" "mailboxes s2 = mailboxes s"
    using a b by (simp_all add: s2_def)
  show "\<not> susp s2 t \<and> th_error (threads s2 t) = RT_ERROR"
    if "t \<in> set (queues s (Mb_Q i)) \<union> set (queues s (Mb_Send_Q i))"
    using that a(5-7) b(6,7) by (auto simp: s2_def RT_ERROR_def)
qed

lemma rt_mb_reset_result:
  assumes "mb_ok i s" and "nest_ok s"
  shows "mb_ok i (snd (rt_mb_control i True s))" "mb_view (snd (rt_mb_control i True s)) i = ([], [], [])"
proof -
  have k: "kok s" using assms(1) by (simp add: mb_ok_def)
  note r = mb_resume_all [OF k assms(2), where i = i]
  let ?s3 = "upd_mb i (\<lambda>mb. mb\<lparr>mb_entry := 0, mb_in_offset := 0, mb_out_offset := 0\<rparr>)
    (snd (rt_susp_list_resume_all (Mb_Send_Q i) RT_ERROR
      (snd (rt_susp_list_resume_all (Mb_Q i) RT_ERROR (rt_enter_critical s)))))"
  have k3: "kok ?s3" using r(1) by simp
  have "mb_inv (mailboxes ?s3 i)" using assms(1) r(4) by (simp add: mb_ok_def mb_inv_def)
  then have m3: "mb_ok i (rt_exit_critical ?s3)" using exit_mb(1,2) [OF k3] by (simp add: mb_ok_def)
  show "mb_ok i (snd (rt_mb_control i True s))"
    using schedule_mb(1) [OF m3] by (simp add: rt_mb_control_def spin_defs Let_def)
  show "mb_view (snd (rt_mb_control i True s)) i = ([], [], [])"
    using schedule_mb(2) [OF m3] exit_mb(3) [OF k3, of i] r(2,3)
    by (simp add: rt_mb_control_def spin_defs Let_def mb_view_def mb_contents_def)
qed

text \<open>A thread that waits in a mailbox when it is detached is woken, but its call returns the positive
  \<^verbatim>\<open>RT_ERROR\<close> that was stored in its control block and not a negative error code.\<close>

theorem rt_mb_detach_positive_error:
  assumes "mb_ok i s" and "nest_ok s"
  shows "let s' = snd (rt_mb_detach i s) in
    (\<forall>t. t \<in> set (queues s (Mb_Q i)) \<longrightarrow> \<not> susp s' t \<and> fst (rt_mb_recv_resume i timeout tick0 sf t s') = Done RT_ERROR) \<and>
    (\<forall>t. t \<in> set (queues s (Mb_Send_Q i)) \<longrightarrow>
       \<not> susp s' t \<and> fst (rt_mb_send_resume i v timeout tick0 sf t s') = Done RT_ERROR) \<and>
    RT_ERROR > 0"
proof -
  have k: "kok s" using assms(1) by (simp add: mb_ok_def)
  note r = mb_resume_all [OF k assms(2), where i = i]
  note f = resched_fields [OF rt_exit_critical_resched [OF kokD(1) [OF r(1)]]]
  note g = resched_fields [OF rt_schedule_resched [OF f(1)]]
  have "\<not> susp (snd (rt_mb_detach i s)) t \<and> th_error (threads (rt_schedule (snd (rt_mb_detach i s))) t) = RT_ERROR"
    if "t \<in> set (queues s (Mb_Q i)) \<union> set (queues s (Mb_Send_Q i))" for t
    using r(5) [OF that] f(2,5) g(5) by (simp add: rt_mb_detach_def spin_defs Let_def)
  then show ?thesis
    by (auto simp: Let_def rt_mb_recv_resume_def rt_mb_send_resume_def rt_err_defs)
qed

theorem rt_mb_detach_positive_error_witness:
  "fst (rt_mb_recv_resume 0 10 0 RT_UNINTERRUPTIBLE 4 (snd (rt_mb_detach 0 (demo_blocked (Mb_Q 0) 0 0)))) = Done 1"
proof -
  note d = demo_blocked_kok [of "Mb_Q 0" 0 0, simplified]
  have "mb_ok 0 (demo_blocked (Mb_Q 0) 0 0)"
    using d(1) by (simp add: mb_ok_def mb_inv_def) (simp add: demo_blocked_def demo_kernel_def)
  from rt_mb_detach_positive_error [OF this d(2), of 10 0 RT_UNINTERRUPTIBLE] d(3) show ?thesis
    by (auto simp: Let_def RT_ERROR_def)
qed

end
