(* ===== verification/Free_List.thy ===== *)
theory Free_List
  imports Rt_Prelude
begin

text \<open>
  Singly linked lists of blocks that end in \<^verbatim>\<open>RT_NULL\<close>, as the memory pools and the message queues keep them: the link is
  a word in the block itself, here a function from block addresses to addresses.
\<close>

fun chain :: "(addr \<Rightarrow> addr) \<Rightarrow> addr \<Rightarrow> addr list \<Rightarrow> bool" where
  "chain nxt a [] \<longleftrightarrow> a = 0"
| "chain nxt a (x # xs) \<longleftrightarrow> a = x \<and> x \<noteq> 0 \<and> chain nxt (nxt x) xs"

text \<open>The nodes reached from \<open>a\<close>, at most \<open>n\<close> of them.\<close>

fun follow :: "(addr \<Rightarrow> addr) \<Rightarrow> nat \<Rightarrow> addr \<Rightarrow> addr list" where
  "follow nxt 0 a = []"
| "follow nxt (Suc n) a = (if a = 0 then [] else a # follow nxt n (nxt a))"

lemma chain_frame: "(\<And>x. x \<in> set xs \<Longrightarrow> nxt' x = nxt x) \<Longrightarrow> chain nxt' a xs = chain nxt a xs"
  by (induction xs arbitrary: a) auto

lemma chain_upd [simp]: "x \<notin> set xs \<Longrightarrow> chain (nxt(x := y)) a xs = chain nxt a xs"
  by (rule chain_frame) auto

lemma chain_follow: "chain nxt a xs \<Longrightarrow> length xs \<le> n \<Longrightarrow> follow nxt n a = xs"
proof (induction xs arbitrary: a n)
  case Nil
  then show ?case by (cases n) auto
next
  case (Cons x xs)
  then show ?case by (cases n) auto
qed

lemma chain_unique: "chain nxt a xs \<Longrightarrow> chain nxt a ys \<Longrightarrow> xs = ys"
  using chain_follow [of nxt a xs "max (length xs) (length ys)"] chain_follow [of nxt a ys "max (length xs) (length ys)"]
  by simp

lemma chain_head: "chain nxt a xs \<Longrightarrow> a = 0 \<longleftrightarrow> xs = []"
  by (cases xs) auto

lemma chain_snoc:
  "chain nxt a (xs @ [y]) \<Longrightarrow> z \<noteq> 0 \<Longrightarrow> z \<notin> set (xs @ [y]) \<Longrightarrow> distinct (xs @ [y]) \<Longrightarrow> nxt z = 0 \<Longrightarrow>
   chain (nxt(y := z)) a (xs @ [y, z])"
  by (induction xs arbitrary: a) auto

lemma chain_last: "chain nxt a (xs @ [y]) \<Longrightarrow> nxt y = 0"
  by (induction xs arbitrary: a) auto

lemma chain_iff_nth:
  "chain nxt a xs \<longleftrightarrow> a = (if xs = [] then 0 else xs ! 0) \<and> 0 \<notin> set xs \<and>
     (\<forall>i<length xs. nxt (xs ! i) = (if Suc i < length xs then xs ! Suc i else 0))"
proof (induction xs arbitrary: a)
  case (Cons x xs)
  show ?case
    by (auto simp: Cons.IH nth_Cons All_less_Suc2 split: nat.splits)
qed simp

end
