(* ===== verification/Messagequeue.thy ===== *)
theory Messagequeue
  imports Ipc_Base Kstring Free_List
begin

unbundle bit_operations_syntax

text \<open>
  Message queues, \<^verbatim>\<open>src/ipc.c\<close>.  The pool of a queue is cut into slots; each starts with a header
  (\<^verbatim>\<open>struct rt_mq_message\<close>: the link and the length, here \<open>mq_msg_next\<close> and \<open>mq_msg_length\<close>) and holds the bytes of one
  message after it.  A slot is in the list of free slots, in the list of messages, or in the hands of a call.

  The calls copy the bytes with interrupts enabled, between two critical sections.  A send is therefore three steps:
  \<open>rt_mq_send_enter\<close> (or \<open>_resume\<close> after a wait) takes a free slot, \<open>mq_fill\<close> copies the message into it, \<open>mq_link\<close> appends it.  A
  receive is \<open>rt_mq_recv_enter\<close> (or \<open>_resume\<close>), which takes the oldest message off, \<open>mq_copy\<close> and \<open>mq_release\<close>.  The steps of
  other calls can come in between.

  The theorems show that in every interleaving the queue behaves as a sequence of byte strings: no message is lost,
  doubled, reordered or damaged.
\<close>

section \<open>Operations\<close>

definition RT_MQ_ENTRY_MAX :: nat where "RT_MQ_ENTRY_MAX = 65535"

text \<open>The header of a message is two words long.\<close>

definition SIZEOF_MQ_MESSAGE :: nat where "SIZEOF_MQ_MESSAGE = 8"

definition GET_MESSAGEBYTE_ADDR :: "addr \<Rightarrow> addr" where
  "GET_MESSAGEBYTE_ADDR msg = msg + SIZEOF_MQ_MESSAGE"

definition upd_mq :: "nat \<Rightarrow> (rt_messagequeue \<Rightarrow> rt_messagequeue) \<Rightarrow> kernel \<Rightarrow> kernel" where
  "upd_mq i f s = s\<lparr>mqueues := (mqueues s)(i := f (mqueues s i))\<rparr>"

text \<open>The loop that puts every slot into the list of free slots.\<close>

fun mq_free_loop :: "nat \<Rightarrow> nat \<Rightarrow> nat \<Rightarrow> rt_messagequeue \<Rightarrow> rt_messagequeue" where
  "mq_free_loop stride temp 0 mq = mq"
| "mq_free_loop stride temp (Suc n) mq =
     (let head = u32 (mq_msg_pool mq + temp * stride)
      in mq_free_loop stride (temp + 1) n
           (mq\<lparr>mq_msg_next := (mq_msg_next mq)(head := mq_queue_free mq), mq_queue_free := head\<rparr>))"

text \<open>\<^verbatim>\<open>msg_size\<close> and \<^verbatim>\<open>max_msgs\<close> are 16-bit fields.  The headers before are whatever the memory holds.  (The division is
  by zero, undefined in C, only for a message size within sixteen bytes of \<open>2 ^ 32\<close>.)\<close>

definition rt_mq_init ::
    "nat \<Rightarrow> addr \<Rightarrow> nat \<Rightarrow> nat \<Rightarrow> u8 \<Rightarrow> (addr \<Rightarrow> addr) \<Rightarrow> (addr \<Rightarrow> nat) \<Rightarrow> kernel \<Rightarrow> rt_err_t \<times> kernel" where
  "rt_mq_init i msgpool msg_sz pool_sz flag next0 len0 s =
     (let msg_align_size = RT_ALIGN msg_sz RT_ALIGN_SIZE;
          stride = u32_add msg_align_size SIZEOF_MQ_MESSAGE;
          old = mqueues s i;
          mq = old\<lparr>mq_flag := flag, mq_msg_pool := msgpool, mq_msg_size := msg_sz mod 2 ^ 16,
                 mq_max_msgs := pool_sz div stride mod 2 ^ 16, mq_msg_next := next0, mq_msg_length := len0\<rparr>;
          s1 = s\<lparr>queues := (queues s)(Mq_Q i := [])\<rparr>
      in if mq_max_msgs mq = 0 then (- RT_EINVAL, upd_mq i (\<lambda>_. mq) s1)
         else
           (let mq1 = mq\<lparr>mq_queue_head := 0, mq_queue_tail := 0, mq_queue_free := 0\<rparr>;
                mq2 = mq_free_loop stride 0 (mq_max_msgs mq1) mq1
            in (RT_EOK, (upd_mq i (\<lambda>_. mq2\<lparr>mq_entry := 0\<rparr>) s1)
                  \<lparr>queues := (queues s1)(Mq_Send_Q i := [])\<rparr>)))"

definition rt_mq_detach :: "nat \<Rightarrow> kernel \<Rightarrow> rt_err_t \<times> kernel" where
  "rt_mq_detach i s =
     (let s1 = snd (rt_susp_list_resume_all (Mq_Q i) RT_ERROR (rt_spin_lock_irqsave s));
          s2 = snd (rt_susp_list_resume_all (Mq_Send_Q i) RT_ERROR s1)
      in (RT_EOK, rt_spin_unlock_irqrestore s2))"

subsection \<open>Sending\<close>

definition mq_reserve :: "rt_messagequeue \<Rightarrow> rt_messagequeue" where
  "mq_reserve mq = mq\<lparr>mq_queue_free := mq_msg_next mq (mq_queue_free mq)\<rparr>"

text \<open>From the loop condition to the end of the first critical section: an error, a slot (\<open>Inr\<close>) or a wait.\<close>

definition mq_send_loop :: "nat \<Rightarrow> int \<Rightarrow> suspend_flag \<Rightarrow> tid \<Rightarrow> kernel \<Rightarrow> (rt_err_t + addr) outcome \<times> kernel" where
  "mq_send_loop i timeout suspend_flag thread s =
     (let msg = mq_queue_free (mqueues s i)
      in if msg = 0 then
           (let s1 = set_th_error thread (- RT_EINTR) s
            in if timeout = 0 then (Done (Inl (- RT_EFULL)), rt_spin_unlock_irqrestore s1)
               else
                 (let (ret, s2) = ipc_suspend (Mq_Send_Q i) (mq_flag (mqueues s1 i)) suspend_flag timeout thread s1
                  in (if ret \<noteq> RT_EOK then Done (Inl ret) else Blocked, rt_spin_unlock_irqrestore s2)))
         else (Done (Inr msg), rt_spin_unlock_irqrestore (upd_mq i mq_reserve s)))"

definition rt_mq_send_enter ::
    "nat \<Rightarrow> nat \<Rightarrow> int \<Rightarrow> suspend_flag \<Rightarrow> tid \<Rightarrow> kernel \<Rightarrow> (rt_err_t + addr) outcome \<times> kernel" where
  "rt_mq_send_enter i sz timeout suspend_flag thread s =
     (if sz > mq_msg_size (mqueues s i) then (Done (Inl (- RT_ERROR)), s)
      else
        (let s1 = rt_spin_lock_irqsave s
         in if mq_queue_free (mqueues s1 i) = 0 \<and> timeout = 0
            then (Done (Inl (- RT_EFULL)), rt_spin_unlock_irqrestore s1)
            else mq_send_loop i timeout suspend_flag thread s1))"

definition rt_mq_send_resume ::
    "nat \<Rightarrow> int \<Rightarrow> rt_tick_t \<Rightarrow> suspend_flag \<Rightarrow> tid \<Rightarrow> kernel \<Rightarrow> (rt_err_t + addr) outcome \<times> kernel" where
  "rt_mq_send_resume i timeout tick_delta suspend_flag thread s =
     (let s1 = rt_schedule s
      in if th_error (threads s1 thread) \<noteq> RT_EOK then (Done (Inl (th_error (threads s1 thread))), s1)
         else
           (let s2 = rt_spin_lock_irqsave s1
            in mq_send_loop i (ipc_time_left timeout tick_delta (tick s2)) suspend_flag thread s2))"

definition mq_fill :: "nat \<Rightarrow> addr \<Rightarrow> addr \<Rightarrow> nat \<Rightarrow> kernel \<Rightarrow> kernel" where
  "mq_fill i msg buffer sz s =
     (let s1 = upd_mq i (\<lambda>mq. mq\<lparr>mq_msg_next := (mq_msg_next mq)(msg := 0),
                 mq_msg_length := (mq_msg_length mq)(msg := sz)\<rparr>) s
      in s1\<lparr>kmem := snd (rt_memcpy (kmem s1) (GET_MESSAGEBYTE_ADDR msg) buffer sz)\<rparr>)"

definition mq_append :: "addr \<Rightarrow> rt_messagequeue \<Rightarrow> bool \<times> rt_messagequeue" where
  "mq_append msg mq =
     (let mq1 = (if mq_queue_tail mq \<noteq> 0 then mq\<lparr>mq_msg_next := (mq_msg_next mq)(mq_queue_tail mq := msg)\<rparr> else mq);
          mq2 = mq1\<lparr>mq_queue_tail := msg\<rparr>;
          mq3 = (if mq_queue_head mq2 = 0 then mq2\<lparr>mq_queue_head := msg\<rparr> else mq2)
      in if mq_entry mq3 < RT_MQ_ENTRY_MAX then (True, mq3\<lparr>mq_entry := mq_entry mq3 + 1\<rparr>) else (False, mq3))"

definition mq_prepend :: "addr \<Rightarrow> rt_messagequeue \<Rightarrow> bool \<times> rt_messagequeue" where
  "mq_prepend msg mq =
     (let mq1 = mq\<lparr>mq_msg_next := (mq_msg_next mq)(msg := mq_queue_head mq), mq_queue_head := msg\<rparr>;
          mq2 = (if mq_queue_tail mq1 = 0 then mq1\<lparr>mq_queue_tail := msg\<rparr> else mq1)
      in if mq_entry mq2 < RT_MQ_ENTRY_MAX then (True, mq2\<lparr>mq_entry := mq_entry mq2 + 1\<rparr>) else (False, mq2))"

text \<open>The second critical section of a send and of an urgent send.\<close>

definition mq_link_with ::
    "(addr \<Rightarrow> rt_messagequeue \<Rightarrow> bool \<times> rt_messagequeue) \<Rightarrow> nat \<Rightarrow> addr \<Rightarrow> kernel \<Rightarrow> rt_err_t \<times> kernel" where
  "mq_link_with ins i msg s =
     (let s1 = rt_spin_lock_irqsave s;
          (ok, mq) = ins msg (mqueues s1 i);
          s2 = upd_mq i (\<lambda>_. mq) s1
      in if ok then (RT_EOK, ipc_wake_leave (Mq_Q i) s2) else (- RT_EFULL, rt_spin_unlock_irqrestore s2))"

definition mq_link :: "nat \<Rightarrow> addr \<Rightarrow> kernel \<Rightarrow> rt_err_t \<times> kernel" where
  "mq_link = mq_link_with mq_append"

definition mq_link_urgent :: "nat \<Rightarrow> addr \<Rightarrow> kernel \<Rightarrow> rt_err_t \<times> kernel" where
  "mq_link_urgent = mq_link_with mq_prepend"

definition rt_mq_urgent_enter :: "nat \<Rightarrow> nat \<Rightarrow> kernel \<Rightarrow> (rt_err_t + addr) \<times> kernel" where
  "rt_mq_urgent_enter i sz s =
     (if sz > mq_msg_size (mqueues s i) then (Inl (- RT_ERROR), s)
      else
        (let s1 = rt_spin_lock_irqsave s;
             msg = mq_queue_free (mqueues s1 i)
         in if msg = 0 then (Inl (- RT_EFULL), rt_spin_unlock_irqrestore s1)
            else (Inr msg, rt_spin_unlock_irqrestore (upd_mq i mq_reserve s1))))"

definition mq_fill_urgent :: "nat \<Rightarrow> addr \<Rightarrow> addr \<Rightarrow> nat \<Rightarrow> kernel \<Rightarrow> kernel" where
  "mq_fill_urgent i msg buffer sz s =
     (let s1 = upd_mq i (\<lambda>mq. mq\<lparr>mq_msg_length := (mq_msg_length mq)(msg := sz)\<rparr>) s
      in s1\<lparr>kmem := snd (rt_memcpy (kmem s1) (GET_MESSAGEBYTE_ADDR msg) buffer sz)\<rparr>)"

subsection \<open>Receiving\<close>

definition mq_unlink :: "rt_messagequeue \<Rightarrow> addr \<times> rt_messagequeue" where
  "mq_unlink mq =
     (let msg = mq_queue_head mq;
          mq1 = mq\<lparr>mq_queue_head := mq_msg_next mq msg\<rparr>;
          mq2 = (if mq_queue_tail mq1 = msg then mq1\<lparr>mq_queue_tail := 0\<rparr> else mq1)
      in (msg, if mq_entry mq2 > 0 then mq2\<lparr>mq_entry := mq_entry mq2 - 1\<rparr> else mq2))"

definition mq_recv_loop :: "nat \<Rightarrow> int \<Rightarrow> suspend_flag \<Rightarrow> tid \<Rightarrow> kernel \<Rightarrow> (rt_err_t + addr) outcome \<times> kernel" where
  "mq_recv_loop i timeout suspend_flag thread s =
     (if mq_entry (mqueues s i) = 0 then
        (let s1 = set_th_error thread (- RT_EINTR) s
         in if timeout = 0 then
              (Done (Inl (- RT_ETIMEOUT)), set_th_error thread (- RT_ETIMEOUT) (rt_spin_unlock_irqrestore s1))
            else
              (let (ret, s2) = ipc_suspend (Mq_Q i) (mq_flag (mqueues s1 i)) suspend_flag timeout thread s1
               in (if ret \<noteq> RT_EOK then Done (Inl ret) else Blocked, rt_spin_unlock_irqrestore s2)))
      else
        (let (msg, mq) = mq_unlink (mqueues s i)
         in (Done (Inr msg), rt_spin_unlock_irqrestore (upd_mq i (\<lambda>_. mq) s))))"

definition rt_mq_recv_enter ::
    "nat \<Rightarrow> int \<Rightarrow> suspend_flag \<Rightarrow> tid \<Rightarrow> kernel \<Rightarrow> (rt_err_t + addr) outcome \<times> kernel" where
  "rt_mq_recv_enter i timeout suspend_flag thread s =
     (let s1 = rt_spin_lock_irqsave s
      in if mq_entry (mqueues s1 i) = 0 \<and> timeout = 0
         then (Done (Inl (- RT_ETIMEOUT)), rt_spin_unlock_irqrestore s1)
         else mq_recv_loop i timeout suspend_flag thread s1)"

definition rt_mq_recv_resume ::
    "nat \<Rightarrow> int \<Rightarrow> rt_tick_t \<Rightarrow> suspend_flag \<Rightarrow> tid \<Rightarrow> kernel \<Rightarrow> (rt_err_t + addr) outcome \<times> kernel" where
  "rt_mq_recv_resume i timeout tick_delta suspend_flag thread s =
     (let s1 = rt_schedule s
      in if th_error (threads s1 thread) \<noteq> RT_EOK then (Done (Inl (th_error (threads s1 thread))), s1)
         else
           (let s2 = rt_spin_lock_irqsave s1
            in mq_recv_loop i (ipc_time_left timeout tick_delta (tick s2)) suspend_flag thread s2))"

definition mq_copy :: "nat \<Rightarrow> addr \<Rightarrow> addr \<Rightarrow> nat \<Rightarrow> kernel \<Rightarrow> nat \<times> kernel" where
  "mq_copy i msg buffer sz s =
     (let len0 = mq_msg_length (mqueues s i) msg;
          len = (if len0 > sz then sz else len0)
      in (len, s\<lparr>kmem := snd (rt_memcpy (kmem s) buffer (GET_MESSAGEBYTE_ADDR msg) len)\<rparr>))"

definition mq_release :: "nat \<Rightarrow> addr \<Rightarrow> kernel \<Rightarrow> kernel" where
  "mq_release i msg s =
     ipc_wake_leave (Mq_Send_Q i)
       (upd_mq i (\<lambda>mq. mq\<lparr>mq_msg_next := (mq_msg_next mq)(msg := mq_queue_free mq), mq_queue_free := msg\<rparr>)
         (rt_spin_lock_irqsave s))"

subsection \<open>Calls that are not preempted\<close>

text \<open>The calls as a whole, when nothing comes between their steps; a positive result of a receive is the length.\<close>

definition rt_mq_send :: "nat \<Rightarrow> addr \<Rightarrow> nat \<Rightarrow> tid \<Rightarrow> kernel \<Rightarrow> rt_err_t outcome \<times> kernel" where
  "rt_mq_send i buffer sz thread s =
     (case rt_mq_send_enter i sz 0 RT_UNINTERRUPTIBLE thread s of
        (Done (Inr msg), s1) \<Rightarrow> (let (ret, s2) = mq_link i msg (mq_fill i msg buffer sz s1) in (Done ret, s2))
      | (Done (Inl ret), s1) \<Rightarrow> (Done ret, s1)
      | (Blocked, s1) \<Rightarrow> (Blocked, s1))"

definition rt_mq_urgent :: "nat \<Rightarrow> addr \<Rightarrow> nat \<Rightarrow> kernel \<Rightarrow> rt_err_t \<times> kernel" where
  "rt_mq_urgent i buffer sz s =
     (case rt_mq_urgent_enter i sz s of
        (Inr msg, s1) \<Rightarrow> mq_link_urgent i msg (mq_fill_urgent i msg buffer sz s1)
      | (Inl ret, s1) \<Rightarrow> (ret, s1))"

definition mq_recv_rest :: "nat \<Rightarrow> addr \<Rightarrow> nat \<Rightarrow> (rt_err_t + addr) outcome \<times> kernel \<Rightarrow> int outcome \<times> kernel" where
  "mq_recv_rest i buffer sz r =
     (case r of
        (Done (Inr msg), s1) \<Rightarrow> (let (len, s2) = mq_copy i msg buffer sz s1 in (Done (int len), mq_release i msg s2))
      | (Done (Inl ret), s1) \<Rightarrow> (Done ret, s1)
      | (Blocked, s1) \<Rightarrow> (Blocked, s1))"

definition rt_mq_recv :: "nat \<Rightarrow> addr \<Rightarrow> nat \<Rightarrow> int \<Rightarrow> tid \<Rightarrow> kernel \<Rightarrow> int outcome \<times> kernel" where
  "rt_mq_recv i buffer sz timeout thread s =
     mq_recv_rest i buffer sz (rt_mq_recv_enter i timeout RT_UNINTERRUPTIBLE thread s)"

subsection \<open>Resetting\<close>

partial_function (option) mq_reset_loop :: "rt_messagequeue \<Rightarrow> rt_messagequeue option" where
  "mq_reset_loop mq =
     (if mq_queue_head mq = 0 then Some mq
      else
        (let msg = mq_queue_head mq;
             mq1 = mq\<lparr>mq_queue_head := mq_msg_next mq msg\<rparr>;
             mq2 = (if mq_queue_tail mq1 = msg then mq1\<lparr>mq_queue_tail := 0\<rparr> else mq1)
         in mq_reset_loop (mq2\<lparr>mq_msg_next := (mq_msg_next mq2)(msg := mq_queue_free mq2), mq_queue_free := msg\<rparr>)))"

declare mq_reset_loop.simps [code]

definition rt_mq_control :: "nat \<Rightarrow> bool \<Rightarrow> kernel \<Rightarrow> (rt_err_t \<times> kernel) option" where
  "rt_mq_control i reset s =
     (if reset then
        (let s1 = snd (rt_susp_list_resume_all (Mq_Q i) RT_ERROR (rt_spin_lock_irqsave s));
             s2 = snd (rt_susp_list_resume_all (Mq_Send_Q i) RT_ERROR s1)
         in case mq_reset_loop (mqueues s2 i) of
              None \<Rightarrow> None
            | Some mq \<Rightarrow> Some (RT_EOK, rt_schedule (rt_spin_unlock_irqrestore (upd_mq i (\<lambda>_. mq\<lparr>mq_entry := 0\<rparr>) s2))))
      else Some (- RT_ERROR, s))"

section \<open>The invariant\<close>

definition mq_stride :: "rt_messagequeue \<Rightarrow> nat" where
  "mq_stride mq = RT_ALIGN (mq_msg_size mq) 8 + SIZEOF_MQ_MESSAGE"

definition mq_slots :: "rt_messagequeue \<Rightarrow> addr list" where
  "mq_slots mq = map (\<lambda>k. mq_msg_pool mq + k * mq_stride mq) [0..<mq_max_msgs mq]"

text \<open>The messages, oldest first, as slots.\<close>

definition mq_msgs :: "rt_messagequeue \<Rightarrow> addr list" where
  "mq_msgs mq = follow (mq_msg_next mq) (mq_max_msgs mq) (mq_queue_head mq)"

text \<open>The messages are \<open>qs\<close>, the free slots \<open>fs\<close>, and calls hold the slots \<open>us\<close>.\<close>

definition mq_lists :: "rt_messagequeue \<Rightarrow> addr list \<Rightarrow> addr list \<Rightarrow> addr set \<Rightarrow> bool" where
  "mq_lists mq qs fs us \<longleftrightarrow>
     chain (mq_msg_next mq) (mq_queue_head mq) qs \<and> mq_queue_tail mq = (if qs = [] then 0 else last qs) \<and>
     chain (mq_msg_next mq) (mq_queue_free mq) fs \<and> distinct (qs @ fs) \<and> set (qs @ fs) \<inter> us = {} \<and>
     set (mq_slots mq) = set (qs @ fs) \<union> us \<and> mq_entry mq = length qs \<and>
     0 < mq_msg_pool mq \<and> mq_msg_pool mq + mq_max_msgs mq * mq_stride mq \<le> 2 ^ 32 \<and>
     mq_max_msgs mq < 2 ^ 16 \<and> mq_msg_size mq < 2 ^ 16"

definition mq_inv :: "rt_messagequeue \<Rightarrow> addr set \<Rightarrow> bool" where
  "mq_inv mq us \<longleftrightarrow> (\<exists>fs. mq_lists mq (mq_msgs mq) fs us)"

lemma mq_distinct_slots: "distinct (mq_slots mq)"
  by (simp add: mq_slots_def distinct_map inj_on_def mq_stride_def SIZEOF_MQ_MESSAGE_def)

lemma mq_lists_msgs: "mq_lists mq qs fs us \<Longrightarrow> mq_msgs mq = qs"
proof -
  assume l: "mq_lists mq qs fs us"
  then have "set qs \<subseteq> set (mq_slots mq)" "distinct qs" by (auto simp: mq_lists_def)
  then have "length qs \<le> length (mq_slots mq)"
    using card_mono [of "set (mq_slots mq)" "set qs"] distinct_card [of qs] distinct_card [OF mq_distinct_slots [of mq]]
    by simp
  then show ?thesis using l chain_follow by (simp add: mq_lists_def mq_msgs_def mq_slots_def)
qed

lemma mq_invI: "mq_lists mq qs fs us \<Longrightarrow> mq_inv mq us"
  using mq_lists_msgs by (auto simp: mq_inv_def)

lemma mq_slot:
  assumes "mq_inv mq us" and "a \<in> us"
  shows "a \<noteq> 0" and "a \<notin> set (mq_msgs mq)" and "mq_entry mq < mq_max_msgs mq"
proof -
  obtain fs where l: "mq_lists mq (mq_msgs mq) fs us" using assms(1) by (auto simp: mq_inv_def)
  have a: "a \<in> set (mq_slots mq)" using l assms(2) by (auto simp: mq_lists_def)
  moreover have "0 < mq_msg_pool mq" using l by (simp add: mq_lists_def)
  ultimately show "a \<noteq> 0" by (auto simp: mq_slots_def)
  show n: "a \<notin> set (mq_msgs mq)" using l assms(2) by (auto simp: mq_lists_def)
  have "set (mq_msgs mq) \<subset> set (mq_slots mq)" using l a n by (auto simp: mq_lists_def)
  from psubset_card_mono [OF finite_set this] show "mq_entry mq < mq_max_msgs mq"
    using l distinct_card [of "mq_msgs mq"] distinct_card [OF mq_distinct_slots [of mq]]
    by (simp add: mq_lists_def mq_slots_def)
qed

subsection \<open>The list operations\<close>

lemma mq_reserve_result:
  assumes "mq_inv mq us" and "mq_queue_free mq \<noteq> 0"
  shows "mq_inv (mq_reserve mq) (insert (mq_queue_free mq) us)" and "mq_msgs (mq_reserve mq) = mq_msgs mq"
    and "mq_queue_free mq \<notin> us" and "mq_queue_free mq \<in> set (mq_slots mq)"
proof -
  obtain fs where l: "mq_lists mq (mq_msgs mq) fs us" using assms(1) by (auto simp: mq_inv_def)
  then obtain b gs where fs: "fs = b # gs" using assms(2) by (cases fs) (auto simp: mq_lists_def)
  have b: "mq_queue_free mq = b" using l fs by (simp add: mq_lists_def)
  have "mq_lists (mq_reserve mq) (mq_msgs mq) gs (insert b us)"
    using l fs b by (auto simp: mq_lists_def mq_reserve_def mq_slots_def mq_stride_def)
  from mq_invI [OF this] mq_lists_msgs [OF this] b
  show "mq_inv (mq_reserve mq) (insert (mq_queue_free mq) us)" "mq_msgs (mq_reserve mq) = mq_msgs mq" by simp_all
  show "mq_queue_free mq \<notin> us" "mq_queue_free mq \<in> set (mq_slots mq)" using l fs b by (auto simp: mq_lists_def)
qed

lemma mq_inv_upd_held:
  assumes "mq_inv mq us" and "a \<in> us"
  shows "mq_inv (mq\<lparr>mq_msg_next := (mq_msg_next mq)(a := x), mq_msg_length := len\<rparr>) us"
    and "mq_msgs (mq\<lparr>mq_msg_next := (mq_msg_next mq)(a := x), mq_msg_length := len\<rparr>) = mq_msgs mq"
proof -
  obtain fs where l: "mq_lists mq (mq_msgs mq) fs us" using assms(1) by (auto simp: mq_inv_def)
  then have a: "a \<notin> set (mq_msgs mq)" "a \<notin> set fs" using assms(2) by (auto simp: mq_lists_def)
  then have "mq_lists (mq\<lparr>mq_msg_next := (mq_msg_next mq)(a := x), mq_msg_length := len\<rparr>) (mq_msgs mq) fs us"
    using l by (simp add: mq_lists_def mq_slots_def mq_stride_def)
  from mq_invI [OF this] mq_lists_msgs [OF this]
  show "mq_inv (mq\<lparr>mq_msg_next := (mq_msg_next mq)(a := x), mq_msg_length := len\<rparr>) us"
    "mq_msgs (mq\<lparr>mq_msg_next := (mq_msg_next mq)(a := x), mq_msg_length := len\<rparr>) = mq_msgs mq" .
qed

lemma mq_append_result:
  assumes "mq_inv mq us" and "a \<in> us" and "mq_msg_next mq a = 0"
  shows "fst (mq_append a mq)" and "mq_inv (snd (mq_append a mq)) (us - {a})"
    and "mq_msgs (snd (mq_append a mq)) = mq_msgs mq @ [a]"
proof -
  define qs where "qs = mq_msgs mq"
  obtain fs where l: "mq_lists mq qs fs us" using assms(1) by (auto simp: mq_inv_def qs_def)
  note a = mq_slot [OF assms(1,2)]
  have f: "a \<notin> set fs" "a \<notin> set qs" using l assms(2) by (auto simp: mq_lists_def)
  have e: "mq_entry mq < RT_MQ_ENTRY_MAX" using l a(3) by (simp add: mq_lists_def RT_MQ_ENTRY_MAX_def)
  then show "fst (mq_append a mq)" by (simp add: mq_append_def Let_def)
  have "mq_lists (snd (mq_append a mq)) (qs @ [a]) fs (us - {a})"
  proof (cases qs rule: rev_cases)
    case Nil
    then show ?thesis
      using l assms(2,3) a(1) f e by (auto simp: mq_lists_def mq_append_def Let_def mq_slots_def mq_stride_def)
  next
    case (snoc ys y)
    have ch: "chain (mq_msg_next mq) (mq_queue_head mq) (ys @ [y])" "distinct (ys @ [y])" "mq_queue_tail mq = y"
      using l snoc by (auto simp: mq_lists_def)
    have y: "y \<noteq> 0" "y \<notin> set fs" "mq_queue_head mq \<noteq> 0"
      using l snoc chain_iff_nth [of "mq_msg_next mq" "mq_queue_head mq" "ys @ [y]"] chain_head [OF ch(1)]
      by (auto simp: mq_lists_def)
    have "chain ((mq_msg_next mq)(y := a)) (mq_queue_head mq) (ys @ [y, a])"
      by (rule chain_snoc) (use ch a(1) f(2) assms(3) snoc in auto)
    then show ?thesis
      using l assms(2) a(1) f e y ch(3) snoc by (auto simp: mq_lists_def mq_append_def Let_def mq_slots_def mq_stride_def)
  qed
  from mq_invI [OF this] mq_lists_msgs [OF this] show "mq_inv (snd (mq_append a mq)) (us - {a})"
    "mq_msgs (snd (mq_append a mq)) = mq_msgs mq @ [a]" by (simp_all add: qs_def)
qed

lemma mq_prepend_result:
  assumes "mq_inv mq us" and "a \<in> us"
  shows "fst (mq_prepend a mq)" and "mq_inv (snd (mq_prepend a mq)) (us - {a})"
    and "mq_msgs (snd (mq_prepend a mq)) = a # mq_msgs mq"
proof -
  define qs where "qs = mq_msgs mq"
  obtain fs where l: "mq_lists mq qs fs us" using assms(1) by (auto simp: mq_inv_def qs_def)
  note a = mq_slot [OF assms(1,2)]
  have f: "a \<notin> set fs" "a \<notin> set qs" using l assms(2) by (auto simp: mq_lists_def)
  have e: "mq_entry mq < RT_MQ_ENTRY_MAX" using l a(3) by (simp add: mq_lists_def RT_MQ_ENTRY_MAX_def)
  then show "fst (mq_prepend a mq)" by (simp add: mq_prepend_def Let_def)
  have "0 \<notin> set qs" using l chain_iff_nth by (auto simp: mq_lists_def)
  then have "last qs \<noteq> 0" if "qs \<noteq> []" using last_in_set [OF that] by metis
  then have "mq_queue_tail mq = 0 \<longleftrightarrow> qs = []" using l by (simp add: mq_lists_def)
  then have "mq_lists (snd (mq_prepend a mq)) (a # qs) fs (us - {a})"
    using l assms(2) a(1) f e by (auto simp: mq_lists_def mq_prepend_def Let_def mq_slots_def mq_stride_def)
  from mq_invI [OF this] mq_lists_msgs [OF this] show "mq_inv (snd (mq_prepend a mq)) (us - {a})"
    "mq_msgs (snd (mq_prepend a mq)) = a # mq_msgs mq" by (simp_all add: qs_def)
qed

lemma mq_unlink_result:
  assumes "mq_inv mq us" and "mq_entry mq \<noteq> 0"
  obtains a qs where "mq_msgs mq = a # qs" and "fst (mq_unlink mq) = a" and "mq_inv (snd (mq_unlink mq)) (insert a us)"
    and "mq_msgs (snd (mq_unlink mq)) = qs" and "a \<notin> us"
proof -
  obtain fs where l: "mq_lists mq (mq_msgs mq) fs us" using assms(1) by (auto simp: mq_inv_def)
  then obtain a qs where q: "mq_msgs mq = a # qs" using assms(2) by (cases "mq_msgs mq") (auto simp: mq_lists_def)
  have h: "mq_queue_head mq = a" "a \<notin> us" using l q by (auto simp: mq_lists_def)
  have "a \<notin> set qs" using l q by (simp add: mq_lists_def)
  then have "last qs \<noteq> a" if "qs \<noteq> []" using last_in_set [OF that] by metis
  then have "mq_lists (snd (mq_unlink mq)) qs fs (insert a us)"
    using l q h by (auto simp: mq_lists_def mq_unlink_def Let_def mq_slots_def mq_stride_def)
  from that [OF q _ mq_invI [OF this] mq_lists_msgs [OF this] h(2)] show thesis
    using h(1) by (simp add: mq_unlink_def Let_def)
qed

definition mq_push_free :: "addr \<Rightarrow> rt_messagequeue \<Rightarrow> rt_messagequeue" where
  "mq_push_free a mq = mq\<lparr>mq_msg_next := (mq_msg_next mq)(a := mq_queue_free mq), mq_queue_free := a\<rparr>"

lemma mq_push_free_result:
  assumes "mq_inv mq us" and "a \<in> us"
  shows "mq_inv (mq_push_free a mq) (us - {a})" and "mq_msgs (mq_push_free a mq) = mq_msgs mq"
proof -
  define qs where "qs = mq_msgs mq"
  obtain fs where l: "mq_lists mq qs fs us" using assms(1) by (auto simp: mq_inv_def qs_def)
  note a = mq_slot [OF assms(1,2)]
  have f: "a \<notin> set fs" "a \<notin> set qs" using l assms(2) by (auto simp: mq_lists_def)
  have "mq_lists (mq_push_free a mq) qs (a # fs) (us - {a})"
    using l assms(2) a(1) f by (auto simp: mq_lists_def mq_push_free_def mq_slots_def mq_stride_def)
  from mq_invI [OF this] mq_lists_msgs [OF this] show "mq_inv (mq_push_free a mq) (us - {a})"
    "mq_msgs (mq_push_free a mq) = mq_msgs mq" by (simp_all add: qs_def)
qed

lemma mq_reset_loop_lists:
  assumes "mq_lists (mq\<lparr>mq_entry := length qs\<rparr>) qs fs us"
  obtains mq' where "mq_reset_loop mq = Some mq'" and "mq_inv (mq'\<lparr>mq_entry := 0\<rparr>) us" and "mq_msgs mq' = []"
    and "mq_msg_length mq' = mq_msg_length mq" and "mq_msg_size mq' = mq_msg_size mq"
    and "\<And>a. a \<in> us \<Longrightarrow> mq_msg_next mq' a = mq_msg_next mq a"
  using assms
proof (induction qs arbitrary: mq fs thesis)
  case Nil
  then have "mq_queue_head mq = 0" by (simp add: mq_lists_def)
  moreover have "mq_inv (mq\<lparr>mq_entry := 0\<rparr>) us" "mq_msgs (mq\<lparr>mq_entry := 0\<rparr>) = []"
    using mq_invI [OF Nil(2)] mq_lists_msgs [OF Nil(2)] by simp_all
  ultimately show ?case by (intro Nil(1) [of mq]) (simp_all add: mq_reset_loop.simps mq_msgs_def)
next
  case (Cons a qs)
  define mq1 where "mq1 = (if mq_queue_tail mq = a then mq\<lparr>mq_queue_head := mq_msg_next mq a, mq_queue_tail := 0\<rparr>
    else mq\<lparr>mq_queue_head := mq_msg_next mq a\<rparr>)"
  have a: "mq_queue_head mq = a" "a \<noteq> 0" "a \<notin> us" "a \<notin> set qs" using Cons.prems(2) by (auto simp: mq_lists_def)
  then have st: "mq_reset_loop mq = mq_reset_loop (mq_push_free a mq1)"
    by (subst mq_reset_loop.simps) (simp add: mq1_def mq_push_free_def)
  have "last qs \<noteq> a" if "qs \<noteq> []" using last_in_set [OF that] a(4) by metis
  then have "mq_lists ((mq_push_free a mq1)\<lparr>mq_entry := length qs\<rparr>) qs (a # fs) us"
    using Cons.prems(2) a
    by (auto simp: mq_lists_def mq1_def mq_push_free_def mq_slots_def mq_stride_def)
  then obtain mq' where "mq_reset_loop (mq_push_free a mq1) = Some mq'" "mq_inv (mq'\<lparr>mq_entry := 0\<rparr>) us" "mq_msgs mq' = []"
    "mq_msg_length mq' = mq_msg_length (mq_push_free a mq1)" "mq_msg_size mq' = mq_msg_size (mq_push_free a mq1)"
    "\<And>b. b \<in> us \<Longrightarrow> mq_msg_next mq' b = mq_msg_next (mq_push_free a mq1) b"
    using Cons.IH by blast
  then show ?case using st a(3) by (intro Cons.prems(1) [of mq']) (auto simp: mq_push_free_def mq1_def)
qed

subsection \<open>Bytes\<close>

definition mq_bytes :: "rt_messagequeue \<Rightarrow> memory \<Rightarrow> addr \<Rightarrow> u8 list" where
  "mq_bytes mq mem a = bytes_at mem (GET_MESSAGEBYTE_ADDR a) (mq_msg_length mq a)"

text \<open>The queue as a sequence of byte strings.\<close>

definition mq_data :: "rt_messagequeue \<Rightarrow> memory \<Rightarrow> u8 list list" where
  "mq_data mq mem = map (mq_bytes mq mem) (mq_msgs mq)"

text \<open>What a call does with a slot that it holds: nothing yet, sending, sending urgently, receiving.\<close>

datatype mq_use = Reserved | Filled "u8 list" | Urgent "u8 list" | Draining "u8 list"

fun use_ok :: "rt_messagequeue \<Rightarrow> memory \<Rightarrow> addr \<Rightarrow> mq_use \<Rightarrow> bool" where
  "use_ok mq mem a Reserved = True"
| "use_ok mq mem a (Filled d) = (mq_msg_next mq a = 0 \<and> mq_msg_length mq a \<le> mq_msg_size mq \<and> mq_bytes mq mem a = d)"
| "use_ok mq mem a (Urgent d) = (mq_msg_length mq a \<le> mq_msg_size mq \<and> mq_bytes mq mem a = d)"
| "use_ok mq mem a (Draining d) = (mq_msg_length mq a \<le> mq_msg_size mq \<and> mq_bytes mq mem a = d)"

definition mq_sound :: "rt_messagequeue \<Rightarrow> memory \<Rightarrow> (addr \<Rightarrow> mq_use option) \<Rightarrow> bool" where
  "mq_sound mq mem F \<longleftrightarrow> mq_inv mq (dom F) \<and> (\<forall>a\<in>set (mq_msgs mq). mq_msg_length mq a \<le> mq_msg_size mq) \<and>
     (\<forall>a u. F a = Some u \<longrightarrow> use_ok mq mem a u)"

definition mq_outside :: "rt_messagequeue \<Rightarrow> addr \<Rightarrow> nat \<Rightarrow> bool" where
  "mq_outside mq p n \<longleftrightarrow> p + n \<le> mq_msg_pool mq \<or> mq_msg_pool mq + mq_max_msgs mq * mq_stride mq \<le> p"

lemma mq_soundD:
  assumes "mq_sound mq mem F"
  shows "mq_inv mq (dom F)" "a \<in> set (mq_msgs mq) \<Longrightarrow> mq_msg_length mq a \<le> mq_msg_size mq"
    "F a = Some u \<Longrightarrow> use_ok mq mem a u"
  using assms by (auto simp: mq_sound_def)

lemma mq_slot_in:
  assumes "mq_inv mq us" and "a \<in> us \<union> set (mq_msgs mq)"
  shows "a \<in> set (mq_slots mq)"
  using assms by (auto simp: mq_inv_def mq_lists_def)

lemma mq_msg_fits: "mq_inv mq us \<Longrightarrow> n \<le> mq_msg_size mq \<Longrightarrow> SIZEOF_MQ_MESSAGE + n \<le> mq_stride mq"
proof -
  assume "mq_inv mq us" "n \<le> mq_msg_size mq"
  moreover from this have "mq_msg_size mq < 2 ^ 16" by (auto simp: mq_inv_def mq_lists_def)
  ultimately show ?thesis using RT_ALIGN_8_ge [of "mq_msg_size mq"] by (simp add: mq_stride_def)
qed

lemma mq_slots_apart:
  assumes "a \<in> set (mq_slots mq)" and "b \<in> set (mq_slots mq)" and "a \<noteq> b"
  shows "a + mq_stride mq \<le> b \<or> b + mq_stride mq \<le> a"
proof -
  obtain j k where jk: "a = mq_msg_pool mq + j * mq_stride mq" "b = mq_msg_pool mq + k * mq_stride mq"
    using assms(1,2) by (auto simp: mq_slots_def)
  then have "j \<noteq> k" using assms(3) by auto
  then have "Suc j * mq_stride mq \<le> k * mq_stride mq \<or> Suc k * mq_stride mq \<le> j * mq_stride mq"
    by (metis Suc_leI linorder_neqE_nat mult_le_mono1)
  then show ?thesis by (auto simp: jk)
qed

lemma mq_slot_in_pool:
  assumes "a \<in> set (mq_slots mq)"
  shows "mq_msg_pool mq \<le> a" and "a + mq_stride mq \<le> mq_msg_pool mq + mq_max_msgs mq * mq_stride mq"
proof -
  have "a \<in> (\<lambda>k. mq_msg_pool mq + k * mq_stride mq) ` {0..<mq_max_msgs mq}" using assms by (simp add: mq_slots_def)
  then obtain k where k: "a = mq_msg_pool mq + k * mq_stride mq" and "k \<in> {0..<mq_max_msgs mq}" by (rule imageE)
  then have "Suc k * mq_stride mq \<le> mq_max_msgs mq * mq_stride mq" by (intro mult_le_mono1) simp
  then show "mq_msg_pool mq \<le> a" "a + mq_stride mq \<le> mq_msg_pool mq + mq_max_msgs mq * mq_stride mq"
    by (simp_all add: k)
qed

text \<open>Storing the bytes of a message into a slot leaves those of the other slots alone.\<close>

lemma mq_bytes_other:
  assumes "mq_inv mq us" and "a \<in> set (mq_slots mq)" and "b \<in> set (mq_slots mq)" and "a \<noteq> b"
    and "sz \<le> mq_msg_size mq" and "mq_msg_length mq b \<le> mq_msg_size mq"
  shows "mq_bytes mq (block_copy mem (GET_MESSAGEBYTE_ADDR a) src sz) b = mq_bytes mq mem b"
  unfolding mq_bytes_def
  by (rule bytes_at_block_copy_apart)
    (use mq_slots_apart [OF assms(2-4)] mq_msg_fits [OF assms(1,5)] mq_msg_fits [OF assms(1,6)] in
      \<open>auto simp: GET_MESSAGEBYTE_ADDR_def\<close>)

text \<open>Writing outside of the pool leaves every message alone.\<close>

lemma mq_bytes_outside:
  assumes "mq_inv mq us" and "b \<in> set (mq_slots mq)" and "mq_msg_length mq b \<le> mq_msg_size mq"
    and "\<And>x. \<not> mq_outside mq x 1 \<Longrightarrow> mem' x = mem x"
  shows "mq_bytes mq mem' b = mq_bytes mq mem b"
  unfolding mq_bytes_def
proof (rule bytes_at_frame)
  fix x
  assume "GET_MESSAGEBYTE_ADDR b \<le> x" "x < GET_MESSAGEBYTE_ADDR b + mq_msg_length mq b"
  then have "\<not> mq_outside mq x 1"
    using mq_slot_in_pool [OF assms(2)] mq_msg_fits [OF assms(1,3)]
    by (simp add: mq_outside_def GET_MESSAGEBYTE_ADDR_def)
  then show "mem' x = mem x" by (rule assms(4))
qed

subsection \<open>Steps on the slots\<close>

lemma use_ok_cong:
  "mq_msg_next mq' a = mq_msg_next mq a \<Longrightarrow> mq_msg_length mq' a = mq_msg_length mq a \<Longrightarrow> mq_msg_size mq' = mq_msg_size mq \<Longrightarrow>
   use_ok mq' mem a u = use_ok mq mem a u"
  by (cases u) (simp_all add: mq_bytes_def)

text \<open>An operation on the lists that moves no bytes.\<close>

lemma mq_sound_move:
  assumes "mq_sound mq mem F" and "mq_inv mq' (dom F')" and "mq_msg_length mq' = mq_msg_length mq"
    and "mq_msg_size mq' = mq_msg_size mq" and "\<And>a. a \<in> set (mq_msgs mq') \<Longrightarrow> mq_msg_length mq a \<le> mq_msg_size mq"
    and "\<And>a u. F' a = Some u \<Longrightarrow> (F a = Some u \<and> mq_msg_next mq' a = mq_msg_next mq a) \<or> use_ok mq' mem a u"
  shows "mq_sound mq' mem F'"
proof -
  have "use_ok mq' mem a u" if "F' a = Some u" for a u
    using assms(6) [OF that] mq_soundD(3) [OF assms(1), of a u] use_ok_cong [of mq' a mq mem u] assms(3,4) by auto
  then show ?thesis using assms(2-5) by (simp add: mq_sound_def)
qed

lemma mq_data_cong: "mq_msg_length mq' = mq_msg_length mq \<Longrightarrow> mq_bytes mq' = mq_bytes mq"
  by (simp add: mq_bytes_def fun_eq_iff)

lemma mq_reserve_sound:
  assumes "mq_sound mq mem F" and "mq_queue_free mq \<noteq> 0"
  shows "mq_sound (mq_reserve mq) mem (F(mq_queue_free mq \<mapsto> Reserved))" and "mq_data (mq_reserve mq) mem = mq_data mq mem"
proof -
  note r = mq_reserve_result [OF mq_soundD(1) [OF assms(1)] assms(2)]
  show "mq_sound (mq_reserve mq) mem (F(mq_queue_free mq \<mapsto> Reserved))"
    by (rule mq_sound_move [OF assms(1)])
      (use r mq_soundD(2) [OF assms(1)] in \<open>auto simp: mq_reserve_def split: if_splits\<close>)
  show "mq_data (mq_reserve mq) mem = mq_data mq mem"
    using r(2) mq_data_cong [of "mq_reserve mq" mq] by (simp add: mq_data_def) (simp add: mq_reserve_def)
qed

lemma mq_append_sound:
  assumes "mq_sound mq mem F" and "F a = Some (Filled d)"
  shows "fst (mq_append a mq)" and "mq_sound (snd (mq_append a mq)) mem (F(a := None))"
    and "mq_data (snd (mq_append a mq)) mem = mq_data mq mem @ [d]"
proof -
  let ?m = "snd (mq_append a mq)"
  have a: "a \<in> dom F" "mq_msg_next mq a = 0" "mq_bytes mq mem a = d" "mq_msg_length mq a \<le> mq_msg_size mq"
    using mq_soundD(3) [OF assms] assms(2) by auto
  note i = mq_soundD(1) [OF assms(1)]
  note r = mq_append_result [OF i a(1,2)]
  have f: "mq_msg_length ?m = mq_msg_length mq" "mq_msg_size ?m = mq_msg_size mq" by (simp_all add: mq_append_def Let_def)
  have "set (mq_msgs mq) \<inter> dom F = {}" "mq_queue_tail mq = 0 \<or> mq_queue_tail mq \<in> set (mq_msgs mq)"
    using i last_in_set [of "mq_msgs mq"] by (auto simp: mq_inv_def mq_lists_def)
  then have n: "mq_msg_next ?m b = mq_msg_next mq b" if "b \<in> dom F" for b
    using that by (auto simp: mq_append_def Let_def)
  show "fst (mq_append a mq)" by (rule r(1))
  show "mq_sound ?m mem (F(a := None))"
    by (rule mq_sound_move [OF assms(1)])
      (use r f n a(4) mq_soundD(2) [OF assms(1)] in \<open>auto simp: domIff split: if_splits\<close>)
  show "mq_data ?m mem = mq_data mq mem @ [d]" using r(3) mq_data_cong [OF f(1)] a(3) by (simp add: mq_data_def)
qed

lemma mq_prepend_sound:
  assumes "mq_sound mq mem F" and "F a = Some (Urgent d)"
  shows "fst (mq_prepend a mq)" and "mq_sound (snd (mq_prepend a mq)) mem (F(a := None))"
    and "mq_data (snd (mq_prepend a mq)) mem = d # mq_data mq mem"
proof -
  let ?m = "snd (mq_prepend a mq)"
  have a: "a \<in> dom F" "mq_bytes mq mem a = d" "mq_msg_length mq a \<le> mq_msg_size mq"
    using mq_soundD(3) [OF assms] assms(2) by auto
  note r = mq_prepend_result [OF mq_soundD(1) [OF assms(1)] a(1)]
  have f: "mq_msg_length ?m = mq_msg_length mq" "mq_msg_size ?m = mq_msg_size mq" "mq_msg_next ?m = (mq_msg_next mq)(a := mq_queue_head mq)"
    by (simp_all add: mq_prepend_def Let_def)
  show "fst (mq_prepend a mq)" by (rule r(1))
  show "mq_sound ?m mem (F(a := None))"
    by (rule mq_sound_move [OF assms(1)])
      (use r f a(3) mq_soundD(2) [OF assms(1)] in \<open>auto split: if_splits\<close>)
  show "mq_data ?m mem = d # mq_data mq mem" using r(3) mq_data_cong [OF f(1)] a(2) by (simp add: mq_data_def)
qed

lemma mq_unlink_sound:
  assumes "mq_sound mq mem F" and "mq_entry mq \<noteq> 0"
  obtains a d q where "mq_data mq mem = d # q" and "fst (mq_unlink mq) = a" and "d = mq_bytes mq mem a" and "F a = None"
    and "mq_sound (snd (mq_unlink mq)) mem (F(a \<mapsto> Draining d))" and "mq_data (snd (mq_unlink mq)) mem = q"
proof -
  let ?m = "snd (mq_unlink mq)"
  obtain a qs where r: "mq_msgs mq = a # qs" "fst (mq_unlink mq) = a" "mq_inv ?m (insert a (dom F))" "mq_msgs ?m = qs" "a \<notin> dom F"
    by (rule mq_unlink_result [OF mq_soundD(1) [OF assms(1)] assms(2)])
  have f: "mq_msg_length ?m = mq_msg_length mq" "mq_msg_size ?m = mq_msg_size mq" "mq_msg_next ?m = mq_msg_next mq"
    by (simp_all add: mq_unlink_def Let_def)
  have b: "mq_bytes ?m = mq_bytes mq" by (rule mq_data_cong [OF f(1)])
  show thesis
  proof (rule that [of "mq_bytes mq mem a" "map (mq_bytes mq mem) qs" a])
    show "mq_sound ?m mem (F(a \<mapsto> Draining (mq_bytes mq mem a)))"
      by (rule mq_sound_move [OF assms(1)])
        (use r f b mq_soundD(2) [OF assms(1)] in \<open>auto split: if_splits\<close>)
  qed (use r b in \<open>auto simp: mq_data_def\<close>)
qed

lemma mq_push_free_sound:
  assumes "mq_sound mq mem F" and "a \<in> dom F"
  shows "mq_sound (mq_push_free a mq) mem (F(a := None))" and "mq_data (mq_push_free a mq) mem = mq_data mq mem"
proof -
  note r = mq_push_free_result [OF mq_soundD(1) [OF assms(1)] assms(2)]
  have f: "mq_msg_length (mq_push_free a mq) = mq_msg_length mq" "mq_msg_size (mq_push_free a mq) = mq_msg_size mq"
    "mq_msg_next (mq_push_free a mq) = (mq_msg_next mq)(a := mq_queue_free mq)"
    by (simp_all add: mq_push_free_def)
  show "mq_sound (mq_push_free a mq) mem (F(a := None))"
    by (rule mq_sound_move [OF assms(1)])
      (use r f mq_soundD(2) [OF assms(1)] in \<open>auto split: if_splits\<close>)
  show "mq_data (mq_push_free a mq) mem = mq_data mq mem" using r(2) mq_data_cong [OF f(1)] by (simp add: mq_data_def)
qed

lemma mq_reset_sound:
  assumes "mq_sound mq mem F"
  obtains mq' where "mq_reset_loop mq = Some mq'" and "mq_sound (mq'\<lparr>mq_entry := 0\<rparr>) mem F"
    and "mq_data (mq'\<lparr>mq_entry := 0\<rparr>) mem = []"
proof -
  obtain fs where l: "mq_lists mq (mq_msgs mq) fs (dom F)" using mq_soundD(1) [OF assms] by (auto simp: mq_inv_def)
  then have "mq_lists (mq\<lparr>mq_entry := length (mq_msgs mq)\<rparr>) (mq_msgs mq) fs (dom F)"
    by (simp add: mq_lists_def mq_slots_def mq_stride_def)
  then obtain mq' where r: "mq_reset_loop mq = Some mq'" "mq_inv (mq'\<lparr>mq_entry := 0\<rparr>) (dom F)" "mq_msgs mq' = []"
    "mq_msg_length mq' = mq_msg_length mq" "mq_msg_size mq' = mq_msg_size mq"
    "\<And>a. a \<in> dom F \<Longrightarrow> mq_msg_next mq' a = mq_msg_next mq a"
    by (rule mq_reset_loop_lists) blast
  have e: "mq_msgs (mq'\<lparr>mq_entry := 0\<rparr>) = []" using r(3) by (simp add: mq_msgs_def)
  show thesis
  proof (rule that [OF r(1)])
    show "mq_sound (mq'\<lparr>mq_entry := 0\<rparr>) mem F"
      by (rule mq_sound_move [OF assms r(2)]) (use r(4-6) e in auto)
  qed (simp add: mq_data_def e)
qed

lemma mq_sound_mem:
  assumes "mq_sound mq mem F" and "\<And>x. \<not> mq_outside mq x 1 \<Longrightarrow> mem' x = mem x"
  shows "mq_sound mq mem' F" and "mq_data mq mem' = mq_data mq mem"
proof -
  note i = mq_soundD(1) [OF assms(1)]
  have b: "mq_bytes mq mem' a = mq_bytes mq mem a"
    if "a \<in> dom F \<union> set (mq_msgs mq)" "mq_msg_length mq a \<le> mq_msg_size mq" for a
    by (rule mq_bytes_outside [OF i mq_slot_in [OF i that(1)] that(2) assms(2)])
  have "use_ok mq mem' a u" if "F a = Some u" for a u
    using mq_soundD(3) [OF assms(1) that] b [of a] that by (cases u) (auto simp: domI)
  then show "mq_sound mq mem' F" using assms(1) by (simp add: mq_sound_def)
  show "mq_data mq mem' = mq_data mq mem" using b mq_soundD(2) [OF assms(1)] by (simp add: mq_data_def)
qed

lemma mq_store_sound:
  fixes x :: addr
  assumes "mq_sound mq mem F" and "F a = Some u0" and "sz \<le> mq_msg_size mq" and "mq_outside mq buffer sz"
  defines "mq' \<equiv> mq\<lparr>mq_msg_next := (mq_msg_next mq)(a := x), mq_msg_length := (mq_msg_length mq)(a := sz)\<rparr>"
    and "mem' \<equiv> snd (rt_memcpy mem (GET_MESSAGEBYTE_ADDR a) buffer sz)"
  shows "mq_bytes mq' mem' a = bytes_at mem buffer sz"
    and "use_ok mq' mem' a u \<Longrightarrow> mq_sound mq' mem' (F(a \<mapsto> u))" and "mq_data mq' mem' = mq_data mq mem"
proof -
  note i = mq_soundD(1) [OF assms(1)]
  have a: "a \<in> set (mq_slots mq)" using mq_slot_in [OF i] assms(2) by blast
  have "GET_MESSAGEBYTE_ADDR a \<le> buffer \<or> buffer + sz \<le> GET_MESSAGEBYTE_ADDR a"
    using assms(4) mq_slot_in_pool [OF a] mq_msg_fits [OF i assms(3)] by (auto simp: mq_outside_def GET_MESSAGEBYTE_ADDR_def)
  then have mem': "mem' = block_copy mem (GET_MESSAGEBYTE_ADDR a) buffer sz" by (simp add: mem'_def rt_memcpy_eq)
  then show "mq_bytes mq' mem' a = bytes_at mem buffer sz" by (simp add: mq_bytes_def mq'_def bytes_at_block_copy)
  have aF: "a \<in> dom F" using assms(2) by blast
  note h = mq_inv_upd_held [OF i aF, where x = x and len = "(mq_msg_length mq)(a := sz)", folded mq'_def]
  have f: "mq_msg_size mq' = mq_msg_size mq" "b \<noteq> a \<Longrightarrow> mq_msg_length mq' b = mq_msg_length mq b"
    "b \<noteq> a \<Longrightarrow> mq_msg_next mq' b = mq_msg_next mq b" for b by (simp_all add: mq'_def)
  have b: "mq_bytes mq' mem' b = mq_bytes mq mem b"
    if "b \<in> dom F \<union> set (mq_msgs mq)" "b \<noteq> a" "mq_msg_length mq b \<le> mq_msg_size mq" for b
    using mq_bytes_other [OF i a mq_slot_in [OF i that(1)] that(2) [symmetric] assms(3) that(3), where mem = mem and src = buffer]
      f(2) [of b] that(2) by (simp add: mem' mq_bytes_def)
  have na: "a \<notin> set (mq_msgs mq)" using mq_slot(2) [OF i] assms(2) by blast
  show "mq_data mq' mem' = mq_data mq mem"
    using h(2) b na mq_soundD(2) [OF assms(1)] by (auto simp: mq_data_def)
  show "mq_sound mq' mem' (F(a \<mapsto> u))" if u: "use_ok mq' mem' a u"
  proof -
    have "use_ok mq' mem' c v" if "F c = Some v" "c \<noteq> a" for c v
      using mq_soundD(3) [OF assms(1) that(1)] b [of c] f(1) f(2,3) [of c] that by (cases v) (auto simp: domI)
    moreover have "dom (F(a \<mapsto> u)) = dom F" using assms(2) by auto
    moreover have "mq_msg_length mq' c \<le> mq_msg_size mq'" if "c \<in> set (mq_msgs mq')" for c
    proof -
      have "c \<in> set (mq_msgs mq)" "c \<noteq> a" using that h(2) na by auto
      then show ?thesis using f(1,2) mq_soundD(2) [OF assms(1)] by simp
    qed
    ultimately show ?thesis using h(1) u by (simp add: mq_sound_def)
  qed
qed

section \<open>The calls\<close>

definition mq_ok :: "nat \<Rightarrow> (addr \<Rightarrow> mq_use option) \<Rightarrow> kernel \<Rightarrow> bool" where
  "mq_ok i F s \<longleftrightarrow> kok s \<and> mq_sound (mqueues s i) (kmem s) F"

definition mq_view :: "kernel \<Rightarrow> nat \<Rightarrow> u8 list list" where
  "mq_view s i = mq_data (mqueues s i) (kmem s)"

lemma upd_mq_simps [simp]:
  "kok (upd_mq i f s) = kok s" "locked (upd_mq i f s) = locked s" "threads (upd_mq i f s) = threads s"
  "queues (upd_mq i f s) = queues s" "mqueues (upd_mq i f s) = (mqueues s)(i := f (mqueues s i))"
  "kmem (upd_mq i f s) = kmem s" "scheduler_lock_nest (upd_mq i f s) = scheduler_lock_nest s" "tick (upd_mq i f s) = tick s"
  by (simp_all add: upd_mq_def)

lemma mq_queues [simp]: "\<not> is_ready_q (Mq_Q i)" "\<not> is_ready_q (Mq_Send_Q i)"
  by (simp_all add: is_ready_q_def)

lemma mq_ok_same:
  "mq_ok i F s \<Longrightarrow> kok s' \<Longrightarrow> mqueues s' i = mqueues s i \<Longrightarrow> kmem s' = kmem s \<Longrightarrow> mq_ok i F s' \<and> mq_view s' i = mq_view s i"
  by (simp add: mq_ok_def mq_view_def)

lemma resched_mq:
  assumes "resched s s'" and "kok s"
  shows "kok s'" "mqueues s' = mqueues s" "kmem s' = kmem s" "mq_ok i F s' = mq_ok i F s" "mq_view s' i = mq_view s i"
  using resched_fields [OF assms(1)] resched_kok [OF assms] assms(2) by (simp_all add: mq_ok_def mq_view_def)

lemmas exit_mq = resched_mq [OF rt_exit_critical_resched [OF kokD(1)]]
lemmas schedule_mq = resched_mq [OF rt_schedule_resched [OF kokD(1)]]

text \<open>The slots that calls hold, after a call has got (or not) a slot.\<close>

definition claimed :: "(addr \<Rightarrow> mq_use option) \<Rightarrow> (addr \<Rightarrow> mq_use) \<Rightarrow> (rt_err_t + addr) outcome \<Rightarrow> (addr \<Rightarrow> mq_use option)" where
  "claimed F u r = (case r of Done (Inr a) \<Rightarrow> F(a \<mapsto> u a) | _ \<Rightarrow> F)"

lemma claimed_simps [simp]:
  "claimed F u (Done (Inr a)) = F(a \<mapsto> u a)" "claimed F u (Done (Inl e)) = F" "claimed F u Blocked = F"
  by (simp_all add: claimed_def)

definition taken :: "(addr \<Rightarrow> u8 list) \<Rightarrow> (rt_err_t + addr) outcome \<Rightarrow> u8 list list" where
  "taken f r = (case r of Done (Inr a) \<Rightarrow> [f a] | _ \<Rightarrow> [])"

lemma taken_simps [simp]: "taken f (Done (Inr a)) = [f a]" "taken f (Done (Inl e)) = []" "taken f Blocked = []"
  by (simp_all add: taken_def)

lemma mq_suspend:
  assumes "kok s" and "st s t = RT_THREAD_RUNNING" and "is_wait_q q"
  obtains s' where "ipc_suspend q flag sf timeout t (set_th_error t e s) = (RT_EOK, s')"
    and "kok (rt_exit_critical s')" and "mqueues (rt_exit_critical s') = mqueues s" and "kmem (rt_exit_critical s') = kmem s"
    and "susp (rt_exit_critical s') t" and "queues (rt_exit_critical s') q = wait_order flag s t (queues s q)"
proof -
  obtain s' where s': "ipc_suspend q flag sf timeout t (set_th_error t e s) = (RT_EOK, s')"
    "suspended (set_th_error t e s) (rt_exit_critical s') t q flag"
    by (rule ipc_wait_suspended [OF assms])
  show thesis
    by (rule that [OF s'(1)])
      (use s'(2) wait_order_cong [of "set_th_error t e s" s] in \<open>auto simp: suspended_def\<close>)
qed

lemma mq_send_loop_result:
  assumes "mq_ok i F s" and "st s t = RT_THREAD_RUNNING"
  shows "case mq_send_loop i timeout sf t s of (r, s') \<Rightarrow>
    mq_ok i (claimed F (\<lambda>_. Reserved) r) s' \<and> mq_view s' i = mq_view s i \<and> mq_msg_size (mqueues s' i) = mq_msg_size (mqueues s i)"
proof -
  let ?mq = "mqueues s i"
  have k: "kok s" "mq_sound ?mq (kmem s) F" using assms(1) by (simp_all add: mq_ok_def)
  consider "mq_queue_free ?mq \<noteq> 0" | "mq_queue_free ?mq = 0" "timeout = 0" | "mq_queue_free ?mq = 0" "timeout \<noteq> 0" by blast
  then show ?thesis
  proof cases
    case 1
    have "kok (upd_mq i mq_reserve s)" using k(1) by simp
    from exit_mq [OF this this] mq_reserve_sound [OF k(2) 1] 1 show ?thesis
      by (simp add: mq_send_loop_def spin_defs mq_ok_def mq_view_def Let_def) (simp add: mq_reserve_def)
  next
    case 2
    have "kok (set_th_error t (- RT_EINTR) s)" using k(1) by simp
    from exit_mq [OF this this] 2 k show ?thesis
      by (simp add: mq_send_loop_def spin_defs mq_ok_def mq_view_def Let_def)
  next
    case 3
    obtain s1 where "ipc_suspend (Mq_Send_Q i) (mq_flag ?mq) sf timeout t (set_th_error t (- RT_EINTR) s) = (RT_EOK, s1)"
      "kok (rt_exit_critical s1)" "mqueues (rt_exit_critical s1) = mqueues s" "kmem (rt_exit_critical s1) = kmem s"
      by (rule mq_suspend [OF k(1) assms(2), of "Mq_Send_Q i"]) simp_all
    with 3 k show ?thesis
      by (simp add: mq_send_loop_def spin_defs mq_ok_def mq_view_def Let_def)
  qed
qed

lemma mq_recv_loop_result:
  assumes "mq_ok i F s" and "st s t = RT_THREAD_RUNNING"
  shows "case mq_recv_loop i timeout sf t s of (r, s') \<Rightarrow>
    mq_ok i (claimed F (\<lambda>a. Draining (mq_bytes (mqueues s i) (kmem s) a)) r) s' \<and>
    mq_view s i = taken (mq_bytes (mqueues s i) (kmem s)) r @ mq_view s' i"
proof -
  let ?mq = "mqueues s i"
  have k: "kok s" "mq_sound ?mq (kmem s) F" using assms(1) by (simp_all add: mq_ok_def)
  consider "mq_entry ?mq \<noteq> 0" | "mq_entry ?mq = 0" "timeout = 0" | "mq_entry ?mq = 0" "timeout \<noteq> 0" by blast
  then show ?thesis
  proof cases
    case 1
    obtain a d q where u: "mq_data ?mq (kmem s) = d # q" "fst (mq_unlink ?mq) = a" "d = mq_bytes ?mq (kmem s) a"
      "mq_sound (snd (mq_unlink ?mq)) (kmem s) (F(a \<mapsto> Draining d))" "mq_data (snd (mq_unlink ?mq)) (kmem s) = q"
      by (rule mq_unlink_sound [OF k(2) 1])
    have "kok (upd_mq i (\<lambda>_. snd (mq_unlink ?mq)) s)" using k(1) by simp
    from exit_mq [OF this this] u 1 show ?thesis
      by (simp add: mq_recv_loop_def spin_defs mq_ok_def mq_view_def case_prod_beta)
  next
    case 2
    have "kok (set_th_error t (- RT_EINTR) s)" using k(1) by simp
    from exit_mq [OF this this] 2 k show ?thesis
      by (simp add: mq_recv_loop_def spin_defs mq_ok_def mq_view_def Let_def)
  next
    case 3
    obtain s1 where "ipc_suspend (Mq_Q i) (mq_flag ?mq) sf timeout t (set_th_error t (- RT_EINTR) s) = (RT_EOK, s1)"
      "kok (rt_exit_critical s1)" "mqueues (rt_exit_critical s1) = mqueues s" "kmem (rt_exit_critical s1) = kmem s"
      by (rule mq_suspend [OF k(1) assms(2), of "Mq_Q i"]) simp_all
    with 3 k show ?thesis
      by (simp add: mq_recv_loop_def spin_defs mq_ok_def mq_view_def Let_def)
  qed
qed

text \<open>Locking keeps everything that a queue depends on.\<close>

lemma enter_mq [simp]: "mq_ok i F (rt_enter_critical s) = mq_ok i F s" "mq_view (rt_enter_critical s) i = mq_view s i"
  by (simp_all add: mq_ok_def mq_view_def)

lemma exit_enter_mq:
  assumes "mq_ok i F s"
  shows "mq_ok i F (rt_exit_critical (rt_enter_critical s))" "mq_view (rt_exit_critical (rt_enter_critical s)) i = mq_view s i"
proof -
  have "kok (rt_enter_critical s)" using assms by (simp add: mq_ok_def)
  from exit_mq(4,5) [OF this this] assms show "mq_ok i F (rt_exit_critical (rt_enter_critical s))"
    "mq_view (rt_exit_critical (rt_enter_critical s)) i = mq_view s i" by simp_all
qed

lemma rt_mq_send_enter_result:
  assumes "mq_ok i F s" and "st s t = RT_THREAD_RUNNING" and "rt_mq_send_enter i sz timeout sf t s = (r, s')"
  shows "mq_ok i (claimed F (\<lambda>_. Reserved) r) s'" and "mq_view s' i = mq_view s i"
proof -
  have "mq_ok i F (rt_enter_critical s)" "st (rt_enter_critical s) t = RT_THREAD_RUNNING" using assms(1,2) by simp_all
  note l = mq_send_loop_result [OF this, of timeout sf]
  show "mq_ok i (claimed F (\<lambda>_. Reserved) r) s'" "mq_view s' i = mq_view s i"
    using l assms(1,3) exit_enter_mq [OF assms(1)]
    by (auto simp: rt_mq_send_enter_def spin_defs Let_def split: if_splits)
qed

lemma rt_mq_recv_enter_result:
  assumes "mq_ok i F s" and "st s t = RT_THREAD_RUNNING" and "rt_mq_recv_enter i timeout sf t s = (r, s')"
  shows "mq_ok i (claimed F (\<lambda>a. Draining (mq_bytes (mqueues s i) (kmem s) a)) r) s'"
    and "mq_view s i = taken (mq_bytes (mqueues s i) (kmem s)) r @ mq_view s' i"
proof -
  have "mq_ok i F (rt_enter_critical s)" "st (rt_enter_critical s) t = RT_THREAD_RUNNING" using assms(1,2) by simp_all
  note l = mq_recv_loop_result [OF this, of timeout sf]
  show "mq_ok i (claimed F (\<lambda>a. Draining (mq_bytes (mqueues s i) (kmem s) a)) r) s'"
    "mq_view s i = taken (mq_bytes (mqueues s i) (kmem s)) r @ mq_view s' i"
    using l assms(1,3) exit_enter_mq [OF assms(1)]
    by (auto simp: rt_mq_recv_enter_def spin_defs Let_def split: if_splits)
qed

lemma mq_resume_state:
  assumes "mq_ok i F s" and "st (rt_schedule s) t = RT_THREAD_RUNNING"
  shows "mq_ok i F (rt_schedule s)" "mq_view (rt_schedule s) i = mq_view s i" "mqueues (rt_schedule s) = mqueues s"
    "kmem (rt_schedule s) = kmem s" "mq_ok i F (rt_enter_critical (rt_schedule s))"
    "st (rt_enter_critical (rt_schedule s)) t = RT_THREAD_RUNNING"
proof -
  have "kok s" using assms(1) by (simp add: mq_ok_def)
  from schedule_mq [OF this this] assms show "mq_ok i F (rt_schedule s)" "mq_view (rt_schedule s) i = mq_view s i"
    "mqueues (rt_schedule s) = mqueues s" "kmem (rt_schedule s) = kmem s" "mq_ok i F (rt_enter_critical (rt_schedule s))"
    "st (rt_enter_critical (rt_schedule s)) t = RT_THREAD_RUNNING" by simp_all
qed

lemma rt_mq_send_resume_result:
  assumes "mq_ok i F s" and "st (rt_schedule s) t = RT_THREAD_RUNNING"
    and "rt_mq_send_resume i timeout tick0 sf t s = (r, s')"
  shows "mq_ok i (claimed F (\<lambda>_. Reserved) r) s'" and "mq_view s' i = mq_view s i"
proof -
  note m = mq_resume_state [OF assms(1,2)]
  note l = mq_send_loop_result [OF m(5,6), of "ipc_time_left timeout tick0 (tick (rt_enter_critical (rt_schedule s)))" sf]
  show "mq_ok i (claimed F (\<lambda>_. Reserved) r) s'" "mq_view s' i = mq_view s i"
    using l m(1,2) assms(3) by (auto simp: rt_mq_send_resume_def spin_defs Let_def split: if_splits)
qed

lemma rt_mq_recv_resume_result:
  assumes "mq_ok i F s" and "st (rt_schedule s) t = RT_THREAD_RUNNING"
    and "rt_mq_recv_resume i timeout tick0 sf t s = (r, s')"
  shows "mq_ok i (claimed F (\<lambda>a. Draining (mq_bytes (mqueues s i) (kmem s) a)) r) s'"
    and "mq_view s i = taken (mq_bytes (mqueues s i) (kmem s)) r @ mq_view s' i"
proof -
  note m = mq_resume_state [OF assms(1,2)]
  note l = mq_recv_loop_result [OF m(5,6), of "ipc_time_left timeout tick0 (tick (rt_enter_critical (rt_schedule s)))" sf]
  show "mq_ok i (claimed F (\<lambda>a. Draining (mq_bytes (mqueues s i) (kmem s) a)) r) s'"
    "mq_view s i = taken (mq_bytes (mqueues s i) (kmem s)) r @ mq_view s' i"
    using l m(1-4) assms(3) by (auto simp: rt_mq_recv_resume_def spin_defs Let_def split: if_splits)
qed

lemma rt_mq_urgent_enter_result:
  assumes "mq_ok i F s" and "rt_mq_urgent_enter i sz s = (r, s')"
  shows "mq_ok i (claimed F (\<lambda>_. Reserved) (Done r)) s'" and "mq_view s' i = mq_view s i"
proof -
  have k: "kok (upd_mq i mq_reserve (rt_enter_critical s))" "mq_sound (mqueues s i) (kmem s) F"
    using assms(1) by (simp_all add: mq_ok_def)
  note x = exit_mq [OF k(1) k(1)]
  show "mq_ok i (claimed F (\<lambda>_. Reserved) (Done r)) s'" "mq_view s' i = mq_view s i"
    using x mq_reserve_sound [OF k(2)] assms exit_enter_mq [OF assms(1)]
    by (auto simp: rt_mq_urgent_enter_def spin_defs Let_def mq_ok_def mq_view_def split: if_splits)
qed

lemma mq_fill_result:
  assumes "mq_ok i F s" and "F a = Some Reserved" and "sz \<le> mq_msg_size (mqueues s i)" and "mq_outside (mqueues s i) buffer sz"
  shows "mq_ok i (F(a \<mapsto> Filled (bytes_at (kmem s) buffer sz))) (mq_fill i a buffer sz s)"
    and "mq_view (mq_fill i a buffer sz s) i = mq_view s i"
    and "mq_ok i (F(a \<mapsto> Urgent (bytes_at (kmem s) buffer sz))) (mq_fill_urgent i a buffer sz s)"
    and "mq_view (mq_fill_urgent i a buffer sz s) i = mq_view s i"
proof -
  have k: "kok s" "mq_sound (mqueues s i) (kmem s) F" using assms(1) by (simp_all add: mq_ok_def)
  note f = mq_store_sound [OF k(2) assms(2-4), where x = 0]
    and u = mq_store_sound [OF k(2) assms(2-4), where x = "mq_msg_next (mqueues s i) a"]
  show "mq_ok i (F(a \<mapsto> Filled (bytes_at (kmem s) buffer sz))) (mq_fill i a buffer sz s)"
    "mq_view (mq_fill i a buffer sz s) i = mq_view s i"
    using f k(1) assms(3) by (simp_all add: mq_ok_def mq_view_def mq_fill_def Let_def)
  show "mq_ok i (F(a \<mapsto> Urgent (bytes_at (kmem s) buffer sz))) (mq_fill_urgent i a buffer sz s)"
    "mq_view (mq_fill_urgent i a buffer sz s) i = mq_view s i"
    using u k(1) assms(3) by (simp_all add: mq_ok_def mq_view_def mq_fill_urgent_def Let_def)
qed

lemma mq_link_with_result:
  assumes "mq_ok i F s" and "nest_ok s" and ins: "fst (ins a (mqueues s i))" "mq_sound (snd (ins a (mqueues s i))) (kmem s) F'"
    "mq_data (snd (ins a (mqueues s i))) (kmem s) = q"
  shows "fst (mq_link_with ins i a s) = RT_EOK" and "mq_ok i F' (snd (mq_link_with ins i a s))"
    and "mq_view (snd (mq_link_with ins i a s)) i = q"
    and "queues (snd (mq_link_with ins i a s)) (Mq_Q i) = tl (queues s (Mq_Q i))"
    and "queues s (Mq_Q i) = t # ts \<Longrightarrow> \<not> susp (snd (mq_link_with ins i a s)) t \<and>
      th_error (threads (snd (mq_link_with ins i a s)) t) = RT_EOK"
proof -
  let ?s = "upd_mq i (\<lambda>_. snd (ins a (mqueues s i))) (rt_enter_critical s)"
  have l: "locked ?s" "kok ?s" using assms(1,2) nest_ok_locked by (simp_all add: mq_ok_def)
  note w = ipc_wake_leave_result [OF l is_wait_q_simps(6) [of i]]
  have eq: "mq_link_with ins i a s = (RT_EOK, ipc_wake_leave (Mq_Q i) ?s)"
    using ins(1) by (simp add: mq_link_with_def spin_defs case_prod_beta Let_def)
  show "fst (mq_link_with ins i a s) = RT_EOK" "mq_ok i F' (snd (mq_link_with ins i a s))"
    "mq_view (snd (mq_link_with ins i a s)) i = q"
    "queues (snd (mq_link_with ins i a s)) (Mq_Q i) = tl (queues s (Mq_Q i))"
    using w(1,2,7,8) ins(2,3) by (simp_all add: eq mq_ok_def mq_view_def)
  show "\<not> susp (snd (mq_link_with ins i a s)) t \<and> th_error (threads (snd (mq_link_with ins i a s)) t) = RT_EOK"
    if "queues s (Mq_Q i) = t # ts" using w(4,5) that by (simp add: eq)
qed

lemma mq_link_result:
  assumes "mq_ok i F s" and "nest_ok s" and "F a = Some (Filled d)"
  shows "fst (mq_link i a s) = RT_EOK" and "mq_ok i (F(a := None)) (snd (mq_link i a s))"
    and "mq_view (snd (mq_link i a s)) i = mq_view s i @ [d]"
    and "queues (snd (mq_link i a s)) (Mq_Q i) = tl (queues s (Mq_Q i))"
    and "queues s (Mq_Q i) = t # ts \<Longrightarrow> \<not> susp (snd (mq_link i a s)) t \<and> th_error (threads (snd (mq_link i a s)) t) = RT_EOK"
proof -
  have "mq_sound (mqueues s i) (kmem s) F" using assms(1) by (simp add: mq_ok_def)
  note r = mq_link_with_result [where ins = mq_append and a = a, OF assms(1,2) mq_append_sound [OF this assms(3)]]
  show "fst (mq_link i a s) = RT_EOK" "mq_ok i (F(a := None)) (snd (mq_link i a s))"
    "mq_view (snd (mq_link i a s)) i = mq_view s i @ [d]" "queues (snd (mq_link i a s)) (Mq_Q i) = tl (queues s (Mq_Q i))"
    "queues s (Mq_Q i) = t # ts \<Longrightarrow> \<not> susp (snd (mq_link i a s)) t \<and> th_error (threads (snd (mq_link i a s)) t) = RT_EOK"
    unfolding mq_link_def mq_view_def [of s] by (rule r)+
qed

lemma mq_link_urgent_result:
  assumes "mq_ok i F s" and "nest_ok s" and "F a = Some (Urgent d)"
  shows "fst (mq_link_urgent i a s) = RT_EOK" and "mq_ok i (F(a := None)) (snd (mq_link_urgent i a s))"
    and "mq_view (snd (mq_link_urgent i a s)) i = d # mq_view s i"
proof -
  have "mq_sound (mqueues s i) (kmem s) F" using assms(1) by (simp add: mq_ok_def)
  note r = mq_link_with_result [where ins = mq_prepend and a = a, OF assms(1,2) mq_prepend_sound [OF this assms(3)]]
  show "fst (mq_link_urgent i a s) = RT_EOK" "mq_ok i (F(a := None)) (snd (mq_link_urgent i a s))"
    "mq_view (snd (mq_link_urgent i a s)) i = d # mq_view s i"
    unfolding mq_link_urgent_def mq_view_def [of s] by (rule r)+
qed

lemma mq_copy_result:
  assumes "mq_ok i F s" and "F a = Some (Draining d)" and "mq_outside (mqueues s i) buffer sz"
  shows "fst (mq_copy i a buffer sz s) = min sz (length d)" and "mq_ok i F (snd (mq_copy i a buffer sz s))"
    and "bytes_at (kmem (snd (mq_copy i a buffer sz s))) buffer (min sz (length d)) = take sz d"
    and "mq_view (snd (mq_copy i a buffer sz s)) i = mq_view s i"
    and "scheduler_lock_nest (snd (mq_copy i a buffer sz s)) = scheduler_lock_nest s"
proof -
  let ?mq = "mqueues s i" and ?len = "min sz (length d)"
  have k: "kok s" "mq_sound ?mq (kmem s) F" using assms(1) by (simp_all add: mq_ok_def)
  have d: "d = bytes_at (kmem s) (GET_MESSAGEBYTE_ADDR a) (mq_msg_length ?mq a)" "mq_msg_length ?mq a \<le> mq_msg_size ?mq"
    using mq_soundD(3) [OF k(2) assms(2)] by (auto simp: mq_bytes_def)
  then have len: "length d = mq_msg_length ?mq a" by simp
  have a: "a \<in> set (mq_slots ?mq)" using mq_slot_in [OF mq_soundD(1) [OF k(2)]] assms(2) by blast
  note fit = mq_slot_in_pool [OF a] mq_msg_fits [OF mq_soundD(1) [OF k(2)] d(2)]
  have "buffer \<le> GET_MESSAGEBYTE_ADDR a \<or> GET_MESSAGEBYTE_ADDR a + ?len \<le> buffer"
    using assms(3) fit unfolding mq_outside_def GET_MESSAGEBYTE_ADDR_def len by linarith
  note cp = rt_memcpy_eq [OF this, of "kmem s"]
  have "(if length d > sz then sz else length d) = ?len" by simp
  with cp have eq: "mq_copy i a buffer sz s = (?len, s\<lparr>kmem := block_copy (kmem s) buffer (GET_MESSAGEBYTE_ADDR a) ?len\<rparr>)"
    by (simp only: mq_copy_def Let_def len [symmetric] snd_conv)
  have "\<not> mq_outside ?mq x 1 \<Longrightarrow> block_copy (kmem s) buffer (GET_MESSAGEBYTE_ADDR a) ?len x = kmem s x" for x
    using assms(3) by (auto simp: mq_outside_def block_copy_def)
  note m = mq_sound_mem [OF k(2) this]
  show "fst (mq_copy i a buffer sz s) = ?len" "mq_ok i F (snd (mq_copy i a buffer sz s))"
    "mq_view (snd (mq_copy i a buffer sz s)) i = mq_view s i"
    "scheduler_lock_nest (snd (mq_copy i a buffer sz s)) = scheduler_lock_nest s"
    using k m by (simp_all add: eq mq_ok_def mq_view_def)
  have "bytes_at (kmem (snd (mq_copy i a buffer sz s))) buffer ?len = bytes_at (kmem s) (GET_MESSAGEBYTE_ADDR a) ?len"
    by (simp add: eq bytes_at_block_copy)
  also have "?len \<le> mq_msg_length ?mq a" using len by simp
  note take_bytes_at [OF this, of "kmem s" "GET_MESSAGEBYTE_ADDR a", folded d(1), symmetric]
  also have "take ?len d = take sz d" by (simp add: min_def)
  finally show "bytes_at (kmem (snd (mq_copy i a buffer sz s))) buffer ?len = take sz d" .
qed

lemma mq_release_result:
  assumes "mq_ok i F s" and "nest_ok s" and "a \<in> dom F"
  shows "mq_ok i (F(a := None)) (mq_release i a s)" and "mq_view (mq_release i a s) i = mq_view s i"
    and "kmem (mq_release i a s) = kmem s"
    and "queues s (Mq_Send_Q i) = t # ts \<Longrightarrow> \<not> susp (mq_release i a s) t \<and> th_error (threads (mq_release i a s) t) = RT_EOK"
proof -
  let ?s = "upd_mq i (mq_push_free a) (rt_enter_critical s)"
  have k: "mq_sound (mqueues s i) (kmem s) F" "locked ?s" "kok ?s" using assms(1,2) nest_ok_locked by (simp_all add: mq_ok_def)
  note w = ipc_wake_leave_result [OF k(2,3) is_wait_q_simps(7) [of i]]
  have eq: "mq_release i a s = ipc_wake_leave (Mq_Send_Q i) ?s"
    by (simp add: mq_release_def spin_defs mq_push_free_def [abs_def])
  show "mq_ok i (F(a := None)) (mq_release i a s)" "mq_view (mq_release i a s) i = mq_view s i"
    "kmem (mq_release i a s) = kmem s"
    using w(1,7,8) mq_push_free_sound [OF k(1) assms(3)] by (simp_all add: eq mq_ok_def mq_view_def)
  show "\<not> susp (mq_release i a s) t \<and> th_error (threads (mq_release i a s) t) = RT_EOK"
    if "queues s (Mq_Send_Q i) = t # ts" using w(4,5) that by (simp add: eq)
qed

text \<open>Detaching and resetting wake every waiting thread.\<close>

lemma mq_resume_all:
  fixes i :: nat
  assumes "kok s" and "nest_ok s"
  defines "s2 \<equiv> snd (rt_susp_list_resume_all (Mq_Send_Q i) RT_ERROR
    (snd (rt_susp_list_resume_all (Mq_Q i) RT_ERROR (rt_enter_critical s))))"
  shows "kok s2" "mqueues s2 = mqueues s" "kmem s2 = kmem s"
    "t \<in> set (queues s (Mq_Q i)) \<union> set (queues s (Mq_Send_Q i)) \<Longrightarrow> \<not> susp s2 t \<and> th_error (threads s2 t) = RT_ERROR"
proof -
  have l: "locked (rt_enter_critical s)" "kok (rt_enter_critical s)" using assms nest_ok_locked by simp_all
  note a = rt_susp_list_resume_all_locked [OF l is_wait_q_simps(6) [of i], where e = RT_ERROR]
  note b = rt_susp_list_resume_all_locked [OF a(2,1) is_wait_q_simps(7) [of i], where e = RT_ERROR]
  show "kok s2" "mqueues s2 = mqueues s" "kmem s2 = kmem s"
    using a b by (simp_all add: s2_def)
  show "\<not> susp s2 t \<and> th_error (threads s2 t) = RT_ERROR"
    if "t \<in> set (queues s (Mq_Q i)) \<union> set (queues s (Mq_Send_Q i))"
    using that a(5-7) b(6,7) by (auto simp: s2_def RT_ERROR_def)
qed

lemma rt_mq_reset_result:
  assumes "mq_ok i F s" and "nest_ok s"
  obtains s' where "rt_mq_control i True s = Some (RT_EOK, s')" and "mq_ok i F s'" and "mq_view s' i = []"
proof -
  have k: "kok s" "mq_sound (mqueues s i) (kmem s) F" using assms(1) by (simp_all add: mq_ok_def)
  let ?s2 = "snd (rt_susp_list_resume_all (Mq_Send_Q i) RT_ERROR
    (snd (rt_susp_list_resume_all (Mq_Q i) RT_ERROR (rt_enter_critical s))))"
  note r = mq_resume_all [OF k(1) assms(2), where i = i]
  obtain mq' where m: "mq_reset_loop (mqueues s i) = Some mq'" "mq_sound (mq'\<lparr>mq_entry := 0\<rparr>) (kmem s) F"
    "mq_data (mq'\<lparr>mq_entry := 0\<rparr>) (kmem s) = []"
    by (rule mq_reset_sound [OF k(2)])
  let ?s3 = "upd_mq i (\<lambda>_. mq'\<lparr>mq_entry := 0\<rparr>) ?s2"
  have k3: "kok ?s3" using r(1) by simp
  have "mq_ok i F ?s3" "mq_view ?s3 i = []" using k3 r(2,3) m(2,3) by (simp_all add: mq_ok_def mq_view_def)
  then have "mq_ok i F (leave True ?s3)" "mq_view (leave True ?s3) i = []"
    using resched_mq [OF leave_resched [OF k3] k3] by simp_all
  then show thesis
    using that [of "leave True ?s3"] m(1) r(2) by (simp add: rt_mq_control_def spin_defs Let_def leave_eqs)
qed

section \<open>Initialisation\<close>

lemma mq_free_loop_frame:
  "mq_msg_pool (mq_free_loop str k n mq) = mq_msg_pool mq" "mq_msg_size (mq_free_loop str k n mq) = mq_msg_size mq"
  "mq_max_msgs (mq_free_loop str k n mq) = mq_max_msgs mq" "mq_queue_head (mq_free_loop str k n mq) = mq_queue_head mq"
  "mq_queue_tail (mq_free_loop str k n mq) = mq_queue_tail mq"
  by (induction str k n mq rule: mq_free_loop.induct) (simp_all add: Let_def)

lemma mq_free_loop_chain:
  assumes "chain (mq_msg_next mq) (mq_queue_free mq) (rev (map (\<lambda>j. mq_msg_pool mq + j * stride) [0..<k]))"
    and "0 < mq_msg_pool mq" and "0 < stride" and "mq_msg_pool mq + (k + n) * stride \<le> 2 ^ 32"
  shows "chain (mq_msg_next (mq_free_loop stride k n mq)) (mq_queue_free (mq_free_loop stride k n mq))
    (rev (map (\<lambda>j. mq_msg_pool mq + j * stride) [0..<k + n]))"
  using assms(1,2,4)
proof (induction n arbitrary: k mq)
  case (Suc n)
  let ?a = "mq_msg_pool mq + k * stride"
  have "?a < 2 ^ 32" using Suc.prems(3) assms(3) by (simp add: algebra_simps)
  then have a: "u32 ?a = ?a" by (rule u32_id)
  let ?m = "mq\<lparr>mq_msg_next := (mq_msg_next mq)(?a := mq_queue_free mq), mq_queue_free := ?a\<rparr>"
  have "?a \<notin> set (rev (map (\<lambda>j. mq_msg_pool mq + j * stride) [0..<k]))" using assms(3) by auto
  then have c: "chain (mq_msg_next ?m) (mq_queue_free ?m) (rev (map (\<lambda>j. mq_msg_pool ?m + j * stride) [0..<k + 1]))"
    using Suc.prems(1,2) by simp
  have p: "0 < mq_msg_pool ?m" "mq_msg_pool ?m + (k + 1 + n) * stride \<le> 2 ^ 32" using Suc.prems(2,3) by simp_all
  note Suc.IH [OF c p]
  moreover have "mq_free_loop stride k (Suc n) mq = mq_free_loop stride (k + 1) n ?m" by (simp add: a Let_def)
  ultimately show ?case by simp
qed simp

lemma rt_mq_init_ok:
  assumes "kok s" and "queues s (Mq_Q i) = []" and "queues s (Mq_Send_Q i) = []" and "0 < pool" and "pool + sz \<le> 2 ^ 32"
    and "msz < 2 ^ 16" and fits: "RT_ALIGN msz 8 + 8 \<le> sz" and n: "sz div (RT_ALIGN msz 8 + 8) < 2 ^ 16"
  shows "fst (rt_mq_init i pool msz sz flag next0 len0 s) = RT_EOK"
    and "mq_ok i Map.empty (snd (rt_mq_init i pool msz sz flag next0 len0 s))"
    and "mq_view (snd (rt_mq_init i pool msz sz flag next0 len0 s)) i = []"
    and "threads (snd (rt_mq_init i pool msz sz flag next0 len0 s)) = threads s"
    and "queues (snd (rt_mq_init i pool msz sz flag next0 len0 s)) = queues s"
    and "scheduler_lock_nest (snd (rt_mq_init i pool msz sz flag next0 len0 s)) = scheduler_lock_nest s"
proof -
  define str where "str = RT_ALIGN msz 8 + 8"
  define N where "N = sz div str"
  define mq where "mq = (mqueues s i)\<lparr>mq_flag := flag, mq_msg_pool := pool, mq_msg_size := msz, mq_max_msgs := N,
    mq_msg_next := next0, mq_msg_length := len0, mq_queue_head := 0, mq_queue_tail := 0, mq_queue_free := 0\<rparr>"
  let ?m = "(mq_free_loop str 0 N mq)\<lparr>mq_entry := 0\<rparr>"
  have "RT_ALIGN msz 8 \<le> msz + 7" by (simp add: RT_ALIGN_8)
  then have str: "u32_add (RT_ALIGN msz RT_ALIGN_SIZE) SIZEOF_MQ_MESSAGE = str" "0 < str"
    using assms(6) by (simp_all add: u32_add_id RT_ALIGN_SIZE_def SIZEOF_MQ_MESSAGE_def str_def)
  have N: "0 < N" "N < 2 ^ 16" "N * str \<le> sz" using fits n str(2) by (auto simp: N_def str_def div_greater_zero_iff)
  have eq: "rt_mq_init i pool msz sz flag next0 len0 s =
      (RT_EOK, (upd_mq i (\<lambda>_. ?m) (s\<lparr>queues := (queues s)(Mq_Q i := [])\<rparr>))\<lparr>queues := (queues s)(Mq_Q i := [], Mq_Send_Q i := [])\<rparr>)"
    using str N assms(6) by (simp add: rt_mq_init_def Let_def N_def [symmetric] mq_def)
  have q: "(queues s)(Mq_Q i := [], Mq_Send_Q i := []) = queues s" using assms(2,3) by (auto simp: fun_eq_iff)
  have "chain (mq_msg_next (mq_free_loop str 0 N mq)) (mq_queue_free (mq_free_loop str 0 N mq))
      (rev (map (\<lambda>j. mq_msg_pool mq + j * str) [0..<0 + N]))"
    by (rule mq_free_loop_chain) (use assms(4,5) N(3) str(2) in \<open>auto simp: mq_def\<close>)
  moreover have "mq_stride ?m = str" "mq_slots ?m = map (\<lambda>j. mq_msg_pool mq + j * str) [0..<N]"
    by (simp_all add: mq_slots_def mq_stride_def mq_free_loop_frame mq_def SIZEOF_MQ_MESSAGE_def str_def)
  moreover have "distinct (map (\<lambda>j. mq_msg_pool mq + j * str) [0..<N])" using str(2) by (simp add: distinct_map inj_on_def)
  ultimately have "mq_lists ?m [] (rev (mq_slots ?m)) {}"
    using assms(4-6) N(2,3) by (simp add: mq_lists_def mq_free_loop_frame) (simp add: mq_def)
  note l = mq_invI [OF this] mq_lists_msgs [OF this]
  show "fst (rt_mq_init i pool msz sz flag next0 len0 s) = RT_EOK" by (simp add: eq)
  show "threads (snd (rt_mq_init i pool msz sz flag next0 len0 s)) = threads s"
    "queues (snd (rt_mq_init i pool msz sz flag next0 len0 s)) = queues s"
    "scheduler_lock_nest (snd (rt_mq_init i pool msz sz flag next0 len0 s)) = scheduler_lock_nest s"
    unfolding eq q by (simp_all add: upd_mq_def)
  have "kok (snd (rt_mq_init i pool msz sz flag next0 len0 s))"
    unfolding eq q by (rule iffD2 [OF kok_cong assms(1)]) (simp_all add: upd_mq_def)
  moreover have "mqueues (snd (rt_mq_init i pool msz sz flag next0 len0 s)) i = ?m" by (simp add: eq)
  ultimately show "mq_ok i Map.empty (snd (rt_mq_init i pool msz sz flag next0 len0 s))"
    "mq_view (snd (rt_mq_init i pool msz sz flag next0 len0 s)) i = []"
    using l by (simp_all add: mq_ok_def mq_sound_def mq_view_def mq_data_def)
qed

section \<open>Delivery over a whole run\<close>

text \<open>The queue as the specification sees it: a sequence of byte strings.  A message that is received must be the
  first of the sequence.\<close>

datatype mq_event = Sent "u8 list" | Sent_Urgent "u8 list" | Got "u8 list" | Cleared

fun mq_spec_step :: "mq_event \<Rightarrow> u8 list list \<Rightarrow> u8 list list option" where
  "mq_spec_step (Sent d) q = Some (q @ [d])"
| "mq_spec_step (Sent_Urgent d) q = Some (d # q)"
| "mq_spec_step (Got d) [] = None"
| "mq_spec_step (Got d) (x # q) = (if x = d then Some q else None)"
| "mq_spec_step Cleared q = Some []"

fun mq_spec_run :: "mq_event list \<Rightarrow> u8 list list \<Rightarrow> u8 list list option" where
  "mq_spec_run [] q = Some q"
| "mq_spec_run (e # es) q = Option.bind (mq_spec_step e q) (mq_spec_run es)"

lemma mq_spec_run_append: "mq_spec_run (es @ es') q = Option.bind (mq_spec_run es q) (mq_spec_run es')"
proof (induction es arbitrary: q)
  case (Cons e es)
  show ?case by (cases "mq_spec_step e q") (simp_all add: Cons.IH)
qed simp

text \<open>\<open>mq_trace i s0 es F s\<close>: the steps of any calls on queue \<open>i\<close>, interleaved in any order with each other and with anything
  that leaves the queue and its pool alone, lead from \<open>s0\<close> to \<open>s\<close>; \<open>es\<close> are the messages that went in and out, and calls that
  are under way hold the slots in \<open>F\<close>.  The callers' buffers lie outside of the pool.\<close>

inductive mq_trace :: "nat \<Rightarrow> kernel \<Rightarrow> mq_event list \<Rightarrow> (addr \<Rightarrow> mq_use option) \<Rightarrow> kernel \<Rightarrow> bool" for i s0 where
  start: "mq_trace i s0 [] Map.empty s0"
| send: "mq_trace i s0 es F s \<Longrightarrow> st s t = RT_THREAD_RUNNING \<Longrightarrow> rt_mq_send_enter i sz timeout sf t s = (r, s') \<Longrightarrow>
    mq_trace i s0 es (claimed F (\<lambda>_. Reserved) r) s'"
| send_resume: "mq_trace i s0 es F s \<Longrightarrow> st (rt_schedule s) t = RT_THREAD_RUNNING \<Longrightarrow>
    rt_mq_send_resume i timeout tick0 sf t s = (r, s') \<Longrightarrow> mq_trace i s0 es (claimed F (\<lambda>_. Reserved) r) s'"
| urgent: "mq_trace i s0 es F s \<Longrightarrow> rt_mq_urgent_enter i sz s = (r, s') \<Longrightarrow>
    mq_trace i s0 es (claimed F (\<lambda>_. Reserved) (Done r)) s'"
| fill: "mq_trace i s0 es F s \<Longrightarrow> F a = Some Reserved \<Longrightarrow> sz \<le> mq_msg_size (mqueues s i) \<Longrightarrow>
    mq_outside (mqueues s i) buffer sz \<Longrightarrow>
    mq_trace i s0 es (F(a \<mapsto> Filled (bytes_at (kmem s) buffer sz))) (mq_fill i a buffer sz s)"
| fill_urgent: "mq_trace i s0 es F s \<Longrightarrow> F a = Some Reserved \<Longrightarrow> sz \<le> mq_msg_size (mqueues s i) \<Longrightarrow>
    mq_outside (mqueues s i) buffer sz \<Longrightarrow>
    mq_trace i s0 es (F(a \<mapsto> Urgent (bytes_at (kmem s) buffer sz))) (mq_fill_urgent i a buffer sz s)"
| link: "mq_trace i s0 es F s \<Longrightarrow> F a = Some (Filled d) \<Longrightarrow> nest_ok s \<Longrightarrow>
    mq_trace i s0 (es @ [Sent d]) (F(a := None)) (snd (mq_link i a s))"
| link_urgent: "mq_trace i s0 es F s \<Longrightarrow> F a = Some (Urgent d) \<Longrightarrow> nest_ok s \<Longrightarrow>
    mq_trace i s0 (es @ [Sent_Urgent d]) (F(a := None)) (snd (mq_link_urgent i a s))"
| recv: "mq_trace i s0 es F s \<Longrightarrow> st s t = RT_THREAD_RUNNING \<Longrightarrow> rt_mq_recv_enter i timeout sf t s = (r, s') \<Longrightarrow>
    mq_trace i s0 (es @ map Got (taken (mq_bytes (mqueues s i) (kmem s)) r))
      (claimed F (\<lambda>a. Draining (mq_bytes (mqueues s i) (kmem s) a)) r) s'"
| recv_resume: "mq_trace i s0 es F s \<Longrightarrow> st (rt_schedule s) t = RT_THREAD_RUNNING \<Longrightarrow>
    rt_mq_recv_resume i timeout tick0 sf t s = (r, s') \<Longrightarrow>
    mq_trace i s0 (es @ map Got (taken (mq_bytes (mqueues s i) (kmem s)) r))
      (claimed F (\<lambda>a. Draining (mq_bytes (mqueues s i) (kmem s) a)) r) s'"
| copy: "mq_trace i s0 es F s \<Longrightarrow> F a = Some (Draining d) \<Longrightarrow> mq_outside (mqueues s i) buffer sz \<Longrightarrow>
    mq_trace i s0 es F (snd (mq_copy i a buffer sz s))"
| release: "mq_trace i s0 es F s \<Longrightarrow> F a = Some (Draining d) \<Longrightarrow> nest_ok s \<Longrightarrow>
    mq_trace i s0 es (F(a := None)) (mq_release i a s)"
| reset: "mq_trace i s0 es F s \<Longrightarrow> nest_ok s \<Longrightarrow> rt_mq_control i True s = Some (r, s') \<Longrightarrow>
    mq_trace i s0 (es @ [Cleared]) F s'"
| other: "mq_trace i s0 es F s \<Longrightarrow> kok s' \<Longrightarrow> mqueues s' i = mqueues s i \<Longrightarrow>
    (\<And>x. \<not> mq_outside (mqueues s i) x 1 \<Longrightarrow> kmem s' x = kmem s x) \<Longrightarrow> mq_trace i s0 es F s'"

lemma mq_spec_run_snoc:
  "mq_spec_run es q0 = Some q \<Longrightarrow> mq_spec_run (es @ [e]) q0 = mq_spec_step e q"
  by (cases "mq_spec_step e q") (simp_all add: mq_spec_run_append)

lemma mq_spec_run_taken:
  "mq_spec_run es q0 = Some (taken f r @ q) \<Longrightarrow> mq_spec_run (es @ map Got (taken f r)) q0 = Some q"
  by (auto simp: mq_spec_run_append taken_def split: outcome.splits sum.splits)

lemma mq_trace_sound:
  assumes "mq_trace i s0 es F s" and "mq_ok i Map.empty s0"
  shows "mq_ok i F s \<and> mq_spec_run es (mq_view s0 i) = Some (mq_view s i)"
  using assms
proof induction
  case (send es F s t sz timeout sf r s')
  then show ?case using rt_mq_send_enter_result by metis
next
  case (send_resume es F s t timeout tick0 sf r s')
  then show ?case using rt_mq_send_resume_result by metis
next
  case (urgent es F s sz r s')
  then show ?case using rt_mq_urgent_enter_result by metis
next
  case (fill es F s a sz buffer)
  then show ?case using mq_fill_result(1,2) [of i F s a sz buffer] by (simp add: fun_upd_def)
next
  case (fill_urgent es F s a sz buffer)
  then show ?case using mq_fill_result(3,4) [of i F s a sz buffer] by (simp add: fun_upd_def)
next
  case (link es F s a d)
  then show ?case using mq_link_result(2,3) [of i F s a d] mq_spec_run_snoc by (simp add: fun_upd_def)
next
  case (link_urgent es F s a d)
  then show ?case using mq_link_urgent_result(2,3) [of i F s a d] mq_spec_run_snoc by (simp add: fun_upd_def)
next
  case (recv es F s t timeout sf r s')
  then show ?case using rt_mq_recv_enter_result [of i F s t timeout sf r s'] mq_spec_run_taken by simp
next
  case (recv_resume es F s t timeout tick0 sf r s')
  then show ?case using rt_mq_recv_resume_result [of i F s t timeout tick0 sf r s'] mq_spec_run_taken by simp
next
  case (copy es F s a d buffer sz)
  then show ?case using mq_copy_result(2,4) [of i F s a d buffer sz] by simp
next
  case (release es F s a d)
  then show ?case using mq_release_result(1,2) [of i F s a] by (simp add: fun_upd_def domI)
next
  case (reset es F s r s')
  then show ?case by (metis mq_spec_run_snoc mq_spec_step.simps(5) option.inject prod.inject rt_mq_reset_result)
next
  case (other es F s s')
  then show ?case using mq_sound_mem [of "mqueues s i" "kmem s" F "kmem s'"] by (simp add: mq_ok_def mq_view_def)
qed simp

text \<open>C12: a message queue is a queue of byte strings: in every interleaving of the steps of any calls, preempted at any
  point, the messages that are received are exactly those that the specification's queue gives for the messages sent
  before, in order and byte for byte; a slot that a receiver has taken keeps its bytes until they are copied, and
  the copy in the receiver's buffer is the message, cut to the size of the buffer.\<close>

theorem rt_mq_delivers:
  assumes "mq_trace i s0 es F s" and "mq_ok i Map.empty s0"
  shows "mq_spec_run es (mq_view s0 i) = Some (mq_view s i) \<and> mq_ok i F s \<and>
    (\<forall>a d buffer sz. F a = Some (Draining d) \<longrightarrow> mq_outside (mqueues s i) buffer sz \<longrightarrow>
       (case mq_copy i a buffer sz s of (len, s') \<Rightarrow>
          len = min sz (length d) \<and> bytes_at (kmem s') buffer len = take sz d \<and> mq_ok i F s'))"
  using mq_trace_sound [OF assms] mq_copy_result(1-3) [of i F s]
  by (simp add: case_prod_beta)

section \<open>Calls that are not preempted\<close>

lemma nest_exit: "kok s \<Longrightarrow> locked s \<Longrightarrow> scheduler_lock_nest (rt_exit_critical s) = scheduler_lock_nest s - 1"
proof -
  assume k: "kok s" and l: "locked s"
  have n: "i16 (scheduler_lock_nest s - 1) = scheduler_lock_nest s - 1" using l by (simp add: locked_def i16_id)
  have "kinv (s\<lparr>scheduler_lock_nest := 0\<rparr>)" using kokD(1) [OF k] kinv_cong [of "s\<lparr>scheduler_lock_nest := 0\<rparr>" s] by simp
  from rt_schedule_same(1) [OF this] have "scheduler_lock_nest (rt_schedule (s\<lparr>scheduler_lock_nest := 0\<rparr>)) = 0"
    by (simp add: sched_same_def)
  then show ?thesis using n l by (auto simp: rt_exit_critical_def Let_def locked_def)
qed

text \<open>A critical section that ends without a wake-up.\<close>

lemma section_mq:
  assumes "mq_ok i F s" and "nest_ok s" and "mq_sound mq (kmem s) F'"
  defines "s' \<equiv> rt_exit_critical (upd_mq i (\<lambda>_. mq) (rt_enter_critical s))"
  shows "mq_ok i F' s'" "mqueues s' i = mq" "kmem s' = kmem s" "nest_ok s'"
proof -
  let ?s = "upd_mq i (\<lambda>_. mq) (rt_enter_critical s)"
  have k: "kok ?s" "locked ?s" using assms(1,2) nest_ok_locked by (simp_all add: mq_ok_def)
  note e = exit_mq [OF k(1) k(1)]
  show "mq_ok i F' s'" "mqueues s' i = mq" "kmem s' = kmem s" using e k(1) assms(3) by (simp_all add: s'_def mq_ok_def)
  have "scheduler_lock_nest ?s = scheduler_lock_nest s + 1"
    using assms(2) by (simp add: rt_enter_critical_def nest_ok_def i16_id)
  then show "nest_ok s'" using nest_exit [OF k] assms(2) by (simp add: s'_def nest_ok_def)
qed

lemma rt_mq_send_call:
  assumes "mq_ok i F s" and "nest_ok s" and "sz \<le> mq_msg_size (mqueues s i)" and "mq_outside (mqueues s i) buffer sz"
    and "mq_queue_free (mqueues s i) \<noteq> 0"
  obtains s' where "rt_mq_send i buffer sz t s = (Done RT_EOK, s')" and "mq_ok i F s'"
    and "mq_view s' i = mq_view s i @ [bytes_at (kmem s) buffer sz]"
    and "\<And>u us. queues s (Mq_Q i) = u # us \<Longrightarrow> \<not> susp s' u \<and> th_error (threads s' u) = RT_EOK"
proof -
  let ?mq = "mqueues s i" and ?d = "bytes_at (kmem s) buffer sz" and ?s0 = "upd_mq i (\<lambda>_. mq_reserve (mqueues s i)) (rt_enter_critical s)"
  define a where "a = mq_queue_free ?mq"
  define s1 where "s1 = rt_exit_critical ?s0"
  define s2 where "s2 = mq_fill i a buffer sz s1"
  have sd: "mq_sound ?mq (kmem s) F" using assms(1) by (simp add: mq_ok_def)
  note r = mq_reserve_sound [OF sd assms(5), folded a_def] mq_reserve_result(3) [OF mq_soundD(1) [OF sd] assms(5), folded a_def]
  note s1 = section_mq [OF assms(1,2) r(1), folded s1_def]
  have st1: "sz \<le> mq_msg_size (mqueues s1 i)" "mq_outside (mqueues s1 i) buffer sz" "mq_view s1 i = mq_view s i"
    using s1(2,3) r(2) assms(3,4) by (simp_all add: mq_view_def) (simp_all add: mq_reserve_def mq_outside_def mq_stride_def)
  have "(F(a \<mapsto> Reserved)) a = Some Reserved" by simp
  note f = mq_fill_result(1,2) [OF s1(1) this st1(1,2), folded s2_def]
  have f1: "mq_ok i (F(a \<mapsto> Filled ?d)) s2" "mq_view s2 i = mq_view s i" using f [unfolded fun_upd_upd s1(3)] st1(3) by simp_all
  have n2: "nest_ok s2" "queues s2 = queues s1" using s1(4) by (simp_all add: s2_def mq_fill_def Let_def nest_ok_def)
  have F: "(F(a \<mapsto> Filled ?d)) a = Some (Filled ?d)" "F(a \<mapsto> Filled ?d, a := None) = F" using r(3) by (auto simp: fun_eq_iff domIff)
  note l = mq_link_result [OF f1(1) n2(1) F(1)]
  have "kinv ?s0" using assms(1) by (intro kokD(1)) (simp add: mq_ok_def)
  then have q: "queues s2 (Mq_Q i) = queues s (Mq_Q i)"
    using resched_fields(3) [OF rt_exit_critical_resched] n2(2) by (simp add: s1_def)
  have "upd_mq i mq_reserve (rt_enter_critical s) = ?s0" by (simp add: upd_mq_def)
  then have "rt_mq_send_enter i sz 0 RT_UNINTERRUPTIBLE t s = (Done (Inr a), s1)"
    using assms(3,5) by (simp add: rt_mq_send_enter_def mq_send_loop_def spin_defs Let_def a_def s1_def)
  then have eq: "rt_mq_send i buffer sz t s = (Done (fst (mq_link i a s2)), snd (mq_link i a s2))"
    by (simp add: rt_mq_send_def case_prod_beta s2_def)
  show thesis
    by (rule that [of "snd (mq_link i a s2)"]) (use eq l(1,3,5) l(2) [unfolded F(2)] f1(2) q in simp_all)
qed

lemma rt_mq_recv_call:
  assumes "mq_ok i F s" and "nest_ok s" and "mq_view s i = d # q" and "mq_outside (mqueues s i) buffer sz"
  obtains s' where "rt_mq_recv i buffer sz timeout t s = (Done (int (min sz (length d))), s')" and "mq_ok i F s'"
    and "mq_view s' i = q" and "bytes_at (kmem s') buffer (min sz (length d)) = take sz d"
proof -
  let ?mq = "mqueues s i"
  have sd: "mq_sound ?mq (kmem s) F" using assms(1) by (simp add: mq_ok_def)
  have "mq_entry ?mq \<noteq> 0"
    using mq_soundD(1) [OF sd] assms(3) by (auto simp: mq_inv_def mq_lists_def mq_view_def mq_data_def)
  note e = this
  obtain a d' q' where u': "mq_data ?mq (kmem s) = d' # q'" "fst (mq_unlink ?mq) = a" "d' = mq_bytes ?mq (kmem s) a" "F a = None"
    "mq_sound (snd (mq_unlink ?mq)) (kmem s) (F(a \<mapsto> Draining d'))" "mq_data (snd (mq_unlink ?mq)) (kmem s) = q'"
    by (rule mq_unlink_sound [OF sd e])
  moreover from this assms(3) have "d' = d" "q' = q" by (simp_all add: mq_view_def)
  ultimately have u: "fst (mq_unlink ?mq) = a" "d = mq_bytes ?mq (kmem s) a" "F a = None"
    "mq_sound (snd (mq_unlink ?mq)) (kmem s) (F(a \<mapsto> Draining d))" "mq_data (snd (mq_unlink ?mq)) (kmem s) = q"
    by blast+
  define s1 where "s1 = rt_exit_critical (upd_mq i (\<lambda>_. snd (mq_unlink ?mq)) (rt_enter_critical s))"
  define s2 where "s2 = snd (mq_copy i a buffer sz s1)"
  note s1 = section_mq [OF assms(1,2) u(4), folded s1_def]
  have "(F(a \<mapsto> Draining d)) a = Some (Draining d)" by simp
  moreover have "mq_outside (mqueues s1 i) buffer sz"
    using s1(2) assms(4) by (simp add: mq_unlink_def Let_def mq_outside_def mq_stride_def)
  ultimately have c: "fst (mq_copy i a buffer sz s1) = min sz (length d)" "mq_ok i (F(a \<mapsto> Draining d)) s2"
    "bytes_at (kmem s2) buffer (min sz (length d)) = take sz d" "mq_view s2 i = mq_view s1 i" "nest_ok s2"
    using mq_copy_result [OF s1(1)] s1(4) by (simp_all add: s2_def nest_ok_def)
  have "a \<in> dom (F(a \<mapsto> Draining d))" "F(a \<mapsto> Draining d, a := None) = F" using u(3) by (auto simp: fun_eq_iff)
  note r = mq_release_result [OF c(2,5) this(1)] and F = this(2)
  have "rt_mq_recv_enter i timeout RT_UNINTERRUPTIBLE t s = (Done (Inr a), s1)"
    using e u(1) by (simp add: rt_mq_recv_enter_def mq_recv_loop_def spin_defs Let_def s1_def case_prod_beta)
  then have eq: "rt_mq_recv i buffer sz timeout t s = (Done (int (min sz (length d))), mq_release i a s2)"
    using c(1) by (simp add: rt_mq_recv_def mq_recv_rest_def case_prod_beta s2_def)
  have "mq_view s1 i = q" using s1(2,3) u(5) by (simp add: mq_view_def)
  then show thesis using that [OF eq] r(1) [unfolded F] r(2,3) c(3,4) by simp
qed

text \<open>A message that a call sends into a queue with a free slot, and another call receives, arrives complete: the
  receiver is told its length and finds its bytes in the buffer, cut to the size of the buffer; a receiver that was waiting
  is woken; and the queue is as it was.\<close>

theorem rt_mq_send_recv_roundtrip:
  assumes "mq_ok i F s" and "nest_ok s" and "mq_queue_free (mqueues s i) \<noteq> 0" and "mq_view s i = []"
    and "n \<le> mq_msg_size (mqueues s i)" and "mq_outside (mqueues s i) buffer n"
  shows "\<exists>s'. rt_mq_send i buffer n t s = (Done RT_EOK, s') \<and> mq_view s' i = [bytes_at (kmem s) buffer n] \<and>
    (\<forall>u us. queues s (Mq_Q i) = u # us \<longrightarrow> \<not> susp s' u \<and> th_error (threads s' u) = RT_EOK) \<and>
    (\<forall>buf sz timeout t'. nest_ok s' \<longrightarrow> mq_outside (mqueues s' i) buf sz \<longrightarrow>
       (\<exists>s''. rt_mq_recv i buf sz timeout t' s' = (Done (int (min sz n)), s'') \<and>
          bytes_at (kmem s'') buf (min sz n) = take sz (bytes_at (kmem s) buffer n) \<and> mq_view s'' i = [] \<and> mq_ok i F s''))"
proof -
  obtain s' where s': "rt_mq_send i buffer n t s = (Done RT_EOK, s')" "mq_ok i F s'"
    "mq_view s' i = mq_view s i @ [bytes_at (kmem s) buffer n]"
    "\<And>u us. queues s (Mq_Q i) = u # us \<Longrightarrow> \<not> susp s' u \<and> th_error (threads s' u) = RT_EOK"
    by (rule rt_mq_send_call [OF assms(1,2,5,6,3)]) blast
  have v: "mq_view s' i = [bytes_at (kmem s) buffer n]" using s'(3) assms(4) by simp
  have "\<exists>s''. rt_mq_recv i buf sz timeout t' s' = (Done (int (min sz n)), s'') \<and>
      bytes_at (kmem s'') buf (min sz n) = take sz (bytes_at (kmem s) buffer n) \<and> mq_view s'' i = [] \<and> mq_ok i F s''"
    if "nest_ok s'" "mq_outside (mqueues s' i) buf sz" for buf sz timeout t'
    using rt_mq_recv_call [OF s'(2) that(1) v that(2)] by (metis length_bytes_at)
  then show ?thesis using s'(1,4) v by blast
qed

text \<open>A queue of two messages of up to 16 bytes whose pool is at address 1000.\<close>

definition demo_mq :: kernel where
  "demo_mq = snd (rt_mq_init 0 1000 16 48 0 (\<lambda>_. 0) (\<lambda>_. 0) demo_kernel)"

lemma demo_mq_ok: "mq_ok 0 Map.empty demo_mq" "mq_view demo_mq 0 = []" "nest_ok demo_mq" "st demo_mq 1 = RT_THREAD_RUNNING"
proof -
  have k: "kok demo_kernel" using demo_kernel_kinv by (auto simp: kok_def ttmr_ok_def stat_simps split: if_splits)
  note i = rt_mq_init_ok [OF k, of 0 1000 48 16 0 "\<lambda>_. 0" "\<lambda>_. 0", folded demo_mq_def]
  show "mq_ok 0 Map.empty demo_mq" "mq_view demo_mq 0 = []" by (rule i(2,3); simp add: RT_ALIGN_8)+
  have "threads demo_mq = threads demo_kernel" "scheduler_lock_nest demo_mq = scheduler_lock_nest demo_kernel"
    by (rule i(4,6); simp add: RT_ALIGN_8)+
  then show "nest_ok demo_mq" "st demo_mq 1 = RT_THREAD_RUNNING" by (simp_all add: nest_ok_def stat_simps)
qed

lemma mq_free_loop_2: "mq_free_loop str k 2 mq = mq_free_loop str (k + 2) 0 (mq_free_loop str (k + 1) 1 (mq_free_loop str k 1 mq))"
  by (simp add: numeral_2_eq_2 Let_def)

lemma demo_mq_fields:
  "mq_queue_free (mqueues demo_mq 0) = 1024" "mq_msg_size (mqueues demo_mq 0) = 16" "mq_msg_pool (mqueues demo_mq 0) = 1000"
  "mq_max_msgs (mqueues demo_mq 0) = 2" "kmem demo_mq = kmem demo_kernel" "queues demo_mq (Mq_Q 0) = []"
  by (simp_all add: demo_mq_def rt_mq_init_def Let_def RT_ALIGN_SIZE_def RT_ALIGN_8 SIZEOF_MQ_MESSAGE_def u32_add_def
      mq_free_loop_2 upd_mq_def u32_def)

theorem rt_mq_send_recv_roundtrip_witness:
  "\<exists>s'. rt_mq_send 0 2000 5 1 demo_mq = (Done RT_EOK, s') \<and> mq_view s' 0 = [bytes_at (kmem demo_mq) 2000 5]"
proof -
  have "mq_outside (mqueues demo_mq 0) 2000 5"
    by (simp add: mq_outside_def demo_mq_fields mq_stride_def RT_ALIGN_8 SIZEOF_MQ_MESSAGE_def)
  from rt_mq_send_recv_roundtrip [OF demo_mq_ok(1,3) _ demo_mq_ok(2) _ this, of 1] show ?thesis
    by (auto simp: demo_mq_fields)
qed

theorem rt_mq_delivers_witness:
  "\<exists>F s. mq_trace 0 demo_mq [Sent (bytes_at (kmem demo_mq) 2000 5)] F s \<and> mq_view s 0 = [bytes_at (kmem demo_mq) 2000 5]"
proof -
  let ?s0 = "upd_mq 0 (\<lambda>_. mq_reserve (mqueues demo_mq 0)) (rt_enter_critical demo_mq)"
  let ?s1 = "rt_exit_critical ?s0" and ?F = "[1024 \<mapsto> Reserved]"
  have sd: "mq_sound (mqueues demo_mq 0) (kmem demo_mq) Map.empty" using demo_mq_ok(1) by (simp add: mq_ok_def)
  have "mq_queue_free (mqueues demo_mq 0) \<noteq> 0" by (simp add: demo_mq_fields)
  note s1 = section_mq [OF demo_mq_ok(1,3) mq_reserve_sound(1) [OF sd this], unfolded demo_mq_fields(1)]
  have "upd_mq 0 mq_reserve (rt_enter_critical demo_mq) = ?s0" by (simp add: upd_mq_def)
  then have "rt_mq_send_enter 0 5 0 RT_UNINTERRUPTIBLE 1 demo_mq = (Done (Inr 1024), ?s1)"
    by (simp add: rt_mq_send_enter_def mq_send_loop_def spin_defs Let_def demo_mq_fields)
  from mq_trace.send [OF mq_trace.start demo_mq_ok(4) this] have t1: "mq_trace 0 demo_mq [] ?F ?s1" by simp
  have "mq_outside (mqueues ?s1 0) 2000 5" "5 \<le> mq_msg_size (mqueues ?s1 0)"
    using s1(2) by (simp_all add: mq_outside_def demo_mq_fields mq_stride_def mq_reserve_def RT_ALIGN_8 SIZEOF_MQ_MESSAGE_def)
  from mq_trace.fill [OF t1 _ this(2,1), of 1024] s1(3)
  have t2: "mq_trace 0 demo_mq [] [1024 \<mapsto> Filled (bytes_at (kmem demo_mq) 2000 5)] (mq_fill 0 1024 2000 5 ?s1)"
    by simp
  have "nest_ok (mq_fill 0 1024 2000 5 ?s1)" using s1(4) by (simp add: mq_fill_def Let_def nest_ok_def)
  from mq_trace.link [OF t2 _ this, of 1024 "bytes_at (kmem demo_mq) 2000 5"]
  have t3: "mq_trace 0 demo_mq [Sent (bytes_at (kmem demo_mq) 2000 5)] Map.empty (snd (mq_link 0 1024 (mq_fill 0 1024 2000 5 ?s1)))"
    by simp
  from rt_mq_delivers [OF t3 demo_mq_ok(1)] t3 demo_mq_ok(2) show ?thesis by auto
qed

section \<open>Detaching\<close>

text \<open>A receiver that waits when its queue is detached is woken, but its call returns \<open>1\<close>, the positive \<^verbatim>\<open>RT_ERROR\<close> that the
  detach stored: exactly what it returns for a message of one byte, although nothing was received and the buffer was not
  written.\<close>

theorem rt_mq_detach_reads_as_message:
  assumes "mq_ok i F s" and "nest_ok s" and "t \<in> set (queues s (Mq_Q i))"
  shows "let s' = snd (rt_mq_detach i s); (ret, s'') = mq_recv_rest i buffer sz (rt_mq_recv_resume i timeout tick0 sf t s') in
    \<not> susp s' t \<and> ret = Done (int 1) \<and> kmem s'' = kmem s \<and> mq_view s'' i = mq_view s i"
proof -
  have k: "kok s" using assms(1) by (simp add: mq_ok_def)
  note r = mq_resume_all [OF k assms(2), where i = i]
  note f = resched_fields [OF rt_exit_critical_resched [OF kokD(1) [OF r(1)]]]
  note g = resched_fields [OF rt_schedule_resched [OF f(1)]]
  have "\<not> susp (snd (rt_mq_detach i s)) t \<and> th_error (threads (rt_schedule (snd (rt_mq_detach i s))) t) = RT_ERROR"
    using r(4) [of t] assms(3) f(2,5) g(5) by (simp add: rt_mq_detach_def spin_defs Let_def)
  moreover have "kmem (rt_schedule (snd (rt_mq_detach i s))) = kmem s" "mqueues (rt_schedule (snd (rt_mq_detach i s))) = mqueues s"
    using r(2,3) f(16,17) g(16,17) by (simp_all add: rt_mq_detach_def spin_defs Let_def)
  ultimately show ?thesis
    by (simp add: Let_def rt_mq_recv_resume_def mq_recv_rest_def rt_err_defs mq_view_def)
qed

text \<open>Thread 4 waits for a message.\<close>

definition demo_mq_blocked :: kernel where
  "demo_mq_blocked = (demo_blocked (Mq_Q 0) 0 0)\<lparr>mqueues := mqueues demo_mq\<rparr>"

theorem rt_mq_detach_reads_as_message_witness:
  "fst (mq_recv_rest 0 2000 16 (rt_mq_recv_resume 0 10 0 RT_UNINTERRUPTIBLE 4 (snd (rt_mq_detach 0 demo_mq_blocked)))) = Done 1"
proof -
  note d = demo_blocked_kok [of "Mq_Q 0" 0 0, simplified]
  have "mq_sound (mqueues demo_mq 0) (kmem demo_mq) Map.empty" using demo_mq_ok(1) by (simp add: mq_ok_def)
  then have "mq_ok 0 Map.empty demo_mq_blocked"
    using d(1) by (simp add: mq_ok_def demo_mq_blocked_def demo_mq_fields) (simp add: demo_blocked_def)
  moreover have "nest_ok demo_mq_blocked" "4 \<in> set (queues demo_mq_blocked (Mq_Q 0))"
    using d(2,3) by (simp_all add: demo_mq_blocked_def nest_ok_def)
  ultimately show ?thesis
    using rt_mq_detach_reads_as_message [of 0 Map.empty demo_mq_blocked 4 2000 16 10 0 RT_UNINTERRUPTIBLE]
    by (auto simp: Let_def case_prod_beta)
qed

end
