(* ===== verification/Block_Alloc.thy ===== *)
theory Block_Alloc
  imports Rt_Prelude
begin

text \<open>
  The contract of a dynamic memory provider, as the clients of the system heap and of the memory pools rely on it:
  the live blocks never overlap, an allocation adds one block of at least the size asked for,
  a release takes exactly one away.  What a client concludes for whole sequences of calls is proved here,
  once.
\<close>

fun alloc_all :: "(nat \<Rightarrow> 's \<Rightarrow> (addr \<times> 's) option) \<Rightarrow> nat list \<Rightarrow> 's \<Rightarrow> (addr list \<times> 's) option" where
  "alloc_all alloc [] s = Some ([], s)"
| "alloc_all alloc (n # ns) s =
     (case alloc n s of
        None \<Rightarrow> None
      | Some (p, s1) \<Rightarrow> (case alloc_all alloc ns s1 of None \<Rightarrow> None | Some (ps, s2) \<Rightarrow> Some (p # ps, s2)))"

fun free_all :: "(addr \<Rightarrow> 's \<Rightarrow> 's) \<Rightarrow> addr list \<Rightarrow> 's \<Rightarrow> 's" where
  "free_all free [] s = s"
| "free_all free (p # ps) s = free_all free ps (free p s)"

locale block_allocator =
  fixes inv :: "'s \<Rightarrow> bool"
    and live :: "'s \<Rightarrow> addr \<Rightarrow> nat option"
    and alloc :: "nat \<Rightarrow> 's \<Rightarrow> (addr \<times> 's) option"
    and free :: "addr \<Rightarrow> 's \<Rightarrow> 's"
  assumes apart: "inv s \<Longrightarrow> live s p = Some n \<Longrightarrow> live s q = Some k \<Longrightarrow> p \<noteq> q \<Longrightarrow> p + n \<le> q \<or> q + k \<le> p"
    and alloc_adds: "inv s \<Longrightarrow> alloc n s = Some (p, s') \<Longrightarrow>
      inv s' \<and> live s p = None \<and> (\<exists>k\<ge>n. live s' = (live s)(p \<mapsto> k))"
    and free_takes: "inv s \<Longrightarrow> live s p = Some n \<Longrightarrow> inv (free p s) \<and> live (free p s) = (live s)(p := None)"
begin

lemma alloc_all_live:
  "inv s \<Longrightarrow> alloc_all alloc ns s = Some (ps, s') \<Longrightarrow>
   inv s' \<and> length ps = length ns \<and> distinct ps \<and> (\<forall>p\<in>set ps. live s p = None) \<and>
   (\<forall>p. p \<notin> set ps \<longrightarrow> live s' p = live s p) \<and> (\<forall>i<length ns. \<exists>k\<ge>ns ! i. live s' (ps ! i) = Some k)"
proof (induction ns arbitrary: s ps s')
  case Nil
  then show ?case by auto
next
  case (Cons n ns)
  then obtain p s1 qs where a: "alloc n s = Some (p, s1)" "alloc_all alloc ns s1 = Some (qs, s')" "ps = p # qs"
    by (auto split: option.splits)
  obtain k where k: "inv s1" "live s p = None" "n \<le> k" "live s1 = (live s)(p \<mapsto> k)"
    using alloc_adds [OF Cons.prems(1) a(1)] by blast
  from Cons.IH [OF k(1) a(2)] have q: "inv s'" "length qs = length ns" "distinct qs" "\<forall>r\<in>set qs. live s1 r = None"
    "\<forall>r. r \<notin> set qs \<longrightarrow> live s' r = live s1 r" "\<forall>i<length ns. \<exists>k\<ge>ns ! i. live s' (qs ! i) = Some k" by auto
  have p: "p \<notin> set qs" using q(4) k(4) by auto
  have "live s r = None" if "r \<in> set qs" for r using q(4) that k(4) p by (metis fun_upd_other)
  moreover have "\<exists>k\<ge>(n # ns) ! i. live s' ((p # qs) ! i) = Some k" if "i < length (n # ns)" for i
    using that q(5,6) k(3,4) p by (cases i) auto
  ultimately show ?case using q k(2,4) p a(3) by auto
qed

text \<open>Blocks that are allocated together do not overlap.\<close>

lemma alloc_all_apart:
  assumes "inv s" and "alloc_all alloc ns s = Some (ps, s')" and "i < length ns" and "j < length ns" and "i \<noteq> j"
  shows "ps ! i + ns ! i \<le> ps ! j \<or> ps ! j + ns ! j \<le> ps ! i"
proof -
  note a = alloc_all_live [OF assms(1,2)]
  obtain k l where "ns ! i \<le> k" "live s' (ps ! i) = Some k" "ns ! j \<le> l" "live s' (ps ! j) = Some l"
    using a assms(3,4) by blast
  moreover have "ps ! i \<noteq> ps ! j" using a assms(3-5) by (simp add: nth_eq_iff_index_eq)
  ultimately show ?thesis using apart [of s' "ps ! i" k "ps ! j" l] a by auto
qed

text \<open>Giving everything back, in any order, leaves the other blocks as they were.\<close>

lemma free_all_live:
  "inv s \<Longrightarrow> distinct ps \<Longrightarrow> \<forall>p\<in>set ps. live s p \<noteq> None \<Longrightarrow>
   inv (free_all free ps s) \<and> live (free_all free ps s) = (\<lambda>p. if p \<in> set ps then None else live s p)"
proof (induction ps arbitrary: s)
  case (Cons p ps)
  then obtain n where "live s p = Some n" by auto
  note f = free_takes [OF Cons.prems(1) this]
  have "\<forall>q\<in>set ps. live (free p s) q \<noteq> None" using f Cons.prems(2,3) by auto
  with Cons.IH [of "free p s"] f Cons.prems(2) show ?case by (auto simp: fun_eq_iff)
qed auto

lemma alloc_free_restores:
  assumes "inv s" and "alloc_all alloc ns s = Some (ps, s')" and "set qs = set ps" and "distinct qs"
  shows "inv (free_all free qs s') \<and> live (free_all free qs s') = live s"
proof -
  note a = alloc_all_live [OF assms(1,2)]
  have "\<forall>p\<in>set qs. live s' p \<noteq> None" using a assms(3) by (metis in_set_conv_nth option.distinct(1))
  from free_all_live [OF _ assms(4) this] a assms(3) show ?thesis by (auto simp: fun_eq_iff)
qed

end

end
