(* ===== verification/Small_Mem.thy ===== *)
theory Small_Mem
  imports Kstring Block_Alloc
begin

unbundle bit_operations_syntax

text \<open>
  The small memory allocator, \<^verbatim>\<open>src/mem.c\<close> (the system heap of this configuration): a list of blocks,
  each a header followed by its data, first fit with coalescing on release.

  Pointers into the heap are indices from \<^verbatim>\<open>heap_ptr\<close>, as the code itself computes them.  Headers are kept in
  a typed store by index, user data in a byte memory by address.  Sizes are 32-bit and their
  arithmetic wraps where the source's does.  The two loops are partial functions: \<open>None\<close> is a
  loop that does not end, and on a well-formed heap they are proved to end.

  Proved: the heap stays a chain of blocks without gaps, overlaps or adjacent free blocks, the free pointer
  is at the lowest free block and the accounting is exact; allocation is first fit, succeeds whenever a
  free block is large enough and gives memory that no other allocation has; release gives back exactly
  that block.
\<close>

section \<open>Data\<close>

record rt_small_mem_item =
  pool_ptr :: u32w
  item_next :: nat
  item_prev :: nat

text \<open>\<open>sm_self\<close> is the address of the control block, \<open>items\<close> the headers, \<open>sm_mem\<close> the bytes.\<close>

record rt_small_mem =
  sm_self :: addr
  sm_total :: nat
  sm_used :: nat
  sm_max :: nat
  heap_ptr :: addr
  heap_end :: nat
  lfree :: nat
  mem_size_aligned :: nat
  items :: "nat \<Rightarrow> rt_small_mem_item"
  sm_mem :: memory

definition MIN_SIZE :: nat where "MIN_SIZE = 12"
definition MIN_SIZE_ALIGNED :: nat where "MIN_SIZE_ALIGNED = RT_ALIGN MIN_SIZE RT_ALIGN_SIZE"
definition SIZEOF_STRUCT_MEM :: nat where "SIZEOF_STRUCT_MEM = RT_ALIGN 12 RT_ALIGN_SIZE"
definition SIZEOF_SMALL_MEM :: nat where "SIZEOF_SMALL_MEM = 56"

definition MEM_MASK :: u32w where "MEM_MASK = NOT 0 - 1"
definition MEM_USED :: "addr \<Rightarrow> u32w" where "MEM_USED a = (of_nat a AND MEM_MASK) OR 1"
definition MEM_FREED :: "addr \<Rightarrow> u32w" where "MEM_FREED a = (of_nat a AND MEM_MASK) OR 0"
definition MEM_ISUSED :: "rt_small_mem_item \<Rightarrow> bool" where "MEM_ISUSED it \<longleftrightarrow> pool_ptr it AND NOT MEM_MASK \<noteq> 0"

definition set_pool :: "nat \<Rightarrow> u32w \<Rightarrow> rt_small_mem \<Rightarrow> rt_small_mem" where
  "set_pool o1 x m = m\<lparr>items := (items m)(o1 := (items m o1)\<lparr>pool_ptr := x\<rparr>)\<rparr>"

definition set_next :: "nat \<Rightarrow> nat \<Rightarrow> rt_small_mem \<Rightarrow> rt_small_mem" where
  "set_next o1 x m = m\<lparr>items := (items m)(o1 := (items m o1)\<lparr>item_next := x\<rparr>)\<rparr>"

definition set_prev :: "nat \<Rightarrow> nat \<Rightarrow> rt_small_mem \<Rightarrow> rt_small_mem" where
  "set_prev o1 x m = m\<lparr>items := (items m)(o1 := (items m o1)\<lparr>item_prev := x\<rparr>)\<rparr>"

section \<open>Operations\<close>

definition plug_next :: "nat \<Rightarrow> rt_small_mem \<Rightarrow> rt_small_mem" where
  "plug_next mem m =
     (let nmem = item_next (items m mem)
      in if mem \<noteq> nmem \<and> \<not> MEM_ISUSED (items m nmem) \<and> nmem \<noteq> heap_end m then
           (let m1 = (if lfree m = nmem then m\<lparr>lfree := mem\<rparr> else m);
                m2 = set_pool nmem 0 m1;
                m3 = set_next mem (item_next (items m2 nmem)) m2
            in set_prev (item_next (items m3 nmem)) mem m3)
         else m)"

definition plug_prev :: "nat \<Rightarrow> rt_small_mem \<Rightarrow> rt_small_mem" where
  "plug_prev mem m =
     (let pmem = item_prev (items m mem)
      in if pmem \<noteq> mem \<and> \<not> MEM_ISUSED (items m pmem) then
           (let m1 = (if lfree m = mem then m\<lparr>lfree := pmem\<rparr> else m);
                m2 = set_pool mem 0 m1;
                m3 = set_next pmem (item_next (items m2 mem)) m2
            in set_prev (item_next (items m3 mem)) pmem m3)
         else m)"

definition plug_holes :: "rt_small_mem \<Rightarrow> nat \<Rightarrow> rt_small_mem" where
  "plug_holes m mem = plug_prev mem (plug_next mem m)"

text \<open>The contents of \<open>mem0\<close> around the heap and the previous headers \<open>items0\<close> are whatever the memory holds.\<close>

definition rt_smem_init :: "addr \<Rightarrow> nat \<Rightarrow> (nat \<Rightarrow> rt_small_mem_item) \<Rightarrow> memory \<Rightarrow> rt_small_mem option" where
  "rt_smem_init begin_addr sz items0 mem0 =
     (let small_mem = RT_ALIGN begin_addr RT_ALIGN_SIZE;
          start_addr = u32_add small_mem SIZEOF_SMALL_MEM;
          begin_align = RT_ALIGN start_addr RT_ALIGN_SIZE;
          end_align = RT_ALIGN_DOWN (u32_add begin_addr sz) RT_ALIGN_SIZE
      in if end_align > 2 * SIZEOF_STRUCT_MEM \<and> end_align - 2 * SIZEOF_STRUCT_MEM \<ge> start_addr then
           (let mem_size = u32_sub (u32_sub end_align begin_align) (2 * SIZEOF_STRUCT_MEM);
                e = u32_add mem_size SIZEOF_STRUCT_MEM
            in Some \<lparr>sm_self = small_mem, sm_total = mem_size, sm_used = 0, sm_max = 0, heap_ptr = begin_align,
                 heap_end = e, lfree = 0, mem_size_aligned = mem_size,
                 items = items0(0 := \<lparr>pool_ptr = MEM_FREED small_mem, item_next = e, item_prev = 0\<rparr>,
                   e := \<lparr>pool_ptr = MEM_USED small_mem, item_next = e, item_prev = e\<rparr>),
                 sm_mem = (\<lambda>a. if small_mem \<le> a \<and> a < small_mem + SIZEOF_SMALL_MEM then 0 else mem0 a)\<rparr>)
         else None)"

text \<open>The first-fit search; the result of a search that ends is the index of the block, if there is one.\<close>

partial_function (option) smem_find :: "rt_small_mem \<Rightarrow> nat \<Rightarrow> nat \<Rightarrow> nat option option" where
  "smem_find m sz ptr =
     (if ptr \<le> mem_size_aligned m - sz then
        (if \<not> MEM_ISUSED (items m ptr) \<and> u32_sub (item_next (items m ptr)) (u32_add ptr SIZEOF_STRUCT_MEM) \<ge> sz
         then Some (Some ptr)
         else smem_find m sz (item_next (items m ptr)))
      else Some None)"

partial_function (option) smem_next_free :: "rt_small_mem \<Rightarrow> nat \<Rightarrow> nat option" where
  "smem_next_free m p =
     (if MEM_ISUSED (items m p) \<and> p \<noteq> heap_end m then smem_next_free m (item_next (items m p)) else Some p)"

definition smem_account :: "nat \<Rightarrow> rt_small_mem \<Rightarrow> rt_small_mem" where
  "smem_account n m =
     (let used = u32_add (sm_used m) n
      in m\<lparr>sm_used := used, sm_max := (if sm_max m < used then used else sm_max m)\<rparr>)"

text \<open>A block is cut in two when what remains is large enough to be a block.\<close>

definition smem_split :: "nat \<Rightarrow> nat \<Rightarrow> rt_small_mem \<Rightarrow> rt_small_mem" where
  "smem_split ptr sz m =
     (let ptr2 = u32_add (u32_add ptr SIZEOF_STRUCT_MEM) sz;
          nxt = item_next (items m ptr);
          m1 = m\<lparr>items := (items m)(ptr2 := \<lparr>pool_ptr = MEM_FREED (sm_self m), item_next = nxt, item_prev = ptr\<rparr>)\<rparr>;
          m2 = set_next ptr ptr2 m1
      in if nxt \<noteq> u32_add (mem_size_aligned m2) SIZEOF_STRUCT_MEM then set_prev nxt ptr2 m2 else m2)"

definition rt_smem_alloc :: "rt_small_mem \<Rightarrow> nat \<Rightarrow> (addr \<times> rt_small_mem) option" where
  "rt_smem_alloc m sz0 =
     (if sz0 = 0 then Some (0, m)
      else
        (let sz1 = RT_ALIGN sz0 RT_ALIGN_SIZE;
             sz = (if sz1 < MIN_SIZE_ALIGNED then MIN_SIZE_ALIGNED else sz1)
         in if sz > mem_size_aligned m then Some (0, m)
            else
              (case smem_find m sz (lfree m) of
                 None \<Rightarrow> None
               | Some None \<Rightarrow> Some (0, m)
               | Some (Some ptr) \<Rightarrow>
                   (let room = u32_sub (item_next (items m ptr)) (u32_add ptr SIZEOF_STRUCT_MEM);
                        m1 = (if room \<ge> u32_add (u32_add sz SIZEOF_STRUCT_MEM) MIN_SIZE_ALIGNED
                              then smem_account (u32_add sz SIZEOF_STRUCT_MEM) (smem_split ptr sz m)
                              else smem_account (u32_sub (item_next (items m ptr)) ptr) m);
                        m2 = set_pool ptr (MEM_USED (sm_self m1)) m1;
                        result = heap_ptr m2 + ptr + SIZEOF_STRUCT_MEM
                    in if ptr = lfree m2
                       then (case smem_next_free m2 (lfree m2) of
                               None \<Rightarrow> None | Some p \<Rightarrow> Some (result, m2\<lparr>lfree := p\<rparr>))
                       else Some (result, m2)))))"

definition rt_smem_free :: "rt_small_mem \<Rightarrow> addr \<Rightarrow> rt_small_mem" where
  "rt_smem_free m rmem =
     (if rmem = 0 then m
      else
        (let mem = rmem - SIZEOF_STRUCT_MEM - heap_ptr m;
             m1 = set_pool mem (MEM_FREED (sm_self m)) m;
             m2 = (if mem < lfree m1 then m1\<lparr>lfree := mem\<rparr> else m1);
             m3 = m2\<lparr>sm_used := u32_sub (sm_used m2) (u32_sub (item_next (items m2 mem)) mem)\<rparr>
         in plug_holes m3 mem))"

definition rt_smem_realloc :: "rt_small_mem \<Rightarrow> addr \<Rightarrow> nat \<Rightarrow> (addr \<times> rt_small_mem) option" where
  "rt_smem_realloc m rmem newsize0 =
     (let newsize = RT_ALIGN newsize0 RT_ALIGN_SIZE
      in if newsize > mem_size_aligned m then Some (0, m)
         else if newsize = 0 then Some (0, rt_smem_free m rmem)
         else if rmem = 0 then rt_smem_alloc m newsize
         else
           (let ptr = rmem - SIZEOF_STRUCT_MEM - heap_ptr m;
                sz = u32_sub (u32_sub (item_next (items m ptr)) ptr) SIZEOF_STRUCT_MEM
            in if sz = newsize then Some (rmem, m)
               else if u32_add (u32_add newsize SIZEOF_STRUCT_MEM) MIN_SIZE < sz then
                 (let m1 = m\<lparr>sm_used := u32_sub (sm_used m) (u32_sub sz newsize)\<rparr>;
                      m2 = smem_split ptr newsize m1;
                      ptr2 = u32_add (u32_add ptr SIZEOF_STRUCT_MEM) newsize;
                      m3 = (if ptr2 < lfree m2 then m2\<lparr>lfree := ptr2\<rparr> else m2)
                  in Some (rmem, plug_holes m3 ptr2))
               else
                 (case rt_smem_alloc m newsize of
                    None \<Rightarrow> None
                  | Some (nmem, m1) \<Rightarrow>
                      if nmem \<noteq> 0 then
                        (let m2 = m1\<lparr>sm_mem := snd (rt_memcpy (sm_mem m1) nmem rmem (if sz < newsize then sz else newsize))\<rparr>
                         in Some (nmem, rt_smem_free m2 rmem))
                      else Some (nmem, m1))))"

section \<open>Blocks\<close>

text \<open>\<open>linked it p os e\<close>: the headers at the indices \<open>os\<close> form a chain, the first one's predecessor is \<open>p\<close>, the last
  one's successor \<open>e\<close>, and every header is followed by at least its own size.\<close>

fun linked :: "(nat \<Rightarrow> rt_small_mem_item) \<Rightarrow> nat \<Rightarrow> nat list \<Rightarrow> nat \<Rightarrow> bool" where
  "linked it p [] e \<longleftrightarrow> True"
| "linked it p (x # xs) e \<longleftrightarrow>
     item_prev (it x) = p \<and> item_next (it x) = hd (xs @ [e]) \<and> x + 16 \<le> hd (xs @ [e]) \<and> 8 dvd x \<and> linked it x xs e"

lemma linked_append:
  "linked it p (as @ bs) e \<longleftrightarrow> linked it p as (hd (bs @ [e])) \<and> linked it (last (p # as)) bs e"
  by (induction as arbitrary: p) (auto simp: hd_append)

lemma linked_frame:
  "(\<And>x. x \<in> set os \<Longrightarrow> item_next (it' x) = item_next (it x) \<and> item_prev (it' x) = item_prev (it x)) \<Longrightarrow>
   linked it' p os e = linked it p os e"
  by (induction os arbitrary: p) auto

lemma linked_hd_less: "linked it p (x # xs) e \<Longrightarrow> y \<in> set (xs @ [e]) \<Longrightarrow> x + 16 \<le> y"
proof (induction xs arbitrary: x p)
  case (Cons z xs)
  then show ?case by (cases "y = z") fastforce+
qed auto

lemma linked_sorted: "linked it p os e \<Longrightarrow> sorted_wrt (\<lambda>a b. a + 16 \<le> b) (os @ [e])"
proof (induction os arbitrary: p)
  case (Cons x xs)
  have "\<forall>y\<in>set (xs @ [e]). x + 16 \<le> y" using linked_hd_less [OF Cons.prems] by blast
  with Cons.IH [of x] Cons.prems show ?case by simp
qed simp

lemma linked_distinct: "linked it p os e \<Longrightarrow> distinct (os @ [e])"
proof (induction os arbitrary: p)
  case (Cons x xs)
  have "x \<notin> set (xs @ [e])" using linked_hd_less [OF Cons.prems, of x] by fastforce
  with Cons.IH [of x] Cons.prems show ?case by simp
qed simp

lemma linked_next_split:
  assumes "linked it p (as @ x # bs) e"
  shows "item_next (it x) = hd (bs @ [e])" "x + 16 \<le> item_next (it x)" "8 dvd x"
    "item_prev (it x) = last (p # as)"
  using assms by (auto simp: linked_append)

lemma linked_bounds: "linked it p os e \<Longrightarrow> x \<in> set os \<Longrightarrow> x + 16 \<le> item_next (it x) \<and> item_next (it x) \<le> e \<and> 8 dvd x"
proof -
  assume l: "linked it p os e" and "x \<in> set os"
  then obtain as bs where os: "os = as @ x # bs" by (meson split_list)
  have "hd (bs @ [e]) \<le> e"
    using linked_sorted [OF l] by (cases bs) (auto simp: os sorted_wrt_append)
  then show ?thesis using linked_next_split [OF l [unfolded os]] by simp
qed

text \<open>The blocks of a heap, found by following the headers.\<close>

fun walk :: "(nat \<Rightarrow> rt_small_mem_item) \<Rightarrow> nat \<Rightarrow> nat \<Rightarrow> nat \<Rightarrow> nat list" where
  "walk it 0 x e = []"
| "walk it (Suc n) x e = (if x = e then [] else x # walk it n (item_next (it x)) e)"

definition blocks :: "rt_small_mem \<Rightarrow> nat list" where
  "blocks m = walk (items m) (heap_end m) 0 (heap_end m)"

lemma walk_linked: "linked it p os e \<Longrightarrow> length os \<le> n \<Longrightarrow> walk it n (hd (os @ [e])) e = os"
proof (induction os arbitrary: p n)
  case Nil
  then show ?case by (cases n) simp_all
next
  case (Cons x xs)
  then obtain n' where n: "n = Suc n'" by (cases n) simp_all
  have "x \<noteq> e" using linked_distinct [OF Cons.prems(1)] by auto
  then show ?case using Cons.IH [of x n'] Cons.prems by (simp add: n)
qed

lemma linked_length: "linked it p os e \<Longrightarrow> length os + hd (os @ [e]) \<le> e"
proof (induction os arbitrary: p)
  case (Cons x xs)
  then show ?case using Cons.IH [of x] by simp
qed simp

section \<open>The heap invariant\<close>

abbreviation is_used :: "rt_small_mem \<Rightarrow> nat \<Rightarrow> bool" where
  "is_used m x \<equiv> MEM_ISUSED (items m x)"

definition block_len :: "rt_small_mem \<Rightarrow> nat \<Rightarrow> nat" where
  "block_len m x = item_next (items m x) - x"

text \<open>No two neighbours are free.\<close>

fun coalesced :: "(nat \<Rightarrow> bool) \<Rightarrow> nat list \<Rightarrow> bool" where
  "coalesced u (x # y # xs) \<longleftrightarrow> (u x \<or> u y) \<and> coalesced u (y # xs)"
| "coalesced u xs \<longleftrightarrow> True"

definition lowest_free :: "rt_small_mem \<Rightarrow> nat list \<Rightarrow> nat" where
  "lowest_free m os = hd (filter (\<lambda>x. \<not> is_used m x) os @ [heap_end m])"

definition used_sum :: "rt_small_mem \<Rightarrow> nat list \<Rightarrow> nat" where
  "used_sum m os = sum_list (map (block_len m) (filter (is_used m) os))"

text \<open>A chain of blocks with exact accounting: what every operation keeps, except for coalescing, which the
  release restores at its end.\<close>

definition heap_chain :: "rt_small_mem \<Rightarrow> nat list \<Rightarrow> bool" where
  "heap_chain m os \<longleftrightarrow>
     hd os = 0 \<and> os \<noteq> [] \<and> linked (items m) 0 os (heap_end m) \<and>
     mem_size_aligned m + 16 = heap_end m \<and> heap_ptr m + heap_end m + 16 \<le> 2 ^ 32 \<and> 8 dvd heap_ptr m \<and>
     0 < heap_ptr m \<and> 8 dvd mem_size_aligned m \<and> is_used m (heap_end m) \<and>
     lfree m = lowest_free m os \<and> sm_used m = used_sum m os \<and> sm_used m \<le> sm_max m"

definition heap_ok :: "rt_small_mem \<Rightarrow> bool" where
  "heap_ok m \<longleftrightarrow> heap_chain m (blocks m) \<and> coalesced (is_used m) (blocks m)"

lemma heap_chainD:
  assumes "heap_chain m os"
  shows "hd os = 0" "os \<noteq> []" "linked (items m) 0 os (heap_end m)" "mem_size_aligned m + 16 = heap_end m"
    "heap_ptr m + heap_end m + 16 \<le> 2 ^ 32" "8 dvd heap_ptr m" "0 < heap_ptr m" "8 dvd mem_size_aligned m"
    "is_used m (heap_end m)" "lfree m = lowest_free m os" "sm_used m = used_sum m os" "sm_used m \<le> sm_max m"
  using assms by (simp_all add: heap_chain_def)

lemma heap_chain_blocks: "heap_chain m os \<Longrightarrow> blocks m = os"
proof -
  assume h: "heap_chain m os"
  then have l: "linked (items m) 0 os (heap_end m)" and 0: "hd (os @ [heap_end m]) = 0"
    by (auto simp: heap_chain_def)
  have "length os \<le> heap_end m" using linked_length [OF l] by simp
  from walk_linked [OF l this] 0 show ?thesis by (simp add: blocks_def)
qed

lemma heap_okI: "heap_chain m os \<Longrightarrow> coalesced (is_used m) os \<Longrightarrow> heap_ok m"
  using heap_chain_blocks by (simp add: heap_ok_def)

lemma mem_flags [simp]:
  "MEM_ISUSED (it\<lparr>pool_ptr := MEM_USED a\<rparr>)" "\<not> MEM_ISUSED (it\<lparr>pool_ptr := MEM_FREED a\<rparr>)"
  "\<not> MEM_ISUSED \<lparr>pool_ptr = MEM_FREED a, item_next = n, item_prev = p\<rparr>"
  "MEM_ISUSED \<lparr>pool_ptr = MEM_USED a, item_next = n, item_prev = p\<rparr>"
  "MEM_ISUSED (it\<lparr>item_next := n\<rparr>) = MEM_ISUSED it" "MEM_ISUSED (it\<lparr>item_prev := p\<rparr>) = MEM_ISUSED it"
proof -
  have m: "NOT MEM_MASK = 1" by (simp add: MEM_MASK_def)
  have b: "((x AND MEM_MASK) OR 1) AND 1 = 1" "(x AND MEM_MASK) AND 1 = 0" for x :: u32w
    by (rule bit_word_eqI; auto simp: MEM_MASK_def bit_simps)+
  show "MEM_ISUSED (it\<lparr>pool_ptr := MEM_USED a\<rparr>)" "\<not> MEM_ISUSED (it\<lparr>pool_ptr := MEM_FREED a\<rparr>)"
    "\<not> MEM_ISUSED \<lparr>pool_ptr = MEM_FREED a, item_next = n, item_prev = p\<rparr>"
    "MEM_ISUSED \<lparr>pool_ptr = MEM_USED a, item_next = n, item_prev = p\<rparr>"
    unfolding MEM_ISUSED_def MEM_USED_def MEM_FREED_def m by (simp_all add: b)
qed (simp_all add: MEM_ISUSED_def)

lemma sizes [simp]: "SIZEOF_STRUCT_MEM = 16" "MIN_SIZE_ALIGNED = 16" "MIN_SIZE = 12" "SIZEOF_SMALL_MEM = 56"
  by (simp_all add: SIZEOF_STRUCT_MEM_def MIN_SIZE_ALIGNED_def MIN_SIZE_def SIZEOF_SMALL_MEM_def RT_ALIGN_SIZE_def RT_ALIGN_8)

lemma set_item_simps [simp]:
  "items (set_pool x a m) = (items m)(x := (items m x)\<lparr>pool_ptr := a\<rparr>)"
  "items (set_next x b m) = (items m)(x := (items m x)\<lparr>item_next := b\<rparr>)"
  "items (set_prev x b m) = (items m)(x := (items m x)\<lparr>item_prev := b\<rparr>)"
  by (simp_all add: set_pool_def set_next_def set_prev_def)

lemma set_frame [simp]:
  "heap_end (set_pool x a m) = heap_end m" "heap_end (set_next x b m) = heap_end m" "heap_end (set_prev x b m) = heap_end m"
  "heap_ptr (set_pool x a m) = heap_ptr m" "heap_ptr (set_next x b m) = heap_ptr m" "heap_ptr (set_prev x b m) = heap_ptr m"
  "lfree (set_pool x a m) = lfree m" "lfree (set_next x b m) = lfree m" "lfree (set_prev x b m) = lfree m"
  "sm_used (set_pool x a m) = sm_used m" "sm_used (set_next x b m) = sm_used m" "sm_used (set_prev x b m) = sm_used m"
  "sm_max (set_pool x a m) = sm_max m" "sm_max (set_next x b m) = sm_max m" "sm_max (set_prev x b m) = sm_max m"
  "sm_mem (set_pool x a m) = sm_mem m" "sm_mem (set_next x b m) = sm_mem m" "sm_mem (set_prev x b m) = sm_mem m"
  "sm_self (set_pool x a m) = sm_self m" "sm_self (set_next x b m) = sm_self m" "sm_self (set_prev x b m) = sm_self m"
  "sm_total (set_pool x a m) = sm_total m" "sm_total (set_next x b m) = sm_total m" "sm_total (set_prev x b m) = sm_total m"
  "mem_size_aligned (set_pool x a m) = mem_size_aligned m" "mem_size_aligned (set_next x b m) = mem_size_aligned m"
  "mem_size_aligned (set_prev x b m) = mem_size_aligned m"
  by (simp_all add: set_pool_def set_next_def set_prev_def)

section \<open>Joining and cutting blocks\<close>

definition merge :: "nat \<Rightarrow> nat \<Rightarrow> rt_small_mem \<Rightarrow> rt_small_mem" where
  "merge x y m = set_prev (item_next (items m y)) x (set_next x (item_next (items m y)) (set_pool y 0 m))"

text \<open>What an operation on one part of the heap keeps of the blocks in \<open>S\<close>.\<close>

definition same_blocks :: "rt_small_mem \<Rightarrow> rt_small_mem \<Rightarrow> nat set \<Rightarrow> bool" where
  "same_blocks m m' S \<longleftrightarrow> (\<forall>z\<in>S. is_used m' z = is_used m z \<and> (is_used m z \<longrightarrow> item_next (items m' z) = item_next (items m z))) \<and>
     heap_ptr m' = heap_ptr m \<and> heap_end m' = heap_end m \<and> mem_size_aligned m' = mem_size_aligned m \<and>
     sm_self m' = sm_self m \<and> sm_mem m' = sm_mem m"

lemma same_blocks_used_sum: "same_blocks m m' (set os) \<Longrightarrow> used_sum m' os = used_sum m os"
  unfolding used_sum_def by (rule arg_cong [where f = sum_list]) (auto simp: same_blocks_def block_len_def cong: filter_cong)

lemma same_blocks_lowest: "same_blocks m m' (set os) \<Longrightarrow> lowest_free m' os = lowest_free m os"
  by (simp add: same_blocks_def lowest_free_def cong: filter_cong)

lemma same_blocks_trans: "same_blocks m m1 S \<Longrightarrow> same_blocks m1 m2 T \<Longrightarrow> T \<subseteq> S \<Longrightarrow> same_blocks m m2 T"
  unfolding same_blocks_def by (simp add: subset_iff)

lemma merge_linked:
  assumes "linked it p (as @ x # y # bs) e" and "n = hd (bs @ [e])"
    and "\<And>z. z \<in> set (as @ [x]) \<Longrightarrow> item_prev (it' z) = item_prev (it z)"
    and "\<And>z. z \<in> set (as @ bs) \<Longrightarrow> item_next (it' z) = item_next (it z)"
    and "item_next (it' x) = n" and "item_prev (it' n) = x"
    and "\<And>z. z \<in> set bs \<Longrightarrow> z \<noteq> n \<Longrightarrow> item_prev (it' z) = item_prev (it z)"
  shows "linked it' p (as @ x # bs) e"
proof -
  have l: "linked it p as x" "item_prev (it x) = last (p # as)" "x + 16 \<le> y" "y + 16 \<le> n" "8 dvd x" "linked it y bs e"
    using assms(1,2) by (simp_all add: linked_append)
  have d: "distinct (bs @ [e])" using linked_distinct [OF assms(1)] by simp
  have "linked it' x bs e"
  proof (cases bs)
    case (Cons b cs)
    have "linked it' b cs e = linked it b cs e" by (rule linked_frame) (use assms(2,4,7) d Cons in auto)
    with l(6) assms(2,4,6) Cons show ?thesis by auto
  qed simp
  moreover have "linked it' p as x" using l(1) assms(3,4) by (subst linked_frame) auto
  ultimately show ?thesis using l(2-5) assms(2,3,5) by (simp add: linked_append)
qed

lemma merge_chain:
  assumes h: "heap_chain m (as @ x # y # bs)" and x: "\<not> is_used m x" and y: "\<not> is_used m y"
  shows "heap_chain (merge x y m) (as @ x # bs)" and "same_blocks m (merge x y m) (set (as @ x # bs))"
proof -
  let ?e = "heap_end m" and ?m = "merge x y m"
  let ?n = "item_next (items m y)"
  have l: "linked (items m) 0 (as @ x # y # bs) ?e" using h by (simp add: heap_chain_def)
  have n: "?n = hd (bs @ [?e])" using l by (simp add: linked_append)
  have d: "distinct (as @ x # y # bs @ [?e])" using linked_distinct [OF l] by simp
  then have ny: "?n \<notin> set (as @ [x, y])" unfolding n by (cases bs) auto
  have "linked (items ?m) 0 (as @ x # bs) ?e"
    by (rule merge_linked [OF l n]) (use d ny in \<open>auto simp: merge_def\<close>)
  moreover show s: "same_blocks m ?m (set (as @ x # bs))"
    using d x ny by (auto simp: same_blocks_def merge_def)
  moreover have "is_used ?m ?e" using h d ny by (auto simp: heap_chain_def merge_def)
  moreover have "lowest_free m (as @ x # bs) = lowest_free m (as @ x # y # bs)"
    using x by (simp add: lowest_free_def hd_append)
  moreover have "used_sum m (as @ x # bs) = used_sum m (as @ x # y # bs)" using x y by (simp add: used_sum_def)
  ultimately show "heap_chain ?m (as @ x # bs)"
    using h same_blocks_used_sum [OF s] same_blocks_lowest [OF s]
    by (cases as) (auto simp: heap_chain_def merge_def)
qed

lemma lowest_free_in: "z \<in> set as \<Longrightarrow> \<not> is_used m z \<Longrightarrow> lowest_free m (as @ bs) \<in> set as"
proof -
  assume "z \<in> set as" "\<not> is_used m z"
  then have "filter (\<lambda>x. \<not> is_used m x) as \<noteq> []" by (auto simp: filter_empty_conv)
  from hd_in_set [OF this] this show ?thesis by (auto simp: lowest_free_def hd_append)
qed

lemma plug_next_eq:
  assumes "heap_chain m (as @ x # bs)" and "\<not> is_used m x"
  shows "plug_next x m = (case bs of [] \<Rightarrow> m | y # _ \<Rightarrow> if is_used m y then m else merge x y m)"
proof -
  let ?e = "heap_end m"
  have l: "linked (items m) 0 (as @ x # bs) ?e" and e: "is_used m ?e" and lf: "lfree m = lowest_free m (as @ x # bs)"
    using assms(1) by (simp_all add: heap_chain_def)
  have n: "item_next (items m x) = hd (bs @ [?e])" using linked_next_split(1) [OF l] .
  have d: "distinct (as @ x # bs @ [?e])" using linked_distinct [OF l] by simp
  show ?thesis
  proof (cases bs)
    case Nil
    then show ?thesis using n e by (simp add: plug_next_def)
  next
    case (Cons y ys)
    have "lfree m \<noteq> y" using lf assms(2) d Cons lowest_free_in [of x "as @ [x]" m bs] by auto
    then show ?thesis using n d Cons by (auto simp: plug_next_def merge_def Let_def)
  qed
qed

lemma plug_prev_eq:
  assumes "heap_chain m (as @ x # bs)" and "\<not> is_used m x"
  shows "plug_prev x m = (if as = [] \<or> is_used m (last as) then m else merge (last as) x m)"
proof -
  let ?e = "heap_end m"
  have l: "linked (items m) 0 (as @ x # bs) ?e" and lf: "lfree m = lowest_free m (as @ x # bs)" and h0: "hd (as @ x # bs) = 0"
    using assms(1) by (simp_all add: heap_chain_def)
  have p: "item_prev (items m x) = last (0 # as)" using linked_next_split(4) [OF l] .
  have d: "distinct (as @ x # bs @ [?e])" using linked_distinct [OF l] by simp
  show ?thesis
  proof (cases as rule: rev_cases)
    case Nil
    then show ?thesis using p h0 by (simp add: plug_prev_def)
  next
    case (snoc zs z)
    have "lfree m \<noteq> x" if "\<not> is_used m z"
      using lowest_free_in [of z as m "x # bs"] that lf d snoc by auto
    then show ?thesis using p d snoc by (auto simp: plug_prev_def merge_def Let_def)
  qed
qed

lemma coalesced_Cons: "coalesced u (x # xs) \<longleftrightarrow> (xs = [] \<or> u x \<or> u (hd xs)) \<and> coalesced u xs"
  by (cases xs) auto

lemma coalesced_append:
  "coalesced u (as @ bs) \<longleftrightarrow> coalesced u as \<and> coalesced u bs \<and> (as = [] \<or> bs = [] \<or> u (last as) \<or> u (hd bs))"
  by (induction as) (auto simp: coalesced_Cons hd_append)

lemma coalesced_cong: "(\<And>z. z \<in> set os \<Longrightarrow> u' z = u z) \<Longrightarrow> coalesced u' os = coalesced u os"
  by (induction os) (auto simp: coalesced_Cons)

lemma heap_chain_distinct: "heap_chain m os \<Longrightarrow> distinct (os @ [heap_end m])"
  using linked_distinct heap_chainD(3) by blast

lemma plug_holes_chain:
  assumes h: "heap_chain m (as @ x # bs)" and x: "\<not> is_used m x"
    and ca: "coalesced (is_used m) as" and cb: "coalesced (is_used m) bs"
  obtains os' where "heap_chain (plug_holes m x) os'" "coalesced (is_used (plug_holes m x)) os'"
    "same_blocks m (plug_holes m x) (set os')" "set os' \<subseteq> set (as @ x # bs)"
    "\<And>z. z \<in> set (as @ x # bs) \<Longrightarrow> is_used m z \<Longrightarrow> z \<in> set os'"
proof -
  define bs' where "bs' = (case bs of [] \<Rightarrow> [] | y # ys \<Rightarrow> if is_used m y then bs else ys)"
  define m1 where "m1 = plug_next x m"
  note p = plug_next_eq [OF h x, folded m1_def]
  have m1: "heap_chain m1 (as @ x # bs')" "same_blocks m m1 (set (as @ x # bs'))"
    using h p merge_chain [of m as x _ _, OF _ x] by (auto simp: bs'_def same_blocks_def split: list.splits)
  have b': "coalesced (is_used m) bs'" "bs' = [] \<or> is_used m (hd bs')" "set bs' \<subseteq> set bs"
    using cb by (auto simp: bs'_def coalesced_Cons split: list.splits)
  have keep: "z \<in> set bs'" if "z \<in> set bs" "is_used m z" for z
    using that by (cases bs) (auto simp: bs'_def)
  have u1: "is_used m1 z = is_used m z" if "z \<in> set (as @ x # bs')" for z using m1(2) that by (auto simp: same_blocks_def)
  have x1: "\<not> is_used m1 x" using u1 x by simp
  note q = plug_prev_eq [OF m1(1) x1]
  have eq: "plug_holes m x = plug_prev x m1" by (simp add: plug_holes_def m1_def)
  show thesis
  proof (cases "as = [] \<or> is_used m (last as)")
    case True
    then have "plug_holes m x = m1" using q u1 [of "last as"] by (auto simp: eq)
    moreover have "coalesced (is_used m1) (as @ x # bs')"
      using coalesced_cong [of "as @ x # bs'" "is_used m1" "is_used m"] u1 ca b' True
      by (auto simp: coalesced_append coalesced_Cons)
    ultimately show thesis using m1 b'(3) keep by (intro that [of "as @ x # bs'"]) auto
  next
    case False
    then obtain cs z where as: "as = cs @ [z]" "\<not> is_used m z" by (cases as rule: rev_cases) auto
    then have z: "\<not> is_used m1 z" using u1 by simp
    have "plug_holes m x = merge z x m1" using q z as by (simp add: eq)
    moreover note merge_chain [of m1 cs z x bs', OF _ z x1]
    ultimately have m2: "heap_chain (plug_holes m x) (as @ bs')" "same_blocks m1 (plug_holes m x) (set (as @ bs'))"
      using m1(1) as by simp_all
    have s: "same_blocks m (plug_holes m x) (set (as @ bs'))" by (rule same_blocks_trans [OF m1(2) m2(2)]) auto
    have "coalesced (is_used m) (as @ bs')" using ca b' by (auto simp: coalesced_append)
    then have "coalesced (is_used (plug_holes m x)) (as @ bs')"
      using coalesced_cong [of "as @ bs'" "is_used (plug_holes m x)" "is_used m"] s by (simp add: same_blocks_def)
    with m2(1) s show thesis using b'(3) keep x by (intro that [of "as @ bs'"]) auto
  qed
qed

section \<open>Accounting\<close>

lemma used_sum_le: "linked (items m) p os e \<Longrightarrow> used_sum m os + hd (os @ [e]) \<le> e"
proof (induction os arbitrary: p)
  case (Cons x xs)
  then show ?case using Cons.IH [of x] by (auto simp: used_sum_def block_len_def)
qed (simp add: used_sum_def)

lemma used_bound: "heap_chain m os \<Longrightarrow> sm_used m \<le> heap_end m"
  using used_sum_le heap_chainD(3,11) by (metis add_leD1)

lemma used_sum_split:
  "used_sum m (as @ x # bs) = (if is_used m x then block_len m x else 0) + used_sum m as + used_sum m bs"
  by (simp add: used_sum_def)

text \<open>Changing the mark of one block.\<close>

lemma set_pool_same: "x \<notin> S \<Longrightarrow> same_blocks m (set_pool x a m) S"
  by (auto simp: same_blocks_def)

lemma set_pool_linked [simp]: "linked ((items m)(x := (items m x)\<lparr>pool_ptr := a\<rparr>)) p os e = linked (items m) p os e"
  by (rule linked_frame) simp

lemma lowest_free_less:
  assumes "heap_chain m (as @ x # bs)" and "is_used m x"
  shows "(if x < lfree m then x else lfree m) = (if \<exists>z\<in>set as. \<not> is_used m z then lfree m else x)"
proof -
  have so: "sorted_wrt (\<lambda>a b. a + 16 \<le> b) (as @ x # bs @ [heap_end m])"
    using linked_sorted [OF heap_chainD(3) [OF assms(1)]] by simp
  show ?thesis
  proof (cases "\<exists>z\<in>set as. \<not> is_used m z")
    case True
    then have "lfree m \<in> set as" using lowest_free_in heap_chainD(10) [OF assms(1)] by metis
    then show ?thesis using so True by (auto simp: sorted_wrt_append)
  next
    case False
    then have "filter (\<lambda>z. \<not> is_used m z) (as @ x # bs) = filter (\<lambda>z. \<not> is_used m z) bs" using assms(2) by auto
    then have "lfree m \<in> set (bs @ [heap_end m])"
      using heap_chainD(10) [OF assms(1)] hd_in_set [of "filter (\<lambda>z. \<not> is_used m z) bs @ [heap_end m]"]
      by (auto simp: lowest_free_def)
    then show ?thesis using so False by (auto simp: sorted_wrt_append)
  qed
qed

lemma mark_free_chain:
  assumes h: "heap_chain m (as @ x # bs)" and u: "is_used m x"
    and m': "m' = (set_pool x (MEM_FREED (sm_self m)) m)
      \<lparr>lfree := (if x < lfree m then x else lfree m), sm_used := sm_used m - block_len m x\<rparr>"
  shows "heap_chain m' (as @ x # bs)" and "is_used m' z \<longleftrightarrow> z \<noteq> x \<and> is_used m z"
    and "item_next (items m' z) = item_next (items m z)" and "sm_mem m' = sm_mem m"
proof -
  note D = heap_chainD [OF h]
  have d: "distinct (as @ x # bs @ [heap_end m])" using heap_chain_distinct [OF h] by simp
  show us: "is_used m' z \<longleftrightarrow> z \<noteq> x \<and> is_used m z" for z by (simp add: m')
  show nx: "item_next (items m' z) = item_next (items m z)" for z by (simp add: m')
  show "sm_mem m' = sm_mem m" by (simp add: m')
  have bl: "block_len m' = block_len m" by (simp add: block_len_def fun_eq_iff nx)
  have fil: "filter (is_used m') cs = filter (is_used m) cs" "filter (\<lambda>z. \<not> is_used m' z) cs = filter (\<lambda>z. \<not> is_used m z) cs"
    if "x \<notin> set cs" for cs using that us by (auto intro!: filter_cong)
  have sum: "used_sum m' (as @ x # bs) = sm_used m - block_len m x"
    using D(11) u d fil(1) [of as] fil(1) [of bs] us by (simp add: used_sum_def bl)
  have "heap_end m' = heap_end m" by (simp add: m')
  then have low: "lowest_free m' (as @ x # bs) = (if x < lfree m then x else lfree m)"
    unfolding lowest_free_less [OF h u] using D(10) d fil(2) [of as] us [of x]
    by (auto simp: lowest_free_def hd_append filter_empty_conv)
  show "heap_chain m' (as @ x # bs)"
    unfolding heap_chain_def sum low using D d by (auto simp: m')
qed

section \<open>Allocated memory\<close>

text \<open>The contract of the allocator: the addresses handed out and not yet given back, with their sizes.\<close>

definition allocs :: "rt_small_mem \<Rightarrow> addr \<Rightarrow> nat option" where
  "allocs m p =
     (let x = p - 16 - heap_ptr m
      in if heap_ptr m + 16 \<le> p \<and> x \<in> set (blocks m) \<and> is_used m x then Some (block_len m x - 16) else None)"

lemma allocs_index: "allocs m (heap_ptr m + x + 16) = (if x \<in> set (blocks m) \<and> is_used m x then Some (block_len m x - 16) else None)"
  by (simp add: allocs_def)

lemma allocsE:
  assumes "allocs m p = Some n"
  obtains x where "p = heap_ptr m + x + 16" "x \<in> set (blocks m)" "is_used m x" "n = block_len m x - 16"
  using assms that [of "p - 16 - heap_ptr m"] by (auto simp: allocs_def Let_def split: if_splits)

lemma allocs_eqI:
  assumes "heap_ptr m' = heap_ptr m"
    and "\<And>x. x \<in> set (blocks m') \<and> is_used m' x \<longleftrightarrow> x \<in> set (blocks m) \<and> is_used m x \<and> x \<noteq> y"
    and "\<And>x. x \<in> set (blocks m') \<Longrightarrow> is_used m' x \<Longrightarrow> block_len m' x = block_len m x"
  shows "allocs m' = (allocs m)(heap_ptr m + y + 16 := None)"
proof
  fix p
  show "allocs m' p = ((allocs m)(heap_ptr m + y + 16 := None)) p"
  proof (cases "heap_ptr m + 16 \<le> p")
    case True
    then obtain x where "p = heap_ptr m + x + 16" by (metis add.assoc add.commute le_Suc_ex)
    then show ?thesis using assms(2) [of x] assms(3) [of x] allocs_index [of m x] allocs_index [of m' x] assms(1) by auto
  next
    case False
    then show ?thesis using assms(1) by (simp add: allocs_def)
  qed
qed

text \<open>Allocated blocks lie inside the heap, aligned, and apart from each other.\<close>

lemma allocs_inside:
  assumes "heap_chain m os" and "allocs m p = Some n"
  shows "heap_ptr m + 16 \<le> p \<and> p + n \<le> heap_ptr m + heap_end m \<and> 8 dvd p"
proof -
  obtain x where x: "p = heap_ptr m + x + 16" "x \<in> set os" "n = block_len m x - 16"
    using allocsE [OF assms(2)] heap_chain_blocks [OF assms(1)] by metis
  note b = linked_bounds [OF heap_chainD(3) [OF assms(1)] x(2)]
  have "8 dvd heap_ptr m + (x + 16)" using b heap_chainD(6) [OF assms(1)] by (intro dvd_add) simp_all
  then show ?thesis using b x(1,3) by (simp add: block_len_def add.assoc)
qed

lemma allocs_apart:
  assumes "heap_chain m os" and "allocs m p = Some n" and "allocs m p' = Some n'" and "p \<noteq> p'"
  shows "p + n + 16 \<le> p' \<or> p' + n' + 16 \<le> p"
proof -
  obtain x where x: "p = heap_ptr m + x + 16" "x \<in> set os" "n = block_len m x - 16"
    using allocsE [OF assms(2)] heap_chain_blocks [OF assms(1)] by metis
  obtain y where y: "p' = heap_ptr m + y + 16" "y \<in> set os" "n' = block_len m y - 16"
    using allocsE [OF assms(3)] heap_chain_blocks [OF assms(1)] by metis
  note l = heap_chainD(3) [OF assms(1)]
  have *: "item_next (items m a) \<le> b" if "os = as @ a # bs" "b \<in> set bs" for as a bs b
  proof -
    have "sorted_wrt (\<lambda>a b. a + 16 \<le> b) (bs @ [heap_end m])"
      using linked_sorted [OF l] that(1) by (simp add: sorted_wrt_append)
    then have "hd (bs @ [heap_end m]) \<le> b" using that(2) by (cases bs) auto
    then show ?thesis using linked_next_split(1) [OF l [unfolded that(1)]] by simp
  qed
  from x(2) obtain as bs where os: "os = as @ x # bs" by (meson split_list)
  have "x \<noteq> y" using assms(4) x(1) y(1) by auto
  then consider "y \<in> set bs" | "y \<in> set as" using y(2) os by auto
  then have "item_next (items m x) \<le> y \<or> item_next (items m y) \<le> x"
  proof cases
    case 2
    then obtain cs ds where "as = cs @ y # ds" by (meson split_list)
    then show ?thesis using * [of cs y "ds @ x # bs" x] os by simp
  qed (use * [OF os] in blast)
  then show ?thesis using x y linked_bounds [OF l x(2)] linked_bounds [OF l y(2)] by (auto simp: block_len_def)
qed

section \<open>Release\<close>

lemma rt_smem_free_result:
  assumes "heap_ok m" and "allocs m p = Some n"
  shows "heap_ok (rt_smem_free m p)" and "allocs (rt_smem_free m p) = (allocs m)(p := None)"
    and "sm_used (rt_smem_free m p) = sm_used m - (n + 16)" and "sm_mem (rt_smem_free m p) = sm_mem m"
    and "heap_ptr (rt_smem_free m p) = heap_ptr m" and "mem_size_aligned (rt_smem_free m p) = mem_size_aligned m"
proof -
  let ?os = "blocks m"
  have h: "heap_chain m ?os" and c: "coalesced (is_used m) ?os" using assms(1) by (simp_all add: heap_ok_def)
  note D = heap_chainD [OF h]
  obtain x where x: "p = heap_ptr m + x + 16" "x \<in> set ?os" "is_used m x" "n = block_len m x - 16"
    using allocsE [OF assms(2)] by metis
  from x(2) obtain as bs where os: "?os = as @ x # bs" by (meson split_list)
  note b = linked_bounds [OF D(3) x(2)]
  have len: "block_len m x = n + 16" using b x(4) by (simp add: block_len_def)
  define m1 where "m1 = (set_pool x (MEM_FREED (sm_self m)) m)
    \<lparr>lfree := (if x < lfree m then x else lfree m), sm_used := sm_used m - block_len m x\<rparr>"
  note mk = mark_free_chain [OF h [unfolded os] x(3) m1_def]
  have "block_len m x \<le> sm_used m" using D(11) x(3) os by (simp add: used_sum_split)
  moreover have "sm_used m < 2 ^ 32" using used_bound [OF h] D(5) by simp
  moreover have "u32_sub (item_next (items m x)) x = block_len m x"
    using b D(5) by (simp add: u32_sub_id block_len_def)
  ultimately have eq: "rt_smem_free m p = plug_holes m1 x"
    using x(1) D(7) by (auto simp: rt_smem_free_def Let_def u32_sub_id m1_def set_pool_def)
  have d: "distinct ?os" using heap_chain_distinct [OF h] by simp
  have ca: "coalesced (is_used m1) as" "coalesced (is_used m1) bs"
    using c os d coalesced_cong [of as "is_used m1" "is_used m"] coalesced_cong [of bs "is_used m1" "is_used m"] mk(2)
    by (auto simp: coalesced_append coalesced_Cons)
  have x1: "\<not> is_used m1 x" using mk(2) by simp
  obtain os' where r: "heap_chain (plug_holes m1 x) os'" "coalesced (is_used (plug_holes m1 x)) os'"
      "same_blocks m1 (plug_holes m1 x) (set os')" "set os' \<subseteq> set (as @ x # bs)"
      "\<And>z. z \<in> set (as @ x # bs) \<Longrightarrow> is_used m1 z \<Longrightarrow> z \<in> set os'"
    using plug_holes_chain [OF mk(1) x1 ca] by blast
  have bl: "blocks (plug_holes m1 x) = os'" by (rule heap_chain_blocks [OF r(1)])
  show "heap_ok (rt_smem_free m p)" unfolding eq by (rule heap_okI [OF r(1,2)])
  have fr: "heap_ptr (plug_holes m1 x) = heap_ptr m" "sm_mem (plug_holes m1 x) = sm_mem m"
    "mem_size_aligned (plug_holes m1 x) = mem_size_aligned m"
    using r(3) mk(4) by (auto simp: same_blocks_def m1_def)
  then show "sm_mem (rt_smem_free m p) = sm_mem m" "heap_ptr (rt_smem_free m p) = heap_ptr m"
    "mem_size_aligned (rt_smem_free m p) = mem_size_aligned m" by (simp_all add: eq)
  have "allocs (plug_holes m1 x) = (allocs m)(heap_ptr m + x + 16 := None)"
    by (rule allocs_eqI) (use fr(1) r(3-5) mk(2,3) os bl in \<open>auto simp: same_blocks_def block_len_def\<close>)
  then show "allocs (rt_smem_free m p) = (allocs m)(p := None)" unfolding eq using x(1) by simp
  have "sm_used (plug_holes m1 x) = sm_used m1" by (simp add: plug_holes_def plug_prev_def plug_next_def Let_def)
  then show "sm_used (rt_smem_free m p) = sm_used m - (n + 16)" by (simp add: eq m1_def len)
qed

section \<open>The searches end\<close>

definition fits :: "rt_small_mem \<Rightarrow> nat \<Rightarrow> nat \<Rightarrow> bool" where
  "fits m sz x \<longleftrightarrow> \<not> is_used m x \<and> sz \<le> block_len m x - 16"

lemma smem_find_linked:
  assumes "linked (items m) p cs (heap_end m)" and "mem_size_aligned m + 16 = heap_end m" and "heap_end m < 2 ^ 32 - 16"
    and "0 < sz" and "sz \<le> mem_size_aligned m"
  shows "smem_find m sz (hd (cs @ [heap_end m])) = Some (find (fits m sz) cs)"
  using assms(1)
proof (induction cs arbitrary: p)
  case Nil
  have "\<not> heap_end m \<le> mem_size_aligned m - sz" using assms(2) by simp
  then show ?case by (subst smem_find.simps) simp
next
  case (Cons x xs)
  have b: "x + 16 \<le> item_next (items m x)" "item_next (items m x) \<le> heap_end m"
    using linked_bounds [OF Cons.prems, of x] by simp_all
  have room: "u32_sub (item_next (items m x)) (u32_add x 16) = block_len m x - 16"
    using b assms(3) by (simp add: u32_add_id u32_sub_id block_len_def)
  show ?case
  proof (cases "x \<le> mem_size_aligned m - sz")
    case True
    then show ?thesis
      using Cons.IH [of x] Cons.prems room fits_def [of m sz x]
      by (subst smem_find.simps) auto
  next
    case False
    have "\<not> fits m sz z" if "z \<in> set (x # xs)" for z
    proof -
      have "x \<le> z" using linked_hd_less [OF Cons.prems, of z] that by auto
      moreover have "item_next (items m z) \<le> heap_end m" using linked_bounds [OF Cons.prems that] by simp
      ultimately show ?thesis using False assms(2,4,5) by (auto simp: fits_def block_len_def)
    qed
    then have "find (fits m sz) (x # xs) = None" by (simp add: find_None_iff)
    then show ?thesis using False by (subst smem_find.simps) simp
  qed
qed

lemma smem_next_free_linked:
  assumes "linked (items m) p cs (heap_end m)"
  shows "smem_next_free m (hd (cs @ [heap_end m])) = Some (lowest_free m cs)"
  using assms
proof (induction cs arbitrary: p)
  case Nil
  then show ?case by (subst smem_next_free.simps) (simp add: lowest_free_def)
next
  case (Cons x xs)
  have "x \<noteq> heap_end m" using linked_distinct [OF Cons.prems] by auto
  then show ?case using Cons.IH [of x] Cons.prems by (subst smem_next_free.simps) (auto simp: lowest_free_def)
qed

lemma smem_find_chain:
  assumes h: "heap_chain m os" and "0 < sz" and "sz \<le> mem_size_aligned m"
  shows "smem_find m sz (lfree m) = Some (find (fits m sz) os)"
proof -
  note D = heap_chainD [OF h]
  let ?cs = "dropWhile (is_used m) os"
  have l: "linked (items m) (last (0 # takeWhile (is_used m) os)) ?cs (heap_end m)"
    using D(3) linked_append [of "items m" 0 "takeWhile (is_used m) os" ?cs] by simp
  have "lfree m = hd (?cs @ [heap_end m])"
    unfolding D(10) lowest_free_def by (induction os) auto
  moreover have "find (fits m sz) ?cs = find (fits m sz) os"
    by (induction os) (auto simp: fits_def)
  ultimately show ?thesis using smem_find_linked [OF l D(4)] D(5,7) assms(2,3) by simp
qed

section \<open>Cutting a block\<close>

lemma smem_split_result:
  assumes h: "heap_chain m (as @ x # bs)" and r: "x + 32 + sz \<le> item_next (items m x)" and s8: "8 dvd sz"
    and y: "y = x + 16 + sz" and m': "m' = smem_split x sz m"
  shows "linked (items m') 0 (as @ x # y # bs) (heap_end m)" and "\<not> is_used m' y" and "item_next (items m' x) = y"
    and "item_next (items m' y) = item_next (items m x)" and "y \<notin> set (as @ x # bs @ [heap_end m])"
    and "z \<noteq> y \<Longrightarrow> is_used m' z = is_used m z"
    and "z \<noteq> x \<Longrightarrow> z \<noteq> y \<Longrightarrow> item_next (items m' z) = item_next (items m z)"
    and "m' = m\<lparr>items := items m'\<rparr>"
proof -
  note D = heap_chainD [OF h]
  let ?e = "heap_end m" and ?n = "item_next (items m x)"
  have n: "?n = hd (bs @ [?e])" "?n \<le> ?e" using linked_next_split(1) [OF D(3)] linked_bounds [OF D(3), of x] by simp_all
  have so: "sorted_wrt (\<lambda>a b. a + 16 \<le> b) (as @ x # bs @ [?e])" using linked_sorted [OF D(3)] by simp
  have nle: "?n \<le> z" if "z \<in> set (bs @ [?e])" for z
    using that so n(1) by (cases bs) (auto simp: sorted_wrt_append)
  show y': "y \<notin> set (as @ x # bs @ [?e])"
  proof
    assume "y \<in> set (as @ x # bs @ [?e])"
    then consider "y \<in> set as" | "y = x" | "y \<in> set (bs @ [?e])" by auto
    then show False using so r y nle [of y] by cases (auto simp: sorted_wrt_append)
  qed
  have p2: "u32_add (u32_add x 16) sz = y" "u32_add (mem_size_aligned m) 16 = ?e"
    using r n(2) D(4,5,7) y by (simp_all add: u32_add_id)
  have it: "items m' = (let it1 = (items m)(y := \<lparr>pool_ptr = MEM_FREED (sm_self m), item_next = ?n, item_prev = x\<rparr>);
      it2 = it1(x := (it1 x)\<lparr>item_next := y\<rparr>) in if ?n \<noteq> ?e then it2(?n := (it2 ?n)\<lparr>item_prev := y\<rparr>) else it2)"
    by (simp add: m' smem_split_def p2 Let_def)
  have ny: "?n \<noteq> y" "?n \<noteq> x" "x \<noteq> y" using r y by auto
  show "m' = m\<lparr>items := items m'\<rparr>" by (simp add: m' smem_split_def Let_def set_next_def set_prev_def)
  show f1: "\<not> is_used m' y" "item_next (items m' x) = y" "item_next (items m' y) = ?n"
    "z \<noteq> y \<Longrightarrow> is_used m' z = is_used m z"
    "z \<noteq> x \<Longrightarrow> z \<noteq> y \<Longrightarrow> item_next (items m' z) = item_next (items m z)" for z
    using ny by (auto simp: it Let_def)
  have pv: "item_prev (items m' y) = x" "item_prev (items m' x) = item_prev (items m x)"
    "z \<noteq> y \<Longrightarrow> z \<noteq> ?n \<Longrightarrow> item_prev (items m' z) = item_prev (items m z)"
    "bs \<noteq> [] \<Longrightarrow> item_prev (items m' ?n) = y" for z
    using ny n(1) heap_chain_distinct [OF h] by (cases bs; auto simp: it Let_def)+
  have l: "linked (items m) 0 as x" "item_prev (items m x) = last (0 # as)" "8 dvd x" "linked (items m) x bs ?e"
    using D(3) by (simp_all add: linked_append)
  have n_as: "?n \<notin> set as" "x \<notin> set as" using so n(1) by (cases bs; auto simp: sorted_wrt_append)+
  have fr: "item_next (items m' z) = item_next (items m z) \<and> item_prev (items m' z) = item_prev (items m z)"
    if "z \<in> set (as @ bs)" "z \<noteq> ?n" for z
  proof -
    have "z \<noteq> x" "z \<noteq> y" using that(1) y' heap_chain_distinct [OF h] by auto
    then show ?thesis using pv(3) f1(5) that(2) by blast
  qed
  have "linked (items m') 0 as x = linked (items m) 0 as x"
    by (rule linked_frame, rule fr) (use n_as in auto)
  then have "linked (items m') 0 as x" using l(1) by simp
  moreover have "linked (items m') y bs ?e"
  proof (cases bs)
    case (Cons b cs)
    have d: "distinct (x # b # cs @ [?e])" using heap_chain_distinct [OF h] Cons by simp
    have "linked (items m') b cs ?e = linked (items m) b cs ?e"
      by (rule linked_frame, rule fr) (use n(1) d Cons in auto)
    then show ?thesis using l(4) Cons pv(4) n(1) f1(5) [of b] d y' by auto
  qed simp
  moreover have "8 dvd y" using l(3) s8 y by simp
  ultimately show "linked (items m') 0 (as @ x # y # bs) ?e"
    using l(2,3) f1(2,3) pv(1,2) n(1) r y by (simp add: linked_append)
qed

section \<open>Allocation\<close>

lemma mark_used_chain:
  assumes h: "heap_chain m (as @ x # bs)" and f: "\<not> is_used m x"
    and m': "m' = (set_pool x (MEM_USED (sm_self m)) m)
      \<lparr>sm_used := sm_used m + block_len m x, sm_max := mx, lfree := (if x = lfree m then lowest_free m bs else lfree m)\<rparr>"
    and mx: "sm_used m + block_len m x \<le> mx"
  shows "heap_chain m' (as @ x # bs)" and "is_used m' z \<longleftrightarrow> z = x \<or> is_used m z"
    and "item_next (items m' z) = item_next (items m z)"
proof -
  note D = heap_chainD [OF h]
  have d: "distinct (as @ x # bs @ [heap_end m])" using heap_chain_distinct [OF h] by simp
  show us: "is_used m' z \<longleftrightarrow> z = x \<or> is_used m z" for z by (simp add: m')
  show nx: "item_next (items m' z) = item_next (items m z)" for z by (simp add: m')
  have bl: "block_len m' = block_len m" by (simp add: block_len_def fun_eq_iff nx)
  have fil: "filter (is_used m') cs = filter (is_used m) cs" "filter (\<lambda>z. \<not> is_used m' z) cs = filter (\<lambda>z. \<not> is_used m z) cs"
    if "x \<notin> set cs" for cs using that us by (auto intro!: filter_cong)
  have sum: "used_sum m' (as @ x # bs) = sm_used m + block_len m x"
    using D(11) f d fil(1) [of as] fil(1) [of bs] us by (simp add: used_sum_def bl)
  have e: "heap_end m' = heap_end m" by (simp add: m')
  have low: "lowest_free m' (as @ x # bs) = (if x = lfree m then lowest_free m bs else lfree m)"
  proof (cases "\<exists>z\<in>set as. \<not> is_used m z")
    case True
    then have "lfree m \<in> set as" using lowest_free_in D(10) by metis
    moreover have "filter (\<lambda>z. \<not> is_used m z) as \<noteq> []" using True by (auto simp: filter_empty_conv)
    ultimately show ?thesis using D(10) d fil(2) [of as] by (auto simp: lowest_free_def hd_append)
  next
    case False
    then have "filter (\<lambda>z. \<not> is_used m z) as = []" by (auto simp: filter_empty_conv)
    then show ?thesis using D(10) f d fil(2) [of as] fil(2) [of bs] us [of x] e by (simp add: lowest_free_def)
  qed
  show "heap_chain m' (as @ x # bs)"
    unfolding heap_chain_def sum low using D d mx by (auto simp: m')
qed

text \<open>The part of the allocation that the two branches share.\<close>

lemma alloc_mark:
  assumes h: "heap_chain m (as @ x # bs)" and f: "\<not> is_used m x"
  defines "m2 \<equiv> set_pool x (MEM_USED (sm_self m)) (smem_account (block_len m x) m)"
  obtains m' where "(if x = lfree m2 then (case smem_next_free m2 (lfree m2) of
        None \<Rightarrow> None | Some p \<Rightarrow> Some (heap_ptr m2 + x + 16, m2\<lparr>lfree := p\<rparr>))
      else Some (heap_ptr m2 + x + 16, m2)) = Some (heap_ptr m + x + 16, m')"
    "heap_chain m' (as @ x # bs)" "\<And>z. is_used m' z \<longleftrightarrow> z = x \<or> is_used m z"
    "\<And>z. item_next (items m' z) = item_next (items m z)" "heap_ptr m' = heap_ptr m" "sm_mem m' = sm_mem m"
    "sm_used m' = sm_used m + block_len m x" "mem_size_aligned m' = mem_size_aligned m"
proof -
  note D = heap_chainD [OF h]
  have b: "block_len m x + used_sum m (as @ x # bs) + hd ((as @ x # bs) @ [heap_end m]) \<le> heap_end m"
  proof -
    let ?n = "m\<lparr>items := (items m)(x := (items m x)\<lparr>pool_ptr := MEM_USED 0\<rparr>)\<rparr>"
    have d: "x \<notin> set as" "x \<notin> set bs" using heap_chain_distinct [OF h] by auto
    have "linked (items ?n) 0 (as @ x # bs) (heap_end m)" using D(3) by simp
    from used_sum_le [OF this] have le: "used_sum ?n (as @ x # bs) + hd ((as @ x # bs) @ [heap_end m]) \<le> heap_end m" .
    have "same_blocks m ?n (set as)" "same_blocks m ?n (set bs)" using d by (auto simp: same_blocks_def)
    then show ?thesis using le f by (simp add: used_sum_split same_blocks_used_sum) (simp add: block_len_def)
  qed
  define mx where "mx = (if sm_max m < sm_used m + block_len m x then sm_used m + block_len m x else sm_max m)"
  have acc: "smem_account (block_len m x) m = m\<lparr>sm_used := sm_used m + block_len m x, sm_max := mx\<rparr>"
    using b D(5,11) by (simp add: smem_account_def u32_add_id mx_def Let_def)
  define m' where "m' = (set_pool x (MEM_USED (sm_self m)) m)
      \<lparr>sm_used := sm_used m + block_len m x, sm_max := mx, lfree := (if x = lfree m then lowest_free m bs else lfree m)\<rparr>"
  have "sm_used m + block_len m x \<le> mx" by (simp add: mx_def)
  note mk = mark_used_chain [OF h f m'_def this]
  have m2: "items m2 = items m'" "heap_end m2 = heap_end m" "lfree m2 = lfree m" "heap_ptr m2 = heap_ptr m"
    by (simp_all add: m2_def acc m'_def set_pool_def)
  have nf: "smem_next_free m2 x = Some (lowest_free m bs)"
  proof -
    have d: "x \<notin> set bs" "x \<noteq> heap_end m" using heap_chain_distinct [OF h] by auto
    have l: "linked (items m2) x bs (heap_end m2)"
      using heap_chainD(3) [OF mk(1)] m2 by (simp add: linked_append m'_def)
    have nx: "item_next (items m2 x) = hd (bs @ [heap_end m2])"
      using linked_next_split(1) [OF D(3)] mk(3) m2 by simp
    have "smem_next_free m2 x = smem_next_free m2 (item_next (items m2 x))"
      using mk(2) [of x] m2 d by (subst smem_next_free.simps) simp
    also have "\<dots> = Some (lowest_free m2 bs)" unfolding nx by (rule smem_next_free_linked [OF l])
    also have "lowest_free m2 bs = lowest_free m bs"
      using d mk(2) m2 by (auto simp: lowest_free_def intro!: arg_cong [where f = hd] filter_cong)
    finally show ?thesis .
  qed
  have "(if x = lfree m2 then (case smem_next_free m2 (lfree m2) of
        None \<Rightarrow> None | Some p \<Rightarrow> Some (heap_ptr m2 + x + 16, m2\<lparr>lfree := p\<rparr>))
      else Some (heap_ptr m2 + x + 16, m2)) = Some (heap_ptr m + x + 16, m')"
  proof (cases "x = lfree m")
    case True
    then have "m2\<lparr>lfree := lowest_free m bs\<rparr> = m'"
      unfolding m2_def acc m'_def set_pool_def by (simp add: True [symmetric])
    then show ?thesis using True nf m2(3,4) by simp
  next
    case False
    then have "m2 = m'" unfolding m2_def acc m'_def set_pool_def by simp
    then show ?thesis using False m2(3,4) by simp
  qed
  with mk show thesis by (intro that [of m']) (simp_all add: m'_def)
qed

definition alloc_size :: "nat \<Rightarrow> nat" where
  "alloc_size n = max 16 (RT_ALIGN n 8)"

lemma alloc_size_props: "16 \<le> alloc_size n" "8 dvd alloc_size n" "n \<le> 2 ^ 32 - 8 \<Longrightarrow> n \<le> alloc_size n"
  "alloc_size n < 2 ^ 32"
  using RT_ALIGN_8_ge [of n] RT_ALIGN_8_dvd [of n] by (auto simp: alloc_size_def max_def RT_ALIGN_8)

lemma rt_smem_alloc_fit:
  assumes h: "heap_chain m os" and n: "n \<noteq> 0"
  shows "rt_smem_alloc m n =
    (case find (fits m (alloc_size n)) os of
       None \<Rightarrow> Some (0, m)
     | Some x \<Rightarrow>
         (let m1 = (if block_len m x - 16 \<ge> alloc_size n + 32 then smem_split x (alloc_size n) m else m);
              m2 = set_pool x (MEM_USED (sm_self m1)) (smem_account (block_len m1 x) m1)
          in if x = lfree m2 then (case smem_next_free m2 (lfree m2) of
               None \<Rightarrow> None | Some p \<Rightarrow> Some (heap_ptr m2 + x + 16, m2\<lparr>lfree := p\<rparr>))
             else Some (heap_ptr m2 + x + 16, m2)))"
proof -
  note D = heap_chainD [OF h]
  let ?s = "alloc_size n"
  have sz: "(if RT_ALIGN n RT_ALIGN_SIZE < MIN_SIZE_ALIGNED then MIN_SIZE_ALIGNED else RT_ALIGN n RT_ALIGN_SIZE) = ?s"
    by (simp add: alloc_size_def RT_ALIGN_SIZE_def max_def)
  have bl: "block_len m x \<le> heap_end m - x" "x + 16 \<le> item_next (items m x)" "item_next (items m x) \<le> heap_end m"
    if "x \<in> set os" for x using linked_bounds [OF D(3) that] by (auto simp: block_len_def)
  show ?thesis
  proof (cases "?s \<le> mem_size_aligned m")
    case False
    have "find (fits m ?s) os = None" using False bl(1) D(4) by (force simp: find_None_iff fits_def)
    then show ?thesis using False n sz by (simp add: rt_smem_alloc_def Let_def)
  next
    case True
    note f = smem_find_chain [OF h _ True]
    have "0 < ?s" using alloc_size_props(1) [of n] by simp
    note f = f [OF this]
    show ?thesis
    proof (cases "find (fits m ?s) os")
      case None
      then show ?thesis using True n sz f by (simp add: rt_smem_alloc_def Let_def)
    next
      case (Some x)
      then have x: "x \<in> set os" "fits m ?s x" by (auto simp: find_Some_iff)
      note b = bl [OF x(1)]
      have room: "u32_sub (item_next (items m x)) (u32_add x 16) = block_len m x - 16"
        "u32_sub (item_next (items m x)) x = block_len m x"
        "u32_add (?s + 16) 16 = ?s + 32" "u32_add ?s 16 = ?s + 16"
        using b D(4,5,7) True by (simp_all add: u32_add_id u32_sub_id block_len_def)
      have sp: "block_len (smem_split x ?s m) x = ?s + 16" if sp: "?s + 32 \<le> block_len m x - 16"
      proof -
        obtain as bs where "os = as @ x # bs" using x(1) by (meson split_list)
        then show ?thesis using smem_split_result(3) [OF _ _ alloc_size_props(2) refl refl, of m as x bs n] h sp b
          by (simp add: block_len_def)
      qed
      have acc: "sm_self (smem_account k m1) = sm_self m1" for k m1 by (simp add: smem_account_def Let_def)
      show ?thesis
      proof (cases "?s + 32 \<le> block_len m x - 16")
        case split: True
        show ?thesis
          unfolding rt_smem_alloc_def Let_def sz f Some option.case unfolding sizes room if_P [OF split]
          unfolding acc sp [OF split] using True n by simp
      next
        case False
        show ?thesis unfolding rt_smem_alloc_def Let_def sz f Some option.case unfolding sizes room if_not_P [OF False]
          unfolding acc using True n by simp
      qed
    qed
  qed
qed

lemma split_free_chain:
  assumes h: "heap_chain m (as @ x # bs)" and f: "\<not> is_used m x" and r: "x + 32 + sz \<le> item_next (items m x)"
    and s8: "8 dvd sz"
  shows "heap_chain (smem_split x sz m) (as @ x # (x + 16 + sz) # bs)"
    and "same_blocks m (smem_split x sz m) (set (as @ x # bs))" and "sm_used (smem_split x sz m) = sm_used m"
proof -
  note D = heap_chainD [OF h]
  let ?y = "x + 16 + sz" and ?m = "smem_split x sz m"
  note sp = smem_split_result [OF h r s8 refl refl]
  have d: "distinct (as @ x # bs @ [heap_end m])" using heap_chain_distinct [OF h] by simp
  have fields: "lfree ?m = lfree m" "sm_used ?m = sm_used m" "sm_max ?m = sm_max m" "heap_ptr ?m = heap_ptr m"
    "heap_end ?m = heap_end m" "mem_size_aligned ?m = mem_size_aligned m" "sm_self ?m = sm_self m" "sm_mem ?m = sm_mem m"
    by (subst sp(8), simp)+
  show s: "same_blocks m ?m (set (as @ x # bs))"
  proof -
    have "is_used ?m z = is_used m z \<and> (is_used m z \<longrightarrow> item_next (items ?m z) = item_next (items m z))"
      if "z \<in> set (as @ x # bs)" for z
    proof -
      have "z \<noteq> ?y" using sp(5) that by auto
      then show ?thesis using sp(6,7) [of z] f by (cases "z = x") auto
    qed
    then show ?thesis using fields(4-8) by (simp add: same_blocks_def)
  qed
  show "sm_used ?m = sm_used m" by (rule fields(2))
  have x': "\<not> is_used ?m x" using s f by (auto simp: same_blocks_def)
  have "used_sum ?m (as @ x # ?y # bs) = used_sum ?m (as @ x # bs)" using sp(2) by (simp add: used_sum_def)
  moreover have "lowest_free ?m (as @ x # ?y # bs) = lowest_free ?m (as @ x # bs)"
    using x' by (simp add: lowest_free_def hd_append)
  moreover have "is_used ?m (heap_end m)"
  proof -
    have "heap_end m \<noteq> ?y" using sp(5) by auto
    then show ?thesis using sp(6) D(9) by blast
  qed
  ultimately show "heap_chain ?m (as @ x # ?y # bs)"
    using D sp(1) fields same_blocks_used_sum [OF s] same_blocks_lowest [OF s]
    by (cases as) (auto simp: heap_chain_def)
qed

lemma allocs_addI:
  assumes "heap_ptr m' = heap_ptr m" and "y \<in> set (blocks m')"
    and "\<And>x. x \<in> set (blocks m') \<and> is_used m' x \<longleftrightarrow> x = y \<or> x \<in> set (blocks m) \<and> is_used m x"
    and "\<And>x. x \<in> set (blocks m) \<Longrightarrow> is_used m x \<Longrightarrow> x \<noteq> y \<Longrightarrow> block_len m' x = block_len m x"
  shows "allocs m' = (allocs m)(heap_ptr m + y + 16 \<mapsto> block_len m' y - 16)"
proof
  fix p
  show "allocs m' p = ((allocs m)(heap_ptr m + y + 16 \<mapsto> block_len m' y - 16)) p"
  proof (cases "heap_ptr m + 16 \<le> p")
    case True
    then obtain x where "p = heap_ptr m + x + 16" by (metis add.assoc add.commute le_Suc_ex)
    then show ?thesis
      using assms(3) [of x] assms(4) [of x] allocs_index [of m x] allocs_index [of m' x] assms(1) by auto
  next
    case False
    then show ?thesis using assms(1) by (simp add: allocs_def)
  qed
qed

lemma rt_smem_alloc_result:
  assumes "heap_ok m" and n: "n \<noteq> 0" and fd: "find (fits m (alloc_size n)) (blocks m) = Some x"
  obtains m' k where "rt_smem_alloc m n = Some (heap_ptr m + x + 16, m')" "heap_ok m'"
    "allocs m' = (allocs m)(heap_ptr m + x + 16 \<mapsto> k)" "allocs m (heap_ptr m + x + 16) = None"
    "alloc_size n \<le> k" "k < alloc_size n + 32" "heap_ptr m' = heap_ptr m" "sm_mem m' = sm_mem m"
    "sm_used m' = sm_used m + k + 16" "mem_size_aligned m' = mem_size_aligned m"
proof -
  let ?s = "alloc_size n" and ?os = "blocks m"
  have h: "heap_chain m ?os" and c: "coalesced (is_used m) ?os" using assms(1) by (simp_all add: heap_ok_def)
  have x: "x \<in> set ?os" "\<not> is_used m x" "?s \<le> block_len m x - 16" using fd by (auto simp: find_Some_iff fits_def)
  then obtain as bs where os: "?os = as @ x # bs" by (meson split_list)
  note h = h [unfolded os]
  note b = linked_bounds [OF heap_chainD(3) [OF h], of x]
  define sp where "sp \<longleftrightarrow> ?s + 32 \<le> block_len m x - 16"
  define m1 where "m1 = (if sp then smem_split x ?s m else m)"
  define bs' where "bs' = (if sp then (x + 16 + ?s) # bs else bs)"
  have r: "x + 32 + ?s \<le> item_next (items m x)" if sp using that b by (auto simp: sp_def block_len_def)
  note s8 = alloc_size_props(2) [of n]
  have m1: "heap_chain m1 (as @ x # bs')" "same_blocks m m1 (set (as @ x # bs))"
    using split_free_chain [OF h x(2) r s8] h by (auto simp: m1_def bs'_def same_blocks_def)
  have x1: "\<not> is_used m1 x" using m1(2) x(2) by (auto simp: same_blocks_def)
  have len: "block_len m1 x = (if sp then ?s + 16 else block_len m x)"
    using smem_split_result(3) [OF h r s8 refl refl] by (auto simp: m1_def block_len_def)
  have y: "\<not> is_used m1 (x + 16 + ?s) \<and> x + 16 + ?s \<notin> set ?os" if sp
    using smem_split_result(2,5) [OF h r s8 refl refl] that os by (auto simp: m1_def)
  obtain m' where r': "rt_smem_alloc m n = Some (heap_ptr m1 + x + 16, m')"
      "heap_chain m' (as @ x # bs')" "\<And>z. is_used m' z \<longleftrightarrow> z = x \<or> is_used m1 z"
      "\<And>z. item_next (items m' z) = item_next (items m1 z)" "heap_ptr m' = heap_ptr m1" "sm_mem m' = sm_mem m1"
      "sm_used m' = sm_used m1 + block_len m1 x" "mem_size_aligned m' = mem_size_aligned m1"
    using alloc_mark [OF m1(1) x1] rt_smem_alloc_fit [OF h n, unfolded os [symmetric] fd]
    unfolding option.case Let_def m1_def sp_def by (metis (no_types, lifting))
  have fr: "heap_ptr m1 = heap_ptr m" "sm_mem m1 = sm_mem m" "mem_size_aligned m1 = mem_size_aligned m"
    using m1(2) by (simp_all add: same_blocks_def)
  have bl: "blocks m' = as @ x # bs'" by (rule heap_chain_blocks [OF r'(2)])
  have used: "z \<in> set (blocks m') \<and> is_used m' z \<longleftrightarrow> z = x \<or> z \<in> set ?os \<and> is_used m z" for z
    using r'(3) [of z] m1(2) y bl os by (auto simp: bs'_def same_blocks_def split: if_splits)
  have al: "allocs m' = (allocs m)(heap_ptr m + x + 16 \<mapsto> block_len m' x - 16)"
    by (rule allocs_addI [OF _ _ used])
      (use r'(4,5) fr(1) bl m1(2) os in \<open>auto simp: same_blocks_def block_len_def\<close>)
  have l': "block_len m' x = block_len m1 x" using r'(4) by (simp add: block_len_def)
  have u1: "sm_used m1 = sm_used m" using split_free_chain(3) [OF h x(2) r s8] by (simp add: m1_def)
  have d: "distinct (as @ x # bs)" using heap_chain_distinct [OF h] by simp
  have same: "is_used m' z = is_used m z" if "z \<in> set (as @ bs)" for z
    using that r'(3) [of z] m1(2) d by (auto simp: same_blocks_def)
  have "coalesced (is_used m') as" "coalesced (is_used m') bs"
    using c os same coalesced_cong [of as "is_used m'" "is_used m"] coalesced_cong [of bs "is_used m'" "is_used m"]
    by (auto simp: coalesced_append coalesced_Cons)
  moreover have "bs = [] \<or> is_used m' (hd bs)"
    using c x(2) os same [of "hd bs"] by (cases bs) (auto simp: coalesced_append coalesced_Cons)
  ultimately have cab: "coalesced (is_used m') (as @ x # bs')"
    using r'(3) [of x] by (auto simp: coalesced_append coalesced_Cons bs'_def)
  have ge: "16 \<le> block_len m x" using b by (auto simp: block_len_def)
  show thesis
  proof (rule that [of m' "block_len m1 x - 16"])
    show "rt_smem_alloc m n = Some (heap_ptr m + x + 16, m')" using r'(1) fr(1) by simp
    show "heap_ok m'" by (rule heap_okI [OF r'(2) cab])
    show "allocs m' = (allocs m)(heap_ptr m + x + 16 \<mapsto> block_len m1 x - 16)" using al l' by simp
    show "allocs m (heap_ptr m + x + 16) = None" using x(2) by (simp add: allocs_index)
    show "alloc_size n \<le> block_len m1 x - 16" "block_len m1 x - 16 < alloc_size n + 32"
      using len x(3) by (auto simp: sp_def)
    show "sm_used m' = sm_used m + (block_len m1 x - 16) + 16" using r'(7) u1 len ge by simp
  qed (use r'(5,6,8) fr in simp_all)
qed

section \<open>Resizing\<close>

lemma lfree_before:
  assumes "heap_chain m (as @ x # bs)" and "is_used m x" and "x < y" and "y < item_next (items m x)"
  shows "(if y < lfree m then y else lfree m) = (if \<exists>z\<in>set as. \<not> is_used m z then lfree m else y)"
proof -
  note D = heap_chainD [OF assms(1)]
  have so: "sorted_wrt (\<lambda>a b. a + 16 \<le> b) (as @ x # bs @ [heap_end m])" using linked_sorted [OF D(3)] by simp
  show ?thesis
  proof (cases "\<exists>z\<in>set as. \<not> is_used m z")
    case True
    then have "lfree m \<in> set as" using lowest_free_in D(10) by metis
    then show ?thesis using so True assms(3) by (auto simp: sorted_wrt_append)
  next
    case False
    then have "filter (\<lambda>z. \<not> is_used m z) (as @ x # bs) = filter (\<lambda>z. \<not> is_used m z) bs" using assms(2) by auto
    then have "lfree m \<in> set (bs @ [heap_end m])"
      using D(10) hd_in_set [of "filter (\<lambda>z. \<not> is_used m z) bs @ [heap_end m]"] by (auto simp: lowest_free_def)
    moreover have "item_next (items m x) \<le> z" if "z \<in> set (bs @ [heap_end m])" for z
      using that so linked_next_split(1) [OF D(3)] by (cases bs) (auto simp: sorted_wrt_append)
    ultimately have "item_next (items m x) \<le> lfree m" by blast
    then show ?thesis using False assms(4) by auto
  qed
qed

lemma split_used_chain:
  assumes h: "heap_chain m (as @ x # bs)" and u: "is_used m x" and r: "x + 32 + sz \<le> item_next (items m x)"
    and s8: "8 dvd sz" and y: "y = x + 16 + sz"
    and m': "m' = (smem_split x sz m)\<lparr>sm_used := sm_used m - (block_len m x - (sz + 16)),
      lfree := (if y < lfree m then y else lfree m)\<rparr>"
  shows "heap_chain m' (as @ x # y # bs)" and "\<not> is_used m' y" and "block_len m' x = sz + 16"
    and "z \<in> set (as @ x # bs) \<Longrightarrow> is_used m' z = is_used m z"
    and "z \<in> set (as @ bs) \<Longrightarrow> block_len m' z = block_len m z" and "heap_ptr m' = heap_ptr m" and "sm_mem m' = sm_mem m"
    and "y \<notin> set (as @ x # bs)"
proof -
  note D = heap_chainD [OF h]
  let ?m = "smem_split x sz m"
  note sp = smem_split_result [OF h r s8 y refl]
  have d: "distinct (as @ x # bs @ [heap_end m])" using heap_chain_distinct [OF h] by simp
  have fields: "sm_used ?m = sm_used m" "sm_max ?m = sm_max m" "heap_ptr ?m = heap_ptr m"
    "heap_end ?m = heap_end m" "mem_size_aligned ?m = mem_size_aligned m" "sm_mem ?m = sm_mem m"
    by (subst sp(8), simp)+
  have it: "items m' = items ?m" by (simp add: m')
  show y0: "\<not> is_used m' y" and yn: "y \<notin> set (as @ x # bs)" using sp(2,5) by (auto simp: it)
  show lx: "block_len m' x = sz + 16" using sp(3) y by (simp add: block_len_def it)
  show us: "is_used m' z = is_used m z" if "z \<in> set (as @ x # bs)" for z
  proof -
    have "z \<noteq> y" using yn that by auto
    then show ?thesis using sp(6) by (simp add: it)
  qed
  show bl: "block_len m' z = block_len m z" if "z \<in> set (as @ bs)" for z
  proof -
    have "z \<noteq> y" "z \<noteq> x" using yn d that by auto
    then show ?thesis using sp(7) by (simp add: it block_len_def)
  qed
  show "heap_ptr m' = heap_ptr m" "sm_mem m' = sm_mem m" using fields by (simp_all add: m')
  have fil: "filter (is_used m') cs = filter (is_used m) cs" "filter (\<lambda>z. \<not> is_used m' z) cs = filter (\<lambda>z. \<not> is_used m z) cs"
    if "set cs \<subseteq> set (as @ bs)" for cs using that us by (auto intro!: filter_cong)
  have sums: "used_sum m' cs = used_sum m cs" if "set cs \<subseteq> set (as @ bs)" for cs
    unfolding used_sum_def fil(1) [OF that] using bl that by (intro arg_cong [where f = sum_list] map_cong) auto
  have ub: "sz + 16 \<le> block_len m x" using r by (simp add: block_len_def)
  have sum: "used_sum m' (as @ x # y # bs) = sm_used m - (block_len m x - (sz + 16))"
    using D(11) u y0 lx us [of x] sums [of as] sums [of bs] ub
      used_sum_split [of m' as x "y # bs"] used_sum_split [of m' "[]" y bs] used_sum_split [of m as x bs]
    by (simp add: used_sum_def [of m' "[]"])
  have e: "heap_end m' = heap_end m" using fields by (simp add: m')
  have low: "lowest_free m' (as @ x # y # bs) = (if y < lfree m then y else lfree m)"
    using lfree_before [OF h u, of y] r y D(10) fil(2) [of as] us [of x] u y0
    by (auto simp: lowest_free_def hd_append filter_empty_conv)
  have "is_used m' (heap_end m)"
  proof -
    have "heap_end m \<noteq> y" using sp(5) by auto
    then show ?thesis using sp(6) D(9) by (simp add: it)
  qed
  then show "heap_chain m' (as @ x # y # bs)"
    unfolding heap_chain_def sum low using D sp(1) fields by (cases as) (auto simp: m')
qed

lemma rt_smem_shrink:
  assumes ok: "heap_ok m" and x: "x \<in> set (blocks m)" "is_used m x"
    and r: "x + 32 + sz \<le> item_next (items m x)" and s8: "8 dvd sz" and y: "y = x + 16 + sz"
  defines "m1 \<equiv> (smem_split x sz m)\<lparr>sm_used := sm_used m - (block_len m x - (sz + 16)),
      lfree := (if y < lfree m then y else lfree m)\<rparr>"
  shows "heap_ok (plug_holes m1 y)" and "allocs (plug_holes m1 y) = (allocs m)(heap_ptr m + x + 16 \<mapsto> sz)"
    and "sm_mem (plug_holes m1 y) = sm_mem m"
proof -
  have h: "heap_chain m (blocks m)" and c: "coalesced (is_used m) (blocks m)" using ok by (simp_all add: heap_ok_def)
  from x(1) obtain as bs where os: "blocks m = as @ x # bs" by (meson split_list)
  note sp = split_used_chain [OF h [unfolded os] x(2) r s8 y m1_def [THEN meta_eq_to_obj_eq]]
  have d: "distinct (as @ x # bs)" using heap_chain_distinct [OF h] os by simp
  have "coalesced (is_used m1) (as @ [x])" "coalesced (is_used m1) bs"
    using c os sp(4) coalesced_cong [of "as @ [x]" "is_used m1" "is_used m"] coalesced_cong [of bs "is_used m1" "is_used m"]
    by (auto simp: coalesced_append coalesced_Cons)
  then obtain os' where q: "heap_chain (plug_holes m1 y) os'" "coalesced (is_used (plug_holes m1 y)) os'"
      "same_blocks m1 (plug_holes m1 y) (set os')" "set os' \<subseteq> set ((as @ [x]) @ y # bs)"
      "\<And>z. z \<in> set ((as @ [x]) @ y # bs) \<Longrightarrow> is_used m1 z \<Longrightarrow> z \<in> set os'"
    using plug_holes_chain [of m1 "as @ [x]" y bs] sp(1,2) by auto
  show "heap_ok (plug_holes m1 y)" by (rule heap_okI [OF q(1,2)])
  show "sm_mem (plug_holes m1 y) = sm_mem m" using q(3) sp(7) by (simp add: same_blocks_def)
  have bl: "blocks (plug_holes m1 y) = os'" by (rule heap_chain_blocks [OF q(1)])
  have u: "z \<in> set os' \<and> is_used (plug_holes m1 y) z \<longleftrightarrow> z = x \<or> z \<in> set (blocks m) \<and> is_used m z" for z
    using q(3-5) sp(2) sp(4) [of z] x(2) os by (auto simp: same_blocks_def)
  have len: "block_len (plug_holes m1 y) z = block_len m1 z" if "z \<in> set (as @ x # bs)" "is_used m z" for z
    using q(3) q(5) [of z] sp(4) [OF that(1)] that by (auto simp: same_blocks_def block_len_def)
  have "allocs (plug_holes m1 y) = (allocs m)(heap_ptr m + x + 16 \<mapsto> block_len (plug_holes m1 y) x - 16)"
  proof (rule allocs_addI)
    show "heap_ptr (plug_holes m1 y) = heap_ptr m" using q(3) sp(6) by (simp add: same_blocks_def)
    show "x \<in> set (blocks (plug_holes m1 y))" using u [of x] bl by simp
    show "z \<in> set (blocks (plug_holes m1 y)) \<and> is_used (plug_holes m1 y) z \<longleftrightarrow> z = x \<or> z \<in> set (blocks m) \<and> is_used m z" for z
      using u bl by simp
    show "block_len (plug_holes m1 y) z = block_len m z" if "z \<in> set (blocks m)" "is_used m z" "z \<noteq> x" for z
      using len [of z] sp(5) [of z] that os by auto
  qed
  then show "allocs (plug_holes m1 y) = (allocs m)(heap_ptr m + x + 16 \<mapsto> sz)"
    using len [of x] x(2) sp(3) by simp
qed

text \<open>Moving to a new block: allocate, copy, release.\<close>

lemma rt_smem_move:
  assumes ok: "heap_ok m" and p: "allocs m p = Some k" and n: "n \<noteq> 0"
    and x: "find (fits m (alloc_size n)) (blocks m) = Some x" and cnt: "cnt \<le> k"
  obtains q m1 j where "rt_smem_alloc m n = Some (q, m1)" "q \<noteq> 0" "alloc_size n \<le> j" "allocs m q = None"
    "heap_ok (rt_smem_free (m1\<lparr>sm_mem := snd (rt_memcpy (sm_mem m1) q p cnt)\<rparr>) p)"
    "allocs (rt_smem_free (m1\<lparr>sm_mem := snd (rt_memcpy (sm_mem m1) q p cnt)\<rparr>) p) = (allocs m)(p := None, q \<mapsto> j)"
    "sm_mem (rt_smem_free (m1\<lparr>sm_mem := snd (rt_memcpy (sm_mem m1) q p cnt)\<rparr>) p) = block_copy (sm_mem m) q p cnt"
    "\<And>r i. allocs m r = Some i \<Longrightarrow> r + i + 16 \<le> q \<or> q + j + 16 \<le> r"
proof -
  obtain m1 j where a: "rt_smem_alloc m n = Some (heap_ptr m + x + 16, m1)" "heap_ok m1"
    "allocs m1 = (allocs m)(heap_ptr m + x + 16 \<mapsto> j)" "allocs m (heap_ptr m + x + 16) = None"
    "alloc_size n \<le> j" "sm_mem m1 = sm_mem m"
    using rt_smem_alloc_result [OF ok n x] by metis
  define q where "q = heap_ptr m + x + 16"
  note a = a [folded q_def]
  have h1: "heap_chain m1 (blocks m1)" using a(2) by (simp add: heap_ok_def)
  have pq: "p \<noteq> q" using p a(4) by auto
  have apart: "r + i + 16 \<le> q \<or> q + j + 16 \<le> r" if "allocs m r = Some i" for r i
    using allocs_apart [OF h1, of r i q j] that a(3,4) by (cases "r = q") auto
  have "q \<le> p \<or> p + cnt \<le> q" using apart [OF p] cnt by linarith
  then have cp: "snd (rt_memcpy (sm_mem m1) q p cnt) = block_copy (sm_mem m) q p cnt"
    by (simp add: rt_memcpy_eq a(6))
  let ?m2 = "m1\<lparr>sm_mem := snd (rt_memcpy (sm_mem m1) q p cnt)\<rparr>"
  have same: "heap_ok ?m2" "allocs ?m2 = allocs m1"
    using a(2) by (simp_all add: heap_ok_def heap_chain_def blocks_def lowest_free_def used_sum_def block_len_def
        allocs_def fun_eq_iff Let_def cong: map_cong)
  have "allocs ?m2 p = Some k" using same(2) a(3) pq p by simp
  note f = rt_smem_free_result [OF same(1) this]
  show thesis
    by (rule that [of q m1 j])
      (use a f apart cp same(2) pq in \<open>auto simp: q_def fun_upd_twist\<close>)
qed

lemma rt_smem_alloc_none:
  assumes "heap_ok m" and "find (fits m (alloc_size n)) (blocks m) = None"
  shows "rt_smem_alloc m n = Some (0, m)"
  using assms rt_smem_alloc_fit [of m "blocks m" n]
  by (cases "n = 0") (auto simp: heap_ok_def rt_smem_alloc_def)

definition preserved :: "rt_small_mem \<Rightarrow> rt_small_mem \<Rightarrow> addr \<Rightarrow> bool" where
  "preserved m m' p \<longleftrightarrow> (\<forall>r i k. allocs m r = Some k \<longrightarrow> r \<noteq> p \<longrightarrow> i < k \<longrightarrow> sm_mem m' (r + i) = sm_mem m (r + i))"

lemma RT_ALIGN_pos:
  assumes "n \<noteq> 0" and "n \<le> 2 ^ 32 - 8"
  shows "RT_ALIGN n 8 \<noteq> 0" "RT_ALIGN n 8 \<le> 2 ^ 32 - 8" "alloc_size (RT_ALIGN n 8) = alloc_size n"
proof -
  have e: "RT_ALIGN n 8 = (n + 7) div 8 * 8" using assms(2) by (simp add: RT_ALIGN_8)
  have "(n + 7) div 8 \<le> 4294967295 div 8" using assms(2) by (intro div_le_mono) simp
  then have le: "(n + 7) div 8 * 8 + 7 < 2 ^ 32" "(n + 7) div 8 \<le> 536870911" by simp_all
  then show "RT_ALIGN n 8 \<le> 2 ^ 32 - 8" by (simp add: e)
  show "RT_ALIGN n 8 \<noteq> 0" using assms(1) by (simp add: e)
  have "RT_ALIGN (RT_ALIGN n 8) 8 = RT_ALIGN n 8" 
    unfolding e RT_ALIGN_8 [of "(n + 7) div 8 * 8"] using le(1) by simp
  then show "alloc_size (RT_ALIGN n 8) = alloc_size n" by (simp add: alloc_size_def)
qed

lemma rt_smem_realloc_result:
  assumes ok: "heap_ok m" and p: "allocs m p = Some k" and n: "n \<noteq> 0" "n \<le> 2 ^ 32 - 8"
  shows "\<exists>q m'. rt_smem_realloc m p n = Some (q, m') \<and> heap_ok m' \<and>
    (if q = 0 then m' = m
     else \<exists>j. n \<le> j \<and> (q = p \<or> allocs m q = None) \<and> allocs m' = (allocs m)(p := None, q \<mapsto> j) \<and>
       (\<forall>i<min k n. sm_mem m' (q + i) = sm_mem m (p + i)) \<and> preserved m m' p)"
proof -
  let ?n = "RT_ALIGN n 8"
  have an: "n \<le> ?n" "?n \<noteq> 0" "8 dvd ?n" "?n \<le> 2 ^ 32 - 8"
    using RT_ALIGN_8_ge [OF n(2)] RT_ALIGN_8_dvd RT_ALIGN_pos [OF n] by auto
  have h: "heap_chain m (blocks m)" using ok by (simp add: heap_ok_def)
  note D = heap_chainD [OF h]
  obtain x where x: "p = heap_ptr m + x + 16" "x \<in> set (blocks m)" "is_used m x" "k = block_len m x - 16"
    using allocsE [OF p] by metis
  note b = linked_bounds [OF D(3) x(2)]
  have p0: "p \<noteq> 0" "p - 16 - heap_ptr m = x" using x(1) by simp_all
  have sz: "u32_sub (u32_sub (item_next (items m x)) x) 16 = k"
    using b D(5) x(4) by (auto simp: u32_sub_id block_len_def)
  show ?thesis
  proof (cases "?n > mem_size_aligned m")
    case True
    then have "rt_smem_realloc m p n = Some (0, m)" by (simp add: rt_smem_realloc_def RT_ALIGN_SIZE_def)
    then show ?thesis using ok by auto
  next
    case fit: False
    have le: "?n + 28 < 2 ^ 32" using fit D(4,5,7) by simp
    have eq: "rt_smem_realloc m p n = (if k = ?n then Some (p, m)
      else if ?n + 28 < k then
        (let m1 = m\<lparr>sm_used := u32_sub (sm_used m) (u32_sub k ?n)\<rparr>; m2 = smem_split x ?n m1;
             y = u32_add (u32_add x 16) ?n; m3 = (if y < lfree m2 then m2\<lparr>lfree := y\<rparr> else m2)
         in Some (p, plug_holes m3 y))
      else (case rt_smem_alloc m ?n of None \<Rightarrow> None | Some (q, m1) \<Rightarrow>
        if q \<noteq> 0 then Some (q, rt_smem_free (m1\<lparr>sm_mem := snd (rt_memcpy (sm_mem m1) q p (if k < ?n then k else ?n))\<rparr>) p)
        else Some (q, m1)))"
      using fit an(2) p0 sz le by (simp add: rt_smem_realloc_def RT_ALIGN_SIZE_def Let_def u32_add_id split: option.splits)
    consider "k = ?n" | "?n + 28 < k" | "k \<noteq> ?n" "\<not> ?n + 28 < k" by linarith
    then show ?thesis
    proof cases
      case 1
      then have "rt_smem_realloc m p n = Some (p, m)" using eq by simp
      then show ?thesis using ok p0 p 1 an(1) by (auto simp: preserved_def intro!: exI [of _ k])
    next
      case 2
      define y where "y = x + 16 + ?n"
      define m1 where "m1 = (smem_split x ?n m)\<lparr>sm_used := sm_used m - (block_len m x - (?n + 16)),
        lfree := (if y < lfree m then y else lfree m)\<rparr>"
      have r: "x + 32 + ?n \<le> item_next (items m x)" using 2 x(4) b by (auto simp: block_len_def)
      note sh = rt_smem_shrink [OF ok x(2,3) r an(3) y_def, folded m1_def]
      have yw: "u32_add (u32_add x 16) ?n = y" using r b D(5) by (simp add: u32_add_id y_def)
      have "block_len m x \<le> used_sum m (blocks m)"
        using x(2,3) by (auto simp: used_sum_def intro!: member_le_sum_list)
      then have us: "u32_sub (sm_used m) (u32_sub k ?n) = sm_used m - (block_len m x - (?n + 16))"
        using 2 x(4) b D(5,11) used_bound [OF h] by (simp add: u32_sub_id)
      have sp: "smem_split x ?n (m\<lparr>sm_used := a\<rparr>) = (smem_split x ?n m)\<lparr>sm_used := a\<rparr>" for a
        by (simp add: smem_split_def Let_def set_next_def set_prev_def)
      have lf: "lfree (smem_split x ?n m) = lfree m" "(smem_split x ?n m)\<lparr>sm_used := a, lfree := lfree m\<rparr> =
          (smem_split x ?n m)\<lparr>sm_used := a\<rparr>" for a
        by (simp_all add: smem_split_def Let_def set_next_def set_prev_def)
      have "rt_smem_realloc m p n = Some (p, plug_holes m1 y)"
        using 2 unfolding eq Let_def us yw sp m1_def by (auto simp: lf)
      then show ?thesis
        using sh p0 x(1) an(1) by (auto simp: preserved_def intro!: exI [of _ ?n])
    next
      case 3
      show ?thesis
      proof (cases "find (fits m (alloc_size ?n)) (blocks m)")
        case None
        have "rt_smem_realloc m p n = Some (0, m)" using eq 3 rt_smem_alloc_none [OF ok None] by simp
        then show ?thesis using ok by auto
      next
        case (Some z)
        let ?c = "if k < ?n then k else ?n"
        obtain q m1 j where mv: "rt_smem_alloc m ?n = Some (q, m1)" "q \<noteq> 0" "alloc_size ?n \<le> j" "allocs m q = None"
          "heap_ok (rt_smem_free (m1\<lparr>sm_mem := snd (rt_memcpy (sm_mem m1) q p ?c)\<rparr>) p)"
          "allocs (rt_smem_free (m1\<lparr>sm_mem := snd (rt_memcpy (sm_mem m1) q p ?c)\<rparr>) p) = (allocs m)(p := None, q \<mapsto> j)"
          "sm_mem (rt_smem_free (m1\<lparr>sm_mem := snd (rt_memcpy (sm_mem m1) q p ?c)\<rparr>) p) = block_copy (sm_mem m) q p ?c"
          "\<And>r i. allocs m r = Some i \<Longrightarrow> r + i + 16 \<le> q \<or> q + j + 16 \<le> r"
          by (rule rt_smem_move [OF ok p an(2) Some, of ?c]) (simp, blast)
        have jn: "n \<le> j" "?c \<le> j" using mv(3) RT_ALIGN_pos(3) [OF n] alloc_size_props(3) [OF n(2)] 
          alloc_size_props(3) [OF an(4)] by auto
        have "rt_smem_realloc m p n = Some (q, rt_smem_free (m1\<lparr>sm_mem := snd (rt_memcpy (sm_mem m1) q p ?c)\<rparr>) p)"
          using eq 3 mv(1,2) by simp
        moreover have "preserved m (rt_smem_free (m1\<lparr>sm_mem := snd (rt_memcpy (sm_mem m1) q p ?c)\<rparr>) p) p"
          unfolding preserved_def mv(7) block_copy_def using mv(8) jn(2) by fastforce
        ultimately show ?thesis using mv(2,4-7) jn an(1) by (auto simp: block_copy_def)
      qed
    qed
  qed
qed

section \<open>Initialisation\<close>

lemma RT_ALIGN_mult: "8 dvd n \<Longrightarrow> n + 8 \<le> 2 ^ 32 \<Longrightarrow> RT_ALIGN n 8 = n"
  by (auto simp: RT_ALIGN_8)

lemma rt_smem_init_result:
  assumes "0 < b" and "b + sz + 8 \<le> 2 ^ 32" and "b + 80 \<le> 2 ^ 32" and i: "rt_smem_init b sz it0 mem0 = Some m"
  shows "heap_ok m" and "allocs m = Map.empty" and "blocks m = [0]" and "lfree m = 0" and "\<not> is_used m 0"
    and "mem_size_aligned m + 16 = heap_end m" and "block_len m 0 = heap_end m"
    and "b + 56 \<le> heap_ptr m" and "heap_ptr m + heap_end m + 16 \<le> b + sz"
proof -
  define st where "st = (b + 7) div 8 * 8 + 56"
  define en where "en = (b + sz) div 8 * 8"
  have a: "RT_ALIGN b 8 = (b + 7) div 8 * 8" using assms(2) by (simp add: RT_ALIGN_8)
  have le: "(b + 7) div 8 * 8 \<le> b + 7" "b \<le> (b + 7) div 8 * 8" "en \<le> b + sz" by (simp_all add: en_def)
  have st: "u32_add (RT_ALIGN b 8) 56 = st" "8 dvd st" "RT_ALIGN st 8 = st" "0 < st" "b + 56 \<le> st"
    using le assms(1,3) RT_ALIGN_mult [of st] by (simp_all add: a st_def u32_add_id)
  have en: "RT_ALIGN_DOWN (u32_add b sz) 8 = en" "8 dvd en" "en < 2 ^ 32"
    using le(3) assms(2) by (simp_all add: RT_ALIGN_DOWN_8 u32_add_id en_def)
  have c: "32 < en" "st \<le> en - 32" using i st en by (auto simp: rt_smem_init_def Let_def RT_ALIGN_SIZE_def split: if_splits)
  define z where "z = en - st - 32"
  have w: "u32_sub (u32_sub en st) 32 = z" "u32_add z 16 = z + 16" "st + z + 32 = en" "8 dvd z"
    using c en(2,3) st(2) by (simp_all add: u32_sub_id u32_add_id z_def)
  have m: "heap_ptr m = st" "heap_end m = z + 16" "lfree m = 0" "mem_size_aligned m = z" "sm_used m = 0" "sm_max m = 0"
    "items m = it0(0 := \<lparr>pool_ptr = MEM_FREED (RT_ALIGN b 8), item_next = z + 16, item_prev = 0\<rparr>,
       z + 16 := \<lparr>pool_ptr = MEM_USED (RT_ALIGN b 8), item_next = z + 16, item_prev = z + 16\<rparr>)"
    using i c st en w by (auto simp: rt_smem_init_def Let_def RT_ALIGN_SIZE_def)
  show u0: "\<not> is_used m 0" and "lfree m = 0" and "mem_size_aligned m + 16 = heap_end m" by (simp_all add: m)
  show "block_len m 0 = heap_end m" by (simp add: block_len_def m)
  show "b + 56 \<le> heap_ptr m" "heap_ptr m + heap_end m + 16 \<le> b + sz" using st(5) w(3) le(3) by (simp_all add: m)
  have h: "heap_chain m [0]"
    using st(2,4) w(3,4) en(3) u0 by (simp add: heap_chain_def m lowest_free_def used_sum_def)
  then show ok: "heap_ok m" by (rule heap_okI) simp
  show bl: "blocks m = [0]" by (rule heap_chain_blocks [OF h])
  show "allocs m = Map.empty" using u0 by (auto simp: allocs_def bl fun_eq_iff Let_def)
qed

section \<open>The allocator as a whole\<close>

text \<open>C27: on a well-formed heap an allocation always returns; it takes the first free block that is large
  enough and fails only when there is none; the memory it returns is aligned, inside the heap, at least as
  large as asked for (for requests up to \<open>2 ^ 32 - 8\<close>) and apart from every other allocation; all other allocations
  and all bytes stay as they are, and the heap stays well-formed.\<close>

theorem rt_smem_alloc_first_fit:
  assumes "heap_ok m" and "0 < n" and "n \<le> 2 ^ 32 - 8"
  shows "\<exists>p m'. rt_smem_alloc m n = Some (p, m') \<and> heap_ok m' \<and> sm_mem m' = sm_mem m \<and>
    (case find (\<lambda>x. \<not> is_used m x \<and> alloc_size n \<le> block_len m x - 16) (blocks m) of
       None \<Rightarrow> p = 0 \<and> m' = m
     | Some x \<Rightarrow> p = heap_ptr m + x + 16 \<and> 8 dvd p \<and>
         (\<exists>k\<ge>n. allocs m p = None \<and> allocs m' = (allocs m)(p \<mapsto> k) \<and> p + k \<le> heap_ptr m + heap_end m \<and>
            (\<forall>q j. allocs m q = Some j \<longrightarrow> p + k \<le> q \<or> q + j \<le> p)))"
proof -
  have fit: "(\<lambda>x. \<not> is_used m x \<and> alloc_size n \<le> block_len m x - 16) = fits m (alloc_size n)"
    by (simp add: fits_def fun_eq_iff)
  show ?thesis
  proof (cases "find (fits m (alloc_size n)) (blocks m)")
    case None
    then show ?thesis using rt_smem_alloc_none [OF assms(1)] assms(1) by (simp add: fit)
  next
    case (Some x)
    obtain m' k where r: "rt_smem_alloc m n = Some (heap_ptr m + x + 16, m')" "heap_ok m'"
      "allocs m' = (allocs m)(heap_ptr m + x + 16 \<mapsto> k)" "allocs m (heap_ptr m + x + 16) = None"
      "alloc_size n \<le> k" "heap_ptr m' = heap_ptr m" "sm_mem m' = sm_mem m" "mem_size_aligned m' = mem_size_aligned m"
      using rt_smem_alloc_result [OF assms(1) _ Some] assms(2) by (metis less_numeral_extra(3))
    let ?p = "heap_ptr m + x + 16"
    have h: "heap_chain m' (blocks m')" "heap_chain m (blocks m)" using r(2) assms(1) by (simp_all add: heap_ok_def)
    have e: "heap_end m' = heap_end m" using heap_chainD(4) [OF h(1)] heap_chainD(4) [OF h(2)] r(8) by simp
    have "allocs m' ?p = Some k" by (simp add: r(3))
    note ins = allocs_inside [OF h(1) this]
    have "?p + k \<le> q \<or> q + j \<le> ?p" if "allocs m q = Some j" for q j
      using allocs_apart [OF h(1), of ?p k q j] that r(3,4) by (cases "q = ?p") auto
    moreover have "n \<le> k" using r(5) alloc_size_props(3) [OF assms(3)] by simp
    ultimately show ?thesis using r(1-4,7) ins e r(6) Some by (auto simp: fit intro!: exI [of _ k])
  qed
qed

text \<open>A heap of 152 bytes, at address 1000, with room for 32 bytes.\<close>

definition demo_heap :: rt_small_mem where
  "demo_heap = the (rt_smem_init 1000 152 (\<lambda>_. \<lparr>pool_ptr = 0, item_next = 0, item_prev = 0\<rparr>) (\<lambda>_. 0))"

lemma demo_heap_init: "rt_smem_init 1000 152 (\<lambda>_. \<lparr>pool_ptr = 0, item_next = 0, item_prev = 0\<rparr>) (\<lambda>_. 0) = Some demo_heap"
  by (simp add: demo_heap_def rt_smem_init_def Let_def RT_ALIGN_SIZE_def RT_ALIGN_8 RT_ALIGN_DOWN_8 u32_add_def u32_sub_def)

lemma demo_heap_ok: "heap_ok demo_heap" "allocs demo_heap = Map.empty" "blocks demo_heap = [0]" "\<not> is_used demo_heap 0"
  "heap_ptr demo_heap = 1056" "heap_end demo_heap = 80" "block_len demo_heap 0 = 80"
proof -
  note i = rt_smem_init_result [OF _ _ _ demo_heap_init]
  show "heap_ok demo_heap" "allocs demo_heap = Map.empty" "blocks demo_heap = [0]" "\<not> is_used demo_heap 0"
    using i(1-3,5) by simp_all
  show e: "heap_ptr demo_heap = 1056" "heap_end demo_heap = 80"
    by (simp_all add: demo_heap_def rt_smem_init_def Let_def RT_ALIGN_SIZE_def RT_ALIGN_8 RT_ALIGN_DOWN_8 u32_add_def u32_sub_def)
  show "block_len demo_heap 0 = 80" using i(7) e(2) by simp
qed

theorem rt_smem_alloc_first_fit_witness:
  "\<exists>m'. rt_smem_alloc demo_heap 20 = Some (1072, m') \<and> heap_ok m' \<and> allocs m' 1072 \<noteq> None"
proof -
  have "alloc_size 20 = 24" by (simp add: alloc_size_def RT_ALIGN_8)
  then show ?thesis using rt_smem_alloc_first_fit [OF demo_heap_ok(1), of 20] demo_heap_ok(3-7) by auto
qed

lemma demo_alloc:
  obtains m' k where "rt_smem_alloc demo_heap 20 = Some (1072, m')" "heap_ok m'" "allocs m' = [1072 \<mapsto> k]"
proof -
  have f: "find (fits demo_heap (alloc_size 20)) (blocks demo_heap) = Some 0"
    using demo_heap_ok(3,4,7) by (simp add: fits_def alloc_size_def RT_ALIGN_8)
  have "(20 :: nat) \<noteq> 0" by simp
  then obtain m' k where "rt_smem_alloc demo_heap 20 = Some (heap_ptr demo_heap + 0 + 16, m')" "heap_ok m'"
    "allocs m' = (allocs demo_heap)(heap_ptr demo_heap + 0 + 16 \<mapsto> k)"
    using rt_smem_alloc_result [OF demo_heap_ok(1) _ f] by metis
  then show thesis using demo_heap_ok(2,5) by (intro that [of m' k]) simp_all
qed

text \<open>Giving back an allocated block removes exactly that allocation and subtracts its block from the usage
  counter; no byte of memory changes, and the freed block is joined with its free neighbours, so that no
  two free blocks are ever adjacent.\<close>

theorem rt_smem_free_gives_back:
  assumes "heap_ok m" and "allocs m p = Some n"
  shows "heap_ok (rt_smem_free m p) \<and> allocs (rt_smem_free m p) = (allocs m)(p := None) \<and>
    sm_used (rt_smem_free m p) + n + 16 = sm_used m \<and> sm_mem (rt_smem_free m p) = sm_mem m \<and>
    coalesced (is_used (rt_smem_free m p)) (blocks (rt_smem_free m p))"
proof -
  note r = rt_smem_free_result [OF assms]
  have h: "heap_chain m (blocks m)" using assms(1) by (simp add: heap_ok_def)
  obtain x where x: "x \<in> set (blocks m)" "is_used m x" "n = block_len m x - 16" using allocsE [OF assms(2)] by metis
  have "block_len m x \<le> used_sum m (blocks m)" using x(1,2) by (auto simp: used_sum_def intro!: member_le_sum_list)
  then have "n + 16 \<le> sm_used m"
    using x(3) linked_bounds [OF heap_chainD(3) [OF h] x(1)] heap_chainD(11) [OF h] by (auto simp: block_len_def)
  then show ?thesis using r by (simp add: heap_ok_def)
qed

theorem rt_smem_free_gives_back_witness:
  "\<exists>m'. rt_smem_alloc demo_heap 20 = Some (1072, m') \<and> heap_ok (rt_smem_free m' 1072) \<and>
     allocs (rt_smem_free m' 1072) = Map.empty"
proof -
  obtain m' k where r: "rt_smem_alloc demo_heap 20 = Some (1072, m')" "heap_ok m'" "allocs m' = [1072 \<mapsto> k]"
    by (rule demo_alloc)
  then have "allocs m' 1072 = Some k" by simp
  from rt_smem_free_gives_back [OF r(2) this] r(1,3) show ?thesis by auto
qed

text \<open>Resizing an allocation always returns; when it fails nothing has changed, and when it succeeds the
  new block replaces the old one, is at least as large as asked for and holds the old contents up to
  the smaller of both sizes, while every other allocation keeps its place and its bytes.\<close>

theorem rt_smem_realloc_keeps_contents:
  assumes "heap_ok m" and "allocs m p = Some k" and "n \<noteq> 0" and "n \<le> 2 ^ 32 - 8"
  shows "\<exists>q m'. rt_smem_realloc m p n = Some (q, m') \<and> heap_ok m' \<and>
    (if q = 0 then m' = m
     else \<exists>j. n \<le> j \<and> (q = p \<or> allocs m q = None) \<and> allocs m' = (allocs m)(p := None, q \<mapsto> j) \<and>
       (\<forall>i<min k n. sm_mem m' (q + i) = sm_mem m (p + i)) \<and>
       (\<forall>r i l. allocs m r = Some l \<longrightarrow> r \<noteq> p \<longrightarrow> i < l \<longrightarrow> sm_mem m' (r + i) = sm_mem m (r + i)))"
  using rt_smem_realloc_result [OF assms] unfolding preserved_def .

theorem rt_smem_realloc_keeps_contents_witness:
  "\<exists>m' q m''. rt_smem_alloc demo_heap 20 = Some (1072, m') \<and> rt_smem_realloc m' 1072 8 = Some (q, m'') \<and> heap_ok m''"
proof -
  obtain m' k where r: "rt_smem_alloc demo_heap 20 = Some (1072, m')" "heap_ok m'" "allocs m' = [1072 \<mapsto> k]"
    by (rule demo_alloc)
  then have "allocs m' 1072 = Some k" by simp
  from rt_smem_realloc_keeps_contents [OF r(2) this, of 8] r(1) show ?thesis by auto
qed

text \<open>A request of \<open>2 ^ 32 - 7\<close> bytes or more is aligned to zero in 32-bit arithmetic, so that it succeeds with a
  block of less than 48 bytes whenever any free block can hold 16.\<close>

theorem rt_smem_alloc_huge_request_succeeds:
  assumes "heap_ok m" and "2 ^ 32 - 7 \<le> n" and "n < 2 ^ 32"
    and "x \<in> set (blocks m)" and "\<not> is_used m x" and "32 \<le> block_len m x"
  shows "\<exists>p m' k. rt_smem_alloc m n = Some (p, m') \<and> p \<noteq> 0 \<and> allocs m' p = Some k \<and> k < 48"
proof -
  have "(n + 7) mod 2 ^ 32 = n + 7 - 2 ^ 32" using assms(2,3) by (simp add: mod_if)
  then have a: "alloc_size n = 16" using assms(2,3) by (simp add: alloc_size_def RT_ALIGN_8)
  have "find (fits m 16) (blocks m) \<noteq> None" using assms(4-6) by (auto simp: find_None_iff fits_def)
  then obtain z where "find (fits m (alloc_size n)) (blocks m) = Some z" using a by auto
  from rt_smem_alloc_result [OF assms(1) _ this] show ?thesis using assms(2) a by fastforce
qed

theorem rt_smem_alloc_huge_request_succeeds_witness:
  "\<exists>p m' k. rt_smem_alloc demo_heap 4294967295 = Some (p, m') \<and> p \<noteq> 0 \<and> allocs m' p = Some k \<and> k < 48"
  using rt_smem_alloc_huge_request_succeeds [OF demo_heap_ok(1), of 4294967295 0] demo_heap_ok(3,4,7) by simp

text \<open>The heaps that a client reaches from an initialised one that gives back and resizes only what it has, and writes
  into the memory at will.\<close>

inductive heap_reachable :: "rt_small_mem \<Rightarrow> bool" where
  init: "0 < b \<Longrightarrow> b + sz + 8 \<le> 2 ^ 32 \<Longrightarrow> b + 80 \<le> 2 ^ 32 \<Longrightarrow> rt_smem_init b sz it0 mem0 = Some m \<Longrightarrow> heap_reachable m"
| alloc: "heap_reachable m \<Longrightarrow> n < 2 ^ 32 \<Longrightarrow> rt_smem_alloc m n = Some (p, m') \<Longrightarrow> heap_reachable m'"
| free: "heap_reachable m \<Longrightarrow> p = 0 \<or> allocs m p \<noteq> None \<Longrightarrow> heap_reachable (rt_smem_free m p)"
| realloc: "heap_reachable m \<Longrightarrow> n < 2 ^ 32 \<Longrightarrow> p = 0 \<or> allocs m p \<noteq> None \<Longrightarrow>
    rt_smem_realloc m p n = Some (q, m') \<Longrightarrow> heap_reachable m'"
| store: "heap_reachable m \<Longrightarrow> heap_reachable (m\<lparr>sm_mem := f\<rparr>)"

lemma rt_smem_alloc_total:
  assumes "heap_ok m"
  shows "\<exists>p m'. rt_smem_alloc m n = Some (p, m') \<and> heap_ok m'"
proof (cases "n = 0")
  case False
  show ?thesis
  proof (cases "find (fits m (alloc_size n)) (blocks m)")
    case None
    then show ?thesis using rt_smem_alloc_none [OF assms None] assms by simp
  next
    case (Some x)
    then show ?thesis using rt_smem_alloc_result [OF assms False Some] by metis
  qed
qed (use assms in \<open>simp add: rt_smem_alloc_def\<close>)

lemma rt_smem_free_total: "heap_ok m \<Longrightarrow> p = 0 \<or> allocs m p \<noteq> None \<Longrightarrow> heap_ok (rt_smem_free m p)"
  using rt_smem_free_result(1) [of m p] by (cases "p = 0") (simp_all add: rt_smem_free_def, blast)

lemma rt_smem_realloc_total:
  assumes "heap_ok m" and "n < 2 ^ 32" and p: "p = 0 \<or> allocs m p \<noteq> None"
  shows "\<exists>q m'. rt_smem_realloc m p n = Some (q, m') \<and> heap_ok m'"
proof (cases "RT_ALIGN n 8 = 0")
  case True
  then show ?thesis using rt_smem_free_total [OF assms(1) p] assms(1) by (simp add: rt_smem_realloc_def RT_ALIGN_SIZE_def)
next
  case False
  have n: "n \<noteq> 0" "n \<le> 2 ^ 32 - 8"
  proof -
    show "n \<noteq> 0" using False by (auto simp: RT_ALIGN_8)
    show "n \<le> 2 ^ 32 - 8"
    proof (rule ccontr)
      assume "\<not> n \<le> 2 ^ 32 - 8"
      then have "(n + 7) mod 2 ^ 32 = n + 7 - 2 ^ 32" "n + 7 - 2 ^ 32 < 8" using assms(2) by (simp_all add: mod_if)
      then show False using False by (simp add: RT_ALIGN_8)
    qed
  qed
  show ?thesis
  proof (cases "p = 0")
    case True
    then show ?thesis
      using rt_smem_alloc_total [OF assms(1)] assms(1) False by (simp add: rt_smem_realloc_def RT_ALIGN_SIZE_def Let_def)
  next
    case False
    then obtain k where "allocs m p = Some k" using p by auto
    then show ?thesis using rt_smem_realloc_result [OF assms(1) _ n] by metis
  qed
qed

lemma heap_ok_store [simp]: "heap_ok (m\<lparr>sm_mem := f\<rparr>) = heap_ok m"
  by (simp add: heap_ok_def heap_chain_def blocks_def lowest_free_def used_sum_def block_len_def cong: map_cong)

text \<open>C26: in every heap that a client reaches by giving back and resizing only what it has, allocating any
  number of bytes returns, resizing a live allocation (or none) to any 32-bit size returns, giving back a live
  allocation removes it and no other, each of the three leaves a well-formed heap, and the live allocations
  are pairwise disjoint, aligned and inside the heap.\<close>

theorem heap_reachable_safe:
  assumes "heap_reachable m"
  shows "heap_ok m \<and>
    (\<forall>n. \<exists>p m'. rt_smem_alloc m n = Some (p, m') \<and> heap_ok m') \<and>
    (\<forall>p n. (p = 0 \<or> allocs m p \<noteq> None) \<and> n < 2 ^ 32 \<longrightarrow>
       (\<exists>q m'. rt_smem_realloc m p n = Some (q, m') \<and> heap_ok m')) \<and>
    (\<forall>p. allocs m p \<noteq> None \<longrightarrow>
       heap_ok (rt_smem_free m p) \<and> allocs (rt_smem_free m p) = (allocs m)(p := None)) \<and>
    (\<forall>p n. allocs m p = Some n \<longrightarrow> 8 dvd p \<and> heap_ptr m < p \<and> p + n \<le> heap_ptr m + heap_end m) \<and>
    (\<forall>p n q k. allocs m p = Some n \<longrightarrow> allocs m q = Some k \<longrightarrow> p \<noteq> q \<longrightarrow> p + n \<le> q \<or> q + k \<le> p)"
proof -
  have ok: "heap_ok m" using assms
  proof induction
    case (init b sz it0 mem0 m)
    then show ?case using rt_smem_init_result(1) by blast
  next
    case (alloc m n p m')
    then show ?case using rt_smem_alloc_total [of m n] by simp
  next
    case (free m p)
    then show ?case by (intro rt_smem_free_total)
  next
    case (realloc m n p q m')
    then show ?case using rt_smem_realloc_total [of m n p] by simp
  qed simp
  then have h: "heap_chain m (blocks m)" by (simp add: heap_ok_def)
  have "\<exists>p m'. rt_smem_alloc m n = Some (p, m') \<and> heap_ok m'" for n by (rule rt_smem_alloc_total [OF ok])
  moreover have "\<exists>q m'. rt_smem_realloc m p n = Some (q, m') \<and> heap_ok m'"
    if "(p = 0 \<or> allocs m p \<noteq> None) \<and> n < 2 ^ 32" for p n
    using rt_smem_realloc_total [OF ok] that by blast
  moreover have "heap_ok (rt_smem_free m p) \<and> allocs (rt_smem_free m p) = (allocs m)(p := None)"
    if "allocs m p \<noteq> None" for p
    using rt_smem_free_result(1,2) [OF ok] that by auto
  moreover have "8 dvd p \<and> heap_ptr m < p \<and> p + n \<le> heap_ptr m + heap_end m" if "allocs m p = Some n" for p n
    using allocs_inside [OF h that] by auto
  moreover have "p + n \<le> q \<or> q + k \<le> p" if "allocs m p = Some n" "allocs m q = Some k" "p \<noteq> q" for p n q k
    using allocs_apart [OF h that] by auto
  ultimately show ?thesis using ok by blast
qed

theorem heap_reachable_safe_witness:
  "\<exists>m. rt_smem_alloc demo_heap 20 = Some (1072, m) \<and> allocs m 1072 \<noteq> None \<and>
     (\<exists>q m'. rt_smem_realloc m 1072 40 = Some (q, m') \<and> heap_ok m') \<and> allocs (rt_smem_free m 1072) = Map.empty"
proof -
  obtain m k where r: "rt_smem_alloc demo_heap 20 = Some (1072, m)" "heap_ok m" "allocs m = [1072 \<mapsto> k]"
    by (rule demo_alloc)
  have "heap_reachable demo_heap" by (rule heap_reachable.init [OF _ _ _ demo_heap_init]) simp_all
  from heap_reachable.alloc [OF this _ r(1)] have "heap_reachable m" by simp
  from heap_reachable_safe [OF this] have "\<exists>q m'. rt_smem_realloc m 1072 40 = Some (q, m') \<and> heap_ok m'"
    "allocs (rt_smem_free m 1072) = (allocs m)(1072 := None)"
    using r(3) by auto
  then show ?thesis using r(1,3) by simp
qed

section \<open>The contract of a memory provider\<close>

text \<open>The allocator as its clients use it: requests within the range that does not wrap, RT_NULL as refusal.\<close>

definition smem_malloc :: "nat \<Rightarrow> rt_small_mem \<Rightarrow> (addr \<times> rt_small_mem) option" where
  "smem_malloc n m =
     (if n > 2 ^ 32 - 8 then None
      else (case rt_smem_alloc m n of
              None \<Rightarrow> None | Some (p, m') \<Rightarrow> if p = 0 then None else Some (p, m')))"

lemma smem_malloc_adds:
  assumes "heap_ok m" and "smem_malloc n m = Some (p, m')"
  shows "heap_ok m' \<and> allocs m p = None \<and> (\<exists>k\<ge>n. allocs m' = (allocs m)(p \<mapsto> k))"
proof -
  have r: "rt_smem_alloc m n = Some (p, m')" "p \<noteq> 0" "n \<le> 2 ^ 32 - 8"
    using assms(2) by (auto simp: smem_malloc_def split: if_splits option.splits)
  have n: "n \<noteq> 0"
  proof
    assume "n = 0"
    then show False using r(1,2) by (simp add: rt_smem_alloc_def)
  qed
  obtain x where x: "find (fits m (alloc_size n)) (blocks m) = Some x"
    using rt_smem_alloc_none [OF assms(1), of n] r(1,2) by (cases "find (fits m (alloc_size n)) (blocks m)") auto
  from rt_smem_alloc_result [OF assms(1) n x] obtain k where "heap_ok m'" "allocs m' = (allocs m)(p \<mapsto> k)"
      "allocs m p = None" "alloc_size n \<le> k"
    using r(1) by (metis (no_types, lifting) Pair_inject option.inject)
  then show ?thesis using alloc_size_props(3) [OF r(3)] by (auto intro: le_trans)
qed

interpretation smem: block_allocator heap_ok allocs smem_malloc "\<lambda>p m. rt_smem_free m p"
proof unfold_locales
  fix s p n q k s'
  show "p + n \<le> q \<or> q + k \<le> p" if "heap_ok s" "allocs s p = Some n" "allocs s q = Some k" "p \<noteq> q"
    using allocs_apart [of s "blocks s" p n q k] that by (auto simp: heap_ok_def)
  show "heap_ok s' \<and> allocs s p = None \<and> (\<exists>k\<ge>n. allocs s' = (allocs s)(p \<mapsto> k))"
    if "heap_ok s" "smem_malloc n s = Some (p, s')"
    by (rule smem_malloc_adds [OF that])
  show "heap_ok (rt_smem_free s p) \<and> allocs (rt_smem_free s p) = (allocs s)(p := None)"
    if "heap_ok s" "allocs s p = Some n"
    using rt_smem_free_result(1,2) [OF that] by blast
qed

text \<open>A client that allocates any number of blocks gets memory that does not overlap, and when it gives all of
  them back, in any order, the allocations are what they were before.\<close>

theorem rt_smem_alloc_free_roundtrip:
  assumes "heap_ok m" and "alloc_all smem_malloc ns m = Some (ps, m')" and "set qs = set ps" and "distinct qs"
  shows "(\<forall>i<length ns. \<forall>j<length ns. i \<noteq> j \<longrightarrow> ps ! i + ns ! i \<le> ps ! j \<or> ps ! j + ns ! j \<le> ps ! i) \<and>
    heap_ok (free_all (\<lambda>p m. rt_smem_free m p) qs m') \<and>
    allocs (free_all (\<lambda>p m. rt_smem_free m p) qs m') = allocs m"
  using smem.alloc_all_apart [OF assms(1,2)] smem.alloc_free_restores [OF assms] by blast

theorem rt_smem_alloc_free_roundtrip_witness:
  "\<exists>m'. alloc_all smem_malloc [20] demo_heap = Some ([1072], m') \<and> allocs m' 1072 \<noteq> None \<and>
     allocs (free_all (\<lambda>p m. rt_smem_free m p) [1072] m') = Map.empty"
proof -
  obtain m' k where r: "rt_smem_alloc demo_heap 20 = Some (1072, m')" "heap_ok m'" "allocs m' = [1072 \<mapsto> k]"
    by (rule demo_alloc)
  then have a: "alloc_all smem_malloc [20] demo_heap = Some ([1072], m')" by (simp add: smem_malloc_def)
  from rt_smem_alloc_free_roundtrip [OF demo_heap_ok(1) this, of "[1072]"] a r(3) show ?thesis
    using demo_heap_ok(2) by simp
qed

end
