(* ===== verification/Mempool.thy ===== *)
theory Mempool
  imports Ipc_Base Block_Alloc Free_List
begin

unbundle bit_operations_syntax

text \<open>
  Memory pools of equal blocks, \<^verbatim>\<open>src/mempool.c\<close>.  The first word of a block is the link of the free list, or the address of
  the pool while the block is in use; \<open>mp_link\<close> holds these words.  Threads that wait for a block of
  pool \<open>i\<close> are in the queue \<open>Mp_Q i\<close>; a blocking allocation is split where its caller has been suspended.

  The pool meets the contract of a memory provider; allocation and release keep it well-formed and a
  release wakes the first waiting thread.
\<close>

record rt_mempool =
  mp_self :: addr
  start_address :: addr
  mp_size :: nat
  block_size :: nat
  block_list :: addr
  block_total_count :: nat
  block_free_count :: nat
  mp_link :: "addr \<Rightarrow> addr"

section \<open>Operations\<close>

text \<open>The loop that links the blocks; addresses are 32-bit.\<close>

fun mp_link_loop :: "addr \<Rightarrow> nat \<Rightarrow> nat \<Rightarrow> nat \<Rightarrow> (addr \<Rightarrow> addr) \<Rightarrow> (addr \<Rightarrow> addr)" where
  "mp_link_loop block_ptr stride offset 0 lk = lk"
| "mp_link_loop block_ptr stride offset (Suc n) lk =
     mp_link_loop block_ptr stride (offset + 1) n
       (lk(u32 (block_ptr + offset * stride) := u32 (block_ptr + (offset + 1) * stride)))"

definition rt_mp_init :: "addr \<Rightarrow> addr \<Rightarrow> nat \<Rightarrow> nat \<Rightarrow> (addr \<Rightarrow> addr) \<Rightarrow> rt_mempool" where
  "rt_mp_init mp start sz block_sz lk =
     (let msz = RT_ALIGN_DOWN sz RT_ALIGN_SIZE;
          bsz = RT_ALIGN block_sz RT_ALIGN_SIZE;
          stride = u32_add bsz 4;
          total = msz div stride;
          lk1 = mp_link_loop start stride 0 total lk;
          lk2 = lk1(u32 (start + u32_sub total 1 * stride) := 0)
      in \<lparr>mp_self = mp, start_address = start, mp_size = msz, block_size = bsz, block_list = start,
          block_total_count = total, block_free_count = total, mp_link = lk2\<rparr>)"

definition rt_mp_detach :: "nat \<Rightarrow> kernel \<Rightarrow> rt_err_t \<times> kernel" where
  "rt_mp_detach i s =
     (let s1 = snd (rt_susp_list_resume_all (Mp_Q i) RT_ERROR (rt_spin_lock_irqsave s))
      in (RT_EOK, rt_spin_unlock_irqrestore s1))"

text \<open>In an interrupt, and before the first thread runs, the error number goes to a global variable that nothing here
  reads.\<close>

definition rt_set_errno :: "rt_err_t \<Rightarrow> kernel \<Rightarrow> kernel" where
  "rt_set_errno error s =
     (if interrupt_nest s \<noteq> 0 then s
      else (case current_thread s of None \<Rightarrow> s | Some tid \<Rightarrow> set_th_error tid error s))"

definition mp_take :: "rt_mempool \<Rightarrow> addr \<times> rt_mempool" where
  "mp_take mp =
     (let block_ptr = block_list mp
      in (block_ptr + 4, mp\<lparr>block_free_count := block_free_count mp - 1, block_list := mp_link mp block_ptr,
            mp_link := (mp_link mp)(block_ptr := mp_self mp)\<rparr>))"

definition mp_give :: "addr \<Rightarrow> rt_mempool \<Rightarrow> rt_mempool" where
  "mp_give block mp =
     mp\<lparr>block_free_count := u32_add (block_free_count mp) 1, mp_link := (mp_link mp)(block - 4 := block_list mp),
        block_list := block - 4\<rparr>"

definition mp_alloc_loop :: "nat \<Rightarrow> int \<Rightarrow> tid \<Rightarrow> rt_mempool \<Rightarrow> kernel \<Rightarrow> addr outcome \<times> rt_mempool \<times> kernel" where
  "mp_alloc_loop i time thread mp s =
     (if block_free_count mp = 0 then
        (if time = 0 then (Done 0, mp, rt_set_errno (- RT_ETIMEOUT) (rt_spin_unlock_irqrestore s))
         else
           (let s1 = set_th_error thread RT_EOK s;
                s2 = snd (rt_thread_suspend_to_list thread (Some (Mp_Q i)) RT_IPC_FLAG_FIFO RT_UNINTERRUPTIBLE s1);
                s3 = (if time > 0 then arm_thread_timer thread (word_of_int time) s2 else s2)
            in (Blocked, mp, rt_spin_unlock_irqrestore s3)))
      else (let (block, mp') = mp_take mp in (Done block, mp', rt_spin_unlock_irqrestore s)))"

definition rt_mp_alloc_enter :: "nat \<Rightarrow> int \<Rightarrow> tid \<Rightarrow> rt_mempool \<Rightarrow> kernel \<Rightarrow> addr outcome \<times> rt_mempool \<times> kernel" where
  "rt_mp_alloc_enter i time thread mp s = mp_alloc_loop i time thread mp (rt_spin_lock_irqsave s)"

definition rt_mp_alloc_resume ::
    "nat \<Rightarrow> int \<Rightarrow> rt_tick_t \<Rightarrow> tid \<Rightarrow> rt_mempool \<Rightarrow> kernel \<Rightarrow> addr outcome \<times> rt_mempool \<times> kernel" where
  "rt_mp_alloc_resume i time before_sleep thread mp s =
     (let s1 = rt_schedule s
      in if th_error (threads s1 thread) \<noteq> RT_EOK then (Done 0, mp, s1)
         else mp_alloc_loop i (ipc_time_left time before_sleep (tick s1)) thread mp (rt_spin_lock_irqsave s1))"

definition rt_mp_free :: "nat \<Rightarrow> addr \<Rightarrow> rt_mempool \<Rightarrow> kernel \<Rightarrow> rt_mempool \<times> kernel" where
  "rt_mp_free i block mp s =
     (if block = 0 then (mp, s)
      else
        (let s1 = rt_spin_lock_irqsave s;
             mp1 = mp_give block mp;
             (woken, s2) = rt_susp_list_dequeue (Mp_Q i) RT_EOK s1
         in (mp1, if woken \<noteq> None then rt_schedule (rt_spin_unlock_irqrestore s2) else rt_spin_unlock_irqrestore s2)))"

section \<open>The pool\<close>

definition mp_stride :: "rt_mempool \<Rightarrow> nat" where
  "mp_stride mp = block_size mp + 4"

definition mp_slots :: "rt_mempool \<Rightarrow> addr list" where
  "mp_slots mp = map (\<lambda>k. start_address mp + k * mp_stride mp) [0..<block_total_count mp]"

definition mp_free_blocks :: "rt_mempool \<Rightarrow> addr list" where
  "mp_free_blocks mp = follow (mp_link mp) (block_total_count mp) (block_list mp)"

definition mp_chain :: "rt_mempool \<Rightarrow> addr list \<Rightarrow> bool" where
  "mp_chain mp fs \<longleftrightarrow> chain (mp_link mp) (block_list mp) fs \<and> distinct fs \<and> set fs \<subseteq> set (mp_slots mp) \<and>
     length fs = block_free_count mp \<and> 0 < start_address mp \<and>
     start_address mp + block_total_count mp * mp_stride mp \<le> 2 ^ 32 \<and>
     (\<forall>b\<in>set (mp_slots mp) - set fs. mp_link mp b = mp_self mp)"

definition mp_ok :: "rt_mempool \<Rightarrow> bool" where
  "mp_ok mp \<longleftrightarrow> mp_chain mp (mp_free_blocks mp)"

definition mp_live :: "rt_mempool \<Rightarrow> addr \<Rightarrow> nat option" where
  "mp_live mp p =
     (if 4 \<le> p \<and> p - 4 \<in> set (mp_slots mp) \<and> p - 4 \<notin> set (mp_free_blocks mp) then Some (block_size mp) else None)"

lemma distinct_slots: "distinct (mp_slots mp)"
  by (simp add: mp_slots_def distinct_map inj_on_def mp_stride_def)

lemma mp_chain_free: "mp_chain mp fs \<Longrightarrow> mp_free_blocks mp = fs"
proof -
  assume c: "mp_chain mp fs"
  then have "length fs \<le> length (mp_slots mp)"
    using card_mono [of "set (mp_slots mp)" "set fs"] distinct_card [of fs] distinct_card [OF distinct_slots [of mp]]
    by (simp add: mp_chain_def)
  then show ?thesis using c chain_follow by (simp add: mp_chain_def mp_free_blocks_def mp_slots_def)
qed

lemma mp_okI: "mp_chain mp fs \<Longrightarrow> mp_ok mp"
  using mp_chain_free by (simp add: mp_ok_def)

lemma slots_apart:
  assumes "b \<in> set (mp_slots mp)" and "c \<in> set (mp_slots mp)" and "b \<noteq> c"
  shows "b + mp_stride mp \<le> c \<or> c + mp_stride mp \<le> b"
proof -
  obtain j k where jk: "b = start_address mp + j * mp_stride mp" "c = start_address mp + k * mp_stride mp"
    using assms(1,2) by (auto simp: mp_slots_def)
  then have "j \<noteq> k" using assms(3) by auto
  then have "Suc j * mp_stride mp \<le> k * mp_stride mp \<or> Suc k * mp_stride mp \<le> j * mp_stride mp"
    by (metis Suc_leI linorder_neqE_nat mult_le_mono1)
  then show ?thesis by (auto simp: jk)
qed

lemma mp_take_result:
  assumes "mp_ok mp" and "block_free_count mp \<noteq> 0"
  shows "mp_ok (snd (mp_take mp))" and "mp_live mp (fst (mp_take mp)) = None"
    and "mp_live (snd (mp_take mp)) = (mp_live mp)(fst (mp_take mp) \<mapsto> block_size mp)"
    and "block_free_count (snd (mp_take mp)) + 1 = block_free_count mp"
    and "fst (mp_take mp) \<noteq> 0" and "block_size (snd (mp_take mp)) = block_size mp"
proof -
  define fs where "fs = mp_free_blocks mp"
  have c: "mp_chain mp fs" using assms(1) by (simp add: mp_ok_def fs_def)
  then obtain b gs where fs: "fs = b # gs" using assms(2) by (cases fs) (auto simp: mp_chain_def)
  have b: "block_list mp = b" "b \<noteq> 0" "chain (mp_link mp) (mp_link mp b) gs" "b \<notin> set gs" "distinct gs"
    "b \<in> set (mp_slots mp)" "set gs \<subseteq> set (mp_slots mp)" "length gs + 1 = block_free_count mp"
    using c fs by (auto simp: mp_chain_def)
  let ?m = "snd (mp_take mp)"
  have m: "mp_slots ?m = mp_slots mp" "block_size ?m = block_size mp" "mp_stride ?m = mp_stride mp"
    by (simp_all add: mp_take_def mp_slots_def mp_stride_def Let_def)
  have c': "mp_chain ?m gs"
    using c b fs by (auto simp: mp_chain_def mp_take_def Let_def mp_slots_def mp_stride_def)
  then show "mp_ok ?m" by (rule mp_okI)
  have f: "mp_free_blocks ?m = gs" "mp_free_blocks mp = b # gs"
    using mp_chain_free [OF c'] mp_chain_free [OF c] fs by simp_all
  show "mp_live mp (fst (mp_take mp)) = None" using f b(1) by (simp add: mp_live_def mp_take_def Let_def)
  show "mp_live ?m = (mp_live mp)(fst (mp_take mp) \<mapsto> block_size mp)"
  proof
    fix p
    show "mp_live ?m p = ((mp_live mp)(fst (mp_take mp) \<mapsto> block_size mp)) p"
      using f b(1,4,6) m by (cases "p = b + 4") (auto simp: mp_live_def mp_take_def Let_def)
  qed
  show "block_free_count ?m + 1 = block_free_count mp" "fst (mp_take mp) \<noteq> 0" "block_size ?m = block_size mp"
    using b(8) by (auto simp: mp_take_def Let_def)
qed

lemma mp_give_result:
  assumes "mp_ok mp" and "mp_live mp p = Some n"
  shows "mp_ok (mp_give p mp)" and "mp_live (mp_give p mp) = (mp_live mp)(p := None)"
    and "block_free_count (mp_give p mp) = block_free_count mp + 1" and "block_size (mp_give p mp) = block_size mp"
proof -
  define fs where "fs = mp_free_blocks mp"
  have c: "mp_chain mp fs" using assms(1) by (simp add: mp_ok_def fs_def)
  have p: "4 \<le> p" "p - 4 \<in> set (mp_slots mp)" "p - 4 \<notin> set fs"
    using assms(2) by (auto simp: mp_live_def fs_def split: if_splits)
  have p0: "p - 4 \<noteq> 0" using p(2) c by (auto simp: mp_slots_def mp_chain_def)
  have "length fs \<le> length (mp_slots mp)"
    using c card_mono [of "set (mp_slots mp)" "set fs"] distinct_card [of fs] distinct_card [OF distinct_slots [of mp]]
    by (simp add: mp_chain_def)
  moreover have "block_total_count mp < 2 ^ 32"
  proof -
    have "block_total_count mp \<le> block_total_count mp * mp_stride mp" by (simp add: mp_stride_def)
    moreover have "start_address mp + block_total_count mp * mp_stride mp \<le> 2 ^ 32" "0 < start_address mp"
      using c unfolding mp_chain_def by blast+
    ultimately show ?thesis by linarith
  qed
  moreover have "card (set (mp_slots mp)) > card (set fs)"
    using p c by (intro psubset_card_mono) (auto simp: mp_chain_def)
  ultimately have bound: "block_free_count mp + 1 < 2 ^ 32"
    using c distinct_card [of fs] distinct_card [OF distinct_slots [of mp]] by (auto simp: mp_chain_def mp_slots_def)
  let ?m = "mp_give p mp"
  have m: "mp_slots ?m = mp_slots mp" "block_size ?m = block_size mp" "mp_stride ?m = mp_stride mp"
    by (simp_all add: mp_give_def mp_slots_def mp_stride_def)
  show "block_free_count ?m = block_free_count mp + 1" "block_size ?m = block_size mp"
    using bound by (simp_all add: mp_give_def u32_add_id)
  have c': "mp_chain ?m ((p - 4) # fs)"
    using c p p0 bound by (auto simp: mp_chain_def mp_give_def u32_add_id mp_slots_def mp_stride_def)
  then show "mp_ok ?m" by (rule mp_okI)
  have f: "mp_free_blocks ?m = (p - 4) # fs" "mp_free_blocks mp = fs"
    using mp_chain_free [OF c'] mp_chain_free [OF c] by simp_all
  show "mp_live ?m = (mp_live mp)(p := None)"
  proof
    fix q
    show "mp_live ?m q = ((mp_live mp)(p := None)) q"
      using f m p(1) by (cases "q = p") (auto simp: mp_live_def)
  qed
qed

text \<open>The pool meets the contract of a memory provider, for requests up to its block size.\<close>

definition mp_alloc_now :: "nat \<Rightarrow> rt_mempool \<Rightarrow> (addr \<times> rt_mempool) option" where
  "mp_alloc_now n mp = (if block_free_count mp = 0 \<or> n > block_size mp then None else Some (mp_take mp))"

interpretation mpool: block_allocator mp_ok mp_live mp_alloc_now mp_give
proof unfold_locales
  fix s p n q k s'
  show "p + n \<le> q \<or> q + k \<le> p" if "mp_ok s" "mp_live s p = Some n" "mp_live s q = Some k" "p \<noteq> q"
  proof -
    have l: "4 \<le> p" "4 \<le> q" "p - 4 \<in> set (mp_slots s)" "q - 4 \<in> set (mp_slots s)" "n = block_size s" "k = block_size s"
      using that by (auto simp: mp_live_def split: if_splits)
    then have "p - 4 \<noteq> q - 4" using that(4) by simp
    from slots_apart [OF l(3,4) this] l(1,2,5,6) show ?thesis by (simp add: mp_stride_def) linarith
  qed
  show "mp_ok s' \<and> mp_live s p = None \<and> (\<exists>k\<ge>n. mp_live s' = (mp_live s)(p \<mapsto> k))"
    if "mp_ok s" "mp_alloc_now n s = Some (p, s')"
    using that mp_take_result [of s] by (auto simp: mp_alloc_now_def intro!: exI [of _ "block_size s"] split: if_splits)
  show "mp_ok (mp_give p s) \<and> mp_live (mp_give p s) = (mp_live s)(p := None)" if "mp_ok s" "mp_live s p = Some n"
    using mp_give_result(1,2) [OF that] by blast
qed

section \<open>Initialisation\<close>

lemma mp_link_loop_result:
  assumes "block_ptr + (offset + n) * stride \<le> 2 ^ 32" and "0 < stride"
  shows "mp_link_loop block_ptr stride offset n lk a =
    (if \<exists>k. offset \<le> k \<and> k < offset + n \<and> a = block_ptr + k * stride then u32 (a + stride) else lk a)"
  using assms(1)
proof (induction n arbitrary: offset lk)
  case (Suc n)
  let ?a = "block_ptr + offset * stride"
  have "?a < 2 ^ 32" using Suc.prems assms(2) by (simp add: algebra_simps)
  then have a: "u32 ?a = ?a" by (simp add: u32_id)
  have "block_ptr + (offset + 1 + n) * stride \<le> 2 ^ 32" using Suc.prems by simp
  note ih = Suc.IH [OF this, of "lk(?a := u32 (?a + stride))"]
  have "mp_link_loop block_ptr stride offset (Suc n) lk a =
      mp_link_loop block_ptr stride (offset + 1) n (lk(?a := u32 (?a + stride))) a"
    using a by (simp add: add.assoc add.commute [of stride])
  also have "\<dots> =
      (if \<exists>k. offset + 1 \<le> k \<and> k < offset + 1 + n \<and> a = block_ptr + k * stride then u32 (a + stride)
       else (lk(?a := u32 (?a + stride))) a)"
    by (rule ih)
  also have "\<dots> = (if \<exists>k. offset \<le> k \<and> k < offset + Suc n \<and> a = block_ptr + k * stride then u32 (a + stride) else lk a)"
    by (auto simp: le_Suc_eq)
  finally show ?case .
qed auto

lemma rt_mp_init_ok:
  assumes "0 < start" and "start + sz \<le> 2 ^ 32" and "sz < 2 ^ 32" and "0 < bsz" and "bsz < 2 ^ 31"
    and enough: "RT_ALIGN bsz 8 + 4 \<le> RT_ALIGN_DOWN sz 8"
  shows "mp_ok (rt_mp_init mp start sz bsz lk)" and "mp_live (rt_mp_init mp start sz bsz lk) = Map.empty"
    and "0 < block_free_count (rt_mp_init mp start sz bsz lk)"
proof -
  let ?m = "rt_mp_init mp start sz bsz lk"
  define B where "B = RT_ALIGN bsz 8"
  define st where "st = B + 4"
  define N where "N = RT_ALIGN_DOWN sz 8 div st"
  have B: "B + 4 < 2 ^ 32" using assms(5) by (simp add: B_def RT_ALIGN_8)
  have N: "0 < N" using enough by (simp add: N_def st_def B_def div_greater_zero_iff)
  have "N * st \<le> RT_ALIGN_DOWN sz 8" by (simp add: N_def)
  moreover have "RT_ALIGN_DOWN sz 8 \<le> sz" using assms(3) by (simp add: RT_ALIGN_DOWN_8)
  ultimately have le: "start + N * st \<le> 2 ^ 32" using assms(2) by linarith
  have N32: "N < 2 ^ 32"
  proof -
    have "N * 1 \<le> N * st" by (rule mult_le_mono2) (simp add: st_def)
    then show ?thesis using le assms(1) by linarith
  qed
  have last: "start + (N - 1) * st < 2 ^ 32" using le N by (cases N) (simp_all add: st_def)
  have m: "block_list ?m = start" "start_address ?m = start" "block_total_count ?m = N" "block_free_count ?m = N"
    "block_size ?m = B" "mp_self ?m = mp"
    "mp_link ?m = (mp_link_loop start st 0 N lk)(start + (N - 1) * st := 0)"
    using N N32 last B
    by (simp_all add: rt_mp_init_def Let_def RT_ALIGN_SIZE_def B_def [symmetric] u32_add_id st_def [symmetric] N_def [symmetric]
        u32_sub_id u32_id)
  have sl: "mp_slots ?m = map (\<lambda>k. start + k * st) [0..<N]" by (simp add: mp_slots_def mp_stride_def m st_def)
  have lk: "mp_link ?m (start + k * st) = (if Suc k < N then start + Suc k * st else 0)" if "k < N" for k
  proof (cases "Suc k < N")
    case True
    have "start + Suc k * st \<le> start + (N - 1) * st" using True by (intro add_left_mono mult_le_mono1) simp
    then have "u32 (start + k * st + st) = start + Suc k * st" using last by (simp add: u32_id add.commute)
    moreover have "k \<noteq> N - 1" using True by simp
    ultimately show ?thesis
      using mp_link_loop_result [of start 0 N st lk "start + k * st"] le that True by (auto simp: m(7) st_def)
  next
    case False
    then have "k = N - 1" using that by simp
    then show ?thesis using False by (simp add: m(7))
  qed
  have c: "mp_chain ?m (map (\<lambda>k. start + k * st) [0..<N])"
    unfolding mp_chain_def chain_iff_nth
    using assms(1) N le lk by (auto simp: sl m distinct_map inj_on_def st_def mp_stride_def)
  show "mp_ok ?m" by (rule mp_okI [OF c])
  show "mp_live ?m = Map.empty" using mp_chain_free [OF c] sl by (auto simp: mp_live_def fun_eq_iff)
  show "0 < block_free_count ?m" using N m(4) by simp
qed

text \<open>A pool too small for one block: the loop runs zero times and the word before the pool is cleared.\<close>

lemma rt_mp_init_underflow:
  assumes "RT_ALIGN bsz 8 + 4 < 2 ^ 32" and "RT_ALIGN_DOWN sz 8 < RT_ALIGN bsz 8 + 4" and "RT_ALIGN bsz 8 + 4 \<le> start"
    and "start < 2 ^ 32"
  shows "mp_link (rt_mp_init mp start sz bsz lk) = lk(start - (RT_ALIGN bsz 8 + 4) := 0)"
proof -
  define st where "st = RT_ALIGN bsz 8 + 4"
  have "RT_ALIGN_DOWN sz 8 div st = 0" using assms(2) by (simp add: st_def)
  moreover have "u32 (start + (2 ^ 32 - 1) * st) = start - st"
  proof -
    have "st \<le> start" using assms(3) by (simp add: st_def)
    then have "start + (2 ^ 32 - 1) * st = (start - st) + st * 2 ^ 32"
      by simp
    then have "u32 (start + (2 ^ 32 - 1) * st) = u32 ((start - st) + st * 2 ^ 32)" by (rule arg_cong)
    also have "\<dots> = start - st" unfolding u32_def mod_mult_self1 using assms(4) by simp
    finally show ?thesis .
  qed
  ultimately show ?thesis
    using assms(1) by (simp add: rt_mp_init_def Let_def RT_ALIGN_SIZE_def u32_add_id st_def [symmetric] u32_sub_def)
qed

section \<open>Allocation and release\<close>

lemma exit_enter_kok: "kok s \<Longrightarrow> kok (rt_exit_critical (rt_enter_critical s))"
  by (intro kok_exit_critical) simp

lemma rt_set_errno_kok [simp]: "kok (rt_set_errno e s) = kok s"
  by (simp add: rt_set_errno_def split: option.splits)

lemma rt_mp_alloc_enter_cases:
  assumes "mp_ok mp" and "kok s" and "st s t = RT_THREAD_RUNNING"
  obtains (got) p mp' where "block_free_count mp > 0" "rt_mp_alloc_enter i time t mp s = (Done p, mp', rt_exit_critical (rt_enter_critical s))"
      "mp_take mp = (p, mp')"
    | (refused) s' where "block_free_count mp = 0" "time = 0" "rt_mp_alloc_enter i time t mp s = (Done 0, mp, s')" "kok s'"
    | (waits) s' where "block_free_count mp = 0" "time \<noteq> 0" "rt_mp_alloc_enter i time t mp s = (Blocked, mp, s')" "kok s'" "susp s' t"
      "queues s' (Mp_Q i) = queues s (Mp_Q i) @ [t]"
proof -
  consider "block_free_count mp > 0" | "block_free_count mp = 0" "time = 0" | "block_free_count mp = 0" "time \<noteq> 0" by auto
  then show thesis
  proof cases
    case 1
    then show thesis
      using got [of "fst (mp_take mp)" "snd (mp_take mp)"]
      by (simp add: rt_mp_alloc_enter_def mp_alloc_loop_def spin_defs case_prod_beta)
  next
    case 2
    then show thesis
      using refused [of "rt_set_errno (- RT_ETIMEOUT) (rt_exit_critical (rt_enter_critical s))"] exit_enter_kok [OF assms(2)]
      by (simp add: rt_mp_alloc_enter_def mp_alloc_loop_def spin_defs)
  next
    case 3
    let ?s = "set_th_error t RT_EOK (rt_enter_critical s)"
    have k: "kok ?s" "st ?s t = RT_THREAD_RUNNING" using assms(2,3) by simp_all
    note su = ipc_suspend_suspended [OF k is_wait_q_simps(8) [of i], of RT_IPC_FLAG_FIFO RT_UNINTERRUPTIBLE time]
    note su' = rt_thread_suspend_to_list_suspended [OF k is_wait_q_simps(8) [of i], of RT_IPC_FLAG_FIFO RT_UNINTERRUPTIBLE]
    let ?s2 = "snd (rt_thread_suspend_to_list t (Some (Mp_Q i)) RT_IPC_FLAG_FIFO RT_UNINTERRUPTIBLE ?s)"
    have eq: "snd (ipc_suspend (Mp_Q i) RT_IPC_FLAG_FIFO RT_UNINTERRUPTIBLE time t ?s) =
        (if time > 0 then arm_thread_timer t (word_of_int time) ?s2 else ?s2)"
      using su'(1) by (simp add: ipc_suspend_def case_prod_beta)
    have "suspended ?s (rt_exit_critical (snd (ipc_suspend (Mp_Q i) RT_IPC_FLAG_FIFO RT_UNINTERRUPTIBLE time t ?s))) t (Mp_Q i) RT_IPC_FLAG_FIFO"
      by (rule suspended_exit [OF su(2) is_wait_q_simps(8)])
    then show thesis
      using 3 eq
      by (intro waits [of "rt_exit_critical (snd (ipc_suspend (Mp_Q i) RT_IPC_FLAG_FIFO RT_UNINTERRUPTIBLE time t ?s))"])
        (simp_all add: rt_mp_alloc_enter_def mp_alloc_loop_def spin_defs Let_def suspended_def wait_order_def)
  qed
qed

lemma rt_mp_free_result:
  fixes mp :: rt_mempool
  assumes "kok s" and "nest_ok s" and "p \<noteq> 0" and "queues s (Mp_Q i) = t # ts"
  defines "s' \<equiv> snd (rt_mp_free i p mp s)"
  shows "fst (rt_mp_free i p mp s) = mp_give p mp" "kok s'" "queues s' (Mp_Q i) = ts" "\<not> susp s' t"
    "th_error (threads s' t) = RT_EOK" "tick s' = tick s"
proof -
  have l: "locked (rt_enter_critical s)" "kok (rt_enter_critical s)" "queues (rt_enter_critical s) (Mp_Q i) = t # ts"
    using assms nest_ok_locked by simp_all
  note d = rt_susp_list_dequeue_locked [OF l(1,2) is_wait_q_simps(8) l(3), where e = RT_EOK]
  let ?s2 = "snd (rt_susp_list_dequeue (Mp_Q i) RT_EOK (rt_enter_critical s))"
  have eq: "rt_mp_free i p mp s = (mp_give p mp, leave True ?s2)"
    using assms(3) d(1) by (simp add: rt_mp_free_def spin_defs leave_eqs)
  note f = resched_fields [OF leave_resched [OF d(2)]]
  show "fst (rt_mp_free i p mp s) = mp_give p mp" "kok s'" "\<not> susp s' t" "th_error (threads s' t) = RT_EOK"
    using leave_kok [OF d(2)] f(2,5) d(7,8) by (simp_all add: s'_def eq RT_EOK_def)
  show "queues s' (Mp_Q i) = ts" using f(3) d(5) by (simp add: s'_def eq is_ready_q_def)
  have "tick ?s2 = tick s" using d(1) by (simp add: RT_EOK_def rt_enter_critical_def)
  then show "tick s' = tick s" using f(20) by (simp add: s'_def eq)
qed

text \<open>C28: giving a block back while threads wait for one serves the first of them: it is woken, leaves the wait list,
  and when it runs again its allocation returns the block that was given back; the pool stays well-formed
  and every other block stays as it was.\<close>

theorem rt_mp_free_serves_waiter:
  assumes "mp_ok mp" and "mp_live mp p = Some n" and "kok s" and "nest_ok s" and "queues s (Mp_Q i) = t # ts"
  shows "case rt_mp_free i p mp s of (mp', s') \<Rightarrow>
    mp_ok mp' \<and> kok s' \<and> queues s' (Mp_Q i) = ts \<and> \<not> susp s' t \<and>
    (\<exists>mp'' s''. rt_mp_alloc_resume i time tick0 t mp' s' = (Done p, mp'', s'') \<and> mp_ok mp'' \<and> mp_live mp'' = mp_live mp)"
proof -
  let ?mp = "mp_give p mp" and ?s = "snd (rt_mp_free i p mp s)"
  have p: "4 \<le> p" "n = block_size mp" using assms(2) by (auto simp: mp_live_def split: if_splits)
  then have p0: "p \<noteq> 0" by simp
  note g = mp_give_result [OF assms(1,2)]
  note r = rt_mp_free_result [OF assms(3,4) p0 assms(5), where mp = mp]
  note f = resched_fields [OF rt_schedule_resched [OF kokD(1) [OF r(2)]]]
  have nz: "block_free_count ?mp \<noteq> 0" using g(3) by simp
  note tk = mp_take_result [OF g(1) nz]
  have "fst (mp_take ?mp) = p" using p(1) by (simp add: mp_take_def mp_give_def)
  moreover have "rt_mp_alloc_resume i time tick0 t ?mp ?s =
      (Done (fst (mp_take ?mp)), snd (mp_take ?mp), rt_exit_critical (rt_enter_critical (rt_schedule ?s)))"
    using f(5) r(5) nz by (simp add: rt_mp_alloc_resume_def mp_alloc_loop_def spin_defs case_prod_beta)
  moreover have "(mp_live mp)(p := None, p \<mapsto> block_size mp) = mp_live mp" using assms(2) p(2) by (simp add: fun_upd_idem)
  ultimately show ?thesis using g tk r(1-4) by (auto simp: case_prod_beta)
qed

definition demo_pool :: rt_mempool where
  "demo_pool = snd (mp_take (rt_mp_init 500 1000 40 16 (\<lambda>_. 0)))"

lemma demo_pool_ok: "mp_ok demo_pool" "mp_live demo_pool 1004 = Some 16"
proof -
  let ?m = "rt_mp_init 500 1000 40 16 (\<lambda>_. 0)"
  have i: "mp_ok ?m" "mp_live ?m = Map.empty" "0 < block_free_count ?m"
    by (rule rt_mp_init_ok; simp add: RT_ALIGN_8 RT_ALIGN_DOWN_8)+
  have m: "fst (mp_take ?m) = 1004" "block_size ?m = 16"
    by (simp_all add: mp_take_def rt_mp_init_def Let_def RT_ALIGN_SIZE_def RT_ALIGN_8)
  have "block_free_count ?m \<noteq> 0" using i(3) by simp
  from mp_take_result(1,3) [OF i(1) this] m i(2) show "mp_ok demo_pool" "mp_live demo_pool 1004 = Some 16"
    by (simp_all add: demo_pool_def)
qed

theorem rt_mp_free_serves_waiter_witness:
  "case rt_mp_free 0 1004 demo_pool (demo_blocked (Mp_Q 0) 0 0) of (mp', s') \<Rightarrow>
     queues s' (Mp_Q 0) = [] \<and> (\<exists>mp'' s''. rt_mp_alloc_resume 0 10 0 4 mp' s' = (Done 1004, mp'', s''))"
proof -
  note d = demo_blocked_kok [of "Mp_Q 0" 0 0, simplified]
  show ?thesis
    using rt_mp_free_serves_waiter [OF demo_pool_ok d(1,2,3), of 10 0] by (auto simp: case_prod_beta)
qed

end
