(* ===== verification/Ctime.thy ===== *)
theory Ctime
  imports Rt_Prelude "HOL-Library.Signed_Division"
begin

unbundle bit_operations_syntax

text \<open>
  Calendar time, \<^verbatim>\<open>components/libc/compilers/common/ctime.c\<close>: conversion between seconds since 1970 and broken-down
  time.  \<^verbatim>\<open>time_t\<close> has 64 bits and the other variables are C \<^verbatim>\<open>int\<close>s, modelled by \<^typ>\<open>int\<close> with C's truncating division;
  where a sum of \<^verbatim>\<open>int\<close>s, or the conversion of the number of days to \<^verbatim>\<open>int\<close>, can leave the 32 bits, it is reduced to them
  (\<open>int32\<close>).  Null pointers are not modelled.

  The conversions are compared with a calendar that adds up the lengths of years and months.
\<close>

record tm =
  tm_sec :: int
  tm_min :: int
  tm_hour :: int
  tm_mday :: int
  tm_mon :: int
  tm_year :: int
  tm_wday :: int
  tm_yday :: int
  tm_isdst :: int

section \<open>The code\<close>

definition spm_table :: "int list" where
  "spm_table = [0, 31, 59, 90, 120, 151, 181, 212, 243, 273, 304, 334, 365]"

definition spm :: "int \<Rightarrow> int" where
  "spm i = spm_table ! nat i"

definition isleap :: "int \<Rightarrow> bool" where
  "isleap year \<longleftrightarrow> year smod 4 = 0 \<and> (year smod 100 \<noteq> 0 \<or> year smod 400 = 0)"

text \<open>The loop that finds the year: \<open>work\<close> days are left from the start of year \<open>i\<close> on.\<close>

function gmtime_year_loop :: "int \<Rightarrow> int \<Rightarrow> int \<times> int" where
  "gmtime_year_loop i work =
     (let k = (if isleap i then 366 else 365)
      in if work \<ge> k then gmtime_year_loop (i + 1) (work - k) else (i, work))"
  by pat_completeness auto
termination by (relation "measure (\<lambda>(i, work). nat work)") (auto split: if_splits)

declare gmtime_year_loop.simps [simp del]

fun gmtime_month_loop :: "nat \<Rightarrow> int \<Rightarrow> int" where
  "gmtime_month_loop 0 work = 0"
| "gmtime_month_loop (Suc n) work = (if spm (int (Suc n)) > work then gmtime_month_loop n work else int (Suc n))"

definition rt_tz_is_dst :: int where "rt_tz_is_dst = 0"

definition gmtime_r :: "int \<Rightarrow> tm" where
  "gmtime_r t =
     (let work = t smod (24 * 60 * 60);
          sec = work smod 60;
          work1 = work sdiv 60;
          days = int32 (t sdiv (24 * 60 * 60));
          (i, work2) = gmtime_year_loop 1970 days;
          mday = (if isleap i \<and> work2 > 58 \<and> work2 = 59 then 2 else 1);
          work3 = (if isleap i \<and> work2 > 58 then work2 - 1 else work2);
          mon = gmtime_month_loop 11 work3
      in \<lparr>tm_sec = sec, tm_min = work1 smod 60, tm_hour = work1 sdiv 60, tm_mday = mday + (work3 - spm mon), tm_mon = mon,
          tm_year = i - 1900, tm_wday = int32 (4 + days) smod 7, tm_yday = work2, tm_isdst = rt_tz_is_dst\<rparr>)"

lemma spm_values:
  "spm 0 = 0" "spm 1 = 31" "spm 2 = 59" "spm 3 = 90" "spm 4 = 120" "spm 5 = 151" "spm 6 = 181" "spm 7 = 212"
  "spm 8 = 243" "spm 9 = 273" "spm 10 = 304" "spm 11 = 334" "spm 12 = 365"
  by (simp_all add: spm_def spm_table_def)

lemma month_cases:
  assumes "0 \<le> m" and "m \<le> (11 :: int)"
  obtains "m = 0" | "m = 1" | "m = 2" | "m = 3" | "m = 4" | "m = 5" | "m = 6" | "m = 7" | "m = 8" | "m = 9" | "m = 10" | "m = 11"
proof -
  have "m = 0 \<or> m = 1 \<or> m = 2 \<or> m = 3 \<or> m = 4 \<or> m = 5 \<or> m = 6 \<or> m = 7 \<or> m = 8 \<or> m = 9 \<or> m = 10 \<or> m = 11"
    using assms by presburger
  then show thesis using that by blast
qed

text \<open>The loop that is meant to carry days over into the next month.  It ends because a turn lowers the day, or moves from
  the first month on.  For a negative month the code reads outside of its table, which C leaves undefined; the model
  leaves the loop there.\<close>

function timegm_mday_loop :: "tm \<Rightarrow> tm" where
  "timegm_mday_loop t =
     (if 0 \<le> tm_mon t \<and> tm_mon t \<le> 11 \<and> tm_mday t > spm (1 + tm_mon t) then
        (let t1 = (if tm_mon t = 1 \<and> isleap (int32 (tm_year t + 1900)) then t\<lparr>tm_mday := tm_mday t - 1\<rparr> else t);
             t2 = t1\<lparr>tm_mday := tm_mday t1 - spm (tm_mon t1), tm_mon := tm_mon t1 + 1\<rparr>
         in timegm_mday_loop (if tm_mon t2 > 11 then t2\<lparr>tm_mon := 0, tm_year := int32 (tm_year t2 + 1)\<rparr> else t2))
      else t)"
  by pat_completeness auto

termination
proof (relation "measures [\<lambda>t. nat (tm_mday t), \<lambda>t. nat (12 - tm_mon t)]")
  show "wf (measures [\<lambda>t :: tm. nat (tm_mday t), \<lambda>t. nat (12 - tm_mon t)])" by simp
qed (auto simp: spm_values elim!: month_cases)

declare timegm_mday_loop.simps [simp del]

definition EINVAL :: int where "EINVAL = 22"

text \<open>The fields of the argument are normalised in place.  \<open>Inl (e, r)\<close>: the error number is set to \<open>e\<close> and \<open>r\<close> is returned.\<close>

definition timegm :: "tm \<Rightarrow> (int \<times> int + int) \<times> tm" where
  "timegm t =
     (let years = tm_year t - 70;
          t1 = (if tm_sec t > 60 then t\<lparr>tm_min := int32 (tm_min t + tm_sec t sdiv 60), tm_sec := tm_sec t smod 60\<rparr> else t);
          t2 = (if tm_min t1 \<ge> 60 then t1\<lparr>tm_hour := int32 (tm_hour t1 + tm_min t1 sdiv 60), tm_min := tm_min t1 smod 60\<rparr> else t1);
          t3 = (if tm_hour t2 \<ge> 24 then t2\<lparr>tm_mday := int32 (tm_mday t2 + tm_hour t2 sdiv 24), tm_hour := tm_hour t2 smod 24\<rparr> else t2);
          t4 = (if tm_mon t3 \<ge> 12 then t3\<lparr>tm_year := int32 (tm_year t3 + tm_mon t3 sdiv 12), tm_mon := tm_mon t3 smod 12\<rparr> else t3);
          t5 = timegm_mday_loop t4
      in if tm_year t5 < 70 then (Inl (EINVAL, -1), t5)
         else
           (let day = years * 365 + (years + 1) sdiv 4;
                day1 = (if years \<ge> 131 then
                          (let years1 = (years - 131) sdiv 100;
                               years2 = years1 AND 3;
                               years3 = (if years2 = 3 then years2 - 1 else years2)
                           in day - (drop_bit 2 years1 * 3 + 1) - years3)
                        else day);
                yday = int32 (spm (tm_mon t5) + tm_mday t5 - 1 + (if isleap (int32 (tm_year t5 + 1900)) \<and> tm_mon t5 > 1 then 1 else 0));
                day2 = day1 + yday;
                t6 = t5\<lparr>tm_yday := yday, tm_wday := (day2 + 4) smod 7\<rparr>
            in (Inr (((day2 * 24 + tm_hour t6) * 60 + tm_min t6) * 60 + tm_sec t6), t6)))"

definition localtime_r :: "int \<Rightarrow> int \<Rightarrow> tm" where
  "localtime_r tz t = gmtime_r (t + tz)"

text \<open>The time zone is subtracted from whatever \<^verbatim>\<open>timegm\<close> returns, an error too.\<close>

definition mktime :: "int \<Rightarrow> tm \<Rightarrow> (int \<times> int + int) \<times> tm" where
  "mktime tz t =
     (case timegm t of (Inr x, t') \<Rightarrow> (Inr (x - tz), t') | (Inl (e, x), t') \<Rightarrow> (Inl (e, x - tz), t'))"

section \<open>The calendar\<close>

definition leap :: "nat \<Rightarrow> bool" where
  "leap y \<longleftrightarrow> 4 dvd y \<and> (\<not> 100 dvd y \<or> 400 dvd y)"

definition year_length :: "nat \<Rightarrow> nat" where
  "year_length y = (if leap y then 366 else 365)"

definition month_length :: "nat \<Rightarrow> nat \<Rightarrow> nat" where
  "month_length y m = (if m = 1 then (if leap y then 29 else 28) else if m \<in> {3, 5, 8, 10} then 30 else 31)"

text \<open>Days from the first of January 1970 to the first of January \<open>n\<close> years later, and from there to the start of a month.\<close>

fun days_of_years :: "nat \<Rightarrow> nat" where
  "days_of_years 0 = 0"
| "days_of_years (Suc n) = days_of_years n + year_length (1970 + n)"

fun days_of_months :: "nat \<Rightarrow> nat \<Rightarrow> nat" where
  "days_of_months y 0 = 0"
| "days_of_months y (Suc m) = days_of_months y m + month_length y m"

text \<open>A date and time of day as the calendar knows them, and its number of seconds since 1970.\<close>

definition valid_date :: "tm \<Rightarrow> bool" where
  "valid_date t \<longleftrightarrow> 70 \<le> tm_year t \<and> 0 \<le> tm_mon t \<and> tm_mon t \<le> 11 \<and>
     1 \<le> tm_mday t \<and> tm_mday t \<le> int (month_length (nat (tm_year t + 1900)) (nat (tm_mon t))) \<and>
     0 \<le> tm_hour t \<and> tm_hour t < 24 \<and> 0 \<le> tm_min t \<and> tm_min t < 60 \<and> 0 \<le> tm_sec t \<and> tm_sec t < 60"

definition day_number :: "tm \<Rightarrow> int" where
  "day_number t = int (days_of_years (nat (tm_year t - 70))) +
     int (days_of_months (nat (tm_year t + 1900)) (nat (tm_mon t))) + tm_mday t - 1"

definition seconds :: "tm \<Rightarrow> int" where
  "seconds t = ((day_number t * 24 + tm_hour t) * 60 + tm_min t) * 60 + tm_sec t"

section \<open>The code follows the calendar\<close>

lemma isleap_leap: "isleap (int y) = leap y"
proof -
  have "(int y smod k = 0) = (nat k dvd y)" if "0 < k" for k
    using that by (simp add: smod_mod_positive) (metis dvd_imp_mod_0 int_dvd_int_iff mod_0_imp_dvd int_nat_eq less_imp_le)
  then show ?thesis by (simp add: isleap_def leap_def)
qed

lemma gmtime_year_loop_result:
  assumes "0 \<le> work"
  obtains m w where "gmtime_year_loop (int (1970 + n)) work = (int (1970 + m), w)" and "0 \<le> w" and "w < int (year_length (1970 + m))"
    and "work + int (days_of_years n) = w + int (days_of_years m)"
  using assms
proof (induction "nat work" arbitrary: work n thesis rule: less_induct)
  case less
  let ?k = "int (year_length (1970 + n))"
  have step: "gmtime_year_loop (int (1970 + n)) work =
      (if work \<ge> ?k then gmtime_year_loop (int (1970 + Suc n)) (work - ?k) else (int (1970 + n), work))"
  proof -
    have "(if isleap (int (1970 + n)) then 366 else 365) = ?k" unfolding isleap_leap by (simp add: year_length_def)
    moreover have "int (1970 + n) + 1 = int (1970 + Suc n)" by simp
    ultimately show ?thesis by (subst gmtime_year_loop.simps) (simp only: Let_def)
  qed
  show ?case
  proof (cases "work \<ge> ?k")
    case True
    then have "nat (work - ?k) < nat work" "0 \<le> work - ?k" by (auto simp: year_length_def split: if_splits)
    then obtain m w where "gmtime_year_loop (int (1970 + Suc n)) (work - ?k) = (int (1970 + m), w)" "0 \<le> w"
      "w < int (year_length (1970 + m))" "work - ?k + int (days_of_years (Suc n)) = w + int (days_of_years m)"
      using less.hyps [of "work - ?k" "Suc n"] by blast
    then show thesis using less.prems(1) [of m w] step True by simp
  next
    case False
    then show thesis using less.prems step by simp
  qed
qed

lemma gmtime_month_loop_result:
  "0 \<le> w \<Longrightarrow> w < spm (int n + 1) \<Longrightarrow>
   0 \<le> gmtime_month_loop n w \<and> gmtime_month_loop n w \<le> int n \<and> spm (gmtime_month_loop n w) \<le> w \<and> w < spm (gmtime_month_loop n w + 1)"
proof (induction n)
  case (Suc n)
  then show ?case by (cases "spm (int (Suc n)) > w") (auto simp: add.commute)
qed (simp add: spm_values)

lemma days_of_months_spm:
  assumes "0 \<le> m" and "m \<le> 11"
  shows "int (days_of_months y (nat m)) = spm m + (if leap y \<and> m > 1 then 1 else 0)"
    and "int (month_length y (nat m)) = spm (m + 1) - spm m + (if leap y \<and> m = 1 then 1 else 0)"
  by (rule month_cases [OF assms]; simp add: spm_values month_length_def eval_nat_numeral)+

lemma gmtime_month_correct:
  assumes "0 \<le> w" and "w < int (year_length y)"
  defines "w3 \<equiv> if leap y \<and> w > 58 then w - 1 else w"
    and "d0 \<equiv> if leap y \<and> w > 58 \<and> w = 59 then 2 else 1 :: int"
  defines "m \<equiv> gmtime_month_loop 11 w3"
  shows "0 \<le> m" "m \<le> 11" "1 \<le> d0 + (w3 - spm m)" "d0 + (w3 - spm m) \<le> int (month_length y (nat m))"
    "int (days_of_months y (nat m)) + (d0 + (w3 - spm m)) - 1 = w"
proof -
  have "0 \<le> w3" "w3 < spm (int 11 + 1)"
    using assms(1,2) by (auto simp: w3_def year_length_def spm_values split: if_splits)
  from gmtime_month_loop_result [OF this] have r: "0 \<le> m" "m \<le> 11" "spm m \<le> w3" "w3 < spm (m + 1)" by (simp_all add: m_def)
  then show "0 \<le> m" "m \<le> 11" by simp_all
  note d = days_of_months_spm [OF r(1,2), of y]
  show "1 \<le> d0 + (w3 - spm m)" using r(3) by (simp add: d0_def)
  have "d0 + (w3 - spm m) \<le> spm (m + 1) - spm m + (if leap y \<and> m = 1 then 1 else 0) \<and>
      spm m + (if leap y \<and> m > 1 then 1 else 0) + (d0 + (w3 - spm m)) - 1 = w"
    by (rule month_cases [OF r(1,2)]; insert r(3,4); simp add: spm_values w3_def d0_def split: if_splits)
  then show "d0 + (w3 - spm m) \<le> int (month_length y (nat m))" "int (days_of_months y (nat m)) + (d0 + (w3 - spm m)) - 1 = w"
    unfolding d by blast+
qed

text \<open>The closed formula for the days of whole years.\<close>

lemma div_next: "0 < k \<Longrightarrow> Suc y div k = y div k + (if k dvd Suc y then 1 else 0)"
  by (simp add: div_Suc dvd_eq_mod_eq_0)

lemma days_of_years_closed:
  "int (days_of_years n) = 365 * int n + int ((1969 + n) div 4) - 492 - (int ((1969 + n) div 100) - 19) + (int ((1969 + n) div 400) - 4)"
proof (induction n)
  case (Suc n)
  have "4 dvd (100 :: nat)" "100 dvd (400 :: nat)" by simp_all
  then have "4 dvd Suc (1969 + n) \<or> \<not> 100 dvd Suc (1969 + n)" "100 dvd Suc (1969 + n) \<or> \<not> 400 dvd Suc (1969 + n)"
    using dvd_trans by blast+
  then have "int (year_length (1970 + n)) = 365 + (if 4 dvd Suc (1969 + n) then 1 else 0) - (if 100 dvd Suc (1969 + n) then 1 else 0)
      + (if 400 dvd Suc (1969 + n) then 1 else 0)"
    by (auto simp: year_length_def leap_def)
  moreover have "(1969 + Suc n) div k = (1969 + n) div k + (if k dvd Suc (1969 + n) then 1 else 0)" if "0 < k" for k
    using div_next [OF that, of "1969 + n"] by simp
  ultimately show ?case using Suc.IH by simp
qed simp

lemma sdiv_nonneg: "0 \<le> a \<Longrightarrow> 0 \<le> b \<Longrightarrow> a sdiv b = a div (b :: int)"
  by (simp add: signed_divide_int_def sgn_if)

lemma int_sdiv: "int a sdiv int b = int (a div b)"
  by (simp add: sdiv_nonneg zdiv_int)

lemma timegm_days:
  fixes n :: nat
  defines "y \<equiv> int n"
  shows "(let day = y * 365 + (y + 1) sdiv 4
     in if y \<ge> 131 then
          (let y1 = (y - 131) sdiv 100; y2 = y1 AND 3; y3 = (if y2 = 3 then y2 - 1 else y2)
           in day - (drop_bit 2 y1 * 3 + 1) - y3)
        else day) = int (days_of_years n)"
proof -
  have d4: "(y + 1) sdiv 4 = int ((1969 + n) div 4) - 492"
  proof -
    have "(y + 1) sdiv 4 = int ((1 + n) div 4)" by (simp add: y_def sdiv_nonneg zdiv_int)
    moreover have "(1969 + n) div 4 = 492 + (1 + n) div 4" using div_mult_self1 [of 4 "1 + n" 492] by (simp add: algebra_simps)
    ultimately show ?thesis by simp
  qed
  show ?thesis
  proof (cases "n \<ge> 131")
    case True
    define c where "c = (n - 131) div 100"
    have "y - 131 = int (n - 131)" using True by (simp add: y_def)
    then have c: "(y - 131) sdiv 100 = int c" using int_sdiv [of "n - 131" 100] by (simp only: c_def of_nat_numeral)
    have "1969 + n = (n - 131) + 21 * 100" using True by simp
    then have h: "(1969 + n) div 100 = c + 21" unfolding c_def by (simp only: div_mult_self1)
    have "(1969 + n) div 400 = (1969 + n) div 100 div 4" by (simp add: div_mult2_eq [symmetric])
    then have q: "(1969 + n) div 400 = (c + 21) div 4" using h by simp
    have "(c + 21) div 4 = 5 + (c + 1) div 4" by simp
    moreover have "int ((c + 1) div 4) = int (c div 4) + (if c mod 4 = 3 then 1 else 0)" by presburger
    moreover have "int c = 4 * int (c div 4) + int (c mod 4)" by (metis of_nat_add of_nat_mult of_nat_numeral mult_div_mod_eq)
    moreover have "int c AND 3 = int (c mod 4)" "drop_bit 2 (int c) = int (c div 4)"
      using and_nat_numerals take_bit_eq_mask [of 2 "int c"]
      by (simp_all add: mask_eq_exp_minus_1 take_bit_eq_mod drop_bit_eq_div zmod_int zdiv_int)
    ultimately show ?thesis using True d4 h q c days_of_years_closed [of n] by (auto simp: Let_def y_def)
  next
    case False
    then have "(1969 + n) div 100 = 19 \<and> (1969 + n) div 400 = 4 \<or> (1969 + n) div 100 = 20 \<and> (1969 + n) div 400 = 5"
      by (cases "n \<le> 30") (auto intro!: div_nat_eqI)
    then show ?thesis using False d4 days_of_years_closed [of n] by (auto simp: Let_def y_def)
  qed
qed

lemma days_of_years_ge: "365 * n \<le> days_of_years n"
  by (induction n) (auto simp: year_length_def)

lemma gmtime_r_correct:
  assumes "0 \<le> t" and "t < 2 ^ 31 * 86400"
  shows "valid_date (gmtime_r t)" and "seconds (gmtime_r t) = t" and "tm_isdst (gmtime_r t) = 0"
    and "t < (2 ^ 31 - 4) * 86400 \<Longrightarrow> tm_wday (gmtime_r t) = (day_number (gmtime_r t) + 4) smod 7"
    and "tm_year (gmtime_r t) + 1900 < 2 ^ 31"
    and "tm_yday (gmtime_r t) = int (days_of_months (nat (tm_year (gmtime_r t) + 1900)) (nat (tm_mon (gmtime_r t)))) + tm_mday (gmtime_r t) - 1"
proof -
  define D where "D = t div 86400"
  have "86400 * D \<le> t" by (simp add: D_def)
  then have D: "0 \<le> D" "D < 2 ^ 31" using assms by (simp_all add: D_def pos_imp_zdiv_nonneg_iff)
  have div: "t sdiv 86400 = D" "t smod 86400 = t mod 86400"
    using assms(1) by (simp_all add: D_def sdiv_nonneg smod_mod_positive)
  have dy: "int32 D = D" using D by (intro int32_id) simp_all
  obtain m w where y: "gmtime_year_loop 1970 D = (int (1970 + m), w)" "0 \<le> w" "w < int (year_length (1970 + m))"
    "D = w + int (days_of_years m)"
    using gmtime_year_loop_result [OF D(1), of 0] by auto
  let ?y = "1970 + m"
  define w3 where "w3 = (if leap ?y \<and> w > 58 then w - 1 else w)"
  define d0 where "d0 = (if leap ?y \<and> w > 58 \<and> w = 59 then 2 else 1 :: int)"
  define mo where "mo = gmtime_month_loop 11 w3"
  note c = gmtime_month_correct [OF y(2,3), folded w3_def d0_def, folded mo_def]
  define r where "r = t mod 86400"
  have r: "0 \<le> r" "r < 86400" "t = D * 86400 + r" by (simp_all add: r_def D_def)
  have q: "r sdiv 60 = r div 60" "r smod 60 = r mod 60" "(r div 60) smod 60 = r div 60 mod 60" "(r div 60) sdiv 60 = r div 60 div 60"
    using r(1) by (simp_all add: sdiv_nonneg smod_mod_positive pos_imp_zdiv_nonneg_iff)
  have n: "24 * 60 * 60 = (86400 :: int)" by simp
  have g: "gmtime_r t = \<lparr>tm_sec = r mod 60, tm_min = r div 60 mod 60, tm_hour = r div 60 div 60, tm_mday = d0 + (w3 - spm mo),
      tm_mon = mo, tm_year = int ?y - 1900, tm_wday = int32 (4 + D) smod 7, tm_yday = w, tm_isdst = 0\<rparr>"
    unfolding gmtime_r_def n div dy y(1) Let_def prod.case isleap_leap r_def [symmetric] q w3_def [symmetric] d0_def [symmetric]
      mo_def [symmetric] rt_tz_is_dst_def ..
  have "r = r div 60 * 60 + r mod 60" "r div 60 = r div 60 div 60 * 60 + r div 60 mod 60" "0 \<le> r mod 60" "0 \<le> r div 60 mod 60"
    by simp_all
  then have h: "r div 60 div 60 < 24" "0 \<le> r div 60 div 60" "r = (r div 60 div 60 * 60 + r div 60 mod 60) * 60 + r mod 60"
  proof -
    show "0 \<le> r div 60 div 60" using r(1) by (simp add: pos_imp_zdiv_nonneg_iff)
    show "r = (r div 60 div 60 * 60 + r div 60 mod 60) * 60 + r mod 60" by (simp only: div_mult_mod_eq)
  qed (use r(2) in linarith)
  have ny: "nat (1970 + int m) = 1970 + m" by simp
  have dn: "day_number (gmtime_r t) = D" using c(5) y(4) by (simp add: g day_number_def ny)
  show "valid_date (gmtime_r t)" using c h(1,2) by (simp add: g valid_date_def ny)
  have f: "tm_hour (gmtime_r t) = r div 60 div 60" "tm_min (gmtime_r t) = r div 60 mod 60" "tm_sec (gmtime_r t) = r mod 60"
    by (simp_all add: g)
  have "((D * 24 + H) * 60 + M) * 60 + S = D * 86400 + ((H * 60 + M) * 60 + S)" for H M S by simp
  then show "seconds (gmtime_r t) = t" unfolding seconds_def dn f using r(3) h(3) by simp
  show "tm_isdst (gmtime_r t) = 0" by (simp add: g)
  show "tm_wday (gmtime_r t) = (day_number (gmtime_r t) + 4) smod 7" if "t < (2 ^ 31 - 4) * 86400"
  proof -
    have "D < 2 ^ 31 - 4" using that r(1,3) by simp
    then show ?thesis unfolding dn using D(1) by (simp add: g add.commute int32_id)
  qed
  show "tm_year (gmtime_r t) + 1900 < 2 ^ 31"
    using y(2,4) D(2) days_of_years_ge [of m] by (simp add: g)
  show "tm_yday (gmtime_r t) = int (days_of_months (nat (tm_year (gmtime_r t) + 1900)) (nat (tm_mon (gmtime_r t)))) + tm_mday (gmtime_r t) - 1"
    using c(5) by (simp add: g ny)
qed

lemma timegm_mday_loop_valid: "valid_date t \<Longrightarrow> timegm_mday_loop t = t"
proof -
  assume v: "valid_date t"
  then have m: "0 \<le> tm_mon t" "tm_mon t \<le> 11" by (simp_all add: valid_date_def)
  have "tm_mday t \<le> spm (tm_mon t + 1) - spm (tm_mon t) + (if tm_mon t = 1 then 1 else 0)"
    using v days_of_months_spm(2) [OF m, of "nat (tm_year t + 1900)"] by (auto simp: valid_date_def split: if_splits)
  moreover have "(if tm_mon t = 1 then 1 else 0) \<le> spm (tm_mon t)" by (rule month_cases [OF m]; simp add: spm_values)
  ultimately have "\<not> tm_mday t > spm (1 + tm_mon t)" by (simp add: add.commute)
  then show ?thesis by (subst timegm_mday_loop.simps) simp
qed

lemma timegm_correct:
  assumes "valid_date t" and "tm_year t + 1900 < 2 ^ 31"
  shows "timegm t = (Inr (seconds t), t\<lparr>tm_yday := int (days_of_months (nat (tm_year t + 1900)) (nat (tm_mon t))) + tm_mday t - 1,
    tm_wday := (day_number t + 4) smod 7\<rparr>)"
proof -
  define n where "n = nat (tm_year t - 70)"
  have v: "70 \<le> tm_year t" "0 \<le> tm_mon t" "tm_mon t \<le> 11" "tm_hour t < 24" "tm_min t < 60" "tm_sec t < 60"
    using assms by (simp_all add: valid_date_def)
  have y: "tm_year t - 70 = int n" "tm_year t + 1900 = int (nat (tm_year t + 1900))" using v(1) by (simp_all add: n_def)
  note dm = days_of_months_spm(1) [OF v(2,3), of "nat (tm_year t + 1900)"]
  have "int32 (tm_year t + 1900) = tm_year t + 1900" using v(1) assms(2) by (intro int32_id) simp_all
  then have "isleap (int32 (tm_year t + 1900)) = leap (nat (tm_year t + 1900))" using isleap_leap y(2) by metis
  then have yd: "spm (tm_mon t) + tm_mday t - 1 + (if isleap (int32 (tm_year t + 1900)) \<and> tm_mon t > 1 then 1 else 0) =
      int (days_of_months (nat (tm_year t + 1900)) (nat (tm_mon t))) + tm_mday t - 1" using dm by simp
  have rng: "int32 (int (days_of_months (nat (tm_year t + 1900)) (nat (tm_mon t))) + tm_mday t - 1) =
      int (days_of_months (nat (tm_year t + 1900)) (nat (tm_mon t))) + tm_mday t - 1"
  proof (rule int32_id)
    have "1 \<le> tm_mday t" "tm_mday t \<le> 31" using assms(1) by (auto simp: valid_date_def month_length_def split: if_splits)
    moreover have "0 \<le> spm (tm_mon t) \<and> spm (tm_mon t) \<le> 334" by (rule month_cases [OF v(2,3)]; simp add: spm_values)
    ultimately show "int (days_of_months (nat (tm_year t + 1900)) (nat (tm_mon t))) + tm_mday t - 1 < 2 ^ 31"
      unfolding dm by simp
  qed (use assms(1) in \<open>simp add: valid_date_def\<close>)
  note td = timegm_days [of n]
  have dn: "day_number t = int (days_of_years n) + (int (days_of_months (nat (tm_year t + 1900)) (nat (tm_mon t))) + tm_mday t - 1)"
    by (simp add: day_number_def n_def)
  have c: "\<not> tm_sec t > 60" "\<not> tm_min t \<ge> 60" "\<not> tm_hour t \<ge> 24" "\<not> tm_mon t \<ge> 12" "\<not> tm_year t < 70" using v by simp_all
  show ?thesis
    using td unfolding timegm_def Let_def
    by (simp only: c if_False timegm_mday_loop_valid [OF assms(1)] yd rng y(1) dn seconds_def) simp
qed

section \<open>Properties\<close>

text \<open>C34: converting a time to a date and back gives the same time, for every time from 1970 until the number of days leaves
  a 32-bit integer, in the local time zone as in UTC; the date in between is a date of the calendar, leap years and
  centuries included, and the right one, and the way back leaves it as it was (day of the week and of the year
  included; on the last four of these days the code's \<^verbatim>\<open>4 + work\<close> overflows and the day of the week is not
  the right one).\<close>

theorem mktime_localtime_roundtrip:
  assumes "0 \<le> t + tz" and "t + tz < 2 ^ 31 * 86400"
  shows "fst (mktime tz (localtime_r tz t)) = Inr t \<and> valid_date (localtime_r tz t) \<and>
    seconds (localtime_r tz t) = t + tz \<and>
    (t + tz < (2 ^ 31 - 4) * 86400 \<longrightarrow> mktime tz (localtime_r tz t) = (Inr t, localtime_r tz t))"
proof -
  note g = gmtime_r_correct [OF assms]
  note c = timegm_correct [OF g(1,5)]
  have "timegm (gmtime_r (t + tz)) = (Inr (t + tz), gmtime_r (t + tz))" if "t + tz < (2 ^ 31 - 4) * 86400"
    using c g(2,6) g(4) [OF that] by simp
  then show ?thesis using c g(1,2) by (simp add: mktime_def localtime_r_def)
qed

theorem mktime_localtime_roundtrip_witness:
  "mktime 28800 (localtime_r 28800 951782400) = (Inr 951782400, localtime_r 28800 951782400)"
  using mktime_localtime_roundtrip [of 951782400 28800] by simp

text \<open>C35: for every valid date whose year fits a C \<^verbatim>\<open>int\<close> (from 2147483648 on \<^verbatim>\<open>tm_year + 1900\<close> overflows) the closed formula of \<^verbatim>\<open>timegm\<close>, with its corrections for centuries, is the number of seconds that
  the calendar gives, and the day of the week and of the year are the calendar's.\<close>

theorem timegm_follows_calendar:
  assumes "valid_date t" and "tm_year t + 1900 < 2 ^ 31"
  shows "timegm t = (Inr (seconds t), t\<lparr>tm_yday := int (days_of_months (nat (tm_year t + 1900)) (nat (tm_mon t))) + tm_mday t - 1,
    tm_wday := (day_number t + 4) smod 7\<rparr>)"
  using assms by (rule timegm_correct)

definition date :: "int \<Rightarrow> int \<Rightarrow> int \<Rightarrow> tm" where
  "date y m d = \<lparr>tm_sec = 0, tm_min = 0, tm_hour = 0, tm_mday = d, tm_mon = m, tm_year = y, tm_wday = 0, tm_yday = 0, tm_isdst = 0\<rparr>"

theorem timegm_follows_calendar_witness:
  "fst (timegm (date 70 2 1)) = Inr (59 * 86400)"
proof -
  have "\<not> leap 1970" by (simp add: leap_def)
  then have v: "valid_date (date 70 2 1)" and s: "seconds (date 70 2 1) = 59 * 86400"
    by (simp_all add: valid_date_def date_def month_length_def seconds_def day_number_def numeral_2_eq_2)
  show ?thesis using timegm_follows_calendar [OF v] s by (simp add: date_def)
qed

text \<open>\<^verbatim>\<open>timegm\<close> does not carry a day or a month that is out of range as its loop intends: the 32nd of January counts as
  the 32nd of February (the table holds days of the year, not of the month), and month 12 of a year as its first month (the
  number of years is read before the carry).\<close>

theorem timegm_carry_wrong:
  "fst (timegm (date 70 0 32)) = Inr (62 * 86400) \<and> seconds (date 70 1 1) = 31 * 86400 \<and>
   fst (timegm (date 70 12 1)) = Inr 0 \<and> seconds (date 71 0 1) = 365 * 86400"
proof -
  have l: "\<not> isleap 1970" "\<not> isleap 1971" "\<not> leap 1970" by (simp_all add: isleap_def leap_def)
  have "timegm_mday_loop (date 70 0 32) = date 70 1 32" "timegm_mday_loop (date 71 0 1) = date 71 0 1"
    using l by (simp_all add: date_def timegm_mday_loop.simps spm_values)
  then show ?thesis
    using l by (simp add: timegm_def Let_def date_def spm_values seconds_def day_number_def year_length_def month_length_def sdiv_nonneg
        int32_id)
qed

text \<open>\<^verbatim>\<open>mktime\<close> does not return \<open>-1\<close> for a date before 1970: it subtracts the time zone from the error value.\<close>

theorem mktime_error_shifted:
  assumes "tm_year t < 70" and "0 \<le> tm_mon t" and "tm_mon t < 12" and "tm_mday t \<le> 31"
    and "tm_hour t < 24" and "tm_min t < 60" and "tm_sec t \<le> 60"
  shows "fst (mktime tz t) = Inl (EINVAL, - 1 - tz)"
proof -
  have "31 \<le> spm (1 + tm_mon t)"
    by (rule month_cases [OF assms(2)]; use assms(3) in \<open>simp add: spm_values\<close>)
  then have "timegm_mday_loop t = t" using assms(4) by (subst timegm_mday_loop.simps) simp
  then show ?thesis using assms by (simp add: mktime_def timegm_def Let_def)
qed

end
