(* ===== verification/Periph_Gpio.thy ===== *)
theory Periph_Gpio
  imports Rt_Prelude
begin

unbundle bit_operations_syntax

text \<open>
  The pins of the microcontroller: the registers of the four ports, of the external interrupt controller and of the
  interrupt controller of the core, and the routines of the firmware library on them (\<^verbatim>\<open>n32l43x_gpio.c\<close>,
  \<^verbatim>\<open>n32l43x_exti.c\<close>, parts of \<^verbatim>\<open>n32l43x_rcc.c\<close> and \<^verbatim>\<open>core_cm4.h\<close>).  A register is a 32-bit word.  What the hardware does
  on a write to the registers that are not plain storage is a parameter (\<open>periph_hw\<close>); \<open>hw_documented\<close> states what the
  documentation promises: a written 1 clears a pending bit, sets or clears an interrupt enable or an output bit.
\<close>

section \<open>Registers\<close>

datatype gpio_port = GPIOA | GPIOB | GPIOC | GPIOD

record gpio_regs =
  PMODE :: u32w
  POTYPE :: u32w
  SR :: u32w
  PUPD :: u32w
  PID :: u32w
  POD :: u32w
  AFL :: u32w
  AFH :: u32w
  DS :: u32w

record exti_regs =
  IMASK :: u32w
  EMASK :: u32w
  RT_CFG :: u32w
  FT_CFG :: u32w
  SWIE :: u32w
  PEND :: u32w

record soc =
  gpio :: "gpio_port \<Rightarrow> gpio_regs"
  exti :: exti_regs
  EXTI_CFG :: "u32w list"
  APB2PCLKEN :: u32w
  nvic_enabled :: "u32w list"
  nvic_ip :: "nat \<Rightarrow> u8"

text \<open>Effects of writes: the new contents from the old contents and the word written.\<close>

record periph_hw =
  wr_PEND :: "u32w \<Rightarrow> u32w \<Rightarrow> u32w"
  wr_ISER :: "u32w \<Rightarrow> u32w \<Rightarrow> u32w"
  wr_ICER :: "u32w \<Rightarrow> u32w \<Rightarrow> u32w"
  wr_PBSC :: "u32w \<Rightarrow> u32w \<Rightarrow> u32w"
  wr_PBC :: "u32w \<Rightarrow> u32w \<Rightarrow> u32w"
  rd_PBSC :: u32w
  rd_PBC :: u32w

text \<open>The upper half of PBSC clears bits as PBC does; the library writes pin masks, which lie in the lower half.\<close>

definition hw_documented :: "periph_hw \<Rightarrow> bool" where
  "hw_documented hw \<longleftrightarrow>
     (\<forall>r v. wr_PEND hw r v = r AND NOT v \<and> wr_ISER hw r v = r OR v \<and> wr_ICER hw r v = r AND NOT v \<and>
            wr_PBSC hw r v = (r AND NOT (drop_bit 16 v)) OR (v AND mask 16) \<and> wr_PBC hw r v = r AND NOT v) \<and>
     rd_PBSC hw = 0 \<and> rd_PBC hw = 0"

definition doc_hw :: periph_hw where
  "doc_hw = \<lparr>wr_PEND = \<lambda>r v. r AND NOT v, wr_ISER = \<lambda>r v. r OR v, wr_ICER = \<lambda>r v. r AND NOT v,
     wr_PBSC = \<lambda>r v. (r AND NOT (drop_bit 16 v)) OR (v AND mask 16), wr_PBC = \<lambda>r v. r AND NOT v,
     rd_PBSC = 0, rd_PBC = 0\<rparr>"

definition upd_gpio :: "gpio_port \<Rightarrow> (gpio_regs \<Rightarrow> gpio_regs) \<Rightarrow> soc \<Rightarrow> soc" where
  "upd_gpio p f s = s\<lparr>gpio := (gpio s)(p := f (gpio s p))\<rparr>"

definition upd_exti :: "(exti_regs \<Rightarrow> exti_regs) \<Rightarrow> soc \<Rightarrow> soc" where
  "upd_exti f s = s\<lparr>exti := f (exti s)\<rparr>"

section \<open>Clock gates and the interrupt controller of the core\<close>

definition RCC_APB2_PERIPH_AFIO :: u32w where "RCC_APB2_PERIPH_AFIO = 0x1"
definition RCC_APB2_PERIPH_GPIOA :: u32w where "RCC_APB2_PERIPH_GPIOA = 0x4"
definition RCC_APB2_PERIPH_GPIOB :: u32w where "RCC_APB2_PERIPH_GPIOB = 0x8"
definition RCC_APB2_PERIPH_GPIOC :: u32w where "RCC_APB2_PERIPH_GPIOC = 0x10"
definition RCC_APB2_PERIPH_GPIOD :: u32w where "RCC_APB2_PERIPH_GPIOD = 0x20"

definition RCC_EnableAPB2PeriphClk :: "u32w \<Rightarrow> bool \<Rightarrow> soc \<Rightarrow> soc" where
  "RCC_EnableAPB2PeriphClk periph Cmd s =
     s\<lparr>APB2PCLKEN := (if Cmd then APB2PCLKEN s OR periph else APB2PCLKEN s AND NOT periph)\<rparr>"

definition NVIC_EnableIRQ :: "periph_hw \<Rightarrow> int \<Rightarrow> soc \<Rightarrow> soc" where
  "NVIC_EnableIRQ hw IRQn s =
     (if IRQn \<ge> 0 then
        (let i = nat IRQn div 32 in
         s\<lparr>nvic_enabled := (nvic_enabled s)[i := wr_ISER hw (nvic_enabled s ! i) (push_bit (nat IRQn mod 32) 1)]\<rparr>)
      else s)"

definition NVIC_DisableIRQ :: "periph_hw \<Rightarrow> int \<Rightarrow> soc \<Rightarrow> soc" where
  "NVIC_DisableIRQ hw IRQn s =
     (if IRQn \<ge> 0 then
        (let i = nat IRQn div 32 in
         s\<lparr>nvic_enabled := (nvic_enabled s)[i := wr_ICER hw (nvic_enabled s ! i) (push_bit (nat IRQn mod 32) 1)]\<rparr>)
      else s)"

text \<open>Interrupts of the device have numbers from 0; the branch for the exceptions of the core is not used by the drivers
  modelled here and leaves the state as it is.\<close>

definition NVIC_SetPriority :: "int \<Rightarrow> u32w \<Rightarrow> soc \<Rightarrow> soc" where
  "NVIC_SetPriority IRQn priority s =
     (if IRQn \<ge> 0 then s\<lparr>nvic_ip := (nvic_ip s)(nat IRQn := ucast (push_bit 4 priority AND 0xFF))\<rparr> else s)"

definition irq_enabled :: "soc \<Rightarrow> nat \<Rightarrow> bool" where
  "irq_enabled s n \<longleftrightarrow> bit (nvic_enabled s ! (n div 32)) (n mod 32)"

section \<open>The external interrupt controller\<close>

datatype EXTI_ModeType = EXTI_Mode_Interrupt | EXTI_Mode_Event
datatype EXTI_TriggerType = EXTI_Trigger_Rising | EXTI_Trigger_Falling | EXTI_Trigger_Rising_Falling

record EXTI_InitType =
  EXTI_Line :: u32w
  EXTI_Mode :: EXTI_ModeType
  EXTI_Trigger :: EXTI_TriggerType
  EXTI_LineCmd :: bool

definition EXTI_DeInit :: "periph_hw \<Rightarrow> soc \<Rightarrow> soc" where
  "EXTI_DeInit hw = upd_exti (\<lambda>e. e\<lparr>IMASK := 0, EMASK := 0, RT_CFG := 0, FT_CFG := 0, PEND := wr_PEND hw (PEND e) 0x0FFFFFFF\<rparr>)"

text \<open>The code selects the register to change by its offset, which is the value of the mode or of the trigger.\<close>

definition exti_mode_set :: "EXTI_ModeType \<Rightarrow> u32w \<Rightarrow> exti_regs \<Rightarrow> exti_regs" where
  "exti_mode_set m l e = (case m of EXTI_Mode_Interrupt \<Rightarrow> e\<lparr>IMASK := IMASK e OR l\<rparr> | EXTI_Mode_Event \<Rightarrow> e\<lparr>EMASK := EMASK e OR l\<rparr>)"

definition exti_mode_clear :: "EXTI_ModeType \<Rightarrow> u32w \<Rightarrow> exti_regs \<Rightarrow> exti_regs" where
  "exti_mode_clear m l e =
     (case m of EXTI_Mode_Interrupt \<Rightarrow> e\<lparr>IMASK := IMASK e AND NOT l\<rparr> | EXTI_Mode_Event \<Rightarrow> e\<lparr>EMASK := EMASK e AND NOT l\<rparr>)"

definition exti_trigger_set :: "EXTI_TriggerType \<Rightarrow> u32w \<Rightarrow> exti_regs \<Rightarrow> exti_regs" where
  "exti_trigger_set t l e =
     (case t of
        EXTI_Trigger_Rising_Falling \<Rightarrow> e\<lparr>RT_CFG := RT_CFG e OR l, FT_CFG := FT_CFG e OR l\<rparr>
      | EXTI_Trigger_Rising \<Rightarrow> e\<lparr>RT_CFG := RT_CFG e OR l\<rparr>
      | EXTI_Trigger_Falling \<Rightarrow> e\<lparr>FT_CFG := FT_CFG e OR l\<rparr>)"

definition EXTI_InitPeripheral :: "EXTI_InitType \<Rightarrow> soc \<Rightarrow> soc" where
  "EXTI_InitPeripheral i =
     upd_exti (\<lambda>e.
       (if EXTI_LineCmd i then
          (let l = EXTI_Line i;
               e1 = e\<lparr>IMASK := IMASK e AND NOT l, EMASK := EMASK e AND NOT l\<rparr>;
               e2 = exti_mode_set (EXTI_Mode i) l e1;
               e3 = e2\<lparr>RT_CFG := RT_CFG e2 AND NOT l, FT_CFG := FT_CFG e2 AND NOT l\<rparr>
           in exti_trigger_set (EXTI_Trigger i) l e3)
        else exti_mode_clear (EXTI_Mode i) (EXTI_Line i) e))"

definition EXTI_InitStruct :: EXTI_InitType where
  "EXTI_InitStruct = \<lparr>EXTI_Line = 0, EXTI_Mode = EXTI_Mode_Interrupt, EXTI_Trigger = EXTI_Trigger_Falling, EXTI_LineCmd = False\<rparr>"

definition EXTI_TriggerSWInt :: "u32w \<Rightarrow> soc \<Rightarrow> soc" where
  "EXTI_TriggerSWInt l = upd_exti (\<lambda>e. e\<lparr>SWIE := SWIE e OR l\<rparr>)"

definition EXTI_GetStatusFlag :: "u32w \<Rightarrow> soc \<Rightarrow> bool" where
  "EXTI_GetStatusFlag l s \<longleftrightarrow> PEND (exti s) AND l \<noteq> 0"

definition EXTI_ClrStatusFlag :: "periph_hw \<Rightarrow> u32w \<Rightarrow> soc \<Rightarrow> soc" where
  "EXTI_ClrStatusFlag hw l = upd_exti (\<lambda>e. e\<lparr>PEND := wr_PEND hw (PEND e) l\<rparr>)"

definition EXTI_GetITStatus :: "u32w \<Rightarrow> soc \<Rightarrow> bool" where
  "EXTI_GetITStatus l s \<longleftrightarrow> (let enablestatus = IMASK (exti s) AND l in PEND (exti s) AND l \<noteq> 0 \<and> enablestatus \<noteq> 0)"

definition EXTI_ClrITPendBit :: "periph_hw \<Rightarrow> u32w \<Rightarrow> soc \<Rightarrow> soc" where
  "EXTI_ClrITPendBit hw l = upd_exti (\<lambda>e. e\<lparr>PEND := wr_PEND hw (PEND e) l\<rparr>)"

section \<open>The ports\<close>

definition GPIO_Mode_Input :: u32w where "GPIO_Mode_Input = 0"
definition GPIO_Mode_Out_PP :: u32w where "GPIO_Mode_Out_PP = 0x1"
definition GPIO_Mode_Out_OD :: u32w where "GPIO_Mode_Out_OD = 0x11"
definition GPIO_Mode_AF_PP :: u32w where "GPIO_Mode_AF_PP = 0x2"
definition GPIO_Mode_AF_OD :: u32w where "GPIO_Mode_AF_OD = 0x12"
definition GPIO_Mode_Analog :: u32w where "GPIO_Mode_Analog = 0x3"

definition GPIO_Mode_IT_Rising :: u32w where "GPIO_Mode_IT_Rising = 0x10110000"
definition GPIO_Mode_IT_Falling :: u32w where "GPIO_Mode_IT_Falling = 0x10210000"
definition GPIO_Mode_IT_Rising_Falling :: u32w where "GPIO_Mode_IT_Rising_Falling = 0x10310000"
definition GPIO_Mode_EVT_Rising :: u32w where "GPIO_Mode_EVT_Rising = 0x10120000"
definition GPIO_Mode_EVT_Falling :: u32w where "GPIO_Mode_EVT_Falling = 0x10220000"
definition GPIO_Mode_EVT_Rising_Falling :: u32w where "GPIO_Mode_EVT_Rising_Falling = 0x10320000"

definition GPIO_No_Pull :: u32w where "GPIO_No_Pull = 0"
definition GPIO_Pull_Up :: u32w where "GPIO_Pull_Up = 1"
definition GPIO_Pull_Down :: u32w where "GPIO_Pull_Down = 2"

definition GPIO_DC_2mA :: u32w where "GPIO_DC_2mA = 0x00"
definition GPIO_DC_4mA :: u32w where "GPIO_DC_4mA = 0x10"
definition GPIO_DC_8mA :: u32w where "GPIO_DC_8mA = 0x01"
definition GPIO_DC_12mA :: u32w where "GPIO_DC_12mA = 0x11"

definition GPIO_Slew_Rate_High :: u32w where "GPIO_Slew_Rate_High = 0"
definition GPIO_NO_AF :: u32w where "GPIO_NO_AF = 0xF"

lemmas gpio_consts = GPIO_Mode_Input_def GPIO_Mode_Out_PP_def GPIO_Mode_Out_OD_def GPIO_Mode_AF_PP_def GPIO_Mode_AF_OD_def
  GPIO_Mode_Analog_def GPIO_No_Pull_def GPIO_Pull_Up_def GPIO_Pull_Down_def GPIO_DC_2mA_def GPIO_DC_4mA_def GPIO_DC_8mA_def
  GPIO_DC_12mA_def GPIO_Slew_Rate_High_def GPIO_NO_AF_def GPIO_Mode_IT_Rising_def GPIO_Mode_IT_Falling_def
  GPIO_Mode_IT_Rising_Falling_def GPIO_Mode_EVT_Rising_def GPIO_Mode_EVT_Falling_def GPIO_Mode_EVT_Rising_Falling_def

definition GPIO_MODE :: u32w where "GPIO_MODE = 0x3"
definition EXTI_MODE :: u32w where "EXTI_MODE = 0x10000000"
definition GPIO_MODE_IT :: u32w where "GPIO_MODE_IT = 0x00010000"
definition GPIO_MODE_EVT :: u32w where "GPIO_MODE_EVT = 0x00020000"
definition RISING_EDGE :: u32w where "RISING_EDGE = 0x00100000"
definition FALLING_EDGE :: u32w where "FALLING_EDGE = 0x00200000"
definition GPIO_OUTPUT_TYPE :: u32w where "GPIO_OUTPUT_TYPE = 0x10"

lemmas gpio_masks = GPIO_MODE_def EXTI_MODE_def GPIO_MODE_IT_def GPIO_MODE_EVT_def RISING_EDGE_def FALLING_EDGE_def
  GPIO_OUTPUT_TYPE_def

record GPIO_InitType =
  Pin :: "16 word"
  GPIO_Current :: u32w
  GPIO_Slew_Rate :: u32w
  GPIO_Pull :: u32w
  GPIO_Mode :: u32w
  GPIO_Alternate :: u32w

text \<open>The idiom of the library for a field of a register: clear it, then or the new value in.\<close>

definition put_field :: "nat \<Rightarrow> nat \<Rightarrow> u32w \<Rightarrow> u32w \<Rightarrow> u32w" where
  "put_field w sh v r = (r AND NOT (push_bit sh (mask w))) OR push_bit sh v"

definition gpio_set_af :: "nat \<Rightarrow> u32w \<Rightarrow> gpio_regs \<Rightarrow> gpio_regs" where
  "gpio_set_af pos af g =
     (if bit pos 3 then g\<lparr>AFH := put_field 4 ((pos mod 8) * 4) af (AFH g)\<rparr>
      else g\<lparr>AFL := put_field 4 ((pos mod 8) * 4) af (AFL g)\<rparr>)"

definition gpio_write_PBSC :: "periph_hw \<Rightarrow> u32w \<Rightarrow> gpio_regs \<Rightarrow> gpio_regs" where
  "gpio_write_PBSC hw v g = g\<lparr>POD := wr_PBSC hw (POD g) v\<rparr>"

definition gpio_write_PBC :: "periph_hw \<Rightarrow> u32w \<Rightarrow> gpio_regs \<Rightarrow> gpio_regs" where
  "gpio_write_PBC hw v g = g\<lparr>POD := wr_PBC hw (POD g) v\<rparr>"

text \<open>The part of a turn of \<^verbatim>\<open>GPIO_InitPeripheral\<close> that works on the port.\<close>

definition gpio_init_port :: "periph_hw \<Rightarrow> GPIO_InitType \<Rightarrow> nat \<Rightarrow> gpio_regs \<Rightarrow> gpio_regs" where
  "gpio_init_port hw i position g =
     (let m = GPIO_Mode i;
          pinpos = position * 2;
          r = (if m = GPIO_Mode_AF_PP \<or> m = GPIO_Mode_AF_OD \<or> m = GPIO_Mode_Input \<or> m = GPIO_Mode_Analog
               then gpio_set_af position (GPIO_Alternate i) g else g)
      in r\<lparr>PMODE := put_field 2 pinpos (m AND 0xF) (PMODE r),
           PUPD := put_field 2 pinpos (GPIO_Pull i AND 0x3) (PUPD r),
           DS := (if m AND GPIO_MODE \<noteq> 0 \<and> m \<noteq> GPIO_Mode_Analog
                  then put_field 2 pinpos (GPIO_Current i AND 0x3) (DS r) else DS r),
           SR := put_field 1 position (GPIO_Slew_Rate i AND 0x1) (SR r),
           POD := (if GPIO_Pull i = GPIO_Pull_Down then wr_PBC hw (POD r) (rd_PBC hw OR push_bit position 1)
                   else if GPIO_Pull i = GPIO_Pull_Up then wr_PBSC hw (POD r) (rd_PBSC hw OR push_bit position 1)
                   else POD r),
           POTYPE := (if m = GPIO_Mode_Out_PP \<or> m = GPIO_Mode_AF_PP \<or> m = GPIO_Mode_Out_OD \<or> m = GPIO_Mode_AF_OD
                      then put_field 1 position (drop_bit 4 (m AND GPIO_OUTPUT_TYPE)) (POTYPE r) else POTYPE r)\<rparr>)"

definition flag_field :: "bool \<Rightarrow> u32w" where
  "flag_field b = (if b then 1 else 0)"

definition gpio_init_exti :: "GPIO_InitType \<Rightarrow> nat \<Rightarrow> exti_regs \<Rightarrow> exti_regs" where
  "gpio_init_exti i position e =
     (let m = GPIO_Mode i in
      if m AND EXTI_MODE \<noteq> 0 then
        e\<lparr>IMASK := put_field 1 position (flag_field (m AND GPIO_MODE_IT = GPIO_MODE_IT)) (IMASK e),
          EMASK := put_field 1 position (flag_field (m AND GPIO_MODE_EVT = GPIO_MODE_EVT)) (EMASK e),
          RT_CFG := put_field 1 position (flag_field (m AND RISING_EDGE = RISING_EDGE)) (RT_CFG e),
          FT_CFG := put_field 1 position (flag_field (m AND FALLING_EDGE = FALLING_EDGE)) (FT_CFG e)\<rparr>
      else e)"

lemma drop_bit_16_zero: "16 \<le> n \<Longrightarrow> drop_bit n (w :: 16 word) = 0"
  by (rule bit_eqI) (simp add: bit_drop_bit_eq bit_imp_le_length)

function gpio_init_loop :: "periph_hw \<Rightarrow> gpio_port \<Rightarrow> GPIO_InitType \<Rightarrow> nat \<Rightarrow> soc \<Rightarrow> soc" where
  "gpio_init_loop hw p i position s =
     (if drop_bit position (Pin i) \<noteq> 0 then
        gpio_init_loop hw p i (position + 1)
          (if bit (Pin i) position
           then upd_exti (gpio_init_exti i position) (upd_gpio p (gpio_init_port hw i position) s) else s)
      else s)"
  by pat_completeness auto

termination
  by (relation "measure (\<lambda>(hw, p, i, position, s). 16 - position)") (use drop_bit_16_zero in \<open>auto simp: not_le[symmetric]\<close>)

definition GPIO_InitPeripheral :: "periph_hw \<Rightarrow> gpio_port \<Rightarrow> GPIO_InitType \<Rightarrow> soc \<Rightarrow> soc" where
  "GPIO_InitPeripheral hw p i s = gpio_init_loop hw p i 0 s"

definition GPIO_InitStruct :: GPIO_InitType where
  "GPIO_InitStruct = \<lparr>Pin = 0xFFFF, GPIO_Current = GPIO_DC_2mA, GPIO_Slew_Rate = GPIO_Slew_Rate_High,
     GPIO_Pull = GPIO_No_Pull, GPIO_Mode = GPIO_Mode_Input, GPIO_Alternate = GPIO_NO_AF\<rparr>"

definition GPIO_ReadInputDataBit :: "gpio_port \<Rightarrow> u32w \<Rightarrow> soc \<Rightarrow> nat" where
  "GPIO_ReadInputDataBit p pin s = (if PID (gpio s p) AND pin \<noteq> 0 then 1 else 0)"

definition GPIO_ReadInputData :: "gpio_port \<Rightarrow> soc \<Rightarrow> 16 word" where
  "GPIO_ReadInputData p s = ucast (PID (gpio s p))"

definition GPIO_ReadOutputDataBit :: "gpio_port \<Rightarrow> u32w \<Rightarrow> soc \<Rightarrow> nat" where
  "GPIO_ReadOutputDataBit p pin s = (if POD (gpio s p) AND pin \<noteq> 0 then 1 else 0)"

definition GPIO_ReadOutputData :: "gpio_port \<Rightarrow> soc \<Rightarrow> 16 word" where
  "GPIO_ReadOutputData p s = ucast (POD (gpio s p))"

definition GPIO_SetBits :: "periph_hw \<Rightarrow> gpio_port \<Rightarrow> u32w \<Rightarrow> soc \<Rightarrow> soc" where
  "GPIO_SetBits hw p pin = upd_gpio p (gpio_write_PBSC hw pin)"

definition GPIO_ResetBits :: "periph_hw \<Rightarrow> gpio_port \<Rightarrow> u32w \<Rightarrow> soc \<Rightarrow> soc" where
  "GPIO_ResetBits hw p pin = upd_gpio p (gpio_write_PBC hw pin)"

definition GPIO_WriteBit :: "periph_hw \<Rightarrow> gpio_port \<Rightarrow> u32w \<Rightarrow> nat \<Rightarrow> soc \<Rightarrow> soc" where
  "GPIO_WriteBit hw p pin BitCmd = upd_gpio p (if BitCmd \<noteq> 0 then gpio_write_PBSC hw pin else gpio_write_PBC hw pin)"

definition GPIO_Write :: "gpio_port \<Rightarrow> 16 word \<Rightarrow> soc \<Rightarrow> soc" where
  "GPIO_Write p v = upd_gpio p (\<lambda>g. g\<lparr>POD := ucast v\<rparr>)"

definition GPIO_GET_PERIPH :: "nat \<Rightarrow> gpio_port" where
  "GPIO_GET_PERIPH i = (if i = 0 then GPIOA else if i = 1 then GPIOB else if i = 2 then GPIOC else GPIOD)"

definition GPIO_ConfigPinRemap :: "nat \<Rightarrow> nat \<Rightarrow> u32w \<Rightarrow> soc \<Rightarrow> soc" where
  "GPIO_ConfigPinRemap PortSource PinSource af = upd_gpio (GPIO_GET_PERIPH PortSource) (gpio_set_af PinSource af)"

text \<open>As written, the event output value is not shifted to the field of the pin.\<close>

definition gpio_set_eventout :: "nat \<Rightarrow> gpio_regs \<Rightarrow> gpio_regs" where
  "gpio_set_eventout pos g =
     (let clr = NOT (push_bit ((pos mod 8) * 4) 0xF) in
      if bit pos 3 then g\<lparr>AFH := (AFH g AND clr) OR 3\<rparr> else g\<lparr>AFL := (AFL g AND clr) OR 3\<rparr>)"

definition GPIO_ConfigEventOutput :: "nat \<Rightarrow> nat \<Rightarrow> soc \<Rightarrow> soc" where
  "GPIO_ConfigEventOutput PortSource PinSource = upd_gpio (GPIO_GET_PERIPH PortSource) (gpio_set_eventout PinSource)"

definition GPIO_ConfigEXTILine :: "nat \<Rightarrow> nat \<Rightarrow> soc \<Rightarrow> soc" where
  "GPIO_ConfigEXTILine PortSource PinSource s =
     s\<lparr>EXTI_CFG := (EXTI_CFG s)[PinSource div 4 :=
         put_field 2 ((PinSource mod 4) * 4) (of_nat PortSource) (EXTI_CFG s ! (PinSource div 4))]\<rparr>"

section \<open>Fields of registers\<close>

definition get_field :: "nat \<Rightarrow> nat \<Rightarrow> u32w \<Rightarrow> u32w" where
  "get_field w sh r = drop_bit sh r AND mask w"

lemma bit_put_field:
  "bit (put_field w sh v r) n \<longleftrightarrow> n < 32 \<and> (sh \<le> n \<and> bit v (n - sh) \<or> bit r n \<and> \<not> (sh \<le> n \<and> n < sh + w))"
  by (auto simp: put_field_def bit_or_iff bit_and_iff bit_not_iff bit_push_bit_iff bit_mask_iff dest: bit_imp_le_length)

lemma bit_get_field: "bit (get_field w sh r) n \<longleftrightarrow> n < w \<and> bit r (sh + n)"
  by (auto simp: get_field_def bit_and_iff bit_drop_bit_eq bit_mask_iff dest: bit_imp_le_length)

lemma get_put_field_same:
  assumes "take_bit w v = v" and "sh + w \<le> 32"
  shows "get_field w sh (put_field w sh v r) = v"
proof (rule bit_eqI)
  fix n
  have "bit v n \<longleftrightarrow> n < w \<and> bit v n"
    by (subst assms(1)[symmetric]) (simp add: bit_take_bit_iff)
  then show "bit (get_field w sh (put_field w sh v r)) n \<longleftrightarrow> bit v n"
    using assms(2) by (auto simp: bit_get_field bit_put_field)
qed

lemma get_put_field_other:
  assumes "take_bit w v = v" and "sh' + w' \<le> sh \<or> sh + w \<le> sh'"
  shows "get_field w' sh' (put_field w sh v r) = get_field w' sh' r"
proof (rule bit_eqI)
  fix n
  have "\<not> bit v m" if "w \<le> m" for m
    by (subst assms(1)[symmetric]) (use that in \<open>simp add: bit_take_bit_iff\<close>)
  then show "bit (get_field w' sh' (put_field w sh v r)) n \<longleftrightarrow> bit (get_field w' sh' r) n"
    using assms(2) by (auto simp: bit_get_field bit_put_field dest: bit_imp_le_length)
qed

lemma get_put_field:
  assumes "take_bit w v = v" and "0 < w" and "(n + 1) * w \<le> 32"
  shows "get_field w (m * w) (put_field w (n * w) v r) = (if m = n then v else get_field w (m * w) r)"
proof (cases m n rule: linorder_cases)
  case less
  then have "Suc m * w \<le> n * w" by (intro mult_le_mono1) simp
  then show ?thesis using less assms by (simp add: get_put_field_other)
next
  case greater
  then have "Suc n * w \<le> m * w" by (intro mult_le_mono1) simp
  then show ?thesis using greater assms by (simp add: get_put_field_other)
qed (use assms in \<open>simp add: get_put_field_same algebra_simps\<close>)

lemma take_bit_and_mask [simp]: "take_bit w (v AND mask w) = v AND (mask w :: u32w)"
  by (simp add: take_bit_eq_mask)

section \<open>The configuration of a pin\<close>

text \<open>What the registers of a port say of one pin, and what a call of \<^verbatim>\<open>GPIO_InitPeripheral\<close> should make of it.\<close>

record pin_conf =
  pc_mode :: u32w
  pc_pull :: u32w
  pc_drive :: u32w
  pc_slew :: u32w
  pc_type :: u32w
  pc_af :: u32w
  pc_out :: bool

definition pin_conf_of :: "gpio_regs \<Rightarrow> nat \<Rightarrow> pin_conf" where
  "pin_conf_of g n =
     \<lparr>pc_mode = get_field 2 (n * 2) (PMODE g), pc_pull = get_field 2 (n * 2) (PUPD g), pc_drive = get_field 2 (n * 2) (DS g),
      pc_slew = get_field 1 (n * 1) (SR g), pc_type = get_field 1 (n * 1) (POTYPE g),
      pc_af = get_field 4 ((n mod 8) * 4) (if n < 8 then AFL g else AFH g), pc_out = bit (POD g) n\<rparr>"

definition IS_GPIO_MODE :: "u32w \<Rightarrow> bool" where
  "IS_GPIO_MODE m \<longleftrightarrow> m = GPIO_Mode_Input \<or> m = GPIO_Mode_Out_PP \<or> m = GPIO_Mode_Out_OD \<or> m = GPIO_Mode_AF_PP \<or>
     m = GPIO_Mode_AF_OD \<or> m = GPIO_Mode_IT_Rising \<or> m = GPIO_Mode_IT_Falling \<or> m = GPIO_Mode_IT_Rising_Falling \<or>
     m = GPIO_Mode_EVT_Rising \<or> m = GPIO_Mode_EVT_Falling \<or> m = GPIO_Mode_EVT_Rising_Falling \<or> m = GPIO_Mode_Analog"

definition init_ok :: "GPIO_InitType \<Rightarrow> bool" where
  "init_ok i \<longleftrightarrow> IS_GPIO_MODE (GPIO_Mode i) \<and> GPIO_Alternate i < 16"

definition is_output :: "u32w \<Rightarrow> bool" where
  "is_output m \<longleftrightarrow> m = GPIO_Mode_Out_PP \<or> m = GPIO_Mode_AF_PP \<or> m = GPIO_Mode_Out_OD \<or> m = GPIO_Mode_AF_OD"

definition is_open_drain :: "u32w \<Rightarrow> bool" where
  "is_open_drain m \<longleftrightarrow> m = GPIO_Mode_Out_OD \<or> m = GPIO_Mode_AF_OD"

definition configured :: "GPIO_InitType \<Rightarrow> pin_conf \<Rightarrow> pin_conf" where
  "configured i c =
     (let m = GPIO_Mode i in
      c\<lparr>pc_mode := m AND mask 2, pc_pull := GPIO_Pull i AND mask 2, pc_slew := GPIO_Slew_Rate i AND mask 1,
        pc_drive := (if is_output m then GPIO_Current i AND mask 2 else pc_drive c),
        pc_type := (if is_output m then flag_field (is_open_drain m) else pc_type c),
        pc_af := (if m = GPIO_Mode_AF_PP \<or> m = GPIO_Mode_AF_OD \<or> m = GPIO_Mode_Input \<or> m = GPIO_Mode_Analog
                  then GPIO_Alternate i else pc_af c),
        pc_out := (if GPIO_Pull i = GPIO_Pull_Down then False else if GPIO_Pull i = GPIO_Pull_Up then True else pc_out c)\<rparr>)"

lemma init_ok_fits:
  assumes "init_ok i"
  shows "GPIO_Mode i AND 0xF = GPIO_Mode i AND mask 2" "take_bit 4 (GPIO_Alternate i) = GPIO_Alternate i"
    "GPIO_Mode i AND GPIO_MODE \<noteq> 0 \<and> GPIO_Mode i \<noteq> GPIO_Mode_Analog \<longleftrightarrow> is_output (GPIO_Mode i)"
    "is_output (GPIO_Mode i) \<Longrightarrow> drop_bit 4 (GPIO_Mode i AND GPIO_OUTPUT_TYPE) = flag_field (is_open_drain (GPIO_Mode i))"
proof -
  show "take_bit 4 (GPIO_Alternate i) = GPIO_Alternate i"
    using assms by (simp add: init_ok_def take_bit_eq_mod word_less_nat_alt word_unat_eq_iff unat_mod_distrib)
  have m: "IS_GPIO_MODE (GPIO_Mode i)" using assms by (simp add: init_ok_def)
  show "GPIO_Mode i AND 0xF = GPIO_Mode i AND mask 2" using m
    unfolding IS_GPIO_MODE_def by (elim disjE) (simp_all add: gpio_consts mask_eq_exp_minus_1)
  show "GPIO_Mode i AND GPIO_MODE \<noteq> 0 \<and> GPIO_Mode i \<noteq> GPIO_Mode_Analog \<longleftrightarrow> is_output (GPIO_Mode i)" using m
    unfolding IS_GPIO_MODE_def is_output_def by (elim disjE) (simp_all add: gpio_consts gpio_masks)
  show "drop_bit 4 (GPIO_Mode i AND GPIO_OUTPUT_TYPE) = flag_field (is_open_drain (GPIO_Mode i))"
    if "is_output (GPIO_Mode i)"
    using that unfolding is_output_def
    by (elim disjE) (simp_all add: is_open_drain_def flag_field_def gpio_consts gpio_masks)
qed

lemma bit_nat_3: "n < 16 \<Longrightarrow> bit n 3 \<longleftrightarrow> \<not> n < (8 :: nat)"
proof -
  assume "n < 16"
  then have "n div 8 = (if n < 8 then 0 else 1)" by auto
  then show ?thesis by (simp add: bit_iff_odd)
qed

lemma af_conf:
  assumes "take_bit 4 v = v" and "m < 16" and "n < 16"
  shows "get_field 4 ((n mod 8) * 4) (if n < 8 then AFL (gpio_set_af m v g) else AFH (gpio_set_af m v g)) =
     (if n = m then v else get_field 4 ((n mod 8) * 4) (if n < 8 then AFL g else AFH g))"
proof -
  have fit: "(m mod 8 + 1) * 4 \<le> 32" by (simp add: less_Suc_eq_le[symmetric])
  have "n < 8 \<longleftrightarrow> m < 8 \<Longrightarrow> n mod 8 = m mod 8 \<longleftrightarrow> n = m" using assms by (auto simp: mod_if split: if_splits)
  then show ?thesis
    using assms get_put_field[OF assms(1) _ fit, of "n mod 8"] by (auto simp: gpio_set_af_def bit_nat_3)
qed

lemma hw_documentedD:
  assumes "hw_documented hw"
  shows "wr_PEND hw r v = r AND NOT v" "wr_ISER hw r v = r OR v" "wr_ICER hw r v = r AND NOT v"
    "wr_PBSC hw r v = (r AND NOT (drop_bit 16 v)) OR (v AND mask 16)" "wr_PBC hw r v = r AND NOT v"
    "rd_PBSC hw = 0" "rd_PBC hw = 0"
  using assms by (simp_all add: hw_documented_def)

lemma set_output_bit:
  assumes "hw_documented hw" and "n < 16" and "m < 16"
  shows "bit (wr_PBSC hw r (push_bit m 1)) n \<longleftrightarrow> n = m \<or> bit r n"
    "bit (wr_PBC hw r (push_bit m 1)) n \<longleftrightarrow> n \<noteq> m \<and> bit r n"
  using assms by (auto simp: hw_documentedD bit_or_iff bit_and_iff bit_not_iff bit_drop_bit_eq bit_push_bit_iff bit_mask_iff
      bit_exp_iff dest: bit_imp_le_length)

lemma gpio_part_simps [simp]:
  "PMODE (gpio_set_af m v g) = PMODE g" "PUPD (gpio_set_af m v g) = PUPD g" "DS (gpio_set_af m v g) = DS g"
  "SR (gpio_set_af m v g) = SR g" "POTYPE (gpio_set_af m v g) = POTYPE g" "POD (gpio_set_af m v g) = POD g"
  by (simp_all add: gpio_set_af_def)

lemma gpio_init_port_fields:
  assumes "hw_documented hw"
  shows "PMODE (gpio_init_port hw i m g) = put_field 2 (m * 2) (GPIO_Mode i AND 0xF) (PMODE g)"
    "PUPD (gpio_init_port hw i m g) = put_field 2 (m * 2) (GPIO_Pull i AND 0x3) (PUPD g)"
    "SR (gpio_init_port hw i m g) = put_field 1 m (GPIO_Slew_Rate i AND 0x1) (SR g)"
    "DS (gpio_init_port hw i m g) =
       (if GPIO_Mode i AND GPIO_MODE \<noteq> 0 \<and> GPIO_Mode i \<noteq> GPIO_Mode_Analog
        then put_field 2 (m * 2) (GPIO_Current i AND 0x3) (DS g) else DS g)"
    "POTYPE (gpio_init_port hw i m g) =
       (if is_output (GPIO_Mode i) then put_field 1 m (drop_bit 4 (GPIO_Mode i AND GPIO_OUTPUT_TYPE)) (POTYPE g) else POTYPE g)"
    "POD (gpio_init_port hw i m g) =
       (if GPIO_Pull i = GPIO_Pull_Down then wr_PBC hw (POD g) (push_bit m 1)
        else if GPIO_Pull i = GPIO_Pull_Up then wr_PBSC hw (POD g) (push_bit m 1) else POD g)"
    "AFL (gpio_init_port hw i m g) =
       AFL (if GPIO_Mode i = GPIO_Mode_AF_PP \<or> GPIO_Mode i = GPIO_Mode_AF_OD \<or> GPIO_Mode i = GPIO_Mode_Input \<or>
               GPIO_Mode i = GPIO_Mode_Analog then gpio_set_af m (GPIO_Alternate i) g else g)"
    "AFH (gpio_init_port hw i m g) =
       AFH (if GPIO_Mode i = GPIO_Mode_AF_PP \<or> GPIO_Mode i = GPIO_Mode_AF_OD \<or> GPIO_Mode i = GPIO_Mode_Input \<or>
               GPIO_Mode i = GPIO_Mode_Analog then gpio_set_af m (GPIO_Alternate i) g else g)"
  by (simp_all add: gpio_init_port_def Let_def is_output_def hw_documentedD(6,7)[OF assms])

lemma gpio_init_port_conf:
  assumes hw: "hw_documented hw" and ok: "init_ok i" and "m < 16" and "n < 16"
  shows "pin_conf_of (gpio_init_port hw i m g) n = (if n = m then configured i (pin_conf_of g m) else pin_conf_of g n)"
proof -
  let ?g = "gpio_init_port hw i m g"
  note fits = init_ok_fits[OF ok] and fields = gpio_init_port_fields[OF hw]
  have mk: "(3 :: u32w) = mask 2" "(1 :: u32w) = mask 1" by (simp_all add: mask_eq_exp_minus_1)
  have 2: "get_field 2 (n * 2) (put_field 2 (m * 2) (v AND mask 2) r) = (if n = m then v AND mask 2 else get_field 2 (n * 2) r)"
    for v r by (rule get_put_field[OF take_bit_and_mask]) (use assms in auto)
  have 1: "get_field 1 (n * 1) (put_field 1 m v r) = (if n = m then v else get_field 1 (n * 1) r)"
    if "take_bit 1 v = v" for v r using get_put_field[OF that, of m n r] assms by simp
  have flag: "take_bit 1 (flag_field b) = flag_field b" for b by (simp add: flag_field_def)
  have "get_field 2 (n * 2) (PMODE ?g) = (if n = m then GPIO_Mode i AND mask 2 else get_field 2 (n * 2) (PMODE g))"
    unfolding fields fits 2 ..
  moreover have "get_field 2 (n * 2) (PUPD ?g) = (if n = m then GPIO_Pull i AND mask 2 else get_field 2 (n * 2) (PUPD g))"
    unfolding fields mk 2 ..
  moreover have "get_field 2 (n * 2) (DS ?g) =
      (if n = m \<and> is_output (GPIO_Mode i) then GPIO_Current i AND mask 2 else get_field 2 (n * 2) (DS g))"
    unfolding fields fits mk using 2 by (cases "is_output (GPIO_Mode i)") auto
  moreover have "get_field 1 (n * 1) (SR ?g) = (if n = m then GPIO_Slew_Rate i AND mask 1 else get_field 1 (n * 1) (SR g))"
    unfolding fields mk(2) by (rule 1[OF take_bit_and_mask])
  moreover have "get_field 1 (n * 1) (POTYPE ?g) =
      (if n = m \<and> is_output (GPIO_Mode i) then flag_field (is_open_drain (GPIO_Mode i)) else get_field 1 (n * 1) (POTYPE g))"
    unfolding fields using 1[OF flag] fits(4) by (cases "is_output (GPIO_Mode i)") auto
  moreover have "bit (POD ?g) n \<longleftrightarrow> (if n = m then pc_out (configured i (pin_conf_of g m)) else bit (POD g) n)"
    unfolding fields using set_output_bit[OF hw assms(4,3)] by (auto simp: configured_def pin_conf_of_def Let_def)
  moreover note af_conf[OF fits(2) assms(3,4), of g] fields(7,8)[of i m g]
  ultimately show ?thesis unfolding pin_conf_of_def
    by (auto simp: configured_def Let_def)
qed

lemma upd_gpio_simps [simp]:
  "gpio (upd_gpio p f s) = (gpio s)(p := f (gpio s p))" "exti (upd_gpio p f s) = exti s" "EXTI_CFG (upd_gpio p f s) = EXTI_CFG s"
  "APB2PCLKEN (upd_gpio p f s) = APB2PCLKEN s" "nvic_enabled (upd_gpio p f s) = nvic_enabled s"
  by (simp_all add: upd_gpio_def)

lemma upd_exti_simps [simp]:
  "gpio (upd_exti h s) = gpio s" "exti (upd_exti h s) = h (exti s)" "EXTI_CFG (upd_exti h s) = EXTI_CFG s"
  "APB2PCLKEN (upd_exti h s) = APB2PCLKEN s" "nvic_enabled (upd_exti h s) = nvic_enabled s"
  by (simp_all add: upd_exti_def)

declare gpio_init_loop.simps [simp del]

lemma gpio_init_loop_stop: "\<not> bit (Pin i) n" if "drop_bit k (Pin i) = 0" and "k \<le> n"
proof -
  have "bit (Pin i) n = bit (drop_bit k (Pin i)) (n - k)" using that(2) by (simp add: bit_drop_bit_eq)
  then show ?thesis using that(1) by simp
qed

lemma gpio_init_loop_conf:
  assumes "hw_documented hw" and "init_ok i" and "n < 16"
  shows "pin_conf_of (gpio (gpio_init_loop hw p i k s) q) n =
     (if q = p \<and> k \<le> n \<and> bit (Pin i) n then configured i (pin_conf_of (gpio s p) n) else pin_conf_of (gpio s q) n)"
  using assms
proof (induction hw p i k s rule: gpio_init_loop.induct[case_names step])
  case (step hw p i k s)
  show ?case
  proof (cases "drop_bit k (Pin i) = 0")
    case True
    then show ?thesis using gpio_init_loop_stop by (auto simp: gpio_init_loop.simps[of _ _ _ k])
  next
    case False
    then have k: "k < 16" using drop_bit_16_zero not_less by blast
    let ?s = "if bit (Pin i) k then upd_exti (gpio_init_exti i k) (upd_gpio p (gpio_init_port hw i k) s) else s"
    have conf: "pin_conf_of (gpio ?s q) n =
        (if q = p \<and> n = k \<and> bit (Pin i) k then configured i (pin_conf_of (gpio s p) n) else pin_conf_of (gpio s q) n)" for q
      using gpio_init_port_conf[OF step.prems(1,2) k step.prems(3)] by (cases "n = k") auto
    have "gpio_init_loop hw p i k s = gpio_init_loop hw p i (k + 1) ?s"
      using False by (simp add: gpio_init_loop.simps[of _ _ _ k])
    then show ?thesis unfolding \<open>gpio_init_loop hw p i k s = _\<close> step.IH[OF False step.prems] conf
      by (cases "n = k") auto
  qed
qed

lemma gpio_init_loop_frame:
  assumes "GPIO_Mode i AND EXTI_MODE = 0"
  shows "exti (gpio_init_loop hw p i k s) = exti s \<and> EXTI_CFG (gpio_init_loop hw p i k s) = EXTI_CFG s \<and>
    nvic_enabled (gpio_init_loop hw p i k s) = nvic_enabled s \<and> APB2PCLKEN (gpio_init_loop hw p i k s) = APB2PCLKEN s"
  using assms
proof (induction hw p i k s rule: gpio_init_loop.induct[case_names step])
  case (step hw p i k s)
  then show ?case by (simp add: gpio_init_loop.simps[of hw p i k] gpio_init_exti_def Let_def)
qed

text \<open>Driving strengths are written as two binary digits in hexadecimal: of the four, the library can set two.\<close>

lemma GPIO_Current_lost:
  "GPIO_DC_4mA AND mask 2 = GPIO_DC_2mA AND mask 2" "GPIO_DC_12mA AND mask 2 = GPIO_DC_8mA AND mask 2"
  by (simp_all add: gpio_consts mask_eq_exp_minus_1)

lemma GPIO_ConfigEventOutput_wrong_pin:
  "pc_af (pin_conf_of (gpio (GPIO_ConfigEventOutput 0 1 s) GPIOA) 1) = 0"
  "pc_af (pin_conf_of (gpio (GPIO_ConfigEventOutput 0 1 s) GPIOA) 0) = pc_af (pin_conf_of (gpio s GPIOA) 0) OR 3"
proof -
  let ?r = "AFL (gpio s GPIOA)" and ?g = "gpio (GPIO_ConfigEventOutput 0 1 s) GPIOA"
  have af: "AFL ?g = (?r AND NOT (push_bit 4 (mask 4))) OR mask 2"
    by (simp add: GPIO_ConfigEventOutput_def GPIO_GET_PERIPH_def gpio_set_eventout_def bit_nat_3 Let_def mask_eq_exp_minus_1)
  have "get_field 4 4 (AFL ?g) = 0" "get_field 4 0 (AFL ?g) = get_field 4 0 ?r OR mask 2"
    unfolding af
    by (rule bit_eqI, auto simp: bit_get_field bit_or_iff bit_and_iff bit_not_iff bit_push_bit_iff bit_mask_iff)+
  then show "pc_af (pin_conf_of ?g 1) = 0" "pc_af (pin_conf_of ?g 0) = pc_af (pin_conf_of (gpio s GPIOA) 0) OR 3"
    by (simp_all add: pin_conf_of_def mask_eq_exp_minus_1)
qed

end
