(* ===== verification/Drv_Gpio.thy ===== *)
theory Drv_Gpio
  imports Clock Periph_Gpio
begin

unbundle bit_operations_syntax

text \<open>
  The pin driver of the board (\<^verbatim>\<open>drv_gpio.c\<close>) and the pin device in front of it (\<^verbatim>\<open>dev_pin.c\<close>): pin numbers and
  their ports, modes, levels, and interrupts on edges.  The state is the table of attached handlers and the mask of enabled
  lines, the registers of \<^verbatim>\<open>Periph_Gpio\<close>, and the flag that masks all interrupts.  The build defines \<^verbatim>\<open>SOC_N32L43X\<close>, so
  the branches for other chips are left out, and the chip has the four ports A to D.  A handler is a function pointer (a
  number, 0 for none); what it does is a parameter.
\<close>

section \<open>State\<close>

record rt_pin_irq_hdr =
  ih_pin :: int
  ih_mode :: nat
  ih_hdr :: nat
  ih_args :: nat

record pin_drv =
  chip :: soc
  pin_irq_hdr_tab :: "rt_pin_irq_hdr list"
  pin_irq_enable_mask :: u32w
  primask :: bool

record pin_index =
  pi_index :: int
  pi_gpio :: gpio_port
  pi_pin :: u32w

record pin_irq_map =
  pinbit :: u32w
  irqno :: int

definition no_hdr :: rt_pin_irq_hdr where
  "no_hdr = \<lparr>ih_pin = -1, ih_mode = 0, ih_hdr = 0, ih_args = 0\<rparr>"

definition pin_tab_init :: "rt_pin_irq_hdr list" where
  "pin_tab_init = replicate 16 no_hdr"

definition on_chip :: "(soc \<Rightarrow> soc) \<Rightarrow> pin_drv \<Rightarrow> pin_drv" where
  "on_chip f d = d\<lparr>chip := f (chip d)\<rparr>"

text \<open>Masking of interrupts in the processor port: the level is the old value of \<^verbatim>\<open>PRIMASK\<close>.\<close>

definition rt_hw_interrupt_disable :: "pin_drv \<Rightarrow> bool \<times> pin_drv" where
  "rt_hw_interrupt_disable d = (primask d, d\<lparr>primask := True\<rparr>)"

definition rt_hw_interrupt_enable :: "bool \<Rightarrow> pin_drv \<Rightarrow> pin_drv" where
  "rt_hw_interrupt_enable level d = d\<lparr>primask := level\<rparr>"

section \<open>Tables\<close>

text \<open>The table of pins lists the sixteen pins of each port in order.\<close>

definition port_pins :: "int \<Rightarrow> gpio_port \<Rightarrow> pin_index list" where
  "port_pins base p = map (\<lambda>k. \<lparr>pi_index = base + int k, pi_gpio = p, pi_pin = push_bit k 1\<rparr>) [0..<16]"

definition pins :: "pin_index list" where
  "pins = port_pins 0 GPIOA @ port_pins 16 GPIOB @ port_pins 32 GPIOC @ port_pins 48 GPIOD"

definition EXTI0_IRQn :: int where "EXTI0_IRQn = 6"
definition EXTI1_IRQn :: int where "EXTI1_IRQn = 7"
definition EXTI2_IRQn :: int where "EXTI2_IRQn = 8"
definition EXTI3_IRQn :: int where "EXTI3_IRQn = 9"
definition EXTI4_IRQn :: int where "EXTI4_IRQn = 10"
definition EXTI9_5_IRQn :: int where "EXTI9_5_IRQn = 23"
definition EXTI15_10_IRQn :: int where "EXTI15_10_IRQn = 40"

lemmas irqn_defs = EXTI0_IRQn_def EXTI1_IRQn_def EXTI2_IRQn_def EXTI3_IRQn_def EXTI4_IRQn_def EXTI9_5_IRQn_def EXTI15_10_IRQn_def

definition pin_irq_maps :: "pin_irq_map list" where
  "pin_irq_maps =
     [\<lparr>pinbit = 0x1, irqno = EXTI0_IRQn\<rparr>, \<lparr>pinbit = 0x2, irqno = EXTI1_IRQn\<rparr>, \<lparr>pinbit = 0x4, irqno = EXTI2_IRQn\<rparr>,
      \<lparr>pinbit = 0x8, irqno = EXTI3_IRQn\<rparr>, \<lparr>pinbit = 0x10, irqno = EXTI4_IRQn\<rparr>, \<lparr>pinbit = 0x20, irqno = EXTI9_5_IRQn\<rparr>,
      \<lparr>pinbit = 0x40, irqno = EXTI9_5_IRQn\<rparr>, \<lparr>pinbit = 0x80, irqno = EXTI9_5_IRQn\<rparr>,
      \<lparr>pinbit = 0x100, irqno = EXTI9_5_IRQn\<rparr>, \<lparr>pinbit = 0x200, irqno = EXTI9_5_IRQn\<rparr>,
      \<lparr>pinbit = 0x400, irqno = EXTI15_10_IRQn\<rparr>, \<lparr>pinbit = 0x800, irqno = EXTI15_10_IRQn\<rparr>,
      \<lparr>pinbit = 0x1000, irqno = EXTI15_10_IRQn\<rparr>, \<lparr>pinbit = 0x2000, irqno = EXTI15_10_IRQn\<rparr>,
      \<lparr>pinbit = 0x4000, irqno = EXTI15_10_IRQn\<rparr>, \<lparr>pinbit = 0x8000, irqno = EXTI15_10_IRQn\<rparr>]"

text \<open>The parameter of \<^verbatim>\<open>get_pin\<close> is an 8-bit number: the callers' pin number is cut.\<close>

definition get_pin :: "int \<Rightarrow> pin_index option" where
  "get_pin pin =
     (let p = nat (pin mod 256) in
      if p < length pins then (if pi_index (pins ! p) = -1 then None else Some (pins ! p)) else None)"

fun bit2bitno_loop :: "nat \<Rightarrow> nat \<Rightarrow> u32w \<Rightarrow> int" where
  "bit2bitno_loop 0 i b = -1"
| "bit2bitno_loop (Suc n) i b = (if push_bit i 1 = b then int i else bit2bitno_loop n (i + 1) b)"

definition bit2bitno :: "u32w \<Rightarrow> int" where
  "bit2bitno b = bit2bitno_loop 32 0 b"

definition port2portsource :: "gpio_port \<Rightarrow> nat" where
  "port2portsource p = (case p of GPIOA \<Rightarrow> 0 | GPIOB \<Rightarrow> 1 | GPIOC \<Rightarrow> 2 | GPIOD \<Rightarrow> 3)"

definition get_pin_irq_map :: "u32w \<Rightarrow> pin_irq_map option" where
  "get_pin_irq_map b =
     (let mapindex = bit2bitno b in
      if mapindex < 0 \<or> mapindex \<ge> int (length pin_irq_maps) then None else Some (pin_irq_maps ! nat mapindex))"

section \<open>Levels and modes\<close>

definition PIN_MODE_OUTPUT :: nat where "PIN_MODE_OUTPUT = 0"
definition PIN_MODE_INPUT :: nat where "PIN_MODE_INPUT = 1"
definition PIN_MODE_INPUT_PULLUP :: nat where "PIN_MODE_INPUT_PULLUP = 2"
definition PIN_MODE_INPUT_PULLDOWN :: nat where "PIN_MODE_INPUT_PULLDOWN = 3"
definition PIN_MODE_OUTPUT_OD :: nat where "PIN_MODE_OUTPUT_OD = 4"

lemmas pin_mode_defs = PIN_MODE_OUTPUT_def PIN_MODE_INPUT_def PIN_MODE_INPUT_PULLUP_def PIN_MODE_INPUT_PULLDOWN_def
  PIN_MODE_OUTPUT_OD_def

definition n32_pin_write :: "periph_hw \<Rightarrow> int \<Rightarrow> nat \<Rightarrow> pin_drv \<Rightarrow> pin_drv" where
  "n32_pin_write hw pin val d =
     (case get_pin pin of None \<Rightarrow> d | Some index \<Rightarrow> on_chip (GPIO_WriteBit hw (pi_gpio index) (pi_pin index) val) d)"

definition n32_pin_read :: "int \<Rightarrow> pin_drv \<Rightarrow> int" where
  "n32_pin_read pin d =
     (case get_pin pin of None \<Rightarrow> - RT_EINVAL
      | Some index \<Rightarrow> int (GPIO_ReadInputDataBit (pi_gpio index) (pi_pin index) (chip d)))"

definition n32_gpio_clock_enable :: "gpio_port \<Rightarrow> soc \<Rightarrow> soc" where
  "n32_gpio_clock_enable p =
     RCC_EnableAPB2PeriphClk
       (case p of GPIOA \<Rightarrow> RCC_APB2_PERIPH_GPIOA | GPIOB \<Rightarrow> RCC_APB2_PERIPH_GPIOB | GPIOC \<Rightarrow> RCC_APB2_PERIPH_GPIOC
        | GPIOD \<Rightarrow> RCC_APB2_PERIPH_GPIOD) True"

definition n32_pin_mode_init :: "u32w \<Rightarrow> nat \<Rightarrow> GPIO_InitType" where
  "n32_pin_mode_init bits m =
     (let i = GPIO_InitStruct\<lparr>Pin := ucast bits\<rparr> in
      if m = PIN_MODE_OUTPUT then i\<lparr>GPIO_Mode := GPIO_Mode_Out_PP\<rparr>
      else if m = PIN_MODE_INPUT then i\<lparr>GPIO_Pull := GPIO_No_Pull, GPIO_Mode := GPIO_Mode_Input\<rparr>
      else if m = PIN_MODE_INPUT_PULLUP then i\<lparr>GPIO_Pull := GPIO_Pull_Up, GPIO_Mode := GPIO_Mode_Input\<rparr>
      else if m = PIN_MODE_INPUT_PULLDOWN then i\<lparr>GPIO_Pull := GPIO_Pull_Down, GPIO_Mode := GPIO_Mode_Input\<rparr>
      else if m = PIN_MODE_OUTPUT_OD then i\<lparr>GPIO_Mode := GPIO_Mode_Out_OD\<rparr>
      else i)"

definition n32_pin_mode :: "periph_hw \<Rightarrow> int \<Rightarrow> nat \<Rightarrow> pin_drv \<Rightarrow> pin_drv" where
  "n32_pin_mode hw pin m d =
     (case get_pin pin of
        None \<Rightarrow> d
      | Some index \<Rightarrow>
          on_chip (\<lambda>s. GPIO_InitPeripheral hw (pi_gpio index) (n32_pin_mode_init (pi_pin index) m)
                         (n32_gpio_clock_enable (pi_gpio index) s)) d)"

section \<open>Interrupts\<close>

definition set_hdr :: "nat \<Rightarrow> rt_pin_irq_hdr \<Rightarrow> pin_drv \<Rightarrow> pin_drv" where
  "set_hdr i e d = d\<lparr>pin_irq_hdr_tab := (pin_irq_hdr_tab d)[i := e]\<rparr>"

definition n32_pin_attach_irq :: "int \<Rightarrow> nat \<Rightarrow> nat \<Rightarrow> nat \<Rightarrow> pin_drv \<Rightarrow> rt_err_t \<times> pin_drv" where
  "n32_pin_attach_irq pin m hdr args d =
     (case get_pin pin of
        None \<Rightarrow> (- RT_ENOSYS, d)
      | Some index \<Rightarrow>
          (let irqindex = bit2bitno (pi_pin index) in
           if irqindex < 0 \<or> irqindex \<ge> int (length pin_irq_maps) then (- RT_ENOSYS, d)
           else
             (let (level, d1) = rt_hw_interrupt_disable d;
                  i = nat irqindex;
                  e = pin_irq_hdr_tab d1 ! i;
                  new = \<lparr>ih_pin = pin, ih_mode = m, ih_hdr = hdr, ih_args = args\<rparr>
              in if e = new then (RT_EOK, rt_hw_interrupt_enable level d1)
                 else if ih_pin e \<noteq> -1 then (- RT_EBUSY, rt_hw_interrupt_enable level d1)
                 else (RT_EOK, rt_hw_interrupt_enable level (set_hdr i new d1)))))"

definition n32_pin_dettach_irq :: "int \<Rightarrow> pin_drv \<Rightarrow> rt_err_t \<times> pin_drv" where
  "n32_pin_dettach_irq pin d =
     (case get_pin pin of
        None \<Rightarrow> (- RT_ENOSYS, d)
      | Some index \<Rightarrow>
          (let irqindex = bit2bitno (pi_pin index) in
           if irqindex < 0 \<or> irqindex \<ge> int (length pin_irq_maps) then (- RT_ENOSYS, d)
           else
             (let (level, d1) = rt_hw_interrupt_disable d;
                  i = nat irqindex
              in if ih_pin (pin_irq_hdr_tab d1 ! i) = -1 then (RT_EOK, rt_hw_interrupt_enable level d1)
                 else (RT_EOK, rt_hw_interrupt_enable level (set_hdr i no_hdr d1)))))"

definition pin_trigger :: "nat \<Rightarrow> EXTI_TriggerType option" where
  "pin_trigger m =
     (if m = 0 then Some EXTI_Trigger_Rising else if m = 1 then Some EXTI_Trigger_Falling
      else if m = 2 then Some EXTI_Trigger_Rising_Falling else None)"

text \<open>The masks of \<^verbatim>\<open>GPIO_PIN_5\<close> to \<^verbatim>\<open>GPIO_PIN_9\<close> and of \<^verbatim>\<open>GPIO_PIN_10\<close> to \<^verbatim>\<open>GPIO_PIN_15\<close>.\<close>

definition pins_9_5 :: u32w where "pins_9_5 = 0x20 OR 0x40 OR 0x80 OR 0x100 OR 0x200"
definition pins_15_10 :: u32w where "pins_15_10 = 0x400 OR 0x800 OR 0x1000 OR 0x2000 OR 0x4000 OR 0x8000"

definition enable_line :: "periph_hw \<Rightarrow> pin_index \<Rightarrow> nat \<Rightarrow> EXTI_TriggerType \<Rightarrow> int \<Rightarrow> soc \<Rightarrow> soc" where
  "enable_line hw index irqindex trigger irq s =
     (let s1 = RCC_EnableAPB2PeriphClk RCC_APB2_PERIPH_AFIO True s;
          s2 = GPIO_ConfigEXTILine (port2portsource (pi_gpio index)) irqindex s1;
          s3 = EXTI_InitPeripheral
                 \<lparr>EXTI_Line = pi_pin index, EXTI_Mode = EXTI_Mode_Interrupt, EXTI_Trigger = trigger, EXTI_LineCmd = True\<rparr> s2;
          s4 = EXTI_ClrITPendBit hw (pi_pin index) s3;
          s5 = NVIC_SetPriority irq 5 s4
      in NVIC_EnableIRQ hw irq s5)"

definition n32_pin_irq_on :: "periph_hw \<Rightarrow> pin_index \<Rightarrow> pin_drv \<Rightarrow> rt_err_t \<times> pin_drv" where
  "n32_pin_irq_on hw index d =
     (let irqindex = bit2bitno (pi_pin index) in
      if irqindex < 0 \<or> irqindex \<ge> int (length pin_irq_maps) then (- RT_ENOSYS, d)
      else
        (let (level, d1) = rt_hw_interrupt_disable d;
             i = nat irqindex;
             e = pin_irq_hdr_tab d1 ! i
         in if ih_pin e = -1 then (- RT_ENOSYS, rt_hw_interrupt_enable level d1)
            else
              (let irqmap = pin_irq_maps ! i in
               case pin_trigger (ih_mode e) of
                 None \<Rightarrow> (- RT_ERROR, d1)
               | Some trigger \<Rightarrow>
                   (let d2 = on_chip (enable_line hw index i trigger (irqno irqmap)) d1;
                        d3 = d2\<lparr>pin_irq_enable_mask := pin_irq_enable_mask d2 OR pinbit irqmap\<rparr>
                    in (RT_EOK, rt_hw_interrupt_enable level d3)))))"

definition n32_pin_irq_off :: "periph_hw \<Rightarrow> pin_index \<Rightarrow> pin_drv \<Rightarrow> rt_err_t \<times> pin_drv" where
  "n32_pin_irq_off hw index d =
     (case get_pin_irq_map (pi_pin index) of
        None \<Rightarrow> (- RT_ENOSYS, d)
      | Some irqmap \<Rightarrow>
          (let (level, d1) = rt_hw_interrupt_disable d;
               m = pin_irq_enable_mask d1 AND NOT (pinbit irqmap);
               d2 = d1\<lparr>pin_irq_enable_mask := m\<rparr>;
               off = on_chip (NVIC_DisableIRQ hw (irqno irqmap)) d2;
               d3 = (if 0x20 \<le> pinbit irqmap \<and> pinbit irqmap \<le> 0x200
                     then (if m AND pins_9_5 = 0 then off else d2)
                     else if 0x400 \<le> pinbit irqmap \<and> pinbit irqmap \<le> 0x8000
                     then (if m AND pins_15_10 = 0 then off else d2)
                     else off)
           in (RT_EOK, rt_hw_interrupt_enable level d3)))"

definition n32_pin_irq_enable :: "periph_hw \<Rightarrow> int \<Rightarrow> nat \<Rightarrow> pin_drv \<Rightarrow> rt_err_t \<times> pin_drv" where
  "n32_pin_irq_enable hw pin enabled d =
     (case get_pin pin of
        None \<Rightarrow> (- RT_ENOSYS, d)
      | Some index \<Rightarrow>
          (if enabled = 1 then n32_pin_irq_on hw index d
           else if enabled = 0 then n32_pin_irq_off hw index d
           else (- RT_ENOSYS, d)))"

section \<open>The interrupt handlers\<close>

text \<open>A handler runs with the kernel and the driver as its world.\<close>

record pin_world =
  kern :: kernel
  pdrv :: pin_drv

type_synonym handler = "nat \<Rightarrow> nat \<Rightarrow> pin_world \<Rightarrow> pin_world"

definition pin_irq_hdr :: "handler \<Rightarrow> nat \<Rightarrow> pin_world \<Rightarrow> pin_world" where
  "pin_irq_hdr H irq w =
     (let e = pin_irq_hdr_tab (pdrv w) ! irq in if ih_hdr e \<noteq> 0 then H (ih_hdr e) (ih_args e) w else w)"

definition N32_GPIO_EXTI_IRQHandler :: "periph_hw \<Rightarrow> handler \<Rightarrow> nat \<Rightarrow> pin_world \<Rightarrow> pin_world" where
  "N32_GPIO_EXTI_IRQHandler hw H exti_line w =
     (if EXTI_GetITStatus (push_bit exti_line 1) (chip (pdrv w)) then
        (let w1 = pin_irq_hdr H exti_line w
         in w1\<lparr>pdrv := on_chip (EXTI_ClrITPendBit hw (push_bit exti_line 1)) (pdrv w1)\<rparr>)
      else w)"

definition irq_enter :: "pin_world \<Rightarrow> pin_world" where
  "irq_enter w = w\<lparr>kern := rt_interrupt_enter (kern w)\<rparr>"

definition irq_leave :: "pin_world \<Rightarrow> pin_world" where
  "irq_leave w = w\<lparr>kern := rt_interrupt_leave (kern w)\<rparr>"

definition EXTI0_IRQHandler :: "periph_hw \<Rightarrow> handler \<Rightarrow> pin_world \<Rightarrow> pin_world" where
  "EXTI0_IRQHandler hw H w = irq_leave (N32_GPIO_EXTI_IRQHandler hw H 0 (irq_enter w))"

definition EXTI1_IRQHandler :: "periph_hw \<Rightarrow> handler \<Rightarrow> pin_world \<Rightarrow> pin_world" where
  "EXTI1_IRQHandler hw H w = irq_leave (N32_GPIO_EXTI_IRQHandler hw H 1 (irq_enter w))"

definition EXTI2_IRQHandler :: "periph_hw \<Rightarrow> handler \<Rightarrow> pin_world \<Rightarrow> pin_world" where
  "EXTI2_IRQHandler hw H w = irq_leave (N32_GPIO_EXTI_IRQHandler hw H 2 (irq_enter w))"

definition EXTI3_IRQHandler :: "periph_hw \<Rightarrow> handler \<Rightarrow> pin_world \<Rightarrow> pin_world" where
  "EXTI3_IRQHandler hw H w = irq_leave (N32_GPIO_EXTI_IRQHandler hw H 3 (irq_enter w))"

definition EXTI4_IRQHandler :: "periph_hw \<Rightarrow> handler \<Rightarrow> pin_world \<Rightarrow> pin_world" where
  "EXTI4_IRQHandler hw H w = irq_leave (N32_GPIO_EXTI_IRQHandler hw H 4 (irq_enter w))"

definition EXTI9_5_IRQHandler :: "periph_hw \<Rightarrow> handler \<Rightarrow> pin_world \<Rightarrow> pin_world" where
  "EXTI9_5_IRQHandler hw H w =
     (let w5 = N32_GPIO_EXTI_IRQHandler hw H 5 (irq_enter w);
          w6 = N32_GPIO_EXTI_IRQHandler hw H 6 w5;
          w7 = N32_GPIO_EXTI_IRQHandler hw H 7 w6;
          w8 = N32_GPIO_EXTI_IRQHandler hw H 8 w7
      in irq_leave (N32_GPIO_EXTI_IRQHandler hw H 9 w8))"

definition EXTI15_10_IRQHandler :: "periph_hw \<Rightarrow> handler \<Rightarrow> pin_world \<Rightarrow> pin_world" where
  "EXTI15_10_IRQHandler hw H w =
     (let w10 = N32_GPIO_EXTI_IRQHandler hw H 10 (irq_enter w);
          w11 = N32_GPIO_EXTI_IRQHandler hw H 11 w10;
          w12 = N32_GPIO_EXTI_IRQHandler hw H 12 w11;
          w13 = N32_GPIO_EXTI_IRQHandler hw H 13 w12;
          w14 = N32_GPIO_EXTI_IRQHandler hw H 14 w13
      in irq_leave (N32_GPIO_EXTI_IRQHandler hw H 15 w14))"

text \<open>The vector table: the handler of an interrupt number.\<close>

definition exti_vector :: "periph_hw \<Rightarrow> handler \<Rightarrow> int \<Rightarrow> pin_world \<Rightarrow> pin_world" where
  "exti_vector hw H n =
     (if n = EXTI0_IRQn then EXTI0_IRQHandler hw H else if n = EXTI1_IRQn then EXTI1_IRQHandler hw H
      else if n = EXTI2_IRQn then EXTI2_IRQHandler hw H else if n = EXTI3_IRQn then EXTI3_IRQHandler hw H
      else if n = EXTI4_IRQn then EXTI4_IRQHandler hw H else if n = EXTI9_5_IRQn then EXTI9_5_IRQHandler hw H
      else if n = EXTI15_10_IRQn then EXTI15_10_IRQHandler hw H else id)"

section \<open>The pin device\<close>

text \<open>The operations a driver registers; an entry that is not set is \<open>None\<close>.\<close>

record rt_pin_ops =
  pin_mode_op :: "int \<Rightarrow> nat \<Rightarrow> pin_drv \<Rightarrow> pin_drv"
  pin_write_op :: "int \<Rightarrow> nat \<Rightarrow> pin_drv \<Rightarrow> pin_drv"
  pin_read_op :: "int \<Rightarrow> pin_drv \<Rightarrow> int"
  pin_attach_irq_op :: "(int \<Rightarrow> nat \<Rightarrow> nat \<Rightarrow> nat \<Rightarrow> pin_drv \<Rightarrow> rt_err_t \<times> pin_drv) option"
  pin_detach_irq_op :: "(int \<Rightarrow> pin_drv \<Rightarrow> rt_err_t \<times> pin_drv) option"
  pin_irq_enable_op :: "(int \<Rightarrow> nat \<Rightarrow> pin_drv \<Rightarrow> rt_err_t \<times> pin_drv) option"
  pin_debounce_op :: "(int \<Rightarrow> nat \<Rightarrow> pin_drv \<Rightarrow> rt_err_t \<times> pin_drv) option"

definition n32_pin_ops :: "periph_hw \<Rightarrow> rt_pin_ops" where
  "n32_pin_ops hw = \<lparr>pin_mode_op = n32_pin_mode hw, pin_write_op = n32_pin_write hw, pin_read_op = n32_pin_read,
     pin_attach_irq_op = Some n32_pin_attach_irq, pin_detach_irq_op = Some n32_pin_dettach_irq,
     pin_irq_enable_op = Some (n32_pin_irq_enable hw), pin_debounce_op = None\<rparr>"

definition rt_pin_attach_irq :: "rt_pin_ops \<Rightarrow> int \<Rightarrow> nat \<Rightarrow> nat \<Rightarrow> nat \<Rightarrow> pin_drv \<Rightarrow> rt_err_t \<times> pin_drv" where
  "rt_pin_attach_irq ops pin m hdr args d =
     (case pin_attach_irq_op ops of Some f \<Rightarrow> f pin m hdr args d | None \<Rightarrow> (- RT_ENOSYS, d))"

definition rt_pin_detach_irq :: "rt_pin_ops \<Rightarrow> int \<Rightarrow> pin_drv \<Rightarrow> rt_err_t \<times> pin_drv" where
  "rt_pin_detach_irq ops pin d = (case pin_detach_irq_op ops of Some f \<Rightarrow> f pin d | None \<Rightarrow> (- RT_ENOSYS, d))"

definition rt_pin_irq_enable :: "rt_pin_ops \<Rightarrow> int \<Rightarrow> nat \<Rightarrow> pin_drv \<Rightarrow> rt_err_t \<times> pin_drv" where
  "rt_pin_irq_enable ops pin enabled d =
     (case pin_irq_enable_op ops of Some f \<Rightarrow> f pin enabled d | None \<Rightarrow> (- RT_ENOSYS, d))"

definition rt_pin_debounce :: "rt_pin_ops \<Rightarrow> int \<Rightarrow> nat \<Rightarrow> pin_drv \<Rightarrow> rt_err_t \<times> pin_drv" where
  "rt_pin_debounce ops pin debounce d =
     (case pin_debounce_op ops of Some f \<Rightarrow> f pin debounce d | None \<Rightarrow> (- RT_ENOSYS, d))"

definition rt_pin_mode :: "rt_pin_ops \<Rightarrow> int \<Rightarrow> nat \<Rightarrow> pin_drv \<Rightarrow> pin_drv" where
  "rt_pin_mode ops pin m d = pin_mode_op ops pin m d"

definition rt_pin_write :: "rt_pin_ops \<Rightarrow> int \<Rightarrow> int \<Rightarrow> pin_drv \<Rightarrow> pin_drv" where
  "rt_pin_write ops pin val d = pin_write_op ops pin (nat (val mod 256)) d"

definition rt_pin_read :: "rt_pin_ops \<Rightarrow> int \<Rightarrow> pin_drv \<Rightarrow> int" where
  "rt_pin_read ops pin d = pin_read_op ops pin d"

section \<open>Facts about the tables\<close>

lemma length_pins [simp]: "length pins = 64"
  by (simp add: pins_def port_pins_def)

definition port_no :: "nat \<Rightarrow> gpio_port" where
  "port_no k = (if k = 0 then GPIOA else if k = 1 then GPIOB else if k = 2 then GPIOC else GPIOD)"

lemma pins_nth:
  assumes "n < 64"
  shows "pins ! n = \<lparr>pi_index = int n, pi_gpio = port_no (n div 16), pi_pin = push_bit (n mod 16) 1\<rparr>"
proof -
  consider "n < 16" | "16 \<le> n" "n < 32" | "32 \<le> n" "n < 48" | "48 \<le> n" using assms by linarith
  then show ?thesis
    using assms by cases (auto simp: pins_def port_pins_def nth_append port_no_def div_nat_eqI mod_if le_mod_geq)
qed

lemma get_pin_eq:
  "get_pin pin =
     (let n = nat (pin mod 256) in
      if n < 64 then Some \<lparr>pi_index = int n, pi_gpio = port_no (n div 16), pi_pin = push_bit (n mod 16) 1\<rparr> else None)"
  by (simp add: get_pin_def Let_def pins_nth)

lemma push_bit_1_inj: "i < 32 \<Longrightarrow> push_bit i (1 :: u32w) = push_bit j 1 \<longleftrightarrow> i = j"
proof -
  assume i: "i < 32"
  have "i = j" if "push_bit i (1 :: u32w) = push_bit j 1"
    using arg_cong[OF that, of "\<lambda>w. bit w i"] i by (simp add: bit_exp_iff)
  then show ?thesis by auto
qed

lemma bit2bitno_loop_found: "i \<le> k \<Longrightarrow> k < i + n \<Longrightarrow> k < 32 \<Longrightarrow> bit2bitno_loop n i (push_bit k 1) = int k"
proof (induction n arbitrary: i)
  case (Suc n)
  then show ?case using push_bit_1_inj[of k i] by (cases "i = k") (auto simp: eq_commute[of "push_bit i 1"] simp del: push_bit_of_1)
qed simp

lemma bit2bitno_pin [simp]: "k < 32 \<Longrightarrow> bit2bitno (push_bit k 1) = int k"
  by (simp add: bit2bitno_def bit2bitno_loop_found del: push_bit_of_1)

definition line_irq :: "nat \<Rightarrow> nat" where
  "line_irq i = (if i < 5 then 6 + i else if i < 10 then 23 else 40)"

text \<open>Lines in groups of four.\<close>

lemma line_cases:
  assumes "i < (16 :: nat)"
  obtains "i = 3" | "i = 2" | "i = 1" | "i = 0" | "i = 7" | "i = 6" | "i = 5" | "i = 4" | "i = 11" | "i = 10" | "i = 9"
    | "i = 8" | "i = 15" | "i = 14" | "i = 13" | "i = 12"
proof -
  have "i < 4 \<Longrightarrow> i \<in> {3, 2, 1, 0}" "4 \<le> i \<Longrightarrow> i < 8 \<Longrightarrow> i \<in> {7, 6, 5, 4}" "8 \<le> i \<Longrightarrow> i < 12 \<Longrightarrow> i \<in> {11, 10, 9, 8}"
    "12 \<le> i \<Longrightarrow> i \<in> {15, 14, 13, 12}"
    using assms by auto
  then show thesis using that by (metis insert_iff empty_iff not_less)
qed

lemma length_pin_irq_maps [simp]: "length pin_irq_maps = 16"
  by (simp add: pin_irq_maps_def)

lemma pin_irq_maps_nth:
  assumes "i < 16"
  shows "pin_irq_maps ! i = \<lparr>pinbit = push_bit i 1, irqno = int (line_irq i)\<rparr>"
  using assms by (cases rule: line_cases) (simp_all add: pin_irq_maps_def line_irq_def irqn_defs)

lemma pinbit_group:
  assumes "i < 16"
  shows "(0x20 :: u32w) \<le> push_bit i 1 \<and> push_bit i 1 \<le> (0x200 :: u32w) \<longleftrightarrow> 5 \<le> i \<and> i < 10"
    "(0x400 :: u32w) \<le> push_bit i 1 \<and> push_bit i 1 \<le> (0x8000 :: u32w) \<longleftrightarrow> 10 \<le> i"
  using assms by (cases rule: line_cases; simp add: word_le_nat_alt)+

lemma and_range_zero:
  "m AND pins_9_5 = 0 \<longleftrightarrow> (\<forall>i. 5 \<le> i \<and> i < 10 \<longrightarrow> \<not> bit m i)"
  "m AND pins_15_10 = 0 \<longleftrightarrow> (\<forall>i. 10 \<le> i \<and> i < 16 \<longrightarrow> \<not> bit m i)"
proof -
  have r: "m AND push_bit a (mask n) = 0 \<longleftrightarrow> (\<forall>i. a \<le> i \<and> i < a + n \<longrightarrow> \<not> bit m i)" for a n
    using bit_imp_le_length[of m]
    by (auto simp: bit_eq_iff bit_and_iff bit_push_bit_iff bit_mask_iff)
      (metis (no_types, lifting) add_less_cancel_left diff_le_self le_add_diff_inverse le_less_trans)
  have "pins_9_5 = push_bit 5 (mask 5)" "pins_15_10 = push_bit 10 (mask 6)"
    by (simp_all add: pins_9_5_def pins_15_10_def mask_eq_exp_minus_1)
  then show "m AND pins_9_5 = 0 \<longleftrightarrow> (\<forall>i. 5 \<le> i \<and> i < 10 \<longrightarrow> \<not> bit m i)"
    "m AND pins_15_10 = 0 \<longleftrightarrow> (\<forall>i. 10 \<le> i \<and> i < 16 \<longrightarrow> \<not> bit m i)"
    using r[of 5 5] r[of 10 6] by simp_all
qed

section \<open>The operations on a pin of the chip\<close>

definition pin_num :: "int \<Rightarrow> nat" where "pin_num pin = nat (pin mod 256)"
definition pin_ok :: "int \<Rightarrow> bool" where "pin_ok pin \<longleftrightarrow> pin_num pin < 64"
definition pin_line :: "int \<Rightarrow> nat" where "pin_line pin = pin_num pin mod 16"
definition pin_port :: "int \<Rightarrow> gpio_port" where "pin_port pin = port_no (pin_num pin div 16)"

lemma pin_line_less [simp]: "pin_line pin < 16" "\<not> 16 \<le> pin_line pin"
  by (simp_all add: pin_line_def not_le)

lemma get_pin_ok:
  "get_pin pin = (if pin_ok pin then Some \<lparr>pi_index = int (pin_num pin), pi_gpio = pin_port pin, pi_pin = push_bit (pin_line pin) 1\<rparr>
    else None)"
  by (simp add: get_pin_eq pin_ok_def pin_num_def pin_line_def pin_port_def Let_def)

lemma pin_line_no [simp]: "bit2bitno (push_bit (pin_line pin) 1) = int (pin_line pin)"
  by (rule bit2bitno_pin) (simp add: less_le_trans[OF pin_line_less(1)])

declare push_bit_of_1 [simp del]

lemma n32_pin_attach_irq_eq:
  "n32_pin_attach_irq pin m hdr args d =
     (let e = pin_irq_hdr_tab d ! pin_line pin;
          new = \<lparr>ih_pin = pin, ih_mode = m, ih_hdr = hdr, ih_args = args\<rparr>
      in if \<not> pin_ok pin then (- RT_ENOSYS, d)
         else if e = new then (RT_EOK, d)
         else if ih_pin e \<noteq> -1 then (- RT_EBUSY, d)
         else (RT_EOK, set_hdr (pin_line pin) new d))"
  by (simp add: n32_pin_attach_irq_def get_pin_ok Let_def rt_hw_interrupt_disable_def rt_hw_interrupt_enable_def set_hdr_def not_le)

lemma n32_pin_dettach_irq_eq:
  "n32_pin_dettach_irq pin d =
     (if \<not> pin_ok pin then (- RT_ENOSYS, d)
      else if ih_pin (pin_irq_hdr_tab d ! pin_line pin) = -1 then (RT_EOK, d)
      else (RT_EOK, set_hdr (pin_line pin) no_hdr d))"
  by (simp add: n32_pin_dettach_irq_def get_pin_ok Let_def rt_hw_interrupt_disable_def rt_hw_interrupt_enable_def set_hdr_def not_le)

lemma n32_pin_irq_enable_on:
  "n32_pin_irq_enable hw pin 1 d =
     (let e = pin_irq_hdr_tab d ! pin_line pin in
      if \<not> pin_ok pin \<or> ih_pin e = -1 then (- RT_ENOSYS, d)
      else case pin_trigger (ih_mode e) of
        None \<Rightarrow> (- RT_ERROR, d\<lparr>primask := True\<rparr>)
      | Some trigger \<Rightarrow>
          (RT_EOK, (on_chip (enable_line hw \<lparr>pi_index = int (pin_num pin), pi_gpio = pin_port pin, pi_pin = push_bit (pin_line pin) 1\<rparr>
                       (pin_line pin) trigger (int (line_irq (pin_line pin)))) d)
                   \<lparr>pin_irq_enable_mask := pin_irq_enable_mask d OR push_bit (pin_line pin) 1\<rparr>))"
  by (simp add: n32_pin_irq_enable_def n32_pin_irq_on_def get_pin_ok Let_def rt_hw_interrupt_disable_def
      rt_hw_interrupt_enable_def not_le pin_irq_maps_nth on_chip_def split: option.split)

definition group_idle :: "u32w \<Rightarrow> nat \<Rightarrow> bool" where
  "group_idle m n \<longleftrightarrow> (\<forall>i < 16. line_irq i = n \<longrightarrow> \<not> bit m i)"

lemma n32_pin_irq_enable_off:
  "n32_pin_irq_enable hw pin 0 d =
     (if \<not> pin_ok pin then (- RT_ENOSYS, d)
      else
        (let m = pin_irq_enable_mask d AND NOT (push_bit (pin_line pin) 1);
             n = line_irq (pin_line pin);
             d1 = d\<lparr>pin_irq_enable_mask := m\<rparr>
         in (RT_EOK, if group_idle m n then on_chip (NVIC_DisableIRQ hw (int n)) d1 else d1)))"
proof -
  let ?i = "pin_line pin" and ?m = "pin_irq_enable_mask d AND NOT (push_bit (pin_line pin) 1)"
  have i: "?i < 16" by simp
  have g: "group_idle ?m (line_irq ?i) \<longleftrightarrow>
      (if 5 \<le> ?i \<and> ?i < 10 then ?m AND pins_9_5 = 0 else if 10 \<le> ?i then ?m AND pins_15_10 = 0 else True)"
    using i by (auto simp: group_idle_def line_irq_def and_range_zero bit_and_iff bit_not_iff bit_push_bit_iff split: if_splits)
  show ?thesis
    using i by (simp add: n32_pin_irq_enable_def n32_pin_irq_off_def get_pin_ok get_pin_irq_map_def Let_def rt_hw_interrupt_disable_def
        rt_hw_interrupt_enable_def not_le pin_irq_maps_nth on_chip_def pinbit_group g)
qed

section \<open>The state of the driver\<close>

text \<open>The chip has interrupts up to number 63; an interrupt of the controller for lines is enabled if, and only if, one of
  its lines is.\<close>

definition chip_ok :: "soc \<Rightarrow> bool" where
  "chip_ok s \<longleftrightarrow> length (nvic_enabled s) = 8 \<and> length (EXTI_CFG s) = 4"

definition hdr_ok :: "nat \<Rightarrow> rt_pin_irq_hdr \<Rightarrow> bool" where
  "hdr_ok i e \<longleftrightarrow> e = no_hdr \<or> ih_pin e \<noteq> -1 \<and> pin_ok (ih_pin e) \<and> pin_line (ih_pin e) = i"

definition pin_inv :: "pin_drv \<Rightarrow> bool" where
  "pin_inv d \<longleftrightarrow> chip_ok (chip d) \<and> length (pin_irq_hdr_tab d) = 16 \<and>
     (\<forall>i < 16. hdr_ok i (pin_irq_hdr_tab d ! i)) \<and>
     (\<forall>i < 16. irq_enabled (chip d) (line_irq i) \<longleftrightarrow> \<not> group_idle (pin_irq_enable_mask d) (line_irq i)) \<and>
     (\<forall>i < 16. bit (pin_irq_enable_mask d) i \<longrightarrow> bit (IMASK (exti (chip d))) i)"

datatype pin_op =
    Pin_Mode int nat
  | Pin_Write int int
  | Pin_Attach int nat nat nat
  | Pin_Detach int
  | Pin_Irq int nat

fun pin_exec :: "rt_pin_ops \<Rightarrow> pin_op \<Rightarrow> pin_drv \<Rightarrow> pin_drv" where
  "pin_exec ops (Pin_Mode pin m) d = rt_pin_mode ops pin m d"
| "pin_exec ops (Pin_Write pin v) d = rt_pin_write ops pin v d"
| "pin_exec ops (Pin_Attach pin m h a) d = snd (rt_pin_attach_irq ops pin m h a d)"
| "pin_exec ops (Pin_Detach pin) d = snd (rt_pin_detach_irq ops pin d)"
| "pin_exec ops (Pin_Irq pin on) d = snd (rt_pin_irq_enable ops pin on d)"

definition pin_run :: "rt_pin_ops \<Rightarrow> pin_op list \<Rightarrow> pin_drv \<Rightarrow> pin_drv" where
  "pin_run ops = fold (pin_exec ops)"

lemma on_chip_simps [simp]:
  "chip (on_chip f d) = f (chip d)" "pin_irq_hdr_tab (on_chip f d) = pin_irq_hdr_tab d"
  "pin_irq_enable_mask (on_chip f d) = pin_irq_enable_mask d" "primask (on_chip f d) = primask d"
  by (simp_all add: on_chip_def)

lemma line_irq_bound: "line_irq i < 64"
  by (simp add: line_irq_def)

lemma nvic_same_bit: "m div 32 = n div 32 \<Longrightarrow> m mod 32 = n mod 32 \<Longrightarrow> m = (n :: nat)"
  by (metis div_mult_mod_eq)

lemma irq_enabled_NVIC:
  assumes "hw_documented hw" and "chip_ok s" and "n < 64"
  shows "irq_enabled (NVIC_EnableIRQ hw (int n) s) m \<longleftrightarrow> m = n \<or> irq_enabled s m"
    "irq_enabled (NVIC_DisableIRQ hw (int n) s) m \<longleftrightarrow> m \<noteq> n \<and> irq_enabled s m"
  using assms nvic_same_bit[of m n]
  by (auto simp: irq_enabled_def NVIC_EnableIRQ_def NVIC_DisableIRQ_def Let_def chip_ok_def nth_list_update hw_documentedD bit_or_iff
      bit_and_iff bit_not_iff bit_push_bit_iff bit_1_iff less_mult_imp_div_less)

lemma chip_frame [simp]:
  "chip_ok (NVIC_EnableIRQ hw n s) = chip_ok s" "exti (NVIC_EnableIRQ hw n s) = exti s" "EXTI_CFG (NVIC_EnableIRQ hw n s) = EXTI_CFG s"
  "chip_ok (NVIC_DisableIRQ hw n s) = chip_ok s" "exti (NVIC_DisableIRQ hw n s) = exti s" "gpio (NVIC_EnableIRQ hw n s) = gpio s"
  "nvic_enabled (NVIC_SetPriority n v s) = nvic_enabled s" "exti (NVIC_SetPriority n v s) = exti s"
  "EXTI_CFG (NVIC_SetPriority n v s) = EXTI_CFG s" "EXTI_CFG (NVIC_DisableIRQ hw n s) = EXTI_CFG s"
  "nvic_enabled (RCC_EnableAPB2PeriphClk c b s) = nvic_enabled s" "exti (RCC_EnableAPB2PeriphClk c b s) = exti s"
  "EXTI_CFG (RCC_EnableAPB2PeriphClk c b s) = EXTI_CFG s" "gpio (RCC_EnableAPB2PeriphClk c b s) = gpio s"
  "nvic_enabled (GPIO_ConfigEXTILine p l s) = nvic_enabled s" "exti (GPIO_ConfigEXTILine p l s) = exti s"
  "length (EXTI_CFG (GPIO_ConfigEXTILine p l s)) = length (EXTI_CFG s)"
  by (simp_all add: chip_ok_def NVIC_EnableIRQ_def NVIC_DisableIRQ_def NVIC_SetPriority_def RCC_EnableAPB2PeriphClk_def
      GPIO_ConfigEXTILine_def Let_def)

definition armed :: "u32w \<Rightarrow> EXTI_TriggerType \<Rightarrow> exti_regs \<Rightarrow> exti_regs" where
  "armed l t e =
     e\<lparr>IMASK := IMASK e OR l, EMASK := EMASK e AND NOT l,
       RT_CFG := (if t = EXTI_Trigger_Falling then RT_CFG e AND NOT l else RT_CFG e OR l),
       FT_CFG := (if t = EXTI_Trigger_Rising then FT_CFG e AND NOT l else FT_CFG e OR l), PEND := PEND e AND NOT l\<rparr>"

lemma and_not_or: "(r AND NOT l) OR l = r OR (l :: u32w)"
  by (rule bit_eqI) (auto simp: bit_or_iff bit_and_iff bit_not_iff dest: bit_imp_le_length)

lemma enable_line_exti:
  assumes "hw_documented hw"
  shows "exti (enable_line hw x i t n s) = armed (pi_pin x) t (exti s)"
  by (cases t) (simp_all add: enable_line_def Let_def EXTI_ClrITPendBit_def EXTI_InitPeripheral_def exti_mode_set_def
      exti_trigger_set_def armed_def hw_documentedD[OF assms] and_not_or)

lemma enable_line_nvic:
  assumes "hw_documented hw" and "chip_ok s" and "n < 64"
  shows "irq_enabled (enable_line hw x i t (int n) s) m \<longleftrightarrow> m = n \<or> irq_enabled s m"
    "chip_ok (enable_line hw x i t (int n) s)"
proof -
  let ?s = "NVIC_SetPriority (int n) 5 (EXTI_ClrITPendBit hw (pi_pin x) (EXTI_InitPeripheral
      \<lparr>EXTI_Line = pi_pin x, EXTI_Mode = EXTI_Mode_Interrupt, EXTI_Trigger = t, EXTI_LineCmd = True\<rparr>
      (GPIO_ConfigEXTILine (port2portsource (pi_gpio x)) i (RCC_EnableAPB2PeriphClk RCC_APB2_PERIPH_AFIO True s))))"
  have e: "enable_line hw x i t (int n) s = NVIC_EnableIRQ hw (int n) ?s" by (simp add: enable_line_def Let_def)
  have "nvic_enabled ?s = nvic_enabled s" "length (EXTI_CFG ?s) = length (EXTI_CFG s)"
    by (simp_all add: EXTI_ClrITPendBit_def EXTI_InitPeripheral_def)
  then have "chip_ok ?s" "\<And>m. irq_enabled ?s m = irq_enabled s m"
    using assms(2) by (simp_all add: chip_ok_def irq_enabled_def)
  then show "irq_enabled (enable_line hw x i t (int n) s) m \<longleftrightarrow> m = n \<or> irq_enabled s m"
    "chip_ok (enable_line hw x i t (int n) s)"
    unfolding e using irq_enabled_NVIC[OF assms(1) _ assms(3)] by simp_all
qed

lemma group_idle_or: "i < 16 \<Longrightarrow> group_idle (m OR push_bit i 1) n \<longleftrightarrow> n \<noteq> line_irq i \<and> group_idle m n"
  by (auto simp: group_idle_def bit_or_iff bit_push_bit_iff bit_1_iff)

lemma group_idle_and: "n \<noteq> line_irq i \<Longrightarrow> group_idle (m AND NOT (push_bit i 1)) n \<longleftrightarrow> group_idle m n"
  by (auto simp: group_idle_def bit_and_iff bit_not_iff bit_push_bit_iff bit_1_iff dest: bit_imp_le_length)

lemma pin_invI:
  assumes "chip_ok (chip d)" and "length (pin_irq_hdr_tab d) = 16" and "\<And>i. i < 16 \<Longrightarrow> hdr_ok i (pin_irq_hdr_tab d ! i)"
    and "\<And>i. i < 16 \<Longrightarrow> irq_enabled (chip d) (line_irq i) \<longleftrightarrow> \<not> group_idle (pin_irq_enable_mask d) (line_irq i)"
    and "\<And>i. i < 16 \<Longrightarrow> bit (pin_irq_enable_mask d) i \<Longrightarrow> bit (IMASK (exti (chip d))) i"
  shows "pin_inv d"
  using assms by (simp add: pin_inv_def)

lemma pin_invD:
  assumes "pin_inv d"
  shows "chip_ok (chip d)" "length (pin_irq_hdr_tab d) = 16" "i < 16 \<Longrightarrow> hdr_ok i (pin_irq_hdr_tab d ! i)"
    "i < 16 \<Longrightarrow> irq_enabled (chip d) (line_irq i) \<longleftrightarrow> \<not> group_idle (pin_irq_enable_mask d) (line_irq i)"
    "i < 16 \<Longrightarrow> bit (pin_irq_enable_mask d) i \<Longrightarrow> bit (IMASK (exti (chip d))) i"
  using assms by (simp_all add: pin_inv_def)

lemma pin_inv_cong:
  assumes "pin_inv d" and "nvic_enabled (chip d') = nvic_enabled (chip d)" and "EXTI_CFG (chip d') = EXTI_CFG (chip d)"
    and "exti (chip d') = exti (chip d)" and "pin_irq_hdr_tab d' = pin_irq_hdr_tab d"
    and "pin_irq_enable_mask d' = pin_irq_enable_mask d"
  shows "pin_inv d'"
  using assms by (simp add: pin_inv_def chip_ok_def irq_enabled_def)

lemma set_hdr_inv:
  assumes "pin_inv d" and "hdr_ok i e"
  shows "pin_inv (set_hdr i e d)"
  using assms by (cases "i < 16") (auto simp: pin_inv_def set_hdr_def nth_list_update)

lemma not_pin_ok_minus_1: "\<not> pin_ok (-1)"
  by (simp add: pin_ok_def pin_num_def)

lemma n32_pin_mode_init_ok: "init_ok (n32_pin_mode_init b m)" "GPIO_Mode (n32_pin_mode_init b m) AND EXTI_MODE = 0"
  by (simp_all add: init_ok_def n32_pin_mode_init_def GPIO_InitStruct_def IS_GPIO_MODE_def gpio_consts EXTI_MODE_def Let_def)

lemma n32_pin_mode_inv: "pin_inv d \<Longrightarrow> pin_inv (n32_pin_mode hw pin m d)"
  by (erule pin_inv_cong)
    (simp_all add: n32_pin_mode_def GPIO_InitPeripheral_def gpio_init_loop_frame n32_pin_mode_init_ok n32_gpio_clock_enable_def
      split: option.split)

lemma n32_pin_write_inv: "pin_inv d \<Longrightarrow> pin_inv (n32_pin_write hw pin v d)"
  by (erule pin_inv_cong) (simp_all add: n32_pin_write_def GPIO_WriteBit_def split: option.split)

lemma n32_pin_attach_irq_inv: "pin_inv d \<Longrightarrow> pin_inv (snd (n32_pin_attach_irq pin m h a d))"
  using not_pin_ok_minus_1 by (auto simp: n32_pin_attach_irq_eq Let_def hdr_ok_def intro!: set_hdr_inv)

lemma n32_pin_dettach_irq_inv: "pin_inv d \<Longrightarrow> pin_inv (snd (n32_pin_dettach_irq pin d))"
  by (auto simp: n32_pin_dettach_irq_eq hdr_ok_def intro!: set_hdr_inv)

lemma pin_inv_primask: "pin_inv d \<Longrightarrow> pin_inv (d\<lparr>primask := b\<rparr>)"
  by (erule pin_inv_cong) simp_all

lemma n32_pin_irq_on_inv:
  assumes hw: "hw_documented hw" and inv: "pin_inv d"
  shows "pin_inv (snd (n32_pin_irq_enable hw pin 1 d))"
proof -
  let ?l = "pin_line pin" and ?n = "line_irq (pin_line pin)"
  let ?x = "\<lparr>pi_index = int (pin_num pin), pi_gpio = pin_port pin, pi_pin = push_bit ?l 1\<rparr>"
  let ?d = "\<lambda>t. on_chip (enable_line hw ?x ?l t (int ?n)) d\<lparr>pin_irq_enable_mask := pin_irq_enable_mask d OR push_bit ?l 1\<rparr>"
  have "pin_inv (?d t)" for t
  proof (rule pin_invI)
    note nvic = enable_line_nvic[OF hw pin_invD(1)[OF inv] line_irq_bound]
    show "chip_ok (chip (?d t))" using nvic by simp
    show "length (pin_irq_hdr_tab (?d t)) = 16" using inv by (simp add: pin_inv_def)
    fix i :: nat assume i: "i < 16"
    show "hdr_ok i (pin_irq_hdr_tab (?d t) ! i)" using pin_invD(3)[OF inv i] by simp
    show "irq_enabled (chip (?d t)) (line_irq i) \<longleftrightarrow> \<not> group_idle (pin_irq_enable_mask (?d t)) (line_irq i)"
      using nvic pin_invD(4)[OF inv i] by (simp add: group_idle_or)
    show "bit (IMASK (exti (chip (?d t)))) i" if "bit (pin_irq_enable_mask (?d t)) i"
      using that pin_invD(5)[OF inv i] by (auto simp: enable_line_exti[OF hw] armed_def bit_or_iff)
  qed
  then show ?thesis
    unfolding n32_pin_irq_enable_on using inv pin_inv_primask[OF inv] by (simp add: Let_def split: option.split)
qed

lemma n32_pin_irq_off_inv:
  assumes hw: "hw_documented hw" and inv: "pin_inv d"
  shows "pin_inv (snd (n32_pin_irq_enable hw pin 0 d))"
proof (cases "pin_ok pin")
  case True
  let ?l = "pin_line pin" and ?n = "line_irq (pin_line pin)"
  let ?m = "pin_irq_enable_mask d AND NOT (push_bit ?l 1)"
  have "pin_inv (if group_idle ?m ?n then on_chip (NVIC_DisableIRQ hw (int ?n)) (d\<lparr>pin_irq_enable_mask := ?m\<rparr>)
                 else d\<lparr>pin_irq_enable_mask := ?m\<rparr>)" (is "pin_inv ?d")
  proof (rule pin_invI)
    note nvic = irq_enabled_NVIC(2)[OF hw pin_invD(1)[OF inv] line_irq_bound]
    show "chip_ok (chip ?d)" "length (pin_irq_hdr_tab ?d) = 16" using inv by (simp_all add: pin_inv_def)
    fix i :: nat assume i: "i < 16"
    show "hdr_ok i (pin_irq_hdr_tab ?d ! i)" using pin_invD(3)[OF inv i] by simp
    have "group_idle ?m (line_irq i) \<or> irq_enabled (chip d) (line_irq i)"
      using pin_invD(4)[OF inv i] by (auto simp: group_idle_def bit_and_iff)
    then show "irq_enabled (chip ?d) (line_irq i) \<longleftrightarrow> \<not> group_idle (pin_irq_enable_mask ?d) (line_irq i)"
      using nvic pin_invD(4)[OF inv i] group_idle_and[of "line_irq i" ?l] by (cases "line_irq i = ?n") auto
    show "bit (IMASK (exti (chip ?d))) i" if "bit (pin_irq_enable_mask ?d) i"
      using that pin_invD(5)[OF inv i] by (auto simp: bit_and_iff split: if_splits)
  qed
  then show ?thesis using True by (simp add: n32_pin_irq_enable_off Let_def)
qed (use inv in \<open>simp add: n32_pin_irq_enable_off\<close>)

lemma n32_pin_irq_enable_inv:
  assumes "hw_documented hw" and "pin_inv d"
  shows "pin_inv (snd (n32_pin_irq_enable hw pin on d))"
proof -
  have "n32_pin_irq_enable hw pin on d = (- RT_ENOSYS, d)" if "on \<noteq> 0" "on \<noteq> 1"
    using that by (simp add: n32_pin_irq_enable_def split: option.split)
  then show ?thesis using n32_pin_irq_on_inv[OF assms, of pin] n32_pin_irq_off_inv[OF assms, of pin] assms(2)
    by (cases "on = 0"; cases "on = 1") auto
qed

section \<open>Properties\<close>

text \<open>After a reset no line is enabled and no handler is attached.\<close>

definition pin_reset :: "pin_drv \<Rightarrow> bool" where
  "pin_reset d \<longleftrightarrow> chip_ok (chip d) \<and> (\<forall>i < 16. \<not> irq_enabled (chip d) (line_irq i)) \<and> pin_irq_hdr_tab d = pin_tab_init \<and> pin_irq_enable_mask d = 0"

lemma pin_exec_inv:
  assumes "hw_documented hw" and "pin_inv d"
  shows "pin_inv (pin_exec (n32_pin_ops hw) x d)"
  using assms
  by (cases x) (simp_all add: n32_pin_ops_def rt_pin_mode_def rt_pin_write_def rt_pin_attach_irq_def rt_pin_detach_irq_def
      rt_pin_irq_enable_def n32_pin_mode_inv n32_pin_write_inv n32_pin_attach_irq_inv n32_pin_dettach_irq_inv n32_pin_irq_enable_inv)

lemma pin_reset_inv: "pin_reset d \<Longrightarrow> pin_inv d"
  by (simp add: pin_reset_def pin_inv_def group_idle_def pin_tab_init_def hdr_ok_def)

lemma pin_exec_run_inv:
  assumes "hw_documented hw" and "pin_inv d"
  shows "pin_inv (pin_run (n32_pin_ops hw) xs d)"
  unfolding pin_run_def using assms(2) by (induction xs arbitrary: d) (simp_all add: pin_exec_inv[OF assms(1)])

text \<open>C16: After any sequence of calls of the pin device from reset, every entry of the handler table is empty or belongs to
  a pin of its line, and an interrupt of the external interrupt controller is enabled exactly when one of its lines is in
  the driver's mask, although lines 5 to 9 and 10 to 15 share one interrupt each.\<close>

theorem rt_pin_irq_bookkeeping:
  assumes "hw_documented hw" and "pin_reset d"
  shows "pin_inv (pin_run (n32_pin_ops hw) xs d)"
  by (rule pin_exec_run_inv[OF assms(1) pin_reset_inv[OF assms(2)]])

definition blank_gpio :: gpio_regs where
  "blank_gpio = \<lparr>PMODE = 0, POTYPE = 0, SR = 0, PUPD = 0, PID = 0, POD = 0, AFL = 0, AFH = 0, DS = 0\<rparr>"

definition demo_drv :: pin_drv where
  "demo_drv = \<lparr>chip = \<lparr>gpio = \<lambda>p. blank_gpio, exti = \<lparr>IMASK = 0, EMASK = 0, RT_CFG = 0, FT_CFG = 0, SWIE = 0, PEND = 0\<rparr>,
       EXTI_CFG = [0, 0, 0, 0], APB2PCLKEN = 0, nvic_enabled = [0, 0, 0, 0, 0, 0, 0, 0], nvic_ip = \<lambda>n. 0\<rparr>,
     pin_irq_hdr_tab = pin_tab_init, pin_irq_enable_mask = 0, primask = False\<rparr>"

lemma doc_hw_documented: "hw_documented doc_hw"
  by (simp add: hw_documented_def doc_hw_def)

lemma demo_drv_reset: "pin_reset demo_drv"
proof -
  have "\<not> irq_enabled (chip demo_drv) (line_irq i)" if "i < 16" for i
    using that by (cases rule: line_cases) (simp_all add: irq_enabled_def line_irq_def demo_drv_def)
  then show ?thesis by (simp add: pin_reset_def) (simp add: demo_drv_def chip_ok_def)
qed

lemma rt_pin_irq_bookkeeping_witness:
  "pin_inv (pin_run (n32_pin_ops doc_hw) [Pin_Attach 5 0 100 7, Pin_Irq 5 1, Pin_Attach 22 1 200 8, Pin_Irq 22 1, Pin_Irq 5 0] demo_drv)"
  by (rule rt_pin_irq_bookkeeping[OF doc_hw_documented demo_drv_reset])

text \<open>What happens on an interrupt, when the handlers only work on the kernel: the lines that are pending and not masked, in
  order, and the handlers attached to them.\<close>

definition fires :: "soc \<Rightarrow> nat \<Rightarrow> bool" where
  "fires s i \<longleftrightarrow> bit (PEND (exti s)) i \<and> bit (IMASK (exti s)) i"

definition irq_lines :: "nat \<Rightarrow> nat list" where
  "irq_lines n = (if n = 23 then [5..<10] else if n = 40 then [10..<16] else [n - 6])"

definition line_calls :: "pin_drv \<Rightarrow> nat list \<Rightarrow> (nat \<times> nat) list" where
  "line_calls d ls = map (\<lambda>i. (ih_hdr (pin_irq_hdr_tab d ! i), ih_args (pin_irq_hdr_tab d ! i)))
     (filter (\<lambda>i. fires (chip d) i \<and> ih_hdr (pin_irq_hdr_tab d ! i) \<noteq> 0) ls)"

definition kernel_handler :: "(nat \<Rightarrow> nat \<Rightarrow> kernel \<Rightarrow> kernel) \<Rightarrow> handler" where
  "kernel_handler K h a w = w\<lparr>kern := K h a (kern w)\<rparr>"

lemma irq_lines_line: "i < 16 \<Longrightarrow> set (irq_lines (line_irq i)) = {j. j < 16 \<and> line_irq j = line_irq i} \<and> distinct (irq_lines (line_irq i))"
  by (auto simp: irq_lines_def line_irq_def)

lemma exti_vector_lines:
  assumes "i < 16"
  shows "exti_vector hw H (int (line_irq i)) w =
     irq_leave (fold (N32_GPIO_EXTI_IRQHandler hw H) (irq_lines (line_irq i)) (irq_enter w))"
  using assms
  by (cases rule: line_cases)
    (simp_all add: exti_vector_def irq_lines_def line_irq_def irqn_defs EXTI0_IRQHandler_def EXTI1_IRQHandler_def
      EXTI2_IRQHandler_def EXTI3_IRQHandler_def EXTI4_IRQHandler_def EXTI9_5_IRQHandler_def EXTI15_10_IRQHandler_def Let_def)

lemma GetITStatus_fires: "EXTI_GetITStatus (push_bit i 1) s \<longleftrightarrow> fires s i"
  by (simp add: EXTI_GetITStatus_def fires_def Let_def push_bit_of_1 and_exp_eq_0_iff_not_bit)

text \<open>The driver after an interrupt on lines \<open>ls\<close>: only pending bits have changed.\<close>

definition set_pend :: "u32w \<Rightarrow> pin_drv \<Rightarrow> pin_drv" where
  "set_pend p d = on_chip (upd_exti (\<lambda>e. e\<lparr>PEND := p\<rparr>)) d"

definition served :: "nat list \<Rightarrow> pin_drv \<Rightarrow> pin_drv \<Rightarrow> bool" where
  "served ls d d' \<longleftrightarrow>
     (\<exists>p. d' = set_pend p d \<and> (\<forall>n. bit p n \<longleftrightarrow> bit (PEND (exti (chip d))) n \<and> \<not> (n \<in> set ls \<and> fires (chip d) n)))"

lemma set_pend_simps [simp]:
  "pin_irq_hdr_tab (set_pend p d) = pin_irq_hdr_tab d" "PEND (exti (chip (set_pend p d))) = p"
  "IMASK (exti (chip (set_pend p d))) = IMASK (exti (chip d))" "set_pend p (set_pend q d) = set_pend p d"
  "set_pend (PEND (exti (chip d))) d = d" "pin_irq_enable_mask (set_pend p d) = pin_irq_enable_mask d"
  by (simp_all add: set_pend_def on_chip_def upd_exti_def)

lemma handler_step:
  fixes K :: "nat \<Rightarrow> nat \<Rightarrow> kernel \<Rightarrow> kernel"
  assumes "hw_documented hw"
  defines "w' \<equiv> \<lambda>w i. N32_GPIO_EXTI_IRQHandler hw (kernel_handler K) i w"
  shows "kern (w' w i) = fold (\<lambda>(h, a). K h a) (line_calls (pdrv w) [i]) (kern w)" "served [i] (pdrv w) (pdrv (w' w i))"
proof -
  let ?d = "pdrv w"
  show "kern (w' w i) = fold (\<lambda>(h, a). K h a) (line_calls ?d [i]) (kern w)"
    by (simp add: w'_def N32_GPIO_EXTI_IRQHandler_def GetITStatus_fires pin_irq_hdr_def kernel_handler_def line_calls_def Let_def)
  have "pdrv (w' w i) = (if fires (chip ?d) i then set_pend (PEND (exti (chip ?d)) AND NOT (push_bit i 1)) ?d else ?d)"
    by (simp add: w'_def N32_GPIO_EXTI_IRQHandler_def GetITStatus_fires pin_irq_hdr_def kernel_handler_def Let_def
        EXTI_ClrITPendBit_def hw_documentedD[OF assms(1)] set_pend_def on_chip_def upd_exti_def)
  then show "served [i] ?d (pdrv (w' w i))" unfolding served_def
    by (intro exI[of _ "PEND (exti (chip (pdrv (w' w i))))"])
      (auto simp: bit_and_iff bit_not_iff bit_push_bit_iff bit_1_iff fires_def dest: bit_imp_le_length)
qed

lemma served_Cons:
  assumes "served [i] d d1" and "i \<notin> set ls"
  shows "line_calls d1 ls = line_calls d ls" "served ls d1 d2 \<Longrightarrow> served (i # ls) d d2"
proof -
  obtain p where p: "d1 = set_pend p d" "\<And>n. bit p n \<longleftrightarrow> bit (PEND (exti (chip d))) n \<and> \<not> (n = i \<and> fires (chip d) n)"
    using assms(1) by (auto simp: served_def)
  have f: "fires (chip d1) j = fires (chip d) j" if "j \<in> set ls" for j
    using assms(2) that by (auto simp: p fires_def)
  then show "line_calls d1 ls = line_calls d ls"
    by (auto simp: line_calls_def p(1) cong: filter_cong)
  show "served (i # ls) d d2" if "served ls d1 d2"
    using that f unfolding served_def p(1) by (auto simp: p(2))
qed

lemma handler_fold:
  assumes "hw_documented hw" and "distinct ls"
  shows "kern (fold (N32_GPIO_EXTI_IRQHandler hw (kernel_handler K)) ls w) =
      fold (\<lambda>(h, a). K h a) (line_calls (pdrv w) ls) (kern w) \<and>
    served ls (pdrv w) (pdrv (fold (N32_GPIO_EXTI_IRQHandler hw (kernel_handler K)) ls w))"
  using assms(2)
proof (induction ls arbitrary: w)
  case Nil
  then show ?case by (auto simp: line_calls_def served_def intro!: exI[of _ "PEND (exti (chip (pdrv w)))"])
next
  case (Cons i ls)
  let ?w = "N32_GPIO_EXTI_IRQHandler hw (kernel_handler K) i w"
  note step = handler_step[OF assms(1), where K = K and w = w and i = i]
  have "line_calls d (i # ls) = line_calls d [i] @ line_calls d ls" for d by (simp add: line_calls_def)
  then show ?case using Cons served_Cons[OF step(2)] step(1) by simp
qed

text \<open>When handlers only work on the kernel, an interrupt of the external interrupt controller calls the handlers of
  exactly those lines of that interrupt that are pending and not masked and have one, each once and in the order of the
  lines, between entering and leaving the interrupt; it clears the pending bits of those lines and changes nothing else of
  the driver or the chip.\<close>

theorem EXTI_IRQHandler_calls:
  assumes "hw_documented hw" and "i < 16"
  shows "let w' = exti_vector hw (kernel_handler K) (int (line_irq i)) w; ls = irq_lines (line_irq i)
    in kern w' = rt_interrupt_leave (fold (\<lambda>(h, a). K h a) (line_calls (pdrv w) ls) (rt_interrupt_enter (kern w))) \<and>
       served ls (pdrv w) (pdrv w')"
  using handler_fold[OF assms(1), of "irq_lines (line_irq i)" K "irq_enter w"] irq_lines_line[OF assms(2)]
  by (simp add: Let_def exti_vector_lines[OF assms(2)] irq_enter_def irq_leave_def)

definition pending_demo :: pin_drv where
  "pending_demo = demo_drv\<lparr>pin_irq_hdr_tab := pin_tab_init[6 := \<lparr>ih_pin = 22, ih_mode = 1, ih_hdr = 200, ih_args = 8\<rparr>]\<rparr>
     \<lparr>chip := (chip demo_drv)\<lparr>exti := (exti (chip demo_drv))\<lparr>IMASK := 0x60, PEND := 0x60\<rparr>\<rparr>\<rparr>"

lemma EXTI_IRQHandler_calls_witness:
  "let w = \<lparr>kern = demo_kernel, pdrv = pending_demo\<rparr>; K = (\<lambda>h a k. k\<lparr>tick := of_nat (h + a)\<rparr>);
       w' = exti_vector doc_hw (kernel_handler K) (int (line_irq 5)) w; ls = irq_lines (line_irq 5)
   in line_calls pending_demo ls = [(200, 8)] \<and>
      kern w' = rt_interrupt_leave (fold (\<lambda>(h, a). K h a) (line_calls (pdrv w) ls) (rt_interrupt_enter (kern w))) \<and>
      served ls (pdrv w) (pdrv w')"
proof -
  have "line_calls pending_demo (irq_lines (line_irq 5)) = [(200, 8)]"
    by (simp add: pending_demo_def demo_drv_def line_irq_def irq_lines_def line_calls_def fires_def pin_tab_init_def no_hdr_def
        numeral_eq_Suc)
  then show ?thesis
    using EXTI_IRQHandler_calls[OF doc_hw_documented, of 5 "\<lambda>h a k. k\<lparr>tick := of_nat (h + a)\<rparr>"
        "\<lparr>kern = demo_kernel, pdrv = pending_demo\<rparr>"]
    by (simp add: Let_def)
qed

lemma route_field:
  assumes "chip_ok s" and "i < 16" and "p < 4"
  shows "get_field 2 ((i mod 4) * 4) (EXTI_CFG (GPIO_ConfigEXTILine p i s) ! (i div 4)) = of_nat p"
proof -
  have t: "take_bit 2 (of_nat p :: u32w) = of_nat p" using assms(3) by (simp add: take_bit_eq_mod word_unat_eq_iff unat_mod_distrib unat_of_nat)
  have "i mod 4 < 4" by simp
  then have "(i mod 4) * 4 + 2 \<le> 32" by linarith
  then show ?thesis using assms by (simp add: GPIO_ConfigEXTILine_def chip_ok_def less_mult_imp_div_less get_put_field_same[OF t])
qed

lemma enable_line_cfg: "EXTI_CFG (enable_line hw x i t n s) = EXTI_CFG (GPIO_ConfigEXTILine (port2portsource (pi_gpio x)) i s)"
  by (simp add: enable_line_def Let_def EXTI_ClrITPendBit_def EXTI_InitPeripheral_def GPIO_ConfigEXTILine_def)

lemma in_line_callsI:
  assumes "i \<in> set ls" and "fires (chip d) i" and "pin_irq_hdr_tab d ! i = e" and "ih_hdr e \<noteq> 0" and "ih_hdr e = h" and "ih_args e = a"
  shows "(h, a) \<in> set (line_calls d ls)"
  using assms by (auto simp: line_calls_def)

lemma pin_trigger_edge:
  assumes "m \<le> 2"
  shows "\<exists>t. pin_trigger m = Some t \<and> (t = EXTI_Trigger_Falling \<longleftrightarrow> m = 1) \<and> (t = EXTI_Trigger_Rising \<longleftrightarrow> m = 0)"
proof -
  consider "m = 0" | "m = 1" | "m = 2" using assms by linarith
  then show ?thesis by cases (simp_all add: pin_trigger_def)
qed

lemma filter_one: "distinct xs \<Longrightarrow> x \<in> set xs \<Longrightarrow> filter (\<lambda>y. y = x) xs = [x]"
  by (induction xs) (auto simp: filter_empty_conv)

lemma line_calls_one:
  assumes "i < 16" and "fires (chip d) i" and "ih_hdr (pin_irq_hdr_tab d ! i) \<noteq> 0"
    and "\<forall>j < 16. bit (PEND (exti (chip d))) j \<longrightarrow> line_irq j = line_irq i \<longrightarrow> j = i"
  shows "line_calls d (irq_lines (line_irq i)) = [(ih_hdr (pin_irq_hdr_tab d ! i), ih_args (pin_irq_hdr_tab d ! i))]"
proof -
  let ?P = "\<lambda>j. fires (chip d) j \<and> ih_hdr (pin_irq_hdr_tab d ! j) \<noteq> 0" and ?ls = "irq_lines (line_irq i)"
  have ls: "set ?ls = {j. j < 16 \<and> line_irq j = line_irq i}" "distinct ?ls" using irq_lines_line[OF assms(1)] by auto
  have "?P j \<longleftrightarrow> j = i" if "j \<in> set ?ls" for j using that assms(2-4) by (auto simp: ls fires_def)
  then have "filter ?P ?ls = filter (\<lambda>j. j = i) ?ls" by (rule filter_cong[OF refl])
  also have "\<dots> = [i]" using ls assms(1) by (simp add: filter_one)
  finally show ?thesis by (simp add: line_calls_def)
qed

text \<open>C15: Attaching a handler for an edge to a pin with a free line and enabling it succeeds, leaves the interrupt mask of
  the processor as it was, selects the pin's port for the line and the right edges, and enables the interrupt.  When the
  hardware then makes the line pending, the interrupt handler that the vector table has for it calls the attached handler with its
  argument, among those of the other pending lines of that interrupt, and clears the line; when no other line of that interrupt is
  pending, it calls this handler once and nothing else.  (Attached handlers work on the kernel here, and not on the driver.)\<close>

theorem rt_pin_irq_delivers:
  assumes hw: "hw_documented hw" and inv: "pin_inv d" and ok: "pin_ok pin" and m: "m \<le> 2" and h: "h \<noteq> 0"
    and free: "ih_pin (pin_irq_hdr_tab d ! pin_line pin) = -1" and p: "bit p (pin_line pin)"
  shows "let ops = n32_pin_ops hw; i = pin_line pin;
           (r1, d1) = rt_pin_attach_irq ops pin m h a d;
           (r2, d2) = rt_pin_irq_enable ops pin 1 d1;
           e = exti (chip d2);
           w' = exti_vector hw (kernel_handler K) (int (line_irq i)) \<lparr>kern = k, pdrv = set_pend p d2\<rparr>;
           cs = line_calls (set_pend p d2) (irq_lines (line_irq i))
         in r1 = RT_EOK \<and> r2 = RT_EOK \<and> primask d2 = primask d \<and> irq_enabled (chip d2) (line_irq i) \<and>
            (bit (RT_CFG e) i \<longleftrightarrow> m \<noteq> 1) \<and> (bit (FT_CFG e) i \<longleftrightarrow> m \<noteq> 0) \<and> \<not> bit (PEND e) i \<and>
            get_field 2 ((i mod 4) * 4) (EXTI_CFG (chip d2) ! (i div 4)) = of_nat (port2portsource (pin_port pin)) \<and>
            kern w' = rt_interrupt_leave (fold (\<lambda>(h, a). K h a) cs (rt_interrupt_enter k)) \<and> (h, a) \<in> set cs \<and>
            \<not> bit (PEND (exti (chip (pdrv w')))) i \<and>
            ((\<forall>j < 16. bit p j \<longrightarrow> line_irq j = line_irq i \<longrightarrow> j = i) \<longrightarrow> kern w' = rt_interrupt_leave (K h a (rt_interrupt_enter k)))"
proof -
  let ?i = "pin_line pin" and ?new = "\<lparr>ih_pin = pin, ih_mode = m, ih_hdr = h, ih_args = a\<rparr>"
  let ?d1 = "set_hdr ?i ?new d"
  let ?x = "\<lparr>pi_index = int (pin_num pin), pi_gpio = pin_port pin, pi_pin = push_bit ?i 1\<rparr>"
  have i: "?i < 16" by simp
  have pin: "pin \<noteq> -1" using ok not_pin_ok_minus_1 by auto
  have attach: "rt_pin_attach_irq (n32_pin_ops hw) pin m h a d = (RT_EOK, ?d1)"
    using free ok pin by (auto simp: rt_pin_attach_irq_def n32_pin_ops_def n32_pin_attach_irq_eq Let_def)
  have tab: "pin_irq_hdr_tab ?d1 ! ?i = ?new" using pin_invD(2)[OF inv] by (simp add: set_hdr_def)
  obtain t where t: "pin_trigger m = Some t" and edge: "t = EXTI_Trigger_Falling \<longleftrightarrow> m = 1" "t = EXTI_Trigger_Rising \<longleftrightarrow> m = 0"
    by (rule exE[OF pin_trigger_edge[OF m]], elim conjE, rule that)
  let ?d2 = "on_chip (enable_line hw ?x ?i t (int (line_irq ?i))) ?d1
      \<lparr>pin_irq_enable_mask := pin_irq_enable_mask ?d1 OR push_bit ?i 1\<rparr>"
  have enable: "rt_pin_irq_enable (n32_pin_ops hw) pin 1 ?d1 = (RT_EOK, ?d2)"
    using ok pin t tab by (simp add: rt_pin_irq_enable_def n32_pin_ops_def n32_pin_irq_enable_on[unfolded One_nat_def] Let_def)
  have c: "chip_ok (chip ?d1)" using pin_invD(1)[OF inv] by (simp add: set_hdr_def)
  have e: "exti (chip ?d2) = armed (push_bit ?i 1) t (exti (chip d))" by (simp add: enable_line_exti[OF hw] set_hdr_def)
  have b: "bit (push_bit ?i 1 :: u32w) ?i" using less_le_trans[OF i] by (simp add: bit_push_bit_iff)
  have c1: "irq_enabled (chip ?d2) (line_irq ?i)" using enable_line_nvic(1)[OF hw c line_irq_bound] by simp
  have c2: "get_field 2 ((?i mod 4) * 4) (EXTI_CFG (chip ?d2) ! (?i div 4)) = of_nat (port2portsource (pin_port pin))"
    using route_field[OF c i, of "port2portsource (pin_port pin)"]
    by (simp add: enable_line_cfg port2portsource_def split: gpio_port.split)
  have c3: "(bit (RT_CFG (exti (chip ?d2))) ?i \<longleftrightarrow> m \<noteq> 1) \<and> (bit (FT_CFG (exti (chip ?d2))) ?i \<longleftrightarrow> m \<noteq> 0) \<and>
      \<not> bit (PEND (exti (chip ?d2))) ?i \<and> bit (IMASK (exti (chip ?d2))) ?i"
    unfolding e armed_def using b edge by (auto simp: bit_or_iff bit_and_iff bit_not_iff)
  let ?d3 = "set_pend p ?d2"
  let ?w' = "exti_vector hw (kernel_handler K) (int (line_irq ?i)) \<lparr>kern = k, pdrv = ?d3\<rparr>"
  let ?cs = "line_calls ?d3 (irq_lines (line_irq ?i))"
  have fires: "fires (chip ?d3) ?i" using c3 p by (simp add: fires_def)
  have tab3: "pin_irq_hdr_tab ?d3 ! ?i = ?new" using tab by simp
  have run: "kern ?w' = rt_interrupt_leave (fold (\<lambda>(h, a). K h a) ?cs (rt_interrupt_enter k))"
    "served (irq_lines (line_irq ?i)) ?d3 (pdrv ?w')"
    using EXTI_IRQHandler_calls[OF hw i, of K "\<lparr>kern = k, pdrv = ?d3\<rparr>"] by (simp_all add: Let_def)
  have mem: "(h, a) \<in> set ?cs" by (rule in_line_callsI[OF _ fires tab3]) (use irq_lines_line[OF i] h in simp_all)
  have clear: "\<not> bit (PEND (exti (chip (pdrv ?w')))) ?i" using run(2) fires irq_lines_line[OF i] by (auto simp: served_def)
  have one: "kern ?w' = rt_interrupt_leave (K h a (rt_interrupt_enter k))"
    if "\<forall>j < 16. bit p j \<longrightarrow> line_irq j = line_irq ?i \<longrightarrow> j = ?i"
  proof -
    have "?cs = [(h, a)]" using line_calls_one[OF i fires] tab3 h that by simp
    then show ?thesis unfolding run(1) by simp
  qed
  show ?thesis
    unfolding attach Let_def case_prod_conv enable using c1 c2 c3 run(1) mem clear one by (simp add: set_hdr_def)
qed

lemma demo_line_free: "ih_pin (pin_irq_hdr_tab demo_drv ! pin_line 22) = -1"
  by (simp add: demo_drv_def pin_line_def pin_num_def pin_tab_init_def no_hdr_def)

lemma demo_pin_ok: "pin_ok 22" "pin_ok 21"
  by (simp_all add: pin_ok_def pin_num_def)

lemma rt_pin_irq_delivers_witness:
  "let ops = n32_pin_ops doc_hw; K = (\<lambda>h a k. k\<lparr>tick := of_nat (h + a)\<rparr>);
       (r1, d1) = rt_pin_attach_irq ops 22 1 200 8 demo_drv;
       (r2, d2) = rt_pin_irq_enable ops 22 1 d1
   in r1 = RT_EOK \<and> r2 = RT_EOK \<and> irq_enabled (chip d2) 23 \<and>
      kern (exti_vector doc_hw (kernel_handler K) 23 \<lparr>kern = demo_kernel, pdrv = set_pend 0x40 d2\<rparr>) =
        rt_interrupt_leave (K 200 8 (rt_interrupt_enter demo_kernel))"
proof -
  have only: "\<forall>j < 16. bit (0x40 :: u32w) j \<longrightarrow> line_irq j = line_irq (pin_line 22) \<longrightarrow> j = pin_line 22"
  proof -
    have "bit (0x40 :: u32w) j \<Longrightarrow> j = 6" for j using bit_exp_iff[where ?'a = "32 word", of 6 j] by simp
    moreover have "pin_line 22 = 6" by (simp add: pin_line_def pin_num_def)
    ultimately show ?thesis by simp
  qed
  have irq: "bit (0x40 :: u32w) (pin_line 22)" "line_irq (pin_line 22) = 23"
    by (simp_all add: pin_line_def pin_num_def line_irq_def)
  have m: "(1 :: nat) \<le> 2" and h: "(200 :: nat) \<noteq> 0" by simp_all
  note run = rt_pin_irq_delivers[OF doc_hw_documented pin_reset_inv[OF demo_drv_reset] demo_pin_ok(1) m h demo_line_free irq(1),
      of 8 "\<lambda>h a k. k\<lparr>tick := of_nat (h + a)\<rparr>" demo_kernel, unfolded Let_def case_prod_beta]
  show ?thesis unfolding Let_def case_prod_beta using run only unfolding irq(2) of_nat_numeral by blast
qed

definition mode_spec :: "nat \<Rightarrow> pin_conf \<Rightarrow> pin_conf" where
  "mode_spec m c =
     (let out = (m = PIN_MODE_OUTPUT \<or> m = PIN_MODE_OUTPUT_OD) in
      c\<lparr>pc_mode := (if out then 1 else 0),
        pc_pull := (if m = PIN_MODE_INPUT_PULLUP then 1 else if m = PIN_MODE_INPUT_PULLDOWN then 2 else 0), pc_slew := 0,
        pc_drive := (if out then 0 else pc_drive c), pc_type := (if out then flag_field (m = PIN_MODE_OUTPUT_OD) else pc_type c),
        pc_af := (if out then pc_af c else 0xF),
        pc_out := (if m = PIN_MODE_INPUT_PULLDOWN then False else if m = PIN_MODE_INPUT_PULLUP then True else pc_out c)\<rparr>)"

lemma mode_spec_configured: "configured (n32_pin_mode_init b m) c = mode_spec m c"
  by (simp add: configured_def n32_pin_mode_init_def mode_spec_def GPIO_InitStruct_def is_output_def is_open_drain_def gpio_consts
      pin_mode_defs Let_def mask_eq_exp_minus_1)

lemma n32_pin_mode_init_Pin: "Pin (n32_pin_mode_init b m) = ucast b"
  by (simp add: n32_pin_mode_init_def Let_def)

text \<open>Setting the mode of a pin gives that pin the mode, pull resistors and output type of the request, turns on the
  clock of its port, and leaves the configuration of all other pins of all ports as it was.\<close>

theorem rt_pin_mode_configures:
  assumes "hw_documented hw" and "pin_ok pin" and "n < 16"
  shows "let d' = rt_pin_mode (n32_pin_ops hw) pin m d
         in pin_conf_of (gpio (chip d') p) n =
              (if p = pin_port pin \<and> n = pin_line pin then mode_spec m (pin_conf_of (gpio (chip d) p) n)
               else pin_conf_of (gpio (chip d) p) n) \<and>
            bit (APB2PCLKEN (chip d')) (port2portsource (pin_port pin) + 2) \<and>
            pin_irq_hdr_tab d' = pin_irq_hdr_tab d \<and> exti (chip d') = exti (chip d)"
proof -
  let ?i = "n32_pin_mode_init (push_bit (pin_line pin) 1) m" and ?s = "n32_gpio_clock_enable (pin_port pin) (chip d)"
  have d': "rt_pin_mode (n32_pin_ops hw) pin m d =
      on_chip (\<lambda>s. GPIO_InitPeripheral hw (pin_port pin) ?i (n32_gpio_clock_enable (pin_port pin) s)) d"
    using assms(2) by (simp add: rt_pin_mode_def n32_pin_ops_def n32_pin_mode_def get_pin_ok)
  have "bit (Pin ?i) n \<longleftrightarrow> n = pin_line pin"
    using assms(3) by (auto simp: n32_pin_mode_init_Pin bit_ucast_iff bit_push_bit_iff bit_1_iff)
  moreover have "gpio ?s = gpio (chip d)" "exti ?s = exti (chip d)" by (simp_all add: n32_gpio_clock_enable_def)
  moreover have "bit (APB2PCLKEN ?s) (port2portsource (pin_port pin) + 2)"
    by (cases "pin_port pin") (simp_all add: n32_gpio_clock_enable_def RCC_EnableAPB2PeriphClk_def port2portsource_def bit_or_iff
        RCC_APB2_PERIPH_GPIOA_def RCC_APB2_PERIPH_GPIOB_def RCC_APB2_PERIPH_GPIOC_def RCC_APB2_PERIPH_GPIOD_def)
  ultimately show ?thesis
    using gpio_init_loop_conf[OF assms(1) n32_pin_mode_init_ok(1) assms(3), of "pin_port pin" "push_bit (pin_line pin) 1" m 0 ?s p]
      gpio_init_loop_frame[OF n32_pin_mode_init_ok(2), of hw "pin_port pin" "push_bit (pin_line pin) 1" m 0 ?s]
    by (simp add: d' GPIO_InitPeripheral_def mode_spec_configured Let_def)
qed

lemma rt_pin_mode_configures_witness:
  "let d' = rt_pin_mode (n32_pin_ops doc_hw) 22 PIN_MODE_INPUT_PULLUP demo_drv
   in pin_conf_of (gpio (chip d') GPIOB) 6 =
        (if GPIOB = pin_port 22 \<and> 6 = pin_line 22 then mode_spec PIN_MODE_INPUT_PULLUP (pin_conf_of (gpio (chip demo_drv) GPIOB) 6)
         else pin_conf_of (gpio (chip demo_drv) GPIOB) 6) \<and>
      bit (APB2PCLKEN (chip d')) (port2portsource (pin_port 22) + 2) \<and>
      pin_irq_hdr_tab d' = pin_irq_hdr_tab demo_drv \<and> exti (chip d') = exti (chip demo_drv)"
  by (rule rt_pin_mode_configures[OF doc_hw_documented demo_pin_ok(1)]) simp

text \<open>Disabling the interrupt of a pin does not mask its line.  While another line of the same interrupt is enabled, the
  interrupt stays enabled, and when the disabled pin becomes pending its handler is still called.\<close>

theorem rt_pin_irq_disable_still_fires:
  assumes inv: "pin_inv d" and hw: "hw_documented hw" and ok: "pin_ok pin"
    and on: "bit (pin_irq_enable_mask d) (pin_line pin)"
    and sibling: "j < 16" "j \<noteq> pin_line pin" "line_irq j = line_irq (pin_line pin)" "bit (pin_irq_enable_mask d) j"
    and hdr: "ih_hdr (pin_irq_hdr_tab d ! pin_line pin) = h" "ih_args (pin_irq_hdr_tab d ! pin_line pin) = a" "h \<noteq> 0"
  shows "let (r, d') = rt_pin_irq_enable (n32_pin_ops hw) pin 0 d;
             i = pin_line pin
         in r = RT_EOK \<and> \<not> bit (pin_irq_enable_mask d') i \<and> irq_enabled (chip d') (line_irq i) \<and>
            (h, a) \<in> set (line_calls (set_pend (PEND (exti (chip d')) OR push_bit i 1) d') (irq_lines (line_irq i)))"
proof -
  let ?i = "pin_line pin" and ?m = "pin_irq_enable_mask d AND NOT (push_bit (pin_line pin) 1)"
  let ?d = "d\<lparr>pin_irq_enable_mask := ?m\<rparr>"
  have i: "?i < 16" by simp
  have b: "bit (push_bit ?i 1 :: u32w) ?i" using less_le_trans[OF i] by (simp add: bit_push_bit_iff)
  have "bit ?m j" using sibling by (auto simp: bit_and_iff bit_not_iff bit_push_bit_iff bit_1_iff dest: bit_imp_le_length)
  then have busy: "\<not> group_idle ?m (line_irq ?i)" using sibling unfolding group_idle_def by (auto intro!: exI[of _ j])
  have r: "rt_pin_irq_enable (n32_pin_ops hw) pin 0 d = (RT_EOK, ?d)"
    using ok busy by (simp add: rt_pin_irq_enable_def n32_pin_ops_def n32_pin_irq_enable_off Let_def)
  have "irq_enabled (chip d) (line_irq ?i)"
    using pin_invD(4)[OF inv i] on by (auto simp: group_idle_def intro!: exI[of _ ?i])
  moreover have "(h, a) \<in> set (line_calls (set_pend (PEND (exti (chip ?d)) OR push_bit ?i 1) ?d) (irq_lines (line_irq ?i)))"
    using irq_lines_line[OF i] pin_invD(5)[OF inv i on] b hdr
    by (intro in_line_callsI[where i = ?i and e = "pin_irq_hdr_tab d ! ?i"]) (simp_all add: fires_def bit_or_iff)
  ultimately show ?thesis using b by (simp add: r Let_def bit_and_iff bit_not_iff)
qed

definition shared_demo :: pin_drv where
  "shared_demo = pin_run (n32_pin_ops doc_hw) [Pin_Attach 21 0 100 7, Pin_Irq 21 1, Pin_Attach 22 1 200 8, Pin_Irq 22 1] demo_drv"

lemma shared_demo_mask: "pin_irq_enable_mask shared_demo = 0x60"
  and shared_demo_hdr: "pin_irq_hdr_tab shared_demo ! pin_line 22 = \<lparr>ih_pin = 22, ih_mode = 1, ih_hdr = 200, ih_args = 8\<rparr>"
  by (simp_all add: shared_demo_def pin_run_def n32_pin_ops_def rt_pin_attach_irq_def rt_pin_irq_enable_def n32_pin_attach_irq_eq
      n32_pin_irq_enable_on[unfolded One_nat_def] Let_def demo_drv_def demo_pin_ok pin_line_def pin_num_def pin_tab_init_def no_hdr_def
      set_hdr_def pin_trigger_def push_bit_of_1)

lemma rt_pin_irq_disable_still_fires_witness:
  "let (r, d') = rt_pin_irq_enable (n32_pin_ops doc_hw) 22 0 shared_demo;
       i = pin_line 22
   in r = RT_EOK \<and> \<not> bit (pin_irq_enable_mask d') i \<and> irq_enabled (chip d') (line_irq i) \<and>
      (200, 8) \<in> set (line_calls (set_pend (PEND (exti (chip d')) OR push_bit i 1) d') (irq_lines (line_irq i)))"
proof (rule rt_pin_irq_disable_still_fires[OF _ doc_hw_documented demo_pin_ok(1)])
  show "pin_inv shared_demo" unfolding shared_demo_def by (rule pin_exec_run_inv[OF doc_hw_documented pin_reset_inv[OF demo_drv_reset]])
  show "bit (pin_irq_enable_mask shared_demo) (pin_line 22)" "bit (pin_irq_enable_mask shared_demo) 5" "5 \<noteq> pin_line 22"
    "line_irq 5 = line_irq (pin_line 22)"
    by (simp_all add: shared_demo_mask pin_line_def pin_num_def line_irq_def)
qed (simp_all add: shared_demo_hdr)

text \<open>A handler can be attached for a level trigger, which the pin device's interface offers.  Enabling it then fails,
  and the driver returns without restoring the interrupt mask: all interrupts of the processor stay off.\<close>

theorem rt_pin_irq_level_mode_masks_interrupts:
  assumes "pin_ok pin" and "m > 2" and "ih_pin (pin_irq_hdr_tab d ! pin_line pin) = -1" and "length (pin_irq_hdr_tab d) = 16"
  shows "let (r1, d1) = rt_pin_attach_irq (n32_pin_ops hw) pin m h a d;
             (r2, d2) = rt_pin_irq_enable (n32_pin_ops hw) pin 1 d1
         in r1 = RT_EOK \<and> primask d1 = primask d \<and> r2 = - RT_ERROR \<and> primask d2"
proof -
  have "pin \<noteq> -1" using assms(1) not_pin_ok_minus_1 by auto
  moreover have "pin_trigger m = None" using assms(2) by (simp add: pin_trigger_def)
  ultimately show ?thesis using assms
    by (auto simp: rt_pin_attach_irq_def rt_pin_irq_enable_def n32_pin_ops_def n32_pin_attach_irq_eq
        n32_pin_irq_enable_on[unfolded One_nat_def] Let_def set_hdr_def)
qed

lemma rt_pin_irq_level_mode_masks_interrupts_witness:
  "let (r1, d1) = rt_pin_attach_irq (n32_pin_ops doc_hw) 22 3 200 8 demo_drv;
       (r2, d2) = rt_pin_irq_enable (n32_pin_ops doc_hw) 22 1 d1
   in r1 = RT_EOK \<and> primask d1 = primask demo_drv \<and> r2 = - RT_ERROR \<and> primask d2"
  by (rule rt_pin_irq_level_mode_masks_interrupts[OF demo_pin_ok(1) _ demo_line_free]) (simp_all add: demo_drv_def pin_tab_init_def)

end
