(* ===== verification/Vsnprintf.thy ===== *)
theory Vsnprintf
  imports Kstring
begin

text \<open>
  Formatted output (\<^verbatim>\<open>klibc/rt_vsnprintf_tiny.c\<close>, \<^verbatim>\<open>klibc/kstdio.c\<close>) in the configuration of the build: no 64-bit numbers, so
  a number is a 32-bit word and the qualifier \<^verbatim>\<open>L\<close> does not exist.  The output goes to a buffer in memory; a format is a string
  constant and strings to print are read from a memory of their own, because the routine is not meant for a buffer that
  overlaps what it prints.  The arguments are the words of the argument list in the calling convention of the processor,
  where a \<^verbatim>\<open>double\<close> takes two words from an even position on.  Widths, precisions and the counters of the loops are numbers of 32 bits:
  \<open>int32\<close> marks where their arithmetic can leave that range.  A string without terminator is \<^term>\<open>None\<close>.

  The reference \<open>format_text\<close> reads widths and precisions exactly, and \<open>format_fits\<close> says that they are small enough for 32 bits.
\<close>

section \<open>The output buffer\<close>

type_synonym sink = "memory \<times> addr"

definition byte_of :: "char \<Rightarrow> u8" where
  "byte_of c = of_nat (of_char c)"

definition char_at :: "memory \<Rightarrow> addr \<Rightarrow> char" where
  "char_at m a = char_of (unat (m a))"

text \<open>The step every branch of the routine ends in: store the character if there is room, and count it.\<close>

definition emit :: "addr \<Rightarrow> char \<Rightarrow> sink \<Rightarrow> sink" where
  "emit endp c st = (case st of (m, str) \<Rightarrow> ((if str < endp then m(str := byte_of c) else m), u32_add str 1))"

section \<open>Arguments\<close>

record va_list =
  va_words :: "nat \<Rightarrow> u32w"
  va_pos :: nat

definition va_arg :: "va_list \<Rightarrow> u32w \<times> va_list" where
  "va_arg ap = (va_words ap (va_pos ap), ap\<lparr>va_pos := va_pos ap + 1\<rparr>)"

definition va_arg_double :: "va_list \<Rightarrow> va_list" where
  "va_arg_double ap = ap\<lparr>va_pos := 2 * ((va_pos ap + 1) div 2) + 2\<rparr>"

section \<open>Numbers\<close>

datatype pflag = ZEROPAD | SIGN | PLUS | SPACE | LEFT | SPECIAL | LARGE

definition ISDIGIT :: "char \<Rightarrow> bool" where
  "ISDIGIT c \<longleftrightarrow> of_char CHR ''0'' \<le> (of_char c :: nat) \<and> (of_char c :: nat) < of_char CHR ''0'' + 10"

fun skip_atoi :: "int \<Rightarrow> string \<Rightarrow> int \<times> string" where
  "skip_atoi i [] = (i, [])"
| "skip_atoi i (c # s) = (if ISDIGIT c then skip_atoi (int32 (i * 10 + of_char c - of_char CHR ''0'')) s else (i, c # s))"

text \<open>The loops of the routine: \<^verbatim>\<open>while (size-- > 0)\<close>, \<^verbatim>\<open>while (len < width--)\<close> and \<^verbatim>\<open>while (--width > 0)\<close>, each with the
  value its counter has afterwards.\<close>

function pad_loop :: "addr \<Rightarrow> char \<Rightarrow> int \<Rightarrow> sink \<Rightarrow> int \<times> sink" where
  "pad_loop endp c sz st = (if sz > 0 then pad_loop endp c (sz - 1) (emit endp c st) else (int32 (sz - 1), st))"
  by pat_completeness auto

termination by (relation "measure (\<lambda>(endp, c, sz, st). nat sz)") auto

function fill_loop :: "addr \<Rightarrow> char \<Rightarrow> int \<Rightarrow> int \<Rightarrow> sink \<Rightarrow> int \<times> sink" where
  "fill_loop endp c len width st =
     (if len < width then fill_loop endp c len (width - 1) (emit endp c st) else (int32 (width - 1), st))"
  by pat_completeness auto

termination by (relation "measure (\<lambda>(endp, c, len, width, st). nat (width - len))") auto

function width_loop :: "addr \<Rightarrow> int \<Rightarrow> sink \<Rightarrow> int \<times> sink" where
  "width_loop endp width st =
     (if int32 (width - 1) > 0 then width_loop endp (int32 (width - 1)) (emit endp CHR '' '' st) else (int32 (width - 1), st))"
  by pat_completeness auto

termination
proof (relation "measure (\<lambda>(endp, width, st). nat (int32 (width - 1)))", goal_cases)
  case (2 endp width st)
  then show ?case using int32_id[of "int32 (width - 1) - 1"] int32_range(2)[of "width - 1"] by simp
qed simp

definition digit_char :: "bool \<Rightarrow> nat \<Rightarrow> char" where
  "digit_char large d = (if large then ''0123456789ABCDEF'' else ''0123456789abcdef'') ! d"

text \<open>Digits are produced from the last one on.  The base is 2, 8, 10 or 16.\<close>

function digits_loop :: "bool \<Rightarrow> nat \<Rightarrow> nat \<Rightarrow> string \<Rightarrow> string" where
  "digits_loop large base num tmp =
     (if num \<noteq> 0 \<and> base > 1 then digits_loop large base (num div base) (tmp @ [digit_char large (num mod base)]) else tmp)"
  by pat_completeness auto

termination by (relation "measure (\<lambda>(large, base, num, tmp). num)") auto

definition number_tmp :: "bool \<Rightarrow> nat \<Rightarrow> nat \<Rightarrow> string" where
  "number_tmp large base num = (if num = 0 then ''0'' else digits_loop large base num [])"

fun copy_digits :: "addr \<Rightarrow> string \<Rightarrow> nat \<Rightarrow> int \<Rightarrow> sink \<Rightarrow> sink" where
  "copy_digits endp tmp 0 precision_bak st = st"
| "copy_digits endp tmp (Suc i) precision_bak st =
     (if precision_bak \<noteq> 0 then copy_digits endp tmp i precision_bak (emit endp (tmp ! i) st) else st)"

text \<open>The sign and the number without it; \<^verbatim>\<open>z\<close> and \<^verbatim>\<open>hh\<close> fall into the default case.\<close>

definition split_sign :: "pflag set \<Rightarrow> char option \<Rightarrow> nat \<Rightarrow> char option \<times> nat" where
  "split_sign type qualifier num =
     (if SIGN \<in> type then
        (let (neg, num') =
           (if qualifier = Some CHR ''h'' then (num mod 2 ^ 16 \<ge> 2 ^ 15, (2 ^ 32 - num) mod 2 ^ 16)
            else (num \<ge> 2 ^ 31, (2 ^ 32 - num) mod 2 ^ 32))
         in if neg then (Some CHR ''-'', num')
            else if PLUS \<in> type then (Some CHR ''+'', num)
            else if SPACE \<in> type then (Some CHR '' '', num)
            else (None, num))
      else (None, num))"

definition emit_prefix :: "addr \<Rightarrow> pflag set \<Rightarrow> nat \<Rightarrow> sink \<Rightarrow> sink" where
  "emit_prefix endp type base st =
     (if SPECIAL \<in> type then
        (if base = 2 then emit endp CHR ''b'' (emit endp CHR ''0'' st)
         else if base = 8 then emit endp CHR ''0'' st
         else if base = 16 then emit endp (if LARGE \<in> type then CHR ''X'' else CHR ''x'') (emit endp CHR ''0'' st)
         else st)
      else st)"

text \<open>The second half of \<^verbatim>\<open>print_number\<close>, from the digits on.\<close>

definition print_layout :: "addr \<Rightarrow> char option \<Rightarrow> string \<Rightarrow> nat \<Rightarrow> int \<Rightarrow> int \<Rightarrow> pflag set \<Rightarrow> sink \<Rightarrow> sink" where
  "print_layout endp sign tmp base size1 precision type st =
     (let c = (if ZEROPAD \<in> type then CHR ''0'' else CHR '' '');
          i = length tmp;
          prec = max (int i) precision;
          size2 = int32 (size1 - prec);
          (size3, st1) =
            (if ZEROPAD \<notin> type \<and> LEFT \<notin> type
             then pad_loop endp CHR '' '' (if sign \<noteq> None \<and> size2 > 0 then size2 - 1 else size2) st else (size2, st));
          (size4, st2) = (case sign of Some g \<Rightarrow> (int32 (size3 - 1), emit endp g st1) | None \<Rightarrow> (size3, st1));
          st3 = emit_prefix endp type base st2;
          (size5, st4) = (if LEFT \<notin> type then pad_loop endp c size4 st3 else (size4, st3));
          st5 = snd (fill_loop endp CHR ''0'' (int i) prec st4);
          st6 = copy_digits endp tmp i precision st5
      in snd (pad_loop endp CHR '' '' size5 st6))"

definition print_number :: "addr \<Rightarrow> nat \<Rightarrow> nat \<Rightarrow> char option \<Rightarrow> int \<Rightarrow> int \<Rightarrow> pflag set \<Rightarrow> sink \<Rightarrow> sink" where
  "print_number endp num0 base qualifier s precision type0 st =
     (let type = (if LEFT \<in> type0 then type0 - {ZEROPAD} else type0);
          (sign, num) = split_sign type qualifier num0;
          size1 = (if SPECIAL \<in> type then (if base = 2 \<or> base = 16 then int32 (s - 2) else if base = 8 then int32 (s - 1) else s) else s);
          tmp = number_tmp (LARGE \<in> type) base num
      in print_layout endp sign tmp base size1 precision type st)"

section \<open>Directives\<close>

fun parse_flags :: "pflag set \<Rightarrow> string \<Rightarrow> pflag set \<times> string" where
  "parse_flags f [] = (f, [])"
| "parse_flags f (c # s) =
     (if c = CHR ''-'' then parse_flags (insert LEFT f) s
      else if c = CHR ''+'' then parse_flags (insert PLUS f) s
      else if c = CHR '' '' then parse_flags (insert SPACE f) s
      else if c = CHR 0x23 then parse_flags (insert SPECIAL f) s
      else if c = CHR ''0'' then parse_flags (insert ZEROPAD f) s
      else (f, c # s))"

definition first_is :: "(char \<Rightarrow> bool) \<Rightarrow> string \<Rightarrow> bool" where
  "first_is P s \<longleftrightarrow> (case s of [] \<Rightarrow> False | c # r \<Rightarrow> P c)"

definition parse_width :: "pflag set \<Rightarrow> string \<Rightarrow> va_list \<Rightarrow> int \<times> pflag set \<times> string \<times> va_list" where
  "parse_width f s ap =
     (if first_is ISDIGIT s then (let (w, r) = skip_atoi 0 s in (w, f, r, ap))
      else if first_is ((=) CHR ''*'') s then
        (let (v, ap1) = va_arg ap; w = sint v
         in if w < 0 then (int32 (- w), insert LEFT f, tl s, ap1) else (w, f, tl s, ap1))
      else (-1, f, s, ap))"

definition parse_precision :: "string \<Rightarrow> va_list \<Rightarrow> int \<times> string \<times> va_list" where
  "parse_precision s ap =
     (if first_is ((=) CHR ''.'') s then
        (let s1 = tl s;
             (p, r, ap1) = (if first_is ISDIGIT s1 then (let (p, r) = skip_atoi 0 s1 in (p, r, ap))
                            else if first_is ((=) CHR ''*'') s1 then (let (v, ap1) = va_arg ap in (sint v, tl s1, ap1))
                            else (-1, s1, ap))
         in (if p < 0 then 0 else p, r, ap1))
      else (-1, s, ap))"

definition parse_qualifier :: "string \<Rightarrow> char option \<times> string" where
  "parse_qualifier s =
     (if first_is (\<lambda>c. c = CHR ''h'' \<or> c = CHR ''l'' \<or> c = CHR ''z'') s then
        (if hd s = CHR ''h'' \<and> first_is ((=) CHR ''h'') (tl s) then (Some CHR ''H'', tl (tl s)) else (Some (hd s), tl s))
      else (None, s))"

record directive =
  dr_flags :: "pflag set"
  dr_width :: int
  dr_precision :: int
  dr_qualifier :: "char option"

definition parse_directive :: "string \<Rightarrow> va_list \<Rightarrow> directive \<times> string \<times> va_list" where
  "parse_directive s ap =
     (let (f, s1) = parse_flags {} s;
          (w, f1, s2, ap1) = parse_width f s1 ap;
          (p, s3, ap2) = parse_precision s2 ap1;
          (q, s4) = parse_qualifier s3
      in (\<lparr>dr_flags = f1, dr_width = w, dr_precision = p, dr_qualifier = q\<rparr>, s4, ap2))"

section \<open>Conversions\<close>

definition convert_char :: "addr \<Rightarrow> directive \<Rightarrow> va_list \<Rightarrow> sink \<Rightarrow> va_list \<times> sink" where
  "convert_char endp d ap st =
     (let (w1, st1) = (if LEFT \<notin> dr_flags d then width_loop endp (dr_width d) st else (dr_width d, st));
          (v, ap1) = va_arg ap;
          st2 = emit endp (char_of (unat (ucast v :: u8))) st1
      in (ap1, snd (width_loop endp w1 st2)))"

text \<open>The length to print: up to the terminator, but no longer than the field is wide.  The constant printed for a null
  pointer has no address in the model, so strings are read by position.\<close>

partial_function (option) str_len :: "(nat \<Rightarrow> char) \<Rightarrow> int \<Rightarrow> nat \<Rightarrow> nat option" where
  "str_len s width len = (if int len \<noteq> width \<and> s len \<noteq> CHR 0x00 then str_len s width (len + 1) else Some len)"

fun copy_str :: "addr \<Rightarrow> (nat \<Rightarrow> char) \<Rightarrow> nat \<Rightarrow> nat \<Rightarrow> sink \<Rightarrow> sink" where
  "copy_str endp s i 0 st = st"
| "copy_str endp s i (Suc n) st = copy_str endp s (i + 1) n (emit endp (s i) st)"

definition null_text :: "nat \<Rightarrow> char" where
  "null_text i = (if i < 6 then ''(null)'' ! i else CHR 0x00)"

definition convert_string :: "memory \<Rightarrow> addr \<Rightarrow> directive \<Rightarrow> va_list \<Rightarrow> sink \<Rightarrow> (va_list \<times> sink) option" where
  "convert_string rom endp d ap st =
     (let (v, ap1) = va_arg ap;
          s = (if v = 0 then null_text else (\<lambda>i. char_at rom (unat v + i)))
      in case str_len s (dr_width d) 0 of
           None \<Rightarrow> None
         | Some len0 \<Rightarrow>
             (let len = (if dr_precision d > 0 \<and> int len0 > dr_precision d then nat (dr_precision d) else len0);
                  (w1, st1) = (if LEFT \<notin> dr_flags d then fill_loop endp CHR '' '' (int len) (dr_width d) st else (dr_width d, st));
                  st2 = copy_str endp s 0 len st1
              in Some (ap1, snd (fill_loop endp CHR '' '' (int len) w1 st2))))"

definition convert_pointer :: "addr \<Rightarrow> directive \<Rightarrow> va_list \<Rightarrow> sink \<Rightarrow> va_list \<times> sink" where
  "convert_pointer endp d ap st =
     (let (w, f) = (if dr_width d = -1 then (10, {SPECIAL, ZEROPAD} \<union> dr_flags d) else (dr_width d, dr_flags d));
          (v, ap1) = va_arg ap
      in (ap1, print_number endp (unat v) 16 (dr_qualifier d) w (dr_precision d) f st))"

text \<open>The value of a number argument, cut to the width of its qualifier.\<close>

definition number_arg :: "directive \<Rightarrow> pflag set \<Rightarrow> u32w \<Rightarrow> nat" where
  "number_arg d f v =
     (if dr_qualifier d = Some CHR ''H'' then unat (scast (ucast v :: u8) :: u32w)
      else if dr_qualifier d = Some CHR ''h'' then
        (let n = (ucast v :: 16 word) in if SIGN \<in> f then unat (scast n :: u32w) else unat n)
      else unat v)"

definition convert_number :: "addr \<Rightarrow> directive \<Rightarrow> nat \<Rightarrow> pflag set \<Rightarrow> va_list \<Rightarrow> sink \<Rightarrow> va_list \<times> sink" where
  "convert_number endp d base f ap st =
     (let (v, ap1) = va_arg ap
      in (ap1, print_number endp (number_arg d f v) base (dr_qualifier d) (dr_width d) (dr_precision d) f st))"

definition convert :: "memory \<Rightarrow> addr \<Rightarrow> directive \<Rightarrow> char \<Rightarrow> va_list \<Rightarrow> sink \<Rightarrow> (va_list \<times> sink) option" where
  "convert rom endp d c ap st =
     (let f = dr_flags d in
      if c = CHR ''c'' then Some (convert_char endp d ap st)
      else if c = CHR ''s'' then convert_string rom endp d ap st
      else if c = CHR ''p'' then Some (convert_pointer endp d ap st)
      else if c = CHR ''%'' then Some (ap, emit endp CHR ''%'' st)
      else if c = CHR ''b'' then Some (convert_number endp d 2 f ap st)
      else if c = CHR ''o'' then Some (convert_number endp d 8 f ap st)
      else if c = CHR ''X'' then Some (convert_number endp d 16 (insert LARGE f) ap st)
      else if c = CHR ''x'' then Some (convert_number endp d 16 f ap st)
      else if c = CHR ''d'' \<or> c = CHR ''i'' then Some (convert_number endp d 10 (insert SIGN f) ap st)
      else if c = CHR ''u'' then Some (convert_number endp d 10 f ap st)
      else Some (if c \<in> set ''eEGgfF'' then va_arg_double ap else ap, emit endp c (emit endp CHR ''%'' st)))"

lemma skip_atoi_length: "length (snd (skip_atoi i s)) \<le> length s"
  by (induction i s rule: skip_atoi.induct) auto

lemma parse_flags_length: "length (snd (parse_flags f s)) \<le> length s"
  by (induction f s rule: parse_flags.induct) auto

lemma parse_width_length: "length (fst (snd (snd (parse_width f s ap)))) \<le> length s"
  using skip_atoi_length[of 0 s] by (auto simp: parse_width_def Let_def split: prod.split)

lemma parse_precision_length: "length (fst (snd (parse_precision s ap))) \<le> length s"
  using skip_atoi_length[of 0 "tl s"] by (auto simp: parse_precision_def Let_def split: prod.split)

lemma parse_qualifier_length: "length (snd (parse_qualifier s)) \<le> length s"
  by (auto simp: parse_qualifier_def)

lemma parse_directive_length: "length (fst (snd (parse_directive s ap))) \<le> length s"
  using parse_flags_length[of "{}" s] parse_width_length parse_precision_length parse_qualifier_length
  unfolding parse_directive_def
  by (auto split: prod.splits) (metis fst_conv snd_conv order_trans)

function vsn_loop :: "memory \<Rightarrow> addr \<Rightarrow> string \<Rightarrow> va_list \<Rightarrow> sink \<Rightarrow> sink option" where
  "vsn_loop rom endp [] ap st = Some st"
| "vsn_loop rom endp (c # fmt) ap st =
     (if c \<noteq> CHR ''%'' then vsn_loop rom endp fmt ap (emit endp c st)
      else
        (case parse_directive fmt ap of
           (d, [], ap1) \<Rightarrow> Some (emit endp CHR ''%'' st)
         | (d, k # rest, ap1) \<Rightarrow>
             (case convert rom endp d k ap1 st of
                None \<Rightarrow> None
              | Some (ap2, st2) \<Rightarrow> vsn_loop rom endp rest ap2 st2)))"
  by pat_completeness auto

termination
proof (relation "measure (\<lambda>(rom, endp, fmt, ap, st). length fmt)", goal_cases)
  case (3 rom endp c fmt ap st x y d k rest)
  then show ?case using parse_directive_length[of fmt ap] by (cases "parse_directive fmt ap") auto
qed auto

text \<open>A buffer that would reach past the end of the address space is cut there.  The result is the number of characters
  without the terminator, also of those that did not fit.\<close>

definition rt_vsnprintf :: "memory \<Rightarrow> addr \<Rightarrow> nat \<Rightarrow> string \<Rightarrow> va_list \<Rightarrow> memory \<Rightarrow> (int \<times> memory) option" where
  "rt_vsnprintf rom buf sz fmt ap m =
     (let endp0 = u32_add buf sz;
          (endp, size1) = (if endp0 < buf then (2 ^ 32 - 1, u32_sub (2 ^ 32 - 1) buf) else (endp0, sz))
      in case vsn_loop rom endp fmt ap (m, buf) of
           None \<Rightarrow> None
         | Some (m1, str) \<Rightarrow>
             Some (int32 (int (u32_sub str buf)),
                   if size1 > 0 then (if str < endp then m1(str := 0) else m1(u32_sub endp 1 := 0)) else m1))"

definition rt_snprintf :: "memory \<Rightarrow> addr \<Rightarrow> nat \<Rightarrow> string \<Rightarrow> (nat \<Rightarrow> u32w) \<Rightarrow> memory \<Rightarrow> (int \<times> memory) option" where
  "rt_snprintf rom buf sz fmt ws m = rt_vsnprintf rom buf sz fmt \<lparr>va_words = ws, va_pos = 0\<rparr> m"

definition rt_vsprintf :: "memory \<Rightarrow> addr \<Rightarrow> string \<Rightarrow> va_list \<Rightarrow> memory \<Rightarrow> (int \<times> memory) option" where
  "rt_vsprintf rom buf fmt ap m = rt_vsnprintf rom buf (2 ^ 32 - 1) fmt ap m"

definition rt_sprintf :: "memory \<Rightarrow> addr \<Rightarrow> string \<Rightarrow> (nat \<Rightarrow> u32w) \<Rightarrow> memory \<Rightarrow> (int \<times> memory) option" where
  "rt_sprintf rom buf fmt ws m = rt_vsprintf rom buf fmt \<lparr>va_words = ws, va_pos = 0\<rparr> m"

section \<open>What is written\<close>

text \<open>A reference for the text of a format: digits by division, and the fields of a number laid out one after the other.\<close>

fun digits :: "nat \<Rightarrow> nat \<Rightarrow> nat list" where
  "digits b n = (if n < b \<or> b < 2 then [n] else digits b (n div b) @ [n mod b])"

definition prefix_text :: "pflag set \<Rightarrow> nat \<Rightarrow> string" where
  "prefix_text f base =
     (if SPECIAL \<in> f then
        (if base = 2 then ''0b'' else if base = 8 then ''0''
         else if base = 16 then (if LARGE \<in> f then ''0X'' else ''0x'') else [])
      else [])"

definition layout_text :: "string \<Rightarrow> string \<Rightarrow> string \<Rightarrow> int \<Rightarrow> int \<Rightarrow> pflag set \<Rightarrow> string" where
  "layout_text sgn_txt pre ds width precision f =
     (let zeros = nat precision - length ds;
          room = nat (width - int (length pre) - int (length sgn_txt) - int zeros - int (length ds));
          body = replicate zeros CHR ''0'' @ (if precision = 0 then [] else ds)
      in if LEFT \<in> f then sgn_txt @ pre @ body @ replicate room CHR '' ''
         else if ZEROPAD \<in> f then sgn_txt @ pre @ replicate room CHR ''0'' @ body
         else replicate room CHR '' '' @ sgn_txt @ pre @ body)"

definition sign_text :: "char option \<Rightarrow> string" where
  "sign_text sign = (case sign of None \<Rightarrow> [] | Some g \<Rightarrow> [g])"

definition number_text :: "nat \<Rightarrow> nat \<Rightarrow> char option \<Rightarrow> int \<Rightarrow> int \<Rightarrow> pflag set \<Rightarrow> string" where
  "number_text num base q width precision f =
     (let (sign, mag) = split_sign f q num
      in layout_text (sign_text sign) (prefix_text f base) (map (digit_char (LARGE \<in> f)) (digits base mag)) width precision f)"

definition emits :: "addr \<Rightarrow> string \<Rightarrow> sink \<Rightarrow> sink" where
  "emits endp cs st = fold (emit endp) cs st"

lemma emits_simps [simp]:
  "emits endp [] st = st" "emits endp (c # cs) st = emits endp cs (emit endp c st)"
  "emits endp (xs @ ys) st = emits endp ys (emits endp xs st)"
  by (simp_all add: emits_def)

declare pad_loop.simps [simp del] fill_loop.simps [simp del] width_loop.simps [simp del] digits_loop.simps [simp del]
  digits.simps [simp del]

lemma pad_loop_emits:
  "- (2 ^ 31) < n \<Longrightarrow> n < 2 ^ 31 \<Longrightarrow> pad_loop endp c n st = (if n > 0 then -1 else n - 1, emits endp (replicate (nat n) c) st)"
proof (induction endp c n st rule: pad_loop.induct)
  case (1 endp c n st)
  show ?case
  proof (cases "n > 0")
    case True
    then have "nat n = Suc (nat (n - 1))" by simp
    then show ?thesis using 1 True by (simp add: pad_loop.simps[of _ _ n])
  qed (use 1 in \<open>simp add: pad_loop.simps int32_id\<close>)
qed

lemma fill_loop_emits:
  "- (2 ^ 31) < w \<Longrightarrow> w < 2 ^ 31 \<Longrightarrow> 0 \<le> len \<Longrightarrow>
   fill_loop endp c len w st = (if len < w then len - 1 else w - 1, emits endp (replicate (nat (w - len)) c) st)"
proof (induction endp c len w st rule: fill_loop.induct)
  case (1 endp c len w st)
  show ?case
  proof (cases "len < w")
    case True
    then have "nat (w - len) = Suc (nat (w - 1 - len))" by simp
    then show ?thesis using 1 True by (simp add: fill_loop.simps[of _ _ _ w])
  qed (use 1 in \<open>simp add: fill_loop.simps int32_id\<close>)
qed

lemma width_loop_emits:
  "- (2 ^ 31) < w \<Longrightarrow> w < 2 ^ 31 \<Longrightarrow> width_loop endp w st = (if w > 1 then 0 else w - 1, emits endp (replicate (nat (w - 1)) CHR '' '') st)"
proof (induction endp w st rule: width_loop.induct)
  case (1 endp w st)
  show ?case
  proof (cases "w > 1")
    case True
    then have "nat (w - 1) = Suc (nat (w - 1 - 1))" by simp
    then show ?thesis using 1 True by (simp add: width_loop.simps[of _ w] int32_id)
  qed (use 1 in \<open>simp add: width_loop.simps int32_id\<close>)
qed

lemma digits_loop_digits:
  "base > 1 \<Longrightarrow> num \<noteq> 0 \<Longrightarrow> digits_loop l base num tmp = tmp @ rev (map (digit_char l) (digits base num))"
proof (induction l base num tmp rule: digits_loop.induct)
  case (1 l base num tmp)
  show ?case
  proof (cases "num < base")
    case True
    then show ?thesis using 1(2,3)
      by (simp add: digits_loop.simps[of _ _ num] digits_loop.simps[of _ _ 0] digits.simps)
  next
    case False
    then have "num div base \<noteq> 0" using 1(2) by (simp add: div_eq_0_iff)
    then show ?thesis using 1 False by (simp add: digits_loop.simps[of _ _ num] digits.simps[of base num])
  qed
qed

lemma copy_digits_emits:
  "i \<le> length tmp \<Longrightarrow> copy_digits endp tmp i p st = emits endp (if p = 0 then [] else rev (take i tmp)) st"
  by (induction i arbitrary: st) (auto simp: take_Suc_conv_app_nth)

lemma copy_str_emits: "copy_str endp s i n st = emits endp (map s [i..<i + n]) st"
  by (induction n arbitrary: i st) (simp_all add: upt_conv_Cons del: upt_Suc)

lemma emit_prefix_emits: "emit_prefix endp f base st = emits endp (prefix_text f base) st"
  by (simp add: emit_prefix_def prefix_text_def)

lemma prefix_room:
  "(if SPECIAL \<in> f then (if base = 2 \<or> base = 16 then w - 2 else if base = 8 then w - 1 else w) else w) = w - int (length (prefix_text f base))"
  by (simp add: prefix_text_def)

lemma split_sign_zeropad: "split_sign (f - {ZEROPAD}) q n = split_sign f q n" "prefix_text (f - {ZEROPAD}) b = prefix_text f b"
  by (simp_all add: split_sign_def prefix_text_def)

lemma number_tmp_digits: "base > 1 \<Longrightarrow> number_tmp l base n = rev (map (digit_char l) (digits base n))"
  by (simp add: number_tmp_def digits_loop_digits digits.simps[of base 0] digit_char_def)

lemma print_layout_emits:
  assumes "\<not> (LEFT \<in> f \<and> ZEROPAD \<in> f)" and pre: "pre = prefix_text f base"
    and "-3 \<le> w" "w < 2 ^ 31" "p < 2 ^ 31 - 64" "length ds \<le> 32"
  shows "print_layout endp sign (rev ds) base w p f st =
    emits endp (layout_text (sign_text sign) pre ds (w + int (length pre)) p f) st"
proof -
  define n z where "n = length ds" and "z = nat p - n"
  define x where "x = w - int z - int n"
  have z: "nat (max (int n) p - int n) = z" "w - max (int n) p = x" "w - 1 - int z - int n = x - 1"
    "max (int n) p < w \<longleftrightarrow> 0 < x" "nat (if 0 < x then x - 1 else x) = nat (x - 1)" by (auto simp: z_def x_def)
  have z0: "w - int n = x" if "p = 0" using that by (simp add: z_def x_def)
  have r: "- (2 ^ 31) + 60 \<le> x" "x < 2 ^ 31" "0 \<le> max (int n) p" "max (int n) p < 2 ^ 31" using assms(3-6) by (auto simp: x_def z_def n_def)
  have i: "int32 x = x" "int32 (x - 1) = x - 1" "int32 (x - 2) = x - 2" "int32 (x - 3) = x - 3" "int32 (- 2) = - 2"
    by (rule int32_id; use r in simp)+
  have cd: "copy_digits endp (rev ds) n p st = emits endp (if p = 0 then [] else ds) st" for st
    by (simp add: copy_digits_emits n_def)
  show ?thesis
    using assms(1) r unfolding print_layout_def layout_text_def
    by (cases sign; cases "LEFT \<in> f"; cases "ZEROPAD \<in> f")
      (simp_all add: Let_def sign_text_def pad_loop_emits fill_loop_emits emit_prefix_emits pre[symmetric]
        n_def[symmetric] z_def[symmetric] x_def[symmetric] z z0 cd i del: of_nat_diff max_less_iff_conj)
qed

lemma digits_length: "b \<ge> 2 \<Longrightarrow> n < 2 ^ Suc k \<Longrightarrow> length (digits b n) \<le> Suc k"
proof (induction k arbitrary: n)
  case 0
  then show ?case by (simp add: digits.simps)
next
  case (Suc k)
  have "n div b \<le> n div 2" using Suc.prems(1) by (simp add: div_le_mono2)
  then have "n div b < 2 ^ Suc k" using Suc.prems(2) by simp
  then show ?case using Suc by (simp add: digits.simps[of b n])
qed

lemma split_sign_bound: "num < 2 ^ 32 \<Longrightarrow> snd (split_sign f q num) < 2 ^ 32"
  using mod_less_divisor[of "2 ^ 16" "2 ^ 32 - num"] by (auto simp: split_sign_def Let_def)

lemma print_number_emits:
  assumes "base > 1" and "num < 2 ^ 32" and w: "-1 \<le> w" "w < 2 ^ 31" and p: "p < 2 ^ 31 - 64"
  shows "print_number endp num base q w p f st = emits endp (number_text num base q w p f) st"
proof -
  let ?f = "if LEFT \<in> f then f - {ZEROPAD} else f"
  obtain sign mag where sm: "split_sign f q num = (sign, mag)" by fastforce
  have len: "length (digits base mag) \<le> 32"
    using digits_length[of base mag 31] split_sign_bound[OF assms(2), of f q] assms(1) sm by simp
  have pre: "length (prefix_text f base) \<le> 2" by (simp add: prefix_text_def)
  have wrap: "int32 (w - 1) = w - 1" "int32 (w - 2) = w - 2" by (rule int32_id; use w in simp)+
  have room: "(if SPECIAL \<in> f then (if base = 2 \<or> base = 16 then int32 (w - 2) else if base = 8 then int32 (w - 1) else w) else w) =
      w - int (length (prefix_text f base))" unfolding wrap by (rule prefix_room)
  have "layout_text sg pre ds w p ?f = layout_text sg pre ds w p f" for sg pre ds by (simp add: layout_text_def)
  then show ?thesis
    using print_layout_emits[where f = ?f and pre = "prefix_text f base" and base = base and endp = endp and sign = sign and st = st
        and ds = "map (digit_char (LARGE \<in> f)) (digits base mag)" and w = "w - int (length (prefix_text f base))" and p = p] w p len pre
    by (cases "LEFT \<in> f")
      (simp_all add: print_number_def number_text_def Let_def split_sign_zeropad sm room number_tmp_digits[OF assms(1)])
qed

section \<open>Directives, read exactly\<close>

text \<open>The reference for widths and precisions: the numbers that the digits and the arguments stand for.\<close>

fun dec_value :: "int \<Rightarrow> string \<Rightarrow> int \<times> string" where
  "dec_value i [] = (i, [])"
| "dec_value i (c # s) = (if ISDIGIT c then dec_value (10 * i + (of_char c - of_char CHR ''0'')) s else (i, c # s))"

definition spec_width :: "pflag set \<Rightarrow> string \<Rightarrow> va_list \<Rightarrow> int \<times> pflag set \<times> string \<times> va_list" where
  "spec_width f s ap =
     (if first_is ISDIGIT s then (let (w, r) = dec_value 0 s in (w, f, r, ap))
      else if first_is ((=) CHR ''*'') s then
        (let (v, ap1) = va_arg ap in (\<bar>sint v\<bar>, if sint v < 0 then insert LEFT f else f, tl s, ap1))
      else (-1, f, s, ap))"

definition spec_precision :: "string \<Rightarrow> va_list \<Rightarrow> int \<times> string \<times> va_list" where
  "spec_precision s ap =
     (if first_is ((=) CHR ''.'') s then
        (if first_is ISDIGIT (tl s) then (let (p, r) = dec_value 0 (tl s) in (p, r, ap))
         else if first_is ((=) CHR ''*'') (tl s) then (let (v, ap1) = va_arg ap in (max 0 (sint v), tl (tl s), ap1))
         else (0, tl s, ap))
      else (-1, s, ap))"

definition spec_directive :: "string \<Rightarrow> va_list \<Rightarrow> directive \<times> string \<times> va_list" where
  "spec_directive s ap =
     (let (f, s1) = parse_flags {} s;
          (w, f1, s2, ap1) = spec_width f s1 ap;
          (p, s3, ap2) = spec_precision s2 ap1;
          (q, s4) = parse_qualifier s3
      in (\<lparr>dr_flags = f1, dr_width = w, dr_precision = p, dr_qualifier = q\<rparr>, s4, ap2))"

text \<open>What 32 bits have room for, with some to spare for the sign, the prefix and the counters of the loops.\<close>

definition fits :: "directive \<Rightarrow> bool" where
  "fits d \<longleftrightarrow> dr_width d < 2 ^ 31 \<and> dr_precision d < 2 ^ 31 - 64"

lemma skip_atoi_wraps: "skip_atoi (int32 i) s = (int32 (fst (dec_value i s)), snd (dec_value i s))"
proof (induction s arbitrary: i)
  case (Cons c s)
  have "(int32 i * 10 + k) mod 2 ^ 32 = (10 * i + k) mod 2 ^ 32" for k
    using int32_mod[of i] by (metis mod_add_left_eq mod_mult_left_eq mult.commute)
  then have "int32 (int32 i * 10 + of_char c - of_char CHR ''0'') = int32 (10 * i + (of_char c - of_char CHR ''0''))"
    unfolding add_diff_eq[symmetric] by (intro int32_eqI)
  then show ?case using Cons by simp
qed simp

lemma dec_value_nonneg: "0 \<le> i \<Longrightarrow> 0 \<le> fst (dec_value i s)"
proof (induction s arbitrary: i)
  case (Cons c s)
  have "(0 :: int) \<le> of_char c - of_char CHR ''0''" if "ISDIGIT c"
  proof -
    have "int (of_char CHR ''0'') \<le> int (of_char c)" using that by (simp only: ISDIGIT_def of_nat_le_iff)
    then show ?thesis unfolding of_nat_of_char by simp
  qed
  then show ?case using Cons by simp
qed simp

lemma skip_atoi_0: "skip_atoi 0 s = (int32 (fst (dec_value 0 s)), snd (dec_value 0 s))"
  using skip_atoi_wraps[of 0 s] by (simp add: int32_def)

lemma sint_range: "- (2 ^ 31) \<le> sint (v :: u32w)" "sint (v :: u32w) < 2 ^ 31"
  using sint_ge[of v] sint_less[of v] by simp_all

lemma parse_width_exact:
  "snd (parse_width f s ap) = snd (spec_width f s ap)" "-1 \<le> fst (spec_width f s ap)"
  "fst (spec_width f s ap) < 2 ^ 31 \<Longrightarrow> fst (parse_width f s ap) = fst (spec_width f s ap)"
  using dec_value_nonneg[of 0 s] sint_range[of "fst (va_arg ap)"]
  by (auto simp: parse_width_def spec_width_def skip_atoi_0 int32_id Let_def split: prod.splits)

lemma parse_precision_exact:
  "snd (parse_precision s ap) = snd (spec_precision s ap)" "-1 \<le> fst (spec_precision s ap)"
  "fst (spec_precision s ap) < 2 ^ 31 \<Longrightarrow> fst (parse_precision s ap) = fst (spec_precision s ap)"
  using dec_value_nonneg[of 0 "tl s"]
  by (auto simp: parse_precision_def spec_precision_def skip_atoi_0 int32_id Let_def split: prod.splits)

lemma spec_directive_rest: "snd (spec_directive s ap) = snd (parse_directive s ap)"
  and spec_directive_range: "-1 \<le> dr_width (fst (spec_directive s ap))" "-1 \<le> dr_precision (fst (spec_directive s ap))"
  and parse_directive_exact: "fits (fst (spec_directive s ap)) \<Longrightarrow> parse_directive s ap = spec_directive s ap"
proof -
  obtain f s1 where 1: "parse_flags {} s = (f, s1)" by fastforce
  obtain w f1 s2 ap1 where 2: "spec_width f s1 ap = (w, f1, s2, ap1)" by (cases "spec_width f s1 ap")
  obtain p s3 ap2 where 3: "spec_precision s2 ap1 = (p, s3, ap2)" by (cases "spec_precision s2 ap1")
  obtain q s4 where 4: "parse_qualifier s3 = (q, s4)" by fastforce
  obtain w' where ww: "parse_width f s1 ap = (w', f1, s2, ap1)" "-1 \<le> w" "w < 2 ^ 31 \<Longrightarrow> w' = w"
    using parse_width_exact[of f s1 ap] 2 by (cases "parse_width f s1 ap") auto
  obtain p' where pp: "parse_precision s2 ap1 = (p', s3, ap2)" "-1 \<le> p" "p < 2 ^ 31 \<Longrightarrow> p' = p"
    using parse_precision_exact[of s2 ap1] 3 by (cases "parse_precision s2 ap1") auto
  show "snd (spec_directive s ap) = snd (parse_directive s ap)" "-1 \<le> dr_width (fst (spec_directive s ap))"
    "-1 \<le> dr_precision (fst (spec_directive s ap))" "fits (fst (spec_directive s ap)) \<Longrightarrow> parse_directive s ap = spec_directive s ap"
    using 1 2 3 4 ww pp by (simp_all add: spec_directive_def parse_directive_def fits_def)
qed

section \<open>The text of a format\<close>

text \<open>The reference: every directive has a text, and a format is the concatenation of the texts of its parts.  Strings are given
  by the contents \<open>strs\<close> of the addresses that occur as arguments.\<close>

definition char_text :: "directive \<Rightarrow> char \<Rightarrow> string" where
  "char_text d c =
     (let pad = replicate (nat (dr_width d - 1)) CHR '' '' in if LEFT \<in> dr_flags d then c # pad else pad @ [c])"

definition string_text :: "directive \<Rightarrow> string \<Rightarrow> string" where
  "string_text d s =
     (let s1 = (if dr_width d < 0 then s else take (nat (dr_width d)) s);
          s2 = (if dr_precision d > 0 then take (nat (dr_precision d)) s1 else s1);
          pad = replicate (nat (dr_width d - int (length s2))) CHR '' ''
      in if LEFT \<in> dr_flags d then s2 @ pad else pad @ s2)"

definition pointer_text :: "directive \<Rightarrow> u32w \<Rightarrow> string" where
  "pointer_text d v =
     (let (w, f) = (if dr_width d = -1 then (10, {SPECIAL, ZEROPAD} \<union> dr_flags d) else (dr_width d, dr_flags d))
      in number_text (unat v) 16 (dr_qualifier d) w (dr_precision d) f)"

definition num_text :: "directive \<Rightarrow> nat \<Rightarrow> pflag set \<Rightarrow> u32w \<Rightarrow> string" where
  "num_text d base f v = number_text (number_arg d f v) base (dr_qualifier d) (dr_width d) (dr_precision d) f"

definition chars_of :: "u8 list \<Rightarrow> string" where
  "chars_of bs = map (\<lambda>b. char_of (unat b)) bs"

definition conv_text :: "(u32w \<Rightarrow> u8 list) \<Rightarrow> directive \<Rightarrow> char \<Rightarrow> va_list \<Rightarrow> va_list \<times> string" where
  "conv_text strs d c ap =
     (let f = dr_flags d; (v, ap1) = va_arg ap in
      if c = CHR ''c'' then (ap1, char_text d (char_of (unat (ucast v :: u8))))
      else if c = CHR ''s'' then (ap1, string_text d (if v = 0 then ''(null)'' else chars_of (strs v)))
      else if c = CHR ''p'' then (ap1, pointer_text d v)
      else if c = CHR ''%'' then (ap, ''%'')
      else if c = CHR ''b'' then (ap1, num_text d 2 f v)
      else if c = CHR ''o'' then (ap1, num_text d 8 f v)
      else if c = CHR ''X'' then (ap1, num_text d 16 (insert LARGE f) v)
      else if c = CHR ''x'' then (ap1, num_text d 16 f v)
      else if c = CHR ''d'' \<or> c = CHR ''i'' then (ap1, num_text d 10 (insert SIGN f) v)
      else if c = CHR ''u'' then (ap1, num_text d 10 f v)
      else (if c \<in> set ''eEGgfF'' then va_arg_double ap else ap, [CHR ''%'', c]))"

function format_text :: "(u32w \<Rightarrow> u8 list) \<Rightarrow> string \<Rightarrow> va_list \<Rightarrow> string" where
  "format_text strs [] ap = []"
| "format_text strs (c # fmt) ap =
     (if c \<noteq> CHR ''%'' then c # format_text strs fmt ap
      else
        (case spec_directive fmt ap of
           (d, [], ap1) \<Rightarrow> ''%''
         | (d, k # rest, ap1) \<Rightarrow> (case conv_text strs d k ap1 of (ap2, t) \<Rightarrow> t @ format_text strs rest ap2)))"
  by pat_completeness auto

termination
proof (relation "measure (\<lambda>(strs, fmt, ap). length fmt)", goal_cases)
  case (3 strs c fmt ap)
  then show ?case using parse_directive_length[of fmt ap] spec_directive_rest[of fmt ap] by (cases "parse_directive fmt ap"; cases "spec_directive fmt ap") auto
qed auto

text \<open>All widths and precisions of a format fit.\<close>

function format_fits :: "string \<Rightarrow> va_list \<Rightarrow> bool" where
  "format_fits [] ap \<longleftrightarrow> True"
| "format_fits (c # fmt) ap \<longleftrightarrow>
     (if c \<noteq> CHR ''%'' then format_fits fmt ap
      else
        (case spec_directive fmt ap of
           (d, [], ap1) \<Rightarrow> fits d
         | (d, k # rest, ap1) \<Rightarrow> fits d \<and> format_fits rest (fst (conv_text (\<lambda>_. []) d k ap1))))"
  by pat_completeness auto

termination
proof (relation "measure (\<lambda>(fmt, ap). length fmt)", goal_cases)
  case (3 c fmt ap)
  then show ?case using parse_directive_length[of fmt ap] spec_directive_rest[of fmt ap] by (cases "parse_directive fmt ap"; cases "spec_directive fmt ap") auto
qed auto

text \<open>Every word of the argument list that is used as a string is the address of one.\<close>

definition strings_at :: "memory \<Rightarrow> (u32w \<Rightarrow> u8 list) \<Rightarrow> (nat \<Rightarrow> u32w) \<Rightarrow> bool" where
  "strings_at rom strs ws \<longleftrightarrow> (\<forall>i. ws i \<noteq> 0 \<longrightarrow> cstr_at rom (unat (ws i)) (strs (ws i)))"

lemma char_of_u8: "char_of (unat b) = CHR 0x00 \<longleftrightarrow> b = (0 :: u8)"
proof -
  have "unat b < 256" by (rule order.strict_trans2[OF unsigned_less]) simp
  then have "take_bit 8 (unat b) = unat b" by (simp add: take_bit_nat_eq_self)
  then show ?thesis by (simp add: char_of_eq_iff unat_eq_zero)
qed

lemma str_len_list:
  assumes "\<And>i. i < length s \<Longrightarrow> f i \<noteq> CHR 0x00" and "f (length s) = CHR 0x00" and "n \<le> length s" and "w < 0 \<or> int n \<le> w"
  shows "str_len f w n = Some (if w < 0 then length s else min (length s) (nat w))"
  using assms(3,4)
proof (induction "length s - n" arbitrary: n)
  case 0
  then show ?case using assms(2) by (auto simp: str_len.simps[of _ _ n])
next
  case (Suc k)
  then show ?case using assms(1)[of n] by (cases "int n = w") (auto simp: str_len.simps[of _ _ n])
qed

lemma convert_string_emits:
  assumes "\<And>i. i < length s \<Longrightarrow> f i = s ! i" and "CHR 0x00 \<notin> set s" and "f (length s) = CHR 0x00"
    and f: "f = (if v = 0 then null_text else (\<lambda>i. char_at rom (unat v + i)))" and ap: "va_arg ap = (v, ap1)"
    and w: "-1 \<le> dr_width d" "dr_width d < 2 ^ 31"
  shows "convert_string rom endp d ap st = Some (ap1, emits endp (string_text d s) st)"
proof -
  define a where "a = (if dr_width d < 0 then length s else min (length s) (nat (dr_width d)))"
  define b where "b = (if dr_precision d > 0 \<and> int a > dr_precision d then nat (dr_precision d) else a)"
  have "s ! i \<noteq> CHR 0x00" if "i < length s" for i using that assms(2) nth_mem by metis
  then have sl: "str_len f (dr_width d) 0 = Some a" unfolding a_def using assms(1,3) by (intro str_len_list) auto
  have s2: "(if dr_precision d > 0 then take (nat (dr_precision d)) (if dr_width d < 0 then s else take (nat (dr_width d)) s)
      else if dr_width d < 0 then s else take (nat (dr_width d)) s) = take b s"
    by (auto simp: a_def b_def min_def) (rule arg_cong[of _ _ "\<lambda>n. take n s"], linarith)
  have len: "b \<le> length s" by (auto simp: a_def b_def)
  have cp: "map f [0..<b] = take b s" using assms(1) len by (intro nth_equalityI) auto
  have layout: "string_text d s = (let pad = replicate (nat (dr_width d - int b)) CHR '' ''
      in if LEFT \<in> dr_flags d then take b s @ pad else pad @ take b s)"
    unfolding string_text_def Let_def s2 using len by simp
  show ?thesis
    unfolding convert_string_def ap Let_def case_prod_conv f[symmetric] sl option.case b_def[symmetric] layout
    using w by (simp add: fill_loop_emits copy_str_emits cp del: upt_Suc)
qed

lemma convert_string_text:
  assumes "strings_at rom strs (va_words ap)" and ap: "va_arg ap = (v, ap1)" and w: "-1 \<le> dr_width d" "dr_width d < 2 ^ 31"
  shows "convert_string rom endp d ap st =
    Some (ap1, emits endp (string_text d (if v = 0 then ''(null)'' else chars_of (strs v))) st)"
proof (cases "v = 0")
  case True
  then show ?thesis
    using convert_string_emits[of "''(null)''" null_text v rom ap ap1 d endp st] ap w by (simp add: null_text_def)
next
  case False
  then have c: "cstr_at rom (unat v) (strs v)" using assms by (auto simp: strings_at_def va_arg_def)
  then have z: "char_at rom (unat v + length (strs v)) = CHR 0x00" using char_of_u8[of 0] by (simp add: cstr_at_def char_at_def)
  have n: "\<And>i. i < length (strs v) \<Longrightarrow> rom (unat v + i) = strs v ! i \<and> strs v ! i \<noteq> 0" using c by (auto simp: cstr_at_def)
  then have "CHR 0x00 \<notin> set (chars_of (strs v))" by (auto simp: chars_of_def in_set_conv_nth char_of_u8 eq_commute[of "CHR 0x00"])
  then show ?thesis
    using convert_string_emits[of "chars_of (strs v)" "\<lambda>i. char_at rom (unat v + i)" v rom ap ap1 d endp st] ap w False z n
    by (simp add: chars_of_def char_at_def)
qed

lemma convert_char_emits:
  "-1 \<le> dr_width d \<Longrightarrow> dr_width d < 2 ^ 31 \<Longrightarrow> convert_char endp d ap st = (snd (va_arg ap), emits endp (char_text d (char_of (unat (ucast (fst (va_arg ap)) :: u8)))) st)"
  by (simp add: convert_char_def width_loop_emits char_text_def Let_def split: prod.split)

lemma number_arg_bound: "number_arg d f v < 2 ^ 32"
proof -
  have "unat (w :: u32w) < 2 ^ 32" for w using unsigned_less[of w, where ?'a = nat] by simp
  moreover have "unat (ucast v :: 16 word) < 2 ^ 32" by (rule order.strict_trans2[OF unsigned_less]) simp
  ultimately show ?thesis by (simp add: number_arg_def Let_def)
qed

lemma convert_number_emits:
  assumes "base > 1" and "-1 \<le> dr_width d" and "fits d"
  shows "convert_number endp d base f ap st = (snd (va_arg ap), emits endp (num_text d base f (fst (va_arg ap))) st)"
  using assms number_arg_bound[of d f "fst (va_arg ap)"]
  by (cases "va_arg ap") (simp add: convert_number_def print_number_emits num_text_def fits_def)

lemma convert_pointer_emits:
  assumes "-1 \<le> dr_width d" and "fits d"
  shows "convert_pointer endp d ap st = (snd (va_arg ap), emits endp (pointer_text d (fst (va_arg ap))) st)"
  using assms unsigned_less[of "fst (va_arg ap)", where ?'a = nat]
  by (cases "va_arg ap") (simp add: convert_pointer_def print_number_emits pointer_text_def fits_def)

lemma convert_emits:
  assumes "strings_at rom strs (va_words ap)" and d: "-1 \<le> dr_width d" "fits d"
  shows "convert rom endp d c ap st = Some (fst (conv_text strs d c ap), emits endp (snd (conv_text strs d c ap)) st)"
proof -
  obtain v ap1 where ap: "va_arg ap = (v, ap1)" by fastforce
  have w: "dr_width d < 2 ^ 31" using d(2) by (simp add: fits_def)
  show ?thesis
    unfolding convert_def conv_text_def Let_def ap case_prod_conv
    using convert_string_text[OF assms(1) ap d(1) w]
    by (simp add: convert_char_emits[OF d(1) w] convert_number_emits[OF _ d] convert_pointer_emits[OF d] ap)
qed

lemma conv_text_args: "fst (conv_text strs d c ap) = fst (conv_text strs' d c ap)"
  by (simp add: conv_text_def Let_def split: prod.split)

lemma conv_text_words: "va_words (fst (conv_text strs d c ap)) = va_words ap"
  by (simp add: conv_text_def va_arg_def va_arg_double_def Let_def)

lemma parse_width_words: "va_words (snd (snd (snd (parse_width f s ap)))) = va_words ap"
  by (simp add: parse_width_def va_arg_def Let_def split: prod.split)

lemma parse_precision_words: "va_words (snd (snd (parse_precision s ap))) = va_words ap"
  by (simp add: parse_precision_def va_arg_def Let_def split: prod.split)

lemma parse_directive_words: "va_words (snd (snd (parse_directive s ap))) = va_words ap"
proof -
  obtain f s1 where 1: "parse_flags {} s = (f, s1)" by fastforce
  obtain w f1 s2 ap1 where 2: "parse_width f s1 ap = (w, f1, s2, ap1)" by (cases "parse_width f s1 ap")
  obtain p s3 ap2 where 3: "parse_precision s2 ap1 = (p, s3, ap2)" by (cases "parse_precision s2 ap1")
  show ?thesis using parse_width_words[of f s1 ap] parse_precision_words[of s2 ap1] 1 2 3
    by (simp add: parse_directive_def split: prod.split)
qed

lemma vsn_loop_emits:
  assumes "strings_at rom strs (va_words ap)" and "format_fits fmt ap"
  shows "vsn_loop rom endp fmt ap st = Some (emits endp (format_text strs fmt ap) st)"
  using assms
proof (induction strs fmt ap arbitrary: st rule: format_text.induct)
  case (2 strs c fmt ap)
  obtain d rest ap1 where sd: "spec_directive fmt ap = (d, rest, ap1)" by (cases "spec_directive fmt ap")
  have w: "va_words ap1 = va_words ap" using parse_directive_words[of fmt ap] unfolding spec_directive_rest[symmetric] sd by simp
  show ?case
  proof (cases "c = CHR ''%''")
    case True
    have d: "fits d" "-1 \<le> dr_width d"
      using 2(4) True sd spec_directive_range[of fmt ap] by (auto split: list.splits)
    then have pd: "parse_directive fmt ap = (d, rest, ap1)" using parse_directive_exact[of fmt ap] sd by simp
    show ?thesis
    proof (cases rest)
      case (Cons k ks)
      obtain ap2 t where ct: "conv_text strs d k ap1 = (ap2, t)" by fastforce
      have "format_fits ks ap2" using 2(4) True sd Cons ct conv_text_args[of "\<lambda>_. []" d k ap1 strs] by simp
      then have "vsn_loop rom endp ks ap2 st = Some (emits endp (format_text strs ks ap2) st)" for st
        using 2(2) 2(3) True sd Cons ct w conv_text_words[of strs d k ap1] by simp
      then show ?thesis using True pd sd Cons ct convert_emits[of rom strs ap1 d endp k st] 2(3) w d by simp
    qed (use True pd sd in simp)
  qed (use 2 in simp)
qed simp

lemma emits_effect:
  assumes "str + length cs < 2 ^ 32"
  shows "emits endp cs (m, str) =
    (\<lambda>a. if str \<le> a \<and> a < str + length cs \<and> a < endp then byte_of (cs ! (a - str)) else m a, str + length cs)"
  using assms
proof (induction cs arbitrary: m str)
  case Nil
  then show ?case by (auto simp: fun_eq_iff)
next
  case (Cons c cs)
  then have "u32_add str 1 = str + 1" by (simp add: wrap_simps)
  then show ?case using Cons by (auto simp: emit_def fun_eq_iff nth_Cons')
qed

text \<open>The part of the buffer that lies below the last address of memory.\<close>

definition buf_room :: "addr \<Rightarrow> nat \<Rightarrow> nat" where
  "buf_room buf sz = (if buf + sz < 2 ^ 32 then sz else 2 ^ 32 - 1 - buf)"

lemma vsnprintf_bounds:
  assumes "buf < 2 ^ 32" and "sz < 2 ^ 32"
  shows "(if u32_add buf sz < buf then (2 ^ 32 - 1, u32_sub (2 ^ 32 - 1) buf) else (u32_add buf sz, sz)) =
    (buf + buf_room buf sz, buf_room buf sz)"
  using assms by (auto simp: buf_room_def u32_add_def u32_sub_id mod_if)

text \<open>What the buffer holds, given what the loop emits.\<close>

lemma rt_vsnprintf_emits:
  assumes buf: "buf < 2 ^ 32" "sz < 2 ^ 32" and l: "buf + length out < 2 ^ 32" "length out < 2 ^ 31"
    and loop: "vsn_loop rom (buf + buf_room buf sz) fmt ap (m, buf) = Some (emits (buf + buf_room buf sz) out (m, buf))"
  shows "\<exists>m'. rt_vsnprintf rom buf sz fmt ap m = Some (int (length out), m') \<and>
    (\<forall>a. a < buf \<or> buf + buf_room buf sz \<le> a \<longrightarrow> m' a = m a) \<and>
    (buf_room buf sz > 0 \<longrightarrow>
       bytes_at m' buf (min (length out) (buf_room buf sz - 1) + 1) = map byte_of (take (buf_room buf sz - 1) out) @ [0])"
proof -
  define room where "room = buf_room buf sz"
  define m1 where "m1 = (\<lambda>a. if buf \<le> a \<and> a < buf + length out \<and> a < buf + room then byte_of (out ! (a - buf)) else m a)"
  define m' where "m' = (if room > 0 then m1(buf + min (length out) (room - 1) := 0) else m1)"
  have room: "buf + room < 2 ^ 32" using buf by (auto simp: room_def buf_room_def)
  have "vsn_loop rom (buf + room) fmt ap (m, buf) = Some (m1, buf + length out)"
    using loop emits_effect[OF l(1), of "buf + room" m] by (simp add: m1_def room_def)
  moreover have "int32 (int (length out)) = int (length out)" by (rule int32_id) (use l(2) in simp_all)
  ultimately have "rt_vsnprintf rom buf sz fmt ap m = Some (int (length out), m')"
    unfolding rt_vsnprintf_def Let_def vsnprintf_bounds[OF buf] room_def[symmetric]
    using room l by (auto simp: m'_def u32_sub_id min_def)
  moreover have "m' a = m a" if "a < buf \<or> buf + room \<le> a" for a
    using that by (auto simp: m'_def m1_def)
  moreover have "bytes_at m' buf (min (length out) (room - 1) + 1) = map byte_of (take (room - 1) out) @ [0]" if "room > 0"
    using that by (intro nth_equalityI) (auto simp: bytes_at_def m'_def m1_def nth_append less_Suc_eq)
  ultimately show ?thesis unfolding room_def[symmetric] by blast
qed

text \<open>C17: For a format whose widths and precisions fit 32 bits and a text that is shorter than 2 GB, \<^verbatim>\<open>rt_vsnprintf\<close> returns the
  length of the full text of the format, writes as many of its characters as fit in the buffer with a terminator after them, and touches no
  byte outside of the buffer, whatever the format and the arguments are.  (Its comment says that the result is the number of
  characters actually written, which is smaller when the text does not fit.)\<close>

theorem rt_vsnprintf_truncates:
  assumes strs: "strings_at rom strs (va_words ap)" and buf: "buf < 2 ^ 32" "sz < 2 ^ 32" and fits: "format_fits fmt ap"
    and len: "buf + length (format_text strs fmt ap) < 2 ^ 32" "length (format_text strs fmt ap) < 2 ^ 31"
  shows "let out = format_text strs fmt ap; room = buf_room buf sz
    in \<exists>m'. rt_vsnprintf rom buf sz fmt ap m = Some (int (length out), m') \<and>
         (\<forall>a. a < buf \<or> buf + room \<le> a \<longrightarrow> m' a = m a) \<and>
         (room > 0 \<longrightarrow> bytes_at m' buf (min (length out) (room - 1) + 1) = map byte_of (take (room - 1) out) @ [0])"
  unfolding Let_def by (rule rt_vsnprintf_emits[OF buf len vsn_loop_emits[OF strs fits]])

section \<open>Numbers are printed as they are read\<close>

lemma digits_bound: "base > 1 \<Longrightarrow> d \<in> set (digits base n) \<Longrightarrow> d < base"
proof (induction base n rule: digits.induct)
  case (1 b n)
  then show ?case by (cases "n < b") (auto simp: digits.simps[of b n])
qed

lemma digit_char_digit:
  assumes "d < 10"
  shows "ISDIGIT (digit_char l d)" "(of_char (digit_char l d) :: int) = of_char CHR ''0'' + int d"
proof -
  have "d \<in> {0, 1, 2, 3, 4} \<or> d \<in> {5, 6, 7, 8, 9}" using assms by auto
  then have "ISDIGIT (digit_char l d) \<and> (of_char (digit_char l d) :: int) = of_char CHR ''0'' + int d"
    by (auto simp: digit_char_def ISDIGIT_def)
  then show "ISDIGIT (digit_char l d)" "(of_char (digit_char l d) :: int) = of_char CHR ''0'' + int d" by auto
qed

lemma dec_value_append:
  "list_all ISDIGIT s \<Longrightarrow> dec_value i (s @ t) = dec_value (fst (dec_value i s)) t"
  by (induction s arbitrary: i) auto

lemma digits_10_chars: "list_all ISDIGIT (map (digit_char l) (digits 10 n))"
  using digits_bound[of 10 _ n] digit_char_digit by (auto simp: list_all_iff)

lemma dec_value_digits: "dec_value 0 (map (digit_char l) (digits 10 n)) = (int n, [])"
proof (induction n rule: less_induct)
  case (less n)
  show ?case
  proof (cases "n < 10")
    case True
    then show ?thesis by (simp add: digits.simps[of 10 n] digit_char_digit)
  next
    case False
    then have "10 * int (n div 10) + int (n mod 10) = int n" using div_mult_mod_eq[of n 10] by linarith
    then show ?thesis
      using False less[of "n div 10"] digits_10_chars[of l "n div 10"]
      by (simp add: digits.simps[of 10 n] dec_value_append digit_char_digit)
  qed
qed

lemma mod_half_turn:
  assumes "0 \<le> x" and "x < (2 ^ 32 :: int)"
  shows "(x + 2 ^ 31) mod 2 ^ 32 - 2 ^ 31 = (if x \<ge> 2 ^ 31 then x - 2 ^ 32 else x)"
proof (cases "x \<ge> 2 ^ 31")
  case True
  have "(x + 2 ^ 31) mod 2 ^ 32 = (x - 2 ^ 31 + 2 ^ 32) mod 2 ^ 32" by (rule arg_cong[of _ _ "\<lambda>k. k mod 2 ^ 32"]) simp
  also have "\<dots> = x - 2 ^ 31" using True assms by (simp only: mod_add_self2) simp
  finally show ?thesis using True by simp
next
  case False
  then have "(x + 2 ^ 31) mod 2 ^ 32 = x + 2 ^ 31" using assms by (intro mod_pos_pos_trivial) auto
  then show ?thesis using False by simp
qed

lemma sint_unat_u32: "sint (v :: u32w) = (if unat v \<ge> 2 ^ 31 then int (unat v) - 2 ^ 32 else int (unat v))"
proof -
  have "uint v < 2 ^ 32" using unsigned_less [of v, where ?'a = int] by simp
  moreover have "sint v = (uint v + 2 ^ 31) mod 2 ^ 32 - 2 ^ 31"
    by (simp add: sint_uint signed_take_bit_eq_take_bit_shift take_bit_eq_mod)
  moreover have "uint v \<ge> 2 ^ 31 \<longleftrightarrow> unat v \<ge> 2 ^ 31"
    using of_nat_le_iff[of "2 ^ 31" "unat v", where 'a = int] by simp
  ultimately show ?thesis using mod_half_turn[of "uint v"] by simp
qed

lemma plain_layout: "layout_text sg [] ds (-1) (-1) {} = sg @ ds" "layout_text sg [] ds (-1) (-1) {SIGN} = sg @ ds"
  by (simp_all add: layout_text_def)

lemma plain_directive:
  "spec_directive ''d'' ap = (\<lparr>dr_flags = {}, dr_width = -1, dr_precision = -1, dr_qualifier = None\<rparr>, ''d'', ap)"
  "spec_directive ''u'' ap = (\<lparr>dr_flags = {}, dr_width = -1, dr_precision = -1, dr_qualifier = None\<rparr>, ''u'', ap)"
  by (simp_all add: spec_directive_def spec_width_def spec_precision_def parse_qualifier_def first_is_def ISDIGIT_def)

declare format_text.simps [simp del]

lemmas plain_text_simps = format_text.simps plain_directive conv_text_def va_arg_def Let_def num_text_def number_text_def number_arg_def
  split_sign_def sign_text_def prefix_text_def plain_layout

lemma plain_text:
  fixes v :: u32w
  defines "d \<equiv> \<lparr>dr_flags = {}, dr_width = -1, dr_precision = -1, dr_qualifier = None\<rparr>"
  shows "num_text d 10 {} v = map (digit_char False) (digits 10 (unat v))"
    "num_text d 10 {SIGN} v =
      (if unat v \<ge> 2 ^ 31 then CHR ''-'' # map (digit_char False) (digits 10 (2 ^ 32 - unat v)) else map (digit_char False) (digits 10 (unat v)))"
proof -
  have b: "unat v < 2 ^ 32" using unsigned_less [of v, where ?'a = nat] by simp
  show "num_text d 10 {} v = map (digit_char False) (digits 10 (unat v))" by (simp add: d_def plain_text_simps)
  show "num_text d 10 {SIGN} v =
      (if unat v \<ge> 2 ^ 31 then CHR ''-'' # map (digit_char False) (digits 10 (2 ^ 32 - unat v)) else map (digit_char False) (digits 10 (unat v)))"
    using b by (simp add: d_def plain_text_simps)
qed

lemma vsn_loop_plain:
  fixes ap
  defines "d \<equiv> \<lparr>dr_flags = {}, dr_width = -1, dr_precision = -1, dr_qualifier = None\<rparr>" and "v \<equiv> va_words ap (va_pos ap)"
  shows "vsn_loop rom endp ''%u'' ap st = Some (emits endp (num_text d 10 {} v) st)"
    "vsn_loop rom endp ''%d'' ap st = Some (emits endp (num_text d 10 {SIGN} v) st)"
proof -
  have fits: "fits d" "-1 \<le> dr_width d" by (simp_all add: d_def fits_def)
  have pd: "parse_directive ''u'' ap = (d, ''u'', ap)" "parse_directive ''d'' ap = (d, ''d'', ap)"
    using parse_directive_exact[of "''u''" ap] parse_directive_exact[of "''d''" ap] fits(1)
    unfolding plain_directive by (simp_all add: d_def)
  have c: "convert rom endp d CHR ''u'' ap st = Some (snd (va_arg ap), emits endp (num_text d 10 {} v) st)"
    "convert rom endp d CHR ''d'' ap st = Some (snd (va_arg ap), emits endp (num_text d 10 {SIGN} v) st)"
    by (simp_all add: convert_def convert_number_emits[OF _ fits(2,1)] va_arg_def v_def Let_def) (simp_all add: d_def)
  show "vsn_loop rom endp ''%u'' ap st = Some (emits endp (num_text d 10 {} v) st)"
    "vsn_loop rom endp ''%d'' ap st = Some (emits endp (num_text d 10 {SIGN} v) st)"
    by (simp_all add: pd c)
qed

lemma digits_10_length: "n < 2 ^ 32 \<Longrightarrow> length (digits 10 n) \<le> 10"
proof -
  have "n < 10 ^ Suc k \<Longrightarrow> length (digits 10 n) \<le> Suc k" for k n
  proof (induction k arbitrary: n)
    case (Suc k)
    then have "n div 10 < 10 ^ Suc k" by (simp add: less_mult_imp_div_less)
    then show ?case using Suc.IH[of "n div 10"] by (simp add: digits.simps[of 10 n])
  qed (simp add: digits.simps)
  from this[of n 9] show "n < 2 ^ 32 \<Longrightarrow> ?thesis" by simp
qed

text \<open>A text of at most 11 characters in a buffer of at least 12 bytes.\<close>

lemma rt_vsnprintf_short:
  assumes "12 \<le> sz" and "sz < 2 ^ 32" and "buf + 12 < 2 ^ 32" and "length out \<le> 11"
    and "\<And>endp. vsn_loop rom endp fmt ap (m, buf) = Some (emits endp out (m, buf))"
  shows "\<exists>m'. rt_vsnprintf rom buf sz fmt ap m = Some (int (length out), m') \<and> bytes_at m' buf (length out + 1) = map byte_of out @ [0]"
proof -
  have room: "12 \<le> buf_room buf sz" using assms(1,3) by (auto simp: buf_room_def)
  obtain m' where "rt_vsnprintf rom buf sz fmt ap m = Some (int (length out), m')"
    "bytes_at m' buf (min (length out) (buf_room buf sz - 1) + 1) = map byte_of (take (buf_room buf sz - 1) out) @ [0]"
    using rt_vsnprintf_emits[of buf sz out rom fmt ap m] assms room by auto
  moreover have "min (length out) (buf_room buf sz - 1) = length out" "take (buf_room buf sz - 1) out = out" using room assms(4) by simp_all
  ultimately show ?thesis by auto
qed

text \<open>C36: Printed with \<^verbatim>\<open>%u\<close> or \<^verbatim>\<open>%d\<close> into a buffer of at least 12 bytes, a word leaves in the buffer its decimal text and a
  terminator, and the routine returns the length of that text; the text stands for the unsigned or the signed value of the word,
  with a minus sign in front when it is negative.\<close>

theorem rt_vsnprintf_number_roundtrip:
  assumes "12 \<le> sz" and "sz < 2 ^ 32" and "buf + 12 < 2 ^ 32"
  shows "let v = va_words ap (va_pos ap) in
    (\<exists>u m'. rt_vsnprintf rom buf sz ''%u'' ap m = Some (int (length u), m') \<and> bytes_at m' buf (length u + 1) = map byte_of u @ [0] \<and>
       dec_value 0 u = (uint v, [])) \<and>
    (\<exists>d m'. rt_vsnprintf rom buf sz ''%d'' ap m = Some (int (length d), m') \<and> bytes_at m' buf (length d + 1) = map byte_of d @ [0] \<and>
       (if sint v < 0 then hd d = CHR ''-'' \<and> dec_value 0 (tl d) = (- sint v, []) else dec_value 0 d = (sint v, [])))"
proof -
  define v where "v = va_words ap (va_pos ap)"
  let ?d = "\<lparr>dr_flags = {}, dr_width = -1, dr_precision = -1, dr_qualifier = None\<rparr>"
  let ?u = "num_text ?d 10 {} v" and ?s = "num_text ?d 10 {SIGN} v"
  have b: "unat v < 2 ^ 32" "uint v < 2 ^ 32"
    using unsigned_less [of v, where ?'a = nat] unsigned_less [of v, where ?'a = int] by simp_all
  have val: "sint v = (if unat v \<ge> 2 ^ 31 then int (unat v) - 2 ^ 32 else int (unat v))" by (simp add: sint_unat_u32)
  have "length ?u \<le> 11" "length ?s \<le> 11"
    using digits_10_length[OF b(1)] digits_10_length[of "2 ^ 32 - unat v"] by (auto simp: plain_text)
  then obtain m1 m2 where "rt_vsnprintf rom buf sz ''%u'' ap m = Some (int (length ?u), m1)" "bytes_at m1 buf (length ?u + 1) = map byte_of ?u @ [0]"
    "rt_vsnprintf rom buf sz ''%d'' ap m = Some (int (length ?s), m2)" "bytes_at m2 buf (length ?s + 1) = map byte_of ?s @ [0]"
    using rt_vsnprintf_short[OF assms _ vsn_loop_plain(1)] rt_vsnprintf_short[OF assms _ vsn_loop_plain(2)] v_def by metis
  moreover have "dec_value 0 ?u = (uint v, [])" by (simp add: plain_text dec_value_digits)
  moreover have "if sint v < 0 then hd ?s = CHR ''-'' \<and> dec_value 0 (tl ?s) = (- sint v, []) else dec_value 0 ?s = (sint v, [])"
    using b by (simp add: plain_text dec_value_digits val)
  ultimately show ?thesis unfolding Let_def v_def[symmetric] by blast
qed

theorem rt_vsnprintf_number_roundtrip_witness:
  "\<exists>d m'. rt_vsnprintf (\<lambda>a. 0) 100 16 ''%d'' \<lparr>va_words = \<lambda>i. - 7, va_pos = 0\<rparr> (\<lambda>a. 0) = Some (int (length d), m') \<and>
    bytes_at m' 100 (length d + 1) = map byte_of d @ [0] \<and> hd d = CHR ''-'' \<and> dec_value 0 (tl d) = (7, [])"
  using rt_vsnprintf_number_roundtrip[of 16 100 "\<lparr>va_words = \<lambda>i. - 7, va_pos = 0\<rparr>" "\<lambda>a. 0" "\<lambda>a. 0"] by simp

text \<open>A width cuts a string that is longer, where the C library would print all of it; a precision of zero prints no digit at all.\<close>

lemma string_width_cuts:
  "string_text \<lparr>dr_flags = {}, dr_width = int w, dr_precision = -1, dr_qualifier = None\<rparr> s = replicate (w - length s) CHR '' '' @ take w s"
  by (simp add: string_text_def)

lemma number_precision_zero: "number_text n 10 None (-1) 0 {} = []"
  by (simp add: number_text_def split_sign_def sign_text_def prefix_text_def layout_text_def)

text \<open>The text of \<^verbatim>\<open>%hhu\<close> for 200 is that of the 32-bit word with the sign bits of an 8-bit number.\<close>

lemma unsigned_byte_sign_extended:
  "num_text \<lparr>dr_flags = {}, dr_width = -1, dr_precision = -1, dr_qualifier = Some CHR ''H''\<rparr> 10 {} 200 = ''4294967240''"
  by (simp add: plain_text_simps digits.simps digit_char_def)

lemma rt_vsnprintf_truncates_witness:
  "let out = format_text (\<lambda>v. []) ''n=%u'' \<lparr>va_words = \<lambda>i. 42, va_pos = 0\<rparr>; room = buf_room 100 4
    in \<exists>m'. rt_vsnprintf (\<lambda>a. 0) 100 4 ''n=%u'' \<lparr>va_words = \<lambda>i. 42, va_pos = 0\<rparr> (\<lambda>a. 7) = Some (int (length out), m') \<and>
         (\<forall>a. a < 100 \<or> 100 + room \<le> a \<longrightarrow> m' a = 7) \<and>
         (room > 0 \<longrightarrow> bytes_at m' 100 (min (length out) (room - 1) + 1) = map byte_of (take (room - 1) out) @ [0])"
proof (rule rt_vsnprintf_truncates)
  show "strings_at (\<lambda>a. 0) (\<lambda>v. []) (va_words \<lparr>va_words = \<lambda>i. 42, va_pos = 0\<rparr>)" by (simp add: strings_at_def)
  show "100 + length (format_text (\<lambda>v. []) ''n=%u'' \<lparr>va_words = \<lambda>i. 42, va_pos = 0\<rparr>) < 2 ^ 32"
    "length (format_text (\<lambda>v. []) ''n=%u'' \<lparr>va_words = \<lambda>i. 42, va_pos = 0\<rparr>) < 2 ^ 31"
    by (simp_all add: plain_text_simps digits.simps)
  show "format_fits ''n=%u'' \<lparr>va_words = \<lambda>i. 42, va_pos = 0\<rparr>" by (simp add: plain_directive fits_def)
qed simp_all

end
