(* ===== verification/Lptimer.thy ===== *)
theory Lptimer
  imports Clock
begin

unbundle bit_operations_syntax

text \<open>
  Low-power timers: \<^verbatim>\<open>components/drivers/pm/lptimer.c\<close>.  A low-power timer is a kernel timer together
  with a node on a list of its own, from which power management reads when the system has to be awake
  again.  Low-power timer \<open>x\<close> embeds the kernel timer \<open>Obj_Timer x\<close>; the state is the list \<^verbatim>\<open>rt_soft_lptimer_list\<close>,
  front first, with the kernel.  A node that is on no list is linked to itself, so that \<^verbatim>\<open>rt_list_remove\<close> of it does
  nothing.  Interrupts are off in every operation, and none of them waits.

  Shown: the walk over the list finds the least distance to a running timer's deadline, with the ticks compared
  across their wrap-around; starting, stopping and detaching keep each timer on the list at most once, and
  a started timer's deadline is one of those the walk sees.  The second half is about moving the tick by
  several at once (\<^verbatim>\<open>rt_tick_increase_tick\<close>), as after a sleep: it returns, the tick is exact and no expired timer is
  left at the head of the timer list.
\<close>

section \<open>Operations\<close>

type_synonym lptimers = "nat list \<times> kernel"

definition lp_unlink :: "nat \<Rightarrow> nat list \<Rightarrow> nat list" where
  "lp_unlink x = filter (\<lambda>y. y \<noteq> x)"

definition rt_lptimer_init :: "nat \<Rightarrow> addr \<Rightarrow> addr \<Rightarrow> rt_tick_t \<Rightarrow> u8 \<Rightarrow> lptimers \<Rightarrow> lptimers" where
  "rt_lptimer_init x timeout param time flag = (\<lambda>(l, s). (l, timer_init (Obj_Timer x) timeout param time flag s))"

definition rt_lptimer_detach :: "nat \<Rightarrow> lptimers \<Rightarrow> rt_err_t \<times> lptimers" where
  "rt_lptimer_detach x = (\<lambda>(l, s). let (ret, s1) = rt_timer_detach (Obj_Timer x) s in (ret, (lp_unlink x l, s1)))"

definition rt_lptimer_start :: "nat \<Rightarrow> lptimers \<Rightarrow> rt_err_t \<times> lptimers" where
  "rt_lptimer_start x = (\<lambda>(l, s).
     let l1 = lp_unlink x l; (r, s1) = rt_timer_start (Obj_Timer x) s
     in if r = RT_EOK then (RT_EOK, (x # l1, s1)) else (- RT_ERROR, (l1, s1)))"

definition rt_lptimer_stop :: "nat \<Rightarrow> lptimers \<Rightarrow> rt_err_t \<times> lptimers" where
  "rt_lptimer_stop x = (\<lambda>(l, s).
     let l1 = lp_unlink x l; (r, s1) = rt_timer_stop (Obj_Timer x) s
     in if r = RT_EOK then (RT_EOK, (l1, s1)) else (- RT_ERROR, (l1, s1)))"

definition rt_lptimer_control :: "nat \<Rightarrow> timer_cmd \<Rightarrow> lptimers \<Rightarrow> nat option \<times> lptimers" where
  "rt_lptimer_control x cmd = (\<lambda>(l, s). let (r, s1) = rt_timer_control (Obj_Timer x) cmd s in (r, (l, s1)))"

text \<open>The loop of \<^verbatim>\<open>rt_lptimer_next_timeout_tick\<close>, with its variables \<^verbatim>\<open>min_tick\<close> and \<^verbatim>\<open>timeout_tick\<close>.\<close>

fun lptimer_min_loop :: "kernel \<Rightarrow> rt_tick_t \<Rightarrow> nat list \<Rightarrow> rt_tick_t \<times> rt_tick_t \<Rightarrow> rt_tick_t \<times> rt_tick_t" where
  "lptimer_min_loop s cur_tick [] m = m"
| "lptimer_min_loop s cur_tick (x # xs) (min_tick, timeout_tick) =
     lptimer_min_loop s cur_tick xs
       (if timer_active s (Obj_Timer x) then
          (let temp_tick = tm_timeout_tick (timers s (Obj_Timer x)) - cur_tick
           in if min_tick > temp_tick then (temp_tick, tm_timeout_tick (timers s (Obj_Timer x)))
              else (min_tick, timeout_tick))
        else (min_tick, timeout_tick))"

definition rt_lptimer_next_timeout_tick :: "lptimers \<Rightarrow> rt_tick_t" where
  "rt_lptimer_next_timeout_tick = (\<lambda>(l, s). snd (lptimer_min_loop s (rt_tick_get s) l (RT_TICK_MAX, RT_TICK_MAX)))"

section \<open>The nearest deadline\<close>

definition lp_due_in :: "kernel \<Rightarrow> nat \<Rightarrow> rt_tick_t" where
  "lp_due_in s x = tm_timeout_tick (timers s (Obj_Timer x)) - tick s"

definition lp_running :: "lptimers \<Rightarrow> nat set" where
  "lp_running = (\<lambda>(l, s). {x \<in> set l. timer_active s (Obj_Timer x)})"

lemma lp_running_Cons:
  "lp_running (x # l, s) = (if timer_active s (Obj_Timer x) then insert x (lp_running (l, s)) else lp_running (l, s))"
  by (auto simp: lp_running_def)

lemma finite_lp_running [simp]: "finite (lp_running (l, s))"
  by (simp add: lp_running_def)

lemma Min_insert_above:
  assumes "finite D" and "d \<in> D" and "d \<le> a"
  shows "Min (insert a D) = Min D"
proof -
  have "Min D \<le> a" using Min_le [OF assms(1,2)] assms(3) by simp
  then show ?thesis using assms(1,2) by (subst Min_insert) (auto simp: min_absorb2)
qed

lemma tick_le_max: "a \<le> RT_TICK_MAX"
proof -
  have "uint a < 2 ^ 32" using uint_lt2p [of a] by simp
  then show ?thesis by (simp add: RT_TICK_MAX_def word_le_def)
qed

lemma lptimer_min_loop_spec:
  "fst (lptimer_min_loop s (tick s) l (a, b)) = Min (insert a (lp_due_in s ` lp_running (l, s))) \<and>
   (lptimer_min_loop s (tick s) l (a, b) = (a, b) \<or>
    fst (lptimer_min_loop s (tick s) l (a, b)) < a \<and>
    snd (lptimer_min_loop s (tick s) l (a, b)) - tick s = fst (lptimer_min_loop s (tick s) l (a, b)))"
proof (induction l arbitrary: a b)
  case Nil
  show ?case by (simp add: lp_running_def)
next
  case (Cons x l)
  let ?D = "lp_due_in s ` lp_running (l, s)" and ?d = "lp_due_in s x"
  show ?case
  proof (cases "timer_active s (Obj_Timer x)")
    case False
    then show ?thesis using Cons.IH [of a b] by (simp add: lp_running_Cons del: Min_insert) metis
  next
    case act: True
    show ?thesis
    proof (cases "?d < a")
      case True
      then have "Min (insert a (insert ?d ?D)) = Min (insert ?d ?D)"
        by (intro Min_insert_above [where d = ?d]) simp_all
      then show ?thesis
        using act True Cons.IH [of ?d "tm_timeout_tick (timers s (Obj_Timer x))"]
        by (auto simp: lp_running_Cons Let_def lp_due_in_def [symmetric] simp del: Min_insert)
    next
      case False
      then have "Min (insert a (insert ?d ?D)) = Min (insert a ?D)"
        unfolding insert_commute [of a] by (intro Min_insert_above [where d = a]) simp_all
      then show ?thesis
        using act False Cons.IH [of a b]
        by (simp add: lp_running_Cons Let_def lp_due_in_def [symmetric] del: Min_insert) metis
    qed
  qed
qed

lemma next_timeout_nearest:
  assumes "x \<in> lp_running (l, s)" and "lp_due_in s x \<noteq> RT_TICK_MAX"
  shows "rt_lptimer_next_timeout_tick (l, s) - tick s = Min (lp_due_in s ` lp_running (l, s))"
proof -
  let ?D = "lp_due_in s ` lp_running (l, s)" and ?r = "lptimer_min_loop s (tick s) l (RT_TICK_MAX, RT_TICK_MAX)"
  have "lp_due_in s x < RT_TICK_MAX" using assms(2) tick_le_max by (simp add: order_less_le)
  moreover have "Min ?D \<le> lp_due_in s x" using assms(1) by simp
  ultimately have "Min ?D < RT_TICK_MAX" by simp
  moreover have ne: "?D \<noteq> {}" using assms(1) by blast
  moreover have "fst ?r = Min (insert RT_TICK_MAX ?D)"
    using lptimer_min_loop_spec [of s l RT_TICK_MAX RT_TICK_MAX] by blast
  ultimately have "fst ?r = Min ?D" "fst ?r \<noteq> RT_TICK_MAX" by (auto simp: min_absorb2)
  then show ?thesis
    using lptimer_min_loop_spec [of s l RT_TICK_MAX RT_TICK_MAX]
    by (auto simp: rt_lptimer_next_timeout_tick_def rt_tick_get_def)
qed

lemma next_timeout_none:
  assumes "lp_running (l, s) = {}"
  shows "rt_lptimer_next_timeout_tick (l, s) = RT_TICK_MAX"
  using lptimer_min_loop_spec [of s l RT_TICK_MAX RT_TICK_MAX] assms
  by (auto simp: rt_lptimer_next_timeout_tick_def rt_tick_get_def)

section \<open>Keeping the list\<close>

lemma lp_unlink_set [simp]: "set (lp_unlink x l) = set l - {x}"
  by (auto simp: lp_unlink_def)

lemma distinct_lp_unlink [simp]: "distinct l \<Longrightarrow> distinct (lp_unlink x l)"
  by (simp add: lp_unlink_def)

lemma exit_critical_timers_same: "kinv s \<Longrightarrow> timers_same s (rt_exit_critical s)"
  using rt_exit_critical_same(1) sched_same_timers by blast

lemma lp_running_cong:
  "timers s' = timers s \<Longrightarrow> lp_running (l, s') = lp_running (l, s)"
  "timers s' = timers s \<Longrightarrow> tick s' = tick s \<Longrightarrow> lp_due_in s' = lp_due_in s"
  by (auto simp: lp_running_def lp_due_in_def timer_active_def)

lemma rt_lptimer_start_ok:
  assumes "kinv s" and "distinct l" and "rt_lptimer_start x (l, s) = (r, (l', s'))"
  shows "r = RT_EOK" and "distinct l'" and "lp_running (l', s') = insert x (lp_running (l, s))"
    and "lp_due_in s' y = (if y = x then tm_init_tick (timers s (Obj_Timer x)) else lp_due_in s y)"
proof -
  define s1 where "s1 = timer_start (Obj_Timer x) (rt_enter_critical s)"
  have s': "r = RT_EOK" "l' = x # lp_unlink x l" "s' = rt_exit_critical s1"
    using assms(3)
    by (simp_all add: rt_lptimer_start_def rt_timer_start_def Let_def spin_defs s1_def split: if_splits)
  then show "r = RT_EOK" "distinct l'" using assms(2) by simp_all
  have "kinv s1" using assms(1) by (simp add: s1_def)
  then have same: "timers s' = timers s1" "tick s' = tick s1"
    using exit_critical_timers_same by (simp_all add: timers_same_def s'(3))
  have act: "timer_active s1 (Obj_Timer y) \<longleftrightarrow> y = x \<or> timer_active s (Obj_Timer y)" for y
    by (simp add: s1_def)
  show "lp_running (l', s') = insert x (lp_running (l, s))"
    unfolding lp_running_cong(1) [OF same(1)] by (auto simp: lp_running_def s'(2) act)
  show "lp_due_in s' y = (if y = x then tm_init_tick (timers s (Obj_Timer x)) else lp_due_in s y)"
    unfolding lp_running_cong(2) [OF same] by (simp add: lp_due_in_def s1_def timer_start_list)
qed

lemma exit_critical_lp:
  assumes "kinv s1" and "timers s1 = timers s" and "tick s1 = tick s"
  shows "lp_running (l, rt_exit_critical s1) = lp_running (l, s)" and "lp_due_in (rt_exit_critical s1) = lp_due_in s"
  using exit_critical_timers_same [OF assms(1)] assms(2,3)
    lp_running_cong(1) [of "rt_exit_critical s1" s l] lp_running_cong(2) [of "rt_exit_critical s1" s]
  by (simp_all add: timers_same_def)

lemma deactivate_lp:
  "lp_running (lp_unlink x l, timer_deactivate (Obj_Timer x) s) = lp_running (l, s) - {x}"
  "lp_due_in (timer_deactivate (Obj_Timer x) s) = lp_due_in s"
  by (auto simp: lp_running_def lp_due_in_def fun_eq_iff)

lemma rt_lptimer_stop_ok:
  assumes "kinv s" and "distinct l" and "rt_lptimer_stop x (l, s) = (r, (l', s'))"
  shows "distinct l'" and "lp_running (l', s') = lp_running (l, s) - {x}"
    and "lp_due_in s' = lp_due_in s" and "r = (if timer_active s (Obj_Timer x) then RT_EOK else - RT_ERROR)"
proof -
  define s1 where "s1 = (if timer_active s (Obj_Timer x)
    then timer_deactivate (Obj_Timer x) (timer_remove (Obj_Timer x) (rt_enter_critical s)) else rt_enter_critical s)"
  have eq: "l' = lp_unlink x l" "s' = rt_exit_critical s1"
      "r = (if timer_active s (Obj_Timer x) then RT_EOK else - RT_ERROR)"
    using assms(3)
    by (auto simp: rt_lptimer_stop_def rt_timer_stop_def Let_def spin_defs s1_def RT_EOK_def RT_ERROR_def split: if_splits)
  then show "distinct l'" "r = (if timer_active s (Obj_Timer x) then RT_EOK else - RT_ERROR)"
    using assms(2) by simp_all
  have k: "kinv s1" using assms(1) by (simp add: s1_def)
  have run: "lp_running (lp_unlink x l, s1) = lp_running (l, s) - {x}" "lp_due_in s1 = lp_due_in s"
    by (auto simp: s1_def lp_running_def lp_due_in_def fun_eq_iff)
  show "lp_running (l', s') = lp_running (l, s) - {x}" "lp_due_in s' = lp_due_in s"
    using exit_critical_lp [OF k refl refl] run by (simp_all add: eq)
qed

lemma rt_lptimer_detach_ok:
  assumes "kinv s" and "distinct l" and "rt_lptimer_detach x (l, s) = (r, (l', s'))"
  shows "r = RT_EOK" and "distinct l'" and "lp_running (l', s') = lp_running (l, s) - {x}"
    and "lp_due_in s' = lp_due_in s"
proof -
  define s1 where "s1 = timer_deactivate (Obj_Timer x) (timer_remove (Obj_Timer x) (rt_enter_critical s))"
  have eq: "l' = lp_unlink x l" "s' = rt_exit_critical s1" "r = RT_EOK"
    using assms(3) by (auto simp: rt_lptimer_detach_def rt_timer_detach_def Let_def spin_defs s1_def)
  then show "r = RT_EOK" "distinct l'" using assms(2) by simp_all
  have k: "kinv s1" using assms(1) by (simp add: s1_def)
  have run: "lp_running (lp_unlink x l, s1) = lp_running (l, s) - {x}" "lp_due_in s1 = lp_due_in s"
    by (auto simp: s1_def lp_running_def lp_due_in_def fun_eq_iff)
  show "lp_running (l', s') = lp_running (l, s) - {x}" "lp_due_in s' = lp_due_in s"
    using exit_critical_lp [OF k refl refl] run by (simp_all add: eq)
qed

section \<open>Several ticks at once\<close>

lemma timer_check_loop_tick:
  assumes "check_ok s" and "quiet cb" and "\<forall>y \<in> set (timer_list s). timer_active s y"
    and "timer_check_loop cb s = Some s'"
  shows "tick s' = tick s"
  using assms(1,3,4)
proof (induction "expired_count s" arbitrary: s rule: less_induct)
  case less
  show ?case
  proof (cases "\<exists>x xs. timer_list s = x # xs \<and> timer_expired s x")
    case True
    then obtain x xs where x: "timer_list s = x # xs" "timer_expired s x" by blast
    have act: "timer_active s x" using less.prems(2) x by simp
    note f = timer_fire_check_ok [OF less.prems(1) assms(2) x(1) act less.prems(2)]
    have "timer_check_loop cb (timer_fire cb x s) = Some s'"
      using less.prems(3) x by (subst (asm) timer_check_loop.simps) simp
    then have "tick s' = tick (timer_fire cb x s)" using less.hyps [OF f(3) [OF x(2)] f(1,2)] by simp
    then show ?thesis using timer_fire_result(2) [OF check_fire [OF less.prems(1)] assms(2) x(1) act] by simp
  next
    case False
    then show ?thesis
      using less.prems(3) by (subst (asm) timer_check_loop.simps) (auto split: list.splits if_splits)
  qed
qed

lemma rt_timer_check_exact:
  assumes "check_ok s" and "quiet cb" and "\<forall>y \<in> set (timer_list s). timer_active s y"
  shows "\<exists>s'. rt_timer_check cb s = Some s' \<and> kinv s' \<and> tick s' = tick s \<and>
    (\<forall>x xs. timer_list s' = x # xs \<longrightarrow> \<not> timer_expired s' x)"
proof -
  from timer_check_loop_returns [of "rt_enter_critical s" cb] assms obtain s'
    where s': "timer_check_loop cb (rt_enter_critical s) = Some s'" "check_ok s'"
      "\<forall>x xs. timer_list s' = x # xs \<longrightarrow> \<not> timer_expired s' x" by auto
  have k: "kinv s'" using s'(2) by (simp add: check_ok_def fire_ok_def)
  have "tick s' = tick s" using timer_check_loop_tick [OF _ assms(2) _ s'(1)] assms(1,3) by simp
  then show ?thesis
    using s' rt_exit_critical_kinv [OF k] exit_critical_timers(1,2) [OF k] exit_critical_timers_same [OF k]
    by (simp add: rt_timer_check_eq [OF assms(1)] timers_same_def)
qed

lemma sched_tick_increase_timers:
  assumes "kinv s"
  shows "timers_same s (rt_sched_tick_increase n s)" and "susp (rt_sched_tick_increase n s) t = susp s t"
proof -
  have rem: "kinv (upd_thread u (\<lambda>th. th\<lparr>th_remaining_tick := m\<rparr>) s)" for u m
    using assms by (rule kinv_upd_thread_neutral) simp_all
  have resched: "timers_same s0 (rt_sched_unlock_n_resched s0)" "susp (rt_sched_unlock_n_resched s0) t = susp s0 t"
    if "kinv s0" for s0
    using rt_schedule_same(1,2) [OF that]
    by (simp_all add: rt_sched_unlock_n_resched_def sched_same_def timers_same_def)
  have yield: "timers_same s0 (rt_sched_thread_yield u s0)" "susp (rt_sched_thread_yield u s0) t = susp s0 t" for s0 u
    by (auto simp: rt_sched_thread_yield_def timers_same_def upd_thread_def stat_simps)
  have upd: "timers_same s (upd_thread u (\<lambda>th. th\<lparr>th_remaining_tick := m\<rparr>) s)"
    "susp (upd_thread u (\<lambda>th. th\<lparr>th_remaining_tick := m\<rparr>) s) t = susp s t" for u m
    by (simp_all add: timers_same_def upd_thread_def)
  show "timers_same s (rt_sched_tick_increase n s)"
    using resched(1) yield(1) upd(1) rem rt_sched_thread_yield_kinv timers_same_trans
    by (simp add: rt_sched_tick_increase_def Let_def timers_same_def split: option.splits)
  show "susp (rt_sched_tick_increase n s) t = susp s t"
    using resched(2) yield(2) upd(2) rem rt_sched_thread_yield_kinv
    by (simp add: rt_sched_tick_increase_def Let_def split: option.splits)
qed

lemma rt_tick_increase_tick_exact:
  assumes "check_ok s" and "quiet cb" and "\<forall>y \<in> set (timer_list s). timer_active s y"
  shows "\<exists>s'. rt_tick_increase_tick cb n s = Some s' \<and> kinv s' \<and> tick s' = tick s + n \<and>
    (\<forall>x xs. timer_list s' = x # xs \<longrightarrow> \<not> timer_expired s' x)"
proof -
  let ?s0 = "s\<lparr>tick := tick s + n\<rparr>"
  let ?s1 = "rt_sched_tick_increase (unat n) ?s0"
  have k0: "kinv ?s0" using assms(1) by (simp add: check_ok_def fire_ok_def)
  note t = sched_tick_increase_timers [OF k0, of "unat n"]
  have "check_ok ?s1"
    using assms(1) t rt_sched_tick_increase_kinv [OF k0]
    by (simp add: check_ok_def fire_ok_def timers_same_def timer_periodic_def)
  moreover have "\<forall>y \<in> set (timer_list ?s1). timer_active ?s1 y"
    using assms(3) t(1) by (simp add: timers_same_def timer_active_def)
  ultimately have "\<exists>s'. rt_timer_check cb ?s1 = Some s' \<and> kinv s' \<and> tick s' = tick ?s1 \<and>
    (\<forall>x xs. timer_list s' = x # xs \<longrightarrow> \<not> timer_expired s' x)"
    by (rule rt_timer_check_exact [OF _ assms(2)])
  then show ?thesis using t(1) by (simp add: rt_tick_increase_tick_def timers_same_def)
qed

end
