(* ===== verification/Pm.thy ===== *)
theory Pm
  imports Lptimer
begin

unbundle bit_operations_syntax

text \<open>
  Power management: \<^verbatim>\<open>components/drivers/pm/pm.c\<close>.  The idle thread calls \<^verbatim>\<open>rt_system_power_manager\<close> whenever nothing
  else runs.  It picks a sleep mode from the requests of the rest of the system, tells the devices, programs a timer
  that runs during sleep, sleeps, and afterwards moves the kernel's tick by the time slept.

  The state \<open>pm_world\<close> holds \<^verbatim>\<open>struct rt_pm\<close>, the file's globals, the low-power timers and the kernel, the device
  drivers' own state \<^typ>\<open>'d\<close> and the hardware \<^typ>\<open>'h\<close> below the driver operations.  Code behind pointers is in \<open>pm_env\<close>: the
  driver's \<^verbatim>\<open>struct rt_pm_ops\<close> (whose functions work on the hardware; the board's are in \<open>Drv_Pm\<close>), the
  power operations of devices and the notification by the address of their structure, and the timeout functions of timers.
  A result \<open>None\<close> means that the call does not return or goes through a null pointer or past the end of an
  array.  Mode numbers, module numbers and counters are bytes in the code and natural numbers here; where
  a wider value is passed for a byte, the cut to eight bits is written out.

  The options are those of \<^verbatim>\<open>rtconfig.h\<close>: the mode thresholds are on (\<^verbatim>\<open>PM_ENABLE_THRESHOLD_SLEEP_MODE\<close>), a failed suspend
  of a device is ignored (\<^verbatim>\<open>PM_ENABLE_SUSPEND_SLEEP_MODE\<close> is off).  Operations that the code brackets with
  \<^verbatim>\<open>rt_hw_interrupt_disable\<close> are one step.
\<close>

section \<open>Data\<close>

definition PM_SLEEP_MODE_NONE :: nat where "PM_SLEEP_MODE_NONE = 0"
definition PM_SLEEP_MODE_IDLE :: nat where "PM_SLEEP_MODE_IDLE = 1"
definition PM_SLEEP_MODE_LIGHT :: nat where "PM_SLEEP_MODE_LIGHT = 2"
definition PM_SLEEP_MODE_DEEP :: nat where "PM_SLEEP_MODE_DEEP = 3"
definition PM_SLEEP_MODE_STANDBY :: nat where "PM_SLEEP_MODE_STANDBY = 4"
definition PM_SLEEP_MODE_SHUTDOWN :: nat where "PM_SLEEP_MODE_SHUTDOWN = 5"
definition PM_SLEEP_MODE_MAX :: nat where "PM_SLEEP_MODE_MAX = 6"

definition PM_RUN_MODE_NORMAL_SPEED :: nat where "PM_RUN_MODE_NORMAL_SPEED = 1"
definition PM_RUN_MODE_MAX :: nat where "PM_RUN_MODE_MAX = 4"

definition RT_PM_FREQUENCY_PENDING :: u8 where "RT_PM_FREQUENCY_PENDING = 1"

definition PM_POWER_ID :: nat where "PM_POWER_ID = 1"
definition PM_MODULE_MAX_ID :: nat where "PM_MODULE_MAX_ID = 17"

definition RT_PM_ENTER_SLEEP :: nat where "RT_PM_ENTER_SLEEP = 0"
definition RT_PM_EXIT_SLEEP :: nat where "RT_PM_EXIT_SLEEP = 1"

definition PM_BUSY_SLEEP_MODE :: nat where "PM_BUSY_SLEEP_MODE = PM_SLEEP_MODE_IDLE"
definition PM_LIGHT_THRESHOLD_TIME :: rt_tick_t where "PM_LIGHT_THRESHOLD_TIME = 5"
definition PM_DEEP_THRESHOLD_TIME :: rt_tick_t where "PM_DEEP_THRESHOLD_TIME = 20"
definition PM_STANDBY_THRESHOLD_TIME :: rt_tick_t where "PM_STANDBY_THRESHOLD_TIME = 100"
definition RT_PM_DEFAULT_SLEEP_MODE :: nat where "RT_PM_DEFAULT_SLEEP_MODE = PM_SLEEP_MODE_LIGHT"
definition RT_PM_DEFAULT_DEEPSLEEP_MODE :: nat where "RT_PM_DEFAULT_DEEPSLEEP_MODE = PM_SLEEP_MODE_DEEP"
definition RT_PM_DEFAULT_RUN_MODE :: nat where "RT_PM_DEFAULT_RUN_MODE = PM_RUN_MODE_NORMAL_SPEED"

lemmas pm_modes = PM_SLEEP_MODE_NONE_def PM_SLEEP_MODE_IDLE_def PM_SLEEP_MODE_LIGHT_def PM_SLEEP_MODE_DEEP_def
  PM_SLEEP_MODE_STANDBY_def PM_SLEEP_MODE_SHUTDOWN_def PM_SLEEP_MODE_MAX_def PM_BUSY_SLEEP_MODE_def
  RT_PM_DEFAULT_SLEEP_MODE_def RT_PM_DEFAULT_DEEPSLEEP_MODE_def

record rt_pm_module =
  req_status :: nat
  busy_flag :: bool
  pm_timeout :: rt_tick_t
  start_time :: rt_tick_t

text \<open>A node of the device list: its address, the device and the address of its operations.\<close>

record rt_device_pm =
  dp_node :: addr
  dp_device :: nat
  dp_ops :: "addr option"

text \<open>\<open>ops_set\<close> is \<^verbatim>\<open>ops != RT_NULL\<close>.\<close>

record rt_pm =
  modes :: "nat list"
  sleep_mode :: nat
  run_mode :: nat
  module_status :: "rt_pm_module list"
  sleep_status :: "u32w list list"
  device_list :: "rt_device_pm list"
  timer_mask :: u8
  pm_flags :: u8
  ops_set :: bool

record ('h, 'd) pm_world =
  w_pm :: rt_pm
  pm_default_sleep :: nat
  pm_default_deepsleep :: nat
  pm_notify :: "(addr \<times> addr) option"
  pm_init_flag :: bool
  w_lptimers :: "nat list"
  w_kernel :: kernel
  w_dev :: 'd
  w_hw :: 'h

text \<open>The functions of \<^verbatim>\<open>struct rt_pm_ops\<close>; \<open>None\<close> for a null pointer.\<close>

record 'h rt_pm_ops =
  op_sleep :: "(nat \<Rightarrow> 'h \<Rightarrow> 'h option) option"
  op_run :: "(nat \<Rightarrow> 'h \<Rightarrow> 'h option) option"
  op_timer_start :: "(rt_tick_t \<Rightarrow> 'h \<Rightarrow> 'h option) option"
  op_timer_stop :: "('h \<Rightarrow> 'h) option"
  op_timer_get_tick :: "('h \<Rightarrow> rt_tick_t \<times> 'h) option"

text \<open>The functions of \<^verbatim>\<open>struct rt_device_pm_ops\<close>.\<close>

record ('h, 'd) rt_device_pm_ops =
  dev_suspend :: "(nat \<Rightarrow> nat \<Rightarrow> ('h, 'd) pm_world \<Rightarrow> rt_err_t \<times> ('h, 'd) pm_world) option"
  dev_resume :: "(nat \<Rightarrow> nat \<Rightarrow> ('h, 'd) pm_world \<Rightarrow> ('h, 'd) pm_world) option"
  dev_frequency_change :: "(nat \<Rightarrow> nat \<Rightarrow> ('h, 'd) pm_world \<Rightarrow> rt_err_t \<times> ('h, 'd) pm_world) option"

record ('h, 'd) pm_env =
  e_ops :: "'h rt_pm_ops"
  e_dev :: "addr \<Rightarrow> ('h, 'd) rt_device_pm_ops"
  e_notify :: "addr \<Rightarrow> nat \<Rightarrow> nat \<Rightarrow> addr \<Rightarrow> ('h, 'd) pm_world \<Rightarrow> ('h, 'd) pm_world"
  e_timeout :: "nat \<Rightarrow> kernel \<Rightarrow> kernel"

definition upd_pm :: "(rt_pm \<Rightarrow> rt_pm) \<Rightarrow> ('h, 'd) pm_world \<Rightarrow> ('h, 'd) pm_world" where
  "upd_pm f w = w\<lparr>w_pm := f (w_pm w)\<rparr>"

definition set_sleep_mode :: "nat \<Rightarrow> ('h, 'd) pm_world \<Rightarrow> ('h, 'd) pm_world" where
  "set_sleep_mode m = upd_pm (\<lambda>pm. pm\<lparr>sleep_mode := m\<rparr>)"

definition set_hw :: "'h \<Rightarrow> ('h, 'd) pm_world \<Rightarrow> ('h, 'd) pm_world" where
  "set_hw h w = w\<lparr>w_hw := h\<rparr>"

section \<open>Driver operations\<close>

definition pm_lptimer_start :: "('h, 'd) pm_env \<Rightarrow> rt_tick_t \<Rightarrow> ('h, 'd) pm_world \<Rightarrow> ('h, 'd) pm_world option" where
  "pm_lptimer_start e timeout w =
     (case op_timer_start (e_ops e) of None \<Rightarrow> Some w | Some f \<Rightarrow> map_option (\<lambda>h. set_hw h w) (f timeout (w_hw w)))"

definition pm_lptimer_stop :: "('h, 'd) pm_env \<Rightarrow> ('h, 'd) pm_world \<Rightarrow> ('h, 'd) pm_world" where
  "pm_lptimer_stop e w = (case op_timer_stop (e_ops e) of None \<Rightarrow> w | Some f \<Rightarrow> set_hw (f (w_hw w)) w)"

definition pm_lptimer_get_timeout :: "('h, 'd) pm_env \<Rightarrow> ('h, 'd) pm_world \<Rightarrow> rt_tick_t \<times> ('h, 'd) pm_world" where
  "pm_lptimer_get_timeout e w =
     (case op_timer_get_tick (e_ops e) of
        None \<Rightarrow> (RT_TICK_MAX, w)
      | Some f \<Rightarrow> (let (t, h) = f (w_hw w) in (t, set_hw h w)))"

definition pm_sleep :: "('h, 'd) pm_env \<Rightarrow> nat \<Rightarrow> ('h, 'd) pm_world \<Rightarrow> ('h, 'd) pm_world option" where
  "pm_sleep e mode w =
     (case op_sleep (e_ops e) of None \<Rightarrow> Some w | Some f \<Rightarrow> map_option (\<lambda>h. set_hw h w) (f mode (w_hw w)))"

section \<open>Devices\<close>

text \<open>The loops over the device list.  They follow the links of the list as it is when the loop starts;
  the power operations of a device do not register or unregister devices.\<close>

fun suspend_loop :: "('h, 'd) pm_env \<Rightarrow> nat \<Rightarrow> rt_device_pm list \<Rightarrow> rt_err_t \<Rightarrow> ('h, 'd) pm_world \<Rightarrow>
    rt_err_t \<times> ('h, 'd) pm_world" where
  "suspend_loop e mode [] ret w = (ret, w)"
| "suspend_loop e mode (d # ds) ret w =
     (case Option.bind (dp_ops d) (\<lambda>a. dev_suspend (e_dev e a)) of
        None \<Rightarrow> suspend_loop e mode ds ret w
      | Some f \<Rightarrow>
          (let (ret1, w1) = f (dp_device d) mode w
           in if ret1 \<noteq> RT_EOK then (ret1, w1) else suspend_loop e mode ds ret1 w1))"

definition pm_device_suspend :: "('h, 'd) pm_env \<Rightarrow> nat \<Rightarrow> ('h, 'd) pm_world \<Rightarrow> rt_err_t \<times> ('h, 'd) pm_world" where
  "pm_device_suspend e mode w = suspend_loop e mode (device_list (w_pm w)) RT_EOK w"

fun resume_loop :: "('h, 'd) pm_env \<Rightarrow> nat \<Rightarrow> rt_device_pm list \<Rightarrow> ('h, 'd) pm_world \<Rightarrow> ('h, 'd) pm_world" where
  "resume_loop e mode [] w = w"
| "resume_loop e mode (d # ds) w =
     (case Option.bind (dp_ops d) (\<lambda>a. dev_resume (e_dev e a)) of
        None \<Rightarrow> resume_loop e mode ds w
      | Some f \<Rightarrow> resume_loop e mode ds (f (dp_device d) mode w))"

definition pm_device_resume :: "('h, 'd) pm_env \<Rightarrow> nat \<Rightarrow> ('h, 'd) pm_world \<Rightarrow> ('h, 'd) pm_world" where
  "pm_device_resume e mode w = resume_loop e mode (device_list (w_pm w)) w"

text \<open>Here a device without operations is a null pointer that is followed.\<close>

fun freq_loop :: "('h, 'd) pm_env \<Rightarrow> nat \<Rightarrow> rt_device_pm list \<Rightarrow> ('h, 'd) pm_world \<Rightarrow> ('h, 'd) pm_world option" where
  "freq_loop e mode [] w = Some w"
| "freq_loop e mode (d # ds) w =
     (case dp_ops d of
        None \<Rightarrow> None
      | Some a \<Rightarrow>
          (case dev_frequency_change (e_dev e a) of
             None \<Rightarrow> freq_loop e mode ds w
           | Some f \<Rightarrow> freq_loop e mode ds (snd (f (dp_device d) mode w))))"

definition pm_device_frequency_change :: "('h, 'd) pm_env \<Rightarrow> nat \<Rightarrow> ('h, 'd) pm_world \<Rightarrow> ('h, 'd) pm_world option" where
  "pm_device_frequency_change e mode w = freq_loop e mode (device_list (w_pm w)) w"

definition pm_run_op :: "('h, 'd) pm_env \<Rightarrow> nat \<Rightarrow> ('h, 'd) pm_world \<Rightarrow> ('h, 'd) pm_world option" where
  "pm_run_op e mode w =
     (case op_run (e_ops e) of None \<Rightarrow> Some w | Some f \<Rightarrow> map_option (\<lambda>h. set_hw h w) (f mode (w_hw w)))"

definition pm_frequency_scaling :: "('h, 'd) pm_env \<Rightarrow> ('h, 'd) pm_world \<Rightarrow> ('h, 'd) pm_world option" where
  "pm_frequency_scaling e w =
     (if pm_flags (w_pm w) AND RT_PM_FREQUENCY_PENDING \<noteq> 0 then
        Option.bind (pm_run_op e (run_mode (w_pm w)) w) (\<lambda>w1.
        Option.bind (pm_device_frequency_change e (run_mode (w_pm w1)) w1) (\<lambda>w2.
        Some (upd_pm (\<lambda>pm. pm\<lparr>pm_flags := pm_flags pm AND NOT RT_PM_FREQUENCY_PENDING\<rparr>) w2)))
      else Some w)"

section \<open>Choosing the sleep mode\<close>

text \<open>The nested loops of \<^verbatim>\<open>_judge_sleep_mode\<close>, over the rows of \<^verbatim>\<open>sleep_status\<close> from row \<open>index\<close>.\<close>

fun judge_loop :: "nat \<Rightarrow> u32w list list \<Rightarrow> nat" where
  "judge_loop index [] = PM_SLEEP_MODE_MAX"
| "judge_loop index (row # rows) = (if \<exists>x \<in> set row. x \<noteq> 0 then index else judge_loop (index + 1) rows)"

definition judge_sleep_mode :: "rt_pm \<Rightarrow> nat" where
  "judge_sleep_mode pm = judge_loop 0 (sleep_status pm)"

fun first_request :: "nat \<Rightarrow> nat list \<Rightarrow> nat \<Rightarrow> nat" where
  "first_request index [] mode = mode"
| "first_request index (c # cs) mode = (if c \<noteq> 0 then index else first_request (index + 1) cs mode)"

definition pm_select_sleep_mode :: "('h, 'd) pm_world \<Rightarrow> nat" where
  "pm_select_sleep_mode w =
     (let request_mode = judge_sleep_mode (w_pm w);
          mode = first_request PM_SLEEP_MODE_NONE (modes (w_pm w)) (pm_default_deepsleep w)
      in if request_mode < mode then request_mode else mode)"

definition rt_pm_module_delay_sleep :: "nat \<Rightarrow> rt_tick_t \<Rightarrow> ('h, 'd) pm_world \<Rightarrow> ('h, 'd) pm_world" where
  "rt_pm_module_delay_sleep module_id timeout w =
     (if \<not> pm_init_flag w then w
      else if module_id > PM_MODULE_MAX_ID - 1 then w
      else upd_pm (\<lambda>pm. pm\<lparr>module_status := (module_status pm)[module_id :=
             (module_status pm ! module_id)\<lparr>busy_flag := True, pm_timeout := timeout,
               start_time := rt_tick_get (w_kernel w)\<rparr>]\<rparr>) w)"

text \<open>\<^verbatim>\<open>_pm_device_check_idle\<close> clears the modules whose time is over, and stops at the first that is still busy.\<close>

definition module_expire :: "rt_tick_t \<Rightarrow> rt_pm_module \<Rightarrow> rt_pm_module" where
  "module_expire now m =
     (if busy_flag m \<and> now - start_time m > pm_timeout m then m\<lparr>busy_flag := False, pm_timeout := 0\<rparr> else m)"

fun check_idle_loop :: "rt_tick_t \<Rightarrow> rt_pm_module list \<Rightarrow> bool \<times> rt_pm_module list" where
  "check_idle_loop now [] = (True, [])"
| "check_idle_loop now (m # ms) =
     (let m1 = module_expire now m
      in if busy_flag m1 then (False, m1 # ms)
         else (let (idle, ms1) = check_idle_loop now ms in (idle, m1 # ms1)))"

definition pm_device_check_idle :: "('h, 'd) pm_world \<Rightarrow> bool \<times> ('h, 'd) pm_world" where
  "pm_device_check_idle w =
     (if \<not> pm_init_flag w then (True, w)
      else (let (idle, ms) = check_idle_loop (rt_tick_get (w_kernel w)) (module_status (w_pm w))
            in (idle, upd_pm (\<lambda>pm. pm\<lparr>module_status := ms\<rparr>) w)))"

definition pm_timer_next_timeout_tick :: "nat \<Rightarrow> ('h, 'd) pm_world \<Rightarrow> rt_tick_t \<times> ('h, 'd) pm_world" where
  "pm_timer_next_timeout_tick mode w =
     (if mode = PM_SLEEP_MODE_LIGHT then
        (let (t, s) = rt_timer_next_timeout_tick (w_kernel w) in (t, w\<lparr>w_kernel := s\<rparr>))
      else if mode = PM_SLEEP_MODE_DEEP \<or> mode = PM_SLEEP_MODE_STANDBY then
        (rt_lptimer_next_timeout_tick (w_lptimers w, w_kernel w), w)
      else (RT_TICK_MAX, w))"

definition pm_get_sleep_threshold_mode :: "nat \<Rightarrow> rt_tick_t \<Rightarrow> ('h, 'd) pm_world \<Rightarrow> nat" where
  "pm_get_sleep_threshold_mode cur_mode timeout_tick w =
     (if \<not> pm_init_flag w then cur_mode
      else if cur_mode \<ge> PM_SLEEP_MODE_MAX then cur_mode
      else if cur_mode = PM_SLEEP_MODE_LIGHT then
        (if timeout_tick < PM_LIGHT_THRESHOLD_TIME then PM_SLEEP_MODE_IDLE else cur_mode)
      else if cur_mode = PM_SLEEP_MODE_DEEP then
        (if timeout_tick < PM_LIGHT_THRESHOLD_TIME then PM_SLEEP_MODE_IDLE
         else if timeout_tick < PM_DEEP_THRESHOLD_TIME then PM_SLEEP_MODE_LIGHT else cur_mode)
      else if cur_mode = PM_SLEEP_MODE_STANDBY then
        (if timeout_tick < PM_LIGHT_THRESHOLD_TIME then PM_SLEEP_MODE_IDLE
         else if timeout_tick < PM_DEEP_THRESHOLD_TIME then PM_SLEEP_MODE_LIGHT
         else if timeout_tick < PM_STANDBY_THRESHOLD_TIME then PM_SLEEP_MODE_DEEP else cur_mode)
      else cur_mode)"

section \<open>Sleeping\<close>

text \<open>\<^verbatim>\<open>pm->timer_mask & (0x01 << pm->sleep_mode)\<close>, computed in an \<^verbatim>\<open>int\<close>.\<close>

definition timer_in_mode :: "('h, 'd) pm_world \<Rightarrow> bool" where
  "timer_in_mode w \<longleftrightarrow> ucast (timer_mask (w_pm w)) AND push_bit (sleep_mode (w_pm w)) (1 :: u32w) \<noteq> 0"

definition notify :: "('h, 'd) pm_env \<Rightarrow> nat \<Rightarrow> ('h, 'd) pm_world \<Rightarrow> ('h, 'd) pm_world" where
  "notify e event w =
     (case pm_notify w of None \<Rightarrow> w | Some (f, data) \<Rightarrow> e_notify e f event (sleep_mode (w_pm w)) data w)"

text \<open>\<^verbatim>\<open>_pm_change_sleep_mode\<close>, up to the test of the chosen mode; \<open>pm_arm\<close> looks up the next timeout, lowers the mode by the
  thresholds and starts the timer; \<open>pm_account\<close> is what follows the sleep.\<close>

definition pm_choose :: "('h, 'd) pm_world \<Rightarrow> ('h, 'd) pm_world" where
  "pm_choose w =
     (let w1 = set_sleep_mode (pm_select_sleep_mode w) w;
          (idle, w2) = pm_device_check_idle w1
      in if \<not> idle \<and> PM_BUSY_SLEEP_MODE < sleep_mode (w_pm w2) then set_sleep_mode PM_BUSY_SLEEP_MODE w2 else w2)"

definition pm_arm :: "('h, 'd) pm_env \<Rightarrow> ('h, 'd) pm_world \<Rightarrow> ('h, 'd) pm_world option" where
  "pm_arm e w =
     (if timer_in_mode w then
        (let (t, w1) = pm_timer_next_timeout_tick (sleep_mode (w_pm w)) w;
             timeout_tick = t - rt_tick_get (w_kernel w1);
             w2 = set_sleep_mode (pm_get_sleep_threshold_mode (sleep_mode (w_pm w1)) timeout_tick w1) w1
         in if timer_in_mode w2 then pm_lptimer_start e timeout_tick w2 else Some w2)
      else Some w)"

definition pm_account :: "('h, 'd) pm_env \<Rightarrow> ('h, 'd) pm_world \<Rightarrow> ('h, 'd) pm_world option" where
  "pm_account e w =
     (if timer_in_mode w then
        (let (delta_tick, w1) = pm_lptimer_get_timeout e w;
             w2 = pm_lptimer_stop e w1
         in if delta_tick \<noteq> 0 then
              Option.bind (rt_tick_increase_tick (e_timeout e) delta_tick (rt_interrupt_enter (w_kernel w2))) (\<lambda>s.
              Some (w2\<lparr>w_kernel := rt_interrupt_leave s\<rparr>))
            else Some w2)
      else Some w)"

definition pm_change_sleep_mode :: "('h, 'd) pm_env \<Rightarrow> ('h, 'd) pm_world \<Rightarrow> ('h, 'd) pm_world option" where
  "pm_change_sleep_mode e w =
     (let w1 = pm_choose w
      in if sleep_mode (w_pm w1) = PM_SLEEP_MODE_NONE then pm_sleep e PM_SLEEP_MODE_NONE w1
         else
           (let w2 = notify e RT_PM_ENTER_SLEEP w1;
                w3 = snd (pm_device_suspend e (sleep_mode (w_pm w2)) w2)
            in Option.bind (pm_arm e w3) (\<lambda>w4.
               Option.bind (pm_sleep e (sleep_mode (w_pm w4)) w4) (\<lambda>w5.
               Option.bind (pm_account e w5) (\<lambda>w6.
               let w7 = pm_device_resume e (sleep_mode (w_pm w6)) w6
               in Some (notify e RT_PM_EXIT_SLEEP w7))))))"

definition rt_system_power_manager :: "('h, 'd) pm_env \<Rightarrow> ('h, 'd) pm_world \<Rightarrow> ('h, 'd) pm_world option" where
  "rt_system_power_manager e w =
     (if \<not> pm_init_flag w \<or> \<not> ops_set (w_pm w) then Some w
      else Option.bind (pm_frequency_scaling e w) (pm_change_sleep_mode e))"

section \<open>Requests\<close>

definition rt_pm_request :: "nat \<Rightarrow> ('h, 'd) pm_world \<Rightarrow> rt_err_t \<times> ('h, 'd) pm_world" where
  "rt_pm_request mode w =
     (if \<not> pm_init_flag w then (- RT_EPERM, w)
      else if mode > PM_SLEEP_MODE_MAX - 1 then (- RT_EINVAL, w)
      else (RT_EOK, upd_pm (\<lambda>pm. if modes pm ! mode < 255
              then pm\<lparr>modes := (modes pm)[mode := modes pm ! mode + 1]\<rparr> else pm) w))"

definition rt_pm_release :: "nat \<Rightarrow> ('h, 'd) pm_world \<Rightarrow> rt_err_t \<times> ('h, 'd) pm_world" where
  "rt_pm_release mode w =
     (if \<not> pm_init_flag w then (- RT_EPERM, w)
      else if mode > PM_SLEEP_MODE_MAX - 1 then (- RT_EINVAL, w)
      else (RT_EOK, upd_pm (\<lambda>pm. if modes pm ! mode > 0
              then pm\<lparr>modes := (modes pm)[mode := modes pm ! mode - 1]\<rparr> else pm) w))"

definition rt_pm_release_all :: "nat \<Rightarrow> ('h, 'd) pm_world \<Rightarrow> rt_err_t \<times> ('h, 'd) pm_world" where
  "rt_pm_release_all mode w =
     (if \<not> pm_init_flag w then (- RT_EPERM, w)
      else if mode > PM_SLEEP_MODE_MAX - 1 then (- RT_EINVAL, w)
      else (RT_EOK, upd_pm (\<lambda>pm. pm\<lparr>modes := (modes pm)[mode := 0]\<rparr>) w))"

definition set_req_status :: "nat \<Rightarrow> nat \<Rightarrow> rt_pm \<Rightarrow> rt_pm" where
  "set_req_status module_id v pm =
     pm\<lparr>module_status := (module_status pm)[module_id := (module_status pm ! module_id)\<lparr>req_status := v\<rparr>]\<rparr>"

definition rt_pm_module_request :: "nat \<Rightarrow> nat \<Rightarrow> ('h, 'd) pm_world \<Rightarrow> rt_err_t \<times> ('h, 'd) pm_world" where
  "rt_pm_module_request module_id mode w =
     (if \<not> pm_init_flag w then (- RT_EPERM, w)
      else if mode > PM_SLEEP_MODE_MAX - 1 then (- RT_EINVAL, w)
      else if module_id > PM_MODULE_MAX_ID - 1 then (- RT_EINVAL, w)
      else (RT_EOK, upd_pm (\<lambda>pm0.
              let pm = set_req_status module_id 1 pm0
              in if modes pm ! mode < 255 then pm\<lparr>modes := (modes pm)[mode := modes pm ! mode + 1]\<rparr> else pm) w))"

definition rt_pm_module_release :: "nat \<Rightarrow> nat \<Rightarrow> ('h, 'd) pm_world \<Rightarrow> rt_err_t \<times> ('h, 'd) pm_world" where
  "rt_pm_module_release module_id mode w =
     (if \<not> pm_init_flag w then (- RT_EPERM, w)
      else if mode > PM_SLEEP_MODE_MAX - 1 then (- RT_EINVAL, w)
      else if module_id > PM_MODULE_MAX_ID - 1 then (- RT_EINVAL, w)
      else (RT_EOK, upd_pm (\<lambda>pm0.
              let pm = (if modes pm0 ! mode > 0 then pm0\<lparr>modes := (modes pm0)[mode := modes pm0 ! mode - 1]\<rparr> else pm0)
              in if modes pm ! mode = 0 then set_req_status module_id 0 pm else pm) w))"

text \<open>This function does not check \<^verbatim>\<open>module_id\<close>: a number beyond the array is a write past its end.\<close>

definition rt_pm_module_release_all :: "nat \<Rightarrow> nat \<Rightarrow> ('h, 'd) pm_world \<Rightarrow> (rt_err_t \<times> ('h, 'd) pm_world) option" where
  "rt_pm_module_release_all module_id mode w =
     (if \<not> pm_init_flag w then Some (- RT_EPERM, w)
      else if mode > PM_SLEEP_MODE_MAX - 1 then Some (- RT_EINVAL, w)
      else if module_id \<ge> length (module_status (w_pm w)) then None
      else Some (RT_EOK, upd_pm (\<lambda>pm. set_req_status module_id 0 (pm\<lparr>modes := (modes pm)[mode := 0]\<rparr>)) w))"

definition upd_sleep_status :: "nat \<Rightarrow> nat \<Rightarrow> (u32w \<Rightarrow> u32w) \<Rightarrow> rt_pm \<Rightarrow> rt_pm" where
  "upd_sleep_status mode i f pm =
     pm\<lparr>sleep_status := (sleep_status pm)[mode := (sleep_status pm ! mode)[i := f (sleep_status pm ! mode ! i)]]\<rparr>"

definition rt_pm_sleep_request :: "nat \<Rightarrow> nat \<Rightarrow> ('h, 'd) pm_world \<Rightarrow> rt_err_t \<times> ('h, 'd) pm_world" where
  "rt_pm_sleep_request module_id mode w =
     (if module_id \<ge> PM_MODULE_MAX_ID then (- RT_EINVAL, w)
      else if mode \<ge> PM_SLEEP_MODE_MAX - 1 then (- RT_EINVAL, w)
      else (RT_EOK, upd_pm (upd_sleep_status mode (module_id div 32) (\<lambda>x. x OR push_bit (module_id mod 32) 1)) w))"

definition rt_pm_sleep_none_request :: "nat \<Rightarrow> ('h, 'd) pm_world \<Rightarrow> rt_err_t \<times> ('h, 'd) pm_world" where
  "rt_pm_sleep_none_request module_id = rt_pm_sleep_request module_id PM_SLEEP_MODE_NONE"

definition rt_pm_sleep_idle_request :: "nat \<Rightarrow> ('h, 'd) pm_world \<Rightarrow> rt_err_t \<times> ('h, 'd) pm_world" where
  "rt_pm_sleep_idle_request module_id = rt_pm_sleep_request module_id PM_SLEEP_MODE_IDLE"

definition rt_pm_sleep_light_request :: "nat \<Rightarrow> ('h, 'd) pm_world \<Rightarrow> rt_err_t \<times> ('h, 'd) pm_world" where
  "rt_pm_sleep_light_request module_id = rt_pm_sleep_request module_id PM_SLEEP_MODE_LIGHT"

definition rt_pm_sleep_release :: "nat \<Rightarrow> nat \<Rightarrow> ('h, 'd) pm_world \<Rightarrow> rt_err_t \<times> ('h, 'd) pm_world" where
  "rt_pm_sleep_release module_id mode w =
     (if module_id \<ge> PM_MODULE_MAX_ID then (- RT_EINVAL, w)
      else if mode \<ge> PM_SLEEP_MODE_MAX - 1 then (- RT_EINVAL, w)
      else (RT_EOK, upd_pm (upd_sleep_status mode (module_id div 32) (\<lambda>x. x AND NOT (push_bit (module_id mod 32) 1))) w))"

definition rt_pm_sleep_none_release :: "nat \<Rightarrow> ('h, 'd) pm_world \<Rightarrow> rt_err_t \<times> ('h, 'd) pm_world" where
  "rt_pm_sleep_none_release module_id = rt_pm_sleep_release module_id PM_SLEEP_MODE_NONE"

definition rt_pm_sleep_idle_release :: "nat \<Rightarrow> ('h, 'd) pm_world \<Rightarrow> rt_err_t \<times> ('h, 'd) pm_world" where
  "rt_pm_sleep_idle_release module_id = rt_pm_sleep_release module_id PM_SLEEP_MODE_IDLE"

definition rt_pm_sleep_light_release :: "nat \<Rightarrow> ('h, 'd) pm_world \<Rightarrow> rt_err_t \<times> ('h, 'd) pm_world" where
  "rt_pm_sleep_light_release module_id = rt_pm_sleep_release module_id PM_SLEEP_MODE_LIGHT"

section \<open>Registration, the device file, run modes and start-up\<close>

text \<open>The new node's memory, when there is any, is an argument.\<close>

definition rt_pm_device_register :: "addr option \<Rightarrow> nat \<Rightarrow> addr option \<Rightarrow> ('h, 'd) pm_world \<Rightarrow> ('h, 'd) pm_world" where
  "rt_pm_device_register mem device ops w =
     (case mem of
        None \<Rightarrow> w
      | Some a \<Rightarrow> upd_pm (\<lambda>pm. pm\<lparr>device_list := device_list pm @ [\<lparr>dp_node = a, dp_device = device, dp_ops = ops\<rparr>]\<rparr>) w)"

fun unregister_loop :: "nat \<Rightarrow> rt_device_pm list \<Rightarrow> rt_device_pm list" where
  "unregister_loop device [] = []"
| "unregister_loop device (d # ds) = (if dp_device d = device then ds else d # unregister_loop device ds)"

definition rt_pm_device_unregister :: "nat \<Rightarrow> ('h, 'd) pm_world \<Rightarrow> ('h, 'd) pm_world" where
  "rt_pm_device_unregister device = upd_pm (\<lambda>pm. pm\<lparr>device_list := unregister_loop device (device_list pm)\<rparr>)"

definition rt_pm_notify_set :: "(addr \<times> addr) option \<Rightarrow> ('h, 'd) pm_world \<Rightarrow> ('h, 'd) pm_world" where
  "rt_pm_notify_set n w = w\<lparr>pm_notify := n\<rparr>"

definition rt_pm_default_set :: "nat \<Rightarrow> ('h, 'd) pm_world \<Rightarrow> ('h, 'd) pm_world" where
  "rt_pm_default_set m w = w\<lparr>pm_default_sleep := m\<rparr>"

text \<open>\<^verbatim>\<open>pos\<close> is an \<^verbatim>\<open>rt_off_t\<close> and the command's argument a pointer-sized word; both are cut to a byte by the call.
  \<^verbatim>\<open>_rt_pm_device_read\<close> prints a count in decimal (\<open>Some (Some n)\<close>) or nothing for a position past the modes (\<open>Some None\<close>); a
  negative position passes its test and reads before the array.\<close>

definition rt_pm_device_read :: "int \<Rightarrow> ('h, 'd) pm_world \<Rightarrow> nat option option" where
  "rt_pm_device_read pos w =
     (if pos < int PM_SLEEP_MODE_MAX then (if pos < 0 then None else Some (Some (modes (w_pm w) ! nat pos))) else Some None)"

definition rt_pm_device_write :: "int \<Rightarrow> u8 list \<Rightarrow> ('h, 'd) pm_world \<Rightarrow> nat \<times> ('h, 'd) pm_world" where
  "rt_pm_device_write pos buffer w =
     (1, case buffer of
           [] \<Rightarrow> w
         | request # _ \<Rightarrow>
             (if request = 1 then snd (rt_pm_request (nat (pos mod 256)) w)
              else if request = 0 then snd (rt_pm_release (nat (pos mod 256)) w)
              else w))"

datatype pm_ctrl = RT_PM_DEVICE_CTRL_REQUEST | RT_PM_DEVICE_CTRL_RELEASE | PM_CTRL_OTHER

definition rt_pm_device_control :: "pm_ctrl \<Rightarrow> u32w \<Rightarrow> ('h, 'd) pm_world \<Rightarrow> rt_err_t \<times> ('h, 'd) pm_world" where
  "rt_pm_device_control cmd args w =
     (RT_EOK, case cmd of
                RT_PM_DEVICE_CTRL_REQUEST \<Rightarrow> snd (rt_pm_request (unat args mod 256) w)
              | RT_PM_DEVICE_CTRL_RELEASE \<Rightarrow> snd (rt_pm_release (unat args mod 256) w)
              | PM_CTRL_OTHER \<Rightarrow> w)"

definition rt_pm_run_enter :: "('h, 'd) pm_env \<Rightarrow> nat \<Rightarrow> ('h, 'd) pm_world \<Rightarrow> (rt_err_t \<times> ('h, 'd) pm_world) option" where
  "rt_pm_run_enter e mode w =
     (if \<not> pm_init_flag w then Some (- RT_EIO, w)
      else if mode > PM_RUN_MODE_MAX then Some (- RT_EINVAL, w)
      else
        Option.bind
          (if mode < run_mode (w_pm w) then
             Option.bind (if ops_set (w_pm w) then pm_run_op e mode w else Some w) (pm_device_frequency_change e mode)
           else Some (upd_pm (\<lambda>pm. pm\<lparr>pm_flags := pm_flags pm OR RT_PM_FREQUENCY_PENDING\<rparr>) w))
          (\<lambda>w1. Some (RT_EOK, upd_pm (\<lambda>pm. pm\<lparr>run_mode := mode\<rparr>) w1)))"

text \<open>\<^verbatim>\<open>rt_device_register\<close> puts the device into the object registry, which is outside the model.\<close>

definition rt_system_pm_init :: "u8 \<Rightarrow> ('h, 'd) pm_world \<Rightarrow> ('h, 'd) pm_world" where
  "rt_system_pm_init tmask w =
     (upd_pm (\<lambda>pm.
        let pm1 = pm\<lparr>modes := replicate PM_SLEEP_MODE_MAX 0, sleep_mode := pm_default_sleep w\<rparr>;
            pm2 = pm1\<lparr>modes := (modes pm1)[sleep_mode pm1 := 1]\<rparr>;
            pm3 = set_req_status PM_POWER_ID 1 pm2
        in pm3\<lparr>run_mode := RT_PM_DEFAULT_RUN_MODE, timer_mask := tmask, ops_set := True, device_list := []\<rparr>) w)
     \<lparr>pm_init_flag := True\<rparr>"

fun get_status_loop :: "nat \<Rightarrow> rt_pm_module list \<Rightarrow> u32w \<Rightarrow> u32w" where
  "get_status_loop index [] r = r"
| "get_status_loop index (m # ms) r =
     get_status_loop (index + 1) ms (if req_status m = 1 then r OR push_bit index 1 else r)"

definition rt_pm_module_get_status :: "('h, 'd) pm_world \<Rightarrow> u32w" where
  "rt_pm_module_get_status w = get_status_loop 0 (module_status (w_pm w)) 0"

definition rt_pm_get_sleep_mode :: "('h, 'd) pm_world \<Rightarrow> nat" where
  "rt_pm_get_sleep_mode w = sleep_mode (w_pm w)"

section \<open>Well-formed state\<close>

text \<open>The sizes of the arrays, the range of the counters, and that only bits of existing modules are set.\<close>

definition pm_ok :: "('h, 'd) pm_world \<Rightarrow> bool" where
  "pm_ok w \<longleftrightarrow> length (modes (w_pm w)) = PM_SLEEP_MODE_MAX \<and> (\<forall>c \<in> set (modes (w_pm w)). c \<le> 255) \<and>
     length (module_status (w_pm w)) = PM_MODULE_MAX_ID \<and> length (sleep_status (w_pm w)) = PM_SLEEP_MODE_MAX - 1 \<and>
     (\<forall>row \<in> set (sleep_status (w_pm w)). \<exists>x. row = [x] \<and> (\<forall>i \<ge> PM_MODULE_MAX_ID. \<not> bit x i)) \<and>
     pm_default_deepsleep w = RT_PM_DEFAULT_DEEPSLEEP_MODE"

lemma upd_pm_simps [simp]:
  "w_pm (upd_pm f w) = f (w_pm w)" "pm_default_deepsleep (upd_pm f w) = pm_default_deepsleep w"
  "pm_default_sleep (upd_pm f w) = pm_default_sleep w" "pm_notify (upd_pm f w) = pm_notify w"
  "pm_init_flag (upd_pm f w) = pm_init_flag w" "w_lptimers (upd_pm f w) = w_lptimers w"
  "w_kernel (upd_pm f w) = w_kernel w" "w_dev (upd_pm f w) = w_dev w" "w_hw (upd_pm f w) = w_hw w"
  by (simp_all add: upd_pm_def)

lemma set_req_status_simps [simp]:
  "modes (set_req_status i v pm) = modes pm" "sleep_status (set_req_status i v pm) = sleep_status pm"
  "length (module_status (set_req_status i v pm)) = length (module_status pm)"
  by (simp_all add: set_req_status_def)

section \<open>The first set entry of an array\<close>

fun first_ix :: "('a \<Rightarrow> bool) \<Rightarrow> nat \<Rightarrow> 'a list \<Rightarrow> nat \<Rightarrow> nat" where
  "first_ix P i [] d = d"
| "first_ix P i (x # xs) d = (if P x then i else first_ix P (i + 1) xs d)"

lemma first_ix_cases:
  "(\<forall>k < length xs. \<not> P (xs ! k)) \<and> first_ix P i xs d = d \<or>
   (\<exists>k < length xs. first_ix P i xs d = i + k \<and> P (xs ! k) \<and> (\<forall>j < k. \<not> P (xs ! j)))"
proof (induction xs arbitrary: i)
  case (Cons x xs)
  show ?case
  proof (cases "P x")
    case False
    from Cons.IH [of "i + 1"] show ?thesis
    proof
      assume "\<exists>k < length xs. first_ix P (i + 1) xs d = i + 1 + k \<and> P (xs ! k) \<and> (\<forall>j < k. \<not> P (xs ! j))"
      then obtain k where "k < length xs" "first_ix P (i + 1) xs d = i + 1 + k" "P (xs ! k)" "\<forall>j < k. \<not> P (xs ! j)" by blast
      then have "Suc k < length (x # xs)" "first_ix P i (x # xs) d = i + Suc k" "P ((x # xs) ! Suc k)"
        "\<forall>j < Suc k. \<not> P ((x # xs) ! j)"
        using False by (auto simp: less_Suc_eq_0_disj)
      then show ?thesis by blast
    qed (use False in \<open>auto simp: less_Suc_eq_0_disj\<close>)
  qed auto
qed simp

lemma first_ix_Min:
  assumes "{k. k < length xs \<and> P (xs ! k)} \<noteq> {}"
  shows "first_ix P 0 xs d = Min {k. k < length xs \<and> P (xs ! k)}"
proof -
  have fin: "finite {k. k < length xs \<and> P (xs ! k)}" by simp
  obtain k where "k < length xs" "first_ix P 0 xs d = k" "P (xs ! k)" "\<forall>j < k. \<not> P (xs ! j)"
    using first_ix_cases [of xs P 0 d] assms by auto
  then show ?thesis using fin by (intro Min_eqI [symmetric]) (auto simp: not_less [symmetric])
qed

lemma first_ix_none:
  assumes "{k. k < length xs \<and> P (xs ! k)} = {}"
  shows "first_ix P i xs d = d"
  using first_ix_cases [of xs P i d] assms by auto

lemma judge_loop_first: "judge_loop i rows = first_ix (\<lambda>row. \<exists>x \<in> set row. x \<noteq> 0) i rows PM_SLEEP_MODE_MAX"
  by (induction rows arbitrary: i) simp_all

lemma first_request_first: "first_request i cs d = first_ix (\<lambda>c. c \<noteq> 0) i cs d"
  by (induction cs arbitrary: i) simp_all

section \<open>What is requested\<close>

text \<open>The specification: a count of requests for each mode, and the pairs of a module and a mode it holds.  The requests choose
  the lightest mode that is requested, or deep sleep when none is; a mode that is held overrides a deeper choice.\<close>

record pm_spec =
  votes :: "nat \<Rightarrow> nat"
  holds :: "(nat \<times> nat) set"

definition voted :: "pm_spec \<Rightarrow> nat set" where
  "voted a = {m. m < PM_SLEEP_MODE_MAX \<and> votes a m \<noteq> 0}"

definition voted_mode :: "pm_spec \<Rightarrow> nat" where
  "voted_mode a = (if voted a = {} then PM_SLEEP_MODE_DEEP else Min (voted a))"

definition spec_mode :: "pm_spec \<Rightarrow> nat" where
  "spec_mode a = Min (insert (voted_mode a) (snd ` holds a))"

definition pm_abs :: "('h, 'd) pm_world \<Rightarrow> pm_spec" where
  "pm_abs w = \<lparr>votes = (\<lambda>m. if m < PM_SLEEP_MODE_MAX then modes (w_pm w) ! m else 0),
     holds = {(i, m). i < PM_MODULE_MAX_ID \<and> m < PM_SLEEP_MODE_MAX - 1 \<and>
       bit (sleep_status (w_pm w) ! m ! (i div 32)) (i mod 32)}\<rparr>"

lemma pm_okD:
  assumes "pm_ok w"
  shows "length (modes (w_pm w)) = 6" and "length (sleep_status (w_pm w)) = 5" and "length (module_status (w_pm w)) = 17"
    and "m < 5 \<Longrightarrow> \<exists>x. sleep_status (w_pm w) ! m = [x] \<and> (\<forall>i \<ge> 17. \<not> bit x i)"
    and "m < 6 \<Longrightarrow> modes (w_pm w) ! m \<le> 255" and "pm_default_deepsleep w = 3"
  using assms by (simp_all add: pm_ok_def pm_modes PM_MODULE_MAX_ID_def)

lemma held_row:
  assumes "pm_ok w" and "m < 5"
  shows "(\<exists>x \<in> set (sleep_status (w_pm w) ! m). x \<noteq> 0) \<longleftrightarrow> m \<in> snd ` holds (pm_abs w)"
proof -
  obtain x where x: "sleep_status (w_pm w) ! m = [x]" "\<And>i. bit x i \<Longrightarrow> i < 17"
    using pm_okD(4) [OF assms] by (meson not_le)
  have "m \<in> snd ` holds (pm_abs w) \<longleftrightarrow> (\<exists>i < 17. bit x i)"
    using assms(2) x(1) by (force simp: pm_abs_def pm_modes PM_MODULE_MAX_ID_def image_iff)
  also have "\<dots> \<longleftrightarrow> x \<noteq> 0" using x(2) bit_eq_iff [of x 0] by auto
  finally show ?thesis by (simp add: x(1))
qed

lemma pm_select_spec:
  assumes "pm_ok w"
  shows "pm_select_sleep_mode w = spec_mode (pm_abs w)"
proof -
  let ?V = "voted (pm_abs w)" and ?H = "snd ` holds (pm_abs w)"
  have Hlt: "m < 5" if "m \<in> ?H" for m using that by (auto simp: pm_abs_def pm_modes)
  have H: "{k. k < length (sleep_status (w_pm w)) \<and> (\<exists>x \<in> set (sleep_status (w_pm w) ! k). x \<noteq> 0)} = ?H"
    unfolding pm_okD(2) [OF assms]
  proof (intro set_eqI, unfold mem_Collect_eq)
    fix k
    show "k < 5 \<and> (\<exists>x \<in> set (sleep_status (w_pm w) ! k). x \<noteq> 0) \<longleftrightarrow> k \<in> ?H"
      using held_row [OF assms, of k] Hlt [of k] by argo
  qed
  have V: "{k. k < length (modes (w_pm w)) \<and> modes (w_pm w) ! k \<noteq> 0} = ?V"
    using pm_okD(1) [OF assms] by (auto simp: voted_def pm_abs_def pm_modes)
  have fin: "finite ?V" "finite ?H" unfolding V [symmetric] H [symmetric] by simp_all
  have judge: "judge_sleep_mode (w_pm w) = (if ?H = {} then 6 else Min ?H)"
    using first_ix_Min [of "sleep_status (w_pm w)" "\<lambda>row. \<exists>x \<in> set row. x \<noteq> 0"]
      first_ix_none [of "sleep_status (w_pm w)" "\<lambda>row. \<exists>x \<in> set row. x \<noteq> 0"]
    unfolding judge_sleep_mode_def judge_loop_first H by (auto simp: pm_modes)
  have first: "first_request PM_SLEEP_MODE_NONE (modes (w_pm w)) (pm_default_deepsleep w) =
      voted_mode (pm_abs w)"
    using first_ix_Min [of "modes (w_pm w)" "\<lambda>c. c \<noteq> 0"] first_ix_none [of "modes (w_pm w)" "\<lambda>c. c \<noteq> 0"]
      pm_okD(6) [OF assms]
    unfolding first_request_first V by (auto simp: voted_mode_def pm_modes)
  have less: "voted_mode (pm_abs w) < 6" using Min_in [OF fin(1)] by (auto simp: voted_mode_def voted_def pm_modes)
  show ?thesis
  proof (cases "?H = {}")
    case True
    then show ?thesis
      using judge first less by (simp add: pm_select_sleep_mode_def spec_mode_def Let_def)
  next
    case False
    then have "spec_mode (pm_abs w) = min (voted_mode (pm_abs w)) (Min ?H)" using fin by (simp add: spec_mode_def)
    then show ?thesis
      using judge first False by (simp add: pm_select_sleep_mode_def Let_def min_def)
  qed
qed

section \<open>Any sequence of requests\<close>

datatype pm_call =
    Request nat
  | Release nat
  | Release_All nat
  | Module_Request nat nat
  | Module_Release nat nat
  | Module_Release_All nat nat
  | Sleep_Request nat nat
  | Sleep_Release nat nat
  | Delay_Sleep nat rt_tick_t
  | Device_Write int "u8 list"
  | Device_Control pm_ctrl u32w

fun pm_do :: "pm_call \<Rightarrow> ('h, 'd) pm_world \<Rightarrow> ('h, 'd) pm_world option" where
  "pm_do (Request m) w = Some (snd (rt_pm_request m w))"
| "pm_do (Release m) w = Some (snd (rt_pm_release m w))"
| "pm_do (Release_All m) w = Some (snd (rt_pm_release_all m w))"
| "pm_do (Module_Request i m) w = Some (snd (rt_pm_module_request i m w))"
| "pm_do (Module_Release i m) w = Some (snd (rt_pm_module_release i m w))"
| "pm_do (Module_Release_All i m) w = map_option snd (rt_pm_module_release_all i m w)"
| "pm_do (Sleep_Request i m) w = Some (snd (rt_pm_sleep_request i m w))"
| "pm_do (Sleep_Release i m) w = Some (snd (rt_pm_sleep_release i m w))"
| "pm_do (Delay_Sleep i t) w = Some (rt_pm_module_delay_sleep i t w)"
| "pm_do (Device_Write pos buf) w = Some (snd (rt_pm_device_write pos buf w))"
| "pm_do (Device_Control cmd arg) w = Some (snd (rt_pm_device_control cmd arg w))"

fun pm_run :: "pm_call list \<Rightarrow> ('h, 'd) pm_world \<Rightarrow> ('h, 'd) pm_world option" where
  "pm_run [] w = Some w"
| "pm_run (c # cs) w = Option.bind (pm_do c w) (pm_run cs)"

definition vote :: "nat \<Rightarrow> (nat \<Rightarrow> nat) \<Rightarrow> pm_spec \<Rightarrow> pm_spec" where
  "vote m f a = (if m < PM_SLEEP_MODE_MAX then a\<lparr>votes := (votes a)(m := f (votes a m))\<rparr> else a)"

text \<open>What the calls ask for: a request counts until it is released, and clearing a mode releases all its requests.\<close>

definition vote_up :: "nat \<Rightarrow> nat" where "vote_up n = n + 1"
definition vote_down :: "nat \<Rightarrow> nat" where "vote_down n = n - 1"

fun spec_do :: "pm_call \<Rightarrow> pm_spec \<Rightarrow> pm_spec" where
  "spec_do (Request m) a = vote m vote_up a"
| "spec_do (Release m) a = vote m vote_down a"
| "spec_do (Release_All m) a = vote m (\<lambda>_. 0) a"
| "spec_do (Module_Request i m) a = (if i < PM_MODULE_MAX_ID then vote m vote_up a else a)"
| "spec_do (Module_Release i m) a = (if i < PM_MODULE_MAX_ID then vote m vote_down a else a)"
| "spec_do (Module_Release_All i m) a = vote m (\<lambda>_. 0) a"
| "spec_do (Sleep_Request i m) a =
     (if i < PM_MODULE_MAX_ID \<and> m < PM_SLEEP_MODE_MAX - 1 then a\<lparr>holds := insert (i, m) (holds a)\<rparr> else a)"
| "spec_do (Sleep_Release i m) a = a\<lparr>holds := holds a - {(i, m)}\<rparr>"
| "spec_do (Delay_Sleep i t) a = a"
| "spec_do (Device_Write pos buf) a =
     (case buf of
        [] \<Rightarrow> a
      | r # _ \<Rightarrow> if r = 1 then vote (nat (pos mod 256)) vote_up a
                else if r = 0 then vote (nat (pos mod 256)) vote_down a else a)"
| "spec_do (Device_Control cmd arg) a =
     (case cmd of
        RT_PM_DEVICE_CTRL_REQUEST \<Rightarrow> vote (unat arg mod 256) vote_up a
      | RT_PM_DEVICE_CTRL_RELEASE \<Rightarrow> vote (unat arg mod 256) vote_down a
      | PM_CTRL_OTHER \<Rightarrow> a)"

text \<open>What the counters of the code hold: a request beyond 255 is not counted.\<close>

definition count_up :: "nat \<Rightarrow> nat" where "count_up n = min 255 (n + 1)"

fun count_do :: "pm_call \<Rightarrow> pm_spec \<Rightarrow> pm_spec" where
  "count_do (Request m) a = vote m count_up a"
| "count_do (Release m) a = vote m vote_down a"
| "count_do (Release_All m) a = vote m (\<lambda>_. 0) a"
| "count_do (Module_Request i m) a = (if i < PM_MODULE_MAX_ID then vote m count_up a else a)"
| "count_do (Module_Release i m) a = (if i < PM_MODULE_MAX_ID then vote m vote_down a else a)"
| "count_do (Module_Release_All i m) a = vote m (\<lambda>_. 0) a"
| "count_do (Sleep_Request i m) a =
     (if i < PM_MODULE_MAX_ID \<and> m < PM_SLEEP_MODE_MAX - 1 then a\<lparr>holds := insert (i, m) (holds a)\<rparr> else a)"
| "count_do (Sleep_Release i m) a = a\<lparr>holds := holds a - {(i, m)}\<rparr>"
| "count_do (Delay_Sleep i t) a = a"
| "count_do (Device_Write pos buf) a =
     (case buf of
        [] \<Rightarrow> a
      | r # _ \<Rightarrow> if r = 1 then vote (nat (pos mod 256)) count_up a
                else if r = 0 then vote (nat (pos mod 256)) vote_down a else a)"
| "count_do (Device_Control cmd arg) a =
     (case cmd of
        RT_PM_DEVICE_CTRL_REQUEST \<Rightarrow> vote (unat arg mod 256) count_up a
      | RT_PM_DEVICE_CTRL_RELEASE \<Rightarrow> vote (unat arg mod 256) vote_down a
      | PM_CTRL_OTHER \<Rightarrow> a)"

lemma vote_counts: "votes (vote m vote_up a) m \<le> 255 \<Longrightarrow> vote m count_up a = vote m vote_up a"
  by (simp add: vote_def vote_up_def count_up_def split: if_splits)

lemma count_do_exact:
  assumes "\<forall>m. votes (spec_do c a) m \<le> 255"
  shows "count_do c a = spec_do c a"
  using assms by (cases c) (auto intro!: vote_counts split: list.splits pm_ctrl.splits)

text \<open>No mode has more than 255 requests at any time during the calls.\<close>

fun within_byte :: "pm_call list \<Rightarrow> pm_spec \<Rightarrow> bool" where
  "within_byte [] a \<longleftrightarrow> True"
| "within_byte (c # cs) a \<longleftrightarrow> (\<forall>m < PM_SLEEP_MODE_MAX. votes (spec_do c a) m \<le> 255) \<and> within_byte cs (spec_do c a)"

text \<open>The one call that can write past the end of an array.\<close>

fun call_safe :: "pm_call \<Rightarrow> bool" where
  "call_safe (Module_Release_All i m) \<longleftrightarrow> i < PM_MODULE_MAX_ID \<or> m \<ge> PM_SLEEP_MODE_MAX"
| "call_safe _ \<longleftrightarrow> True"

text \<open>Changes of the counters alone.\<close>

lemma pm_ok_modes:
  assumes "pm_ok w" and "modes (f (w_pm w)) = (modes (w_pm w))[m := v]" and "v \<le> 255"
    and "sleep_status (f (w_pm w)) = sleep_status (w_pm w)"
    and "length (module_status (f (w_pm w))) = length (module_status (w_pm w))"
  shows "pm_ok (upd_pm f w)"
  using assms set_update_subset_insert [of "modes (w_pm w)" m v] by (auto simp: pm_ok_def)

lemma pm_abs_modes:
  assumes "pm_ok w" and "m < PM_SLEEP_MODE_MAX" and "modes (f (w_pm w)) = (modes (w_pm w))[m := g (modes (w_pm w) ! m)]"
    and "sleep_status (f (w_pm w)) = sleep_status (w_pm w)"
  shows "pm_abs (upd_pm f w) = vote m g (pm_abs w)"
  using assms pm_okD(1) [OF assms(1)]
  by (auto simp: pm_abs_def vote_def pm_modes fun_eq_iff nth_list_update)

text \<open>A counter that is not changed, because it is at its limit, is a counter set to its own value.\<close>

lemma modes_if:
  "modes (if c then pm\<lparr>modes := l\<rparr> else pm) = (if c then l else modes pm)"
  "sleep_status (if c then pm\<lparr>modes := l\<rparr> else pm) = sleep_status pm"
  "module_status (if c then pm\<lparr>modes := l\<rparr> else pm) = module_status pm"
  by simp_all

definition voted_step :: "nat \<Rightarrow> (nat \<Rightarrow> nat) \<Rightarrow> ('h, 'd) pm_world \<Rightarrow> ('h, 'd) pm_world \<Rightarrow> bool" where
  "voted_step m g w w' \<longleftrightarrow> pm_ok w' \<and> pm_abs w' = vote m g (pm_abs w) \<and> pm_init_flag w' = pm_init_flag w"

lemma voted_step_none: "pm_ok w \<Longrightarrow> \<not> m < PM_SLEEP_MODE_MAX \<Longrightarrow> voted_step m g w w"
  by (simp add: voted_step_def vote_def)

lemma pm_ok_vote:
  assumes "pm_ok w" and "m < PM_SLEEP_MODE_MAX"
    and "modes (f (w_pm w)) = (modes (w_pm w))[m := g (modes (w_pm w) ! m)]" and "g (modes (w_pm w) ! m) \<le> 255"
    and "sleep_status (f (w_pm w)) = sleep_status (w_pm w)"
    and "length (module_status (f (w_pm w))) = length (module_status (w_pm w))"
  shows "voted_step m g w (upd_pm f w)"
  unfolding voted_step_def using pm_ok_modes [where f = f, OF assms(1,3-6)] pm_abs_modes [where f = f and g = g, OF assms(1-3,5)] by simp

lemma count_up_eq: "xs ! m \<le> 255 \<Longrightarrow> (if xs ! m < 255 then xs[m := xs ! m + 1] else xs) = xs[m := count_up (xs ! m)]"
  using list_update_id [of xs m] by (cases "xs ! m = 255") (simp_all add: count_up_def)

lemma count_down: "(if 0 < xs ! m then xs[m := xs ! m - 1] else xs) = xs[m := vote_down (xs ! m)]"
  using list_update_id [of xs m] by (cases "xs ! m = 0") (simp_all add: vote_down_def)

lemma list_update_same: "xs ! m = c \<Longrightarrow> xs[m := c] = xs"
  by auto

lemma modes_le: "pm_ok w \<Longrightarrow> m < PM_SLEEP_MODE_MAX \<Longrightarrow> modes (w_pm w) ! m \<le> 255"
  using pm_okD(5) by (simp add: pm_modes)

lemma vote_request: "pm_ok w \<Longrightarrow> pm_init_flag w \<Longrightarrow> voted_step m count_up w (snd (rt_pm_request m w))"
  unfolding rt_pm_request_def using modes_le [of w m]
  by (auto simp: pm_modes voted_step_none modes_if count_up_eq [simplified] count_up_def intro!: pm_ok_vote)

lemma vote_release: "pm_ok w \<Longrightarrow> pm_init_flag w \<Longrightarrow> voted_step m vote_down w (snd (rt_pm_release m w))"
  unfolding rt_pm_release_def using modes_le [of w m]
  by (auto simp: pm_modes voted_step_none modes_if count_down [simplified] vote_down_def intro!: pm_ok_vote)

lemma vote_release_all: "pm_ok w \<Longrightarrow> pm_init_flag w \<Longrightarrow> voted_step m (\<lambda>_. 0) w (snd (rt_pm_release_all m w))"
  unfolding rt_pm_release_all_def by (auto simp: pm_modes voted_step_none intro!: pm_ok_vote)

lemma vote_module_request:
  "pm_ok w \<Longrightarrow> pm_init_flag w \<Longrightarrow> i < PM_MODULE_MAX_ID \<Longrightarrow>
   voted_step m count_up w (snd (rt_pm_module_request i m w))"
  unfolding rt_pm_module_request_def using modes_le [of w m]
  by (auto simp: pm_modes PM_MODULE_MAX_ID_def Let_def voted_step_none count_up_eq [simplified] list_update_same count_up_def intro!: pm_ok_vote)

lemma vote_module_release:
  "pm_ok w \<Longrightarrow> pm_init_flag w \<Longrightarrow> i < PM_MODULE_MAX_ID \<Longrightarrow>
   voted_step m vote_down w (snd (rt_pm_module_release i m w))"
  unfolding rt_pm_module_release_def using modes_le [of w m]
  by (auto simp: pm_modes PM_MODULE_MAX_ID_def Let_def voted_step_none count_down [simplified] list_update_same vote_down_def intro!: pm_ok_vote)

lemma vote_module_release_all:
  assumes "pm_ok w" and "pm_init_flag w" and "i < PM_MODULE_MAX_ID \<or> m \<ge> PM_SLEEP_MODE_MAX"
  shows "\<exists>r w'. rt_pm_module_release_all i m w = Some (r, w') \<and> voted_step m (\<lambda>_. 0) w w'"
  using assms(2,3) pm_okD(3) [OF assms(1)] unfolding rt_pm_module_release_all_def
  by (auto simp: pm_modes PM_MODULE_MAX_ID_def voted_step_none [OF assms(1)] intro!: pm_ok_vote [OF assms(1)])

text \<open>Changes of one module's bit in a row of \<^verbatim>\<open>sleep_status\<close>.\<close>

lemma sleep_status_upd:
  assumes "pm_ok w" and "i < PM_MODULE_MAX_ID" and "m < PM_SLEEP_MODE_MAX - 1"
  obtains x where "sleep_status (w_pm w) ! m = [x]" and "\<forall>k \<ge> PM_MODULE_MAX_ID. \<not> bit x k"
    and "\<And>f. sleep_status (upd_sleep_status m (i div 32) f (w_pm w)) = (sleep_status (w_pm w))[m := [f x]]"
proof -
  obtain x where x: "sleep_status (w_pm w) ! m = [x]" "\<forall>k \<ge> 17. \<not> bit x k"
    using pm_okD(4) [OF assms(1), of m] assms(3) by (auto simp: pm_modes)
  have "i div 32 = 0" using assms(2) by (simp add: PM_MODULE_MAX_ID_def)
  then show thesis using that [of x] x by (simp add: upd_sleep_status_def PM_MODULE_MAX_ID_def)
qed

lemma upd_sleep_status_frame [simp]:
  "modes (upd_sleep_status m i f pm) = modes pm" "module_status (upd_sleep_status m i f pm) = module_status pm"
  by (simp_all add: upd_sleep_status_def)

lemma hold_step:
  assumes ok: "pm_ok w" and i: "i < PM_MODULE_MAX_ID" and m: "m < PM_SLEEP_MODE_MAX - 1"
    and f: "\<And>x k. k < 32 \<Longrightarrow> bit (f x) k \<longleftrightarrow> (if k = i then b else bit x k)"
  shows "pm_ok (upd_pm (upd_sleep_status m (i div 32) f) w)"
    and "pm_abs (upd_pm (upd_sleep_status m (i div 32) f) w) =
      (pm_abs w)\<lparr>holds := (if b then insert (i, m) (holds (pm_abs w)) else holds (pm_abs w) - {(i, m)})\<rparr>"
proof -
  let ?w' = "upd_pm (upd_sleep_status m (i div 32) f) w"
  obtain x where x: "sleep_status (w_pm w) ! m = [x]" "\<forall>k \<ge> PM_MODULE_MAX_ID. \<not> bit x k"
    "sleep_status (upd_sleep_status m (i div 32) f (w_pm w)) = (sleep_status (w_pm w))[m := [f x]]"
    using sleep_status_upd [OF ok i m] by metis
  have len: "m < length (sleep_status (w_pm w))" using m pm_okD(2) [OF ok] by (simp add: pm_modes)
  have "\<not> bit (f x) k" if "k \<ge> PM_MODULE_MAX_ID" for k
  proof (cases "k < 32")
    case True
    then show ?thesis using f [of k x] x(2) i that by auto
  next
    case False
    then show ?thesis by (simp add: bit_word.rep_eq)
  qed
  then show "pm_ok ?w'"
    using ok x(3) set_update_subset_insert [of "sleep_status (w_pm w)" m "[f x]"]
    unfolding pm_ok_def by (auto simp: x(3))
  have row: "sleep_status (w_pm ?w') ! m' ! (i' div 32) = (if m' = m then f x else sleep_status (w_pm w) ! m' ! (i' div 32))"
    if "i' < PM_MODULE_MAX_ID" for m' i'
    using that len by (simp add: x(3) nth_list_update PM_MODULE_MAX_ID_def)
  have bits: "bit (sleep_status (w_pm ?w') ! m' ! (i' div 32)) (i' mod 32) \<longleftrightarrow>
      (if m' = m \<and> i' = i then b else bit (sleep_status (w_pm w) ! m' ! (i' div 32)) (i' mod 32))"
    if "i' < PM_MODULE_MAX_ID" for i' m'
    using that f [of i' x] x(1) unfolding row [OF that] by (auto simp: PM_MODULE_MAX_ID_def)
  show "pm_abs ?w' =
      (pm_abs w)\<lparr>holds := (if b then insert (i, m) (holds (pm_abs w)) else holds (pm_abs w) - {(i, m)})\<rparr>"
    using bits i m by (auto simp: pm_abs_def cong: conj_cong)
qed

lemma holds_out: "i \<ge> PM_MODULE_MAX_ID \<or> m \<ge> PM_SLEEP_MODE_MAX - 1 \<Longrightarrow> (i, m) \<notin> holds (pm_abs w)"
  by (auto simp: pm_abs_def)

lemma sleep_request_ok:
  assumes "pm_ok w"
  shows "pm_ok (snd (rt_pm_sleep_request i m w))"
    and "pm_abs (snd (rt_pm_sleep_request i m w)) = count_do (Sleep_Request i m) (pm_abs w)"
    and "pm_init_flag (snd (rt_pm_sleep_request i m w)) = pm_init_flag w"
  using hold_step [OF assms, of i m "\<lambda>x. x OR push_bit (i mod 32) 1" True] assms
  by (auto simp: rt_pm_sleep_request_def bit_simps PM_MODULE_MAX_ID_def)

lemma sleep_release_ok:
  assumes "pm_ok w"
  shows "pm_ok (snd (rt_pm_sleep_release i m w))"
    and "pm_abs (snd (rt_pm_sleep_release i m w)) = count_do (Sleep_Release i m) (pm_abs w)"
    and "pm_init_flag (snd (rt_pm_sleep_release i m w)) = pm_init_flag w"
  using hold_step [OF assms, of i m "\<lambda>x. x AND NOT (push_bit (i mod 32) 1)" False] assms holds_out [of i m w]
  by (auto simp: rt_pm_sleep_release_def bit_simps PM_MODULE_MAX_ID_def)

lemma delay_sleep_ok:
  "pm_ok w \<Longrightarrow> pm_ok (rt_pm_module_delay_sleep i t w)" "pm_abs (rt_pm_module_delay_sleep i t w) = pm_abs w"
  "pm_init_flag (rt_pm_module_delay_sleep i t w) = pm_init_flag w"
  by (auto simp: rt_pm_module_delay_sleep_def pm_ok_def pm_abs_def cong: if_cong)

lemma pm_do_refines:
  assumes "pm_ok w" and "pm_init_flag w" and "call_safe c"
  shows "\<exists>w'. pm_do c w = Some w' \<and> pm_ok w' \<and> pm_init_flag w' \<and> pm_abs w' = count_do c (pm_abs w)"
proof (cases c)
  case (Module_Request i m)
  then show ?thesis
    using vote_module_request [OF assms(1,2), of i m] assms(1,2)
    by (cases "i < PM_MODULE_MAX_ID")
      (auto simp: voted_step_def rt_pm_module_request_def PM_MODULE_MAX_ID_def)
next
  case (Module_Release i m)
  then show ?thesis
    using vote_module_release [OF assms(1,2), of i m] assms(1,2)
    by (cases "i < PM_MODULE_MAX_ID")
      (auto simp: voted_step_def rt_pm_module_release_def PM_MODULE_MAX_ID_def)
next
  case (Module_Release_All i m)
  then show ?thesis
    using vote_module_release_all [OF assms(1,2), of i m] assms(2,3) by (auto simp: voted_step_def)
next
  case (Device_Write pos buf)
  then show ?thesis
    using vote_request [OF assms(1,2)] vote_release [OF assms(1,2)] assms(1,2)
    by (auto simp: voted_step_def rt_pm_device_write_def split: list.splits)
next
  case (Device_Control cmd arg)
  then show ?thesis
    using vote_request [OF assms(1,2)] vote_release [OF assms(1,2)] assms(1,2)
    by (auto simp: voted_step_def rt_pm_device_control_def split: pm_ctrl.splits)
qed (use vote_request [OF assms(1,2)] vote_release [OF assms(1,2)] vote_release_all [OF assms(1,2)]
    sleep_request_ok [OF assms(1)] sleep_release_ok [OF assms(1)] delay_sleep_ok [where w = w] assms in \<open>simp_all add: voted_step_def\<close>)

lemma pm_run_abs:
  assumes "pm_ok w" and "pm_init_flag w" and "\<forall>c \<in> set cs. call_safe c"
  shows "\<exists>w'. pm_run cs w = Some w' \<and> pm_ok w' \<and> pm_init_flag w' \<and> pm_abs w' = fold count_do cs (pm_abs w)"
  using assms
proof (induction cs arbitrary: w)
  case (Cons c cs)
  then obtain w1 where "pm_do c w = Some w1" "pm_ok w1" "pm_init_flag w1" "pm_abs w1 = count_do c (pm_abs w)"
    using pm_do_refines [of w c] by auto
  then show ?case using Cons.IH [of w1] Cons.prems(3) by auto
qed simp

text \<open>The calls that add to, take from or clear a mode's count.\<close>

fun call_up :: "pm_call \<Rightarrow> nat option" where
  "call_up (Request m) = Some m"
| "call_up (Module_Request i m) = (if i < PM_MODULE_MAX_ID then Some m else None)"
| "call_up (Device_Write pos buf) = (case buf of r # _ \<Rightarrow> if r = 1 then Some (nat (pos mod 256)) else None | [] \<Rightarrow> None)"
| "call_up (Device_Control cmd arg) = (if cmd = RT_PM_DEVICE_CTRL_REQUEST then Some (unat arg mod 256) else None)"
| "call_up _ = None"

fun call_down :: "pm_call \<Rightarrow> nat option" where
  "call_down (Release m) = Some m"
| "call_down (Module_Release i m) = (if i < PM_MODULE_MAX_ID then Some m else None)"
| "call_down (Device_Write pos buf) = (case buf of r # _ \<Rightarrow> if r = 0 then Some (nat (pos mod 256)) else None | [] \<Rightarrow> None)"
| "call_down (Device_Control cmd arg) = (if cmd = RT_PM_DEVICE_CTRL_RELEASE then Some (unat arg mod 256) else None)"
| "call_down _ = None"

fun call_clear :: "pm_call \<Rightarrow> nat option" where
  "call_clear (Release_All m) = Some m"
| "call_clear (Module_Release_All i m) = Some m"
| "call_clear _ = None"

definition ups :: "nat \<Rightarrow> pm_call list \<Rightarrow> nat" where "ups m cs = length (filter (\<lambda>c. call_up c = Some m) cs)"
definition downs :: "nat \<Rightarrow> pm_call list \<Rightarrow> nat" where "downs m cs = length (filter (\<lambda>c. call_down c = Some m) cs)"

lemma count_do_votes:
  assumes "m < PM_SLEEP_MODE_MAX" and "call_clear c \<noteq> Some m"
  shows "votes (count_do c a) m =
    (if call_up c = Some m then count_up (votes a m) else if call_down c = Some m then vote_down (votes a m) else votes a m)"
  using assms by (cases c) (auto simp: vote_def split: list.splits pm_ctrl.splits)

lemma votes_bounds:
  assumes "m < PM_SLEEP_MODE_MAX" and "\<forall>c \<in> set cs. call_clear c \<noteq> Some m" and "votes a m + ups m cs \<le> 255"
  shows "votes a m + ups m cs \<le> votes (fold count_do cs a) m + downs m cs"
  using assms(2,3)
proof (induction cs arbitrary: a)
  case (Cons c cs)
  note v = count_do_votes [OF assms(1), of c a]
  have "\<not> (call_up c = Some m \<and> call_down c = Some m)" by (cases c) (auto split: list.splits)
  moreover have b: "votes (count_do c a) m + ups m cs \<le> 255"
    using Cons.prems v by (auto simp: ups_def count_up_def vote_down_def split: if_splits)
  moreover have "votes (count_do c a) m + ups m cs \<le> votes (fold count_do cs (count_do c a)) m + downs m cs"
    by (rule Cons.IH) (use Cons.prems(1) b in auto)
  ultimately show ?case
    using Cons.prems v by (auto simp: ups_def downs_def count_up_def vote_down_def split: if_splits)
qed (simp add: ups_def downs_def)

lemma spec_mode_le:
  assumes "m \<in> voted a \<or> m \<in> snd ` holds a" and "finite (holds a)"
  shows "spec_mode a \<le> m"
proof (cases "m \<in> voted a")
  case True
  then have "voted_mode a \<le> m" by (auto simp: voted_mode_def voted_def intro: Min_le)
  moreover have "spec_mode a \<le> voted_mode a" unfolding spec_mode_def using assms(2) by (intro Min_le) auto
  ultimately show ?thesis by (rule order_trans [rotated])
next
  case False
  then show ?thesis unfolding spec_mode_def using assms by (intro Min_le) auto
qed

lemma finite_holds: "finite (holds (pm_abs w))"
proof (rule finite_subset)
  show "holds (pm_abs w) \<subseteq> {..<PM_MODULE_MAX_ID} \<times> {..<PM_SLEEP_MODE_MAX}" by (auto simp: pm_abs_def)
qed simp

lemma spec_votes_out: "m \<ge> PM_SLEEP_MODE_MAX \<Longrightarrow> votes (spec_do c a) m = votes a m"
  by (cases c) (auto simp: vote_def split: list.splits pm_ctrl.splits)

lemma counts_exact:
  assumes "within_byte cs a" and "\<forall>m \<ge> PM_SLEEP_MODE_MAX. votes a m = 0"
  shows "fold count_do cs a = fold spec_do cs a"
  using assms
proof (induction cs arbitrary: a)
  case (Cons c cs)
  have "\<forall>m. votes (spec_do c a) m \<le> 255"
    using Cons.prems spec_votes_out [of _ c a] by (metis le0 not_less within_byte.simps(2))
  then have "count_do c a = spec_do c a" by (rule count_do_exact)
  then show ?case using Cons spec_votes_out [of _ c a] by simp
qed simp

text \<open>C14: whatever sequence of requests and releases the system makes, through the functions and through the device file, with never more
  than 255 requests for a mode at a time, the counters and bits of power management are what the calls ask for, and the mode it selects
  is the lightest of the modes held and the mode that the requests choose: the lightest one requested, or deep sleep when none
  is.  (Releasing all of a module's requests is limited to modules that exist, since the code does not check the number there.)\<close>

theorem pm_run_selects_lightest:
  assumes "pm_ok w" and "pm_init_flag w" and "\<forall>c \<in> set cs. call_safe c" and "within_byte cs (pm_abs w)"
  shows "\<exists>w'. pm_run cs w = Some w' \<and> pm_ok w' \<and> pm_abs w' = fold spec_do cs (pm_abs w) \<and>
    pm_select_sleep_mode w' = spec_mode (fold spec_do cs (pm_abs w))"
proof -
  have "\<forall>m \<ge> PM_SLEEP_MODE_MAX. votes (pm_abs w) m = 0" by (simp add: pm_abs_def)
  then show ?thesis using pm_run_abs [OF assms(1-3)] pm_select_spec counts_exact [OF assms(4)] by metis
qed

text \<open>A request is honoured for as long as it is held: after any calls in which a mode was requested more often than
  released and never cleared, the selected mode is no deeper, provided that its count stays within
  a byte.\<close>

theorem rt_pm_request_honoured:
  assumes "pm_ok w" and "pm_init_flag w" and "\<forall>c \<in> set cs. call_safe c" and "m < PM_SLEEP_MODE_MAX"
    and "\<forall>c \<in> set cs. call_clear c \<noteq> Some m" and "modes (w_pm w) ! m + ups m cs \<le> 255"
    and "downs m cs < modes (w_pm w) ! m + ups m cs"
  shows "\<exists>w'. pm_run cs w = Some w' \<and> pm_select_sleep_mode w' \<le> m"
proof -
  obtain w' where w': "pm_run cs w = Some w'" "pm_ok w'" "pm_abs w' = fold count_do cs (pm_abs w)"
    using pm_run_abs [OF assms(1-3)] by blast
  have "votes (pm_abs w) m = modes (w_pm w) ! m" using assms(4) by (simp add: pm_abs_def)
  then have "votes (pm_abs w') m \<noteq> 0" using votes_bounds [OF assms(4,5), of "pm_abs w"] assms(6,7) w'(3) by simp
  then have "spec_mode (pm_abs w') \<le> m" using assms(4) finite_holds by (intro spec_mode_le) (auto simp: voted_def)
  then show ?thesis using w' pm_select_spec [of w'] by simp
qed

text \<open>The state after start-up: nothing is set but the request for light sleep that \<^verbatim>\<open>rt_system_pm_init\<close> makes.\<close>

definition pm_zero :: rt_pm where
  "pm_zero = \<lparr>modes = replicate 6 0, sleep_mode = 0, run_mode = 0,
     module_status = replicate 17 \<lparr>req_status = 0, busy_flag = False, pm_timeout = 0, start_time = 0\<rparr>,
     sleep_status = replicate 5 [0], device_list = [], timer_mask = 0, pm_flags = 0, ops_set = False\<rparr>"

definition pm_start :: "kernel \<Rightarrow> 'd \<Rightarrow> 'h \<Rightarrow> ('h, 'd) pm_world" where
  "pm_start s d h = rt_system_pm_init (push_bit PM_SLEEP_MODE_DEEP 1)
     \<lparr>w_pm = pm_zero, pm_default_sleep = RT_PM_DEFAULT_SLEEP_MODE, pm_default_deepsleep = RT_PM_DEFAULT_DEEPSLEEP_MODE,
      pm_notify = None, pm_init_flag = False, w_lptimers = [], w_kernel = s, w_dev = d, w_hw = h\<rparr>"

lemma pm_start_pm:
  "w_pm (pm_start s d h) = pm_zero\<lparr>modes := [0, 0, 1, 0, 0, 0], sleep_mode := 2, run_mode := 1,
     module_status := (module_status pm_zero)[1 := \<lparr>req_status = 1, busy_flag = False, pm_timeout = 0, start_time = 0\<rparr>],
     timer_mask := 8, ops_set := True\<rparr>"
  "pm_init_flag (pm_start s d h)" "pm_default_deepsleep (pm_start s d h) = 3"
  "w_kernel (pm_start s d h) = s" "w_dev (pm_start s d h) = d" "w_hw (pm_start s d h) = h"
  "w_lptimers (pm_start s d h) = []" "pm_notify (pm_start s d h) = None"
  by (simp_all add: pm_start_def rt_system_pm_init_def upd_pm_def set_req_status_def Let_def pm_modes PM_POWER_ID_def
      RT_PM_DEFAULT_RUN_MODE_def PM_RUN_MODE_NORMAL_SPEED_def pm_zero_def numeral_eq_Suc)

lemma pm_start_ok: "pm_ok (pm_start s d h)"
  by (simp add: pm_ok_def pm_start_pm pm_modes PM_MODULE_MAX_ID_def) (simp add: pm_zero_def)

lemma pm_start_abs: "pm_abs (pm_start s d h) = \<lparr>votes = (\<lambda>m. if m = 2 then 1 else 0), holds = {}\<rparr>"
proof -
  have "(if m < 6 then [0, 0, 1, 0, 0, 0] ! m else 0) = (if m = 2 then 1 else (0 :: nat))" for m :: nat
    by (simp add: nth_Cons')
  then show ?thesis
    by (auto simp: pm_abs_def pm_start_pm pm_modes PM_MODULE_MAX_ID_def pm_zero_def cong: if_cong)
qed

theorem pm_run_selects_lightest_witness:
  "\<exists>w'. pm_run [Release 2, Sleep_Request 8 1, Module_Request 3 4] (pm_start demo_kernel () ()) = Some w' \<and>
    pm_select_sleep_mode w' = 1"
proof -
  let ?cs = "[Release 2, Sleep_Request 8 1, Module_Request 3 4]" and ?w = "pm_start demo_kernel () ()"
  let ?a = "fold spec_do ?cs (pm_abs ?w)"
  have "holds ?a = {(8, 1)}" by (simp add: pm_start_abs vote_def PM_MODULE_MAX_ID_def pm_modes)
  moreover have "voted ?a = {4}"
    by (auto simp: pm_start_abs voted_def vote_def PM_MODULE_MAX_ID_def pm_modes vote_up_def vote_down_def)
  ultimately have "spec_mode ?a = 1" by (simp add: spec_mode_def voted_mode_def)
  moreover have "within_byte ?cs (pm_abs ?w)"
    by (simp add: pm_start_abs vote_def PM_MODULE_MAX_ID_def pm_modes vote_up_def vote_down_def)
  ultimately show ?thesis
    using pm_run_selects_lightest [OF pm_start_ok pm_start_pm(2), of ?cs demo_kernel "()" "()"] by (auto simp: PM_MODULE_MAX_ID_def)
qed

theorem rt_pm_request_honoured_witness:
  "\<exists>w'. pm_run [Request 1, Release 2, Request 1, Release 1] (pm_start demo_kernel () ()) = Some w' \<and>
    pm_select_sleep_mode w' \<le> 1"
  by (rule rt_pm_request_honoured [OF pm_start_ok pm_start_pm(2)])
    (simp_all add: pm_modes pm_start_pm ups_def downs_def)

text \<open>The limit of the counters: of 256 requests the last is not counted, so that 255 releases withdraw them all.\<close>

lemma rt_pm_request_saturates:
  fixes w :: "('h, 'd) pm_world"
  assumes "pm_ok w" and "pm_init_flag w" and "m < PM_SLEEP_MODE_MAX" and "modes (w_pm w) ! m = 0"
  shows "\<exists>w'. pm_run (replicate 256 (Request m) @ replicate 255 (Release m)) w = Some w' \<and> modes (w_pm w') ! m = 0"
proof -
  have up: "votes (fold count_do (replicate n (Request m)) a) m = min 255 (votes a m + n)" if "votes a m \<le> 255" for n a
    using that assms(3) by (induction n arbitrary: a) (auto simp: vote_def count_up_def)
  have down: "votes (fold count_do (replicate n (Release m)) a) m = votes a m - n" for n a
    using assms(3) by (induction n arbitrary: a) (auto simp: vote_def vote_down_def)
  have "votes (fold count_do (replicate 256 (Request m) @ replicate 255 (Release m)) (pm_abs w)) m = 0"
    unfolding fold_append comp_def down using up [of "pm_abs w" 256] assms(3,4) by (simp add: pm_abs_def)
  moreover have "votes (pm_abs w') m = modes (w_pm w') ! m" for w' :: "('h, 'd) pm_world"
    using assms(3) by (simp add: pm_abs_def)
  moreover have "\<forall>c \<in> set (replicate 256 (Request m) @ replicate 255 (Release m)). call_safe c" by simp
  ultimately show ?thesis using pm_run_abs [OF assms(1,2)] by metis
qed

end
