(* ===== verification/Pm_Sleep.thy ===== *)
theory Pm_Sleep
  imports Pm
begin

unbundle bit_operations_syntax

text \<open>
  One pass of the idle thread through power management (\<^verbatim>\<open>rt_system_power_manager\<close> of \<^verbatim>\<open>pm.c\<close>).  What the pass needs of
  the driver below it is the locale \<open>pm_driver\<close>: sleeping returns and takes the processor into the mode asked for, the timer that is
  started for \<open>t\<close> ticks does not run for longer, and reading it gives its count.  The theorem proved once in the locale is that a pass
  sleeps at most once, never deeper than any request allows, never past the deadline of a running low-power timer, and moves the kernel's
  tick by exactly what the timer had counted when the processor woke up.  \<open>Drv_Pm\<close> shows that the board's driver meets the contract.

  The power operations of devices and the notification are assumed to change only the devices' own state (\<open>quiet_devices\<close>),
  and the timeout functions of timers to leave timers alone (\<open>quiet\<close>).
\<close>

section \<open>Callbacks that keep to their device\<close>

definition dev_only :: "('h, 'd) pm_world \<Rightarrow> ('h, 'd) pm_world \<Rightarrow> bool" where
  "dev_only w w' \<longleftrightarrow> w' = w\<lparr>w_dev := w_dev w'\<rparr>"

definition quiet_devices :: "('h, 'd) pm_env \<Rightarrow> bool" where
  "quiet_devices e \<longleftrightarrow>
     (\<forall>a f d m w. dev_suspend (e_dev e a) = Some f \<longrightarrow> dev_only w (snd (f d m w))) \<and>
     (\<forall>a f d m w. dev_resume (e_dev e a) = Some f \<longrightarrow> dev_only w (f d m w)) \<and>
     (\<forall>a f d m w. dev_frequency_change (e_dev e a) = Some f \<longrightarrow> dev_only w (snd (f d m w))) \<and>
     (\<forall>a ev m x w. dev_only w (e_notify e a ev m x w))"

lemma dev_only_refl [simp]: "dev_only w w"
  by (simp add: dev_only_def)

lemma dev_only_trans: "dev_only w1 w2 \<Longrightarrow> dev_only w2 w3 \<Longrightarrow> dev_only w1 w3"
  by (cases w1, cases w2, cases w3) (simp add: dev_only_def)

lemma dev_only_fields:
  assumes "dev_only w w'"
  shows "w_pm w' = w_pm w" "w_kernel w' = w_kernel w" "w_lptimers w' = w_lptimers w" "w_hw w' = w_hw w"
    "pm_init_flag w' = pm_init_flag w" "pm_default_deepsleep w' = pm_default_deepsleep w" "pm_notify w' = pm_notify w"
  using assms by (cases w, cases w', simp add: dev_only_def)+

lemma notify_dev_only: "quiet_devices e \<Longrightarrow> dev_only w (notify e ev w)"
  by (auto simp: quiet_devices_def notify_def split: option.splits)

lemma suspend_loop_dev_only: "quiet_devices e \<Longrightarrow> dev_only w (snd (suspend_loop e m ds r w))"
proof (induction ds arbitrary: r w)
  case (Cons d ds)
  show ?case
  proof (cases "Option.bind (dp_ops d) (\<lambda>a. dev_suspend (e_dev e a))")
    case None
    then show ?thesis using Cons by simp
  next
    case (Some f)
    obtain r1 w1 where f: "f (dp_device d) m w = (r1, w1)" by fastforce
    have "dev_only w w1"
      using Cons.prems Some f by (auto simp: quiet_devices_def bind_eq_Some_conv) (metis snd_conv)
    moreover have "dev_only w1 (snd (suspend_loop e m ds r1 w1))" using Cons by simp
    ultimately have "dev_only w (snd (suspend_loop e m ds r1 w1))" by (rule dev_only_trans)
    then show ?thesis using Some f \<open>dev_only w w1\<close> by auto
  qed
qed simp

lemma resume_loop_dev_only: "quiet_devices e \<Longrightarrow> dev_only w (resume_loop e m ds w)"
proof (induction ds arbitrary: w)
  case (Cons d ds)
  show ?case
  proof (cases "Option.bind (dp_ops d) (\<lambda>a. dev_resume (e_dev e a))")
    case None
    then show ?thesis using Cons by simp
  next
    case (Some f)
    then have "dev_only w (f (dp_device d) m w)"
      using Cons.prems by (auto simp: quiet_devices_def bind_eq_Some_conv)
    moreover have "dev_only (f (dp_device d) m w) (resume_loop e m ds (f (dp_device d) m w))" using Cons by simp
    ultimately have "dev_only w (resume_loop e m ds (f (dp_device d) m w))" by (rule dev_only_trans)
    then show ?thesis using Some by simp
  qed
qed simp

lemma freq_loop_dev_only:
  assumes "quiet_devices e" and "\<forall>d \<in> set ds. dp_ops d \<noteq> None"
  shows "\<exists>w'. freq_loop e m ds w = Some w' \<and> dev_only w w'"
  using assms(2)
proof (induction ds arbitrary: w)
  case (Cons d ds)
  then obtain a where a: "dp_ops d = Some a" by auto
  show ?case
  proof (cases "dev_frequency_change (e_dev e a)")
    case None
    then show ?thesis using Cons a by simp
  next
    case (Some f)
    then have "dev_only w (snd (f (dp_device d) m w))" using assms(1) by (simp add: quiet_devices_def)
    moreover obtain w' where "freq_loop e m ds (snd (f (dp_device d) m w)) = Some w'"
        "dev_only (snd (f (dp_device d) m w)) w'" using Cons by auto
    ultimately show ?thesis using Some a dev_only_trans by auto
  qed
qed simp

section \<open>The choice of the mode\<close>

text \<open>A module that asked for a delay that is not over.\<close>

definition module_busy :: "rt_tick_t \<Rightarrow> rt_pm_module \<Rightarrow> bool" where
  "module_busy now m \<longleftrightarrow> busy_flag m \<and> now - start_time m \<le> pm_timeout m"

lemma check_idle_loop_busy: "fst (check_idle_loop now ms) \<longleftrightarrow> \<not> (\<exists>m \<in> set ms. module_busy now m)"
  by (induction ms) (auto simp: module_expire_def module_busy_def Let_def split: prod.splits)

lemma check_idle_loop_frame:
  "length (snd (check_idle_loop now ms)) = length ms" "map req_status (snd (check_idle_loop now ms)) = map req_status ms"
  by (induction ms) (auto simp: module_expire_def Let_def split: prod.splits)

definition some_busy :: "('h, 'd) pm_world \<Rightarrow> bool" where
  "some_busy w \<longleftrightarrow> (\<exists>m \<in> set (module_status (w_pm w)). module_busy (tick (w_kernel w)) m)"

lemma pm_choose_eq:
  assumes "pm_init_flag w"
  shows "\<exists>ms. length ms = length (module_status (w_pm w)) \<and>
    pm_choose w = upd_pm (\<lambda>pm. pm\<lparr>module_status := ms, sleep_mode :=
      (if some_busy w then min PM_BUSY_SLEEP_MODE (pm_select_sleep_mode w) else pm_select_sleep_mode w)\<rparr>) w"
proof -
  obtain b ms where ms: "check_idle_loop (tick (w_kernel w)) (module_status (w_pm w)) = (b, ms)" by fastforce
  have "length ms = length (module_status (w_pm w))" "b \<longleftrightarrow> \<not> some_busy w"
    using check_idle_loop_frame(1) [of "tick (w_kernel w)" "module_status (w_pm w)"]
      check_idle_loop_busy [of "tick (w_kernel w)" "module_status (w_pm w)"] ms by (auto simp: some_busy_def)
  moreover have "pm_choose w = upd_pm (\<lambda>pm. pm\<lparr>module_status := ms, sleep_mode :=
      (if \<not> b then min PM_BUSY_SLEEP_MODE (pm_select_sleep_mode w) else pm_select_sleep_mode w)\<rparr>) w"
    using ms assms
    by (cases w) (auto simp: pm_choose_def pm_device_check_idle_def set_sleep_mode_def rt_tick_get_def upd_pm_def min_def)
  ultimately show ?thesis by auto
qed

section \<open>The contract of a driver\<close>

text \<open>\<open>ready\<close> holds of hardware in which the operations return, \<open>limit\<close> is the number of ticks after which the timer
  ends a sleep at the latest, and \<open>count\<close> is the number of ticks that the timer has counted.  \<open>naps\<close> is the history of the
  processor: the modes in which it slept, with the count of the timer at each wake-up.\<close>

locale pm_driver =
  fixes ops :: "'h rt_pm_ops" and ready :: "'h \<Rightarrow> bool" and limit :: "'h \<Rightarrow> nat" and count :: "'h \<Rightarrow> nat"
    and naps :: "'h \<Rightarrow> (nat \<times> nat) list"
  assumes sleep_returns: "ready h \<Longrightarrow> \<exists>f h'. op_sleep ops = Some f \<and> f m h = Some h' \<and> ready h' \<and>
      naps h' = naps h @ (if m = PM_SLEEP_MODE_LIGHT \<or> m = PM_SLEEP_MODE_DEEP then [(m, count h')] else []) \<and>
      (m = PM_SLEEP_MODE_DEEP \<longrightarrow> count h' \<le> limit h)"
    and run_returns: "ready h \<Longrightarrow> \<exists>f h'. op_run ops = Some f \<and> f m h = Some h' \<and> ready h' \<and> naps h' = naps h"
    and start_limits: "ready h \<Longrightarrow> \<exists>f h'. op_timer_start ops = Some f \<and> f t h = Some h' \<and> ready h' \<and> limit h' \<le> unat t \<and>
      naps h' = naps h"
    and stop_ready: "ready h \<Longrightarrow> \<exists>f. op_timer_stop ops = Some f \<and> ready (f h) \<and> naps (f h) = naps h"
    and get_counts: "ready h \<Longrightarrow> \<exists>f h'. op_timer_get_tick ops = Some f \<and> f h = (of_nat (count h), h') \<and> ready h' \<and>
      count h < 2 ^ 32 \<and> naps h' = naps h"

text \<open>What the state must satisfy before a pass: the timer runs in deep sleep only, no timer is overdue, and every
  registered device has operations.\<close>

definition idle_ok :: "('h, 'd) pm_world \<Rightarrow> bool" where
  "idle_ok w \<longleftrightarrow> pm_ok w \<and> pm_init_flag w \<and> ops_set (w_pm w) \<and>
     timer_mask (w_pm w) = push_bit PM_SLEEP_MODE_DEEP 1 \<and>
     (\<forall>d \<in> set (device_list (w_pm w)). dp_ops d \<noteq> None) \<and>
     check_ok (w_kernel w) \<and> (\<forall>y \<in> set (timer_list (w_kernel w)). timer_active (w_kernel w) y)"

definition lp_world :: "('h, 'd) pm_world \<Rightarrow> nat set" where
  "lp_world w = lp_running (w_lptimers w, w_kernel w)"

lemma timer_in_mode_deep:
  assumes "timer_mask (w_pm w) = push_bit PM_SLEEP_MODE_DEEP 1"
  shows "timer_in_mode w \<longleftrightarrow> sleep_mode (w_pm w) = PM_SLEEP_MODE_DEEP"
proof -
  have "push_bit 3 (1 :: u32w) AND push_bit n 1 \<noteq> 0 \<longleftrightarrow> n = 3" for n
  proof
    assume "push_bit 3 (1 :: u32w) AND push_bit n 1 \<noteq> 0"
    moreover have "push_bit 3 (1 :: u32w) AND push_bit n 1 = 0" if "n \<noteq> 3"
      using that by (intro bit_eqI) (simp only: bit_and_iff bit_push_bit_iff bit_1_iff bit_0_eq bot_apply, auto)
    ultimately show "n = 3" by blast
  qed simp
  then show ?thesis using assms by (simp add: timer_in_mode_def pm_modes)
qed

lemma interrupt_frame [simp]:
  "check_ok (rt_interrupt_enter s) = check_ok s" "timer_list (rt_interrupt_enter s) = timer_list s"
  "timer_active (rt_interrupt_enter s) = timer_active s" "tick (rt_interrupt_enter s) = tick s"
  "kinv (rt_interrupt_leave s) = kinv s" "timer_list (rt_interrupt_leave s) = timer_list s"
  "timer_expired (rt_interrupt_leave s) = timer_expired s" "tick (rt_interrupt_leave s) = tick s"
  "timers (rt_interrupt_leave s) = timers s"
proof -
  have k: "kinv (s\<lparr>interrupt_nest := n\<rparr>) = kinv s" for n by (rule kinv_cong) simp_all
  show "check_ok (rt_interrupt_enter s) = check_ok s" "timer_list (rt_interrupt_enter s) = timer_list s"
    "timer_active (rt_interrupt_enter s) = timer_active s" "tick (rt_interrupt_enter s) = tick s"
    "kinv (rt_interrupt_leave s) = kinv s" "timer_list (rt_interrupt_leave s) = timer_list s"
    "timer_expired (rt_interrupt_leave s) = timer_expired s" "tick (rt_interrupt_leave s) = tick s"
    "timers (rt_interrupt_leave s) = timers s"
    by (simp_all add: rt_interrupt_enter_def rt_interrupt_leave_def check_ok_def fire_ok_def k timer_active_def
        timer_expired_def rt_tick_get_def timer_periodic_def fun_eq_iff)
qed

lemma threshold_le: "pm_get_sleep_threshold_mode m t w \<le> m"
  by (simp add: pm_get_sleep_threshold_mode_def pm_modes)

lemma threshold_deep:
  "pm_init_flag w \<Longrightarrow> pm_get_sleep_threshold_mode PM_SLEEP_MODE_DEEP t w = PM_SLEEP_MODE_DEEP \<longleftrightarrow> PM_DEEP_THRESHOLD_TIME \<le> t"
proof -
  have "(5 :: rt_tick_t) \<le> t" if "20 \<le> t" using that by (rule order_trans [rotated]) simp
  then show "pm_init_flag w \<Longrightarrow> ?thesis"
    by (auto simp: pm_get_sleep_threshold_mode_def pm_modes PM_LIGHT_THRESHOLD_TIME_def PM_DEEP_THRESHOLD_TIME_def not_less)
qed

lemma set_simps [simp]:
  "w_pm (set_hw h w) = w_pm w" "w_hw (set_hw h w) = h" "w_kernel (set_hw h w) = w_kernel w"
  "w_lptimers (set_hw h w) = w_lptimers w" "pm_init_flag (set_hw h w) = pm_init_flag w"
  "pm_notify (set_hw h w) = pm_notify w" "pm_default_deepsleep (set_hw h w) = pm_default_deepsleep w"
  "w_pm (set_sleep_mode m w) = (w_pm w)\<lparr>sleep_mode := m\<rparr>" "w_hw (set_sleep_mode m w) = w_hw w"
  "w_kernel (set_sleep_mode m w) = w_kernel w" "w_lptimers (set_sleep_mode m w) = w_lptimers w"
  "pm_init_flag (set_sleep_mode m w) = pm_init_flag w"
  by (simp_all add: set_hw_def set_sleep_mode_def)

text \<open>The number of ticks for which the timer is started.\<close>

definition next_due :: "('h, 'd) pm_world \<Rightarrow> rt_tick_t" where
  "next_due w = rt_lptimer_next_timeout_tick (w_lptimers w, w_kernel w) - tick (w_kernel w)"

lemma next_due_le:
  assumes "x \<in> lp_world w" and "lp_due_in (w_kernel w) x \<noteq> RT_TICK_MAX"
  shows "next_due w \<le> lp_due_in (w_kernel w) x"
  using next_timeout_nearest [of x "w_lptimers w" "w_kernel w"] assms by (simp add: next_due_def lp_world_def)

lemma pm_arm_idle:
  assumes "timer_mask (w_pm w) = push_bit PM_SLEEP_MODE_DEEP 1" and "sleep_mode (w_pm w) \<noteq> PM_SLEEP_MODE_DEEP"
  shows "pm_arm e w = Some w"
  using timer_in_mode_deep [OF assms(1)] assms(2) by (simp add: pm_arm_def)

lemma pm_arm_deep:
  assumes mask: "timer_mask (w_pm w) = push_bit PM_SLEEP_MODE_DEEP 1" and "sleep_mode (w_pm w) = PM_SLEEP_MODE_DEEP"
  shows "pm_arm e w =
    (let w1 = set_sleep_mode (pm_get_sleep_threshold_mode PM_SLEEP_MODE_DEEP (next_due w) w) w
     in if sleep_mode (w_pm w1) = PM_SLEEP_MODE_DEEP then pm_lptimer_start e (next_due w) w1 else Some w1)"
  using timer_in_mode_deep [OF mask] timer_in_mode_deep [of "set_sleep_mode m w" for m] assms
  by (simp add: pm_arm_def pm_timer_next_timeout_tick_def next_due_def rt_tick_get_def Let_def pm_modes)

text \<open>The outcome of a pass that started in \<open>w\<close>.  The mode is the one requested, unless a module is busy or the timer would run for less than
  the threshold.  In deep sleep the processor sleeps once, in that mode, and the tick moves by the count \<open>n\<close> of the timer at the wake-up;
  in light sleep it sleeps once, in the other modes not at all, and the kernel is as before.\<close>

definition pass_ok :: "('h \<Rightarrow> (nat \<times> nat) list) \<Rightarrow> ('h, 'd) pm_world \<Rightarrow> ('h, 'd) pm_world \<Rightarrow> bool" where
  "pass_ok naps w w' \<longleftrightarrow>
     (let m = sleep_mode (w_pm w') in
      pm_ok w' \<and> pm_abs w' = pm_abs w \<and> kinv (w_kernel w') \<and>
      m \<le> spec_mode (pm_abs w) \<and> (some_busy w \<longrightarrow> m \<le> PM_SLEEP_MODE_IDLE) \<and>
      (m < spec_mode (pm_abs w) \<longrightarrow> some_busy w \<or> next_due w < PM_DEEP_THRESHOLD_TIME) \<and>
      (if m = PM_SLEEP_MODE_DEEP then
         \<exists>n. naps (w_hw w') = naps (w_hw w) @ [(m, n)] \<and> tick (w_kernel w') = tick (w_kernel w) + of_nat n \<and>
           (\<forall>x \<in> lp_world w. lp_due_in (w_kernel w) x \<noteq> RT_TICK_MAX \<longrightarrow>
              PM_DEEP_THRESHOLD_TIME \<le> lp_due_in (w_kernel w) x \<and> n \<le> unat (lp_due_in (w_kernel w) x)) \<and>
           (0 < n \<longrightarrow> (\<forall>x xs. timer_list (w_kernel w') = x # xs \<longrightarrow> \<not> timer_expired (w_kernel w') x))
       else w_kernel w' = w_kernel w \<and>
         (\<exists>c. naps (w_hw w') = naps (w_hw w) @ (if m = PM_SLEEP_MODE_LIGHT then [(m, c)] else []))))"

lemma pm_ok_sleep_mode [simp]: "pm_ok (set_sleep_mode m w) = pm_ok w" "pm_abs (set_sleep_mode m w) = pm_abs w"
  by (simp_all add: pm_ok_def pm_abs_def set_sleep_mode_def cong: if_cong)

lemma pm_ok_cong:
  assumes "modes (w_pm w') = modes (w_pm w)" and "sleep_status (w_pm w') = sleep_status (w_pm w)"
    and "length (module_status (w_pm w')) = length (module_status (w_pm w))"
    and "pm_default_deepsleep w' = pm_default_deepsleep w"
  shows "pm_ok w' = pm_ok w" and "pm_abs w' = pm_abs w"
  using assms by (simp_all add: pm_ok_def pm_abs_def cong: if_cong)

context pm_driver
begin

lemma arm:
  assumes "e_ops e = ops" and "pm_init_flag w" and "ready (w_hw w)"
    and mask: "timer_mask (w_pm w) = push_bit PM_SLEEP_MODE_DEEP 1"
  shows "\<exists>m h. pm_arm e w = Some (set_hw h (set_sleep_mode m w)) \<and> ready h \<and> naps h = naps (w_hw w) \<and> m \<le> sleep_mode (w_pm w) \<and>
    (m < sleep_mode (w_pm w) \<longrightarrow> next_due w < PM_DEEP_THRESHOLD_TIME) \<and>
    (m = PM_SLEEP_MODE_DEEP \<longrightarrow> PM_DEEP_THRESHOLD_TIME \<le> next_due w \<and> limit h \<le> unat (next_due w))"
proof (cases "sleep_mode (w_pm w) = PM_SLEEP_MODE_DEEP")
  case False
  have "set_hw (w_hw w) (set_sleep_mode (sleep_mode (w_pm w)) w) = w"
    by (cases w) (simp add: set_hw_def set_sleep_mode_def upd_pm_def)
  then show ?thesis using pm_arm_idle [OF mask False] assms(3) False
    by (intro exI [of _ "sleep_mode (w_pm w)"] exI [of _ "w_hw w"]) simp
next
  case deep: True
  let ?m = "pm_get_sleep_threshold_mode PM_SLEEP_MODE_DEEP (next_due w) w"
  obtain f h where f: "op_timer_start ops = Some f" "f (next_due w) (w_hw w) = Some h" "ready h" "limit h \<le> unat (next_due w)"
      "naps h = naps (w_hw w)"
    using start_limits [OF assms(3)] by blast
  show ?thesis
  proof (cases "?m = PM_SLEEP_MODE_DEEP")
    case True
    then have "pm_arm e w = Some (set_hw h (set_sleep_mode ?m w))"
      using pm_arm_deep [OF mask deep] f assms(1) by (simp add: pm_lptimer_start_def Let_def)
    then show ?thesis using f threshold_deep [OF assms(2)] True deep by (metis less_irrefl order_refl)
  next
    case False
    have "set_hw (w_hw w) (set_sleep_mode ?m w) = set_sleep_mode ?m w"
      by (cases w) (simp add: set_hw_def set_sleep_mode_def upd_pm_def)
    then have "pm_arm e w = Some (set_hw (w_hw w) (set_sleep_mode ?m w))"
      using pm_arm_deep [OF mask deep] False by (simp add: Let_def)
    then show ?thesis using assms(3) threshold_le threshold_deep [OF assms(2)] False deep by (metis not_less)
  qed
qed

lemma slept:
  assumes "e_ops e = ops" and "ready (w_hw w)"
  shows "\<exists>h. pm_sleep e m w = Some (set_hw h w) \<and> ready h \<and>
    naps h = naps (w_hw w) @ (if m = PM_SLEEP_MODE_LIGHT \<or> m = PM_SLEEP_MODE_DEEP then [(m, count h)] else []) \<and> (m = PM_SLEEP_MODE_DEEP \<longrightarrow> count h \<le> limit (w_hw w))"
  using sleep_returns [OF assms(2), of m] assms(1) by (auto simp: pm_sleep_def)

lemma account_deep:
  assumes "e_ops e = ops" and "ready (w_hw w)" and "quiet (e_timeout e)"
    and mask: "timer_mask (w_pm w) = push_bit PM_SLEEP_MODE_DEEP 1" and deep: "sleep_mode (w_pm w) = PM_SLEEP_MODE_DEEP"
    and k: "check_ok (w_kernel w)" "\<forall>y \<in> set (timer_list (w_kernel w)). timer_active (w_kernel w) y"
  shows "\<exists>h s. pm_account e w = Some ((set_hw h w)\<lparr>w_kernel := s\<rparr>) \<and> ready h \<and> naps h = naps (w_hw w) \<and> kinv s \<and>
    tick s = tick (w_kernel w) + of_nat (count (w_hw w)) \<and>
    (count (w_hw w) \<noteq> 0 \<longrightarrow> (\<forall>x xs. timer_list s = x # xs \<longrightarrow> \<not> timer_expired s x))"
proof -
  obtain f h1 where f: "op_timer_get_tick ops = Some f" "f (w_hw w) = (of_nat (count (w_hw w)), h1)" "ready h1"
    "count (w_hw w) < 2 ^ 32" "naps h1 = naps (w_hw w)" using get_counts [OF assms(2)] by blast
  obtain g where g: "op_timer_stop ops = Some g" "ready (g h1)" "naps (g h1) = naps (w_hw w)"
    using stop_ready [OF f(3)] f(5) by auto
  have zero: "of_nat (count (w_hw w)) = (0 :: rt_tick_t) \<longleftrightarrow> count (w_hw w) = 0"
    using f(4) by (auto simp: word_of_nat_eq_0_iff dest: dvd_imp_le)
  have w2: "pm_lptimer_stop e (set_hw h1 w) = set_hw (g h1) w"
    using g(1) assms(1) by (simp add: pm_lptimer_stop_def set_hw_def)
  have get: "pm_lptimer_get_timeout e w = (of_nat (count (w_hw w)), set_hw h1 w)"
    using f assms(1) by (simp add: pm_lptimer_get_timeout_def)
  have kin: "kinv (w_kernel w)" using k(1) by (simp add: check_ok_def fire_ok_def)
  show ?thesis
  proof (cases "count (w_hw w) = 0")
    case True
    then have "pm_account e w = Some ((set_hw (g h1) w)\<lparr>w_kernel := w_kernel w\<rparr>)"
      using timer_in_mode_deep [OF mask] deep get w2 zero by (simp add: pm_account_def set_hw_def)
    then show ?thesis using g kin True by auto
  next
    case False
    obtain s where s: "rt_tick_increase_tick (e_timeout e) (of_nat (count (w_hw w))) (rt_interrupt_enter (w_kernel w)) = Some s"
      "kinv s" "tick s = tick (w_kernel w) + of_nat (count (w_hw w))"
      "\<forall>x xs. timer_list s = x # xs \<longrightarrow> \<not> timer_expired s x"
      using rt_tick_increase_tick_exact [of "rt_interrupt_enter (w_kernel w)" "e_timeout e" "of_nat (count (w_hw w))"] k assms(3)
      by auto
    then have "pm_account e w = Some ((set_hw (g h1) w)\<lparr>w_kernel := rt_interrupt_leave s\<rparr>)"
      using timer_in_mode_deep [OF mask] deep get w2 zero False by (simp add: pm_account_def)
    then show ?thesis using g s by (intro exI [of _ "g h1"] exI [of _ "rt_interrupt_leave s"]) simp
  qed
qed

lemma account:
  assumes "e_ops e = ops" and "ready (w_hw w)" and "quiet (e_timeout e)"
    and mask: "timer_mask (w_pm w) = push_bit PM_SLEEP_MODE_DEEP 1"
    and k: "check_ok (w_kernel w)" "\<forall>y \<in> set (timer_list (w_kernel w)). timer_active (w_kernel w) y"
  shows "\<exists>n h s. pm_account e w = Some ((set_hw h w)\<lparr>w_kernel := s\<rparr>) \<and> ready h \<and> naps h = naps (w_hw w) \<and> kinv s \<and>
    tick s = tick (w_kernel w) + of_nat n \<and> (sleep_mode (w_pm w) \<noteq> PM_SLEEP_MODE_DEEP \<longrightarrow> s = w_kernel w) \<and>
    (sleep_mode (w_pm w) = PM_SLEEP_MODE_DEEP \<longrightarrow> n = count (w_hw w)) \<and>
    (0 < n \<longrightarrow> (\<forall>x xs. timer_list s = x # xs \<longrightarrow> \<not> timer_expired s x))"
proof (cases "sleep_mode (w_pm w) = PM_SLEEP_MODE_DEEP")
  case True
  then show ?thesis using account_deep [OF assms(1-3) mask True k] by (metis gr_implies_not_zero)
next
  case False
  then have "pm_account e w = Some ((set_hw (w_hw w) w)\<lparr>w_kernel := w_kernel w\<rparr>)"
    using timer_in_mode_deep [OF mask] by (simp add: pm_account_def set_hw_def)
  moreover have "kinv (w_kernel w)" using k(1) by (simp add: check_ok_def fire_ok_def)
  ultimately show ?thesis
    using assms(2) False by (intro exI [of _ 0] exI [of _ "w_hw w"] exI [of _ "w_kernel w"]) simp
qed

lemma change_mode:
  assumes e: "e_ops e = ops" "quiet_devices e" "quiet (e_timeout e)" and w: "idle_ok w" and rd: "ready (w_hw w)"
  shows "\<exists>w'. pm_change_sleep_mode e w = Some w' \<and> ready (w_hw w') \<and> pass_ok naps w w'"
proof -
  define w1 where "w1 = pm_choose w"
  have ini: "pm_init_flag w" and mask: "timer_mask (w_pm w) = push_bit PM_SLEEP_MODE_DEEP 1"
    and ck: "check_ok (w_kernel w)" "\<forall>y \<in> set (timer_list (w_kernel w)). timer_active (w_kernel w) y"
    and ok: "pm_ok w" using w by (simp_all add: idle_ok_def)
  have kin: "kinv (w_kernel w)" using ck(1) by (simp add: check_ok_def fire_ok_def)
  obtain ms where ms: "length ms = length (module_status (w_pm w))"
    "w1 = upd_pm (\<lambda>pm. pm\<lparr>module_status := ms, sleep_mode :=
      (if some_busy w then min PM_BUSY_SLEEP_MODE (pm_select_sleep_mode w) else pm_select_sleep_mode w)\<rparr>) w"
    using pm_choose_eq [OF ini] unfolding w1_def by blast
  have m1: "sleep_mode (w_pm w1) \<le> spec_mode (pm_abs w)" "some_busy w \<longrightarrow> sleep_mode (w_pm w1) \<le> PM_SLEEP_MODE_IDLE"
    "\<not> some_busy w \<longrightarrow> sleep_mode (w_pm w1) = spec_mode (pm_abs w)"
    using pm_select_spec [OF ok] by (simp_all add: ms(2) PM_BUSY_SLEEP_MODE_def)
  show ?thesis
  proof (cases "sleep_mode (w_pm w1) = PM_SLEEP_MODE_NONE")
    case True
    obtain h where h: "pm_sleep e PM_SLEEP_MODE_NONE w1 = Some (set_hw h w1)" "ready h" "naps h = naps (w_hw w)"
      using slept [OF e(1), of w1 PM_SLEEP_MODE_NONE] rd by (auto simp: ms(2) pm_modes)
    have "pm_change_sleep_mode e w = Some (set_hw h w1)"
      using h True by (simp add: pm_change_sleep_mode_def w1_def [symmetric] Let_def)
    moreover have "pass_ok naps w (set_hw h w1)"
      using True kin ok ms(1) pm_ok_cong [of "set_hw h w1" w] m1 h(3)
      by (simp add: pass_ok_def ms(2) pm_modes) (auto split: if_splits)
    ultimately show ?thesis using h(2) by auto
  next
    case False
    define w2 where "w2 = notify e RT_PM_ENTER_SLEEP w1"
    define w3 where "w3 = snd (pm_device_suspend e (sleep_mode (w_pm w2)) w2)"
    have "dev_only w1 w2" "dev_only w2 w3"
      using notify_dev_only [OF e(2)] suspend_loop_dev_only [OF e(2)] by (simp_all add: w2_def w3_def pm_device_suspend_def)
    note f3 = dev_only_fields [OF dev_only_trans [OF this]]
    obtain m h4 where arm: "pm_arm e w3 = Some (set_hw h4 (set_sleep_mode m w3))" "ready h4" "m \<le> sleep_mode (w_pm w3)"
      "m < sleep_mode (w_pm w3) \<longrightarrow> next_due w3 < PM_DEEP_THRESHOLD_TIME" "naps h4 = naps (w_hw w)"
      "m = PM_SLEEP_MODE_DEEP \<longrightarrow> PM_DEEP_THRESHOLD_TIME \<le> next_due w3 \<and> limit h4 \<le> unat (next_due w3)"
      using arm [OF e(1), of w3] ini mask rd by (auto simp: f3 ms(2))
    define w4 where "w4 = set_hw h4 (set_sleep_mode m w3)"
    obtain h5 where sl: "pm_sleep e m w4 = Some (set_hw h5 w4)" "ready h5" "m = PM_SLEEP_MODE_DEEP \<longrightarrow> count h5 \<le> limit h4"
      "naps h5 = naps (w_hw w) @ (if m = PM_SLEEP_MODE_LIGHT \<or> m = PM_SLEEP_MODE_DEEP then [(m, count h5)] else [])"
      using slept [OF e(1), of w4 m] arm(2,5) by (auto simp: w4_def)
    define w5 where "w5 = set_hw h5 w4"
    have f5: "w_pm w5 = (w_pm w1)\<lparr>sleep_mode := m\<rparr>" "w_kernel w5 = w_kernel w" "w_hw w5 = h5"
      "pm_default_deepsleep w5 = pm_default_deepsleep w"
      by (simp_all add: w5_def w4_def f3) (simp_all add: ms(2) set_sleep_mode_def f3)
    have fm: "sleep_mode (w_pm w5) = m" by (simp add: f5)
    have due: "next_due w3 = next_due w" by (simp add: next_due_def f3) (simp add: ms(2))
    have "ready (w_hw w5)" "timer_mask (w_pm w5) = push_bit PM_SLEEP_MODE_DEEP 1" "check_ok (w_kernel w5)"
      "\<forall>y \<in> set (timer_list (w_kernel w5)). timer_active (w_kernel w5) y"
      using sl(2) mask ck by (simp_all add: f5) (simp add: ms(2))
    from account [OF e(1) this(1) e(3) this(2-4)] obtain n h6 s
      where ac: "pm_account e w5 = Some ((set_hw h6 w5)\<lparr>w_kernel := s\<rparr>)" "ready h6" "kinv s"
        "tick s = tick (w_kernel w) + of_nat n" "m \<noteq> PM_SLEEP_MODE_DEEP \<longrightarrow> s = w_kernel w"
        "m = PM_SLEEP_MODE_DEEP \<longrightarrow> n = count h5"
        "0 < n \<longrightarrow> (\<forall>x xs. timer_list s = x # xs \<longrightarrow> \<not> timer_expired s x)" "naps h6 = naps h5"
      unfolding fm f5(2,3) by (elim exE conjE) (rule that; assumption)
    have deep: "PM_DEEP_THRESHOLD_TIME \<le> next_due w" "n \<le> unat (next_due w)" if "m = PM_SLEEP_MODE_DEEP"
      using that arm(6) sl(3) ac(6) due by auto
    define w6 where "w6 = (set_hw h6 w5)\<lparr>w_kernel := s\<rparr>"
    define w7 where "w7 = pm_device_resume e (sleep_mode (w_pm w6)) w6"
    define w8 where "w8 = notify e RT_PM_EXIT_SLEEP w7"
    have "dev_only w6 w7" "dev_only w7 w8"
      using notify_dev_only [OF e(2)] resume_loop_dev_only [OF e(2)] by (simp_all add: w7_def w8_def pm_device_resume_def)
    note f8 = dev_only_fields [OF dev_only_trans [OF this]]
    have g8: "w_pm w8 = (w_pm w1)\<lparr>sleep_mode := m\<rparr>" "w_kernel w8 = s" "w_hw w8 = h6"
      "pm_default_deepsleep w8 = pm_default_deepsleep w"
      unfolding f8 by (simp_all add: w6_def f5 set_hw_def)
    have "sleep_mode (w_pm w4) = m" by (simp add: w4_def)
    then have run: "pm_change_sleep_mode e w = Some w8"
      using False arm(1) sl(1) ac(1) w8_def [unfolded w7_def w6_def]
      by (simp add: pm_change_sleep_mode_def w1_def [symmetric] w2_def [symmetric] w3_def [symmetric] w4_def [symmetric]
          w5_def [symmetric] Let_def)
    have timers: "PM_DEEP_THRESHOLD_TIME \<le> lp_due_in (w_kernel w) x \<and> n \<le> unat (lp_due_in (w_kernel w) x)"
      if "m = PM_SLEEP_MODE_DEEP" "x \<in> lp_world w" "lp_due_in (w_kernel w) x \<noteq> RT_TICK_MAX" for x
      using deep [OF that(1)] next_due_le [OF that(2,3)] by (auto simp: word_le_nat_alt)
    have low: "m \<le> sleep_mode (w_pm w1)" "m < sleep_mode (w_pm w1) \<longrightarrow> next_due w < PM_DEEP_THRESHOLD_TIME"
      using arm(3,4) due by (simp_all add: f3(1))
    have less: "m < spec_mode (pm_abs w) \<longrightarrow> some_busy w \<or> next_due w < PM_DEEP_THRESHOLD_TIME" using low m1(3) by auto
    have same: "pm_ok w8 = pm_ok w" "pm_abs w8 = pm_abs w" using pm_ok_cong [of w8 w] ms(1) by (simp_all add: g8 ms(2))
    have log: "naps (w_hw w8) = naps (w_hw w) @ (if m = PM_SLEEP_MODE_LIGHT \<or> m = PM_SLEEP_MODE_DEEP then [(m, count h5)] else [])"
      using ac(8) sl(4) by (simp add: g8)
    have m8: "sleep_mode (w_pm w8) = m" by (simp add: g8)
    have "m \<le> spec_mode (pm_abs w)" "some_busy w \<longrightarrow> m \<le> PM_SLEEP_MODE_IDLE" using m1 low(1) by auto
    then have "pass_ok naps w w8"
      unfolding pass_ok_def Let_def m8 g8(2) same log using ok ac(3-7) less timers
      by (cases "m = PM_SLEEP_MODE_DEEP") simp_all
    then show ?thesis using run ac(2) g8(3) by metis
  qed
qed

lemma scaling:
  assumes e: "e_ops e = ops" "quiet_devices e" and w: "idle_ok w" and rd: "ready (w_hw w)"
  shows "\<exists>w' x. pm_frequency_scaling e w = Some w' \<and> ready (w_hw w') \<and> naps (w_hw w') = naps (w_hw w) \<and>
    w_pm w' = (w_pm w)\<lparr>pm_flags := x\<rparr> \<and> w_kernel w' = w_kernel w \<and> w_lptimers w' = w_lptimers w \<and> pm_init_flag w' = pm_init_flag w \<and>
    pm_default_deepsleep w' = pm_default_deepsleep w"
proof (cases "pm_flags (w_pm w) AND RT_PM_FREQUENCY_PENDING = 0")
  case True
  then show ?thesis using rd by (intro exI [of _ w] exI [of _ "pm_flags (w_pm w)"]) (simp add: pm_frequency_scaling_def)
next
  case False
  obtain f h where f: "op_run ops = Some f" "f (run_mode (w_pm w)) (w_hw w) = Some h" "ready h" "naps h = naps (w_hw w)"
    using run_returns [OF rd] by blast
  let ?w1 = "set_hw h w"
  obtain w2 where w2: "pm_device_frequency_change e (run_mode (w_pm w)) ?w1 = Some w2" "dev_only ?w1 w2"
    using freq_loop_dev_only [OF e(2), of "device_list (w_pm w)" "run_mode (w_pm w)" ?w1] w
    by (auto simp: pm_device_frequency_change_def idle_ok_def)
  have "pm_frequency_scaling e w =
      Some (upd_pm (\<lambda>pm. pm\<lparr>pm_flags := pm_flags pm AND NOT RT_PM_FREQUENCY_PENDING\<rparr>) w2)"
    using False f w2(1) e(1) by (simp add: pm_frequency_scaling_def pm_run_op_def)
  then show ?thesis using dev_only_fields [OF w2(2)] f(3,4) by auto
qed

lemma pass:
  assumes e: "e_ops e = ops" "quiet_devices e" "quiet (e_timeout e)" and w: "idle_ok w" and rd: "ready (w_hw w)"
  shows "\<exists>w'. rt_system_power_manager e w = Some w' \<and> ready (w_hw w') \<and> pass_ok naps w w'"
proof -
  obtain w1 x where w1: "pm_frequency_scaling e w = Some w1" "ready (w_hw w1)" "w_pm w1 = (w_pm w)\<lparr>pm_flags := x\<rparr>"
    "w_kernel w1 = w_kernel w" "w_lptimers w1 = w_lptimers w" "pm_init_flag w1 = pm_init_flag w"
    "pm_default_deepsleep w1 = pm_default_deepsleep w"
    "naps (w_hw w1) = naps (w_hw w)" using scaling [OF e(1,2) w rd] by blast
  have same: "pm_ok w1 = pm_ok w" "pm_abs w1 = pm_abs w" by (rule pm_ok_cong; simp add: w1)+
  have "idle_ok w1" using w same(1) by (simp add: idle_ok_def w1)
  then obtain w' where w': "pm_change_sleep_mode e w1 = Some w'" "ready (w_hw w')" "pass_ok naps w1 w'"
    using change_mode [OF e _ w1(2)] by blast
  have "some_busy w1 = some_busy w" "lp_world w1 = lp_world w" "next_due w1 = next_due w"
    by (simp_all add: some_busy_def lp_world_def next_due_def w1)
  then have "pass_ok naps w w'" using w'(3) by (simp only: pass_ok_def same(2) w1(4,8))
  moreover have "rt_system_power_manager e w = Some w'"
    using w w'(1) w1(1) by (simp add: rt_system_power_manager_def idle_ok_def)
  ultimately show ?thesis using w'(2) by blast
qed

end

end
