(* ===== verification/Drv_Pm.thy ===== *)
theory Drv_Pm
  imports Pm_Sleep
begin

unbundle bit_operations_syntax

text \<open>
  The board's power driver: \<^verbatim>\<open>src/drivers/drv_pm.c\<close>, with what it calls of the firmware library
  (\<^verbatim>\<open>n32l43x_lptim.c\<close>, \<^verbatim>\<open>n32l43x_pwr.c\<close>).  The registers are words that read back what was written, except for those that the
  hardware changes: the counter of the low-power timer, and the status of the voltage regulator.  What the hardware does
  is the record \<open>lp_hw\<close>: \<open>hw_poll\<close> between two reads of a status register, \<open>hw_wfi\<close> during the instruction that sleeps.
  Interrupts are masked then, so that no handler runs before the driver goes on.  \<open>nap_log\<close> records for every execution of that instruction
  how the registers select the mode of the processor, and the timer's counter at the wake-up.

  \<open>hw_sleeps\<close> states what the manual says and the driver relies on: the regulator gets ready, and in its single mode the timer's counter
  does not pass the reload value.  A timer that is off does not count.

  Shown: the driver's operations meet the contract \<open>pm_driver\<close> (the interpretation \<open>n32\<close>), so the
  theorem about a pass of the idle thread holds for this board; the timer's value is never more than the time asked
  for, and is exact up to 65535 ticks; the conversions between ticks of the kernel and of the timer lose nothing.
\<close>

section \<open>Registers\<close>

record lptim_regs =
  LPTIM_INTEN :: u32w
  LPTIM_CFG :: u32w
  LPTIM_CTRL :: u32w
  LPTIM_COMPx :: u32w
  LPTIM_ARR :: u32w
  LPTIM_CNT :: u32w

record nap =
  nap_deep :: bool
  nap_select :: u32w
  nap_count :: nat

text \<open>\<open>os_tick_remain\<close> is the driver's static variable.\<close>

record pm_regs =
  lptim :: lptim_regs
  PWR_CTRL1 :: u32w
  PWR_CTRL3 :: u32w
  PWR_STS2 :: u32w
  SCB_SCR :: u32w
  os_tick_remain :: u32w
  nap_log :: "nap list"

record lp_hw =
  hw_poll :: "pm_regs \<Rightarrow> pm_regs"
  hw_wfi :: "pm_regs \<Rightarrow> pm_regs"

type_synonym board = "lp_hw \<times> pm_regs"

definition LPTIM_INTEN_CMPMIE :: u32w where "LPTIM_INTEN_CMPMIE = 0x1"
definition LPTIM_CFG_CLKPRE :: u32w where "LPTIM_CFG_CLKPRE = 0xE00"
definition LPTIM_CTRL_LPTIMEN :: u32w where "LPTIM_CTRL_LPTIMEN = 0x1"
definition LPTIM_CTRL_SNGMST :: u32w where "LPTIM_CTRL_SNGMST = 0x2"
definition LPTIM_CTRL_TSTCM :: u32w where "LPTIM_CTRL_TSTCM = 0x4"
definition LPTIM_COMP_CMPVAL :: u32w where "LPTIM_COMP_CMPVAL = 0xFFFF"
definition LPTIM_ARR_ARRVAL :: u32w where "LPTIM_ARR_ARRVAL = 0xFFFF"
definition LPTIM_CNT_CNTVAL :: u32w where "LPTIM_CNT_CNTVAL = 0xFFFF"
definition LPTIM_PRESCALER_DIV1 :: u32w where "LPTIM_PRESCALER_DIV1 = 0"
definition LPTIM_OPERATING_MODE_ONESHOT :: u32w where "LPTIM_OPERATING_MODE_ONESHOT = LPTIM_CTRL_SNGMST"
definition LPTIM_REG_MAX_VALUE :: u32w where "LPTIM_REG_MAX_VALUE = 0xFFFF"

definition PWR_CTRL3_RAM1RET :: u32w where "PWR_CTRL3_RAM1RET = 0x1000"
definition PWR_CTRL3_RAM2RET :: u32w where "PWR_CTRL3_RAM2RET = 0x2000"
definition PWR_CTRL3_RAMRETMASK :: u32w where "PWR_CTRL3_RAMRETMASK = 0x3000"
definition PWR_CTRL1_LPMSELMASK :: u32w where "PWR_CTRL1_LPMSELMASK = 0x7"
definition PWR_CTRL1_STOP2 :: u32w where "PWR_CTRL1_STOP2 = 0x2"
definition SCB_SCR_SLEEPONEXIT :: u32w where "SCB_SCR_SLEEPONEXIT = 0x2"
definition SCB_SCR_SLEEPDEEP :: u32w where "SCB_SCR_SLEEPDEEP = 0x4"

lemmas lptim_masks = LPTIM_INTEN_CMPMIE_def LPTIM_CFG_CLKPRE_def LPTIM_CTRL_LPTIMEN_def LPTIM_CTRL_SNGMST_def
  LPTIM_CTRL_TSTCM_def LPTIM_COMP_CMPVAL_def LPTIM_ARR_ARRVAL_def LPTIM_CNT_CNTVAL_def LPTIM_PRESCALER_DIV1_def
  LPTIM_OPERATING_MODE_ONESHOT_def LPTIM_REG_MAX_VALUE_def

definition MODIFY_REG :: "u32w \<Rightarrow> u32w \<Rightarrow> u32w \<Rightarrow> u32w" where
  "MODIFY_REG reg clearmask setmask = (reg AND NOT clearmask) OR setmask"

section \<open>The low-power timer\<close>

definition upd_lptim :: "(lptim_regs \<Rightarrow> lptim_regs) \<Rightarrow> pm_regs \<Rightarrow> pm_regs" where
  "upd_lptim f r = r\<lparr>lptim := f (lptim r)\<rparr>"

definition LPTIM_Disable :: "pm_regs \<Rightarrow> pm_regs" where
  "LPTIM_Disable = upd_lptim (\<lambda>l. l\<lparr>LPTIM_CTRL := LPTIM_CTRL l AND NOT LPTIM_CTRL_LPTIMEN\<rparr>)"

definition LPTIM_Enable :: "pm_regs \<Rightarrow> pm_regs" where
  "LPTIM_Enable = upd_lptim (\<lambda>l. l\<lparr>LPTIM_CTRL := LPTIM_CTRL l OR LPTIM_CTRL_LPTIMEN\<rparr>)"

definition LPTIM_IsEnabled :: "pm_regs \<Rightarrow> bool" where
  "LPTIM_IsEnabled r \<longleftrightarrow> LPTIM_CTRL (lptim r) AND LPTIM_CTRL_LPTIMEN = LPTIM_CTRL_LPTIMEN"

definition LPTIM_StartCounter :: "u32w \<Rightarrow> pm_regs \<Rightarrow> pm_regs" where
  "LPTIM_StartCounter m =
     upd_lptim (\<lambda>l. l\<lparr>LPTIM_CTRL := MODIFY_REG (LPTIM_CTRL l) (LPTIM_CTRL_TSTCM OR LPTIM_CTRL_SNGMST) m\<rparr>)"

definition LPTIM_SetAutoReload :: "u32w \<Rightarrow> pm_regs \<Rightarrow> pm_regs" where
  "LPTIM_SetAutoReload v = upd_lptim (\<lambda>l. l\<lparr>LPTIM_ARR := MODIFY_REG (LPTIM_ARR l) LPTIM_ARR_ARRVAL v\<rparr>)"

definition LPTIM_SetCompare :: "u32w \<Rightarrow> pm_regs \<Rightarrow> pm_regs" where
  "LPTIM_SetCompare v = upd_lptim (\<lambda>l. l\<lparr>LPTIM_COMPx := MODIFY_REG (LPTIM_COMPx l) LPTIM_COMP_CMPVAL v\<rparr>)"

definition LPTIM_GetAutoReload :: "pm_regs \<Rightarrow> u32w" where
  "LPTIM_GetAutoReload r = LPTIM_ARR (lptim r) AND LPTIM_ARR_ARRVAL"

definition LPTIM_GetCounter :: "pm_regs \<Rightarrow> u32w" where
  "LPTIM_GetCounter r = LPTIM_CNT (lptim r) AND LPTIM_CNT_CNTVAL"

definition LPTIM_SetPrescaler :: "u32w \<Rightarrow> pm_regs \<Rightarrow> pm_regs" where
  "LPTIM_SetPrescaler v = upd_lptim (\<lambda>l. l\<lparr>LPTIM_CFG := MODIFY_REG (LPTIM_CFG l) LPTIM_CFG_CLKPRE v\<rparr>)"

definition LPTIM_EnableIT_CMPM :: "pm_regs \<Rightarrow> pm_regs" where
  "LPTIM_EnableIT_CMPM = upd_lptim (\<lambda>l. l\<lparr>LPTIM_INTEN := LPTIM_INTEN l OR LPTIM_INTEN_CMPMIE\<rparr>)"

definition LPTIM_DisableIT_CMPM :: "pm_regs \<Rightarrow> pm_regs" where
  "LPTIM_DisableIT_CMPM = upd_lptim (\<lambda>l. l\<lparr>LPTIM_INTEN := LPTIM_INTEN l AND NOT LPTIM_INTEN_CMPMIE\<rparr>)"

section \<open>Sleep modes of the processor\<close>

text \<open>The instruction that sleeps.\<close>

definition wfi :: "lp_hw \<Rightarrow> pm_regs \<Rightarrow> pm_regs" where
  "wfi hw r =
     (let r' = hw_wfi hw r
      in r'\<lparr>nap_log := nap_log r @ [\<lparr>nap_deep = (SCB_SCR r AND SCB_SCR_SLEEPDEEP \<noteq> 0),
           nap_select = PWR_CTRL1 r AND PWR_CTRL1_LPMSELMASK, nap_count = unat (LPTIM_GetCounter r')\<rparr>]\<rparr>)"

text \<open>Both are called with the entry by \<^verbatim>\<open>WFI\<close>; the entry by \<^verbatim>\<open>WFE\<close> is not used.\<close>

definition PWR_EnterSLEEPMode :: "lp_hw \<Rightarrow> nat \<Rightarrow> pm_regs \<Rightarrow> pm_regs" where
  "PWR_EnterSLEEPMode hw SLEEPONEXIT r =
     (let r1 = r\<lparr>SCB_SCR := SCB_SCR r AND NOT SCB_SCR_SLEEPDEEP\<rparr>;
          r2 = (if SLEEPONEXIT = 1 then r1\<lparr>SCB_SCR := SCB_SCR r1 OR SCB_SCR_SLEEPONEXIT\<rparr>
                else if SLEEPONEXIT = 0 then r1\<lparr>SCB_SCR := SCB_SCR r1 AND NOT SCB_SCR_SLEEPONEXIT\<rparr> else r1)
      in wfi hw r2)"

partial_function (option) wait_MR :: "lp_hw \<Rightarrow> pm_regs \<Rightarrow> pm_regs option" where
  "wait_MR hw r = (if PWR_STS2 r AND 0x2 \<noteq> 2 then wait_MR hw (hw_poll hw r) else Some r)"

definition PWR_EnterSTOP2Mode :: "lp_hw \<Rightarrow> u32w \<Rightarrow> pm_regs \<Rightarrow> pm_regs option" where
  "PWR_EnterSTOP2Mode hw RetentionMode r =
     Option.bind (wait_MR hw r) (\<lambda>r0.
     let r1 = r0\<lparr>PWR_CTRL3 := (PWR_CTRL3 r0 AND NOT PWR_CTRL3_RAMRETMASK) OR RetentionMode\<rparr>;
         r2 = r1\<lparr>PWR_CTRL1 := (PWR_CTRL1 r1 AND NOT PWR_CTRL1_LPMSELMASK) OR PWR_CTRL1_STOP2\<rparr>;
         r3 = r2\<lparr>SCB_SCR := SCB_SCR r2 OR SCB_SCR_SLEEPDEEP\<rparr>;
         r4 = wfi hw r3
     in Some (r4\<lparr>SCB_SCR := SCB_SCR r4 AND NOT SCB_SCR_SLEEPDEEP\<rparr>))"

section \<open>The driver\<close>

definition n32_pm_device_run :: "nat \<Rightarrow> board \<Rightarrow> board option" where
  "n32_pm_device_run mode b = Some b"

text \<open>\<^verbatim>\<open>RT_TICK_PER_SECOND\<close> and \<^verbatim>\<open>freq\<close> are both 1000; all arithmetic is in 32 bits.\<close>

definition n32_os_tick_from_pm_tick :: "u32w \<Rightarrow> pm_regs \<Rightarrow> rt_tick_t \<times> pm_regs" where
  "n32_os_tick_from_pm_tick t r =
     (let os_tick = (t * 1000 + os_tick_remain r) div 1000;
          r1 = r\<lparr>os_tick_remain := os_tick_remain r + t * 1000\<rparr>
      in (os_tick, r1\<lparr>os_tick_remain := os_tick_remain r1 mod 1000\<rparr>))"

definition n32_pm_tick_from_os_tick :: "rt_tick_t \<Rightarrow> u32w" where
  "n32_pm_tick_from_os_tick t = t * 1000 div 1000"

definition drv_sleep :: "nat \<Rightarrow> board \<Rightarrow> board option" where
  "drv_sleep mode = (\<lambda>(hw, r).
     if mode = PM_SLEEP_MODE_LIGHT then Some (hw, PWR_EnterSLEEPMode hw 0 r)
     else if mode = PM_SLEEP_MODE_DEEP then
       map_option (Pair hw) (PWR_EnterSTOP2Mode hw (PWR_CTRL3_RAM1RET OR PWR_CTRL3_RAM2RET) r)
     else Some (hw, r))"

partial_function (option) wait_disabled :: "lp_hw \<Rightarrow> pm_regs \<Rightarrow> pm_regs option" where
  "wait_disabled hw r = (if LPTIM_IsEnabled r then wait_disabled hw (hw_poll hw r) else Some r)"

definition pm_timer_start :: "rt_tick_t \<Rightarrow> board \<Rightarrow> board option" where
  "pm_timer_start timeout = (\<lambda>(hw, r).
     Option.bind (wait_disabled hw (LPTIM_Disable r)) (\<lambda>r1.
     if timeout \<noteq> RT_TICK_MAX then
       (let t1 = n32_pm_tick_from_os_tick timeout;
            t2 = (if t1 > LPTIM_REG_MAX_VALUE then LPTIM_REG_MAX_VALUE else t1);
            r2 = LPTIM_Enable (LPTIM_EnableIT_CMPM (LPTIM_SetPrescaler LPTIM_PRESCALER_DIV1 r1));
            r3 = LPTIM_SetCompare 0 (LPTIM_SetAutoReload t2 r2)
        in Some (hw, LPTIM_StartCounter LPTIM_OPERATING_MODE_ONESHOT r3))
     else Some (hw, r1)))"

definition pm_timer_stop :: "board \<Rightarrow> board" where
  "pm_timer_stop = (\<lambda>(hw, r). (hw, LPTIM_DisableIT_CMPM (LPTIM_Disable r)))"

definition pm_timer_get_tick :: "board \<Rightarrow> rt_tick_t \<times> board" where
  "pm_timer_get_tick = (\<lambda>(hw, r). let (t, r1) = n32_os_tick_from_pm_tick (LPTIM_GetCounter r) r in (t, (hw, r1)))"

definition drv_ops :: "board rt_pm_ops" where
  "drv_ops = \<lparr>op_sleep = Some drv_sleep, op_run = Some n32_pm_device_run, op_timer_start = Some pm_timer_start,
     op_timer_stop = Some pm_timer_stop, op_timer_get_tick = Some pm_timer_get_tick\<rparr>"

section \<open>What the hardware does\<close>

definition timer_limit :: "pm_regs \<Rightarrow> nat" where
  "timer_limit r =
     (if \<not> LPTIM_IsEnabled r then unat (LPTIM_GetCounter r)
      else if LPTIM_CTRL (lptim r) AND LPTIM_CTRL_SNGMST \<noteq> 0 then unat (LPTIM_GetAutoReload r)
      else unat LPTIM_CNT_CNTVAL)"

definition hw_sleeps :: "lp_hw \<Rightarrow> bool" where
  "hw_sleeps hw \<longleftrightarrow>
     (\<forall>r. lptim (hw_poll hw r) = lptim r \<and> os_tick_remain (hw_poll hw r) = os_tick_remain r \<and> nap_log (hw_poll hw r) = nap_log r) \<and>
     (\<forall>r. \<exists>n. PWR_STS2 ((hw_poll hw ^^ n) r) AND 2 = 2) \<and>
     (\<forall>r. os_tick_remain (hw_wfi hw r) = os_tick_remain r \<and> unat (LPTIM_GetCounter (hw_wfi hw r)) \<le> timer_limit r)"

text \<open>The state between the driver's calls.  The remainder is always 0, since the two frequencies are the same.\<close>

definition board_ready :: "board \<Rightarrow> bool" where
  "board_ready = (\<lambda>(hw, r). hw_sleeps hw \<and> os_tick_remain r = 0)"

definition board_limit :: "board \<Rightarrow> nat" where "board_limit = (\<lambda>(hw, r). timer_limit r)"

text \<open>The timer's counter, which the driver takes for kernel ticks: \<^verbatim>\<open>pm_timer_get_tick\<close> assumes a clock of 1000 Hz, although
  \<^verbatim>\<open>rt_pm_hw_init\<close> clocks the timer undivided from the low-speed oscillator.\<close>

definition board_count :: "board \<Rightarrow> nat" where "board_count = (\<lambda>(hw, r). unat (LPTIM_GetCounter r))"

text \<open>The modes in which the processor slept, as the registers selected them, and the timer's counter at each wake-up.\<close>

definition nap_mode :: "nap \<Rightarrow> nat" where
  "nap_mode n = (if \<not> nap_deep n then PM_SLEEP_MODE_LIGHT
     else if nap_select n = PWR_CTRL1_STOP2 then PM_SLEEP_MODE_DEEP else PM_SLEEP_MODE_STANDBY)"

definition board_naps :: "board \<Rightarrow> (nat \<times> nat) list" where
  "board_naps = (\<lambda>(hw, r). map (\<lambda>n. (nap_mode n, nap_count n)) (nap_log r))"

section \<open>Conversions\<close>

lemma counter_le: "unat (LPTIM_GetCounter r) \<le> 65535"
proof -
  have "x AND 0xFFFF = take_bit 16 (x :: u32w)" for x by (simp add: take_bit_eq_mask mask_eq_exp_minus_1)
  then have "unat (LPTIM_GetCounter r) = take_bit 16 (unat (LPTIM_CNT (lptim r)))"
    by (simp add: LPTIM_GetCounter_def lptim_masks unsigned_take_bit_eq)
  then show ?thesis using take_bit_nat_less_exp [of 16 "unat (LPTIM_CNT (lptim r))"] by simp
qed

lemma unat_times_1000: "unat t \<le> 4294967 \<Longrightarrow> unat (t * 1000) = unat t * 1000" for t :: u32w
  by (simp add: unat_word_ariths)

lemma div_1000_le: "unat (t * 1000 div 1000) \<le> unat t" for t :: u32w
proof -
  have "unat (t * 1000) \<le> unat t * 1000" by (simp add: unat_word_ariths)
  then show ?thesis by (simp add: unat_div div_le_mono [of _ "unat t * 1000" 1000, simplified])
qed

lemma div_1000_exact: "unat t \<le> 4294967 \<Longrightarrow> t * 1000 div 1000 = t" for t :: u32w
  using unat_times_1000 [of t] by (simp add: word_unat_eq_iff unat_div)

lemma mod_1000_exact: "unat t \<le> 4294967 \<Longrightarrow> t * 1000 mod 1000 = 0" for t :: u32w
  using unat_times_1000 [of t] by (simp add: word_unat_eq_iff unat_mod)

lemma os_tick_exact:
  assumes "os_tick_remain r = 0" and "unat t \<le> 4294967"
  shows "n32_os_tick_from_pm_tick t r = (t, r)"
proof -
  have "r\<lparr>os_tick_remain := 0\<rparr> = r" using assms(1) by (cases r) simp
  then show ?thesis
    using assms by (simp add: n32_os_tick_from_pm_tick_def Let_def div_1000_exact mod_1000_exact)
qed

section \<open>The driver meets the contract\<close>

lemma lptim_upd [simp]:
  "lptim (upd_lptim f r) = f (lptim r)" "os_tick_remain (upd_lptim f r) = os_tick_remain r" "nap_log (upd_lptim f r) = nap_log r"
  by (simp_all add: upd_lptim_def)

lemma LPTIM_Disable_disables: "\<not> LPTIM_IsEnabled (LPTIM_Disable r)"
proof -
  have "((x AND NOT 1) AND 1 :: u32w) \<noteq> 1" for x by (simp add: and.assoc)
  then show ?thesis by (simp add: LPTIM_IsEnabled_def LPTIM_Disable_def lptim_masks)
qed

lemma wait_disabled_returns: "wait_disabled hw (LPTIM_Disable r) = Some (LPTIM_Disable r)"
  by (subst wait_disabled.simps) (simp add: LPTIM_Disable_disables)

lemma wait_MR_returns:
  assumes "hw_sleeps hw"
  shows "\<exists>r'. wait_MR hw r = Some r' \<and> lptim r' = lptim r \<and> os_tick_remain r' = os_tick_remain r \<and> nap_log r' = nap_log r"
proof -
  obtain n where "PWR_STS2 ((hw_poll hw ^^ n) r) AND 2 = 2" using assms unfolding hw_sleeps_def by blast
  then show ?thesis
  proof (induction n arbitrary: r)
    case 0
    then show ?case by (subst wait_MR.simps) simp
  next
    case (Suc n)
    have "PWR_STS2 ((hw_poll hw ^^ n) (hw_poll hw r)) AND 2 = 2" using Suc.prems by (simp add: funpow_swap1)
    from Suc.IH [OF this] show ?case using assms by (subst wait_MR.simps) (auto simp: hw_sleeps_def)
  qed
qed

lemma timer_limit_cong: "lptim r' = lptim r \<Longrightarrow> timer_limit r' = timer_limit r"
  by (simp add: timer_limit_def LPTIM_IsEnabled_def LPTIM_GetCounter_def LPTIM_GetAutoReload_def)

lemma mode_bits:
  "((x AND NOT 7) OR 2) AND 7 = (2 :: u32w)" "(x OR 4) AND 4 \<noteq> (0 :: u32w)" "((x AND NOT 4) AND NOT 2) AND 4 = (0 :: u32w)"
  by (simp_all add: bit.conj_disj_distrib2 and.assoc)

lemma stop2_returns:
  assumes "hw_sleeps hw"
  shows "\<exists>r'. PWR_EnterSTOP2Mode hw m r = Some r' \<and> os_tick_remain r' = os_tick_remain r \<and>
    unat (LPTIM_GetCounter r') \<le> timer_limit r \<and>
    nap_log r' = nap_log r @ [\<lparr>nap_deep = True, nap_select = PWR_CTRL1_STOP2, nap_count = unat (LPTIM_GetCounter r')\<rparr>]"
proof -
  obtain r0 where r0: "wait_MR hw r = Some r0" "lptim r0 = lptim r" "os_tick_remain r0 = os_tick_remain r" "nap_log r0 = nap_log r"
    using wait_MR_returns [OF assms] by blast
  define r1 where "r1 = r0\<lparr>PWR_CTRL3 := (PWR_CTRL3 r0 AND NOT PWR_CTRL3_RAMRETMASK) OR m,
    PWR_CTRL1 := (PWR_CTRL1 r0 AND NOT PWR_CTRL1_LPMSELMASK) OR PWR_CTRL1_STOP2, SCB_SCR := SCB_SCR r0 OR SCB_SCR_SLEEPDEEP\<rparr>"
  have "PWR_EnterSTOP2Mode hw m r = Some ((wfi hw r1)\<lparr>SCB_SCR := SCB_SCR (wfi hw r1) AND NOT SCB_SCR_SLEEPDEEP\<rparr>)"
    using r0(1) by (simp add: PWR_EnterSTOP2Mode_def r1_def Let_def)
  moreover have "timer_limit r1 = timer_limit r" using r0(2) by (intro timer_limit_cong) (simp add: r1_def)
  moreover have "os_tick_remain r1 = os_tick_remain r" "nap_log r1 = nap_log r" using r0(3,4) by (simp_all add: r1_def)
  moreover have "SCB_SCR r1 AND SCB_SCR_SLEEPDEEP \<noteq> 0" "PWR_CTRL1 r1 AND PWR_CTRL1_LPMSELMASK = PWR_CTRL1_STOP2"
    using mode_bits by (simp_all add: r1_def SCB_SCR_SLEEPDEEP_def PWR_CTRL1_LPMSELMASK_def PWR_CTRL1_STOP2_def)
  moreover have "os_tick_remain (hw_wfi hw r1) = os_tick_remain r1" "unat (LPTIM_GetCounter (hw_wfi hw r1)) \<le> timer_limit r1"
    using assms by (auto simp: hw_sleeps_def)
  ultimately show ?thesis by (simp add: LPTIM_GetCounter_def wfi_def Let_def)
qed

lemma light_sleep:
  assumes "hw_sleeps hw"
  shows "os_tick_remain (PWR_EnterSLEEPMode hw 0 r) = os_tick_remain r"
    and "\<exists>x. nap_log (PWR_EnterSLEEPMode hw 0 r) =
      nap_log r @ [\<lparr>nap_deep = False, nap_select = x, nap_count = unat (LPTIM_GetCounter (PWR_EnterSLEEPMode hw 0 r))\<rparr>]"
  using assms mode_bits(3)
  by (simp_all add: PWR_EnterSLEEPMode_def wfi_def Let_def hw_sleeps_def SCB_SCR_SLEEPDEEP_def SCB_SCR_SLEEPONEXIT_def LPTIM_GetCounter_def)

lemma drv_sleep_returns:
  assumes "hw_sleeps hw"
  shows "\<exists>r'. drv_sleep m (hw, r) = Some (hw, r') \<and> os_tick_remain r' = os_tick_remain r \<and>
    board_naps (hw, r') = board_naps (hw, r) @
      (if m = PM_SLEEP_MODE_LIGHT \<or> m = PM_SLEEP_MODE_DEEP then [(m, board_count (hw, r'))] else []) \<and>
    (m = PM_SLEEP_MODE_DEEP \<longrightarrow> unat (LPTIM_GetCounter r') \<le> timer_limit r)"
proof -
  consider "m = PM_SLEEP_MODE_LIGHT" | "m = PM_SLEEP_MODE_DEEP" | "m \<noteq> PM_SLEEP_MODE_LIGHT" "m \<noteq> PM_SLEEP_MODE_DEEP" by blast
  then show ?thesis
  proof cases
    case 1
    obtain x where "nap_log (PWR_EnterSLEEPMode hw 0 r) =
        nap_log r @ [\<lparr>nap_deep = False, nap_select = x, nap_count = unat (LPTIM_GetCounter (PWR_EnterSLEEPMode hw 0 r))\<rparr>]"
      using light_sleep(2) [OF assms] by blast
    then show ?thesis using 1 light_sleep(1) [OF assms]
      by (simp add: drv_sleep_def board_naps_def nap_mode_def board_count_def pm_modes)
  next
    case 2
    then show ?thesis using stop2_returns [OF assms, of "PWR_CTRL3_RAM1RET OR PWR_CTRL3_RAM2RET" r]
      by (auto simp: drv_sleep_def board_naps_def nap_mode_def board_count_def pm_modes)
  qed (simp add: drv_sleep_def)
qed

text \<open>The value the timer is programmed with.\<close>

definition timer_value :: "rt_tick_t \<Rightarrow> u32w" where
  "timer_value t = (if t * 1000 div 1000 > LPTIM_REG_MAX_VALUE then LPTIM_REG_MAX_VALUE else t * 1000 div 1000)"

lemma timer_value_le: "unat (timer_value t) \<le> unat t" "unat (timer_value t) \<le> 65535"
  using div_1000_le [of t] by (auto simp: timer_value_def LPTIM_REG_MAX_VALUE_def word_less_nat_alt)

lemma reload_value: "((x AND NOT 0xFFFF) OR v) AND 0xFFFF = v" if "unat v \<le> 65535" for x v :: u32w
proof -
  have "v AND 0xFFFF = v"
  proof -
    have "v AND 0xFFFF = take_bit 16 v" by (simp add: take_bit_eq_mask mask_eq_exp_minus_1)
    also have "\<dots> = v" using that by (simp add: word_unat_eq_iff unsigned_take_bit_eq take_bit_nat_eq_self)
    finally show ?thesis .
  qed
  moreover have "(x AND NOT 0xFFFF) AND 0xFFFF = 0" by (simp add: and.assoc)
  ultimately show ?thesis by (simp add: bit.conj_disj_distrib2)
qed

lemma ctrl_bits:
  "(((x OR 1) AND NOT 6) OR 2) AND 1 = (1 :: u32w)" "(((x OR 1) AND NOT 6) OR 2) AND 2 = (2 :: u32w)"
proof -
  have "((x OR 1) AND NOT 6) AND 1 = (x OR 1) AND (1 :: u32w)" "((x OR 1) AND NOT 6) AND 2 = (0 :: u32w)"
    by (simp_all add: and.assoc)
  moreover have "(x OR 1) AND 1 = (1 :: u32w)" unfolding bit.conj_disj_distrib2 by simp
  ultimately show "(((x OR 1) AND NOT 6) OR 2) AND 1 = (1 :: u32w)" "(((x OR 1) AND NOT 6) OR 2) AND 2 = (2 :: u32w)"
    unfolding bit.conj_disj_distrib2 by simp_all
qed

lemma pm_timer_start_result:
  "\<exists>r'. pm_timer_start t (hw, r) = Some (hw, r') \<and> os_tick_remain r' = os_tick_remain r \<and> nap_log r' = nap_log r \<and>
    (t \<noteq> RT_TICK_MAX \<longrightarrow> LPTIM_IsEnabled r' \<and> LPTIM_CTRL (lptim r') AND LPTIM_CTRL_SNGMST \<noteq> 0 \<and>
       LPTIM_GetAutoReload r' = timer_value t) \<and>
    (t = RT_TICK_MAX \<longrightarrow> \<not> LPTIM_IsEnabled r')"
proof (cases "t = RT_TICK_MAX")
  case True
  have "os_tick_remain (LPTIM_Disable r) = os_tick_remain r" "nap_log (LPTIM_Disable r) = nap_log r" by (simp_all add: LPTIM_Disable_def)
  then show ?thesis
    using True LPTIM_Disable_disables [of r] by (simp add: pm_timer_start_def wait_disabled_returns)
next
  case False
  define r2 where "r2 = LPTIM_Enable (LPTIM_EnableIT_CMPM (LPTIM_SetPrescaler LPTIM_PRESCALER_DIV1 (LPTIM_Disable r)))"
  define r4 where "r4 = LPTIM_StartCounter LPTIM_OPERATING_MODE_ONESHOT (LPTIM_SetCompare 0 (LPTIM_SetAutoReload (timer_value t) r2))"
  have "pm_timer_start t (hw, r) = Some (hw, r4)"
    using False
    by (simp add: pm_timer_start_def wait_disabled_returns n32_pm_tick_from_os_tick_def timer_value_def [symmetric] r2_def r4_def
        Let_def)
  moreover have "os_tick_remain r4 = os_tick_remain r" "nap_log r4 = nap_log r"
    by (simp_all add: r4_def r2_def LPTIM_StartCounter_def LPTIM_SetCompare_def LPTIM_SetAutoReload_def LPTIM_Enable_def
        LPTIM_EnableIT_CMPM_def LPTIM_SetPrescaler_def LPTIM_Disable_def)
  moreover have "\<exists>x. LPTIM_CTRL (lptim r4) = ((x OR 1) AND NOT 6) OR 2"
    by (simp add: r4_def r2_def LPTIM_StartCounter_def LPTIM_SetCompare_def LPTIM_SetAutoReload_def LPTIM_Enable_def
        LPTIM_EnableIT_CMPM_def LPTIM_SetPrescaler_def LPTIM_Disable_def lptim_masks MODIFY_REG_def) blast
  then have "LPTIM_IsEnabled r4" "LPTIM_CTRL (lptim r4) AND LPTIM_CTRL_SNGMST \<noteq> 0"
    using ctrl_bits by (auto simp: LPTIM_IsEnabled_def lptim_masks)
  moreover have "LPTIM_GetAutoReload r4 = timer_value t"
    using reload_value [OF timer_value_le(2)]
    by (simp add: r4_def LPTIM_StartCounter_def LPTIM_SetCompare_def LPTIM_SetAutoReload_def LPTIM_GetAutoReload_def
        lptim_masks MODIFY_REG_def)
  ultimately show ?thesis using False by blast
qed

interpretation n32: pm_driver drv_ops board_ready board_limit board_count board_naps
proof
  fix h m
  assume "board_ready h"
  then show "\<exists>f h'. op_sleep drv_ops = Some f \<and> f m h = Some h' \<and> board_ready h' \<and>
      board_naps h' = board_naps h @
        (if m = PM_SLEEP_MODE_LIGHT \<or> m = PM_SLEEP_MODE_DEEP then [(m, board_count h')] else []) \<and>
      (m = PM_SLEEP_MODE_DEEP \<longrightarrow> board_count h' \<le> board_limit h)"
    using drv_sleep_returns [of "fst h" m "snd h"]
    by (cases h) (fastforce simp: drv_ops_def board_ready_def board_count_def board_limit_def)
next
  fix h m
  assume "board_ready h"
  then show "\<exists>f h'. op_run drv_ops = Some f \<and> f m h = Some h' \<and> board_ready h' \<and> board_naps h' = board_naps h"
    by (cases h) (simp add: drv_ops_def n32_pm_device_run_def)
next
  fix h t
  assume rd: "board_ready h"
  obtain hw r where h: "h = (hw, r)" by fastforce
  obtain r' where r': "pm_timer_start t (hw, r) = Some (hw, r')" "os_tick_remain r' = os_tick_remain r"
    "nap_log r' = nap_log r" "t \<noteq> RT_TICK_MAX \<longrightarrow> LPTIM_IsEnabled r' \<and> LPTIM_CTRL (lptim r') AND LPTIM_CTRL_SNGMST \<noteq> 0 \<and>
       LPTIM_GetAutoReload r' = timer_value t" "t = RT_TICK_MAX \<longrightarrow> \<not> LPTIM_IsEnabled r'"
    using pm_timer_start_result by blast
  have "timer_limit r' \<le> unat t"
  proof (cases "t = RT_TICK_MAX")
    case True
    then show ?thesis using r'(5) counter_le [of r'] by (simp add: timer_limit_def RT_TICK_MAX_def)
  next
    case False
    then show ?thesis using r'(4) timer_value_le(1) [of t] by (simp add: timer_limit_def)
  qed
  then show "\<exists>f h'. op_timer_start drv_ops = Some f \<and> f t h = Some h' \<and> board_ready h' \<and> board_limit h' \<le> unat t \<and>
      board_naps h' = board_naps h"
    using rd r'(1-3) by (auto simp: h drv_ops_def board_ready_def board_limit_def board_naps_def)
next
  fix h
  assume "board_ready h"
  then show "\<exists>f. op_timer_stop drv_ops = Some f \<and> board_ready (f h) \<and> board_naps (f h) = board_naps h"
    by (auto simp: drv_ops_def board_naps_def pm_timer_stop_def board_ready_def LPTIM_Disable_def LPTIM_DisableIT_CMPM_def split: prod.splits)
next
  fix h
  assume "board_ready h"
  then show "\<exists>f h'. op_timer_get_tick drv_ops = Some f \<and> f h = (of_nat (board_count h), h') \<and> board_ready h' \<and>
      board_count h < 2 ^ 32 \<and> board_naps h' = board_naps h"
    using counter_le [of "snd h"]
    by (auto simp: drv_ops_def pm_timer_get_tick_def board_ready_def board_count_def os_tick_exact split: prod.splits)
qed

section \<open>A pass of the idle thread on this board\<close>

text \<open>C13: a pass of the idle thread through power management always returns.  It never sleeps deeper than a request
  allows, nor deeper than idle while a module has asked for a delay, and chooses a lighter mode than the one requested only for such a
  delay or when the time to the next low-power timer is less than 20 ticks.  The processor executes the sleep instruction once in light and
  deep sleep and not at all otherwise, with the registers selecting that mode.  In deep sleep every running low-power
  timer is at least 20 ticks away, the counter of the low-power timer at the wake-up is not past the first of them, the kernel's
  tick has moved by exactly this counter, and when it has moved, no expired timer is left at the head of the timer list.  Requests and the
  kernel's invariant are kept.\<close>

theorem rt_system_power_manager_safe:
  assumes "e_ops e = drv_ops" and "quiet_devices e" and "quiet (e_timeout e)" and "idle_ok w" and "board_ready (w_hw w)"
  shows "\<exists>w'. rt_system_power_manager e w = Some w' \<and> board_ready (w_hw w') \<and> pass_ok board_naps w w'"
  using assms by (rule n32.pass)

definition demo_lp_hw :: lp_hw where
  "demo_lp_hw = \<lparr>hw_poll = (\<lambda>r. r\<lparr>PWR_STS2 := 2\<rparr>),
     hw_wfi = (\<lambda>r. if LPTIM_IsEnabled r \<and> LPTIM_CTRL (lptim r) AND LPTIM_CTRL_SNGMST \<noteq> 0
       then upd_lptim (\<lambda>l. l\<lparr>LPTIM_CNT := LPTIM_ARR l\<rparr>) r else r)\<rparr>"

definition demo_regs :: pm_regs where
  "demo_regs = \<lparr>lptim = \<lparr>LPTIM_INTEN = 0, LPTIM_CFG = 0, LPTIM_CTRL = 0, LPTIM_COMPx = 0, LPTIM_ARR = 0, LPTIM_CNT = 0\<rparr>,
     PWR_CTRL1 = 0, PWR_CTRL3 = 0, PWR_STS2 = 0, SCB_SCR = 0, os_tick_remain = 0, nap_log = []\<rparr>"

lemma demo_lp_hw_sleeps: "hw_sleeps demo_lp_hw"
proof -
  have "\<exists>n. PWR_STS2 ((hw_poll demo_lp_hw ^^ n) r) AND 2 = 2" for r
    by (rule exI [of _ 1]) (simp add: demo_lp_hw_def)
  moreover have "unat (LPTIM_GetCounter (hw_wfi demo_lp_hw r)) \<le> timer_limit r" for r
    using counter_le [of r]
    by (auto simp: demo_lp_hw_def timer_limit_def LPTIM_GetCounter_def LPTIM_GetAutoReload_def lptim_masks)
  ultimately show ?thesis unfolding hw_sleeps_def by (simp add: demo_lp_hw_def)
qed

text \<open>A device whose operations count their calls.\<close>

definition demo_env :: "(board, nat) pm_env" where
  "demo_env = \<lparr>e_ops = drv_ops,
     e_dev = (\<lambda>_. \<lparr>dev_suspend = Some (\<lambda>_ _ w. (RT_EOK, w\<lparr>w_dev := w_dev w + 1\<rparr>)),
       dev_resume = Some (\<lambda>_ _ w. w\<lparr>w_dev := w_dev w + 1\<rparr>), dev_frequency_change = None\<rparr>),
     e_notify = (\<lambda>_ _ _ _ w. w), e_timeout = (\<lambda>_ s. s)\<rparr>"

definition demo_idle :: "(board, nat) pm_world" where
  "demo_idle = (rt_pm_device_register (Some 1) 0 (Some 0) (snd (rt_pm_release 2 (pm_start demo_timers 0 (demo_lp_hw, demo_regs)))))
     \<lparr>w_lptimers := [0]\<rparr>"

lemma demo_env_quiet: "quiet_devices demo_env" "quiet (e_timeout demo_env)"
  using quiet_id by (simp_all add: quiet_devices_def demo_env_def dev_only_def)

lemma demo_idle_ok: "idle_ok demo_idle"
proof -
  have "pm_ok (snd (rt_pm_release 2 (pm_start demo_timers (0 :: nat) (demo_lp_hw, demo_regs))))"
    using vote_release [OF pm_start_ok pm_start_pm(2), of 2 demo_timers "0 :: nat" "(demo_lp_hw, demo_regs)"]
    by (simp add: voted_step_def)
  then have "pm_ok demo_idle"
    by (rule iffD2 [OF pm_ok_cong(1), rotated -1]) (simp_all add: demo_idle_def rt_pm_device_register_def)
  then show ?thesis
    using demo_timers_check_ok demo_timers_active
    by (simp add: idle_ok_def) (simp add: demo_idle_def rt_pm_device_register_def rt_pm_release_def pm_start_pm pm_modes pm_zero_def)
qed

theorem rt_system_power_manager_safe_witness:
  "\<exists>w'. rt_system_power_manager demo_env demo_idle = Some w' \<and> pass_ok board_naps demo_idle w'"
proof -
  have "e_ops demo_env = drv_ops" "board_ready (w_hw demo_idle)"
    using demo_lp_hw_sleeps
    by (simp_all add: demo_env_def board_ready_def demo_idle_def rt_pm_device_register_def rt_pm_release_def pm_start_pm demo_regs_def)
  then show ?thesis
    using rt_system_power_manager_safe [OF _ demo_env_quiet demo_idle_ok] by blast
qed

section \<open>The timer's value\<close>

text \<open>Started for any time but the largest tick, the timer runs in single mode and its reload value is at most that time
  and at most 65535; it is exactly the time asked for up to 65535 ticks.\<close>

theorem pm_timer_start_bounded:
  assumes "t \<noteq> RT_TICK_MAX"
  shows "\<exists>r'. pm_timer_start t (hw, r) = Some (hw, r') \<and> LPTIM_IsEnabled r' \<and> LPTIM_CTRL (lptim r') AND LPTIM_CTRL_SNGMST \<noteq> 0 \<and>
    unat (LPTIM_GetAutoReload r') \<le> min (unat t) 65535 \<and> (unat t \<le> 65535 \<longrightarrow> LPTIM_GetAutoReload r' = t)"
proof -
  have "timer_value t = t" if "unat t \<le> 65535"
    using that div_1000_exact [of t] by (simp add: timer_value_def LPTIM_REG_MAX_VALUE_def word_less_nat_alt)
  then show ?thesis using pm_timer_start_result [of t hw r] timer_value_le [of t] assms by auto
qed

theorem pm_timer_start_bounded_witness:
  "\<exists>r'. pm_timer_start 25 (demo_lp_hw, demo_regs) = Some (demo_lp_hw, r') \<and> LPTIM_GetAutoReload r' = 25"
  using pm_timer_start_bounded [of 25 demo_lp_hw demo_regs] by (auto simp: RT_TICK_MAX_def)

text \<open>The multiplication by 1000 wraps: a low-power timer that is due in 4294968 ticks programs the value 0.\<close>

lemma timer_value_wraps: "timer_value 4294968 = 0"
  by (simp add: timer_value_def LPTIM_REG_MAX_VALUE_def)

text \<open>Without a running low-power timer, the time passed to the driver is the largest tick less the present one, and not the
  largest tick that the driver tests for: the timer is started all the same, unless the present tick is 0.\<close>

lemma deep_sleep_without_lptimer:
  assumes "lp_world w = {}" and "tick (w_kernel w) \<noteq> 0"
  shows "next_due w = RT_TICK_MAX - tick (w_kernel w)" and "next_due w \<noteq> RT_TICK_MAX"
  using next_timeout_none [of "w_lptimers w" "w_kernel w"] assms by (simp_all add: next_due_def lp_world_def)

end
