(* ===== verification/Ringblk.thy ===== *)
theory Ringblk
  imports Rt_List
begin

text \<open>
  The ring block buffer: \<^verbatim>\<open>components/drivers/ipc/ringblk_buf.c\<close>.  Blocks of any size are cut from a buffer in ring order,
  filled (\<^verbatim>\<open>put\<close>), read (\<^verbatim>\<open>get\<close>) and given back in any order.  The descriptors of the blocks sit on two singly linked lists, the
  used ones in the order of their allocation with a pointer to the last, and the free ones.

  The state keeps the links (from the address of a node to the next; the head of a list is a node) and the
  descriptors by the address of their node.  Lists and their operations are those of \<open>Rt_List\<close>; a walk along links
  that never ends is \<open>None\<close>.  The size of a block is a field of 24 bits.  Each operation runs with interrupts off.

  Shown: with blocks of at least one byte, the used blocks never overlap and never leave the buffer, whatever the
  order of calls (\<open>rbb_run_disjoint\<close>); an allocation fails only when there is no descriptor or no room behind the last block and
  before the first; \<^verbatim>\<open>get\<close> takes the oldest block that was put.  Blocks of size 0 break this: the theory ends
  with a run in which two blocks overlap.
\<close>

section \<open>Data\<close>

datatype rt_rbb_status = RT_RBB_BLK_UNUSED | RT_RBB_BLK_INITED | RT_RBB_BLK_PUT | RT_RBB_BLK_GET

record rt_rbb_blk =
  blk_status :: rt_rbb_status
  blk_size :: nat
  blk_buf :: addr

record rt_rbb =
  rbb_buf :: addr
  rbb_buf_size :: nat
  blk_list :: addr
  rbb_tail :: addr
  free_list :: addr
  rbb_link :: "addr \<Rightarrow> addr"
  rbb_blk :: "addr \<Rightarrow> rt_rbb_blk"

record rt_rbb_blk_queue =
  q_blocks :: addr
  q_blk_num :: nat

definition upd_blk :: "addr \<Rightarrow> (rt_rbb_blk \<Rightarrow> rt_rbb_blk) \<Rightarrow> rt_rbb \<Rightarrow> rt_rbb" where
  "upd_blk a f r = r\<lparr>rbb_blk := (rbb_blk r)(a := f (rbb_blk r a))\<rparr>"

definition set_status :: "addr \<Rightarrow> rt_rbb_status \<Rightarrow> rt_rbb \<Rightarrow> rt_rbb" where
  "set_status a s = upd_blk a (\<lambda>b. b\<lparr>blk_status := s\<rparr>)"

section \<open>Operations\<close>

text \<open>The nodes of \<^verbatim>\<open>block_set\<close>, in order, are an argument.\<close>

fun rbb_init_loop :: "addr list \<Rightarrow> rt_rbb \<Rightarrow> rt_rbb" where
  "rbb_init_loop [] r = r"
| "rbb_init_loop (a # as) r =
     (let r1 = set_status a RT_RBB_BLK_UNUSED r;
          r2 = r1\<lparr>rbb_link := rt_slist_init (rbb_link r1) a\<rparr>
      in rbb_init_loop as (r2\<lparr>rbb_link := rt_slist_insert (rbb_link r2) (free_list r2) a\<rparr>))"

definition rt_rbb_init :: "addr \<Rightarrow> nat \<Rightarrow> addr list \<Rightarrow> rt_rbb \<Rightarrow> rt_rbb" where
  "rt_rbb_init buf buf_size block_set r =
     (let r1 = r\<lparr>rbb_buf := buf, rbb_buf_size := buf_size, rbb_tail := blk_list r\<rparr>;
          r2 = r1\<lparr>rbb_link := rt_slist_init (rt_slist_init (rbb_link r1) (blk_list r1)) (free_list r1)\<rparr>
      in rbb_init_loop block_set r2)"

definition find_empty_blk_in_set :: "rt_rbb \<Rightarrow> (addr \<times> rt_rbb) option" where
  "find_empty_blk_in_set r =
     (if rt_slist_isempty (rbb_link r) (free_list r) then Some (0, r)
      else
        (let blk = rt_slist_first (rbb_link r) (free_list r)
         in map_option (\<lambda>h. (blk, r\<lparr>rbb_link := h\<rparr>)) (rt_slist_remove (rbb_link r) (free_list r) blk)))"

definition list_append :: "addr \<Rightarrow> rt_rbb \<Rightarrow> rt_rbb" where
  "list_append n r = r\<lparr>rbb_link := (rbb_link r)(rbb_tail r := n, n := 0), rbb_tail := n\<rparr>"

definition list_remove :: "addr \<Rightarrow> rt_rbb \<Rightarrow> rt_rbb option" where
  "list_remove n r =
     map_option (\<lambda>node.
       let h = rbb_link r
       in if h node \<noteq> 0 then
            (let r1 = r\<lparr>rbb_link := (h(node := h (h node)))(n := 0)\<rparr>
             in if rbb_tail r1 = n then r1\<lparr>rbb_tail := node\<rparr> else r1)
          else r)
     (slist_find_loop (rbb_link r) n (blk_list r))"

text \<open>The three steps that every successful branch of the allocation makes, and the one of every failing branch.\<close>

definition rbb_take :: "addr \<Rightarrow> addr \<Rightarrow> nat \<Rightarrow> rt_rbb \<Rightarrow> addr \<times> rt_rbb" where
  "rbb_take a buf sz r =
     (a, upd_blk a (\<lambda>b. b\<lparr>blk_status := RT_RBB_BLK_INITED, blk_buf := buf, blk_size := sz mod 2 ^ 24\<rparr>) (list_append a r))"

definition rbb_give_up :: "addr \<Rightarrow> rt_rbb \<Rightarrow> addr \<times> rt_rbb" where
  "rbb_give_up a r = (0, r\<lparr>rbb_link := rt_slist_insert (rbb_link r) (free_list r) a\<rparr>)"

definition rt_rbb_blk_alloc :: "nat \<Rightarrow> rt_rbb \<Rightarrow> (addr \<times> rt_rbb) option" where
  "rt_rbb_blk_alloc sz r0 =
     map_option (\<lambda>(new_rbb, r).
       if new_rbb = 0 then (0, r)
       else if \<not> rt_slist_isempty (rbb_link r) (blk_list r) then
         (let head = rbb_blk r (rt_slist_first (rbb_link r) (blk_list r));
              tail = rbb_blk r (rbb_tail r)
          in if blk_buf head \<le> blk_buf tail then
               (let empty1 = u32_sub (u32_add (rbb_buf r) (rbb_buf_size r)) (u32_add (blk_buf tail) (blk_size tail));
                    empty2 = u32_sub (blk_buf head) (rbb_buf r)
                in if empty1 \<ge> sz then rbb_take new_rbb (u32_add (blk_buf tail) (blk_size tail)) sz r
                   else if empty2 \<ge> sz then rbb_take new_rbb (rbb_buf r) sz r
                   else rbb_give_up new_rbb r)
             else
               (let empty1 = u32_sub (blk_buf head) (u32_add (blk_buf tail) (blk_size tail))
                in if empty1 \<ge> sz then rbb_take new_rbb (u32_add (blk_buf tail) (blk_size tail)) sz r
                   else rbb_give_up new_rbb r))
       else if sz \<le> rbb_buf_size r then rbb_take new_rbb (rbb_buf r) sz r
       else rbb_give_up new_rbb r)
     (find_empty_blk_in_set r0)"

definition rt_rbb_blk_put :: "addr \<Rightarrow> rt_rbb \<Rightarrow> rt_rbb" where
  "rt_rbb_blk_put a = set_status a RT_RBB_BLK_PUT"

partial_function (option) get_loop :: "addr \<Rightarrow> rt_rbb \<Rightarrow> (addr \<times> rt_rbb) option" where
  "get_loop node r =
     (if node = 0 then Some (0, r)
      else if blk_status (rbb_blk r node) = RT_RBB_BLK_PUT then Some (node, set_status node RT_RBB_BLK_GET r)
      else get_loop (rt_slist_next (rbb_link r) node) r)"

definition rt_rbb_blk_get :: "rt_rbb \<Rightarrow> (addr \<times> rt_rbb) option" where
  "rt_rbb_blk_get r =
     (if rt_slist_isempty (rbb_link r) (blk_list r) then Some (0, r)
      else get_loop (rt_slist_first (rbb_link r) (blk_list r)) r)"

definition rt_rbb_blk_size :: "addr \<Rightarrow> rt_rbb \<Rightarrow> nat" where
  "rt_rbb_blk_size a r = blk_size (rbb_blk r a)"

definition rt_rbb_blk_buf :: "addr \<Rightarrow> rt_rbb \<Rightarrow> addr" where
  "rt_rbb_blk_buf a r = blk_buf (rbb_blk r a)"

definition rt_rbb_blk_free :: "addr \<Rightarrow> rt_rbb \<Rightarrow> rt_rbb option" where
  "rt_rbb_blk_free a r =
     map_option (\<lambda>r1.
       let r2 = set_status a RT_RBB_BLK_UNUSED r1
       in r2\<lparr>rbb_link := rt_slist_insert (rbb_link r2) (free_list r2) a\<rparr>)
     (list_remove a r)"

text \<open>The loop of \<^verbatim>\<open>rt_rbb_blk_queue_get\<close>: \<open>lst\<close> is \<^verbatim>\<open>last_block\<close> (0 for \<^verbatim>\<open>RT_NULL\<close>), \<open>tot\<close> the size so far.  The step of the loop reads
  the link of the node after the current one before it tests that there is one; the value is not used.\<close>

partial_function (option) queue_get_loop ::
    "addr \<Rightarrow> addr \<Rightarrow> nat \<Rightarrow> nat \<Rightarrow> rt_rbb_blk_queue \<Rightarrow> rt_rbb \<Rightarrow> (nat \<times> rt_rbb_blk_queue \<times> rt_rbb) option" where
  "queue_get_loop node lst tot len q r =
     (if node = 0 then Some (tot, q, r)
      else
        (let nx = rt_slist_next (rbb_link r) node;
             b = rbb_blk r node
         in if lst = 0 then
              (if blk_status b = RT_RBB_BLK_PUT then
                 queue_get_loop nx node (u32_add tot (blk_size b)) len \<lparr>q_blocks = node, q_blk_num = 1\<rparr>
                   (set_status node RT_RBB_BLK_GET r)
               else queue_get_loop nx 0 tot len q r)
            else if blk_status b \<noteq> RT_RBB_BLK_PUT \<or> blk_buf (rbb_blk r lst) > blk_buf b \<or> u32_add tot (blk_size b) > len
            then Some (tot, q, r)
            else queue_get_loop nx node (u32_add tot (blk_size b)) len (q\<lparr>q_blk_num := q_blk_num q + 1\<rparr>)
                   (set_status node RT_RBB_BLK_GET r)))"

definition rt_rbb_blk_queue_get :: "nat \<Rightarrow> rt_rbb_blk_queue \<Rightarrow> rt_rbb \<Rightarrow> (nat \<times> rt_rbb_blk_queue \<times> rt_rbb) option" where
  "rt_rbb_blk_queue_get len q r =
     (if rt_slist_isempty (rbb_link r) (blk_list r) then Some (0, q, r)
      else queue_get_loop (rt_slist_first (rbb_link r) (blk_list r)) 0 0 len q r)"

fun queue_len_loop :: "nat \<Rightarrow> addr \<Rightarrow> nat \<Rightarrow> rt_rbb \<Rightarrow> nat" where
  "queue_len_loop 0 blk tot r = tot"
| "queue_len_loop (Suc n) blk tot r =
     queue_len_loop n (rbb_link r blk) (u32_add tot (blk_size (rbb_blk r blk))) r"

definition rt_rbb_blk_queue_len :: "rt_rbb_blk_queue \<Rightarrow> rt_rbb \<Rightarrow> nat" where
  "rt_rbb_blk_queue_len q r = queue_len_loop (q_blk_num q) (q_blocks q) 0 r"

definition rt_rbb_blk_queue_buf :: "rt_rbb_blk_queue \<Rightarrow> rt_rbb \<Rightarrow> addr" where
  "rt_rbb_blk_queue_buf q r = blk_buf (rbb_blk r (q_blocks q))"

fun queue_free_loop :: "nat \<Rightarrow> addr \<Rightarrow> rt_rbb \<Rightarrow> rt_rbb option" where
  "queue_free_loop 0 blk r = Some r"
| "queue_free_loop (Suc n) blk r =
     (let next_blk = rbb_link r blk in Option.bind (rt_rbb_blk_free blk r) (queue_free_loop n next_blk))"

definition rt_rbb_blk_queue_free :: "rt_rbb_blk_queue \<Rightarrow> rt_rbb \<Rightarrow> rt_rbb option" where
  "rt_rbb_blk_queue_free q r = queue_free_loop (q_blk_num q) (q_blocks q) r"

partial_function (option) next_len_loop :: "addr \<Rightarrow> addr \<Rightarrow> nat \<Rightarrow> rt_rbb \<Rightarrow> nat option" where
  "next_len_loop node lst tot r =
     (if node = 0 then Some tot
      else
        (let nx = rt_slist_next (rbb_link r) node;
             b = rbb_blk r node
         in if lst = 0 then
              (if blk_status b \<noteq> RT_RBB_BLK_PUT then next_len_loop nx 0 tot r
               else next_len_loop nx node (u32_add tot (blk_size b)) r)
            else if blk_status b \<noteq> RT_RBB_BLK_PUT \<or> blk_buf (rbb_blk r lst) > blk_buf b then Some tot
            else next_len_loop nx node (u32_add tot (blk_size b)) r))"

definition rt_rbb_next_blk_queue_len :: "rt_rbb \<Rightarrow> nat option" where
  "rt_rbb_next_blk_queue_len r =
     (if rt_slist_isempty (rbb_link r) (blk_list r) then Some 0
      else next_len_loop (rt_slist_first (rbb_link r) (blk_list r)) 0 0 r)"

definition rt_rbb_get_buf_size :: "rt_rbb \<Rightarrow> nat" where
  "rt_rbb_get_buf_size r = rbb_buf_size r"

section \<open>The layout of the blocks in the buffer\<close>

text \<open>Ranges (start, length) in ascending order between two bounds; and in ring order: ascending, or a first part
  behind a second part that has wrapped to the start of the buffer.\<close>

fun asc :: "nat \<Rightarrow> nat \<Rightarrow> (nat \<times> nat) list \<Rightarrow> bool" where
  "asc lo hi [] \<longleftrightarrow> lo \<le> hi"
| "asc lo hi ((b, s) # rs) \<longleftrightarrow> lo \<le> b \<and> 0 < s \<and> asc (b + s) hi rs"

definition layout :: "nat \<Rightarrow> nat \<Rightarrow> (nat \<times> nat) list \<Rightarrow> bool" where
  "layout lo hi rs \<longleftrightarrow> asc lo hi rs \<or>
     (\<exists>as bs. rs = as @ bs \<and> as \<noteq> [] \<and> bs \<noteq> [] \<and> asc lo (fst (hd as)) bs \<and> asc (fst (hd as)) hi as)"

definition apart :: "nat \<times> nat \<Rightarrow> nat \<times> nat \<Rightarrow> bool" where
  "apart p q \<longleftrightarrow> fst p + snd p \<le> fst q \<or> fst q + snd q \<le> fst p"

lemma asc_le: "asc lo hi rs \<Longrightarrow> lo \<le> hi"
  by (induction rs arbitrary: lo) fastforce+

lemma asc_mono: "asc lo hi rs \<Longrightarrow> lo' \<le> lo \<Longrightarrow> hi \<le> hi' \<Longrightarrow> asc lo' hi' rs"
  by (induction rs arbitrary: lo lo') auto

lemma asc_append: "asc lo hi (as @ bs) \<longleftrightarrow> (\<exists>mid. asc lo mid as \<and> asc mid hi bs)"
proof (induction as arbitrary: lo)
  case Nil
  show ?case using asc_mono [of _ hi bs lo hi] by (auto intro: exI [of _ lo])
qed auto

lemma asc_filter: "asc lo hi (map f xs) \<Longrightarrow> asc lo hi (map f (filter P xs))"
proof (induction xs arbitrary: lo)
  case (Cons x xs)
  obtain b s where f: "f x = (b, s)" by fastforce
  have "asc (b + s) hi (map f (filter P xs))" using Cons f by simp
  then show ?case using Cons.prems f asc_mono [of "b + s" hi _ lo hi] by auto
qed simp

lemma asc_in: "asc lo hi rs \<Longrightarrow> (b, s) \<in> set rs \<Longrightarrow> lo \<le> b \<and> 0 < s \<and> b + s \<le> hi"
proof (induction rs arbitrary: lo)
  case (Cons r rs)
  then show ?case using asc_le by (cases r) (fastforce dest: asc_le)
qed simp

lemma asc_apart: "asc lo hi rs \<Longrightarrow> i < j \<Longrightarrow> j < length rs \<Longrightarrow> fst (rs ! i) + snd (rs ! i) \<le> fst (rs ! j)"
proof (induction rs arbitrary: lo i j)
  case (Cons r rs)
  obtain b s where r: "r = (b, s)" by fastforce
  show ?case
  proof (cases i)
    case 0
    then have "rs ! (j - 1) \<in> set rs" using Cons.prems by (intro nth_mem) auto
    then show ?thesis using asc_in [of "b + s" hi rs "fst (rs ! (j - 1))" "snd (rs ! (j - 1))"] Cons.prems r 0
      by (cases j) auto
  next
    case (Suc k)
    then show ?thesis using Cons.IH [of "b + s" k "j - 1"] Cons.prems r by (cases j) auto
  qed
qed simp

lemma asc_last: "asc lo hi rs \<Longrightarrow> rs \<noteq> [] \<Longrightarrow> asc lo (fst (last rs) + snd (last rs)) rs"
  by (induction rs arbitrary: lo) auto

lemma asc_snoc: "asc lo hi rs \<Longrightarrow> rs \<noteq> [] \<Longrightarrow> last rs = (b, s) \<Longrightarrow> 0 < n \<Longrightarrow> b + s + n \<le> hi \<Longrightarrow> asc lo hi (rs @ [(b + s, n)])"
  using asc_last [of lo hi rs] by (auto simp: asc_append intro!: exI [of _ "b + s"])

lemma asc_hd: "asc lo hi rs \<Longrightarrow> rs \<noteq> [] \<Longrightarrow> lo \<le> fst (hd rs) \<and> asc (fst (hd rs)) hi rs"
  by (cases rs) auto

lemma layout_filter:
  assumes "layout lo hi (map f xs)"
  shows "layout lo hi (map f (filter P xs))"
proof (cases "asc lo hi (map f xs)")
  case True
  then show ?thesis using asc_filter by (auto simp: layout_def)
next
  case False
  then obtain xa xb where x: "xs = xa @ xb" "xa \<noteq> []" "xb \<noteq> []"
    "asc lo (fst (hd (map f xa))) (map f xb)" "asc (fst (hd (map f xa))) hi (map f xa)"
    using assms unfolding layout_def by (auto simp: map_eq_append_conv)
  let ?h = "fst (hd (map f xa))" and ?as = "map f (filter P xa)" and ?bs = "map f (filter P xb)"
  have as: "asc ?h hi ?as" and bs: "asc lo ?h ?bs" using x asc_filter by blast+
  have b: "lo \<le> ?h" "?h \<le> hi" using asc_le [OF bs] asc_le [OF as] .
  show ?thesis
  proof (cases "?as = [] \<or> ?bs = []")
    case True
    then have "asc lo hi (?as @ ?bs)" using asc_mono [OF as b(1)] asc_mono [OF bs _ b(2)] by (elim disjE) simp_all
    then show ?thesis by (simp add: layout_def x(1))
  next
    case False
    have "?h \<le> fst (hd ?as)" "asc (fst (hd ?as)) hi ?as" using asc_hd [OF as] False by auto
    then have "asc lo (fst (hd ?as)) ?bs" using asc_mono [OF bs] by simp
    then show ?thesis unfolding layout_def x(1) using \<open>asc (fst (hd ?as)) hi ?as\<close> False
      by (intro disjI2 exI [of _ ?as] exI [of _ ?bs]) simp
  qed
qed

lemma layout_apart:
  assumes "layout lo hi rs" and "i < j" and "j < length rs"
  shows "apart (rs ! i) (rs ! j)"
proof (cases "asc lo hi rs")
  case True
  then show ?thesis using asc_apart assms by (auto simp: apart_def)
next
  case False
  then obtain as bs where r: "rs = as @ bs" "as \<noteq> []" "asc lo (fst (hd as)) bs" "asc (fst (hd as)) hi as"
    using assms(1) by (auto simp: layout_def)
  consider "j < length as" | "i < length as" "length as \<le> j" | "length as \<le> i" using assms(2) by linarith
  then show ?thesis
  proof cases
    case 1
    then show ?thesis using asc_apart [OF r(4)] assms(2) by (auto simp: apart_def r(1) nth_append)
  next
    case 2
    then have "as ! i \<in> set as" "bs ! (j - length as) \<in> set bs" using assms(3) r(1) by auto
    then show ?thesis
      using asc_in [OF r(4), of "fst (as ! i)" "snd (as ! i)"]
        asc_in [OF r(3), of "fst (bs ! (j - length as))" "snd (bs ! (j - length as))"] 2
      by (auto simp: apart_def r(1) nth_append)
  next
    case 3
    then show ?thesis
      using asc_apart [OF r(3), of "i - length as" "j - length as"] assms(2,3) by (auto simp: apart_def r(1) nth_append)
  qed
qed

lemma layout_apart_all:
  assumes "layout lo hi (map f xs)" and "a \<in> set xs" and "b \<in> set xs" and "a \<noteq> b"
  shows "apart (f a) (f b)"
proof -
  obtain i j where "i < length xs" "j < length xs" "xs ! i = a" "xs ! j = b" using assms(2,3) by (auto simp: in_set_conv_nth)
  moreover from this have "i < j \<or> j < i" using assms(4) by (cases "i = j") auto
  ultimately show ?thesis
    using layout_apart [OF assms(1), of i j] layout_apart [OF assms(1), of j i] by (auto simp: apart_def)
qed

lemma layout_in:
  assumes "layout lo hi rs" and "(b, s) \<in> set rs"
  shows "lo \<le> b \<and> 0 < s \<and> b + s \<le> hi"
proof (cases "asc lo hi rs")
  case True
  then show ?thesis using asc_in assms(2) by blast
next
  case False
  then obtain as bs where r: "rs = as @ bs" "asc lo (fst (hd as)) bs" "asc (fst (hd as)) hi as"
    using assms(1) by (auto simp: layout_def)
  then have "lo \<le> fst (hd as)" "fst (hd as) \<le> hi" using asc_le by blast+
  then show ?thesis using asc_in [OF r(2), of b s] asc_in [OF r(3), of b s] assms(2) r(1) by auto
qed

text \<open>Where an allocation puts its block: behind the last one, or else at the start of the buffer.\<close>

definition place :: "nat \<Rightarrow> nat \<Rightarrow> (nat \<times> nat) list \<Rightarrow> nat \<Rightarrow> nat option" where
  "place lo hi rs n =
     (if rs = [] then (if lo + n \<le> hi then Some lo else None)
      else
        (let h = fst (hd rs); e = fst (last rs) + snd (last rs)
         in if h \<le> fst (last rs) then
              (if e + n \<le> hi then Some e else if lo + n \<le> h then Some lo else None)
            else if e + n \<le> h then Some e else None))"

lemma place_layout:
  assumes "layout lo hi rs" and "0 < n" and "place lo hi rs n = Some p"
  shows "layout lo hi (rs @ [(p, n)])"
proof (cases "rs = []")
  case True
  then show ?thesis using assms(2,3) by (simp add: place_def layout_def split: if_splits)
next
  case ne: False
  obtain b s where l: "last rs = (b, s)" by fastforce
  show ?thesis
  proof (cases "asc lo hi rs")
    case True
    note h = asc_hd [OF True ne]
    consider "p = b + s" "b + s + n \<le> hi" | "p = lo" "lo + n \<le> fst (hd rs)"
      using assms(3) ne l asc_in [OF conjunct2 [OF h], of b s] last_in_set [OF ne]
      by (auto simp: place_def Let_def split: if_splits)
    then show ?thesis
    proof cases
      case 1
      then show ?thesis using asc_snoc [OF True ne l assms(2)] by (simp add: layout_def)
    next
      case 2
      then show ?thesis unfolding layout_def
        using ne h assms(2) by (intro disjI2 exI [of _ rs] exI [of _ "[(p, n)]"]) simp
    qed
  next
    case False
    then obtain as bs where r: "rs = as @ bs" "as \<noteq> []" "bs \<noteq> []" "asc lo (fst (hd as)) bs" "asc (fst (hd as)) hi as"
      using assms(1) by (auto simp: layout_def)
    then have lb: "last bs = (b, s)" using l by simp
    then have "b < fst (hd as)" using asc_in [OF r(4), of b s] last_in_set [OF r(3)] by auto
    then have p: "p = b + s" "b + s + n \<le> fst (hd as)" using assms(3) ne l r(1,2) by (auto simp: place_def Let_def split: if_splits)
    have "asc lo (fst (hd as)) (bs @ [(p, n)])" using asc_snoc [OF r(4,3) lb assms(2) p(2)] p(1) by simp
    then show ?thesis unfolding layout_def
      using r by (intro disjI2 exI [of _ as] exI [of _ "bs @ [(p, n)]"]) simp
  qed
qed

section \<open>The invariant\<close>

definition rng :: "rt_rbb \<Rightarrow> addr \<Rightarrow> nat \<times> nat" where
  "rng r a = (blk_buf (rbb_blk r a), blk_size (rbb_blk r a))"

definition rbb_end :: "rt_rbb \<Rightarrow> nat" where
  "rbb_end r = rbb_buf r + rbb_buf_size r"

definition lists_ok :: "rt_rbb \<Rightarrow> addr list \<Rightarrow> addr list \<Rightarrow> bool" where
  "lists_ok r xs ys \<longleftrightarrow> slist (rbb_link r) (blk_list r) xs \<and> slist (rbb_link r) (free_list r) ys \<and>
     distinct (blk_list r # xs @ free_list r # ys) \<and> rbb_tail r = last (blk_list r # xs)"

definition rbb_ok :: "rt_rbb \<Rightarrow> addr list \<Rightarrow> addr list \<Rightarrow> bool" where
  "rbb_ok r xs ys \<longleftrightarrow> lists_ok r xs ys \<and> layout (rbb_buf r) (rbb_end r) (map (rng r) xs) \<and>
     (\<forall>a \<in> set xs. blk_status (rbb_blk r a) \<noteq> RT_RBB_BLK_UNUSED) \<and>
     (\<forall>a \<in> set ys. blk_status (rbb_blk r a) = RT_RBB_BLK_UNUSED) \<and> rbb_end r < 2 ^ 32"

lemma slist_nonzero: "slist h l xs \<Longrightarrow> x \<in> set xs \<Longrightarrow> x \<noteq> 0"
  using schain_nonzero by (auto simp: slist_def)

lemma slist_upd: "a \<notin> set (l # xs) \<Longrightarrow> slist (h(a := v)) l xs = slist h l xs"
  by (simp add: slist_def schain_upd del: fun_upd_apply)

lemma slist_first: "slist h l xs \<Longrightarrow> h l = (case xs of [] \<Rightarrow> 0 | x # _ \<Rightarrow> x)"
  by (cases xs) (auto simp: slist_def)

lemma find_empty_ok:
  assumes "lists_ok r xs ys"
  shows "ys = [] \<Longrightarrow> find_empty_blk_in_set r = Some (0, r)"
    and "ys = y # ys' \<Longrightarrow> \<exists>h. find_empty_blk_in_set r = Some (y, r\<lparr>rbb_link := h\<rparr>) \<and> lists_ok (r\<lparr>rbb_link := h\<rparr>) xs ys'"
proof -
  have s: "slist (rbb_link r) (free_list r) ys" "slist (rbb_link r) (blk_list r) xs"
    and d: "distinct (blk_list r # xs @ free_list r # ys)" using assms by (simp_all add: lists_ok_def)
  show "find_empty_blk_in_set r = Some (0, r)" if "ys = []"
    using slist_first [OF s(1)] that by (simp add: find_empty_blk_in_set_def rt_slist_isempty_def)
  assume y: "ys = y # ys'"
  let ?h = "(rbb_link r)(free_list r := rbb_link r y)"
  have link: "rbb_link r (free_list r) = y" "y \<noteq> 0" using slist_first [OF s(1)] slist_nonzero [OF s(1)] y by auto
  have "slist_find_loop (rbb_link r) y (free_list r) = Some (free_list r)"
    using link by (subst slist_find_loop.simps) simp
  then have "find_empty_blk_in_set r = Some (y, r\<lparr>rbb_link := ?h\<rparr>)"
    using link by (simp add: find_empty_blk_in_set_def rt_slist_isempty_def rt_slist_first_def rt_slist_remove_def)
  moreover have "slist ?h (free_list r) ys'"
    using s(1) y schain_remove [of "rbb_link r" "free_list r" "[]" y ys'] by (simp add: slist_def)
  moreover have "slist ?h (blk_list r) xs" using s(2) d by (subst slist_upd) auto
  ultimately show "\<exists>h. find_empty_blk_in_set r = Some (y, r\<lparr>rbb_link := h\<rparr>) \<and> lists_ok (r\<lparr>rbb_link := h\<rparr>) xs ys'"
    using assms y by (intro exI [of _ ?h]) (auto simp: lists_ok_def)
qed

lemma list_append_ok:
  assumes "lists_ok r xs ys" and "n \<notin> set (blk_list r # xs @ free_list r # ys)" and "n \<noteq> 0"
  shows "lists_ok (list_append n r) (xs @ [n]) ys"
proof -
  let ?t = "last (blk_list r # xs)"
  have s: "slist (rbb_link r) (free_list r) ys" "slist (rbb_link r) (blk_list r) xs"
    and d: "distinct (blk_list r # xs @ free_list r # ys)" and t: "rbb_tail r = ?t" using assms(1) by (simp_all add: lists_ok_def)
  have "?t \<in> set (blk_list r # xs)" by simp
  then have "slist ((rbb_link r)(?t := n, n := 0)) (free_list r) ys"
    using s(1) d assms(2) by (subst slist_upd, force, subst slist_upd) auto
  moreover have "slist ((rbb_link r)(?t := n, n := 0)) (blk_list r) (xs @ [n])"
    using schain_append [of "rbb_link r" "blk_list r" xs n] s(2) d assms(2,3) by (auto simp: slist_def)
  ultimately show ?thesis using d assms(2) t by (auto simp: lists_ok_def list_append_def)
qed

lemma free_insert_ok:
  assumes "lists_ok r xs ys" and "n \<notin> set (blk_list r # xs @ free_list r # ys)" and "n \<noteq> 0"
  shows "lists_ok (r\<lparr>rbb_link := rt_slist_insert (rbb_link r) (free_list r) n\<rparr>) xs (n # ys)"
proof -
  have s: "slist (rbb_link r) (free_list r) ys" "slist (rbb_link r) (blk_list r) xs"
    and d: "distinct (blk_list r # xs @ free_list r # ys)" using assms(1) by (simp_all add: lists_ok_def)
  have "slist (rt_slist_insert (rbb_link r) (free_list r) n) (blk_list r) xs"
    unfolding rt_slist_insert_def Let_def using s(2) d assms(2) by (subst slist_upd, force, subst slist_upd) auto
  then show ?thesis
    using rt_slist_insert_slist [OF s(1) _ assms(3)] d assms by (auto simp: lists_ok_def)
qed

lemma list_remove_ok:
  assumes "lists_ok r (as @ n # bs) ys"
  shows "\<exists>r1. list_remove n r = Some r1 \<and> lists_ok r1 (as @ bs) ys \<and> rbb_blk r1 = rbb_blk r \<and>
    rbb_buf r1 = rbb_buf r \<and> rbb_buf_size r1 = rbb_buf_size r \<and> blk_list r1 = blk_list r \<and> free_list r1 = free_list r"
proof -
  let ?h = "rbb_link r" and ?p = "last (blk_list r # as)" and ?l = "blk_list r"
  have s: "slist ?h (free_list r) ys" "schain ?h ?l (as @ n # bs)"
    and d: "distinct (?l # as @ n # bs @ free_list r # ys)" and t: "rbb_tail r = last (?l # as @ n # bs)"
    using assms by (simp_all add: lists_ok_def slist_def)
  have "takeWhile (\<lambda>x. x \<noteq> n) (as @ n # bs) = as" using d by (subst takeWhile_append2) auto
  then have find: "slist_find_loop ?h n ?l = Some ?p" using slist_find_seg [OF s(2), of n] by simp
  have rem: "schain (?h(?p := ?h n)) ?l (as @ bs)" "?h ?p = n"
  proof -
    have "distinct (?l # as @ n # bs)" using d by auto
    from schain_remove [OF s(2) this] show "schain (?h(?p := ?h n)) ?l (as @ bs)" "?h ?p = n" by blast+
  qed
  have nz: "n \<noteq> 0" using schain_nonzero [OF s(2)] by auto
  define r1 where "r1 = r\<lparr>rbb_link := (?h(?p := ?h n))(n := 0), rbb_tail := (if rbb_tail r = n then ?p else rbb_tail r)\<rparr>"
  have "list_remove n r = Some r1"
    using find rem(2) nz by (simp add: list_remove_def r1_def Let_def)
  moreover have "slist ((?h(?p := ?h n))(n := 0)) ?l (as @ bs)"
    using rem(1) d by (subst slist_upd) (auto simp: slist_def)
  moreover have "?p \<in> set (?l # as)" by simp
  then have "slist ((?h(?p := ?h n))(n := 0)) (free_list r) ys"
    using s(1) d by (subst slist_upd, force, subst slist_upd) auto
  moreover have "(if rbb_tail r = n then ?p else rbb_tail r) = last (?l # as @ bs)"
  proof (cases "bs = []")
    case True
    then show ?thesis using t by simp
  next
    case False
    then have "last bs \<noteq> n" using d last_in_set [OF False] by auto
    then show ?thesis using t False by simp
  qed
  ultimately show ?thesis using d by (intro exI [of _ r1]) (auto simp: lists_ok_def r1_def)
qed

section \<open>Allocation\<close>

lemma blk_last: "lists_ok r (x # xs) ys \<Longrightarrow> rbb_tail r = last (x # xs)"
  by (simp add: lists_ok_def)

lemma blk_first: "lists_ok r xs ys \<Longrightarrow> rt_slist_first (rbb_link r) (blk_list r) = (case xs of [] \<Rightarrow> 0 | x # _ \<Rightarrow> x)"
  "lists_ok r xs ys \<Longrightarrow> rt_slist_isempty (rbb_link r) (blk_list r) \<longleftrightarrow> xs = []"
  using slist_first [of "rbb_link r" "blk_list r" xs] slist_nonzero [of "rbb_link r" "blk_list r" xs]
  by (auto simp: lists_ok_def rt_slist_first_def rt_slist_isempty_def split: list.splits)

text \<open>With the list's blocks inside the buffer no computation of the allocation wraps.\<close>

lemma alloc_place:
  assumes ok: "lists_ok r xs ys" and lay: "layout (rbb_buf r) (rbb_end r) (map (rng r) xs)" and e: "rbb_end r < 2 ^ 32"
    and xs: "xs \<noteq> []"
  defines "hd' \<equiv> rbb_blk r (rt_slist_first (rbb_link r) (blk_list r))" and "tl' \<equiv> rbb_blk r (rbb_tail r)"
  shows "u32_add (blk_buf tl') (blk_size tl') = blk_buf tl' + blk_size tl'"
    and "blk_buf hd' \<le> blk_buf tl' \<Longrightarrow> n \<le> u32_sub (u32_add (rbb_buf r) (rbb_buf_size r)) (blk_buf tl' + blk_size tl') \<longleftrightarrow>
      blk_buf tl' + blk_size tl' + n \<le> rbb_end r"
    and "n \<le> u32_sub (blk_buf hd') (rbb_buf r) \<longleftrightarrow> rbb_buf r + n \<le> blk_buf hd'"
    and "\<not> blk_buf hd' \<le> blk_buf tl' \<Longrightarrow> n \<le> u32_sub (blk_buf hd') (blk_buf tl' + blk_size tl') \<longleftrightarrow>
      blk_buf tl' + blk_size tl' + n \<le> blk_buf hd'"
    and "fst (hd (map (rng r) xs)) = blk_buf hd'" and "last (map (rng r) xs) = (blk_buf tl', blk_size tl')"
proof -
  obtain x xs' where x: "xs = x # xs'" using xs by (cases xs) auto
  have h: "hd' = rbb_blk r (hd xs)" "tl' = rbb_blk r (last xs)"
    using blk_first(1) [OF ok] blk_last [of r x xs' ys] ok x by (simp_all add: hd'_def tl'_def)
  show "fst (hd (map (rng r) xs)) = blk_buf hd'" and "last (map (rng r) xs) = (blk_buf tl', blk_size tl')"
    using xs by (simp_all add: h hd_map last_map rng_def)
  have m: "(blk_buf hd', blk_size hd') \<in> set (map (rng r) xs)" "(blk_buf tl', blk_size tl') \<in> set (map (rng r) xs)"
    using hd_in_set [OF xs] last_in_set [OF xs] by (auto simp: h rng_def)
  have b: "rbb_buf r \<le> blk_buf hd'" "blk_buf hd' + blk_size hd' \<le> rbb_end r" "0 < blk_size tl'"
    "rbb_buf r \<le> blk_buf tl'" "blk_buf tl' + blk_size tl' \<le> rbb_end r"
    using layout_in [OF lay m(1)] layout_in [OF lay m(2)] by auto
  have end': "u32_add (rbb_buf r) (rbb_buf_size r) = rbb_end r" using e by (simp add: rbb_end_def u32_add_id)
  show "u32_add (blk_buf tl') (blk_size tl') = blk_buf tl' + blk_size tl'" using b e by (simp add: u32_add_id)
  show "n \<le> u32_sub (u32_add (rbb_buf r) (rbb_buf_size r)) (blk_buf tl' + blk_size tl') \<longleftrightarrow>
      blk_buf tl' + blk_size tl' + n \<le> rbb_end r"
    unfolding end' using b e by (subst u32_sub_id) auto
  show "n \<le> u32_sub (blk_buf hd') (rbb_buf r) \<longleftrightarrow> rbb_buf r + n \<le> blk_buf hd'"
    using b e by (subst u32_sub_id) auto
  show "n \<le> u32_sub (blk_buf hd') (blk_buf tl' + blk_size tl') \<longleftrightarrow> blk_buf tl' + blk_size tl' + n \<le> blk_buf hd'"
    if gt: "\<not> blk_buf hd' \<le> blk_buf tl'"
  proof -
    have "blk_buf tl' + blk_size tl' \<le> blk_buf hd'"
    proof (cases "length xs = 1")
      case True
      then show ?thesis using gt h x by simp
    next
      case False
      then have "apart (map (rng r) xs ! 0) (map (rng r) xs ! (length xs - 1))"
        using lay x by (intro layout_apart [OF lay]) auto
      then show ?thesis using gt x by (auto simp: apart_def h rng_def last_conv_nth)
    qed
    then show ?thesis using b e by (subst u32_sub_id) auto
  qed
qed

lemma alloc_eq:
  assumes ok: "lists_ok r xs (a # ys)" and lay: "layout (rbb_buf r) (rbb_end r) (map (rng r) xs)" and e: "rbb_end r < 2 ^ 32"
  shows "\<exists>h. lists_ok (r\<lparr>rbb_link := h\<rparr>) xs ys \<and> rt_rbb_blk_alloc n r =
    Some (case place (rbb_buf r) (rbb_end r) (map (rng r) xs) n of
            Some p \<Rightarrow> rbb_take a p n (r\<lparr>rbb_link := h\<rparr>) | None \<Rightarrow> rbb_give_up a (r\<lparr>rbb_link := h\<rparr>))"
proof -
  obtain h where h: "find_empty_blk_in_set r = Some (a, r\<lparr>rbb_link := h\<rparr>)" "lists_ok (r\<lparr>rbb_link := h\<rparr>) xs ys"
    using find_empty_ok(2) [OF ok refl] by blast
  let ?r = "r\<lparr>rbb_link := h\<rparr>"
  have same: "rng ?r = rng r" "rbb_end ?r = rbb_end r" "rbb_buf ?r = rbb_buf r"
    by (simp_all add: rng_def rbb_end_def fun_eq_iff)
  have az: "a \<noteq> 0" using ok slist_nonzero by (fastforce simp: lists_ok_def)
  have emp: "rt_slist_isempty h (blk_list r) \<longleftrightarrow> xs = []" using blk_first(2) [OF h(2)] by simp
  have "rt_rbb_blk_alloc n r = Some (case place (rbb_buf r) (rbb_end r) (map (rng r) xs) n of
            Some p \<Rightarrow> rbb_take a p n ?r | None \<Rightarrow> rbb_give_up a ?r)"
  proof (cases "xs = []")
    case True
    then show ?thesis
      using az emp by (simp add: rt_rbb_blk_alloc_def h(1) place_def rbb_end_def)
  next
    case False
    note p = alloc_place [OF h(2) _ _ False, unfolded same, OF lay e, simplified]
    show ?thesis
      using az emp False p(5,6)
      by (simp add: rt_rbb_blk_alloc_def h(1) place_def Let_def p(1-4) hd_map last_map)
  qed
  then show ?thesis using h(2) by blast
qed

lemma upd_blk_simps [simp]:
  "rbb_link (upd_blk a f r) = rbb_link r" "blk_list (upd_blk a f r) = blk_list r" "free_list (upd_blk a f r) = free_list r"
  "rbb_tail (upd_blk a f r) = rbb_tail r" "rbb_buf (upd_blk a f r) = rbb_buf r" "rbb_buf_size (upd_blk a f r) = rbb_buf_size r"
  "rbb_blk (upd_blk a f r) b = (if b = a then f (rbb_blk r a) else rbb_blk r b)"
  by (simp_all add: upd_blk_def)

lemma upd_blk_lists [simp]: "lists_ok (upd_blk a f r) xs ys = lists_ok r xs ys" "rbb_end (upd_blk a f r) = rbb_end r"
  by (simp_all add: lists_ok_def rbb_end_def)

lemma rng_set_status [simp]: "rng (set_status a s r) = rng r"
  by (auto simp: rng_def set_status_def fun_eq_iff)

lemma rng_link [simp]: "rng (r\<lparr>rbb_link := h\<rparr>) = rng r"
  by (simp add: rng_def fun_eq_iff)

lemma set_status_simps [simp]:
  "lists_ok (set_status a s r) xs ys = lists_ok r xs ys" "rbb_end (set_status a s r) = rbb_end r"
  "rbb_buf (set_status a s r) = rbb_buf r" "rbb_link (set_status a s r) = rbb_link r"
  "blk_list (set_status a s r) = blk_list r"
  "blk_status (rbb_blk (set_status a s r) b) = (if b = a then s else blk_status (rbb_blk r b))"
  "blk_size (rbb_blk (set_status a s r) b) = blk_size (rbb_blk r b)"
  "blk_buf (rbb_blk (set_status a s r) b) = blk_buf (rbb_blk r b)"
  by (simp_all add: set_status_def)

lemma rbb_ok_status:
  assumes "rbb_ok r xs ys" and "a \<notin> set ys" and "s \<noteq> RT_RBB_BLK_UNUSED"
  shows "rbb_ok (set_status a s r) xs ys"
  using assms unfolding rbb_ok_def by auto

lemma alloc_ok:
  assumes ok: "rbb_ok r xs ys" and n: "0 < n" "n < 2 ^ 24"
  shows "\<exists>a r'. rt_rbb_blk_alloc n r = Some (a, r') \<and>
    (if a = 0 then rbb_ok r' xs ys \<and> rbb_blk r' = rbb_blk r \<and>
        (ys = [] \<or> place (rbb_buf r) (rbb_end r) (map (rng r) xs) n = None)
     else ys \<noteq> [] \<and> a = hd ys \<and> rbb_ok r' (xs @ [a]) (tl ys) \<and> blk_size (rbb_blk r' a) = n \<and>
        blk_status (rbb_blk r' a) = RT_RBB_BLK_INITED \<and> (\<forall>b. b \<noteq> a \<longrightarrow> rbb_blk r' b = rbb_blk r b))"
proof (cases ys)
  case Nil
  then have "find_empty_blk_in_set r = Some (0, r)" using find_empty_ok(1) ok by (auto simp: rbb_ok_def)
  then show ?thesis using Nil ok by (simp add: rt_rbb_blk_alloc_def)
next
  case (Cons a ys')
  have l: "lists_ok r xs (a # ys')" and lay: "layout (rbb_buf r) (rbb_end r) (map (rng r) xs)" and e: "rbb_end r < 2 ^ 32"
    and st: "\<forall>a \<in> set xs. blk_status (rbb_blk r a) \<noteq> RT_RBB_BLK_UNUSED" "\<forall>a \<in> set ys. blk_status (rbb_blk r a) = RT_RBB_BLK_UNUSED"
    using ok Cons by (auto simp: rbb_ok_def)
  obtain h where h: "lists_ok (r\<lparr>rbb_link := h\<rparr>) xs ys'" "rt_rbb_blk_alloc n r =
    Some (case place (rbb_buf r) (rbb_end r) (map (rng r) xs) n of
            Some p \<Rightarrow> rbb_take a p n (r\<lparr>rbb_link := h\<rparr>) | None \<Rightarrow> rbb_give_up a (r\<lparr>rbb_link := h\<rparr>))"
    using alloc_eq [OF l lay e] by blast
  let ?r = "r\<lparr>rbb_link := h\<rparr>"
  have a: "a \<notin> set (blk_list ?r # xs @ free_list ?r # ys')" "a \<noteq> 0"
    using l slist_nonzero by (fastforce simp: lists_ok_def)+
  show ?thesis
  proof (cases "place (rbb_buf r) (rbb_end r) (map (rng r) xs) n")
    case None
    have "lists_ok (snd (rbb_give_up a ?r)) xs ys" using free_insert_ok [OF h(1) a] Cons by (simp add: rbb_give_up_def)
    then have "rbb_ok (snd (rbb_give_up a ?r)) xs ys"
      using lay e st by (simp add: rbb_ok_def rbb_give_up_def rbb_end_def)
    then show ?thesis using h(2) None by (simp add: rbb_give_up_def)
  next
    case (Some p)
    let ?r' = "snd (rbb_take a p n ?r)"
    have lo: "lists_ok ?r' (xs @ [a]) ys'" using list_append_ok [OF h(1) a] by (simp add: rbb_take_def)
    have f: "rbb_blk ?r' b = rbb_blk r b" if "b \<noteq> a" for b using that by (simp add: rbb_take_def list_append_def)
    have g: "rng ?r' a = (p, n)" "blk_status (rbb_blk ?r' a) = RT_RBB_BLK_INITED" "blk_size (rbb_blk ?r' a) = n"
      using n by (simp_all add: rbb_take_def rng_def list_append_def)
    have "rng ?r' b = rng r b" if "b \<in> set xs" for b
    proof -
      have "b \<noteq> a" using that a(1) by auto
      then show ?thesis by (simp add: rng_def f)
    qed
    then have "map (rng ?r') (xs @ [a]) = map (rng r) xs @ [(p, n)]" using g(1) by simp
    moreover have "rbb_buf ?r' = rbb_buf r" "rbb_end ?r' = rbb_end r"
      by (simp_all add: rbb_take_def list_append_def rbb_end_def)
    ultimately have "layout (rbb_buf ?r') (rbb_end ?r') (map (rng ?r') (xs @ [a]))"
      using place_layout [OF lay n(1) Some] by (simp only:)
    then have "rbb_ok ?r' (xs @ [a]) ys'"
      using lo st g f a Cons e unfolding rbb_ok_def by (auto simp: rbb_take_def list_append_def rbb_end_def)
    then show ?thesis using h(2) Some a(2) f g Cons by (simp add: rbb_take_def)
  qed
qed

section \<open>Giving back and reading\<close>

lemma free_ok:
  assumes ok: "rbb_ok r xs ys" and a: "a \<in> set xs"
  shows "\<exists>r'. rt_rbb_blk_free a r = Some r' \<and> rbb_ok r' (filter (\<lambda>x. x \<noteq> a) xs) (a # ys) \<and>
    (\<forall>b. b \<noteq> a \<longrightarrow> rbb_blk r' b = rbb_blk r b)"
proof -
  obtain as bs where xs: "xs = as @ a # bs" using a by (meson split_list)
  have l: "lists_ok r (as @ a # bs) ys" using ok xs by (simp add: rbb_ok_def)
  then have d: "a \<notin> set as" "a \<notin> set bs" by (auto simp: lists_ok_def)
  then have fil: "filter (\<lambda>x. x \<noteq> a) xs = as @ bs" by (auto simp: xs)
  obtain r1 where r1: "list_remove a r = Some r1" "lists_ok r1 (as @ bs) ys" "rbb_blk r1 = rbb_blk r" "rbb_buf r1 = rbb_buf r"
    "rbb_buf_size r1 = rbb_buf_size r" "blk_list r1 = blk_list r" "free_list r1 = free_list r"
    using list_remove_ok [OF l] by blast
  define r2 where "r2 = set_status a RT_RBB_BLK_UNUSED r1"
  define r3 where "r3 = r2\<lparr>rbb_link := rt_slist_insert (rbb_link r2) (free_list r2) a\<rparr>"
  have "lists_ok r2 (as @ bs) ys" using r1(2) by (simp add: r2_def set_status_def)
  moreover have "a \<notin> set (blk_list r2 # (as @ bs) @ free_list r2 # ys)" "a \<noteq> 0"
    using l slist_nonzero r1(6,7) by (fastforce simp: lists_ok_def r2_def set_status_def)+
  ultimately have lo: "lists_ok r3 (as @ bs) (a # ys)" unfolding r3_def by (rule free_insert_ok)
  have blk: "rbb_blk r3 b = (if b = a then (rbb_blk r a)\<lparr>blk_status := RT_RBB_BLK_UNUSED\<rparr> else rbb_blk r b)" for b
    by (simp add: r3_def r2_def set_status_def r1(3))
  have "rng r3 = rng r" by (auto simp: rng_def blk fun_eq_iff)
  moreover have "layout (rbb_buf r) (rbb_end r) (map (rng r) (as @ bs))"
    using layout_filter [of _ _ "rng r" xs "\<lambda>x. x \<noteq> a"] ok fil by (simp add: rbb_ok_def)
  ultimately have "rbb_ok r3 (as @ bs) (a # ys)"
    using lo ok d xs r1(4,5) unfolding rbb_ok_def
    by (auto simp: blk) (simp_all add: r3_def r2_def set_status_def rbb_end_def r1(4,5))
  then show ?thesis using r1(1) blk fil by (auto simp: rt_rbb_blk_free_def r2_def r3_def Let_def)
qed

lemma get_loop_chain:
  assumes "schain (rbb_link r) p xs"
  shows "get_loop (rbb_link r p) r =
    Some (case find (\<lambda>a. blk_status (rbb_blk r a) = RT_RBB_BLK_PUT) xs of
            None \<Rightarrow> (0, r) | Some a \<Rightarrow> (a, set_status a RT_RBB_BLK_GET r))"
  using assms
proof (induction xs arbitrary: p)
  case Nil
  then show ?case by (subst get_loop.simps) simp
next
  case (Cons x xs)
  then show ?case by (subst get_loop.simps) (auto simp: rt_slist_next_def)
qed

lemma get_eq:
  assumes "lists_ok r xs ys"
  shows "rt_rbb_blk_get r =
    Some (case find (\<lambda>a. blk_status (rbb_blk r a) = RT_RBB_BLK_PUT) xs of
            None \<Rightarrow> (0, r) | Some a \<Rightarrow> (a, set_status a RT_RBB_BLK_GET r))"
proof (cases "xs = []")
  case True
  then show ?thesis using blk_first(2) [OF assms] by (simp add: rt_rbb_blk_get_def)
next
  case False
  then show ?thesis
    using get_loop_chain [of r "blk_list r" xs] assms blk_first(2) [OF assms]
    by (simp add: rt_rbb_blk_get_def rt_slist_first_def lists_ok_def slist_def)
qed

section \<open>Queues of blocks\<close>

definition mark_get :: "addr list \<Rightarrow> rt_rbb \<Rightarrow> rt_rbb" where
  "mark_get ts r = fold (\<lambda>a. set_status a RT_RBB_BLK_GET) ts r"

lemma mark_get_simps [simp]:
  "mark_get [] r = r" "mark_get (a # ts) r = mark_get ts (set_status a RT_RBB_BLK_GET r)"
  by (simp_all add: mark_get_def)

lemma mark_get_frame:
  "lists_ok (mark_get ts r) xs ys = lists_ok r xs ys" "rng (mark_get ts r) = rng r" "rbb_buf (mark_get ts r) = rbb_buf r"
  "rbb_end (mark_get ts r) = rbb_end r"
  "blk_status (rbb_blk (mark_get ts r) b) = (if b \<in> set ts then RT_RBB_BLK_GET else blk_status (rbb_blk r b))"
  by (induction ts arbitrary: r) auto

lemma rbb_ok_mark_get: "rbb_ok r xs ys \<Longrightarrow> set ts \<inter> set ys = {} \<Longrightarrow> rbb_ok (mark_get ts r) xs ys"
  by (auto simp: rbb_ok_def mark_get_frame)

text \<open>The blocks a queue takes are neighbours on the list.\<close>

lemma queue_get_loop_more:
  assumes "schain (rbb_link r) p zs" and "distinct zs" and "lst \<noteq> 0"
  shows "\<exists>ts us. zs = ts @ us \<and> (\<forall>a \<in> set ts. blk_status (rbb_blk r a) = RT_RBB_BLK_PUT) \<and>
    queue_get_loop (rbb_link r p) lst tot len q r =
      Some (foldl (\<lambda>t a. u32_add t (blk_size (rbb_blk r a))) tot ts, q\<lparr>q_blk_num := q_blk_num q + length ts\<rparr>, mark_get ts r)"
  using assms
proof (induction zs arbitrary: p lst tot q r)
  case Nil
  then show ?case by (subst queue_get_loop.simps) simp
next
  case (Cons z zs)
  have z: "rbb_link r p = z" "z \<noteq> 0" "schain (rbb_link r) z zs" using Cons.prems(1) by auto
  show ?case
  proof (cases "blk_status (rbb_blk r z) \<noteq> RT_RBB_BLK_PUT \<or> blk_buf (rbb_blk r lst) > blk_buf (rbb_blk r z) \<or>
      u32_add tot (blk_size (rbb_blk r z)) > len")
    case True
    then show ?thesis using z Cons.prems(3)
      by (intro exI [of _ "[]"] exI [of _ "z # zs"]) (subst queue_get_loop.simps, simp add: Let_def)
  next
    case False
    let ?r = "set_status z RT_RBB_BLK_GET r" and ?q = "q\<lparr>q_blk_num := q_blk_num q + 1\<rparr>"
    obtain ts us where t: "zs = ts @ us" "\<forall>a \<in> set ts. blk_status (rbb_blk ?r a) = RT_RBB_BLK_PUT"
      "queue_get_loop (rbb_link ?r z) z (u32_add tot (blk_size (rbb_blk r z))) len ?q ?r =
        Some (foldl (\<lambda>t a. u32_add t (blk_size (rbb_blk ?r a))) (u32_add tot (blk_size (rbb_blk r z))) ts,
          ?q\<lparr>q_blk_num := q_blk_num ?q + length ts\<rparr>, mark_get ts ?r)"
      using Cons.IH [of ?r z z "u32_add tot (blk_size (rbb_blk r z))" ?q] z Cons.prems(2) by auto
    have "queue_get_loop (rbb_link r p) lst tot len q r =
        queue_get_loop (rbb_link ?r z) z (u32_add tot (blk_size (rbb_blk r z))) len ?q ?r"
      using z Cons.prems(3) False by (subst queue_get_loop.simps) (auto simp: Let_def rt_slist_next_def)
    moreover have "\<forall>a \<in> set (z # ts). blk_status (rbb_blk r a) = RT_RBB_BLK_PUT"
      using t(2) False by (auto split: if_splits)
    ultimately show ?thesis using t(1,3) by (intro exI [of _ "z # ts"] exI [of _ us]) simp
  qed
qed

lemma queue_get_loop_first:
  assumes "schain (rbb_link r) p zs" and "distinct zs"
  shows "\<exists>as ts us. zs = as @ ts @ us \<and> (\<forall>a \<in> set as. blk_status (rbb_blk r a) \<noteq> RT_RBB_BLK_PUT) \<and>
    (\<forall>a \<in> set ts. blk_status (rbb_blk r a) = RT_RBB_BLK_PUT) \<and> (ts = [] \<longrightarrow> us = []) \<and>
    queue_get_loop (rbb_link r p) 0 0 len q r =
      Some (foldl (\<lambda>t a. u32_add t (blk_size (rbb_blk r a))) 0 ts,
        (if ts = [] then q else \<lparr>q_blocks = hd ts, q_blk_num = length ts\<rparr>), mark_get ts r)"
  using assms
proof (induction zs arbitrary: p)
  case Nil
  then show ?case by (subst queue_get_loop.simps) simp
next
  case (Cons z zs)
  have z: "rbb_link r p = z" "z \<noteq> 0" "schain (rbb_link r) z zs" "distinct zs" "z \<notin> set zs" using Cons.prems by auto
  show ?case
  proof (cases "blk_status (rbb_blk r z) = RT_RBB_BLK_PUT")
    case False
    then have "queue_get_loop (rbb_link r p) 0 0 len q r = queue_get_loop (rbb_link r z) 0 0 len q r"
      using z by (subst queue_get_loop.simps) (simp add: Let_def rt_slist_next_def)
    moreover obtain as ts us where "zs = as @ ts @ us" "\<forall>a \<in> set as. blk_status (rbb_blk r a) \<noteq> RT_RBB_BLK_PUT"
      "\<forall>a \<in> set ts. blk_status (rbb_blk r a) = RT_RBB_BLK_PUT" "ts = [] \<longrightarrow> us = []"
      "queue_get_loop (rbb_link r z) 0 0 len q r =
        Some (foldl (\<lambda>t a. u32_add t (blk_size (rbb_blk r a))) 0 ts,
          (if ts = [] then q else \<lparr>q_blocks = hd ts, q_blk_num = length ts\<rparr>), mark_get ts r)"
      using Cons.IH [OF z(3,4)] by blast
    ultimately show ?thesis using False by (intro exI [of _ "z # as"] exI [of _ ts] exI [of _ us]) simp
  next
    case True
    let ?r = "set_status z RT_RBB_BLK_GET r" and ?q = "\<lparr>q_blocks = z, q_blk_num = 1\<rparr>"
    let ?t0 = "u32_add 0 (blk_size (rbb_blk r z))"
    obtain ts us where t: "zs = ts @ us" "\<forall>a \<in> set ts. blk_status (rbb_blk ?r a) = RT_RBB_BLK_PUT"
      "queue_get_loop (rbb_link ?r z) z ?t0 len ?q ?r =
        Some (foldl (\<lambda>t a. u32_add t (blk_size (rbb_blk ?r a))) ?t0 ts, ?q\<lparr>q_blk_num := q_blk_num ?q + length ts\<rparr>, mark_get ts ?r)"
      using queue_get_loop_more [of ?r z zs z ?t0 len ?q] z by auto
    have "queue_get_loop (rbb_link r p) 0 0 len q r = queue_get_loop (rbb_link ?r z) z ?t0 len ?q ?r"
      using z True by (subst queue_get_loop.simps) (simp add: Let_def rt_slist_next_def)
    moreover have "\<forall>a \<in> set (z # ts). blk_status (rbb_blk r a) = RT_RBB_BLK_PUT" using t(2) True by (auto split: if_splits)
    ultimately show ?thesis using t(1,3) by (intro exI [of _ "[]"] exI [of _ "z # ts"] exI [of _ us]) simp
  qed
qed

lemma queue_get_marks:
  assumes "rbb_ok r xs ys"
  shows "\<exists>as ts us. xs = as @ ts @ us \<and> (\<forall>a \<in> set ts. blk_status (rbb_blk r a) = RT_RBB_BLK_PUT) \<and>
    (\<forall>a \<in> set as. blk_status (rbb_blk r a) \<noteq> RT_RBB_BLK_PUT) \<and> (ts = [] \<longrightarrow> us = []) \<and>
    rt_rbb_blk_queue_get len q r = Some (foldl (\<lambda>t a. u32_add t (blk_size (rbb_blk r a))) 0 ts,
        (if ts = [] then q else \<lparr>q_blocks = hd ts, q_blk_num = length ts\<rparr>), mark_get ts r)"
proof (cases "xs = []")
  case True
  then show ?thesis using assms blk_first(2) [of r xs ys] by (simp add: rt_rbb_blk_queue_get_def rbb_ok_def)
next
  case False
  have "schain (rbb_link r) (blk_list r) xs" "distinct xs" using assms by (auto simp: rbb_ok_def lists_ok_def slist_def)
  moreover have "rt_rbb_blk_queue_get len q r = queue_get_loop (rbb_link r (blk_list r)) 0 0 len q r"
    using False blk_first(2) [of r xs ys] assms by (simp add: rbb_ok_def rt_rbb_blk_queue_get_def rt_slist_first_def)
  ultimately show ?thesis using queue_get_loop_first [of r "blk_list r" xs len q] by metis
qed

text \<open>Its length and its release.\<close>

lemma queue_len_chain:
  assumes "schain (rbb_link r) p (ts @ us)" and "\<forall>a \<in> set ts. blk_size (rbb_blk r a) = blk_size (rbb_blk r0 a)"
  shows "queue_len_loop (length ts) (rbb_link r p) tot r = foldl (\<lambda>t a. u32_add t (blk_size (rbb_blk r0 a))) tot ts"
  using assms by (induction ts arbitrary: p tot) auto

lemma schain_at: "schain h l (as @ bs) \<Longrightarrow> schain h (last (l # as)) bs"
  by (induction as arbitrary: l) auto

lemma queue_free_chain:
  assumes "rbb_ok r (as @ ts @ us) ys" and "\<forall>a \<in> set ts. blk_status (rbb_blk r a) = RT_RBB_BLK_GET"
  shows "\<exists>r'. queue_free_loop (length ts) (rbb_link r (last (blk_list r # as))) r = Some r' \<and> rbb_ok r' (as @ us) (rev ts @ ys)"
  using assms
proof (induction ts arbitrary: r ys)
  case (Cons t ts)
  have l: "lists_ok r (as @ t # ts @ us) ys" using Cons.prems(1) by (simp add: rbb_ok_def)
  then have c: "schain (rbb_link r) (blk_list r) (as @ t # ts @ us)" and d: "distinct (as @ t # ts @ us)"
    by (auto simp: lists_ok_def slist_def)
  have "filter (\<lambda>x. x \<noteq> t) (as @ t # ts @ us) = as @ ts @ us" using d by (auto intro!: filter_True)
  then obtain r' where r': "rt_rbb_blk_free t r = Some r'" "rbb_ok r' (as @ ts @ us) (t # ys)"
    "\<forall>b. b \<noteq> t \<longrightarrow> rbb_blk r' b = rbb_blk r b"
    using free_ok [OF Cons.prems(1), of t] by auto
  have "\<forall>a \<in> set ts. blk_status (rbb_blk r' a) = RT_RBB_BLK_GET" using r'(3) Cons.prems(2) d by auto
  from Cons.IH [OF r'(2) this] obtain r'' where r'':
    "queue_free_loop (length ts) (rbb_link r' (last (blk_list r' # as))) r' = Some r''" "rbb_ok r'' (as @ us) (rev ts @ t # ys)"
    by blast
  have p: "rbb_link r (last (blk_list r # as)) = t" using schain_at [OF c] by simp
  have "schain (rbb_link r) t (ts @ us)" using schain_at [OF c] by simp
  then have n: "ts \<noteq> [] \<Longrightarrow> rbb_link r t = hd ts" by (cases ts) auto
  have "schain (rbb_link r') (blk_list r') (as @ ts @ us)" using r'(2) by (simp add: rbb_ok_def lists_ok_def slist_def)
  from schain_at [OF this] have n': "ts \<noteq> [] \<Longrightarrow> rbb_link r' (last (blk_list r' # as)) = hd ts" by (cases ts) auto
  show ?case using r'(1) r'' p n n' by (cases ts) (simp_all add: Let_def)
qed simp

section \<open>Any sequence of calls\<close>

text \<open>The calls that respect the contract of the assertions in the code (they are compiled out): sizes below \<open>2\<^sup>2\<^sup>4\<close>, \<^verbatim>\<open>put\<close> on a block
  that is being filled, \<^verbatim>\<open>free\<close> on a block in use, both descriptors of this buffer; and sizes that are not 0.\<close>

inductive rbb_step :: "addr set \<Rightarrow> rt_rbb \<Rightarrow> rt_rbb \<Rightarrow> bool" for N where
  alloc: "0 < n \<Longrightarrow> n < 2 ^ 24 \<Longrightarrow> rt_rbb_blk_alloc n r = Some (a, r') \<Longrightarrow> rbb_step N r r'"
| put: "a \<in> N \<Longrightarrow> blk_status (rbb_blk r a) = RT_RBB_BLK_INITED \<Longrightarrow> rbb_step N r (rt_rbb_blk_put a r)"
| get: "rt_rbb_blk_get r = Some (a, r') \<Longrightarrow> rbb_step N r r'"
| queue_get: "rt_rbb_blk_queue_get len q r = Some (t, q', r') \<Longrightarrow> rbb_step N r r'"
| free: "a \<in> N \<Longrightarrow> blk_status (rbb_blk r a) \<noteq> RT_RBB_BLK_UNUSED \<Longrightarrow> rt_rbb_blk_free a r = Some r' \<Longrightarrow> rbb_step N r r'"

inductive_cases rbb_stepE: "rbb_step N r r'"

definition rbb_inv :: "addr set \<Rightarrow> rt_rbb \<Rightarrow> bool" where
  "rbb_inv N r \<longleftrightarrow> (\<exists>xs ys. rbb_ok r xs ys \<and> set xs \<union> set ys = N)"

lemma rbb_step_inv:
  assumes "rbb_inv N r" and "rbb_step N r r'"
  shows "rbb_inv N r'"
proof -
  obtain xs ys where ok: "rbb_ok r xs ys" and N: "set xs \<union> set ys = N" using assms(1) by (auto simp: rbb_inv_def)
  have used: "a \<in> set xs \<and> a \<notin> set ys" if "a \<in> N" "blk_status (rbb_blk r a) \<noteq> RT_RBB_BLK_UNUSED" for a
    using that N ok by (auto simp: rbb_ok_def)
  from assms(2) show ?thesis
  proof cases
    case (alloc n a)
    then consider "rbb_ok r' xs ys" | "ys \<noteq> []" "rbb_ok r' (xs @ [hd ys]) (tl ys)"
      using alloc_ok [OF ok alloc(1,2)] by (auto split: if_splits)
    then show ?thesis
    proof cases
      case 2
      then have "set (xs @ [hd ys]) \<union> set (tl ys) = N" using N by (cases ys) auto
      with 2 show ?thesis unfolding rbb_inv_def by blast
    qed (use N in \<open>auto simp: rbb_inv_def\<close>)
  next
    case (put a)
    then have "a \<notin> set ys" using used [of a] by simp
    then have "rbb_ok r' xs ys" using rbb_ok_status [OF ok, of a RT_RBB_BLK_PUT] put(1) by (simp add: rt_rbb_blk_put_def)
    then show ?thesis using N unfolding rbb_inv_def by blast
  next
    case (get a)
    then show ?thesis
    proof (cases "find (\<lambda>a. blk_status (rbb_blk r a) = RT_RBB_BLK_PUT) xs")
      case None
      then show ?thesis using get get_eq [of r xs ys] ok assms(1) by (simp add: rbb_ok_def)
    next
      case (Some b)
      then have "blk_status (rbb_blk r b) = RT_RBB_BLK_PUT" "b \<in> set xs" by (auto simp: find_Some_iff)
      moreover have "r' = set_status b RT_RBB_BLK_GET r" using get get_eq [of r xs ys] ok Some by (simp add: rbb_ok_def)
      ultimately have "rbb_ok r' xs ys" using rbb_ok_status [OF ok, of b RT_RBB_BLK_GET] used [of b] N by auto
      then show ?thesis using N unfolding rbb_inv_def by blast
    qed
  next
    case (queue_get len q t q')
    then obtain as ts us where ts: "xs = as @ ts @ us" "\<forall>a \<in> set ts. blk_status (rbb_blk r a) = RT_RBB_BLK_PUT" "r' = mark_get ts r"
      using queue_get_marks [OF ok, of len q] by (auto simp del: mark_get_simps)
    have "set ts \<inter> set ys = {}" using used ts(1,2) N by fastforce
    then have "rbb_ok r' xs ys" using rbb_ok_mark_get [OF ok] ts(3) by simp
    then show ?thesis using N unfolding rbb_inv_def by blast
  next
    case (free a)
    then have "rbb_ok r' (filter (\<lambda>x. x \<noteq> a) xs) (a # ys)" "a \<in> set xs" using free_ok [OF ok, of a] used [of a] by auto
    moreover have "set (filter (\<lambda>x. x \<noteq> a) xs) \<union> set (a # ys) = N" using N \<open>a \<in> set xs\<close> by auto
    ultimately show ?thesis unfolding rbb_inv_def by blast
  qed
qed

lemma rbb_run_inv: "(rbb_step N)\<^sup>*\<^sup>* r r' \<Longrightarrow> rbb_inv N r \<Longrightarrow> rbb_inv N r'"
  by (induction rule: rtranclp_induct) (auto intro: rbb_step_inv)

text \<open>Initialisation: all descriptors are free, the last of the set first.\<close>

lemma rbb_init_loop_ok:
  assumes "lists_ok r xs ys" and "distinct as" and "\<forall>a \<in> set as. a \<notin> set (blk_list r # xs @ free_list r # ys) \<and> a \<noteq> 0"
    and "\<forall>a \<in> set ys. blk_status (rbb_blk r a) = RT_RBB_BLK_UNUSED"
  shows "lists_ok (rbb_init_loop as r) xs (rev as @ ys) \<and> rbb_buf (rbb_init_loop as r) = rbb_buf r \<and>
    rbb_buf_size (rbb_init_loop as r) = rbb_buf_size r \<and>
    (\<forall>a \<in> set (rev as @ ys). blk_status (rbb_blk (rbb_init_loop as r) a) = RT_RBB_BLK_UNUSED)"
  using assms
proof (induction as arbitrary: r ys)
  case (Cons a as)
  let ?r1 = "set_status a RT_RBB_BLK_UNUSED r"
  let ?r2 = "?r1\<lparr>rbb_link := rt_slist_init (rbb_link ?r1) a\<rparr>"
  let ?r3 = "?r2\<lparr>rbb_link := rt_slist_insert (rbb_link ?r2) (free_list ?r2) a\<rparr>"
  have a: "a \<notin> set (blk_list r # xs @ free_list r # ys)" "a \<noteq> 0" using Cons.prems by auto
  have "lists_ok ?r2 xs ys" using Cons.prems(1) a(1)
    unfolding lists_ok_def rt_slist_init_def by (simp add: slist_upd set_status_def)
  then have l3: "lists_ok ?r3 xs (a # ys)" by (rule free_insert_ok) (use a in \<open>simp_all add: set_status_def\<close>)
  have heads: "blk_list ?r3 = blk_list r" "free_list ?r3 = free_list r" "rbb_buf ?r3 = rbb_buf r" "rbb_buf_size ?r3 = rbb_buf_size r"
    by (simp_all add: set_status_def)
  have f3: "\<forall>b \<in> set as. b \<notin> set (blk_list ?r3 # xs @ free_list ?r3 # (a # ys)) \<and> b \<noteq> 0"
    unfolding heads using Cons.prems(2,3) by auto
  have s3: "\<forall>b \<in> set (a # ys). blk_status (rbb_blk ?r3 b) = RT_RBB_BLK_UNUSED" using Cons.prems(4) by simp
  have d: "distinct as" using Cons.prems(2) by simp
  from Cons.IH [OF l3 d f3 s3] show ?case unfolding heads by (simp add: Let_def)
qed simp

lemma rt_rbb_init_inv:
  assumes "blk_list r \<noteq> free_list r" and "distinct bs" and "\<forall>a \<in> set bs. a \<notin> {0, blk_list r, free_list r}"
    and "buf + n < 2 ^ 32"
  shows "rbb_inv (set bs) (rt_rbb_init buf n bs r)"
proof -
  let ?r1 = "r\<lparr>rbb_buf := buf, rbb_buf_size := n, rbb_tail := blk_list r\<rparr>"
  let ?r2 = "?r1\<lparr>rbb_link := rt_slist_init (rt_slist_init (rbb_link ?r1) (blk_list ?r1)) (free_list ?r1)\<rparr>"
  have "lists_ok ?r2 [] []" using assms(1) by (simp add: lists_ok_def slist_def rt_slist_init_def)
  from rbb_init_loop_ok [OF this assms(2)] assms(3)
  have i: "lists_ok (rt_rbb_init buf n bs r) [] (rev bs)" "rbb_buf (rt_rbb_init buf n bs r) = buf"
    "rbb_buf_size (rt_rbb_init buf n bs r) = n"
    "\<forall>a \<in> set (rev bs). blk_status (rbb_blk (rt_rbb_init buf n bs r) a) = RT_RBB_BLK_UNUSED"
    by (auto simp: rt_rbb_init_def Let_def)
  then have "rbb_ok (rt_rbb_init buf n bs r) [] (rev bs)"
    using assms(4) by (simp add: rbb_ok_def layout_def rbb_end_def)
  then show ?thesis unfolding rbb_inv_def by (intro exI [of _ "[]"] exI [of _ "rev bs"]) simp
qed


text \<open>States for examples: a ring block buffer before its initialisation, after it, and after an allocation.\<close>

definition rbb_blank :: rt_rbb where
  "rbb_blank = \<lparr>rbb_buf = 0, rbb_buf_size = 0, blk_list = 1, rbb_tail = 0, free_list = 2, rbb_link = \<lambda>_. 0,
     rbb_blk = \<lambda>_. \<lparr>blk_status = RT_RBB_BLK_UNUSED, blk_size = 0, blk_buf = 0\<rparr>\<rparr>"

definition rbb_start :: "addr \<Rightarrow> nat \<Rightarrow> addr list \<Rightarrow> rt_rbb" where
  "rbb_start buf n bs = rt_rbb_init buf n bs rbb_blank"

definition alloc_state :: "nat \<Rightarrow> rt_rbb \<Rightarrow> rt_rbb" where
  "alloc_state n r = snd (the (rt_rbb_blk_alloc n r))"

lemma slist_find_exec:
  "h node = 0 \<or> h node = n \<Longrightarrow> slist_find_loop h n node = Some node"
  "h node \<noteq> 0 \<Longrightarrow> h node \<noteq> n \<Longrightarrow> slist_find_loop h n node = slist_find_loop h n (h node)"
  using slist_find_loop.simps [of h n node] by auto

lemma queue_get_exec:
  "queue_get_loop 0 lst tot len q r = Some (tot, q, r)"
  "node \<noteq> 0 \<Longrightarrow> blk_status (rbb_blk r node) = RT_RBB_BLK_PUT \<Longrightarrow> queue_get_loop node 0 tot len q r =
     queue_get_loop (rbb_link r node) node (u32_add tot (blk_size (rbb_blk r node))) len \<lparr>q_blocks = node, q_blk_num = 1\<rparr>
       (set_status node RT_RBB_BLK_GET r)"
  "node \<noteq> 0 \<Longrightarrow> lst \<noteq> 0 \<Longrightarrow> blk_status (rbb_blk r node) = RT_RBB_BLK_PUT \<Longrightarrow> blk_buf (rbb_blk r lst) \<le> blk_buf (rbb_blk r node) \<Longrightarrow>
   u32_add tot (blk_size (rbb_blk r node)) \<le> len \<Longrightarrow> queue_get_loop node lst tot len q r =
     queue_get_loop (rbb_link r node) node (u32_add tot (blk_size (rbb_blk r node))) len (q\<lparr>q_blk_num := q_blk_num q + 1\<rparr>)
       (set_status node RT_RBB_BLK_GET r)"
  by (subst queue_get_loop.simps; simp add: Let_def rt_slist_next_def)+

lemmas rbb_exec = rbb_start_def rbb_blank_def alloc_state_def rt_rbb_init_def rt_rbb_blk_alloc_def rt_rbb_blk_put_def
  rt_rbb_blk_free_def rt_rbb_blk_queue_get_def rt_rbb_blk_queue_buf_def rt_rbb_blk_size_def rt_rbb_blk_buf_def rng_def
  find_empty_blk_in_set_def list_append_def list_remove_def rbb_take_def rbb_give_up_def set_status_def upd_blk_def
  rt_slist_init_def rt_slist_insert_def rt_slist_isempty_def rt_slist_first_def rt_slist_remove_def
  slist_find_exec queue_get_exec u32_add_def u32_sub_def Let_def

lemma alloc_state_step:
  assumes "0 < n" and "n < 2 ^ 24" and "\<not> Option.is_none (rt_rbb_blk_alloc n r)"
  shows "rbb_step N r (alloc_state n r)"
  using assms by (auto simp: alloc_state_def Option.is_none_def intro: rbb_step.alloc)

text \<open>C6: From \<^verbatim>\<open>rt_rbb_init\<close> on, and after any sequence of allocations of at least one byte, \<^verbatim>\<open>put\<close>, \<^verbatim>\<open>get\<close>, \<^verbatim>\<open>queue_get\<close> and \<^verbatim>\<open>free\<close>, in any
  order, no two blocks in use share a byte and none leaves the buffer.\<close>

theorem rbb_run_disjoint:
  assumes "blk_list r \<noteq> free_list r" and "distinct bs" and "\<forall>a \<in> set bs. a \<notin> {0, blk_list r, free_list r}"
    and "buf + n < 2 ^ 32" and "(rbb_step (set bs))\<^sup>*\<^sup>* (rt_rbb_init buf n bs r) r'"
    and "a \<in> set bs" and "blk_status (rbb_blk r' a) \<noteq> RT_RBB_BLK_UNUSED"
  shows "rbb_buf r' \<le> rt_rbb_blk_buf a r' \<and> rt_rbb_blk_buf a r' + rt_rbb_blk_size a r' \<le> rbb_buf r' + rt_rbb_get_buf_size r' \<and>
    (\<forall>b \<in> set bs. b \<noteq> a \<and> blk_status (rbb_blk r' b) \<noteq> RT_RBB_BLK_UNUSED \<longrightarrow>
       rt_rbb_blk_buf a r' + rt_rbb_blk_size a r' \<le> rt_rbb_blk_buf b r' \<or>
       rt_rbb_blk_buf b r' + rt_rbb_blk_size b r' \<le> rt_rbb_blk_buf a r')"
proof -
  obtain xs ys where ok: "rbb_ok r' xs ys" and N: "set xs \<union> set ys = set bs"
    using rbb_run_inv [OF assms(5) rt_rbb_init_inv [OF assms(1-4)]] by (auto simp: rbb_inv_def)
  then have lay: "layout (rbb_buf r') (rbb_end r') (map (rng r') xs)"
    and used: "\<And>c. c \<in> set bs \<Longrightarrow> blk_status (rbb_blk r' c) \<noteq> RT_RBB_BLK_UNUSED \<Longrightarrow> c \<in> set xs"
    by (auto simp: rbb_ok_def)
  note rng = rng_def rt_rbb_blk_buf_def rt_rbb_blk_size_def
  have a: "a \<in> set xs" using used assms(6,7) by simp
  have "rng r' a \<in> set (map (rng r') xs)" using a by simp
  then have "rbb_buf r' \<le> rt_rbb_blk_buf a r' \<and> rt_rbb_blk_buf a r' + rt_rbb_blk_size a r' \<le> rbb_buf r' + rt_rbb_get_buf_size r'"
    using layout_in [OF lay] by (simp add: rng rbb_end_def rt_rbb_get_buf_size_def)
  moreover have "apart (rng r' a) (rng r' b)" if "b \<in> set xs" "b \<noteq> a" for b
    by (rule layout_apart_all [OF lay a that(1)]) (use that in simp)
  ultimately show ?thesis using used by (auto simp: rng apart_def)
qed

theorem rbb_run_disjoint_witness:
  defines "r1 \<equiv> alloc_state 8 (rbb_start 100 16 [4, 5])"
  defines "r2 \<equiv> rt_rbb_blk_put 4 (alloc_state 6 r1)"
  shows "rt_rbb_blk_size 4 r2 = 6 \<and> rt_rbb_blk_size 5 r2 = 8 \<and>
   (rt_rbb_blk_buf 4 r2 + rt_rbb_blk_size 4 r2 \<le> rt_rbb_blk_buf 5 r2 \<or>
    rt_rbb_blk_buf 5 r2 + rt_rbb_blk_size 5 r2 \<le> rt_rbb_blk_buf 4 r2)"
proof -
  have "rbb_step (set [4, 5]) (rbb_start 100 16 [4, 5]) r1" unfolding r1_def
    by (rule alloc_state_step) (simp_all add: rbb_exec)
  moreover have "rbb_step (set [4, 5]) r1 (alloc_state 6 r1)" unfolding r1_def
    by (rule alloc_state_step) (simp_all add: rbb_exec)
  moreover have "rbb_step (set [4, 5]) (alloc_state 6 r1) r2" unfolding r2_def r1_def
    by (rule rbb_step.put) (simp_all add: rbb_exec)
  ultimately have "(rbb_step (set [4, 5]))\<^sup>*\<^sup>* (rbb_start 100 16 [4, 5]) r2"
    by (meson rtranclp.rtrancl_refl rtranclp.rtrancl_into_rtrancl)
  moreover have "blk_status (rbb_blk r2 4) \<noteq> RT_RBB_BLK_UNUSED" "blk_status (rbb_blk r2 5) \<noteq> RT_RBB_BLK_UNUSED"
    unfolding r2_def r1_def by (simp_all add: rbb_exec)
  moreover have "rt_rbb_blk_size 4 r2 = 6" "rt_rbb_blk_size 5 r2 = 8" unfolding r2_def r1_def by (simp_all add: rbb_exec)
  ultimately show ?thesis
    using rbb_run_disjoint [of rbb_blank "[4, 5]" 100 16 r2 4] by (simp add: rbb_start_def rbb_blank_def)
qed

text \<open>A queue taken with \<^verbatim>\<open>rt_rbb_blk_queue_get\<close> is the run of neighbouring blocks that starts at the oldest block that was put;
  \<^verbatim>\<open>rt_rbb_blk_queue_len\<close> of it is the size that was returned, and \<^verbatim>\<open>rt_rbb_blk_queue_free\<close> gives back these blocks and
  no other.\<close>

theorem rt_rbb_blk_queue_roundtrip:
  assumes "rbb_ok r xs ys" and "\<exists>a \<in> set xs. blk_status (rbb_blk r a) = RT_RBB_BLK_PUT"
  shows "\<exists>as ts us q' r' r''. xs = as @ ts @ us \<and> ts \<noteq> [] \<and> (\<forall>a \<in> set as. blk_status (rbb_blk r a) \<noteq> RT_RBB_BLK_PUT) \<and>
    rt_rbb_blk_queue_get len q r = Some (rt_rbb_blk_queue_len q' r', q', r') \<and>
    rt_rbb_blk_queue_buf q' r' = rt_rbb_blk_buf (hd ts) r \<and>
    rt_rbb_blk_queue_free q' r' = Some r'' \<and> rbb_ok r'' (as @ us) (rev ts @ ys)"
proof -
  obtain as ts us where t: "xs = as @ ts @ us" "\<forall>a \<in> set ts. blk_status (rbb_blk r a) = RT_RBB_BLK_PUT"
    "\<forall>a \<in> set as. blk_status (rbb_blk r a) \<noteq> RT_RBB_BLK_PUT" "ts = [] \<longrightarrow> us = []"
    "rt_rbb_blk_queue_get len q r = Some (foldl (\<lambda>t a. u32_add t (blk_size (rbb_blk r a))) 0 ts,
        (if ts = [] then q else \<lparr>q_blocks = hd ts, q_blk_num = length ts\<rparr>), mark_get ts r)"
    using queue_get_marks [OF assms(1)] by blast
  have ne: "ts \<noteq> []" using t(1,3,4) assms(2) by auto
  let ?r = "mark_get ts r" and ?q = "\<lparr>q_blocks = hd ts, q_blk_num = length ts\<rparr>"
  have "set ts \<inter> set ys = {}" using assms(1) t(1) by (auto simp: rbb_ok_def lists_ok_def)
  then have ok: "rbb_ok ?r (as @ ts @ us) ys" using rbb_ok_mark_get [OF assms(1)] t(1) by simp
  have "schain (rbb_link ?r) (last (blk_list ?r # as)) (ts @ us)"
    using ok by (intro schain_at) (simp add: rbb_ok_def lists_ok_def slist_def)
  moreover from this have hd: "rbb_link ?r (last (blk_list ?r # as)) = hd ts" using ne by (cases ts) auto
  ultimately have "rt_rbb_blk_queue_len ?q ?r = foldl (\<lambda>t a. u32_add t (blk_size (rbb_blk r a))) 0 ts"
    using queue_len_chain [of ?r "last (blk_list ?r # as)" ts us r 0] mark_get_frame(2) [of ts r]
    by (simp add: rt_rbb_blk_queue_len_def rng_def fun_eq_iff)
  moreover obtain r'' where "queue_free_loop (length ts) (hd ts) ?r = Some r''" "rbb_ok r'' (as @ us) (rev ts @ ys)"
    using queue_free_chain [OF ok] mark_get_frame(5) hd by auto
  moreover have "rt_rbb_blk_queue_buf ?q ?r = rt_rbb_blk_buf (hd ts) r"
    using mark_get_frame(2) [of ts r] by (simp add: rt_rbb_blk_queue_buf_def rt_rbb_blk_buf_def rng_def fun_eq_iff)
  ultimately show ?thesis using t ne
    by (intro exI [of _ as] exI [of _ ts] exI [of _ us] exI [of _ ?q] exI [of _ ?r] exI [of _ r'']) (simp add: rt_rbb_blk_queue_free_def)
qed

theorem rt_rbb_blk_queue_roundtrip_witness:
  "\<exists>q' r'. rt_rbb_blk_queue_get 10 \<lparr>q_blocks = 0, q_blk_num = 0\<rparr> (rt_rbb_blk_put 5 (alloc_state 8 (rbb_start 100 16 [4, 5]))) =
     Some (rt_rbb_blk_queue_len q' r', q', r') \<and> (\<exists>r''. rt_rbb_blk_queue_free q' r' = Some r'')"
proof -
  let ?r0 = "rbb_start 100 16 [4, 5]"
  have ok0: "rbb_ok ?r0 [] [5, 4]"
    by (simp add: rbb_start_def rbb_blank_def rt_rbb_init_def Let_def rt_slist_init_def rt_slist_insert_def set_status_def
        upd_blk_def rbb_ok_def lists_ok_def slist_def layout_def rbb_end_def)
  have fst: "map_option fst (rt_rbb_blk_alloc 8 ?r0) = Some 5" by (simp add: rbb_exec)
  then obtain r1 where r1: "rt_rbb_blk_alloc 8 ?r0 = Some (5, r1)" by auto
  then have ok1: "rbb_ok r1 [5] [4]" using alloc_ok [OF ok0, of 8] by auto
  have ok2: "rbb_ok (rt_rbb_blk_put 5 r1) [5] [4]" unfolding rt_rbb_blk_put_def by (rule rbb_ok_status [OF ok1]) simp_all
  have "alloc_state 8 ?r0 = r1" using r1 by (simp add: alloc_state_def)
  moreover have "\<exists>a \<in> set [5]. blk_status (rbb_blk (rt_rbb_blk_put 5 r1) a) = RT_RBB_BLK_PUT" by (simp add: rt_rbb_blk_put_def)
  ultimately show ?thesis using rt_rbb_blk_queue_roundtrip [OF ok2, of 10 "\<lparr>q_blocks = 0, q_blk_num = 0\<rparr>"] by blast
qed

section \<open>Where the guarantees end\<close>

text \<open>A block of size 0 makes a full buffer look like one that has not wrapped: the next block is laid over one in use.\<close>

text \<open>Two blocks of 8 in a buffer of 16, the first given back.\<close>

definition rbb_half :: rt_rbb where
  "rbb_half = rbb_blank\<lparr>rbb_buf := 100, rbb_buf_size := 16, rbb_tail := 6,
     rbb_link := (\<lambda>_. 0)(1 := 6, 2 := 7, 7 := 5, 5 := 4),
     rbb_blk := (rbb_blk rbb_blank)(6 := \<lparr>blk_status = RT_RBB_BLK_INITED, blk_size = 8, blk_buf = 108\<rparr>,
       7 := \<lparr>blk_status = RT_RBB_BLK_UNUSED, blk_size = 8, blk_buf = 100\<rparr>)\<rparr>"

lemma zero_size_overlap:
  defines "r \<equiv> alloc_state 8 (alloc_state 0 (alloc_state 8 rbb_half))"
  shows "rbb_ok rbb_half [6] [7, 5, 4] \<and> blk_status (rbb_blk r 6) = RT_RBB_BLK_INITED \<and> rng r 6 = (108, 8) \<and>
    blk_status (rbb_blk r 4) = RT_RBB_BLK_INITED \<and> rng r 4 = (108, 8)"
  by (simp add: r_def rbb_exec rbb_half_def rbb_ok_def lists_ok_def slist_def layout_def rbb_end_def)

text \<open>A queue may have a hole where a block was given back, and its first block may alone be longer than the length asked for.\<close>

lemma queue_get_hole:
  defines "r \<equiv> rt_rbb_blk_put 5 (rt_rbb_blk_put 7 (alloc_state 4 (alloc_state 4 (alloc_state 4 (rbb_start 100 16 [5, 6, 7])))))"
  shows "map_option (\<lambda>(t, q, r'). (t, rt_rbb_blk_queue_buf q r', q_blk_num q, rng r' 7, rng r' 5))
      (rt_rbb_blk_queue_get 16 \<lparr>q_blocks = 0, q_blk_num = 0\<rparr> (the (rt_rbb_blk_free 6 r))) =
    Some (8, 100, 2, (100, 4), (108, 4))"
  unfolding r_def by (simp add: rbb_exec)

lemma queue_get_too_long:
  "map_option (\<lambda>(t, q, r'). t)
      (rt_rbb_blk_queue_get 4 \<lparr>q_blocks = 0, q_blk_num = 0\<rparr> (rt_rbb_blk_put 5 (alloc_state 8 (rbb_start 100 16 [5])))) =
    Some 8"
  by (simp add: rbb_exec)

end
