(* ===== verification/Rt_Object.thy ===== *)
theory Rt_Object
  imports Kstring
begin

text \<open>
  The object registry: \<^verbatim>\<open>src/object.c\<close> (structures in \<^verbatim>\<open>rtdef.h\<close>).  Every kernel object starts with a name of 8 bytes, a type
  and a flag, and sits on the list of its class.

  An object is its address, and its name lies there in memory (the name is the first field), so the name is written by
  \<open>rt_strncpy\<close> and compared by \<open>rt_strncmp\<close> of \<open>Kstring\<close>.  The lists of the classes are sequences, new objects in front; that the
  pointer lists behave like this is shown in \<open>Rt_List\<close>.  The assertions on types are compiled out; an initialisation
  with a type that has no list would write through a null pointer and is \<open>None\<close>.

  Shown: over any sequence of initialisations, allocations, detachments and deletions, an object is on exactly the list its type
  says (\<open>obj_run_filed\<close>); a search returns the newest object of the class whose name agrees in the first 8 characters
  (\<open>rt_object_find_newest\<close>).  Names of 8 characters are cut to 7 by \<^verbatim>\<open>rt_object_allocate\<close> and then not found.
\<close>

section \<open>Data\<close>

definition RT_NAME_MAX :: nat where "RT_NAME_MAX = 8"

definition RT_Object_Class_Null :: u8 where "RT_Object_Class_Null = 0x00"
definition RT_Object_Class_Thread :: u8 where "RT_Object_Class_Thread = 0x01"
definition RT_Object_Class_Semaphore :: u8 where "RT_Object_Class_Semaphore = 0x02"
definition RT_Object_Class_Mutex :: u8 where "RT_Object_Class_Mutex = 0x03"
definition RT_Object_Class_Event :: u8 where "RT_Object_Class_Event = 0x04"
definition RT_Object_Class_MailBox :: u8 where "RT_Object_Class_MailBox = 0x05"
definition RT_Object_Class_MessageQueue :: u8 where "RT_Object_Class_MessageQueue = 0x06"
definition RT_Object_Class_MemHeap :: u8 where "RT_Object_Class_MemHeap = 0x07"
definition RT_Object_Class_MemPool :: u8 where "RT_Object_Class_MemPool = 0x08"
definition RT_Object_Class_Device :: u8 where "RT_Object_Class_Device = 0x09"
definition RT_Object_Class_Timer :: u8 where "RT_Object_Class_Timer = 0x0a"
definition RT_Object_Class_Memory :: u8 where "RT_Object_Class_Memory = 0x0c"
definition RT_Object_Class_Custom :: u8 where "RT_Object_Class_Custom = 0x10"
definition RT_Object_Class_Static :: u8 where "RT_Object_Class_Static = 0x80"

lemmas class_defs = RT_Object_Class_Null_def RT_Object_Class_Thread_def RT_Object_Class_Semaphore_def RT_Object_Class_Mutex_def
  RT_Object_Class_Event_def RT_Object_Class_MailBox_def RT_Object_Class_MessageQueue_def RT_Object_Class_MemHeap_def
  RT_Object_Class_MemPool_def RT_Object_Class_Device_def RT_Object_Class_Timer_def RT_Object_Class_Memory_def
  RT_Object_Class_Custom_def RT_Object_Class_Static_def

record rt_registry =
  reg_mem :: memory
  obj_type :: "addr \<Rightarrow> u8"
  obj_flag :: "addr \<Rightarrow> u8"
  object_list :: "nat \<Rightarrow> addr list"

text \<open>The types of \<^verbatim>\<open>_object_container\<close>, in the order of the array.\<close>

definition object_container :: "u8 list" where
  "object_container = [RT_Object_Class_Thread, RT_Object_Class_Semaphore, RT_Object_Class_Mutex, RT_Object_Class_Event,
     RT_Object_Class_MailBox, RT_Object_Class_MessageQueue, RT_Object_Class_MemHeap, RT_Object_Class_MemPool,
     RT_Object_Class_Device, RT_Object_Class_Timer, RT_Object_Class_Memory, RT_Object_Class_Custom]"

section \<open>Operations\<close>

fun information_loop :: "u8 \<Rightarrow> nat \<Rightarrow> u8 list \<Rightarrow> nat option" where
  "information_loop type index [] = None"
| "information_loop type index (t # ts) = (if t = type then Some index else information_loop type (index + 1) ts)"

definition rt_object_get_information :: "u8 \<Rightarrow> nat option" where
  "rt_object_get_information type = information_loop (type AND NOT RT_Object_Class_Static) 0 object_container"

definition rt_object_get_length :: "u8 \<Rightarrow> rt_registry \<Rightarrow> nat" where
  "rt_object_get_length type r =
     (case rt_object_get_information type of None \<Rightarrow> 0
      | Some i \<Rightarrow> fold (\<lambda>_ count. count + 1) (object_list r i) 0)"

fun pointers_loop :: "addr list \<Rightarrow> nat \<Rightarrow> int \<Rightarrow> addr list \<Rightarrow> addr list" where
  "pointers_loop [] index maxlen pointers = pointers"
| "pointers_loop (object # os) index maxlen pointers =
     (let pointers' = pointers @ [object]; index' = index + 1
      in if int index' \<ge> maxlen then pointers' else pointers_loop os index' maxlen pointers')"

definition rt_object_get_pointers :: "u8 \<Rightarrow> int \<Rightarrow> rt_registry \<Rightarrow> addr list" where
  "rt_object_get_pointers type maxlen r =
     (if maxlen \<le> 0 then []
      else case rt_object_get_information type of None \<Rightarrow> []
      | Some i \<Rightarrow> pointers_loop (object_list r i) 0 maxlen [])"

definition rt_object_init :: "addr \<Rightarrow> u8 \<Rightarrow> addr \<Rightarrow> rt_registry \<Rightarrow> rt_registry option" where
  "rt_object_init object type name r =
     map_option (\<lambda>information.
       let r1 = r\<lparr>obj_type := (obj_type r)(object := type OR RT_Object_Class_Static)\<rparr>;
           r2 = r1\<lparr>reg_mem := snd (rt_strncpy (reg_mem r1) object name RT_NAME_MAX)\<rparr>
       in r2\<lparr>object_list := (object_list r2)(information := object # object_list r2 information)\<rparr>)
     (rt_object_get_information type)"

text \<open>Taking an object off its list.  For an object that was never on a list \<^verbatim>\<open>rt_list_remove\<close> would follow the pointers that
  happen to be in it; the callers' assertions exclude that case, and in the model it changes no list.\<close>

definition list_drop :: "addr \<Rightarrow> rt_registry \<Rightarrow> rt_registry" where
  "list_drop object r = r\<lparr>object_list := \<lambda>i. filter (\<lambda>x. x \<noteq> object) (object_list r i)\<rparr>"

definition rt_object_detach :: "addr \<Rightarrow> rt_registry \<Rightarrow> rt_registry" where
  "rt_object_detach object r =
     (let r1 = list_drop object r
      in r1\<lparr>obj_type := (obj_type r1)(object := RT_Object_Class_Null)\<rparr>)"

text \<open>The result of \<^verbatim>\<open>RT_KERNEL_MALLOC\<close> is an argument, and so is the size of the class; the result is null or the object.\<close>

definition rt_object_allocate :: "addr \<Rightarrow> nat \<Rightarrow> u8 \<Rightarrow> addr \<Rightarrow> rt_registry \<Rightarrow> (addr \<times> rt_registry) option" where
  "rt_object_allocate object object_size type name r =
     map_option (\<lambda>information.
       if object = 0 then (0, r)
       else
         (let r1 = r\<lparr>reg_mem := snd (rt_memset (reg_mem r) object 0 object_size)\<rparr>;
              r2 = r1\<lparr>obj_type := (obj_type r1)(object := type), obj_flag := (obj_flag r1)(object := 0)\<rparr>;
              r3 = r2\<lparr>reg_mem := snd (rt_strncpy (reg_mem r2) object name (RT_NAME_MAX - 1))\<rparr>
          in (object, r3\<lparr>object_list := (object_list r3)(information := object # object_list r3 information)\<rparr>)))
     (rt_object_get_information type)"

text \<open>Up to the call that gives the memory back.\<close>

definition rt_object_delete :: "addr \<Rightarrow> rt_registry \<Rightarrow> rt_registry" where
  "rt_object_delete object r =
     (let r1 = list_drop object r
      in r1\<lparr>obj_type := (obj_type r1)(object := RT_Object_Class_Null)\<rparr>)"

definition rt_object_is_systemobject :: "addr \<Rightarrow> rt_registry \<Rightarrow> bool" where
  "rt_object_is_systemobject object r \<longleftrightarrow> obj_type r object AND RT_Object_Class_Static \<noteq> 0"

definition rt_object_get_type :: "addr \<Rightarrow> rt_registry \<Rightarrow> u8" where
  "rt_object_get_type object r = obj_type r object AND NOT RT_Object_Class_Static"

fun for_each_loop :: "(addr \<Rightarrow> 'd \<Rightarrow> rt_err_t \<times> 'd) \<Rightarrow> addr list \<Rightarrow> 'd \<Rightarrow> rt_err_t \<times> 'd" where
  "for_each_loop iter [] data = (RT_EOK, data)"
| "for_each_loop iter (object # os) data =
     (case iter object data of (error, data') \<Rightarrow>
        if error \<noteq> RT_EOK then (if error \<ge> 0 then RT_EOK else error, data')
        else for_each_loop iter os data')"

definition rt_object_for_each :: "u8 \<Rightarrow> (addr \<Rightarrow> 'd \<Rightarrow> rt_err_t \<times> 'd) \<Rightarrow> 'd \<Rightarrow> rt_registry \<Rightarrow> rt_err_t \<times> 'd" where
  "rt_object_for_each type iter data r =
     (case rt_object_get_information type of None \<Rightarrow> (- RT_EINVAL, data)
      | Some i \<Rightarrow> for_each_loop iter (object_list r i) data)"

definition match_name :: "rt_registry \<Rightarrow> addr \<Rightarrow> addr \<Rightarrow> addr \<Rightarrow> rt_err_t \<times> addr" where
  "match_name r name obj matched_obj =
     (if rt_strncmp (reg_mem r) obj name RT_NAME_MAX = 0 then (1, obj) else (RT_EOK, matched_obj))"

definition rt_object_find :: "addr \<Rightarrow> u8 \<Rightarrow> rt_registry \<Rightarrow> addr" where
  "rt_object_find name type r =
     (if name = 0 then 0 else snd (rt_object_for_each type (match_name r name) 0 r))"

definition rt_object_get_name :: "addr \<Rightarrow> addr \<Rightarrow> nat \<Rightarrow> rt_registry \<Rightarrow> rt_err_t \<times> rt_registry" where
  "rt_object_get_name object name name_size r =
     (if object \<noteq> 0 \<and> name \<noteq> 0 \<and> name_size \<noteq> 0
      then (RT_EOK, r\<lparr>reg_mem := snd (rt_strncpy (reg_mem r) name object name_size)\<rparr>)
      else (- RT_EINVAL, r))"

text \<open>Objects with a destructor: the function and its data are the value of a map.\<close>

definition rt_custom_object_create ::
    "addr \<Rightarrow> nat \<Rightarrow> addr \<Rightarrow> 'c \<Rightarrow> rt_registry \<times> (addr \<Rightarrow> 'c option) \<Rightarrow> (addr \<times> rt_registry \<times> (addr \<Rightarrow> 'c option)) option" where
  "rt_custom_object_create object object_size name dat s =
     map_option (\<lambda>(cobj, r). if cobj = 0 then (0, r, snd s) else (cobj, r, (snd s)(cobj \<mapsto> dat)))
       (rt_object_allocate object object_size RT_Object_Class_Custom name (fst s))"

definition rt_custom_object_destroy ::
    "('c \<Rightarrow> rt_err_t option) \<Rightarrow> addr \<Rightarrow> rt_registry \<times> (addr \<Rightarrow> 'c option) \<Rightarrow> rt_err_t \<times> rt_registry" where
  "rt_custom_object_destroy destroy obj s =
     (if obj \<noteq> 0 \<and> obj_type (fst s) obj = RT_Object_Class_Custom
      then (case Option.bind (snd s obj) destroy of None \<Rightarrow> -1 | Some ret \<Rightarrow> ret, rt_object_delete obj (fst s))
      else (-1, fst s))"

section \<open>Names\<close>

text \<open>The name a field of \<open>n\<close> bytes holds: up to the first null byte, or all of it.\<close>

definition cname :: "memory \<Rightarrow> addr \<Rightarrow> nat \<Rightarrow> u8 list" where
  "cname m p n = takeWhile (\<lambda>c. c \<noteq> 0) (bytes_at m p n)"

lemma bytes_at_Suc: "bytes_at m p (Suc n) = m p # bytes_at m (p + 1) n"
  by (rule nth_equalityI) (auto simp: bytes_at_def nth_Cons' simp del: upt_Suc)

lemma cname_simps [simp]:
  "cname m p 0 = []" "cname m p (Suc n) = (if m p = 0 then [] else m p # cname m (p + 1) n)"
  by (simp_all add: cname_def bytes_at_Suc) (simp add: bytes_at_def)

lemma cname_frame: "(\<And>a. p \<le> a \<Longrightarrow> a < p + n \<Longrightarrow> m' a = m a) \<Longrightarrow> cname m' p n = cname m p n"
  unfolding cname_def by (subst bytes_at_frame [of p n m' m]) auto

lemma cname_cstr: "cstr_at m p xs \<Longrightarrow> cname m p n = take n xs"
proof (induction n arbitrary: p xs)
  case (Suc n)
  then show ?case by (cases xs) auto
qed simp

text \<open>The two string routines in terms of these names.\<close>

lemma strncmp_loop_cname: "strncmp_loop m cs ct n 0 = 0 \<longleftrightarrow> cname m cs n = cname m ct n"
proof (induction n arbitrary: cs ct)
  case (Suc n)
  have "signed_char (uint (m cs) - uint (m ct)) = 0 \<longleftrightarrow> m cs = m ct" by (rule signed_char_diff_zero_iff)
  then show ?case using Suc.IH [of "cs + 1" "ct + 1"] by (auto simp: Let_def)
qed simp

lemma rt_strncmp_cname: "rt_strncmp m cs ct n = 0 \<longleftrightarrow> cname m cs n = cname m ct n"
  by (simp add: rt_strncmp_def strncmp_loop_cname)

lemma strncpy_loop_frame: "a < d \<or> d + n \<le> a \<Longrightarrow> strncpy_loop m d s n a = m a"
  by (induction n arbitrary: m d s) (auto simp: Let_def strncpy_pad_loop_eq block_fill_def)

lemma cname_upd: "a < p \<or> p + n \<le> a \<Longrightarrow> cname (m(a := v)) p n = cname m p n"
  by (rule cname_frame) auto

lemma strncpy_loop_cname:
  assumes "d + n \<le> s \<or> s + n \<le> d"
  shows "cname (strncpy_loop m d s n) d n = cname m s n"
  using assms
proof (induction n arbitrary: m d s)
  case (Suc n)
  let ?m = "m(d := m s)"
  have "cname (strncpy_loop ?m (d + 1) (s + 1) n) (d + 1) n = cname ?m (s + 1) n"
    by (rule Suc.IH) (use Suc.prems in auto)
  moreover have "cname ?m (s + 1) n = cname m (s + 1) n" by (rule cname_upd) (use Suc.prems in auto)
  moreover have "strncpy_loop ?m (d + 1) (s + 1) n d = m s" by (simp add: strncpy_loop_frame)
  ultimately show ?case by (auto simp: Let_def strncpy_pad_loop_eq block_fill_def)
qed simp

lemma takeWhile_stops:
  assumes "\<not> P (xs ! i)" and "i < length xs"
  shows "length (takeWhile P xs) \<le> i"
proof (rule ccontr)
  assume "\<not> ?thesis"
  then have i: "i < length (takeWhile P xs)" by simp
  from nth_mem [OF this] have "P (takeWhile P xs ! i)" by (rule conjunct2 [OF set_takeWhileD])
  then show False using assms(1) takeWhile_nth [OF i] by simp
qed

section \<open>The search\<close>

lemma information_loop_bounds: "information_loop t k ts = Some i \<Longrightarrow> k \<le> i \<and> i < k + length ts \<and> ts ! (i - k) = t"
proof (induction ts arbitrary: k)
  case (Cons u ts)
  then show ?case by (fastforce simp: nth_Cons' split: if_splits)
qed simp

lemma get_information_Null [simp]: "rt_object_get_information RT_Object_Class_Null = None"
  by (simp add: rt_object_get_information_def object_container_def class_defs)

lemma get_information_Static [simp]:
  "rt_object_get_information (type OR RT_Object_Class_Static) = rt_object_get_information type"
proof -
  have "(type OR RT_Object_Class_Static) AND NOT RT_Object_Class_Static = type AND NOT RT_Object_Class_Static"
    by (rule bit_eqI) (auto simp: bit_simps)
  then show ?thesis by (simp only: rt_object_get_information_def)
qed

definition name_of :: "rt_registry \<Rightarrow> addr \<Rightarrow> u8 list" where
  "name_of r p = cname (reg_mem r) p RT_NAME_MAX"

lemma for_each_match:
  "snd (for_each_loop (match_name r name) os d) =
    (case find (\<lambda>x. name_of r x = name_of r name) os of None \<Rightarrow> d | Some x \<Rightarrow> x)"
  by (induction os) (auto simp: match_name_def name_of_def rt_strncmp_cname rt_err_defs)

lemma rt_object_find_eq:
  assumes "name \<noteq> 0" and "rt_object_get_information type = Some i"
  shows "rt_object_find name type r =
    (case find (\<lambda>x. name_of r x = name_of r name) (object_list r i) of None \<Rightarrow> 0 | Some x \<Rightarrow> x)"
  using assms by (simp add: rt_object_find_def rt_object_for_each_def for_each_match)

lemma find_member: "find P xs = Some x \<Longrightarrow> x \<in> set xs \<and> P x"
  by (auto simp: find_Some_iff)

lemma rt_object_find_zero_iff:
  assumes "name \<noteq> 0" and "rt_object_get_information type = Some i" and "0 \<notin> set (object_list r i)"
  shows "rt_object_find name type r = 0 \<longleftrightarrow> (\<forall>x \<in> set (object_list r i). name_of r x \<noteq> name_of r name)"
  using assms by (auto simp: rt_object_find_eq find_None_iff split: option.splits dest!: find_member)

lemma pointers_loop_eq: "int k < maxlen \<Longrightarrow> pointers_loop os k maxlen ps = ps @ take (nat maxlen - k) os"
proof (induction os arbitrary: k ps)
  case (Cons x os)
  then have "nat maxlen - k = Suc (nat maxlen - Suc k)" by linarith
  then show ?case using Cons by (auto simp: Let_def)
qed simp

lemma rt_object_get_pointers_eq:
  "rt_object_get_information type = Some i \<Longrightarrow> rt_object_get_pointers type maxlen r = take (nat maxlen) (object_list r i)"
  by (simp add: rt_object_get_pointers_def pointers_loop_eq)

lemma fold_count: "fold (\<lambda>_. Suc) xs n = n + length xs"
  by (induction xs arbitrary: n) auto

lemma rt_object_get_length_eq:
  "rt_object_get_information type = Some i \<Longrightarrow> rt_object_get_length type r = length (object_list r i)"
  by (simp add: rt_object_get_length_def fold_count)

section \<open>Any sequence of operations\<close>

text \<open>The bytes of an attached object's name.  The operations of the relation respect what the assertions of the code demand (an
  object is not initialised twice, the type is one of the table) and the program does not write into names or lay an object over
  another.  The last rule is any write of the program elsewhere.\<close>

definition attached :: "rt_registry \<Rightarrow> addr \<Rightarrow> bool" where
  "attached r x \<longleftrightarrow> (\<exists>i. x \<in> set (object_list r i))"

definition clear_of :: "rt_registry \<Rightarrow> addr \<Rightarrow> nat \<Rightarrow> bool" where
  "clear_of r p n \<longleftrightarrow> (\<forall>x. attached r x \<longrightarrow> x + RT_NAME_MAX \<le> p \<or> p + n \<le> x)"

inductive obj_step :: "rt_registry \<Rightarrow> rt_registry \<Rightarrow> bool" where
  init: "x \<noteq> 0 \<Longrightarrow> obj_type r x = RT_Object_Class_Null \<Longrightarrow> clear_of r x RT_NAME_MAX \<Longrightarrow>
    rt_object_init x type name r = Some r' \<Longrightarrow> obj_step r r'"
| allocate: "obj_type r x = RT_Object_Class_Null \<Longrightarrow> clear_of r x n \<Longrightarrow> RT_NAME_MAX \<le> n \<Longrightarrow>
    rt_object_allocate x n type name r = Some (y, r') \<Longrightarrow> obj_step r r'"
| detach: "obj_step r (rt_object_detach x r)"
| delete: "obj_step r (rt_object_delete x r)"
| other: "(\<And>a x. attached r x \<Longrightarrow> x \<le> a \<Longrightarrow> a < x + RT_NAME_MAX \<Longrightarrow> m a = reg_mem r a) \<Longrightarrow> obj_step r (r\<lparr>reg_mem := m\<rparr>)"

inductive_cases obj_stepE: "obj_step r r'"

definition filed :: "rt_registry \<Rightarrow> bool" where
  "filed r \<longleftrightarrow> (\<forall>x i. x \<in> set (object_list r i) \<longleftrightarrow> rt_object_get_information (obj_type r x) = Some i) \<and>
     (\<forall>i. distinct (object_list r i)) \<and> \<not> attached r 0"

lemma filed_attach:
  assumes "filed r" and "x \<noteq> 0" and "obj_type r x = RT_Object_Class_Null" and "rt_object_get_information t = Some i"
    and "object_list r' = (object_list r)(i := x # object_list r i)" and "obj_type r' = (obj_type r)(x := t)"
  shows "filed r'"
proof -
  have "x \<notin> set (object_list r j)" for j using assms(1,3) by (auto simp: filed_def)
  then show ?thesis using assms by (auto simp: filed_def attached_def)
qed

lemma filed_drop:
  assumes "filed r" and "object_list r' = object_list (list_drop x r)" and "obj_type r' = (obj_type r)(x := RT_Object_Class_Null)"
  shows "filed r'"
  using assms by (auto simp: filed_def attached_def list_drop_def)

lemma obj_step_filed: "obj_step r r' \<Longrightarrow> filed r \<Longrightarrow> filed r'"
proof (induction rule: obj_step.induct)
  case (init x r type name r')
  then obtain i where "rt_object_get_information type = Some i" by (auto simp: rt_object_init_def)
  then show ?case using init by (intro filed_attach [of r x "type OR RT_Object_Class_Static" i r']) (auto simp: rt_object_init_def Let_def)
next
  case (allocate r x n type name y r')
  then obtain i where i: "rt_object_get_information type = Some i" by (auto simp: rt_object_allocate_def)
  show ?case
  proof (cases "x = 0")
    case True
    then show ?thesis using allocate i by (simp add: rt_object_allocate_def)
  next
    case False
    then show ?thesis using allocate i by (intro filed_attach [of r x type i r']) (auto simp: rt_object_allocate_def Let_def)
  qed
next
  case (detach r x)
  then show ?case by (rule filed_drop) (auto simp: rt_object_detach_def Let_def list_drop_def)
next
  case (delete r x)
  then show ?case by (rule filed_drop) (auto simp: rt_object_delete_def Let_def list_drop_def)
qed (auto simp: filed_def attached_def)

text \<open>An object keeps its name for as long as it is attached.\<close>

lemma strncpy_frame: "a < d \<or> d + n \<le> a \<Longrightarrow> snd (rt_strncpy m d s n) a = m a"
  by (simp add: rt_strncpy_def strncpy_loop_frame)

lemma obj_step_names: "obj_step r r' \<Longrightarrow> attached r x \<Longrightarrow> name_of r' x = name_of r x"
proof (induction rule: obj_step.induct)
  case (init y r type name r')
  then have "x + 8 \<le> y \<or> y + 8 \<le> x" by (auto simp: clear_of_def RT_NAME_MAX_def)
  then show ?case using init unfolding name_of_def
    by (intro cname_frame) (auto simp: rt_object_init_def Let_def strncpy_frame RT_NAME_MAX_def)
next
  case (allocate r y n type name z r')
  then have "x + 8 \<le> y \<or> y + n \<le> x" "8 \<le> n" by (auto simp: clear_of_def RT_NAME_MAX_def)
  then show ?case using allocate unfolding name_of_def
    by (intro cname_frame)
      (auto simp: rt_object_allocate_def Let_def strncpy_frame RT_NAME_MAX_def rt_memset_eq block_fill_def split: if_splits)
next
  case (other r m)
  then show ?case unfolding name_of_def by (intro cname_frame) auto
qed (simp_all add: name_of_def rt_object_detach_def rt_object_delete_def Let_def list_drop_def)

section \<open>Properties\<close>

text \<open>C38: After any sequence of operations from an empty registry, an object is on the list of a class exactly when its type names
  that class, on each list once, and so on one list at most.\<close>

theorem obj_run_filed:
  assumes "\<forall>i. object_list r i = []" and "\<forall>x. obj_type r x = RT_Object_Class_Null" and "obj_step\<^sup>*\<^sup>* r r'"
  shows "(x \<in> set (object_list r' i) \<longleftrightarrow> rt_object_get_information (rt_object_get_type x r') = Some i) \<and> distinct (object_list r' i)"
proof -
  have "filed r" using assms(1,2) by (auto simp: filed_def attached_def)
  with assms(3) have "filed r'" by (induction rule: rtranclp_induct) (auto intro: obj_step_filed)
  moreover have "rt_object_get_information (obj_type r' x AND NOT RT_Object_Class_Static) = rt_object_get_information (obj_type r' x)"
    by (simp add: rt_object_get_information_def)
  ultimately show ?thesis by (simp add: filed_def rt_object_get_type_def)
qed

definition reg_empty :: rt_registry where
  "reg_empty = \<lparr>reg_mem = (\<lambda>_. 0)(100 := 117, 101 := 49), obj_type = \<lambda>_. RT_Object_Class_Null, obj_flag = \<lambda>_. 0, object_list = \<lambda>_. []\<rparr>"

definition reg_one :: rt_registry where
  "reg_one = the (rt_object_init 200 RT_Object_Class_Device 100 reg_empty)"

lemma reg_one: "rt_object_init 200 RT_Object_Class_Device 100 reg_empty = Some reg_one" "object_list reg_one 8 = [200]"
  by (simp_all add: reg_one_def rt_object_init_def rt_object_get_information_def object_container_def class_defs reg_empty_def Let_def)

theorem obj_run_filed_witness:
  "200 \<in> set (object_list reg_one 8) \<and> rt_object_get_information (rt_object_get_type 200 reg_one) = Some 8"
proof -
  have "obj_step reg_empty reg_one"
    by (rule obj_step.init [OF _ _ _ reg_one(1)]) (simp_all add: reg_empty_def clear_of_def attached_def)
  then have "obj_step\<^sup>*\<^sup>* reg_empty reg_one" by (rule r_into_rtranclp)
  from obj_run_filed [OF _ _ this, of 200 8] show ?thesis using reg_one(2) by (simp add: reg_empty_def)
qed

text \<open>An object that is initialised with a name is found under every name that agrees with it in the first 8 characters; the
  search for any other name gives what it gave before; and after \<^verbatim>\<open>rt_object_detach\<close> every search gives what it gave
  before the object was initialised.\<close>

theorem rt_object_init_find:
  assumes "filed r" and "x \<noteq> 0" and "obj_type r x = RT_Object_Class_Null" and "clear_of r x 8"
    and "rt_object_get_information type = Some i" and "name + 8 \<le> x \<or> x + 8 \<le> name" and "q \<noteq> 0" and "q + 8 \<le> x \<or> x + 8 \<le> q"
  shows "\<exists>r'. rt_object_init x type name r = Some r' \<and>
    rt_object_find q type r' = (if name_of r q = name_of r name then x else rt_object_find q type r) \<and>
    rt_object_find q type (rt_object_detach x r') = rt_object_find q type r"
proof -
  obtain r' where r': "rt_object_init x type name r = Some r'" using assms(5) by (simp add: rt_object_init_def)
  then have l: "object_list r' = (object_list r)(i := x # object_list r i)" and m: "reg_mem r' = strncpy_loop (reg_mem r) x name 8"
    using assms(5) by (auto simp: rt_object_init_def Let_def rt_strncpy_def RT_NAME_MAX_def)
  have q: "name_of r' q = name_of r q" unfolding name_of_def m using assms(8)
    by (intro cname_frame) (auto simp: RT_NAME_MAX_def strncpy_loop_frame)
  have x: "name_of r' x = name_of r name" unfolding name_of_def m RT_NAME_MAX_def using assms(6) by (intro strncpy_loop_cname) auto
  have old: "name_of r' y = name_of r y" if "y \<in> set (object_list r i)" for y
    using that r' assms(2-4) by (intro obj_step_names [OF obj_step.init]) (auto simp: attached_def RT_NAME_MAX_def)
  then have same: "find (\<lambda>y. name_of r' y = name_of r q) (object_list r i) = find (\<lambda>y. name_of r y = name_of r q) (object_list r i)"
    by (intro find_cong) auto
  have "x \<notin> set (object_list r i)" using assms(1,3) by (auto simp: filed_def)
  then have "object_list (rt_object_detach x r') i = object_list r i" "name_of (rt_object_detach x r') = name_of r'"
    by (auto simp: rt_object_detach_def list_drop_def Let_def l name_of_def fun_eq_iff)
  then have "rt_object_find q type (rt_object_detach x r') = rt_object_find q type r"
    using assms(5,7) same q by (simp add: rt_object_find_eq)
  moreover have "rt_object_find q type r' = (if name_of r q = name_of r name then x else rt_object_find q type r)"
    using assms(5,7) same q x by (auto simp: rt_object_find_eq l)
  ultimately show ?thesis using r' by blast
qed

theorem rt_object_init_find_witness: "rt_object_find 100 RT_Object_Class_Device reg_one = 200"
proof -
  have "filed reg_empty" by (auto simp: filed_def attached_def reg_empty_def)
  moreover have "rt_object_get_information RT_Object_Class_Device = Some 8"
    by (simp add: rt_object_get_information_def object_container_def class_defs)
  moreover have "clear_of reg_empty 200 8" by (simp add: clear_of_def attached_def reg_empty_def)
  ultimately show ?thesis
    using rt_object_init_find [of reg_empty 200 RT_Object_Class_Device 8 100 100] reg_one(1) by (simp add: reg_empty_def)
qed

text \<open>\<^verbatim>\<open>rt_object_allocate\<close> copies one character less than \<^verbatim>\<open>rt_object_init\<close>: an object that is allocated with a name of 8 or more
  characters is never found under this name.\<close>

theorem rt_object_allocate_cuts_name:
  assumes "x \<noteq> 0" and "rt_object_get_information type = Some i" and "8 \<le> n" and "name \<noteq> 0" and "name + 8 \<le> x \<or> x + n \<le> name"
    and "cstr_at (reg_mem r) name xs" and "8 \<le> length xs" and "\<not> attached r x" and "\<not> attached r 0"
  shows "\<exists>r'. rt_object_allocate x n type name r = Some (x, r') \<and> x \<in> set (object_list r' i) \<and> rt_object_find name type r' \<noteq> x"
proof -
  obtain r' where r': "rt_object_allocate x n type name r = Some (x, r')" using assms(1,2) by (simp add: rt_object_allocate_def Let_def)
  let ?m = "block_fill (reg_mem r) x 0 n"
  have m: "reg_mem r' = strncpy_loop ?m x name 7" and l: "object_list r' i = x # object_list r i"
    using r' assms(1,2) by (auto simp: rt_object_allocate_def Let_def rt_strncpy_def RT_NAME_MAX_def rt_memset_eq)
  have name: "name_of r' name = take 8 xs"
  proof -
    have "cname (reg_mem r') name 8 = cname (reg_mem r) name 8" unfolding m using assms(3,5)
      by (intro cname_frame) (auto simp: strncpy_loop_frame block_fill_def)
    then show ?thesis using cname_cstr [OF assms(6), of 8] by (simp add: name_of_def RT_NAME_MAX_def)
  qed
  have "reg_mem r' (x + 7) = 0" unfolding m using assms(3) by (simp add: strncpy_loop_frame block_fill_def)
  then have "bytes_at (reg_mem r') x 8 ! 7 = 0" by (simp add: bytes_at_def)
  then have "length (name_of r' x) \<le> 7" unfolding name_of_def cname_def RT_NAME_MAX_def
    by (intro takeWhile_stops) simp_all
  then have "name_of r' x \<noteq> name_of r' name" using name assms(7) by auto
  then have "rt_object_find name type r' \<noteq> x"
    using assms(2,4,8,9) l by (auto simp: rt_object_find_eq attached_def split: option.splits dest!: find_member) (use assms(1) in simp)
  then show ?thesis using r' l by auto
qed

theorem rt_object_allocate_cuts_name_witness:
  "\<exists>r'. rt_object_allocate 200 32 RT_Object_Class_Semaphore 100 (reg_empty\<lparr>reg_mem := \<lambda>a. if 100 \<le> a \<and> a < 108 then 65 else 0\<rparr>) = Some (200, r') \<and>
    rt_object_find 100 RT_Object_Class_Semaphore r' \<noteq> 200"
proof -
  let ?m = "\<lambda>a :: addr. if 100 \<le> a \<and> a < 108 then 65 else 0 :: u8"
  have "cstr_at ?m 100 (replicate 8 65)" by (auto simp: cstr_at_def)
  moreover have "rt_object_get_information RT_Object_Class_Semaphore = Some 1"
    by (simp add: rt_object_get_information_def object_container_def class_defs)
  ultimately show ?thesis
    using rt_object_allocate_cuts_name [of 200 RT_Object_Class_Semaphore 1 32 100 "reg_empty\<lparr>reg_mem := ?m\<rparr>" "replicate 8 65"]
    by (auto simp: reg_empty_def attached_def)
qed

end
