(* ===== verification/Rt_Device.thy ===== *)
theory Rt_Device
  imports Rt_Object
begin

text \<open>
  The device framework: \<^verbatim>\<open>components/drivers/core/device.c\<close> (structures and flags in \<^verbatim>\<open>rtdef.h\<close>).

  A device is a record that drivers extend, as the C structure is the first member of the driver's.  The driver's
  functions are a record of optional functions on the device; a function is \<open>None\<close> where the pointer is null, and its
  result is \<open>None\<close> where it does not return.  The error number that a failing read or write sets is part of the result.

  The contract of a driver is the locale \<open>device_driver\<close>: its functions leave the reference count alone, a failing \<^verbatim>\<open>open\<close>
  leaves the open flag alone and \<^verbatim>\<open>close\<close> succeeds.  From it follow the rules of reference counting for every driver.  Names of registered
  devices are unique; the proof uses the registry through the locale \<open>directory\<close>.
\<close>

section \<open>Flags and data\<close>

definition RT_DEVICE_FLAG_RDWR :: u16 where "RT_DEVICE_FLAG_RDWR = 0x003"
definition RT_DEVICE_FLAG_STANDALONE :: u16 where "RT_DEVICE_FLAG_STANDALONE = 0x008"
definition RT_DEVICE_FLAG_ACTIVATED :: u16 where "RT_DEVICE_FLAG_ACTIVATED = 0x010"
definition RT_DEVICE_FLAG_SUSPENDED :: u16 where "RT_DEVICE_FLAG_SUSPENDED = 0x020"
definition RT_DEVICE_FLAG_STREAM :: u16 where "RT_DEVICE_FLAG_STREAM = 0x040"
definition RT_DEVICE_FLAG_INT_RX :: u16 where "RT_DEVICE_FLAG_INT_RX = 0x100"
definition RT_DEVICE_FLAG_DMA_RX :: u16 where "RT_DEVICE_FLAG_DMA_RX = 0x200"
definition RT_DEVICE_FLAG_INT_TX :: u16 where "RT_DEVICE_FLAG_INT_TX = 0x400"
definition RT_DEVICE_FLAG_DMA_TX :: u16 where "RT_DEVICE_FLAG_DMA_TX = 0x800"
definition RT_DEVICE_OFLAG_CLOSE :: u16 where "RT_DEVICE_OFLAG_CLOSE = 0x000"
definition RT_DEVICE_OFLAG_OPEN :: u16 where "RT_DEVICE_OFLAG_OPEN = 0x008"
definition RT_DEVICE_OFLAG_MASK :: u16 where "RT_DEVICE_OFLAG_MASK = 0xf0f"

lemmas flag_defs = RT_DEVICE_FLAG_RDWR_def RT_DEVICE_FLAG_STANDALONE_def RT_DEVICE_FLAG_ACTIVATED_def RT_DEVICE_FLAG_SUSPENDED_def
  RT_DEVICE_FLAG_STREAM_def RT_DEVICE_FLAG_INT_RX_def RT_DEVICE_FLAG_DMA_RX_def RT_DEVICE_FLAG_INT_TX_def
  RT_DEVICE_FLAG_DMA_TX_def RT_DEVICE_OFLAG_CLOSE_def RT_DEVICE_OFLAG_OPEN_def RT_DEVICE_OFLAG_MASK_def

record rt_device =
  dev_flag :: u16
  open_flag :: u16
  ref_count :: u8
  rx_indicate :: "addr option"
  tx_complete :: "addr option"

text \<open>Functions of a driver on devices \<open>'d\<close> with control arguments \<open>'c\<close>.  A read returns the count and the bytes it has put into the
  buffer, a write takes the bytes of the buffer.\<close>

record ('d, 'c) rt_device_ops =
  device_init :: "('d \<Rightarrow> (rt_err_t \<times> 'd) option) option"
  device_open :: "('d \<Rightarrow> u16 \<Rightarrow> (rt_err_t \<times> 'd) option) option"
  device_close :: "('d \<Rightarrow> (rt_err_t \<times> 'd) option) option"
  device_read :: "('d \<Rightarrow> int \<Rightarrow> nat \<Rightarrow> (int \<times> u8 list \<times> 'd) option) option"
  device_write :: "('d \<Rightarrow> int \<Rightarrow> u8 list \<Rightarrow> (int \<times> 'd) option) option"
  device_control :: "('d \<Rightarrow> int \<Rightarrow> 'c \<Rightarrow> (rt_err_t \<times> 'd) option) option"

definition has :: "u16 \<Rightarrow> u16 \<Rightarrow> bool" where
  "has f b \<longleftrightarrow> f AND b \<noteq> 0"

lemma has_or_iff: "has (f OR g) b \<longleftrightarrow> has f b \<or> has g b"
  by (auto simp: has_def bit_eq_iff bit_simps)

lemma has_or [simp]: "b \<noteq> 0 \<Longrightarrow> has (f OR b) b"
  by (simp add: has_or_iff) (simp add: has_def)

section \<open>Registration\<close>

definition rt_device_find :: "addr \<Rightarrow> rt_registry \<Rightarrow> addr" where
  "rt_device_find name r = rt_object_find name RT_Object_Class_Device r"

definition rt_device_register ::
    "addr \<Rightarrow> addr \<Rightarrow> u16 \<Rightarrow> rt_registry \<times> (addr \<Rightarrow> 'a rt_device_scheme) \<Rightarrow> (rt_err_t \<times> rt_registry \<times> (addr \<Rightarrow> 'a rt_device_scheme)) option" where
  "rt_device_register dev name flags s =
     (if dev = 0 then Some (- RT_ERROR, s)
      else if rt_device_find name (fst s) \<noteq> 0 then Some (- RT_ERROR, s)
      else map_option (\<lambda>r. (RT_EOK, r, (snd s)(dev := (snd s dev)\<lparr>dev_flag := flags, ref_count := 0, open_flag := 0\<rparr>)))
             (rt_object_init dev RT_Object_Class_Device name (fst s)))"

definition rt_device_unregister :: "addr \<Rightarrow> rt_registry \<Rightarrow> rt_err_t \<times> rt_registry" where
  "rt_device_unregister dev r = (RT_EOK, rt_object_detach dev r)"

section \<open>Operations\<close>

definition rt_device_init :: "('a rt_device_scheme, 'c) rt_device_ops \<Rightarrow> 'a rt_device_scheme \<Rightarrow> (rt_err_t \<times> 'a rt_device_scheme) option" where
  "rt_device_init ops dev =
     (case device_init ops of None \<Rightarrow> Some (RT_EOK, dev)
      | Some init \<Rightarrow>
        if \<not> has (dev_flag dev) RT_DEVICE_FLAG_ACTIVATED
        then map_option (\<lambda>(result, d). if result \<noteq> RT_EOK then (result, d)
               else (result, d\<lparr>dev_flag := dev_flag d OR RT_DEVICE_FLAG_ACTIVATED\<rparr>)) (init dev)
        else Some (RT_EOK, dev))"

text \<open>The three parts of \<^verbatim>\<open>rt_device_open\<close>: activation, the driver's own \<^verbatim>\<open>open\<close>, and the count.\<close>

definition open_activate :: "('a rt_device_scheme, 'c) rt_device_ops \<Rightarrow> 'a rt_device_scheme \<Rightarrow> (rt_err_t \<times> 'a rt_device_scheme) option" where
  "open_activate ops dev =
     (if \<not> has (dev_flag dev) RT_DEVICE_FLAG_ACTIVATED
      then map_option (\<lambda>(result, d). if result \<noteq> RT_EOK then (result, d)
             else (RT_EOK, d\<lparr>dev_flag := dev_flag d OR RT_DEVICE_FLAG_ACTIVATED\<rparr>))
           (case device_init ops of None \<Rightarrow> Some (RT_EOK, dev) | Some init \<Rightarrow> init dev)
      else Some (RT_EOK, dev))"

definition open_driver :: "('a rt_device_scheme, 'c) rt_device_ops \<Rightarrow> u16 \<Rightarrow> 'a rt_device_scheme \<Rightarrow> (rt_err_t \<times> 'a rt_device_scheme) option" where
  "open_driver ops oflag dev =
     (if \<not> has (open_flag dev) RT_DEVICE_OFLAG_OPEN \<or>
         open_flag dev AND RT_DEVICE_OFLAG_MASK \<noteq> (oflag AND RT_DEVICE_OFLAG_MASK) OR RT_DEVICE_OFLAG_OPEN
      then (case device_open ops of
              Some open_ \<Rightarrow> open_ dev oflag
            | None \<Rightarrow> Some (RT_EOK, dev\<lparr>open_flag := oflag AND RT_DEVICE_OFLAG_MASK\<rparr>))
      else Some (RT_EOK, dev))"

definition open_count :: "rt_err_t \<times> 'a rt_device_scheme \<Rightarrow> rt_err_t \<times> 'a rt_device_scheme" where
  "open_count x =
     (case x of (result, dev) \<Rightarrow>
        if result = RT_EOK \<or> result = - RT_ENOSYS
        then (result, dev\<lparr>open_flag := open_flag dev OR RT_DEVICE_OFLAG_OPEN, ref_count := ref_count dev + 1\<rparr>)
        else (result, dev))"

definition rt_device_open ::
    "('a rt_device_scheme, 'c) rt_device_ops \<Rightarrow> 'a rt_device_scheme \<Rightarrow> u16 \<Rightarrow> (rt_err_t \<times> 'a rt_device_scheme) option" where
  "rt_device_open ops dev oflag =
     Option.bind (open_activate ops dev) (\<lambda>(result, d).
       if result \<noteq> RT_EOK then Some (result, d)
       else if has (dev_flag d) RT_DEVICE_FLAG_STANDALONE \<and> has (open_flag d) RT_DEVICE_OFLAG_OPEN then Some (- RT_EBUSY, d)
       else map_option open_count (open_driver ops oflag d))"

definition rt_device_close :: "('a rt_device_scheme, 'c) rt_device_ops \<Rightarrow> 'a rt_device_scheme \<Rightarrow> (rt_err_t \<times> 'a rt_device_scheme) option" where
  "rt_device_close ops dev =
     (if ref_count dev = 0 then Some (- RT_ERROR, dev)
      else
        (let d = dev\<lparr>ref_count := ref_count dev - 1\<rparr>
         in if ref_count d \<noteq> 0 then Some (RT_EOK, d)
            else map_option (\<lambda>(result, d').
                   if result = RT_EOK \<or> result = - RT_ENOSYS then (result, d'\<lparr>open_flag := RT_DEVICE_OFLAG_CLOSE\<rparr>) else (result, d'))
                 (case device_close ops of None \<Rightarrow> Some (RT_EOK, d) | Some close \<Rightarrow> close d)))"

text \<open>Reads and writes return the count, the error number they set if they set one, and for a read the bytes.\<close>

definition rt_device_read ::
    "('a rt_device_scheme, 'c) rt_device_ops \<Rightarrow> 'a rt_device_scheme \<Rightarrow> int \<Rightarrow> nat \<Rightarrow>
     (int \<times> rt_err_t option \<times> u8 list \<times> 'a rt_device_scheme) option" where
  "rt_device_read ops dev pos sz =
     (if ref_count dev = 0 then Some (0, Some (- RT_ERROR), [], dev)
      else case device_read ops of
             Some read \<Rightarrow> map_option (\<lambda>(n, bs, d). (n, None, bs, d)) (read dev pos sz)
           | None \<Rightarrow> Some (0, Some (- RT_ENOSYS), [], dev))"

definition rt_device_write ::
    "('a rt_device_scheme, 'c) rt_device_ops \<Rightarrow> 'a rt_device_scheme \<Rightarrow> int \<Rightarrow> u8 list \<Rightarrow>
     (int \<times> rt_err_t option \<times> 'a rt_device_scheme) option" where
  "rt_device_write ops dev pos buffer =
     (if ref_count dev = 0 then Some (0, Some (- RT_ERROR), dev)
      else case device_write ops of
             Some write \<Rightarrow> map_option (\<lambda>(n, d). (n, None, d)) (write dev pos buffer)
           | None \<Rightarrow> Some (0, Some (- RT_ENOSYS), dev))"

definition rt_device_control ::
    "('a rt_device_scheme, 'c) rt_device_ops \<Rightarrow> 'a rt_device_scheme \<Rightarrow> int \<Rightarrow> 'c \<Rightarrow> (rt_err_t \<times> 'a rt_device_scheme) option" where
  "rt_device_control ops dev cmd arg =
     (case device_control ops of Some control \<Rightarrow> control dev cmd arg | None \<Rightarrow> Some (- RT_ENOSYS, dev))"

definition rt_device_set_rx_indicate :: "addr option \<Rightarrow> 'a rt_device_scheme \<Rightarrow> rt_err_t \<times> 'a rt_device_scheme" where
  "rt_device_set_rx_indicate rx_ind dev = (RT_EOK, dev\<lparr>rx_indicate := rx_ind\<rparr>)"

definition rt_device_set_tx_complete :: "addr option \<Rightarrow> 'a rt_device_scheme \<Rightarrow> rt_err_t \<times> 'a rt_device_scheme" where
  "rt_device_set_tx_complete tx_done dev = (RT_EOK, dev\<lparr>tx_complete := tx_done\<rparr>)"

section \<open>The contract of a driver\<close>

definition is_open :: "'a rt_device_scheme \<Rightarrow> bool" where
  "is_open d \<longleftrightarrow> has (open_flag d) RT_DEVICE_OFLAG_OPEN"

definition ok_result :: "rt_err_t \<Rightarrow> bool" where
  "ok_result e \<longleftrightarrow> e = RT_EOK \<or> e = - RT_ENOSYS"

text \<open>What the users of a device do; the number counts those that have it open.\<close>

inductive dev_step :: "('a rt_device_scheme, 'c) rt_device_ops \<Rightarrow> nat \<times> 'a rt_device_scheme \<Rightarrow> nat \<times> 'a rt_device_scheme \<Rightarrow> bool"
  for ops where
  opened: "n < 255 \<Longrightarrow> rt_device_open ops d oflag = Some (e, d') \<Longrightarrow> ok_result e \<Longrightarrow> dev_step ops (n, d) (n + 1, d')"
| refused: "rt_device_open ops d oflag = Some (e, d') \<Longrightarrow> \<not> ok_result e \<Longrightarrow> dev_step ops (n, d) (n, d')"
| closed: "0 < n \<Longrightarrow> rt_device_close ops d = Some (e, d') \<Longrightarrow> dev_step ops (n, d) (n - 1, d')"
| read: "rt_device_read ops d pos sz = Some (k, err, bs, d') \<Longrightarrow> dev_step ops (n, d) (n, d')"
| written: "rt_device_write ops d pos bs = Some (k, err, d') \<Longrightarrow> dev_step ops (n, d) (n, d')"
| controlled: "rt_device_control ops d cmd arg = Some (e, d') \<Longrightarrow> dev_step ops (n, d) (n, d')"
| callback: "dev_step ops (n, d) (n, snd (rt_device_set_rx_indicate f d))"

locale device_driver =
  fixes ops :: "('a rt_device_scheme, 'c) rt_device_ops"
  assumes init_keeps: "device_init ops = Some init \<Longrightarrow> init d = Some (e, d') \<Longrightarrow>
      ref_count d' = ref_count d \<and> is_open d' = is_open d \<and> e \<noteq> - RT_ENOSYS"
    and open_keeps: "device_open ops = Some op \<Longrightarrow> op d oflag = Some (e, d') \<Longrightarrow>
      ref_count d' = ref_count d \<and> (ok_result e \<or> is_open d' = is_open d)"
    and close_keeps: "device_close ops = Some close \<Longrightarrow> close d = Some (e, d') \<Longrightarrow> ref_count d' = ref_count d \<and> ok_result e"
    and read_keeps: "device_read ops = Some rd \<Longrightarrow> rd d pos sz = Some (k, bs, d') \<Longrightarrow>
      ref_count d' = ref_count d \<and> is_open d' = is_open d"
    and write_keeps: "device_write ops = Some wr \<Longrightarrow> wr d pos bs = Some (k, d') \<Longrightarrow>
      ref_count d' = ref_count d \<and> is_open d' = is_open d"
    and control_keeps: "device_control ops = Some ctl \<Longrightarrow> ctl d cmd arg = Some (e, d') \<Longrightarrow>
      ref_count d' = ref_count d \<and> is_open d' = is_open d"
begin

lemma activate_keeps:
  assumes "open_activate ops d = Some (e, d')"
  shows "ref_count d' = ref_count d \<and> is_open d' = is_open d \<and> (e = RT_EOK \<or> \<not> ok_result e)"
  using assms init_keeps [of _ d]
  by (auto simp: open_activate_def is_open_def ok_result_def split: if_splits option.splits prod.splits)

lemma driver_keeps:
  assumes "open_driver ops oflag d = Some (e, d')"
  shows "ref_count d' = ref_count d \<and> (ok_result e \<or> is_open d' = is_open d)"
  using assms open_keeps [of _ d oflag]
  by (auto simp: open_driver_def ok_result_def split: if_splits option.splits)

lemma open_counts:
  assumes "rt_device_open ops d oflag = Some (e, d')"
  shows "if ok_result e then ref_count d' = ref_count d + 1 \<and> is_open d' else ref_count d' = ref_count d \<and> is_open d' = is_open d"
proof -
  obtain e1 d1 where a: "open_activate ops d = Some (e1, d1)" using assms by (auto simp: rt_device_open_def bind_eq_Some_conv)
  note k1 = activate_keeps [OF a]
  consider "e1 \<noteq> RT_EOK" "(e, d') = (e1, d1)" | "(e, d') = (- RT_EBUSY, d1)"
    | e2 d2 where "open_driver ops oflag d1 = Some (e2, d2)" "(e, d') = open_count (e2, d2)"
    using assms a by (auto simp: rt_device_open_def split: if_splits)
  then show ?thesis
  proof cases
    case 1
    then show ?thesis using k1 by auto
  next
    case 2
    then show ?thesis using k1 by (simp add: ok_result_def RT_EBUSY_def RT_ENOSYS_def RT_EOK_def)
  next
    case (3 e2 d2)
    have "is_open (d2\<lparr>open_flag := open_flag d2 OR RT_DEVICE_OFLAG_OPEN, ref_count := c\<rparr>)" for c
      by (simp add: is_open_def flag_defs)
    then show ?thesis using 3 k1 driver_keeps [OF 3(1)] by (auto simp: open_count_def ok_result_def split: if_splits)
  qed
qed

lemma close_counts:
  assumes "rt_device_close ops d = Some (e, d')" and "ref_count d \<noteq> 0"
  shows "ref_count d' = ref_count d - 1 \<and> is_open d' = (is_open d \<and> ref_count d' \<noteq> 0)"
proof (cases "ref_count d - 1 = 0")
  case True
  then have "ref_count d = 1" by simp
  let ?c = "case device_close ops of None \<Rightarrow> Some (RT_EOK, d\<lparr>ref_count := 0\<rparr>) | Some close \<Rightarrow> close (d\<lparr>ref_count := 0\<rparr>)"
  obtain e1 d1 where c: "?c = Some (e1, d1)"
    and d': "(e, d') = (if ok_result e1 then (e1, d1\<lparr>open_flag := RT_DEVICE_OFLAG_CLOSE\<rparr>) else (e1, d1))"
    using assms(1) \<open>ref_count d = 1\<close> by (auto simp: rt_device_close_def Let_def ok_result_def)
  have "ref_count d1 = 0 \<and> ok_result e1"
    using c close_keeps [of _ "d\<lparr>ref_count := 0\<rparr>" e1 d1] by (cases "device_close ops") (auto simp: ok_result_def)
  then show ?thesis using d' True by (simp add: is_open_def has_def flag_defs)
next
  case False
  then show ?thesis using assms by (auto simp: rt_device_close_def Let_def is_open_def split: if_splits)
qed

definition counted :: "nat \<times> 'a rt_device_scheme \<Rightarrow> bool" where
  "counted s \<longleftrightarrow> unat (ref_count (snd s)) = fst s \<and> is_open (snd s) = (0 < fst s) \<and> fst s < 256"

lemma dev_step_counted: "dev_step ops s s' \<Longrightarrow> counted s \<Longrightarrow> counted s'"
proof (induction rule: dev_step.induct)
  case (opened n d oflag e d')
  then show ?case using open_counts [OF opened(2)] by (simp add: counted_def unat_word_ariths)
next
  case (refused d oflag e d' n)
  then show ?case using open_counts [OF refused(1)] by (simp add: counted_def)
next
  case (closed n d e d')
  then have nz: "ref_count d \<noteq> 0" by (auto simp: counted_def)
  then have "unat (ref_count d - 1) = unat (ref_count d) - 1" by (metis unat_minus_one)
  then show ?case using close_counts [OF closed(2) nz] closed by (auto simp: counted_def unat_eq_0 [symmetric])
next
  case (read d pos sz k err bs d' n)
  then show ?case using read_keeps [of _ d pos sz] by (auto simp: rt_device_read_def counted_def split: if_splits option.splits)
next
  case (written d pos bs k err d' n)
  then show ?case using write_keeps [of _ d pos bs] by (auto simp: rt_device_write_def counted_def split: if_splits option.splits)
next
  case (controlled d cmd arg e d' n)
  then show ?case using control_keeps [of _ d cmd arg] by (auto simp: rt_device_control_def counted_def split: option.splits)
qed (simp add: counted_def rt_device_set_rx_indicate_def is_open_def)

lemma dev_run_counted:
  assumes "(dev_step ops)\<^sup>*\<^sup>* (0, d0) (n, d)" and "ref_count d0 = 0" and "\<not> is_open d0"
  shows "unat (ref_count d) = n \<and> is_open d = (0 < n)"
proof -
  have "counted (0, d0)" using assms(2,3) by (simp add: counted_def)
  with assms(1) have "counted (n, d)" by (induction rule: rtranclp_induct) (auto intro: dev_step_counted)
  then show ?thesis by (simp add: counted_def)
qed

end

section \<open>The count of users\<close>

text \<open>The count has 8 bits: the 256th user makes it 0, and the device counts as closed.\<close>

lemma open_count_wraps:
  assumes "rt_device_open ops d oflag = Some (RT_EOK, d')" and "ref_count d' = ref_count d + 1" and "ref_count d = 255"
  shows "rt_device_read ops d' pos sz = Some (0, Some (- RT_ERROR), [], d') \<and> rt_device_close ops d' = Some (- RT_ERROR, d')"
  using assms(2,3) by (simp add: rt_device_read_def rt_device_close_def)

section \<open>Names of devices\<close>

text \<open>What the device framework needs of a registry: a lookup that misses exactly the names no member has, new members with the given
  name in front, and names that stay.\<close>

locale directory =
  fixes ok :: "'s \<Rightarrow> bool" and members :: "'s \<Rightarrow> 'o list" and key :: "'s \<Rightarrow> 'o \<Rightarrow> 'k" and keyword :: "'s \<Rightarrow> 'n \<Rightarrow> 'k"
    and fresh :: "'o \<Rightarrow> 'n \<Rightarrow> 's \<Rightarrow> bool" and missing :: "'n \<Rightarrow> 's \<Rightarrow> bool"
    and attach :: "'o \<Rightarrow> 'n \<Rightarrow> 's \<Rightarrow> 's option" and detach :: "'o \<Rightarrow> 's \<Rightarrow> 's"
  assumes missing_iff: "ok s \<Longrightarrow> fresh x n s \<Longrightarrow> missing n s \<longleftrightarrow> (\<forall>y \<in> set (members s). key s y \<noteq> keyword s n)"
    and attach_ok: "ok s \<Longrightarrow> fresh x n s \<Longrightarrow> attach x n s = Some s' \<Longrightarrow>
      ok s' \<and> members s' = x # members s \<and> key s' x = keyword s n \<and> (\<forall>y \<in> set (members s). key s' y = key s y)"
    and detach_ok: "ok s \<Longrightarrow> ok (detach x s) \<and> members (detach x s) = filter (\<lambda>y. y \<noteq> x) (members s) \<and>
      (\<forall>y \<in> set (members s). key (detach x s) y = key s y)"
begin

definition unique_keys :: "'s \<Rightarrow> bool" where
  "unique_keys s \<longleftrightarrow> ok s \<and> distinct (map (key s) (members s))"

lemma attach_unique:
  assumes "unique_keys s" and "fresh x n s" and "missing n s" and "attach x n s = Some s'"
  shows "unique_keys s'"
proof -
  have "ok s" using assms(1) by (simp add: unique_keys_def)
  note a = attach_ok [OF this assms(2,4)]
  then have "map (key s') (members s') = keyword s n # map (key s) (members s)" by auto
  moreover have "distinct (keyword s n # map (key s) (members s))"
    using assms(1,3) missing_iff [OF \<open>ok s\<close> assms(2)] by (auto simp: unique_keys_def)
  ultimately show ?thesis using a by (simp only: unique_keys_def)
qed

lemma detach_unique:
  assumes "unique_keys s"
  shows "unique_keys (detach x s)"
proof -
  have "ok s" using assms by (simp add: unique_keys_def)
  note d = detach_ok [OF this, of x]
  then have "map (key (detach x s)) (members (detach x s)) = map (key s) (filter (\<lambda>y. y \<noteq> x) (members s))" by auto
  moreover have "distinct (map (key s) (filter (\<lambda>y. y \<noteq> x) (members s)))"
    using assms by (intro distinct_map_filter) (simp add: unique_keys_def)
  ultimately show ?thesis using d by (simp only: unique_keys_def)
qed

end

definition dev_list :: "rt_registry \<Rightarrow> addr list" where
  "dev_list r = object_list r 8"

lemma device_class: "rt_object_get_information RT_Object_Class_Device = Some 8"
  by (simp add: rt_object_get_information_def object_container_def class_defs)

definition dev_fresh :: "addr \<Rightarrow> addr \<Rightarrow> rt_registry \<Rightarrow> bool" where
  "dev_fresh x name r \<longleftrightarrow> x \<noteq> 0 \<and> name \<noteq> 0 \<and> obj_type r x = RT_Object_Class_Null \<and> clear_of r x RT_NAME_MAX \<and>
     (name + RT_NAME_MAX \<le> x \<or> x + RT_NAME_MAX \<le> name)"

lemma object_init_names:
  assumes "dev_fresh x name r" and "rt_object_init x RT_Object_Class_Device name r = Some r'"
  shows "object_list r' 8 = x # object_list r 8" and "name_of r' x = name_of r name"
    and "y \<in> set (object_list r 8) \<Longrightarrow> name_of r' y = name_of r y" and "filed r \<Longrightarrow> filed r'"
proof -
  have step: "obj_step r r'" using assms by (intro obj_step.init [of x r]) (auto simp: dev_fresh_def)
  show "filed r'" if "filed r" using obj_step_filed [OF step that] .
  show "name_of r' y = name_of r y" if "y \<in> set (object_list r 8)"
    using obj_step_names [OF step] that by (auto simp: attached_def)
  show "object_list r' 8 = x # object_list r 8" using assms(2) by (auto simp: rt_object_init_def device_class Let_def)
  have "reg_mem r' = strncpy_loop (reg_mem r) x name 8"
    using assms(2) by (auto simp: rt_object_init_def device_class Let_def rt_strncpy_def RT_NAME_MAX_def)
  then show "name_of r' x = name_of r name" using assms(1) unfolding name_of_def
    by (auto simp: RT_NAME_MAX_def dev_fresh_def intro!: strncpy_loop_cname)
qed

interpretation dev_dir: directory filed dev_list name_of name_of dev_fresh "\<lambda>n r. rt_device_find n r = 0"
  "\<lambda>x n r. rt_object_init x RT_Object_Class_Device n r" rt_object_detach
proof
  fix r x name
  assume "filed r" and "dev_fresh x name r"
  then show "rt_device_find name r = 0 \<longleftrightarrow> (\<forall>y \<in> set (dev_list r). name_of r y \<noteq> name_of r name)"
    unfolding rt_device_find_def dev_list_def
    by (intro rt_object_find_zero_iff [OF _ device_class]) (auto simp: dev_fresh_def filed_def attached_def)
next
  fix r x name r'
  assume "filed r" and "dev_fresh x name r" and "rt_object_init x RT_Object_Class_Device name r = Some r'"
  then show "filed r' \<and> dev_list r' = x # dev_list r \<and> name_of r' x = name_of r name \<and>
      (\<forall>y \<in> set (dev_list r). name_of r' y = name_of r y)"
    using object_init_names [of x name r r'] by (auto simp: dev_list_def)
next
  fix r x
  assume "filed r"
  then show "filed (rt_object_detach x r) \<and> dev_list (rt_object_detach x r) = filter (\<lambda>y. y \<noteq> x) (dev_list r) \<and>
      (\<forall>y \<in> set (dev_list r). name_of (rt_object_detach x r) y = name_of r y)"
    using obj_step_filed [OF obj_step.detach]
    by (auto simp: dev_list_def rt_object_detach_def Let_def list_drop_def name_of_def)
qed

inductive reg_step :: "rt_registry \<times> (addr \<Rightarrow> 'a rt_device_scheme) \<Rightarrow> rt_registry \<times> (addr \<Rightarrow> 'a rt_device_scheme) \<Rightarrow> bool" where
  register: "dev_fresh dev name (fst s) \<Longrightarrow> rt_device_register dev name flags s = Some (e, s') \<Longrightarrow> reg_step s s'"
| unregister: "reg_step (r, ds) (snd (rt_device_unregister dev r), ds)"

text \<open>C10: Over any sequence of registrations and removals no two registered devices have names that agree in their first 8
  characters, so that \<^verbatim>\<open>rt_device_find\<close> has one answer at most.\<close>

theorem rt_device_names_unique:
  assumes "reg_step\<^sup>*\<^sup>* (r, ds) (r', ds')" and "\<forall>i. object_list r i = []" and "\<forall>x. obj_type r x = RT_Object_Class_Null"
    and "x \<in> set (dev_list r')" and "y \<in> set (dev_list r')" and "x \<noteq> y"
  shows "name_of r' x \<noteq> name_of r' y"
proof -
  have start: "dev_dir.unique_keys (fst (r, ds))" using assms(2,3) by (auto simp: dev_dir.unique_keys_def filed_def attached_def dev_list_def)
  have step: "dev_dir.unique_keys (fst s')" if "reg_step s s'" "dev_dir.unique_keys (fst s)" for s s' :: "rt_registry \<times> (addr \<Rightarrow> 'a rt_device_scheme)"
    using that
  proof cases
    case (register dev name flags e)
    then show ?thesis using that(2) dev_dir.attach_unique [OF that(2) register(1)]
      by (auto simp: rt_device_register_def split: if_splits)
  next
    case (unregister r ds dev)
    then show ?thesis using that(2) dev_dir.detach_unique by (auto simp: rt_device_unregister_def)
  qed
  from assms(1) have "dev_dir.unique_keys (fst (r', ds'))"
    by (induction rule: rtranclp_induct [where P = "\<lambda>s. dev_dir.unique_keys (fst s)"]) (fact start, erule step)
  then have "inj_on (name_of r') (set (dev_list r'))" by (simp add: dev_dir.unique_keys_def distinct_map)
  then show ?thesis using assms(4-6) by (auto simp: inj_on_def)
qed

definition dev_blank :: rt_device where
  "dev_blank = \<lparr>dev_flag = 0, open_flag = 0, ref_count = 0, rx_indicate = None, tx_complete = None\<rparr>"

lemma register_new:
  assumes "dev_fresh x name r" and "rt_device_find name r = 0"
  shows "\<exists>r' ds'. rt_device_register x name flags (r, ds) = Some (RT_EOK, r', ds') \<and> rt_object_init x RT_Object_Class_Device name r = Some r'"
proof -
  obtain r' where "rt_object_init x RT_Object_Class_Device name r = Some r'" by (simp add: rt_object_init_def device_class)
  then show ?thesis using assms by (auto simp: rt_device_register_def dev_fresh_def)
qed

theorem rt_device_names_unique_witness:
  "\<exists>r' ds'. reg_step\<^sup>*\<^sup>* (reg_empty, \<lambda>_. dev_blank) (r', ds') \<and> dev_list r' = [400, 200] \<and> name_of r' 400 \<noteq> name_of r' 200"
proof -
  have f1: "dev_fresh 200 100 reg_empty" by (simp add: dev_fresh_def reg_empty_def clear_of_def attached_def RT_NAME_MAX_def)
  have "rt_device_find 100 reg_empty = 0"
    by (simp add: rt_device_find_def rt_object_find_eq [OF _ device_class]) (simp add: reg_empty_def)
  from register_new [OF f1 this, of 0 "\<lambda>_. dev_blank"] obtain r1 ds1 where r1:
    "rt_device_register 200 100 0 (reg_empty, \<lambda>_. dev_blank) = Some (RT_EOK, r1, ds1)"
    "rt_object_init 200 RT_Object_Class_Device 100 reg_empty = Some r1" by blast
  have mem: "reg_mem r1 a = reg_mem reg_empty a" if "a < 200 \<or> 208 \<le> a" for a
    using r1(2) that by (auto simp: rt_object_init_def device_class Let_def strncpy_frame RT_NAME_MAX_def)
  have l1: "object_list r1 8 = [200]" using object_init_names(1) [OF f1 r1(2)] by (simp add: reg_empty_def)
  have all: "object_list r1 i = (if i = 8 then [200] else [])" and t1: "obj_type r1 400 = RT_Object_Class_Null" for i
    using r1(2) by (auto simp: rt_object_init_def device_class Let_def reg_empty_def)
  have n300: "name_of r1 300 = []"
  proof -
    have "name_of r1 300 = name_of reg_empty 300" unfolding name_of_def by (intro cname_frame) (auto simp: mem RT_NAME_MAX_def)
    then show ?thesis by (simp add: name_of_def reg_empty_def cname_def bytes_at_def RT_NAME_MAX_def numeral_eq_Suc)
  qed
  have n200: "name_of r1 200 \<noteq> []"
    unfolding object_init_names(2) [OF f1 r1(2)]
    by (simp add: name_of_def reg_empty_def RT_NAME_MAX_def cname_def bytes_at_def upt_conv_Cons)
  have f2: "dev_fresh 400 300 r1" using t1 by (simp add: dev_fresh_def clear_of_def attached_def all RT_NAME_MAX_def)
  have "rt_device_find 300 r1 = 0"
    using n300 n200 by (simp add: rt_device_find_def rt_object_find_eq [OF _ device_class] l1)
  from register_new [OF f2 this, of 0 ds1] obtain r2 ds2 where r2:
    "rt_device_register 400 300 0 (r1, ds1) = Some (RT_EOK, r2, ds2)"
    "rt_object_init 400 RT_Object_Class_Device 300 r1 = Some r2" by blast
  have "reg_step (reg_empty, \<lambda>_. dev_blank) (r1, ds1)" by (rule reg_step.register [OF _ r1(1)]) (simp add: f1)
  moreover have "reg_step (r1, ds1) (r2, ds2)" by (rule reg_step.register [OF _ r2(1)]) (simp add: f2)
  ultimately have run: "reg_step\<^sup>*\<^sup>* (reg_empty, \<lambda>_. dev_blank) (r2, ds2)" by simp
  have l2: "dev_list r2 = [400, 200]" using object_init_names(1) [OF f2 r2(2)] l1 by (simp add: dev_list_def)
  have "name_of r2 400 \<noteq> name_of r2 200"
    by (rule rt_device_names_unique [OF run]) (simp_all add: l2 reg_empty_def)
  then show ?thesis using run l2 by blast
qed

end
