(* ===== verification/Serial.thy ===== *)
theory Serial
  imports Rt_Device "HOL-Library.Sublist"
begin

text \<open>
  The serial device: \<^verbatim>\<open>components/drivers/serial/dev_serial.c\<close> (structures in \<^verbatim>\<open>dev_serial.h\<close>), on top of the device framework.

  The device record extends \<open>rt_device\<close> as the C structure does.  The driver below is a record of functions on the hardware's
  state \<open>'h\<close>, which the device holds.  A receive buffer is a value of the device; whether the heap has room for it is an argument of
  \<^verbatim>\<open>open\<close>, which without room would write through a null pointer (\<open>None\<close>).  Calls of the receive callback are recorded with their
  size.  Interrupt-driven transmission waits for a completion: the hardware's state when the wait ends is an argument.
  Transmission by DMA and the events of transmission are arguments too; they need the data queue and the completion, and
  the board's driver does not use them.

  Shown: the interrupt handler and the reader implement a queue of \<open>bufsz - 1\<close> bytes that drops the oldest byte when it is full
  (\<open>serial_rx_stream\<close>), and the DMA path one of \<open>bufsz\<close> bytes; the device meets the contract \<open>device_driver\<close>.
\<close>

section \<open>Data\<close>

record serial_configure =
  baud_rate :: nat
  data_bits :: nat
  stop_bits :: nat
  parity :: nat
  bit_order :: nat
  invert :: nat
  bufsz :: nat
  flowcontrol :: nat
  cfg_reserved :: nat

record rt_serial_rx_fifo =
  rx_buffer :: "nat \<Rightarrow> u8"
  put_index :: nat
  get_index :: nat
  is_full :: bool

datatype serial_rx_mode = Rx_Null | Rx_Fifo rt_serial_rx_fifo | Rx_Dma bool
datatype serial_tx_mode = Tx_Null | Tx_Fifo | Tx_Dma bool

record 'h rt_serial_device = rt_device +
  config :: serial_configure
  serial_rx :: serial_rx_mode
  serial_tx :: serial_tx_mode
  rx_notify :: "addr option"
  uart :: 'h
  indications :: "nat list"

text \<open>Arguments of control calls.\<close>

datatype serial_arg = Arg_Null | Arg_Flag u16 | Arg_Config serial_configure | Arg_Notify "addr option" | Arg_Other nat

record 'h rt_uart_ops =
  uart_configure :: "(serial_configure \<Rightarrow> 'h \<Rightarrow> rt_err_t \<times> 'h) option"
  uart_control :: "int \<Rightarrow> serial_arg \<Rightarrow> 'h \<Rightarrow> rt_err_t \<times> 'h"
  uart_putc :: "u8 \<Rightarrow> 'h \<Rightarrow> (int \<times> 'h) option"
  uart_getc :: "'h \<Rightarrow> int \<times> 'h"
  uart_dma_transmit :: "(nat \<Rightarrow> nat \<Rightarrow> 'h \<Rightarrow> 'h) option"

definition RT_DEVICE_CTRL_RESUME :: int where "RT_DEVICE_CTRL_RESUME = 0x01"
definition RT_DEVICE_CTRL_SUSPEND :: int where "RT_DEVICE_CTRL_SUSPEND = 0x02"
definition RT_DEVICE_CTRL_CONFIG :: int where "RT_DEVICE_CTRL_CONFIG = 0x03"
definition RT_DEVICE_CTRL_CLOSE :: int where "RT_DEVICE_CTRL_CLOSE = 0x04"
definition RT_DEVICE_CTRL_NOTIFY_SET :: int where "RT_DEVICE_CTRL_NOTIFY_SET = 0x05"
definition RT_DEVICE_CTRL_SET_INT :: int where "RT_DEVICE_CTRL_SET_INT = 0x06"
definition RT_DEVICE_CTRL_CLR_INT :: int where "RT_DEVICE_CTRL_CLR_INT = 0x07"
definition RT_DEVICE_CTRL_CONSOLE_OFLAG :: int where "RT_DEVICE_CTRL_CONSOLE_OFLAG = 0x09"
definition RT_SERIAL_DMA_RX :: nat where "RT_SERIAL_DMA_RX = 0x01"

section \<open>Polling\<close>

fun poll_rx_loop :: "'h rt_uart_ops \<Rightarrow> bool \<Rightarrow> nat \<Rightarrow> 'h \<Rightarrow> u8 list \<Rightarrow> u8 list \<times> 'h" where
  "poll_rx_loop ops stream 0 h acc = (acc, h)"
| "poll_rx_loop ops stream (Suc len) h acc =
     (case uart_getc ops h of (ch, h') \<Rightarrow>
        if ch = -1 then (acc, h')
        else
          (let acc' = acc @ [word_of_int ch]
           in if stream \<and> ch = 10 then (acc', h') else poll_rx_loop ops stream len h' acc'))"

definition serial_poll_rx :: "'h rt_uart_ops \<Rightarrow> nat \<Rightarrow> 'h rt_serial_device \<Rightarrow> u8 list \<times> 'h rt_serial_device" where
  "serial_poll_rx ops len d =
     (case poll_rx_loop ops (has (open_flag d) RT_DEVICE_FLAG_STREAM) len (uart d) [] of (bs, h) \<Rightarrow> (bs, d\<lparr>uart := h\<rparr>))"

fun poll_tx_loop :: "'h rt_uart_ops \<Rightarrow> bool \<Rightarrow> u8 list \<Rightarrow> 'h \<Rightarrow> nat \<Rightarrow> (nat \<times> 'h) option" where
  "poll_tx_loop ops stream [] h sent = Some (sent, h)"
| "poll_tx_loop ops stream (b # bs) h sent =
     Option.bind (if b = 10 \<and> stream then map_option snd (uart_putc ops 13 h) else Some h) (\<lambda>h1.
       Option.bind (uart_putc ops b h1) (\<lambda>(ret, h2).
         if ret < 0 then Some (sent, h2) else poll_tx_loop ops stream bs h2 (sent + 1)))"

definition serial_poll_tx :: "'h rt_uart_ops \<Rightarrow> u8 list \<Rightarrow> 'h rt_serial_device \<Rightarrow> (int \<times> 'h rt_serial_device) option" where
  "serial_poll_tx ops data d =
     map_option (\<lambda>(n, h). (int n, d\<lparr>uart := h\<rparr>)) (poll_tx_loop ops (has (open_flag d) RT_DEVICE_FLAG_STREAM) data (uart d) 0)"

section \<open>Interrupts\<close>

text \<open>An index of 16 bits that goes on by one and back to 0 at the end of the buffer.\<close>

definition ring_inc :: "nat \<Rightarrow> nat \<Rightarrow> nat" where
  "ring_inc sz i = (let j = (i + 1) mod 2 ^ 16 in if j \<ge> sz then 0 else j)"

fun int_rx_loop :: "nat \<Rightarrow> nat \<Rightarrow> rt_serial_rx_fifo \<Rightarrow> u8 list \<Rightarrow> u8 list \<times> rt_serial_rx_fifo" where
  "int_rx_loop sz 0 f acc = (acc, f)"
| "int_rx_loop sz (Suc len) f acc =
     (if get_index f = put_index f \<and> \<not> is_full f then (acc, f)
      else
        (let ch = rx_buffer f (get_index f);
             f' = f\<lparr>get_index := ring_inc sz (get_index f), is_full := False\<rparr>
         in int_rx_loop sz len f' (acc @ [ch])))"

definition serial_int_rx :: "nat \<Rightarrow> 'h rt_serial_device \<Rightarrow> (u8 list \<times> 'h rt_serial_device) option" where
  "serial_int_rx len d =
     (case serial_rx d of
        Rx_Fifo f \<Rightarrow> (case int_rx_loop (bufsz (config d)) len f [] of (bs, f') \<Rightarrow> Some (bs, d\<lparr>serial_rx := Rx_Fifo f'\<rparr>))
      | _ \<Rightarrow> None)"

text \<open>\<open>wait\<close> is what the hardware has become when \<^verbatim>\<open>rt_completion_wait\<close> returns.\<close>

partial_function (option) putc_wait :: "'h rt_uart_ops \<Rightarrow> ('h \<Rightarrow> 'h option) \<Rightarrow> u8 \<Rightarrow> 'h \<Rightarrow> 'h option" where
  "putc_wait ops wait b h =
     Option.bind (uart_putc ops b h) (\<lambda>(ret, h'). if ret = -1 then Option.bind (wait h') (putc_wait ops wait b) else Some h')"

partial_function (option) int_tx_loop :: "'h rt_uart_ops \<Rightarrow> ('h \<Rightarrow> 'h option) \<Rightarrow> bool \<Rightarrow> u8 list \<Rightarrow> 'h \<Rightarrow> 'h option" where
  "int_tx_loop ops wait stream data h =
     (case data of [] \<Rightarrow> Some h
      | b # bs \<Rightarrow>
        Option.bind (if b = 10 \<and> stream then uart_putc ops 13 h else Some (0, h)) (\<lambda>(ret, h1).
          if b = 10 \<and> stream \<and> ret = -1 then Option.bind (wait h1) (int_tx_loop ops wait stream (b # bs))
          else Option.bind (putc_wait ops wait b h1) (int_tx_loop ops wait stream bs)))"

definition serial_int_tx :: "'h rt_uart_ops \<Rightarrow> ('h \<Rightarrow> 'h option) \<Rightarrow> u8 list \<Rightarrow> 'h rt_serial_device \<Rightarrow> (int \<times> 'h rt_serial_device) option" where
  "serial_int_tx ops wait data d =
     map_option (\<lambda>h. (int (length data), d\<lparr>uart := h\<rparr>)) (int_tx_loop ops wait (has (open_flag d) RT_DEVICE_FLAG_STREAM) data (uart d))"

section \<open>The receive buffer under DMA\<close>

definition serial_fifo_calc_recved_len :: "nat \<Rightarrow> rt_serial_rx_fifo \<Rightarrow> nat" where
  "serial_fifo_calc_recved_len sz f =
     (if put_index f = get_index f then (if \<not> is_full f then 0 else sz)
      else if put_index f > get_index f then put_index f - get_index f
      else sz - (get_index f - put_index f))"

definition rt_dma_calc_recved_len :: "nat \<Rightarrow> rt_serial_rx_fifo \<Rightarrow> nat" where
  "rt_dma_calc_recved_len sz f = serial_fifo_calc_recved_len sz f"

definition rt_dma_recv_update_get_index :: "nat \<Rightarrow> nat \<Rightarrow> rt_serial_rx_fifo \<Rightarrow> rt_serial_rx_fifo" where
  "rt_dma_recv_update_get_index sz len f =
     (let f1 = (if is_full f \<and> len \<noteq> 0 then f\<lparr>is_full := False\<rparr> else f);
          g = (get_index f1 + len mod 2 ^ 16) mod 2 ^ 16
      in f1\<lparr>get_index := (if g \<ge> sz then g mod sz else g)\<rparr>)"

definition rt_dma_recv_update_put_index :: "nat \<Rightarrow> nat \<Rightarrow> rt_serial_rx_fifo \<Rightarrow> rt_serial_rx_fifo" where
  "rt_dma_recv_update_put_index sz len f =
     (let p = (put_index f + len mod 2 ^ 16) mod 2 ^ 16;
          f1 = (if get_index f \<le> put_index f then
                  (if p \<ge> sz then
                     (let p' = p mod sz
                      in if p' \<ge> get_index f then f\<lparr>put_index := p', is_full := True\<rparr> else f\<lparr>put_index := p'\<rparr>)
                   else f\<lparr>put_index := p\<rparr>)
                else
                  (if p \<ge> get_index f then f\<lparr>put_index := (if p \<ge> sz then p mod sz else p), is_full := True\<rparr>
                   else f\<lparr>put_index := p\<rparr>))
      in if is_full f1 then f1\<lparr>get_index := put_index f1\<rparr> else f1)"

text \<open>The bytes that the two calls of \<^verbatim>\<open>rt_memcpy\<close> copy out of the buffer.\<close>

definition fifo_copy_out :: "nat \<Rightarrow> nat \<Rightarrow> rt_serial_rx_fifo \<Rightarrow> u8 list" where
  "fifo_copy_out sz recv_len f =
     (if get_index f + recv_len < sz then map (rx_buffer f) [get_index f..<get_index f + recv_len]
      else map (rx_buffer f) [get_index f..<sz] @ map (rx_buffer f) [0..<recv_len + get_index f - sz])"

definition serial_dma_rx :: "'h rt_uart_ops \<Rightarrow> nat \<Rightarrow> 'h rt_serial_device \<Rightarrow> (int \<times> u8 list \<times> 'h rt_serial_device) option" where
  "serial_dma_rx ops len d =
     (if bufsz (config d) = 0 then
        (case serial_rx d of
           Rx_Dma activated \<Rightarrow>
             if \<not> activated then
               map_option (\<lambda>tr. (int len, [], d\<lparr>serial_rx := Rx_Dma True, uart := tr len RT_SERIAL_DMA_RX (uart d)\<rparr>)) (uart_dma_transmit ops)
             else Some (0, [], d)
         | _ \<Rightarrow> None)
      else
        (case serial_rx d of
           Rx_Fifo f \<Rightarrow>
             (let fifo_recved_len = rt_dma_calc_recved_len (bufsz (config d)) f;
                  recv_len = (if len < fifo_recved_len then len else fifo_recved_len);
                  bs = fifo_copy_out (bufsz (config d)) recv_len f
              in Some (int recv_len, bs, d\<lparr>serial_rx := Rx_Fifo (rt_dma_recv_update_get_index (bufsz (config d)) recv_len f)\<rparr>))
         | _ \<Rightarrow> None))"

section \<open>The device functions\<close>

definition rt_serial_init :: "'h rt_uart_ops \<Rightarrow> 'h rt_serial_device \<Rightarrow> (rt_err_t \<times> 'h rt_serial_device) option" where
  "rt_serial_init ops d =
     (let d1 = d\<lparr>serial_rx := Rx_Null, serial_tx := Tx_Null, rx_notify := None\<rparr>
      in case uart_configure ops of None \<Rightarrow> Some (RT_EOK, d1)
         | Some configure \<Rightarrow> (case configure (config d1) (uart d1) of (result, h) \<Rightarrow> Some (result, d1\<lparr>uart := h\<rparr>)))"

definition uart_ctl :: "'h rt_uart_ops \<Rightarrow> int \<Rightarrow> serial_arg \<Rightarrow> 'h rt_serial_device \<Rightarrow> 'h rt_serial_device" where
  "uart_ctl ops cmd arg d = d\<lparr>uart := snd (uart_control ops cmd arg (uart d))\<rparr>"

definition set_oflag :: "u16 \<Rightarrow> 'h rt_serial_device \<Rightarrow> 'h rt_serial_device" where
  "set_oflag b d = d\<lparr>open_flag := open_flag d OR b\<rparr>"

definition clear_oflag :: "u16 \<Rightarrow> 'h rt_serial_device \<Rightarrow> 'h rt_serial_device" where
  "clear_oflag b d = d\<lparr>open_flag := open_flag d AND NOT b\<rparr>"

definition empty_fifo :: rt_serial_rx_fifo where
  "empty_fifo = \<lparr>rx_buffer = \<lambda>_. 0, put_index = 0, get_index = 0, is_full = False\<rparr>"

definition open_rx :: "'h rt_uart_ops \<Rightarrow> bool \<Rightarrow> u16 \<Rightarrow> 'h rt_serial_device \<Rightarrow> 'h rt_serial_device option" where
  "open_rx ops mem oflag d =
     (if serial_rx d = Rx_Null then
        (if has oflag RT_DEVICE_FLAG_INT_RX then
           (if mem then Some (uart_ctl ops RT_DEVICE_CTRL_SET_INT (Arg_Flag RT_DEVICE_FLAG_INT_RX)
                                (set_oflag RT_DEVICE_FLAG_INT_RX (d\<lparr>serial_rx := Rx_Fifo empty_fifo\<rparr>)))
            else None)
         else if has oflag RT_DEVICE_FLAG_DMA_RX then
           (if mem then
              (if bufsz (config d) = 0 then Some (set_oflag RT_DEVICE_FLAG_DMA_RX (d\<lparr>serial_rx := Rx_Dma False\<rparr>))
               else Some (set_oflag RT_DEVICE_FLAG_DMA_RX
                      (uart_ctl ops RT_DEVICE_CTRL_CONFIG (Arg_Flag RT_DEVICE_FLAG_DMA_RX) (d\<lparr>serial_rx := Rx_Fifo empty_fifo\<rparr>))))
            else None)
         else Some (d\<lparr>serial_rx := Rx_Null\<rparr>))
      else if has oflag RT_DEVICE_FLAG_INT_RX then Some (set_oflag RT_DEVICE_FLAG_INT_RX d)
      else if has oflag RT_DEVICE_FLAG_DMA_RX then Some (set_oflag RT_DEVICE_FLAG_DMA_RX d)
      else Some d)"

definition open_tx :: "'h rt_uart_ops \<Rightarrow> bool \<Rightarrow> u16 \<Rightarrow> 'h rt_serial_device \<Rightarrow> 'h rt_serial_device option" where
  "open_tx ops mem oflag d =
     (if serial_tx d = Tx_Null then
        (if has oflag RT_DEVICE_FLAG_INT_TX then
           (if mem then Some (uart_ctl ops RT_DEVICE_CTRL_SET_INT (Arg_Flag RT_DEVICE_FLAG_INT_TX)
                                (set_oflag RT_DEVICE_FLAG_INT_TX (d\<lparr>serial_tx := Tx_Fifo\<rparr>)))
            else None)
         else if has oflag RT_DEVICE_FLAG_DMA_TX then
           (if mem then Some (uart_ctl ops RT_DEVICE_CTRL_CONFIG (Arg_Flag RT_DEVICE_FLAG_DMA_TX)
                                (set_oflag RT_DEVICE_FLAG_DMA_TX (d\<lparr>serial_tx := Tx_Dma False\<rparr>)))
            else None)
         else Some (d\<lparr>serial_tx := Tx_Null\<rparr>))
      else if has oflag RT_DEVICE_FLAG_INT_TX then Some (set_oflag RT_DEVICE_FLAG_INT_TX d)
      else if has oflag RT_DEVICE_FLAG_DMA_TX then Some (set_oflag RT_DEVICE_FLAG_DMA_TX d)
      else Some d)"

definition open_refused :: "u16 \<Rightarrow> u16 \<Rightarrow> bool" where
  "open_refused oflag flag \<longleftrightarrow>
     has oflag RT_DEVICE_FLAG_DMA_RX \<and> \<not> has flag RT_DEVICE_FLAG_DMA_RX \<or>
     has oflag RT_DEVICE_FLAG_DMA_TX \<and> \<not> has flag RT_DEVICE_FLAG_DMA_TX \<or>
     has oflag RT_DEVICE_FLAG_INT_RX \<and> \<not> has flag RT_DEVICE_FLAG_INT_RX \<or>
     has oflag RT_DEVICE_FLAG_INT_TX \<and> \<not> has flag RT_DEVICE_FLAG_INT_TX"

definition rt_serial_open ::
    "'h rt_uart_ops \<Rightarrow> bool \<Rightarrow> 'h rt_serial_device \<Rightarrow> u16 \<Rightarrow> (rt_err_t \<times> 'h rt_serial_device) option" where
  "rt_serial_open ops mem d oflag =
     (if open_refused oflag (dev_flag d) then Some (- RT_EIO, d)
      else
        (let stream_flag = (if has oflag RT_DEVICE_FLAG_STREAM \<or> has (open_flag d) RT_DEVICE_FLAG_STREAM
                            then RT_DEVICE_FLAG_STREAM else 0);
             d1 = d\<lparr>open_flag := oflag AND 0xff\<rparr>
         in Option.bind (open_rx ops mem oflag d1) (\<lambda>d2.
              map_option (\<lambda>d3. (RT_EOK, set_oflag stream_flag d3)) (open_tx ops mem oflag d2))))"

definition close_rx :: "'h rt_uart_ops \<Rightarrow> 'h rt_serial_device \<Rightarrow> 'h rt_serial_device" where
  "close_rx ops d =
     (if has (open_flag d) RT_DEVICE_FLAG_INT_RX then
        (clear_oflag RT_DEVICE_FLAG_INT_RX (uart_ctl ops RT_DEVICE_CTRL_CLR_INT (Arg_Flag RT_DEVICE_FLAG_INT_RX) d))\<lparr>serial_rx := Rx_Null\<rparr>
      else if has (open_flag d) RT_DEVICE_FLAG_DMA_RX then
        (clear_oflag RT_DEVICE_FLAG_DMA_RX (uart_ctl ops RT_DEVICE_CTRL_CLR_INT (Arg_Flag RT_DEVICE_FLAG_DMA_RX) d))\<lparr>serial_rx := Rx_Null\<rparr>
      else d)"

definition close_tx :: "'h rt_uart_ops \<Rightarrow> 'h rt_serial_device \<Rightarrow> 'h rt_serial_device" where
  "close_tx ops d =
     (if has (open_flag d) RT_DEVICE_FLAG_INT_TX then
        (clear_oflag RT_DEVICE_FLAG_INT_TX (uart_ctl ops RT_DEVICE_CTRL_CLR_INT (Arg_Flag RT_DEVICE_FLAG_INT_TX) d))\<lparr>serial_tx := Tx_Null\<rparr>
      else if has (open_flag d) RT_DEVICE_FLAG_DMA_TX then
        (clear_oflag RT_DEVICE_FLAG_DMA_TX (uart_ctl ops RT_DEVICE_CTRL_CLR_INT (Arg_Flag RT_DEVICE_FLAG_DMA_TX) d))\<lparr>serial_tx := Tx_Null\<rparr>
      else d)"

definition rt_serial_close :: "'h rt_uart_ops \<Rightarrow> 'h rt_serial_device \<Rightarrow> (rt_err_t \<times> 'h rt_serial_device) option" where
  "rt_serial_close ops d =
     (if ref_count d > 1 then Some (RT_EOK, d)
      else
        (let d1 = uart_ctl ops RT_DEVICE_CTRL_CLOSE Arg_Null (close_tx ops (close_rx ops d))
         in Some (RT_EOK, d1\<lparr>dev_flag := dev_flag d1 AND NOT RT_DEVICE_FLAG_ACTIVATED\<rparr>)))"

definition rt_serial_read :: "'h rt_uart_ops \<Rightarrow> 'h rt_serial_device \<Rightarrow> int \<Rightarrow> nat \<Rightarrow> (int \<times> u8 list \<times> 'h rt_serial_device) option" where
  "rt_serial_read ops d pos sz =
     (if sz = 0 then Some (0, [], d)
      else if has (open_flag d) RT_DEVICE_FLAG_INT_RX then
        map_option (\<lambda>(bs, d'). (int (length bs), bs, d')) (serial_int_rx sz d)
      else if has (open_flag d) RT_DEVICE_FLAG_DMA_RX then serial_dma_rx ops sz d
      else (case serial_poll_rx ops sz d of (bs, d') \<Rightarrow> Some (int (length bs), bs, d')))"

definition rt_serial_write ::
    "'h rt_uart_ops \<Rightarrow> ('h \<Rightarrow> 'h option) \<Rightarrow> (u8 list \<Rightarrow> 'h rt_serial_device \<Rightarrow> (int \<times> 'h rt_serial_device) option) \<Rightarrow>
     'h rt_serial_device \<Rightarrow> int \<Rightarrow> u8 list \<Rightarrow> (int \<times> 'h rt_serial_device) option" where
  "rt_serial_write ops wait dma_tx d pos buffer =
     (if buffer = [] then Some (0, d)
      else if has (open_flag d) RT_DEVICE_FLAG_INT_TX then serial_int_tx ops wait buffer d
      else if has (open_flag d) RT_DEVICE_FLAG_DMA_TX then dma_tx buffer d
      else serial_poll_tx ops buffer d)"

definition rt_serial_control ::
    "'h rt_uart_ops \<Rightarrow> 'h rt_serial_device \<Rightarrow> int \<Rightarrow> serial_arg \<Rightarrow> (rt_err_t \<times> 'h rt_serial_device) option" where
  "rt_serial_control ops d cmd args =
     (if cmd = RT_DEVICE_CTRL_SUSPEND then Some (RT_EOK, d\<lparr>dev_flag := dev_flag d OR RT_DEVICE_FLAG_SUSPENDED\<rparr>)
      else if cmd = RT_DEVICE_CTRL_RESUME then Some (RT_EOK, d\<lparr>dev_flag := dev_flag d AND NOT RT_DEVICE_FLAG_SUSPENDED\<rparr>)
      else if cmd = RT_DEVICE_CTRL_CONFIG then
        (case args of
           Arg_Config pconfig \<Rightarrow>
             if bufsz pconfig \<noteq> bufsz (config d) \<and> ref_count d \<noteq> 0 then Some (- RT_EBUSY, d)
             else
               (let d1 = d\<lparr>config := pconfig\<rparr>
                in if ref_count d1 \<noteq> 0 then
                     map_option (\<lambda>configure. (RT_EOK, d1\<lparr>uart := snd (configure pconfig (uart d1))\<rparr>)) (uart_configure ops)
                   else Some (RT_EOK, d1))
         | _ \<Rightarrow> Some (RT_EOK, d))
      else if cmd = RT_DEVICE_CTRL_NOTIFY_SET then
        (case args of Arg_Notify f \<Rightarrow> Some (RT_EOK, d\<lparr>rx_notify := f\<rparr>) | _ \<Rightarrow> Some (RT_EOK, d))
      else if cmd = RT_DEVICE_CTRL_CONSOLE_OFLAG then Some (RT_EOK, d)
      else (case uart_control ops cmd args (uart d) of (ret, h) \<Rightarrow> Some (ret, d\<lparr>uart := h\<rparr>)))"

text \<open>The flags that the control command \<^verbatim>\<open>RT_DEVICE_CTRL_CONSOLE_OFLAG\<close> stores through its argument.\<close>

definition console_oflag :: u16 where
  "console_oflag = RT_DEVICE_FLAG_RDWR OR RT_DEVICE_FLAG_INT_RX OR RT_DEVICE_FLAG_STREAM"

definition serial_ops ::
    "'h rt_uart_ops \<Rightarrow> bool \<Rightarrow> ('h \<Rightarrow> 'h option) \<Rightarrow> (u8 list \<Rightarrow> 'h rt_serial_device \<Rightarrow> (int \<times> 'h rt_serial_device) option) \<Rightarrow>
     ('h rt_serial_device, serial_arg) rt_device_ops" where
  "serial_ops ops mem wait dma_tx =
     \<lparr>device_init = Some (rt_serial_init ops), device_open = Some (rt_serial_open ops mem), device_close = Some (rt_serial_close ops),
      device_read = Some (rt_serial_read ops), device_write = Some (rt_serial_write ops wait dma_tx),
      device_control = Some (rt_serial_control ops)\<rparr>"

section \<open>The interrupt handler\<close>

definition fifo_put :: "nat \<Rightarrow> int \<Rightarrow> rt_serial_rx_fifo \<Rightarrow> rt_serial_rx_fifo" where
  "fifo_put sz ch f =
     (let f1 = f\<lparr>rx_buffer := (rx_buffer f)(put_index f := word_of_int ch)\<rparr>;
          f2 = f1\<lparr>put_index := ring_inc sz (put_index f1)\<rparr>
      in if put_index f2 = get_index f2 then f2\<lparr>get_index := ring_inc sz (get_index f2), is_full := True\<rparr>
         else f2)"

partial_function (option) isr_rx_loop :: "('h \<Rightarrow> int \<times> 'h) \<Rightarrow> nat \<Rightarrow> 'h \<Rightarrow> rt_serial_rx_fifo \<Rightarrow> ('h \<times> rt_serial_rx_fifo) option" where
  "isr_rx_loop getc sz h f =
     (case getc h of (ch, h') \<Rightarrow> if ch = -1 then Some (h', f) else isr_rx_loop getc sz h' (fifo_put sz ch f))"

definition fifo_rx_length :: "nat \<Rightarrow> rt_serial_rx_fifo \<Rightarrow> nat" where
  "fifo_rx_length sz f =
     (if put_index f \<ge> get_index f then put_index f - get_index f else sz - (get_index f - put_index f))"

definition indicate :: "nat \<Rightarrow> 'h rt_serial_device \<Rightarrow> 'h rt_serial_device" where
  "indicate n d = (if rx_indicate d \<noteq> None then d\<lparr>indications := indications d @ [n]\<rparr> else d)"

definition isr_rx_ind :: "'h rt_uart_ops \<Rightarrow> 'h rt_serial_device \<Rightarrow> 'h rt_serial_device option" where
  "isr_rx_ind ops d =
     (case serial_rx d of
        Rx_Fifo f \<Rightarrow>
          map_option (\<lambda>(h, f').
            let d1 = d\<lparr>uart := h, serial_rx := Rx_Fifo f'\<rparr>;
                rx_length = fifo_rx_length (bufsz (config d1)) f'
            in if rx_length \<noteq> 0 then indicate rx_length d1 else d1)
          (isr_rx_loop (uart_getc ops) (bufsz (config d)) (uart d) f)
      | _ \<Rightarrow> None)"

definition isr_rx_dmadone :: "nat \<Rightarrow> 'h rt_serial_device \<Rightarrow> 'h rt_serial_device option" where
  "isr_rx_dmadone len d =
     (if bufsz (config d) = 0 then
        (case serial_rx d of
           Rx_Dma _ \<Rightarrow> if rx_indicate d = None then None else Some ((indicate len d)\<lparr>serial_rx := Rx_Dma False\<rparr>)
         | _ \<Rightarrow> None)
      else
        (case serial_rx d of
           Rx_Fifo f \<Rightarrow>
             (let f' = rt_dma_recv_update_put_index (bufsz (config d)) len f
              in Some (indicate (rt_dma_calc_recved_len (bufsz (config d)) f') (d\<lparr>serial_rx := Rx_Fifo f'\<rparr>)))
         | _ \<Rightarrow> None))"

text \<open>The events: the low byte is the kind, the rest the length.\<close>

definition rt_hw_serial_isr ::
    "'h rt_uart_ops \<Rightarrow> (nat \<Rightarrow> 'h rt_serial_device \<Rightarrow> 'h rt_serial_device option) \<Rightarrow> 'h rt_serial_device \<Rightarrow> nat \<Rightarrow> 'h rt_serial_device option" where
  "rt_hw_serial_isr ops tx_event d event =
     (let kind = event mod 256
      in if kind = 1 then isr_rx_ind ops d
         else if kind = 3 then isr_rx_dmadone (event div 256) d
         else if kind = 2 \<or> kind = 4 then tx_event kind d
         else Some d)"

section \<open>Registration\<close>

definition rt_hw_serial_register ::
    "addr \<Rightarrow> addr \<Rightarrow> u16 \<Rightarrow> rt_registry \<times> (addr \<Rightarrow> 'h rt_serial_device) \<Rightarrow>
     (rt_err_t \<times> rt_registry \<times> (addr \<Rightarrow> 'h rt_serial_device)) option" where
  "rt_hw_serial_register serial name flag s =
     rt_device_register serial name flag
       (fst s, (snd s)(serial := (snd s serial)\<lparr>rx_indicate := None, tx_complete := None\<rparr>))"

section \<open>The receive buffer as a queue\<close>

definition keep_last :: "nat \<Rightarrow> 'a list \<Rightarrow> 'a list" where
  "keep_last n xs = drop (length xs - n) xs"

definition fifo_ok :: "nat \<Rightarrow> rt_serial_rx_fifo \<Rightarrow> u8 list \<Rightarrow> bool" where
  "fifo_ok sz f xs \<longleftrightarrow> 2 \<le> sz \<and> sz < 2 ^ 16 \<and> get_index f < sz \<and> length xs < sz \<and>
     put_index f = (get_index f + length xs) mod sz \<and> (is_full f \<longrightarrow> xs \<noteq> []) \<and>
     (\<forall>i < length xs. rx_buffer f ((get_index f + i) mod sz) = xs ! i)"

lemma ring_neq: "i < j \<Longrightarrow> j < sz \<Longrightarrow> (g + i) mod sz \<noteq> (g + j) mod (sz :: nat)"
proof
  assume "i < j" "j < sz" "(g + i) mod sz = (g + j) mod sz"
  then have "sz dvd (g + j) - (g + i)" by (metis mod_eq_dvd_iff_nat add_le_cancel_left less_imp_le)
  then show False using \<open>i < j\<close> \<open>j < sz\<close> by (auto dest: dvd_imp_le)
qed

lemma ring_next: "x < sz \<Longrightarrow> sz < 2 ^ 16 \<Longrightarrow> ring_inc sz x = Suc x mod sz"
  by (auto simp: ring_inc_def Let_def mod_if)

lemma ring_shift: "((g + 1) mod sz + i) mod sz = (g + (i + 1)) mod (sz :: nat)"
  by (metis add.assoc add.commute mod_add_left_eq)

lemma fifo_empty_iff: "fifo_ok sz f xs \<Longrightarrow> get_index f = put_index f \<and> \<not> is_full f \<longleftrightarrow> xs = []"
  using ring_neq [of 0 "length xs" sz "get_index f"] by (cases "xs = []") (auto simp: fifo_ok_def)

lemma fifo_put_ok:
  assumes "fifo_ok sz f xs"
  shows "fifo_ok sz (fifo_put sz ch f) (keep_last (sz - 1) (xs @ [word_of_int ch]))"
proof -
  let ?g = "get_index f" and ?p = "put_index f" and ?b = "(rx_buffer f)(put_index f := word_of_int ch)"
  have f: "2 \<le> sz" "sz < 2 ^ 16" "?g < sz" "length xs < sz" "?p = (?g + length xs) mod sz"
    "\<And>i. i < length xs \<Longrightarrow> rx_buffer f ((?g + i) mod sz) = xs ! i" using assms by (auto simp: fifo_ok_def)
  have p: "?p < sz" using f by simp
  have p': "(?p + 1) mod sz = (?g + (length xs + 1)) mod sz" using f(5) by (simp add: mod_Suc_eq)
  have b: "?b ((?g + i) mod sz) = (xs @ [word_of_int ch]) ! i" if "i \<le> length xs" for i
    using that f(4,5,6) ring_neq [of i "length xs" sz ?g] by (cases "i = length xs") (auto simp: nth_append)
  note np = ring_next [OF p f(2)] and ng = ring_next [OF f(3,2)]
  show ?thesis
  proof (cases "length xs + 1 = sz")
    case True
    then have eq: "(?p + 1) mod sz = ?g" using p' f(3) by simp
    have fp: "fifo_put sz ch f = f\<lparr>rx_buffer := ?b, put_index := ?g, get_index := (?g + 1) mod sz, is_full := True\<rparr>"
      using eq by (simp add: fifo_put_def Let_def np ng)
    have k: "keep_last (sz - 1) (xs @ [word_of_int ch]) = tl (xs @ [word_of_int ch])"
      using True f(1) by (cases xs) (auto simp: keep_last_def)
    have tl: "length (tl (xs @ [word_of_int ch :: u8])) = sz - 1" using True by simp
    have "?g = ((?g + 1) mod sz + length (tl (xs @ [word_of_int ch :: u8]))) mod sz"
      unfolding ring_shift tl using f(1,3) by simp
    moreover have "?b (((?g + 1) mod sz + i) mod sz) = tl (xs @ [word_of_int ch]) ! i" if "i < length (tl (xs @ [word_of_int ch :: u8]))" for i
      using b [of "i + 1"] that unfolding ring_shift by (simp add: nth_tl)
    moreover have "tl (xs @ [word_of_int ch]) \<noteq> []" using True f(1) by (cases xs) auto
    ultimately show ?thesis unfolding fp k fifo_ok_def using f tl by auto
  next
    case False
    then have lt: "length xs + 1 < sz" using f(4) by simp
    have "(?p + 1) mod sz \<noteq> ?g" using p' ring_neq [of 0 "length xs + 1" sz ?g] lt f(3) by simp
    then have fp: "fifo_put sz ch f = f\<lparr>rx_buffer := ?b, put_index := (?p + 1) mod sz\<rparr>"
      by (simp add: fifo_put_def Let_def np)
    have k: "keep_last (sz - 1) (xs @ [word_of_int ch]) = xs @ [word_of_int ch]" using lt by (simp add: keep_last_def)
    show ?thesis unfolding fp k using f lt p' b by (auto simp: fifo_ok_def)
  qed
qed

lemma int_rx_loop_ok:
  assumes "fifo_ok sz f xs"
  shows "\<exists>f'. int_rx_loop sz n f acc = (acc @ take n xs, f') \<and> fifo_ok sz f' (drop n xs)"
  using assms
proof (induction n arbitrary: f xs acc)
  case (Suc n)
  show ?case
  proof (cases xs)
    case Nil
    then show ?thesis using Suc.prems fifo_empty_iff by auto
  next
    case (Cons x xs')
    let ?f = "f\<lparr>get_index := (get_index f + 1) mod sz, is_full := False\<rparr>"
    have f: "2 \<le> sz" "sz < 2 ^ 16" "get_index f < sz" "length xs' + 1 < sz" "put_index f = (get_index f + (length xs' + 1)) mod sz"
      "\<And>i. i < length xs' + 1 \<Longrightarrow> rx_buffer f ((get_index f + i) mod sz) = xs ! i"
      using Suc.prems Cons by (auto simp: fifo_ok_def)
    have "fifo_ok sz ?f xs'"
      using f(1-5) f(6) [of "i + 1" for i] Cons by (simp add: fifo_ok_def ring_shift [unfolded Suc_eq_plus1 [symmetric]])
    moreover have "int_rx_loop sz (Suc n) f acc = int_rx_loop sz n ?f (acc @ [x])"
      using fifo_empty_iff [OF Suc.prems] Cons f(6) [of 0] f(3) by (auto simp: Let_def ring_next [OF f(3,2)])
    ultimately show ?thesis using Suc.IH [of ?f xs' "acc @ [x]"] Cons by simp
  qed
qed simp

lemma keep_last_keep_last: "keep_last n (keep_last n xs @ ys) = keep_last n (xs @ ys)"
proof (cases "length xs \<le> n")
  case False
  then have "length xs - n + (n + length ys - n) = length xs + length ys - n" by simp
  then show ?thesis using False by (simp add: keep_last_def add.commute)
qed (simp add: keep_last_def)

text \<open>What a driver delivers before it reports that there is nothing more.\<close>

fun yields :: "('h \<Rightarrow> int \<times> 'h) \<Rightarrow> 'h \<Rightarrow> int list \<Rightarrow> 'h \<Rightarrow> bool" where
  "yields getc h [] h' \<longleftrightarrow> getc h = (-1, h')"
| "yields getc h (c # cs) h' \<longleftrightarrow> c \<noteq> -1 \<and> fst (getc h) = c \<and> yields getc (snd (getc h)) cs h'"

lemma isr_rx_loop_ok:
  assumes "fifo_ok sz f xs" and "yields getc h cs h'"
  shows "\<exists>f'. isr_rx_loop getc sz h f = Some (h', f') \<and> fifo_ok sz f' (keep_last (sz - 1) (xs @ map word_of_int cs))"
  using assms
proof (induction cs arbitrary: h f xs)
  case Nil
  then have "keep_last (sz - 1) xs = xs" by (simp add: keep_last_def fifo_ok_def)
  then show ?case using Nil by (subst isr_rx_loop.simps) simp
next
  case (Cons c cs)
  let ?xs = "keep_last (sz - 1) (xs @ [word_of_int c])"
  obtain h1 where h1: "getc h = (c, h1)" "c \<noteq> -1" "yields getc h1 cs h'" using Cons.prems(2) by (cases "getc h") auto
  have "isr_rx_loop getc sz h f = isr_rx_loop getc sz h1 (fifo_put sz c f)" using h1 by (subst isr_rx_loop.simps) simp
  moreover obtain f' where "isr_rx_loop getc sz h1 (fifo_put sz c f) = Some (h', f')"
    "fifo_ok sz f' (keep_last (sz - 1) (?xs @ map word_of_int cs))"
    using Cons.IH [OF fifo_put_ok [OF Cons.prems(1)] h1(3)] by blast
  ultimately show ?case using keep_last_keep_last [of "sz - 1" "xs @ [word_of_int c]" "map word_of_int cs"] by auto
qed

text \<open>A device that receives by interrupts and whose buffer holds \<open>xs\<close>.\<close>

definition receiving :: "'h rt_serial_device \<Rightarrow> u8 list \<Rightarrow> bool" where
  "receiving d xs \<longleftrightarrow> ref_count d \<noteq> 0 \<and> has (open_flag d) RT_DEVICE_FLAG_INT_RX \<and>
     (\<exists>f. serial_rx d = Rx_Fifo f \<and> fifo_ok (bufsz (config d)) f xs)"

lemma receiving_isr:
  assumes "receiving d xs" and "yields (uart_getc ops) (uart d) cs h"
  defines "ys \<equiv> keep_last (bufsz (config d) - 1) (xs @ map word_of_int cs)"
  shows "\<exists>d'. rt_hw_serial_isr ops tx_event d 1 = Some d' \<and> receiving d' ys \<and> uart d' = h \<and> config d' = config d \<and>
    indications d' = indications d @ (if rx_indicate d = None \<or> ys = [] then [] else [length ys])"
proof -
  obtain f where f: "serial_rx d = Rx_Fifo f" "fifo_ok (bufsz (config d)) f xs" using assms(1) by (auto simp: receiving_def)
  obtain f' where f': "isr_rx_loop (uart_getc ops) (bufsz (config d)) (uart d) f = Some (h, f')" "fifo_ok (bufsz (config d)) f' ys"
    using isr_rx_loop_ok [OF f(2) assms(2)] by (auto simp: ys_def)
  let ?sz = "bufsz (config d)"
  have len: "fifo_rx_length ?sz f' = length ys"
    using f'(2) by (auto simp: fifo_rx_length_def fifo_ok_def mod_if split: if_splits)
  have "rt_hw_serial_isr ops tx_event d 1 =
      Some (let d1 = d\<lparr>uart := h, serial_rx := Rx_Fifo f'\<rparr> in if length ys \<noteq> 0 then indicate (length ys) d1 else d1)"
    using f(1) f'(1) by (simp add: rt_hw_serial_isr_def isr_rx_ind_def Let_def len)
  then show ?thesis using assms(1) f'(2) by (auto simp: indicate_def receiving_def Let_def)
qed

lemma receiving_read:
  assumes "receiving d xs"
  shows "\<exists>d'. rt_device_read (serial_ops ops mem wait dma_tx) d pos n = Some (int (length (take n xs)), None, take n xs, d') \<and>
    receiving d' (drop n xs) \<and> uart d' = uart d \<and> config d' = config d"
proof -
  obtain f where f: "serial_rx d = Rx_Fifo f" "fifo_ok (bufsz (config d)) f xs" using assms by (auto simp: receiving_def)
  obtain f' where f': "int_rx_loop (bufsz (config d)) n f [] = (take n xs, f')" "fifo_ok (bufsz (config d)) f' (drop n xs)"
    using int_rx_loop_ok [OF f(2), of n "[]"] by auto
  show ?thesis
  proof (cases "n = 0")
    case True
    then show ?thesis using assms by (simp add: rt_device_read_def serial_ops_def rt_serial_read_def receiving_def)
  next
    case False
    then show ?thesis using assms f f'
      by (auto simp: rt_device_read_def serial_ops_def rt_serial_read_def serial_int_rx_def receiving_def)
  qed
qed

section \<open>Examples\<close>

text \<open>A port whose hardware is the list of bytes that wait, and a device with a buffer of four bytes.\<close>

definition list_uart :: "u8 list rt_uart_ops" where
  "list_uart = \<lparr>uart_configure = None, uart_control = \<lambda>_ _ h. (RT_EOK, h), uart_putc = \<lambda>b h. Some (1, h),
     uart_getc = \<lambda>h. (case h of [] \<Rightarrow> (-1, []) | b # bs \<Rightarrow> (uint b, bs)), uart_dma_transmit = None\<rparr>"

definition demo_serial :: "u16 \<Rightarrow> u16 \<Rightarrow> u8 \<Rightarrow> serial_rx_mode \<Rightarrow> 'h \<Rightarrow> 'h rt_serial_device" where
  "demo_serial flag oflag count rx h =
     \<lparr>dev_flag = flag, open_flag = oflag, ref_count = count, rx_indicate = Some 500, tx_complete = None,
      config = \<lparr>baud_rate = 115200, data_bits = 8, stop_bits = 0, parity = 0, bit_order = 0, invert = 0, bufsz = 4,
        flowcontrol = 0, cfg_reserved = 0\<rparr>,
      serial_rx = rx, serial_tx = Tx_Null, rx_notify = None, uart = h, indications = []\<rparr>"

lemma demo_receiving: "receiving (demo_serial 0x113 0x10B 1 (Rx_Fifo empty_fifo) h) []"
  by (simp add: receiving_def demo_serial_def fifo_ok_def empty_fifo_def has_def flag_defs)

lemma list_uart_yields: "yields (uart_getc list_uart) bs (map uint bs) []"
proof (induction bs)
  case (Cons b bs)
  have "uint b \<noteq> -1" by (metis uint_nonnegative neg_0_le_iff_le not_one_le_zero)
  then show ?case using Cons by (simp add: list_uart_def)
qed (simp add: list_uart_def)

section \<open>Receiving and reading in any order\<close>

definition serial_pending :: "'h rt_serial_device \<Rightarrow> u8 list" where
  "serial_pending d =
     (case serial_rx d of
        Rx_Fifo f \<Rightarrow> map (\<lambda>i. rx_buffer f ((get_index f + i) mod bufsz (config d))) [0..<fifo_rx_length (bufsz (config d)) f]
      | _ \<Rightarrow> [])"

lemma receiving_pending:
  assumes "receiving d xs"
  shows "serial_pending d = xs"
proof -
  obtain f where f: "serial_rx d = Rx_Fifo f" "fifo_ok (bufsz (config d)) f xs" using assms by (auto simp: receiving_def)
  have "fifo_rx_length (bufsz (config d)) f = length xs"
    using f(2) by (auto simp: fifo_rx_length_def fifo_ok_def mod_if split: if_splits)
  then show ?thesis using f by (auto simp: serial_pending_def fifo_ok_def intro: nth_equalityI)
qed

text \<open>A receive interrupt, a read by an application, and anything that happens on the line.  The state has the bytes that arrived, the
  bytes that were read, and whether every interrupt found room for its bytes.\<close>

inductive ser_step ::
    "'h rt_uart_ops \<Rightarrow> ('h rt_serial_device, serial_arg) rt_device_ops \<Rightarrow> 'h rt_serial_device \<times> u8 list \<times> u8 list \<times> bool \<Rightarrow>
     'h rt_serial_device \<times> u8 list \<times> u8 list \<times> bool \<Rightarrow> bool"
  for ops dops where
  isr: "yields (uart_getc ops) (uart d) cs h \<Longrightarrow> rt_hw_serial_isr ops tx_event d 1 = Some d' \<Longrightarrow>
    ser_step ops dops (d, ins, outs, room)
      (d', ins @ map word_of_int cs, outs, room \<and> length (serial_pending d) + length cs < bufsz (config d))"
| read: "rt_device_read dops d pos n = Some (k, err, bs, d') \<Longrightarrow> ser_step ops dops (d, ins, outs, room) (d', ins, outs @ bs, room)"
| line: "ser_step ops dops (d, ins, outs, room) (d\<lparr>uart := h\<rparr>, ins, outs, room)"

definition ser_inv :: "'h rt_serial_device \<times> u8 list \<times> u8 list \<times> bool \<Rightarrow> bool" where
  "ser_inv = (\<lambda>(d, ins, outs, room). \<exists>xs. receiving d xs \<and> subseq (outs @ xs) ins \<and> (room \<longrightarrow> outs @ xs = ins))"

lemma subseq_keep_last: "subseq (keep_last n xs) xs"
  by (simp add: keep_last_def suffix_drop suffix_imp_subseq)

lemma ser_step_inv:
  assumes "ser_step ops (serial_ops ops mem wait dma_tx) s s'" and "ser_inv s"
  shows "ser_inv s'"
  using assms
proof (induction rule: ser_step.induct)
  case (isr d cs h tx_event d' ins outs room)
  then obtain xs where xs: "receiving d xs" "subseq (outs @ xs) ins" "room \<longrightarrow> outs @ xs = ins" by (auto simp: ser_inv_def)
  let ?bs = "map word_of_int cs :: u8 list" and ?n = "bufsz (config d) - 1"
  have d': "receiving d' (keep_last ?n (xs @ ?bs))" using receiving_isr [OF xs(1) isr(1), of tx_event] isr(2) by auto
  have "subseq (outs @ keep_last ?n (xs @ ?bs)) (outs @ xs @ ?bs)"
    by (rule list_emb_append_mono) (simp_all add: subseq_keep_last)
  moreover have "subseq (outs @ xs @ ?bs) (ins @ ?bs)"
    using list_emb_append_mono [OF xs(2), of ?bs ?bs] by simp
  ultimately have "subseq (outs @ keep_last ?n (xs @ ?bs)) (ins @ ?bs)" by (rule subseq_order.trans)
  moreover have "keep_last ?n (xs @ ?bs) = xs @ ?bs" if "length xs + length cs < bufsz (config d)"
    using that by (simp add: keep_last_def)
  ultimately show ?case using d' xs(3) receiving_pending [OF xs(1)] by (auto simp: ser_inv_def)
next
  case (read d pos n k err bs d' ins outs room)
  then obtain xs where xs: "receiving d xs" "subseq (outs @ xs) ins" "room \<longrightarrow> outs @ xs = ins" by (auto simp: ser_inv_def)
  have "receiving d' (drop n xs)" "bs = take n xs" using receiving_read [OF xs(1), of ops mem wait dma_tx pos n] read(1) by auto
  then show ?case using xs by (auto simp: ser_inv_def)
next
  case (line d ins outs room h)
  then show ?case by (auto simp: ser_inv_def receiving_def)
qed

text \<open>C2: In any interleaving of receive interrupts and reads, what has been read, followed by what is still in the buffer, is what
  arrived with some bytes left out, in the order of arrival; and nothing is left out if no interrupt found the buffer with less
  room than bytes, a buffer of \<open>bufsz\<close> bytes having room for \<open>bufsz - 1\<close>.\<close>

theorem serial_rx_stream:
  assumes "(ser_step ops (serial_ops ops mem wait dma_tx))\<^sup>*\<^sup>* (d0, [], [], True) (d, ins, outs, room)" and "receiving d0 []"
  shows "subseq (outs @ serial_pending d) ins \<and> (room \<longrightarrow> outs @ serial_pending d = ins)"
proof -
  have "ser_inv (d0, [], [], True)" using assms(2) by (auto simp: ser_inv_def)
  with assms(1) have "ser_inv (d, ins, outs, room)"
    by (induction rule: rtranclp_induct) (auto intro: ser_step_inv)
  then show ?thesis using receiving_pending by (auto simp: ser_inv_def)
qed

theorem serial_rx_stream_witness:
  "\<exists>d. (ser_step list_uart (serial_ops list_uart True (\<lambda>_. None) (\<lambda>_ _. None)))\<^sup>*\<^sup>*
     (demo_serial 0x113 0x10B 1 (Rx_Fifo empty_fifo) [65, 66], [], [], True) (d, [65, 66], [65], True) \<and> serial_pending d = [66]"
proof -
  let ?ops = "serial_ops list_uart True (\<lambda>_. None) (\<lambda>_ _. None)" and ?d0 = "demo_serial 0x113 0x10B 1 (Rx_Fifo empty_fifo) [65, 66 :: u8]"
  note rec = demo_receiving [of "[65, 66 :: u8]"]
  have y: "yields (uart_getc list_uart) (uart ?d0) (map uint [65, 66 :: u8]) []"
    using list_uart_yields [of "[65, 66]"] by (simp add: demo_serial_def)
  obtain d1 where d1: "rt_hw_serial_isr list_uart (\<lambda>_. Some) ?d0 1 = Some d1" "receiving d1 (keep_last 3 [65, 66])"
    using receiving_isr [OF rec y, of "\<lambda>_. Some"] by (auto simp: demo_serial_def)
  obtain d2 where d2: "rt_device_read ?ops d1 0 1 = Some (1, None, [65], d2)"
    using receiving_read [OF d1(2), of list_uart True "\<lambda>_. None" "\<lambda>_ _. None" 0 1] by (auto simp: keep_last_def)
  have "ser_step list_uart ?ops (?d0, [], [], True) (d1, [65, 66], [], True)"
    using ser_step.isr [OF y d1(1), of ?ops "[]" "[]" True] receiving_pending [OF rec] by (simp add: demo_serial_def)
  moreover have "ser_step list_uart ?ops (d1, [65, 66], [], True) (d2, [65, 66], [65], True)"
    using ser_step.read [OF d2, of list_uart "[65, 66]" "[]" True] by simp
  ultimately have run: "(ser_step list_uart ?ops)\<^sup>*\<^sup>* (?d0, [], [], True) (d2, [65, 66], [65], True)" by simp
  then show ?thesis using serial_rx_stream [OF run rec] by auto
qed

text \<open>A receive interrupt ends, leaves the newest bytes in the buffer, at most \<open>bufsz - 1\<close> of them, and tells the application how many
  there are; a read takes the oldest of them.\<close>

theorem serial_isr_keeps_newest:
  assumes "receiving d xs" and "yields (uart_getc ops) (uart d) cs h"
  shows "\<exists>d'. rt_hw_serial_isr ops tx_event d 1 = Some d' \<and>
    serial_pending d' = keep_last (bufsz (config d) - 1) (xs @ map word_of_int cs) \<and>
    (rx_indicate d \<noteq> None \<and> serial_pending d' \<noteq> [] \<longrightarrow> indications d' = indications d @ [length (serial_pending d')]) \<and>
    (\<exists>d''. rt_device_read (serial_ops ops mem wait dma_tx) d' 0 n =
       Some (int (min n (length (serial_pending d'))), None, take n (serial_pending d'), d'') \<and> serial_pending d'' = drop n (serial_pending d'))"
proof -
  let ?ys = "keep_last (bufsz (config d) - 1) (xs @ map word_of_int cs)"
  obtain d' where d': "rt_hw_serial_isr ops tx_event d 1 = Some d'" "receiving d' ?ys"
    "indications d' = indications d @ (if rx_indicate d = None \<or> ?ys = [] then [] else [length ?ys])"
    using receiving_isr [OF assms] by blast
  obtain d'' where "rt_device_read (serial_ops ops mem wait dma_tx) d' 0 n = Some (int (length (take n ?ys)), None, take n ?ys, d'')"
    "receiving d'' (drop n ?ys)" using receiving_read [OF d'(2)] by blast
  then show ?thesis using d' receiving_pending by (auto simp: min.commute)
qed

theorem serial_isr_keeps_newest_witness:
  "\<exists>d'. rt_hw_serial_isr list_uart (\<lambda>_. Some) (demo_serial 0x113 0x10B 1 (Rx_Fifo empty_fifo) [65, 66, 67, 68, 69]) 1 = Some d' \<and>
     serial_pending d' = [67, 68, 69] \<and> indications d' = [3]"
proof -
  let ?d = "demo_serial 0x113 0x10B 1 (Rx_Fifo empty_fifo) [65, 66, 67, 68, 69 :: u8]"
  have y: "yields (uart_getc list_uart) (uart ?d) (map uint [65, 66, 67, 68, 69 :: u8]) []"
    using list_uart_yields [of "[65, 66, 67, 68, 69]"] by (simp add: demo_serial_def)
  have "keep_last 3 [65, 66, 67, 68, 69 :: u8] = [67, 68, 69]" by (simp add: keep_last_def)
  then show ?thesis
    using serial_isr_keeps_newest [OF demo_receiving y, of "\<lambda>_. Some" True "\<lambda>_. None" "\<lambda>_ _. None" 0]
    by (auto simp: demo_serial_def)
qed

section \<open>The contract with the device framework\<close>

lemma ctl_simps [simp]:
  "ref_count (uart_ctl ops cmd arg d) = ref_count d" "open_flag (uart_ctl ops cmd arg d) = open_flag d"
  "dev_flag (uart_ctl ops cmd arg d) = dev_flag d" "serial_rx (uart_ctl ops cmd arg d) = serial_rx d"
  "serial_tx (uart_ctl ops cmd arg d) = serial_tx d" "config (uart_ctl ops cmd arg d) = config d"
  "rx_indicate (uart_ctl ops cmd arg d) = rx_indicate d"
  by (simp_all add: uart_ctl_def)

lemma oflag_simps [simp]:
  "ref_count (set_oflag b d) = ref_count d" "open_flag (set_oflag b d) = open_flag d OR b" "dev_flag (set_oflag b d) = dev_flag d"
  "serial_rx (set_oflag b d) = serial_rx d" "serial_tx (set_oflag b d) = serial_tx d" "config (set_oflag b d) = config d"
  "uart (set_oflag b d) = uart d" "rx_indicate (set_oflag b d) = rx_indicate d"
  "ref_count (clear_oflag b d) = ref_count d" "open_flag (clear_oflag b d) = open_flag d AND NOT b" "dev_flag (clear_oflag b d) = dev_flag d"
  "serial_rx (clear_oflag b d) = serial_rx d" "serial_tx (clear_oflag b d) = serial_tx d" "config (clear_oflag b d) = config d"
  by (simp_all add: set_oflag_def clear_oflag_def)

lemma open_rx_keeps: "open_rx ops mem oflag d = Some d' \<Longrightarrow> ref_count d' = ref_count d"
  by (auto simp: open_rx_def split: if_splits)

lemma open_tx_keeps: "open_tx ops mem oflag d = Some d' \<Longrightarrow> ref_count d' = ref_count d"
  by (auto simp: open_tx_def split: if_splits)

lemma close_keeps [simp]: "ref_count (close_rx ops d) = ref_count d" "ref_count (close_tx ops d) = ref_count d"
  by (simp_all add: close_rx_def close_tx_def)

text \<open>The serial device is a driver in the sense of the framework if its own driver's \<^verbatim>\<open>configure\<close> does not answer \<^verbatim>\<open>-RT_ENOSYS\<close>.\<close>

lemma serial_device_driver:
  assumes "\<And>conf cfg h. uart_configure ops = Some conf \<Longrightarrow> fst (conf cfg h) \<noteq> - RT_ENOSYS"
    and "\<And>bs d n d'. dma_tx bs d = Some (n, d') \<Longrightarrow> ref_count d' = ref_count d \<and> open_flag d' = open_flag d"
  shows "device_driver (serial_ops ops mem wait dma_tx)"
proof
  fix init d e d'
  assume "device_init (serial_ops ops mem wait dma_tx) = Some init" "init d = Some (e, d')"
  then show "ref_count d' = ref_count d \<and> is_open d' = is_open d \<and> e \<noteq> - RT_ENOSYS"
    using assms(1) [of _ "config d" "uart d"]
    by (cases "uart_configure ops") (auto simp: serial_ops_def rt_serial_init_def Let_def is_open_def RT_EOK_def RT_ENOSYS_def split: prod.splits)
next
  fix op d oflag e d'
  assume "device_open (serial_ops ops mem wait dma_tx) = Some op" "op d oflag = Some (e, d')"
  then show "ref_count d' = ref_count d \<and> (ok_result e \<or> is_open d' = is_open d)"
    by (auto simp: serial_ops_def rt_serial_open_def Let_def ok_result_def bind_eq_Some_conv dest!: open_rx_keeps open_tx_keeps split: if_splits)
next
  fix close d e d'
  assume "device_close (serial_ops ops mem wait dma_tx) = Some close" "close d = Some (e, d')"
  then show "ref_count d' = ref_count d \<and> ok_result e"
    by (auto simp: serial_ops_def rt_serial_close_def Let_def ok_result_def split: if_splits)
next
  fix rd d pos sz k bs d'
  assume "device_read (serial_ops ops mem wait dma_tx) = Some rd" "rd d pos sz = Some (k, bs, d')"
  then show "ref_count d' = ref_count d \<and> is_open d' = is_open d"
    by (auto simp: serial_ops_def rt_serial_read_def serial_int_rx_def serial_dma_rx_def serial_poll_rx_def Let_def is_open_def
        split: if_splits serial_rx_mode.splits prod.splits)
next
  fix wr d pos bs k d'
  assume "device_write (serial_ops ops mem wait dma_tx) = Some wr" "wr d pos bs = Some (k, d')"
  then show "ref_count d' = ref_count d \<and> is_open d' = is_open d"
    using assms(2) [of bs d]
    by (auto simp: serial_ops_def rt_serial_write_def serial_int_tx_def serial_poll_tx_def is_open_def split: if_splits)
next
  fix ctl d cmd arg e d'
  assume "device_control (serial_ops ops mem wait dma_tx) = Some ctl" "ctl d cmd arg = Some (e, d')"
  then show "ref_count d' = ref_count d \<and> is_open d' = is_open d"
    by (auto simp: serial_ops_def rt_serial_control_def Let_def is_open_def split: if_splits serial_arg.splits prod.splits)
qed

section \<open>Opening\<close>

lemma has_low [simp]: "\<not> has (f AND 0xff) RT_DEVICE_FLAG_INT_RX" "\<not> has (f AND 0xff) RT_DEVICE_FLAG_DMA_RX"
  "\<not> has (f AND 0xff) RT_DEVICE_FLAG_INT_TX" "\<not> has (f AND 0xff) RT_DEVICE_FLAG_DMA_TX"
  by (simp_all add: has_def flag_defs and.assoc)

lemma has_consts [simp]:
  "\<not> has RT_DEVICE_FLAG_INT_TX RT_DEVICE_FLAG_INT_RX" "\<not> has RT_DEVICE_FLAG_DMA_TX RT_DEVICE_FLAG_INT_RX"
  "\<not> has RT_DEVICE_FLAG_STREAM RT_DEVICE_FLAG_INT_RX" "\<not> has RT_DEVICE_FLAG_STREAM RT_DEVICE_FLAG_DMA_RX"
  "\<not> has RT_DEVICE_OFLAG_OPEN RT_DEVICE_FLAG_INT_RX" "\<not> has RT_DEVICE_OFLAG_OPEN RT_DEVICE_FLAG_DMA_RX"
  "\<not> has 0 b"
  by (simp_all add: has_def flag_defs)

lemma open_tx_rx: "open_tx ops mem oflag d = Some d' \<Longrightarrow> serial_rx d' = serial_rx d \<and> config d' = config d \<and> dev_flag d' = dev_flag d"
  by (auto simp: open_tx_def split: if_splits)

lemma open_tx_flag: "open_tx ops mem oflag d = Some d' \<Longrightarrow> has (open_flag d') RT_DEVICE_FLAG_INT_RX = has (open_flag d) RT_DEVICE_FLAG_INT_RX"
  by (auto simp: open_tx_def has_or_iff split: if_splits)

text \<open>Opening a device that is closed for interrupt-driven reception makes it receive, with an empty buffer.\<close>

theorem serial_open_receives:
  assumes "rt_device_open (serial_ops ops mem wait dma_tx) d oflag = Some (RT_EOK, d')"
    and "has oflag RT_DEVICE_FLAG_INT_RX" and "\<not> has (dev_flag d) RT_DEVICE_FLAG_ACTIVATED" and "\<not> is_open d" and "ref_count d = 0"
    and "2 \<le> bufsz (config d)" and "bufsz (config d) < 2 ^ 16"
  shows "receiving d' []"
proof -
  obtain d1 where d1: "open_activate (serial_ops ops mem wait dma_tx) d = Some (RT_EOK, d1)" "serial_rx d1 = Rx_Null"
    "config d1 = config d" "ref_count d1 = 0" "\<not> is_open d1"
    using assms(1,3-5)
    by (auto simp: rt_device_open_def open_activate_def serial_ops_def rt_serial_init_def Let_def is_open_def bind_eq_Some_conv
        split: if_splits option.splits prod.splits)
  obtain d2 where d2: "rt_serial_open ops mem d1 oflag = Some (RT_EOK, d2)" "d' = snd (open_count (RT_EOK, d2))"
    using assms(1) d1 by (auto simp: rt_device_open_def open_driver_def serial_ops_def is_open_def open_count_def RT_EOK_def
        RT_EBUSY_def RT_ENOSYS_def split: if_splits prod.splits)
  obtain d3 d4 where d3: "open_rx ops mem oflag (d1\<lparr>open_flag := oflag AND 0xff\<rparr>) = Some d3" "open_tx ops mem oflag d3 = Some d4"
    and d4: "\<exists>b. d2 = set_oflag b d4"
    using d2(1) by (auto simp: rt_serial_open_def Let_def bind_eq_Some_conv RT_EOK_def RT_EIO_def split: if_splits)
  have "serial_rx d3 = Rx_Fifo empty_fifo" "has (open_flag d3) RT_DEVICE_FLAG_INT_RX" "config d3 = config d"
    using d3(1) d1 assms(2) by (auto simp: open_rx_def flag_defs split: if_splits)
  moreover have "fifo_ok (bufsz (config d)) empty_fifo []" using assms(6,7) by (simp add: fifo_ok_def empty_fifo_def)
  ultimately have "serial_rx d2 = Rx_Fifo empty_fifo" "has (open_flag d2) RT_DEVICE_FLAG_INT_RX" "config d2 = config d"
    using d4 open_tx_rx [OF d3(2)] open_tx_flag [OF d3(2)] by (auto simp: has_or_iff)
  then show ?thesis using d2(2) \<open>fifo_ok _ _ _\<close> d1(4) open_rx_keeps [OF d3(1)] open_tx_keeps [OF d3(2)] d4
    by (auto simp: receiving_def open_count_def has_or_iff)
qed

theorem serial_open_receives_witness:
  "\<exists>d'. rt_device_open (serial_ops list_uart True (\<lambda>_. None) (\<lambda>_ _. None)) (demo_serial 0x103 0 0 Rx_Null []) 0x103 = Some (RT_EOK, d') \<and>
     receiving d' []"
proof -
  let ?d = "demo_serial 0x103 0 0 Rx_Null ([] :: u8 list)"
  have "\<exists>d'. rt_device_open (serial_ops list_uart True (\<lambda>_. None) (\<lambda>_ _. None)) ?d 0x103 = Some (RT_EOK, d')"
    by (simp add: rt_device_open_def open_activate_def open_driver_def open_count_def serial_ops_def rt_serial_init_def rt_serial_open_def
        open_refused_def open_rx_def open_tx_def uart_ctl_def list_uart_def has_def flag_defs demo_serial_def Let_def RT_EOK_def)
  then obtain d' where d': "rt_device_open (serial_ops list_uart True (\<lambda>_. None) (\<lambda>_ _. None)) ?d 0x103 = Some (RT_EOK, d')" by blast
  have "receiving d' []" by (rule serial_open_receives [OF d']) (simp_all add: has_def flag_defs demo_serial_def is_open_def)
  then show ?thesis using d' by blast
qed

text \<open>A second user who opens the device without interrupt-driven reception takes it away from the first: from then on every read
  polls the hardware, and what the interrupt handler puts into the buffer is never read.\<close>

theorem serial_second_open_polls:
  assumes "receiving d xs" and "is_open d" and "has (dev_flag d) RT_DEVICE_FLAG_ACTIVATED" and "\<not> has (dev_flag d) RT_DEVICE_FLAG_STANDALONE"
    and "ref_count d \<noteq> 255"
  shows "\<exists>d'. rt_device_open (serial_ops ops mem wait dma_tx) d RT_DEVICE_FLAG_RDWR = Some (RT_EOK, d') \<and> serial_pending d' = xs \<and>
    rt_device_read (serial_ops ops mem wait dma_tx) d' pos (Suc n) =
      (case serial_poll_rx ops (Suc n) d' of (bs, d'') \<Rightarrow> Some (int (length bs), None, bs, d''))"
proof -
  obtain f where f: "serial_rx d = Rx_Fifo f" "has (open_flag d) RT_DEVICE_FLAG_INT_RX" using assms(1) by (auto simp: receiving_def)
  have oflag: "\<not> has RT_DEVICE_FLAG_RDWR RT_DEVICE_FLAG_INT_RX" "\<not> has RT_DEVICE_FLAG_RDWR RT_DEVICE_FLAG_DMA_RX"
    "\<not> has RT_DEVICE_FLAG_RDWR RT_DEVICE_FLAG_INT_TX" "\<not> has RT_DEVICE_FLAG_RDWR RT_DEVICE_FLAG_DMA_TX"
    "\<not> has RT_DEVICE_FLAG_RDWR RT_DEVICE_FLAG_STREAM"
    by (simp_all add: has_def flag_defs)
  let ?st = "if has (open_flag d) RT_DEVICE_FLAG_STREAM then RT_DEVICE_FLAG_STREAM else 0"
  have "open_tx ops mem RT_DEVICE_FLAG_RDWR d1 = Some d1" for d1
    using oflag by (cases d1) (simp add: open_tx_def)
  then have tx: "rt_serial_open ops mem d RT_DEVICE_FLAG_RDWR = Some (RT_EOK, d\<lparr>open_flag := RT_DEVICE_FLAG_RDWR AND 0xff OR ?st\<rparr>)"
    using f oflag by (simp add: rt_serial_open_def open_refused_def open_rx_def set_oflag_def Let_def)
  have differ: "open_flag d AND RT_DEVICE_OFLAG_MASK \<noteq> (RT_DEVICE_FLAG_RDWR AND RT_DEVICE_OFLAG_MASK) OR RT_DEVICE_OFLAG_OPEN"
  proof
    assume eq: "open_flag d AND RT_DEVICE_OFLAG_MASK = (RT_DEVICE_FLAG_RDWR AND RT_DEVICE_OFLAG_MASK) OR RT_DEVICE_OFLAG_OPEN"
    have "open_flag d AND RT_DEVICE_FLAG_INT_RX = (open_flag d AND RT_DEVICE_OFLAG_MASK) AND RT_DEVICE_FLAG_INT_RX"
      by (simp add: flag_defs and.assoc)
    then show False using f(2) unfolding eq by (simp add: has_def flag_defs)
  qed
  let ?d = "d\<lparr>open_flag := (RT_DEVICE_FLAG_RDWR AND 0xff OR ?st) OR RT_DEVICE_OFLAG_OPEN, ref_count := ref_count d + 1\<rparr>"
  have "rt_device_open (serial_ops ops mem wait dma_tx) d RT_DEVICE_FLAG_RDWR = Some (RT_EOK, ?d)"
    using assms(2-4) tx differ
    by (simp add: rt_device_open_def open_activate_def open_driver_def serial_ops_def open_count_def is_open_def)
  moreover have "ref_count ?d \<noteq> 0"
  proof
    assume "ref_count ?d = 0"
    then have "ref_count d = - 1" by (simp add: eq_neg_iff_add_eq_0)
    then show False using assms(5) by simp
  qed
  moreover have "\<not> has (open_flag ?d) RT_DEVICE_FLAG_INT_RX" "\<not> has (open_flag ?d) RT_DEVICE_FLAG_DMA_RX"
    by (simp_all add: has_or_iff)
  moreover have "serial_pending ?d = xs" using receiving_pending [OF assms(1)] f(1) by (simp add: serial_pending_def)
  ultimately show ?thesis
    by (intro exI [of _ ?d]) (auto simp: rt_device_read_def serial_ops_def rt_serial_read_def split: prod.splits)
qed

theorem serial_second_open_polls_witness:
  "\<exists>d'. rt_device_open (serial_ops list_uart True (\<lambda>_. None) (\<lambda>_ _. None)) (demo_serial 0x113 0x10B 1 (Rx_Fifo empty_fifo) [65])
      RT_DEVICE_FLAG_RDWR = Some (RT_EOK, d') \<and> serial_pending d' = []"
  using serial_second_open_polls [OF demo_receiving [of "[65 :: u8]"], where ops = list_uart and mem = True and wait = "\<lambda>_. None"
      and dma_tx = "\<lambda>_ _. None"]
  by (auto simp: demo_serial_def is_open_def has_def flag_defs)

section \<open>Reception by DMA\<close>

text \<open>Here the buffer may be full: the flag tells a full buffer from an empty one.\<close>

definition dma_ok :: "nat \<Rightarrow> rt_serial_rx_fifo \<Rightarrow> u8 list \<Rightarrow> bool" where
  "dma_ok sz f xs \<longleftrightarrow> 0 < sz \<and> sz \<le> 2 ^ 15 \<and> get_index f < sz \<and> length xs \<le> sz \<and>
     put_index f = (get_index f + length xs) mod sz \<and> (is_full f \<longleftrightarrow> length xs = sz) \<and>
     (\<forall>i < length xs. rx_buffer f ((get_index f + i) mod sz) = xs ! i)"

lemma dma_put_eq:
  assumes "dma_ok sz f xs" and "n \<le> sz"
  defines "p \<equiv> (put_index f + n) mod sz"
  shows "rt_dma_recv_update_put_index sz n (f\<lparr>rx_buffer := b\<rparr>) =
    f\<lparr>rx_buffer := b, put_index := p, get_index := (if length xs + n \<ge> sz then p else get_index f), is_full := (length xs + n \<ge> sz)\<rparr>"
proof -
  let ?p = "put_index f" and ?g = "get_index f"
  have f: "0 < sz" "sz \<le> 2 ^ 15" "?g < sz" "length xs \<le> sz" "?p = (?g + length xs) mod sz" "is_full f \<longleftrightarrow> length xs = sz"
    using assms(1) by (auto simp: dma_ok_def)
  have p: "?p < sz" using f by simp
  then have sum: "(?p + n mod 65536) mod 65536 = ?p + n" using f(2) assms(2) by simp
  have used: "length xs = (if ?g \<le> ?p then (if is_full f then sz else ?p - ?g) else sz - (?g - ?p))"
    using f(3-6) by (auto simp: mod_if split: if_splits)
  have pm: "p = (if ?p + n \<ge> sz then ?p + n - sz else ?p + n)" using p assms(2) by (auto simp: p_def mod_if)
  have full_eq: "is_full f \<Longrightarrow> ?g = ?p" using f(3,5,6) by simp
  have ovf: "length xs + n \<ge> sz \<longleftrightarrow> (if ?g \<le> ?p then is_full f \<or> (?p + n \<ge> sz \<and> p \<ge> ?g) else ?p + n \<ge> ?g)"
    using used pm full_eq f(3,6) p assms(2) by (auto split: if_splits)
  have wrap: "?p + n \<ge> sz \<Longrightarrow> (?p + n) mod sz = p" "\<not> ?p + n \<ge> sz \<Longrightarrow> p = ?p + n" by (simp_all add: p_def)
  have keep: "is_full f \<Longrightarrow> f\<lparr>is_full := True\<rparr> = f" "\<not> is_full f \<Longrightarrow> f\<lparr>is_full := False\<rparr> = f" by (cases f, simp)+
  show ?thesis
  proof (cases "?g \<le> ?p")
    case True
    show ?thesis
    proof (cases "?p + n \<ge> sz")
      case w: True
      then show ?thesis using True wrap(1) [OF w] ovf
        by (cases "is_full f"; cases "p \<ge> ?g") (simp_all add: rt_dma_recv_update_put_index_def Let_def sum)
    next
      case w: False
      then show ?thesis using True wrap(2) [OF w] ovf
        by (cases "is_full f") (simp_all add: rt_dma_recv_update_put_index_def Let_def sum)
    qed
  next
    case False
    then have "\<not> is_full f" using full_eq by auto
    then show ?thesis using False wrap ovf f(3)
      by (cases "?p + n \<ge> ?g"; cases "?p + n \<ge> sz") (simp_all add: rt_dma_recv_update_put_index_def Let_def sum)
  qed
qed

lemma dma_put_ok:
  assumes "dma_ok sz f xs" and "length bs \<le> sz"
    and "\<forall>j < length bs. b ((put_index f + j) mod sz) = bs ! j"
    and "\<forall>k. (\<forall>j < length bs. k \<noteq> (put_index f + j) mod sz) \<longrightarrow> b k = rx_buffer f k"
  shows "dma_ok sz (rt_dma_recv_update_put_index sz (length bs) (f\<lparr>rx_buffer := b\<rparr>)) (keep_last sz (xs @ bs))"
proof -
  let ?g = "get_index f" and ?u = "length xs" and ?n = "length bs" and ?k = "length xs + length bs - sz"
  have f: "0 < sz" "sz \<le> 2 ^ 15" "?g < sz" "?u \<le> sz" "put_index f = (?g + ?u) mod sz" "is_full f \<longleftrightarrow> ?u = sz"
    "\<And>i. i < ?u \<Longrightarrow> rx_buffer f ((?g + i) mod sz) = xs ! i"
    using assms(1) by (auto simp: dma_ok_def)
  have pos: "(put_index f + j) mod sz = (?g + (?u + j)) mod sz" for j using f(5) by (simp add: mod_add_left_eq add.assoc)
  have new: "b ((?g + i) mod sz) = (xs @ bs) ! i" if i: "?k \<le> i" "i < ?u + ?n" for i
  proof (cases "i < ?u")
    case True
    have "(?g + i) mod sz \<noteq> (put_index f + j) mod sz" if "j < ?n" for j
      unfolding pos using ring_neq [of 0 "?u + j - i" sz "?g + i"] i True that by (simp add: add.assoc)
    then show ?thesis using assms(4) True f(7) by (auto simp: nth_append)
  next
    case False
    then have "b ((put_index f + (i - ?u)) mod sz) = bs ! (i - ?u)" using i(2) by (intro assms(3) [rule_format]) simp
    then show ?thesis unfolding pos using False by (simp add: nth_append)
  qed
  have start: "(put_index f + ?n) mod sz = (?g + ?k) mod sz" if "sz \<le> ?u + ?n"
  proof -
    have "?u + ?n = ?k + sz" using that by simp
    then show ?thesis unfolding pos by (metis add.assoc mod_add_self2)
  qed
  show ?thesis
  proof (cases "sz \<le> ?u + ?n")
    case True
    have "b (((put_index f + ?n) mod sz + i) mod sz) = keep_last sz (xs @ bs) ! i" if "i < sz" for i
    proof -
      have "keep_last sz (xs @ bs) ! i = (xs @ bs) ! (?k + i)" using that True by (simp add: keep_last_def del: drop_append)
      moreover have "((put_index f + ?n) mod sz + i) mod sz = (?g + (?k + i)) mod sz"
        unfolding start [OF True] by (simp add: mod_add_left_eq add.assoc)
      ultimately show ?thesis using new [of "?k + i"] that True by simp
    qed
    moreover have "length (keep_last sz (xs @ bs)) = sz" using True by (simp add: keep_last_def del: drop_append)
    ultimately show ?thesis unfolding dma_put_eq [OF assms(1,2)] using f(1,2) True by (simp add: dma_ok_def)
  next
    case False
    then show ?thesis unfolding dma_put_eq [OF assms(1,2)] using f new pos [of ?n] by (auto simp: dma_ok_def keep_last_def)
  qed
qed

lemma dma_read_ok:
  assumes "dma_ok sz f xs" and "n \<le> length xs"
  shows "fifo_copy_out sz n f = take n xs" and "dma_ok sz (rt_dma_recv_update_get_index sz n f) (drop n xs)"
    and "rt_dma_calc_recved_len sz f = length xs"
proof -
  let ?g = "get_index f"
  have f: "0 < sz" "sz \<le> 2 ^ 15" "?g < sz" "length xs \<le> sz" "put_index f = (?g + length xs) mod sz" "is_full f \<longleftrightarrow> length xs = sz"
    "\<And>i. i < length xs \<Longrightarrow> rx_buffer f ((?g + i) mod sz) = xs ! i"
    using assms(1) by (auto simp: dma_ok_def)
  show "rt_dma_calc_recved_len sz f = length xs"
    using f(3-6) by (auto simp: rt_dma_calc_recved_len_def serial_fifo_calc_recved_len_def mod_if split: if_splits)
  show "fifo_copy_out sz n f = take n xs"
  proof (rule nth_equalityI)
    show "length (fifo_copy_out sz n f) = length (take n xs)" using f(3,4) assms(2) by (auto simp: fifo_copy_out_def)
    fix i
    assume "i < length (fifo_copy_out sz n f)"
    then have i: "i < n" using f(3,4) assms(2) by (auto simp: fifo_copy_out_def split: if_splits)
    show "fifo_copy_out sz n f ! i = take n xs ! i"
    proof (cases "?g + i < sz")
      case True
      then have "i < sz - ?g" by simp
      then show ?thesis using f(7) [of i] i assms(2) True by (simp add: fifo_copy_out_def nth_append)
    next
      case False
      then have "(?g + i) mod sz = ?g + i - sz" using f(3,4) i assms(2) by (simp add: mod_if)
      moreover have "i - (sz - ?g) = ?g + i - sz" "\<not> i < sz - ?g" using f(3) False by simp_all
      ultimately show ?thesis using f(7) [of i] i assms(2) False f(3) by (simp add: fifo_copy_out_def nth_append)
    qed
  qed
  have g: "rt_dma_recv_update_get_index sz n f = f\<lparr>get_index := (?g + n) mod sz, is_full := is_full f \<and> n = 0\<rparr>"
    using f(1-4) assms(2) by (cases f) (auto simp: rt_dma_recv_update_get_index_def Let_def mod_if)
  have "put_index f = ((?g + n) mod sz + length (drop n xs)) mod sz"
    unfolding mod_add_left_eq using f(5) assms(2) by simp
  moreover have "rx_buffer f (((?g + n) mod sz + i) mod sz) = drop n xs ! i" if "i < length (drop n xs)" for i
    using f(7) [of "n + i"] that assms(2) by (simp add: mod_add_left_eq add.assoc)
  ultimately show "dma_ok sz (rt_dma_recv_update_get_index sz n f) (drop n xs)"
    unfolding g dma_ok_def using f assms(2) by auto
qed

text \<open>When the DMA controller has written \<open>bs\<close> into the ring behind the bytes of the buffer and raises its interrupt, the buffer
  holds the last \<open>bufsz\<close> of all bytes, the application is told how many, and a read returns the oldest of them in order.\<close>

theorem serial_dma_stream:
  assumes "serial_rx d = Rx_Fifo (f\<lparr>rx_buffer := b\<rparr>)" and "sz = bufsz (config d)" and "dma_ok sz f xs" and "length bs \<le> sz"
    and "\<forall>j < length bs. b ((put_index f + j) mod sz) = bs ! j"
    and "\<forall>k. (\<forall>j < length bs. k \<noteq> (put_index f + j) mod sz) \<longrightarrow> b k = rx_buffer f k"
  shows "\<exists>d' d''. rt_hw_serial_isr ops tx_event d (3 + 256 * length bs) = Some d' \<and>
    (rx_indicate d \<noteq> None \<longrightarrow> indications d' = indications d @ [length (keep_last sz (xs @ bs))]) \<and>
    serial_dma_rx ops n d' =
      Some (int (length (take n (keep_last sz (xs @ bs)))), take n (keep_last sz (xs @ bs)), d'')"
proof -
  let ?ys = "keep_last sz (xs @ bs)" and ?f = "rt_dma_recv_update_put_index sz (length bs) (f\<lparr>rx_buffer := b\<rparr>)"
  have ok: "dma_ok sz ?f ?ys" by (rule dma_put_ok [OF assms(3-6)])
  have nz: "sz \<noteq> 0" using assms(3) by (simp add: dma_ok_def)
  have len: "rt_dma_calc_recved_len sz ?f = length ?ys" using dma_read_ok(3) [OF ok, of 0] by simp
  let ?d = "indicate (length ?ys) (d\<lparr>serial_rx := Rx_Fifo ?f\<rparr>)"
  have "(3 + 256 * length bs) mod 256 = 3" "(3 + 256 * length bs) div 256 = length bs" by simp_all
  then have isr: "rt_hw_serial_isr ops tx_event d (3 + 256 * length bs) = Some ?d"
    unfolding rt_hw_serial_isr_def Let_def using assms(1) nz len unfolding assms(2) by (simp add: isr_rx_dmadone_def)
  have d: "serial_rx ?d = Rx_Fifo ?f" "config ?d = config d" by (simp_all add: indicate_def)
  let ?n = "if n < length ?ys then n else length ?ys"
  have "fifo_copy_out sz ?n ?f = take n ?ys" using dma_read_ok(1) [OF ok, of ?n] by simp
  then have "\<exists>d''. serial_dma_rx ops n ?d = Some (int (length (take n ?ys)), take n ?ys, d'')"
    using d nz len unfolding assms(2) by (simp add: serial_dma_rx_def Let_def min_def)
  then show ?thesis using isr by (auto simp: indicate_def)
qed

theorem serial_dma_stream_witness:
  "\<exists>d' d''. rt_hw_serial_isr list_uart (\<lambda>_. Some)
      (demo_serial 0x213 0x20B 1 (Rx_Fifo (empty_fifo\<lparr>rx_buffer := (\<lambda>_. 0)(0 := 7, 1 := 8)\<rparr>)) []) (3 + 256 * 2) = Some d' \<and>
    indications d' = [2] \<and> serial_dma_rx list_uart 1 d' = Some (1, [7], d'')"
proof -
  let ?b = "(\<lambda>_. 0)(0 := 7, 1 := 8) :: nat \<Rightarrow> u8"
  let ?d = "demo_serial 0x213 0x20B 1 (Rx_Fifo (empty_fifo\<lparr>rx_buffer := ?b\<rparr>)) []"
  have d: "serial_rx ?d = Rx_Fifo (empty_fifo\<lparr>rx_buffer := ?b\<rparr>)" "4 = bufsz (config ?d)" by (simp_all add: demo_serial_def)
  have f: "dma_ok 4 empty_fifo []" "put_index empty_fifo = 0" "rx_buffer empty_fifo = (\<lambda>_. 0)"
    by (simp_all add: dma_ok_def empty_fifo_def)
  have two: "j = 0 \<or> j = 1" if "j < length [7, 8 :: u8]" for j using that by auto
  have written: "\<forall>j < length [7, 8 :: u8]. ?b ((put_index empty_fifo + j) mod 4) = [7, 8] ! j"
    unfolding f(2) using two by fastforce
  have rest: "\<forall>k. (\<forall>j < length [7, 8 :: u8]. k \<noteq> (put_index empty_fifo + j) mod 4) \<longrightarrow> ?b k = rx_buffer empty_fifo k"
    unfolding f(2,3) by (auto simp: All_less_Suc)
  have "keep_last 4 ([] @ [7, 8 :: u8]) = [7, 8]" by (simp add: keep_last_def)
  moreover have "rx_indicate ?d \<noteq> None" "indications ?d = []" by (simp_all add: demo_serial_def)
  moreover have "length [7, 8 :: u8] = 2" by simp
  ultimately show ?thesis
    using serial_dma_stream [OF d f(1) _ written rest, of list_uart "\<lambda>_. Some" 1] by auto
qed

end
