(* ===== verification/Drv_Usart.thy ===== *)
theory Drv_Usart
  imports Serial Periph_Gpio
begin

unbundle bit_operations_syntax

text \<open>
  The board's serial driver: \<^verbatim>\<open>src/drivers/drv_usart.c\<close>, with what it calls of the firmware library (\<^verbatim>\<open>n32l43x_usart.c\<close>,
  \<^verbatim>\<open>misc.c\<close>, and the routines for pins and clocks in \<open>Periph_Gpio\<close>).  The configuration has one port, \<^verbatim>\<open>usart1\<close>.

  The registers read back what was written, except for the status and the data register.  What the hardware does is the record
  \<open>usart_env\<close>: after the data register was read or written, and between two reads of the status in the loop that waits.  A
  write to the data register goes to the transmit register \<open>tdr\<close>; \<open>sent\<close> records the words that the transmitter has taken from there.  The
  clock of the peripheral bus is a field.  \<open>usart_documented\<close> states what the manual says: a word written stays in the transmit register,
  with its flag clear, until the transmitter takes it, and the next write replaces a word that was not taken; the transmitter takes it
  after some time and sets the flag; a read of the data register clears the flag of received data.

  Shown: the driver below the serial device meets the contract of the device framework (the interpretation \<open>n32_serial\<close>); every
  received byte reaches the buffer (\<open>n32_isr_receives\<close>); a write sends all bytes in order, with a carriage return before
  each line feed in stream mode (\<open>n32_write_sends\<close>); the divider is the rounded quotient of clock and baud rate unless its
  fraction is 0.97 or more (\<open>usart_baud_rounded\<close>).
\<close>

section \<open>Registers\<close>

record usart_regs =
  STS :: u16
  DAT :: u16
  BRCF :: u16
  CTRL1 :: u16
  CTRL2 :: u16
  CTRL3 :: u16

record usart_hw =
  usart :: usart_regs
  board :: soc
  APB1PCLKEN :: u32w
  AIRCR :: u32w
  pclk :: nat
  tdr :: u16
  sent :: "u16 list"

record usart_env =
  env_read :: "usart_hw \<Rightarrow> usart_hw"
  env_write :: "usart_hw \<Rightarrow> usart_hw"
  env_poll :: "usart_hw \<Rightarrow> usart_hw"

definition upd_usart :: "(usart_regs \<Rightarrow> usart_regs) \<Rightarrow> usart_hw \<Rightarrow> usart_hw" where
  "upd_usart f h = h\<lparr>usart := f (usart h)\<rparr>"

definition on_board :: "(soc \<Rightarrow> soc) \<Rightarrow> usart_hw \<Rightarrow> usart_hw" where
  "on_board f h = h\<lparr>board := f (board h)\<rparr>"

definition USART_WL_8B :: u16 where "USART_WL_8B = 0x0000"
definition USART_WL_9B :: u16 where "USART_WL_9B = 0x1000"
definition USART_STPB_1 :: u16 where "USART_STPB_1 = 0x0000"
definition USART_STPB_0_5 :: u16 where "USART_STPB_0_5 = 0x1000"
definition USART_STPB_2 :: u16 where "USART_STPB_2 = 0x2000"
definition USART_STPB_1_5 :: u16 where "USART_STPB_1_5 = 0x3000"
definition USART_PE_NO :: u16 where "USART_PE_NO = 0x0000"
definition USART_PE_EVEN :: u16 where "USART_PE_EVEN = 0x0400"
definition USART_PE_ODD :: u16 where "USART_PE_ODD = 0x0600"
definition USART_MODE_RX :: u16 where "USART_MODE_RX = 0x0004"
definition USART_MODE_TX :: u16 where "USART_MODE_TX = 0x0008"
definition USART_HFCTRL_NONE :: u16 where "USART_HFCTRL_NONE = 0x0000"
definition USART_HFCTRL_RTS_CTS :: u16 where "USART_HFCTRL_RTS_CTS = 0x0300"
definition USART_INT_TXDE :: u16 where "USART_INT_TXDE = 0x0727"
definition USART_INT_RXDNE :: u16 where "USART_INT_RXDNE = 0x0525"
definition USART_FLAG_TXDE :: u16 where "USART_FLAG_TXDE = 0x0080"
definition USART_FLAG_RXDNE :: u16 where "USART_FLAG_RXDNE = 0x0020"
definition CTRL1_UEN_SET :: u16 where "CTRL1_UEN_SET = 0x2000"
definition CTRL1_UEN_RESET :: u16 where "CTRL1_UEN_RESET = 0xDFFF"
definition CTRL1_CLR_MASK :: u16 where "CTRL1_CLR_MASK = 0xE9F3"
definition CTRL2_STPB_CLR_MASK :: u16 where "CTRL2_STPB_CLR_MASK = 0xCFFF"
definition CTRL3_CLR_MASK :: u16 where "CTRL3_CLR_MASK = 0xFCFF"
definition INT_MASK :: u16 where "INT_MASK = 0x001F"
definition AIRCR_VECTKEY_MASK :: u32w where "AIRCR_VECTKEY_MASK = 0x05FA0000"
definition NVIC_PriorityGroup_0 :: u32w where "NVIC_PriorityGroup_0 = 0x700"
definition RCC_APB2_PERIPH_USART1 :: u32w where "RCC_APB2_PERIPH_USART1 = 0x4000"
definition GPIO_AF4_USART1 :: u32w where "GPIO_AF4_USART1 = 0x04"

lemmas usart_defs = USART_WL_8B_def USART_WL_9B_def USART_STPB_1_def USART_STPB_0_5_def USART_STPB_2_def USART_STPB_1_5_def
  USART_PE_NO_def USART_PE_EVEN_def USART_PE_ODD_def USART_MODE_RX_def USART_MODE_TX_def USART_HFCTRL_NONE_def
  USART_HFCTRL_RTS_CTS_def USART_INT_TXDE_def USART_INT_RXDNE_def USART_FLAG_TXDE_def USART_FLAG_RXDNE_def CTRL1_UEN_SET_def
  CTRL1_UEN_RESET_def CTRL1_CLR_MASK_def CTRL2_STPB_CLR_MASK_def CTRL3_CLR_MASK_def INT_MASK_def

section \<open>The firmware library\<close>

record USART_InitType =
  BaudRate :: nat
  WordLength :: u16
  StopBits :: u16
  Parity :: u16
  Mode :: u16
  HardwareFlowControl :: u16

text \<open>The computation of the divider, in 32-bit arithmetic.\<close>

definition usart_divider :: "nat \<Rightarrow> nat \<Rightarrow> nat" where
  "usart_divider apbclock baud =
     (let integerdivider = u32 (25 * apbclock) div u32 (4 * baud);
          tmpregister = u32 (push_bit 4 (integerdivider div 100));
          fractionaldivider = u32_sub integerdivider (u32 (100 * drop_bit 4 tmpregister))
      in (tmpregister OR (u32_add (u32 (fractionaldivider * 16)) 50 div 100 AND 0x0F)) mod 2 ^ 16)"

definition USART_Init :: "USART_InitType \<Rightarrow> usart_hw \<Rightarrow> usart_hw" where
  "USART_Init i h =
     upd_usart (\<lambda>u. u\<lparr>CTRL2 := (CTRL2 u AND CTRL2_STPB_CLR_MASK) OR StopBits i,
       CTRL1 := (CTRL1 u AND CTRL1_CLR_MASK) OR (WordLength i OR Parity i OR Mode i),
       CTRL3 := (CTRL3 u AND CTRL3_CLR_MASK) OR HardwareFlowControl i,
       BRCF := of_nat (usart_divider (pclk h) (BaudRate i))\<rparr>) h"

definition USART_Enable :: "bool \<Rightarrow> usart_hw \<Rightarrow> usart_hw" where
  "USART_Enable Cmd = upd_usart (\<lambda>u. u\<lparr>CTRL1 := (if Cmd then CTRL1 u OR CTRL1_UEN_SET else CTRL1 u AND CTRL1_UEN_RESET)\<rparr>)"

text \<open>The register and the bit of an interrupt are coded in its number.\<close>

definition int_bit :: "u16 \<Rightarrow> nat" where
  "int_bit i = unat (i AND INT_MASK)"

definition int_reg :: "u16 \<Rightarrow> nat" where
  "int_reg i = unat (drop_bit 5 (ucast i :: u8))"

definition set_or_clear :: "bool \<Rightarrow> nat \<Rightarrow> u16 \<Rightarrow> u16" where
  "set_or_clear Cmd n r = (if Cmd then r OR push_bit n 1 else r AND NOT (push_bit n 1))"

definition USART_ConfigInt :: "u16 \<Rightarrow> bool \<Rightarrow> usart_hw \<Rightarrow> usart_hw" where
  "USART_ConfigInt i Cmd =
     (let f = set_or_clear Cmd (int_bit i)
      in if int_reg i = 1 then upd_usart (\<lambda>u. u\<lparr>CTRL1 := f (CTRL1 u)\<rparr>)
         else if int_reg i = 2 then upd_usart (\<lambda>u. u\<lparr>CTRL2 := f (CTRL2 u)\<rparr>)
         else upd_usart (\<lambda>u. u\<lparr>CTRL3 := f (CTRL3 u)\<rparr>))"

definition USART_SendData :: "usart_env \<Rightarrow> u16 \<Rightarrow> usart_hw \<Rightarrow> usart_hw" where
  "USART_SendData env dat h = env_write env (h\<lparr>tdr := dat AND 0x01FF\<rparr>)"

definition USART_ReceiveData :: "usart_env \<Rightarrow> usart_hw \<Rightarrow> u16 \<times> usart_hw" where
  "USART_ReceiveData env h = (DAT (usart h) AND 0x01FF, env_read env h)"

definition USART_GetFlagStatus :: "u16 \<Rightarrow> usart_hw \<Rightarrow> bool" where
  "USART_GetFlagStatus flag h \<longleftrightarrow> STS (usart h) AND flag \<noteq> 0"

definition USART_GetIntStatus :: "u16 \<Rightarrow> usart_hw \<Rightarrow> bool" where
  "USART_GetIntStatus i h \<longleftrightarrow>
     (let itmask = push_bit (int_bit i) 1 :: u16;
          r = (if int_reg i = 1 then CTRL1 (usart h) else if int_reg i = 2 then CTRL2 (usart h) else CTRL3 (usart h));
          bitpos = push_bit (unat (drop_bit 8 i)) 1 :: u16
      in itmask AND r \<noteq> 0 \<and> bitpos AND STS (usart h) \<noteq> 0)"

definition RCC_EnableAPB1PeriphClk :: "u32w \<Rightarrow> bool \<Rightarrow> usart_hw \<Rightarrow> usart_hw" where
  "RCC_EnableAPB1PeriphClk periph Cmd h =
     h\<lparr>APB1PCLKEN := (if Cmd then APB1PCLKEN h OR periph else APB1PCLKEN h AND NOT periph)\<rparr>"

definition NVIC_PriorityGroupConfig :: "u32w \<Rightarrow> usart_hw \<Rightarrow> usart_hw" where
  "NVIC_PriorityGroupConfig grp h = h\<lparr>AIRCR := AIRCR_VECTKEY_MASK OR grp\<rparr>"

record NVIC_InitType =
  NVIC_IRQChannel :: nat
  NVIC_IRQChannelPreemptionPriority :: u8
  NVIC_IRQChannelSubPriority :: u8
  NVIC_IRQChannelCmd :: bool

definition NVIC_Init :: "periph_hw \<Rightarrow> NVIC_InitType \<Rightarrow> usart_hw \<Rightarrow> usart_hw" where
  "NVIC_Init hw i h =
     (if NVIC_IRQChannelCmd i then
        (let tmppriority = unat (drop_bit 8 (0x700 - (AIRCR h AND 0x700)));
             tmpsub = drop_bit tmppriority 0x0F :: u32w;
             p = push_bit (4 - tmppriority) (ucast (NVIC_IRQChannelPreemptionPriority i)) OR (ucast (NVIC_IRQChannelSubPriority i) AND tmpsub);
             h1 = on_board (\<lambda>s. s\<lparr>nvic_ip := (nvic_ip s)(NVIC_IRQChannel i := ucast (push_bit 4 p))\<rparr>) h
         in on_board (NVIC_EnableIRQ hw (int (NVIC_IRQChannel i))) h1)
      else on_board (NVIC_DisableIRQ hw (int (NVIC_IRQChannel i))) h)"

section \<open>The driver\<close>

record n32_uart =
  on_apb2 :: bool
  irqn :: nat
  per_clk :: u32w
  tx_gpio_clk :: u32w
  rx_gpio_clk :: u32w
  tx_port :: gpio_port
  tx_af :: u32w
  tx_pin :: u16
  rx_port :: gpio_port
  rx_af :: u32w
  rx_pin :: u16

definition usart1 :: n32_uart where
  "usart1 = \<lparr>on_apb2 = True, irqn = 37, per_clk = RCC_APB2_PERIPH_USART1, tx_gpio_clk = RCC_APB2_PERIPH_GPIOA,
     rx_gpio_clk = RCC_APB2_PERIPH_GPIOA, tx_port = GPIOA, tx_af = GPIO_AF4_USART1, tx_pin = 0x0200,
     rx_port = GPIOA, rx_af = GPIO_AF4_USART1, rx_pin = 0x0400\<rparr>"

definition n32_uart_gpio_init :: "periph_hw \<Rightarrow> n32_uart \<Rightarrow> usart_hw \<Rightarrow> usart_hw" where
  "n32_uart_gpio_init hw u h =
     (let h1 = on_board (RCC_EnableAPB2PeriphClk (tx_gpio_clk u OR rx_gpio_clk u OR RCC_APB2_PERIPH_AFIO) True) h;
          h2 = (if on_apb2 u then on_board (RCC_EnableAPB2PeriphClk (per_clk u) True) h1 else RCC_EnableAPB1PeriphClk (per_clk u) True h1);
          tx = GPIO_InitStruct\<lparr>Pin := tx_pin u, GPIO_Mode := GPIO_Mode_AF_PP, GPIO_Alternate := tx_af u\<rparr>;
          h3 = on_board (GPIO_InitPeripheral hw (tx_port u) tx) h2;
          rx = tx\<lparr>Pin := rx_pin u, GPIO_Mode := GPIO_Mode_AF_PP, GPIO_Alternate := rx_af u\<rparr>;
          h4 = on_board (GPIO_InitPeripheral hw (rx_port u) rx) h3
      in on_board (NVIC_EnableIRQ hw (int (irqn u))) (on_board (NVIC_SetPriority (int (irqn u)) 0) h4))"

text \<open>\<open>junk\<close> stands for the values of the members that the code leaves unset.\<close>

definition n32_init_struct :: "USART_InitType \<Rightarrow> serial_configure \<Rightarrow> USART_InitType" where
  "n32_init_struct junk cfg =
     \<lparr>BaudRate = baud_rate cfg,
      WordLength = (if data_bits cfg = 9 then USART_WL_9B else USART_WL_8B),
      StopBits = (if stop_bits cfg = 0 then USART_STPB_1 else if stop_bits cfg = 1 then USART_STPB_0_5
                  else if stop_bits cfg = 2 then USART_STPB_2 else if stop_bits cfg = 3 then USART_STPB_1_5 else StopBits junk),
      Parity = (if parity cfg = 1 then USART_PE_ODD else if parity cfg = 2 then USART_PE_EVEN
                else if parity cfg = 0 then USART_PE_NO else Parity junk),
      Mode = USART_MODE_TX OR USART_MODE_RX,
      HardwareFlowControl = (if flowcontrol cfg = 0 then USART_HFCTRL_NONE else if flowcontrol cfg = 1 then USART_HFCTRL_RTS_CTS
                             else USART_HFCTRL_NONE)\<rparr>"

definition n32_configure :: "periph_hw \<Rightarrow> USART_InitType \<Rightarrow> n32_uart \<Rightarrow> serial_configure \<Rightarrow> usart_hw \<Rightarrow> rt_err_t \<times> usart_hw" where
  "n32_configure hw junk u cfg h =
     (RT_EOK, USART_Enable True (USART_Init (n32_init_struct junk cfg) (n32_uart_gpio_init hw u h)))"

definition n32_control :: "periph_hw \<Rightarrow> u8 \<Rightarrow> n32_uart \<Rightarrow> int \<Rightarrow> serial_arg \<Rightarrow> usart_hw \<Rightarrow> rt_err_t \<times> usart_hw" where
  "n32_control hw junk u cmd arg h =
     (let h1 = NVIC_PriorityGroupConfig NVIC_PriorityGroup_0 h;
          i = \<lparr>NVIC_IRQChannel = irqn u, NVIC_IRQChannelPreemptionPriority = junk, NVIC_IRQChannelSubPriority = 0,
               NVIC_IRQChannelCmd = (cmd = RT_DEVICE_CTRL_SET_INT)\<rparr>
      in (RT_EOK,
          if cmd = RT_DEVICE_CTRL_CLR_INT then USART_ConfigInt USART_INT_RXDNE False (NVIC_Init hw i h1)
          else if cmd = RT_DEVICE_CTRL_SET_INT then USART_ConfigInt USART_INT_RXDNE True (NVIC_Init hw i h1)
          else h1))"

partial_function (option) wait_TXDE :: "usart_env \<Rightarrow> usart_hw \<Rightarrow> usart_hw option" where
  "wait_TXDE env h = (if \<not> USART_GetFlagStatus USART_FLAG_TXDE h then wait_TXDE env (env_poll env h) else Some h)"

definition n32_putc :: "usart_env \<Rightarrow> u8 \<Rightarrow> usart_hw \<Rightarrow> (int \<times> usart_hw) option" where
  "n32_putc env ch h = map_option (Pair 1) (wait_TXDE env (USART_SendData env (ucast ch) h))"

definition n32_getc :: "usart_env \<Rightarrow> usart_hw \<Rightarrow> int \<times> usart_hw" where
  "n32_getc env h =
     (if USART_GetFlagStatus USART_FLAG_RXDNE h
      then (case USART_ReceiveData env h of (dat, h') \<Rightarrow> (uint dat, h')) else (-1, h))"

definition n32_uart_ops :: "periph_hw \<Rightarrow> usart_env \<Rightarrow> USART_InitType \<Rightarrow> u8 \<Rightarrow> usart_hw rt_uart_ops" where
  "n32_uart_ops hw env junk junk' =
     \<lparr>uart_configure = Some (n32_configure hw junk usart1), uart_control = n32_control hw junk' usart1,
      uart_putc = n32_putc env, uart_getc = n32_getc env, uart_dma_transmit = None\<rparr>"

definition uart_isr ::
    "usart_hw rt_uart_ops \<Rightarrow> (nat \<Rightarrow> usart_hw rt_serial_device \<Rightarrow> usart_hw rt_serial_device option) \<Rightarrow> usart_hw rt_serial_device \<Rightarrow>
     usart_hw rt_serial_device option" where
  "uart_isr ops tx_event d =
     Option.bind
       (if USART_GetIntStatus USART_INT_RXDNE (uart d) \<and> USART_GetFlagStatus USART_FLAG_RXDNE (uart d)
        then rt_hw_serial_isr ops tx_event d 1 else Some d)
       (\<lambda>d1. if USART_GetIntStatus USART_INT_TXDE (uart d1) \<and> USART_GetFlagStatus USART_FLAG_TXDE (uart d1)
             then rt_hw_serial_isr ops tx_event d1 2 else Some d1)"

definition serial_config_default :: serial_configure where
  "serial_config_default = \<lparr>baud_rate = 115200, data_bits = 8, stop_bits = 0, parity = 0, bit_order = 0, invert = 0, bufsz = 64,
     flowcontrol = 0, cfg_reserved = 0\<rparr>"

definition rt_hw_usart_init ::
    "addr \<Rightarrow> addr \<Rightarrow> rt_registry \<times> (addr \<Rightarrow> usart_hw rt_serial_device) \<Rightarrow>
     (rt_registry \<times> (addr \<Rightarrow> usart_hw rt_serial_device)) option" where
  "rt_hw_usart_init serial1 name s =
     map_option snd (rt_hw_serial_register serial1 name (RT_DEVICE_FLAG_RDWR OR RT_DEVICE_FLAG_INT_RX)
       (fst s, (snd s)(serial1 := (snd s serial1)\<lparr>config := serial_config_default\<rparr>)))"

definition n32_serial_ops ::
    "periph_hw \<Rightarrow> usart_env \<Rightarrow> USART_InitType \<Rightarrow> u8 \<Rightarrow> bool \<Rightarrow> (usart_hw rt_serial_device, serial_arg) rt_device_ops" where
  "n32_serial_ops hw env junk junk' mem = serial_ops (n32_uart_ops hw env junk junk') mem (\<lambda>_. None) (\<lambda>_ _. None)"

section \<open>What the manual says\<close>

definition tx_empty :: "usart_hw \<Rightarrow> bool" where
  "tx_empty = USART_GetFlagStatus USART_FLAG_TXDE"

text \<open>While the processor does something else, the transmitter may take the word that waits, if one does.\<close>

definition tx_goes_on :: "usart_hw \<Rightarrow> usart_hw \<Rightarrow> bool" where
  "tx_goes_on h h' \<longleftrightarrow> tdr h' = tdr h \<and>
     (sent h' = sent h \<and> tx_empty h' = tx_empty h \<or> \<not> tx_empty h \<and> tx_empty h' \<and> sent h' = sent h @ [tdr h])"

text \<open>After a write, the new word waits or is taken at once.  What waited before is lost.\<close>

definition tx_loaded :: "usart_hw \<Rightarrow> usart_hw \<Rightarrow> bool" where
  "tx_loaded h h' \<longleftrightarrow> tdr h' = tdr h \<and>
     (\<not> tx_empty h' \<and> sent h' = sent h \<or> tx_empty h' \<and> sent h' = sent h @ [tdr h])"

definition usart_documented :: "usart_env \<Rightarrow> bool" where
  "usart_documented env \<longleftrightarrow>
     (\<forall>h. tx_goes_on h (env_read env h) \<and> tx_loaded h (env_write env h) \<and> tx_goes_on h (env_poll env h) \<and>
          CTRL1 (usart (env_read env h)) = CTRL1 (usart h) \<and>
          \<not> USART_GetFlagStatus USART_FLAG_RXDNE (env_read env h) \<and>
          (\<exists>n. tx_empty ((env_poll env ^^ n) h)))"

definition calm_env :: usart_env where
  "calm_env = \<lparr>env_read = upd_usart (\<lambda>u. u\<lparr>STS := STS u AND NOT USART_FLAG_RXDNE\<rparr>),
     env_write = upd_usart (\<lambda>u. u\<lparr>STS := STS u AND NOT USART_FLAG_TXDE\<rparr>),
     env_poll = (\<lambda>h. if tx_empty h then h
       else upd_usart (\<lambda>u. u\<lparr>STS := STS u OR USART_FLAG_TXDE\<rparr>) (h\<lparr>sent := sent h @ [tdr h]\<rparr>))\<rparr>"

lemma flag_bits:
  "(w AND NOT USART_FLAG_RXDNE) AND USART_FLAG_RXDNE = 0" "(w AND NOT USART_FLAG_TXDE) AND USART_FLAG_TXDE = 0"
  "(w AND NOT USART_FLAG_RXDNE) AND USART_FLAG_TXDE = w AND USART_FLAG_TXDE" "(w OR USART_FLAG_TXDE) AND USART_FLAG_TXDE = USART_FLAG_TXDE"
  unfolding usart_defs by (simp_all add: and.assoc bit.conj_disj_distrib2)

lemma calm_documented: "usart_documented calm_env"
proof -
  have TXDE: "USART_FLAG_TXDE \<noteq> 0" by (simp add: usart_defs)
  have "tx_empty ((env_poll calm_env ^^ 1) h)" for h
    using TXDE by (simp add: calm_env_def upd_usart_def tx_empty_def USART_GetFlagStatus_def flag_bits)
  then have "\<exists>n. tx_empty ((env_poll calm_env ^^ n) h)" for h by blast
  moreover have "tx_goes_on h (env_read calm_env h)" "tx_loaded h (env_write calm_env h)" "tx_goes_on h (env_poll calm_env h)"
    "CTRL1 (usart (env_read calm_env h)) = CTRL1 (usart h)" "\<not> USART_GetFlagStatus USART_FLAG_RXDNE (env_read calm_env h)" for h
    using TXDE
    by (simp_all add: calm_env_def upd_usart_def tx_goes_on_def tx_loaded_def tx_empty_def USART_GetFlagStatus_def flag_bits)
  ultimately show ?thesis unfolding usart_documented_def by blast
qed

lemma wait_TXDE_ends:
  assumes "usart_documented env"
  shows "\<exists>h'. wait_TXDE env h = Some h' \<and> tx_empty h' \<and> sent h' = (if tx_empty h then sent h else sent h @ [tdr h])"
proof -
  obtain n where "tx_empty ((env_poll env ^^ n) h)" using assms by (auto simp: usart_documented_def)
  then show ?thesis
  proof (induction n arbitrary: h)
    case 0
    then show ?case by (subst wait_TXDE.simps) (simp add: tx_empty_def)
  next
    case (Suc n)
    show ?case
    proof (cases "tx_empty h")
      case True
      then show ?thesis by (subst wait_TXDE.simps) (simp add: tx_empty_def)
    next
      case False
      then have step: "wait_TXDE env h = wait_TXDE env (env_poll env h)" by (subst wait_TXDE.simps) (simp add: tx_empty_def)
      have "tx_goes_on h (env_poll env h)" using assms by (simp add: usart_documented_def)
      then show ?thesis unfolding step using Suc.IH [of "env_poll env h"] Suc.prems False
        by (auto simp: funpow_Suc_right tx_goes_on_def simp del: funpow.simps)
    qed
  qed
qed

section \<open>Examples\<close>

definition demo_usart :: usart_hw where
  "demo_usart = \<lparr>usart = \<lparr>STS = 0xA0, DAT = 65, BRCF = 0, CTRL1 = 0x202C, CTRL2 = 0, CTRL3 = 0\<rparr>,
     board = \<lparr>gpio = \<lambda>p. \<lparr>PMODE = 0, POTYPE = 0, SR = 0, PUPD = 0, PID = 0, POD = 0, AFL = 0, AFH = 0, DS = 0\<rparr>,
       exti = \<lparr>IMASK = 0, EMASK = 0, RT_CFG = 0, FT_CFG = 0, SWIE = 0, PEND = 0\<rparr>, EXTI_CFG = [0, 0, 0, 0], APB2PCLKEN = 0,
       nvic_enabled = [0, 0, 0, 0, 0, 0, 0, 0], nvic_ip = \<lambda>n. 0\<rparr>,
     APB1PCLKEN = 0, AIRCR = 0, pclk = 27000000, tdr = 0, sent = []\<rparr>"

definition demo_init :: USART_InitType where
  "demo_init = \<lparr>BaudRate = 0, WordLength = 0, StopBits = 0, Parity = 0, Mode = 0, HardwareFlowControl = 0\<rparr>"

definition demo_port :: "usart_hw rt_serial_device" where
  "demo_port = (demo_serial 0x103 0 0 Rx_Null demo_usart)\<lparr>config := serial_config_default\<rparr>"

lemma doc_hw_ok: "hw_documented doc_hw"
  by (simp add: hw_documented_def doc_hw_def)

section \<open>Sending\<close>

lemma ucast_low: "(ucast (b :: u8) :: u16) AND 0x01FF = ucast b"
proof -
  have "(0x01FF :: u16) = mask 9" by (simp add: mask_eq_exp_minus_1)
  then show ?thesis by (auto simp: bit_eq_iff bit_simps dest: bit_imp_le_length)
qed

lemma n32_putc_sends:
  assumes "usart_documented env"
  shows "\<exists>h'. n32_putc env b h = Some (1, h') \<and> tx_empty h' \<and> sent h' = sent h @ [ucast b]"
proof -
  have "tx_loaded (h\<lparr>tdr := ucast b\<rparr>) (USART_SendData env (ucast b) h)"
    using assms by (simp add: USART_SendData_def usart_documented_def ucast_low)
  then show ?thesis
    using wait_TXDE_ends [OF assms, of "USART_SendData env (ucast b) h"] by (auto simp: n32_putc_def tx_loaded_def split: if_splits)
qed

definition crlf :: "bool \<Rightarrow> u8 list \<Rightarrow> u8 list" where
  "crlf stream bs = concat (map (\<lambda>b. if b = 10 \<and> stream then [13, 10] else [b]) bs)"

lemma n32_poll_tx:
  assumes "usart_documented env"
  shows "\<exists>h'. poll_tx_loop (n32_uart_ops hw env junk junk') stream bs h k = Some (k + length bs, h') \<and>
    sent h' = sent h @ map ucast (crlf stream bs) \<and> (bs = [] \<and> h' = h \<or> tx_empty h')"
proof (induction bs arbitrary: h k)
  case (Cons b bs)
  let ?ops = "n32_uart_ops hw env junk junk'"
  let ?pre = "if b = 10 \<and> stream then [13] else [] :: u8 list"
  obtain h1 where h1: "(if b = 10 \<and> stream then map_option snd (uart_putc ?ops 13 h) else Some h) = Some h1"
    "sent h1 = sent h @ map ucast ?pre"
  proof (cases "b = 10 \<and> stream")
    case True
    then show ?thesis using n32_putc_sends [OF assms, of 13 h] that by (auto simp: n32_uart_ops_def)
  next
    case False
    then show ?thesis using that [of h] by auto
  qed
  obtain h2 where h2: "uart_putc ?ops b h1 = Some (1, h2)" "tx_empty h2" "sent h2 = sent h1 @ [ucast b]"
    using n32_putc_sends [OF assms, of b h1] by (auto simp: n32_uart_ops_def)
  obtain h' where "poll_tx_loop ?ops stream bs h2 (k + 1) = Some (k + 1 + length bs, h')" "sent h' = sent h2 @ map ucast (crlf stream bs)"
    "bs = [] \<and> h' = h2 \<or> tx_empty h'" using Cons.IH [of h2 "k + 1"] by blast
  then show ?case using h1 h2 by (auto simp: crlf_def)
qed (simp add: crlf_def)

text \<open>C9: A write to the open serial port returns, reports all bytes as written and hands to the transmitter exactly these bytes in
  order, with a carriage return before every line feed if the device was opened as a stream.  Each byte has been taken by the
  transmitter before the next one is written, and the last one before the write returns.\<close>

theorem n32_write_sends:
  assumes "usart_documented env" and "ref_count d \<noteq> 0"
    and "\<not> has (open_flag d) RT_DEVICE_FLAG_INT_TX" and "\<not> has (open_flag d) RT_DEVICE_FLAG_DMA_TX"
  shows "\<exists>d'. rt_device_write (n32_serial_ops hw env junk junk' mem) d pos bs = Some (int (length bs), None, d') \<and>
    sent (uart d') = sent (uart d) @ map ucast (crlf (has (open_flag d) RT_DEVICE_FLAG_STREAM) bs) \<and>
    (bs \<noteq> [] \<longrightarrow> USART_GetFlagStatus USART_FLAG_TXDE (uart d')) \<and> serial_pending d' = serial_pending d"
proof (cases "bs = []")
  case True
  then show ?thesis using assms(2)
    by (simp add: rt_device_write_def n32_serial_ops_def serial_ops_def rt_serial_write_def crlf_def)
next
  case False
  obtain h' where h': "poll_tx_loop (n32_uart_ops hw env junk junk') (has (open_flag d) RT_DEVICE_FLAG_STREAM) bs (uart d) 0 =
      Some (length bs, h')" "sent h' = sent (uart d) @ map ucast (crlf (has (open_flag d) RT_DEVICE_FLAG_STREAM) bs)" "tx_empty h'"
    using n32_poll_tx [OF assms(1), of hw junk junk' _ bs "uart d" 0] False by fastforce
  then have "rt_device_write (n32_serial_ops hw env junk junk' mem) d pos bs = Some (int (length bs), None, d\<lparr>uart := h'\<rparr>)"
    using False assms(2-4)
    by (simp add: rt_device_write_def n32_serial_ops_def serial_ops_def rt_serial_write_def serial_poll_tx_def)
  moreover have "serial_pending (d\<lparr>uart := h'\<rparr>) = serial_pending d"
    by (cases "serial_rx d") (simp_all add: serial_pending_def)
  ultimately show ?thesis using h'(2,3) by (auto simp: tx_empty_def)
qed

theorem n32_write_sends_witness:
  "\<exists>d'. rt_device_write (n32_serial_ops doc_hw calm_env demo_init 0 True) (demo_serial 0x113 0x14B 1 (Rx_Fifo empty_fifo) demo_usart) 0
      [72, 105, 10] = Some (3, None, d') \<and> sent (uart d') = [72, 105, 13, 10] \<and> USART_GetFlagStatus USART_FLAG_TXDE (uart d')"
  using n32_write_sends [OF calm_documented, of "demo_serial 0x113 0x14B 1 (Rx_Fifo empty_fifo) demo_usart" doc_hw demo_init 0 True 0 "[72, 105, 10]"]
  by (auto simp: demo_serial_def demo_usart_def has_def flag_defs crlf_def)

section \<open>Receiving\<close>

lemma n32_getc_one:
  assumes "usart_documented env" and "USART_GetFlagStatus USART_FLAG_RXDNE h"
  shows "yields (n32_getc env) h [uint (DAT (usart h) AND 0x01FF)] (env_read env h)"
proof -
  have "\<not> USART_GetFlagStatus USART_FLAG_RXDNE (env_read env h)" using assms(1) by (simp add: usart_documented_def)
  moreover have "uint (DAT (usart h) AND 0x01FF) \<noteq> -1" by (metis uint_nonnegative neg_0_le_iff_le not_one_le_zero)
  ultimately show ?thesis using assms(2) by (simp add: n32_getc_def USART_ReceiveData_def)
qed

lemma low_byte: "(word_of_int (uint (w AND 0x01FF :: u16)) :: u8) = ucast w"
proof -
  have "(0x01FF :: u16) = mask 9" by (simp add: mask_eq_exp_minus_1)
  then show ?thesis by (auto simp: bit_eq_iff bit_simps)
qed

lemma bit_mask: "push_bit n 1 AND w = (0 :: u16) \<longleftrightarrow> \<not> bit w n"
proof -
  have "push_bit n 1 AND w = 0 \<longleftrightarrow> (\<forall>k. \<not> bit (push_bit n 1 AND w) k)" by (auto intro: bit_eqI)
  also have "\<dots> \<longleftrightarrow> \<not> bit w n" by (auto simp: bit_simps dest: bit_imp_le_length)
  finally show ?thesis .
qed

lemma bit_masks: "w AND 32 = (0 :: u16) \<longleftrightarrow> \<not> bit w 5" "w AND 128 = (0 :: u16) \<longleftrightarrow> \<not> bit w 7"
  using bit_mask [of 5 w] bit_mask [of 7 w] by (simp_all add: and.commute)

text \<open>C8: When the receive interrupt is enabled, a byte has arrived and the transmit interrupt is off, which this driver never turns on,
  the interrupt handler of the port ends with the byte in the receive buffer behind those that were there, the oldest one dropped if
  the buffer was full.\<close>

theorem n32_isr_receives:
  assumes "usart_documented env" and "receiving d xs"
    and "USART_GetFlagStatus USART_FLAG_RXDNE (uart d)" and "bit (CTRL1 (usart (uart d))) 5" and "\<not> bit (CTRL1 (usart (uart d))) 7"
  shows "\<exists>d'. uart_isr (n32_uart_ops hw env junk junk') tx_event d = Some d' \<and>
    receiving d' (keep_last (bufsz (config d) - 1) (xs @ [ucast (DAT (usart (uart d)))])) \<and> uart d' = env_read env (uart d)"
proof -
  let ?ops = "n32_uart_ops hw env junk junk'"
  have y: "yields (uart_getc ?ops) (uart d) [uint (DAT (usart (uart d)) AND 0x01FF)] (env_read env (uart d))"
    using n32_getc_one [OF assms(1,3)] by (simp add: n32_uart_ops_def)
  have one: "map word_of_int [uint (DAT (usart (uart d)) AND 0x01FF)] = [ucast (DAT (usart (uart d))) :: u8]"
    by (simp only: list.map low_byte)
  obtain d' where d': "rt_hw_serial_isr ?ops tx_event d 1 = Some d'"
    "receiving d' (keep_last (bufsz (config d) - 1) (xs @ [ucast (DAT (usart (uart d)))]))" "uart d' = env_read env (uart d)"
    using receiving_isr [OF assms(2) y, of tx_event] unfolding one by blast
  have "USART_GetIntStatus USART_INT_RXDNE (uart d)" using assms(3,4) bit_masks
    by (simp add: USART_GetIntStatus_def USART_GetFlagStatus_def int_bit_def int_reg_def usart_defs Let_def and.commute)
  moreover have "CTRL1 (usart (env_read env (uart d))) = CTRL1 (usart (uart d))" using assms(1) by (simp add: usart_documented_def)
  then have "\<not> USART_GetIntStatus USART_INT_TXDE (env_read env (uart d))" using assms(5) bit_masks
    by (simp add: USART_GetIntStatus_def int_bit_def int_reg_def usart_defs Let_def and.commute)
  ultimately show ?thesis using d' assms(3) by (simp add: uart_isr_def)
qed

theorem n32_isr_receives_witness:
  "\<exists>d'. uart_isr (n32_uart_ops doc_hw calm_env demo_init 0) (\<lambda>_. Some) (demo_serial 0x113 0x10B 1 (Rx_Fifo empty_fifo) demo_usart) = Some d' \<and>
    receiving d' [65]"
  using n32_isr_receives [OF calm_documented demo_receiving, of demo_usart doc_hw demo_init 0 "\<lambda>_. Some"]
  by (auto simp: demo_serial_def demo_usart_def USART_GetFlagStatus_def usart_defs keep_last_def)

section \<open>Opening the console\<close>

definition registered :: "usart_hw rt_serial_device \<Rightarrow> bool" where
  "registered d \<longleftrightarrow> dev_flag d = RT_DEVICE_FLAG_RDWR OR RT_DEVICE_FLAG_INT_RX \<and> open_flag d = 0 \<and> ref_count d = 0 \<and>
     config d = serial_config_default"

lemma n32_open_eq:
  assumes "registered d"
  shows "rt_device_open (n32_serial_ops hw env junk junk' True) d console_oflag =
    Some (RT_EOK, d\<lparr>dev_flag := RT_DEVICE_FLAG_RDWR OR RT_DEVICE_FLAG_INT_RX OR RT_DEVICE_FLAG_ACTIVATED,
      open_flag := console_oflag OR RT_DEVICE_OFLAG_OPEN, ref_count := 1,
      serial_rx := Rx_Fifo empty_fifo, serial_tx := Tx_Null, rx_notify := None,
      uart := snd (n32_control hw junk' usart1 RT_DEVICE_CTRL_SET_INT (Arg_Flag RT_DEVICE_FLAG_INT_RX)
        (snd (n32_configure hw junk usart1 (config d) (uart d))))\<rparr>)"
  using assms
  by (simp add: registered_def rt_device_open_def open_activate_def open_driver_def open_count_def n32_serial_ops_def serial_ops_def
      rt_serial_init_def rt_serial_open_def open_refused_def open_rx_def open_tx_def uart_ctl_def set_oflag_def n32_uart_ops_def
      n32_configure_def console_oflag_def has_def flag_defs Let_def RT_EOK_def)

text \<open>Both directions are enabled, the interrupt of received data and its line are on, that of the transmit register is off.\<close>

definition usart_receiving :: "usart_hw \<Rightarrow> bool" where
  "usart_receiving h \<longleftrightarrow> bit (CTRL1 (usart h)) 13 \<and> bit (CTRL1 (usart h)) 2 \<and> bit (CTRL1 (usart h)) 3 \<and> bit (CTRL1 (usart h)) 5 \<and>
     \<not> bit (CTRL1 (usart h)) 7 \<and> irq_enabled (board h) (irqn usart1)"

lemma board_simps [simp]:
  "board (upd_usart f h) = board h" "board (on_board g h) = g (board h)" "usart (on_board g h) = usart h"
  "usart (upd_usart f h) = f (usart h)" "pclk (on_board g h) = pclk h" "pclk (upd_usart f h) = pclk h"
  by (simp_all add: upd_usart_def on_board_def)

lemma af_pp: "GPIO_Mode_AF_PP AND EXTI_MODE = 0"
  by (simp add: gpio_consts EXTI_MODE_def)

lemma irqn_usart1 [simp]: "irqn usart1 = 37"
  by (simp add: usart1_def)

lemma gpio_init_keeps [simp]:
  "usart (n32_uart_gpio_init hw usart1 h) = usart h" "pclk (n32_uart_gpio_init hw usart1 h) = pclk h"
  "length (nvic_enabled (board (n32_uart_gpio_init hw usart1 h))) = length (nvic_enabled (board h))"
  by (simp_all add: n32_uart_gpio_init_def usart1_def Let_def NVIC_EnableIRQ_def NVIC_SetPriority_def GPIO_InitPeripheral_def
      gpio_init_loop_frame af_pp RCC_EnableAPB2PeriphClk_def)

lemma n32_configure_regs:
  "CTRL1 (usart (snd (n32_configure hw junk usart1 serial_config_default h))) = (CTRL1 (usart h) AND CTRL1_CLR_MASK) OR 0x200C"
  "CTRL2 (usart (snd (n32_configure hw junk usart1 serial_config_default h))) = CTRL2 (usart h) AND CTRL2_STPB_CLR_MASK"
  "CTRL3 (usart (snd (n32_configure hw junk usart1 serial_config_default h))) = CTRL3 (usart h) AND CTRL3_CLR_MASK"
  "BRCF (usart (snd (n32_configure hw junk usart1 serial_config_default h))) = of_nat (usart_divider (pclk h) 115200)"
  "board (snd (n32_configure hw junk usart1 serial_config_default h)) = board (n32_uart_gpio_init hw usart1 h)"
  by (simp_all add: n32_configure_def USART_Enable_def USART_Init_def n32_init_struct_def serial_config_default_def usart_defs or.assoc)

text \<open>A pin of the port: alternate function 4, push-pull, no pull resistor.\<close>

definition usart_pin :: "pin_conf \<Rightarrow> pin_conf" where
  "usart_pin c = c\<lparr>pc_mode := 2, pc_pull := 0, pc_drive := 0, pc_slew := 0, pc_type := 0, pc_af := 4\<rparr>"

definition usart_pins :: "gpio_port \<Rightarrow> nat \<Rightarrow> bool" where
  "usart_pins p n \<longleftrightarrow> p = GPIOA \<and> (n = 9 \<or> n = 10)"

definition af_init :: "u16 \<Rightarrow> GPIO_InitType" where
  "af_init b = GPIO_InitStruct\<lparr>Pin := b, GPIO_Mode := GPIO_Mode_AF_PP, GPIO_Alternate := GPIO_AF4_USART1\<rparr>"

lemma af_init_ok: "init_ok (af_init b)" "configured (af_init b) c = usart_pin c" "GPIO_Mode (af_init b) = GPIO_Mode_AF_PP" "Pin (af_init b) = b"
  by (simp_all add: af_init_def init_ok_def IS_GPIO_MODE_def GPIO_InitStruct_def GPIO_AF4_USART1_def configured_def usart_pin_def
      is_output_def is_open_drain_def flag_field_def gpio_consts Let_def mask_eq_exp_minus_1)

lemma one_bit: "n < 16 \<Longrightarrow> bit (0x0200 :: u16) n \<longleftrightarrow> n = 9" "n < 16 \<Longrightarrow> bit (0x0400 :: u16) n \<longleftrightarrow> n = 10"
  using bit_exp_iff [where ?'a = "16 word", of 9 n] bit_exp_iff [where ?'a = "16 word", of 10 n] by (auto simp: possible_bit_word)

lemma gpio_init_pins:
  assumes "hw_documented hw" and "n < 16"
  shows "pin_conf_of (gpio (board (n32_uart_gpio_init hw usart1 h)) p) n =
    (if usart_pins p n then usart_pin (pin_conf_of (gpio (board h) p) n) else pin_conf_of (gpio (board h) p) n)"
proof -
  define s where "s = RCC_EnableAPB2PeriphClk (per_clk usart1) True (RCC_EnableAPB2PeriphClk
    (tx_gpio_clk usart1 OR rx_gpio_clk usart1 OR RCC_APB2_PERIPH_AFIO) True (board h))"
  have s: "gpio s = gpio (board h)" by (simp add: s_def RCC_EnableAPB2PeriphClk_def)
  have eq: "gpio (board (n32_uart_gpio_init hw usart1 h)) =
      gpio (gpio_init_loop hw GPIOA (af_init 0x0400) 0 (gpio_init_loop hw GPIOA (af_init 0x0200) 0 s))"
    by (simp add: n32_uart_gpio_init_def usart1_def Let_def NVIC_EnableIRQ_def NVIC_SetPriority_def GPIO_InitPeripheral_def
        af_init_def s_def)
  have conf: "pin_conf_of (gpio (gpio_init_loop hw GPIOA (af_init b) 0 s') q) n =
      (if q = GPIOA \<and> bit b n then usart_pin (pin_conf_of (gpio s' q) n) else pin_conf_of (gpio s' q) n)" for b s' q
    using gpio_init_loop_conf [OF assms(1) af_init_ok(1) assms(2), of GPIOA b 0 s' q] by (auto simp: af_init_ok)
  show ?thesis unfolding eq conf one_bit [OF assms(2)] s usart_pins_def by auto
qed

lemma gpio_init_clocks:
  "bit (APB2PCLKEN (board (n32_uart_gpio_init hw usart1 h))) k" if "k \<in> {0, 2, 14}"
proof -
  have "APB2PCLKEN (board (n32_uart_gpio_init hw usart1 h)) = APB2PCLKEN (board h) OR 0x4005"
    by (simp add: n32_uart_gpio_init_def usart1_def Let_def NVIC_EnableIRQ_def NVIC_SetPriority_def GPIO_InitPeripheral_def
      gpio_init_loop_frame af_pp RCC_EnableAPB2PeriphClk_def RCC_APB2_PERIPH_GPIOA_def RCC_APB2_PERIPH_AFIO_def
      RCC_APB2_PERIPH_USART1_def or.assoc)
  then show ?thesis using that by (auto simp: bit_or_iff)
qed

text \<open>C7: Opening the registered port the way the console does succeeds: the device receives into an empty buffer, output is a stream, and
  the hardware runs at the baud rate of the configuration with 8 bits, no parity and one stop bit and interrupts for received data.  The
  clocks of the port, of the pins and of the alternate functions are on, the pins PA9 and PA10 have the port's alternate function,
  and no other pin has changed.\<close>

theorem n32_console_open:
  assumes "hw_documented hw" and "registered d" and "\<not> bit (CTRL1 (usart (uart d))) 7" and "length (nvic_enabled (board (uart d))) = 8"
  shows "\<exists>d'. rt_device_open (n32_serial_ops hw env junk junk' True) d console_oflag = Some (RT_EOK, d') \<and>
    receiving d' [] \<and> has (open_flag d') RT_DEVICE_FLAG_STREAM \<and> usart_receiving (uart d') \<and>
    BRCF (usart (uart d')) = of_nat (usart_divider (pclk (uart d)) 115200) \<and>
    CTRL1 (usart (uart d')) AND 0x1600 = 0 \<and> CTRL2 (usart (uart d')) AND 0x3000 = 0 \<and> CTRL3 (usart (uart d')) AND 0x0300 = 0 \<and>
    (\<forall>k \<in> {0, 2, 14}. bit (APB2PCLKEN (board (uart d'))) k) \<and>
    (\<forall>p. \<forall>n < 16. pin_conf_of (gpio (board (uart d')) p) n =
       (if p = GPIOA \<and> (n = 9 \<or> n = 10) then usart_pin (pin_conf_of (gpio (board (uart d)) p) n)
        else pin_conf_of (gpio (board (uart d)) p) n))"
proof -
  let ?h = "snd (n32_configure hw junk usart1 serial_config_default (uart d))"
  let ?h' = "snd (n32_control hw junk' usart1 RT_DEVICE_CTRL_SET_INT (Arg_Flag RT_DEVICE_FLAG_INT_RX) ?h)"
  have u: "usart ?h' = (usart ?h)\<lparr>CTRL1 := CTRL1 (usart ?h) OR 0x20\<rparr>"
    by (simp add: n32_control_def RT_DEVICE_CTRL_SET_INT_def RT_DEVICE_CTRL_CLR_INT_def USART_ConfigInt_def int_reg_def int_bit_def
        usart_defs set_or_clear_def NVIC_Init_def NVIC_PriorityGroupConfig_def Let_def)
  have irq: "irq_enabled (board ?h') 37"
    using assms(1,4) by (simp add: n32_control_def RT_DEVICE_CTRL_SET_INT_def RT_DEVICE_CTRL_CLR_INT_def USART_ConfigInt_def int_reg_def
        int_bit_def usart_defs NVIC_Init_def NVIC_PriorityGroupConfig_def Let_def irq_enabled_def NVIC_EnableIRQ_def
        n32_configure_regs hw_documented_def bit_or_iff)
  have b: "gpio (board ?h') = gpio (board (n32_uart_gpio_init hw usart1 (uart d)))"
    "APB2PCLKEN (board ?h') = APB2PCLKEN (board (n32_uart_gpio_init hw usart1 (uart d)))"
    by (simp_all add: n32_control_def RT_DEVICE_CTRL_SET_INT_def RT_DEVICE_CTRL_CLR_INT_def USART_ConfigInt_def int_reg_def
        int_bit_def usart_defs NVIC_Init_def NVIC_PriorityGroupConfig_def Let_def NVIC_EnableIRQ_def n32_configure_regs)
  have pins: "pin_conf_of (gpio (board ?h') p) n = (if p = GPIOA \<and> (n = 9 \<or> n = 10) then usart_pin (pin_conf_of (gpio (board (uart d)) p) n)
      else pin_conf_of (gpio (board (uart d)) p) n)" if "n < 16" for p n
    unfolding b using gpio_init_pins [OF assms(1) that] by (simp add: usart_pins_def)
  have clocks: "\<forall>k \<in> {0, 2, 14}. bit (APB2PCLKEN (board ?h')) k" unfolding b using gpio_init_clocks by blast
  have bits: "bit (CTRL1 (usart ?h')) n \<longleftrightarrow> bit ((CTRL1 (usart (uart d)) AND 0xE9F3) OR 0x202C) n" for n
    by (simp add: u n32_configure_regs usart_defs or.assoc)
  have "usart_receiving ?h'"
    using irq assms(3) by (simp add: usart_receiving_def bits bit_or_iff bit_and_iff)
  moreover have "BRCF (usart ?h') = of_nat (usart_divider (pclk (uart d)) 115200)" by (simp add: u n32_configure_regs)
  moreover have "CTRL1 (usart ?h') AND 0x1600 = 0" "CTRL2 (usart ?h') AND 0x3000 = 0" "CTRL3 (usart ?h') AND 0x0300 = 0"
    by (simp_all add: u n32_configure_regs usart_defs and.assoc bit.conj_disj_distrib2)
  moreover have "config d = serial_config_default" using assms(2) by (simp add: registered_def)
  ultimately show ?thesis unfolding n32_open_eq [OF assms(2)] using pins clocks
    by (simp add: receiving_def fifo_ok_def empty_fifo_def serial_config_default_def console_oflag_def has_def flag_defs)
qed

theorem n32_console_open_witness:
  "\<exists>d'. rt_device_open (n32_serial_ops doc_hw calm_env demo_init 0 True) demo_port console_oflag = Some (RT_EOK, d') \<and>
    receiving d' [] \<and> usart_receiving (uart d') \<and> pc_af (pin_conf_of (gpio (board (uart d')) GPIOA) 9) = 4"
proof -
  have "registered demo_port" by (simp add: registered_def demo_port_def demo_serial_def flag_defs)
  then show ?thesis
    using n32_console_open [OF doc_hw_ok, of demo_port calm_env demo_init 0]
    by (fastforce simp: demo_port_def demo_serial_def demo_usart_def usart_pin_def)
qed

section \<open>The baud rate\<close>

lemma push_or: "(y :: nat) < 16 \<Longrightarrow> push_bit 4 x OR y = 16 * x + y"
proof -
  assume "y < 16"
  then have "take_bit 4 y = y" by (simp add: take_bit_nat_eq_self)
  moreover have "push_bit 4 x AND take_bit 4 y = 0" by (simp add: bit_eq_iff bit_simps)
  ultimately have "push_bit 4 x OR y = push_bit 4 x + y" by (metis disjunctive_add_eq_or)
  then show ?thesis by (simp add: push_bit_eq_mult)
qed

lemma usart_divider_eq:
  assumes "25 * apb < 2 ^ 32" and "4 * baud < 2 ^ 32" and "d = 25 * apb div (4 * baud)" and "d < 409600"
  shows "usart_divider apb baud = 16 * (d div 100) + (16 * (d mod 100) + 50) div 100 mod 16"
proof -
  have q: "d div 100 < 4096" using assms(4) by simp
  have shift: "u32 (push_bit 4 (d div 100)) = push_bit 4 (d div 100)" using q by (simp add: u32_def push_bit_eq_mult)
  have unshift: "drop_bit 4 (push_bit 4 (d div 100)) = d div 100" by (simp add: drop_bit_eq_div push_bit_eq_mult)
  have frac: "u32_sub d (u32 (100 * (d div 100))) = d mod 100"
    using assms(4) by (simp add: u32_def minus_mult_div_eq_mod [symmetric] wrap_simps)
  have m: "x AND 0x0F = x mod 16" for x :: nat using take_bit_eq_mask [of 4 x]
    by (simp add: take_bit_eq_mod mask_eq_exp_minus_1)
  let ?f = "(16 * (d mod 100) + 50) div 100"
  have "u32_add (u32 (d mod 100 * 16)) 50 = 16 * (d mod 100) + 50" by (simp add: u32_def u32_add_def)
  then have "usart_divider apb baud = (push_bit 4 (d div 100) OR ?f mod 16) mod 2 ^ 16"
    using assms(1,2) unfolding usart_divider_def Let_def
    by (simp only: u32_id assms(3) [symmetric] shift unshift frac m)
  then show ?thesis using q by (simp add: push_or)
qed

text \<open>C37: For a peripheral clock and a baud rate that fit the registers, a bit on the line lasts as many clock cycles as the baud rate
  asks for, up to two thirds of a cycle, unless the fraction of the divider is 0.97 or more; then the carry out of the fraction is
  lost and the divider is too small by almost 1.\<close>

theorem usart_baud_rounded:
  assumes "25 * apb < 2 ^ 32" and "0 < baud" and "4 * baud < 2 ^ 32" and "d = 25 * apb div (4 * baud)" and "d < 409600"
  shows "if d mod 100 \<le> 96 then 100 * \<bar>int (usart_divider apb baud) * int baud - int apb\<bar> < 66 * int baud
    else usart_divider apb baud = 16 * (d div 100)"
proof -
  let ?q = "d div 100" and ?r = "d mod 100"
  note eq = usart_divider_eq [OF assms(1,3,4,5)]
  show ?thesis
  proof (cases "?r \<le> 96")
    case True
    let ?k = "usart_divider apb baud"
    have f: "(16 * ?r + 50) div 100 < 16" using True by simp
    then have k: "?k = 16 * ?q + (16 * ?r + 50) div 100" using eq by simp
    have e: "100 * ((16 * ?r + 50) div 100) \<le> 16 * ?r + 50" "16 * ?r + 50 < 100 * ((16 * ?r + 50) div 100) + 100"
      using div_mult_mod_eq [of "16 * ?r + 50" 100] mod_less_divisor [of 100 "16 * ?r + 50"] by linarith+
    have "d = 100 * ?q + ?r" by simp
    then have "100 * ?k \<le> 16 * d + 50" "16 * d < 100 * ?k + 50 + 1" using e k by linarith+
    moreover have "d * (4 * baud) \<le> 25 * apb" "25 * apb < (d + 1) * (4 * baud)"
      unfolding assms(4) using assms(2) dividend_less_div_times [of "4 * baud" "25 * apb"] by simp_all
    ultimately have "100 * (?k * baud) \<le> 100 * apb + 50 * baud" "100 * apb < 100 * (?k * baud) + 66 * baud"
      using mult_le_mono1 [of "100 * ?k" "16 * d + 50" baud] mult_le_mono1 [of "16 * d" "100 * ?k + 50" baud]
      by (simp_all add: algebra_simps)
    then have "100 * (int ?k * int baud) \<le> 100 * int apb + 50 * int baud" "100 * int apb < 100 * (int ?k * int baud) + 66 * int baud"
      by (simp_all flip: of_nat_mult of_nat_add)
    then have "100 * \<bar>int ?k * int baud - int apb\<bar> < 66 * int baud"
      using assms(2) unfolding abs_if by auto
    then show ?thesis using True by simp
  next
    case False
    then have "?r = 97 \<or> ?r = 98 \<or> ?r = 99" using mod_less_divisor [of 100 d] by linarith
    then show ?thesis using eq False by auto
  qed
qed

theorem usart_baud_rounded_witness:
  "100 * \<bar>int (usart_divider 27000000 115200) * 115200 - 27000000\<bar> < 66 * 115200 \<and> usart_divider 27000000 9643 = 16 * 174"
  using usart_baud_rounded [of 27000000 115200 1464] usart_baud_rounded [of 27000000 9643 17499]
  by simp

section \<open>The contract with the device framework\<close>

interpretation n32_serial: device_driver "n32_serial_ops hw env junk junk' mem" for hw env junk junk' mem
  unfolding n32_serial_ops_def
  by (rule serial_device_driver) (auto simp: n32_uart_ops_def n32_configure_def RT_EOK_def RT_ENOSYS_def)

text \<open>C11: Whatever the users of the serial port do, with at most 255 of them, the device is open exactly while somebody has it open, and its
  count is the number of those who have.\<close>

theorem n32_serial_users:
  assumes "(dev_step (n32_serial_ops hw env junk junk' mem))\<^sup>*\<^sup>* (0, d0) (n, d)" and "ref_count d0 = 0" and "\<not> is_open d0"
  shows "unat (ref_count d) = n \<and> is_open d = (0 < n)"
  using assms by (rule n32_serial.dev_run_counted)

theorem n32_serial_users_witness:
  "\<exists>d. (dev_step (n32_serial_ops doc_hw calm_env demo_init 0 True))\<^sup>*\<^sup>* (0, demo_port) (1, d) \<and> ref_count d \<noteq> 0 \<and> is_open d"
proof -
  let ?ops = "n32_serial_ops doc_hw calm_env demo_init 0 True"
  obtain d where "rt_device_open ?ops demo_port console_oflag = Some (RT_EOK, d)"
    using n32_open_eq [of demo_port doc_hw calm_env demo_init 0]
    by (auto simp: registered_def demo_port_def demo_serial_def flag_defs)
  then have "dev_step ?ops (0, demo_port) (1, d)"
    using dev_step.opened [of 0 ?ops demo_port console_oflag RT_EOK d] by (simp add: ok_result_def)
  then have run: "(dev_step ?ops)\<^sup>*\<^sup>* (0, demo_port) (1, d)" by simp
  have "unat (ref_count d) = 1 \<and> is_open d = (0 < (1 :: nat))"
    by (rule n32_serial_users [OF run]) (simp_all add: demo_port_def demo_serial_def is_open_def has_def)
  then show ?thesis using run by auto
qed

end
