(* ===== verification/Msh.thy ===== *)
theory Msh
  imports Rt_Prelude "HOL-Library.Sublist" "HOL-Library.Monad_Syntax"
begin

text \<open>
  The command interpreter of the shell: \<^verbatim>\<open>components/finsh/msh.c\<close> and \<^verbatim>\<open>msh_parse.c\<close>.

  A command line is a list of bytes, the memory from the start of the command to the end of the shell's line buffer; an
  access outside of it is \<open>None\<close>.  Pointers into it are indexes.  The table of commands, which the linker collects, is an argument.  A
  command gets its arguments as strings and works on a console, which has the text printed so far and the rest of the system.
  \<^verbatim>\<open>rt_kprintf\<close> is given the formatted text and cuts it to the size of its buffer.

  Shown: \<open>msh_split\<close>, which cuts a line in place, computes the words of the line as a reference definition on plain lists gives them
  (\<open>msh_split_words\<close>), so words that are joined by blanks are read back (\<open>msh_split_join\<close>); a line runs exactly the
  command of its first word; completion extends a prefix to the longest common prefix of the commands that match.
\<close>

type_synonym bytes = "u8 list"

definition ascii :: "string \<Rightarrow> bytes" where
  "ascii s = map of_char s"

definition FINSH_ARG_MAX :: nat where "FINSH_ARG_MAX = 10"
definition RT_CONSOLEBUF_SIZE :: nat where "RT_CONSOLEBUF_SIZE = 128"

section \<open>Data\<close>

record 's console =
  out :: bytes
  app :: 's

record msh_cmd_opt =
  opt_id :: nat
  opt_name :: bytes
  opt_des :: bytes

text \<open>The options of a command are those before the entry with number 0.\<close>

record 's finsh_syscall =
  sc_name :: bytes
  sc_desc :: bytes
  sc_opt :: "msh_cmd_opt list"
  sc_func :: "bytes list \<Rightarrow> 's console \<Rightarrow> int \<times> 's console"

definition rt_kprintf :: "bytes \<Rightarrow> 's console \<Rightarrow> 's console" where
  "rt_kprintf s w =
     w\<lparr>out := out w @ (if length s < RT_CONSOLEBUF_SIZE - 1 then s else take (RT_CONSOLEBUF_SIZE - 2) s @ [0])\<rparr>"

fun dec_digits :: "nat \<Rightarrow> bytes" where
  "dec_digits n = (if n < 10 then [of_nat (48 + n)] else dec_digits (n div 10) @ [of_nat (48 + n mod 10)])"

definition dec :: "int \<Rightarrow> bytes" where
  "dec i = (if i < 0 then 45 # dec_digits (nat (- i)) else dec_digits (nat i))"

definition pad_right :: "nat \<Rightarrow> bytes \<Rightarrow> bytes" where
  "pad_right n s = s @ replicate (n - length s) 32"

section \<open>Strings in a buffer\<close>

definition rd :: "bytes \<Rightarrow> nat \<Rightarrow> u8 option" where
  "rd b i = (if i < length b then Some (b ! i) else None)"

definition wr :: "bytes \<Rightarrow> nat \<Rightarrow> u8 \<Rightarrow> bytes option" where
  "wr b i v = (if i < length b then Some (b[i := v]) else None)"

definition cstr :: "bytes \<Rightarrow> nat \<Rightarrow> bytes" where
  "cstr b i = takeWhile (\<lambda>c. c \<noteq> 0) (drop i b)"

text \<open>A string is copied into the buffer without its terminator.\<close>

definition copy_in :: "bytes \<Rightarrow> nat \<Rightarrow> bytes \<Rightarrow> bytes option" where
  "copy_in b i s = (if i + length s \<le> length b then Some (take i b @ s @ drop (i + length s) b) else None)"

text \<open>\<^verbatim>\<open>strncmp(s, t, n) == 0\<close> for strings without their terminators.\<close>

definition strn_eq :: "bytes \<Rightarrow> bytes \<Rightarrow> nat \<Rightarrow> bool" where
  "strn_eq s t n \<longleftrightarrow> take n (s @ [0]) = take n (t @ [0])"

definition blank :: "u8 \<Rightarrow> bool" where
  "blank c \<longleftrightarrow> c = 32 \<or> c = 9"

section \<open>Splitting\<close>

function skip_blank :: "bytes \<Rightarrow> nat \<Rightarrow> nat \<Rightarrow> (bytes \<times> nat) option" where
  "skip_blank b len p =
     (if p \<ge> length b then None
      else if blank (b ! p) \<and> p < len then skip_blank (b[p := 0]) len (p + 1)
      else Some (b, p))"
  by pat_completeness auto
termination by (relation "measure (\<lambda>(b, len, p). len - p)") auto

function skip_quoted :: "bytes \<Rightarrow> nat \<Rightarrow> nat \<Rightarrow> nat option" where
  "skip_quoted b len p =
     (if p \<ge> length b then None
      else if b ! p \<noteq> 34 \<and> p < len then
        (if b ! p = 92 then
           (if p + 1 \<ge> length b then None
            else if b ! (p + 1) = 34 then skip_quoted b len (p + 2)
            else skip_quoted b len (p + 1))
         else skip_quoted b len (p + 1))
      else Some p)"
  by pat_completeness auto
termination by (relation "measure (\<lambda>(b, len, p). len - p)") auto

function skip_word :: "bytes \<Rightarrow> nat \<Rightarrow> nat \<Rightarrow> nat option" where
  "skip_word b len p =
     (if p \<ge> length b then None
      else if \<not> blank (b ! p) \<and> p < len then skip_word b len (p + 1)
      else Some p)"
  by pat_completeness auto
termination by (relation "measure (\<lambda>(b, len, p). len - p)") auto

declare skip_blank.simps [simp del] skip_quoted.simps [simp del] skip_word.simps [simp del]

text \<open>The result has the buffer, the indexes of the arguments, and whether there were too many.\<close>

partial_function (option) msh_split_loop :: "nat \<Rightarrow> bytes \<Rightarrow> nat \<Rightarrow> nat list \<Rightarrow> (bytes \<times> nat list \<times> bool) option" where
  "msh_split_loop len b p argv =
     (if p < len then
        do {
          (b1, p1) \<leftarrow> skip_blank b len p;
          (if length argv \<ge> FINSH_ARG_MAX then Some (b1, argv, True)
           else if p1 \<ge> len then Some (b1, argv, False)
           else do {
             c \<leftarrow> rd b1 p1;
             (if c = 34 then do {
                p2 \<leftarrow> skip_quoted b1 len (p1 + 1);
                (if p2 \<ge> len then Some (b1, argv @ [p1 + 1], False)
                 else do {
                   b2 \<leftarrow> wr b1 p2 0;
                   msh_split_loop len b2 (p2 + 1) (argv @ [p1 + 1])
                 })
              }
              else do {
                p2 \<leftarrow> skip_word b1 len p1;
                (if p2 \<ge> len then Some (b1, argv @ [p1], False)
                 else msh_split_loop len b1 p2 (argv @ [p1]))
              })
           })
        }
      else Some (b, argv, False))"

declare msh_split_loop.simps [code]

definition msh_split :: "bytes \<Rightarrow> nat \<Rightarrow> 's console \<Rightarrow> (nat list \<times> bytes \<times> 's console) option" where
  "msh_split cmd len w =
     map_option (\<lambda>(b, argv, too_many).
       (argv, b,
        if too_many
        then rt_kprintf [10] (fold (\<lambda>a. rt_kprintf (cstr b a @ [32])) argv (rt_kprintf (ascii ''Too many args ! We only Use:'' @ [10]) w))
        else w))
     (msh_split_loop len cmd 0 [])"

section \<open>Commands\<close>

fun msh_get_cmd :: "'s finsh_syscall list \<Rightarrow> bytes \<Rightarrow> nat \<Rightarrow> 's finsh_syscall option" where
  "msh_get_cmd [] cmd sz = None"
| "msh_get_cmd (x # xs) cmd sz =
     (if strn_eq (sc_name x) cmd sz \<and> sz \<le> length (sc_name x) \<and> (sc_name x @ [0]) ! sz = 0 then Some x
      else msh_get_cmd xs cmd sz)"

text \<open>The length of the first word.\<close>

definition cmd0_size :: "bytes \<Rightarrow> nat \<Rightarrow> nat" where
  "cmd0_size cmd len = length (takeWhile (\<lambda>c. \<not> blank c) (take len cmd))"

text \<open>\<open>Inl\<close> where the function returns \<^verbatim>\<open>-RT_ERROR\<close>, otherwise the result of the command.  In C \<^verbatim>\<open>argv\<close> points into
  the line; the model gives the command the strings themselves, so commands that write into their arguments, or into the
  shell's line behind them, are outside of it.\<close>

definition msh_exec_cmd ::
    "'s finsh_syscall list \<Rightarrow> bytes \<Rightarrow> nat \<Rightarrow> 's console \<Rightarrow> ((rt_err_t + int) \<times> bytes \<times> 's console) option" where
  "msh_exec_cmd tab cmd len w =
     (let sz = cmd0_size cmd len
      in if sz = 0 then Some (Inl (- RT_ERROR), cmd, w)
         else case msh_get_cmd tab (cstr cmd 0) sz of
             None \<Rightarrow> Some (Inl (- RT_ERROR), cmd, w)
           | Some x \<Rightarrow> do {
               (argv, b, w1) \<leftarrow> msh_split cmd len w;
               (if argv = [] then Some (Inl (- RT_ERROR), b, w1)
                else (case sc_func x (map (cstr b) argv) w1 of (ret, w2) \<Rightarrow> Some (Inr ret, b, w2)))
             })"

text \<open>Leading blanks are skipped; the rest of the buffer is the command.  The result is that of \<^verbatim>\<open>msh_exec\<close>.\<close>

definition msh_exec :: "'s finsh_syscall list \<Rightarrow> bytes \<Rightarrow> nat \<Rightarrow> 's console \<Rightarrow> (int \<times> 's console) option" where
  "msh_exec tab line len w =
     (let k = length (takeWhile blank (take len line)); cmd = drop k line; n = len - k
      in if len > length line then None
         else if n = 0 then Some (0, w)
         else do {
           (r, b, w1) \<leftarrow> msh_exec_cmd tab cmd n w;
           (case r of
              Inr ret \<Rightarrow> Some (ret, if ret < 0 then rt_kprintf (cstr b 0 @ ascii '': command failed '' @ dec ret @ ascii ''.'' @ [10]) w1 else w1)
            | Inl _ \<Rightarrow>
                (let tcmd = takeWhile (\<lambda>c. c \<noteq> 32) (cstr b 0)
                 in if length (cstr b 0) < length b
                    then Some (-1, rt_kprintf (tcmd @ ascii '': command not found.'' @ [10]) w1)
                    else None))
         })"

definition msh_help :: "'s finsh_syscall list \<Rightarrow> 's console \<Rightarrow> 's console" where
  "msh_help tab w =
     rt_kprintf [10] (fold (\<lambda>x. rt_kprintf (pad_right 16 (sc_name x) @ ascii '' - '' @ sc_desc x @ [10])) tab
       (rt_kprintf (ascii ''RT-Thread shell commands:'' @ [10]) w))"

section \<open>Completion\<close>

fun str_common :: "bytes \<Rightarrow> bytes \<Rightarrow> nat" where
  "str_common (x # xs) (y # ys) = (if x = y then str_common xs ys + 1 else 0)"
| "str_common _ _ = 0"

text \<open>The loop over names that completes commands and options: the first name that matches and the length that all
  matching names share.\<close>

fun complete_loop :: "(bytes \<Rightarrow> bool) \<Rightarrow> bytes list \<Rightarrow> bytes option \<times> nat \<Rightarrow> 's console \<Rightarrow> (bytes option \<times> nat) \<times> 's console" where
  "complete_loop match [] s w = (s, w)"
| "complete_loop match (name # names) (ptr, min_length) w =
     (if match name then
        (let (ptr1, min1) = (if min_length = 0 then (name, length name) else (the ptr, min_length));
             len = str_common ptr1 name
         in complete_loop match names (Some ptr1, if len < min1 then len else min1) (rt_kprintf (name @ [10]) w))
      else complete_loop match names (ptr, min_length) w)"

definition msh_auto_complete :: "'s finsh_syscall list \<Rightarrow> bytes \<Rightarrow> 's console \<Rightarrow> (bytes \<times> 's console) option" where
  "msh_auto_complete tab line w =
     (let prefix = cstr line 0
      in if prefix = [] then Some (line, msh_help tab w)
         else case complete_loop (\<lambda>name. strn_eq prefix name (length prefix)) (map sc_name tab) (None, 0) w of
             ((None, _), w1) \<Rightarrow> Some (line, w1)
           | ((Some name, n), w1) \<Rightarrow> map_option (\<lambda>l. (l, w1)) (copy_in line 0 (take n name)))"

definition msh_get_cmd_opt :: "'s finsh_syscall list \<Rightarrow> bytes \<Rightarrow> msh_cmd_opt list" where
  "msh_get_cmd_opt tab opt_str =
     (let len = length (takeWhile (\<lambda>c. c \<noteq> 32) opt_str)
      in case msh_get_cmd tab opt_str len of None \<Rightarrow> [] | Some x \<Rightarrow> sc_opt x)"

text \<open>The number of words after the first, and where the last one starts.\<close>

fun msh_get_argc :: "bytes \<Rightarrow> nat \<Rightarrow> nat \<times> nat \<Rightarrow> nat \<times> nat" where
  "msh_get_argc (c # d # s) i (argc, at) =
     msh_get_argc (d # s) (i + 1) (if c = 32 \<and> d \<noteq> 32 then (argc + 1, i + 1) else (argc, at))"
| "msh_get_argc _ i r = r"

definition msh_opt_complete :: "bytes \<Rightarrow> nat \<Rightarrow> msh_cmd_opt list \<Rightarrow> 's console \<Rightarrow> (bytes \<times> 's console) option" where
  "msh_opt_complete line at opts w =
     (let opts_str = cstr line at
      in case complete_loop (\<lambda>name. strn_eq name opts_str (length opts_str)) (map opt_name opts) (None, 0) w of
          ((None, _), w1) \<Rightarrow> Some (line, rt_kprintf [10] w1)
        | ((Some name, n), w1) \<Rightarrow> map_option (\<lambda>l. (l, rt_kprintf [10] w1)) (copy_in line at (take n name)))"

definition msh_opt_help :: "msh_cmd_opt list \<Rightarrow> 's console \<Rightarrow> 's console" where
  "msh_opt_help opts w = rt_kprintf [10] (fold (\<lambda>x. rt_kprintf (pad_right 16 (opt_name x) @ ascii '' - '' @ opt_des x @ [10])) opts w)"

text \<open>\<open>front\<close> is the byte in front of the line, which is read when the line is empty.\<close>

definition msh_opt_auto_complete :: "'s finsh_syscall list \<Rightarrow> u8 \<Rightarrow> bytes \<Rightarrow> 's console \<Rightarrow> (bytes \<times> 's console) option" where
  "msh_opt_auto_complete tab front line w =
     (let prefix = cstr line 0; (argc, at) = msh_get_argc prefix 0 (0, 0);
          opts = (if argc \<noteq> 0 then msh_get_cmd_opt tab prefix
                  else if msh_get_cmd tab prefix (length prefix) = None \<and> (if prefix = [] then front else last prefix) = 32
                  then msh_get_cmd_opt tab prefix else [])
      in if opts = [] then Some (line, w)
         else if argc = 0 then Some (line, msh_opt_help opts w)
         else if argc = 1 then msh_opt_complete line at opts w
         else Some (line, w))"

fun msh_cmd_opt_id_get :: "nat \<Rightarrow> bytes list \<Rightarrow> msh_cmd_opt list \<Rightarrow> nat" where
  "msh_cmd_opt_id_get argc argv [] = 0"
| "msh_cmd_opt_id_get argc argv (x # xs) =
     (if argc \<ge> 2 \<and> opt_name x = argv ! 1 then opt_id x else msh_cmd_opt_id_get argc argv xs)"

definition msh_opt_list_dump :: "msh_cmd_opt list \<Rightarrow> 's console \<Rightarrow> 's console" where
  "msh_opt_list_dump opts w = fold (\<lambda>x. rt_kprintf (ascii ''    '' @ pad_right 16 (opt_name x) @ ascii '' - '' @ opt_des x @ [10])) opts w"

section \<open>Numbers in arguments\<close>

definition is_digit :: "u8 \<Rightarrow> bool" where "is_digit c \<longleftrightarrow> 48 \<le> c \<and> c \<le> 57"
definition is_xdigit :: "u8 \<Rightarrow> bool" where "is_xdigit c \<longleftrightarrow> is_digit c \<or> 65 \<le> c \<and> c \<le> 70 \<or> 97 \<le> c \<and> c \<le> 102"
definition to_lower :: "u8 \<Rightarrow> u8" where "to_lower c = (if 65 \<le> c \<and> c \<le> 90 then c + 32 else c)"

definition msh_isint :: "bytes option \<Rightarrow> bool" where
  "msh_isint strvalue =
     (case strvalue of None \<Rightarrow> False | Some [] \<Rightarrow> False
      | Some (c # s) \<Rightarrow> list_all is_digit (if c = 43 \<or> c = 45 then s else c # s))"

definition msh_ishex :: "bytes option \<Rightarrow> bool" where
  "msh_ishex strvalue =
     (case strvalue of Some (c # d # s) \<Rightarrow> c = 48 \<and> d = 120 \<and> list_all (\<lambda>x. is_xdigit (to_lower x)) s | _ \<Rightarrow> False)"

definition hex_digit :: "u8 \<Rightarrow> int" where
  "hex_digit x = (let c = to_lower x in if is_digit c then uint c - 48 else uint c - 97 + 10)"

text \<open>Arithmetic of 32 bits; in C an overflow is undefined.\<close>

definition msh_strtohex :: "bytes \<Rightarrow> 32 word" where
  "msh_strtohex strvalue = fold (\<lambda>x v. v * 16 + word_of_int (hex_digit x)) (drop 2 strvalue) 0"

section \<open>The words of a line\<close>

text \<open>The text of a quoted word and what follows the closing quote, if there is one.  A quote after a backslash does not close the
  word; both characters stay in it.\<close>

fun cut_quote :: "bytes \<Rightarrow> bytes \<times> bytes option" where
  "cut_quote [] = ([], None)"
| "cut_quote (c # s) =
     (if c = 34 then ([], Some s)
      else if c = 92 \<and> s \<noteq> [] \<and> hd s = 34 then apfst (\<lambda>w. 92 # 34 # w) (cut_quote (tl s))
      else apfst (Cons c) (cut_quote s))"

lemma cut_quote_split: "cut_quote s = (w, r) \<Longrightarrow> s = w @ (case r of None \<Rightarrow> [] | Some t \<Rightarrow> 34 # t)"
proof (induction s arbitrary: w r rule: cut_quote.induct)
  case (2 c s)
  show ?case
  proof (cases "c = 92 \<and> s \<noteq> [] \<and> hd s = 34")
    case True
    then have c: "cut_quote (c # s) = apfst (\<lambda>w. 92 # 34 # w) (cut_quote (tl s))" by simp
    obtain w' where w': "cut_quote (tl s) = (w', r)" "w = 92 # 34 # w'"
      using "2.prems" unfolding c by (cases "cut_quote (tl s)") auto
    have "tl s = w' @ (case r of None \<Rightarrow> [] | Some t \<Rightarrow> 34 # t)" using True by (intro "2.IH"(1) w'(1)) auto
    then show ?thesis using True w'(2) by (cases s) auto
  next
    case False
    then show ?thesis using "2.prems" "2.IH"(2) [of _ r] by (cases "cut_quote s") (auto split: if_splits)
  qed
qed simp

function words :: "bytes \<Rightarrow> bytes list" where
  "words s =
     (case dropWhile blank s of
        [] \<Rightarrow> []
      | c # t \<Rightarrow>
          if c = 34 then (case cut_quote t of (w, None) \<Rightarrow> [w] | (w, Some r) \<Rightarrow> w # words r)
          else takeWhile (\<lambda>x. \<not> blank x) (c # t) # words (dropWhile (\<lambda>x. \<not> blank x) (c # t)))"
  by pat_completeness auto
termination
proof (relation "measure length")
  fix s c t w and r :: bytes and x
  assume "dropWhile blank s = c # t" "c = 34" "(w, x) = cut_quote t" "x = Some r"
  then have "length r < length (dropWhile blank s)" using cut_quote_split [of t w "Some r"] by auto
  then show "(r, s) \<in> measure length" using length_dropWhile_le [of blank s] by simp
next
  fix s c t
  assume a: "dropWhile blank s = c # t" "c \<noteq> (34 :: u8)"
  then have "\<not> blank c" by (metis hd_dropWhile list.distinct(1) list.sel(1))
  then have "length (dropWhile (\<lambda>x. \<not> blank x) (c # t)) < length (dropWhile blank s)"
    unfolding a(1) using length_dropWhile_le [of "\<lambda>x. \<not> blank x" t] by simp
  then show "(dropWhile (\<lambda>x. \<not> blank x) (c # t), s) \<in> measure length" using length_dropWhile_le [of blank s] by simp
qed simp

declare words.simps [simp del]

text \<open>The rest of the line from \<open>p\<close>.\<close>

definition seg :: "bytes \<Rightarrow> nat \<Rightarrow> nat \<Rightarrow> bytes" where
  "seg b len p = drop p (take len b)"

lemma seg_Cons: "p < len \<Longrightarrow> len < length b \<Longrightarrow> seg b len p = b ! p # seg b len (p + 1)"
  by (simp add: seg_def Cons_nth_drop_Suc [symmetric])

lemma seg_end [simp]: "len \<le> p \<Longrightarrow> seg b len p = []"
  by (simp add: seg_def)

lemma seg_length [simp]: "len < length b \<Longrightarrow> length (seg b len p) = len - p"
  by (simp add: seg_def)

lemma seg_cong: "length b' = length b \<Longrightarrow> (\<And>i. p \<le> i \<Longrightarrow> i < len \<Longrightarrow> b' ! i = b ! i) \<Longrightarrow> len < length b \<Longrightarrow> seg b' len p = seg b len p"
  by (rule nth_equalityI) (auto simp: seg_def)

lemma seg_drop: "drop n (seg b len p) = seg b len (p + n)"
  by (simp add: seg_def add.commute)

lemma seg_nth: "len < length b \<Longrightarrow> i < len - p \<Longrightarrow> seg b len p ! i = b ! (p + i)"
  by (simp add: seg_def)

lemma skip_blank_ok:
  assumes "len < length b" and "p \<le> len"
  shows "\<exists>b1. skip_blank b len p = Some (b1, p + length (takeWhile blank (seg b len p))) \<and> length b1 = length b \<and>
    (\<forall>i. b1 ! i = (if p \<le> i \<and> i < p + length (takeWhile blank (seg b len p)) then 0 else b ! i))"
  using assms
proof (induction b len p rule: skip_blank.induct)
  case (1 b len p)
  show ?case
  proof (cases "blank (b ! p) \<and> p < len")
    case True
    let ?b = "b[p := 0]" and ?k = "length (takeWhile blank (seg b len (p + 1)))"
    have s: "seg ?b len (p + 1) = seg b len (p + 1)" using "1.prems" by (intro seg_cong) auto
    obtain b1 where "skip_blank ?b len (p + 1) = Some (b1, p + 1 + ?k)" "length b1 = length b"
      "\<forall>i. b1 ! i = (if p + 1 \<le> i \<and> i < p + 1 + ?k then 0 else ?b ! i)"
      using "1.IH" True "1.prems" s by fastforce
    then show ?thesis using True "1.prems" by (auto simp: skip_blank.simps [of b] seg_Cons nth_list_update)
  next
    case False
    have "takeWhile blank (seg b len p) = []"
      using False "1.prems" by (cases "p < len") (auto simp: seg_Cons)
    moreover have "skip_blank b len p = Some (b, p)" using False "1.prems" by (subst skip_blank.simps) auto
    ultimately show ?thesis by auto
  qed
qed

lemma skip_word_ok:
  assumes "len < length b" and "p \<le> len"
  shows "skip_word b len p = Some (p + length (takeWhile (\<lambda>x. \<not> blank x) (seg b len p)))"
  using assms
proof (induction b len p rule: skip_word.induct)
  case (1 b len p)
  then show ?case by (subst skip_word.simps, cases "p < len") (auto simp: seg_Cons)
qed

lemma skip_quoted_ok:
  assumes "len < length b" and "p \<le> len" and "b ! len = 0" and "cut_quote (seg b len p) = (w, r)"
  shows "skip_quoted b len p = Some (p + length w)"
  using assms
proof (induction b len p arbitrary: w r rule: skip_quoted.induct)
  case (1 b len p)
  show ?case
  proof (cases "p < len \<and> b ! p \<noteq> 34")
    case False
    then show ?thesis using "1.prems" by (subst skip_quoted.simps, cases "p < len") (auto simp: seg_Cons)
  next
    case True
    have s: "seg b len p = b ! p # seg b len (p + 1)" using True "1.prems"(1) by (simp add: seg_Cons)
    show ?thesis
    proof (cases "b ! p = 92 \<and> b ! (p + 1) = 34")
      case esc: True
      then have "p + 1 < len" using "1.prems"(2,3) True by (cases "p + 1 = len") auto
      then have s2: "seg b len (p + 1) = b ! (p + 1) # seg b len (p + 2)" using "1.prems"(1) by (simp add: seg_Cons)
      obtain w' where w': "cut_quote (seg b len (p + 2)) = (w', r)" "w = 92 # 34 # w'"
        using "1.prems"(4) s s2 esc by (cases "cut_quote (seg b len (p + 2))") auto
      then have "skip_quoted b len (p + 2) = Some (p + 2 + length w')"
        using "1.IH"(1) True esc "1.prems" \<open>p + 1 < len\<close> by auto
      then show ?thesis using esc True "1.prems" w'(2) by (subst skip_quoted.simps) auto
    next
      case plain: False
      have "\<not> (b ! p = 92 \<and> seg b len (p + 1) \<noteq> [] \<and> hd (seg b len (p + 1)) = 34)"
        using plain "1.prems"(1) by (cases "p + 1 < len") (auto simp: seg_Cons)
      then obtain w' where w': "cut_quote (seg b len (p + 1)) = (w', r)" "w = b ! p # w'"
        using "1.prems"(4) s True by (cases "cut_quote (seg b len (p + 1))") (auto split: if_splits)
      then have "skip_quoted b len (p + 1) = Some (p + 1 + length w')"
        using "1.IH"(2,3) True plain "1.prems" by (cases "b ! p = 92") auto
      then show ?thesis using plain True "1.prems" w'(2) by (subst skip_quoted.simps) auto
    qed
  qed
qed

lemma cstr_eq:
  assumes "i + length w < length b" and "\<And>k. k < length w \<Longrightarrow> b ! (i + k) = w ! k" and "b ! (i + length w) = 0" and "0 \<notin> set w"
  shows "cstr b i = w"
proof -
  have "take (length w) (drop i b) = w" using assms(1,2) by (intro nth_equalityI) auto
  moreover have "drop (i + length w) b = 0 # drop (i + length w + 1) b"
    using assms(1,3) by (simp add: Cons_nth_drop_Suc [symmetric])
  ultimately have "drop i b = w @ 0 # drop (i + length w + 1) b"
    by (metis append_take_drop_id drop_drop add.commute)
  then show ?thesis using assms(4) by (auto simp: cstr_def takeWhile_append)
qed

lemma blank_0 [simp]: "\<not> blank 0"
  by (simp add: blank_def)

lemma seg_set: "len < length b \<Longrightarrow> x \<in> set (seg b len p) \<Longrightarrow> \<exists>i. p \<le> i \<and> i < len \<and> x = b ! i"
  by (auto simp: in_set_conv_nth seg_nth) (metis add.commute le_add2 less_diff_conv)

lemma cstr_seg:
  assumes "seg b len a = w @ v" and "len < length b" and "a \<le> len" and "\<forall>i. a \<le> i \<and> i < len \<longrightarrow> b ! i \<noteq> 0"
    and "length b' = length b" and "\<And>i. i < a + length w \<Longrightarrow> b' ! i = b ! i" and "b' ! (a + length w) = 0"
  shows "cstr b' a = w"
proof -
  have le: "a + length w \<le> len" using arg_cong [OF assms(1), of length] assms(2,3) by simp
  have "b ! (a + k) = w ! k" if "k < length w" for k
    using seg_nth [OF assms(2), of k a] that le by (simp add: assms(1) nth_append)
  moreover have "0 \<notin> set w" using seg_set [OF assms(2), of 0 a] assms(1,4) by force
  ultimately show ?thesis using le assms(2,5-7) by (intro cstr_eq) auto
qed

text \<open>What holds when the loop starts a turn, and what its result then is.  The first byte after the last word, if it is a blank, is
  overwritten by the next turn.\<close>

definition split_pre :: "nat \<Rightarrow> bytes \<Rightarrow> nat \<Rightarrow> nat list \<Rightarrow> bool" where
  "split_pre len b p argv \<longleftrightarrow> p \<le> len \<and> len < length b \<and> b ! len = 0 \<and> (\<forall>i. p \<le> i \<and> i < len \<longrightarrow> b ! i \<noteq> 0) \<and> length argv \<le> FINSH_ARG_MAX"

definition split_ok :: "nat \<Rightarrow> bytes \<Rightarrow> nat \<Rightarrow> nat list \<Rightarrow> bool" where
  "split_ok len b p argv \<longleftrightarrow>
     (\<exists>b' argv' t. msh_split_loop len b p argv = Some (b', argv @ argv', t) \<and> length b' = length b \<and>
        map (cstr b') argv' = take (FINSH_ARG_MAX - length argv) (words (seg b len p)) \<and>
        (\<forall>i < p. b' ! i = b ! i) \<and> (p < len \<and> blank (b ! p) \<longrightarrow> b' ! p = 0) \<and> b' ! len = 0 \<and>
        (length argv + length (words (seg b len p)) < FINSH_ARG_MAX \<longrightarrow> \<not> t))"

lemma split_okI:
  assumes "msh_split_loop len b p argv = Some (b', argv @ argv', t)" and "length b' = length b"
    and "map (cstr b') argv' = take (FINSH_ARG_MAX - length argv) (words (seg b len p))"
    and "\<And>i. i < p \<Longrightarrow> b' ! i = b ! i" and "p < len \<Longrightarrow> blank (b ! p) \<Longrightarrow> b' ! p = 0" and "b' ! len = 0"
    and "length argv + length (words (seg b len p)) < FINSH_ARG_MAX \<Longrightarrow> \<not> t"
  shows "split_ok len b p argv"
  using assms unfolding split_ok_def by blast

lemma args_left: "length argv < FINSH_ARG_MAX \<Longrightarrow> \<exists>n. FINSH_ARG_MAX - length argv = Suc n \<and> (\<forall>q. FINSH_ARG_MAX - length (argv @ [q]) = n)"
  by (metis Suc_diff_Suc length_append_singleton)

lemma split_quoted:
  assumes pre: "split_pre len b p argv" and more: "length argv < FINSH_ARG_MAX" "p < len" and c: "b ! p = 34"
    and IH: "\<And>b p' argv. p < p' \<Longrightarrow> split_pre len b p' argv \<Longrightarrow> split_ok len b p' argv"
    and loop: "msh_split_loop len b0 p0 argv = Option.bind (skip_quoted b len (p + 1)) (\<lambda>p2.
        if p2 \<ge> len then Some (b, argv @ [p + 1], False)
        else Option.bind (wr b p2 0) (\<lambda>b2. msh_split_loop len b2 (p2 + 1) (argv @ [p + 1])))"
    and ws: "words (seg b0 len p0) = (case cut_quote (seg b len (p + 1)) of (w, None) \<Rightarrow> [w] | (w, Some r) \<Rightarrow> w # words r)"
    and frame: "length b0 = length b" "\<And>i. i < p0 \<Longrightarrow> b ! i = b0 ! i" "blank (b0 ! p0) \<Longrightarrow> b ! p0 = 0" "p0 \<le> p"
  shows "split_ok len b0 p0 argv"
proof -
  have b: "len < length b" "b ! len = 0" "\<forall>i. p + 1 \<le> i \<and> i < len \<longrightarrow> b ! i \<noteq> 0" using pre by (auto simp: split_pre_def)
  obtain n where n: "FINSH_ARG_MAX - length argv = Suc n" "FINSH_ARG_MAX - length (argv @ [q]) = n" for q using args_left [OF more(1)] by blast
  obtain w r where cut: "cut_quote (seg b len (p + 1)) = (w, r)" by fastforce
  note s = cut_quote_split [OF cut]
  have p2: "skip_quoted b len (p + 1) = Some (p + 1 + length w)" using skip_quoted_ok [OF b(1) _ b(2) cut] more(2) by simp
  have lenw: "length w + (case r of None \<Rightarrow> 0 | Some t \<Rightarrow> 1 + length t) = len - (p + 1)"
    using arg_cong [OF s, of length] b(1) by (auto split: option.splits)
  show ?thesis
  proof (cases r)
    case None
    then have at_end: "p + 1 + length w = len" using lenw more(2) by simp
    have "cstr b (p + 1) = w" using cstr_seg [OF s] None b at_end more(2) by simp
    then show ?thesis using loop p2 at_end ws cut None n b(2) frame by (intro split_okI [of _ _ _ _ b "[p + 1]" False]) auto
  next
    case (Some t)
    let ?q = "p + 1 + length w" and ?b = "b[p + 1 + length w := 0]"
    have q: "?q < len" using lenw Some more(2) by simp
    have "seg b len (?q + 1) = t" using seg_drop [of "length w + 1" b len "p + 1"] s Some by (simp add: add.assoc)
    then have t: "seg ?b len (?q + 1) = t" using seg_cong [of ?b b "?q + 1" len] b(1) by simp
    have "split_pre len ?b (?q + 1) (argv @ [p + 1])" using q b more by (auto simp: split_pre_def)
    from IH [OF _ this] obtain b' argv' f where
      r: "msh_split_loop len ?b (?q + 1) (argv @ [p + 1]) = Some (b', (argv @ [p + 1]) @ argv', f)"
      "length b' = length b" "map (cstr b') argv' = take n (words t)" "\<forall>i < ?q + 1. b' ! i = ?b ! i" "b' ! len = 0"
      "length argv + 1 + length (words t) < FINSH_ARG_MAX \<longrightarrow> \<not> f"
      unfolding split_ok_def n(2) t by auto
    have "cstr b' (p + 1) = w" using cstr_seg [OF s, of b'] Some b r(2,4) q more(2) by (simp add: nth_list_update)
    moreover have "b' ! i = b ! i" if "i < ?q" for i using r(4) that q b(1) by (simp add: nth_list_update)
    ultimately show ?thesis using loop p2 q ws cut Some n r b(1) frame
      by (intro split_okI [of _ _ _ _ b' "(p + 1) # argv'" f]) (auto simp: wr_def)
  qed
qed

lemma split_word:
  assumes pre: "split_pre len b p argv" and more: "length argv < FINSH_ARG_MAX" "p < len" and c: "\<not> blank (b ! p)"
    and IH: "\<And>b p' argv. p < p' \<Longrightarrow> split_pre len b p' argv \<Longrightarrow> split_ok len b p' argv"
    and loop: "msh_split_loop len b0 p0 argv = Option.bind (skip_word b len p) (\<lambda>p2.
        if p2 \<ge> len then Some (b, argv @ [p], False) else msh_split_loop len b p2 (argv @ [p]))"
    and ws: "words (seg b0 len p0) = takeWhile (\<lambda>x. \<not> blank x) (seg b len p) # words (dropWhile (\<lambda>x. \<not> blank x) (seg b len p))"
    and frame: "length b0 = length b" "\<And>i. i < p0 \<Longrightarrow> b ! i = b0 ! i" "blank (b0 ! p0) \<Longrightarrow> b ! p0 = 0" "p0 \<le> p"
  shows "split_ok len b0 p0 argv"
proof -
  have b: "len < length b" "b ! len = 0" "\<forall>i. p \<le> i \<and> i < len \<longrightarrow> b ! i \<noteq> 0" using pre by (auto simp: split_pre_def)
  obtain n where n: "FINSH_ARG_MAX - length argv = Suc n" "FINSH_ARG_MAX - length (argv @ [q]) = n" for q using args_left [OF more(1)] by blast
  let ?w = "takeWhile (\<lambda>x. \<not> blank x) (seg b len p)" and ?v = "dropWhile (\<lambda>x. \<not> blank x) (seg b len p)"
  let ?q = "p + length ?w"
  have s: "seg b len p = ?w @ ?v" by simp
  have p2: "skip_word b len p = Some ?q" using skip_word_ok [OF b(1)] more(2) by simp
  have pos: "0 < length ?w" using c more(2) b(1) by (simp add: seg_Cons)
  have lenw: "length ?w + length ?v = len - p" using arg_cong [OF s, of length] b(1) by (metis length_append seg_length)
  have v: "seg b len ?q = ?v" by (simp add: dropWhile_eq_drop seg_drop)
  show ?thesis
  proof (cases "?q \<ge> len")
    case True
    then have at_end: "?q = len" "length ?v = 0" using lenw more(2) by linarith+
    then have at_end: "?q = len" "?v = []" by (simp_all only: length_0_conv)
    have "cstr b p = ?w" using cstr_seg [OF s] b at_end more(2) by simp
    moreover have "words ?v = []" unfolding at_end(2) by (simp add: words.simps)
    ultimately show ?thesis using loop p2 True ws n b(2) frame by (intro split_okI [of _ _ _ _ b "[p]" False]) auto
  next
    case q: False
    have "length ?v \<noteq> 0" using q lenw by linarith
    then have "?v \<noteq> []" by (metis list.size(3))
    then have "blank (hd ?v)" using hd_dropWhile [of "\<lambda>x. \<not> blank x" "seg b len p"] by blast
    moreover have "?v = b ! ?q # seg b len (?q + 1)" using v q b(1) by (metis seg_Cons not_le)
    ultimately have bl: "blank (b ! ?q)" by (metis list.sel(1))
    have "split_pre len b ?q (argv @ [p])" using q b more by (auto simp: split_pre_def)
    from IH [OF _ this] obtain b' argv' f where r: "msh_split_loop len b ?q (argv @ [p]) = Some (b', (argv @ [p]) @ argv', f)"
      "length b' = length b" "map (cstr b') argv' = take n (words ?v)" "\<forall>i < ?q. b' ! i = b ! i" "b' ! ?q = 0" "b' ! len = 0"
      "length argv + 1 + length (words ?v) < FINSH_ARG_MAX \<longrightarrow> \<not> f"
      unfolding split_ok_def n(2) v using q bl pos by auto
    have "cstr b' p = ?w" using cstr_seg [OF s, of b'] b r(2,4,5) q more(2) by simp
    moreover have "p0 < ?q" using pos frame(4) by linarith
    then have "b' ! p0 = b ! p0" "\<And>i. i < p0 \<Longrightarrow> b' ! i = b ! i" using r(4) by simp_all
    ultimately show ?thesis using loop p2 q ws n r(1-3,6,7) b(1) frame
      by (intro split_okI [of _ _ _ _ b' "p # argv'" f]) auto
  qed
qed

lemma msh_split_loop_ok:
  assumes "split_pre len b p argv"
  shows "split_ok len b p argv"
  using assms
proof (induction "len - p" arbitrary: b p argv rule: less_induct)
  case less
  let ?p = "p + length (takeWhile blank (seg b len p))"
  have b: "p \<le> len" "len < length b" "b ! len = 0" "\<forall>i. p \<le> i \<and> i < len \<longrightarrow> b ! i \<noteq> 0" "length argv \<le> FINSH_ARG_MAX"
    using less.prems by (auto simp: split_pre_def)
  obtain b1 where b1: "skip_blank b len p = Some (b1, ?p)" "length b1 = length b"
    "\<And>i. b1 ! i = (if p \<le> i \<and> i < ?p then 0 else b ! i)" using skip_blank_ok [OF b(2,1)] by blast
  have k: "?p \<le> len" using length_takeWhile_le [of blank "seg b len p"] b(1,2) by simp
  have frame: "\<And>i. i < p \<Longrightarrow> b1 ! i = b ! i" "p < len \<Longrightarrow> blank (b ! p) \<Longrightarrow> b1 ! p = 0" "b1 ! len = 0"
    using b1(3) b(2,3) k by (auto simp: seg_Cons)
  have seg1: "seg b1 len ?p = dropWhile blank (seg b len p)"
    using seg_cong [of b1 b ?p len] b1(2,3) b(2) by (simp add: dropWhile_eq_drop seg_drop)
  show ?case
  proof (cases "p < len \<and> length argv < FINSH_ARG_MAX \<and> ?p < len")
    case False
    have "words (seg b len p) = []" if "length argv < FINSH_ARG_MAX" using False that seg1 by (auto simp: words.simps [of "seg b len p"])
    then have "map (cstr b') [] = take (FINSH_ARG_MAX - length argv) (words (seg b len p))" for b'
      using b(5) by (cases "length argv < FINSH_ARG_MAX") auto
    moreover have "\<exists>b' t. msh_split_loop len b p argv = Some (b', argv, t) \<and> (b' = b1 \<or> p = len \<and> b' = b) \<and>
        (length argv < FINSH_ARG_MAX \<longrightarrow> \<not> t)"
      using False b(1,5) b1(1) by (subst msh_split_loop.simps) auto
    then obtain b' t where r: "msh_split_loop len b p argv = Some (b', argv @ [], t)" "b' = b1 \<or> p = len \<and> b' = b"
      "length argv < FINSH_ARG_MAX \<longrightarrow> \<not> t" by auto
    ultimately show ?thesis using b(3) b1(2) frame r(2,3) by (intro split_okI [OF r(1)]) auto
  next
    case True
    then have more: "p < len" "length argv < FINSH_ARG_MAX" "?p < len" by auto
    have seg2: "dropWhile blank (seg b len p) = b1 ! ?p # seg b1 len (?p + 1)" using seg1 more(3) b1(2) b(2) by (metis seg_Cons)
    have pre1: "split_pre len b1 ?p argv" using k frame(3) b1(2,3) b by (auto simp: split_pre_def)
    have nb: "\<not> blank (b1 ! ?p)" using seg2 by (metis hd_dropWhile list.distinct(1) list.sel(1))
    have IH: "split_ok len b' p' argv'" if "?p < p'" "split_pre len b' p' argv'" for b' p' argv'
      using less.hyps [of p' b' argv'] that more(1) by (auto simp: split_pre_def)
    have loop: "msh_split_loop len b p argv =
      (if b1 ! ?p = 34 then Option.bind (skip_quoted b1 len (?p + 1)) (\<lambda>p2.
         if p2 \<ge> len then Some (b1, argv @ [?p + 1], False)
         else Option.bind (wr b1 p2 0) (\<lambda>b2. msh_split_loop len b2 (p2 + 1) (argv @ [?p + 1])))
       else Option.bind (skip_word b1 len ?p) (\<lambda>p2.
         if p2 \<ge> len then Some (b1, argv @ [?p], False) else msh_split_loop len b1 p2 (argv @ [?p])))"
      using more b1(1,2) b(2) by (subst msh_split_loop.simps) (simp add: rd_def)
    note rest = pre1 more(2,3)
    show ?thesis
    proof (cases "b1 ! ?p = 34")
      case True
      then show ?thesis using loop seg2 frame more b1(2)
        by (intro split_quoted [OF rest True IH]) (auto simp: words.simps [of "seg b len p"])
    next
      case False
      then show ?thesis using loop seg1 seg2 frame more b1(2)
        by (intro split_word [OF rest nb IH]) (auto simp: words.simps [of "seg b len p"])
    qed
  qed
qed

section \<open>Splitting a line\<close>

lemma split_words:
  assumes "len < length cmd" and "cmd ! len = 0" and "0 \<notin> set (take len cmd)"
  shows "\<exists>argv b w'. msh_split cmd len w = Some (argv, b, w') \<and> length b = length cmd \<and>
    map (cstr b) argv = take FINSH_ARG_MAX (words (take len cmd)) \<and>
    (length (words (take len cmd)) < FINSH_ARG_MAX \<longrightarrow> w' = w)"
proof -
  have "cmd ! i \<noteq> 0" if "i < len" for i using nth_mem [of i "take len cmd"] assms(1,3) that by auto
  then have "split_ok len cmd 0 []" using assms(1,2) by (intro msh_split_loop_ok) (auto simp: split_pre_def)
  then obtain b argv t where r: "msh_split_loop len cmd 0 [] = Some (b, argv, t)" "length b = length cmd"
    "map (cstr b) argv = take FINSH_ARG_MAX (words (take len cmd))" "length (words (take len cmd)) < FINSH_ARG_MAX \<longrightarrow> \<not> t"
    by (auto simp: split_ok_def seg_def)
  then show ?thesis by (simp add: msh_split_def)
qed

text \<open>C3: \<^verbatim>\<open>msh_split\<close>, which writes terminators into the line and keeps pointers, ends, stays inside the line and delivers the words of the
  line, at most the first ten.\<close>

theorem msh_split_words:
  assumes "len < length cmd" and "cmd ! len = 0" and "0 \<notin> set (take len cmd)"
  shows "\<exists>argv b w'. msh_split cmd len w = Some (argv, b, w') \<and> length b = length cmd \<and>
    map (cstr b) argv = take FINSH_ARG_MAX (words (take len cmd))"
  using split_words [OF assms] by blast

definition demo_line :: bytes where
  "demo_line = ascii ''say '' @ [34] @ ascii ''a b'' @ [34] @ ascii ''  c''"

lemma demo_words: "words demo_line = [ascii ''say'', ascii ''a b'', ascii ''c'']"
  by (simp add: demo_line_def ascii_def words.simps blank_def)

theorem msh_split_words_witness:
  "\<exists>argv b w'. msh_split (demo_line @ [0, 7]) 12 \<lparr>out = [], app = ()\<rparr> = Some (argv, b, w') \<and>
    map (cstr b) argv = [ascii ''say'', ascii ''a b'', ascii ''c'']"
proof -
  have l: "length demo_line = 12" "0 \<notin> set demo_line" by (simp_all add: demo_line_def ascii_def)
  then show ?thesis using msh_split_words [of 12 "demo_line @ [0, 7]" "\<lparr>out = [], app = ()\<rparr>"] demo_words
    by (auto simp: nth_append FINSH_ARG_MAX_def)
qed

definition join :: "bytes list \<Rightarrow> bytes" where
  "join ws = concat (map (\<lambda>w. w @ [32]) ws)"

definition plain_word :: "bytes \<Rightarrow> bool" where
  "plain_word w \<longleftrightarrow> w \<noteq> [] \<and> hd w \<noteq> 34 \<and> (\<forall>c \<in> set w. \<not> blank c \<and> c \<noteq> 0)"

lemma words_join: "(\<And>w. w \<in> set ws \<Longrightarrow> plain_word w) \<Longrightarrow> words (join ws) = ws"
proof (induction ws)
  case (Cons w ws)
  have w: "plain_word w" using Cons.prems by simp
  then obtain c v where cv: "w = c # v" "c \<noteq> 34" "\<not> blank c" by (cases w) (auto simp: plain_word_def)
  have nb: "\<forall>x \<in> set w. \<not> blank x" using w by (simp add: plain_word_def)
  have b32: "blank 32" by (simp add: blank_def)
  have j: "join (w # ws) = w @ 32 # join ws" by (simp add: join_def)
  have "words (32 # join ws) = words (join ws)" using b32 by (simp add: words.simps [of "32 # join ws"] words.simps [of "join ws"])
  moreover have "takeWhile (\<lambda>x. \<not> blank x) (w @ 32 # join ws) = w" "dropWhile (\<lambda>x. \<not> blank x) (w @ 32 # join ws) = 32 # join ws"
    using nb b32 by (simp_all add: takeWhile_append dropWhile_append)
  ultimately have "words (join (w # ws)) = w # words (join ws)"
    unfolding j using cv by (subst words.simps) simp
  then show ?case using Cons by simp
qed (simp add: join_def words.simps)

text \<open>Words without blanks and quotes that are written one after the other, each followed by a blank, are read back.\<close>

theorem msh_split_join:
  assumes "\<And>w. w \<in> set ws \<Longrightarrow> plain_word w" and "length ws \<le> FINSH_ARG_MAX"
  shows "\<exists>argv b w'. msh_split (join ws @ 0 # rest) (length (join ws)) w = Some (argv, b, w') \<and> map (cstr b) argv = ws"
proof -
  have "0 \<notin> set (join ws)" using assms(1) by (auto simp: join_def plain_word_def)
  then obtain argv b w' where "msh_split (join ws @ 0 # rest) (length (join ws)) w = Some (argv, b, w')"
    "map (cstr b) argv = take FINSH_ARG_MAX (words (join ws))"
    using split_words [of "length (join ws)" "join ws @ 0 # rest" w] by auto
  then show ?thesis using words_join [OF assms(1)] assms(2) by simp
qed

theorem msh_split_join_witness:
  "\<exists>argv b w'. msh_split (join [ascii ''list'', ascii ''timer''] @ 0 # []) (length (join [ascii ''list'', ascii ''timer''])) \<lparr>out = [], app = ()\<rparr> =
     Some (argv, b, w') \<and> map (cstr b) argv = [ascii ''list'', ascii ''timer'']"
  by (rule msh_split_join) (auto simp: ascii_def plain_word_def blank_def FINSH_ARG_MAX_def)

section \<open>Running a command\<close>

lemma strn_eq_name:
  assumes "0 \<notin> set name" and "0 \<notin> set (take sz cmd)" and "sz \<le> length cmd"
  shows "strn_eq name cmd sz \<and> sz \<le> length name \<and> (name @ [0]) ! sz = 0 \<longleftrightarrow> name = take sz cmd"
proof -
  have "(name @ [0]) ! sz = 0 \<longleftrightarrow> sz = length name" if "sz \<le> length name"
    using that assms(1) by (cases "sz < length name") (auto simp: nth_append, metis nth_mem)
  then show ?thesis using assms(3) by (auto simp: strn_eq_def)
qed

lemma msh_get_cmd_find:
  assumes "\<And>x. x \<in> set tab \<Longrightarrow> 0 \<notin> set (sc_name x)" and "0 \<notin> set (take sz cmd)" and "sz \<le> length cmd"
  shows "msh_get_cmd tab cmd sz = find (\<lambda>x. sc_name x = take sz cmd) tab"
  using assms(1)
proof (induction tab)
  case (Cons x xs)
  then show ?case using strn_eq_name [OF _ assms(2,3), of "sc_name x"] by auto
qed simp

lemma cstr_0:
  assumes "len < length cmd" and "cmd ! len = 0" and "0 \<notin> set (take len cmd)"
  shows "cstr cmd 0 = take len cmd"
  using assms by (intro cstr_eq) auto

lemma split_first:
  assumes "len < length cmd" and "cmd ! len = 0" and "0 \<notin> set (take len cmd)" and "0 < len" and "\<not> blank (cmd ! 0)" and "cmd ! 0 \<noteq> 34"
    and "msh_split cmd len w = Some (argv, b, w')"
  shows "\<exists>argv'. argv = 0 # argv'"
proof -
  have nz: "cmd ! i \<noteq> 0" if "i < len" for i using nth_mem [of i "take len cmd"] assms(1,3) that by auto
  have "skip_blank cmd len 0 = Some (cmd, 0)" using assms(1,5) by (subst skip_blank.simps) auto
  moreover obtain p where p: "skip_word cmd len 0 = Some p" "p \<le> len"
    using skip_word_ok [OF assms(1), of 0] length_takeWhile_le [of "\<lambda>x. \<not> blank x" "seg cmd len 0"] assms(1) by auto
  ultimately have loop: "msh_split_loop len cmd 0 [] = (if p \<ge> len then Some (cmd, [0], False) else msh_split_loop len cmd p [0])"
    using assms(1,4,6) by (subst msh_split_loop.simps) (auto simp: rd_def FINSH_ARG_MAX_def)
  have "split_ok len cmd p [0]"
    using p(2) nz assms(1,2) by (intro msh_split_loop_ok) (auto simp: split_pre_def FINSH_ARG_MAX_def)
  then show ?thesis using assms(7) loop by (auto simp: split_ok_def msh_split_def split: if_splits)
qed

text \<open>The line without leading blanks is a command line of its own.\<close>

lemma trim_line:
  assumes "len < length line" and "line ! len = 0" and "0 \<notin> set (take len line)"
  defines "k \<equiv> length (takeWhile blank (take len line))"
  shows "len - k < length (drop k line)" and "drop k line ! (len - k) = 0" and "take (len - k) (drop k line) = dropWhile blank (take len line)"
    and "0 \<notin> set (take (len - k) (drop k line))"
proof -
  have k: "k \<le> len" using length_takeWhile_le [of blank "take len line"] assms(1) by (simp add: k_def)
  then show "len - k < length (drop k line)" "drop k line ! (len - k) = 0" using assms(1,2) by auto
  show t: "take (len - k) (drop k line) = dropWhile blank (take len line)"
    using k by (simp add: dropWhile_eq_drop drop_take flip: k_def)
  show "0 \<notin> set (take (len - k) (drop k line))" unfolding t using assms(3) by (meson set_dropWhileD)
qed

lemma words_drop_blank: "words (dropWhile blank s) = words s"
  by (simp add: words.simps [of s] words.simps [of "dropWhile blank s"])

lemma words_first:
  assumes "dropWhile blank s = c # t" and "c \<noteq> 34"
  shows "words s = takeWhile (\<lambda>x. \<not> blank x) (c # t) # words (dropWhile (\<lambda>x. \<not> blank x) (c # t))"
  using assms by (simp add: words.simps [of s])

text \<open>C4: A line of less than ten words that is not blank runs the first command whose name is its first word, with the words as
  arguments, and reports a negative result; without such a command it prints so and changes nothing else.\<close>

theorem msh_exec_runs:
  assumes "len < length line" and "line ! len = 0" and "0 \<notin> set (take len line)" and "s = dropWhile blank (take len line)" and "s \<noteq> []"
    and "length (words s) < FINSH_ARG_MAX" and "\<And>x. x \<in> set tab \<Longrightarrow> plain_word (sc_name x)"
  shows "msh_exec tab line len w =
    (case find (\<lambda>x. sc_name x = takeWhile (\<lambda>c. \<not> blank c) s) tab of
       None \<Rightarrow> Some (-1, rt_kprintf (takeWhile (\<lambda>c. c \<noteq> 32) s @ ascii '': command not found.'' @ [10]) w)
     | Some x \<Rightarrow> (case sc_func x (words s) w of (ret, w1) \<Rightarrow>
         Some (ret, if ret < 0 then rt_kprintf (sc_name x @ ascii '': command failed '' @ dec ret @ ascii ''.'' @ [10]) w1 else w1)))"
proof -
  let ?k = "length (takeWhile blank (take len line))"
  let ?cmd = "drop ?k line" and ?n = "len - ?k" and ?first = "takeWhile (\<lambda>c. \<not> blank c) s"
  note trim = trim_line [OF assms(1-3)]
  have s: "take ?n ?cmd = s" using trim(3) assms(4) by simp
  have n: "?n = length s" "?n \<noteq> 0" using arg_cong [OF s, of length] trim(1) assms(5) by auto
  have c0: "cstr ?cmd 0 = s" using cstr_0 [OF trim(1,2,4)] s by simp
  have sz: "cmd0_size ?cmd ?n = length ?first" unfolding cmd0_size_def s by simp
  have nb: "\<not> blank (hd s)" using assms(4,5) hd_dropWhile by blast
  then have pos: "0 < length ?first" using assms(5) by (cases s) auto
  have first: "take (length ?first) s = ?first" by (metis takeWhile_eq_take)
  have nz: "0 \<notin> set s" using trim(4) s by simp
  have cmd: "msh_get_cmd tab s (length ?first) = find (\<lambda>x. sc_name x = ?first) tab"
    using msh_get_cmd_find [of tab "length ?first" s] assms(7) nz first length_takeWhile_le [of "\<lambda>c. \<not> blank c" s]
    by (auto simp: plain_word_def dest: set_takeWhileD)
  show ?thesis
  proof (cases "find (\<lambda>x. sc_name x = ?first) tab")
    case None
    have "length s < length ?cmd" using n(1) trim(1) by simp
    then show ?thesis unfolding msh_exec_def Let_def using None assms(1) n pos sz c0 cmd
      by (simp add: msh_exec_cmd_def Let_def)
  next
    case (Some x)
    then have x: "x \<in> set tab" "sc_name x = ?first" by (auto simp: find_Some_iff)
    obtain c t where ct: "s = c # t" using assms(5) by (cases s) auto
    have "hd ?first = c" unfolding ct using nb ct by simp
    then have c: "c \<noteq> 34" using assms(7) [OF x(1)] unfolding x(2) plain_word_def by simp
    have cmd0: "?cmd ! 0 = c" using n(2) trim(1) arg_cong [OF s, of "\<lambda>l. l ! 0"] ct by simp
    obtain argv b where sp: "msh_split ?cmd ?n w = Some (argv, b, w)" "map (cstr b) argv = words s"
      using split_words [OF trim(1,2,4), of w] s assms(6) by auto
    have ws: "words s = ?first # words (dropWhile (\<lambda>x. \<not> blank x) s)" using words_first [of s c t] ct c nb by simp
    obtain argv' where a: "argv = 0 # argv'" using split_first [OF trim(1,2,4) _ _ _ sp(1)] n(2) cmd0 c nb ct by auto
    then have b0: "cstr b 0 = sc_name x" using sp(2) ws x(2) by simp
    show ?thesis unfolding msh_exec_def Let_def using Some assms(1) n pos sz c0 cmd sp a b0
      by (simp add: msh_exec_cmd_def Let_def split: prod.splits)
  qed
qed

definition demo_cmd :: "nat finsh_syscall" where
  "demo_cmd = \<lparr>sc_name = ascii ''say'', sc_desc = [], sc_opt = [], sc_func = (\<lambda>argv w. (0, w\<lparr>app := length argv\<rparr>))\<rparr>"

theorem msh_exec_runs_witness:
  "msh_exec [demo_cmd] (demo_line @ [0, 7]) 12 \<lparr>out = [], app = 0\<rparr> = Some (0, \<lparr>out = [], app = 3\<rparr>)"
proof -
  have l: "length demo_line = 12" "0 \<notin> set demo_line" by (simp_all add: demo_line_def ascii_def)
  have d: "dropWhile blank demo_line = demo_line" "takeWhile (\<lambda>c. \<not> blank c) demo_line = ascii ''say''" "demo_line \<noteq> []"
    by (simp_all add: demo_line_def ascii_def blank_def)
  have "plain_word (sc_name demo_cmd)" by (simp add: demo_cmd_def plain_word_def ascii_def blank_def)
  then show ?thesis
    using msh_exec_runs [of 12 "demo_line @ [0, 7]" demo_line "[demo_cmd]" "\<lparr>out = [], app = 0\<rparr>"] l d demo_words
    by (simp add: nth_append FINSH_ARG_MAX_def) (simp add: demo_cmd_def)
qed

lemma words_ne: "dropWhile blank s \<noteq> [] \<Longrightarrow> words s \<noteq> []"
  by (cases "dropWhile blank s") (auto simp: words.simps [of s] split: prod.splits option.splits)

lemma msh_exec_returns:
  assumes "len < length line" and "line ! len = 0" and "0 \<notin> set (take len line)"
  shows "\<exists>r w'. msh_exec tab line len w = Some (r, w')"
proof -
  let ?k = "length (takeWhile blank (take len line))"
  let ?cmd = "drop ?k line" and ?n = "len - ?k"
  note trim = trim_line [OF assms]
  show ?thesis
  proof (cases "?n = 0")
    case True
    then show ?thesis using assms(1) by (simp add: msh_exec_def Let_def)
  next
    case False
    have c0: "cstr ?cmd 0 = take ?n ?cmd" by (rule cstr_0 [OF trim(1,2,4)])
    obtain argv b w' where sp: "msh_split ?cmd ?n w = Some (argv, b, w')" "map (cstr b) argv = take FINSH_ARG_MAX (words (take ?n ?cmd))"
      using split_words [OF trim(1,2,4), of w] by blast
    have "length (take ?n ?cmd) \<noteq> 0" using False trim(1) by simp
    then have "take ?n ?cmd \<noteq> []" by (metis list.size(3))
    then have "dropWhile blank (take ?n ?cmd) \<noteq> []" unfolding trim(3) by simp
    then have "argv \<noteq> []" using words_ne [of "take ?n ?cmd"] sp(2) by (auto simp: FINSH_ARG_MAX_def)
    have short: "length (cstr ?cmd 0) < length ?cmd" unfolding c0 using trim(1) by simp
    have "\<exists>r b w1. msh_exec_cmd tab ?cmd ?n w = Some (r, b, w1) \<and> (\<forall>e. r = Inl e \<longrightarrow> b = ?cmd)"
      using sp(1) \<open>argv \<noteq> []\<close> by (auto simp: msh_exec_cmd_def Let_def split: option.splits prod.splits)
    then obtain r b' w1 where e: "msh_exec_cmd tab ?cmd ?n w = Some (r, b', w1)" "\<forall>x. r = Inl x \<longrightarrow> b' = ?cmd" by blast
    show ?thesis
    proof (cases r)
      case (Inl x)
      then show ?thesis unfolding msh_exec_def Let_def using e False assms(1) short by simp
    next
      case (Inr ret)
      then show ?thesis unfolding msh_exec_def Let_def using e(1) False assms(1) by simp
    qed
  qed
qed

section \<open>Completing a prefix\<close>

lemma str_common_prefix: "prefix u xs \<and> prefix u ys \<longleftrightarrow> prefix u (take (str_common xs ys) xs)"
proof (induction xs ys arbitrary: u rule: str_common.induct)
  case (1 x xs y ys)
  then show ?case by (cases u) auto
qed auto

lemma str_common_le: "str_common xs ys \<le> length xs"
  by (induction xs ys rule: str_common.induct) auto

lemma take_common: "str_common (take n xs) ys \<le> n"
  by (rule order.trans [OF str_common_le]) simp

text \<open>The name kept and the length are those of a string whose prefixes are exactly the common prefixes of the names seen.\<close>

definition shared :: "bytes set \<Rightarrow> bytes \<Rightarrow> bool" where
  "shared M s \<longleftrightarrow> (\<forall>u. prefix u s \<longleftrightarrow> (\<forall>m \<in> M. prefix u m))"

lemma shared_step:
  assumes "shared M (take n p)" and "n \<le> length p"
  shows "shared (insert m M) (take (if str_common p m < n then str_common p m else n) p)"
proof -
  have "prefix u (take n p) \<and> prefix u m \<longleftrightarrow> prefix u (take (if str_common p m < n then str_common p m else n) p)" for u
  proof -
    have t: "prefix u (take k p) \<longleftrightarrow> prefix u p \<and> length u \<le> k" if "k \<le> length p" for k
    proof -
      have "prefix u (take k p)" if "prefix u p" "length u \<le> k"
        using that by (metis prefix_def take_append take_all_iff)
      then show ?thesis using that prefix_length_le [of u "take k p"] take_is_prefix [of k p] prefix_order.trans [of u "take k p" p] by auto
    qed
    show ?thesis using str_common_prefix [of u p m] t [OF assms(2)] t [OF str_common_le] by auto
  qed
  then show ?thesis using assms(1) unfolding shared_def by (metis insert_iff)
qed

lemma complete_loop_shared:
  assumes "\<And>m. m \<in> M \<Longrightarrow> prefix q m" and "shared M (take n p)" and "0 < n" and "n \<le> length p" and "q \<noteq> []"
    and "\<And>name. name \<in> set names \<Longrightarrow> match name \<Longrightarrow> prefix q name"
  shows "\<exists>p' n' w'. complete_loop match names (Some p, n) w = ((Some p', n'), w') \<and> n' \<le> length p' \<and>
    shared (M \<union> set (filter match names)) (take n' p')"
  using assms
proof (induction names arbitrary: M n w)
  case (Cons name names)
  show ?case
  proof (cases "match name")
    case True
    let ?n = "if str_common p name < n then str_common p name else n"
    have sh: "shared (insert name M) (take ?n p)" using shared_step [OF Cons.prems(2,4)] .
    have "prefix q (take ?n p)" using sh Cons.prems(1,6) True by (auto simp: shared_def)
    then have "0 < ?n" using Cons.prems(5) prefix_length_le by (cases "?n = 0") auto
    have le: "?n \<le> length p" using Cons.prems(4) str_common_le [of p name] by auto
    have all: "prefix q m" if "m \<in> insert name M" for m using that Cons.prems(1,6) True by auto
    from \<open>0 < ?n\<close> obtain p' n' w' where "complete_loop match names (Some p, ?n) (rt_kprintf (name @ [10]) w) = ((Some p', n'), w')" "n' \<le> length p'"
      "shared (insert name M \<union> set (filter match names)) (take n' p')"
      using Cons.IH [of "insert name M" ?n "rt_kprintf (name @ [10]) w", OF all sh _ le Cons.prems(5)] Cons.prems(6) by auto
    then show ?thesis using True Cons.prems(3) by (auto simp: Let_def)
  next
    case False
    then show ?thesis using Cons.IH [of M n w] Cons.prems by auto
  qed
qed auto

lemma complete_loop_first:
  assumes "q \<noteq> []" and "\<And>name. name \<in> set names \<Longrightarrow> match name \<Longrightarrow> prefix q name" and "filter match names \<noteq> []"
  shows "\<exists>p n w'. complete_loop match names (None, 0) w = ((Some p, n), w') \<and> n \<le> length p \<and> shared (set (filter match names)) (take n p)"
  using assms
proof (induction names arbitrary: w)
  case (Cons name names)
  show ?case
  proof (cases "match name")
    case True
    have "prefix q name" using Cons.prems(2) True by simp
    then have pos: "0 < length name" using Cons.prems(1) by auto
    have "str_common name name = length name" by (induction name) auto
    then show ?thesis
      using complete_loop_shared [of "{name}" q "length name" name names match] Cons.prems True pos by (auto simp: shared_def)
  next
    case False
    then show ?thesis using Cons by auto
  qed
qed simp

lemma strn_eq_prefix:
  assumes "0 \<notin> set q"
  shows "strn_eq q name (length q) \<longleftrightarrow> prefix q name"
proof
  assume "strn_eq q name (length q)"
  then have t: "take (length q) (name @ [0]) = q" by (simp add: strn_eq_def)
  moreover have "\<not> length q > length name"
  proof
    assume "length q > length name"
    then have "q = name @ [0]" using t by simp
    then show False using assms by simp
  qed
  ultimately show "prefix q name" by (metis take_append take_is_prefix append_Nil2 diff_is_0_eq not_le take_0)
qed (auto simp: strn_eq_def prefix_def)

text \<open>C40: Completion replaces a prefix that some commands have by the longest prefix that all of these commands share, and prints them.\<close>

theorem msh_auto_complete_shared:
  assumes "q = cstr line 0" and "q \<noteq> []" and "ms = filter (prefix q) (map sc_name tab)" and "ms \<noteq> []"
    and "\<And>x. x \<in> set tab \<Longrightarrow> length (sc_name x) \<le> length line"
  shows "\<exists>s w'. msh_auto_complete tab line w = Some (s @ drop (length s) line, w') \<and> prefix q s \<and>
    (\<forall>u. prefix u s \<longleftrightarrow> (\<forall>m \<in> set ms. prefix u m))"
proof -
  have "0 \<notin> set q" using assms(1) by (auto simp: cstr_def dest: set_takeWhileD)
  then have m: "(\<lambda>name. strn_eq q name (length q)) = prefix q" using strn_eq_prefix by blast
  obtain p n w' where r: "complete_loop (prefix q) (map sc_name tab) (None, 0) w = ((Some p, n), w')" "n \<le> length p"
    "shared (set ms) (take n p)"
    using complete_loop_first [of q "map sc_name tab" "prefix q" w] assms(2,3,4) by auto
  have "hd ms \<in> set ms" using assms(4) by simp
  then obtain x where x: "x \<in> set tab" "sc_name x \<in> set ms" unfolding assms(3) by fastforce
  have "prefix (take n p) (sc_name x)" using r(3) x(2) by (auto simp: shared_def)
  then have "length (take n p) \<le> length line" using assms(5) [OF x(1)] prefix_length_le le_trans by blast
  moreover have "prefix q (take n p)" using r(3) assms(3) by (auto simp: shared_def)
  ultimately show ?thesis using r assms(1,2) m
    by (intro exI [of _ "take n p"] exI [of _ w']) (auto simp: msh_auto_complete_def Let_def copy_in_def shared_def)
qed

theorem msh_auto_complete_shared_witness:
  "\<exists>s w'. msh_auto_complete [demo_cmd, demo_cmd\<lparr>sc_name := ascii ''save''\<rparr>] (115 # replicate 80 0) \<lparr>out = [], app = 0\<rparr> =
     Some (s @ drop (length s) (115 # replicate 80 0), w') \<and> prefix (ascii ''sa'') s"
proof -
  let ?tab = "[demo_cmd, demo_cmd\<lparr>sc_name := ascii ''save''\<rparr>]" and ?l = "115 # replicate 80 (0 :: u8)"
  have q: "[115] = cstr ?l 0" by (simp add: cstr_def)
  have ms: "[ascii ''say'', ascii ''save''] = filter (prefix [115]) (map sc_name ?tab)" by (simp add: demo_cmd_def ascii_def)
  have len: "length (sc_name x) \<le> length ?l" if "x \<in> set ?tab" for x using that by (auto simp: demo_cmd_def ascii_def)
  obtain s w' where "msh_auto_complete ?tab ?l \<lparr>out = [], app = 0\<rparr> = Some (s @ drop (length s) ?l, w')"
    "\<forall>u. prefix u s \<longleftrightarrow> (\<forall>m \<in> set [ascii ''say'', ascii ''save'']. prefix u m)"
    using msh_auto_complete_shared [OF q _ ms _ len, of "\<lparr>out = [], app = 0\<rparr>"] by auto
  moreover have "\<forall>m \<in> set [ascii ''say'', ascii ''save'']. prefix (ascii ''sa'') m" by (simp add: ascii_def)
  ultimately show ?thesis by blast
qed

lemma complete_loop_none: "(\<And>name. name \<in> set names \<Longrightarrow> \<not> match name) \<Longrightarrow> complete_loop match names s w = (s, w)"
  by (induction names arbitrary: s) auto

text \<open>An option is completed in place, whatever room is left in the line.\<close>

lemma msh_opt_complete_overruns:
  assumes "cstr line at \<noteq> []" and "prefix (cstr line at) (opt_name x)" and "at + length (opt_name x) > length line"
  shows "msh_opt_complete line at [x] w = None"
proof -
  let ?q = "cstr line at"
  have "0 \<notin> set ?q" by (auto simp: cstr_def dest: set_takeWhileD)
  then have "strn_eq (opt_name x) ?q (length ?q)" using assms(2) by (auto simp: strn_eq_def prefix_def)
  moreover have "str_common u u = length u" for u :: bytes by (induction u) auto
  ultimately show ?thesis using assms by (auto simp: msh_opt_complete_def Let_def copy_in_def)
qed

end
