(* ===== verification/Shell.thy ===== *)
theory Shell
  imports Msh
begin

text \<open>
  The line editor of the shell: \<^verbatim>\<open>components/finsh/shell.c\<close>.

  The record has the fields of \<^verbatim>\<open>struct finsh_shell\<close> that the editor uses and the custom prompt.  The line and the rows of the history are
  lists of as many bytes as the arrays have; a write or a move outside of them is \<open>None\<close>, and so is a prompt with a percent sign
  where the code uses it as a format.  One call of \<open>finsh_key\<close> is one turn of the loop in \<^verbatim>\<open>finsh_thread_entry\<close> with the character read;
  \<open>finsh_run\<close> is the loop over the characters received.  How the shell waits for a character (\<^verbatim>\<open>finsh_getchar\<close>) and changes its device is not
  modelled.

  Shown: as long as the line has less than 80 characters the editor does what an editor with a cursor and a history should, and a
  terminal that shows its output always shows the prompt, the line and the cursor in its place (\<open>shell_edits\<close>, \<open>shell_enter_runs\<close>); but
  a line of 80 characters makes it write outside its buffers (\<open>shell_long_line_overruns\<close>).
\<close>

definition FINSH_CMD_SIZE :: nat where "FINSH_CMD_SIZE = 80"
definition FINSH_HISTORY_LINES :: nat where "FINSH_HISTORY_LINES = 5"

datatype input_stat = WAIT_NORMAL | WAIT_SPEC_KEY | WAIT_FUNC_KEY

record finsh_shell =
  stat :: input_stat
  echo_mode :: bool
  prompt_mode :: bool
  current_history :: nat
  history_count :: nat
  cmd_history :: "bytes list"
  line :: bytes
  line_position :: nat
  line_curpos :: nat
  finsh_prompt_custom :: "bytes option"

section \<open>Prompt and modes\<close>

text \<open>\<open>mem\<close>: whether the heap has room for a copy of the prompt.\<close>

definition finsh_set_prompt :: "bool \<Rightarrow> bytes option \<Rightarrow> finsh_shell \<Rightarrow> finsh_shell" where
  "finsh_set_prompt mem prompt s = s\<lparr>finsh_prompt_custom := (if mem then prompt else None)\<rparr>"

definition finsh_get_prompt :: "finsh_shell \<Rightarrow> bytes" where
  "finsh_get_prompt s =
     (if \<not> prompt_mode s then []
      else
        (let p = (case finsh_prompt_custom s of Some c \<Rightarrow> take RT_CONSOLEBUF_SIZE c | None \<Rightarrow> ascii ''msh '')
         in if length p + 2 < RT_CONSOLEBUF_SIZE then p @ ascii ''>'' else p))"

text \<open>The modes are bit fields of one bit.\<close>

definition finsh_get_prompt_mode :: "finsh_shell \<Rightarrow> nat" where
  "finsh_get_prompt_mode s = (if prompt_mode s then 1 else 0)"

definition finsh_set_prompt_mode :: "nat \<Rightarrow> finsh_shell \<Rightarrow> finsh_shell" where
  "finsh_set_prompt_mode m s = s\<lparr>prompt_mode := odd m\<rparr>"

definition finsh_set_echo :: "nat \<Rightarrow> finsh_shell \<Rightarrow> finsh_shell" where
  "finsh_set_echo e s = s\<lparr>echo_mode := odd e\<rparr>"

definition finsh_get_echo :: "finsh_shell \<Rightarrow> nat" where
  "finsh_get_echo s = (if echo_mode s then 1 else 0)"

text \<open>The prompt as a format string: without directives it is printed as it is.\<close>

definition kprintf_format :: "bytes \<Rightarrow> 's console \<Rightarrow> 's console option" where
  "kprintf_format p w = (if 37 \<in> set p then None else Some (rt_kprintf p w))"

section \<open>Buffers\<close>

definition move :: "bytes \<Rightarrow> nat \<Rightarrow> nat \<Rightarrow> nat \<Rightarrow> bytes option" where
  "move b dst src n =
     (if dst + n \<le> length b \<and> src + n \<le> length b then Some (take dst b @ take n (drop src b) @ drop (dst + n) b) else None)"

definition line_len :: "bytes \<Rightarrow> nat option" where
  "line_len b = (if 0 \<in> set b then Some (length (cstr b 0)) else None)"

definition set_line :: "bytes \<Rightarrow> nat \<Rightarrow> finsh_shell \<Rightarrow> finsh_shell" where
  "set_line b n s = s\<lparr>line := b, line_position := n, line_curpos := n\<rparr>"

text \<open>The same character printed several times, by a call each.\<close>

definition backs :: "nat \<Rightarrow> 's console \<Rightarrow> 's console" where
  "backs n w = (rt_kprintf [8] ^^ n) w"

section \<open>History\<close>

definition shell_handle_history :: "finsh_shell \<Rightarrow> 's console \<Rightarrow> 's console" where
  "shell_handle_history s w = rt_kprintf (finsh_get_prompt s @ cstr (line s) 0) (rt_kprintf [27, 91, 50, 75, 13] w)"

definition history_row :: "finsh_shell \<Rightarrow> bytes option" where
  "history_row s = copy_in (replicate FINSH_CMD_SIZE 0) 0 (take (line_position s) (line s))"

definition shell_push_history :: "finsh_shell \<Rightarrow> finsh_shell option" where
  "shell_push_history s =
     map_option (\<lambda>t. t\<lparr>current_history := history_count t\<rparr>)
       (if line_position s \<noteq> 0 then
          (if history_count s \<ge> FINSH_HISTORY_LINES then
             (if cmd_history s ! (FINSH_HISTORY_LINES - 1) \<noteq> take FINSH_CMD_SIZE (line s)
              then map_option (\<lambda>r. s\<lparr>cmd_history := tl (cmd_history s) @ [r], history_count := FINSH_HISTORY_LINES\<rparr>) (history_row s)
              else Some s)
           else
             (if history_count s = 0 \<or> cmd_history s ! (history_count s - 1) \<noteq> take FINSH_CMD_SIZE (line s)
              then map_option (\<lambda>r. s\<lparr>cmd_history := (cmd_history s)[history_count s := r], history_count := history_count s + 1\<rparr>)
                     (history_row s)
              else Some s))
        else Some s)"

text \<open>The line of the history that is selected becomes the line.\<close>

definition recall :: "finsh_shell \<Rightarrow> 's console \<Rightarrow> (finsh_shell \<times> 's console) option" where
  "recall s w =
     do {
       b \<leftarrow> copy_in (line s) 0 (cmd_history s ! current_history s);
       n \<leftarrow> line_len b;
       (let s1 = set_line b n s in Some (s1, shell_handle_history s1 w))
     }"

section \<open>Keys\<close>

definition key_up :: "finsh_shell \<Rightarrow> 's console \<Rightarrow> (finsh_shell \<times> 's console) option" where
  "key_up s w = (if current_history s > 0 then recall (s\<lparr>current_history := current_history s - 1\<rparr>) w else Some (s, w))"

definition key_down :: "finsh_shell \<Rightarrow> 's console \<Rightarrow> (finsh_shell \<times> 's console) option" where
  "key_down s w =
     (if int (current_history s) < int (history_count s) - 1 then recall (s\<lparr>current_history := current_history s + 1\<rparr>) w
      else if history_count s \<noteq> 0 then recall (s\<lparr>current_history := history_count s - 1\<rparr>) w
      else Some (s, w))"

definition key_left :: "finsh_shell \<Rightarrow> 's console \<Rightarrow> (finsh_shell \<times> 's console) option" where
  "key_left s w = Some (if line_curpos s \<noteq> 0 then (s\<lparr>line_curpos := line_curpos s - 1\<rparr>, rt_kprintf [8] w) else (s, w))"

definition key_right :: "finsh_shell \<Rightarrow> 's console \<Rightarrow> (finsh_shell \<times> 's console) option" where
  "key_right s w =
     (if line_curpos s < line_position s
      then map_option (\<lambda>c. (s\<lparr>line_curpos := line_curpos s + 1\<rparr>, rt_kprintf [c] w)) (rd (line s) (line_curpos s))
      else Some (s, w))"

definition shell_auto_complete :: "'s finsh_syscall list \<Rightarrow> finsh_shell \<Rightarrow> 's console \<Rightarrow> (bytes \<times> 's console) option" where
  "shell_auto_complete tab s w =
     do {
       (b, w1) \<leftarrow> msh_auto_complete tab (line s) (rt_kprintf [10] w);
       (b, w2) \<leftarrow> msh_opt_auto_complete tab (last (last (cmd_history s))) b w1;
       Some (b, rt_kprintf (finsh_get_prompt s @ cstr b 0) w2)
     }"

definition key_tab :: "'s finsh_syscall list \<Rightarrow> finsh_shell \<Rightarrow> 's console \<Rightarrow> (finsh_shell \<times> 's console) option" where
  "key_tab tab s w =
     do {
       (b, w1) \<leftarrow> shell_auto_complete tab s (backs (line_curpos s) w);
       n \<leftarrow> line_len b;
       Some (set_line b n s, w1)
     }"

definition key_back :: "finsh_shell \<Rightarrow> 's console \<Rightarrow> (finsh_shell \<times> 's console) option" where
  "key_back s w =
     (if line_curpos s = 0 then Some (s, w)
      else
        (let p = (line_position s + 2 ^ 16 - 1) mod 2 ^ 16; c = line_curpos s - 1;
             s1 = s\<lparr>line_position := p, line_curpos := c\<rparr>
         in if p > c then
              do {
                b1 \<leftarrow> move (line s) c (c + 1) (p - c);
                b2 \<leftarrow> wr b1 p 0;
                Some (s1\<lparr>line := b2\<rparr>, backs (p - c + 1) (rt_kprintf ([8] @ cstr b2 c @ [32, 32, 8]) w))
              }
            else map_option (\<lambda>b. (s1\<lparr>line := b\<rparr>, rt_kprintf [8, 32, 8] w)) (wr (line s) p 0)))"

definition key_enter :: "'s finsh_syscall list \<Rightarrow> finsh_shell \<Rightarrow> 's console \<Rightarrow> (finsh_shell \<times> 's console) option" where
  "key_enter tab s w =
     do {
       s1 \<leftarrow> shell_push_history s;
       (r, w2) \<leftarrow> msh_exec tab (line s1) (line_position s1) (if echo_mode s1 then rt_kprintf [10] w else w);
       w3 \<leftarrow> kprintf_format (finsh_get_prompt s1) w2;
       Some (set_line (replicate (FINSH_CMD_SIZE + 1) 0) 0 s1, w3)
     }"

definition key_insert :: "u8 \<Rightarrow> finsh_shell \<Rightarrow> 's console \<Rightarrow> (finsh_shell \<times> 's console) option" where
  "key_insert ch s w =
     (let p = (if line_position s \<ge> FINSH_CMD_SIZE then 0 else line_position s); c = line_curpos s
      in do {
           (b, w1) \<leftarrow>
             (if c < p then
                do {
                  b1 \<leftarrow> move (line s) (c + 1) c (p - c);
                  b2 \<leftarrow> wr b1 c ch;
                  Some (b2, backs (p - c) (if echo_mode s then rt_kprintf (cstr b2 c) w else w))
                }
              else map_option (\<lambda>b. (b, if echo_mode s then rt_kprintf [ch] w else w)) (wr (line s) p ch));
           (let p' = p + 1; c' = (c + 1) mod 2 ^ 16
            in Some (if p' \<ge> FINSH_CMD_SIZE then (set_line b 0 s, w1)
                     else (s\<lparr>line := b, line_position := p', line_curpos := c'\<rparr>, w1)))
         })"

definition plain_key :: "'s finsh_syscall list \<Rightarrow> u8 \<Rightarrow> finsh_shell \<Rightarrow> 's console \<Rightarrow> (finsh_shell \<times> 's console) option" where
  "plain_key tab ch s w =
     (if ch = 0 \<or> ch = 0xFF then Some (s, w)
      else if ch = 9 then key_tab tab s w
      else if ch = 0x7f \<or> ch = 8 then key_back s w
      else if ch = 13 \<or> ch = 10 then key_enter tab s w
      else key_insert ch s w)"

definition finsh_key :: "'s finsh_syscall list \<Rightarrow> u8 \<Rightarrow> finsh_shell \<Rightarrow> 's console \<Rightarrow> (finsh_shell \<times> 's console) option" where
  "finsh_key tab ch s w =
     (let s1 = s\<lparr>stat := WAIT_NORMAL\<rparr>
      in if ch = 0x1b then Some (s\<lparr>stat := WAIT_SPEC_KEY\<rparr>, w)
         else if stat s = WAIT_SPEC_KEY \<and> ch = 0x5b then Some (s\<lparr>stat := WAIT_FUNC_KEY\<rparr>, w)
         else if stat s = WAIT_FUNC_KEY \<and> ch = 0x41 then key_up s1 w
         else if stat s = WAIT_FUNC_KEY \<and> ch = 0x42 then key_down s1 w
         else if stat s = WAIT_FUNC_KEY \<and> ch = 0x44 then key_left s1 w
         else if stat s = WAIT_FUNC_KEY \<and> ch = 0x43 then key_right s1 w
         else plain_key tab ch s1 w)"

fun finsh_run :: "'s finsh_syscall list \<Rightarrow> bytes \<Rightarrow> finsh_shell \<times> 's console \<Rightarrow> (finsh_shell \<times> 's console) option" where
  "finsh_run tab [] sw = Some sw"
| "finsh_run tab (ch # chs) sw = Option.bind (finsh_key tab ch (fst sw) (snd sw)) (finsh_run tab chs)"

text \<open>The shell as \<^verbatim>\<open>finsh_system_init\<close> and the start of the thread leave it.\<close>

definition finsh_init :: finsh_shell where
  "finsh_init = \<lparr>stat = WAIT_NORMAL, echo_mode = True, prompt_mode = True, current_history = 0, history_count = 0,
     cmd_history = replicate FINSH_HISTORY_LINES (replicate FINSH_CMD_SIZE 0), line = replicate (FINSH_CMD_SIZE + 1) 0,
     line_position = 0, line_curpos = 0, finsh_prompt_custom = None\<rparr>"

section \<open>An editor and a terminal\<close>

text \<open>What the editor should do: the text left and right of the cursor, the lines entered before, and the one shown.\<close>

record editor =
  ed_left :: bytes
  ed_right :: bytes
  ed_hist :: "bytes list"
  ed_idx :: nat

datatype key = Key_Char u8 | Key_Back | Key_Left | Key_Right | Key_Up | Key_Down

definition ed_show :: "nat \<Rightarrow> editor \<Rightarrow> editor" where
  "ed_show i e = e\<lparr>ed_idx := i, ed_left := ed_hist e ! i, ed_right := []\<rparr>"

fun ed_key :: "key \<Rightarrow> editor \<Rightarrow> editor" where
  "ed_key (Key_Char c) e = e\<lparr>ed_left := ed_left e @ [c]\<rparr>"
| "ed_key Key_Back e = e\<lparr>ed_left := butlast (ed_left e)\<rparr>"
| "ed_key Key_Left e = (if ed_left e = [] then e else e\<lparr>ed_left := butlast (ed_left e), ed_right := last (ed_left e) # ed_right e\<rparr>)"
| "ed_key Key_Right e = (if ed_right e = [] then e else e\<lparr>ed_left := ed_left e @ [hd (ed_right e)], ed_right := tl (ed_right e)\<rparr>)"
| "ed_key Key_Up e = (if ed_idx e = 0 then e else ed_show (ed_idx e - 1) e)"
| "ed_key Key_Down e = (if ed_hist e = [] then e else ed_show (min (ed_idx e + 1) (length (ed_hist e) - 1)) e)"

fun key_bytes :: "key \<Rightarrow> bytes" where
  "key_bytes (Key_Char c) = [c]"
| "key_bytes Key_Back = [8]"
| "key_bytes Key_Left = [27, 91, 68]"
| "key_bytes Key_Right = [27, 91, 67]"
| "key_bytes Key_Up = [27, 91, 65]"
| "key_bytes Key_Down = [27, 91, 66]"

definition printable :: "u8 \<Rightarrow> bool" where
  "printable c \<longleftrightarrow> 32 \<le> c \<and> c < 127"

definition key_ok :: "key \<Rightarrow> editor \<Rightarrow> bool" where
  "key_ok k e \<longleftrightarrow> (case k of Key_Char c \<Rightarrow> printable c \<and> length (ed_left e @ ed_right e) < FINSH_CMD_SIZE - 1 | _ \<Rightarrow> True)"

definition padded :: "nat \<Rightarrow> bytes \<Rightarrow> bytes" where
  "padded n t = t @ replicate (n - length t) 0"

definition text_ok :: "bytes \<Rightarrow> bool" where
  "text_ok t \<longleftrightarrow> length t < FINSH_CMD_SIZE \<and> (\<forall>c \<in> set t. printable c)"

definition edits :: "finsh_shell \<Rightarrow> editor \<Rightarrow> bool" where
  "edits s e \<longleftrightarrow> stat s = WAIT_NORMAL \<and> text_ok (ed_left e @ ed_right e) \<and>
     line s = padded (FINSH_CMD_SIZE + 1) (ed_left e @ ed_right e) \<and>
     line_position s = length (ed_left e @ ed_right e) \<and> line_curpos s = length (ed_left e) \<and>
     history_count s = length (ed_hist e) \<and> length (ed_hist e) \<le> FINSH_HISTORY_LINES \<and>
     current_history s = ed_idx e \<and> ed_idx e \<le> length (ed_hist e) \<and> length (cmd_history s) = FINSH_HISTORY_LINES \<and>
     (\<forall>i < length (ed_hist e). cmd_history s ! i = padded FINSH_CMD_SIZE (ed_hist e ! i)) \<and>
     (\<forall>h \<in> set (ed_hist e). h \<noteq> [] \<and> text_ok h)"

text \<open>One row of a terminal.  It knows the backspace, the ends of lines and the sequence that erases the row.\<close>

record terminal =
  row :: bytes
  col :: nat
  esc :: nat

definition term_byte :: "u8 \<Rightarrow> terminal \<Rightarrow> terminal" where
  "term_byte b t =
     (if esc t = 1 then t\<lparr>esc := if b = 91 then 2 else 0\<rparr>
      else if esc t = 2 then t\<lparr>esc := if b = 50 then 3 else 0\<rparr>
      else if esc t = 3 then (if b = 75 then t\<lparr>row := [], esc := 0\<rparr> else t\<lparr>esc := 0\<rparr>)
      else if b = 27 then t\<lparr>esc := 1\<rparr>
      else if b = 8 then t\<lparr>col := col t - 1\<rparr>
      else if b = 13 then t\<lparr>col := 0\<rparr>
      else if b = 10 then t\<lparr>row := [], col := 0\<rparr>
      else t\<lparr>row := take (col t) (row t @ replicate (col t - length (row t)) 32) @ [b] @ drop (col t + 1) (row t), col := col t + 1\<rparr>)"

definition term_show :: "bytes \<Rightarrow> terminal \<Rightarrow> terminal" where
  "term_show = fold term_byte"

definition displays :: "terminal \<Rightarrow> bytes \<Rightarrow> editor \<Rightarrow> bool" where
  "displays t p e \<longleftrightarrow> esc t = 0 \<and> col t = length p + length (ed_left e) \<and>
     (\<exists>k. row t = p @ ed_left e @ ed_right e @ replicate k 32)"

section \<open>Lemmas on buffers and on the terminal\<close>

lemma printable_bytes: "printable c \<Longrightarrow> c \<noteq> 0 \<and> c \<noteq> 0xFF \<and> c \<noteq> 9 \<and> c \<noteq> 0x7f \<and> c \<noteq> 8 \<and> c \<noteq> 13 \<and> c \<noteq> 10 \<and> c \<noteq> 27"
  by (auto simp: printable_def)

lemma text_nz: "text_ok t \<Longrightarrow> 0 \<notin> set t"
  using printable_bytes by (auto simp: text_ok_def)

lemma padded_length [simp]: "length t \<le> n \<Longrightarrow> length (padded n t) = n"
  by (simp add: padded_def)

lemma cstr_padded: "0 \<notin> set t \<Longrightarrow> length t < n \<Longrightarrow> i \<le> length t \<Longrightarrow> cstr (padded n t) i = drop i t"
  by (rule cstr_eq) (auto simp: padded_def nth_append dest: in_set_dropD)

lemma line_len_padded: "0 \<notin> set t \<Longrightarrow> length t < n \<Longrightarrow> line_len (padded n t) = Some (length t)"
  using cstr_padded [of t n 0] by (simp add: line_len_def padded_def)

lemma copy_in_padded:
  assumes "length t \<le> m" and "m \<le> length b" and "\<forall>i. m \<le> i \<and> i < length b \<longrightarrow> b ! i = 0"
  shows "copy_in b 0 (padded m t) = Some (padded (length b) t)"
proof -
  have "drop m b = replicate (length b - m) 0" using assms(3) by (intro nth_equalityI) auto
  then show ?thesis using assms(1,2) by (simp add: copy_in_def padded_def flip: replicate_add)
qed

lemma wr_end: "length t < n \<Longrightarrow> wr (padded n t) (length t) c = Some (padded n (t @ [c]))"
  by (cases "n - length t") (auto simp: wr_def padded_def list_update_append)

lemma insert_middle:
  assumes "length (l @ r) < n" and "r \<noteq> []"
  shows "\<exists>b. move (padded n (l @ r)) (length l + 1) (length l) (length r) = Some b \<and> wr b (length l) c = Some (padded n (l @ [c] @ r))"
proof -
  obtain x v where r: "r = x # v" using assms(2) by (cases r) auto
  obtain m where m: "n - length (l @ r) = Suc m" using assms(1) by (metis Suc_diff_Suc)
  have "move (padded n (l @ r)) (length l + 1) (length l) (length r) = Some (l @ [x] @ r @ replicate m 0)"
    using assms(1) m r by (auto simp: move_def padded_def)
  moreover have "n - length (l @ [c] @ r) = m" using m by simp
  ultimately show ?thesis by (auto simp: wr_def padded_def list_update_append)
qed

lemma delete_middle:
  assumes "length (l @ x # r) < n" and "r \<noteq> []"
  shows "\<exists>b. move (padded n (l @ x # r)) (length l) (length l + 1) (length r) = Some b \<and>
    wr b (length l + length r) 0 = Some (padded n (l @ r))"
proof -
  obtain v y where r: "r = v @ [y]" using assms(2) by (cases r rule: rev_cases) auto
  let ?m = "n - length (l @ x # r)"
  have "move (padded n (l @ x # r)) (length l) (length l + 1) (length r) = Some (l @ r @ [y] @ replicate ?m 0)"
    using assms(1) by (auto simp: move_def padded_def r)
  moreover have "n - length (l @ r) = Suc ?m" using assms(1) by simp
  ultimately show ?thesis using assms(1) by (auto simp: wr_def padded_def list_update_append)
qed

lemma out_kprintf: "length o' < 127 \<Longrightarrow> out (rt_kprintf o' w) = out w @ o'"
  by (simp add: rt_kprintf_def RT_CONSOLEBUF_SIZE_def)

lemma out_backs: "out (backs n w) = out w @ replicate n 8"
  by (induction n) (auto simp: backs_def out_kprintf replicate_append_same)

lemma term_append: "term_show (a @ b) t = term_show b (term_show a t)"
  by (simp add: term_show_def)

lemma term_text:
  assumes "list_all printable a" and "esc t = 0" and "col t \<le> length (row t)"
  shows "term_show a t = t\<lparr>row := take (col t) (row t) @ a @ drop (col t + length a) (row t), col := col t + length a\<rparr>"
  using assms
proof (induction a arbitrary: t)
  case (Cons c a)
  let ?t = "term_byte c t"
  have c: "printable c" using Cons.prems(1) by simp
  have t: "?t = t\<lparr>row := take (col t) (row t) @ [c] @ drop (col t + 1) (row t), col := col t + 1\<rparr>"
    using printable_bytes [OF c] Cons.prems(2,3) by (simp add: term_byte_def)
  have "term_show a ?t = ?t\<lparr>row := take (col ?t) (row ?t) @ a @ drop (col ?t + length a) (row ?t), col := col ?t + length a\<rparr>"
    using Cons.prems by (intro Cons.IH) (auto simp: t)
  then show ?case using Cons.prems(3) by (simp add: term_show_def t min_absorb2 add.commute)
qed (simp add: term_show_def)

lemma term_backs: "esc t = 0 \<Longrightarrow> term_show (replicate n 8) t = t\<lparr>col := col t - n\<rparr>"
  by (induction n arbitrary: t) (auto simp: term_show_def term_byte_def)

section \<open>The keys of the editor\<close>

text \<open>What a key does to the shell, to the text printed and to the screen.\<close>

definition key_done :: "finsh_shell \<Rightarrow> editor \<Rightarrow> editor \<Rightarrow> (finsh_shell \<times> 's console) option \<Rightarrow> 's console \<Rightarrow> bool" where
  "key_done s e e' r w \<longleftrightarrow>
     (\<exists>s' w' bs. r = Some (s', w') \<and> edits s' e' \<and> echo_mode s' = echo_mode s \<and> finsh_get_prompt s' = finsh_get_prompt s \<and>
        out w' = out w @ bs \<and> app w' = app w \<and>
        (\<forall>t. displays t (finsh_get_prompt s) e \<longrightarrow> displays (term_show bs t) (finsh_get_prompt s) e'))"

lemma key_doneI:
  assumes "r = Some (s', w')" and "edits s' e'" and "echo_mode s' = echo_mode s" and "finsh_get_prompt s' = finsh_get_prompt s"
    and "out w' = out w @ bs" and "app w' = app w"
    and "\<And>t. displays t (finsh_get_prompt s) e \<Longrightarrow> displays (term_show bs t) (finsh_get_prompt s) e'"
  shows "key_done s e e' r w"
  using assms by (auto simp: key_done_def)

lemma prompt_cong [simp]:
  "finsh_get_prompt (s\<lparr>stat := x\<rparr>) = finsh_get_prompt s" "finsh_get_prompt (s\<lparr>line := b\<rparr>) = finsh_get_prompt s"
  "finsh_get_prompt (s\<lparr>line_position := n\<rparr>) = finsh_get_prompt s" "finsh_get_prompt (s\<lparr>line_curpos := n\<rparr>) = finsh_get_prompt s"
  "finsh_get_prompt (s\<lparr>current_history := n\<rparr>) = finsh_get_prompt s" "finsh_get_prompt (s\<lparr>cmd_history := h\<rparr>) = finsh_get_prompt s"
  "finsh_get_prompt (s\<lparr>history_count := n\<rparr>) = finsh_get_prompt s" "finsh_get_prompt (set_line b n s) = finsh_get_prompt s"
  by (simp_all add: finsh_get_prompt_def set_line_def)

lemma app_kprintf [simp]: "app (rt_kprintf p w) = app w"
  by (simp add: rt_kprintf_def)

lemma app_backs [simp]: "app (backs n w) = app w"
  by (induction n) (simp_all add: backs_def)

lemma edits_stat: "edits s e \<Longrightarrow> s\<lparr>stat := WAIT_NORMAL\<rparr> = s"
  by (simp add: edits_def)

lemma run_func:
  assumes "edits s e"
  shows "finsh_run tab [27, 91, 65] (s, w) = key_up s w" and "finsh_run tab [27, 91, 66] (s, w) = key_down s w"
    and "finsh_run tab [27, 91, 67] (s, w) = key_right s w" and "finsh_run tab [27, 91, 68] (s, w) = key_left s w"
proof -
  have s: "s\<lparr>stat := WAIT_NORMAL\<rparr> = s" using edits_stat [OF assms] .
  have b: "Option.bind x Some = x" for x :: "(finsh_shell \<times> 'a console) option" by (cases x) simp_all
  have f: "finsh_run tab [] = (Some :: finsh_shell \<times> 'a console \<Rightarrow> _)" by auto
  show "finsh_run tab [27, 91, 65] (s, w) = key_up s w" "finsh_run tab [27, 91, 66] (s, w) = key_down s w"
    "finsh_run tab [27, 91, 67] (s, w) = key_right s w" "finsh_run tab [27, 91, 68] (s, w) = key_left s w"
    using b s by (simp_all add: finsh_key_def Let_def f)
qed

lemma run_plain:
  assumes "edits s e" and "ch \<noteq> 27"
  shows "finsh_run tab [ch] (s, w) = plain_key tab ch s w"
proof -
  have "Option.bind x (finsh_run tab []) = x" for x :: "(finsh_shell \<times> 'a console) option" by (cases x) simp_all
  moreover have "stat s = WAIT_NORMAL" using assms(1) by (simp add: edits_def)
  ultimately show ?thesis using assms(2) by (simp add: finsh_key_def Let_def edits_stat [OF assms(1)])
qed

lemma displays_print:
  assumes "displays t p e" and "list_all printable a"
  shows "term_show a t = t\<lparr>row := p @ ed_left e @ a @ drop (length a) (ed_right e @ replicate (length (row t) - length (p @ ed_left e @ ed_right e)) 32),
    col := length p + length (ed_left e) + length a\<rparr>"
proof -
  obtain k where k: "esc t = 0" "col t = length p + length (ed_left e)" "row t = p @ ed_left e @ ed_right e @ replicate k 32"
    using assms(1) by (auto simp: displays_def)
  then show ?thesis using term_text [OF assms(2), of t] by simp
qed

lemma displays_print_back:
  assumes "displays t p e" and "list_all printable a"
  shows "\<exists>k. term_show (a @ replicate n 8) t =
    t\<lparr>row := p @ ed_left e @ a @ drop (length a) (ed_right e @ replicate k 32), col := length p + length (ed_left e) + length a - n\<rparr>"
proof -
  note pr = displays_print [OF assms]
  have "esc t = 0" using assms(1) by (simp add: displays_def)
  then show ?thesis unfolding term_append pr
    by (intro exI [of _ "length (row t) - length (p @ ed_left e @ ed_right e)"]) (simp add: term_backs)
qed

lemma key_left_done: "edits s e \<Longrightarrow> key_done s e (ed_key Key_Left e) (key_left s w) w"
proof (cases "ed_left e = []")
  case True
  assume "edits s e"
  then show ?thesis using True
    by (intro key_doneI [of _ s w _ _ _ "[]"]) (auto simp: key_left_def edits_def term_show_def)
next
  case False
  assume e: "edits s e"
  then obtain l x where l: "ed_left e = l @ [x]" using False by (metis rev_exhaust)
  have "displays (term_show [8] t) p (ed_key Key_Left e)" if "displays t p e" for t p
    using that l by (auto simp: displays_def term_show_def term_byte_def)
  then show ?thesis using e l
    by (intro key_doneI [of _ "s\<lparr>line_curpos := line_curpos s - 1\<rparr>" "rt_kprintf [8] w" _ _ _ "[8]"])
       (auto simp: key_left_def edits_def out_kprintf)
qed

lemma key_right_done: "edits s e \<Longrightarrow> key_done s e (ed_key Key_Right e) (key_right s w) w"
proof (cases "ed_right e")
  case Nil
  assume "edits s e"
  then show ?thesis using Nil
    by (intro key_doneI [of _ s w _ _ _ "[]"]) (auto simp: key_right_def edits_def term_show_def)
next
  case (Cons x r)
  assume e: "edits s e"
  have x: "printable x" using e Cons by (simp add: edits_def text_ok_def)
  have "displays (term_show [x] t) p (ed_key Key_Right e)" if "displays t p e" for t p
    using that displays_print [OF that, of "[x]"] Cons x by (auto simp: displays_def)
  moreover have "rd (line s) (line_curpos s) = Some x"
    using e Cons by (simp add: edits_def rd_def padded_def nth_append)
  ultimately show ?thesis using e Cons
    by (intro key_doneI [of _ "s\<lparr>line_curpos := line_curpos s + 1\<rparr>" "rt_kprintf [x] w" _ _ _ "[x]"])
       (auto simp: key_right_def edits_def out_kprintf)
qed

lemma key_char_done:
  assumes e: "edits s e" and k: "key_ok (Key_Char c) e" and echo: "echo_mode s"
  shows "key_done s e (ed_key (Key_Char c) e) (key_insert c s w) w"
proof -
  let ?l = "ed_left e" and ?r = "ed_right e"
  have c: "printable c" and len: "length (?l @ ?r) < 79" using k by (auto simp: key_ok_def FINSH_CMD_SIZE_def)
  have tx: "\<And>x. x \<in> set (?l @ ?r) \<Longrightarrow> printable x" "0 \<notin> set (?l @ [c] @ ?r)"
    using e c printable_bytes by (auto simp: edits_def text_ok_def)
  let ?b = "padded 81 (?l @ [c] @ ?r)"
  let ?s = "s\<lparr>line := ?b, line_position := line_position s + 1, line_curpos := line_curpos s + 1\<rparr>"
  let ?bs = "(c # ?r) @ replicate (length ?r) 8"
  have disp: "displays (term_show ?bs t) p (ed_key (Key_Char c) e)" if d: "displays t p e" for t p
  proof -
    obtain k where "term_show ?bs t = t\<lparr>row := p @ ?l @ (c # ?r) @ drop (length (c # ?r)) (?r @ replicate k 32),
        col := length p + length ?l + length (c # ?r) - length ?r\<rparr>"
      using displays_print_back [OF d, of "c # ?r" "length ?r"] c tx(1) by (auto simp: list_all_iff)
    then show ?thesis using d by (auto simp: displays_def)
  qed
  have "\<exists>w'. key_insert c s w = Some (?s, w') \<and> out w' = out w @ ?bs \<and> app w' = app w"
  proof (cases "?r = []")
    case True
    then have "wr (line s) (line_position s) c = Some ?b" using wr_end [of ?l 81 c] e len by (simp add: edits_def FINSH_CMD_SIZE_def)
    then show ?thesis using e True len echo by (simp add: key_insert_def Let_def edits_def FINSH_CMD_SIZE_def out_kprintf)
  next
    case False
    obtain b where b: "move (padded 81 (?l @ ?r)) (length ?l + 1) (length ?l) (length ?r) = Some b" "wr b (length ?l) c = Some ?b"
      using insert_middle [of ?l ?r 81 c] len False by auto
    have "cstr ?b (length ?l) = c # ?r" using cstr_padded [OF tx(2), of 81 "length ?l"] len by simp
    then show ?thesis using e False len echo b
      by (simp add: key_insert_def Let_def edits_def FINSH_CMD_SIZE_def out_kprintf out_backs)
  qed
  then obtain w' where w': "key_insert c s w = Some (?s, w')" "out w' = out w @ ?bs" "app w' = app w" by blast
  have "edits ?s (ed_key (Key_Char c) e)" using e c len by (auto simp: edits_def text_ok_def FINSH_CMD_SIZE_def)
  then show ?thesis using disp w' by (intro key_doneI [OF w'(1)]) auto
qed

lemma key_back_done:
  assumes e: "edits s e"
  shows "key_done s e (ed_key Key_Back e) (key_back s w) w"
proof (cases "ed_left e" rule: rev_cases)
  case Nil
  then show ?thesis using e by (intro key_doneI [of _ s w _ _ _ "[]"]) (auto simp: key_back_def edits_def term_show_def displays_def)
next
  case (snoc l x)
  let ?r = "ed_right e" and ?b = "padded 81 (l @ ed_right e)"
  have len: "length (l @ x # ?r) < 80" and tx: "0 \<notin> set (l @ ?r)" "\<And>c. c \<in> set ?r \<Longrightarrow> printable c"
    using e snoc printable_bytes by (auto simp: edits_def text_ok_def FINSH_CMD_SIZE_def)
  let ?s = "s\<lparr>line := ?b, line_position := line_position s - 1, line_curpos := line_curpos s - 1\<rparr>"
  have pos: "(line_position s + 2 ^ 16 - 1) mod 2 ^ 16 = length l + length ?r" "line_curpos s - 1 = length l" "line_position s \<noteq> 0"
    "line s = padded 81 (l @ x # ?r)"
    using e snoc len by (auto simp: edits_def FINSH_CMD_SIZE_def mod_if)
  have ed: "edits ?s (ed_key Key_Back e)" using e snoc len by (auto simp: edits_def text_ok_def FINSH_CMD_SIZE_def)
  show ?thesis
  proof (cases "?r = []")
    case True
    have "wr (line s) (length l) 0 = Some ?b"
      using len True pos(4) by (auto simp: wr_def padded_def list_update_append replicate_append_same Suc_diff_Suc [symmetric])
    then have "key_back s w = Some (?s, rt_kprintf [8, 32, 8] w)"
      using e snoc True pos by (simp add: key_back_def Let_def edits_def)
    moreover have "displays (term_show [8, 32, 8] t) p (ed_key Key_Back e)" if "displays t p e" for t p
      using that snoc True by (auto simp: displays_def term_show_def term_byte_def intro: exI [of _ "Suc _"])
    ultimately show ?thesis using ed by (intro key_doneI [of _ ?s "rt_kprintf [8, 32, 8] w" _ _ _ "[8, 32, 8]"]) (auto simp: out_kprintf)
  next
    case False
    obtain b where b: "move (padded 81 (l @ x # ?r)) (length l) (length l + 1) (length ?r) = Some b"
      "wr b (length l + length ?r) 0 = Some ?b" using delete_middle [of l x ?r 81] len False by auto
    have "cstr ?b (length l) = ?r" using cstr_padded [OF tx(1), of 81 "length l"] len by simp
    then have "key_back s w = Some (?s, backs (length ?r + 1) (rt_kprintf ([8] @ ?r @ [32, 32, 8]) w))"
      using e snoc False pos b by (simp add: key_back_def Let_def edits_def)
    moreover have "displays (term_show (([8] @ ?r @ [32, 32, 8]) @ replicate (length ?r + 1) 8) t) p (ed_key Key_Back e)"
      if d: "displays t p e" for t p
    proof -
      let ?t = "term_show [8] t"
      have d1: "displays ?t p (e\<lparr>ed_left := l, ed_right := x # ?r\<rparr>)" using d snoc by (auto simp: displays_def term_show_def term_byte_def)
      have sp: "printable 32" by (simp add: printable_def)
      have bs: "([8] @ ?r @ [32, 32, 8]) @ replicate (length ?r + 1) 8 = [8] @ (?r @ [32, 32]) @ replicate (length ?r + 2) 8" by simp
      obtain k where "term_show ((?r @ [32, 32]) @ replicate (length ?r + 2) 8) ?t =
          ?t\<lparr>row := p @ l @ (?r @ [32, 32]) @ drop (length (?r @ [32, 32])) (x # ?r @ replicate k 32),
            col := length p + length l + length (?r @ [32, 32]) - (length ?r + 2)\<rparr>"
        using displays_print_back [OF d1, of "?r @ [32, 32]" "length ?r + 2"] tx(2) sp by (auto simp: list_all_iff)
      moreover have "[32, 32] @ replicate (k - 1) 32 = replicate (k - 1 + 2) (32 :: u8)" by simp
      ultimately show ?thesis unfolding bs term_append [of "[8]"] using d1 snoc by (auto simp: displays_def) (metis replicate_Suc)
    qed
    ultimately show ?thesis using ed len
      by (intro key_doneI [of _ ?s "backs (length ?r + 1) (rt_kprintf ([8] @ ?r @ [32, 32, 8]) w)" _ _ _
          "([8] @ ?r @ [32, 32, 8]) @ replicate (length ?r + 1) 8"]) (auto simp: out_kprintf out_backs)
  qed
qed

lemma recall_done:
  assumes e: "edits s e" and i: "i < length (ed_hist e)" and p: "list_all printable (finsh_get_prompt s)" "length (finsh_get_prompt s) \<le> 46"
  shows "key_done s e (ed_show i e) (recall (s\<lparr>current_history := i\<rparr>) w) w"
proof -
  let ?h = "ed_hist e ! i" and ?p = "finsh_get_prompt s"
  have h: "text_ok ?h" "0 \<notin> set ?h" "length ?h < 80" "list_all printable ?h"
  proof -
    have "?h \<in> set (ed_hist e)" using i by simp
    then show ok: "text_ok ?h" using e by (simp add: edits_def)
    then show "0 \<notin> set ?h" "length ?h < 80" "list_all printable ?h"
      using text_nz by (auto simp: text_ok_def FINSH_CMD_SIZE_def list_all_iff)
  qed
  have ln: "length (line s) = 81" "line s ! 80 = 0" "cmd_history s ! i = padded 80 ?h"
    using e i by (auto simp: edits_def text_ok_def FINSH_CMD_SIZE_def padded_def nth_append)
  have z: "line s ! k = 0" if "80 \<le> k" "k < 81" for k using that ln(2) by (cases "k = 80") auto
  have c: "copy_in (line s) 0 (padded 80 ?h) = Some (padded 81 ?h)" using copy_in_padded [of ?h 80 "line s"] h(3) ln(1) z by auto
  let ?s = "set_line (padded 81 ?h) (length ?h) (s\<lparr>current_history := i\<rparr>)"
  let ?w = "rt_kprintf (?p @ ?h) (rt_kprintf [27, 91, 50, 75, 13] w)" and ?bs = "[27, 91, 50, 75, 13] @ (?p @ ?h) :: u8 list"
  have "cstr (padded 81 ?h) 0 = ?h" using cstr_padded [of ?h 81 0] h by simp
  then have r: "recall (s\<lparr>current_history := i\<rparr>) w = Some (?s, ?w)"
    using c ln(3) line_len_padded [of ?h 81] h by (simp add: recall_def shell_handle_history_def Let_def set_line_def)
  have "displays (term_show ?bs t) ?p (ed_show i e)" if d: "displays t ?p e" for t
  proof -
    have "term_show [27, 91, 50, 75, 13] t = t\<lparr>row := [], col := 0\<rparr>" using d by (simp add: displays_def term_show_def term_byte_def)
    then have "term_show ?bs t = t\<lparr>row := ?p @ ?h, col := length ?p + length ?h\<rparr>"
      unfolding term_append [of "[27, 91, 50, 75, 13]"]
      using term_text [of "?p @ ?h" "t\<lparr>row := [], col := 0\<rparr>"] d p(1) h(4) by (simp add: displays_def)
    then show ?thesis using d by (simp add: displays_def ed_show_def)
  qed
  moreover have "edits ?s (ed_show i e)" using e i h(1) by (auto simp: edits_def set_line_def ed_show_def FINSH_CMD_SIZE_def)
  moreover have "length (?p @ ?h) < 127" using p(2) h(3) by simp
  ultimately show ?thesis using r by (intro key_doneI [OF r]) (auto simp: set_line_def out_kprintf)
qed

lemma key_up_done:
  assumes "edits s e" and "list_all printable (finsh_get_prompt s)" and "length (finsh_get_prompt s) \<le> 46"
  shows "key_done s e (ed_key Key_Up e) (key_up s w) w"
proof (cases "ed_idx e = 0")
  case True
  then show ?thesis using assms(1) by (intro key_doneI [of _ s w _ _ _ "[]"]) (auto simp: key_up_def edits_def term_show_def)
next
  case False
  then have "ed_idx e - 1 < length (ed_hist e)" using assms(1) by (auto simp: edits_def)
  then show ?thesis using recall_done [OF assms(1) _ assms(2,3)] False assms(1) by (simp add: key_up_def edits_def)
qed

lemma key_down_done:
  assumes "edits s e" and "list_all printable (finsh_get_prompt s)" and "length (finsh_get_prompt s) \<le> 46"
  shows "key_done s e (ed_key Key_Down e) (key_down s w) w"
proof (cases "ed_hist e = []")
  case True
  then show ?thesis using assms(1) by (intro key_doneI [of _ s w _ _ _ "[]"]) (auto simp: key_down_def edits_def term_show_def)
next
  case False
  let ?i = "min (ed_idx e + 1) (length (ed_hist e) - 1)"
  have "0 < length (ed_hist e)" using False by simp
  then have "?i < length (ed_hist e)" by linarith
  moreover have "key_down s w = recall (s\<lparr>current_history := ?i\<rparr>) w"
    using assms(1) False by (auto simp: key_down_def edits_def min_def)
  ultimately show ?thesis using recall_done [OF assms(1) _ assms(2,3), of ?i w] False by simp
qed

lemma key_bytes_done:
  assumes e: "edits s e" and k: "key_ok k e" and echo: "echo_mode s" and p: "list_all printable (finsh_get_prompt s)" "length (finsh_get_prompt s) \<le> 46"
  shows "key_done s e (ed_key k e) (finsh_run tab (key_bytes k) (s, w)) w"
proof (cases k)
  case (Key_Char c)
  then have c: "printable c" using k by (simp add: key_ok_def)
  have "finsh_run tab [c] (s, w) = key_insert c s w"
    using run_plain [OF e, of c] printable_bytes [OF c] by (simp add: plain_key_def)
  then show ?thesis using key_char_done [OF e _ echo, of c w] k Key_Char by simp
next
  case Key_Back
  have "finsh_run tab [8] (s, w) = key_back s w" using run_plain [OF e, of 8] by (simp add: plain_key_def)
  then show ?thesis using key_back_done [OF e, of w] Key_Back by simp
next
  case Key_Left
  then show ?thesis using key_left_done [OF e] by (simp only: key_bytes.simps run_func [OF e])
next
  case Key_Right
  then show ?thesis using key_right_done [OF e] by (simp only: key_bytes.simps run_func [OF e])
next
  case Key_Up
  then show ?thesis using key_up_done [OF e p] by (simp only: key_bytes.simps run_func [OF e])
next
  case Key_Down
  then show ?thesis using key_down_done [OF e p] by (simp only: key_bytes.simps run_func [OF e])
qed

section \<open>Sessions\<close>

fun keys_ok :: "key list \<Rightarrow> editor \<Rightarrow> bool" where
  "keys_ok [] e \<longleftrightarrow> True"
| "keys_ok (k # ks) e \<longleftrightarrow> key_ok k e \<and> keys_ok ks (ed_key k e)"

lemma finsh_run_append: "finsh_run tab (a @ b) sw = Option.bind (finsh_run tab a sw) (finsh_run tab b)"
proof (induction a arbitrary: sw)
  case (Cons c a)
  then have "finsh_run tab (a @ b) = (\<lambda>y. Option.bind (finsh_run tab a y) (finsh_run tab b))" by blast
  then show ?case by simp
qed simp

lemma shell_keys_done:
  assumes "edits s e" and "keys_ok ks e" and "echo_mode s" and "list_all printable (finsh_get_prompt s)" and "length (finsh_get_prompt s) \<le> 46"
  shows "key_done s e (fold ed_key ks e) (finsh_run tab (concat (map key_bytes ks)) (s, w)) w"
  using assms
proof (induction ks arbitrary: s e w)
  case Nil
  then show ?case by (intro key_doneI [of _ s w _ _ _ "[]"]) (auto simp: term_show_def)
next
  case (Cons k ks)
  let ?p = "finsh_get_prompt s"
  obtain s1 w1 b1 where 1: "finsh_run tab (key_bytes k) (s, w) = Some (s1, w1)" "edits s1 (ed_key k e)" "echo_mode s1" "finsh_get_prompt s1 = ?p"
    "out w1 = out w @ b1" "app w1 = app w" "\<And>t. displays t ?p e \<Longrightarrow> displays (term_show b1 t) ?p (ed_key k e)"
    using key_bytes_done [OF Cons.prems(1) _ Cons.prems(3-5), of k tab w] Cons.prems(2,3) by (auto simp: key_done_def)
  obtain s2 w2 b2 where 2: "finsh_run tab (concat (map key_bytes ks)) (s1, w1) = Some (s2, w2)" "edits s2 (fold ed_key ks (ed_key k e))"
    "echo_mode s2" "finsh_get_prompt s2 = ?p" "out w2 = out w1 @ b2" "app w2 = app w1"
    "\<And>t. displays t ?p (ed_key k e) \<Longrightarrow> displays (term_show b2 t) ?p (fold ed_key ks (ed_key k e))"
    using Cons.IH [OF 1(2) _ 1(3), of w1] Cons.prems(2,4,5) 1(3,4) by (auto simp: key_done_def)
  show ?case using 1 2 Cons.prems(3)
    by (intro key_doneI [of _ s2 w2 _ _ _ "b1 @ b2"]) (auto simp: finsh_run_append term_append)
qed

text \<open>C1: While the line keeps below 80 characters, the shell edits as specified: after any sequence of characters, backspaces and
  arrow keys its buffers hold the text, the cursor and the history of the editor, and a terminal that showed the prompt, the text and
  the cursor in its place still does.\<close>

theorem shell_edits:
  assumes "edits s e" and "keys_ok ks e" and "echo_mode s" and "p = finsh_get_prompt s" and "list_all printable p" and "length p \<le> 46"
  shows "\<exists>s' w' bs. finsh_run tab (concat (map key_bytes ks)) (s, w) = Some (s', w') \<and> edits s' (fold ed_key ks e) \<and>
    out w' = out w @ bs \<and> app w' = app w \<and> (\<forall>t. displays t p e \<longrightarrow> displays (term_show bs t) p (fold ed_key ks e))"
  using shell_keys_done [OF assms(1-3), of tab w] assms(4-6) by (auto simp: key_done_def)

definition ed_empty :: editor where
  "ed_empty = \<lparr>ed_left = [], ed_right = [], ed_hist = [], ed_idx = 0\<rparr>"

lemma init_edits: "edits finsh_init ed_empty"
  by (simp add: edits_def finsh_init_def ed_empty_def text_ok_def padded_def FINSH_CMD_SIZE_def FINSH_HISTORY_LINES_def)

lemma init_prompt: "finsh_get_prompt finsh_init = [109, 115, 104, 32, 62]"
  by (simp add: finsh_get_prompt_def finsh_init_def ascii_def RT_CONSOLEBUF_SIZE_def)

theorem shell_edits_witness:
  "\<exists>s' w' bs. finsh_run [] [97, 98, 27, 91, 68, 99, 8, 8] (finsh_init, \<lparr>out = [], app = ()\<rparr>) = Some (s', w') \<and>
    line s' = 98 # replicate 80 0 \<and> line_curpos s' = 0 \<and> out w' = bs \<and>
    displays (term_show bs \<lparr>row = [109, 115, 104, 32, 62], col = 5, esc = 0\<rparr>) [109, 115, 104, 32, 62] (ed_empty\<lparr>ed_right := [98]\<rparr>)"
proof -
  let ?ks = "[Key_Char 97, Key_Char 98, Key_Left, Key_Char 99, Key_Back, Key_Back]" and ?p = "[109, 115, 104, 32, 62] :: bytes"
  have f: "fold ed_key ?ks ed_empty = ed_empty\<lparr>ed_right := [98]\<rparr>" by (simp add: ed_empty_def)
  have "keys_ok ?ks ed_empty" by (simp add: key_ok_def printable_def ed_empty_def FINSH_CMD_SIZE_def)
  moreover have "list_all printable ?p" "length ?p \<le> 46" by (simp_all add: printable_def)
  ultimately obtain s' w' bs where r: "finsh_run [] (concat (map key_bytes ?ks)) (finsh_init, \<lparr>out = [], app = ()\<rparr>) = Some (s', w')"
    "edits s' (ed_empty\<lparr>ed_right := [98]\<rparr>)" "out w' = bs"
    "\<forall>t. displays t ?p ed_empty \<longrightarrow> displays (term_show bs t) ?p (ed_empty\<lparr>ed_right := [98]\<rparr>)"
    using shell_edits [OF init_edits, of ?ks ?p "[]" "\<lparr>out = [], app = ()\<rparr>"] init_prompt unfolding f by (auto simp: finsh_init_def)
  have "displays \<lparr>row = ?p, col = 5, esc = 0\<rparr> ?p ed_empty" by (simp add: displays_def ed_empty_def)
  then have d: "displays (term_show bs \<lparr>row = ?p, col = 5, esc = 0\<rparr>) ?p (ed_empty\<lparr>ed_right := [98]\<rparr>)" using r(4) by blast
  have "line s' = 98 # replicate 80 0" "line_curpos s' = 0"
    using r(2) by (simp_all add: edits_def ed_empty_def padded_def FINSH_CMD_SIZE_def)
  moreover have "concat (map key_bytes ?ks) = [97, 98, 27, 91, 68, 99, 8, 8]" by simp
  ultimately show ?thesis using r(1,3) d by metis
qed

section \<open>Entering a line\<close>

definition ed_push :: "bytes \<Rightarrow> bytes list \<Rightarrow> bytes list" where
  "ed_push t h = (if t = [] \<or> h \<noteq> [] \<and> last h = t then h else (if length h = FINSH_HISTORY_LINES then tl h else h) @ [t])"

lemma padded_inj: "0 \<notin> set t \<Longrightarrow> 0 \<notin> set u \<Longrightarrow> length t < n \<Longrightarrow> length u < n \<Longrightarrow> padded n t = padded n u \<longleftrightarrow> t = u"
  by (metis cstr_padded drop0 le0)

lemma take_padded: "length t \<le> m \<Longrightarrow> m \<le> n \<Longrightarrow> take m (padded n t) = padded m t"
  by (simp add: padded_def)

lemma push_history_ok:
  assumes e: "edits s e" and h': "h' = ed_push (ed_left e @ ed_right e) (ed_hist e)"
  shows "\<exists>hs. shell_push_history s = Some (s\<lparr>cmd_history := hs, history_count := length h', current_history := length h'\<rparr>) \<and>
    length hs = FINSH_HISTORY_LINES \<and> length h' \<le> FINSH_HISTORY_LINES \<and> (\<forall>i < length h'. hs ! i = padded FINSH_CMD_SIZE (h' ! i)) \<and>
    (\<forall>h \<in> set h'. h \<noteq> [] \<and> text_ok h)"
proof -
  let ?t = "ed_left e @ ed_right e" and ?h = "ed_hist e" and ?n = "length (ed_hist e)"
  have t: "text_ok ?t" "0 \<notin> set ?t" "length ?t < 80" using e text_nz [of ?t] by (auto simp: edits_def text_ok_def FINSH_CMD_SIZE_def)
  have s: "line s = padded 81 ?t" "line_position s = length ?t" "history_count s = ?n" "?n \<le> 5" "length (cmd_history s) = 5"
    "\<And>i. i < ?n \<Longrightarrow> cmd_history s ! i = padded 80 (?h ! i)" "\<And>h. h \<in> set ?h \<Longrightarrow> h \<noteq> [] \<and> text_ok h"
    using e by (auto simp: edits_def FINSH_CMD_SIZE_def FINSH_HISTORY_LINES_def)
  have t80: "take 80 (line s) = padded 80 ?t" unfolding s(1) using t(3) by (intro take_padded) auto
  have row: "history_row s = Some (padded 80 ?t)"
    using s(1,2) t(3) by (simp add: history_row_def copy_in_def FINSH_CMD_SIZE_def padded_def)
  have same: "cmd_history s ! (?n - 1) = take 80 (line s) \<longleftrightarrow> last ?h = ?t" if "?h \<noteq> []"
  proof -
    have "text_ok (last ?h)" using s(7) that by simp
    then have "0 \<notin> set (last ?h)" "length (last ?h) < 80" using text_nz by (auto simp: text_ok_def FINSH_CMD_SIZE_def)
    then show ?thesis using s(6) [of "?n - 1"] that padded_inj [of "last ?h" ?t 80] t t80 by (simp add: last_conv_nth)
  qed
  show ?thesis
  proof (cases "?t = [] \<or> ?h \<noteq> [] \<and> last ?h = ?t")
    case True
    then have "h' = ?h" by (simp add: h' ed_push_def)
    moreover have "shell_push_history s = Some (s\<lparr>current_history := ?n\<rparr>)"
    proof (cases "?t = []")
      case empty: True
      then show ?thesis using s(2,3) by (simp add: shell_push_history_def)
    next
      case False
      then have "?h \<noteq> []" "cmd_history s ! (?n - 1) = take 80 (line s)" using True same by auto
      then show ?thesis using s(2,3,4) False by (cases "?n = 5") (auto simp: shell_push_history_def FINSH_HISTORY_LINES_def FINSH_CMD_SIZE_def)
    qed
    moreover have "s\<lparr>cmd_history := cmd_history s, history_count := ?n, current_history := ?n\<rparr> = s\<lparr>current_history := ?n\<rparr>"
      using s(3) by (cases s) simp
    ultimately show ?thesis using s by (intro exI [of _ "cmd_history s"]) (simp add: FINSH_HISTORY_LINES_def FINSH_CMD_SIZE_def)
  next
    case False
    then have new: "?t \<noteq> []" "?h = [] \<or> cmd_history s ! (?n - 1) \<noteq> take 80 (line s)" using same by auto
    show ?thesis
    proof (cases "?n = 5")
      case full: True
      let ?hs = "tl (cmd_history s) @ [padded 80 ?t]"
      have eq: "h' = tl ?h @ [?t]" unfolding h' ed_push_def if_not_P [OF False] using full by (simp add: FINSH_HISTORY_LINES_def)
      have "shell_push_history s = Some (s\<lparr>cmd_history := ?hs, history_count := 5, current_history := 5\<rparr>)"
        using new s(2,3) full row by (auto simp: shell_push_history_def FINSH_HISTORY_LINES_def FINSH_CMD_SIZE_def)
      moreover have "?hs ! i = padded 80 (h' ! i)" if "i < 5" for i
        using s(5) s(6) [of "i + 1"] full that by (cases "i = 4") (auto simp: eq nth_append nth_tl)
      moreover have "h \<noteq> [] \<and> text_ok h" if "h \<in> set h'" for h
      proof -
        have "h \<in> set ?h \<or> h = ?t" using that by (cases ?h) (auto simp: eq)
        then show ?thesis using s(7) t(1) new(1) by blast
      qed
      moreover have "length h' = 5" "length ?hs = 5" using full s(5) by (simp_all add: eq)
      ultimately show ?thesis by (intro exI [of _ ?hs]) (simp add: FINSH_HISTORY_LINES_def FINSH_CMD_SIZE_def)
    next
      case room: False
      let ?hs = "(cmd_history s)[?n := padded 80 ?t]"
      have eq: "h' = ?h @ [?t]" unfolding h' ed_push_def if_not_P [OF False] using room by (simp add: FINSH_HISTORY_LINES_def)
      have "shell_push_history s = Some (s\<lparr>cmd_history := ?hs, history_count := ?n + 1, current_history := ?n + 1\<rparr>)"
        using new s(2,3,4) room row by (auto simp: shell_push_history_def FINSH_HISTORY_LINES_def FINSH_CMD_SIZE_def)
      moreover have "?hs ! i = padded 80 (h' ! i)" if "i < ?n + 1" for i
        using s(4,5) s(6) [of i] room that by (cases "i = ?n") (auto simp: eq nth_append)
      moreover have "h \<noteq> [] \<and> text_ok h" if "h \<in> set h'" for h using that s(7) t(1) new(1) by (auto simp: eq)
      ultimately show ?thesis using s(4,5) room by (intro exI [of _ ?hs]) (simp add: eq FINSH_HISTORY_LINES_def FINSH_CMD_SIZE_def)
    qed
  qed
qed

text \<open>C5: The return key runs the line as a command, on a console where the line has ended, and prints the prompt; the line, unless it is
  empty or the same as the last one, becomes the newest of at most five lines of the history, and the editor starts with an
  empty line.\<close>

theorem shell_enter_runs:
  assumes "edits s e" and "ch = 13 \<or> ch = 10" and "37 \<notin> set (finsh_get_prompt s)" and "t = ed_left e @ ed_right e" and "echo_mode s"
  shows "\<exists>s' r w'. msh_exec tab (padded (FINSH_CMD_SIZE + 1) t) (length t) (rt_kprintf [10] w) = Some (r, w') \<and>
    finsh_run tab [ch] (s, w) = Some (s', rt_kprintf (finsh_get_prompt s) w') \<and>
    edits s' \<lparr>ed_left = [], ed_right = [], ed_hist = ed_push t (ed_hist e), ed_idx = length (ed_push t (ed_hist e))\<rparr>"
proof -
  let ?h = "ed_push t (ed_hist e)"
  obtain hs where hs: "shell_push_history s = Some (s\<lparr>cmd_history := hs, history_count := length ?h, current_history := length ?h\<rparr>)"
    "length hs = FINSH_HISTORY_LINES" "length ?h \<le> FINSH_HISTORY_LINES" "\<forall>i < length ?h. hs ! i = padded FINSH_CMD_SIZE (?h ! i)"
    "\<forall>h \<in> set ?h. h \<noteq> [] \<and> text_ok h"
    using push_history_ok [OF assms(1), of ?h] assms(4) by blast
  let ?s = "set_line (replicate 81 0) 0 (s\<lparr>cmd_history := hs, history_count := length ?h, current_history := length ?h\<rparr>)"
  have t: "0 \<notin> set t" "length t < 80" "line s = padded 81 t" "line_position s = length t"
    using assms(1,4) text_nz [of t] by (auto simp: edits_def text_ok_def FINSH_CMD_SIZE_def)
  have "padded 81 t ! length t = 0" "take (length t) (padded 81 t) = t" using t(2) by (simp_all add: padded_def nth_append)
  then obtain r w' where x: "msh_exec tab (padded 81 t) (length t) (rt_kprintf [10] w) = Some (r, w')"
    using msh_exec_returns [of "length t" "padded 81 t" tab "rt_kprintf [10] w"] t(1,2) by auto
  have "finsh_run tab [ch] (s, w) = key_enter tab s w"
    using run_plain [OF assms(1), of ch tab w] assms(2) by (auto simp: plain_key_def)
  then have "finsh_run tab [ch] (s, w) = Some (?s, rt_kprintf (finsh_get_prompt s) w')"
    using hs(1) x t(3,4) assms(3,5) by (simp add: key_enter_def kprintf_format_def FINSH_CMD_SIZE_def)
  moreover have "edits ?s \<lparr>ed_left = [], ed_right = [], ed_hist = ?h, ed_idx = length ?h\<rparr>"
    using assms(1) hs(2-5) by (auto simp: edits_def set_line_def text_ok_def padded_def FINSH_CMD_SIZE_def)
  ultimately show ?thesis using x by (auto simp: FINSH_CMD_SIZE_def)
qed

theorem shell_enter_runs_witness:
  "\<exists>s' w'. finsh_run [] [13] (finsh_init, \<lparr>out = [], app = ()\<rparr>) = Some (s', w') \<and> edits s' ed_empty"
  using shell_enter_runs [OF init_edits, of 13 "[]" "[]" "\<lparr>out = [], app = ()\<rparr>"] init_prompt
  by (auto simp: ed_empty_def ed_push_def finsh_init_def)

section \<open>A line of 80 characters\<close>

lemma argc_none: "32 \<notin> set s \<Longrightarrow> msh_get_argc s i r = r"
  by (induction s i r rule: msh_get_argc.induct) auto

definition long_text :: "bytes \<Rightarrow> bool" where
  "long_text t \<longleftrightarrow> length t = 80 \<and> (\<forall>c \<in> set t. printable c \<and> c \<noteq> 32)"

lemma long_textD: "long_text t \<Longrightarrow> length t = 80 \<and> 0 \<notin> set t \<and> 32 \<notin> set t"
  using printable_bytes by (auto simp: long_text_def)

lemma complete_long:
  assumes "\<forall>x \<in> set tab. length (sc_name x) < 80" and "long_text t"
  defines "b \<equiv> t @ [0]"
  shows "msh_auto_complete tab b w = Some (b, w)" and "msh_opt_auto_complete tab front b w = Some (b, w)" and "line_len b = Some 80"
proof -
  have t: "length t = 80" "0 \<notin> set t" "32 \<notin> set t" using long_textD [OF assms(2)] by auto
  have c: "cstr b 0 = t" using t by (intro cstr_eq) (auto simp: b_def nth_append)
  have ne: "t \<noteq> []" using t(1) by auto
  have no: "\<not> strn_eq t (sc_name x) 80" if "x \<in> set tab" for x
  proof
    assume "strn_eq t (sc_name x) 80"
    moreover have "length (sc_name x @ [0]) \<le> 80" using assms(1) that by (auto simp: Suc_le_eq)
    then have "take 80 (sc_name x @ [0]) = sc_name x @ [0]" by (rule take_all)
    moreover have "take 80 (t @ [0]) = t" using t(1) by simp
    ultimately have "sc_name x @ [0] = t" by (simp add: strn_eq_def)
    then have "(0 :: u8) \<in> set t" by (metis in_set_conv_decomp)
    then show False using t(2) by simp
  qed
  have "complete_loop (\<lambda>name. strn_eq t name (length t)) (map sc_name tab) (None, 0) w = ((None, 0), w)"
    by (rule complete_loop_none) (use no t(1) in auto)
  then show "msh_auto_complete tab b w = Some (b, w)" using c ne t(1) by (simp add: msh_auto_complete_def Let_def)
  have "msh_get_cmd tab t 80 = None" using assms(1) t(1) by (induction tab) auto
  moreover have "msh_get_argc t 0 (0, 0) = (0, 0)" by (rule argc_none) (use t in simp)
  moreover have "last t \<noteq> 32" using t(3) ne last_in_set by metis
  ultimately show "msh_opt_auto_complete tab front b w = Some (b, w)"
    using c t(1) ne by (simp add: msh_opt_auto_complete_def Let_def)
  show "line_len b = Some 80" using c t(1) by (simp add: line_len_def b_def)
qed

definition at_pos :: "finsh_shell \<Rightarrow> bytes \<Rightarrow> nat \<Rightarrow> nat \<Rightarrow> bool" where
  "at_pos s b p c \<longleftrightarrow> stat s = WAIT_NORMAL \<and> line s = b \<and> line_position s = p \<and> line_curpos s = c"

lemma key_plain:
  assumes "at_pos s b p c" and "ch \<noteq> 27"
  shows "finsh_key tab ch s w = plain_key tab ch s w"
proof -
  have st: "stat s = WAIT_NORMAL" using assms(1) by (simp add: at_pos_def)
  then have eq: "s\<lparr>stat := WAIT_NORMAL\<rparr> = s" by (cases s) simp
  show ?thesis unfolding finsh_key_def Let_def eq using st assms(2) by simp
qed

lemma long_tab:
  assumes "\<forall>x \<in> set tab. length (sc_name x) < 80" and "long_text t" and "at_pos s (t @ [0]) p c"
  shows "\<exists>s' w'. finsh_key tab 9 s w = Some (s', w') \<and> at_pos s' (t @ [0]) 80 80"
proof -
  have ln: "line s = t @ [0]" using assms(3) by (simp add: at_pos_def)
  show ?thesis
    unfolding key_plain [OF assms(3), of 9, simplified] plain_key_def key_tab_def shell_auto_complete_def ln
    using complete_long [OF assms(1,2)] assms(3) by (auto simp: set_line_def at_pos_def)
qed

lemma long_insert:
  assumes "at_pos s b 80 80" and "length b = 81" and "printable d"
  shows "\<exists>s' w'. finsh_key tab d s w = Some (s', w') \<and> at_pos s' (b[0 := d]) 1 81"
proof -
  note d = printable_bytes [OF assms(3)]
  have "wr b 0 d = Some (b[0 := d])" using assms(2) by (simp add: wr_def)
  then show ?thesis using key_plain [OF assms(1), of d tab w] d assms
    by (auto simp: plain_key_def key_insert_def Let_def at_pos_def FINSH_CMD_SIZE_def)
qed

lemma long_back:
  assumes "at_pos s b 1 81" and "length b = 81"
  shows "\<exists>s' w'. finsh_key tab 8 s w = Some (s', w') \<and> at_pos s' (b[0 := 0]) 0 80"
  unfolding key_plain [OF assms(1), of 8, simplified] using assms
  by (auto simp: plain_key_def key_back_def Let_def at_pos_def wr_def)

lemma long_back_overruns:
  assumes "at_pos s b 0 80" and "length b = 81"
  shows "finsh_key tab 8 s w = Option.bind (move b 79 80 65456) (\<lambda>b1. Option.bind (wr b1 65535 0) (\<lambda>b2.
    Some (s\<lparr>line_position := 65535, line_curpos := 79, line := b2\<rparr>,
      backs 65457 (rt_kprintf ([8] @ cstr b2 79 @ [32, 32, 8]) w))))"
    and "finsh_key tab 8 s w = None"
  unfolding key_plain [OF assms(1), of 8, simplified] using assms
  by (auto simp: plain_key_def key_back_def Let_def at_pos_def move_def)

lemma type_text:
  assumes "length t < 80" and "\<forall>c \<in> set t. printable c"
  shows "\<exists>s w'. finsh_run tab t (finsh_init, w) = Some (s, w') \<and> at_pos s (padded 81 t) (length t) (length t)"
proof -
  let ?ks = "map Key_Char t"
  have f: "fold ed_key (map Key_Char u) e = e\<lparr>ed_left := ed_left e @ u\<rparr>" for u e by (induction u arbitrary: e) auto
  have k: "keys_ok (map Key_Char u) e" if "length (ed_left e @ ed_right e) + length u \<le> 79" "\<forall>c \<in> set u. printable c" for u e
    using that by (induction u arbitrary: e) (auto simp: key_ok_def FINSH_CMD_SIZE_def)
  have p: "list_all printable (finsh_get_prompt finsh_init)" "length (finsh_get_prompt finsh_init) \<le> 46"
    by (simp_all add: init_prompt printable_def)
  have "keys_ok ?ks ed_empty" by (rule k) (use assms in \<open>simp_all add: ed_empty_def\<close>)
  moreover have "echo_mode finsh_init" by (simp add: finsh_init_def)
  moreover have "concat (map key_bytes ?ks) = t" by (induction t) simp_all
  ultimately obtain s w1 where 1: "finsh_run tab t (finsh_init, w) = Some (s, w1)" "edits s (ed_empty\<lparr>ed_left := t\<rparr>)"
    using shell_keys_done [OF init_edits, of ?ks tab w] p unfolding f by (auto simp: key_done_def ed_empty_def)
  then show ?thesis by (auto simp: edits_def at_pos_def ed_empty_def FINSH_CMD_SIZE_def)
qed

lemma long_line:
  assumes "long_text t"
  shows "\<exists>s w'. finsh_run tab t (finsh_init, w) = Some (s, w') \<and> at_pos s (t @ [0]) 0 0"
proof -
  obtain u c where t: "t = u @ [c]" "length u = 79" "\<forall>x \<in> set u. printable x" "printable c"
    using assms by (cases t rule: rev_cases) (auto simp: long_text_def)
  obtain s w1 where 1: "finsh_run tab u (finsh_init, w) = Some (s, w1)" "at_pos s (padded 81 u) 79 79"
    using type_text [of u tab w] t(2,3) by auto
  note c = printable_bytes [OF t(4)]
  have "wr (padded 81 u) 79 c = Some (t @ [0])" using wr_end [of u 81 c] t(1,2) by (simp add: padded_def)
  then have "\<exists>s' w'. finsh_key tab c s w1 = Some (s', w') \<and> at_pos s' (t @ [0]) 0 0"
    using key_plain [OF 1(2), of c tab w1] c 1(2)
    by (auto simp: plain_key_def key_insert_def Let_def at_pos_def set_line_def FINSH_CMD_SIZE_def)
  then show ?thesis using 1(1) finsh_run_append [of tab u "[c]"] t(1) by auto
qed

text \<open>C39: whatever 80 characters without a space are typed, the line is taken for empty but stays in the buffer.  Completion then finds it there
  and sets the position to the end of the buffer, the next character moves the position, but not the cursor, to the start, and a
  backspace takes the position to 0 with the cursor at 80; all these keys are served without a fault.  At the second backspace the 16-bit
  position wraps around to 65535 and the call of \<^verbatim>\<open>rt_memmove\<close> moves 65456 bytes from the offset 80 to the offset 79 of the 81 bytes of the
  line, which is the fault.\<close>

theorem shell_long_line_overruns:
  assumes "\<forall>x \<in> set tab. length (sc_name x) < 80" and "length t = 80" and "\<forall>c \<in> set t. printable c \<and> c \<noteq> 32" and "printable d"
  shows "\<exists>s w'. finsh_run tab (t @ [9, d, 8]) (finsh_init, w) = Some (s, w') \<and>
    line s = 0 # tl t @ [0] \<and> line_position s = 0 \<and> line_curpos s = 80 \<and>
    finsh_key tab 8 s w' = Option.bind (move (line s) 79 80 65456) (\<lambda>b1. Option.bind (wr b1 65535 0) (\<lambda>b2.
      Some (s\<lparr>line_position := 65535, line_curpos := 79, line := b2\<rparr>,
        backs 65457 (rt_kprintf ([8] @ cstr b2 79 @ [32, 32, 8]) w')))) \<and>
    finsh_key tab 8 s w' = None"
proof -
  have t: "long_text t" using assms(2,3) by (simp add: long_text_def)
  obtain s1 w1 where 1: "finsh_run tab t (finsh_init, w) = Some (s1, w1)" "at_pos s1 (t @ [0]) 0 0"
    using long_line [OF t] by blast
  obtain s2 w2 where 2: "finsh_key tab 9 s1 w1 = Some (s2, w2)" "at_pos s2 (t @ [0]) 80 80"
    using long_tab [OF assms(1) t 1(2)] by blast
  have l: "length (t @ [0]) = 81" using assms(2) by simp
  obtain s3 w3 where 3: "finsh_key tab d s2 w2 = Some (s3, w3)" "at_pos s3 ((t @ [0])[0 := d]) 1 81"
    using long_insert [OF 2(2) l assms(4)] by blast
  obtain s4 w4 where 4: "finsh_key tab 8 s3 w3 = Some (s4, w4)" "at_pos s4 ((t @ [0])[0 := d, 0 := 0]) 0 80"
    using long_back [OF 3(2)] assms(2) by fastforce
  have b: "(t @ [0])[0 := d, 0 := 0] = 0 # tl t @ [0]" using assms(2) by (cases t) auto
  note f = long_back_overruns [OF 4(2) [unfolded b], of tab w4]
  have "finsh_run tab (t @ [9, d, 8]) (finsh_init, w) = Some (s4, w4)"
    unfolding finsh_run_append 1(1) using 2(1) 3(1) 4(1) by simp
  then show ?thesis using 4(2) f assms(2) unfolding b by (auto simp: at_pos_def)
qed

theorem shell_long_line_overruns_witness:
  "\<exists>s w'. finsh_run [\<lparr>sc_name = ascii ''help'', sc_desc = [], sc_opt = [], sc_func = (\<lambda>_ w. (0, w))\<rparr>] (replicate 80 97 @ [9, 98, 8])
     (finsh_init, \<lparr>out = [], app = ()\<rparr>) = Some (s, w') \<and> line_position s = 0 \<and> line_curpos s = 80 \<and>
   finsh_key [\<lparr>sc_name = ascii ''help'', sc_desc = [], sc_opt = [], sc_func = (\<lambda>_ w. (0, w))\<rparr>] 8 s w' = None"
proof -
  let ?tab = "[\<lparr>sc_name = ascii ''help'', sc_desc = [], sc_opt = [], sc_func = (\<lambda>_ w. (0, w :: unit console))\<rparr>]"
  have "\<forall>x \<in> set ?tab. length (sc_name x) < 80" by (simp add: ascii_def)
  from shell_long_line_overruns [OF this, of "replicate 80 97" 98 "\<lparr>out = [], app = ()\<rparr>"] show ?thesis
    by (auto simp: printable_def)
qed

end
