(* ===== verification/Spec2Isabelle.thy ===== *)
theory Spec2Isabelle
  imports Ringbuffer Semaphore Mutex Event Mailbox Messagequeue Small_Mem Mempool Ctime Drv_Gpio Vsnprintf Drv_Pm Ringblk Drv_Usart Shell
begin

text \<open>
  \<^bold>\<open>The program.\<close>  Firmware for the N32L43x microcontroller: the RT-Thread kernel under \<^verbatim>\<open>src/rtos/rt-thread\<close>, the
  board's drivers under \<^verbatim>\<open>src/drivers\<close> and an application.  \<^verbatim>\<open>src/rtos/meson.build\<close> lists the files that are built and
  \<^verbatim>\<open>src/rtos/port/rtconfig.h\<close> the options: one core, 32 priorities, 1000 ticks a second, small-memory heap, no soft
  timers, no assertions.  The theories model the kernel in this configuration.

  \<^bold>\<open>Parts and how they interact.\<close>  Threads run under a preemptive scheduler (\<^verbatim>\<open>scheduler_up.c\<close>, \<^verbatim>\<open>scheduler_comm.c\<close>), which
  finds the highest ready priority with \<^verbatim>\<open>__rt_ffs\<close> and keeps threads in linked lists (\<^verbatim>\<open>rtservice.h\<close>).  The tick
  interrupt (\<^verbatim>\<open>clock.c\<close>) counts down the time slice and runs the timers (\<^verbatim>\<open>timer.c\<close>); a thread's own timer ends its sleep
  or its wait (\<^verbatim>\<open>thread.c\<close>).  Semaphores, mutexes, events, mailboxes and message queues (\<^verbatim>\<open>ipc.c\<close>) and memory pools
  (\<^verbatim>\<open>mempool.c\<close>) suspend threads on wait lists and wake them.  The small-memory heap (\<^verbatim>\<open>mem.c\<close>), the ring buffer
  (\<^verbatim>\<open>ringbuffer.c\<close>), the string routines (\<^verbatim>\<open>kstring.c\<close>) and formatted output do not depend on threads.  When nothing else runs,
  the idle thread calls power management (\<^verbatim>\<open>pm.c\<close>, \<^verbatim>\<open>lptimer.c\<close>), which sleeps through the board's driver (\<^verbatim>\<open>drv_pm.c\<close>).
  Applications use pins through the pin device (\<^verbatim>\<open>dev_pin.c\<close>) and the board's driver (\<^verbatim>\<open>drv_gpio.c\<close>), and the
  console through the device framework (\<^verbatim>\<open>device.c\<close>, on the object registry \<^verbatim>\<open>object.c\<close>), the serial device (\<^verbatim>\<open>dev_serial.c\<close>) and its
  driver (\<^verbatim>\<open>drv_usart.c\<close>), on which the shell (\<^verbatim>\<open>shell.c\<close>, \<^verbatim>\<open>msh.c\<close>) reads its commands; the drivers use the vendor's firmware library.

  \<^bold>\<open>The theories.\<close>
  \<^item> \<^verbatim>\<open>Rt_Prelude\<close>: fixed-width types, error codes, alignment, memory; lemmas that all theories share.
  \<^item> \<^verbatim>\<open>Kstring\<close> (\<^verbatim>\<open>klibc/kstring.c\<close>): the memory and string routines with their unrolled loops, proved equal to reference
    copies and searches.
  \<^item> \<^verbatim>\<open>Bounded_Fifo\<close>: the contract of a bounded queue (a locale), met by the ring buffer and by the mailbox.
  \<^item> \<^verbatim>\<open>Ringbuffer\<close> (\<^verbatim>\<open>ipc/ringbuffer.c\<close>): mirror-bit ring, every operation against the sequence of its bytes.
  \<^item> \<^verbatim>\<open>Rt_List\<close> (\<^verbatim>\<open>rtservice.h\<close>): doubly and singly linked lists on explicit link fields; the contract of a family of
    linked lists (a locale), met by the pointers and by the queues of the kernel state.
  \<^item> \<^verbatim>\<open>Ringblk\<close> (\<^verbatim>\<open>ipc/ringblk_buf.c\<close>): blocks of any size cut from a ring never overlap, over all sequences of calls; queues of
    blocks are taken and given back whole.
  \<^item> \<^verbatim>\<open>Kernel_State\<close> (\<^verbatim>\<open>rtdef.h\<close>): the thread control block, timers and objects, and one record for the kernel's state.
  \<^item> \<^verbatim>\<open>Ffs\<close> (\<^verbatim>\<open>kservice.c\<close>): the table-driven bit search is the index of the lowest bit.
  \<^item> \<^verbatim>\<open>Scheduler\<close>, \<^verbatim>\<open>Timer\<close>, \<^verbatim>\<open>Thread\<close>, \<^verbatim>\<open>Clock\<close> (\<^verbatim>\<open>scheduler_up.c\<close>, \<^verbatim>\<open>scheduler_comm.c\<close>, \<^verbatim>\<open>cpu_up.c\<close>, \<^verbatim>\<open>timer.c\<close>, \<^verbatim>\<open>thread.c\<close>,
    \<^verbatim>\<open>clock.c\<close>, \<^verbatim>\<open>irq.c\<close>): the kernel invariant \<open>kinv\<close> (every thread is in exactly the list that its state demands and the
    ready bitmap agrees with the ready lists), kept by every operation; the running thread has the highest priority;
    timers stay in order over the wrap-around of the tick; the timer check ends, fires exactly the
    timers that are due and makes the threads whose wait was due ready.
  \<^item> \<^verbatim>\<open>Ipc_Base\<close>: waking and suspending on wait lists for a caller that holds a lock; \<open>kok\<close> adds to \<open>kinv\<close> that a waiting thread
    with a timeout has an active timer.
  \<^item> \<^verbatim>\<open>Semaphore\<close>, \<^verbatim>\<open>Mutex\<close>, \<^verbatim>\<open>Event\<close>, \<^verbatim>\<open>Mailbox\<close>, \<^verbatim>\<open>Messagequeue\<close> (\<^verbatim>\<open>ipc.c\<close>, \<^verbatim>\<open>defunct.c\<close>): each object with its invariant, a
    specification that its calls refine, and theorems over all interleavings of calls.
  \<^item> \<^verbatim>\<open>Block_Alloc\<close>, \<^verbatim>\<open>Free_List\<close>: the contract of a memory provider (a locale), and lists of free blocks.
  \<^item> \<^verbatim>\<open>Small_Mem\<close> (\<^verbatim>\<open>mem.c\<close>) and \<^verbatim>\<open>Mempool\<close> (\<^verbatim>\<open>mempool.c\<close>): both meet that contract; first fit, exact accounting, joining of
    neighbours, contents kept by a resize; a freed block reaches the first waiting thread.
  \<^item> \<^verbatim>\<open>Ctime\<close> (\<^verbatim>\<open>ctime.c\<close>): the calendar conversions invert each other and follow the Gregorian calendar.
  \<^item> \<^verbatim>\<open>Vsnprintf\<close> (\<^verbatim>\<open>rt_vsnprintf_tiny.c\<close>, \<^verbatim>\<open>kstdio.c\<close>): formatted output never writes outside its buffer and returns the length of
    the whole text; printed numbers are read back from the buffer.
  \<^item> \<^verbatim>\<open>Periph_Gpio\<close> (\<^verbatim>\<open>n32l43x_gpio.c\<close>, \<^verbatim>\<open>n32l43x_exti.c\<close>) and \<^verbatim>\<open>Drv_Gpio\<close> (\<^verbatim>\<open>drv_gpio.c\<close>, \<^verbatim>\<open>dev_pin.c\<close>): pin configuration touches
    the fields of its pin only; an attached and enabled handler is called by its interrupt, and no other.
  \<^item> \<^verbatim>\<open>Lptimer\<close> (\<^verbatim>\<open>lptimer.c\<close>), \<^verbatim>\<open>Pm\<close> and \<^verbatim>\<open>Pm_Sleep\<close> (\<^verbatim>\<open>pm.c\<close>), \<^verbatim>\<open>Drv_Pm\<close> (\<^verbatim>\<open>drv_pm.c\<close>, \<^verbatim>\<open>n32l43x_lptim.c\<close>, \<^verbatim>\<open>n32l43x_pwr.c\<close>): the
    selected mode is the lightest that is requested or held; a pass of the idle thread sleeps in that mode, never past a low-power timer, and moves
    the tick by what the low-power timer counted.  The driver's contract is a locale that the board's driver meets.
  \<^item> \<^verbatim>\<open>Rt_Object\<close> (\<^verbatim>\<open>object.c\<close>) and \<^verbatim>\<open>Rt_Device\<close> (\<^verbatim>\<open>device.c\<close>): every object is on exactly the list of its class and is found under its
    name; names of devices are unique; the contract of a device driver (a locale) gives the rules of its reference count.
  \<^item> \<^verbatim>\<open>Msh\<close> (\<^verbatim>\<open>msh.c\<close>, \<^verbatim>\<open>msh_parse.c\<close>) and \<^verbatim>\<open>Shell\<close> (\<^verbatim>\<open>shell.c\<close>): a command line is cut into its words and runs its command; the line editor does
    what an editor with a history should, and the terminal shows it, as long as the line is short enough.
  \<^item> \<^verbatim>\<open>Serial\<close> (\<^verbatim>\<open>dev_serial.c\<close>) and \<^verbatim>\<open>Drv_Usart\<close> (\<^verbatim>\<open>drv_usart.c\<close>, \<^verbatim>\<open>n32l43x_usart.c\<close>, \<^verbatim>\<open>misc.c\<close>): received bytes reach the reader in order
    over all interleavings of interrupts and reads; opening the console programs the port and its pins; a write returns when the transmitter has taken every byte; the driver meets
    the contract of the device framework.

  \<^bold>\<open>Conventions.\<close>  A call that blocks is split where its caller has been suspended: \<open>_enter\<close> is the first part, \<open>_resume\<close> what
  happens when the caller runs again, with the local variables that survive as arguments; the result \<open>Blocked\<close> marks the
  split.  Anything can happen in between: the theorems about runs quantify over interleavings, with a rule for steps
  that leave the object alone.  A critical section is \<open>rt_spin_lock_irqsave\<close> ... \<open>rt_spin_unlock_irqrestore\<close>, which on one core
  locks the scheduler; releasing it can reschedule.  \<open>nest_ok\<close> bounds the nesting of these locks (a 16-bit counter).
  Timeout functions of timers are a parameter.  That the timer check returns is proved for functions that may stop and start timers
  and wake threads (\<open>polite\<close>); which timers fire, and what the idle thread does, for functions that do not touch timers
  (\<open>quiet\<close>, \<open>inert\<close>).  Commands of the shell get their arguments by value.  \<^verbatim>\<open>RT_ASSERT\<close> is off in the configuration, so no definition relies on it.

  The hardware below the drivers is a parameter too: the effect of writes to registers that do not read back, what happens
  between two reads of a status register and during the instruction that sleeps, each with what the manual says of it as a
  hypothesis (\<open>hw_documented\<close>, \<open>hw_sleeps\<close>, \<open>usart_documented\<close>) and a concrete hardware that satisfies it.

  \<^bold>\<open>Loops.\<close>  Loops over data are recursive functions.  Loops that can fail to end are \<open>partial_function (option)\<close>: the timer
  check, the search of the heap, the walk along mutex owners, the reset of a message queue, the splitting of a command line, the scan for the end of a
  string in formatted output, the loops of the serial device that call its driver and the waits for hardware; that they return is proved
  (and for the timer check with a zero period that it does not).  The loop that wakes all threads of a list has fuel one
  more than the list is long, which is enough because each turn takes one thread off (\<open>resume_all_ends\<close>).

  \<^bold>\<open>Not modelled.\<close>  Creation and deletion of kernel objects, which wrap initialisation in heap calls; hooks;
  stacks and the context switch (assembly); the shell's waiting for input and its commands that print kernel state; transmission of serial data by DMA; the other board drivers (buses, converters,
  clock, watchdog), start-up of clocks; multi-core variants.  The components that
  are in the tree and not in the build (file systems, network, and others) are third-party code that this firmware does not use.
\<close>

end
